(* ===== verification/Gram_Prelude.thy ===== *)
theory Gram_Prelude
  imports Main "HOL-Library.Word" "HOL-Library.AList"
begin

text \<open>
  Shared vocabulary of the development: the Go integers the program computes with, the result
  type of code that can panic, the peers every subsystem addresses, maps that the code splits
  into lock shards, and the generic lemmas on lists, maps and counting that the component
  theories use.
\<close>

named_theorems go_simps \<open>unfolding rules for the Go-level wrappers of the prelude\<close>
named_theorems shard_simps \<open>how the sharded maps act on their flat view\<close>

section \<open>Go integers\<close>

text \<open>
  A Go \<open>int64\<close> is an \<open>int\<close> of the range below. \<open>wrap64\<close> is what the machine keeps of a
  mathematical result: two's complement, modulo 2^64. Definitions write it where the source
  adds or subtracts values whose overflow matters.
\<close>

definition max_int64 :: int where
  "max_int64 = 9223372036854775807"

definition in_int64 :: "int \<Rightarrow> bool" where
  "in_int64 x \<longleftrightarrow> - max_int64 - 1 \<le> x \<and> x \<le> max_int64"

definition wrap64 :: "int \<Rightarrow> int" where
  "wrap64 x = (x + 9223372036854775808) mod 18446744073709551616 - 9223372036854775808"

lemma wrap64_id: "in_int64 x \<Longrightarrow> wrap64 x = x"
  by (simp add: wrap64_def in_int64_def max_int64_def)

lemma in_int64_wrap64 [simp]: "in_int64 (wrap64 x)"
  using pos_mod_bound [of "18446744073709551616" "x + 9223372036854775808"]
    pos_mod_sign [of "18446744073709551616" "x + 9223372036854775808"]
  unfolding wrap64_def in_int64_def max_int64_def by linarith

lemma wrap64_wrap64_add [simp]: "wrap64 (wrap64 x + y) = wrap64 (x + y)"
proof -
  have "(wrap64 x + y + 9223372036854775808) mod 18446744073709551616
      = ((x + 9223372036854775808) mod 18446744073709551616 + y) mod 18446744073709551616"
    by (simp add: wrap64_def)
  also have "\<dots> = (x + 9223372036854775808 + y) mod 18446744073709551616"
    by (simp add: mod_add_left_eq)
  finally show ?thesis by (simp add: wrap64_def algebra_simps)
qed

lemma wrap64_wrap64_diff [simp]: "wrap64 (wrap64 x - y) = wrap64 (x - y)"
  using wrap64_wrap64_add [of x "- y"] by simp

lemma wrap64_0 [simp]: "wrap64 0 = 0"
  by (simp add: wrap64_def)

section \<open>Panics and errors\<close>

text \<open>Code that can panic returns an \<open>outcome\<close>; the string is the panic's message.\<close>

datatype 'a outcome = Ret 'a | Panic string

fun bind_outcome :: "'a outcome \<Rightarrow> ('a \<Rightarrow> 'b outcome) \<Rightarrow> 'b outcome" where
  "bind_outcome (Ret x) f = f x"
| "bind_outcome (Panic m) f = Panic m"

lemma bind_outcome_eq_Ret [simp]:
  "bind_outcome r f = Ret y \<longleftrightarrow> (\<exists>x. r = Ret x \<and> f x = Ret y)"
  by (cases r) auto

section \<open>Peers\<close>

text \<open>\<open>domain.PeerType\<close> is a string with the empty string as its zero value.\<close>

datatype peer_type = PeerTypeNone | PeerTypeUser | PeerTypeChannel | PeerTypeCommunity
  | PeerTypeFolder

record peer =
  peer_type :: peer_type
  peer_id :: int

definition zero_peer :: peer where
  "zero_peer = \<lparr>peer_type = PeerTypeNone, peer_id = 0\<rparr>"

text \<open>An MTProto auth key id is eight bytes; \<open>[8]byte{}\<close> is the zero key.\<close>

type_synonym auth_key_id = "64 word"

section \<open>Maps split into lock shards\<close>

text \<open>
  Several components keep a map as an array of shards, each under its own lock, and find the
  shard of a key by hashing it. A sharded map is a function from shard numbers to maps; \<open>flat\<close>
  is the one map it stands for.
\<close>

type_synonym ('k, 'v) shards = "nat \<Rightarrow> ('k \<rightharpoonup> 'v)"

definition flat :: "('k \<Rightarrow> nat) \<Rightarrow> ('k, 'v) shards \<Rightarrow> ('k \<rightharpoonup> 'v)" where
  "flat ix sh k = sh (ix k) k"

definition shard_put :: "('k \<Rightarrow> nat) \<Rightarrow> 'k \<Rightarrow> 'v \<Rightarrow> ('k, 'v) shards \<Rightarrow> ('k, 'v) shards" where
  "shard_put ix k v sh = sh(ix k := (sh (ix k))(k \<mapsto> v))"

definition shard_del :: "('k \<Rightarrow> nat) \<Rightarrow> 'k \<Rightarrow> ('k, 'v) shards \<Rightarrow> ('k, 'v) shards" where
  "shard_del ix k sh = sh(ix k := (sh (ix k))(k := None))"

lemma flat_put [simp, shard_simps]: "flat ix (shard_put ix k v sh) = (flat ix sh)(k \<mapsto> v)"
  by (rule ext) (simp add: flat_def shard_put_def)

lemma flat_del [simp, shard_simps]: "flat ix (shard_del ix k sh) = (flat ix sh)(k := None)"
  by (rule ext) (simp add: flat_def shard_del_def)

lemma flat_empty [simp, shard_simps]: "flat ix (\<lambda>_. Map.empty) = Map.empty"
  by (rule ext) (simp add: flat_def)

section \<open>Lists and counting\<close>

lemma sorted_wrt_less_distinct: "sorted_wrt (<) (xs :: 'a::linorder list) \<Longrightarrow> distinct xs"
  by (induction xs) auto

lemma sorted_wrt_snoc:
  "sorted_wrt P (xs @ [x]) \<longleftrightarrow> sorted_wrt P xs \<and> (\<forall>y\<in>set xs. P y x)"
  by (simp add: sorted_wrt_append)

lemma find_None: "find P xs = None \<longleftrightarrow> (\<forall>x\<in>set xs. \<not> P x)"
  by (induction xs) auto

lemma find_SomeD: "find P xs = Some x \<Longrightarrow> x \<in> set xs \<and> P x"
  by (induction xs) (auto split: if_splits)

lemma map_update_same: "h v = h (xs ! i) \<Longrightarrow> map h (xs[i := v]) = map h xs"
  by (cases "i < length xs")
    (auto intro!: nth_equalityI simp: nth_list_update list_update_beyond not_less)

lemma card_filter_insert:
  "finite A \<Longrightarrow> a \<notin> A \<Longrightarrow>
   card {x \<in> insert a A. P x} = (if P a then Suc (card {x \<in> A. P x}) else card {x \<in> A. P x})"
proof -
  assume "finite A" "a \<notin> A"
  have "{x \<in> insert a A. P x} = (if P a then insert a {x \<in> A. P x} else {x \<in> A. P x})"
    by auto
  with \<open>finite A\<close> \<open>a \<notin> A\<close> show ?thesis by simp
qed

lemma card_filter_remove:
  "finite A \<Longrightarrow> a \<in> A \<Longrightarrow>
   card {x \<in> A - {a}. P x} = (if P a then card {x \<in> A. P x} - 1 else card {x \<in> A. P x})"
proof -
  assume "finite A" "a \<in> A"
  have "{x \<in> A - {a}. P x} = (if P a then {x \<in> A. P x} - {a} else {x \<in> A. P x})"
    by auto
  with \<open>finite A\<close> \<open>a \<in> A\<close> show ?thesis by simp
qed

section \<open>Runs\<close>

text \<open>
  Contracts for arguing about runs of a component. A step relation and an invariant that every
  step keeps; and, for the many stores whose contents only change in one direction (a log grows,
  a handshake advances, a cursor rises), an order in which every step goes up.
\<close>

locale invariant_system =
  fixes step :: "'s \<Rightarrow> 's \<Rightarrow> bool"
    and inv :: "'s \<Rightarrow> bool"
  assumes step_inv: "inv s \<Longrightarrow> step s s' \<Longrightarrow> inv s'"
begin

lemma run_inv: "step\<^sup>*\<^sup>* s s' \<Longrightarrow> inv s \<Longrightarrow> inv s'"
  by (induction rule: rtranclp_induct) (auto intro: step_inv)

end

locale monotone_system = invariant_system step inv
  for step :: "'s \<Rightarrow> 's \<Rightarrow> bool" and inv :: "'s \<Rightarrow> bool" +
  fixes le :: "'s \<Rightarrow> 's \<Rightarrow> bool"
  assumes le_refl: "le s s"
    and le_trans: "le a b \<Longrightarrow> le b c \<Longrightarrow> le a c"
    and step_le: "inv s \<Longrightarrow> step s s' \<Longrightarrow> le s s'"
begin

lemma run: "step\<^sup>*\<^sup>* s s' \<Longrightarrow> inv s \<Longrightarrow> inv s' \<and> le s s'"
proof (induction rule: rtranclp_induct)
  case (step y z)
  then show ?case using step_inv step_le le_trans by blast
qed (simp add: le_refl)

lemmas run_le = run [THEN conjunct2]

end

section \<open>Association lists with unique keys\<close>

text \<open>How many entries satisfy a test, after an entry is replaced, added or removed.\<close>

lemma count_update:
  assumes "distinct (map fst al)" "map_of al k = Some v"
  shows "int (length (filter P (AList.update k v' al))) =
    int (length (filter P al)) - (if P (k, v) then 1 else 0) + (if P (k, v') then 1 else 0)"
  using assms
proof (induction al)
  case (Cons a al)
  show ?case
  proof (cases "fst a = k")
    case True
    with Cons.prems show ?thesis by (cases a) auto
  next
    case False
    with Cons show ?thesis by (cases a) auto
  qed
qed simp

lemma update_absent: "map_of al k = None \<Longrightarrow> AList.update k v al = al @ [(k, v)]"
  by (induction al) auto

lemma length_update_present:
  "map_of al k = Some v \<Longrightarrow> length (AList.update k v' al) = length al"
  by (induction al) auto

lemma count_delete:
  assumes "map_of al k = Some v" "\<And>w. (k, w) \<in> set al \<Longrightarrow> \<not> P (k, w)"
  shows "filter P (AList.delete k al) = filter P al"
  using assms(2) by (induction al) (auto simp: AList.delete_eq)

lemma map_of_unique: "distinct (map fst al) \<Longrightarrow> (k, v) \<in> set al \<longleftrightarrow> map_of al k = Some v"
  by (rule map_of_eq_Some_iff [symmetric])

end
