(* ===== verification/Cursor_Codec.thy ===== *)
theory Cursor_Codec
  imports Gram_Prelude
begin

text \<open>
  The keyset cursors of the Stars ledger (\<open>internal/domain/stars.go\<close>, \<open>EncodeStarsCursor\<close> and
  \<open>DecodeStarsCursor\<close>): a row id printed in decimal and wrapped in unpadded URL-safe base64.
  The parts of the Go library they use are modelled here: \<open>strconv.FormatInt\<close> and
  \<open>strconv.ParseInt\<close> in base 10, and \<open>base64.RawURLEncoding\<close>. The theory ends with the round
  trip: decoding what was encoded gives the id back, for every positive \<open>int64\<close>.
\<close>

section \<open>Decimal printing and parsing\<close>

fun decimal_digits :: "nat \<Rightarrow> nat list" where
  "decimal_digits n = (if n < 10 then [n] else decimal_digits (n div 10) @ [n mod 10])"

declare decimal_digits.simps [simp del]

definition digit_char :: "nat \<Rightarrow> char" where
  "digit_char d = char_of (48 + d)"

definition format_int :: "int \<Rightarrow> string" where
  "format_int i = (if i < 0 then CHR ''-'' # map digit_char (decimal_digits (nat (- i)))
     else map digit_char (decimal_digits (nat i)))"

definition char_digit :: "char \<Rightarrow> nat option" where
  "char_digit c = (let n = of_char c :: nat in if 48 \<le> n \<and> n \<le> 57 then Some (n - 48) else None)"

fun parse_digits :: "nat \<Rightarrow> string \<Rightarrow> nat option" where
  "parse_digits acc [] = Some acc"
| "parse_digits acc (c # cs) =
     (case char_digit c of None \<Rightarrow> None | Some d \<Rightarrow> parse_digits (10 * acc + d) cs)"

text \<open>
  \<open>strconv.ParseInt(s, 10, 64)\<close>: an optional sign, at least one digit, nothing else, and a
  value of the \<open>int64\<close> range. \<open>None\<close> is the error.
\<close>

definition parse_int :: "string \<Rightarrow> int option" where
  "parse_int s =
     (let neg = (s \<noteq> [] \<and> hd s = CHR ''-'');
          ds = (if s \<noteq> [] \<and> (hd s = CHR ''-'' \<or> hd s = CHR ''+'') then tl s else s)
      in if ds = [] then None
         else case parse_digits 0 ds of
             None \<Rightarrow> None
           | Some n \<Rightarrow> (let v = (if neg then - int n else int n)
                        in if in_int64 v then Some v else None))"

lemma decimal_digits_small: "d \<in> set (decimal_digits n) \<Longrightarrow> d < 10"
proof (induction n rule: decimal_digits.induct)
  case (1 n)
  then show ?case
    by (cases "n < 10") (auto simp: decimal_digits.simps [of n])
qed

lemma decimal_digits_not_Nil [simp]: "decimal_digits n \<noteq> []"
  by (subst decimal_digits.simps) simp

lemma char_digit_digit_char [simp]: "d < 10 \<Longrightarrow> char_digit (digit_char d) = Some d"
  by (simp add: char_digit_def digit_char_def Let_def)

lemma parse_digits_append:
  "parse_digits acc (xs @ ys) =
     (case parse_digits acc xs of None \<Rightarrow> None | Some a \<Rightarrow> parse_digits a ys)"
  by (induction acc xs rule: parse_digits.induct) (auto split: option.splits)

lemma parse_decimal_digits:
  "parse_digits 0 (map digit_char (decimal_digits n)) = Some n"
proof (induction n rule: decimal_digits.induct)
  case (1 n)
  show ?case
  proof (cases "n < 10")
    case True
    then show ?thesis by (simp add: decimal_digits.simps [of n])
  next
    case False
    with "1.IH" show ?thesis
      by (simp add: decimal_digits.simps [of n] parse_digits_append)
  qed
qed

lemma digit_char_not_sign: "d < 10 \<Longrightarrow> digit_char d \<noteq> CHR ''-'' \<and> digit_char d \<noteq> CHR ''+''"
proof -
  assume d: "d < 10"
  have "of_char (digit_char d) = 48 + d"
    using d by (simp add: digit_char_def)
  moreover have "of_char CHR ''-'' = (45 :: nat)" "of_char CHR ''+'' = (43 :: nat)"
    by simp_all
  ultimately show ?thesis by auto
qed

lemma parse_format_int:
  assumes "0 \<le> i" and "in_int64 i"
  shows "parse_int (format_int i) = Some i"
proof -
  let ?ds = "decimal_digits (nat i)"
  have fmt: "format_int i = map digit_char ?ds"
    using assms(1) by (simp add: format_int_def)
  have "hd ?ds < 10"
    using decimal_digits_small [of "hd ?ds" "nat i"] by simp
  then have "hd (format_int i) \<noteq> CHR ''-'' \<and> hd (format_int i) \<noteq> CHR ''+''"
    using digit_char_not_sign by (simp add: fmt hd_map)
  moreover have "format_int i \<noteq> []" by (simp add: fmt)
  moreover have "parse_digits 0 (format_int i) = Some (nat i)"
    by (simp add: fmt parse_decimal_digits)
  ultimately show ?thesis
    using assms by (simp add: parse_int_def Let_def)
qed

text \<open>An \<open>int64\<close> has at most 19 decimal digits.\<close>

lemma length_decimal_digits: "n < 10 ^ k \<Longrightarrow> 0 < k \<Longrightarrow> length (decimal_digits n) \<le> k"
proof (induction n arbitrary: k rule: decimal_digits.induct)
  case (1 n)
  show ?case
  proof (cases "n < 10")
    case True
    with "1.prems" show ?thesis by (simp add: decimal_digits.simps [of n])
  next
    case False
    with "1.prems" have k: "1 < k" by (cases "k = 1") auto
    then have "n < 10 * 10 ^ (k - 1)"
      using "1.prems"(1) by (simp add: power_eq_if split: if_splits)
    then have "n div 10 < 10 ^ (k - 1)" by (simp add: less_mult_imp_div_less mult.commute)
    then have "length (decimal_digits (n div 10)) \<le> k - 1"
      using False k "1.IH" by simp
    then show ?thesis using False k by (simp add: decimal_digits.simps [of n])
  qed
qed

lemma length_format_int:
  assumes "0 \<le> i" and "in_int64 i"
  shows "length (format_int i) \<le> 19"
proof -
  have "nat i < 10 ^ 19"
    using assms by (simp add: in_int64_def max_int64_def nat_less_iff)
  then have "length (decimal_digits (nat i)) \<le> 19" by (rule length_decimal_digits) simp
  then show ?thesis using assms(1) by (simp add: format_int_def)
qed

section \<open>Unpadded URL-safe base64\<close>

text \<open>The 64 characters of the URL alphabet, and the value of each.\<close>

definition b64_char :: "nat \<Rightarrow> char" where
  "b64_char n =
     (if n < 26 then char_of (65 + n)
      else if n < 52 then char_of (71 + n)
      else if n < 62 then char_of (n - 4)
      else if n = 62 then CHR ''-'' else CHR ''_'')"

definition b64_value :: "char \<Rightarrow> nat option" where
  "b64_value c =
     (let n = of_char c :: nat in
      if 65 \<le> n \<and> n \<le> 90 then Some (n - 65)
      else if 97 \<le> n \<and> n \<le> 122 then Some (n - 71)
      else if 48 \<le> n \<and> n \<le> 57 then Some (n + 4)
      else if c = CHR ''-'' then Some 62
      else if c = CHR ''_'' then Some 63
      else None)"

fun b64_sextets :: "nat list \<Rightarrow> nat list" where
  "b64_sextets [] = []"
| "b64_sextets [a] = [a div 4, (a mod 4) * 16]"
| "b64_sextets [a, b] = [a div 4, (a mod 4) * 16 + b div 16, (b mod 16) * 4]"
| "b64_sextets (a # b # c # r) =
     [a div 4, (a mod 4) * 16 + b div 16, (b mod 16) * 4 + c div 64, c mod 64] @ b64_sextets r"

definition b64_encode :: "string \<Rightarrow> string" where
  "b64_encode s = map b64_char (b64_sextets (map of_char s))"

text \<open>
  Decoding skips carriage returns and newlines, refuses every other character outside the
  alphabet, and refuses a last group of one character; the unused low bits of the last group
  are not checked (the encoding is not \<open>Strict\<close>).
\<close>

fun b64_bytes :: "nat list \<Rightarrow> nat list option" where
  "b64_bytes [] = Some []"
| "b64_bytes [w] = None"
| "b64_bytes [w, x] = Some [w * 4 + x div 16]"
| "b64_bytes [w, x, y] = Some [w * 4 + x div 16, (x mod 16) * 16 + y div 4]"
| "b64_bytes (w # x # y # z # r) =
     map_option (\<lambda>bs. [w * 4 + x div 16, (x mod 16) * 16 + y div 4, (y mod 4) * 64 + z] @ bs)
       (b64_bytes r)"

definition b64_decode :: "string \<Rightarrow> string option" where
  "b64_decode s =
     (let cs = filter (\<lambda>c. c \<noteq> CHR 0x0A \<and> c \<noteq> CHR 0x0D) s
      in if list_all (\<lambda>c. b64_value c \<noteq> None) cs
         then map_option (map char_of) (b64_bytes (map (\<lambda>c. the (b64_value c)) cs))
         else None)"

lemma b64_value_char: "n < 64 \<Longrightarrow> b64_value (b64_char n) = Some n"
  by (auto simp: b64_value_def b64_char_def Let_def)

lemma b64_char_not_newline: "n < 64 \<Longrightarrow> b64_char n \<noteq> CHR 0x0A \<and> b64_char n \<noteq> CHR 0x0D"
  using b64_value_char [of n] by (auto simp: b64_value_def Let_def)

lemma b64_sextets_small:
  "\<forall>b\<in>set bs. b < 256 \<Longrightarrow> x \<in> set (b64_sextets bs) \<Longrightarrow> x < 64"
  by (induction bs rule: b64_sextets.induct) auto

lemma b64_bytes_sextets: "\<forall>b\<in>set bs. b < 256 \<Longrightarrow> b64_bytes (b64_sextets bs) = Some bs"
proof (induction bs rule: b64_sextets.induct)
  case 1 then show ?case by simp
next
  case (2 a)
  have "(a mod 4) * 16 div 16 = a mod 4" by simp
  then show ?case by simp
next
  case (3 a b)
  then have "b div 16 < 16" by auto
  then show ?case by simp
next
  case (4 a b c r)
  then have "b div 16 < 16" "c div 64 < 4" by auto
  with 4 show ?case by simp
qed

lemma length_b64_sextets: "3 * length (b64_sextets bs) \<le> 4 * length bs + 2"
  by (induction bs rule: b64_sextets.induct) auto

lemma b64_decode_encode: "b64_decode (b64_encode s) = Some s"
proof -
  let ?xs = "b64_sextets (map of_char s)"
  have bytes: "\<forall>b\<in>set (map of_char s). b < (256 :: nat)" by simp
  have small: "\<forall>x\<in>set ?xs. x < 64" using b64_sextets_small [OF bytes] by blast
  have nl: "filter (\<lambda>c. c \<noteq> CHR 0x0A \<and> c \<noteq> CHR 0x0D) (map b64_char ?xs) = map b64_char ?xs"
    using small b64_char_not_newline by (auto intro!: filter_True)
  have vals: "map (\<lambda>c. the (b64_value c)) (map b64_char ?xs) = ?xs"
    using small by (auto intro!: map_idI simp: b64_value_char)
  have "list_all (\<lambda>c. b64_value c \<noteq> None) (map b64_char ?xs)"
    using small by (auto simp: list_all_iff b64_value_char)
  moreover have "b64_bytes ?xs = Some (map of_char s)"
    using bytes by (rule b64_bytes_sextets)
  ultimately show ?thesis
    using nl vals by (simp add: b64_decode_def b64_encode_def Let_def comp_def)
qed

section \<open>The cursor\<close>

definition EncodeStarsCursor :: "int \<Rightarrow> string" where
  "EncodeStarsCursor i = b64_encode (format_int i)"

definition DecodeStarsCursor :: "string \<Rightarrow> int option" where
  "DecodeStarsCursor s =
     (if s = [] then None
      else case b64_decode s of
          None \<Rightarrow> None
        | Some raw \<Rightarrow>
            (case parse_int raw of
               None \<Rightarrow> None
             | Some i \<Rightarrow> if i \<le> 0 then None else Some i))"

lemma EncodeStarsCursor_not_Nil: "0 \<le> i \<Longrightarrow> EncodeStarsCursor i \<noteq> []"
proof -
  assume "0 \<le> i"
  then obtain d ds where "format_int i = d # ds"
    by (cases "format_int i") (auto simp: format_int_def)
  then show ?thesis
    by (cases "map (of_char :: char \<Rightarrow> nat) (d # ds)" rule: b64_sextets.cases)
      (auto simp: EncodeStarsCursor_def b64_encode_def)
qed

lemma decode_encode_cursor:
  assumes "0 < i" and "in_int64 i"
  shows "DecodeStarsCursor (EncodeStarsCursor i) = Some i"
proof -
  have "EncodeStarsCursor i \<noteq> []" using EncodeStarsCursor_not_Nil [of i] assms(1) by simp
  moreover have "parse_int (format_int i) = Some i"
    using assms by (intro parse_format_int) auto
  ultimately show ?thesis
    using assms(1) by (simp add: DecodeStarsCursor_def EncodeStarsCursor_def b64_decode_encode)
qed

lemma length_EncodeStarsCursor:
  assumes "0 \<le> i" and "in_int64 i"
  shows "length (EncodeStarsCursor i) \<le> 26"
proof -
  have "3 * length (EncodeStarsCursor i) \<le> 4 * length (format_int i) + 2"
    using length_b64_sextets [of "map of_char (format_int i)"]
    by (simp add: EncodeStarsCursor_def b64_encode_def)
  with length_format_int [OF assms] show ?thesis by linarith
qed

end
