(* ===== verification/Stars_Ledger.thy ===== *)
theory Stars_Ledger
  imports Cursor_Codec
begin

text \<open>
  The local Stars ledger: the in-memory store of \<open>internal/store/memory/stars.go\<close>, the domain
  types and query normalisation of \<open>internal/domain/stars.go\<close>, and the application service of
  \<open>internal/app/stars/service.go\<close>. A store method takes the store and returns it updated, with
  its result; errors are values of \<open>stars_error\<close>. The store's mutex makes each method atomic.
  Balances are \<open>int64\<close> and their additions wrap.
\<close>

section \<open>Domain types\<close>

datatype stars_error = ErrStarsInsufficient | ErrStarsInvalidAmount
  | ErrStarsTransactionQueryInvalid | ErrStarsPurchaseFormInvalid | ErrStarsAirdropUnsupported

record stars_balance =
  sb_UserID :: int
  sb_Balance :: int
  sb_Granted :: bool

definition zero_stars_balance :: stars_balance where
  "zero_stars_balance = \<lparr>sb_UserID = 0, sb_Balance = 0, sb_Granted = False\<rparr>"

datatype stars_transaction_reason = StarsReasonTransfer | StarsReasonGrant | StarsReasonTopup
  | StarsReasonReaction | StarsReasonGift | StarsReasonGiftUpgrade | StarsReasonGiftTransfer
  | StarsReasonGiftResale | StarsReasonGiftOffer | StarsReasonGiftAuction
  | StarsReasonGiftPrepaid | StarsReasonGiftDrop | StarsReasonPaidMedia
  | StarsReasonPaidMessage | StarsReasonSuggestedPost | StarsReasonPremium
  | StarsReasonWithdrawal | StarsReasonAdjust | StarsReasonDonationDeposit
  | StarsReasonBotInvoice | StarsReasonBotSpend | StarsReasonBotRefund

record stars_transaction =
  tx_ID :: int
  tx_UserID :: int
  tx_Peer :: peer
  tx_Amount :: int
  tx_Date :: int
  tx_Reason :: stars_transaction_reason
  tx_Title :: string
  tx_Description :: string
  tx_PaymentID :: int
  tx_RecipientUserID :: int
  tx_PremiumMonths :: int

definition StarsTransaction_IsCredit :: "stars_transaction \<Rightarrow> bool" where
  "StarsTransaction_IsCredit t \<longleftrightarrow> tx_Amount t > 0"

text \<open>A direction is a \<open>uint8\<close>: 0 all, 1 incoming, 2 outgoing, larger values are invalid.\<close>

type_synonym direction = "8 word"

definition direction_Valid :: "direction \<Rightarrow> bool" where
  "direction_Valid d \<longleftrightarrow> d \<le> 2"

definition direction_IncludesAmount :: "direction \<Rightarrow> int \<Rightarrow> bool" where
  "direction_IncludesAmount d amount =
     (if d = 0 then True else if d = 1 then amount > 0 else if d = 2 then amount < 0 else False)"

record stars_query =
  sq_Offset :: string
  sq_Limit :: int
  sq_Direction :: direction
  sq_Ascending :: bool

abbreviation MaxStarsTransactionsLimit :: int where "MaxStarsTransactionsLimit \<equiv> 100"
abbreviation MaxStarsTransactionsOffsetBytes :: nat where "MaxStarsTransactionsOffsetBytes \<equiv> 64"

definition NormalizeStarsTransactionQuery :: "stars_query \<Rightarrow> stars_error + stars_query" where
  "NormalizeStarsTransactionQuery q =
     (if \<not> direction_Valid (sq_Direction q) then Inl ErrStarsTransactionQueryInvalid
      else
        (let q1 = (if length (sq_Offset q) > MaxStarsTransactionsOffsetBytes
                   then q\<lparr>sq_Offset := []\<rparr> else q);
             q2 = (if sq_Limit q1 \<le> 0 \<or> sq_Limit q1 > MaxStarsTransactionsLimit
                   then q1\<lparr>sq_Limit := MaxStarsTransactionsLimit\<rparr> else q1)
         in Inr q2))"

record stars_page =
  sp_Balance :: int
  sp_Transactions :: "stars_transaction list"
  sp_NextOffset :: string

definition zero_stars_page :: stars_page where
  "zero_stars_page = \<lparr>sp_Balance = 0, sp_Transactions = [], sp_NextOffset = []\<rparr>"

section \<open>The store\<close>

record stars_state =
  ss_balance :: int
  ss_granted :: bool
  ss_txns :: "stars_transaction list"

record stars_store =
  st_states :: "int \<rightharpoonup> stars_state"
  st_nextID :: int

definition NewStarsStore :: stars_store where
  "NewStarsStore = \<lparr>st_states = Map.empty, st_nextID = 0\<rparr>"

definition empty_stars_state :: stars_state where
  "empty_stars_state = \<lparr>ss_balance = 0, ss_granted = False, ss_txns = []\<rparr>"

definition StarsStore_GetBalance :: "stars_store \<Rightarrow> int \<Rightarrow> stars_balance" where
  "StarsStore_GetBalance s u =
     (if u = 0 then zero_stars_balance
      else case st_states s u of
          None \<Rightarrow> \<lparr>sb_UserID = u, sb_Balance = 0, sb_Granted = False\<rparr>
        | Some st \<Rightarrow> \<lparr>sb_UserID = u, sb_Balance = ss_balance st, sb_Granted = ss_granted st\<rparr>)"

text \<open>
  \<open>appendTxn\<close> takes the account state the caller has just changed; the caller's pointer into
  the map becomes an explicit write of the account.
\<close>

definition appendTxn :: "stars_store \<Rightarrow> stars_state \<Rightarrow> int \<Rightarrow> int \<Rightarrow>
    stars_transaction_reason \<Rightarrow> peer \<Rightarrow> int \<Rightarrow> string \<Rightarrow> string \<Rightarrow> stars_store" where
  "appendTxn s st u amount reason p date title desc =
     (let i = st_nextID s + 1;
          t = \<lparr>tx_ID = i, tx_UserID = u, tx_Peer = p, tx_Amount = amount, tx_Date = date,
               tx_Reason = reason, tx_Title = title, tx_Description = desc,
               tx_PaymentID = 0, tx_RecipientUserID = 0, tx_PremiumMonths = 0\<rparr>
      in s\<lparr>st_states := (st_states s)(u \<mapsto> st\<lparr>ss_txns := ss_txns st @ [t]\<rparr>), st_nextID := i\<rparr>)"

definition StarsStore_EnsureGrant ::
    "stars_store \<Rightarrow> int \<Rightarrow> int \<Rightarrow> int \<Rightarrow> stars_store \<times> stars_balance \<times> bool" where
  "StarsStore_EnsureGrant s u amount date =
     (if u = 0 then (s, zero_stars_balance, False)
      else
        (let st = (case st_states s u of None \<Rightarrow> empty_stars_state | Some st \<Rightarrow> st);
             s1 = s\<lparr>st_states := (st_states s)(u \<mapsto> st)\<rparr>
         in if amount \<le> 0 then
              (s1, \<lparr>sb_UserID = u, sb_Balance = ss_balance st, sb_Granted = ss_granted st\<rparr>, False)
            else if ss_granted st then
              (s1, \<lparr>sb_UserID = u, sb_Balance = ss_balance st, sb_Granted = True\<rparr>, False)
            else
              (let b = wrap64 (ss_balance st + amount);
                   st1 = st\<lparr>ss_balance := b, ss_granted := True\<rparr>
               in (appendTxn s1 st1 u amount StarsReasonGrant zero_peer date [] [],
                   \<lparr>sb_UserID = u, sb_Balance = b, sb_Granted = True\<rparr>, True))))"

definition StarsStore_Credit :: "stars_store \<Rightarrow> int \<Rightarrow> int \<Rightarrow> stars_transaction_reason \<Rightarrow>
    peer \<Rightarrow> int \<Rightarrow> string \<Rightarrow> string \<Rightarrow> stars_store \<times> (stars_error + stars_balance)" where
  "StarsStore_Credit s u amount reason p date title desc =
     (if u = 0 \<or> amount \<le> 0 then (s, Inl ErrStarsInvalidAmount)
      else
        (let st = (case st_states s u of None \<Rightarrow> empty_stars_state | Some st \<Rightarrow> st);
             b = wrap64 (ss_balance st + amount);
             st1 = st\<lparr>ss_balance := b\<rparr>
         in (appendTxn s st1 u amount reason p date title desc,
             Inr \<lparr>sb_UserID = u, sb_Balance = b, sb_Granted = ss_granted st\<rparr>)))"

definition StarsStore_Debit :: "stars_store \<Rightarrow> int \<Rightarrow> int \<Rightarrow> stars_transaction_reason \<Rightarrow>
    peer \<Rightarrow> int \<Rightarrow> string \<Rightarrow> string \<Rightarrow> stars_store \<times> (stars_error + stars_balance)" where
  "StarsStore_Debit s u amount reason p date title desc =
     (if u = 0 \<or> amount \<le> 0 then (s, Inl ErrStarsInvalidAmount)
      else case st_states s u of
          None \<Rightarrow> (s, Inl ErrStarsInsufficient)
        | Some st \<Rightarrow>
            if ss_balance st < amount then (s, Inl ErrStarsInsufficient)
            else
              (let b = wrap64 (ss_balance st - amount);
                   st1 = st\<lparr>ss_balance := b\<rparr>
               in (appendTxn s st1 u (- amount) reason p date title desc,
                   Inr \<lparr>sb_UserID = u, sb_Balance = b, sb_Granted = ss_granted st\<rparr>)))"

text \<open>
  The two loops of \<open>ListTransactions\<close> run \<open>appendMatch\<close> over the rows, oldest or newest first,
  until more than \<open>limit\<close> rows matched.
\<close>

definition match_txn :: "stars_query \<Rightarrow> int option \<Rightarrow> stars_transaction \<Rightarrow> bool" where
  "match_txn q cursor t =
     (case cursor of
        Some c \<Rightarrow>
          if sq_Ascending q \<and> tx_ID t \<le> c then False
          else if \<not> sq_Ascending q \<and> tx_ID t \<ge> c then False
          else direction_IncludesAmount (sq_Direction q) (tx_Amount t)
      | None \<Rightarrow> direction_IncludesAmount (sq_Direction q) (tx_Amount t))"

fun collect_txns :: "(stars_transaction \<Rightarrow> bool) \<Rightarrow> int \<Rightarrow> stars_transaction list \<Rightarrow>
    stars_transaction list \<Rightarrow> stars_transaction list" where
  "collect_txns keep limit out [] = out"
| "collect_txns keep limit out (t # ts) =
     (if int (length out) \<le> limit
      then collect_txns keep limit (if keep t then out @ [t] else out) ts
      else out)"

definition StarsStore_ListTransactions ::
    "stars_store \<Rightarrow> int \<Rightarrow> stars_query \<Rightarrow> stars_error + stars_page" where
  "StarsStore_ListTransactions s u query =
     (if u = 0 then Inr zero_stars_page
      else case NormalizeStarsTransactionQuery query of
          Inl e \<Rightarrow> Inl e
        | Inr q \<Rightarrow>
            (case st_states s u of
               None \<Rightarrow> Inr zero_stars_page
             | Some st \<Rightarrow>
                 (let cursor = DecodeStarsCursor (sq_Offset q);
                      rows = (if sq_Ascending q then ss_txns st else rev (ss_txns st));
                      out = collect_txns (match_txn q cursor) (sq_Limit q) [] rows
                  in if int (length out) > sq_Limit q
                     then (let shown = take (nat (sq_Limit q)) out
                           in Inr \<lparr>sp_Balance = ss_balance st, sp_Transactions = shown,
                                   sp_NextOffset = EncodeStarsCursor (tx_ID (last shown))\<rparr>)
                     else Inr \<lparr>sp_Balance = ss_balance st, sp_Transactions = out,
                               sp_NextOffset = []\<rparr>)))"

section \<open>The application service\<close>

text \<open>
  The service over the memory store. \<open>grant\<close> is the configured starting grant, \<open>now\<close> the clock's
  reading in Unix seconds.
\<close>

definition ensureGranted :: "int \<Rightarrow> int \<Rightarrow> stars_store \<Rightarrow> int \<Rightarrow> stars_store \<times> stars_balance" where
  "ensureGranted grant now s u =
     (if grant > 0
      then (case StarsStore_EnsureGrant s u grant now of (s1, bal, _) \<Rightarrow> (s1, bal))
      else (s, StarsStore_GetBalance s u))"

definition StarsService_GetBalance ::
    "int \<Rightarrow> int \<Rightarrow> stars_store \<Rightarrow> int \<Rightarrow> stars_store \<times> stars_balance" where
  "StarsService_GetBalance grant now s u = ensureGranted grant now s u"

definition StarsService_Credit :: "int \<Rightarrow> stars_store \<Rightarrow> int \<Rightarrow> int \<Rightarrow>
    stars_transaction_reason \<Rightarrow> peer \<Rightarrow> string \<Rightarrow> string \<Rightarrow>
    stars_store \<times> (stars_error + stars_balance)" where
  "StarsService_Credit now s u amount reason p title desc =
     (if amount \<le> 0 then (s, Inl ErrStarsInvalidAmount)
      else StarsStore_Credit s u amount reason p now title desc)"

definition StarsService_Debit :: "int \<Rightarrow> int \<Rightarrow> stars_store \<Rightarrow> int \<Rightarrow> int \<Rightarrow>
    stars_transaction_reason \<Rightarrow> peer \<Rightarrow> string \<Rightarrow> string \<Rightarrow>
    stars_store \<times> (stars_error + stars_balance)" where
  "StarsService_Debit grant now s u amount reason p title desc =
     (if amount \<le> 0 then (s, Inl ErrStarsInvalidAmount)
      else (case ensureGranted grant now s u of
              (s1, _) \<Rightarrow> StarsStore_Debit s1 u amount reason p now title desc))"

text \<open>
  The bulk grant is an optional capability of the store (\<open>store.StarsAirdropStore\<close>, which the
  memory store lacks): \<open>None\<close> where the store does not offer it.
\<close>

definition CountStarsAllUsers ::
    "(stars_store \<Rightarrow> int) option \<Rightarrow> stars_store \<Rightarrow> stars_error + int" where
  "CountStarsAllUsers airdrop s =
     (case airdrop of None \<Rightarrow> Inl ErrStarsAirdropUnsupported | Some count \<Rightarrow> Inr (count s))"

definition GrantStarsAll ::
    "(stars_store \<Rightarrow> int \<Rightarrow> stars_transaction_reason \<Rightarrow> int \<Rightarrow> string \<Rightarrow> string \<Rightarrow>
      stars_store \<times> (stars_error + int)) option \<Rightarrow>
     int \<Rightarrow> stars_store \<Rightarrow> int \<Rightarrow> string \<Rightarrow> string \<Rightarrow> stars_store \<times> (stars_error + int)" where
  "GrantStarsAll airdrop now s amount title desc =
     (if amount \<le> 0 then (s, Inl ErrStarsInvalidAmount)
      else case airdrop of
          None \<Rightarrow> (s, Inl ErrStarsAirdropUnsupported)
        | Some creditAll \<Rightarrow> creditAll s amount StarsReasonAdjust now title desc)"

definition StarsService_ListTransactions ::
    "int \<Rightarrow> int \<Rightarrow> stars_store \<Rightarrow> int \<Rightarrow> stars_query \<Rightarrow> stars_store \<times> (stars_error + stars_page)"
where
  "StarsService_ListTransactions grant now s u query =
     (case NormalizeStarsTransactionQuery query of
        Inl e \<Rightarrow> (s, Inl e)
      | Inr q \<Rightarrow>
          (case ensureGranted grant now s u of
             (s1, _) \<Rightarrow> (s1, StarsStore_ListTransactions s1 u q)))"

subsection \<open>Purchase forms\<close>

datatype stars_purchase_kind = StarsPurchaseTopup | StarsPurchaseGift | StarsPurchaseGiveaway
  | StarsPurchaseBotInvoice | StarsPurchaseOther string

fun StarsPurchaseKind_Valid :: "stars_purchase_kind \<Rightarrow> bool" where
  "StarsPurchaseKind_Valid (StarsPurchaseOther _) = False"
| "StarsPurchaseKind_Valid _ = True"

record stars_giveaway_purchase =
  gp_BoostPeer :: peer
  gp_AdditionalPeers :: "peer list"
  gp_CountriesISO2 :: "string list"
  gp_PrizeDescription :: string
  gp_RandomID :: int
  gp_UntilDate :: int
  gp_Users :: int
  gp_PerUserStars :: int
  gp_YearlyBoosts :: int
  gp_OnlyNewSubscribers :: bool
  gp_WinnersAreVisible :: bool

record stars_purchase_form =
  pf_FormID :: int
  pf_Kind :: stars_purchase_kind
  pf_BuyerUserID :: int
  pf_RecipientUserID :: int
  pf_SpendPurposePeer :: peer
  pf_Giveaway :: "stars_giveaway_purchase option"
  pf_Stars :: int
  pf_Currency :: string
  pf_Amount :: int
  pf_IssuedAt :: int
  pf_ExpiresAt :: int

definition validPurchaseCommand :: "stars_purchase_form \<Rightarrow> bool" where
  "validPurchaseCommand f =
     (if \<not> StarsPurchaseKind_Valid (pf_Kind f) \<or> pf_BuyerUserID f \<le> 0 \<or> pf_Stars f \<le> 0 \<or>
         pf_Amount f \<le> 0 \<or> pf_Currency f = [] then False
      else case pf_Kind f of
          StarsPurchaseTopup \<Rightarrow>
            pf_Giveaway f = None \<and> pf_RecipientUserID f = 0 \<and>
            (pf_SpendPurposePeer f = zero_peer \<or>
             (peer_type (pf_SpendPurposePeer f) = PeerTypeUser \<or>
              peer_type (pf_SpendPurposePeer f) = PeerTypeChannel) \<and>
             peer_id (pf_SpendPurposePeer f) > 0)
        | StarsPurchaseGift \<Rightarrow>
            pf_Giveaway f = None \<and> pf_RecipientUserID f > 0 \<and>
            pf_BuyerUserID f \<noteq> pf_RecipientUserID f \<and> pf_SpendPurposePeer f = zero_peer
        | StarsPurchaseGiveaway \<Rightarrow>
            pf_RecipientUserID f = 0 \<and> pf_SpendPurposePeer f = zero_peer \<and>
            (case pf_Giveaway f of
               None \<Rightarrow> False
             | Some g \<Rightarrow>
                 peer_type (gp_BoostPeer g) = PeerTypeChannel \<and> peer_id (gp_BoostPeer g) > 0 \<and>
                 gp_RandomID g \<noteq> 0 \<and> gp_UntilDate g > 0 \<and> gp_Users g > 0 \<and>
                 gp_PerUserStars g > 0 \<and> gp_Users g \<le> pf_Stars f div gp_PerUserStars g \<and>
                 wrap64 (gp_Users g * gp_PerUserStars g) = pf_Stars f)
        | _ \<Rightarrow> False)"

definition validPurchaseForm :: "stars_purchase_form \<Rightarrow> bool" where
  "validPurchaseForm f \<longleftrightarrow>
     validPurchaseCommand f \<and> pf_IssuedAt f > 0 \<and> pf_ExpiresAt f = wrap64 (pf_IssuedAt f + 600)"

text \<open>The purchase store is another optional collaborator; \<open>None\<close> when none is configured.\<close>

definition IssuePurchaseForm ::
    "(stars_purchase_form \<Rightarrow> stars_error + stars_purchase_form) option \<Rightarrow>
     stars_purchase_form \<Rightarrow> stars_error + stars_purchase_form" where
  "IssuePurchaseForm purchaseStore f =
     (case purchaseStore of
        None \<Rightarrow> Inl ErrStarsPurchaseFormInvalid
      | Some issue \<Rightarrow>
          if \<not> validPurchaseForm f then Inl ErrStarsPurchaseFormInvalid else issue f)"

definition StarsService_Purchase ::
    "(stars_purchase_form \<Rightarrow> int \<Rightarrow> stars_error + 'r) option \<Rightarrow>
     stars_purchase_form \<Rightarrow> int \<Rightarrow> stars_error + 'r" where
  "StarsService_Purchase purchaseStore f date =
     (case purchaseStore of
        None \<Rightarrow> Inl ErrStarsPurchaseFormInvalid
      | Some purchase \<Rightarrow>
          if pf_FormID f = 0 \<or> date \<le> 0 \<or> \<not> validPurchaseCommand f
          then Inl ErrStarsPurchaseFormInvalid else purchase f date)"

section \<open>The abstract account and what the store promises\<close>

text \<open>
  What one account sees of the ledger: its balance and whether the starting grant was applied.
  \<open>account_step\<close> is the contract of the three mutations on that view.
\<close>

datatype ledger_op = OpGrant int int
  | OpCredit int stars_transaction_reason peer int string string
  | OpDebit int stars_transaction_reason peer int string string

record account =
  acc_balance :: int
  acc_granted :: bool

fun account_step :: "ledger_op \<Rightarrow> account \<Rightarrow> account" where
  "account_step (OpGrant n d) a =
     (if n \<le> 0 \<or> acc_granted a then a
      else a\<lparr>acc_balance := wrap64 (acc_balance a + n), acc_granted := True\<rparr>)"
| "account_step (OpCredit n r p d t x) a =
     (if n \<le> 0 then a else a\<lparr>acc_balance := wrap64 (acc_balance a + n)\<rparr>)"
| "account_step (OpDebit n r p d t x) a =
     (if n \<le> 0 \<or> acc_balance a < n then a else a\<lparr>acc_balance := wrap64 (acc_balance a - n)\<rparr>)"

text \<open>The most an operation can add to a balance, and what a successful one adds to it.\<close>

fun op_inflow :: "ledger_op \<Rightarrow> int" where
  "op_inflow (OpGrant n d) = max 0 n"
| "op_inflow (OpCredit n r p d t x) = max 0 n"
| "op_inflow (OpDebit n r p d t x) = 0"

lemma op_inflow_nonneg [simp]: "0 \<le> op_inflow oper"
  by (cases oper) auto

lemma account_step_bounds:
  assumes "0 \<le> acc_balance a" and "acc_balance a + op_inflow oper \<le> max_int64"
  shows "0 \<le> acc_balance (account_step oper a)"
    and "acc_balance (account_step oper a) \<le> acc_balance a + op_inflow oper"
  using assms by (cases oper; auto simp: wrap64_id in_int64_def max_int64_def)+

lemma account_fold_bounds:
  assumes "0 \<le> acc_balance a" and "acc_balance a + sum_list (map op_inflow ops) \<le> max_int64"
  shows "0 \<le> acc_balance (fold account_step ops a) \<and>
    acc_balance (fold account_step ops a) \<le> acc_balance a + sum_list (map op_inflow ops)"
  using assms
proof (induction ops arbitrary: a)
  case Nil
  then show ?case by simp
next
  case (Cons oper ops)
  have tail: "0 \<le> sum_list (map op_inflow ops)" by (rule sum_list_nonneg) auto
  then have "acc_balance a + op_inflow oper \<le> max_int64" using Cons.prems(2) by simp
  note step = account_step_bounds [OF Cons.prems(1) this]
  with Cons.prems Cons.IH [of "account_step oper a"] show ?case by simp
qed

locale stars_backend =
  fixes view :: "'s \<Rightarrow> int \<Rightarrow> account"
    and perform :: "int \<Rightarrow> ledger_op \<Rightarrow> 's \<Rightarrow> 's"
  assumes perform_self: "u \<noteq> 0 \<Longrightarrow> view (perform u oper s) u = account_step oper (view s u)"
    and perform_other: "v \<noteq> u \<Longrightarrow> view (perform u oper s) v = view s v"
begin

lemma run_view:
  "u \<noteq> 0 \<Longrightarrow> view (fold (\<lambda>(v, oper). perform v oper) cmds s) u =
     fold account_step (map snd (filter (\<lambda>(v, _). v = u) cmds)) (view s u)"
  by (induction cmds arbitrary: s) (auto simp: perform_self perform_other)

lemma run_no_overdraft:
  assumes "u \<noteq> 0" and "0 \<le> acc_balance (view s u)"
    and "acc_balance (view s u) +
      sum_list (map (op_inflow \<circ> snd) (filter (\<lambda>(v, _). v = u) cmds)) \<le> max_int64"
  shows "0 \<le> acc_balance (view (fold (\<lambda>(v, oper). perform v oper) cmds s) u)"
  using account_fold_bounds [of "view s u" "map snd (filter (\<lambda>(v, _). v = u) cmds)"] assms
  by (simp add: run_view)

end

definition store_view :: "stars_store \<Rightarrow> int \<Rightarrow> account" where
  "store_view s u = (case st_states s u of
     None \<Rightarrow> \<lparr>acc_balance = 0, acc_granted = False\<rparr>
   | Some st \<Rightarrow> \<lparr>acc_balance = ss_balance st, acc_granted = ss_granted st\<rparr>)"

fun store_perform :: "int \<Rightarrow> ledger_op \<Rightarrow> stars_store \<Rightarrow> stars_store" where
  "store_perform u (OpGrant n d) s = fst (StarsStore_EnsureGrant s u n d)"
| "store_perform u (OpCredit n r p d t x) s = fst (StarsStore_Credit s u n r p d t x)"
| "store_perform u (OpDebit n r p d t x) s = fst (StarsStore_Debit s u n r p d t x)"

lemmas store_op_defs = StarsStore_EnsureGrant_def StarsStore_Credit_def StarsStore_Debit_def
  appendTxn_def empty_stars_state_def

lemma store_perform_self:
  "u \<noteq> 0 \<Longrightarrow> store_view (store_perform u oper s) u = account_step oper (store_view s u)"
  by (cases oper; cases "st_states s u")
    (auto simp: store_op_defs store_view_def Let_def)

lemma store_perform_other:
  "v \<noteq> u \<Longrightarrow> store_view (store_perform u oper s) v = store_view s v"
  by (cases oper; cases "st_states s u")
    (auto simp: store_op_defs store_view_def Let_def)

interpretation ledger: stars_backend store_view store_perform
  by unfold_locales (simp_all add: store_perform_self store_perform_other)

section \<open>The ledger invariant\<close>

text \<open>
  Every balance is the (wrapped) sum of the account's rows, row ids grow strictly, lie between
  1 and the store's counter, and belong to the account that holds the row.
\<close>

definition stars_wf :: "stars_store \<Rightarrow> bool" where
  "stars_wf s \<longleftrightarrow> 0 \<le> st_nextID s \<and> (\<forall>u st. st_states s u = Some st \<longrightarrow>
     u \<noteq> 0 \<and> ss_balance st = wrap64 (\<Sum>t\<leftarrow>ss_txns st. tx_Amount t) \<and>
     sorted_wrt (<) (map tx_ID (ss_txns st)) \<and>
     (\<forall>t\<in>set (ss_txns st). 1 \<le> tx_ID t \<and> tx_ID t \<le> st_nextID s \<and> tx_UserID t = u))"

lemma stars_wfD:
  assumes "stars_wf s" and "st_states s u = Some st"
  shows "u \<noteq> 0" and "ss_balance st = wrap64 (\<Sum>t\<leftarrow>ss_txns st. tx_Amount t)"
    and "sorted_wrt (<) (map tx_ID (ss_txns st))"
    and "t \<in> set (ss_txns st) \<Longrightarrow> 1 \<le> tx_ID t \<and> tx_ID t \<le> st_nextID s \<and> tx_UserID t = u"
  using assms by (auto simp: stars_wf_def)

lemma NewStarsStore_wf: "stars_wf NewStarsStore"
  by (simp add: stars_wf_def NewStarsStore_def)

text \<open>Writing one account together with the row that explains its new balance.\<close>

lemma appendTxn_wf:
  assumes wf: "stars_wf s" and "u \<noteq> 0"
    and old: "st_states s u = Some acc \<or> st_states s u = None \<and> acc = empty_stars_state"
    and rows: "ss_txns st = ss_txns acc" and bal: "ss_balance st = wrap64 (ss_balance acc + n)"
  shows "stars_wf (appendTxn s st u n reason p date title desc)"
proof -
  have acc: "ss_balance acc = wrap64 (\<Sum>t\<leftarrow>ss_txns acc. tx_Amount t)"
    "sorted_wrt (<) (map tx_ID (ss_txns acc))"
    "\<forall>t\<in>set (ss_txns acc). 1 \<le> tx_ID t \<and> tx_ID t \<le> st_nextID s \<and> tx_UserID t = u"
    using old stars_wfD [OF wf] by (auto simp: empty_stars_state_def)
  have pos: "0 \<le> st_nextID s" using wf by (simp add: stars_wf_def)
  have up: "t \<in> set (ss_txns acc) \<Longrightarrow> tx_ID t < st_nextID s + 1" for t using acc(3) by force
  show ?thesis
    unfolding stars_wf_def
  proof (intro conjI allI impI ballI)
    show "0 \<le> st_nextID (appendTxn s st u n reason p date title desc)"
      using pos by (simp add: appendTxn_def Let_def)
  next
    fix v sv assume sv: "st_states (appendTxn s st u n reason p date title desc) v = Some sv"
    show "v \<noteq> 0"
      using sv \<open>u \<noteq> 0\<close> stars_wfD(1) [OF wf] by (auto simp: appendTxn_def Let_def split: if_splits)
    show "ss_balance sv = wrap64 (\<Sum>t\<leftarrow>ss_txns sv. tx_Amount t)"
      using sv stars_wfD(2) [OF wf] acc(1) rows bal
      by (auto simp: appendTxn_def Let_def split: if_splits)
    show "sorted_wrt (<) (map tx_ID (ss_txns sv))"
      using sv stars_wfD(3) [OF wf] acc(2) rows up
      by (auto simp: appendTxn_def Let_def sorted_wrt_append split: if_splits)
  next
    fix v sv t
    assume sv: "st_states (appendTxn s st u n reason p date title desc) v = Some sv"
      and t: "t \<in> set (ss_txns sv)"
    then show "1 \<le> tx_ID t" "tx_ID t \<le> st_nextID (appendTxn s st u n reason p date title desc)"
        "tx_UserID t = v"
      using stars_wfD(4) [OF wf] acc(3) rows pos up
      by (fastforce simp: appendTxn_def Let_def split: if_splits)+
  qed
qed

lemma touch_wf:
  "stars_wf s \<Longrightarrow> u \<noteq> 0 \<Longrightarrow>
   stars_wf (s\<lparr>st_states := (st_states s)(u \<mapsto> case st_states s u of
     None \<Rightarrow> empty_stars_state | Some st \<Rightarrow> st)\<rparr>)"
  by (auto simp: stars_wf_def empty_stars_state_def split: option.splits)

lemma store_perform_wf:
  assumes wf: "stars_wf s"
  shows "stars_wf (store_perform u oper s)"
proof (cases "u = 0")
  case True
  then show ?thesis using wf by (cases oper) (auto simp: store_op_defs)
next
  case u: False
  let ?st = "case st_states s u of None \<Rightarrow> empty_stars_state | Some st \<Rightarrow> st"
  have old: "st_states s u = Some ?st \<or> st_states s u = None \<and> ?st = empty_stars_state"
    by (cases "st_states s u") auto
  show ?thesis
  proof (cases oper)
    case (OpGrant n d)
    let ?s1 = "s\<lparr>st_states := (st_states s)(u \<mapsto> ?st)\<rparr>"
    have "stars_wf (appendTxn ?s1 (?st\<lparr>ss_balance := wrap64 (ss_balance ?st + n),
        ss_granted := True\<rparr>) u n StarsReasonGrant zero_peer d [] [])"
      by (rule appendTxn_wf [where acc = ?st]) (use touch_wf [OF wf u] u in auto)
    then show ?thesis
      using touch_wf [OF wf u] u by (simp add: OpGrant StarsStore_EnsureGrant_def Let_def)
  next
    case (OpCredit n r p d t x)
    have "stars_wf (appendTxn s (?st\<lparr>ss_balance := wrap64 (ss_balance ?st + n)\<rparr>) u n r p d t x)"
      by (rule appendTxn_wf [OF wf u old]) auto
    then show ?thesis using wf by (simp add: OpCredit StarsStore_Credit_def Let_def)
  next
    case (OpDebit n r p d t x)
    have "stars_wf (appendTxn s (st\<lparr>ss_balance := wrap64 (ss_balance st - n)\<rparr>) u (- n) r p d t x)"
      if "st_states s u = Some st" for st
      using appendTxn_wf [OF wf u, where acc = st and n = "- n"] that by simp
    then show ?thesis using wf by (auto simp: OpDebit StarsStore_Debit_def Let_def split: option.splits)
  qed
qed

section \<open>Paging through the history\<close>

lemma collect_txns_take:
  "0 \<le> limit \<Longrightarrow> int (length out) \<le> limit + 1 \<Longrightarrow>
   collect_txns keep limit out ts = take (nat limit + 1) (out @ filter keep ts)"
proof (induction keep limit out ts rule: collect_txns.induct)
  case (1 keep limit out)
  then have "length out \<le> nat limit + 1" by linarith
  then show ?case by simp
next
  case (2 keep limit out t ts)
  show ?case
  proof (cases "int (length out) \<le> limit")
    case True
    then have "length out \<le> nat limit" by linarith
    with True 2 show ?thesis by (auto simp: Suc_diff_le)
  next
    case False
    with "2.prems" have "length out = nat limit + 1" by linarith
    with False show ?thesis by simp
  qed
qed

text \<open>In a list ordered by an asymmetric relation, what lies beyond its \<open>n\<close>-th element is what follows it.\<close>

lemma filter_beyond:
  assumes sorted: "sorted_wrt R xs" and asym: "\<And>x y. R x y \<Longrightarrow> \<not> R y x"
    and n: "0 < n" "n \<le> length xs"
  shows "filter (R (last (take n xs))) xs = drop n xs"
proof -
  let ?l = "last (take n xs)"
  have ne: "take n xs \<noteq> []" using n by auto
  have split: "xs = take n xs @ drop n xs" by simp
  have "R x y" if "x \<in> set (take n xs)" "y \<in> set (drop n xs)" for x y
    using sorted that by (metis append_take_drop_id sorted_wrt_append)
  then have "filter (R ?l) (drop n xs) = drop n xs"
    using ne last_in_set by (auto intro!: filter_True)
  moreover have "filter (R ?l) (take n xs) = []"
  proof (rule filter_False, rule ballI)
    fix x assume x: "x \<in> set (take n xs)"
    show "\<not> R ?l x"
    proof (cases "x = ?l")
      case True then show ?thesis using asym by blast
    next
      case False
      have "sorted_wrt R (butlast (take n xs) @ [?l])"
        using ne sorted sorted_wrt_take by simp
      moreover have "x \<in> set (butlast (take n xs))"
        using x False ne by (metis append_butlast_last_id in_set_conv_decomp_last
            append_is_Nil_conv last_snoc rotate1.simps(2) set_ConsD set_rotate1)
      ultimately have "R x ?l" by (simp add: sorted_wrt_append)
      then show ?thesis by (rule asym)
    qed
  qed
  ultimately show ?thesis by (metis append_Nil filter_append split)
qed

text \<open>The history in the order a query asks for, and the rows after a cursor.\<close>

definition history :: "stars_store \<Rightarrow> int \<Rightarrow> stars_query \<Rightarrow> stars_transaction list" where
  "history s u q = (case st_states s u of None \<Rightarrow> [] | Some st \<Rightarrow>
     filter (\<lambda>t. direction_IncludesAmount (sq_Direction q) (tx_Amount t))
       (if sq_Ascending q then ss_txns st else rev (ss_txns st)))"

definition after :: "stars_query \<Rightarrow> stars_transaction \<Rightarrow> stars_transaction \<Rightarrow> bool" where
  "after q t t' = (if sq_Ascending q then tx_ID t < tx_ID t' else tx_ID t' < tx_ID t)"

lemma after_asym: "after q t t' \<Longrightarrow> \<not> after q t' t"
  by (auto simp: after_def split: if_splits)

lemma history_sorted:
  assumes "stars_wf s" shows "sorted_wrt (after q) (history s u q)"
proof (cases "st_states s u")
  case (Some st)
  have "sorted_wrt (<) (map tx_ID (ss_txns st))" using stars_wfD(3) [OF assms Some] .
  then have asc: "sorted_wrt (\<lambda>t t'. tx_ID t < tx_ID t') (ss_txns st)" by (simp add: sorted_wrt_map)
  show ?thesis
  proof (cases "sq_Ascending q")
    case True
    have "after q = (\<lambda>t t'. tx_ID t < tx_ID t')" using True by (intro ext) (simp add: after_def)
    then show ?thesis using asc True Some by (simp add: history_def sorted_wrt_filter)
  next
    case False
    have "after q = (\<lambda>t t'. tx_ID t' < tx_ID t)" using False by (intro ext) (simp add: after_def)
    moreover have "sorted_wrt (\<lambda>t t'. tx_ID t' < tx_ID t) (rev (ss_txns st))"
      using asc by (simp add: sorted_wrt_rev)
    ultimately show ?thesis using False Some by (simp add: history_def sorted_wrt_filter)
  qed
qed (simp add: history_def)

definition past_cursor :: "stars_query \<Rightarrow> stars_transaction \<Rightarrow> bool" where
  "past_cursor q t = (case DecodeStarsCursor (sq_Offset q) of None \<Rightarrow> True
     | Some c \<Rightarrow> if sq_Ascending q then c < tx_ID t else tx_ID t < c)"

lemma match_txn_filter:
  "filter (match_txn q (DecodeStarsCursor (sq_Offset q))) xs = filter (past_cursor q)
     (filter (\<lambda>t. direction_IncludesAmount (sq_Direction q) (tx_Amount t)) xs)"
  by (cases "DecodeStarsCursor (sq_Offset q)")
    (auto simp: match_txn_def past_cursor_def intro!: filter_cong split: if_splits)

definition normal_query :: "stars_query \<Rightarrow> bool" where
  "normal_query q \<longleftrightarrow> direction_Valid (sq_Direction q) \<and> 0 < sq_Limit q \<and> sq_Limit q \<le> 100 \<and>
     length (sq_Offset q) \<le> 64"

lemma Normalize_normal: "normal_query q \<Longrightarrow> NormalizeStarsTransactionQuery q = Inr q"
  by (auto simp: normal_query_def NormalizeStarsTransactionQuery_def Let_def)

text \<open>One page: the rows after the cursor, cut at the limit.\<close>

lemma list_page:
  assumes "u \<noteq> 0" and "st_states s u = Some st" and "normal_query q"
    and "rest = filter (past_cursor q) (history s u q)"
  shows "StarsStore_ListTransactions s u q = Inr \<lparr>sp_Balance = ss_balance st,
     sp_Transactions = take (nat (sq_Limit q)) rest,
     sp_NextOffset = (if sq_Limit q < int (length rest)
       then EncodeStarsCursor (tx_ID (last (take (nat (sq_Limit q)) rest))) else [])\<rparr>"
proof -
  let ?rows = "if sq_Ascending q then ss_txns st else rev (ss_txns st)"
  let ?out = "collect_txns (match_txn q (DecodeStarsCursor (sq_Offset q))) (sq_Limit q) [] ?rows"
  have L: "0 < sq_Limit q" using assms(3) by (simp add: normal_query_def)
  have out: "?out = take (nat (sq_Limit q) + 1) rest"
    using L assms(2,4) by (simp add: collect_txns_take match_txn_filter history_def)
  have more: "sq_Limit q < int (length ?out) \<longleftrightarrow> sq_Limit q < int (length rest)"
    using L by (auto simp: out min_def)
  have small: "?out = take (nat (sq_Limit q)) rest" if "\<not> sq_Limit q < int (length rest)"
    using that L by (simp add: out)
  have big: "take (nat (sq_Limit q)) ?out = take (nat (sq_Limit q)) rest"
    by (simp add: out min_def)
  show ?thesis
    using assms(1,2) Normalize_normal [OF assms(3)] more small big
    by (simp add: StarsStore_ListTransactions_def Let_def)
qed

text \<open>A client that follows \<open>NextOffset\<close> until it is empty, for at most \<open>n\<close> pages.\<close>

fun walk_pages :: "nat \<Rightarrow> stars_store \<Rightarrow> int \<Rightarrow> stars_query \<Rightarrow> stars_transaction list" where
  "walk_pages 0 s u q = []"
| "walk_pages (Suc n) s u q =
     (case StarsStore_ListTransactions s u q of
        Inl _ \<Rightarrow> []
      | Inr p \<Rightarrow> sp_Transactions p @
          (if sp_NextOffset p = [] then [] else walk_pages n s u (q\<lparr>sq_Offset := sp_NextOffset p\<rparr>)))"

lemma history_offset [simp]: "history s u (q\<lparr>sq_Offset := x\<rparr>) = history s u q"
  by (cases "st_states s u") (simp_all add: history_def)

lemma history_ids:
  assumes "stars_wf s" and "st_nextID s \<le> max_int64" and "t \<in> set (history s u q)"
  shows "0 < tx_ID t" and "in_int64 (tx_ID t)"
proof -
  obtain st where "st_states s u = Some st" "t \<in> set (ss_txns st)"
    using assms(3) by (cases "st_states s u") (auto simp: history_def split: if_splits)
  then have "1 \<le> tx_ID t \<and> tx_ID t \<le> st_nextID s" using stars_wfD(4) [OF assms(1)] by blast
  with assms(2) show "0 < tx_ID t" "in_int64 (tx_ID t)" by (auto simp: in_int64_def max_int64_def)
qed

lemma walk_from:
  assumes wf: "stars_wf s" and ids: "st_nextID s \<le> max_int64"
    and u: "u \<noteq> 0" and st: "st_states s u = Some st"
  shows "normal_query q \<Longrightarrow>
    drop k (history s u q) = filter (past_cursor q) (history s u q) \<Longrightarrow>
    length (history s u q) < n + k \<Longrightarrow>
    walk_pages n s u q = drop k (history s u q)"
proof (induction n arbitrary: q k)
  case 0
  then show ?case by simp
next
  case (Suc n)
  let ?h = "history s u q" and ?L = "nat (sq_Limit q)"
  let ?rest = "drop k ?h"
  have L: "0 < ?L" using Suc.prems(1) by (simp add: normal_query_def)
  note page = list_page [OF u st Suc.prems(1,2)]
  show ?case
  proof (cases "sq_Limit q < int (length ?rest)")
    case False
    then show ?thesis using page by (simp add: nat_le_iff)
  next
    case True
    let ?t = "last (take ?L ?rest)"
    let ?q = "q\<lparr>sq_Offset := EncodeStarsCursor (tx_ID ?t)\<rparr>"
    have len: "k + ?L \<le> length ?h" using True L unfolding length_drop by arith
    have "take ?L ?rest \<noteq> []" using True L by auto
    then have "?t \<in> set (take ?L ?rest)" by (rule last_in_set)
    then have "?t \<in> set ?h" by (meson in_set_dropD in_set_takeD)
    note tid = history_ids [OF wf ids this]
    have dec: "DecodeStarsCursor (sq_Offset ?q) = Some (tx_ID ?t)"
      using decode_encode_cursor [OF tid] by simp
    have nq: "normal_query ?q"
      using Suc.prems(1) length_EncodeStarsCursor [of "tx_ID ?t"] tid by (simp add: normal_query_def)
    have last: "?t = last (take (k + ?L) ?h)"
      using len L by (metis append_is_Nil_conv last_appendR take_add take_eq_Nil
          \<open>take ?L ?rest \<noteq> []\<close>)
    have "filter (after q ?t) ?h = drop (k + ?L) ?h"
      unfolding last using history_sorted [OF wf] after_asym len L
      by (intro filter_beyond) auto
    moreover have "past_cursor ?q = after q ?t"
      using dec by (intro ext) (simp add: past_cursor_def after_def)
    ultimately have nxt: "drop (k + ?L) (history s u ?q) = filter (past_cursor ?q) (history s u ?q)"
      by simp
    have "walk_pages n s u ?q = drop (k + ?L) (history s u ?q)"
      using Suc.IH [OF nq nxt] Suc.prems(3) L by simp
    moreover have "EncodeStarsCursor (tx_ID ?t) \<noteq> []"
      using tid by (simp add: EncodeStarsCursor_not_Nil)
    moreover have "take ?L ?rest @ drop (k + ?L) ?h = ?rest"
      by (metis add.commute append_take_drop_id drop_drop)
    ultimately show ?thesis using page True by simp
  qed
qed

section \<open>Properties\<close>

lemma store_run_wf: "stars_wf s \<Longrightarrow> stars_wf (fold (\<lambda>(v, oper). store_perform v oper) cmds s)"
  by (induction cmds arbitrary: s) (auto simp: store_perform_wf)

text \<open>
  C26. No sequence of grants, credits and debits on any accounts, interleaved in any order,
  overdraws an account, as long as what flows into it fits an \<open>int64\<close>.
\<close>

theorem stars_no_overdraft:
  assumes "u \<noteq> 0" and "0 \<le> acc_balance (store_view s u)"
    and "acc_balance (store_view s u) +
      sum_list (map (op_inflow \<circ> snd) (filter (\<lambda>(v, _). v = u) cmds)) \<le> max_int64"
  shows "0 \<le> acc_balance (store_view (fold (\<lambda>(v, oper). store_perform v oper) cmds s) u)"
  using assms by (rule ledger.run_no_overdraft)

theorem stars_no_overdraft_witness:
  "0 \<le> acc_balance (store_view (fold (\<lambda>(v, oper). store_perform v oper)
     [(7, OpGrant 1000 5), (9, OpCredit 10 StarsReasonTopup zero_peer 5 [] []),
      (7, OpDebit 2000 StarsReasonGift zero_peer 6 [] []),
      (7, OpDebit 400 StarsReasonGift zero_peer 6 [] [])] NewStarsStore) 7)"
  by (rule stars_no_overdraft) (simp_all add: store_view_def NewStarsStore_def max_int64_def)

text \<open>
  C27. In every store the ledger can reach, an account's balance is the sum of its rows (modulo
  the \<open>int64\<close> wrap), its row ids grow strictly, and every row carries its owner's id.
\<close>

theorem stars_ledger_consistent:
  assumes "st_states (fold (\<lambda>(v, oper). store_perform v oper) cmds NewStarsStore) u = Some st"
  shows "ss_balance st = wrap64 (\<Sum>t\<leftarrow>ss_txns st. tx_Amount t) \<and>
    sorted_wrt (<) (map tx_ID (ss_txns st)) \<and> (\<forall>t\<in>set (ss_txns st). tx_UserID t = u)"
  using stars_wfD [OF store_run_wf [OF NewStarsStore_wf] assms] by blast

theorem stars_ledger_consistent_witness:
  "\<exists>st. st_states (fold (\<lambda>(v, oper). store_perform v oper)
      [(7, OpGrant 1000 5), (7, OpDebit 400 StarsReasonGift zero_peer 6 [] [])] NewStarsStore) 7
      = Some st \<and> ss_balance st = wrap64 (\<Sum>t\<leftarrow>ss_txns st. tx_Amount t) \<and>
      length (ss_txns st) = 2"
proof -
  let ?cmds = "[(7, OpGrant 1000 5), (7, OpDebit 400 StarsReasonGift zero_peer 6 [] [])]"
  obtain st where st: "st_states (fold (\<lambda>(v, oper). store_perform v oper) ?cmds NewStarsStore) 7
      = Some st" and len: "length (ss_txns st) = 2"
    by (simp add: store_op_defs NewStarsStore_def Let_def wrap64_def)
  show ?thesis using st len stars_ledger_consistent [OF st] by blast
qed

text \<open>
  The starting grant is applied at most once: a second \<open>EnsureGrant\<close> changes nothing and
  reports that it granted nothing.
\<close>

theorem grant_applied_once:
  assumes "StarsStore_EnsureGrant s u n d = (s', b, applied)" and "0 < n" and "u \<noteq> 0"
  shows "StarsStore_EnsureGrant s' u n' d' = (s', b, False)"
proof (cases "st_states s u")
  case None
  with assms show ?thesis
    by (auto simp: store_op_defs Let_def fun_upd_idem)
next
  case (Some st)
  with assms show ?thesis
    by (cases "ss_granted st") (auto simp: store_op_defs Let_def fun_upd_idem)
qed

theorem grant_applied_once_witness:
  "\<exists>s' b. StarsStore_EnsureGrant NewStarsStore 7 1000 5 = (s', b, True) \<and>
     StarsStore_EnsureGrant s' 7 1000 9 = (s', b, False)"
proof -
  obtain s' b where e: "StarsStore_EnsureGrant NewStarsStore 7 1000 5 = (s', b, True)"
    by (simp add: store_op_defs NewStarsStore_def Let_def)
  show ?thesis using e grant_applied_once [OF e, of 1000 9] by auto
qed

text \<open>
  A new account can spend its starting grant before it ever read its balance, and not a
  star more: the service applies the grant first, then debits.
\<close>

theorem first_debit_sees_grant:
  assumes "st_states s u = None" and "u \<noteq> 0" and "0 < grant" and "in_int64 grant" and "0 < n"
  shows "snd (StarsService_Debit grant now s u n reason p title desc) =
    (if n \<le> grant then Inr \<lparr>sb_UserID = u, sb_Balance = grant - n, sb_Granted = True\<rparr>
     else Inl ErrStarsInsufficient)"
proof -
  have "in_int64 (grant - n)" if "n \<le> grant"
    using that assms(4,5) by (auto simp: in_int64_def max_int64_def)
  with assms show ?thesis
    by (auto simp: StarsService_Debit_def ensureGranted_def store_op_defs Let_def wrap64_id)
qed

theorem first_debit_sees_grant_witness:
  "snd (StarsService_Debit 1000 5 NewStarsStore 7 400 StarsReasonGift zero_peer [] []) =
     Inr \<lparr>sb_UserID = 7, sb_Balance = 600, sb_Granted = True\<rparr>"
  using first_debit_sees_grant [of NewStarsStore 7 1000 400]
  by (simp add: NewStarsStore_def in_int64_def max_int64_def)

text \<open>
  A client that starts without a cursor and follows \<open>NextOffset\<close> until it is empty sees
  every row of the requested direction exactly once, in the requested order.
\<close>

theorem pages_cover_history:
  assumes "stars_wf s" and "st_nextID s \<le> max_int64"
    and "u \<noteq> 0" and "st_states s u = Some st"
    and "direction_Valid (sq_Direction q)" and "0 < sq_Limit q" and "sq_Limit q \<le> 100"
    and "sq_Offset q = []" and "length (ss_txns st) < n"
  shows "walk_pages n s u q =
    filter (\<lambda>t. direction_IncludesAmount (sq_Direction q) (tx_Amount t))
      (if sq_Ascending q then ss_txns st else rev (ss_txns st))"
proof -
  have nq: "normal_query q" using assms(5-8) by (simp add: normal_query_def)
  have "past_cursor q = (\<lambda>_. True)"
    using assms(8) by (intro ext) (simp add: past_cursor_def DecodeStarsCursor_def)
  then have start: "drop 0 (history s u q) = filter (past_cursor q) (history s u q)"
    by (simp add: filter_True)
  have "length (history s u q) \<le> length (ss_txns st)"
    using assms(4) by (auto simp: history_def intro: order_trans [OF length_filter_le])
  then have "walk_pages n s u q = history s u q"
    using walk_from [OF assms(1-4) nq start] assms(9) by simp
  then show ?thesis using assms(4) by (simp add: history_def)
qed

theorem pages_cover_history_witness:
  "\<exists>s st. st_states s 7 = Some st \<and> length (ss_txns st) = 3 \<and>
     walk_pages 4 s 7 \<lparr>sq_Offset = [], sq_Limit = 1, sq_Direction = 1, sq_Ascending = False\<rparr> =
     filter (\<lambda>t. direction_IncludesAmount 1 (tx_Amount t)) (rev (ss_txns st))"
proof -
  let ?cmds = "[(7, OpGrant 1000 5), (7, OpDebit 400 StarsReasonGift zero_peer 6 [] []),
    (7, OpCredit 30 StarsReasonTopup zero_peer 6 [] [])]"
  let ?s = "fold (\<lambda>(v, oper). store_perform v oper) ?cmds NewStarsStore"
  let ?q = "\<lparr>sq_Offset = [], sq_Limit = 1, sq_Direction = 1, sq_Ascending = False\<rparr> :: stars_query"
  have wf: "stars_wf ?s" by (rule store_run_wf [OF NewStarsStore_wf])
  obtain st where st: "st_states ?s 7 = Some st" and len: "length (ss_txns st) = 3"
      and nid: "st_nextID ?s = 3"
    by (simp add: store_op_defs NewStarsStore_def Let_def wrap64_def)
  have "walk_pages 4 ?s 7 ?q = filter (\<lambda>t. direction_IncludesAmount (sq_Direction ?q) (tx_Amount t))
      (if sq_Ascending ?q then ss_txns st else rev (ss_txns st))"
    using pages_cover_history [OF wf _ _ st, of ?q 4] len nid
    by (simp add: max_int64_def direction_Valid_def)
  with st len show ?thesis by (intro exI [of _ ?s] exI [of _ st]) simp
qed

text \<open>
  Decoding an encoded cursor gives back the row id, for every positive \<open>int64\<close>.
\<close>

theorem cursor_roundtrip:
  assumes "0 < i" and "in_int64 i"
  shows "DecodeStarsCursor (EncodeStarsCursor i) = Some i \<and>
    length (EncodeStarsCursor i) \<le> MaxStarsTransactionsOffsetBytes"
  using decode_encode_cursor [OF assms] length_EncodeStarsCursor [of i] assms by simp

theorem cursor_roundtrip_witness: "DecodeStarsCursor (EncodeStarsCursor 1234567) = Some 1234567"
  using cursor_roundtrip [of 1234567] by (simp add: in_int64_def max_int64_def)

text \<open>
  A giveaway command that passes validation costs exactly its number of winners times the
  stars of each, as integers: the \<open>int64\<close> product the check computes cannot have wrapped.
\<close>

theorem giveaway_total_exact:
  assumes "validPurchaseCommand f" and "pf_Kind f = StarsPurchaseGiveaway"
    and "in_int64 (pf_Stars f)"
  shows "\<exists>g. pf_Giveaway f = Some g \<and> 0 < gp_Users g \<and> 0 < gp_PerUserStars g \<and>
    gp_Users g * gp_PerUserStars g = pf_Stars f"
proof -
  obtain g where g: "pf_Giveaway f = Some g" "gp_Users g > 0" "gp_PerUserStars g > 0"
      "gp_Users g \<le> pf_Stars f div gp_PerUserStars g"
      "wrap64 (gp_Users g * gp_PerUserStars g) = pf_Stars f"
    using assms(1,2) by (cases "pf_Giveaway f") (auto simp: validPurchaseCommand_def split: if_splits)
  have "gp_Users g * gp_PerUserStars g \<le> (pf_Stars f div gp_PerUserStars g) * gp_PerUserStars g"
    using g(3,4) by (intro mult_right_mono) auto
  also have "\<dots> \<le> pf_Stars f"
    using g(3) div_mult_mod_eq [of "pf_Stars f" "gp_PerUserStars g"]
      pos_mod_sign [of "gp_PerUserStars g" "pf_Stars f"] by linarith
  finally have "gp_Users g * gp_PerUserStars g \<le> max_int64"
    using assms(3) by (simp add: in_int64_def)
  moreover have "0 < gp_Users g * gp_PerUserStars g" using g(2,3) by simp
  ultimately have "in_int64 (gp_Users g * gp_PerUserStars g)"
    unfolding in_int64_def max_int64_def by linarith
  with g show ?thesis by (auto simp: wrap64_id)
qed

theorem giveaway_total_exact_witness:
  "\<exists>f. validPurchaseCommand f \<and> pf_Kind f = StarsPurchaseGiveaway \<and> (\<exists>g. pf_Giveaway f = Some g \<and>
     gp_Users g * gp_PerUserStars g = pf_Stars f)"
proof -
  let ?g = "\<lparr>gp_BoostPeer = \<lparr>peer_type = PeerTypeChannel, peer_id = 3\<rparr>, gp_AdditionalPeers = [],
    gp_CountriesISO2 = [], gp_PrizeDescription = [], gp_RandomID = 1, gp_UntilDate = 1,
    gp_Users = 10, gp_PerUserStars = 50, gp_YearlyBoosts = 0, gp_OnlyNewSubscribers = False,
    gp_WinnersAreVisible = False\<rparr> :: stars_giveaway_purchase"
  let ?f = "\<lparr>pf_FormID = 1, pf_Kind = StarsPurchaseGiveaway, pf_BuyerUserID = 7,
    pf_RecipientUserID = 0, pf_SpendPurposePeer = zero_peer, pf_Giveaway = Some ?g,
    pf_Stars = 500, pf_Currency = ''USD'', pf_Amount = 999, pf_IssuedAt = 1,
    pf_ExpiresAt = 601\<rparr> :: stars_purchase_form"
  have v: "validPurchaseCommand ?f" by (simp add: validPurchaseCommand_def wrap64_def)
  have "\<exists>g. pf_Giveaway ?f = Some g \<and> 0 < gp_Users g \<and> 0 < gp_PerUserStars g \<and>
      gp_Users g * gp_PerUserStars g = pf_Stars ?f"
    by (rule giveaway_total_exact [OF v]) (simp_all add: in_int64_def max_int64_def)
  with v show ?thesis by (intro exI [of _ ?f]) auto
qed

text \<open>
  \<open>Credit\<close> has no overflow guard: crediting one star to a full balance leaves the account
  with the most negative balance, although balances are documented as never negative.
\<close>

theorem credit_overflow_wraps:
  "\<exists>s1 b1 s2 b2.
     StarsStore_Credit NewStarsStore 7 max_int64 StarsReasonTopup zero_peer 1 [] [] = (s1, Inr b1) \<and>
     StarsStore_Credit s1 7 1 StarsReasonTopup zero_peer 1 [] [] = (s2, Inr b2) \<and>
     sb_Balance b1 = max_int64 \<and> sb_Balance b2 = - max_int64 - 1"
  by (simp add: store_op_defs NewStarsStore_def Let_def max_int64_def wrap64_def)

end
