(* ===== verification/Update_Log.thy ===== *)
theory Update_Log
  imports Gram_Prelude "HOL-Library.Multiset"
begin

text \<open>
  The account update log: the event and state types of \<open>internal/domain/update_event.go\<close> and
  \<open>update.go\<close>, and the two in-memory stores of \<open>internal/store/memory/updates.go\<close>. Every event an
  account sees occupies the half-open range from \<open>Pts - PtsCount\<close> to \<open>Pts\<close> of the account's
  \<open>pts\<close> line; the state store keeps, per device and account, how far the device confirmed and
  how far it proved to have read.

  Snapshots of other subsystems that an event carries and this code never looks into (message
  and story contents, peer settings, folders, quick replies) are values of the type parameter
  \<open>'x\<close>; a nil pointer or an absent one is \<open>None\<close>. Cloning an event copies its slices so that no
  two holders share them; values of the model are never shared, so \<open>cloneUpdateEvent\<close> is the
  identity and does not appear. \<open>pts\<close> counters are Go \<open>int\<close>s that count events; they are
  unbounded here.
\<close>

section \<open>Events and states\<close>

datatype update_event_type = UpdateEventZero | UpdateEventNewMessage
  | UpdateEventReadHistoryInbox | UpdateEventReadHistoryOutbox
  | UpdateEventReadChannelDiscussionInbox | UpdateEventReadChannelDiscussionOutbox
  | UpdateEventReadMessageContents | UpdateEventEditMessage | UpdateEventBotCallbackQuery
  | UpdateEventBotPreCheckoutQuery | UpdateEventWebPage | UpdateEventMessagePoll
  | UpdateEventContactsReset | UpdateEventDialogPinned | UpdateEventPinnedDialogs
  | UpdateEventDialogUnreadMark | UpdateEventPeerSettings | UpdateEventPeerStoryBlocked
  | UpdateEventUserPhone | UpdateEventUserEmojiStatus | UpdateEventDeleteMessages
  | UpdateEventPinnedMessages | UpdateEventDialogFilter | UpdateEventDialogFilterOrder
  | UpdateEventDialogFilters | UpdateEventFolderPeers | UpdateEventChannelViewForum
  | UpdateEventStory | UpdateEventReadStories | UpdateEventSentStoryReaction
  | UpdateEventNewStoryReaction | UpdateEventQuickReplies | UpdateEventNewQuickReply
  | UpdateEventDeleteQuickReply | UpdateEventQuickReplyMessage
  | UpdateEventDeleteQuickReplyMessages | UpdateEventChannelState | UpdateEventDraftMessage
  | UpdateEventSavedDialogPinned | UpdateEventPinnedSavedDialogs | UpdateEventNoop

record emoji_status_collectible =
  esc_CollectibleID :: int
  esc_DocumentID :: int
  esc_Title :: string
  esc_Slug :: string
  esc_PatternDocumentID :: int
  esc_CenterColor :: int
  esc_EdgeColor :: int
  esc_PatternColor :: int
  esc_TextColor :: int

definition zero_collectible :: emoji_status_collectible where
  "zero_collectible = \<lparr>esc_CollectibleID = 0, esc_DocumentID = 0, esc_Title = [], esc_Slug = [],
     esc_PatternDocumentID = 0, esc_CenterColor = 0, esc_EdgeColor = 0, esc_PatternColor = 0,
     esc_TextColor = 0\<rparr>"

definition EmojiStatusCollectible_Empty :: "emoji_status_collectible \<Rightarrow> bool" where
  "EmojiStatusCollectible_Empty c \<longleftrightarrow> c = zero_collectible"

definition EmojiStatusCollectible_Valid :: "emoji_status_collectible \<Rightarrow> bool" where
  "EmojiStatusCollectible_Valid c =
     (if esc_CollectibleID c \<le> 0 \<or> esc_DocumentID c \<le> 0 \<or> esc_PatternDocumentID c \<le> 0 \<or>
         esc_Title c = [] \<or> esc_Slug c = [] then False
      else list_all (\<lambda>color. \<not> (color < 0 \<or> color > 0xffffff))
        [esc_CenterColor c, esc_EdgeColor c, esc_PatternColor c, esc_TextColor c])"

record user_emoji_status =
  ues_DocumentID :: int
  ues_Until :: int
  ues_Collectible :: emoji_status_collectible

definition zero_emoji_status :: user_emoji_status where
  "zero_emoji_status = \<lparr>ues_DocumentID = 0, ues_Until = 0, ues_Collectible = zero_collectible\<rparr>"

definition UserEmojiStatus_Empty :: "user_emoji_status \<Rightarrow> bool" where
  "UserEmojiStatus_Empty s \<longleftrightarrow>
     ues_DocumentID s = 0 \<and> EmojiStatusCollectible_Empty (ues_Collectible s)"

definition UserEmojiStatus_Valid :: "user_emoji_status \<Rightarrow> bool" where
  "UserEmojiStatus_Valid s =
     (if ues_Until s < 0 then False
      else if UserEmojiStatus_Empty s then ues_Until s = 0
      else if ues_DocumentID s \<le> 0 then False
      else if EmojiStatusCollectible_Empty (ues_Collectible s) then True
      else EmojiStatusCollectible_Valid (ues_Collectible s) \<and>
           ues_DocumentID s = esc_DocumentID (ues_Collectible s))"

record 'x message =
  msg_ID :: int
  msg_OwnerUserID :: int
  msg_Peer :: peer
  msg_Date :: int
  msg_content :: "'x option"

record 'x story =
  story_Owner :: peer
  story_Date :: int
  story_content :: "'x option"

record 'x update_event =
  ev_UserID :: int
  ev_Type :: update_event_type
  ev_Pts :: int
  ev_PtsCount :: int
  ev_Date :: int
  ev_Message :: "'x message option"
  ev_Story :: "'x story option"
  ev_Peer :: peer
  ev_Peers :: "peer list"
  ev_Bool :: bool
  ev_EmojiStatus :: user_emoji_status
  ev_Settings :: "'x option"
  ev_MessageIDs :: "int list"
  ev_MaxID :: int
  ev_StillUnreadCount :: int
  ev_ChannelPts :: int
  ev_TopMsgID :: int
  ev_FilterID :: int
  ev_FolderID :: int
  ev_DialogFilter :: "'x option"
  ev_FilterOrder :: "int list"
  ev_FolderPeers :: "'x list"
  ev_Reaction :: "'x option"
  ev_QuickReplies :: "'x list"
  ev_QuickReply :: "'x option"
  ev_QuickReplyMessage :: "'x option"

text \<open>The zero value \<open>domain.UpdateEvent{}\<close>, from which composite literals start.\<close>

definition zero_event :: "'x update_event" where
  "zero_event = \<lparr>ev_UserID = 0, ev_Type = UpdateEventZero, ev_Pts = 0, ev_PtsCount = 0,
     ev_Date = 0, ev_Message = None, ev_Story = None, ev_Peer = zero_peer, ev_Peers = [],
     ev_Bool = False, ev_EmojiStatus = zero_emoji_status, ev_Settings = None, ev_MessageIDs = [],
     ev_MaxID = 0, ev_StillUnreadCount = 0, ev_ChannelPts = 0, ev_TopMsgID = 0, ev_FilterID = 0,
     ev_FolderID = 0, ev_DialogFilter = None, ev_FilterOrder = [], ev_FolderPeers = [],
     ev_Reaction = None, ev_QuickReplies = [], ev_QuickReply = None, ev_QuickReplyMessage = None\<rparr>"

definition LacksWirePts :: "'x update_event \<Rightarrow> bool" where
  "LacksWirePts e =
     (case ev_Type e of
        UpdateEventMessagePoll \<Rightarrow> True
      | UpdateEventDraftMessage \<Rightarrow> True
      | UpdateEventChannelState \<Rightarrow> True
      | UpdateEventContactsReset \<Rightarrow> True
      | UpdateEventDialogPinned \<Rightarrow> True
      | UpdateEventPinnedDialogs \<Rightarrow> True
      | UpdateEventSavedDialogPinned \<Rightarrow> True
      | UpdateEventPinnedSavedDialogs \<Rightarrow> True
      | UpdateEventDialogUnreadMark \<Rightarrow> True
      | UpdateEventPeerSettings \<Rightarrow> True
      | UpdateEventPeerStoryBlocked \<Rightarrow> True
      | UpdateEventUserPhone \<Rightarrow> True
      | UpdateEventUserEmojiStatus \<Rightarrow> True
      | UpdateEventDialogFilter \<Rightarrow> True
      | UpdateEventDialogFilterOrder \<Rightarrow> True
      | UpdateEventDialogFilters \<Rightarrow> True
      | UpdateEventChannelViewForum \<Rightarrow> True
      | UpdateEventStory \<Rightarrow> True
      | UpdateEventReadStories \<Rightarrow> True
      | UpdateEventSentStoryReaction \<Rightarrow> True
      | UpdateEventNewStoryReaction \<Rightarrow> True
      | UpdateEventQuickReplies \<Rightarrow> True
      | UpdateEventNewQuickReply \<Rightarrow> True
      | UpdateEventDeleteQuickReply \<Rightarrow> True
      | UpdateEventQuickReplyMessage \<Rightarrow> True
      | UpdateEventDeleteQuickReplyMessages \<Rightarrow> True
      | UpdateEventReadChannelDiscussionInbox \<Rightarrow> True
      | UpdateEventReadChannelDiscussionOutbox \<Rightarrow> True
      | UpdateEventReadHistoryInbox \<Rightarrow> peer_type (ev_Peer e) = PeerTypeChannel
      | UpdateEventReadHistoryOutbox \<Rightarrow> peer_type (ev_Peer e) = PeerTypeChannel
      | _ \<Rightarrow> False)"

record update_state =
  us_Pts :: int
  us_Qts :: int
  us_Date :: int
  us_Seq :: int

definition zero_update_state :: update_state where
  "zero_update_state = \<lparr>us_Pts = 0, us_Qts = 0, us_Date = 0, us_Seq = 0\<rparr>"

text \<open>A commit mode is a \<open>uint8\<close>: 1 delivered only, 2 delivered and observed baseline.\<close>

type_synonym commit_mode = "8 word"

abbreviation UpdateStateCommitDeliveredOnly :: commit_mode where
  "UpdateStateCommitDeliveredOnly \<equiv> 1"
abbreviation UpdateStateCommitDeliveredAndObservedBaseline :: commit_mode where
  "UpdateStateCommitDeliveredAndObservedBaseline \<equiv> 2"

record 'x update_difference =
  ud_State :: update_state
  ud_Events :: "'x update_event list"
  ud_Partial :: bool

section \<open>The event store\<close>

record update_dispatch =
  di_Pts :: int
  di_ExcludeAuthKeyID :: auth_key_id
  di_ExcludeSessionID :: int

record 'x event_store =
  es_events :: "int \<Rightarrow> 'x update_event list"
  es_dispatches :: "int \<Rightarrow> update_dispatch list"

datatype update_error = ErrDispatchExclusion | ErrInvalidCommitMode | ErrEventUserMismatch
  | ErrStoryPeerInvalid | ErrStarGiftCollectibleInvalid | ErrCheckpointRead

definition NewUpdateEventStore :: "'x event_store" where
  "NewUpdateEventStore = \<lparr>es_events = (\<lambda>_. []), es_dispatches = (\<lambda>_. [])\<rparr>"

text \<open>The scan \<open>for _, item := range events: if item.Pts > current\<close>.\<close>

fun max_pts :: "int \<Rightarrow> 'x update_event list \<Rightarrow> int" where
  "max_pts current [] = current"
| "max_pts current (e # es) = max_pts (if ev_Pts e > current then ev_Pts e else current) es"

definition appendLocked :: "'x event_store \<Rightarrow> int \<Rightarrow> 'x update_event \<Rightarrow> bool \<Rightarrow>
    'x event_store \<times> 'x update_event" where
  "appendLocked s u event allocate =
     (let e1 = (if ev_PtsCount event \<le> 0 then event\<lparr>ev_PtsCount := 1\<rparr> else event);
          e2 = e1\<lparr>ev_UserID := u\<rparr>;
          e3 = (if allocate then e2\<lparr>ev_Pts := max_pts 0 (es_events s u) + ev_PtsCount e2\<rparr> else e2)
      in (s\<lparr>es_events := (es_events s)(u := es_events s u @ [e3])\<rparr>, e3))"

definition event_append :: "'x event_store \<Rightarrow> int \<Rightarrow> 'x update_event \<Rightarrow> bool \<Rightarrow> bool \<Rightarrow>
    auth_key_id \<Rightarrow> int \<Rightarrow> 'x event_store \<times> (update_error + 'x update_event)" where
  "event_append s u event allocate withDispatch excludeKey excludeSession =
     (if withDispatch \<and> (excludeKey = 0) \<noteq> (excludeSession = 0) then (s, Inl ErrDispatchExclusion)
      else
        (case appendLocked s u event allocate of
           (s1, e) \<Rightarrow>
             if withDispatch
             then (s1\<lparr>es_dispatches := (es_dispatches s1)(u := es_dispatches s1 u @
                       [\<lparr>di_Pts = ev_Pts e, di_ExcludeAuthKeyID = excludeKey,
                         di_ExcludeSessionID = excludeSession\<rparr>])\<rparr>, Inr e)
             else (s1, Inr e)))"

definition Append :: "'x event_store \<Rightarrow> int \<Rightarrow> 'x update_event \<Rightarrow>
    'x event_store \<times> (update_error + 'x update_event)" where
  "Append s u e = event_append s u e False False 0 0"

definition AppendAllocated :: "'x event_store \<Rightarrow> int \<Rightarrow> 'x update_event \<Rightarrow>
    'x event_store \<times> (update_error + 'x update_event)" where
  "AppendAllocated s u e = event_append s u e True False 0 0"

definition AppendAllocatedWithDispatch :: "'x event_store \<Rightarrow> int \<Rightarrow> 'x update_event \<Rightarrow>
    auth_key_id \<Rightarrow> int \<Rightarrow> 'x event_store \<times> (update_error + 'x update_event)" where
  "AppendAllocatedWithDispatch s u e excludeKey excludeSession =
     event_append s u e True True excludeKey excludeSession"

text \<open>\<open>ListAfter\<close>: rows above \<open>pts\<close> in stored order, at most \<open>limit\<close> of them (0 is no limit).\<close>

fun list_after :: "int \<Rightarrow> int \<Rightarrow> 'x update_event list \<Rightarrow> 'x update_event list \<Rightarrow>
    'x update_event list" where
  "list_after pts limit out [] = out"
| "list_after pts limit out (e # es) =
     (if ev_Pts e \<le> pts then list_after pts limit out es
      else let out1 = out @ [e]
           in if limit > 0 \<and> int (length out1) \<ge> limit then out1
              else list_after pts limit out1 es)"

definition ListAfter :: "'x event_store \<Rightarrow> int \<Rightarrow> int \<Rightarrow> int \<Rightarrow> 'x update_event list" where
  "ListAfter s u pts limit = list_after pts limit [] (es_events s u)"

definition FindNewMessageEvent :: "'x event_store \<Rightarrow> int \<Rightarrow> int \<Rightarrow> 'x update_event option" where
  "FindNewMessageEvent s u box =
     (if u = 0 \<or> box \<le> 0 then None
      else find (\<lambda>e. ev_Type e = UpdateEventNewMessage \<and>
             (case ev_Message e of None \<Rightarrow> False | Some m \<Rightarrow> msg_ID m = box)) (es_events s u))"

text \<open>
  \<open>MaxContiguousPts\<close> builds a map from where an event starts to where it ends (a later event
  overwrites an earlier one) and follows it from 0. The loop of the source has no test that the
  next end lies above the current one; \<open>follow_pts_unguarded\<close> below shows that it always does.
\<close>

definition event_count :: "'x update_event \<Rightarrow> int" where
  "event_count e = (if ev_PtsCount e \<le> 0 then 1 else ev_PtsCount e)"

definition next_by_start :: "'x update_event list \<Rightarrow> (int \<times> int) list" where
  "next_by_start es = rev (map (\<lambda>e. (ev_Pts e - event_count e, ev_Pts e)) es)"

function follow_pts :: "(int \<times> int) list \<Rightarrow> int \<Rightarrow> int" where
  "follow_pts m c = (case map_of m c of
     None \<Rightarrow> c | Some n \<Rightarrow> if c < n then follow_pts m n else c)"
  by pat_completeness auto
termination
proof (relation "measure (\<lambda>(m, c). length (filter (\<lambda>(k, _). c \<le> k) m))")
  fix m :: "(int \<times> int) list" and c n
  assume n: "map_of m c = Some n" "c < n"
  have sub: "filter (\<lambda>(k, _). n \<le> k) m = filter (\<lambda>(k, _). n \<le> k) (filter (\<lambda>(k, _). c \<le> k) m)"
    using n(2) by (auto intro!: filter_cong)
  have "(c, n) \<in> set (filter (\<lambda>(k, _). c \<le> k) m)" using map_of_SomeD [OF n(1)] by simp
  then have "length (filter (\<lambda>(k, _). n \<le> k) (filter (\<lambda>(k, _). c \<le> k) m))
      < length (filter (\<lambda>(k, _). c \<le> k) m)"
    using n(2) by (intro length_filter_less) auto
  with sub show "((m, n), (m, c)) \<in> measure (\<lambda>(m, c). length (filter (\<lambda>(k, _). c \<le> k) m))"
    by simp
qed simp

declare follow_pts.simps [simp del]

definition MaxContiguousPts :: "'x event_store \<Rightarrow> int \<Rightarrow> int" where
  "MaxContiguousPts s u = follow_pts (next_by_start (es_events s u)) 0"

section \<open>The state store\<close>

type_synonym state_key = "auth_key_id \<times> int"

record state_store =
  uss_states :: "state_key \<rightharpoonup> update_state"
  uss_observed :: "state_key \<rightharpoonup> update_state"

definition NewUpdateStateStore :: state_store where
  "NewUpdateStateStore = \<lparr>uss_states = Map.empty, uss_observed = Map.empty\<rparr>"

text \<open>Reading a missing key of a Go map gives the zero value.\<close>

definition state_or_zero :: "update_state option \<Rightarrow> update_state" where
  "state_or_zero o1 = (case o1 of None \<Rightarrow> zero_update_state | Some st \<Rightarrow> st)"

definition monotonicUpdateState :: "update_state \<Rightarrow> update_state \<Rightarrow> update_state" where
  "monotonicUpdateState prev nxt =
     (let n1 = (if us_Pts nxt < us_Pts prev then nxt\<lparr>us_Pts := us_Pts prev\<rparr> else nxt);
          n2 = (if us_Qts n1 < us_Qts prev then n1\<lparr>us_Qts := us_Qts prev\<rparr> else n1);
          n3 = (if us_Date n2 < us_Date prev then n2\<lparr>us_Date := us_Date prev\<rparr> else n2)
      in if us_Seq n3 < us_Seq prev then n3\<lparr>us_Seq := us_Seq prev\<rparr> else n3)"

definition UpdateState_Get :: "state_store \<Rightarrow> auth_key_id \<Rightarrow> int \<Rightarrow> update_state option" where
  "UpdateState_Get s k u = uss_states s (k, u)"

definition UpdateState_Save :: "state_store \<Rightarrow> auth_key_id \<Rightarrow> int \<Rightarrow> update_state \<Rightarrow> state_store"
where
  "UpdateState_Save s k u st =
     (let prev = state_or_zero (uss_states s (k, u));
          n1 = (if us_Pts st < us_Pts prev then st\<lparr>us_Pts := us_Pts prev\<rparr> else st);
          n2 = (if us_Qts n1 < us_Qts prev then n1\<lparr>us_Qts := us_Qts prev\<rparr> else n1);
          n3 = (if us_Date n2 < us_Date prev then n2\<lparr>us_Date := us_Date prev\<rparr> else n2);
          n4 = (if us_Seq n3 < us_Seq prev then n3\<lparr>us_Seq := us_Seq prev\<rparr> else n3)
      in s\<lparr>uss_states := (uss_states s)((k, u) \<mapsto> n4)\<rparr>)"

definition UpdateState_CommitDeliveredState :: "state_store \<Rightarrow> auth_key_id \<Rightarrow> int \<Rightarrow>
    update_state \<Rightarrow> commit_mode \<Rightarrow> update_error + state_store" where
  "UpdateState_CommitDeliveredState s k u st mode =
     (if mode \<noteq> UpdateStateCommitDeliveredOnly \<and>
         mode \<noteq> UpdateStateCommitDeliveredAndObservedBaseline then Inl ErrInvalidCommitMode
      else
        (let s1 = s\<lparr>uss_states := (uss_states s)((k, u) \<mapsto>
                   monotonicUpdateState (state_or_zero (uss_states s (k, u))) st)\<rparr>
         in Inr (if mode = UpdateStateCommitDeliveredAndObservedBaseline
                 then s1\<lparr>uss_observed := (uss_observed s1)((k, u) \<mapsto>
                        monotonicUpdateState (state_or_zero (uss_observed s1 (k, u))) st)\<rparr>
                 else s1)))"

definition UpdateState_ObserveClientState ::
    "state_store \<Rightarrow> auth_key_id \<Rightarrow> int \<Rightarrow> update_state \<Rightarrow> state_store" where
  "UpdateState_ObserveClientState s k u st =
     s\<lparr>uss_observed := (uss_observed s)((k, u) \<mapsto>
        monotonicUpdateState (state_or_zero (uss_observed s (k, u))) st)\<rparr>"

definition UpdateState_Delete :: "state_store \<Rightarrow> auth_key_id \<Rightarrow> int \<Rightarrow> state_store" where
  "UpdateState_Delete s k u =
     s\<lparr>uss_states := (uss_states s)((k, u) := None),
       uss_observed := (uss_observed s)((k, u) := None)\<rparr>"

definition UpdateState_DeleteAuthKey :: "state_store \<Rightarrow> auth_key_id \<Rightarrow> state_store" where
  "UpdateState_DeleteAuthKey s k =
     s\<lparr>uss_states := (\<lambda>(k', u). if k' = k then None else uss_states s (k', u)),
       uss_observed := (\<lambda>(k', u). if k' = k then None else uss_observed s (k', u))\<rparr>"

section \<open>Gap-free logs\<close>

text \<open>
  \<open>chain c es\<close>: the events follow each other without a gap from \<open>c\<close> on, each of them taking up
  a positive number of \<open>pts\<close>. \<open>chain_end\<close> is where they lead.
\<close>

fun chain :: "int \<Rightarrow> 'x update_event list \<Rightarrow> bool" where
  "chain c [] = True"
| "chain c (e # es) \<longleftrightarrow> 0 < ev_PtsCount e \<and> ev_Pts e = c + ev_PtsCount e \<and> chain (ev_Pts e) es"

fun chain_end :: "int \<Rightarrow> 'x update_event list \<Rightarrow> int" where
  "chain_end c [] = c"
| "chain_end c (e # es) = chain_end (ev_Pts e) es"

lemma chain_append: "chain c (xs @ ys) \<longleftrightarrow> chain c xs \<and> chain (chain_end c xs) ys"
  by (induction xs arbitrary: c) auto

lemma chain_end_append [simp]: "chain_end c (xs @ ys) = chain_end (chain_end c xs) ys"
  by (induction xs arbitrary: c) auto

lemma chain_end_ge: "chain c es \<Longrightarrow> c \<le> chain_end c es"
  by (induction es arbitrary: c) force+

lemma chain_pts_bounds: "chain c es \<Longrightarrow> e \<in> set es \<Longrightarrow> c < ev_Pts e \<and> ev_Pts e \<le> chain_end c es"
proof (induction es arbitrary: c)
  case (Cons a es)
  then show ?case using chain_end_ge [of "ev_Pts a" es] by fastforce
qed simp

lemma chain_event_range:
  "chain c es \<Longrightarrow> e \<in> set es \<Longrightarrow> 0 < ev_PtsCount e \<and> c \<le> ev_Pts e - ev_PtsCount e"
proof (induction es arbitrary: c)
  case (Cons a es)
  then show ?case by fastforce
qed simp

lemma chain_end_eq_last: "chain_end c es = (if es = [] then c else ev_Pts (last es))"
  by (induction es arbitrary: c) auto

lemma chain_sorted: "chain c es \<Longrightarrow> sorted_wrt (\<lambda>a b. ev_Pts a < ev_Pts b) es"
proof (induction es arbitrary: c)
  case (Cons a es)
  then show ?case using chain_pts_bounds [of "ev_Pts a" es] by auto
qed simp

lemma chain_sort: "chain c es \<Longrightarrow> sort_key ev_Pts es = es"
proof -
  assume "chain c es"
  then have "sorted_wrt (\<lambda>a b. ev_Pts a < ev_Pts b) es" by (rule chain_sorted)
  then have "sorted_wrt (<) (map ev_Pts es)" by (simp add: sorted_wrt_map)
  then have "sorted (map ev_Pts es)" by (simp add: strict_sorted_imp_sorted)
  then show ?thesis by (rule sort_key_id_if_sorted)
qed

lemma max_pts_chain: "chain c es \<Longrightarrow> max_pts c es = chain_end c es"
  by (induction es arbitrary: c) auto

text \<open>The rows above an event boundary are the rows after it.\<close>

lemma filter_chain:
  assumes "chain c (xs @ ys)"
  shows "filter (\<lambda>e. chain_end c xs < ev_Pts e) (xs @ ys) = ys"
proof -
  have "chain c xs" and ys: "chain (chain_end c xs) ys" using assms by (auto simp: chain_append)
  then have "\<forall>e\<in>set xs. \<not> chain_end c xs < ev_Pts e" using chain_pts_bounds by fastforce
  moreover have "\<forall>e\<in>set ys. chain_end c xs < ev_Pts e" using chain_pts_bounds [OF ys] by blast
  ultimately show ?thesis by (simp add: filter_True filter_False)
qed

section \<open>The event store implements a gap-free log\<close>

lemma appendLocked_chain:
  assumes "chain 0 (es_events s u)" and "appendLocked s u event True = (s', e)"
  shows "es_events s' = (es_events s)(u := es_events s u @ [e])"
    and "chain 0 (es_events s' u)"
    and "ev_Pts e = chain_end 0 (es_events s u) + ev_PtsCount e" and "0 < ev_PtsCount e"
  using assms by (auto simp: appendLocked_def Let_def chain_append max_pts_chain)

lemma list_after_eq:
  "0 < limit \<Longrightarrow> int (length out) < limit \<Longrightarrow>
   list_after pts limit out es = take (nat limit) (out @ filter (\<lambda>e. pts < ev_Pts e) es)"
proof (induction pts limit out es rule: list_after.induct)
  case (1 pts limit out)
  then have "length out \<le> nat limit" by linarith
  then show ?case by simp
next
  case (2 pts limit out e es)
  show ?case
  proof (cases "ev_Pts e \<le> pts")
    case True
    with 2 show ?thesis by simp
  next
    case False
    show ?thesis
    proof (cases "limit \<le> int (length (out @ [e]))")
      case True
      with "2.prems" have "nat limit = length (out @ [e])" by (simp add: nat_eq_iff)
      with False True "2.prems" show ?thesis by (simp add: Let_def)
    next
      case small: False
      with False 2 show ?thesis by (simp add: Let_def)
    qed
  qed
qed

lemma ListAfter_eq:
  "0 < limit \<Longrightarrow> ListAfter s u pts limit =
     take (nat limit) (filter (\<lambda>e. pts < ev_Pts e) (es_events s u))"
  by (simp add: ListAfter_def list_after_eq)

subsection \<open>The contiguous watermark\<close>

lemma next_by_start_up: "(k, v) \<in> set (next_by_start es) \<Longrightarrow> k < v"
  by (auto simp: next_by_start_def event_count_def)

text \<open>Every entry leads upward, so the source's loop, which does not test it, agrees and stops.\<close>

lemma follow_pts_unguarded:
  "follow_pts (next_by_start es) c =
     (case map_of (next_by_start es) c of
        None \<Rightarrow> c | Some n \<Rightarrow> follow_pts (next_by_start es) n)"
  using next_by_start_up [OF map_of_SomeD]
  by (subst follow_pts.simps) (auto split: option.splits)

lemma chain_next_by_start:
  "chain c es \<Longrightarrow>
   next_by_start es = rev (map (\<lambda>e. (ev_Pts e - ev_PtsCount e, ev_Pts e)) es)"
  using chain_event_range [of c es] by (fastforce simp: next_by_start_def event_count_def)

lemma chain_starts_sorted:
  "chain c es \<Longrightarrow> sorted_wrt (<) (map (\<lambda>e. ev_Pts e - ev_PtsCount e) es)"
proof (induction es arbitrary: c)
  case (Cons a es)
  then show ?case using chain_event_range [of "ev_Pts a" es] by fastforce
qed simp

lemma chain_starts_distinct: "chain c es \<Longrightarrow> distinct (map fst (next_by_start es))"
  using sorted_wrt_less_distinct [OF chain_starts_sorted, of c es]
  by (simp add: chain_next_by_start comp_def flip: rev_map)

lemma follow_chain:
  assumes "chain 0 (xs @ ys)"
  shows "follow_pts (next_by_start (xs @ ys)) (chain_end 0 xs) = chain_end 0 (xs @ ys)"
  using assms
proof (induction ys arbitrary: xs)
  case Nil
  let ?m = "next_by_start xs"
  have "chain 0 xs" using Nil by simp
  have "map_of ?m (chain_end 0 xs) = None"
  proof (rule ccontr)
    assume "map_of ?m (chain_end 0 xs) \<noteq> None"
    then obtain v where v: "(chain_end 0 xs, v) \<in> set ?m" by (auto dest: map_of_SomeD)
    then have "v \<in> ev_Pts ` set xs" by (auto simp: next_by_start_def)
    then have "v \<le> chain_end 0 xs" using chain_pts_bounds [OF \<open>chain 0 xs\<close>] by auto
    with next_by_start_up [OF v] show False by simp
  qed
  then show ?case by (simp add: follow_pts.simps)
next
  case (Cons e ys)
  let ?es = "xs @ e # ys"
  let ?m = "next_by_start ?es"
  have e: "0 < ev_PtsCount e" "ev_Pts e = chain_end 0 xs + ev_PtsCount e"
    using Cons.prems by (auto simp: chain_append)
  have "chain (ev_Pts e) ys" and cxs: "chain 0 xs" using Cons.prems by (auto simp: chain_append)
  have "distinct (map fst ?m)" using Cons.prems by (rule chain_starts_distinct)
  moreover have "(chain_end 0 xs, ev_Pts e) \<in> set ?m"
    using e chain_next_by_start [OF Cons.prems] by simp
  ultimately have "map_of ?m (chain_end 0 xs) = Some (ev_Pts e)" by (rule map_of_is_SomeI)
  then have "follow_pts ?m (chain_end 0 xs) = follow_pts ?m (ev_Pts e)"
    using e by (subst follow_pts.simps) simp
  also have "\<dots> = chain_end 0 ?es" using Cons.IH [of "xs @ [e]"] Cons.prems by simp
  finally show ?case .
qed

lemma MaxContiguousPts_chain:
  "chain 0 (es_events s u) \<Longrightarrow> MaxContiguousPts s u = chain_end 0 (es_events s u)"
  using follow_chain [of "[]" "es_events s u"] by (simp add: MaxContiguousPts_def)

section \<open>Cursors only move forward\<close>

text \<open>The least state above two states: the greatest of each counter.\<close>

definition us_join :: "update_state \<Rightarrow> update_state \<Rightarrow> update_state" where
  "us_join a b = \<lparr>us_Pts = max (us_Pts a) (us_Pts b), us_Qts = max (us_Qts a) (us_Qts b),
     us_Date = max (us_Date a) (us_Date b), us_Seq = max (us_Seq a) (us_Seq b)\<rparr>"

definition us_le :: "update_state \<Rightarrow> update_state \<Rightarrow> bool" where
  "us_le a b \<longleftrightarrow> us_Pts a \<le> us_Pts b \<and> us_Qts a \<le> us_Qts b \<and> us_Date a \<le> us_Date b \<and>
     us_Seq a \<le> us_Seq b"

lemma us_join_upper: "us_le a (us_join a b)" "us_le b (us_join a b)"
  by (auto simp: us_join_def us_le_def)

lemma us_join_least: "us_le a c \<Longrightarrow> us_le b c \<Longrightarrow> us_le (us_join a b) c"
  by (auto simp: us_join_def us_le_def)

lemma us_le_refl [simp]: "us_le a a" and us_le_trans: "us_le a b \<Longrightarrow> us_le b c \<Longrightarrow> us_le a c"
  by (auto simp: us_le_def)

lemma us_join_left_commute: "us_join (us_join a b) c = us_join (us_join a c) b"
  by (simp add: us_join_def max.left_commute max.commute)

lemma us_join_idem [simp]: "us_join (us_join a b) b = us_join a b"
  by (simp add: us_join_def)

lemma monotonic_eq_join: "monotonicUpdateState prev nxt = us_join prev nxt"
  by (cases prev; cases nxt) (auto simp: monotonicUpdateState_def us_join_def Let_def)

lemma Save_eq_join:
  "UpdateState_Save s k u st =
     s\<lparr>uss_states := (uss_states s)((k, u) \<mapsto> us_join (state_or_zero (uss_states s (k, u))) st)\<rparr>"
  unfolding monotonic_eq_join [symmetric]
  by (simp add: UpdateState_Save_def monotonicUpdateState_def Let_def)

text \<open>
  A register per device and account whose writes join. Whatever the order in which the writes
  of concurrent responses land, and however often one is repeated, the register holds the same
  state and never falls back.
\<close>

locale join_register =
  fixes rd :: "'s \<Rightarrow> 'k \<Rightarrow> update_state"
    and wr :: "'k \<Rightarrow> update_state \<Rightarrow> 's \<Rightarrow> 's"
  assumes wr_self: "rd (wr k st s) k = us_join (rd s k) st"
    and wr_other: "k' \<noteq> k \<Longrightarrow> rd (wr k st s) k' = rd s k'"
begin

lemma run_rd:
  "rd (fold (\<lambda>(k, st). wr k st) ws s) k =
     fold (\<lambda>st acc. us_join acc st) (map snd (filter (\<lambda>(k', _). k' = k) ws)) (rd s k)"
  by (induction ws arbitrary: s) (auto simp: wr_self wr_other)

lemma join_fold_mono: "us_le a (fold (\<lambda>st acc. us_join acc st) sts a)"
  by (induction sts arbitrary: a) (auto intro: us_le_trans us_join_upper)

lemma run_monotone: "us_le (rd s k) (rd (fold (\<lambda>(k, st). wr k st) ws s) k)"
  by (simp add: run_rd join_fold_mono)

lemma run_covers:
  "(k, st) \<in> set ws \<Longrightarrow> us_le st (rd (fold (\<lambda>(k, st). wr k st) ws s) k)"
proof (induction ws arbitrary: s)
  case (Cons w ws)
  show ?case
  proof (cases "w = (k, st)")
    case True
    have "us_le (rd (wr k st s) k) (rd (fold (\<lambda>(k, st). wr k st) ws (wr k st s)) k)"
      by (rule run_monotone)
    then have "us_le st (rd (fold (\<lambda>(k, st). wr k st) ws (wr k st s)) k)"
      unfolding wr_self by (rule us_le_trans [OF us_join_upper(2)])
    then show ?thesis using True by simp
  next
    case False
    then show ?thesis using Cons by (cases w) auto
  qed
qed simp

lemma run_order_irrelevant:
  assumes "mset ws = mset ws'"
  shows "rd (fold (\<lambda>(k, st). wr k st) ws s) k = rd (fold (\<lambda>(k, st). wr k st) ws' s) k"
proof -
  have "mset (map snd (filter (\<lambda>(k', _). k' = k) ws)) =
      mset (map snd (filter (\<lambda>(k', _). k' = k) ws'))"
    using assms by (simp add: mset_filter)
  then show ?thesis
    unfolding run_rd
    by (rule fold_permuted_eq [where P = "\<lambda>_. True"]) (auto simp: us_join_left_commute)
qed

end

definition confirmed :: "state_store \<Rightarrow> state_key \<Rightarrow> update_state" where
  "confirmed s k = state_or_zero (uss_states s k)"

definition observed :: "state_store \<Rightarrow> state_key \<Rightarrow> update_state" where
  "observed s k = state_or_zero (uss_observed s k)"

text \<open>Both cursors of a device, advanced by one delivered response.\<close>

fun commit_baseline :: "state_key \<Rightarrow> update_state \<Rightarrow> state_store \<Rightarrow> state_store" where
  "commit_baseline (k, u) st s =
     (case UpdateState_CommitDeliveredState s k u st UpdateStateCommitDeliveredAndObservedBaseline of
        Inl _ \<Rightarrow> s | Inr s' \<Rightarrow> s')"

fun commit_delivered :: "state_key \<Rightarrow> update_state \<Rightarrow> state_store \<Rightarrow> state_store" where
  "commit_delivered (k, u) st s =
     (case UpdateState_CommitDeliveredState s k u st UpdateStateCommitDeliveredOnly of
        Inl _ \<Rightarrow> s | Inr s' \<Rightarrow> s')"

lemmas cursor_defs = confirmed_def observed_def state_or_zero_def UpdateState_CommitDeliveredState_def
  UpdateState_ObserveClientState_def monotonic_eq_join Let_def

interpretation saves: join_register confirmed "\<lambda>(k, u) st s. UpdateState_Save s k u st"
  by unfold_locales (auto simp: Save_eq_join cursor_defs split: if_splits)

interpretation observes: join_register observed
  "\<lambda>(k, u) st s. UpdateState_ObserveClientState s k u st"
  by unfold_locales (auto simp: cursor_defs split: if_splits)

interpretation delivered: join_register confirmed commit_delivered
  by unfold_locales (auto simp: cursor_defs split: if_splits)

interpretation baseline: join_register confirmed commit_baseline
  by unfold_locales (auto simp: cursor_defs split: if_splits)

interpretation baseline_observed: join_register observed commit_baseline
  by unfold_locales (auto simp: cursor_defs split: if_splits)

end
