(* ===== verification/Update_Service.thy ===== *)
theory Update_Service
  imports Update_Log
begin

text \<open>
  The update service of \<open>internal/app/updates/service.go\<close>: the state queries a device makes, the
  difference it fetches, and the recorders through which every other subsystem writes events.
  The service runs on the stores of Update_Log; a nil store is \<open>None\<close>. \<open>now\<close> is the reading of
  \<open>time.Now().Unix()\<close> a call takes. The memory event store offers no retention checkpoint, the
  PostgreSQL one does, so the checkpoint read is the argument \<open>probe\<close>: its first argument tells
  the two reads of one call apart, since retention may advance between them.
\<close>

section \<open>The service\<close>

record 'x update_service =
  svc_states :: "state_store option"
  svc_events :: "'x event_store option"
  svc_dispatching :: bool

type_synonym retention_probe = "nat \<Rightarrow> auth_key_id \<Rightarrow> int \<Rightarrow> update_error + (int \<times> int) option"

type_synonym 'x record_result =
  "'x update_service \<times> (update_error + 'x update_event \<times> update_state)"

text \<open>\<open>dispatching\<close>: the event store also implements \<open>dispatchingEventAppender\<close>.\<close>

definition NewService :: "state_store option \<Rightarrow> 'x event_store option \<Rightarrow> bool \<Rightarrow>
    'x update_service" where
  "NewService states events dispatching =
     \<lparr>svc_states = states, svc_events = events, svc_dispatching = dispatching\<rparr>"

definition UsesReliableDispatch :: "'x update_service \<Rightarrow> bool" where
  "UsesReliableDispatch svc = (svc_events svc \<noteq> None \<and> svc_dispatching svc)"

definition currentPts :: "'x update_service \<Rightarrow> int \<Rightarrow> int" where
  "currentPts svc u = (case svc_events svc of None \<Rightarrow> 0 | Some es \<Rightarrow> MaxContiguousPts es u)"

definition currentState :: "int \<Rightarrow> 'x update_service \<Rightarrow> int \<Rightarrow> update_state" where
  "currentState now svc u = \<lparr>us_Pts = currentPts svc u, us_Qts = 0, us_Date = now, us_Seq = 0\<rparr>"

definition Updates_GetState :: "int \<Rightarrow> 'x update_service \<Rightarrow> auth_key_id \<Rightarrow> int \<Rightarrow>
    'x update_service \<times> update_state" where
  "Updates_GetState now svc k u =
     (case svc_states svc of
        None \<Rightarrow> (svc, \<lparr>us_Pts = currentPts svc u, us_Qts = 0, us_Date = now, us_Seq = 0\<rparr>)
      | Some ss \<Rightarrow>
          (case UpdateState_Get ss k u of
             Some st \<Rightarrow>
               (let st1 = st\<lparr>us_Seq := 0\<rparr>
                in (svc, if us_Date st1 = 0 then st1\<lparr>us_Date := now\<rparr> else st1))
           | None \<Rightarrow>
               (let st = \<lparr>us_Pts = currentPts svc u, us_Qts = 0, us_Date = now, us_Seq = 0\<rparr>
                in (svc\<lparr>svc_states := Some (UpdateState_Save ss k u st)\<rparr>, st))))"

definition CurrentState :: "int \<Rightarrow> 'x update_service \<Rightarrow> int \<Rightarrow> update_state" where
  "CurrentState now svc u = currentState now svc u"

definition ConfirmedState :: "'x update_service \<Rightarrow> auth_key_id \<Rightarrow> int \<Rightarrow> update_state \<times> bool" where
  "ConfirmedState svc k u =
     (case svc_states svc of
        None \<Rightarrow> (zero_update_state, False)
      | Some ss \<Rightarrow>
          (let r = UpdateState_Get ss k u
           in ((state_or_zero r)\<lparr>us_Seq := 0\<rparr>, r \<noteq> None)))"

definition saveConfirmedState :: "'x update_service \<Rightarrow> auth_key_id \<Rightarrow> int \<Rightarrow> update_state \<Rightarrow>
    'x update_service" where
  "saveConfirmedState svc k u st =
     (case svc_states svc of
        None \<Rightarrow> svc
      | Some ss \<Rightarrow> svc\<lparr>svc_states := Some (UpdateState_Save ss k u (st\<lparr>us_Seq := 0\<rparr>))\<rparr>)"

definition observeClientState :: "'x update_service \<Rightarrow> auth_key_id \<Rightarrow> int \<Rightarrow> update_state \<Rightarrow>
    'x update_service" where
  "observeClientState svc k u st =
     (case svc_states svc of
        None \<Rightarrow> svc
      | Some ss \<Rightarrow> svc\<lparr>svc_states := Some (UpdateState_ObserveClientState ss k u (st\<lparr>us_Seq := 0\<rparr>))\<rparr>)"

definition ConfirmEvent :: "int \<Rightarrow> 'x update_service \<Rightarrow> auth_key_id \<Rightarrow> int \<Rightarrow> 'x update_event \<Rightarrow>
    'x update_service \<times> update_error option" where
  "ConfirmEvent now svc k u event =
     (if ev_UserID event \<noteq> 0 \<and> ev_UserID event \<noteq> u then (svc, Some ErrEventUserMismatch)
      else if ev_Pts event \<le> 0 then (svc, None)
      else (saveConfirmedState svc k u
              \<lparr>us_Pts = ev_Pts event, us_Qts = 0,
               us_Date = (if ev_Date event = 0 then now else ev_Date event), us_Seq = 0\<rparr>, None))"

definition clampDifferenceState :: "update_state \<Rightarrow> update_state \<Rightarrow> update_state" where
  "clampDifferenceState from_st current =
     (let f1 = (if us_Pts from_st < 0 then from_st\<lparr>us_Pts := 0\<rparr> else from_st);
          f2 = (if us_Pts f1 > us_Pts current then f1\<lparr>us_Pts := us_Pts current\<rparr> else f1)
      in f2\<lparr>us_Seq := 0\<rparr>)"

definition ObserveDifferenceRequest :: "int \<Rightarrow> 'x update_service \<Rightarrow> auth_key_id \<Rightarrow> int \<Rightarrow>
    update_state \<Rightarrow> 'x update_service \<times> update_state" where
  "ObserveDifferenceRequest now svc k u from_st =
     (let f = clampDifferenceState from_st (currentState now svc u)
      in (observeClientState svc k u f, f))"

definition Updates_CommitDeliveredState :: "'x update_service \<Rightarrow> auth_key_id \<Rightarrow> int \<Rightarrow>
    update_state \<Rightarrow> commit_mode \<Rightarrow> 'x update_service \<times> update_error option" where
  "Updates_CommitDeliveredState svc k u st mode =
     (case svc_states svc of
        None \<Rightarrow> (svc, None)
      | Some ss \<Rightarrow>
          if mode \<noteq> UpdateStateCommitDeliveredOnly \<and>
             mode \<noteq> UpdateStateCommitDeliveredAndObservedBaseline
          then (svc, Some ErrInvalidCommitMode)
          else
            (case UpdateState_CommitDeliveredState ss k u (st\<lparr>us_Seq := 0\<rparr>) mode of
               Inl err \<Rightarrow> (svc, Some err)
             | Inr ss' \<Rightarrow> (svc\<lparr>svc_states := Some ss'\<rparr>, None)))"

definition ClearAuthKey :: "'x update_service \<Rightarrow> auth_key_id \<Rightarrow> 'x update_service" where
  "ClearAuthKey svc k =
     (case svc_states svc of
        None \<Rightarrow> svc
      | Some ss \<Rightarrow> svc\<lparr>svc_states := Some (UpdateState_DeleteAuthKey ss k)\<rparr>)"

section \<open>Differences\<close>

abbreviation getDifferenceLimit :: nat where
  "getDifferenceLimit \<equiv> 100"

text \<open>
  The scan of \<open>contiguousPrefixAndGap\<close> over the sorted rows. Its result is the prefix, the event
  that broke it and the \<open>pts\<close> that was expected instead. \<open>sort.Slice\<close> may reorder rows of equal
  \<open>pts\<close>; \<open>sort_key\<close> keeps their stored order, one of the orders Go may choose.
\<close>

fun contiguous_scan :: "int \<Rightarrow> 'x update_event list \<Rightarrow> 'x update_event list \<Rightarrow>
    'x update_event list \<times> 'x update_event option \<times> int" where
  "contiguous_scan cursor out [] = (out, None, 0)"
| "contiguous_scan cursor out (e # es) =
     (let expected = cursor + (if ev_PtsCount e \<le> 0 then 1 else ev_PtsCount e)
      in if ev_Pts e \<noteq> expected then (out, Some e, expected)
         else contiguous_scan (ev_Pts e) (out @ [e]) es)"

definition contiguousPrefixAndGap :: "'x update_event list \<Rightarrow> int \<Rightarrow>
    'x update_event list \<times> 'x update_event option \<times> int" where
  "contiguousPrefixAndGap events from_pts =
     (if length events = 0 then ([], None, 0)
      else contiguous_scan from_pts [] (sort_key ev_Pts events))"

definition contiguousPrefix :: "'x update_event list \<Rightarrow> int \<Rightarrow> 'x update_event list" where
  "contiguousPrefix events from_pts = fst (contiguousPrefixAndGap events from_pts)"

definition retainedPrefixCheckpoint :: "(update_error + (int \<times> int) option) \<Rightarrow> update_state \<Rightarrow>
    update_state \<Rightarrow> update_error + 'x update_difference option" where
  "retainedPrefixCheckpoint answer from_st current =
     (case answer of
        Inl err \<Rightarrow> Inl err
      | Inr None \<Rightarrow> Inr None
      | Inr (Some (pts, date)) \<Rightarrow>
          if us_Pts from_st \<ge> pts then Inr None
          else
            (let c = from_st\<lparr>us_Pts := pts, us_Seq := 0\<rparr>;
                 c' = (if date > 0 then c\<lparr>us_Date := date\<rparr>
                       else if us_Date c = 0 then c\<lparr>us_Date := us_Date current\<rparr> else c)
             in Inr (Some \<lparr>ud_State = c', ud_Events = [], ud_Partial = True\<rparr>)))"

definition GetDifference :: "retention_probe \<Rightarrow> int \<Rightarrow> 'x update_service \<Rightarrow> auth_key_id \<Rightarrow> int \<Rightarrow>
    update_state \<Rightarrow> update_error + 'x update_difference" where
  "GetDifference probe now svc k u from_st =
     (let st = currentState now svc u;
          f = clampDifferenceState from_st st
      in case retainedPrefixCheckpoint (probe 0 k u) f st of
           Inl err \<Rightarrow> Inl err
         | Inr (Some checkpoint) \<Rightarrow> Inr checkpoint
         | Inr None \<Rightarrow>
             (case svc_events svc of
                None \<Rightarrow>
                  Inr \<lparr>ud_State = (if us_Date f \<noteq> 0 then st\<lparr>us_Date := us_Date f\<rparr> else st),
                       ud_Events = [], ud_Partial = False\<rparr>
              | Some es \<Rightarrow>
                  if us_Pts f \<ge> us_Pts st
                  then Inr \<lparr>ud_State = (if us_Date f \<noteq> 0 then st\<lparr>us_Date := us_Date f\<rparr> else st),
                            ud_Events = [], ud_Partial = False\<rparr>
                  else
                    (let contiguous = fst (contiguousPrefixAndGap
                           (ListAfter es u (us_Pts f) (int getDifferenceLimit)) (us_Pts f));
                         reread = (if length contiguous = 0 \<and> us_Pts f < us_Pts st
                                   then retainedPrefixCheckpoint (probe 1 k u) f st else Inr None)
                     in case reread of
                          Inl err \<Rightarrow> Inl err
                        | Inr (Some checkpoint) \<Rightarrow> Inr checkpoint
                        | Inr None \<Rightarrow>
                            (let lastPts = (if length contiguous > 0 then ev_Pts (last contiguous)
                                            else us_Pts f);
                                 out1 = st\<lparr>us_Pts := lastPts, us_Seq := 0\<rparr>;
                                 out2 = (if length contiguous > 0
                                         then out1\<lparr>us_Date := ev_Date (last contiguous)\<rparr> else out1)
                             in Inr \<lparr>ud_State = out2, ud_Events = contiguous,
                                     ud_Partial = (length contiguous = getDifferenceLimit)\<rparr>))))"

section \<open>Recording\<close>

definition recordEventCore :: "int \<Rightarrow> 'x update_service \<Rightarrow> auth_key_id \<Rightarrow> auth_key_id \<Rightarrow> int \<Rightarrow>
    'x update_event \<Rightarrow> bool \<Rightarrow> int \<Rightarrow> bool \<Rightarrow> 'x record_result" where
  "recordEventCore now svc stateKey excludeKey u event dispatch excludeSession saveState =
     (let date = (if ev_Date event = 0 then now else ev_Date event);
          e1 = (if ev_PtsCount event = 0 then event\<lparr>ev_PtsCount := 1\<rparr> else event);
          e2 = e1\<lparr>ev_UserID := u, ev_Date := date\<rparr>;
          finish = (\<lambda>sv e.
             let st = \<lparr>us_Pts = ev_Pts e, us_Qts = 0, us_Date = date, us_Seq = 0\<rparr>
             in (if saveState
                 then (case svc_states sv of
                         None \<Rightarrow> sv
                       | Some ss \<Rightarrow> sv\<lparr>svc_states := Some (UpdateState_Save ss stateKey u st)\<rparr>)
                 else sv, Inr (e, st)))
      in case svc_events svc of
           Some es \<Rightarrow>
             (case (if dispatch \<and> svc_dispatching svc
                    then AppendAllocatedWithDispatch es u e2 excludeKey excludeSession
                    else AppendAllocated es u e2) of
                (es', Inl err) \<Rightarrow> (svc\<lparr>svc_events := Some es'\<rparr>, Inl err)
              | (es', Inr e3) \<Rightarrow> finish (svc\<lparr>svc_events := Some es'\<rparr>) e3)
         | None \<Rightarrow> finish svc (e2\<lparr>ev_Pts := currentPts svc u + ev_PtsCount e2\<rparr>))"

definition recordEvent :: "int \<Rightarrow> 'x update_service \<Rightarrow> auth_key_id \<Rightarrow> auth_key_id \<Rightarrow> int \<Rightarrow>
    'x update_event \<Rightarrow> bool \<Rightarrow> int \<Rightarrow> 'x record_result" where
  "recordEvent now svc stateKey excludeKey u event dispatch excludeSession =
     recordEventCore now svc stateKey excludeKey u event dispatch excludeSession True"

definition recordEventWithoutState :: "int \<Rightarrow> 'x update_service \<Rightarrow> int \<Rightarrow> 'x update_event \<Rightarrow>
    'x record_result" where
  "recordEventWithoutState now svc u event = recordEventCore now svc 0 0 u event False 0 False"

definition RecordNewMessage :: "int \<Rightarrow> 'x update_service \<Rightarrow> auth_key_id \<Rightarrow> int \<Rightarrow> 'x message \<Rightarrow>
    'x record_result" where
  "RecordNewMessage now svc k user msg =
     (let u = (if user = 0 then msg_OwnerUserID msg else user);
          date = (if msg_Date msg = 0 then now else msg_Date msg)
      in recordEvent now svc k 0 u
           (zero_event\<lparr>ev_Type := UpdateEventNewMessage, ev_Date := date, ev_Message := Some msg,
              ev_PtsCount := 1\<rparr>) False 0)"

definition PublishNewMessage :: "int \<Rightarrow> 'x update_service \<Rightarrow> int \<Rightarrow> 'x message \<Rightarrow>
    'x record_result" where
  "PublishNewMessage now svc user msg =
     (let u = (if user = 0 then msg_OwnerUserID msg else user);
          existing = (case svc_events svc of
             None \<Rightarrow> None
           | Some es \<Rightarrow> if msg_ID msg > 0 then FindNewMessageEvent es u (msg_ID msg) else None)
      in case existing of
           Some event \<Rightarrow> (svc, Inr (event, currentState now svc u))
         | None \<Rightarrow>
             (let date = (if msg_Date msg = 0 then now else msg_Date msg)
              in recordEventCore now svc 0 0 u
                   (zero_event\<lparr>ev_Type := UpdateEventNewMessage, ev_Date := date,
                      ev_Message := Some msg, ev_PtsCount := 1\<rparr>) True 0 False))"

definition RecordMessagePoll :: "int \<Rightarrow> 'x update_service \<Rightarrow> auth_key_id \<Rightarrow> int \<Rightarrow> 'x message \<Rightarrow>
    'x record_result" where
  "RecordMessagePoll now svc k user msg =
     (let u = (if user = 0 then msg_OwnerUserID msg else user);
          date = (if msg_Date msg = 0 then now else msg_Date msg)
      in recordEventWithoutState now svc u
           (zero_event\<lparr>ev_Type := UpdateEventMessagePoll, ev_Date := date, ev_Message := Some msg,
              ev_Peer := msg_Peer msg, ev_PtsCount := 1\<rparr>))"

subsection \<open>Stories\<close>

record story_read_result =
  srr_ViewerID :: int
  srr_Peer :: peer
  srr_MaxReadID :: int
  srr_Advanced :: bool
  srr_Date :: int

record 'x story_reaction_result =
  srx_ViewerID :: int
  srx_Peer :: peer
  srx_StoryID :: int
  srx_Reaction :: "'x option"
  srx_Story :: "'x story"
  srx_Changed :: bool
  srx_Date :: int

definition RecordStory :: "int \<Rightarrow> 'x update_service \<Rightarrow> auth_key_id \<Rightarrow> int \<Rightarrow> 'x story \<Rightarrow>
    auth_key_id \<Rightarrow> int \<Rightarrow> 'x record_result" where
  "RecordStory now svc stateKey user story excludeKey excludeSession =
     (let u = (if user = 0 \<and> peer_type (story_Owner story) = PeerTypeUser
               then peer_id (story_Owner story) else user)
      in recordEvent now svc stateKey excludeKey u
           (zero_event\<lparr>ev_Type := UpdateEventStory, ev_Date := story_Date story,
              ev_Peer := story_Owner story, ev_Story := Some story, ev_PtsCount := 1\<rparr>)
           True excludeSession)"

definition RecordStoryFanout :: "int \<Rightarrow> 'x update_service \<Rightarrow> int \<Rightarrow> 'x story \<Rightarrow>
    'x record_result" where
  "RecordStoryFanout now svc u story =
     (if u = 0 then (svc, Inl ErrStoryPeerInvalid)
      else recordEventCore now svc 0 0 u
             (zero_event\<lparr>ev_Type := UpdateEventStory, ev_Date := story_Date story,
                ev_Peer := story_Owner story, ev_Story := Some story, ev_PtsCount := 1\<rparr>)
             True 0 False)"

definition RecordReadStories :: "int \<Rightarrow> 'x update_service \<Rightarrow> auth_key_id \<Rightarrow> int \<Rightarrow>
    story_read_result \<Rightarrow> auth_key_id \<Rightarrow> int \<Rightarrow> 'x record_result" where
  "RecordReadStories now svc stateKey user rd excludeKey excludeSession =
     recordEvent now svc stateKey excludeKey (if user = 0 then srr_ViewerID rd else user)
       (zero_event\<lparr>ev_Type := UpdateEventReadStories, ev_Date := srr_Date rd,
          ev_Peer := srr_Peer rd, ev_MaxID := srr_MaxReadID rd, ev_PtsCount := 1\<rparr>)
       True excludeSession"

definition RecordSentStoryReaction :: "int \<Rightarrow> 'x update_service \<Rightarrow> auth_key_id \<Rightarrow> int \<Rightarrow>
    'x story_reaction_result \<Rightarrow> auth_key_id \<Rightarrow> int \<Rightarrow> 'x record_result" where
  "RecordSentStoryReaction now svc stateKey user rx excludeKey excludeSession =
     recordEvent now svc stateKey excludeKey (if user = 0 then srx_ViewerID rx else user)
       (zero_event\<lparr>ev_Type := UpdateEventSentStoryReaction, ev_Date := srx_Date rx,
          ev_Peer := srx_Peer rx, ev_MaxID := srx_StoryID rx, ev_Story := Some (srx_Story rx),
          ev_Reaction := srx_Reaction rx, ev_PtsCount := 1\<rparr>)
       True excludeSession"

definition RecordNewStoryReaction :: "int \<Rightarrow> 'x update_service \<Rightarrow> auth_key_id \<Rightarrow> int \<Rightarrow>
    'x story_reaction_result \<Rightarrow> auth_key_id \<Rightarrow> int \<Rightarrow> 'x record_result" where
  "RecordNewStoryReaction now svc stateKey owner rx excludeKey excludeSession =
     (let o1 = (if owner = 0 \<and> peer_type (story_Owner (srx_Story rx)) = PeerTypeUser
                then peer_id (story_Owner (srx_Story rx)) else owner);
          o2 = (if o1 = 0 \<and> peer_type (srx_Peer rx) = PeerTypeUser
                then peer_id (srx_Peer rx) else o1)
      in if o2 = 0 \<or> srx_ViewerID rx = 0 \<or> srx_Reaction rx = None
         then (svc, Inl ErrStoryPeerInvalid)
         else recordEventCore now svc stateKey excludeKey o2
                (zero_event\<lparr>ev_Type := UpdateEventNewStoryReaction, ev_Date := srx_Date rx,
                   ev_Peer := \<lparr>peer_type = PeerTypeUser, peer_id = srx_ViewerID rx\<rparr>,
                   ev_MaxID := srx_StoryID rx, ev_Story := Some (srx_Story rx),
                   ev_Reaction := srx_Reaction rx, ev_PtsCount := 1\<rparr>)
                True excludeSession False)"

subsection \<open>Quick replies and read marks\<close>

datatype quick_reply_mutation_kind = QuickReplyMutationList | QuickReplyMutationNew
  | QuickReplyMutationDelete | QuickReplyMutationMessage | QuickReplyMutationIDs

record 'x quick_reply_mutation =
  qrm_Kind :: quick_reply_mutation_kind
  qrm_ListOwnerUserID :: int
  qrm_ListQuickReplies :: "'x list"
  qrm_QuickReply :: "'x option"
  qrm_ShortcutID :: int
  qrm_Message :: "'x option"
  qrm_MessageIDs :: "int list"
  qrm_Date :: int

record read_history_result =
  rhr_OwnerUserID :: int
  rhr_Peer :: peer
  rhr_MaxID :: int
  rhr_StillUnreadCount :: int
  rhr_ChannelPts :: int

definition RecordQuickReplyMutation :: "int \<Rightarrow> 'x update_service \<Rightarrow> auth_key_id \<Rightarrow> int \<Rightarrow>
    'x quick_reply_mutation \<Rightarrow> auth_key_id \<Rightarrow> int \<Rightarrow> 'x record_result" where
  "RecordQuickReplyMutation now svc stateKey user mutation excludeKey excludeSession =
     (let u = (if user = 0 then qrm_ListOwnerUserID mutation else user);
          event = zero_event\<lparr>ev_Date := qrm_Date mutation, ev_PtsCount := 1,
            ev_QuickReplies := qrm_ListQuickReplies mutation,
            ev_QuickReply := qrm_QuickReply mutation, ev_QuickReplyMessage := qrm_Message mutation,
            ev_MessageIDs := qrm_MessageIDs mutation, ev_MaxID := qrm_ShortcutID mutation\<rparr>
      in recordEvent now svc stateKey excludeKey u
           (event\<lparr>ev_Type :=
              (case qrm_Kind mutation of
                 QuickReplyMutationNew \<Rightarrow> UpdateEventNewQuickReply
               | QuickReplyMutationDelete \<Rightarrow> UpdateEventDeleteQuickReply
               | QuickReplyMutationMessage \<Rightarrow> UpdateEventQuickReplyMessage
               | QuickReplyMutationIDs \<Rightarrow> UpdateEventDeleteQuickReplyMessages
               | QuickReplyMutationList \<Rightarrow> UpdateEventQuickReplies)\<rparr>) True excludeSession)"

definition RecordReadHistory :: "int \<Rightarrow> 'x update_service \<Rightarrow> auth_key_id \<Rightarrow> int \<Rightarrow>
    read_history_result \<Rightarrow> auth_key_id \<Rightarrow> int \<Rightarrow> 'x record_result" where
  "RecordReadHistory now svc stateKey user rd excludeKey excludeSession =
     recordEvent now svc stateKey excludeKey (if user = 0 then rhr_OwnerUserID rd else user)
       (zero_event\<lparr>ev_Type := UpdateEventReadHistoryInbox, ev_Date := now,
          ev_Peer := rhr_Peer rd, ev_MaxID := rhr_MaxID rd,
          ev_StillUnreadCount := rhr_StillUnreadCount rd, ev_ChannelPts := rhr_ChannelPts rd,
          ev_PtsCount := 1\<rparr>) True excludeSession"

definition RecordUserEmojiStatus :: "int \<Rightarrow> 'x update_service \<Rightarrow> auth_key_id \<Rightarrow> int \<Rightarrow>
    user_emoji_status \<Rightarrow> auth_key_id \<Rightarrow> int \<Rightarrow> 'x record_result" where
  "RecordUserEmojiStatus now svc stateKey u status excludeKey excludeSession =
     (if \<not> UserEmojiStatus_Valid status then (svc, Inl ErrStarGiftCollectibleInvalid)
      else recordEvent now svc stateKey excludeKey u
             (zero_event\<lparr>ev_Type := UpdateEventUserEmojiStatus,
                ev_Peer := \<lparr>peer_type = PeerTypeUser, peer_id = u\<rparr>, ev_EmojiStatus := status,
                ev_PtsCount := 1\<rparr>) True excludeSession)"

subsection \<open>Dialogs, channels and folders\<close>

definition RecordChannelState :: "int \<Rightarrow> 'x update_service \<Rightarrow> auth_key_id \<Rightarrow> int \<Rightarrow> int
    \<Rightarrow> auth_key_id \<Rightarrow> int \<Rightarrow> 'x record_result" where
  "RecordChannelState now svc stateKey u channelID excludeKey excludeSession =
     recordEvent now svc stateKey excludeKey u
       (zero_event\<lparr>ev_Type := UpdateEventChannelState, ev_Peer := \<lparr>peer_type = PeerTypeChannel,
          peer_id = channelID\<rparr>, ev_PtsCount := 1\<rparr>) True excludeSession"

definition RecordContactsReset :: "int \<Rightarrow> 'x update_service \<Rightarrow> auth_key_id \<Rightarrow> int \<Rightarrow> auth_key_id
    \<Rightarrow> int \<Rightarrow> 'x record_result" where
  "RecordContactsReset now svc stateKey u excludeKey excludeSession =
     recordEvent now svc stateKey excludeKey u
       (zero_event\<lparr>ev_Type := UpdateEventContactsReset, ev_PtsCount := 1\<rparr>) True excludeSession"

definition RecordDraftMessage :: "int \<Rightarrow> 'x update_service \<Rightarrow> auth_key_id \<Rightarrow> int \<Rightarrow> peer
    \<Rightarrow> int \<Rightarrow> auth_key_id \<Rightarrow> int \<Rightarrow> 'x record_result" where
  "RecordDraftMessage now svc stateKey u p topMsgID excludeKey excludeSession =
     recordEvent now svc stateKey excludeKey u
       (zero_event\<lparr>ev_Type := UpdateEventDraftMessage, ev_Peer := p, ev_MaxID := topMsgID, ev_PtsCount
          := 1\<rparr>) True excludeSession"

definition RecordDialogPinned :: "int \<Rightarrow> 'x update_service \<Rightarrow> auth_key_id \<Rightarrow> int \<Rightarrow> peer
    \<Rightarrow> bool \<Rightarrow> int \<Rightarrow> auth_key_id \<Rightarrow> int \<Rightarrow> 'x record_result" where
  "RecordDialogPinned now svc stateKey u p pinned folderID excludeKey excludeSession =
     recordEvent now svc stateKey excludeKey u
       (zero_event\<lparr>ev_Type := UpdateEventDialogPinned, ev_Peer := p, ev_Bool := pinned, ev_FolderID :=
          folderID, ev_PtsCount := 1\<rparr>) True excludeSession"

definition RecordPinnedDialogs :: "int \<Rightarrow> 'x update_service \<Rightarrow> auth_key_id \<Rightarrow> int \<Rightarrow> int
    \<Rightarrow> peer list \<Rightarrow> auth_key_id \<Rightarrow> int \<Rightarrow> 'x record_result" where
  "RecordPinnedDialogs now svc stateKey u folderID order excludeKey excludeSession =
     recordEvent now svc stateKey excludeKey u
       (zero_event\<lparr>ev_Type := UpdateEventPinnedDialogs, ev_Peers := order, ev_FolderID := folderID,
          ev_PtsCount := 1\<rparr>) True excludeSession"

definition RecordSavedDialogPinned :: "int \<Rightarrow> 'x update_service \<Rightarrow> auth_key_id \<Rightarrow> int \<Rightarrow> peer
    \<Rightarrow> bool \<Rightarrow> auth_key_id \<Rightarrow> int \<Rightarrow> 'x record_result" where
  "RecordSavedDialogPinned now svc stateKey u p pinned excludeKey excludeSession =
     recordEvent now svc stateKey excludeKey u
       (zero_event\<lparr>ev_Type := UpdateEventSavedDialogPinned, ev_Peer := p, ev_Bool := pinned,
          ev_PtsCount := 1\<rparr>) True excludeSession"

definition RecordPinnedSavedDialogs :: "int \<Rightarrow> 'x update_service \<Rightarrow> auth_key_id \<Rightarrow> int \<Rightarrow> peer
    list \<Rightarrow> auth_key_id \<Rightarrow> int \<Rightarrow> 'x record_result" where
  "RecordPinnedSavedDialogs now svc stateKey u order excludeKey excludeSession =
     recordEvent now svc stateKey excludeKey u
       (zero_event\<lparr>ev_Type := UpdateEventPinnedSavedDialogs, ev_Peers := order, ev_PtsCount :=
          1\<rparr>) True excludeSession"

definition RecordDialogUnreadMark :: "int \<Rightarrow> 'x update_service \<Rightarrow> auth_key_id \<Rightarrow> int \<Rightarrow> peer
    \<Rightarrow> bool \<Rightarrow> auth_key_id \<Rightarrow> int \<Rightarrow> 'x record_result" where
  "RecordDialogUnreadMark now svc stateKey u p unread excludeKey excludeSession =
     recordEvent now svc stateKey excludeKey u
       (zero_event\<lparr>ev_Type := UpdateEventDialogUnreadMark, ev_Peer := p, ev_Bool := unread, ev_PtsCount
          := 1\<rparr>) True excludeSession"

definition RecordChannelViewForumAsMessages :: "int \<Rightarrow> 'x update_service \<Rightarrow> auth_key_id \<Rightarrow> int
    \<Rightarrow> int \<Rightarrow> bool \<Rightarrow> auth_key_id \<Rightarrow> int \<Rightarrow> 'x record_result" where
  "RecordChannelViewForumAsMessages now svc stateKey u channelID enabled excludeKey excludeSession =
     recordEvent now svc stateKey excludeKey u
       (zero_event\<lparr>ev_Type := UpdateEventChannelViewForum, ev_Peer := \<lparr>peer_type =
          PeerTypeChannel, peer_id = channelID\<rparr>, ev_Bool := enabled, ev_PtsCount := 1\<rparr>) True
          excludeSession"

definition RecordChannelDiscussionInbox :: "int \<Rightarrow> 'x update_service \<Rightarrow> auth_key_id \<Rightarrow> int \<Rightarrow>
    int \<Rightarrow> int \<Rightarrow> int \<Rightarrow> auth_key_id \<Rightarrow> int \<Rightarrow> 'x record_result" where
  "RecordChannelDiscussionInbox now svc stateKey u channelID topicID maxID excludeKey excludeSession =
     recordEvent now svc stateKey excludeKey u
       (zero_event\<lparr>ev_Type := UpdateEventReadChannelDiscussionInbox, ev_Peer := \<lparr>peer_type =
          PeerTypeChannel, peer_id = channelID\<rparr>, ev_TopMsgID := topicID, ev_MaxID := maxID, ev_PtsCount
          := 1\<rparr>) True excludeSession"

definition RecordPeerSettings :: "int \<Rightarrow> 'x update_service \<Rightarrow> auth_key_id \<Rightarrow> int \<Rightarrow> peer
    \<Rightarrow> 'x \<Rightarrow> auth_key_id \<Rightarrow> int \<Rightarrow> 'x record_result" where
  "RecordPeerSettings now svc stateKey u p settings excludeKey excludeSession =
     recordEvent now svc stateKey excludeKey u
       (zero_event\<lparr>ev_Type := UpdateEventPeerSettings, ev_Peer := p, ev_Settings := Some settings,
          ev_PtsCount := 1\<rparr>) True excludeSession"

definition RecordPeerStoryBlocked :: "int \<Rightarrow> 'x update_service \<Rightarrow> auth_key_id \<Rightarrow> int \<Rightarrow> peer
    \<Rightarrow> bool \<Rightarrow> auth_key_id \<Rightarrow> int \<Rightarrow> 'x record_result" where
  "RecordPeerStoryBlocked now svc stateKey u p blocked excludeKey excludeSession =
     recordEvent now svc stateKey excludeKey u
       (zero_event\<lparr>ev_Type := UpdateEventPeerStoryBlocked, ev_Peer := p, ev_Bool := blocked,
          ev_PtsCount := 1\<rparr>) True excludeSession"

definition RecordDialogFilter :: "int \<Rightarrow> 'x update_service \<Rightarrow> auth_key_id \<Rightarrow> int \<Rightarrow> int
    \<Rightarrow> 'x option \<Rightarrow> auth_key_id \<Rightarrow> int \<Rightarrow> 'x record_result" where
  "RecordDialogFilter now svc stateKey u folderID folder excludeKey excludeSession =
     recordEvent now svc stateKey excludeKey u
       (zero_event\<lparr>ev_Type := UpdateEventDialogFilter, ev_FilterID := folderID, ev_DialogFilter :=
          folder, ev_PtsCount := 1\<rparr>) True excludeSession"

definition RecordDialogFilterOrder :: "int \<Rightarrow> 'x update_service \<Rightarrow> auth_key_id \<Rightarrow> int \<Rightarrow> int
    list \<Rightarrow> auth_key_id \<Rightarrow> int \<Rightarrow> 'x record_result" where
  "RecordDialogFilterOrder now svc stateKey u order excludeKey excludeSession =
     recordEvent now svc stateKey excludeKey u
       (zero_event\<lparr>ev_Type := UpdateEventDialogFilterOrder, ev_FilterOrder := order, ev_PtsCount :=
          1\<rparr>) True excludeSession"

definition RecordDialogFiltersReload :: "int \<Rightarrow> 'x update_service \<Rightarrow> auth_key_id \<Rightarrow> int \<Rightarrow>
    auth_key_id \<Rightarrow> int \<Rightarrow> 'x record_result" where
  "RecordDialogFiltersReload now svc stateKey u excludeKey excludeSession =
     recordEvent now svc stateKey excludeKey u
       (zero_event\<lparr>ev_Type := UpdateEventDialogFilters, ev_PtsCount := 1\<rparr>) True excludeSession"

definition RecordFolderPeers :: "int \<Rightarrow> 'x update_service \<Rightarrow> auth_key_id \<Rightarrow> int \<Rightarrow> 'x list
    \<Rightarrow> auth_key_id \<Rightarrow> int \<Rightarrow> 'x record_result" where
  "RecordFolderPeers now svc stateKey u peers excludeKey excludeSession =
     recordEvent now svc stateKey excludeKey u
       (zero_event\<lparr>ev_Type := UpdateEventFolderPeers, ev_FolderPeers := peers, ev_PtsCount :=
          1\<rparr>) True excludeSession"

section \<open>What the service needs of an event log\<close>

text \<open>
  The contract between the service and an event store: per account a gap-free history, an append
  that extends it at the end, a read that returns the rows above a position, and the watermark
  the history ends at.
\<close>

locale event_log =
  fixes wf :: "'s \<Rightarrow> bool"
    and history :: "'s \<Rightarrow> int \<Rightarrow> 'x update_event list"
    and append_event :: "'s \<Rightarrow> int \<Rightarrow> 'x update_event \<Rightarrow> 's \<times> 'x update_event"
    and rows_after :: "'s \<Rightarrow> int \<Rightarrow> int \<Rightarrow> int \<Rightarrow> 'x update_event list"
    and watermark :: "'s \<Rightarrow> int \<Rightarrow> int"
  assumes wf_chain: "wf s \<Longrightarrow> chain 0 (history s u)"
    and append_wf: "wf s \<Longrightarrow> append_event s u e = (s', e') \<Longrightarrow> wf s'"
    and append_history: "append_event s u e = (s', e') \<Longrightarrow>
          history s' = (history s)(u := history s u @ [e'])"
    and rows_eq: "0 < limit \<Longrightarrow>
          rows_after s u pts limit = take (nat limit) (filter (\<lambda>e. pts < ev_Pts e) (history s u))"
    and watermark_eq: "wf s \<Longrightarrow> watermark s u = chain_end 0 (history s u)"
begin

lemma append_watermark:
  assumes "wf s" "append_event s u e = (s', e')"
  shows "watermark s' u = ev_Pts e'" and "v \<noteq> u \<Longrightarrow> watermark s' v = watermark s v"
  using assms append_wf [OF assms] by (auto simp: watermark_eq append_history)

lemma rows_from_boundary:
  assumes "wf s" "history s u = xs @ ys" "0 < limit"
  shows "rows_after s u (chain_end 0 xs) limit = take (nat limit) ys"
  using assms wf_chain [OF assms(1), of u] by (simp add: rows_eq filter_chain del: filter_append)

lemma watermark_above:
  assumes "wf s" "history s u = xs @ ys"
  shows "chain_end 0 xs \<le> watermark s u"
    and "chain_end 0 xs = watermark s u \<longleftrightarrow> ys = []"
proof -
  have ys: "chain (chain_end 0 xs) ys"
    using wf_chain [OF assms(1), of u] assms(2) by (simp add: chain_append)
  have w: "watermark s u = chain_end (chain_end 0 xs) ys"
    using assms by (simp add: watermark_eq)
  show "chain_end 0 xs \<le> watermark s u" using chain_end_ge [OF ys] w by simp
  show "chain_end 0 xs = watermark s u \<longleftrightarrow> ys = []"
  proof (cases ys)
    case (Cons e es)
    then show ?thesis using chain_pts_bounds [OF ys, of e] w by auto
  qed (use w in simp)
qed

end

abbreviation log_ok :: "'x event_store \<Rightarrow> bool" where
  "log_ok s \<equiv> \<forall>u. chain 0 (es_events s u)"

interpretation memory_log: event_log log_ok es_events "\<lambda>s u e. appendLocked s u e True"
  ListAfter MaxContiguousPts
proof
  fix s s' :: "'x event_store" and u e e' assume ap: "appendLocked s u e True = (s', e')"
  then show "es_events s' = (es_events s)(u := es_events s u @ [e'])"
    by (auto simp: appendLocked_def Let_def)
  assume ok: "log_ok s"
  then have "chain 0 (es_events s u)" by simp
  from appendLocked_chain(1,2) [OF this ap] ok show "log_ok s'" by simp
qed (simp_all add: ListAfter_eq MaxContiguousPts_chain)

section \<open>The contiguous prefix\<close>

lemma contiguous_scan_chain:
  "chain c es \<Longrightarrow> contiguous_scan c out es = (out @ es, None, 0)"
  by (induction es arbitrary: c out) (auto simp: Let_def)

lemma contiguousPrefix_chain: "chain c es \<Longrightarrow> contiguousPrefix es c = es"
  by (simp add: contiguousPrefix_def contiguousPrefixAndGap_def chain_sort contiguous_scan_chain)

text \<open>For rows in any order and with any holes, what is returned is gap-free from the cursor on.\<close>

fun covers :: "int \<Rightarrow> 'x update_event list \<Rightarrow> bool" where
  "covers c [] = True"
| "covers c (e # es) \<longleftrightarrow> ev_Pts e = c + event_count e \<and> covers (ev_Pts e) es"

lemma covers_append: "covers c (xs @ ys) \<longleftrightarrow> covers c xs \<and> covers (chain_end c xs) ys"
  by (induction xs arbitrary: c) auto

lemma contiguous_scan_covers:
  "contiguous_scan c out es = (res, gap, expected) \<Longrightarrow>
   \<exists>zs. res = out @ zs \<and> covers c zs \<and> set zs \<subseteq> set es \<and>
     (gap = None \<longrightarrow> zs = es) \<and> (\<forall>g. gap = Some g \<longrightarrow> g \<in> set es \<and> ev_Pts g \<noteq> expected)"
proof (induction es arbitrary: c out)
  case (Cons e es)
  show ?case
  proof (cases "ev_Pts e = c + event_count e")
    case True
    with Cons.prems have "contiguous_scan (ev_Pts e) (out @ [e]) es = (res, gap, expected)"
      by (simp add: Let_def event_count_def)
    from Cons.IH [OF this] obtain zs where "res = (out @ [e]) @ zs" "covers (ev_Pts e) zs"
      "set zs \<subseteq> set es" "gap = None \<longrightarrow> zs = es"
      "\<forall>g. gap = Some g \<longrightarrow> g \<in> set es \<and> ev_Pts g \<noteq> expected" by blast
    with True show ?thesis by (intro exI [of _ "e # zs"]) auto
  next
    case False
    with Cons.prems show ?thesis by (auto simp: Let_def event_count_def)
  qed
qed simp

lemma contiguousPrefix_covers: "covers c (contiguousPrefix es c)"
    and contiguousPrefix_sub: "set (contiguousPrefix es c) \<subseteq> set es"
proof -
  obtain res gap expected where *: "contiguous_scan c [] (sort_key ev_Pts es) = (res, gap, expected)"
    by (cases "contiguous_scan c [] (sort_key ev_Pts es)")
  from contiguous_scan_covers [OF *] * show "covers c (contiguousPrefix es c)"
    "set (contiguousPrefix es c) \<subseteq> set es"
    by (auto simp: contiguousPrefix_def contiguousPrefixAndGap_def)
qed

lemma covers_chain_end: "covers c es \<Longrightarrow> c \<le> chain_end c es"
  by (induction es arbitrary: c) (force simp: event_count_def)+

text \<open>Every position between the ends of a covering list lies in the range of one of its events.\<close>

lemma covers_position:
  "covers c es \<Longrightarrow> c < p \<Longrightarrow> p \<le> chain_end c es \<Longrightarrow>
   \<exists>e\<in>set es. ev_Pts e - event_count e < p \<and> p \<le> ev_Pts e"
proof (induction es arbitrary: c)
  case (Cons e es)
  then show ?case by (cases "p \<le> ev_Pts e") auto
qed simp

section \<open>What a difference returns\<close>

definition no_checkpoint :: retention_probe where
  "no_checkpoint = (\<lambda>_ _ _. Inr None)"

lemma retained_no_checkpoint [simp]:
  "retainedPrefixCheckpoint (no_checkpoint i k u) f st = Inr None"
  by (simp add: retainedPrefixCheckpoint_def no_checkpoint_def)

lemma clamp_pts: "us_Pts (clampDifferenceState f st) = min (max 0 (us_Pts f)) (us_Pts st) \<or> us_Pts st < 0"
  by (auto simp: clampDifferenceState_def Let_def)

lemma clamp_id:
  "0 \<le> us_Pts f \<Longrightarrow> us_Pts f \<le> us_Pts st \<Longrightarrow> us_Pts (clampDifferenceState f st) = us_Pts f"
  by (simp add: clampDifferenceState_def Let_def)

lemma currentState_pts [simp]: "us_Pts (currentState now svc u) = currentPts svc u"
  by (simp add: currentState_def)

lemma currentPts_Some: "svc_events svc = Some es \<Longrightarrow> currentPts svc u = MaxContiguousPts es u"
  by (simp add: currentPts_def)

text \<open>One page from an event boundary: the next hundred events, and no other.\<close>

lemma GetDifference_page:
  assumes svc: "svc_events svc = Some es" and ok: "log_ok es"
    and hist: "es_events es u = xs @ ys" and pts: "us_Pts f = chain_end 0 xs"
  obtains d where "GetDifference no_checkpoint now svc k u f = Inr d"
    and "ud_Events d = take getDifferenceLimit ys"
    and "us_Pts (ud_State d) = chain_end 0 (xs @ take getDifferenceLimit ys)"
    and "ud_Partial d \<longleftrightarrow> getDifferenceLimit \<le> length ys"
proof -
  let ?page = "take getDifferenceLimit ys"
  have chains: "chain 0 xs" "chain (chain_end 0 xs) ys" using ok hist chain_append by metis+
  have "chain (chain_end 0 xs) (?page @ drop getDifferenceLimit ys)" using chains by simp
  then have cp: "chain (chain_end 0 xs) ?page" unfolding chain_append by simp
  have nonneg: "0 \<le> us_Pts f" using chain_end_ge [OF chains(1)] pts by simp
  have le: "us_Pts f \<le> currentPts svc u"
    and eq: "us_Pts f = currentPts svc u \<longleftrightarrow> ys = []"
    using memory_log.watermark_above [OF ok hist] svc pts by (simp_all add: currentPts_Some)
  have clamp: "us_Pts (clampDifferenceState f (currentState now svc u)) = us_Pts f"
    using clamp_id nonneg le by simp
  have rows: "ListAfter es u (us_Pts f) (int getDifferenceLimit) = ?page"
    using memory_log.rows_from_boundary [OF ok hist, of "int getDifferenceLimit"] pts by simp
  have pre: "fst (contiguousPrefixAndGap ?page (us_Pts f)) = ?page"
    using contiguousPrefix_chain [OF cp] pts by (simp add: contiguousPrefix_def)
  show thesis
  proof (cases "ys = []")
    case True
    then have "currentPts svc u \<le> us_Pts f" using eq by simp
    with True eq svc clamp pts show thesis
      by (intro that) (auto simp: GetDifference_def Let_def)
  next
    case False
    then have lt: "\<not> currentPts svc u \<le> us_Pts f" using le eq by simp
    have ne: "?page \<noteq> []" using False by simp
    have "chain_end 0 (xs @ ?page) = ev_Pts (last ?page)"
      using ne by (simp add: chain_end_eq_last)
    then show thesis
      using svc clamp lt rows pre ne
      by (intro that) (auto simp: GetDifference_def Let_def min_def split: if_splits)
  qed
qed

lemma retained_Some:
  assumes "retainedPrefixCheckpoint a f st = Inr (Some d)"
  shows "ud_Events d = []" and "ud_Partial d" and "us_Pts f < us_Pts (ud_State d)"
    and "\<exists>date. a = Inr (Some (us_Pts (ud_State d), date))"
  using assms
  by (auto simp: retainedPrefixCheckpoint_def Let_def split: sum.splits option.splits if_splits)

text \<open>
  The general shape of an answer: a checkpoint, nothing, or the contiguous prefix of the rows
  above the clamped cursor.
\<close>

lemma GetDifference_cases:
  assumes "GetDifference probe now svc k u from_st = Inr d"
  obtains (checkpoint) "ud_Events d = []" "ud_Partial d"
      "us_Pts (clampDifferenceState from_st (currentState now svc u)) < us_Pts (ud_State d)"
      "\<exists>i date. probe i k u = Inr (Some (us_Pts (ud_State d), date))"
  | (current) "ud_Events d = []" "\<not> ud_Partial d" "us_Pts (ud_State d) = currentPts svc u"
      "svc_events svc = None \<or>
       currentPts svc u \<le> us_Pts (clampDifferenceState from_st (currentState now svc u))"
  | (page) es c where "svc_events svc = Some es"
      "c = us_Pts (clampDifferenceState from_st (currentState now svc u))" "c < currentPts svc u"
      "ud_Events d = contiguousPrefix (ListAfter es u c (int getDifferenceLimit)) c"
      "us_Pts (ud_State d) = chain_end c (ud_Events d)"
      "ud_Partial d \<longleftrightarrow> length (ud_Events d) = getDifferenceLimit"
proof -
  let ?f = "clampDifferenceState from_st (currentState now svc u)"
  let ?st = "currentState now svc u"
  consider (r) i where "retainedPrefixCheckpoint (probe i k u) ?f ?st = Inr (Some d)"
    | (nil) "svc_events svc = None \<or> currentPts svc u \<le> us_Pts ?f" "ud_Events d = []"
        "\<not> ud_Partial d" "us_Pts (ud_State d) = currentPts svc u"
    | (rows) es where "svc_events svc = Some es" "us_Pts ?f < currentPts svc u"
      "ud_Events d = contiguousPrefix (ListAfter es u (us_Pts ?f) (int getDifferenceLimit)) (us_Pts ?f)"
      "us_Pts (ud_State d) = chain_end (us_Pts ?f) (ud_Events d)"
      "ud_Partial d \<longleftrightarrow> length (ud_Events d) = getDifferenceLimit"
    using assms
    by (auto simp: GetDifference_def contiguousPrefix_def Let_def chain_end_eq_last
        split: sum.splits option.splits if_splits)
  then show thesis
  proof cases
    case r
    then show thesis by (intro checkpoint) (use retained_Some [OF r] in blast)+
  qed (use current page in blast)+
qed

section \<open>Runs of the service\<close>

text \<open>Every operation of the service that can change a store, as one step.\<close>

inductive update_step :: "'x update_service \<Rightarrow> 'x update_service \<Rightarrow> bool" where
  "update_step s (fst (RecordNewMessage now s k u m))"
| "update_step s (fst (PublishNewMessage now s u m))"
| "update_step s (fst (RecordMessagePoll now s k u m))"
| "update_step s (fst (RecordStory now s k u st xk xs))"
| "update_step s (fst (RecordStoryFanout now s u st))"
| "update_step s (fst (RecordReadStories now s k u r xk xs))"
| "update_step s (fst (RecordSentStoryReaction now s k u r xk xs))"
| "update_step s (fst (RecordNewStoryReaction now s k u r xk xs))"
| "update_step s (fst (RecordQuickReplyMutation now s k u mu xk xs))"
| "update_step s (fst (RecordReadHistory now s k u r xk xs))"
| "update_step s (fst (RecordUserEmojiStatus now s k u es xk xs))"
| "update_step s (fst (RecordChannelState now s k u c xk xs))"
| "update_step s (fst (RecordContactsReset now s k u xk xs))"
| "update_step s (fst (RecordDraftMessage now s k u p t xk xs))"
| "update_step s (fst (RecordDialogPinned now s k u p b f xk xs))"
| "update_step s (fst (RecordPinnedDialogs now s k u f ps xk xs))"
| "update_step s (fst (RecordSavedDialogPinned now s k u p b xk xs))"
| "update_step s (fst (RecordPinnedSavedDialogs now s k u ps xk xs))"
| "update_step s (fst (RecordDialogUnreadMark now s k u p b xk xs))"
| "update_step s (fst (RecordChannelViewForumAsMessages now s k u c b xk xs))"
| "update_step s (fst (RecordChannelDiscussionInbox now s k u c t mx xk xs))"
| "update_step s (fst (RecordPeerSettings now s k u p x xk xs))"
| "update_step s (fst (RecordPeerStoryBlocked now s k u p b xk xs))"
| "update_step s (fst (RecordDialogFilter now s k u f fo xk xs))"
| "update_step s (fst (RecordDialogFilterOrder now s k u is xk xs))"
| "update_step s (fst (RecordDialogFiltersReload now s k u xk xs))"
| "update_step s (fst (RecordFolderPeers now s k u ps xk xs))"
| "update_step s (fst (Updates_GetState now s k u))"
| "update_step s (fst (ConfirmEvent now s k u e))"
| "update_step s (fst (ObserveDifferenceRequest now s k u f))"
| "update_step s (fst (Updates_CommitDeliveredState s k u f mode))"
| "update_step s (ClearAuthKey s k)"

lemmas record_defs =
  RecordNewMessage_def PublishNewMessage_def RecordMessagePoll_def RecordStory_def
  RecordStoryFanout_def RecordReadStories_def RecordSentStoryReaction_def
  RecordNewStoryReaction_def RecordQuickReplyMutation_def RecordReadHistory_def
  RecordUserEmojiStatus_def RecordChannelState_def RecordContactsReset_def
  RecordDraftMessage_def RecordDialogPinned_def RecordPinnedDialogs_def
  RecordSavedDialogPinned_def RecordPinnedSavedDialogs_def RecordDialogUnreadMark_def
  RecordChannelViewForumAsMessages_def RecordChannelDiscussionInbox_def RecordPeerSettings_def
  RecordPeerStoryBlocked_def RecordDialogFilter_def RecordDialogFilterOrder_def
  RecordDialogFiltersReload_def RecordFolderPeers_def recordEvent_def
  recordEventWithoutState_def

text \<open>
  The effect of a step on the event store: none, or one event appended to one account by
  \<open>appendLocked\<close>, with its dispatch row when one is asked for.
\<close>

inductive log_step :: "'x event_store option \<Rightarrow> 'x event_store option \<Rightarrow> bool" where
  same: "log_step es es"
| app: "event_append es u e True withDispatch xk xs = (es', Inr e') \<Longrightarrow>
    log_step (Some es) (Some es')"

lemma event_append_cases:
  assumes "event_append es u e True withDispatch xk xs = (es', r)"
  obtains (rejected) "r = Inl ErrDispatchExclusion" "es' = es" "withDispatch" "(xk = 0) \<noteq> (xs = 0)"
  | (appended) e' s1 where "r = Inr e'" "appendLocked es u e True = (s1, e')"
      "es_events es' = es_events s1"
      "es_dispatches es' = (if withDispatch then (es_dispatches es)(u := es_dispatches es u @
         [\<lparr>di_Pts = ev_Pts e', di_ExcludeAuthKeyID = xk, di_ExcludeSessionID = xs\<rparr>])
       else es_dispatches es)"
      "withDispatch \<longrightarrow> (xk = 0) = (xs = 0)"
  using assms
  by (cases "appendLocked es u e True")
    (auto simp: event_append_def appendLocked_def Let_def split: if_splits)

lemma recordEventCore_log_step:
  "log_step (svc_events svc)
     (svc_events (fst (recordEventCore now svc k xk u e dispatch xs saveState)))"
proof (cases "svc_events svc")
  case None
  then show ?thesis
    by (auto simp: recordEventCore_def Let_def intro: same split: option.splits)
next
  case (Some es)
  let ?wd = "dispatch \<and> svc_dispatching svc"
  define e2 where "e2 = (if ev_PtsCount e = 0 then e\<lparr>ev_PtsCount := 1\<rparr> else e)
    \<lparr>ev_UserID := u, ev_Date := if ev_Date e = 0 then now else ev_Date e\<rparr>"
  obtain es' r where ap: "event_append es u e2 True ?wd (if ?wd then xk else 0) (if ?wd then xs else 0)
      = (es', r)"
    by (cases "event_append es u e2 True ?wd (if ?wd then xk else 0) (if ?wd then xs else 0)")
  have "(if ?wd then AppendAllocatedWithDispatch es u e2 xk xs else AppendAllocated es u e2) = (es', r)"
    using ap by (auto simp: AppendAllocatedWithDispatch_def AppendAllocated_def)
  then have ev: "svc_events (fst (recordEventCore now svc k xk u e dispatch xs saveState)) = Some es'"
    using Some unfolding recordEventCore_def e2_def [symmetric] Let_def
    by (cases r) (auto split: option.splits)
  show ?thesis
  proof (cases r)
    case (Inl err)
    with ap have "es' = es" by (auto elim: event_append_cases)
    then show ?thesis using Some ev by (simp add: same)
  next
    case (Inr e')
    then show ?thesis using app ap Some ev by fastforce
  qed
qed

lemma recordEventCore_log_step_eq:
  "svc_events svc = X \<Longrightarrow>
   log_step X (svc_events (fst (recordEventCore now svc k xk u e dispatch xs saveState)))"
  using recordEventCore_log_step by blast

lemma update_step_log_step: "update_step s s' \<Longrightarrow> log_step (svc_events s) (svc_events s')"
proof (induction rule: update_step.induct)
qed (auto simp: record_defs Let_def Updates_GetState_def ConfirmEvent_def saveConfirmedState_def
    ObserveDifferenceRequest_def observeClientState_def Updates_CommitDeliveredState_def
    ClearAuthKey_def intro: recordEventCore_log_step_eq same split: option.splits sum.splits)

section \<open>Invariants of every run\<close>

definition dispatches_ok :: "'x update_event list \<Rightarrow> update_dispatch list \<Rightarrow> bool" where
  "dispatches_ok evs ds \<longleftrightarrow> sorted_wrt (<) (map di_Pts ds) \<and>
     (\<forall>d\<in>set ds. di_Pts d \<in> ev_Pts ` set evs \<and>
        (di_ExcludeAuthKeyID d = 0) = (di_ExcludeSessionID d = 0))"

definition store_ok :: "'x event_store \<Rightarrow> bool" where
  "store_ok es \<longleftrightarrow> log_ok es \<and> (\<forall>u. \<forall>e\<in>set (es_events es u). ev_UserID e = u) \<and>
     (\<forall>u. dispatches_ok (es_events es u) (es_dispatches es u))"

lemma store_ok_log: "store_ok es \<Longrightarrow> log_ok es"
  by (simp add: store_ok_def)

lemma store_ok_New: "store_ok NewUpdateEventStore"
  by (simp add: store_ok_def NewUpdateEventStore_def dispatches_ok_def)

lemma appendLocked_UserID: "appendLocked es u e alloc = (es', e') \<Longrightarrow> ev_UserID e' = u"
  by (auto simp: appendLocked_def Let_def)

lemma dispatches_ok_event: "dispatches_ok evs ds \<Longrightarrow> dispatches_ok (evs @ [e]) ds"
  by (auto simp: dispatches_ok_def)

lemma dispatches_ok_snoc:
  assumes "dispatches_ok evs ds" and "chain 0 (evs @ [e])" and "(xk = 0) = (xs = 0)"
  shows "dispatches_ok (evs @ [e])
           (ds @ [\<lparr>di_Pts = ev_Pts e, di_ExcludeAuthKeyID = xk, di_ExcludeSessionID = xs\<rparr>])"
proof -
  have "\<forall>a\<in>set evs. ev_Pts a < ev_Pts e"
    using chain_sorted [OF assms(2)] by (simp add: sorted_wrt_snoc)
  then show ?thesis using assms(1,3) by (auto simp: dispatches_ok_def sorted_wrt_snoc)
qed

lemma event_append_store_ok:
  assumes ok: "store_ok es" and ap: "event_append es u e True wd xk xs = (es', Inr e')"
  shows "store_ok es'" and "es_events es' = (es_events es)(u := es_events es u @ [e'])"
proof -
  from ap obtain s1 where s1: "appendLocked es u e True = (s1, e')"
    and ev: "es_events es' = es_events s1"
    and di: "es_dispatches es' = (if wd then (es_dispatches es)(u := es_dispatches es u @
         [\<lparr>di_Pts = ev_Pts e', di_ExcludeAuthKeyID = xk, di_ExcludeSessionID = xs\<rparr>])
       else es_dispatches es)"
    and ex: "wd \<longrightarrow> (xk = 0) = (xs = 0)"
    by (rule event_append_cases) auto
  have "chain 0 (es_events es u)" using ok by (simp add: store_ok_def)
  note c = appendLocked_chain [OF this s1]
  show evs: "es_events es' = (es_events es)(u := es_events es u @ [e'])" using ev c(1) by simp
  have "dispatches_ok (es_events es' v) (es_dispatches es' v)" for v
    using ok evs di ex c(1,2)
    by (auto simp: store_ok_def intro: dispatches_ok_event dispatches_ok_snoc)
  moreover have "log_ok es'" using ok evs c(1,2) by (auto simp: store_ok_def)
  ultimately show "store_ok es'"
    using ok evs appendLocked_UserID [OF s1] by (auto simp: store_ok_def)
qed

text \<open>Along a run the log of every account only grows at its end, and stays well-formed.\<close>

lemma log_step_grows:
  assumes "log_step o1 o2" "o1 = Some es" "store_ok es"
  obtains es' where "o2 = Some es'" "store_ok es'"
    "\<And>u. \<exists>zs. es_events es' u = es_events es u @ zs"
  using assms(1)
proof cases
  case same
  with assms show thesis by (intro that [of es]) auto
next
  case (app es0 u e wd xk xs es1 e')
  with assms event_append_store_ok [of es0 u e wd xk xs es1 e'] show thesis
    by (intro that [of es1]) auto
qed

lemma run_grows:
  assumes "update_step\<^sup>*\<^sup>* s s'" "svc_events s = Some es" "store_ok es"
  obtains es' where "svc_events s' = Some es'" "store_ok es'"
    "\<And>u. \<exists>zs. es_events es' u = es_events es u @ zs"
  using assms(1)
proof (induction arbitrary: thesis rule: rtranclp_induct)
  case base
  with assms show ?case by auto
next
  case (step s1 s2)
  from step.IH obtain es1 where es1: "svc_events s1 = Some es1" "store_ok es1"
    and g1: "\<And>u. \<exists>zs. es_events es1 u = es_events es u @ zs" by blast
  obtain es2 where es2: "svc_events s2 = Some es2" "store_ok es2"
    and g2: "\<And>u. \<exists>zs. es_events es2 u = es_events es1 u @ zs"
    using log_step_grows [OF update_step_log_step [OF step.hyps(2)] es1] by blast
  have "\<exists>zs. es_events es2 u = es_events es u @ zs" for u
    using g1 [of u] g2 [of u] by auto
  with es2 show ?case by (rule step.prems)
qed

section \<open>A client that follows the log\<close>

text \<open>
  A client starts at a state and, again and again, asks for the difference after the state it
  holds and takes over the state of the answer; between two requests any steps of the service
  happen. The relation collects the events it was given.
\<close>

inductive client_sync :: "auth_key_id \<Rightarrow> int \<Rightarrow> 'x update_service \<Rightarrow> update_state \<Rightarrow>
    'x update_event list \<Rightarrow> 'x update_service \<Rightarrow> update_state \<Rightarrow> bool" for k u svc0 from_st where
  begin_sync: "client_sync k u svc0 from_st [] svc0 from_st"
| other: "client_sync k u svc0 from_st evs svc1 st \<Longrightarrow> update_step svc1 svc2 \<Longrightarrow>
    client_sync k u svc0 from_st evs svc2 st"
| fetch: "client_sync k u svc0 from_st evs svc1 st \<Longrightarrow>
    GetDifference no_checkpoint now svc1 k u st = Inr d \<Longrightarrow>
    client_sync k u svc0 from_st (evs @ ud_Events d) svc1 (ud_State d)"

lemma client_sync_slice:
  assumes "client_sync k u svc0 from_st evs svc st"
    and "svc_events svc0 = Some es0" "store_ok es0"
    and "es_events es0 u = xs @ ys" "us_Pts from_st = chain_end 0 xs"
  shows "\<exists>es zs. svc_events svc = Some es \<and> store_ok es \<and> es_events es u = xs @ evs @ zs \<and>
           us_Pts st = chain_end 0 (xs @ evs)"
  using assms
proof (induction rule: client_sync.induct)
  case (other evs svc1 st svc2)
  then obtain es zs where "svc_events svc1 = Some es" "store_ok es"
    and h: "es_events es u = xs @ evs @ zs" "us_Pts st = chain_end 0 (xs @ evs)" by blast
  with log_step_grows [OF update_step_log_step [OF other.hyps(2)]]
  obtain es' zs' where "svc_events svc2 = Some es'" "store_ok es'"
    "es_events es' u = es_events es u @ zs'" by metis
  with h show ?case by auto
next
  case (fetch evs svc1 st now d)
  then obtain es zs where es: "svc_events svc1 = Some es" "store_ok es"
    and h: "es_events es u = xs @ evs @ zs" "us_Pts st = chain_end 0 (xs @ evs)" by blast
  have h1: "es_events es u = (xs @ evs) @ zs" using h(1) by simp
  obtain d' where d': "GetDifference no_checkpoint now svc1 k u st = Inr d'"
    "ud_Events d' = take getDifferenceLimit zs"
    "us_Pts (ud_State d') = chain_end 0 ((xs @ evs) @ take getDifferenceLimit zs)"
    by (rule GetDifference_page [OF es(1) store_ok_log [OF es(2)] h1 h(2)])
  then have d: "d' = d" using fetch.hyps(2) by simp
  have "es_events es u = xs @ (evs @ ud_Events d) @ drop getDifferenceLimit zs"
    using h1 d' d by simp
  moreover have "us_Pts (ud_State d) = chain_end 0 (xs @ evs @ ud_Events d)" using d d' by simp
  ultimately show ?case using es by blast
qed auto

text \<open>The client's loop when nothing else runs: fetch while the answer is partial.\<close>

fun catch_up :: "nat \<Rightarrow> int \<Rightarrow> 'x update_service \<Rightarrow> auth_key_id \<Rightarrow> int \<Rightarrow> update_state \<Rightarrow>
    ('x update_event list \<times> update_state) option" where
  "catch_up 0 now svc k u st = None"
| "catch_up (Suc n) now svc k u st =
     (case GetDifference no_checkpoint now svc k u st of
        Inl _ \<Rightarrow> None
      | Inr d \<Rightarrow>
          if ud_Partial d
          then (case catch_up n now svc k u (ud_State d) of
                  None \<Rightarrow> None | Some (evs, st') \<Rightarrow> Some (ud_Events d @ evs, st'))
          else Some (ud_Events d, ud_State d))"

lemma catch_up_from_boundary:
  assumes "svc_events svc = Some es" "log_ok es" "es_events es u = xs @ ys"
    and "us_Pts st = chain_end 0 xs" "length ys div getDifferenceLimit < n"
  shows "\<exists>st'. catch_up n now svc k u st = Some (ys, st') \<and> us_Pts st' = currentPts svc u"
  using assms(3-)
proof (induction n arbitrary: xs ys st)
  case (Suc n)
  obtain d where d: "GetDifference no_checkpoint now svc k u st = Inr d"
    "ud_Events d = take getDifferenceLimit ys"
    "us_Pts (ud_State d) = chain_end 0 (xs @ take getDifferenceLimit ys)"
    "ud_Partial d \<longleftrightarrow> getDifferenceLimit \<le> length ys"
    by (rule GetDifference_page [OF assms(1,2) Suc.prems(1,2)])
  show ?case
  proof (cases "getDifferenceLimit \<le> length ys")
    case True
    have "length (drop getDifferenceLimit ys) div getDifferenceLimit < n"
      using Suc.prems(3) True by (simp add: le_div_geq)
    with Suc.IH [of "xs @ take getDifferenceLimit ys" "drop getDifferenceLimit ys" "ud_State d"]
    obtain st' where "catch_up n now svc k u (ud_State d) = Some (drop getDifferenceLimit ys, st')"
      "us_Pts st' = currentPts svc u" using Suc.prems(1) d(3) by auto
    with d True show ?thesis by auto
  next
    case False
    have "currentPts svc u = chain_end 0 (xs @ ys)"
      using assms(1) memory_log.watermark_eq [OF assms(2), of u] Suc.prems(1)
      by (simp add: currentPts_Some)
    with d False show ?thesis by auto
  qed
qed simp

section \<open>Properties\<close>

text \<open>
  C2. In every state the service reaches from empty stores, through any sequence of its
  operations, the log of each account is gap-free: its events belong to the account, each
  occupies the range of \<open>pts\<close> right after its predecessor, and \<open>MaxContiguousPts\<close>, which
  \<open>GetState\<close> and \<open>GetDifference\<close> report, is the end of the last one.
\<close>

theorem update_log_gap_free:
  assumes "update_step\<^sup>*\<^sup>* (NewService (Some NewUpdateStateStore) (Some NewUpdateEventStore) b) svc"
  shows "\<exists>es. svc_events svc = Some es \<and>
           (\<forall>u. chain 0 (es_events es u) \<and> (\<forall>e\<in>set (es_events es u). ev_UserID e = u) \<and>
                MaxContiguousPts es u =
                  (if es_events es u = [] then 0 else ev_Pts (last (es_events es u))))"
proof -
  have "svc_events (NewService (Some NewUpdateStateStore) (Some NewUpdateEventStore) b)
      = Some NewUpdateEventStore" by (simp add: NewService_def)
  from run_grows [OF assms this store_ok_New] obtain es where
    es: "svc_events svc = Some es" "store_ok es" by blast
  then show ?thesis
    by (auto simp: store_ok_def MaxContiguousPts_chain chain_end_eq_last)
qed

text \<open>
  C1. A client that keeps asking for differences loses nothing and sees nothing twice, whatever
  else the service does between its requests: if it starts at an event boundary of its account's
  log, the events it has collected are exactly the part of the log that follows, in order, and
  the state it holds is the boundary after them.
\<close>

theorem difference_no_loss:
  assumes "client_sync k u svc0 from_st evs svc st"
    and "svc_events svc0 = Some es0" and "store_ok es0"
    and "es_events es0 u = xs @ ys" and "us_Pts from_st = chain_end 0 xs"
  shows "\<exists>es zs. svc_events svc = Some es \<and> es_events es u = xs @ evs @ zs \<and>
           us_Pts st = chain_end 0 (xs @ evs)"
  using client_sync_slice [OF assms] by blast

text \<open>
  C3. Catching up ends: from an event boundary with \<open>n\<close> events after it, fetching until an
  answer is not partial takes at most \<open>n div 100 + 1\<close> requests, returns exactly those events and
  ends at the account's current \<open>pts\<close>.
\<close>

theorem catch_up_completes:
  assumes "svc_events svc = Some es" and "store_ok es" and "es_events es u = xs @ ys"
    and "us_Pts st = chain_end 0 xs"
  shows "\<exists>st'. catch_up (Suc (length ys div 100)) now svc k u st = Some (ys, st') \<and>
           us_Pts st' = currentPts svc u"
  using catch_up_from_boundary [OF assms(1) store_ok_log [OF assms(2)] assms(3,4)] by blast

text \<open>
  A difference never skips: whatever the event store holds (rows out of order, holes,
  duplicate rows) and whatever state the client sends, either a retention checkpoint moves the
  client, or the answer's events are rows of the store that follow each other without a hole,
  start right after the clamped request, end at the answer's \<open>pts\<close>, and cover every position in
  between; an answer without events does not move the client beyond the account's \<open>pts\<close>.
\<close>

theorem difference_never_skips:
  assumes "GetDifference probe now svc k u from_st = Inr d"
    and "svc_events svc = Some es"
    and c_def: "c = us_Pts (clampDifferenceState from_st (currentState now svc u))"
  shows "(\<exists>i date. probe i k u = Inr (Some (us_Pts (ud_State d), date)) \<and> ud_Events d = [] \<and>
            c < us_Pts (ud_State d)) \<or>
         (ud_Events d = [] \<and> us_Pts (ud_State d) = currentPts svc u \<and> currentPts svc u \<le> c) \<or>
         (covers c (ud_Events d) \<and> us_Pts (ud_State d) = chain_end c (ud_Events d) \<and>
          set (ud_Events d) \<subseteq> set (es_events es u) \<and>
          (\<forall>p. c < p \<and> p \<le> us_Pts (ud_State d) \<longrightarrow>
             (\<exists>e\<in>set (ud_Events d). ev_Pts e - event_count e < p \<and> p \<le> ev_Pts e)))"
  using assms(1)
proof (cases rule: GetDifference_cases)
  case (page es' c')
  have rows: "set (ListAfter es u c (int getDifferenceLimit)) \<subseteq> set (es_events es u)"
    using set_take_subset by (fastforce simp: ListAfter_eq)
  have cov: "covers c (ud_Events d)" and sub: "set (ud_Events d) \<subseteq> set (es_events es u)"
    using page assms(2) contiguousPrefix_covers [of c]
      subset_trans [OF contiguousPrefix_sub rows] by (auto simp: c_def)
  then show ?thesis using page covers_position [OF cov] by (auto simp: c_def)
qed (use assms(2) in \<open>auto simp: c_def\<close>)

text \<open>
  Dispatch rows agree with the log: in every reachable state the rows an account's outbox
  holds are in the order of the log, at most one for each event, each for an event that exists,
  and each excludes either a whole session (key and session id) or nobody.
\<close>

theorem dispatch_once_per_event:
  assumes "update_step\<^sup>*\<^sup>* (NewService (Some NewUpdateStateStore) (Some NewUpdateEventStore) b) svc"
    and "svc_events svc = Some es"
  shows "distinct (map di_Pts (es_dispatches es u)) \<and>
         (\<forall>d\<in>set (es_dispatches es u). (\<exists>e\<in>set (es_events es u). ev_Pts e = di_Pts d) \<and>
           (di_ExcludeAuthKeyID d = 0) = (di_ExcludeSessionID d = 0))"
proof -
  have "svc_events (NewService (Some NewUpdateStateStore) (Some NewUpdateEventStore) b)
      = Some NewUpdateEventStore" by (simp add: NewService_def)
  from run_grows [OF assms(1) this store_ok_New] assms(2) have "store_ok es" by force
  then have "dispatches_ok (es_events es u) (es_dispatches es u)" by (simp add: store_ok_def)
  then show ?thesis
    by (auto simp: dispatches_ok_def image_iff dest: sorted_wrt_less_distinct) (metis)
qed

section \<open>The properties at work\<close>

abbreviation empty_service :: "unit update_service" where
  "empty_service \<equiv> NewService (Some NewUpdateStateStore) (Some NewUpdateEventStore) True"

text \<open>Two recorded events: a contacts reset and a draft, the second with a session left out.\<close>

definition busy_service :: "unit update_service" where
  "busy_service = fst (RecordDraftMessage 11 (fst (RecordContactsReset 10 empty_service 5 42 0 0))
     5 42 zero_peer 0 5 77)"

lemmas run_simps = NewService_def NewUpdateStateStore_def NewUpdateEventStore_def
  RecordContactsReset_def RecordDraftMessage_def recordEvent_def recordEventCore_def
  AppendAllocatedWithDispatch_def event_append_def appendLocked_def zero_event_def Let_def

lemma busy_run: "update_step\<^sup>*\<^sup>* empty_service busy_service"
proof -
  let ?mid = "fst (RecordContactsReset 10 empty_service 5 42 0 0)"
  have "update_step empty_service ?mid" by (rule update_step.intros)
  moreover have "update_step ?mid busy_service"
    unfolding busy_service_def by (rule update_step.intros)
  ultimately show ?thesis by (meson rtranclp.simps)
qed

lemma busy_events:
  "\<exists>es. svc_events busy_service = Some es \<and> length (es_events es 42) = 2 \<and>
     map di_Pts (es_dispatches es 42) = [1, 2]"
  by (simp add: busy_service_def run_simps)

theorem update_log_gap_free_witness:
  "\<exists>es. svc_events busy_service = Some es \<and> MaxContiguousPts es 42 = 2"
proof -
  from update_log_gap_free [OF busy_run] obtain es where es: "svc_events busy_service = Some es"
    and m: "MaxContiguousPts es 42 =
       (if es_events es 42 = [] then 0 else ev_Pts (last (es_events es 42)))" by blast
  have "ev_Pts (last (es_events es 42)) = 2" "es_events es 42 \<noteq> []"
    using es by (auto simp: busy_service_def run_simps)
  with es m show ?thesis by simp
qed

text \<open>The history of account 42 in that run, by which the remaining examples are evaluated.\<close>

lemma busy_store:
  obtains es e1 e2 where "svc_events busy_service = Some es" "store_ok es"
    "es_events es 42 = [e1, e2]" "ev_Pts e1 = 1" "ev_Pts e2 = 2"
    "ev_PtsCount e1 = 1" "ev_PtsCount e2 = 1"
proof -
  have "svc_events empty_service = Some NewUpdateEventStore" by (simp add: NewService_def)
  from run_grows [OF busy_run this store_ok_New] obtain es where
    es: "svc_events busy_service = Some es" "store_ok es" by blast
  then show thesis by (intro that [of es]) (auto simp: busy_service_def run_simps)
qed

theorem difference_no_loss_witness:
  "\<exists>st evs es zs. client_sync 5 42 busy_service zero_update_state evs busy_service st \<and>
     svc_events busy_service = Some es \<and> es_events es 42 = [] @ evs @ zs \<and> us_Pts st = 2"
proof -
  obtain es e1 e2 where es: "svc_events busy_service = Some es" "store_ok es"
    and ev: "es_events es 42 = [e1, e2]" "ev_Pts e1 = 1" "ev_Pts e2 = 2"
    using busy_store by metis
  have z: "us_Pts zero_update_state = chain_end 0 []" by (simp add: zero_update_state_def)
  have h: "es_events es 42 = [] @ [e1, e2]" using ev by simp
  obtain d where d: "GetDifference no_checkpoint 12 busy_service 5 42 zero_update_state = Inr d"
    "us_Pts (ud_State d) = chain_end 0 ([] @ take getDifferenceLimit [e1, e2])"
    by (rule GetDifference_page [OF es(1) store_ok_log [OF es(2)] h z])
  have s: "client_sync 5 42 busy_service zero_update_state ([] @ ud_Events d) busy_service (ud_State d)"
    by (rule client_sync.fetch [OF client_sync.begin_sync d(1)])
  from difference_no_loss [OF s es h z] s es d(2) ev show ?thesis by fastforce
qed

theorem catch_up_completes_witness:
  "\<exists>es e1 e2 st'. svc_events busy_service = Some es \<and> es_events es 42 = [e1, e2] \<and>
     catch_up 1 12 busy_service 5 42 zero_update_state = Some ([e1, e2], st') \<and> us_Pts st' = 2"
proof -
  obtain es e1 e2 where es: "svc_events busy_service = Some es" "store_ok es"
    and ev: "es_events es 42 = [] @ [e1, e2]" "ev_Pts e2 = 2"
    using busy_store by (metis append_Nil)
  have z: "us_Pts zero_update_state = chain_end 0 []" by (simp add: zero_update_state_def)
  have "currentPts busy_service 42 = 2"
    using es ev memory_log.watermark_eq [OF store_ok_log [OF es(2)], of 42]
    by (simp add: currentPts_Some)
  with catch_up_completes [OF es ev(1) z, of 12 5] es ev show ?thesis by auto
qed

theorem difference_never_skips_witness:
  "\<exists>d. GetDifference (\<lambda>_ _ _. Inr (Some (1, 9))) 12 busy_service 5 42 zero_update_state = Inr d \<and>
     ud_Events d = [] \<and> 0 < us_Pts (ud_State d)"
proof -
  obtain es e1 e2 where es: "svc_events busy_service = Some es" "store_ok es"
    and ev: "es_events es 42 = [e1, e2]" "ev_Pts e2 = 2"
    using busy_store by metis
  have w: "currentPts busy_service 42 = 2"
    using es ev memory_log.watermark_eq [OF store_ok_log [OF es(2)], of 42]
    by (simp add: currentPts_Some)
  define d where "d = (\<lparr>ud_State = \<lparr>us_Pts = 1, us_Qts = 0, us_Date = 9, us_Seq = 0\<rparr>,
     ud_Events = ([] :: unit update_event list), ud_Partial = True\<rparr>)"
  have g: "GetDifference (\<lambda>_ _ _. Inr (Some (1, 9))) 12 busy_service 5 42 zero_update_state = Inr d"
    using w by (simp add: GetDifference_def retainedPrefixCheckpoint_def clampDifferenceState_def
        zero_update_state_def d_def Let_def)
  have c: "0 = us_Pts (clampDifferenceState zero_update_state (currentState 12 busy_service 42))"
    using w by (simp add: clampDifferenceState_def zero_update_state_def Let_def)
  from difference_never_skips [OF g es(1) c] g w show ?thesis by (auto simp: d_def)
qed

theorem dispatch_once_per_event_witness:
  "\<exists>es. svc_events busy_service = Some es \<and> map di_Pts (es_dispatches es 42) = [1, 2] \<and>
     distinct (map di_Pts (es_dispatches es 42)) \<and>
     (\<forall>d\<in>set (es_dispatches es 42). (\<exists>e\<in>set (es_events es 42). ev_Pts e = di_Pts d))"
  using busy_events dispatch_once_per_event [OF busy_run] by metis

section \<open>Recording, publishing and confirming\<close>

lemma recordEventCore_events:
  assumes "svc_events svc = Some es"
    and "e2 = (if ev_PtsCount e = 0 then e\<lparr>ev_PtsCount := 1\<rparr> else e)
      \<lparr>ev_UserID := u, ev_Date := if ev_Date e = 0 then now else ev_Date e\<rparr>"
    and "event_append es u e2 True (dispatch \<and> svc_dispatching svc)
      (if dispatch \<and> svc_dispatching svc then xk else 0)
      (if dispatch \<and> svc_dispatching svc then xs else 0) = (es', r)"
  shows "recordEventCore now svc k xk u e dispatch xs saveState =
    (case r of
       Inl err \<Rightarrow> (svc\<lparr>svc_events := Some es'\<rparr>, Inl err)
     | Inr e' \<Rightarrow>
         let st = \<lparr>us_Pts = ev_Pts e', us_Qts = 0,
                   us_Date = (if ev_Date e = 0 then now else ev_Date e), us_Seq = 0\<rparr>
         in (svc\<lparr>svc_events := Some es', svc_states :=
               (if saveState then map_option (\<lambda>ss. UpdateState_Save ss k u st) (svc_states svc)
                else svc_states svc)\<rparr>, Inr (e', st)))"
proof -
  have "(if dispatch \<and> svc_dispatching svc then AppendAllocatedWithDispatch es u e2 xk xs
         else AppendAllocated es u e2) = (es', r)"
    using assms(3) by (auto simp: AppendAllocatedWithDispatch_def AppendAllocated_def split: if_splits)
  then show ?thesis
    using assms(1) unfolding recordEventCore_def assms(2) [symmetric] Let_def
    by (cases r; cases "svc_states svc") auto
qed

text \<open>
  What recording does, on both branches: it is refused, with the service unchanged, exactly
  when a dispatch names half of an exclusion; otherwise the event takes the next range of its
  account's line, the returned state and the account's watermark are its end, no other account
  moves, and the acting device, when its state is saved, has confirmed at least that far.
\<close>

theorem record_outcome:
  assumes "svc_events svc = Some es" and "store_ok es"
    and "recordEventCore now svc k xk u e dispatch xs saveState = (svc', r)"
  shows "(\<exists>err. r = Inl err \<and> svc' = svc \<and> dispatch \<and> svc_dispatching svc \<and> (xk = 0) \<noteq> (xs = 0)) \<or>
         (\<exists>e' st. r = Inr (e', st) \<and> 0 < ev_PtsCount e' \<and>
            ev_Pts e' = currentPts svc u + ev_PtsCount e' \<and> us_Pts st = ev_Pts e' \<and>
            currentPts svc' u = ev_Pts e' \<and> (\<forall>v. v \<noteq> u \<longrightarrow> currentPts svc' v = currentPts svc v) \<and>
            (\<forall>ss. saveState \<longrightarrow> svc_states svc = Some ss \<longrightarrow>
               (\<exists>ss'. svc_states svc' = Some ss' \<and> us_le st (confirmed ss' (k, u)))))"
proof -
  let ?wd = "dispatch \<and> svc_dispatching svc"
  define e2 where "e2 = (if ev_PtsCount e = 0 then e\<lparr>ev_PtsCount := 1\<rparr> else e)
      \<lparr>ev_UserID := u, ev_Date := if ev_Date e = 0 then now else ev_Date e\<rparr>"
  obtain es' r' where ap: "event_append es u e2 True ?wd (if ?wd then xk else 0) (if ?wd then xs else 0)
      = (es', r')"
    by (cases "event_append es u e2 True ?wd (if ?wd then xk else 0) (if ?wd then xs else 0)")
  note core = recordEventCore_events [OF assms(1) e2_def ap, of k saveState]
  from ap show ?thesis
  proof (cases rule: event_append_cases)
    case rejected
    then show ?thesis using core assms(1,3) by (auto split: if_splits)
  next
    case (appended e' s1)
    have ch: "chain 0 (es_events es u)" using assms(2) by (simp add: store_ok_def)
    have ok': "store_ok es'" and ev': "es_events es' = (es_events es)(u := es_events es u @ [e'])"
      using event_append_store_ok [OF assms(2)] ap appended(1) by blast+
    have w: "MaxContiguousPts es' v = chain_end 0 (es_events es' v)"
      "MaxContiguousPts es v = chain_end 0 (es_events es v)" for v
      using memory_log.watermark_eq store_ok_log ok' assms(2) by blast+
    have cur: "currentPts svc v = chain_end 0 (es_events es v)"
      "currentPts svc' v = chain_end 0 (es_events es' v)" for v
      using core assms(1,3) appended(1) w by (auto simp: currentPts_def Let_def)
    have "us_le st (confirmed (UpdateState_Save ss k u st) (k, u))" for ss st
      using saves.wr_self [where s = ss and k = "(k, u)" and st = st] us_join_upper(2) by simp
    then show ?thesis
      using core assms(3) appended(1) appendLocked_chain(3,4) [OF ch appended(2)] cur ev'
      by (auto simp: Let_def)
  qed
qed

text \<open>
  Publishing a message twice records it once: once a message with a positive box id has been
  published to an account, publishing a message of that id to the account again returns the
  recorded event and leaves the service as it is.
\<close>

theorem publish_idempotent:
  assumes "svc_events svc = Some es" and "u \<noteq> 0" and "0 < msg_ID m" and "msg_ID m' = msg_ID m"
  shows "\<exists>svc1 e st. PublishNewMessage now svc u m = (svc1, Inr (e, st)) \<and>
           PublishNewMessage now' svc1 u m' = (svc1, Inr (e, currentState now' svc1 u))"
proof (cases "FindNewMessageEvent es u (msg_ID m)")
  case (Some ev)
  then show ?thesis using assms by (simp add: PublishNewMessage_def)
next
  case None
  define e0 where "e0 = (zero_event\<lparr>ev_Type := UpdateEventNewMessage,
     ev_Date := if msg_Date m = 0 then now else msg_Date m, ev_Message := Some m, ev_PtsCount := 1\<rparr>)"
  define e2 where "e2 = (if ev_PtsCount e0 = 0 then e0\<lparr>ev_PtsCount := 1\<rparr> else e0)
      \<lparr>ev_UserID := u, ev_Date := if ev_Date e0 = 0 then now else ev_Date e0\<rparr>"
  let ?wd = "True \<and> svc_dispatching svc"
  obtain es' r where ap: "event_append es u e2 True ?wd (if ?wd then 0 else 0) (if ?wd then 0 else 0)
      = (es', r)"
    by (cases "event_append es u e2 True ?wd (if ?wd then 0 else 0) (if ?wd then 0 else 0)")
  then obtain e' s1 where r: "r = Inr e'" and al: "appendLocked es u e2 True = (s1, e')"
    and ev: "es_events es' = es_events s1"
    by (rule event_append_cases) auto
  have e': "ev_Type e' = UpdateEventNewMessage" "ev_Message e' = Some m"
    and es1: "es_events es' u = es_events es u @ [e']"
    using al ev by (auto simp: appendLocked_def Let_def e2_def e0_def)
  have "find P (xs @ [x]) = (case find P xs of None \<Rightarrow> if P x then Some x else None | Some y \<Rightarrow> Some y)"
    for P and xs :: "'a update_event list" and x by (induction xs) auto
  then have "FindNewMessageEvent es' u (msg_ID m) = Some e'"
    using None e' es1 assms(2,3) by (auto simp: FindNewMessageEvent_def split: option.splits)
  then show ?thesis
    using recordEventCore_events [OF assms(1) e2_def ap, of 0 False] None r assms
    by (auto simp: PublishNewMessage_def e0_def Let_def)
qed

text \<open>
  Delivery callbacks may finish in any order: committing the same delivered states in any
  order leaves each device's confirmed and observed cursor the same, never below what it was,
  and at or above every state committed for the device.
\<close>

theorem delivered_order_irrelevant:
  assumes "mset ws = mset ws'"
  shows "confirmed (fold (\<lambda>(k, st). commit_baseline k st) ws s) dev =
           confirmed (fold (\<lambda>(k, st). commit_baseline k st) ws' s) dev \<and>
         observed (fold (\<lambda>(k, st). commit_baseline k st) ws s) dev =
           observed (fold (\<lambda>(k, st). commit_baseline k st) ws' s) dev \<and>
         us_le (confirmed s dev) (confirmed (fold (\<lambda>(k, st). commit_baseline k st) ws s) dev) \<and>
         (\<forall>st. (dev, st) \<in> set ws \<longrightarrow>
            us_le st (confirmed (fold (\<lambda>(k, st). commit_baseline k st) ws s) dev))"
  using baseline.run_order_irrelevant [OF assms] baseline_observed.run_order_irrelevant [OF assms]
    baseline.run_monotone baseline.run_covers by blast

theorem record_outcome_witness:
  "\<exists>svc' e' st. recordEventCore 12 busy_service 5 0 42 zero_event True 0 True = (svc', Inr (e', st)) \<and>
     ev_Pts e' = currentPts busy_service 42 + ev_PtsCount e' \<and> currentPts svc' 42 = ev_Pts e'"
proof -
  obtain es where es: "svc_events busy_service = Some es" "store_ok es" using busy_store by metis
  obtain svc' r where "recordEventCore 12 busy_service 5 0 42 zero_event True 0 True = (svc', r)"
    by (cases "recordEventCore 12 busy_service 5 0 42 zero_event True 0 True")
  with record_outcome [OF es this] show ?thesis by auto
qed

theorem publish_idempotent_witness:
  "let m = (\<lparr>msg_ID = 3, msg_OwnerUserID = 42, msg_Peer = zero_peer, msg_Date = 1,
              msg_content = None\<rparr> :: unit message)
   in \<exists>svc1 e st. PublishNewMessage 12 busy_service 42 m = (svc1, Inr (e, st)) \<and>
        PublishNewMessage 13 svc1 42 m = (svc1, Inr (e, currentState 13 svc1 42))"
proof -
  obtain es where es: "svc_events busy_service = Some es" using busy_store by metis
  let ?m = "\<lparr>msg_ID = 3, msg_OwnerUserID = 42, msg_Peer = zero_peer, msg_Date = 1,
    msg_content = None\<rparr> :: unit message"
  show ?thesis using publish_idempotent [OF es, of 42 ?m ?m 12 13] by simp
qed

theorem delivered_order_irrelevant_witness:
  "let a = \<lparr>us_Pts = 4, us_Qts = 0, us_Date = 9, us_Seq = 0\<rparr>;
       b = \<lparr>us_Pts = 3, us_Qts = 2, us_Date = 10, us_Seq = 0\<rparr>;
       run = (\<lambda>ws. fold (\<lambda>(k, st). commit_baseline k st) ws NewUpdateStateStore)
   in confirmed (run [((5, 42), a), ((5, 42), b)]) (5, 42) =
        confirmed (run [((5, 42), b), ((5, 42), a)]) (5, 42) \<and>
      confirmed (run [((5, 42), a), ((5, 42), b)]) (5, 42) = us_join a b"
  using delivered_order_irrelevant [of
      "[((5, 42), \<lparr>us_Pts = 4, us_Qts = 0, us_Date = 9, us_Seq = 0\<rparr>),
        ((5, 42), \<lparr>us_Pts = 3, us_Qts = 2, us_Date = 10, us_Seq = 0\<rparr>)]"
      "[((5, 42), \<lparr>us_Pts = 3, us_Qts = 2, us_Date = 10, us_Seq = 0\<rparr>),
        ((5, 42), \<lparr>us_Pts = 4, us_Qts = 0, us_Date = 9, us_Seq = 0\<rparr>)]" NewUpdateStateStore "(5, 42)"]
  by (simp add: cursor_defs NewUpdateStateStore_def us_join_def zero_update_state_def)

end
