(* ===== verification/DH_Params.thy ===== *)
theory DH_Params
  imports Gram_Prelude
begin

text \<open>
  The Diffie-Hellman parameters of calls and secret chats: the 2048-bit prime of
  \<open>internal/app/phone/dh.go\<close> and the range check of \<open>internal/app/secretchat/dh.go\<close>. Byte slices
  are lists of 8-bit words; \<open>big_endian\<close> is \<open>new(big.Int).SetBytes\<close>.
\<close>

type_synonym bytes = "8 word list"

definition big_endian :: "bytes \<Rightarrow> int" where
  "big_endian bs = foldl (\<lambda>acc b. acc * 256 + uint b) 0 bs"

definition dhPrime :: int where
  "dhPrime = 0xc71caeb9c6b1c9048e6c522f70f13f73980d40238e3e21c14934d037563d930f48198a0aa7c14058229493d22530f4dbfa336f6e0ac925139543aed44cce7c3720fd51f69458705ac68cd4fe6b6b13abdc9746512969328454f18faf8c595f642477fe96bb2a941d5bcd1d4ac8cc49880708fa9b378e3c4f3a9060bee67cf9a4a4a695811051907e162753b56b0f6b410dba74d8a84b2a14b3144e0ef1284754fd17ed950d5965b4b9dd46582db1178d169c6bc465b0d6ff9ca3928fef5b9ae4e418fc15e83ebea0f87fa9ff5eed70050ded2849f47bf959d956850ce929851f0d8115f635b105ee2e4e15d04b2454bf6f4fadf034b10403119cd8e3b92fcc5b"

abbreviation dhPubSize :: nat where
  "dhPubSize \<equiv> 256"

definition dhLowerBound :: int where
  "dhLowerBound = 2 ^ 1984"

definition dhUpperBound :: int where
  "dhUpperBound = dhPrime - 2 ^ 1984"

definition leftPad256 :: "bytes \<Rightarrow> bytes" where
  "leftPad256 b = (if length b = dhPubSize then b else replicate (dhPubSize - length b) 0 @ b)"

text \<open>\<open>None\<close> is \<open>ErrGAInvalid\<close>.\<close>

definition validateDHParam :: "bytes \<Rightarrow> bytes option" where
  "validateDHParam g =
     (if length g = 0 \<or> length g > dhPubSize then None
      else let x = big_endian g
           in if x \<le> 1 \<or> x \<ge> dhPrime - 1 then None
              else if x \<le> dhLowerBound \<or> x \<ge> dhUpperBound then None
              else Some (leftPad256 g))"

lemma big_endian_append: "big_endian (xs @ ys) = big_endian xs * 256 ^ length ys + big_endian ys"
proof -
  have *: "foldl (\<lambda>acc b. acc * 256 + uint b) a zs = a * 256 ^ length zs + big_endian zs"
    for a and zs :: bytes
  proof (induction zs arbitrary: a)
    case (Cons z zs)
    have "foldl (\<lambda>acc b. acc * 256 + uint b) a (z # zs)
        = (a * 256 + uint z) * 256 ^ length zs + big_endian zs" using Cons by simp
    moreover have "big_endian (z # zs) = uint z * 256 ^ length zs + big_endian zs"
      using Cons [of "uint z"] by (simp add: big_endian_def)
    ultimately show ?case by (simp add: algebra_simps)
  qed (simp add: big_endian_def)
  show ?thesis using * [of "big_endian xs" ys] by (simp add: big_endian_def)
qed

lemma big_endian_zeros [simp]: "big_endian (replicate n 0) = 0"
proof (induction n)
  case (Suc n)
  have "big_endian ([0] @ replicate n 0) = 0"
    unfolding big_endian_append using Suc by (simp add: big_endian_def)
  then show ?case by simp
qed (simp add: big_endian_def)

lemma leftPad256_value: "big_endian (leftPad256 b) = big_endian b"
  by (simp add: leftPad256_def big_endian_append)

lemma leftPad256_length: "length b \<le> dhPubSize \<Longrightarrow> length (leftPad256 b) = dhPubSize"
  by (simp add: leftPad256_def)

lemma big_endian_nonneg: "0 \<le> big_endian b"
proof -
  have "0 \<le> acc \<Longrightarrow> 0 \<le> foldl (\<lambda>acc b. acc * 256 + uint b) acc b" for acc :: int
    by (induction b arbitrary: acc) auto
  then show ?thesis by (simp add: big_endian_def)
qed

text \<open>The bounds of the second test imply those of the first.\<close>

lemma bounds_nested: "1 < dhLowerBound" "dhUpperBound < dhPrime - 1"
  by (simp_all add: dhLowerBound_def dhUpperBound_def)

lemma validateDHParam_Some:
  "validateDHParam g = Some h \<longleftrightarrow>
     0 < length g \<and> length g \<le> dhPubSize \<and> dhLowerBound < big_endian g \<and>
     big_endian g < dhUpperBound \<and> h = leftPad256 g"
  using bounds_nested by (auto simp: validateDHParam_def Let_def)

text \<open>Values fit the range only with at least 249 bytes, and never with more than 256.\<close>

lemma validateDHParam_canonical:
  assumes "validateDHParam g = Some h"
  shows "length h = dhPubSize" and "big_endian h = big_endian g" and "validateDHParam h = Some h"
proof -
  from assms have h: "h = leftPad256 g" and len: "length g \<le> dhPubSize"
    by (auto simp: validateDHParam_Some)
  show l: "length h = dhPubSize" using h len by (simp add: leftPad256_length)
  show v: "big_endian h = big_endian g" using h by (simp add: leftPad256_value)
  have "leftPad256 h = h" using l by (simp add: leftPad256_def)
  with assms l v show "validateDHParam h = Some h" by (simp add: validateDHParam_Some)
qed

end
