(* ===== verification/Secret_Chat.thy ===== *)
theory Secret_Chat
  imports DH_Params "HOL-Library.AList"
begin

text \<open>
  Secret chats: the handshake state machine and the encrypted delivery queue of
  \<open>internal/domain/secretchat.go\<close>, \<open>internal/store/memory/secretchat.go\<close> and
  \<open>internal/app/secretchat/service.go\<close>. The server relays opaque bytes between exactly two bound
  devices; what it must get right is who is bound, which transitions happen, and that every
  message reaches its device once and in order.

  Go maps that the code iterates over are association lists with unique keys. A service call
  that takes the store's lock twice gets an argument \<open>race\<close>: what the calls of other goroutines
  did to the chats between its two critical sections (\<open>id\<close> when nothing did). The bytes of
  \<open>crypto/rand\<close> are arguments. Copying byte slices has no counterpart, since values are never
  shared here.
\<close>

section \<open>Chats\<close>

datatype secret_state = SecretChatStateNone | SecretChatStateRequested | SecretChatStateNormal
  | SecretChatStateDiscarded

datatype secret_error = ErrSecretChatNotFound | ErrSecretChatAlreadyAccepted
  | ErrSecretChatAlreadyDeclined | ErrSecretChatRandomIDDuplicate | ErrGAInvalid | ErrRandomRead

record secret_chat =
  sc_ID :: int
  sc_AdminAccessHash :: int
  sc_ParticipantAccessHash :: int
  sc_AdminUserID :: int
  sc_ParticipantUserID :: int
  sc_AdminAuthKeyID :: int
  sc_ParticipantAuthKeyID :: int
  sc_State :: secret_state
  sc_GA :: bytes
  sc_GB :: bytes
  sc_KeyFingerprint :: int
  sc_Layer :: int
  sc_FolderID :: int
  sc_HistoryDeleted :: bool
  sc_RandomID :: int
  sc_Date :: int

definition SecretChat_Terminal :: "secret_chat \<Rightarrow> bool" where
  "SecretChat_Terminal c \<longleftrightarrow> sc_State c = SecretChatStateDiscarded"

definition SecretChat_HasParticipant :: "secret_chat \<Rightarrow> int \<Rightarrow> bool" where
  "SecretChat_HasParticipant c u \<longleftrightarrow> u \<noteq> 0 \<and> (u = sc_AdminUserID c \<or> u = sc_ParticipantUserID c)"

definition SecretChat_IsAdmin :: "secret_chat \<Rightarrow> int \<Rightarrow> bool" where
  "SecretChat_IsAdmin c u \<longleftrightarrow> u \<noteq> 0 \<and> u = sc_AdminUserID c"

definition SecretChat_PeerOf :: "secret_chat \<Rightarrow> int \<Rightarrow> int" where
  "SecretChat_PeerOf c u =
     (if u = sc_AdminUserID c then sc_ParticipantUserID c
      else if u = sc_ParticipantUserID c then sc_AdminUserID c else 0)"

definition SecretChat_PeerAuthKeyOf :: "secret_chat \<Rightarrow> int \<Rightarrow> int" where
  "SecretChat_PeerAuthKeyOf c u =
     (if u = sc_AdminUserID c then sc_ParticipantAuthKeyID c
      else if u = sc_ParticipantUserID c then sc_AdminAuthKeyID c else 0)"

definition SecretChat_AuthKeyOf :: "secret_chat \<Rightarrow> int \<Rightarrow> int" where
  "SecretChat_AuthKeyOf c u =
     (if u = sc_AdminUserID c then sc_AdminAuthKeyID c
      else if u = sc_ParticipantUserID c then sc_ParticipantAuthKeyID c else 0)"

definition SecretChat_AccessHashFor :: "secret_chat \<Rightarrow> int \<Rightarrow> int" where
  "SecretChat_AccessHashFor c u =
     (if u = sc_AdminUserID c then sc_AdminAccessHash c
      else if u = sc_ParticipantUserID c then sc_ParticipantAccessHash c else 0)"

section \<open>The chat store\<close>

type_synonym chat_store = "(int \<times> secret_chat) list"

definition CreateSecretChat :: "chat_store \<Rightarrow> secret_chat \<Rightarrow> chat_store \<times> secret_error option" where
  "CreateSecretChat s chat =
     (if sc_ID chat = 0 \<or> sc_ID chat \<noteq> sc_RandomID chat
      then (s, Some ErrSecretChatRandomIDDuplicate)
      else if map_of s (sc_ID chat) \<noteq> None then (s, Some ErrSecretChatRandomIDDuplicate)
      else let chat' = (if sc_State chat = SecretChatStateNone
                        then chat\<lparr>sc_State := SecretChatStateRequested\<rparr> else chat)
           in (AList.update (sc_ID chat) chat' s, None))"

definition GetSecretChat :: "chat_store \<Rightarrow> int \<Rightarrow> secret_chat option" where
  "GetSecretChat s chatID = map_of s chatID"

definition AcceptSecretChat :: "chat_store \<Rightarrow> int \<Rightarrow> int \<Rightarrow> bytes \<Rightarrow> int \<Rightarrow>
    chat_store \<times> (secret_error + secret_chat)" where
  "AcceptSecretChat s chatID participantKey gb fingerprint =
     (case map_of s chatID of
        None \<Rightarrow> (s, Inl ErrSecretChatNotFound)
      | Some c \<Rightarrow>
          if sc_State c = SecretChatStateNormal then (s, Inl ErrSecretChatAlreadyAccepted)
          else if sc_State c = SecretChatStateDiscarded then (s, Inl ErrSecretChatAlreadyDeclined)
          else if sc_ParticipantAuthKeyID c \<noteq> 0 then (s, Inl ErrSecretChatAlreadyAccepted)
          else let c' = c\<lparr>sc_State := SecretChatStateNormal, sc_ParticipantAuthKeyID := participantKey,
                         sc_GB := gb, sc_KeyFingerprint := fingerprint\<rparr>
               in (AList.update chatID c' s, Inr c'))"

definition DiscardSecretChat :: "chat_store \<Rightarrow> int \<Rightarrow> bool \<Rightarrow>
    chat_store \<times> (secret_error + secret_chat \<times> bool)" where
  "DiscardSecretChat s chatID historyDeleted =
     (case map_of s chatID of
        None \<Rightarrow> (s, Inl ErrSecretChatNotFound)
      | Some c \<Rightarrow>
          if sc_State c = SecretChatStateDiscarded then (s, Inr (c, True))
          else let c' = c\<lparr>sc_State := SecretChatStateDiscarded, sc_HistoryDeleted := historyDeleted\<rparr>
               in (AList.update chatID c' s, Inr (c', False)))"

definition ListActiveSecretChatsByAuthKey :: "chat_store \<Rightarrow> int \<Rightarrow> secret_chat list" where
  "ListActiveSecretChatsByAuthKey s key =
     (if key = 0 then []
      else sort_key sc_ID (filter (\<lambda>c. \<not> SecretChat_Terminal c \<and>
             (sc_AdminAuthKeyID c = key \<or> sc_ParticipantAuthKeyID c = key)) (map snd s)))"

section \<open>The encrypted queue\<close>

record encrypted_file_ref =
  efr_ID :: int
  efr_AccessHash :: int
  efr_Size :: int
  efr_DCID :: int
  efr_KeyFingerprint :: int

record secret_message =
  sm_ReceiverAuthKeyID :: int
  sm_Qts :: int
  sm_ReceiverUserID :: int
  sm_ChatID :: int
  sm_RandomID :: int
  sm_Date :: int
  sm_IsService :: bool
  sm_Bytes :: bytes
  sm_File :: "encrypted_file_ref option"

datatype state_event_type = EncryptedStateEventZero | EncryptedStateEventEncryption
  | EncryptedStateEventRead

record encrypted_state_event =
  ese_ID :: int
  ese_TargetUserID :: int
  ese_TargetAuthKeyID :: int
  ese_ChatID :: int
  ese_Type :: state_event_type
  ese_MaxDate :: int
  ese_Date :: int

record queue_store =
  q_byDevice :: "int \<Rightarrow> secret_message list"
  q_reserved :: "int \<Rightarrow> int"
  q_confirmed :: "int \<Rightarrow> int"
  q_dedup :: "int \<times> int \<times> int \<rightharpoonup> int"
  q_stateEvents :: "encrypted_state_event list"
  q_delivered :: "int \<Rightarrow> int \<Rightarrow> bool"
  q_nextEventID :: int
  q_files :: "int \<rightharpoonup> encrypted_file_ref"

definition NewEncryptedQueueStore :: queue_store where
  "NewEncryptedQueueStore = \<lparr>q_byDevice = (\<lambda>_. []), q_reserved = (\<lambda>_. 0), q_confirmed = (\<lambda>_. 0),
     q_dedup = Map.empty, q_stateEvents = [], q_delivered = (\<lambda>_ _. False), q_nextEventID = 0,
     q_files = Map.empty\<rparr>"

definition AppendEncryptedMessage :: "queue_store \<Rightarrow> secret_message \<Rightarrow>
    queue_store \<times> secret_message \<times> bool" where
  "AppendEncryptedMessage q msg =
     (let dev = sm_ReceiverAuthKeyID msg;
          key = (dev, sm_ChatID msg, sm_RandomID msg);
          existing = (case q_dedup q key of
                        None \<Rightarrow> None
                      | Some qts \<Rightarrow> find (\<lambda>m. sm_Qts m = qts) (q_byDevice q dev))
      in case existing of
           Some m \<Rightarrow> (q, m, True)
         | None \<Rightarrow>
             (let n = q_reserved q dev + 1;
                  stored = msg\<lparr>sm_Qts := n\<rparr>
              in (q\<lparr>q_reserved := (q_reserved q)(dev := n),
                    q_byDevice := (q_byDevice q)(dev := q_byDevice q dev @ [stored]),
                    q_dedup := (q_dedup q)(key \<mapsto> n)\<rparr>, stored, False)))"

text \<open>Rows that satisfy a test, in stored order, until \<open>limit\<close> of them are found.\<close>

fun collect_until :: "nat \<Rightarrow> ('a \<Rightarrow> bool) \<Rightarrow> 'a list \<Rightarrow> 'a list \<Rightarrow> 'a list" where
  "collect_until limit keep out [] = out"
| "collect_until limit keep out (x # xs) =
     (if keep x
      then let out1 = out @ [x]
           in if length out1 \<ge> limit then out1 else collect_until limit keep out1 xs
      else collect_until limit keep out xs)"

definition ListEncryptedMessagesSince :: "queue_store \<Rightarrow> int \<Rightarrow> int \<Rightarrow> int \<Rightarrow> secret_message list" where
  "ListEncryptedMessagesSince q dev sinceQts limit =
     collect_until (nat (if limit \<le> 0 then 1000 else limit)) (\<lambda>m. sm_Qts m > sinceQts) []
       (q_byDevice q dev)"

definition ReservedQts :: "queue_store \<Rightarrow> int \<Rightarrow> int" where
  "ReservedQts q dev = q_reserved q dev"

definition AckEncryptedMessages :: "queue_store \<Rightarrow> int \<Rightarrow> int \<Rightarrow> queue_store" where
  "AckEncryptedMessages q dev maxQts =
     (if maxQts > q_confirmed q dev
      then q\<lparr>q_confirmed := (q_confirmed q)(dev := maxQts)\<rparr> else q)"

definition AppendStateEvent :: "queue_store \<Rightarrow> encrypted_state_event \<Rightarrow> queue_store \<times> int" where
  "AppendStateEvent q ev =
     (let n = q_nextEventID q + 1
      in (q\<lparr>q_nextEventID := n, q_stateEvents := q_stateEvents q @ [ev\<lparr>ese_ID := n\<rparr>]\<rparr>, n))"

definition ListUndeliveredStateEvents :: "queue_store \<Rightarrow> int \<Rightarrow> int \<Rightarrow> int \<Rightarrow>
    encrypted_state_event list" where
  "ListUndeliveredStateEvents q user dev limit =
     collect_until (nat (if limit \<le> 0 then 1000 else limit))
       (\<lambda>ev. ese_TargetUserID ev = user \<and>
             \<not> (ese_TargetAuthKeyID ev \<noteq> 0 \<and> ese_TargetAuthKeyID ev \<noteq> dev) \<and>
             \<not> q_delivered q (ese_ID ev) dev) [] (q_stateEvents q)"

fun store_MarkStateEventsDelivered :: "queue_store \<Rightarrow> int \<Rightarrow> int list \<Rightarrow> queue_store" where
  "store_MarkStateEventsDelivered q dev [] = q"
| "store_MarkStateEventsDelivered q dev (i # is) =
     store_MarkStateEventsDelivered
       (q\<lparr>q_delivered := (q_delivered q)(i := (q_delivered q i)(dev := True))\<rparr>) dev is"

definition store_PutEncryptedFile :: "queue_store \<Rightarrow> int \<Rightarrow> encrypted_file_ref \<Rightarrow> queue_store" where
  "store_PutEncryptedFile q owner ref = q\<lparr>q_files := (q_files q)(efr_ID ref \<mapsto> ref)\<rparr>"

definition store_GetEncryptedFile :: "queue_store \<Rightarrow> int \<Rightarrow> int \<Rightarrow> encrypted_file_ref option" where
  "store_GetEncryptedFile q i accessHash =
     (case q_files q i of
        None \<Rightarrow> None
      | Some ref \<Rightarrow> if efr_AccessHash ref \<noteq> accessHash then None else Some ref)"

section \<open>The service\<close>

record secret_service =
  ss_store :: chat_store
  ss_queue :: queue_store

record secret_request =
  sr_AdminUserID :: int
  sr_AdminAuthKeyID :: int
  sr_ParticipantUserID :: int
  sr_RandomID :: int
  sr_GA :: bytes
  sr_Date :: int

record secret_delivery =
  sd_RandomID :: int
  sd_Bytes :: bytes
  sd_IsService :: bool
  sd_File :: "encrypted_file_ref option"
  sd_Date :: int

text \<open>Eight bytes of \<open>crypto/rand\<close>, or its failure, become a positive \<open>int64\<close>.\<close>

definition randomAccessHash :: "64 word option \<Rightarrow> secret_error + int" where
  "randomAccessHash draw =
     (case draw of
        None \<Rightarrow> Inl ErrRandomRead
      | Some w \<Rightarrow> let v = uint (drop_bit 1 w) in Inr (if v = 0 then 1 else v))"

definition sameSecretChatRequest :: "secret_chat \<Rightarrow> secret_request \<Rightarrow> bytes \<Rightarrow> bool" where
  "sameSecretChatRequest chat req ga \<longleftrightarrow>
     sc_ID chat = sr_RandomID req \<and> sc_RandomID chat = sr_RandomID req \<and>
     sc_AdminUserID chat = sr_AdminUserID req \<and> sc_AdminAuthKeyID chat = sr_AdminAuthKeyID req \<and>
     sc_ParticipantUserID chat = sr_ParticipantUserID req \<and> sc_GA chat = ga"

definition new_secret_chat :: "secret_request \<Rightarrow> bytes \<Rightarrow> int \<Rightarrow> int \<Rightarrow> secret_chat" where
  "new_secret_chat req ga adminAH participantAH =
     \<lparr>sc_ID = sr_RandomID req, sc_AdminAccessHash = adminAH, sc_ParticipantAccessHash = participantAH,
      sc_AdminUserID = sr_AdminUserID req, sc_ParticipantUserID = sr_ParticipantUserID req,
      sc_AdminAuthKeyID = sr_AdminAuthKeyID req, sc_ParticipantAuthKeyID = 0,
      sc_State = SecretChatStateRequested, sc_GA = ga, sc_GB = [], sc_KeyFingerprint = 0,
      sc_Layer = 0, sc_FolderID = 0, sc_HistoryDeleted = False, sc_RandomID = sr_RandomID req,
      sc_Date = sr_Date req\<rparr>"

definition RequestEncryption :: "(chat_store \<Rightarrow> chat_store) \<Rightarrow> 64 word option \<times> 64 word option \<Rightarrow>
    secret_service \<Rightarrow> secret_request \<Rightarrow> secret_service \<times> (secret_error + secret_chat)" where
  "RequestEncryption race draws s req =
     (if sr_AdminUserID req = 0 \<or> sr_ParticipantUserID req = 0 \<or> sr_AdminAuthKeyID req = 0
      then (s, Inl ErrGAInvalid)
      else if sr_RandomID req = 0 then (s, Inl ErrSecretChatRandomIDDuplicate)
      else case validateDHParam (sr_GA req) of
        None \<Rightarrow> (s, Inl ErrGAInvalid)
      | Some ga \<Rightarrow>
          (case GetSecretChat (ss_store s) (sr_RandomID req) of
             Some existing \<Rightarrow>
               (if sameSecretChatRequest existing req ga \<and> \<not> SecretChat_Terminal existing
                then (s, Inr existing) else (s, Inl ErrSecretChatRandomIDDuplicate))
           | None \<Rightarrow>
               (case randomAccessHash (fst draws) of
                  Inl err \<Rightarrow> (s, Inl err)
                | Inr adminAH \<Rightarrow>
                    (case randomAccessHash (snd draws) of
                       Inl err \<Rightarrow> (s, Inl err)
                     | Inr participantAH \<Rightarrow>
                         (let chat = new_secret_chat req ga adminAH participantAH
                          in case CreateSecretChat (race (ss_store s)) chat of
                               (st, None) \<Rightarrow> (s\<lparr>ss_store := st\<rparr>, Inr chat)
                             | (st, Some err) \<Rightarrow>
                                 if err \<noteq> ErrSecretChatRandomIDDuplicate
                                 then (s\<lparr>ss_store := st\<rparr>, Inl err)
                                 else (s\<lparr>ss_store := st\<rparr>,
                                       case GetSecretChat st (sr_RandomID req) of
                                         Some existing \<Rightarrow>
                                           (if sameSecretChatRequest existing req ga \<and>
                                               \<not> SecretChat_Terminal existing
                                            then Inr existing else Inl ErrSecretChatRandomIDDuplicate)
                                       | None \<Rightarrow> Inl ErrSecretChatRandomIDDuplicate))))))"

definition AcceptEncryption :: "(chat_store \<Rightarrow> chat_store) \<Rightarrow> secret_service \<Rightarrow> int \<Rightarrow> int \<Rightarrow> int \<Rightarrow>
    int \<Rightarrow> bytes \<Rightarrow> int \<Rightarrow> secret_service \<times> (secret_error + secret_chat)" where
  "AcceptEncryption race s chatID viewer participantKey accessHash gb fingerprint =
     (case validateDHParam gb of
        None \<Rightarrow> (s, Inl ErrGAInvalid)
      | Some gbPadded \<Rightarrow>
          (case GetSecretChat (ss_store s) chatID of
             None \<Rightarrow> (s, Inl ErrSecretChatNotFound)
           | Some chat \<Rightarrow>
               if sc_ParticipantUserID chat \<noteq> viewer \<or> sc_ParticipantAccessHash chat \<noteq> accessHash
               then (s, Inl ErrSecretChatNotFound)
               else if sc_State chat = SecretChatStateNormal
               then (s, Inl ErrSecretChatAlreadyAccepted)
               else if sc_State chat = SecretChatStateDiscarded
               then (s, Inl ErrSecretChatAlreadyDeclined)
               else (case AcceptSecretChat (race (ss_store s)) chatID participantKey gbPadded
                            fingerprint of
                       (st, r) \<Rightarrow> (s\<lparr>ss_store := st\<rparr>, r))))"

definition DiscardEncryption :: "(chat_store \<Rightarrow> chat_store) \<Rightarrow> secret_service \<Rightarrow> int \<Rightarrow> int \<Rightarrow> int \<Rightarrow>
    bool \<Rightarrow> secret_service \<times> (secret_error + secret_chat \<times> bool)" where
  "DiscardEncryption race s chatID viewer viewerKey deleteHistory =
     (case GetSecretChat (ss_store s) chatID of
        None \<Rightarrow> (s, Inl ErrSecretChatNotFound)
      | Some chat \<Rightarrow>
          if \<not> SecretChat_HasParticipant chat viewer \<or> viewerKey = 0
          then (s, Inl ErrSecretChatNotFound)
          else let bound = SecretChat_AuthKeyOf chat viewer
               in if bound \<noteq> 0 \<and> bound \<noteq> viewerKey then (s, Inl ErrSecretChatNotFound)
                  else if bound = 0 \<and> viewer \<noteq> sc_ParticipantUserID chat
                  then (s, Inl ErrSecretChatNotFound)
                  else (case DiscardSecretChat (race (ss_store s)) chatID deleteHistory of
                          (st, r) \<Rightarrow> (s\<lparr>ss_store := st\<rparr>, r)))"

fun discard_all :: "chat_store \<Rightarrow> secret_chat list \<Rightarrow> secret_chat list \<Rightarrow>
    chat_store \<times> secret_chat list \<times> secret_error option" where
  "discard_all st discarded [] = (st, discarded, None)"
| "discard_all st discarded (c # cs) =
     (case DiscardSecretChat st (sc_ID c) False of
        (st', Inl err) \<Rightarrow>
          if err = ErrSecretChatNotFound then discard_all st' discarded cs
          else (st', discarded, Some err)
      | (st', Inr (updated, already)) \<Rightarrow>
          discard_all st' (if \<not> already then discarded @ [updated] else discarded) cs)"

definition DiscardForAuthKey :: "secret_service \<Rightarrow> int \<Rightarrow>
    secret_service \<times> secret_chat list \<times> secret_error option" where
  "DiscardForAuthKey s key =
     (if key = 0 then (s, [], None)
      else case discard_all (ss_store s) [] (ListActiveSecretChatsByAuthKey (ss_store s) key) of
             (st, discarded, err) \<Rightarrow> (s\<lparr>ss_store := st\<rparr>, discarded, err))"

definition SendEncrypted :: "(chat_store \<Rightarrow> chat_store) \<Rightarrow> secret_service \<Rightarrow> int \<Rightarrow> int \<Rightarrow> int \<Rightarrow> int \<Rightarrow>
    secret_delivery \<Rightarrow> secret_service \<times> (secret_error + secret_chat \<times> secret_message)" where
  "SendEncrypted race s chatID viewer viewerKey accessHash delivery =
     (case GetSecretChat (ss_store s) chatID of
        None \<Rightarrow> (s, Inl ErrSecretChatNotFound)
      | Some chat \<Rightarrow>
          if \<not> SecretChat_HasParticipant chat viewer \<or> viewerKey = 0 \<or>
             SecretChat_AuthKeyOf chat viewer \<noteq> viewerKey \<or>
             SecretChat_AccessHashFor chat viewer \<noteq> accessHash
          then (s, Inl ErrSecretChatNotFound)
          else if sc_State chat \<noteq> SecretChatStateNormal then (s, Inl ErrSecretChatNotFound)
          else let receiverUser = SecretChat_PeerOf chat viewer;
                   receiverKey = (if SecretChat_IsAdmin chat viewer then sc_ParticipantAuthKeyID chat
                                  else sc_AdminAuthKeyID chat)
               in if receiverUser = 0 \<or> receiverKey = 0 then (s, Inl ErrSecretChatNotFound)
                  else (case AppendEncryptedMessage (ss_queue s)
                          \<lparr>sm_ReceiverAuthKeyID = receiverKey, sm_Qts = 0,
                           sm_ReceiverUserID = receiverUser, sm_ChatID = chatID,
                           sm_RandomID = sd_RandomID delivery, sm_Date = sd_Date delivery,
                           sm_IsService = sd_IsService delivery, sm_Bytes = sd_Bytes delivery,
                           sm_File = sd_File delivery\<rparr> of
                          (q, stored, _) \<Rightarrow>
                            (s\<lparr>ss_store := race (ss_store s), ss_queue := q\<rparr>, Inr (chat, stored))))"

definition ListNewMessages :: "secret_service \<Rightarrow> int \<Rightarrow> int \<Rightarrow> int \<Rightarrow> secret_message list" where
  "ListNewMessages s dev sinceQts limit =
     (if dev = 0 then [] else ListEncryptedMessagesSince (ss_queue s) dev sinceQts limit)"

definition DeviceReservedQts :: "secret_service \<Rightarrow> int \<Rightarrow> int" where
  "DeviceReservedQts s dev = (if dev = 0 then 0 else ReservedQts (ss_queue s) dev)"

definition AckQueue :: "secret_service \<Rightarrow> int \<Rightarrow> int \<Rightarrow> secret_service" where
  "AckQueue s dev maxQts =
     (if dev = 0 \<or> maxQts \<le> 0 then s
      else s\<lparr>ss_queue := AckEncryptedMessages (ss_queue s) dev maxQts\<rparr>)"

definition RecordEncryptionEvent :: "secret_service \<Rightarrow> int \<Rightarrow> int \<Rightarrow> int \<Rightarrow> int \<Rightarrow> secret_service" where
  "RecordEncryptionEvent s chatID targetUser targetKey date =
     (if targetUser = 0 then s
      else s\<lparr>ss_queue := fst (AppendStateEvent (ss_queue s)
             \<lparr>ese_ID = 0, ese_TargetUserID = targetUser, ese_TargetAuthKeyID = targetKey,
              ese_ChatID = chatID, ese_Type = EncryptedStateEventEncryption, ese_MaxDate = 0,
              ese_Date = date\<rparr>)\<rparr>)"

definition RecordReadEvent :: "secret_service \<Rightarrow> int \<Rightarrow> int \<Rightarrow> int \<Rightarrow> int \<Rightarrow> int \<Rightarrow> secret_service" where
  "RecordReadEvent s chatID targetUser targetKey maxDate date =
     (if targetUser = 0 then s
      else s\<lparr>ss_queue := fst (AppendStateEvent (ss_queue s)
             \<lparr>ese_ID = 0, ese_TargetUserID = targetUser, ese_TargetAuthKeyID = targetKey,
              ese_ChatID = chatID, ese_Type = EncryptedStateEventRead, ese_MaxDate = maxDate,
              ese_Date = date\<rparr>)\<rparr>)"

definition ListStateEvents :: "secret_service \<Rightarrow> int \<Rightarrow> int \<Rightarrow> int \<Rightarrow> encrypted_state_event list" where
  "ListStateEvents s user dev limit =
     (if user = 0 \<or> dev = 0 then [] else ListUndeliveredStateEvents (ss_queue s) user dev limit)"

definition MarkStateEventsDelivered :: "secret_service \<Rightarrow> int \<Rightarrow> int list \<Rightarrow> secret_service" where
  "MarkStateEventsDelivered s dev eventIDs =
     (if dev = 0 \<or> length eventIDs = 0 then s
      else s\<lparr>ss_queue := store_MarkStateEventsDelivered (ss_queue s) dev eventIDs\<rparr>)"

definition PutEncryptedFile :: "secret_service \<Rightarrow> int \<Rightarrow> encrypted_file_ref \<Rightarrow> secret_service" where
  "PutEncryptedFile s owner ref =
     (if efr_ID ref = 0 then s
      else s\<lparr>ss_queue := store_PutEncryptedFile (ss_queue s) owner ref\<rparr>)"

definition GetEncryptedFile :: "secret_service \<Rightarrow> int \<Rightarrow> int \<Rightarrow> encrypted_file_ref option" where
  "GetEncryptedFile s i accessHash = store_GetEncryptedFile (ss_queue s) i accessHash"

section \<open>The handshake only moves forward\<close>

text \<open>
  The critical sections of the chat store, as the service uses them: every change of a chat is
  one of these steps, whatever the interleaving of the calls.
\<close>

inductive chat_step :: "chat_store \<Rightarrow> chat_store \<Rightarrow> bool" where
  create: "chat_step s (fst (CreateSecretChat s (new_secret_chat req ga h1 h2)))"
| accept: "chat_step s (fst (AcceptSecretChat s i k gb fp))"
| discard: "chat_step s (fst (DiscardSecretChat s i del))"

fun state_rank :: "secret_state \<Rightarrow> nat" where
  "state_rank SecretChatStateNone = 0"
| "state_rank SecretChatStateRequested = 1"
| "state_rank SecretChatStateNormal = 2"
| "state_rank SecretChatStateDiscarded = 3"

definition same_identity :: "secret_chat \<Rightarrow> secret_chat \<Rightarrow> bool" where
  "same_identity c c' \<longleftrightarrow> sc_ID c' = sc_ID c \<and> sc_AdminAccessHash c' = sc_AdminAccessHash c \<and>
     sc_ParticipantAccessHash c' = sc_ParticipantAccessHash c \<and> sc_AdminUserID c' = sc_AdminUserID c \<and>
     sc_ParticipantUserID c' = sc_ParticipantUserID c \<and> sc_AdminAuthKeyID c' = sc_AdminAuthKeyID c \<and>
     sc_GA c' = sc_GA c \<and> sc_RandomID c' = sc_RandomID c \<and> sc_Date c' = sc_Date c"

definition chat_advances :: "secret_chat \<Rightarrow> secret_chat \<Rightarrow> bool" where
  "chat_advances c c' \<longleftrightarrow> same_identity c c' \<and> state_rank (sc_State c) \<le> state_rank (sc_State c') \<and>
     (sc_State c = SecretChatStateNormal \<or> sc_State c = SecretChatStateDiscarded \<longrightarrow>
        sc_ParticipantAuthKeyID c' = sc_ParticipantAuthKeyID c \<and> sc_GB c' = sc_GB c \<and>
        sc_KeyFingerprint c' = sc_KeyFingerprint c) \<and>
     (sc_State c = SecretChatStateDiscarded \<longrightarrow> c' = c)"

definition chats_ok :: "chat_store \<Rightarrow> bool" where
  "chats_ok s \<longleftrightarrow> distinct (map fst s) \<and>
     (\<forall>i c. map_of s i = Some c \<longrightarrow> sc_ID c = i \<and> i \<noteq> 0 \<and> sc_State c \<noteq> SecretChatStateNone \<and>
        (sc_State c = SecretChatStateRequested \<longrightarrow> sc_ParticipantAuthKeyID c = 0))"

definition chat_le :: "chat_store \<Rightarrow> chat_store \<Rightarrow> bool" where
  "chat_le s s' \<longleftrightarrow> (\<forall>i c. map_of s i = Some c \<longrightarrow> (\<exists>c'. map_of s' i = Some c' \<and> chat_advances c c'))"

lemma chat_advances_refl [simp]: "chat_advances c c"
  by (simp add: chat_advances_def same_identity_def)

lemma state_rank_cases [simp]:
  "3 \<le> state_rank st \<longleftrightarrow> st = SecretChatStateDiscarded"
  "2 \<le> state_rank st \<longleftrightarrow>
     st = SecretChatStateNormal \<or> st = SecretChatStateDiscarded"
  "Suc 0 \<le> state_rank st \<longleftrightarrow> st \<noteq> SecretChatStateNone"
  by (cases st; simp)+

lemma chat_advances_trans: "chat_advances a b \<Longrightarrow> chat_advances b c \<Longrightarrow> chat_advances a c"
  unfolding chat_advances_def same_identity_def
  by (cases "sc_State a"; cases "sc_State b"; simp; auto)

lemma chat_le_refl: "chat_le s s"
  by (simp add: chat_le_def)

lemma chat_le_trans: "chat_le a b \<Longrightarrow> chat_le b c \<Longrightarrow> chat_le a c"
  unfolding chat_le_def using chat_advances_trans by meson

lemma chat_le_update:
  assumes "\<And>c. map_of s i = Some c \<Longrightarrow> chat_advances c c'"
  shows "chat_le s (AList.update i c' s)"
  using assms by (auto simp: chat_le_def update_conv')

lemma chats_ok_update:
  assumes "chats_ok s" "sc_ID c = i" "i \<noteq> 0" "sc_State c \<noteq> SecretChatStateNone"
    "sc_State c = SecretChatStateRequested \<Longrightarrow> sc_ParticipantAuthKeyID c = 0"
  shows "chats_ok (AList.update i c s)"
  using assms by (auto simp: chats_ok_def update_conv' distinct_update)

lemma chats_okD:
  assumes "chats_ok s" "map_of s i = Some c"
  shows "sc_ID c = i" "i \<noteq> 0" "sc_State c \<noteq> SecretChatStateNone"
    "sc_State c = SecretChatStateRequested \<Longrightarrow> sc_ParticipantAuthKeyID c = 0"
  using assms by (simp_all add: chats_ok_def)

lemma CreateSecretChat_cases:
  assumes "CreateSecretChat s (new_secret_chat req ga h1 h2) = (s', r)"
  obtains (duplicate) "r = Some ErrSecretChatRandomIDDuplicate" "s' = s"
      "sr_RandomID req = 0 \<or> map_of s (sr_RandomID req) \<noteq> None"
  | (created) "r = None" "sr_RandomID req \<noteq> 0" "map_of s (sr_RandomID req) = None"
      "s' = AList.update (sr_RandomID req) (new_secret_chat req ga h1 h2) s"
  using assms by (auto simp: CreateSecretChat_def new_secret_chat_def Let_def split: if_splits)

lemma AcceptSecretChat_cases:
  assumes "AcceptSecretChat s i k gb fp = (s', r)" "chats_ok s"
  obtains (refused) err where "r = Inl err" "s' = s"
      "map_of s i = None \<or> (\<exists>c. map_of s i = Some c \<and> sc_State c \<noteq> SecretChatStateRequested)"
  | (bound) c c' where "map_of s i = Some c" "sc_State c = SecretChatStateRequested"
      "c' = c\<lparr>sc_State := SecretChatStateNormal, sc_ParticipantAuthKeyID := k, sc_GB := gb,
              sc_KeyFingerprint := fp\<rparr>"
      "s' = AList.update i c' s" "r = Inr c'"
proof (cases "map_of s i")
  case None
  with assms(1) show thesis by (intro refused) (auto simp: AcceptSecretChat_def)
next
  case (Some c)
  show thesis
  proof (cases "sc_State c")
    case SecretChatStateNone
    with chats_okD [OF assms(2) Some] show thesis by simp
  next
    case SecretChatStateRequested
    with assms Some chats_okD(4) [OF assms(2) Some] show thesis
      by (intro bound) (auto simp: AcceptSecretChat_def Let_def)
  next
    case SecretChatStateNormal
    with assms Some show thesis by (intro refused) (auto simp: AcceptSecretChat_def)
  next
    case SecretChatStateDiscarded
    with assms Some show thesis by (intro refused) (auto simp: AcceptSecretChat_def)
  qed
qed

lemma DiscardSecretChat_cases:
  assumes "DiscardSecretChat s i del = (s', r)"
  obtains (missing) "r = Inl ErrSecretChatNotFound" "s' = s" "map_of s i = None"
  | (already) c where "map_of s i = Some c" "sc_State c = SecretChatStateDiscarded" "s' = s"
      "r = Inr (c, True)"
  | (discarded) c c' where "map_of s i = Some c" "sc_State c \<noteq> SecretChatStateDiscarded"
      "c' = c\<lparr>sc_State := SecretChatStateDiscarded, sc_HistoryDeleted := del\<rparr>"
      "s' = AList.update i c' s" "r = Inr (c', False)"
proof (cases "map_of s i")
  case None
  with assms show thesis by (intro missing) (auto simp: DiscardSecretChat_def)
next
  case (Some c)
  show thesis
  proof (cases "sc_State c = SecretChatStateDiscarded")
    case True
    with Some assms show thesis by (intro already) (auto simp: DiscardSecretChat_def)
  next
    case False
    with Some assms show thesis by (intro discarded) (auto simp: DiscardSecretChat_def Let_def)
  qed
qed

lemma state_rank_le_3: "state_rank st \<le> 3"
  by (cases st) simp_all

lemma chat_step_forward:
  assumes "chat_step s s'" "chats_ok s"
  shows "chats_ok s' \<and> chat_le s s'"
  using assms(1)
proof cases
  case (create req ga h1 h2)
  obtain t r where cr: "CreateSecretChat s (new_secret_chat req ga h1 h2) = (t, r)" by fastforce
  then show ?thesis
  proof (cases rule: CreateSecretChat_cases)
    case created
    have "chats_ok t" unfolding created(4)
      by (rule chats_ok_update) (use created assms(2) in \<open>auto simp: new_secret_chat_def\<close>)
    moreover have "chat_le s t" unfolding created(4)
      by (rule chat_le_update) (use created in simp)
    ultimately show ?thesis using create cr by simp
  qed (use create cr assms chat_le_refl in auto)
next
  case (accept i k gb fp)
  obtain t r where t: "AcceptSecretChat s i k gb fp = (t, r)" by fastforce
  then show ?thesis using assms(2)
  proof (cases rule: AcceptSecretChat_cases)
    case (bound c c')
    note ok = chats_okD [OF assms(2) bound(1)]
    have "chats_ok t" unfolding bound(4)
      by (rule chats_ok_update) (use bound ok assms(2) in auto)
    moreover have "chat_advances c c'" using bound(2,3)
      by (simp add: chat_advances_def same_identity_def)
    then have "chat_le s t" unfolding bound(4) by (intro chat_le_update) (use bound(1) in simp)
    ultimately show ?thesis using accept t by simp
  qed (use accept assms t chat_le_refl in auto)
next
  case (discard i del)
  obtain t r where t: "DiscardSecretChat s i del = (t, r)" by fastforce
  then show ?thesis
  proof (cases rule: DiscardSecretChat_cases)
    case (discarded c c')
    note ok = chats_okD [OF assms(2) discarded(1)]
    have "chats_ok t" unfolding discarded(4)
      by (rule chats_ok_update) (use discarded ok assms(2) in auto)
    moreover have "chat_advances c c'" using discarded(2,3) state_rank_le_3
      by (simp add: chat_advances_def same_identity_def)
    then have "chat_le s t" unfolding discarded(4)
      by (intro chat_le_update) (use discarded(1) in simp)
    ultimately show ?thesis using discard t by simp
  qed (use discard assms t chat_le_refl in auto)
qed

interpretation chats: monotone_system chat_step chats_ok chat_le
  by unfold_locales
    (auto intro: chat_le_refl chat_le_trans dest: chat_step_forward)

lemma chat_later:
  assumes "chat_step\<^sup>*\<^sup>* s s'" "chats_ok s" "map_of s i = Some c"
  obtains c' where "map_of s' i = Some c'" "chat_advances c c'"
  using chats.run_le [OF assms(1,2)] assms(3) by (auto simp: chat_le_def)

section \<open>Every service call is a run of store steps\<close>

abbreviation race_ok :: "(chat_store \<Rightarrow> chat_store) \<Rightarrow> secret_service \<Rightarrow> bool" where
  "race_ok race s \<equiv> chat_step\<^sup>*\<^sup>* (ss_store s) (race (ss_store s))"

lemma run_then: "chat_step\<^sup>*\<^sup>* a b \<Longrightarrow> chat_step b c \<Longrightarrow> chat_step\<^sup>*\<^sup>* a c"
  by (rule rtranclp.rtrancl_into_rtrancl)

lemma RequestEncryption_cases:
  assumes "RequestEncryption race draws s req = (s', r)"
  obtains (refused) err where "s' = s" "r = Inl err"
  | (replay) ga c where "s' = s" "r = Inr c" "GetSecretChat (ss_store s) (sr_RandomID req) = Some c"
      "validateDHParam (sr_GA req) = Some ga" "sameSecretChatRequest c req ga"
      "\<not> SecretChat_Terminal c"
  | (insert_chat) ga h1 h2 st e where "sr_RandomID req \<noteq> 0" "validateDHParam (sr_GA req) = Some ga"
      "CreateSecretChat (race (ss_store s)) (new_secret_chat req ga h1 h2) = (st, e)"
      "s' = s\<lparr>ss_store := st\<rparr>"
      "e = None \<Longrightarrow> r = Inr (new_secret_chat req ga h1 h2)"
      "e \<noteq> None \<Longrightarrow> (\<exists>err. r = Inl err) \<or> (\<exists>c. r = Inr c \<and>
         GetSecretChat st (sr_RandomID req) = Some c \<and> sameSecretChatRequest c req ga \<and>
         \<not> SecretChat_Terminal c)"
proof (cases "validateDHParam (sr_GA req)")
  case None
  with assms have "s' = s \<and> (\<exists>err. r = Inl err)"
    by (auto simp: RequestEncryption_def split: if_splits)
  then show thesis using refused by blast
next
  case (Some ga)
  note ga = this
  show thesis
  proof (cases "sr_AdminUserID req = 0 \<or> sr_ParticipantUserID req = 0 \<or> sr_AdminAuthKeyID req = 0 \<or>
      sr_RandomID req = 0")
    case True
    with assms have "s' = s \<and> (\<exists>err. r = Inl err)"
      by (auto simp: RequestEncryption_def split: if_splits)
    then show thesis using refused by blast
  next
    case False
    show thesis
    proof (cases "GetSecretChat (ss_store s) (sr_RandomID req)")
      case (Some c)
      with assms ga False show thesis
        using refused replay by (auto simp: RequestEncryption_def split: if_splits)
    next
      case None
      show thesis
      proof (cases "(\<exists>e. randomAccessHash (fst draws) = Inl e) \<or> (\<exists>e. randomAccessHash (snd draws) = Inl e)")
        case True
        with assms ga False None show thesis
          using refused by (auto simp: RequestEncryption_def split: sum.splits)
      next
        case drawn: False
        then obtain h1 h2 where h: "randomAccessHash (fst draws) = Inr h1"
          "randomAccessHash (snd draws) = Inr h2"
          by (metis Inl_Inr_False obj_sumE)
        obtain st e where cr: "CreateSecretChat (race (ss_store s)) (new_secret_chat req ga h1 h2) = (st, e)"
          by fastforce
        show thesis
          by (rule insert_chat [OF _ ga cr])
            (use assms ga False None h cr in
              \<open>auto simp: RequestEncryption_def Let_def split: option.splits if_splits\<close>)
      qed
    qed
  qed
qed

lemma AcceptEncryption_cases:
  assumes "AcceptEncryption race s i viewer k h gb fp = (s', r)"
  obtains (refused) err where "s' = s" "r = Inl err"
  | (tried) gb' c st where "validateDHParam gb = Some gb'" "GetSecretChat (ss_store s) i = Some c"
      "sc_ParticipantUserID c = viewer" "sc_ParticipantAccessHash c = h"
      "sc_State c \<noteq> SecretChatStateNormal" "sc_State c \<noteq> SecretChatStateDiscarded"
      "AcceptSecretChat (race (ss_store s)) i k gb' fp = (st, r)" "s' = s\<lparr>ss_store := st\<rparr>"
proof (cases "validateDHParam gb")
  case None
  with assms show thesis by (intro refused) (auto simp: AcceptEncryption_def)
next
  case (Some gb')
  note gb = this
  show thesis
  proof (cases "GetSecretChat (ss_store s) i")
    case None
    with assms gb show thesis by (intro refused) (auto simp: AcceptEncryption_def)
  next
    case (Some c)
    show thesis
    proof (cases "sc_ParticipantUserID c \<noteq> viewer \<or> sc_ParticipantAccessHash c \<noteq> h \<or>
        sc_State c = SecretChatStateNormal \<or> sc_State c = SecretChatStateDiscarded")
      case True
      with assms gb Some have "s' = s \<and> (\<exists>err. r = Inl err)"
        by (auto simp: AcceptEncryption_def split: if_splits)
      then show thesis using refused by blast
    next
      case False
      obtain st e where "AcceptSecretChat (race (ss_store s)) i k gb' fp = (st, e)" by fastforce
      with assms gb Some False show thesis
        by (intro tried [of gb' c st]) (auto simp: AcceptEncryption_def)
    qed
  qed
qed

lemma DiscardEncryption_cases:
  assumes "DiscardEncryption race s i viewer k del = (s', r)"
  obtains (refused) "s' = s" "r = Inl ErrSecretChatNotFound"
  | (tried) c st where "GetSecretChat (ss_store s) i = Some c" "SecretChat_HasParticipant c viewer"
      "SecretChat_AuthKeyOf c viewer = k \<or>
         SecretChat_AuthKeyOf c viewer = 0 \<and> viewer = sc_ParticipantUserID c" "k \<noteq> 0"
      "DiscardSecretChat (race (ss_store s)) i del = (st, r)" "s' = s\<lparr>ss_store := st\<rparr>"
proof (cases "GetSecretChat (ss_store s) i")
  case None
  with assms show thesis by (intro refused) (auto simp: DiscardEncryption_def)
next
  case (Some c)
  let ?bound = "SecretChat_AuthKeyOf c viewer"
  show thesis
  proof (cases "\<not> SecretChat_HasParticipant c viewer \<or> k = 0 \<or> (?bound \<noteq> 0 \<and> ?bound \<noteq> k) \<or>
      (?bound = 0 \<and> viewer \<noteq> sc_ParticipantUserID c)")
    case True
    with assms Some show thesis
      by (intro refused) (auto simp: DiscardEncryption_def Let_def split: if_splits)
  next
    case False
    obtain st e where "DiscardSecretChat (race (ss_store s)) i del = (st, e)" by fastforce
    with assms Some False show thesis
      by (intro tried [of c st]) (auto simp: DiscardEncryption_def Let_def)
  qed
qed

text \<open>What a sender's delivery becomes for the device of the peer.\<close>

abbreviation envelope :: "secret_chat \<Rightarrow> int \<Rightarrow> int \<Rightarrow> secret_delivery \<Rightarrow> secret_message" where
  "envelope c viewer i d \<equiv>
     \<lparr>sm_ReceiverAuthKeyID = SecretChat_PeerAuthKeyOf c viewer, sm_Qts = 0,
      sm_ReceiverUserID = SecretChat_PeerOf c viewer, sm_ChatID = i, sm_RandomID = sd_RandomID d,
      sm_Date = sd_Date d, sm_IsService = sd_IsService d, sm_Bytes = sd_Bytes d, sm_File = sd_File d\<rparr>"

lemma SendEncrypted_cases:
  assumes "SendEncrypted race s i viewer k h d = (s', r)"
  obtains (refused) "s' = s" "r = Inl ErrSecretChatNotFound"
  | (sent) c q m dup where "GetSecretChat (ss_store s) i = Some c" "SecretChat_HasParticipant c viewer"
      "k \<noteq> 0" "SecretChat_AuthKeyOf c viewer = k" "SecretChat_AccessHashFor c viewer = h"
      "sc_State c = SecretChatStateNormal"
      "SecretChat_PeerOf c viewer \<noteq> 0" "SecretChat_PeerAuthKeyOf c viewer \<noteq> 0"
      "AppendEncryptedMessage (ss_queue s) (envelope c viewer i d) = (q, m, dup)"
      "s' = s\<lparr>ss_store := race (ss_store s), ss_queue := q\<rparr>" "r = Inr (c, m)"
proof (cases "GetSecretChat (ss_store s) i")
  case None
  with assms show thesis by (intro refused) (auto simp: SendEncrypted_def)
next
  case (Some c)
  have key: "SecretChat_HasParticipant c viewer \<Longrightarrow>
      (if SecretChat_IsAdmin c viewer then sc_ParticipantAuthKeyID c else sc_AdminAuthKeyID c)
      = SecretChat_PeerAuthKeyOf c viewer"
    by (auto simp: SecretChat_HasParticipant_def SecretChat_IsAdmin_def SecretChat_PeerAuthKeyOf_def)
  show thesis
  proof (cases "\<not> SecretChat_HasParticipant c viewer \<or> k = 0 \<or> SecretChat_AuthKeyOf c viewer \<noteq> k \<or>
      SecretChat_AccessHashFor c viewer \<noteq> h \<or> sc_State c \<noteq> SecretChatStateNormal \<or>
      SecretChat_PeerOf c viewer = 0 \<or> SecretChat_PeerAuthKeyOf c viewer = 0")
    case True
    with assms Some key show thesis
      by (intro refused) (auto simp: SendEncrypted_def Let_def split: if_splits)
  next
    case False
    obtain q m dup where "AppendEncryptedMessage (ss_queue s) (envelope c viewer i d) = (q, m, dup)"
      by (cases "AppendEncryptedMessage (ss_queue s) (envelope c viewer i d)")
    with False assms Some key show thesis
      by (intro sent [of c q m dup]) (auto simp: SendEncrypted_def Let_def)
  qed
qed

lemma RequestEncryption_run:
  assumes "RequestEncryption race draws s req = (s', r)" "race_ok race s"
  shows "chat_step\<^sup>*\<^sup>* (ss_store s) (ss_store s')"
  using assms(1)
proof (cases rule: RequestEncryption_cases)
  case (insert_chat ga h1 h2 st e)
  have "chat_step (race (ss_store s)) st"
    using chat_step.create [of "race (ss_store s)" req ga h1 h2] insert_chat(3) by simp
  then show ?thesis using run_then [OF assms(2)] insert_chat(4) by simp
qed simp_all

lemma AcceptEncryption_run:
  assumes "AcceptEncryption race s i viewer k h gb fp = (s', r)" "race_ok race s"
  shows "chat_step\<^sup>*\<^sup>* (ss_store s) (ss_store s')"
  using assms(1)
proof (cases rule: AcceptEncryption_cases)
  case (tried gb' c st)
  have "chat_step (race (ss_store s)) st"
    using chat_step.accept [of "race (ss_store s)" i k gb' fp] tried(7) by simp
  then show ?thesis using run_then [OF assms(2)] tried(8) by simp
qed simp

lemma DiscardEncryption_run:
  assumes "DiscardEncryption race s i viewer k del = (s', r)" "race_ok race s"
  shows "chat_step\<^sup>*\<^sup>* (ss_store s) (ss_store s')"
  using assms(1)
proof (cases rule: DiscardEncryption_cases)
  case (tried c st)
  have "chat_step (race (ss_store s)) st"
    using chat_step.discard [of "race (ss_store s)" i del] tried(5) by simp
  then show ?thesis using run_then [OF assms(2)] tried(6) by simp
qed simp

lemma SendEncrypted_run:
  assumes "SendEncrypted race s i viewer k h d = (s', r)" "race_ok race s"
  shows "chat_step\<^sup>*\<^sup>* (ss_store s) (ss_store s')"
  using assms(1) by (cases rule: SendEncrypted_cases) (use assms(2) in auto)

lemma discard_all_run:
  "discard_all st acc cs = (st', out, err) \<Longrightarrow> chat_step\<^sup>*\<^sup>* st st' \<and> err = None"
proof (induction cs arbitrary: st acc)
  case (Cons c cs)
  obtain t r where t: "DiscardSecretChat st (sc_ID c) False = (t, r)" by fastforce
  have step: "chat_step st t" using chat_step.discard [of st "sc_ID c" False] t by simp
  from t have "\<exists>acc'. discard_all t acc' cs = (st', out, err)"
    by (cases rule: DiscardSecretChat_cases) (use Cons.prems t in auto)
  with Cons.IH step show ?case by (meson converse_rtranclp_into_rtranclp)
qed simp

lemma DiscardForAuthKey_run:
  assumes "DiscardForAuthKey s k = (s', cs, err)"
  shows "chat_step\<^sup>*\<^sup>* (ss_store s) (ss_store s') \<and> err = None"
  using assms discard_all_run
  by (auto simp: DiscardForAuthKey_def split: if_splits prod.splits)

section \<open>The queue delivers in order and once\<close>

inductive queue_step :: "queue_store \<Rightarrow> queue_store \<Rightarrow> bool" where
  message: "queue_step q (fst (AppendEncryptedMessage q m))"
| ack: "queue_step q (AckEncryptedMessages q dev n)"
| state_event: "queue_step q (fst (AppendStateEvent q ev))"
| mark: "queue_step q (store_MarkStateEventsDelivered q dev ids)"
| put_file: "queue_step q (store_PutEncryptedFile q owner ref)"

abbreviation send_key :: "secret_message \<Rightarrow> int \<times> int" where
  "send_key m \<equiv> (sm_ChatID m, sm_RandomID m)"

text \<open>
  Each device's messages are numbered 1, 2, 3 and so on up to its reserved counter, no two of
  them have the same chat and random id, and the index finds each by its key. State events are
  numbered in the same way.
\<close>

definition device_ok :: "queue_store \<Rightarrow> int \<Rightarrow> bool" where
  "device_ok q dev \<longleftrightarrow> 0 \<le> q_reserved q dev \<and> map sm_Qts (q_byDevice q dev) = [1..q_reserved q dev] \<and>
     (\<forall>m\<in>set (q_byDevice q dev). sm_ReceiverAuthKeyID m = dev) \<and>
     (\<forall>ch r n. q_dedup q (dev, ch, r) = Some n \<longleftrightarrow>
        (\<exists>m\<in>set (q_byDevice q dev). send_key m = (ch, r) \<and> sm_Qts m = n))"

definition queue_ok :: "queue_store \<Rightarrow> bool" where
  "queue_ok q \<longleftrightarrow> (\<forall>dev. device_ok q dev) \<and> 0 \<le> q_nextEventID q \<and>
     map ese_ID (q_stateEvents q) = [1..q_nextEventID q]"

definition queue_le :: "queue_store \<Rightarrow> queue_store \<Rightarrow> bool" where
  "queue_le q q' \<longleftrightarrow> (\<forall>dev. \<exists>zs. q_byDevice q' dev = q_byDevice q dev @ zs) \<and>
     (\<forall>dev. q_confirmed q dev \<le> q_confirmed q' dev) \<and>
     (\<exists>es. q_stateEvents q' = q_stateEvents q @ es) \<and>
     (\<forall>i dev. q_delivered q i dev \<longrightarrow> q_delivered q' i dev)"

lemma queue_ok_New: "queue_ok NewEncryptedQueueStore"
  by (simp add: queue_ok_def device_ok_def NewEncryptedQueueStore_def)

lemma upto_Suc: "0 \<le> n \<Longrightarrow> [1..n + 1] = [1..n] @ [n + 1 :: int]"
  by (simp add: upto_rec2)

lemma qts_inj:
  assumes "device_ok q dev" "m \<in> set (q_byDevice q dev)" "m' \<in> set (q_byDevice q dev)"
    "sm_Qts m = sm_Qts m'"
  shows "m = m'"
proof -
  have "distinct (map sm_Qts (q_byDevice q dev))" using assms(1) by (simp add: device_ok_def)
  then show ?thesis using assms(2-) by (auto simp: distinct_map dest: inj_onD)
qed

lemma find_qts:
  assumes "device_ok q dev" "m \<in> set (q_byDevice q dev)"
  shows "find (\<lambda>x. sm_Qts x = sm_Qts m) (q_byDevice q dev) = Some m"
proof (cases "find (\<lambda>x. sm_Qts x = sm_Qts m) (q_byDevice q dev)")
  case None
  then show ?thesis using assms(2) by (auto simp: find_None)
next
  case (Some x)
  then show ?thesis using find_SomeD [OF Some] qts_inj [OF assms(1) _ assms(2)] by auto
qed

lemma AppendEncryptedMessage_cases:
  assumes "AppendEncryptedMessage q msg = (q', m, dup)"
    and "\<forall>dev. device_ok q dev" and "dev = sm_ReceiverAuthKeyID msg"
  obtains (duplicate) "dup" "q' = q" "m \<in> set (q_byDevice q dev)" "send_key m = send_key msg"
  | (fresh) "\<not> dup" "m = msg\<lparr>sm_Qts := q_reserved q dev + 1\<rparr>"
      "\<forall>x\<in>set (q_byDevice q dev). send_key x \<noteq> send_key msg"
      "q' = q\<lparr>q_reserved := (q_reserved q)(dev := q_reserved q dev + 1),
             q_byDevice := (q_byDevice q)(dev := q_byDevice q dev @ [m]),
             q_dedup := (q_dedup q)((dev, send_key m) \<mapsto> q_reserved q dev + 1)\<rparr>"
proof (cases "q_dedup q (dev, send_key msg)")
  case None
  have "\<forall>x\<in>set (q_byDevice q dev). send_key x \<noteq> send_key msg"
  proof (rule ballI, rule notI)
    fix x assume "x \<in> set (q_byDevice q dev)" "send_key x = send_key msg"
    then have "q_dedup q (dev, send_key msg) = Some (sm_Qts x)"
      using assms(2) unfolding device_ok_def by blast
    with None show False by simp
  qed
  with None assms show thesis
    by (intro fresh) (auto simp: AppendEncryptedMessage_def Let_def)
next
  case (Some n)
  then obtain x where x: "x \<in> set (q_byDevice q dev)" "send_key x = send_key msg" "sm_Qts x = n"
    using assms(2) unfolding device_ok_def by blast
  from find_qts [OF _ x(1)] assms(2) x(3)
  have "find (\<lambda>m. sm_Qts m = n) (q_byDevice q dev) = Some x" by simp
  with Some assms x show thesis
    by (intro duplicate) (auto simp: AppendEncryptedMessage_def Let_def)
qed

lemma device_ok_fresh:
  assumes "device_ok q d" "d = dev \<Longrightarrow> \<forall>x\<in>set (q_byDevice q dev). send_key x \<noteq> send_key m"
    "sm_Qts m = q_reserved q dev + 1" "sm_ReceiverAuthKeyID m = dev"
    "q' = q\<lparr>q_reserved := (q_reserved q)(dev := q_reserved q dev + 1),
             q_byDevice := (q_byDevice q)(dev := q_byDevice q dev @ [m]),
             q_dedup := (q_dedup q)((dev, send_key m) \<mapsto> q_reserved q dev + 1)\<rparr>"
  shows "device_ok q' d"
proof (cases "d = dev")
  case False
  with assms show ?thesis by (auto simp: device_ok_def)
next
  case True
  have "q_dedup q' (dev, ch, r) = Some n \<longleftrightarrow>
      (\<exists>x\<in>set (q_byDevice q' dev). send_key x = (ch, r) \<and> sm_Qts x = n)" for ch r n
    using assms True by (cases "(ch, r) = send_key m") (auto simp: device_ok_def)
  then show ?thesis using assms True by (auto simp: device_ok_def upto_Suc)
qed

lemma mark_delivered:
  "q_delivered (store_MarkStateEventsDelivered q dev ids) i d \<longleftrightarrow>
     q_delivered q i d \<or> d = dev \<and> i \<in> set ids"
  by (induction q dev ids rule: store_MarkStateEventsDelivered.induct) auto

lemma mark_frame:
  "q_byDevice (store_MarkStateEventsDelivered q dev ids) = q_byDevice q"
  "q_reserved (store_MarkStateEventsDelivered q dev ids) = q_reserved q"
  "q_confirmed (store_MarkStateEventsDelivered q dev ids) = q_confirmed q"
  "q_dedup (store_MarkStateEventsDelivered q dev ids) = q_dedup q"
  "q_stateEvents (store_MarkStateEventsDelivered q dev ids) = q_stateEvents q"
  "q_nextEventID (store_MarkStateEventsDelivered q dev ids) = q_nextEventID q"
  by (induction q dev ids rule: store_MarkStateEventsDelivered.induct) auto

lemma queue_step_forward:
  assumes "queue_step q q'" "queue_ok q"
  shows "queue_ok q' \<and> queue_le q q'"
  using assms(1)
proof cases
  case (message msg)
  have ok: "\<forall>dev. device_ok q dev" using assms(2) by (simp add: queue_ok_def)
  obtain t m dup where t: "AppendEncryptedMessage q msg = (t, m, dup)"
    by (cases "AppendEncryptedMessage q msg")
  from t ok refl show ?thesis
  proof (cases rule: AppendEncryptedMessage_cases)
    case duplicate
    then show ?thesis using message t assms(2) by (simp add: queue_le_def)
  next
    case fresh
    have "device_ok t d" for d
      by (rule device_ok_fresh [OF _ _ _ _ fresh(4)])
        (use ok fresh in auto)
    then show ?thesis
      using message t fresh(4) assms(2) by (auto simp: queue_ok_def queue_le_def)
  qed
next
  case (ack dev n)
  with assms(2) show ?thesis
    by (auto simp: AckEncryptedMessages_def queue_ok_def queue_le_def device_ok_def)
next
  case (state_event ev)
  with assms(2) show ?thesis
    by (auto simp: AppendStateEvent_def Let_def queue_ok_def queue_le_def device_ok_def upto_Suc)
next
  case (mark dev ids)
  with assms(2) show ?thesis
    by (auto simp: queue_ok_def queue_le_def device_ok_def mark_frame mark_delivered)
next
  case (put_file owner ref)
  with assms(2) show ?thesis
    by (auto simp: store_PutEncryptedFile_def queue_ok_def queue_le_def device_ok_def)
qed

lemma queue_le_trans: "queue_le a b \<Longrightarrow> queue_le b c \<Longrightarrow> queue_le a c"
  unfolding queue_le_def by (metis append.assoc order.trans)

interpretation queue: monotone_system queue_step queue_ok queue_le
  by unfold_locales (auto simp: queue_le_def [of s s for s] intro: queue_le_trans
      dest: queue_step_forward)

text \<open>Reading: the rows after a number, in order, up to the limit.\<close>

lemma collect_until_eq:
  "0 < limit \<Longrightarrow> length out < limit \<Longrightarrow>
   collect_until limit keep out xs = take limit (out @ filter keep xs)"
proof (induction xs arbitrary: out)
  case (Cons x xs)
  show ?case
  proof (cases "keep x \<and> limit \<le> Suc (length out)")
    case True
    with Cons.prems have "limit = Suc (length out)" by simp
    with True show ?thesis by (simp add: Let_def)
  next
    case False
    with Cons show ?thesis by (auto simp: Let_def take_Cons')
  qed
qed simp

lemma filter_qts:
  assumes "device_ok q dev" "0 \<le> since"
  shows "filter (\<lambda>m. since < sm_Qts m) (q_byDevice q dev) = drop (nat since) (q_byDevice q dev)"
proof -
  have "map sm_Qts ms = [k + 1..k + int (length ms)] \<Longrightarrow> k \<le> since \<Longrightarrow>
      filter (\<lambda>m. since < sm_Qts m) ms = drop (nat (since - k)) ms" for ms k
  proof (induction ms arbitrary: k)
    case (Cons a ms)
    have split: "[k + 1..k + int (length (a # ms))] = (k + 1) # [k + 1 + 1..k + 1 + int (length ms)]"
      by (simp add: upto_rec1 algebra_simps)
    from Cons.prems(1) split have a: "sm_Qts a = k + 1"
      and ms: "map sm_Qts ms = [k + 1 + 1..k + 1 + int (length ms)]" by auto
    show ?case
    proof (cases "since = k")
      case True
      have "\<forall>m\<in>set ms. since < sm_Qts m"
      proof
        fix m assume "m \<in> set ms"
        then have "sm_Qts m \<in> set (map sm_Qts ms)" by simp
        then show "since < sm_Qts m" unfolding ms using True by simp
      qed
      then show ?thesis using a True by (simp add: filter_id_conv)
    next
      case False
      then have "k + 1 \<le> since" using Cons.prems(2) by simp
      moreover from this have "nat (since - k) = Suc (nat (since - (k + 1)))" by linarith
      ultimately show ?thesis using Cons.IH [OF ms] a by simp
    qed
  qed simp
  moreover have "map sm_Qts (q_byDevice q dev) = [0 + 1..0 + int (length (q_byDevice q dev))]"
  proof -
    have "map sm_Qts (q_byDevice q dev) = [1..q_reserved q dev]" "0 \<le> q_reserved q dev"
      using assms(1) by (auto simp: device_ok_def)
    moreover from this(1) have "length (q_byDevice q dev) = nat (q_reserved q dev)"
      by (metis length_map length_upto diff_add_cancel add.commute)
    ultimately show ?thesis by simp
  qed
  ultimately show ?thesis using assms(2) by fastforce
qed

section \<open>Properties\<close>

text \<open>
  A chat never moves back and its binding never changes: along any interleaving of the
  store's operations a chat stays in the store with its ids, users, access hashes, initiating
  device and \<open>g_a\<close>, its state only advances from requested over normal to discarded, and once it
  was accepted or discarded the accepting device, \<open>g_b\<close> and the key fingerprint stay what they are.
\<close>

theorem secret_handshake_forward:
  assumes "chats_ok s" and "chat_step\<^sup>*\<^sup>* s s'" and "GetSecretChat s i = Some c"
  shows "\<exists>c'. GetSecretChat s' i = Some c' \<and> same_identity c c' \<and>
           state_rank (sc_State c) \<le> state_rank (sc_State c') \<and>
           (sc_State c \<noteq> SecretChatStateRequested \<longrightarrow>
              sc_ParticipantAuthKeyID c' = sc_ParticipantAuthKeyID c \<and> sc_GB c' = sc_GB c \<and>
              sc_KeyFingerprint c' = sc_KeyFingerprint c)"
proof -
  have c: "map_of s i = Some c" using assms(3) by (simp add: GetSecretChat_def)
  obtain c' where "map_of s' i = Some c'" "chat_advances c c'"
    by (rule chat_later [OF assms(2,1) c])
  with chats_okD(3) [OF assms(1) c] show ?thesis
    by (cases "sc_State c") (auto simp: GetSecretChat_def chat_advances_def)
qed

lemma accepted_then:
  assumes "AcceptEncryption race s i viewer k h gb fp = (s1, Inr c)" "chats_ok (ss_store s)"
    "race_ok race s"
  shows "chats_ok (ss_store s1)" and "map_of (ss_store s1) i = Some c"
    and "sc_State c = SecretChatStateNormal" and "sc_ParticipantAuthKeyID c = k"
    and "sc_ParticipantUserID c = viewer" and "sc_ParticipantAccessHash c = h"
    and "validateDHParam gb = Some (sc_GB c)" and "sc_KeyFingerprint c = fp"
proof -
  show "chats_ok (ss_store s1)"
    using chats.run_inv [OF AcceptEncryption_run [OF assms(1,3)] assms(2)] .
  from assms(1) obtain gb' c0 st where t: "validateDHParam gb = Some gb'"
    "map_of (ss_store s) i = Some c0" "sc_ParticipantUserID c0 = viewer"
    "sc_ParticipantAccessHash c0 = h"
    "AcceptSecretChat (race (ss_store s)) i k gb' fp = (st, Inr c)" "s1 = s\<lparr>ss_store := st\<rparr>"
    by (cases rule: AcceptEncryption_cases) (auto simp: GetSecretChat_def)
  obtain c1 where c1: "map_of (race (ss_store s)) i = Some c1" "chat_advances c0 c1"
    by (rule chat_later [OF assms(3,2) t(2)])
  from t(5) chats.run_inv [OF assms(3,2)] show "map_of (ss_store s1) i = Some c"
    "sc_State c = SecretChatStateNormal" "sc_ParticipantAuthKeyID c = k"
    "sc_ParticipantUserID c = viewer" "sc_ParticipantAccessHash c = h"
    "validateDHParam gb = Some (sc_GB c)" "sc_KeyFingerprint c = fp"
    by (cases rule: AcceptSecretChat_cases;
        use t c1 in \<open>auto simp: update_conv' chat_advances_def same_identity_def\<close>)+
qed

lemma accept_refused:
  assumes "map_of (ss_store s) i = Some c"
    "sc_State c = SecretChatStateNormal \<or> sc_State c = SecretChatStateDiscarded"
  shows "\<exists>err. AcceptEncryption race s i viewer k h gb fp = (s, Inl err)"
  using assms by (auto simp: AcceptEncryption_def GetSecretChat_def split: option.split)

text \<open>
  C12. A chat is accepted at most once, whoever races: after one successful
  \<open>AcceptEncryption\<close> the chat is bound to that device, and in every later state each further
  accept of the chat fails and leaves the binding as it is.
\<close>

theorem secret_accept_once:
  assumes "chats_ok (ss_store s)" and "race_ok race s"
    and "AcceptEncryption race s i viewer k h gb fp = (s1, Inr c)"
    and "chat_step\<^sup>*\<^sup>* (ss_store s1) (ss_store s2)"
  shows "(\<exists>err. AcceptEncryption race' s2 i viewer' k' h' gb' fp' = (s2, Inl err)) \<and>
         (\<exists>c2. GetSecretChat (ss_store s2) i = Some c2 \<and> sc_ParticipantUserID c2 = viewer \<and>
            sc_ParticipantAuthKeyID c2 = k \<and> sc_KeyFingerprint c2 = fp \<and>
            validateDHParam gb = Some (sc_GB c2))"
proof -
  note acc = accepted_then [OF assms(3,1,2)]
  obtain c2 where c2: "map_of (ss_store s2) i = Some c2" "chat_advances c c2"
    by (rule chat_later [OF assms(4) acc(1,2)])
  have "sc_State c2 = SecretChatStateNormal \<or> sc_State c2 = SecretChatStateDiscarded"
    using c2(2) acc(3) by (auto simp: chat_advances_def)
  with accept_refused [OF c2(1)] c2 acc show ?thesis
    by (auto simp: GetSecretChat_def chat_advances_def same_identity_def)
qed

text \<open>
  Discarding is final: once a chat was discarded, in every later state sending on it fails
  and queues nothing, accepting it fails, requesting its id again fails, and discarding it again
  returns the same chat and reports that it was discarded already.
\<close>

theorem secret_discard_final:
  assumes "chats_ok (ss_store s)" and "race_ok race s"
    and "DiscardEncryption race s i viewer k del = (s1, Inr (c, already))"
    and "chat_step\<^sup>*\<^sup>* (ss_store s1) (ss_store s2)"
  shows "SendEncrypted race' s2 i viewer' k' h' d = (s2, Inl ErrSecretChatNotFound) \<and>
         (\<exists>err. AcceptEncryption race' s2 i viewer' k' h' gb fp = (s2, Inl err)) \<and>
         (sr_RandomID req = i \<longrightarrow> (\<exists>err. RequestEncryption race' draws s2 req = (s2, Inl err))) \<and>
         DiscardSecretChat (ss_store s2) i del' = (ss_store s2, Inr (c, True))"
proof -
  have inv1: "chats_ok (ss_store s1)"
    using chats.run_inv [OF DiscardEncryption_run [OF assms(3,2)] assms(1)] .
  from assms(3) obtain st where d: "DiscardSecretChat (race (ss_store s)) i del = (st, Inr (c, already))"
    "s1 = s\<lparr>ss_store := st\<rparr>"
    by (cases rule: DiscardEncryption_cases) auto
  from d have c: "map_of (ss_store s1) i = Some c" "sc_State c = SecretChatStateDiscarded"
    by (cases rule: DiscardSecretChat_cases; auto simp: update_conv')+
  obtain c2 where "map_of (ss_store s2) i = Some c2" "chat_advances c c2"
    by (rule chat_later [OF assms(4) inv1 c(1)])
  with c have c2: "map_of (ss_store s2) i = Some c" by (simp add: chat_advances_def)
  have "SendEncrypted race' s2 i viewer' k' h' d = (s2, Inl ErrSecretChatNotFound)"
    using c2 c(2) by (auto simp: SendEncrypted_def GetSecretChat_def)
  moreover have "\<exists>err. AcceptEncryption race' s2 i viewer' k' h' gb fp = (s2, Inl err)"
    by (rule accept_refused [OF c2]) (use c in simp)
  moreover have "sr_RandomID req = i \<longrightarrow> (\<exists>err. RequestEncryption race' draws s2 req = (s2, Inl err))"
    using c2 c(2)
    by (auto simp: RequestEncryption_def GetSecretChat_def SecretChat_Terminal_def split: option.split)
  moreover have "DiscardSecretChat (ss_store s2) i del' = (ss_store s2, Inr (c, True))"
    using c2 c(2) by (simp add: DiscardSecretChat_def)
  ultimately show ?thesis by blast
qed

text \<open>
  Only the bound device of a participant of an established chat can send, and only to the
  bound device of the other participant: a successful send comes from the device the chat
  records for the sender, with the sender's access hash, and the message it returns is in the
  queue of the device the chat records for the peer.
\<close>

theorem secret_send_bound:
  assumes "queue_ok (ss_queue s)"
    and "SendEncrypted race s i viewer k h d = (s', Inr (c, m))"
  shows "GetSecretChat (ss_store s) i = Some c \<and> sc_State c = SecretChatStateNormal \<and>
         SecretChat_HasParticipant c viewer \<and> k \<noteq> 0 \<and> SecretChat_AuthKeyOf c viewer = k \<and>
         SecretChat_AccessHashFor c viewer = h \<and> SecretChat_PeerOf c viewer \<noteq> 0 \<and>
         sm_ReceiverAuthKeyID m = SecretChat_PeerAuthKeyOf c viewer \<and>
         sm_ReceiverAuthKeyID m \<noteq> 0 \<and> sm_ChatID m = i \<and> sm_RandomID m = sd_RandomID d \<and>
         m \<in> set (q_byDevice (ss_queue s') (sm_ReceiverAuthKeyID m))"
  using assms(2)
proof (cases rule: SendEncrypted_cases)
  case (sent c' q m' dup)
  have ok: "\<forall>dev. device_ok (ss_queue s) dev" using assms(1) by (simp add: queue_ok_def)
  from sent(9) ok refl show ?thesis
  proof (cases rule: AppendEncryptedMessage_cases)
    case duplicate
    then have "sm_ReceiverAuthKeyID m' = SecretChat_PeerAuthKeyOf c viewer"
      using ok sent(11) by (auto simp: device_ok_def)
    with duplicate sent show ?thesis by auto
  qed (use sent in auto)
qed simp

text \<open>
  C37. A device's encrypted messages are numbered without gaps and without repeats: in every
  state the queue reaches, the messages of a device carry the numbers 1 to \<open>ReservedQts\<close> in
  order, all of them addressed to the device, and no two carry the same chat and random id.
\<close>

theorem secret_qts_dense:
  assumes "queue_step\<^sup>*\<^sup>* NewEncryptedQueueStore q"
  shows "map sm_Qts (q_byDevice q dev) = [1..ReservedQts q dev] \<and>
         (\<forall>m\<in>set (q_byDevice q dev). sm_ReceiverAuthKeyID m = dev) \<and>
         distinct (map send_key (q_byDevice q dev))"
proof -
  have ok: "device_ok q dev"
    using queue.run_inv [OF assms queue_ok_New] by (simp add: queue_ok_def)
  have "inj_on send_key (set (q_byDevice q dev))"
  proof (rule inj_onI)
    fix x y assume xy: "x \<in> set (q_byDevice q dev)" "y \<in> set (q_byDevice q dev)"
      "send_key x = send_key y"
    then have "q_dedup q (dev, send_key x) = Some (sm_Qts x)"
      "q_dedup q (dev, send_key x) = Some (sm_Qts y)"
      using ok unfolding device_ok_def by (metis prod.inject)+
    then show "x = y" using qts_inj [OF ok xy(1,2)] by simp
  qed
  moreover have "distinct (q_byDevice q dev)"
    by (rule distinct_map [THEN iffD1, THEN conjunct1, of sm_Qts])
      (use ok in \<open>simp add: device_ok_def\<close>)
  ultimately show ?thesis using ok by (simp add: device_ok_def ReservedQts_def distinct_map)
qed

text \<open>
  A repeated send is answered with the stored message: after a send, and after any further
  use of the queue, the same sender's send with the same random id queues nothing and returns
  the message, number and date of the first one.
\<close>

theorem secret_send_once:
  assumes "queue_ok (ss_queue s)"
    and "SendEncrypted race s i viewer k h d = (s1, Inr (c, m))"
    and "queue_step\<^sup>*\<^sup>* (ss_queue s1) (ss_queue s2)"
    and "GetSecretChat (ss_store s2) i = Some c" and "sd_RandomID d' = sd_RandomID d"
  shows "\<exists>s3. SendEncrypted race' s2 i viewer k h d' = (s3, Inr (c, m)) \<and>
           ss_queue s3 = ss_queue s2"
  using assms(2)
proof (cases rule: SendEncrypted_cases)
  case (sent c' q m' dup)
  let ?dev = "SecretChat_PeerAuthKeyOf c viewer"
  have c: "c' = c" and m: "m' = m" using sent(11) by auto
  have ok: "\<forall>dev. device_ok (ss_queue s) dev" using assms(1) by (simp add: queue_ok_def)
  have "queue_step (ss_queue s) q" using queue_step.message sent(9) by (metis fst_conv)
  then have ok1: "queue_ok (ss_queue s1)" using queue.step_inv [OF assms(1)] sent(10) by simp
  have ok2: "queue_ok (ss_queue s2)" and le: "queue_le (ss_queue s1) (ss_queue s2)"
    using queue.run [OF assms(3) ok1] by auto
  from sent(9) ok refl have "m \<in> set (q_byDevice (ss_queue s1) ?dev) \<and> send_key m = (i, sd_RandomID d)"
    by (cases rule: AppendEncryptedMessage_cases) (use sent(10) c m in auto)
  moreover from this le have "m \<in> set (q_byDevice (ss_queue s2) ?dev)"
    by (auto simp: queue_le_def) (metis Un_iff set_append)
  ultimately have mem: "m \<in> set (q_byDevice (ss_queue s2) ?dev)" and key: "send_key m = (i, sd_RandomID d)"
    by auto
  have dev2: "device_ok (ss_queue s2) ?dev" using ok2 by (simp add: queue_ok_def)
  then have "q_dedup (ss_queue s2) (?dev, i, sd_RandomID d) = Some (sm_Qts m)"
    using mem key unfolding device_ok_def by metis
  then have "AppendEncryptedMessage (ss_queue s2) (envelope c viewer i d') = (ss_queue s2, m, True)"
    using find_qts [OF dev2 mem] assms(5) by (simp add: AppendEncryptedMessage_def)
  moreover have "(if SecretChat_IsAdmin c viewer then sc_ParticipantAuthKeyID c else sc_AdminAuthKeyID c)
      = ?dev"
    using sent(2) c
    by (auto simp: SecretChat_HasParticipant_def SecretChat_IsAdmin_def SecretChat_PeerAuthKeyOf_def)
  ultimately show ?thesis
    using assms(4) sent c by (simp add: SendEncrypted_def Let_def)
qed simp

text \<open>
  Catching up on encrypted messages skips nothing: a device that has numbers up to \<open>since\<close>
  is given the next messages of its queue, in order, up to the limit.
\<close>

theorem secret_list_exact:
  assumes "queue_ok (ss_queue s)" and "dev \<noteq> 0" and "0 \<le> since" and "0 < limit"
  shows "ListNewMessages s dev since limit =
           take (nat limit) (drop (nat since) (q_byDevice (ss_queue s) dev))"
proof -
  have "device_ok (ss_queue s) dev" using assms(1) by (simp add: queue_ok_def)
  from filter_qts [OF this assms(3)] assms(2,4) show ?thesis
    by (simp add: ListNewMessages_def ListEncryptedMessagesSince_def collect_until_eq)
qed

section \<open>The properties at work\<close>

text \<open>
  A chat between users 11 (device 101) and 22, requested and then accepted from device 202, with
  public values in the accepted range.
\<close>

definition demo_g :: bytes where
  "demo_g = 0x80 # replicate 255 0"

definition demo_request :: secret_request where
  "demo_request = \<lparr>sr_AdminUserID = 11, sr_AdminAuthKeyID = 101, sr_ParticipantUserID = 22,
     sr_RandomID = 7, sr_GA = demo_g, sr_Date = 5\<rparr>"

definition demo_start :: secret_service where
  "demo_start = \<lparr>ss_store = [], ss_queue = NewEncryptedQueueStore\<rparr>"

definition demo_chat :: secret_chat where
  "demo_chat = new_secret_chat demo_request demo_g 5 6"

definition demo_requested :: secret_service where
  "demo_requested = demo_start\<lparr>ss_store := [(7, demo_chat)]\<rparr>"

definition demo_normal_chat :: secret_chat where
  "demo_normal_chat = demo_chat\<lparr>sc_State := SecretChatStateNormal, sc_ParticipantAuthKeyID := 202,
     sc_GB := demo_g, sc_KeyFingerprint := 99\<rparr>"

definition demo_normal :: secret_service where
  "demo_normal = demo_start\<lparr>ss_store := [(7, demo_normal_chat)]\<rparr>"

lemma demo_g_valid: "validateDHParam demo_g = Some demo_g"
proof -
  have "big_endian ([0x80] @ replicate 255 0) = 0x80 * 256 ^ 255"
    unfolding big_endian_append big_endian_zeros by (simp add: big_endian_def)
  then have v: "big_endian demo_g = 0x80 * 256 ^ 255" by (simp add: demo_g_def)
  have "2 ^ 1984 < (0x80 * 256 ^ 255 :: int)" "0x80 * 256 ^ 255 < dhPrime - 2 ^ 1984"
    by (simp_all add: dhPrime_def)
  moreover have "length demo_g = 256" by (simp add: demo_g_def)
  ultimately show ?thesis
    unfolding validateDHParam_Some v dhLowerBound_def dhUpperBound_def by (simp add: leftPad256_def)
qed

lemma demo_request_runs:
  "RequestEncryption id (Some 10, Some 12) demo_start demo_request = (demo_requested, Inr demo_chat)"
proof -
  have "(drop_bit 1 (10 :: 64 word)) = 5" "(drop_bit 1 (12 :: 64 word)) = 6" by code_simp+
  then show ?thesis
    by (simp add: RequestEncryption_def demo_request_def demo_start_def demo_g_valid GetSecretChat_def
        randomAccessHash_def CreateSecretChat_def demo_requested_def demo_chat_def
        new_secret_chat_def Let_def)
qed

lemma demo_accept_runs:
  "AcceptEncryption id demo_requested 7 22 202 6 demo_g 99 = (demo_normal, Inr demo_normal_chat)"
  by (simp add: AcceptEncryption_def AcceptSecretChat_def demo_requested_def demo_normal_def
      demo_start_def demo_normal_chat_def demo_chat_def demo_request_def new_secret_chat_def
      GetSecretChat_def demo_g_valid Let_def)

lemma demo_ok: "chats_ok (ss_store demo_requested)" "chats_ok (ss_store demo_normal)"
    "queue_ok (ss_queue demo_normal)"
  by (auto simp: chats_ok_def demo_requested_def demo_normal_def demo_start_def demo_chat_def
      demo_normal_chat_def new_secret_chat_def demo_request_def queue_ok_New split: if_splits)

lemma demo_lookup: "GetSecretChat (ss_store demo_requested) 7 = Some demo_chat"
    "GetSecretChat (ss_store demo_normal) 7 = Some demo_normal_chat"
  by (simp_all add: GetSecretChat_def demo_requested_def demo_normal_def)

definition demo_delivery :: secret_delivery where
  "demo_delivery = \<lparr>sd_RandomID = 77, sd_Bytes = [1, 2], sd_IsService = False, sd_File = None,
     sd_Date = 9\<rparr>"

lemma demo_send_runs:
  "\<exists>s' m. SendEncrypted id demo_normal 7 11 101 5 demo_delivery = (s', Inr (demo_normal_chat, m)) \<and>
     ss_store s' = ss_store demo_normal \<and> sm_Qts m = 1 \<and> sm_ReceiverAuthKeyID m = 202 \<and>
     queue_step (ss_queue demo_normal) (ss_queue s')"
proof -
  let ?m = "envelope demo_normal_chat 11 7 demo_delivery"
  have "SendEncrypted id demo_normal 7 11 101 5 demo_delivery =
      (demo_normal\<lparr>ss_queue := fst (AppendEncryptedMessage (ss_queue demo_normal) ?m)\<rparr>,
       Inr (demo_normal_chat, ?m\<lparr>sm_Qts := 1\<rparr>))"
    by (simp add: SendEncrypted_def demo_lookup demo_normal_def demo_start_def demo_normal_chat_def
        demo_chat_def demo_request_def new_secret_chat_def demo_delivery_def
        SecretChat_HasParticipant_def SecretChat_AuthKeyOf_def SecretChat_AccessHashFor_def
        SecretChat_PeerOf_def SecretChat_IsAdmin_def SecretChat_PeerAuthKeyOf_def
        AppendEncryptedMessage_def NewEncryptedQueueStore_def Let_def GetSecretChat_def)
  moreover have "SecretChat_PeerAuthKeyOf demo_normal_chat 11 = 202"
    by (simp add: SecretChat_PeerAuthKeyOf_def demo_normal_chat_def demo_chat_def demo_request_def
        new_secret_chat_def)
  ultimately show ?thesis by (auto intro: queue_step.message)
qed

theorem secret_handshake_forward_witness:
  "\<exists>c'. GetSecretChat (ss_store demo_normal) 7 = Some c' \<and> same_identity demo_chat c'"
proof -
  have run: "chat_step\<^sup>*\<^sup>* (ss_store demo_requested) (ss_store demo_normal)"
    by (rule AcceptEncryption_run [OF demo_accept_runs]) simp
  from secret_handshake_forward [OF demo_ok(1) run demo_lookup(1)] show ?thesis by blast
qed

theorem secret_accept_once_witness:
  "(\<exists>err. AcceptEncryption id demo_normal 7 22 303 6 demo_g 1 = (demo_normal, Inl err)) \<and>
   (\<exists>c2. GetSecretChat (ss_store demo_normal) 7 = Some c2 \<and> sc_ParticipantAuthKeyID c2 = 202)"
  using secret_accept_once [OF demo_ok(1) _ demo_accept_runs, of demo_normal id 22 303 6 demo_g 1]
  by auto

theorem secret_discard_final_witness:
  "\<exists>s1 c already. DiscardEncryption id demo_normal 7 11 101 True = (s1, Inr (c, already)) \<and>
     SendEncrypted id s1 7 11 101 5 demo_delivery = (s1, Inl ErrSecretChatNotFound)"
proof -
  obtain s1 c where d: "DiscardEncryption id demo_normal 7 11 101 True = (s1, Inr (c, False))"
    by (simp add: DiscardEncryption_def DiscardSecretChat_def demo_lookup demo_normal_def
        demo_normal_chat_def demo_chat_def demo_request_def new_secret_chat_def GetSecretChat_def
        SecretChat_HasParticipant_def SecretChat_AuthKeyOf_def Let_def)
  from secret_discard_final [OF demo_ok(2) _ d, of s1 id 11 101 5 demo_delivery demo_g 1 demo_request
      "(None, None)" True] d
  show ?thesis by auto
qed

theorem secret_send_bound_witness:
  "\<exists>s' m. SendEncrypted id demo_normal 7 11 101 5 demo_delivery = (s', Inr (demo_normal_chat, m)) \<and>
     m \<in> set (q_byDevice (ss_queue s') 202)"
  using demo_send_runs secret_send_bound [OF demo_ok(3)] by metis

theorem secret_qts_dense_witness:
  "\<exists>q m. queue_step\<^sup>*\<^sup>* NewEncryptedQueueStore q \<and> q_byDevice q 202 = [m] \<and>
     map sm_Qts (q_byDevice q 202) = [1..ReservedQts q 202] \<and>
     distinct (map send_key (q_byDevice q 202))"
proof -
  let ?m = "envelope demo_normal_chat 11 7 demo_delivery"
  let ?q = "fst (AppendEncryptedMessage NewEncryptedQueueStore ?m)"
  have run: "queue_step\<^sup>*\<^sup>* NewEncryptedQueueStore ?q"
    using queue_step.message [of NewEncryptedQueueStore ?m] by simp
  have "\<exists>m. q_byDevice ?q 202 = [m]"
    by (simp add: AppendEncryptedMessage_def NewEncryptedQueueStore_def Let_def
        SecretChat_PeerAuthKeyOf_def demo_normal_chat_def demo_chat_def demo_request_def
        new_secret_chat_def)
  with run secret_qts_dense [OF run, of 202] show ?thesis by blast
qed

theorem secret_send_once_witness:
  "\<exists>s1 m s3. SendEncrypted id demo_normal 7 11 101 5 demo_delivery = (s1, Inr (demo_normal_chat, m)) \<and>
     SendEncrypted id s1 7 11 101 5 demo_delivery = (s3, Inr (demo_normal_chat, m)) \<and>
     ss_queue s3 = ss_queue s1"
proof -
  obtain s1 m where s: "SendEncrypted id demo_normal 7 11 101 5 demo_delivery =
      (s1, Inr (demo_normal_chat, m))" "ss_store s1 = ss_store demo_normal"
    using demo_send_runs by metis
  have l: "GetSecretChat (ss_store s1) 7 = Some demo_normal_chat" using s(2) demo_lookup by simp
  show ?thesis
    using s(1) secret_send_once [OF demo_ok(3) s(1) rtranclp.rtrancl_refl l refl, of id] by blast
qed

theorem secret_list_exact_witness:
  "\<exists>s' m. SendEncrypted id demo_normal 7 11 101 5 demo_delivery = (s', Inr (demo_normal_chat, m)) \<and>
     ListNewMessages s' 202 0 50 = q_byDevice (ss_queue s') 202"
proof -
  obtain s' m where s: "SendEncrypted id demo_normal 7 11 101 5 demo_delivery =
      (s', Inr (demo_normal_chat, m))"
    and step: "queue_step (ss_queue demo_normal) (ss_queue s')"
    using demo_send_runs by metis
  have ok: "queue_ok (ss_queue s')" using queue.step_inv [OF demo_ok(3) step] .
  have "q_reserved (ss_queue s') 202 = 1"
    using s by (auto simp: SendEncrypted_def demo_lookup demo_normal_def demo_start_def
        demo_normal_chat_def demo_chat_def demo_request_def new_secret_chat_def demo_delivery_def
        SecretChat_HasParticipant_def SecretChat_AuthKeyOf_def SecretChat_AccessHashFor_def
        SecretChat_PeerOf_def SecretChat_IsAdmin_def AppendEncryptedMessage_def
        NewEncryptedQueueStore_def Let_def GetSecretChat_def)
  then have "map sm_Qts (q_byDevice (ss_queue s') 202) = [1]"
    using ok by (simp add: queue_ok_def device_ok_def)
  then have "length (q_byDevice (ss_queue s') 202) = 1" by (metis length_map length_Cons list.size(3) One_nat_def)
  with s secret_list_exact [OF ok, of 202 0 50] show ?thesis by auto
qed

end
