(* ===== verification/Sha256.thy ===== *)
theory Sha256
  imports DH_Params
begin

unbundle bit_operations_syntax

text \<open>
  SHA-256 as \<open>crypto/sha256.Sum256\<close> computes it (FIPS 180-4), on byte lists. Calls use it for the
  commitment to \<open>g_a\<close>. The constants are written in decimal.
\<close>

definition sha_k :: "32 word list" where
  "sha_k =
     [1116352408, 1899447441, 3049323471, 3921009573, 961987163, 1508970993, 2453635748,
     2870763221, 3624381080, 310598401, 607225278, 1426881987, 1925078388, 2162078206,
     2614888103, 3248222580, 3835390401, 4022224774, 264347078, 604807628, 770255983,
     1249150122, 1555081692, 1996064986, 2554220882, 2821834349, 2952996808, 3210313671,
     3336571891, 3584528711, 113926993, 338241895, 666307205, 773529912, 1294757372,
     1396182291, 1695183700, 1986661051, 2177026350, 2456956037, 2730485921, 2820302411,
     3259730800, 3345764771, 3516065817, 3600352804, 4094571909, 275423344, 430227734,
     506948616, 659060556, 883997877, 958139571, 1322822218, 1537002063, 1747873779,
     1955562222, 2024104815, 2227730452, 2361852424, 2428436474, 2756734187, 3204031479,
     3329325298]"

definition sha_h0 :: "32 word list" where
  "sha_h0 =
     [1779033703, 3144134277, 1013904242, 2773480762, 1359893119, 2600822924, 528734635,
     1541459225]"

definition rotr :: "nat \<Rightarrow> 32 word \<Rightarrow> 32 word" where
  "rotr n x = drop_bit n x OR push_bit (32 - n) x"

definition be_word :: "bytes \<Rightarrow> 32 word" where
  "be_word bs = foldl (\<lambda>acc b. push_bit 8 acc OR ucast b) 0 bs"

fun words_of :: "bytes \<Rightarrow> 32 word list" where
  "words_of (a # b # c # d # rest) = be_word [a, b, c, d] # words_of rest"
| "words_of _ = []"

definition word_bytes :: "32 word \<Rightarrow> bytes" where
  "word_bytes w = map (\<lambda>s. ucast (drop_bit s w)) [24, 16, 8, 0]"

definition pad_message :: "bytes \<Rightarrow> bytes" where
  "pad_message m =
     (let l = length m;
          zeros = (119 - l mod 64) mod 64
      in m @ [0x80] @ replicate zeros 0 @
         map (\<lambda>s. word_of_nat (drop_bit s (8 * l))) [56, 48, 40, 32, 24, 16, 8, 0])"

text \<open>The schedule is kept newest first: word \<open>t - i\<close> stands at index \<open>i - 1\<close>.\<close>

definition next_w :: "32 word list \<Rightarrow> 32 word" where
  "next_w ws =
     (let x = ws ! 14; y = ws ! 1;
          s0 = rotr 7 x XOR rotr 18 x XOR drop_bit 3 x;
          s1 = rotr 17 y XOR rotr 19 y XOR drop_bit 10 y
      in (ws ! 15) + s0 + (ws ! 6) + s1)"

fun extend_w :: "nat \<Rightarrow> 32 word list \<Rightarrow> 32 word list" where
  "extend_w 0 ws = ws"
| "extend_w (Suc n) ws = extend_w n (next_w ws # ws)"

fun sha_round :: "32 word \<times> 32 word \<Rightarrow> 32 word list \<Rightarrow> 32 word list" where
  "sha_round (k, w) [a, b, c, d, e, f, g, h] =
     (let s1 = rotr 6 e XOR rotr 11 e XOR rotr 25 e;
          ch = (e AND f) XOR (NOT e AND g);
          t1 = h + s1 + ch + k + w;
          s0 = rotr 2 a XOR rotr 13 a XOR rotr 22 a;
          maj = (a AND b) XOR (a AND c) XOR (b AND c)
      in [t1 + s0 + maj, a, b, c, d + t1, e, f, g])"
| "sha_round _ st = st"

definition sha_block :: "32 word list \<Rightarrow> 32 word list \<Rightarrow> 32 word list" where
  "sha_block ws h =
     map2 (+) h (fold sha_round (zip sha_k (rev (extend_w 48 (rev ws)))) h)"

fun sha_blocks :: "nat \<Rightarrow> 32 word list \<Rightarrow> 32 word list \<Rightarrow> 32 word list" where
  "sha_blocks 0 ws h = h"
| "sha_blocks (Suc n) ws h = sha_blocks n (drop 16 ws) (sha_block (take 16 ws) h)"

definition sha256 :: "bytes \<Rightarrow> bytes" where
  "sha256 m =
     (let ws = words_of (pad_message m)
      in concat (map word_bytes (sha_blocks (length ws div 16) ws sha_h0)))"

lemma length_sha_round [simp]: "length (sha_round kw st) = length st"
  by (induction kw st rule: sha_round.induct) (simp_all add: Let_def)

lemma length_fold_sha_round [simp]: "length (fold sha_round kws st) = length st"
  by (induction kws arbitrary: st) simp_all

lemma length_sha_blocks [simp]: "length (sha_blocks n ws h) = length h"
  by (induction n ws h rule: sha_blocks.induct) (simp_all add: sha_block_def)

lemma length_sha256 [simp]: "length (sha256 m) = 32"
proof -
  have "length (concat (map word_bytes ws)) = 4 * length ws" for ws
    by (induction ws) (simp_all add: word_bytes_def)
  then show ?thesis by (simp add: sha256_def Let_def sha_h0_def)
qed

end
