(* ===== verification/Phone_Calls.thy ===== *)
theory Phone_Calls
  imports Sha256 Cursor_Codec "HOL-Library.AList"
begin

text \<open>
  Private calls: the signaling state machine of \<open>internal/domain/phone.go\<close>,
  \<open>internal/app/phone/registry.go\<close> and \<open>internal/app/phone/service.go\<close>. Every operation runs under
  the registry's lock, so each is one function of the registry; \<open>Signal\<close> takes two locks, and what
  other calls do to the registry between them is its argument \<open>race\<close>. The registry's \<open>byID\<close>, over
  which the code iterates, is an association list with unique keys; its \<open>active\<close> map, which the
  code only indexes, is a function with default 0. \<open>now\<close> is \<open>clk.Now().Unix()\<close>; the draws of
  \<open>crypto/rand\<close> are a sequence of optional 64-bit values, \<open>None\<close> where reading fails.
\<close>

section \<open>Calls\<close>

datatype call_state = PhoneCallStateNone | PhoneCallStateRequested | PhoneCallStateRinging
  | PhoneCallStateAccepted | PhoneCallStateConfirmed | PhoneCallStateDiscarded

datatype discard_reason = PhoneCallDiscardReasonNone | PhoneCallDiscardReasonMissed
  | PhoneCallDiscardReasonDisconnect | PhoneCallDiscardReasonHangup | PhoneCallDiscardReasonBusy
  | PhoneCallDiscardReasonMigrateConference

datatype phone_error = ErrPeerInvalid | ErrAlreadyAccepted | ErrAlreadyDeclined | ErrOccupyFailed
  | ErrProtocolLayerInvalid | ErrProtocolCompatLayerInvalid | ErrProtocolFlagsInvalid
  | ErrGAHashMismatch | ErrRandomID | ErrExhaustedCallID

record call_protocol =
  cp_UDPP2P :: bool
  cp_UDPReflector :: bool
  cp_MinLayer :: int
  cp_MaxLayer :: int
  cp_LibraryVersions :: "string list"

definition zero_protocol :: call_protocol where
  "zero_protocol = \<lparr>cp_UDPP2P = False, cp_UDPReflector = False, cp_MinLayer = 0, cp_MaxLayer = 0,
     cp_LibraryVersions = []\<rparr>"

record session_ref =
  sref_RawAuthKeyID :: auth_key_id
  sref_SessionID :: int

definition zero_session :: session_ref where
  "zero_session = \<lparr>sref_RawAuthKeyID = 0, sref_SessionID = 0\<rparr>"

definition SessionRef_Zero :: "session_ref \<Rightarrow> bool" where
  "SessionRef_Zero r \<longleftrightarrow> r = zero_session"

record call_connection =
  cc_ID :: int
  cc_IP :: string
  cc_Port :: int
  cc_Username :: string
  cc_Password :: string
  cc_Stun :: bool
  cc_Turn :: bool

record call_request =
  cr_CalleeID :: int
  cr_RandomID :: int
  cr_GAHash :: bytes
  cr_Video :: bool
  cr_Protocol :: call_protocol
  cr_CallerDevice :: session_ref
  cr_PrivacyP2P :: bool
  cr_Connections :: "call_connection list"

record phone_call =
  pc_ID :: int
  pc_AccessHash :: int
  pc_AdminID :: int
  pc_ParticipantID :: int
  pc_Video :: bool
  pc_State :: call_state
  pc_Date :: int
  pc_ReceiveDate :: int
  pc_StartDate :: int
  pc_DiscardedAt :: int
  pc_GAHash :: bytes
  pc_GB :: bytes
  pc_GA :: bytes
  pc_KeyFingerprint :: int
  pc_Protocol :: call_protocol
  pc_CallerProtocol :: call_protocol
  pc_CalleeProtocol :: call_protocol
  pc_P2PAllowed :: bool
  pc_DiscardReason :: discard_reason
  pc_DiscardReasonSlug :: string
  pc_Duration :: int
  pc_PrivacyP2P :: bool
  pc_Connections :: "call_connection list"
  pc_RandomID :: int
  pc_CallerDevice :: session_ref
  pc_CalleeDevice :: session_ref

definition PhoneCall_Terminal :: "phone_call \<Rightarrow> bool" where
  "PhoneCall_Terminal c \<longleftrightarrow> pc_State c = PhoneCallStateDiscarded"

definition PhoneCall_PeerOf :: "phone_call \<Rightarrow> int \<Rightarrow> int" where
  "PhoneCall_PeerOf c u =
     (if u = pc_AdminID c then pc_ParticipantID c
      else if u = pc_ParticipantID c then pc_AdminID c else 0)"

definition PhoneCall_HasParticipant :: "phone_call \<Rightarrow> int \<Rightarrow> bool" where
  "PhoneCall_HasParticipant c u \<longleftrightarrow> u \<noteq> 0 \<and> (u = pc_AdminID c \<or> u = pc_ParticipantID c)"

section \<open>Protocol negotiation\<close>

abbreviation minSupportedLayer :: int where
  "minSupportedLayer \<equiv> 65"

definition validateProtocol :: "call_protocol \<Rightarrow> phone_error option" where
  "validateProtocol p =
     (if cp_MinLayer p > cp_MaxLayer p then Some ErrProtocolLayerInvalid
      else if cp_MaxLayer p < minSupportedLayer then Some ErrProtocolCompatLayerInvalid
      else if \<not> cp_UDPP2P p \<and> \<not> cp_UDPReflector p then Some ErrProtocolFlagsInvalid
      else if length (cp_LibraryVersions p) = 0 then Some ErrProtocolFlagsInvalid
      else None)"

text \<open>\<open>strings.Split\<close> on dots and \<open>strings.Compare\<close>.\<close>

fun split_dots :: "string \<Rightarrow> string \<Rightarrow> string list" where
  "split_dots acc [] = [acc]"
| "split_dots acc (c # cs) =
     (if c = CHR ''.'' then acc # split_dots [] cs else split_dots (acc @ [c]) cs)"

fun string_compare :: "string \<Rightarrow> string \<Rightarrow> int" where
  "string_compare [] [] = 0"
| "string_compare [] (b # bs) = - 1"
| "string_compare (a # as) [] = 1"
| "string_compare (a # as) (b # bs) =
     (if (of_char a :: nat) < of_char b then - 1
      else if (of_char b :: nat) < of_char a then 1 else string_compare as bs)"

text \<open>One turn of the loop per component; a missing component is the empty string.\<close>

fun compare_components :: "string list \<Rightarrow> string list \<Rightarrow> int" where
  "compare_components [] [] = 0"
| "compare_components as bs =
     (let av = (case as of [] \<Rightarrow> [] | a # _ \<Rightarrow> a);
          bv = (case bs of [] \<Rightarrow> [] | b # _ \<Rightarrow> b);
          verdict = (case (parse_int av, parse_int bv) of
                       (Some an, Some bn) \<Rightarrow> wrap64 (an - bn)
                     | _ \<Rightarrow> string_compare av bv)
      in if verdict \<noteq> 0 then verdict else compare_components (tl as) (tl bs))"

definition compareVersion :: "string \<Rightarrow> string \<Rightarrow> int" where
  "compareVersion a b = compare_components (split_dots [] a) (split_dots [] b)"

definition preferredVersions :: "string list" where
  "preferredVersions = [''9.0.0'', ''8.0.0'', ''7.0.0'']"

fun highest_version :: "string option \<Rightarrow> string list \<Rightarrow> string option" where
  "highest_version best [] = best"
| "highest_version best (v # vs) =
     highest_version
       (case best of None \<Rightarrow> Some v | Some b \<Rightarrow> if compareVersion v b > 0 then Some v else best) vs"

text \<open>
  The set of common versions is a Go map, so the fallback scan meets its keys in no fixed order:
  \<open>order\<close> is the order of this run, a rearrangement of the keys.
\<close>

definition bestCommonVersion :: "(string list \<Rightarrow> string list) \<Rightarrow> string list \<Rightarrow> string list \<Rightarrow>
    string option" where
  "bestCommonVersion order a b =
     (let inBoth = remdups (filter (\<lambda>v. v \<in> set b) a)
      in case find (\<lambda>v. v \<in> set inBoth) preferredVersions of
           Some v \<Rightarrow> Some v
         | None \<Rightarrow> highest_version None (order inBoth))"

definition negotiateProtocol :: "(string list \<Rightarrow> string list) \<Rightarrow> call_protocol \<Rightarrow> call_protocol \<Rightarrow>
    phone_error + call_protocol" where
  "negotiateProtocol order caller callee =
     (let out = \<lparr>cp_UDPP2P = (cp_UDPP2P caller \<and> cp_UDPP2P callee),
                 cp_UDPReflector = (cp_UDPReflector caller \<or> cp_UDPReflector callee),
                 cp_MinLayer = (if cp_MinLayer caller > cp_MinLayer callee then cp_MinLayer caller
                                else cp_MinLayer callee),
                 cp_MaxLayer = (if cp_MaxLayer caller < cp_MaxLayer callee then cp_MaxLayer caller
                                else cp_MaxLayer callee),
                 cp_LibraryVersions = []\<rparr>
      in if cp_MinLayer out > cp_MaxLayer out then Inl ErrProtocolCompatLayerInvalid
         else (case bestCommonVersion order (cp_LibraryVersions caller) (cp_LibraryVersions callee) of
                 Some best \<Rightarrow> Inr (out\<lparr>cp_LibraryVersions := [best]\<rparr>)
               | None \<Rightarrow> Inr (out\<lparr>cp_LibraryVersions := cp_LibraryVersions callee\<rparr>)))"

section \<open>The registry\<close>

record call_entry =
  ce_call :: phone_call
  ce_sigWindowSec :: int
  ce_sigCount :: int

record registry =
  reg_byID :: "(int \<times> call_entry) list"
  reg_byRandom :: "int \<times> int \<rightharpoonup> int"
  reg_active :: "int \<Rightarrow> int"

record phone_config =
  cfg_RingTimeout :: int
  cfg_TombstoneTTL :: int
  cfg_MaxActivePerUser :: int
  cfg_MaxRegistryEntries :: int
  cfg_SignalingRatePerSecond :: int

text \<open>Durations are nanoseconds, as \<open>time.Duration\<close> has them.\<close>

definition withDefaults :: "phone_config \<Rightarrow> phone_config" where
  "withDefaults c =
     \<lparr>cfg_RingTimeout = (if cfg_RingTimeout c \<le> 0 then 90 * 1000000000 else cfg_RingTimeout c),
      cfg_TombstoneTTL = (if cfg_TombstoneTTL c \<le> 0 then 60 * 1000000000 else cfg_TombstoneTTL c),
      cfg_MaxActivePerUser = (if cfg_MaxActivePerUser c \<le> 0 then 4 else cfg_MaxActivePerUser c),
      cfg_MaxRegistryEntries = (if cfg_MaxRegistryEntries c \<le> 0 then 10000
                                else cfg_MaxRegistryEntries c),
      cfg_SignalingRatePerSecond = (if cfg_SignalingRatePerSecond c \<le> 0 then 50
                                    else cfg_SignalingRatePerSecond c)\<rparr>"

definition seconds :: "int \<Rightarrow> int" where
  "seconds d = d div 1000000000"

definition newRegistry :: registry where
  "newRegistry = \<lparr>reg_byID = [], reg_byRandom = Map.empty, reg_active = (\<lambda>_. 0)\<rparr>"

definition decActiveLocked :: "registry \<Rightarrow> int \<Rightarrow> registry" where
  "decActiveLocked r u =
     (let n = reg_active r u
      in if n \<le> 1 then r\<lparr>reg_active := (reg_active r)(u := 0)\<rparr>
         else r\<lparr>reg_active := (reg_active r)(u := n - 1)\<rparr>)"

definition removeLocked :: "registry \<Rightarrow> int \<Rightarrow> call_entry \<Rightarrow> bool \<Rightarrow> registry" where
  "removeLocked r i e wasActive =
     (let r1 = r\<lparr>reg_byID := AList.delete i (reg_byID r)\<rparr>;
          key = (pc_AdminID (ce_call e), pc_RandomID (ce_call e));
          r2 = (if reg_byRandom r1 key = Some i
                then r1\<lparr>reg_byRandom := (reg_byRandom r1)(key := None)\<rparr> else r1)
      in if wasActive then decActiveLocked r2 (pc_AdminID (ce_call e)) else r2)"

definition sweepTombstonesLocked :: "registry \<Rightarrow> int \<Rightarrow> int \<Rightarrow> registry" where
  "sweepTombstonesLocked r now ttl =
     fold (\<lambda>(i, e) acc.
       if PhoneCall_Terminal (ce_call e) \<and> now - pc_DiscardedAt (ce_call e) > ttl
       then removeLocked acc i e False else acc) (reg_byID r) r"

definition put_call :: "registry \<Rightarrow> int \<Rightarrow> call_entry \<Rightarrow> phone_call \<Rightarrow> registry" where
  "put_call r i e c = r\<lparr>reg_byID := AList.update i (e\<lparr>ce_call := c\<rparr>) (reg_byID r)\<rparr>"

text \<open>The entry \<open>e\<close> stands in the registry under \<open>i\<close>; the result is the registry and the call.\<close>

definition markDiscardedWithSlugLocked :: "registry \<Rightarrow> int \<Rightarrow> call_entry \<Rightarrow> discard_reason \<Rightarrow> string \<Rightarrow>
    int \<Rightarrow> int \<Rightarrow> registry \<times> phone_call" where
  "markDiscardedWithSlugLocked r i e reason slug duration now =
     (if PhoneCall_Terminal (ce_call e) then (r, ce_call e)
      else let c = (ce_call e)\<lparr>pc_State := PhoneCallStateDiscarded, pc_DiscardReason := reason,
                     pc_DiscardReasonSlug := slug, pc_Duration := duration, pc_DiscardedAt := now\<rparr>
           in (decActiveLocked (put_call r i e c) (pc_AdminID c), c))"

definition markDiscardedLocked :: "registry \<Rightarrow> int \<Rightarrow> call_entry \<Rightarrow> discard_reason \<Rightarrow> int \<Rightarrow> int \<Rightarrow>
    registry \<times> phone_call" where
  "markDiscardedLocked r i e reason duration now =
     markDiscardedWithSlugLocked r i e reason [] duration now"

type_synonym draws = "nat \<Rightarrow> 64 word option"

definition randomPositiveInt64 :: "64 word option \<Rightarrow> phone_error + int" where
  "randomPositiveInt64 draw =
     (case draw of
        None \<Rightarrow> Inl ErrRandomID
      | Some w \<Rightarrow> let v = uint (drop_bit 1 w) in Inr (if v = 0 then 1 else v))"

text \<open>At most 32 attempts; the result carries the number of draws used.\<close>

fun new_id_loop :: "nat \<Rightarrow> registry \<Rightarrow> draws \<Rightarrow> nat \<Rightarrow> nat \<times> (phone_error + int)" where
  "new_id_loop 0 r draws i = (i, Inl ErrExhaustedCallID)"
| "new_id_loop (Suc n) r draws i =
     (case randomPositiveInt64 (draws i) of
        Inl err \<Rightarrow> (Suc i, Inl err)
      | Inr v \<Rightarrow> if map_of (reg_byID r) v = None then (Suc i, Inr v)
                 else new_id_loop n r draws (Suc i))"

definition newIDLocked :: "registry \<Rightarrow> draws \<Rightarrow> nat \<times> (phone_error + int)" where
  "newIDLocked r draws = new_id_loop 32 r draws 0"

section \<open>The service\<close>

abbreviation gaHashSize :: nat where
  "gaHashSize \<equiv> 32"

definition new_call :: "int \<Rightarrow> int \<Rightarrow> int \<Rightarrow> int \<Rightarrow> call_request \<Rightarrow> phone_call" where
  "new_call i accessHash caller now inp =
     \<lparr>pc_ID = i, pc_AccessHash = accessHash, pc_AdminID = caller, pc_ParticipantID = cr_CalleeID inp,
      pc_Video = cr_Video inp, pc_State = PhoneCallStateRequested, pc_Date = now,
      pc_ReceiveDate = 0, pc_StartDate = 0, pc_DiscardedAt = 0, pc_GAHash = cr_GAHash inp,
      pc_GB = [], pc_GA = [], pc_KeyFingerprint = 0, pc_Protocol = cr_Protocol inp,
      pc_CallerProtocol = cr_Protocol inp, pc_CalleeProtocol = zero_protocol, pc_P2PAllowed = False,
      pc_DiscardReason = PhoneCallDiscardReasonNone, pc_DiscardReasonSlug = [], pc_Duration = 0,
      pc_PrivacyP2P = cr_PrivacyP2P inp, pc_Connections = cr_Connections inp,
      pc_RandomID = cr_RandomID inp, pc_CallerDevice = cr_CallerDevice inp,
      pc_CalleeDevice = zero_session\<rparr>"

definition live_call_of :: "registry \<Rightarrow> int \<Rightarrow> int \<Rightarrow> phone_call option" where
  "live_call_of r caller random =
     (case reg_byRandom r (caller, random) of
        None \<Rightarrow> None
      | Some i \<Rightarrow>
          (case map_of (reg_byID r) i of
             None \<Rightarrow> None
           | Some e \<Rightarrow> if \<not> PhoneCall_Terminal (ce_call e) then Some (ce_call e) else None))"

definition RequestCall :: "phone_config \<Rightarrow> int \<Rightarrow> draws \<Rightarrow> registry \<Rightarrow> int \<Rightarrow> call_request \<Rightarrow>
    registry \<times> (phone_error + phone_call)" where
  "RequestCall cfg now draws r caller inp =
     (case validateProtocol (cr_Protocol inp) of
        Some err \<Rightarrow> (r, Inl err)
      | None \<Rightarrow>
          if length (cr_GAHash inp) \<noteq> gaHashSize then (r, Inl ErrProtocolFlagsInvalid)
          else let r1 = sweepTombstonesLocked r now (seconds (cfg_TombstoneTTL cfg))
               in case live_call_of r1 caller (cr_RandomID inp) of
                    Some c \<Rightarrow> (r1, Inr c)
                  | None \<Rightarrow>
                      if int (length (reg_byID r1)) \<ge> cfg_MaxRegistryEntries cfg
                      then (r1, Inl ErrOccupyFailed)
                      else if reg_active r1 caller \<ge> cfg_MaxActivePerUser cfg
                      then (r1, Inl ErrOccupyFailed)
                      else (case newIDLocked r1 draws of
                              (_, Inl err) \<Rightarrow> (r1, Inl err)
                            | (n, Inr i) \<Rightarrow>
                                (case randomPositiveInt64 (draws n) of
                                   Inl err \<Rightarrow> (r1, Inl err)
                                 | Inr accessHash \<Rightarrow>
                                     (let c = new_call i accessHash caller now inp
                                      in (r1\<lparr>reg_byID := AList.update i
                                               \<lparr>ce_call = c, ce_sigWindowSec = 0, ce_sigCount = 0\<rparr>
                                               (reg_byID r1),
                                             reg_byRandom := (reg_byRandom r1)
                                               ((caller, cr_RandomID inp) \<mapsto> i),
                                             reg_active := (reg_active r1)
                                               (caller := reg_active r1 caller + 1)\<rparr>, Inr c)))))"

definition lookupLocked :: "registry \<Rightarrow> int \<Rightarrow> int \<Rightarrow> phone_error + call_entry" where
  "lookupLocked r i accessHash =
     (case map_of (reg_byID r) i of
        None \<Rightarrow> Inl ErrPeerInvalid
      | Some e \<Rightarrow> if pc_AccessHash (ce_call e) \<noteq> accessHash then Inl ErrPeerInvalid else Inr e)"

definition ReceivedCall :: "int \<Rightarrow> registry \<Rightarrow> int \<Rightarrow> int \<Rightarrow> int \<Rightarrow>
    registry \<times> (phone_error + phone_call \<times> bool)" where
  "ReceivedCall now r user i accessHash =
     (case lookupLocked r i accessHash of
        Inl err \<Rightarrow> (r, Inl err)
      | Inr e \<Rightarrow>
          if user \<noteq> pc_ParticipantID (ce_call e) then (r, Inl ErrPeerInvalid)
          else if pc_State (ce_call e) = PhoneCallStateRequested
          then let c = (ce_call e)\<lparr>pc_State := PhoneCallStateRinging, pc_ReceiveDate := now\<rparr>
               in (put_call r i e c, Inr (c, True))
          else (r, Inr (ce_call e, False)))"

definition AcceptCall :: "(string list \<Rightarrow> string list) \<Rightarrow> registry \<Rightarrow> int \<Rightarrow> int \<Rightarrow> int \<Rightarrow> bytes \<Rightarrow>
    call_protocol \<Rightarrow> session_ref \<Rightarrow> registry \<times> (phone_error + phone_call)" where
  "AcceptCall order r user i accessHash gb proto device =
     (case validateProtocol proto of
        Some err \<Rightarrow> (r, Inl err)
      | None \<Rightarrow>
          if length gb \<noteq> dhPubSize \<or> list_all (\<lambda>b. b = 0) gb then (r, Inl ErrProtocolFlagsInvalid)
          else (case lookupLocked r i accessHash of
                  Inl err \<Rightarrow> (r, Inl err)
                | Inr e \<Rightarrow>
                    if user \<noteq> pc_ParticipantID (ce_call e) then (r, Inl ErrPeerInvalid)
                    else if pc_State (ce_call e) = PhoneCallStateAccepted \<or>
                            pc_State (ce_call e) = PhoneCallStateConfirmed
                    then (r, Inl ErrAlreadyAccepted)
                    else if pc_State (ce_call e) = PhoneCallStateDiscarded
                    then (r, Inl ErrAlreadyDeclined)
                    else (case negotiateProtocol order (pc_CallerProtocol (ce_call e)) proto of
                            Inl err \<Rightarrow> (r, Inl err)
                          | Inr negotiated \<Rightarrow>
                              (let c = (ce_call e)\<lparr>pc_GB := gb, pc_CalleeProtocol := proto,
                                     pc_Protocol := negotiated, pc_CalleeDevice := device,
                                     pc_State := PhoneCallStateAccepted\<rparr>
                               in (put_call r i e c, Inr c)))))"

definition ConfirmCall :: "int \<Rightarrow> registry \<Rightarrow> int \<Rightarrow> int \<Rightarrow> int \<Rightarrow> bytes \<Rightarrow> int \<Rightarrow> call_protocol \<Rightarrow>
    registry \<times> (phone_error \<times> phone_call option + phone_call)" where
  "ConfirmCall now r user i accessHash ga fingerprint proto =
     (case lookupLocked r i accessHash of
        Inl err \<Rightarrow> (r, Inl (err, None))
      | Inr e \<Rightarrow>
          if user \<noteq> pc_AdminID (ce_call e) then (r, Inl (ErrPeerInvalid, None))
          else (case pc_State (ce_call e) of
                  PhoneCallStateAccepted \<Rightarrow>
                    (case validateProtocol proto of
                       Some err \<Rightarrow> (r, Inl (err, None))
                     | None \<Rightarrow>
                         if length ga \<noteq> dhPubSize \<or> sha256 ga \<noteq> pc_GAHash (ce_call e)
                         then (case markDiscardedLocked r i e PhoneCallDiscardReasonDisconnect 0 now of
                                 (r', c) \<Rightarrow> (r', Inl (ErrGAHashMismatch, Some c)))
                         else let c = (ce_call e)\<lparr>pc_GA := ga, pc_KeyFingerprint := fingerprint,
                                    pc_StartDate := now,
                                    pc_P2PAllowed := (cp_UDPP2P (pc_CallerProtocol (ce_call e)) \<and>
                                      cp_UDPP2P (pc_CalleeProtocol (ce_call e)) \<and>
                                      pc_PrivacyP2P (ce_call e)),
                                    pc_State := PhoneCallStateConfirmed\<rparr>
                              in (put_call r i e c, Inr c))
                | PhoneCallStateConfirmed \<Rightarrow> (r, Inl (ErrAlreadyAccepted, None))
                | PhoneCallStateDiscarded \<Rightarrow> (r, Inl (ErrAlreadyDeclined, None))
                | _ \<Rightarrow> (r, Inl (ErrPeerInvalid, None))))"

definition DiscardCallWithSlug :: "int \<Rightarrow> registry \<Rightarrow> int \<Rightarrow> int \<Rightarrow> int \<Rightarrow> discard_reason \<Rightarrow> string \<Rightarrow>
    int \<Rightarrow> registry \<times> (phone_error + phone_call \<times> bool)" where
  "DiscardCallWithSlug now r user i accessHash reason slug duration =
     (case lookupLocked r i accessHash of
        Inl err \<Rightarrow> (r, Inl err)
      | Inr e \<Rightarrow>
          if \<not> PhoneCall_HasParticipant (ce_call e) user then (r, Inl ErrPeerInvalid)
          else if PhoneCall_Terminal (ce_call e) then (r, Inr (ce_call e, True))
          else let reason1 = (if reason = PhoneCallDiscardReasonNone
                              then PhoneCallDiscardReasonHangup else reason);
                   slug1 = (if reason1 \<noteq> PhoneCallDiscardReasonMigrateConference then [] else slug);
                   duration1 = (if pc_StartDate (ce_call e) = 0 \<or> duration < 0 then 0 else duration)
               in case markDiscardedWithSlugLocked r i e reason1 slug1 duration1 now of
                    (r', c) \<Rightarrow> (r', Inr (c, False)))"

definition DiscardCall :: "int \<Rightarrow> registry \<Rightarrow> int \<Rightarrow> int \<Rightarrow> int \<Rightarrow> discard_reason \<Rightarrow> int \<Rightarrow>
    registry \<times> (phone_error + phone_call \<times> bool)" where
  "DiscardCall now r user i accessHash reason duration =
     DiscardCallWithSlug now r user i accessHash reason [] duration"

text \<open>The loop over the registry; each entry is read as it stands when the loop reaches it.\<close>

fun expire_loop :: "int \<Rightarrow> int \<Rightarrow> registry \<Rightarrow> phone_call list \<Rightarrow> (int \<times> call_entry) list \<Rightarrow>
    registry \<times> phone_call list" where
  "expire_loop now ringSec r expired [] = (r, expired)"
| "expire_loop now ringSec r expired ((i, e) # rest) =
     (if PhoneCall_Terminal (ce_call e) \<or> pc_State (ce_call e) = PhoneCallStateConfirmed
      then expire_loop now ringSec r expired rest
      else if now - pc_Date (ce_call e) \<le> ringSec then expire_loop now ringSec r expired rest
      else let reason = (if pc_State (ce_call e) = PhoneCallStateAccepted
                         then PhoneCallDiscardReasonDisconnect else PhoneCallDiscardReasonMissed)
           in case markDiscardedLocked r i e reason 0 now of
                (r', c) \<Rightarrow> expire_loop now ringSec r' (expired @ [c]) rest)"

definition ExpireDue :: "phone_config \<Rightarrow> int \<Rightarrow> registry \<Rightarrow> registry \<times> phone_call list" where
  "ExpireDue cfg now r =
     (case expire_loop now (seconds (cfg_RingTimeout cfg)) r [] (reg_byID r) of
        (r1, expired) \<Rightarrow> (sweepTombstonesLocked r1 now (seconds (cfg_TombstoneTTL cfg)), expired))"

text \<open>The rate window of an entry: the entry after a packet, and whether the packet is over the cap.\<close>

definition count_packet :: "phone_config \<Rightarrow> int \<Rightarrow> call_entry \<Rightarrow> call_entry \<times> bool" where
  "count_packet cfg now e =
     (let e2 = (if ce_sigWindowSec e \<noteq> now
                then e\<lparr>ce_sigWindowSec := now, ce_sigCount := 0\<rparr> else e)
      in if ce_sigCount e2 \<ge> cfg_SignalingRatePerSecond cfg then (e2, True)
         else (e2\<lparr>ce_sigCount := ce_sigCount e2 + 1\<rparr>, False))"

text \<open>
  \<open>Signal\<close>: the verdict and, when the packet goes through, the user and device \<open>forward\<close> is called
  with. The counters belong to the entry; when the entry has left the registry between the two
  critical sections, its counters are no longer reachable and only the verdict matters. An id is
  drawn from 63 random bits and is taken not to return within the same call of \<open>Signal\<close>.
\<close>

definition Signal :: "phone_config \<Rightarrow> int \<Rightarrow> (registry \<Rightarrow> registry) \<Rightarrow> registry \<Rightarrow> int \<Rightarrow> int \<Rightarrow> int \<Rightarrow>
    registry \<times> (phone_error + bool) \<times> (int \<times> session_ref) option" where
  "Signal cfg now race r user i accessHash =
     (case lookupLocked r i accessHash of
        Inl err \<Rightarrow> (r, Inl err, None)
      | Inr e \<Rightarrow>
          if \<not> PhoneCall_HasParticipant (ce_call e) user then (r, Inl ErrPeerInvalid, None)
          else let peer = PhoneCall_PeerOf (ce_call e) user;
                   peerDevice = (if peer = pc_AdminID (ce_call e) then pc_CallerDevice (ce_call e)
                                 else pc_CalleeDevice (ce_call e))
               in if pc_State (ce_call e) = PhoneCallStateDiscarded then (r, Inr True, None)
                  else if pc_State (ce_call e) \<noteq> PhoneCallStateAccepted \<and>
                          pc_State (ce_call e) \<noteq> PhoneCallStateConfirmed
                  then (r, Inl ErrPeerInvalid, None)
                  else let r1 = race r;
                           (r2, dropped) =
                             (case map_of (reg_byID r1) i of
                                None \<Rightarrow> (r1, snd (count_packet cfg now e))
                              | Some e1 \<Rightarrow>
                                  (r1\<lparr>reg_byID := AList.update i (fst (count_packet cfg now e1))
                                        (reg_byID r1)\<rparr>, snd (count_packet cfg now e1)))
                       in if dropped then (r2, Inr True, None)
                          else (r2, Inr False, Some (peer, peerDevice)))"

definition Phone_Lookup :: "registry \<Rightarrow> int \<Rightarrow> int \<Rightarrow> phone_call option" where
  "Phone_Lookup r i accessHash =
     (case lookupLocked r i accessHash of Inl _ \<Rightarrow> None | Inr e \<Rightarrow> Some (ce_call e))"

section \<open>The registry invariant\<close>

definition live_of :: "int \<Rightarrow> int \<times> call_entry \<Rightarrow> bool" where
  "live_of u p \<longleftrightarrow> \<not> PhoneCall_Terminal (ce_call (snd p)) \<and> pc_AdminID (ce_call (snd p)) = u"

definition live_count :: "registry \<Rightarrow> int \<Rightarrow> int" where
  "live_count r u = int (length (filter (live_of u) (reg_byID r)))"

text \<open>
  What a call's state promises: an accepted call has the callee's public value and a negotiated
  protocol; a confirmed call has in addition a \<open>g_a\<close> that opens the caller's commitment.
\<close>

definition call_ok :: "phone_call \<Rightarrow> bool" where
  "call_ok c \<longleftrightarrow> pc_State c \<noteq> PhoneCallStateNone \<and> length (pc_GAHash c) = gaHashSize \<and>
     (pc_State c = PhoneCallStateAccepted \<or> pc_State c = PhoneCallStateConfirmed \<longrightarrow>
        length (pc_GB c) = dhPubSize \<and> (\<exists>b\<in>set (pc_GB c). b \<noteq> 0) \<and>
        (\<exists>order. negotiateProtocol order (pc_CallerProtocol c) (pc_CalleeProtocol c)
           = Inr (pc_Protocol c))) \<and>
     (pc_State c = PhoneCallStateConfirmed \<longrightarrow>
        length (pc_GA c) = dhPubSize \<and> sha256 (pc_GA c) = pc_GAHash c \<and>
        pc_P2PAllowed c = (cp_UDPP2P (pc_CallerProtocol c) \<and> cp_UDPP2P (pc_CalleeProtocol c) \<and>
          pc_PrivacyP2P c))"

definition entry_ok :: "registry \<Rightarrow> int \<Rightarrow> call_entry \<Rightarrow> bool" where
  "entry_ok r i e \<longleftrightarrow> pc_ID (ce_call e) = i \<and> call_ok (ce_call e) \<and>
     (\<not> PhoneCall_Terminal (ce_call e) \<longrightarrow>
        reg_byRandom r (pc_AdminID (ce_call e), pc_RandomID (ce_call e)) = Some i)"

definition reg_ok :: "phone_config \<Rightarrow> registry \<Rightarrow> bool" where
  "reg_ok cfg r \<longleftrightarrow> distinct (map fst (reg_byID r)) \<and>
     (\<forall>i e. map_of (reg_byID r) i = Some e \<longrightarrow> entry_ok r i e) \<and>
     (\<forall>u. reg_active r u = live_count r u \<and> live_count r u \<le> cfg_MaxActivePerUser cfg) \<and>
     int (length (reg_byID r)) \<le> cfg_MaxRegistryEntries cfg"

definition cfg_ok :: "phone_config \<Rightarrow> bool" where
  "cfg_ok cfg \<longleftrightarrow> 0 < cfg_MaxActivePerUser cfg \<and> 0 < cfg_MaxRegistryEntries cfg"

lemma withDefaults_ok: "cfg_ok (withDefaults c)"
  by (simp add: cfg_ok_def withDefaults_def)

lemma newRegistry_ok: "cfg_ok cfg \<Longrightarrow> reg_ok cfg newRegistry"
  by (simp add: reg_ok_def newRegistry_def live_count_def cfg_ok_def)

lemma reg_okD:
  assumes "reg_ok cfg r" "map_of (reg_byID r) i = Some e"
  shows "entry_ok r i e" "pc_ID (ce_call e) = i" "call_ok (ce_call e)"
    "distinct (map fst (reg_byID r))"
  using assms by (auto simp: reg_ok_def entry_ok_def)

lemma live_count_put:
  assumes "distinct (map fst (reg_byID r))" "map_of (reg_byID r) i = Some e"
  shows "live_count (put_call r i e c) u =
    live_count r u - (if live_of u (i, e) then 1 else 0) + (if live_of u (i, e\<lparr>ce_call := c\<rparr>) then 1 else 0)"
  using count_update [OF assms] by (simp add: live_count_def put_call_def)

lemma put_call_live_ok:
  assumes "reg_ok cfg r" "map_of (reg_byID r) i = Some e" "\<not> PhoneCall_Terminal (ce_call e)"
    and "\<not> PhoneCall_Terminal c" "call_ok c" "pc_ID c = i"
    "pc_AdminID c = pc_AdminID (ce_call e)" "pc_RandomID c = pc_RandomID (ce_call e)"
  shows "reg_ok cfg (put_call r i e c)"
proof -
  have d: "distinct (map fst (reg_byID r))" using reg_okD(4) [OF assms(1,2)] .
  have "live_count (put_call r i e c) u = live_count r u" for u
    unfolding live_count_put [OF d assms(2)] using assms(3,4,7) by (simp add: live_of_def)
  moreover have "entry_ok (put_call r i e c) j x"
    if "map_of (reg_byID (put_call r i e c)) j = Some x" for j x
    using that assms reg_okD(1) [OF assms(1)]
    by (auto simp: put_call_def update_conv' entry_ok_def split: if_splits)
  ultimately show ?thesis
    using assms(1) length_update_present [OF assms(2)]
    by (simp add: reg_ok_def put_call_def distinct_update)
qed

lemma live_count_pos:
  assumes "map_of (reg_byID r) i = Some e" "\<not> PhoneCall_Terminal (ce_call e)"
  shows "1 \<le> live_count r (pc_AdminID (ce_call e))"
proof -
  have "(i, e) \<in> set (filter (live_of (pc_AdminID (ce_call e))) (reg_byID r))"
    using assms map_of_SomeD [OF assms(1)] by (simp add: live_of_def)
  then have "filter (live_of (pc_AdminID (ce_call e))) (reg_byID r) \<noteq> []" by (metis empty_iff list.set(1))
  then show ?thesis unfolding live_count_def
    by (metis length_greater_0_conv of_nat_0_less_iff int_one_le_iff_zero_less)
qed

abbreviation discarded :: "discard_reason \<Rightarrow> string \<Rightarrow> int \<Rightarrow> int \<Rightarrow> phone_call \<Rightarrow> phone_call" where
  "discarded reason slug duration now c \<equiv> c\<lparr>pc_State := PhoneCallStateDiscarded,
     pc_DiscardReason := reason, pc_DiscardReasonSlug := slug, pc_Duration := duration,
     pc_DiscardedAt := now\<rparr>"

lemma mark_ok:
  assumes "reg_ok cfg r" "map_of (reg_byID r) i = Some e" "\<not> PhoneCall_Terminal (ce_call e)"
    and "markDiscardedWithSlugLocked r i e reason slug duration now = (r', c)"
  shows "reg_ok cfg r'" and "c = discarded reason slug duration now (ce_call e)"
    and "reg_byID r' = AList.update i (e\<lparr>ce_call := c\<rparr>) (reg_byID r)"
    and "reg_byRandom r' = reg_byRandom r"
proof -
  let ?u = "pc_AdminID (ce_call e)"
  show c: "c = discarded reason slug duration now (ce_call e)"
    and b: "reg_byID r' = AList.update i (e\<lparr>ce_call := c\<rparr>) (reg_byID r)"
    and rnd: "reg_byRandom r' = reg_byRandom r"
    using assms(3,4)
    by (auto simp: markDiscardedWithSlugLocked_def Let_def decActiveLocked_def put_call_def)
  have d: "distinct (map fst (reg_byID r))" using reg_okD(4) [OF assms(1,2)] .
  have pos: "1 \<le> reg_active r ?u"
    using live_count_pos [OF assms(2,3)] assms(1) by (simp add: reg_ok_def)
  have act: "reg_active r' u = reg_active r u - (if u = ?u then 1 else 0)" for u
    using assms(3,4) pos
    by (auto simp: markDiscardedWithSlugLocked_def Let_def decActiveLocked_def put_call_def)
  have live: "live_count r' u = live_count r u - (if u = ?u then 1 else 0)" for u
    using count_update [OF d assms(2), of "live_of u" "e\<lparr>ce_call := c\<rparr>"] assms(3) b c
    by (auto simp: live_count_def live_of_def PhoneCall_Terminal_def)
  have "entry_ok r' j x" if "map_of (reg_byID r') j = Some x" for j x
  proof (cases "j = i")
    case True
    then have "x = e\<lparr>ce_call := c\<rparr>" using that b by (simp add: update_conv')
    then show ?thesis using True c reg_okD(2,3) [OF assms(1,2)]
      by (simp add: entry_ok_def call_ok_def PhoneCall_Terminal_def)
  next
    case False
    then have "map_of (reg_byID r) j = Some x" using that b by (simp add: update_conv')
    from reg_okD(1) [OF assms(1) this] rnd show ?thesis by (simp add: entry_ok_def)
  qed
  moreover have "live_count r' u \<le> cfg_MaxActivePerUser cfg" for u
  proof -
    have "live_count r u \<le> cfg_MaxActivePerUser cfg" using assms(1) by (simp add: reg_ok_def)
    then show ?thesis using live [of u] by (simp split: if_splits)
  qed
  ultimately show "reg_ok cfg r'"
    using assms(1) b d act live length_update_present [OF assms(2)]
    by (simp add: reg_ok_def distinct_update)
qed

lemma remove_ok:
  assumes "reg_ok cfg r" "map_of (reg_byID r) i = Some e" "PhoneCall_Terminal (ce_call e)"
    and "r' = removeLocked r i e False"
  shows "reg_ok cfg r'" and "reg_byID r' = AList.delete i (reg_byID r)"
    and "reg_active r' = reg_active r"
proof -
  show b: "reg_byID r' = AList.delete i (reg_byID r)" and act: "reg_active r' = reg_active r"
    using assms(4) by (auto simp: removeLocked_def Let_def)
  have d: "distinct (map fst (reg_byID r))" using reg_okD(4) [OF assms(1,2)] .
  have "filter (live_of u) (AList.delete i (reg_byID r)) = filter (live_of u) (reg_byID r)" for u
  proof (rule count_delete [OF assms(2)])
    fix w assume "(i, w) \<in> set (reg_byID r)"
    then have "w = e" using map_of_unique [OF d] assms(2) by simp
    then show "\<not> live_of u (i, w)" using assms(3) by (simp add: live_of_def)
  qed
  then have live: "live_count r' u = live_count r u" for u
    using b by (simp add: live_count_def)
  have rnd: "reg_byRandom r k = Some j \<Longrightarrow> j \<noteq> i \<Longrightarrow> reg_byRandom r' k = Some j" for k j
    using assms(4) by (auto simp: removeLocked_def Let_def)
  have "entry_ok r' j x" if "map_of (reg_byID r') j = Some x" for j x
    using that b rnd reg_okD(1) [OF assms(1), of j x]
    by (auto simp: delete_conv' entry_ok_def split: if_splits)
  moreover have "length (AList.delete i (reg_byID r)) \<le> length (reg_byID r)"
    by (rule length_delete_le)
  ultimately show "reg_ok cfg r'"
    using assms(1) b d act live by (auto simp: reg_ok_def distinct_delete)
qed

section \<open>The loops over the registry\<close>

abbreviation expired_tombstone :: "int \<Rightarrow> int \<Rightarrow> call_entry \<Rightarrow> bool" where
  "expired_tombstone now ttl e \<equiv>
     PhoneCall_Terminal (ce_call e) \<and> now - pc_DiscardedAt (ce_call e) > ttl"

lemma sweep_fold:
  assumes "reg_ok cfg acc" "distinct (map fst l)"
    "\<And>i e. (i, e) \<in> set l \<Longrightarrow> map_of (reg_byID acc) i = Some e"
    "acc' = fold (\<lambda>(i, e) acc. if expired_tombstone now ttl e then removeLocked acc i e False else acc)
       l acc"
  shows "reg_ok cfg acc' \<and> reg_active acc' = reg_active acc \<and>
    (\<forall>j. map_of (reg_byID acc') j =
       (if \<exists>e. (j, e) \<in> set l \<and> expired_tombstone now ttl e then None else map_of (reg_byID acc) j))"
  using assms
proof (induction l arbitrary: acc)
  case (Cons p l)
  obtain i e where p: "p = (i, e)" by (cases p)
  have here: "map_of (reg_byID acc) i = Some e" using Cons.prems(3) p by simp
  have notin: "i \<notin> fst ` set l" using Cons.prems(2) p by simp
  let ?next = "if expired_tombstone now ttl e then removeLocked acc i e False else acc"
  have ok: "reg_ok cfg ?next" "reg_active ?next = reg_active acc"
    and look: "map_of (reg_byID ?next) j =
      (if j = i \<and> expired_tombstone now ttl e then None else map_of (reg_byID acc) j)" for j
    using remove_ok [OF Cons.prems(1) here _ refl] Cons.prems(1) by (auto simp: delete_conv')
  have "map_of (reg_byID ?next) j = Some x" if "(j, x) \<in> set l" for j x
    using that notin look Cons.prems(3) p by (force simp: image_iff)
  from Cons.IH [OF ok(1) _ this] Cons.prems(2,4) p
  have IH: "reg_ok cfg acc' \<and> reg_active acc' = reg_active ?next \<and>
    (\<forall>j. map_of (reg_byID acc') j =
       (if \<exists>e. (j, e) \<in> set l \<and> expired_tombstone now ttl e then None else map_of (reg_byID ?next) j))"
    by simp
  then show ?case using ok(2) look p notin by (auto simp: image_iff)
qed simp

text \<open>Sweeping forgets exactly the tombstones past their time, and no live call.\<close>

lemma sweep_spec:
  assumes "reg_ok cfg r"
  shows "reg_ok cfg (sweepTombstonesLocked r now ttl)"
    and "reg_active (sweepTombstonesLocked r now ttl) = reg_active r"
    and "map_of (reg_byID (sweepTombstonesLocked r now ttl)) j =
      (case map_of (reg_byID r) j of
         None \<Rightarrow> None | Some e \<Rightarrow> if expired_tombstone now ttl e then None else Some e)"
proof -
  have d: "distinct (map fst (reg_byID r))" using assms by (simp add: reg_ok_def)
  have *: "reg_ok cfg (sweepTombstonesLocked r now ttl) \<and>
      reg_active (sweepTombstonesLocked r now ttl) = reg_active r \<and>
    (\<forall>j. map_of (reg_byID (sweepTombstonesLocked r now ttl)) j =
       (if \<exists>e. (j, e) \<in> set (reg_byID r) \<and> expired_tombstone now ttl e then None
        else map_of (reg_byID r) j))"
    by (rule sweep_fold [OF assms d])
      (use map_of_unique [OF d] in \<open>auto simp: sweepTombstonesLocked_def case_prod_beta\<close>)
  then show "reg_ok cfg (sweepTombstonesLocked r now ttl)"
    "reg_active (sweepTombstonesLocked r now ttl) = reg_active r" by auto
  from * show "map_of (reg_byID (sweepTombstonesLocked r now ttl)) j =
      (case map_of (reg_byID r) j of
         None \<Rightarrow> None | Some e \<Rightarrow> if expired_tombstone now ttl e then None else Some e)"
    using map_of_unique [OF d] by (auto split: option.split)
qed

abbreviation due :: "int \<Rightarrow> int \<Rightarrow> call_entry \<Rightarrow> bool" where
  "due now ringSec e \<equiv> \<not> PhoneCall_Terminal (ce_call e) \<and>
     pc_State (ce_call e) \<noteq> PhoneCallStateConfirmed \<and> now - pc_Date (ce_call e) > ringSec"

definition timed_out :: "int \<Rightarrow> phone_call \<Rightarrow> phone_call" where
  "timed_out now c = discarded (if pc_State c = PhoneCallStateAccepted
     then PhoneCallDiscardReasonDisconnect else PhoneCallDiscardReasonMissed) [] 0 now c"

lemma expire_fold:
  assumes "reg_ok cfg r" "distinct (map fst l)"
    "\<And>i e. (i, e) \<in> set l \<Longrightarrow> map_of (reg_byID r) i = Some e"
    "expire_loop now ringSec r out l = (r', out')"
  shows "reg_ok cfg r' \<and>
    out' = out @ map (\<lambda>(i, e). timed_out now (ce_call e)) (filter (\<lambda>(i, e). due now ringSec e) l) \<and>
    (\<forall>j. map_of (reg_byID r') j =
       (case map_of (reg_byID r) j of
          None \<Rightarrow> None
        | Some e \<Rightarrow> Some (if (j, e) \<in> set l \<and> due now ringSec e
            then e\<lparr>ce_call := timed_out now (ce_call e)\<rparr> else e)))"
  using assms
proof (induction l arbitrary: r out)
  case Nil
  then show ?case by (auto split: option.split)
next
  case (Cons p l)
  obtain i e where p: "p = (i, e)" by (cases p)
  have here: "map_of (reg_byID r) i = Some e" using Cons.prems(3) p by simp
  have notin: "\<And>x. (i, x) \<notin> set l" using Cons.prems(2) p by force
  show ?case
  proof (cases "due now ringSec e")
    case False
    with Cons.prems(4) p have "expire_loop now ringSec r out l = (r', out')" by (auto split: if_splits)
    with Cons.IH [OF Cons.prems(1)] Cons.prems(2,3) p False here notin show ?thesis
      by (auto split: option.split)
  next
    case True
    let ?c = "timed_out now (ce_call e)"
    obtain r1 c1 where m: "markDiscardedWithSlugLocked r i e
        (if pc_State (ce_call e) = PhoneCallStateAccepted then PhoneCallDiscardReasonDisconnect
         else PhoneCallDiscardReasonMissed) [] 0 now = (r1, c1)" by fastforce
    note mk = mark_ok [OF Cons.prems(1) here _ m]
    have c1: "c1 = ?c" and ok: "reg_ok cfg r1"
      and look: "map_of (reg_byID r1) = (map_of (reg_byID r))(i \<mapsto> e\<lparr>ce_call := ?c\<rparr>)"
      using mk True by (auto simp: timed_out_def update_conv')
    have "expire_loop now ringSec r1 (out @ [?c]) l = (r', out')"
      using Cons.prems(4) p True m c1 by (simp add: markDiscardedLocked_def Let_def)
    moreover have "map_of (reg_byID r1) j = Some x" if "(j, x) \<in> set l" for j x
      using that notin look Cons.prems(3) p by auto
    ultimately show ?thesis
      using Cons.IH [OF ok, of "out @ [?c]"] Cons.prems(2) p True here notin look
      by (auto split: option.split)
  qed
qed

lemma expire_spec:
  assumes "reg_ok cfg r" "expire_loop now ringSec r [] (reg_byID r) = (r', out)"
  shows "reg_ok cfg r'"
    and "out = map (\<lambda>(i, e). timed_out now (ce_call e)) (filter (\<lambda>(i, e). due now ringSec e) (reg_byID r))"
    and "map_of (reg_byID r') j = map_option (\<lambda>e. if due now ringSec e
       then e\<lparr>ce_call := timed_out now (ce_call e)\<rparr> else e) (map_of (reg_byID r) j)"
proof -
  have d: "distinct (map fst (reg_byID r))" using assms by (simp add: reg_ok_def)
  note ef = expire_fold [OF assms(1) d _ assms(2)]
  have *: "(i, e) \<in> set (reg_byID r) \<longleftrightarrow> map_of (reg_byID r) i = Some e" for i e
    using map_of_unique [OF d] .
  show "reg_ok cfg r'"
    and "out = map (\<lambda>(i, e). timed_out now (ce_call e)) (filter (\<lambda>(i, e). due now ringSec e) (reg_byID r))"
    using ef * by auto
  show "map_of (reg_byID r') j = map_option (\<lambda>e. if due now ringSec e
       then e\<lparr>ce_call := timed_out now (ce_call e)\<rparr> else e) (map_of (reg_byID r) j)"
    using ef * by (auto split: option.split)
qed

section \<open>Every operation keeps the registry in order\<close>

inductive phone_step :: "phone_config \<Rightarrow> registry \<Rightarrow> registry \<Rightarrow> bool" for cfg where
  request: "phone_step cfg r (fst (RequestCall cfg now draws r caller inp))"
| received: "phone_step cfg r (fst (ReceivedCall now r user i h))"
| accept: "phone_step cfg r (fst (AcceptCall order r user i h gb proto dev))"
| confirm: "phone_step cfg r (fst (ConfirmCall now r user i h ga fp proto))"
| hangup: "phone_step cfg r (fst (DiscardCallWithSlug now r user i h reason slug duration))"
| expire: "phone_step cfg r (fst (ExpireDue cfg now r))"
| count_signal: "map_of (reg_byID r) i = Some e \<Longrightarrow> phone_step cfg r (r\<lparr>reg_byID :=
    AList.update i (e\<lparr>ce_sigWindowSec := w, ce_sigCount := n\<rparr>) (reg_byID r)\<rparr>)"

fun call_rank :: "call_state \<Rightarrow> nat" where
  "call_rank PhoneCallStateNone = 0"
| "call_rank PhoneCallStateRequested = 1"
| "call_rank PhoneCallStateRinging = 2"
| "call_rank PhoneCallStateAccepted = 3"
| "call_rank PhoneCallStateConfirmed = 4"
| "call_rank PhoneCallStateDiscarded = 5"

definition call_advances :: "phone_call \<Rightarrow> phone_call \<Rightarrow> bool" where
  "call_advances c c' \<longleftrightarrow> pc_ID c' = pc_ID c \<and> pc_AccessHash c' = pc_AccessHash c \<and>
     pc_AdminID c' = pc_AdminID c \<and> pc_ParticipantID c' = pc_ParticipantID c \<and>
     pc_Date c' = pc_Date c \<and> pc_GAHash c' = pc_GAHash c \<and> pc_RandomID c' = pc_RandomID c \<and>
     pc_CallerProtocol c' = pc_CallerProtocol c \<and> pc_PrivacyP2P c' = pc_PrivacyP2P c \<and>
     call_rank (pc_State c) \<le> call_rank (pc_State c')"

lemma call_rank_le_5: "call_rank st \<le> 5"
  by (cases st) simp_all

lemma call_advances_refl [simp]: "call_advances c c"
  by (simp add: call_advances_def)

lemma call_advances_discarded [simp]: "call_advances c (discarded reason slug duration now c)"
  using call_rank_le_5 by (simp add: call_advances_def)

text \<open>The calls of a registry that are not over stay in it and advance.\<close>

definition live_calls_advance :: "registry \<Rightarrow> registry \<Rightarrow> bool" where
  "live_calls_advance r r' \<longleftrightarrow>
     (\<forall>i e. map_of (reg_byID r) i = Some e \<and> \<not> PhoneCall_Terminal (ce_call e) \<longrightarrow>
        (\<exists>e'. map_of (reg_byID r') i = Some e' \<and> call_advances (ce_call e) (ce_call e')))"

lemma live_calls_advance_refl [simp]: "live_calls_advance r r"
  by (auto simp: live_calls_advance_def)

lemma live_calls_advance_update:
  assumes "map_of (reg_byID r) i = Some e" "reg_byID r' = AList.update i e' (reg_byID r)"
    "call_advances (ce_call e) (ce_call e')"
  shows "live_calls_advance r r'"
  using assms by (auto simp: live_calls_advance_def update_conv')

lemma put_call_advance:
  assumes "map_of (reg_byID r) i = Some e" "call_advances (ce_call e) c"
  shows "live_calls_advance r (put_call r i e c)"
  using live_calls_advance_update [OF assms(1), of "put_call r i e c"] assms(2)
  by (simp add: put_call_def)

lemma lookupLocked_Inr:
  "lookupLocked r i h = Inr e \<longleftrightarrow> map_of (reg_byID r) i = Some e \<and> pc_AccessHash (ce_call e) = h"
  by (auto simp: lookupLocked_def split: option.splits)

lemma lookupLocked_Inl: "lookupLocked r i h = Inl err \<Longrightarrow> err = ErrPeerInvalid"
  by (auto simp: lookupLocked_def split: option.splits if_splits)

lemma new_id_loop_fresh:
  "new_id_loop n r draws k = (m, Inr v) \<Longrightarrow> map_of (reg_byID r) v = None \<and> 0 < v"
proof (induction n r draws k rule: new_id_loop.induct)
  case (2 n r draws i)
  have "randomPositiveInt64 d = Inr v \<Longrightarrow> 0 < v" for d v
    using uint_nonnegative order_le_less
    by (fastforce simp: randomPositiveInt64_def Let_def split: option.splits if_splits)
  with 2 show ?case by (fastforce split: sum.splits if_splits)
qed simp

lemma live_call_of_complete:
  assumes "reg_ok cfg r" "live_call_of r caller random = None"
    "map_of (reg_byID r) j = Some x" "\<not> PhoneCall_Terminal (ce_call x)"
  shows "(pc_AdminID (ce_call x), pc_RandomID (ce_call x)) \<noteq> (caller, random)"
  using assms reg_okD(1) [OF assms(1,3)] by (auto simp: live_call_of_def entry_ok_def)

lemma add_call_ok:
  assumes ok: "reg_ok cfg r" and none: "live_call_of r caller (cr_RandomID inp) = None"
    and fresh: "map_of (reg_byID r) i = None" and hash: "length (cr_GAHash inp) = gaHashSize"
    and room: "int (length (reg_byID r)) < cfg_MaxRegistryEntries cfg"
      "reg_active r caller < cfg_MaxActivePerUser cfg"
  shows "reg_ok cfg (r\<lparr>reg_byID := AList.update i
             \<lparr>ce_call = new_call i ah caller now inp, ce_sigWindowSec = 0, ce_sigCount = 0\<rparr> (reg_byID r),
           reg_byRandom := (reg_byRandom r)((caller, cr_RandomID inp) \<mapsto> i),
           reg_active := (reg_active r)(caller := reg_active r caller + 1)\<rparr>)" (is "reg_ok cfg ?r")
proof -
  let ?e = "\<lparr>ce_call = new_call i ah caller now inp, ce_sigWindowSec = 0, ce_sigCount = 0\<rparr>"
  have b: "reg_byID ?r = reg_byID r @ [(i, ?e)]" using update_absent [OF fresh] by simp
  have live: "live_count ?r u = live_count r u + (if u = caller then 1 else 0)" for u
    unfolding live_count_def b
    by (simp add: live_of_def new_call_def PhoneCall_Terminal_def)
  have d: "distinct (map fst (reg_byID ?r))" using ok by (simp add: reg_ok_def distinct_update)
  have ent: "entry_ok ?r j x" if "map_of (reg_byID ?r) j = Some x" for j x
  proof (cases "j = i")
    case True
    then have "x = ?e" using that by (simp add: update_conv')
    then show ?thesis
      using True hash by (simp add: entry_ok_def call_ok_def new_call_def)
  next
    case False
    then have old: "map_of (reg_byID r) j = Some x" using that by (simp add: update_conv')
    then show ?thesis
      using reg_okD(1) [OF ok old] live_call_of_complete [OF ok none old] by (auto simp: entry_ok_def)
  qed
  have act: "reg_active ?r u = live_count ?r u \<and> live_count ?r u \<le> cfg_MaxActivePerUser cfg" for u
    using ok room(2) live [of u] by (auto simp: reg_ok_def)
  show ?thesis unfolding reg_ok_def using d ent act room(1) b by (simp del: fun_upd_apply)
qed

lemma RequestCall_cases:
  assumes "RequestCall cfg now draws r caller inp = (r', res)"
  obtains (rejected) err where "r' = r" "res = Inl err"
  | (full) r1 err where "r1 = sweepTombstonesLocked r now (seconds (cfg_TombstoneTTL cfg))" "r' = r1"
      "res = Inl err"
  | (known) r1 c where "r1 = sweepTombstonesLocked r now (seconds (cfg_TombstoneTTL cfg))" "r' = r1"
      "live_call_of r1 caller (cr_RandomID inp) = Some c" "res = Inr c"
  | (added) r1 i ah where "r1 = sweepTombstonesLocked r now (seconds (cfg_TombstoneTTL cfg))"
      "live_call_of r1 caller (cr_RandomID inp) = None" "map_of (reg_byID r1) i = None"
      "length (cr_GAHash inp) = gaHashSize"
      "int (length (reg_byID r1)) < cfg_MaxRegistryEntries cfg"
      "reg_active r1 caller < cfg_MaxActivePerUser cfg"
      "r' = r1\<lparr>reg_byID := AList.update i
             \<lparr>ce_call = new_call i ah caller now inp, ce_sigWindowSec = 0, ce_sigCount = 0\<rparr> (reg_byID r1),
           reg_byRandom := (reg_byRandom r1)((caller, cr_RandomID inp) \<mapsto> i),
           reg_active := (reg_active r1)(caller := reg_active r1 caller + 1)\<rparr>"
      "res = Inr (new_call i ah caller now inp)"
proof (cases "validateProtocol (cr_Protocol inp) = None \<and> length (cr_GAHash inp) = gaHashSize")
  case False
  with assms have "r' = r \<and> (\<exists>err. res = Inl err)"
    by (auto simp: RequestCall_def split: option.splits if_splits)
  then show thesis using rejected by blast
next
  case valid: True
  define r1 where "r1 = sweepTombstonesLocked r now (seconds (cfg_TombstoneTTL cfg))"
  show thesis
  proof (cases "live_call_of r1 caller (cr_RandomID inp)")
    case (Some c)
    with assms valid show thesis by (intro known) (auto simp: RequestCall_def r1_def Let_def)
  next
    case None
    obtain n v where nid: "newIDLocked r1 draws = (n, v)" by fastforce
    show thesis
    proof (cases "int (length (reg_byID r1)) \<ge> cfg_MaxRegistryEntries cfg \<or>
        reg_active r1 caller \<ge> cfg_MaxActivePerUser cfg \<or> (\<exists>err. v = Inl err) \<or>
        (\<exists>err. randomPositiveInt64 (draws n) = Inl err)")
      case True
      with assms valid None nid have "r' = r1 \<and> (\<exists>err. res = Inl err)"
        by (auto simp: RequestCall_def r1_def [symmetric] Let_def split: sum.splits if_splits)
      then show thesis using full r1_def by blast
    next
      case False
      then obtain i ah where i: "v = Inr i" "randomPositiveInt64 (draws n) = Inr ah"
        by (metis obj_sumE)
      have "map_of (reg_byID r1) i = None"
        using nid i(1) new_id_loop_fresh by (simp add: newIDLocked_def)
      with assms valid None nid False i show thesis
        by (intro added [of r1 i ah])
          (auto simp: RequestCall_def r1_def [symmetric] Let_def simp del: fun_upd_apply)
    qed
  qed
qed

lemma sweep_advance:
  assumes "reg_ok cfg r"
  shows "live_calls_advance r (sweepTombstonesLocked r now ttl)"
  using sweep_spec(3) [OF assms] by (auto simp: live_calls_advance_def)

lemma live_calls_advance_add:
  assumes "live_calls_advance r r1" "map_of (reg_byID r1) i = None"
    "reg_byID r' = AList.update i e (reg_byID r1)"
  shows "live_calls_advance r r'"
  unfolding live_calls_advance_def
proof (intro allI impI)
  fix j x assume "map_of (reg_byID r) j = Some x \<and> \<not> PhoneCall_Terminal (ce_call x)"
  then obtain x' where "map_of (reg_byID r1) j = Some x'" "call_advances (ce_call x) (ce_call x')"
    using assms(1) by (auto simp: live_calls_advance_def)
  moreover from this assms(2) have "j \<noteq> i" by auto
  ultimately show "\<exists>x'. map_of (reg_byID r') j = Some x' \<and> call_advances (ce_call x) (ce_call x')"
    using assms(3) by (simp add: update_conv')
qed

lemma RequestCall_ok:
  assumes "RequestCall cfg now draws r caller inp = (r', res)" "reg_ok cfg r"
  shows "reg_ok cfg r' \<and> live_calls_advance r r'"
  using assms(1)
proof (cases rule: RequestCall_cases)
  case (added r1 i ah)
  have "reg_ok cfg r1" using sweep_spec(1) [OF assms(2)] added(1) by simp
  moreover from this added have "reg_ok cfg r'" using add_call_ok [of cfg r1] by blast
  moreover have "live_calls_advance r r'"
    by (rule live_calls_advance_add [OF _ added(3)])
      (use sweep_advance [OF assms(2)] added(1,7) in simp_all)
  ultimately show ?thesis by blast
qed (use assms(2) sweep_spec(1) sweep_advance in auto)

lemma ReceivedCall_ok:
  assumes "ReceivedCall now r user i h = (r', res)" "reg_ok cfg r"
  shows "reg_ok cfg r' \<and> live_calls_advance r r'"
proof (cases "lookupLocked r i h")
  case (Inl err)
  with assms show ?thesis by (simp add: ReceivedCall_def)
next
  case (Inr e)
  then have e: "map_of (reg_byID r) i = Some e" by (simp add: lookupLocked_Inr)
  show ?thesis
  proof (cases "user = pc_ParticipantID (ce_call e) \<and> pc_State (ce_call e) = PhoneCallStateRequested")
    case False
    with assms Inr show ?thesis by (auto simp: ReceivedCall_def split: if_splits)
  next
    case True
    let ?c = "(ce_call e)\<lparr>pc_State := PhoneCallStateRinging, pc_ReceiveDate := now\<rparr>"
    have r': "r' = put_call r i e ?c" using assms(1) Inr True by (simp add: ReceivedCall_def Let_def)
    have "reg_ok cfg (put_call r i e ?c)"
      by (rule put_call_live_ok [OF assms(2) e])
        (use True reg_okD(2,3) [OF assms(2) e] in \<open>simp_all add: PhoneCall_Terminal_def call_ok_def\<close>)
    moreover have "live_calls_advance r (put_call r i e ?c)"
      by (rule put_call_advance [OF e]) (use True in \<open>simp add: call_advances_def\<close>)
    ultimately show ?thesis using r' by simp
  qed
qed

lemma AcceptCall_cases:
  assumes "AcceptCall order r user i h gb proto dev = (r', res)"
  obtains (refused) err where "r' = r" "res = Inl err"
  | (accepted) e c p where "lookupLocked r i h = Inr e" "user = pc_ParticipantID (ce_call e)"
      "pc_State (ce_call e) \<notin> {PhoneCallStateAccepted, PhoneCallStateConfirmed, PhoneCallStateDiscarded}"
      "length gb = dhPubSize" "\<exists>b\<in>set gb. b \<noteq> 0"
      "negotiateProtocol order (pc_CallerProtocol (ce_call e)) proto = Inr p"
      "c = (ce_call e)\<lparr>pc_GB := gb, pc_CalleeProtocol := proto, pc_Protocol := p,
             pc_CalleeDevice := dev, pc_State := PhoneCallStateAccepted\<rparr>"
      "r' = put_call r i e c" "res = Inr c"
proof (cases "validateProtocol proto = None \<and> length gb = dhPubSize \<and> \<not> list_all (\<lambda>b. b = 0) gb")
  case False
  with assms have "r' = r \<and> (\<exists>err. res = Inl err)"
    by (auto simp: AcceptCall_def split: option.splits if_splits)
  then show thesis using refused by blast
next
  case valid: True
  show thesis
  proof (cases "lookupLocked r i h")
    case (Inl err)
    with assms valid show thesis by (intro refused) (auto simp: AcceptCall_def)
  next
    case (Inr e)
    note e = this
    show thesis
    proof (cases "user = pc_ParticipantID (ce_call e) \<and> pc_State (ce_call e) \<notin>
        {PhoneCallStateAccepted, PhoneCallStateConfirmed, PhoneCallStateDiscarded}")
      case False
      with assms valid e have "r' = r \<and> (\<exists>err. res = Inl err)"
        by (auto simp: AcceptCall_def split: if_splits)
      then show thesis using refused by blast
    next
      case True
      show thesis
      proof (cases "negotiateProtocol order (pc_CallerProtocol (ce_call e)) proto")
        case (Inl err)
        with assms valid e True have "r' = r \<and> (\<exists>err. res = Inl err)"
          by (auto simp: AcceptCall_def)
        then show thesis using refused by blast
      next
        case (Inr p)
        have "\<exists>b\<in>set gb. b \<noteq> 0" using valid by (auto simp: list_all_iff)
        with Inr assms valid e True show thesis
          by (intro accepted [of e p "(ce_call e)\<lparr>pc_GB := gb, pc_CalleeProtocol := proto,
                pc_Protocol := p, pc_CalleeDevice := dev, pc_State := PhoneCallStateAccepted\<rparr>"])
            (auto simp: AcceptCall_def Let_def)
      qed
    qed
  qed
qed

lemma AcceptCall_ok:
  assumes "AcceptCall order r user i h gb proto dev = (r', res)" "reg_ok cfg r"
  shows "reg_ok cfg r' \<and> live_calls_advance r r'"
  using assms(1)
proof (cases rule: AcceptCall_cases)
  case (accepted e c p)
  have e: "map_of (reg_byID r) i = Some e" using accepted(1) by (simp add: lookupLocked_Inr)
  have "reg_ok cfg (put_call r i e c)"
    by (rule put_call_live_ok [OF assms(2) e])
      (use accepted reg_okD(2,3) [OF assms(2) e] in \<open>auto simp: PhoneCall_Terminal_def call_ok_def\<close>)
  moreover have "live_calls_advance r (put_call r i e c)"
    by (rule put_call_advance [OF e])
      (use accepted(3,7) in \<open>cases "pc_State (ce_call e)"; simp add: call_advances_def\<close>)
  ultimately show ?thesis using accepted(8) by simp
qed (use assms(2) in simp)

lemma mark_both:
  assumes "reg_ok cfg r" "map_of (reg_byID r) i = Some e"
    "markDiscardedWithSlugLocked r i e reason slug duration now = (r', c)"
  shows "reg_ok cfg r' \<and> live_calls_advance r r'"
proof (cases "PhoneCall_Terminal (ce_call e)")
  case True
  with assms show ?thesis by (simp add: markDiscardedWithSlugLocked_def)
next
  case False
  note m = mark_ok [OF assms(1,2) False assms(3)]
  then show ?thesis using live_calls_advance_update [OF assms(2) m(3)] m(2) by simp
qed

lemma ConfirmCall_cases:
  assumes "ConfirmCall now r user i h ga fp proto = (r', res)"
  obtains (refused) err where "r' = r" "res = Inl (err, None)" "err \<noteq> ErrGAHashMismatch"
  | (mismatch) e c where "lookupLocked r i h = Inr e" "pc_State (ce_call e) = PhoneCallStateAccepted"
      "length ga \<noteq> dhPubSize \<or> sha256 ga \<noteq> pc_GAHash (ce_call e)"
      "markDiscardedWithSlugLocked r i e PhoneCallDiscardReasonDisconnect [] 0 now = (r', c)"
      "res = Inl (ErrGAHashMismatch, Some c)"
  | (confirmed) e c where "lookupLocked r i h = Inr e" "user = pc_AdminID (ce_call e)"
      "pc_State (ce_call e) = PhoneCallStateAccepted" "length ga = dhPubSize"
      "sha256 ga = pc_GAHash (ce_call e)"
      "c = (ce_call e)\<lparr>pc_GA := ga, pc_KeyFingerprint := fp, pc_StartDate := now,
         pc_P2PAllowed := (cp_UDPP2P (pc_CallerProtocol (ce_call e)) \<and>
           cp_UDPP2P (pc_CalleeProtocol (ce_call e)) \<and> pc_PrivacyP2P (ce_call e)),
         pc_State := PhoneCallStateConfirmed\<rparr>"
      "r' = put_call r i e c" "res = Inr c"
proof (cases "lookupLocked r i h")
  case (Inl err)
  with assms lookupLocked_Inl [OF Inl] show thesis by (intro refused) (auto simp: ConfirmCall_def)
next
  case (Inr e)
  note e = this
  have val: "validateProtocol proto = Some err \<Longrightarrow> err \<noteq> ErrGAHashMismatch" for err
    by (auto simp: validateProtocol_def split: if_splits)
  show thesis
  proof (cases "user = pc_AdminID (ce_call e) \<and> pc_State (ce_call e) = PhoneCallStateAccepted \<and>
      validateProtocol proto = None")
    case False
    with assms e val have "r' = r \<and> (\<exists>err. res = Inl (err, None) \<and> err \<noteq> ErrGAHashMismatch)"
      by (auto simp: ConfirmCall_def split: call_state.splits option.splits if_splits)
    then show thesis using refused by blast
  next
    case True
    obtain r1 c1 where m: "markDiscardedWithSlugLocked r i e PhoneCallDiscardReasonDisconnect [] 0 now
        = (r1, c1)" by fastforce
    show thesis
    proof (cases "length ga \<noteq> dhPubSize \<or> sha256 ga \<noteq> pc_GAHash (ce_call e)")
      case bad: True
      with assms e True m show thesis
        by (intro mismatch [of e c1]) (auto simp: ConfirmCall_def markDiscardedLocked_def)
    next
      case False
      with assms e True show thesis
        by (intro confirmed [of e]) (auto simp: ConfirmCall_def Let_def)
    qed
  qed
qed

lemma ConfirmCall_ok:
  assumes "ConfirmCall now r user i h ga fp proto = (r', res)" "reg_ok cfg r"
  shows "reg_ok cfg r' \<and> live_calls_advance r r'"
  using assms(1)
proof (cases rule: ConfirmCall_cases)
  case (mismatch e c)
  then show ?thesis using mark_both [OF assms(2) _ mismatch(4)] by (simp add: lookupLocked_Inr)
next
  case (confirmed e c)
  have e: "map_of (reg_byID r) i = Some e" using confirmed(1) by (simp add: lookupLocked_Inr)
  have "reg_ok cfg (put_call r i e c)"
    by (rule put_call_live_ok [OF assms(2) e])
      (use confirmed reg_okD(2,3) [OF assms(2) e] in \<open>auto simp: PhoneCall_Terminal_def call_ok_def\<close>)
  moreover have "live_calls_advance r (put_call r i e c)"
    by (rule put_call_advance [OF e]) (use confirmed(3,6) in \<open>simp add: call_advances_def\<close>)
  ultimately show ?thesis using confirmed(7) by simp
qed (use assms(2) in simp)

lemma DiscardCallWithSlug_ok:
  assumes "DiscardCallWithSlug now r user i h reason slug duration = (r', res)" "reg_ok cfg r"
  shows "reg_ok cfg r' \<and> live_calls_advance r r'"
proof (cases "lookupLocked r i h")
  case (Inl err)
  with assms show ?thesis by (simp add: DiscardCallWithSlug_def)
next
  case (Inr e)
  then have e: "map_of (reg_byID r) i = Some e" by (simp add: lookupLocked_Inr)
  show ?thesis
  proof (cases "PhoneCall_HasParticipant (ce_call e) user \<and> \<not> PhoneCall_Terminal (ce_call e)")
    case False
    with assms Inr show ?thesis by (auto simp: DiscardCallWithSlug_def split: if_splits)
  next
    case True
    with assms(1) Inr obtain reason1 slug1 duration1 c where
      "markDiscardedWithSlugLocked r i e reason1 slug1 duration1 now = (r', c)"
      by (auto simp: DiscardCallWithSlug_def Let_def split: prod.splits)
    then show ?thesis using mark_both [OF assms(2) e] by blast
  qed
qed

lemma ExpireDue_ok:
  assumes "ExpireDue cfg now r = (r', res)" "reg_ok cfg r" "0 \<le> cfg_TombstoneTTL cfg"
  shows "reg_ok cfg r' \<and> live_calls_advance r r'"
proof -
  let ?ttl = "seconds (cfg_TombstoneTTL cfg)"
  obtain r1 out where ex: "expire_loop now (seconds (cfg_RingTimeout cfg)) r [] (reg_byID r) = (r1, out)"
    by fastforce
  note sp = expire_spec [OF assms(2) ex]
  have r': "r' = sweepTombstonesLocked r1 now ?ttl" using assms(1) ex by (simp add: ExpireDue_def)
  have ttl: "0 \<le> ?ttl" using assms(3) by (simp add: seconds_def)
  have "live_calls_advance r r'"
    unfolding live_calls_advance_def
  proof (intro allI impI)
    fix i e assume e: "map_of (reg_byID r) i = Some e \<and> \<not> PhoneCall_Terminal (ce_call e)"
    let ?e1 = "if due now (seconds (cfg_RingTimeout cfg)) e
      then e\<lparr>ce_call := timed_out now (ce_call e)\<rparr> else e"
    have e1: "map_of (reg_byID r1) i = Some ?e1" using sp(3) e by simp
    have "\<not> expired_tombstone now ?ttl ?e1" using ttl e by (auto simp: timed_out_def)
    then have "map_of (reg_byID r') i = Some ?e1"
      using sweep_spec(3) [OF sp(1), of now ?ttl i] e1 r' by auto
    moreover have "call_advances (ce_call e) (ce_call ?e1)" by (simp add: timed_out_def)
    ultimately show "\<exists>e'. map_of (reg_byID r') i = Some e' \<and> call_advances (ce_call e) (ce_call e')"
      by blast
  qed
  with sweep_spec(1) [OF sp(1)] r' show ?thesis by simp
qed

lemma count_signal_ok:
  assumes "reg_ok cfg r" "map_of (reg_byID r) i = Some e"
    "r' = r\<lparr>reg_byID := AList.update i (e\<lparr>ce_sigWindowSec := w, ce_sigCount := n\<rparr>) (reg_byID r)\<rparr>"
  shows "reg_ok cfg r' \<and> live_calls_advance r r'"
proof -
  let ?e = "e\<lparr>ce_sigWindowSec := w, ce_sigCount := n\<rparr>"
  have d: "distinct (map fst (reg_byID r))" using reg_okD(4) [OF assms(1,2)] .
  have live: "live_count r' u = live_count r u" for u
    using count_update [OF d assms(2), of "live_of u" ?e] assms(3)
    by (simp add: live_count_def live_of_def)
  have "entry_ok r' j x" if "map_of (reg_byID r') j = Some x" for j x
    using that assms reg_okD(1) [OF assms(1)]
    by (auto simp: update_conv' entry_ok_def split: if_splits)
  moreover have "reg_active r' = reg_active r" "distinct (map fst (reg_byID r'))"
    "length (reg_byID r') = length (reg_byID r)"
    using assms(3) d length_update_present [OF assms(2)] by (simp_all add: distinct_update)
  ultimately have "reg_ok cfg r'" using assms(1) live by (simp add: reg_ok_def)
  then show ?thesis using live_calls_advance_update [OF assms(2), of r' ?e] assms(3) by simp
qed

lemma phone_step_forward:
  assumes "phone_step cfg r r'" "reg_ok cfg r" "0 \<le> cfg_TombstoneTTL cfg"
  shows "reg_ok cfg r' \<and> live_calls_advance r r'"
  using assms(1)
proof cases
  case (request now draws caller inp)
  then show ?thesis using RequestCall_ok [OF prod.collapse [symmetric] assms(2)] by simp
next
  case (received now user i h)
  then show ?thesis using ReceivedCall_ok [OF prod.collapse [symmetric] assms(2)] by simp
next
  case (accept order user i h gb proto dev)
  then show ?thesis using AcceptCall_ok [OF prod.collapse [symmetric] assms(2)] by simp
next
  case (confirm now user i h ga fp proto)
  then show ?thesis using ConfirmCall_ok [OF prod.collapse [symmetric] assms(2)] by simp
next
  case (hangup now user i h reason slug duration)
  then show ?thesis using DiscardCallWithSlug_ok [OF prod.collapse [symmetric] assms(2)] by simp
next
  case (expire now)
  then show ?thesis using ExpireDue_ok [OF prod.collapse [symmetric] assms(2,3)] by simp
next
  case (count_signal i e w n)
  then show ?thesis using count_signal_ok [OF assms(2)] by blast
qed

abbreviation started :: "phone_config \<Rightarrow> phone_config" where
  "started c \<equiv> withDefaults c"

lemma started_ttl: "0 \<le> cfg_TombstoneTTL (started c)"
  by (simp add: withDefaults_def)

interpretation phone: invariant_system "phone_step (started c)" "reg_ok (started c)" for c
  by unfold_locales (use phone_step_forward [OF _ _ started_ttl] in blast)

lemma reachable_reg_ok: "(phone_step (started c))\<^sup>*\<^sup>* newRegistry r \<Longrightarrow> reg_ok (started c) r"
  using phone.run_inv newRegistry_ok [OF withDefaults_ok] by blast

lemma count_packet_fields:
  "\<exists>w n. fst (count_packet cfg now e) = e\<lparr>ce_sigWindowSec := w, ce_sigCount := n\<rparr>"
proof -
  define k where "k = (if ce_sigWindowSec e \<noteq> now then 0 else ce_sigCount e)"
  have "fst (count_packet cfg now e) = e\<lparr>ce_sigWindowSec := now,
      ce_sigCount := if k \<ge> cfg_SignalingRatePerSecond cfg then k else k + 1\<rparr>"
    by (cases e) (simp add: count_packet_def Let_def k_def)
  then show ?thesis by blast
qed

lemma Signal_registry:
  "fst (Signal cfg now race r user i h) \<in> {r, race r} \<or>
   (\<exists>e. map_of (reg_byID (race r)) i = Some e \<and> fst (Signal cfg now race r user i h) =
      (race r)\<lparr>reg_byID := AList.update i (fst (count_packet cfg now e)) (reg_byID (race r))\<rparr>)"
  by (auto simp: Signal_def Let_def split: sum.split option.split)

text \<open>Forwarding a packet is a run of registry steps as well, whatever happened between its locks.\<close>

lemma Signal_run:
  assumes "(phone_step cfg)\<^sup>*\<^sup>* r (race r)"
  shows "(phone_step cfg)\<^sup>*\<^sup>* r (fst (Signal cfg now race r user i h))"
  using Signal_registry [of cfg now race r user i h]
proof (elim disjE exE conjE)
  fix e assume e: "map_of (reg_byID (race r)) i = Some e" "fst (Signal cfg now race r user i h) =
      (race r)\<lparr>reg_byID := AList.update i (fst (count_packet cfg now e)) (reg_byID (race r))\<rparr>"
  obtain w n where "fst (count_packet cfg now e) = e\<lparr>ce_sigWindowSec := w, ce_sigCount := n\<rparr>"
    using count_packet_fields by blast
  with phone_step.count_signal [OF e(1)] e(2)
  have "phone_step cfg (race r) (fst (Signal cfg now race r user i h))" by simp
  with assms show ?thesis by (rule rtranclp.rtrancl_into_rtrancl)
qed (use assms in auto)

section \<open>Properties\<close>

text \<open>
  The registry's bookkeeping is exact in every reachable state: the concurrency counter of a
  user is the number of calls the user started that are not over, it stays within the configured
  cap, the registry stays within its own cap, and the retry index leads every such call's caller
  and random id to the call, so that no two of them share both.
\<close>

theorem phone_registry_exact:
  assumes "(phone_step (withDefaults c))\<^sup>*\<^sup>* newRegistry r"
  shows "(\<forall>u. reg_active r u = int (length (filter (live_of u) (reg_byID r))) \<and>
            reg_active r u \<le> cfg_MaxActivePerUser (withDefaults c)) \<and>
         int (length (reg_byID r)) \<le> cfg_MaxRegistryEntries (withDefaults c) \<and>
         (\<forall>i e. map_of (reg_byID r) i = Some e \<and> \<not> PhoneCall_Terminal (ce_call e) \<longrightarrow>
            live_call_of r (pc_AdminID (ce_call e)) (pc_RandomID (ce_call e)) = Some (ce_call e))"
  using reachable_reg_ok [OF assms]
  by (auto simp: reg_ok_def live_count_def entry_ok_def live_call_of_def)

text \<open>
  C17. A confirmed call opened its commitment: in every reachable state a call in state confirmed
  holds a \<open>g_a\<close> of 256 bytes whose SHA-256 is the hash the caller committed to when requesting,
  a \<open>g_b\<close> of 256 bytes that is not all zero, and a protocol negotiated from those of both sides.
\<close>

theorem phone_confirmed_commitment:
  assumes "(phone_step (withDefaults c))\<^sup>*\<^sup>* newRegistry r"
    and "map_of (reg_byID r) i = Some e" and "pc_State (ce_call e) = PhoneCallStateConfirmed"
  shows "sha256 (pc_GA (ce_call e)) = pc_GAHash (ce_call e) \<and> length (pc_GA (ce_call e)) = 256 \<and>
         length (pc_GB (ce_call e)) = 256 \<and> (\<exists>b\<in>set (pc_GB (ce_call e)). b \<noteq> 0) \<and>
         (\<exists>order. negotiateProtocol order (pc_CallerProtocol (ce_call e))
            (pc_CalleeProtocol (ce_call e)) = Inr (pc_Protocol (ce_call e)))"
  using reg_okD(3) [OF reachable_reg_ok [OF assms(1)] assms(2)] assms(3) by (auto simp: call_ok_def)

text \<open>
  Calls only move forward: one operation of the service, any of them, keeps every call that
  is not over, with its parties, hashes and protocol of the caller, and its state does not go
  back along requested, ringing, accepted, confirmed, discarded.
\<close>

theorem phone_calls_forward:
  assumes "reg_ok (withDefaults c) r" and "phone_step (withDefaults c) r r'"
    and "map_of (reg_byID r) i = Some e" and "\<not> PhoneCall_Terminal (ce_call e)"
  shows "\<exists>e'. map_of (reg_byID r') i = Some e' \<and> call_advances (ce_call e) (ce_call e')"
  using phone_step_forward [OF assms(2,1) started_ttl] assms(3,4)
  by (auto simp: live_calls_advance_def)

text \<open>
  A retried request returns the call it created: while a call is not over, a well-formed
  request by its caller with its random id returns this call, creates none and leaves the other
  calls alone but for swept tombstones.
\<close>

theorem phone_request_idempotent:
  assumes "reg_ok cfg r" and "map_of (reg_byID r) i = Some e"
    and "\<not> PhoneCall_Terminal (ce_call e)" and "validateProtocol (cr_Protocol inp) = None"
    and "length (cr_GAHash inp) = 32" and "cr_RandomID inp = pc_RandomID (ce_call e)"
  shows "RequestCall cfg now draws r (pc_AdminID (ce_call e)) inp =
           (sweepTombstonesLocked r now (seconds (cfg_TombstoneTTL cfg)), Inr (ce_call e))"
proof -
  let ?r1 = "sweepTombstonesLocked r now (seconds (cfg_TombstoneTTL cfg))"
  note sw = sweep_spec [OF assms(1), of now "seconds (cfg_TombstoneTTL cfg)"]
  have e: "map_of (reg_byID ?r1) i = Some e" using sw(3) [of i] assms(2,3) by simp
  from reg_okD(1) [OF sw(1) e] assms(3) e
  have "live_call_of ?r1 (pc_AdminID (ce_call e)) (cr_RandomID inp) = Some (ce_call e)"
    unfolding assms(6) by (simp add: live_call_of_def entry_ok_def)
  then show ?thesis using assms(4,5) by (simp add: RequestCall_def Let_def)
qed

text \<open>
  The timer ends exactly the overdue calls: it returns, in registry order, the calls that
  were neither confirmed nor over and older than the ring timeout, each discarded as missed or,
  when the callee had accepted, as disconnected; afterwards no such call is left, and a confirmed
  call is as it was.
\<close>

theorem phone_expire_exact:
  assumes "reg_ok cfg r" and "ExpireDue cfg now r = (r', expired)"
  shows "expired = map (\<lambda>(i, e). timed_out now (ce_call e))
           (filter (\<lambda>(i, e). due now (seconds (cfg_RingTimeout cfg)) e) (reg_byID r)) \<and>
         (\<forall>i e. map_of (reg_byID r') i = Some e \<longrightarrow> \<not> due now (seconds (cfg_RingTimeout cfg)) e) \<and>
         (\<forall>i e. map_of (reg_byID r) i = Some e \<and> pc_State (ce_call e) = PhoneCallStateConfirmed \<longrightarrow>
            map_of (reg_byID r') i = Some e)"
proof -
  let ?ring = "seconds (cfg_RingTimeout cfg)" and ?ttl = "seconds (cfg_TombstoneTTL cfg)"
  obtain r1 out where ex: "expire_loop now ?ring r [] (reg_byID r) = (r1, out)" by fastforce
  note sp = expire_spec [OF assms(1) ex]
  have r': "r' = sweepTombstonesLocked r1 now ?ttl" and out: "expired = out"
    using assms(2) ex by (simp_all add: ExpireDue_def)
  note sw = sweep_spec(3) [OF sp(1), of now ?ttl, folded r']
  have "\<not> due now ?ring e" if "map_of (reg_byID r') i = Some e" for i e
    using that sw [of i] sp(3) [of i]
    by (auto simp: timed_out_def PhoneCall_Terminal_def split: option.splits if_splits)
  moreover have "map_of (reg_byID r') i = Some e"
    if "map_of (reg_byID r) i = Some e" "pc_State (ce_call e) = PhoneCallStateConfirmed" for i e
    using that sw [of i] sp(3) [of i] by (simp add: PhoneCall_Terminal_def)
  ultimately show ?thesis using sp(2) out by blast
qed

text \<open>Packets of one second: how many of them are forwarded.\<close>

fun forwarded :: "phone_config \<Rightarrow> int \<Rightarrow> int \<Rightarrow> int \<Rightarrow> int list \<Rightarrow> registry \<Rightarrow> int" where
  "forwarded cfg now i h [] r = 0"
| "forwarded cfg now i h (u # us) r =
     (let (r', _, f) = Signal cfg now id r u i h
      in (if f = None then 0 else 1) + forwarded cfg now i h us r')"

definition used_in :: "int \<Rightarrow> registry \<Rightarrow> int \<Rightarrow> int" where
  "used_in now r i = (case map_of (reg_byID r) i of
     None \<Rightarrow> 0 | Some e \<Rightarrow> if ce_sigWindowSec e = now then ce_sigCount e else 0)"

lemma Signal_forward:
  assumes "Signal cfg now race r user i h = (r', v, Some (p, dev))"
  obtains e where "lookupLocked r i h = Inr e" "PhoneCall_HasParticipant (ce_call e) user"
    "pc_State (ce_call e) = PhoneCallStateAccepted \<or> pc_State (ce_call e) = PhoneCallStateConfirmed"
    "p = PhoneCall_PeerOf (ce_call e) user" "v = Inr False"
    "dev = (if p = pc_AdminID (ce_call e) then pc_CallerDevice (ce_call e)
            else pc_CalleeDevice (ce_call e))"
  using assms
  by (auto simp: Signal_def Let_def split: sum.splits if_splits option.splits)

lemma Signal_id_cases:
  assumes "Signal cfg now id r user i h = (r', v, f)"
  obtains (quiet) "f = None" "r' = r"
  | (counted) e where "map_of (reg_byID r) i = Some e" "(f = None) = snd (count_packet cfg now e)"
      "r' = r\<lparr>reg_byID := AList.update i (fst (count_packet cfg now e)) (reg_byID r)\<rparr>"
proof (cases "lookupLocked r i h")
  case (Inl err)
  with assms show thesis by (intro quiet) (auto simp: Signal_def)
next
  case (Inr e)
  then have e: "map_of (reg_byID r) i = Some e" by (simp add: lookupLocked_Inr)
  show thesis
  proof (cases "PhoneCall_HasParticipant (ce_call e) user \<and>
      (pc_State (ce_call e) = PhoneCallStateAccepted \<or> pc_State (ce_call e) = PhoneCallStateConfirmed)")
    case False
    with assms Inr show thesis
      by (intro quiet) (auto simp: Signal_def Let_def split: if_splits)
  next
    case True
    have "r' = r\<lparr>reg_byID := AList.update i (fst (count_packet cfg now e)) (reg_byID r)\<rparr>"
      "(f = None) = snd (count_packet cfg now e)"
      using assms Inr True e by (auto simp: Signal_def Let_def split: if_splits)
    with e show thesis by (intro counted)
  qed
qed

lemma count_packet_used:
  assumes "k = (if ce_sigWindowSec e = now then ce_sigCount e else 0)"
  shows "ce_sigWindowSec (fst (count_packet cfg now e)) = now"
    and "ce_sigCount (fst (count_packet cfg now e)) = (if snd (count_packet cfg now e) then k else k + 1)"
    and "\<not> snd (count_packet cfg now e) \<Longrightarrow> k < cfg_SignalingRatePerSecond cfg"
  using assms by (auto simp: count_packet_def Let_def split: if_splits)

lemma Signal_used:
  assumes "Signal cfg now id r user i h = (r', v, f)"
  shows "used_in now r' i = used_in now r i + (if f = None then 0 else 1)"
    and "f \<noteq> None \<Longrightarrow> used_in now r' i \<le> cfg_SignalingRatePerSecond cfg"
proof -
  have "used_in now r' i = used_in now r i + (if f = None then 0 else 1) \<and>
     (f \<noteq> None \<longrightarrow> used_in now r' i \<le> cfg_SignalingRatePerSecond cfg)"
    using assms
  proof (cases rule: Signal_id_cases)
    case (counted e)
    note cp = count_packet_used [OF refl, where e = e and now = now and cfg = cfg]
    have "used_in now r' i = ce_sigCount (fst (count_packet cfg now e))"
      using counted(3) cp(1) by (simp add: used_in_def update_conv')
    moreover have "used_in now r i = (if ce_sigWindowSec e = now then ce_sigCount e else 0)"
      using counted(1) by (simp add: used_in_def)
    ultimately show ?thesis using cp(2,3) counted(2) by (cases "f = None") auto
  qed simp
  then show "used_in now r' i = used_in now r i + (if f = None then 0 else 1)"
    "f \<noteq> None \<Longrightarrow> used_in now r' i \<le> cfg_SignalingRatePerSecond cfg" by auto
qed

lemma forwarded_used:
  "used_in now r i \<le> cfg_SignalingRatePerSecond cfg \<Longrightarrow>
   used_in now r i + forwarded cfg now i h us r \<le> cfg_SignalingRatePerSecond cfg"
proof (induction us arbitrary: r)
  case (Cons u us)
  obtain r' v f where s: "Signal cfg now id r u i h = (r', v, f)"
    by (cases "Signal cfg now id r u i h")
  note su = Signal_used [OF s]
  have "used_in now r' i \<le> cfg_SignalingRatePerSecond cfg"
    using su Cons.prems by (cases "f = None") auto
  with Cons.IH [of r'] su(1) s show ?case by simp
qed simp

text \<open>
  Signaling is relayed only within a call and at a bounded rate: a packet that is forwarded
  comes from a party of an accepted or confirmed call and goes to the other party, and of the
  packets of one call in one second at most the configured number is forwarded, whoever sends them.
\<close>

theorem phone_signal_bounded:
  assumes "0 \<le> cfg_SignalingRatePerSecond cfg" and "used_in now r i = 0"
  shows "forwarded cfg now i h us r \<le> cfg_SignalingRatePerSecond cfg \<and>
         (\<forall>race user r' v p dev. Signal cfg now race r user i h = (r', v, Some (p, dev)) \<longrightarrow>
            (\<exists>e. lookupLocked r i h = Inr e \<and> PhoneCall_HasParticipant (ce_call e) user \<and>
               p = PhoneCall_PeerOf (ce_call e) user \<and>
               (pc_State (ce_call e) = PhoneCallStateAccepted \<or>
                pc_State (ce_call e) = PhoneCallStateConfirmed)))"
proof -
  have "forwarded cfg now i h us r \<le> cfg_SignalingRatePerSecond cfg"
    using forwarded_used [of now r i cfg h us] assms by simp
  then show ?thesis by (blast elim: Signal_forward)
qed

section \<open>Negotiation\<close>

lemma highest_version_in:
  "highest_version best vs = Some v \<Longrightarrow> best = Some v \<or> v \<in> set vs"
  by (induction best vs rule: highest_version.induct) (auto split: option.splits if_splits)

lemma highest_version_None: "highest_version best vs = None \<longleftrightarrow> best = None \<and> vs = []"
  by (induction best vs rule: highest_version.induct) (auto split: option.splits if_splits)

lemma bestCommonVersion_Some:
  assumes "\<And>xs. set (order xs) = set xs" "bestCommonVersion order a b = Some v"
  shows "v \<in> set a \<inter> set b"
    and "set preferredVersions \<inter> set a \<inter> set b \<noteq> {} \<Longrightarrow> v \<in> set preferredVersions"
proof -
  let ?both = "remdups (filter (\<lambda>v. v \<in> set b) a)"
  have both: "set ?both = set a \<inter> set b" by auto
  consider (pref) "find (\<lambda>v. v \<in> set ?both) preferredVersions = Some v"
    | (fallback) "find (\<lambda>v. v \<in> set ?both) preferredVersions = None"
      "highest_version None (order ?both) = Some v"
    using assms(2) by (auto simp: bestCommonVersion_def Let_def split: option.splits)
  then have "v \<in> set ?both \<and>
      (set preferredVersions \<inter> set a \<inter> set b \<noteq> {} \<longrightarrow> v \<in> set preferredVersions)"
  proof cases
    case pref
    then show ?thesis using find_SomeD by fastforce
  next
    case fallback
    then have "v \<in> set (order ?both)" using highest_version_in by fastforce
    moreover have "set preferredVersions \<inter> set ?both = {}"
      using fallback(1) unfolding find_None by blast
    ultimately show ?thesis using assms(1) both by auto
  qed
  then show "v \<in> set a \<inter> set b"
    and "set preferredVersions \<inter> set a \<inter> set b \<noteq> {} \<Longrightarrow> v \<in> set preferredVersions"
    using both by auto
qed

lemma bestCommonVersion_None:
  assumes "\<And>xs. set (order xs) = set xs"
  shows "bestCommonVersion order a b = None \<longleftrightarrow> set a \<inter> set b = {}"
proof -
  let ?both = "remdups (filter (\<lambda>v. v \<in> set b) a)"
  have "order ?both = [] \<longleftrightarrow> ?both = []" using assms [of ?both] by (metis set_empty)
  moreover have "?both = [] \<longleftrightarrow> set a \<inter> set b = {}" by (auto simp: filter_empty_conv)
  moreover have "find (\<lambda>v. v \<in> set ?both) preferredVersions = None" if "?both = []"
    unfolding that by (simp add: find_None)
  ultimately show ?thesis
    by (auto simp: bestCommonVersion_def Let_def highest_version_None split: option.splits)
qed

text \<open>
  Negotiation agrees on what both sides support, whatever order Go's map iteration takes:
  the layer range is the intersection of both ranges and not empty, P2P is on only if both allow
  it, and a version both list is chosen whenever there is one, a preferred one whenever both list
  a preferred one; otherwise the callee's list is passed on.
\<close>

theorem phone_negotiation_sound:
  assumes "\<And>xs. set (order xs) = set xs" and "negotiateProtocol order a b = Inr p"
  shows "cp_MinLayer p = max (cp_MinLayer a) (cp_MinLayer b) \<and>
         cp_MaxLayer p = min (cp_MaxLayer a) (cp_MaxLayer b) \<and> cp_MinLayer p \<le> cp_MaxLayer p \<and>
         (cp_UDPP2P p \<longleftrightarrow> cp_UDPP2P a \<and> cp_UDPP2P b) \<and>
         (if set (cp_LibraryVersions a) \<inter> set (cp_LibraryVersions b) = {}
          then cp_LibraryVersions p = cp_LibraryVersions b
          else \<exists>v. cp_LibraryVersions p = [v] \<and>
                 v \<in> set (cp_LibraryVersions a) \<inter> set (cp_LibraryVersions b) \<and>
                 (set preferredVersions \<inter> set (cp_LibraryVersions a) \<inter> set (cp_LibraryVersions b) \<noteq> {}
                    \<longrightarrow> v \<in> set preferredVersions))"
proof (cases "bestCommonVersion order (cp_LibraryVersions a) (cp_LibraryVersions b)")
  case None
  have "set (cp_LibraryVersions a) \<inter> set (cp_LibraryVersions b) = {}"
    using bestCommonVersion_None [OF assms(1), THEN iffD1, OF None] .
  then show ?thesis
    using assms(2) None by (auto simp: negotiateProtocol_def Let_def split: if_splits)
next
  case (Some v)
  note v = bestCommonVersion_Some [OF assms(1) Some]
  have "set (cp_LibraryVersions a) \<inter> set (cp_LibraryVersions b) \<noteq> {}" using v(1) by blast
  then show ?thesis
    using assms(2) Some v by (auto simp: negotiateProtocol_def Let_def split: if_splits)
qed

section \<open>The properties at work\<close>

text \<open>A call from user 11 to user 22, requested, accepted and confirmed.\<close>

abbreviation demo_cfg :: phone_config where
  "demo_cfg \<equiv> withDefaults \<lparr>cfg_RingTimeout = 0, cfg_TombstoneTTL = 0, cfg_MaxActivePerUser = 0,
     cfg_MaxRegistryEntries = 0, cfg_SignalingRatePerSecond = 0\<rparr>"

definition demo_protocol :: call_protocol where
  "demo_protocol = \<lparr>cp_UDPP2P = True, cp_UDPReflector = True, cp_MinLayer = 65, cp_MaxLayer = 92,
     cp_LibraryVersions = [''10.0.0'', ''9.0.0'']\<rparr>"

definition demo_ga :: bytes where
  "demo_ga = replicate 256 7"

definition demo_call_request :: call_request where
  "demo_call_request = \<lparr>cr_CalleeID = 22, cr_RandomID = 5, cr_GAHash = sha256 demo_ga,
     cr_Video = False, cr_Protocol = demo_protocol, cr_CallerDevice = zero_session,
     cr_PrivacyP2P = True, cr_Connections = []\<rparr>"

definition demo_call :: phone_call where
  "demo_call = new_call 5 5 11 100 demo_call_request"

definition demo_ringing :: registry where
  "demo_ringing = \<lparr>reg_byID = [(5, \<lparr>ce_call = demo_call, ce_sigWindowSec = 0, ce_sigCount = 0\<rparr>)],
     reg_byRandom = [(11, 5) \<mapsto> 5], reg_active = (\<lambda>_. 0)(11 := 1)\<rparr>"

definition demo_accepted_call :: phone_call where
  "demo_accepted_call = demo_call\<lparr>pc_GB := demo_ga, pc_CalleeProtocol := demo_protocol,
     pc_Protocol := demo_protocol\<lparr>cp_LibraryVersions := [''9.0.0'']\<rparr>,
     pc_CalleeDevice := zero_session, pc_State := PhoneCallStateAccepted\<rparr>"

definition demo_accepted :: registry where
  "demo_accepted = demo_ringing\<lparr>reg_byID :=
     [(5, \<lparr>ce_call = demo_accepted_call, ce_sigWindowSec = 0, ce_sigCount = 0\<rparr>)]\<rparr>"

definition demo_confirmed_call :: phone_call where
  "demo_confirmed_call = demo_accepted_call\<lparr>pc_GA := demo_ga, pc_KeyFingerprint := 3,
     pc_StartDate := 103, pc_P2PAllowed := True, pc_State := PhoneCallStateConfirmed\<rparr>"

definition demo_confirmed :: registry where
  "demo_confirmed = demo_ringing\<lparr>reg_byID :=
     [(5, \<lparr>ce_call = demo_confirmed_call, ce_sigWindowSec = 0, ce_sigCount = 0\<rparr>)]\<rparr>"

lemma demo_protocol_valid: "validateProtocol demo_protocol = None"
  by (simp add: validateProtocol_def demo_protocol_def)

lemma demo_negotiate:
  "negotiateProtocol id demo_protocol demo_protocol =
     Inr (demo_protocol\<lparr>cp_LibraryVersions := [''9.0.0'']\<rparr>)"
  by (simp add: negotiateProtocol_def demo_protocol_def bestCommonVersion_def preferredVersions_def
      Let_def)

lemma demo_request_call:
  "RequestCall demo_cfg 100 (\<lambda>_. Some 10) newRegistry 11 demo_call_request = (demo_ringing, Inr demo_call)"
proof -
  have "drop_bit 1 (10 :: 64 word) = 5" by code_simp
  moreover have e: "(32 :: nat) = Suc 31" by simp
  have "newIDLocked newRegistry (\<lambda>_. Some 10) = (1, Inr 5)"
    unfolding newIDLocked_def e new_id_loop.simps(2)
    using calculation by (simp add: randomPositiveInt64_def newRegistry_def)
  ultimately show ?thesis
    by (simp add: RequestCall_def demo_call_request_def demo_protocol_valid
        sweepTombstonesLocked_def newRegistry_def live_call_of_def withDefaults_def Let_def
        randomPositiveInt64_def demo_ringing_def demo_call_def)
qed

lemma demo_accept_call:
  "AcceptCall id demo_ringing 22 5 5 demo_ga demo_protocol zero_session =
     (demo_accepted, Inr demo_accepted_call)"
  by (simp add: AcceptCall_def demo_protocol_valid lookupLocked_def demo_ringing_def demo_call_def
      new_call_def demo_call_request_def demo_negotiate demo_ga_def demo_accepted_def
      demo_accepted_call_def put_call_def list_all_iff Let_def)

lemma demo_confirm_call:
  "ConfirmCall 103 demo_accepted 11 5 5 demo_ga 3 demo_protocol = (demo_confirmed, Inr demo_confirmed_call)"
proof -
  have "pc_GAHash demo_accepted_call = sha256 demo_ga" "length demo_ga = 256"
    "pc_AccessHash demo_accepted_call = 5" "pc_AdminID demo_accepted_call = 11"
    "pc_State demo_accepted_call = PhoneCallStateAccepted"
    "pc_CallerProtocol demo_accepted_call = demo_protocol"
    "pc_CalleeProtocol demo_accepted_call = demo_protocol" "pc_PrivacyP2P demo_accepted_call"
    "cp_UDPP2P demo_protocol"
    by (simp_all add: demo_accepted_call_def demo_call_def new_call_def demo_call_request_def
        demo_ga_def demo_protocol_def)
  then show ?thesis
    by (simp add: ConfirmCall_def demo_protocol_valid lookupLocked_def demo_accepted_def
        demo_confirmed_def demo_confirmed_call_def put_call_def Let_def)
qed

lemma demo_phone_run: "(phone_step demo_cfg)\<^sup>*\<^sup>* newRegistry demo_accepted"
    "(phone_step demo_cfg)\<^sup>*\<^sup>* newRegistry demo_confirmed"
proof -
  have "phone_step demo_cfg newRegistry demo_ringing"
    using phone_step.request [of demo_cfg newRegistry 100 "\<lambda>_. Some 10" 11 demo_call_request]
      demo_request_call by simp
  moreover have "phone_step demo_cfg demo_ringing demo_accepted"
    using phone_step.accept [of demo_cfg demo_ringing id 22 5 5 demo_ga demo_protocol zero_session]
      demo_accept_call by simp
  ultimately show a: "(phone_step demo_cfg)\<^sup>*\<^sup>* newRegistry demo_accepted"
    by (meson r_into_rtranclp rtranclp.rtrancl_into_rtrancl)
  have "phone_step demo_cfg demo_accepted demo_confirmed"
    using phone_step.confirm [of demo_cfg demo_accepted 103 11 5 5 demo_ga 3 demo_protocol]
      demo_confirm_call by simp
  with a show "(phone_step demo_cfg)\<^sup>*\<^sup>* newRegistry demo_confirmed"
    by (rule rtranclp.rtrancl_into_rtrancl)
qed

lemma demo_reg_ok: "reg_ok demo_cfg demo_accepted" "reg_ok demo_cfg demo_confirmed"
  using reachable_reg_ok demo_phone_run by blast+

lemma demo_entries:
  "map_of (reg_byID demo_accepted) 5 =
     Some \<lparr>ce_call = demo_accepted_call, ce_sigWindowSec = 0, ce_sigCount = 0\<rparr>"
  "map_of (reg_byID demo_confirmed) 5 =
     Some \<lparr>ce_call = demo_confirmed_call, ce_sigWindowSec = 0, ce_sigCount = 0\<rparr>"
  by (simp_all add: demo_accepted_def demo_confirmed_def)

lemma demo_fields:
  "pc_State demo_accepted_call = PhoneCallStateAccepted"
  "pc_State demo_confirmed_call = PhoneCallStateConfirmed"
  "pc_AdminID demo_accepted_call = 11" "pc_RandomID demo_accepted_call = 5"
  "pc_Date demo_accepted_call = 100" "pc_GA demo_confirmed_call = demo_ga"
  by (simp_all add: demo_accepted_call_def demo_confirmed_call_def demo_call_def new_call_def
      demo_call_request_def)

theorem phone_registry_exact_witness:
  "reg_active demo_confirmed 11 \<le> 4 \<and>
   reg_active demo_confirmed 11 = int (length (filter (live_of 11) (reg_byID demo_confirmed)))"
  using phone_registry_exact [OF demo_phone_run(2), THEN conjunct1, THEN spec, of 11]
  by (simp add: withDefaults_def)

theorem phone_confirmed_commitment_witness:
  "sha256 demo_ga = pc_GAHash demo_confirmed_call"
  using phone_confirmed_commitment [OF demo_phone_run(2) demo_entries(2)] demo_fields by simp

theorem phone_calls_forward_witness:
  "\<exists>e'. map_of (reg_byID demo_confirmed) 5 = Some e' \<and> call_advances demo_accepted_call (ce_call e')"
proof -
  have "phone_step demo_cfg demo_accepted demo_confirmed"
    using phone_step.confirm [of demo_cfg demo_accepted 103 11 5 5 demo_ga 3 demo_protocol]
      demo_confirm_call by simp
  from phone_calls_forward [OF demo_reg_ok(1) this demo_entries(1)] demo_fields show ?thesis
    by (simp add: PhoneCall_Terminal_def)
qed

theorem phone_request_idempotent_witness:
  "snd (RequestCall demo_cfg 104 (\<lambda>_. None) demo_accepted 11 demo_call_request) = Inr demo_accepted_call"
  using phone_request_idempotent [OF demo_reg_ok(1) demo_entries(1), of demo_call_request 104 "\<lambda>_. None"]
    demo_fields demo_protocol_valid
  by (simp add: PhoneCall_Terminal_def demo_call_request_def)

theorem phone_expire_exact_witness:
  "snd (ExpireDue demo_cfg 191 demo_accepted) = [timed_out 191 demo_accepted_call]"
proof -
  have "filter (\<lambda>(i, e). due 191 (seconds (cfg_RingTimeout demo_cfg)) e) (reg_byID demo_accepted)
      = reg_byID demo_accepted"
    by (simp add: demo_accepted_def PhoneCall_Terminal_def demo_fields withDefaults_def seconds_def)
  with phone_expire_exact [OF demo_reg_ok(1) prod.collapse [symmetric], of 191]
  show ?thesis by (simp add: demo_accepted_def)
qed

theorem phone_signal_bounded_witness:
  "forwarded demo_cfg 103 5 5 (replicate 60 11) demo_accepted \<le> 50"
  using phone_signal_bounded [of demo_cfg 103 demo_accepted 5 5 "replicate 60 11"] demo_entries
  by (simp add: used_in_def withDefaults_def)

theorem phone_negotiation_sound_witness:
  "\<exists>p. negotiateProtocol id demo_protocol demo_protocol = Inr p \<and> cp_LibraryVersions p = [''9.0.0''] \<and>
     cp_MinLayer p \<le> cp_MaxLayer p"
  using phone_negotiation_sound [of id, OF _ demo_negotiate] demo_negotiate by auto

end
