(* ===== verification/Rpc_Budget.thy ===== *)
theory Rpc_Budget
  imports Gram_Prelude "HOL-Library.Multiset"
begin

text \<open>
  The capacity accounting below the RPC execution ledger of the MTProto edge
  (src/internal/mtprotoedge): the process-wide counters of \<open>rpc_flight.go\<close>, the fair budget of
  \<open>rpc_execution_budget.go\<close> that charges every request at global, auth-key and session scope, the
  callback budget of \<open>rpc_result_subscriber_budget.go\<close> and the admission sequence tracker of
  \<open>rpc_admission_tracker.go\<close>.

  A budget is specified by the multiset of slots it holds: reserving adds slots, releasing takes
  them back, and the stored counters are the counts of that multiset at each scope. Locks make
  every operation here atomic; the compare-and-swap loops are therefore one step. Limits are
  positive and far below 2^63, so the int64 additions do not wrap. \<open>maphash.Bytes\<close> with the
  instance's seed is the parameter \<open>mh\<close>; nothing is assumed of it.
\<close>

section \<open>Keys and shards\<close>

datatype rpc_key = RpcKey (authKeyID: auth_key_id) (sessionID: int) (reqMsgID: int)

type_synonym session_key = "auth_key_id \<times> int"
type_synonym maphash = "8 word list \<Rightarrow> 64 word"

definition session_of :: "rpc_key \<Rightarrow> session_key" where
  "session_of k = (authKeyID k, sessionID k)"

text \<open>The bytes of a 64-bit value, least significant first (\<open>binary.LittleEndian\<close>).\<close>

definition le_bytes :: "64 word \<Rightarrow> 8 word list" where
  "le_bytes w = map (\<lambda>i. ucast (drop_bit (8 * i) w)) [0..<8]"

definition authShard :: "maphash \<Rightarrow> auth_key_id \<Rightarrow> nat" where
  "authShard mh a = unat (take_bit 6 (mh (le_bytes a)))"

definition sessionShard :: "maphash \<Rightarrow> session_key \<Rightarrow> nat" where
  "sessionShard mh sk =
    unat (take_bit 6 (mh (le_bytes (fst sk) @ le_bytes (word_of_int (snd sk)))))"

section \<open>Process-wide counters\<close>

record flight_limit =
  lim_max :: int
  lim_used :: int

text \<open>
  \<open>reserveN\<close> answers true exactly when it moved the counter: \<open>Some\<close> carries the moved counter,
  \<open>None\<close> is the answer false.
\<close>

definition limit_reserveN :: "flight_limit \<Rightarrow> int \<Rightarrow> flight_limit option" where
  "limit_reserveN lim delta =
    (if lim_max lim \<le> 0 then None
     else if delta \<le> 0 then None
     else if lim_used lim < 0 \<or> lim_used lim > lim_max lim - delta then None
     else Some (lim\<lparr>lim_used := lim_used lim + delta\<rparr>))"

definition limit_reserve :: "flight_limit \<Rightarrow> flight_limit option" where
  "limit_reserve lim = limit_reserveN lim 1"

definition limit_releaseN :: "flight_limit \<Rightarrow> int \<Rightarrow> flight_limit outcome" where
  "limit_releaseN lim delta =
    (if delta \<le> 0 then Panic ''mtproto rpc result counter release must be positive''
     else if lim_used lim - delta < 0
       then Panic ''mtproto rpc result in-flight counter underflow''
     else Ret (lim\<lparr>lim_used := lim_used lim - delta\<rparr>))"

definition limit_release :: "flight_limit \<Rightarrow> flight_limit outcome" where
  "limit_release lim = limit_releaseN lim 1"

section \<open>The fair budget\<close>

record budget_usage =
  u_entries :: int
  u_pending :: int

definition zero_usage :: budget_usage where
  "zero_usage = \<lparr>u_entries = 0, u_pending = 0\<rparr>"

record fair_budget =
  globalEntries :: flight_limit
  authLimit :: int
  sessionLimit :: int
  pendingPerAuth :: int
  authUsages :: "(auth_key_id, budget_usage) shards"
  sessionUsages :: "(session_key, budget_usage) shards"

record reservation =
  r_key :: rpc_key
  r_pending :: bool
  r_released :: bool

definition newRPCExecutionFairBudget :: "flight_limit \<Rightarrow> int \<Rightarrow> int \<Rightarrow> int \<Rightarrow> fair_budget" where
  "newRPCExecutionFairBudget global al sl ppa =
    \<lparr>globalEntries = global, authLimit = al, sessionLimit = sl, pendingPerAuth = ppa,
     authUsages = (\<lambda>_. Map.empty), sessionUsages = (\<lambda>_. Map.empty)\<rparr>"

definition withinRPCExecutionBudget :: "int \<Rightarrow> int \<Rightarrow> int \<Rightarrow> bool" where
  "withinRPCExecutionBudget used delta limit \<longleftrightarrow>
    delta \<ge> 0 \<and> limit > 0 \<and> used \<ge> 0 \<and> used \<le> limit - delta"

text \<open>Go reads a missing map entry as the zero value.\<close>

definition read_usage :: "budget_usage option \<Rightarrow> budget_usage" where
  "read_usage e = (case e of None \<Rightarrow> zero_usage | Some u \<Rightarrow> u)"

definition authSnapshot :: "maphash \<Rightarrow> fair_budget \<Rightarrow> auth_key_id \<Rightarrow> budget_usage" where
  "authSnapshot mh b a = read_usage (flat (authShard mh) (authUsages b) a)"

definition sessionSnapshot :: "maphash \<Rightarrow> fair_budget \<Rightarrow> auth_key_id \<Rightarrow> int \<Rightarrow> budget_usage" where
  "sessionSnapshot mh b a sid = read_usage (flat (sessionShard mh) (sessionUsages b) (a, sid))"

definition fair_reserve ::
  "maphash \<Rightarrow> fair_budget \<Rightarrow> rpc_key \<Rightarrow> bool \<Rightarrow> (fair_budget \<times> reservation) option" where
  "fair_reserve mh b key pend =
    (let au = read_usage (flat (authShard mh) (authUsages b) (authKeyID key));
         su = read_usage (flat (sessionShard mh) (sessionUsages b) (session_of key));
         allowed = withinRPCExecutionBudget (u_entries au) 1 (authLimit b)
           \<and> withinRPCExecutionBudget (u_entries su) 1 (sessionLimit b)
           \<and> (pend \<longrightarrow> withinRPCExecutionBudget (u_pending au) 1 (pendingPerAuth b))
     in if \<not> allowed then None
        else case limit_reserve (globalEntries b) of
          None \<Rightarrow> None
        | Some g \<Rightarrow>
            let au' = au\<lparr>u_entries := u_entries au + 1,
                         u_pending := u_pending au + (if pend then 1 else 0)\<rparr>;
                su' = su\<lparr>u_entries := u_entries su + 1\<rparr>
            in Some (b\<lparr>globalEntries := g,
                 authUsages := shard_put (authShard mh) (authKeyID key) au' (authUsages b),
                 sessionUsages := shard_put (sessionShard mh) (session_of key) su'
                   (sessionUsages b)\<rparr>,
               \<lparr>r_key = key, r_pending = pend, r_released = False\<rparr>))"

definition reserveOwner ::
  "maphash \<Rightarrow> fair_budget \<Rightarrow> rpc_key \<Rightarrow> (fair_budget \<times> reservation) option" where
  "reserveOwner mh b key = fair_reserve mh b key True"

definition reserveCompleted ::
  "maphash \<Rightarrow> fair_budget \<Rightarrow> rpc_key \<Rightarrow> (fair_budget \<times> reservation) option" where
  "reserveCompleted mh b key = fair_reserve mh b key False"

definition releasePending ::
  "maphash \<Rightarrow> fair_budget \<Rightarrow> reservation \<Rightarrow> (fair_budget \<times> reservation) outcome" where
  "releasePending mh b r =
    (if r_released r \<or> \<not> r_pending r then Ret (b, r)
     else case flat (authShard mh) (authUsages b) (authKeyID (r_key r)) of
       None \<Rightarrow> Panic ''mtprotoedge: rpc execution per-auth pending budget underflow''
     | Some u \<Rightarrow>
         if u_pending u < 1
         then Panic ''mtprotoedge: rpc execution per-auth pending budget underflow''
         else Ret (b\<lparr>authUsages := shard_put (authShard mh) (authKeyID (r_key r))
                       (u\<lparr>u_pending := u_pending u - 1\<rparr>) (authUsages b)\<rparr>,
                   r\<lparr>r_pending := False\<rparr>))"

definition store_usage ::
  "('k \<Rightarrow> nat) \<Rightarrow> 'k \<Rightarrow> budget_usage \<Rightarrow> ('k, budget_usage) shards \<Rightarrow> ('k, budget_usage) shards" where
  "store_usage ix k u sh = (if u = zero_usage then shard_del ix k sh else shard_put ix k u sh)"

definition fair_release ::
  "maphash \<Rightarrow> fair_budget \<Rightarrow> reservation \<Rightarrow> (fair_budget \<times> reservation) outcome" where
  "fair_release mh b r =
    (if r_released r then Ret (b, r)
     else case (flat (authShard mh) (authUsages b) (authKeyID (r_key r)),
                flat (sessionShard mh) (sessionUsages b) (session_of (r_key r))) of
       (Some au, Some su) \<Rightarrow>
         if u_entries au < 1 \<or> u_entries su < 1 \<or> (r_pending r \<and> u_pending au < 1)
         then Panic ''mtprotoedge: rpc execution fair budget underflow''
         else
           let au' = au\<lparr>u_entries := u_entries au - 1,
                        u_pending := u_pending au - (if r_pending r then 1 else 0)\<rparr>;
               su' = su\<lparr>u_entries := u_entries su - 1\<rparr>
           in bind_outcome (limit_release (globalEntries b)) (\<lambda>g.
                Ret (b\<lparr>globalEntries := g,
                       authUsages := store_usage (authShard mh) (authKeyID (r_key r)) au'
                         (authUsages b),
                       sessionUsages := store_usage (sessionShard mh) (session_of (r_key r)) su'
                         (sessionUsages b)\<rparr>,
                     r\<lparr>r_released := True, r_pending := False\<rparr>))
     | _ \<Rightarrow> Panic ''mtprotoedge: rpc execution fair budget underflow'')"

section \<open>The subscriber budget\<close>

record subscriber_budget =
  sub_global :: flight_limit
  sub_authLimit :: int
  sub_sessionLimit :: int
  sub_auth :: "(auth_key_id, int) shards"
  sub_session :: "(session_key, int) shards"

definition newRPCResultSubscriberBudget :: "int \<Rightarrow> int \<Rightarrow> int \<Rightarrow> subscriber_budget" where
  "newRPCResultSubscriberBudget gl al sl =
    \<lparr>sub_global = \<lparr>lim_max = gl, lim_used = 0\<rparr>, sub_authLimit = al, sub_sessionLimit = sl,
     sub_auth = (\<lambda>_. Map.empty), sub_session = (\<lambda>_. Map.empty)\<rparr>"

definition read_count :: "int option \<Rightarrow> int" where
  "read_count e = (case e of None \<Rightarrow> 0 | Some n \<Rightarrow> n)"

definition subscriber_authSnapshot :: "maphash \<Rightarrow> subscriber_budget \<Rightarrow> auth_key_id \<Rightarrow> int" where
  "subscriber_authSnapshot mh b a = read_count (flat (authShard mh) (sub_auth b) a)"

definition subscriber_sessionSnapshot ::
  "maphash \<Rightarrow> subscriber_budget \<Rightarrow> auth_key_id \<Rightarrow> int \<Rightarrow> int" where
  "subscriber_sessionSnapshot mh b a sid =
    read_count (flat (sessionShard mh) (sub_session b) (a, sid))"

definition subscriber_reserve ::
  "maphash \<Rightarrow> subscriber_budget \<Rightarrow> rpc_key \<Rightarrow> int \<Rightarrow> subscriber_budget option" where
  "subscriber_reserve mh b key slots =
    (if slots \<le> 0 then None
     else
       let au = read_count (flat (authShard mh) (sub_auth b) (authKeyID key));
           su = read_count (flat (sessionShard mh) (sub_session b) (session_of key))
       in if \<not> withinRPCExecutionBudget au slots (sub_authLimit b)
             \<or> \<not> withinRPCExecutionBudget su slots (sub_sessionLimit b) then None
          else case limit_reserveN (sub_global b) slots of
            None \<Rightarrow> None
          | Some g \<Rightarrow> Some (b\<lparr>sub_global := g,
              sub_auth := shard_put (authShard mh) (authKeyID key) (au + slots) (sub_auth b),
              sub_session := shard_put (sessionShard mh) (session_of key) (su + slots)
                (sub_session b)\<rparr>))"

definition store_count :: "('k \<Rightarrow> nat) \<Rightarrow> 'k \<Rightarrow> int \<Rightarrow> ('k, int) shards \<Rightarrow> ('k, int) shards" where
  "store_count ix k n sh = (if n = 0 then shard_del ix k sh else shard_put ix k n sh)"

definition subscriber_release ::
  "maphash \<Rightarrow> subscriber_budget \<Rightarrow> rpc_key \<Rightarrow> int \<Rightarrow> subscriber_budget outcome" where
  "subscriber_release mh b key slots =
    (if slots \<le> 0 then Panic ''mtproto rpc result subscriber release must be positive''
     else case (flat (authShard mh) (sub_auth b) (authKeyID key),
                flat (sessionShard mh) (sub_session b) (session_of key)) of
       (Some au, Some su) \<Rightarrow>
         if au < slots \<or> su < slots
         then Panic ''mtproto rpc result subscriber budget underflow''
         else bind_outcome (limit_releaseN (sub_global b) slots) (\<lambda>g.
           Ret (b\<lparr>sub_global := g,
             sub_auth := store_count (authShard mh) (authKeyID key) (au - slots) (sub_auth b),
             sub_session := store_count (sessionShard mh) (session_of key) (su - slots)
               (sub_session b)\<rparr>))
     | _ \<Rightarrow> Panic ''mtproto rpc result subscriber budget underflow'')"

section \<open>Admission sequences\<close>

text \<open>
  The tracker keeps the admission numbers of running requests in 64 shards chosen by the low
  bits; \<open>next\<close> is the atomic counter of the last allocated number. A shard's map has no values:
  it is the list of its keys, in the order in which a loop over the map meets them.
\<close>

type_synonym admission_tracker = "nat \<Rightarrow> 64 word list"

definition tracker_shard :: "64 word \<Rightarrow> nat" where
  "tracker_shard sequence = unat (take_bit 6 sequence)"

definition allocateAndRegister ::
  "admission_tracker \<Rightarrow> 64 word \<Rightarrow> (admission_tracker \<times> 64 word) option" where
  "allocateAndRegister t current =
    (if current = -1 then None
     else let sequence = current + 1 in
       Some (t(tracker_shard sequence := List.insert sequence (t (tracker_shard sequence))),
             sequence))"

definition retire :: "admission_tracker \<Rightarrow> 64 word \<Rightarrow> admission_tracker outcome" where
  "retire t sequence =
    (if sequence = 0 then Ret t
     else if sequence \<notin> set (t (tracker_shard sequence))
       then Panic ''mtprotoedge: rpc admission sequence retired more than once''
     else Ret (t(tracker_shard sequence := removeAll sequence (t (tracker_shard sequence)))))"

definition floor_scan :: "64 word \<Rightarrow> 64 word list \<Rightarrow> 64 word" where
  "floor_scan minimum seqs =
    foldl (\<lambda>m q. if m = 0 \<or> q < m then q else m) minimum seqs"

definition stableSafeFloor :: "admission_tracker \<Rightarrow> 64 word \<Rightarrow> 64 word" where
  "stableSafeFloor t lst =
    (let minimum = foldl (\<lambda>m i. floor_scan m (t i)) 0 [0..<64]
     in if minimum \<noteq> 0 then minimum
        else if lst = -1 then -1
        else lst + 1)"

section \<open>What a budget promises\<close>

text \<open>
  The contract of a budget. \<open>accounts b M\<close>: the counters of \<open>b\<close> are those of the slots \<open>M\<close>.
  \<open>within b M\<close>: the limits of \<open>b\<close> allow \<open>M\<close>. A request \<open>q\<close> asks for \<open>slots q\<close>.
\<close>

locale slot_budget =
  fixes accounts :: "'b \<Rightarrow> 'k multiset \<Rightarrow> bool"
    and within :: "'b \<Rightarrow> 'k multiset \<Rightarrow> bool"
    and slots :: "'q \<Rightarrow> 'k multiset"
    and valid :: "'q \<Rightarrow> bool"
    and reserve :: "'b \<Rightarrow> 'q \<Rightarrow> 'b option"
    and release :: "'b \<Rightarrow> 'q \<Rightarrow> 'b outcome"
  assumes reserve_iff: "accounts b M \<Longrightarrow>
      (\<exists>b'. reserve b q = Some b') \<longleftrightarrow> valid q \<and> within b (M + slots q)"
    and reserve_accounts: "accounts b M \<Longrightarrow> reserve b q = Some b' \<Longrightarrow> accounts b' (M + slots q)"
    and release_accounts: "accounts b (M + slots q) \<Longrightarrow> valid q \<Longrightarrow>
      \<exists>b'. release b q = Ret b' \<and> accounts b' M"
    and accounts_within: "accounts b M \<Longrightarrow> within b M"
begin

lemma reserve_valid: "accounts b M \<Longrightarrow> reserve b q = Some b' \<Longrightarrow> valid q"
  using reserve_iff by blast

lemma reserve_undo:
  assumes "accounts b M" "reserve b q = Some b'"
  shows "\<exists>b''. release b' q = Ret b'' \<and> accounts b'' M"
  using release_accounts [OF reserve_accounts [OF assms] reserve_valid [OF assms]] .

end

lemma limit_reserveN_iff:
  "0 < lim_max lim \<Longrightarrow> 0 \<le> lim_used lim \<Longrightarrow>
   limit_reserveN lim n = Some lim' \<longleftrightarrow>
     0 < n \<and> lim_used lim + n \<le> lim_max lim \<and> lim' = lim\<lparr>lim_used := lim_used lim + n\<rparr>"
  by (auto simp: limit_reserveN_def)

lemma limit_releaseN_ok:
  "0 < n \<Longrightarrow> n \<le> lim_used lim \<Longrightarrow>
   limit_releaseN lim n = Ret (lim\<lparr>lim_used := lim_used lim - n\<rparr>)"
  by (simp add: limit_releaseN_def)

text \<open>A process-wide counter holds anonymous slots.\<close>

definition limit_accounts :: "flight_limit \<Rightarrow> unit multiset \<Rightarrow> bool" where
  "limit_accounts lim M \<longleftrightarrow> 0 < lim_max lim \<and> lim_used lim = int (size M)
     \<and> lim_used lim \<le> lim_max lim"

interpretation counter: slot_budget limit_accounts
  "\<lambda>lim M. int (size M) \<le> lim_max lim"
  "\<lambda>n. replicate_mset (nat n) ()" "\<lambda>n. 0 < n" limit_reserveN limit_releaseN
  by unfold_locales (auto simp: limit_accounts_def limit_reserveN_iff limit_releaseN_ok)

section \<open>Counting slots by scope\<close>

definition at_auth :: "auth_key_id \<Rightarrow> rpc_key multiset \<Rightarrow> nat" where
  "at_auth a M = size (filter_mset (\<lambda>k. authKeyID k = a) M)"

definition at_session :: "session_key \<Rightarrow> rpc_key multiset \<Rightarrow> nat" where
  "at_session s M = size (filter_mset (\<lambda>k. session_of k = s) M)"

definition keys_of :: "(rpc_key \<times> bool) multiset \<Rightarrow> rpc_key multiset" where
  "keys_of M = image_mset fst M"

definition pending_of :: "(rpc_key \<times> bool) multiset \<Rightarrow> rpc_key multiset" where
  "pending_of M = image_mset fst (filter_mset snd M)"

lemma filter_replicate_mset [simp]:
  "filter_mset P (replicate_mset n x) = (if P x then replicate_mset n x else {#})"
  by (induction n) auto

lemma at_auth_simps [simp]:
  "at_auth a {#} = 0"
  "at_auth a (M + N) = at_auth a M + at_auth a N"
  "at_auth a (add_mset k M) = (if authKeyID k = a then 1 else 0) + at_auth a M"
  "at_auth a (replicate_mset n k) = (if authKeyID k = a then n else 0)"
  by (auto simp: at_auth_def)

lemma at_session_simps [simp]:
  "at_session s {#} = 0"
  "at_session s (M + N) = at_session s M + at_session s N"
  "at_session s (add_mset k M) = (if session_of k = s then 1 else 0) + at_session s M"
  "at_session s (replicate_mset n k) = (if session_of k = s then n else 0)"
  by (auto simp: at_session_def)

lemma keys_of_simps [simp]:
  "keys_of {#} = {#}" "keys_of (M + N) = keys_of M + keys_of N"
  "keys_of (add_mset x M) = add_mset (fst x) (keys_of M)"
  by (auto simp: keys_of_def)

lemma pending_of_simps [simp]:
  "pending_of {#} = {#}" "pending_of (M + N) = pending_of M + pending_of N"
  "pending_of (add_mset x M) = (if snd x then add_mset (fst x) (pending_of M) else pending_of M)"
  by (auto simp: pending_of_def)

section \<open>The fair budget is exact\<close>

text \<open>A usage map has an entry exactly for the scopes that hold slots.\<close>

definition usage_entry :: "nat \<Rightarrow> nat \<Rightarrow> budget_usage option" where
  "usage_entry e p = (if e = 0 then None else Some \<lparr>u_entries = int e, u_pending = int p\<rparr>)"

definition fair_within :: "fair_budget \<Rightarrow> (rpc_key \<times> bool) multiset \<Rightarrow> bool" where
  "fair_within b M \<longleftrightarrow> int (size M) \<le> lim_max (globalEntries b)
     \<and> (\<forall>a. int (at_auth a (keys_of M)) \<le> authLimit b)
     \<and> (\<forall>s. int (at_session s (keys_of M)) \<le> sessionLimit b)
     \<and> (\<forall>a. int (at_auth a (pending_of M)) \<le> pendingPerAuth b)"

definition fair_accounts :: "maphash \<Rightarrow> fair_budget \<Rightarrow> (rpc_key \<times> bool) multiset \<Rightarrow> bool" where
  "fair_accounts mh b M \<longleftrightarrow> fair_within b M
     \<and> 0 < lim_max (globalEntries b) \<and> 0 < authLimit b \<and> 0 < sessionLimit b
     \<and> 0 < pendingPerAuth b \<and> lim_used (globalEntries b) = int (size M)
     \<and> (\<forall>a. flat (authShard mh) (authUsages b) a
            = usage_entry (at_auth a (keys_of M)) (at_auth a (pending_of M)))
     \<and> (\<forall>s. flat (sessionShard mh) (sessionUsages b) s
            = usage_entry (at_session s (keys_of M)) 0)"

declare split_paired_All [simp del] split_paired_Ex [simp del]

lemma pending_le_keys: "at_auth a (pending_of M) \<le> at_auth a (keys_of M)"
  by (induction M) auto

lemma u_entries_read [simp]: "u_entries (read_usage (usage_entry e p)) = int e"
  by (simp add: read_usage_def usage_entry_def zero_usage_def)

lemma u_pending_read: "p \<le> e \<Longrightarrow> u_pending (read_usage (usage_entry e p)) = int p"
  by (simp add: read_usage_def usage_entry_def zero_usage_def)

lemma read_usage_eq:
  "p \<le> e \<Longrightarrow> read_usage (usage_entry e p) = \<lparr>u_entries = int e, u_pending = int p\<rparr>"
  by (simp add: read_usage_def usage_entry_def zero_usage_def)

lemma fair_within_antimono:
  assumes "fair_within b N" "size M \<le> size N"
    "\<And>a. at_auth a (keys_of M) \<le> at_auth a (keys_of N)"
    "\<And>s. at_session s (keys_of M) \<le> at_session s (keys_of N)"
    "\<And>a. at_auth a (pending_of M) \<le> at_auth a (pending_of N)"
  shows "fair_within b M"
  using assms unfolding fair_within_def by (meson of_nat_mono order_trans)

lemma fair_within_mono: "fair_within b (add_mset x M) \<Longrightarrow> fair_within b M"
  by (erule fair_within_antimono) simp_all

lemma fair_within_demote: "fair_within b (add_mset (k, p) M) \<Longrightarrow> fair_within b (add_mset (k, False) M)"
  by (erule fair_within_antimono) simp_all

lemma fair_within_limits:
  "lim_max (globalEntries b') = lim_max (globalEntries b) \<Longrightarrow> authLimit b' = authLimit b \<Longrightarrow>
   sessionLimit b' = sessionLimit b \<Longrightarrow> pendingPerAuth b' = pendingPerAuth b \<Longrightarrow>
   fair_within b' M \<longleftrightarrow> fair_within b M"
  by (simp add: fair_within_def)

lemma flat_store_usage [simp, shard_simps]:
  "flat ix (store_usage ix k u sh) =
    (flat ix sh)(k := (if u = zero_usage then None else Some u))"
  by (simp add: store_usage_def)

lemma fair_reserve_iff:
  assumes "fair_accounts mh b M"
  shows "(\<exists>b' r. fair_reserve mh b k p = Some (b', r)) \<longleftrightarrow> fair_within b (add_mset (k, p) M)"
proof -
  let ?ea = "at_auth (authKeyID k) (keys_of M)" and ?pa = "at_auth (authKeyID k) (pending_of M)"
  let ?es = "at_session (session_of k) (keys_of M)"
  have "(\<exists>b' r. fair_reserve mh b k p = Some (b', r)) \<longleftrightarrow>
      int ?ea + 1 \<le> authLimit b \<and> int ?es + 1 \<le> sessionLimit b
      \<and> (p \<longrightarrow> int ?pa + 1 \<le> pendingPerAuth b) \<and> int (size M) + 1 \<le> lim_max (globalEntries b)"
    using assms
    by (auto simp: fair_reserve_def fair_accounts_def Let_def withinRPCExecutionBudget_def
        u_pending_read pending_le_keys limit_reserve_def limit_reserveN_def split: option.splits)
  also have "\<dots> \<longleftrightarrow> fair_within b (add_mset (k, p) M)"
    using assms by (auto simp: fair_within_def fair_accounts_def)
  finally show ?thesis .
qed

lemma fair_reserve_accounts:
  assumes acc: "fair_accounts mh b M" and res: "fair_reserve mh b k p = Some (b', r)"
  shows "fair_accounts mh b' (add_mset (k, p) M)
    \<and> r = \<lparr>r_key = k, r_pending = p, r_released = False\<rparr>"
proof -
  have w: "fair_within b (add_mset (k, p) M)"
    using fair_reserve_iff [OF acc] res by blast
  have r: "r = \<lparr>r_key = k, r_pending = p, r_released = False\<rparr>"
    using res by (auto simp: fair_reserve_def Let_def split: if_splits option.splits)
  have b': "globalEntries b' = (globalEntries b)\<lparr>lim_used := int (size M) + 1\<rparr>"
    "authLimit b' = authLimit b" "sessionLimit b' = sessionLimit b"
    "pendingPerAuth b' = pendingPerAuth b"
    "flat (authShard mh) (authUsages b') = (flat (authShard mh) (authUsages b))(authKeyID k \<mapsto>
       \<lparr>u_entries = int (at_auth (authKeyID k) (keys_of M)) + 1,
        u_pending = int (at_auth (authKeyID k) (pending_of M)) + (if p then 1 else 0)\<rparr>)"
    "flat (sessionShard mh) (sessionUsages b') =
       (flat (sessionShard mh) (sessionUsages b))(session_of k \<mapsto>
       \<lparr>u_entries = int (at_session (session_of k) (keys_of M)) + 1, u_pending = 0\<rparr>)"
    using res acc
    by (auto simp: fair_reserve_def fair_accounts_def Let_def limit_reserve_def limit_reserveN_def
        read_usage_eq pending_le_keys split: if_splits option.splits)
  show ?thesis
    using acc w r
    by (auto simp: fair_accounts_def fair_within_limits [of b' b] b' usage_entry_def)
qed

lemma fair_release_accounts:
  assumes acc: "fair_accounts mh b (add_mset (k, p) M)"
    and r: "r_key r = k" "r_pending r = p" "\<not> r_released r"
  shows "\<exists>b'. fair_release mh b r = Ret (b', r\<lparr>r_released := True, r_pending := False\<rparr>)
    \<and> fair_accounts mh b' M"
proof -
  let ?ea = "at_auth (authKeyID k) (keys_of M)" and ?pa = "at_auth (authKeyID k) (pending_of M)"
  let ?es = "at_session (session_of k) (keys_of M)"
  have a: "flat (authShard mh) (authUsages b) (authKeyID k) =
      Some \<lparr>u_entries = int ?ea + 1, u_pending = int ?pa + (if p then 1 else 0)\<rparr>"
    and s: "flat (sessionShard mh) (sessionUsages b) (session_of k) =
      Some \<lparr>u_entries = int ?es + 1, u_pending = 0\<rparr>"
    and g: "lim_used (globalEntries b) = int (size M) + 1"
    using acc by (auto simp: fair_accounts_def usage_entry_def)
  let ?b = "b\<lparr>globalEntries := (globalEntries b)\<lparr>lim_used := int (size M)\<rparr>,
      authUsages := store_usage (authShard mh) (authKeyID k)
        \<lparr>u_entries = int ?ea, u_pending = int ?pa\<rparr> (authUsages b),
      sessionUsages := store_usage (sessionShard mh) (session_of k)
        \<lparr>u_entries = int ?es, u_pending = 0\<rparr> (sessionUsages b)\<rparr>"
  have "fair_release mh b r = Ret (?b, r\<lparr>r_released := True, r_pending := False\<rparr>)"
    using r a s g by (simp add: fair_release_def limit_release_def limit_releaseN_def Let_def)
  moreover have "fair_accounts mh ?b M"
    using acc pending_le_keys [of "authKeyID k" M] fair_within_mono [of b "(k, p)" M]
    by (auto simp: fair_accounts_def fair_within_limits [of ?b b] usage_entry_def zero_usage_def
        split: if_splits)
  ultimately show ?thesis by blast
qed

lemma releasePending_accounts:
  assumes acc: "fair_accounts mh b (add_mset (k, True) M)"
    and r: "r_key r = k" "r_pending r" "\<not> r_released r"
  shows "\<exists>b'. releasePending mh b r = Ret (b', r\<lparr>r_pending := False\<rparr>)
    \<and> fair_accounts mh b' (add_mset (k, False) M)"
proof -
  let ?ea = "at_auth (authKeyID k) (keys_of M)" and ?pa = "at_auth (authKeyID k) (pending_of M)"
  have a: "flat (authShard mh) (authUsages b) (authKeyID k) =
      Some \<lparr>u_entries = int ?ea + 1, u_pending = int ?pa + 1\<rparr>"
    using acc by (auto simp: fair_accounts_def usage_entry_def)
  let ?b = "b\<lparr>authUsages := shard_put (authShard mh) (authKeyID k)
        \<lparr>u_entries = int ?ea + 1, u_pending = int ?pa\<rparr> (authUsages b)\<rparr>"
  have "releasePending mh b r = Ret (?b, r\<lparr>r_pending := False\<rparr>)"
    using r a by (simp add: releasePending_def)
  moreover have "fair_accounts mh ?b (add_mset (k, False) M)"
    using acc fair_within_demote [of b k True M]
    by (auto simp: fair_accounts_def fair_within_limits [of ?b b] usage_entry_def split: if_splits)
  ultimately show ?thesis by blast
qed

text \<open>The fair budget, with the reservation of a request as its handle.\<close>

definition fair_take :: "maphash \<Rightarrow> fair_budget \<Rightarrow> rpc_key \<times> bool \<Rightarrow> fair_budget option" where
  "fair_take mh b q = map_option fst (fair_reserve mh b (fst q) (snd q))"

definition fair_give :: "maphash \<Rightarrow> fair_budget \<Rightarrow> rpc_key \<times> bool \<Rightarrow> fair_budget outcome" where
  "fair_give mh b q = bind_outcome
    (fair_release mh b \<lparr>r_key = fst q, r_pending = snd q, r_released = False\<rparr>) (\<lambda>x. Ret (fst x))"

interpretation fair: slot_budget "fair_accounts mh" fair_within "\<lambda>q. {#q#}" "\<lambda>q. True"
  "fair_take mh" "fair_give mh"
  for mh
proof unfold_locales
  fix b :: fair_budget and M q
  assume "fair_accounts mh b M"
  then show "(\<exists>b'. fair_take mh b q = Some b') \<longleftrightarrow> True \<and> fair_within b (M + {#q#})"
    using fair_reserve_iff [of mh b M "fst q" "snd q"] by (auto simp: fair_take_def)
next
  fix b b' :: fair_budget and M q
  assume "fair_accounts mh b M" "fair_take mh b q = Some b'"
  then show "fair_accounts mh b' (M + {#q#})"
    using fair_reserve_accounts [of mh b M "fst q" "snd q"] by (auto simp: fair_take_def)
next
  fix b :: fair_budget and M q
  assume "fair_accounts mh b (M + {#q#})"
  then have "fair_accounts mh b (add_mset (fst q, snd q) M)" by simp
  from fair_release_accounts [OF this, of "\<lparr>r_key = fst q, r_pending = snd q, r_released = False\<rparr>"]
  show "\<exists>b'. fair_give mh b q = Ret b' \<and> fair_accounts mh b' M"
    by (auto simp: fair_give_def)
qed (simp add: fair_accounts_def)

section \<open>The subscriber budget is exact\<close>

definition count_entry :: "nat \<Rightarrow> int option" where
  "count_entry n = (if n = 0 then None else Some (int n))"

definition subscriber_within :: "subscriber_budget \<Rightarrow> rpc_key multiset \<Rightarrow> bool" where
  "subscriber_within b M \<longleftrightarrow> int (size M) \<le> lim_max (sub_global b)
     \<and> (\<forall>a. int (at_auth a M) \<le> sub_authLimit b)
     \<and> (\<forall>s. int (at_session s M) \<le> sub_sessionLimit b)"

definition subscriber_accounts :: "maphash \<Rightarrow> subscriber_budget \<Rightarrow> rpc_key multiset \<Rightarrow> bool" where
  "subscriber_accounts mh b M \<longleftrightarrow> subscriber_within b M
     \<and> 0 < lim_max (sub_global b) \<and> 0 < sub_authLimit b \<and> 0 < sub_sessionLimit b
     \<and> lim_used (sub_global b) = int (size M)
     \<and> (\<forall>a. flat (authShard mh) (sub_auth b) a = count_entry (at_auth a M))
     \<and> (\<forall>s. flat (sessionShard mh) (sub_session b) s = count_entry (at_session s M))"

lemma read_count_entry [simp]: "read_count (count_entry n) = int n"
  by (simp add: read_count_def count_entry_def)

lemma flat_store_count [simp, shard_simps]:
  "flat ix (store_count ix k n sh) = (flat ix sh)(k := (if n = 0 then None else Some n))"
  by (simp add: store_count_def)

lemma subscriber_within_limits:
  "lim_max (sub_global b') = lim_max (sub_global b) \<Longrightarrow> sub_authLimit b' = sub_authLimit b \<Longrightarrow>
   sub_sessionLimit b' = sub_sessionLimit b \<Longrightarrow> subscriber_within b' M \<longleftrightarrow> subscriber_within b M"
  by (simp add: subscriber_within_def)

lemma subscriber_within_mono:
  assumes "subscriber_within b (M + N)" shows "subscriber_within b M"
proof -
  have "int (at_auth a M) \<le> int (at_auth a (M + N))" "int (at_session s M) \<le> int (at_session s (M + N))"
    "int (size M) \<le> int (size (M + N))" for a s
    by simp_all
  with assms show ?thesis unfolding subscriber_within_def by (meson order_trans)
qed

lemma subscriber_reserve_iff:
  assumes "subscriber_accounts mh b M"
  shows "(\<exists>b'. subscriber_reserve mh b k n = Some b') \<longleftrightarrow>
    0 < n \<and> subscriber_within b (M + replicate_mset (nat n) k)"
proof -
  have "(\<exists>b'. subscriber_reserve mh b k n = Some b') \<longleftrightarrow> 0 < n
      \<and> int (at_auth (authKeyID k) M) + n \<le> sub_authLimit b
      \<and> int (at_session (session_of k) M) + n \<le> sub_sessionLimit b
      \<and> int (size M) + n \<le> lim_max (sub_global b)"
    using assms
    by (auto simp: subscriber_reserve_def subscriber_accounts_def Let_def
        withinRPCExecutionBudget_def limit_reserveN_def split: option.splits)
  also have "\<dots> \<longleftrightarrow> 0 < n \<and> subscriber_within b (M + replicate_mset (nat n) k)"
    using assms by (auto simp: subscriber_within_def subscriber_accounts_def)
  finally show ?thesis .
qed

lemma subscriber_reserve_accounts:
  assumes acc: "subscriber_accounts mh b M" and res: "subscriber_reserve mh b k n = Some b'"
  shows "subscriber_accounts mh b' (M + replicate_mset (nat n) k)"
proof -
  have w: "0 < n" "subscriber_within b (M + replicate_mset (nat n) k)"
    using subscriber_reserve_iff [OF acc] res by blast+
  have b': "sub_global b' = (sub_global b)\<lparr>lim_used := int (size M) + n\<rparr>"
    "sub_authLimit b' = sub_authLimit b" "sub_sessionLimit b' = sub_sessionLimit b"
    "flat (authShard mh) (sub_auth b') = (flat (authShard mh) (sub_auth b))(authKeyID k \<mapsto>
       int (at_auth (authKeyID k) M) + n)"
    "flat (sessionShard mh) (sub_session b') =
       (flat (sessionShard mh) (sub_session b))(session_of k \<mapsto> int (at_session (session_of k) M) + n)"
    using res acc
    by (auto simp: subscriber_reserve_def subscriber_accounts_def Let_def limit_reserveN_def
        split: if_splits option.splits)
  show ?thesis
    using acc w
    by (auto simp: subscriber_accounts_def subscriber_within_limits [of b' b] b' count_entry_def)
qed

lemma subscriber_release_accounts:
  assumes acc: "subscriber_accounts mh b (M + replicate_mset (nat n) k)" and n: "0 < n"
  shows "\<exists>b'. subscriber_release mh b k n = Ret b' \<and> subscriber_accounts mh b' M"
proof -
  let ?na = "at_auth (authKeyID k) M" and ?ns = "at_session (session_of k) M"
  have a: "flat (authShard mh) (sub_auth b) (authKeyID k) = Some (int ?na + n)"
    and s: "flat (sessionShard mh) (sub_session b) (session_of k) = Some (int ?ns + n)"
    and g: "lim_used (sub_global b) = int (size M) + n"
    using acc n by (auto simp: subscriber_accounts_def count_entry_def)
  let ?b = "b\<lparr>sub_global := (sub_global b)\<lparr>lim_used := int (size M)\<rparr>,
      sub_auth := store_count (authShard mh) (authKeyID k) (int ?na) (sub_auth b),
      sub_session := store_count (sessionShard mh) (session_of k) (int ?ns) (sub_session b)\<rparr>"
  have "subscriber_release mh b k n = Ret ?b"
    using n a s g by (simp add: subscriber_release_def limit_releaseN_def)
  moreover have "subscriber_accounts mh ?b M"
    using acc subscriber_within_mono [of b M "replicate_mset (nat n) k"]
    by (auto simp: subscriber_accounts_def subscriber_within_limits [of ?b b] count_entry_def
        split: if_splits)
  ultimately show ?thesis by blast
qed

interpretation subs: slot_budget "subscriber_accounts mh" subscriber_within
  "\<lambda>q. replicate_mset (nat (snd q)) (fst q)" "\<lambda>q. 0 < snd q"
  "\<lambda>b q. subscriber_reserve mh b (fst q) (snd q)" "\<lambda>b q. subscriber_release mh b (fst q) (snd q)"
  for mh
  by unfold_locales
    (auto simp: subscriber_reserve_iff subscriber_reserve_accounts subscriber_release_accounts,
     simp add: subscriber_accounts_def)

section \<open>Admission sequences\<close>

definition active :: "admission_tracker \<Rightarrow> 64 word set" where
  "active t = {q. q \<in> set (t (tracker_shard q))}"

definition sharded :: "admission_tracker \<Rightarrow> bool" where
  "sharded t \<longleftrightarrow> (\<forall>i. \<forall>q\<in>set (t i). tracker_shard q = i)"

lemma tracker_shard_less: "tracker_shard q < 64"
proof -
  have "take_bit 6 (unat q) < 2 ^ 6" by (rule take_bit_nat_less_exp)
  then show ?thesis by (simp add: tracker_shard_def unsigned_take_bit_eq)
qed

lemma allocate_active:
  assumes "allocateAndRegister t current = Some (t', q)"
  shows "current \<noteq> -1" "q = current + 1" "active t' = insert q (active t)"
    "sharded t \<Longrightarrow> sharded t'"
  using assms by (auto simp: allocateAndRegister_def Let_def active_def sharded_def split: if_splits)

lemma retire_active:
  assumes "q = 0 \<or> q \<in> active t"
  shows "\<exists>t'. retire t q = Ret t' \<and> active t' = (if q = 0 then active t else active t - {q})
    \<and> (sharded t \<longrightarrow> sharded t')"
proof (cases "q = 0")
  case False
  let ?t = "t(tracker_shard q := removeAll q (t (tracker_shard q)))"
  have "retire t q = Ret ?t" using assms False by (simp add: retire_def active_def)
  moreover have "active ?t = active t - {q}" by (auto simp: active_def)
  moreover have "sharded t \<Longrightarrow> sharded ?t" by (auto simp: sharded_def)
  ultimately show ?thesis using False by simp
qed (simp add: retire_def)

lemma floor_scan_spec:
  assumes "0 \<notin> set qs"
  shows "floor_scan m qs = (if m = 0 then if qs = [] then 0 else Min (set qs) else Min (insert m (set qs)))"
  using assms
proof (induction qs arbitrary: m)
  case (Cons q qs)
  have q: "q \<noteq> 0" and qs: "0 \<notin> set qs" using Cons.prems by auto
  show ?case
  proof (cases "m = 0 \<or> q < m")
    case True
    then have "floor_scan m (q # qs) = floor_scan q qs" by (simp add: floor_scan_def)
    also have "\<dots> = Min (insert q (set qs))" using Cons.IH [OF qs, of q] q by simp
    finally show ?thesis using True by (auto simp: min_def)
  next
    case False
    then have "floor_scan m (q # qs) = floor_scan m qs" by (simp add: floor_scan_def)
    then show ?thesis using Cons.IH [OF qs, of m] False
      by (cases "qs = []") (auto simp: min_def Min.insert)
  qed
qed (simp add: floor_scan_def)

lemma floor_scan_append: "floor_scan m (qs @ qs') = floor_scan (floor_scan m qs) qs'"
  by (simp add: floor_scan_def)

lemma foldl_floor_scan: "foldl (\<lambda>m i. floor_scan m (t i)) m is = floor_scan m (concat (map t is))"
  by (induction "is" arbitrary: m) (simp_all add: floor_scan_append floor_scan_def)

lemma active_list: "sharded t \<Longrightarrow> set (concat (map t [0..<64])) = active t"
  using tracker_shard_less by (force simp: active_def sharded_def)

text \<open>The floor is the smallest running admission, or the next one to be allocated.\<close>

lemma stableSafeFloor_spec:
  assumes "sharded t" "0 \<notin> active t"
  shows "stableSafeFloor t lst =
    (if active t = {} then if lst = -1 then -1 else lst + 1 else Min (active t))"
proof -
  let ?qs = "concat (map t [0..<64])"
  have z: "0 \<notin> set ?qs" and a: "set ?qs = active t" using assms active_list by auto
  have "foldl (\<lambda>m i. floor_scan m (t i)) 0 [0..<64] = floor_scan 0 ?qs"
    by (rule foldl_floor_scan)
  also have "\<dots> = (if ?qs = [] then 0 else Min (active t))"
    using floor_scan_spec [OF z, of 0] a by simp
  finally have f: "foldl (\<lambda>m i. floor_scan m (t i)) 0 [0..<64] = (if active t = {} then 0 else Min (active t))"
    using a by (metis set_empty)
  have "finite (active t)" using a by (metis finite_set)
  then have "active t \<noteq> {} \<Longrightarrow> Min (active t) \<noteq> 0" using assms(2) Min_in by metis
  then show ?thesis by (simp add: stableSafeFloor_def f)
qed

end
