(* ===== verification/Rpc_Ledger.thy ===== *)
theory Rpc_Ledger
  imports Rpc_Budget
begin

text \<open>
  The RPC execution ledger of the MTProto edge (src/internal/mtprotoedge/rpc_execution_ledger.go
  and rpc_flight.go). A client may repeat a request on a new connection before it has seen the
  answer; the ledger decides, for each (auth key, session, message id), whether the request is to
  be executed, is being executed, or has been executed, and it tells the callers that joined a
  running execution about its end.

  Go objects that are shared through pointers (flights, receipts with their list elements,
  reservations, owner leases) live in heaps, lists indexed by the pointer: an owner lease keeps
  pointing at its flight after the flight has left the ledger, and the code tells the two cases
  apart by comparing pointers. Every operation holds the lock of one of the sixteen shards and is
  one atomic step; an operation that takes several locks in turn is several steps, between which
  other operations may run. Callbacks are numbers; the third component of a result lists the
  callbacks the operation runs after it has dropped the lock. A lease's \<open>delivery\<close> object belongs
  to the outbound path and is left out.
\<close>

section \<open>Identities, flights, receipts\<close>

text \<open>
  \<open>tlprofile.PreparedIdentity\<close> is an opaque comparable value of another module: a string that is
  only compared. A profile is a number with 0 for none.
\<close>

record request_identity =
  exact :: string
  profile :: int
  valid_identity :: bool

definition zero_identity :: request_identity where
  "zero_identity = \<lparr>exact = '''', profile = 0, valid_identity = False\<rparr>"

definition identity_matches :: "request_identity \<Rightarrow> request_identity \<Rightarrow> bool" where
  "identity_matches i requested \<longleftrightarrow>
    (if \<not> valid_identity requested then True
     else valid_identity i \<and> exact i = exact requested)"

datatype rpc_error =
    ErrRPCResultFlightCapacity
  | ErrRPCResultSubscriberCapacity
  | ErrRPCResultFlightInvalid
  | ErrRPCResultIdentityMismatch int bool
  | ErrRPCResultReplayUnavailable
  | ErrRPCAdmissionSeqExhausted

definition identityMismatch :: "request_identity \<Rightarrow> rpc_error" where
  "identityMismatch i =
    ErrRPCResultIdentityMismatch (profile i) (valid_identity i \<and> profile i \<noteq> 0)"

type_synonym ref = nat
type_synonym callback = nat
type_synonym encoded_message = nat

record rpc_flight =
  f_done :: bool
  f_encoded :: "encoded_message option"
  f_ok :: bool
  subscribers :: "callback list"
  executionDone :: bool
  f_executionOK :: bool
  executionSubscribers :: "callback list"
  f_acknowledged :: bool
  subscriberSlots :: int
  f_identity :: request_identity
  f_admissionSeq :: "64 word"
  f_reservation :: "ref option"

record rpc_receipt =
  rc_key :: rpc_key
  expiresAt :: int
  rc_identity :: request_identity
  rc_admissionSeq :: "64 word"
  executionKnown :: bool
  rc_executionOK :: bool
  rc_acknowledged :: bool
  unavailable :: bool
  rc_reservation :: "ref option"

record owner_lease =
  l_key :: rpc_key
  l_flight :: ref
  abortHook :: "callback option"
  handedOff :: bool

type_synonym rpc_waiter = "rpc_key \<times> ref"

datatype rpc_acquire =
    Completed "64 word" encoded_message bool bool
  | Acknowledged "64 word" bool bool
  | Pending "64 word" rpc_waiter
  | Owner "64 word" ref

datatype rpc_dependency =
    WaitFor rpc_waiter
  | Executed bool

datatype fired =
    RanResult callback "encoded_message option" bool
  | RanExecution callback bool
  | RanHook callback

section \<open>The ledger\<close>

record ledger_shard =
  order :: "ref list"
  byKey :: "rpc_key \<rightharpoonup> ref"
  pendings :: "rpc_key \<rightharpoonup> ref"

record rpc_ledger =
  flights :: "rpc_flight list"
  receipts :: "rpc_receipt list"
  reservations :: "reservation list"
  leases :: "owner_lease list"
  shards_of :: "nat \<Rightarrow> ledger_shard"
  receiptCount :: int
  fairBudget :: fair_budget
  flightLimit :: flight_limit
  subscriberBudget :: subscriber_budget
  subscriberPerFlight :: int
  nextAdmissionSeq :: "64 word"
  activeAdmissions :: admission_tracker

text \<open>Times are nanoseconds; a receipt lives for 331 seconds.\<close>

definition rpcExecutionReceiptTTL :: int where
  "rpcExecutionReceiptTTL = 331 * 1000000000"

definition rpcExecutionLedgerShards :: nat where
  "rpcExecutionLedgerShards = 16"

definition shardIndex :: "maphash \<Rightarrow> rpc_key \<Rightarrow> nat" where
  "shardIndex mh key = unat (take_bit 4 (mh (le_bytes (authKeyID key)
     @ le_bytes (word_of_int (sessionID key)) @ le_bytes (word_of_int (reqMsgID key)))))"

record ledger_capacity =
  maxPending :: int
  maxPendingPerAuth :: int
  globalMaxEntries :: int
  authMaxEntries :: int
  sessionMaxEntries :: int
  subscriberMaxGlobal :: int
  subscriberMaxAuth :: int
  subscriberMaxSession :: int
  subscriberMaxPerFlight :: int

definition default_if_not_positive :: "int \<Rightarrow> int \<Rightarrow> int" where
  "default_if_not_positive n d = (if n \<le> 0 then d else n)"

definition newRPCExecutionLedger :: "ledger_capacity \<Rightarrow> rpc_ledger" where
  "newRPCExecutionLedger c =
    (let maxPend = default_if_not_positive (maxPending c) 32768;
         perAuth = default_if_not_positive (maxPendingPerAuth c) maxPend;
         globalMax = default_if_not_positive (globalMaxEntries c) (2 ^ 18);
         authMax = default_if_not_positive (authMaxEntries c) globalMax;
         sessionMax = default_if_not_positive (sessionMaxEntries c) authMax;
         subGlobal = default_if_not_positive (subscriberMaxGlobal c) (2 ^ 16);
         subAuth = default_if_not_positive (subscriberMaxAuth c) (2 ^ 13);
         subSession = default_if_not_positive (subscriberMaxSession c) (2 ^ 11);
         perFlight = default_if_not_positive (subscriberMaxPerFlight c) (2 ^ 7)
     in \<lparr>flights = [], receipts = [], reservations = [], leases = [],
         shards_of = (\<lambda>_. \<lparr>order = [], byKey = Map.empty, pendings = Map.empty\<rparr>),
         receiptCount = 0,
         fairBudget = newRPCExecutionFairBudget \<lparr>lim_max = globalMax, lim_used = 0\<rparr>
           authMax sessionMax perAuth,
         flightLimit = \<lparr>lim_max = maxPend, lim_used = 0\<rparr>,
         subscriberBudget = newRPCResultSubscriberBudget subGlobal subAuth subSession,
         subscriberPerFlight = perFlight,
         nextAdmissionSeq = 0,
         activeAdmissions = (\<lambda>_. [])\<rparr>)"

text \<open>The accesses to a key's shard: \<open>s.byKey[key]\<close>, \<open>s.pending[key]\<close> and their updates.\<close>

definition receipt_at :: "maphash \<Rightarrow> rpc_ledger \<Rightarrow> rpc_key \<Rightarrow> ref option" where
  "receipt_at mh l key = byKey (shards_of l (shardIndex mh key)) key"

definition pending_at :: "maphash \<Rightarrow> rpc_ledger \<Rightarrow> rpc_key \<Rightarrow> ref option" where
  "pending_at mh l key = pendings (shards_of l (shardIndex mh key)) key"

definition upd_shard :: "nat \<Rightarrow> (ledger_shard \<Rightarrow> ledger_shard) \<Rightarrow> rpc_ledger \<Rightarrow> rpc_ledger" where
  "upd_shard i g l = l\<lparr>shards_of := (shards_of l)(i := g (shards_of l i))\<rparr>"

definition set_pending :: "maphash \<Rightarrow> rpc_key \<Rightarrow> ref option \<Rightarrow> rpc_ledger \<Rightarrow> rpc_ledger" where
  "set_pending mh key v =
    upd_shard (shardIndex mh key) (\<lambda>s. s\<lparr>pendings := (pendings s)(key := v)\<rparr>)"

definition upd_flight :: "ref \<Rightarrow> (rpc_flight \<Rightarrow> rpc_flight) \<Rightarrow> rpc_ledger \<Rightarrow> rpc_ledger" where
  "upd_flight f g l = l\<lparr>flights := (flights l)[f := g (flights l ! f)]\<rparr>"

section \<open>Receipts\<close>

definition reservation_release :: "maphash \<Rightarrow> ref \<Rightarrow> rpc_ledger \<Rightarrow> rpc_ledger outcome" where
  "reservation_release mh r l =
    bind_outcome (fair_release mh (fairBudget l) (reservations l ! r)) (\<lambda>(b, rv).
      Ret (l\<lparr>fairBudget := b, reservations := (reservations l)[r := rv]\<rparr>))"

definition reservation_releasePending :: "maphash \<Rightarrow> ref \<Rightarrow> rpc_ledger \<Rightarrow> rpc_ledger outcome" where
  "reservation_releasePending mh r l =
    bind_outcome (releasePending mh (fairBudget l) (reservations l ! r)) (\<lambda>(b, rv).
      Ret (l\<lparr>fairBudget := b, reservations := (reservations l)[r := rv]\<rparr>))"

definition decrementReceiptCount :: "rpc_ledger \<Rightarrow> rpc_ledger outcome" where
  "decrementReceiptCount l =
    (if receiptCount l - 1 < 0
     then Panic ''mtprotoedge: rpc execution receipt counter underflow''
     else Ret (l\<lparr>receiptCount := receiptCount l - 1\<rparr>))"

definition unlinkElement :: "nat \<Rightarrow> ref \<Rightarrow> rpc_ledger \<Rightarrow> rpc_ledger outcome" where
  "unlinkElement i e l =
    decrementReceiptCount
      (upd_shard i (\<lambda>s. s\<lparr>byKey := (byKey s)(rc_key (receipts l ! e) := None),
                          order := remove1 e (order s)\<rparr>) l)"

definition drop_receipt_reservation :: "maphash \<Rightarrow> ref \<Rightarrow> rpc_ledger \<Rightarrow> rpc_ledger outcome" where
  "drop_receipt_reservation mh e l =
    (case rc_reservation (receipts l ! e) of
       None \<Rightarrow> Ret l
     | Some r \<Rightarrow> bind_outcome (reservation_release mh r l) (\<lambda>l.
         Ret (l\<lparr>receipts := (receipts l)[e := (receipts l ! e)\<lparr>rc_reservation := None\<rparr>]\<rparr>)))"

definition removeElement :: "maphash \<Rightarrow> nat \<Rightarrow> ref \<Rightarrow> rpc_ledger \<Rightarrow> rpc_ledger outcome" where
  "removeElement mh i e l =
    bind_outcome (unlinkElement i e l) (drop_receipt_reservation mh e)"

text \<open>The loops run over the list as it was when they started: they step before they remove.\<close>

fun reap_loop :: "maphash \<Rightarrow> nat \<Rightarrow> int \<Rightarrow> ref list \<Rightarrow> rpc_ledger \<Rightarrow> rpc_ledger outcome" where
  "reap_loop mh i now [] l = Ret l"
| "reap_loop mh i now (e # es) l =
    (if expiresAt (receipts l ! e) > now then Ret l
     else bind_outcome (removeElement mh i e l) (reap_loop mh i now es))"

definition expireLocked :: "maphash \<Rightarrow> nat \<Rightarrow> int \<Rightarrow> rpc_ledger \<Rightarrow> rpc_ledger outcome" where
  "expireLocked mh i now l = reap_loop mh i now (order (shards_of l i)) l"

fun expire_shards :: "maphash \<Rightarrow> (nat \<Rightarrow> int) \<Rightarrow> nat list \<Rightarrow> rpc_ledger \<Rightarrow> rpc_ledger outcome" where
  "expire_shards mh clock [] l = Ret l"
| "expire_shards mh clock (i # is) l =
    bind_outcome (expireLocked mh i (clock i) l) (expire_shards mh clock is)"

definition expireReceipts :: "maphash \<Rightarrow> (nat \<Rightarrow> int) \<Rightarrow> rpc_ledger \<Rightarrow> rpc_ledger outcome" where
  "expireReceipts mh clock = expire_shards mh clock [0..<rpcExecutionLedgerShards]"

fun forget_loop ::
  "maphash \<Rightarrow> nat \<Rightarrow> auth_key_id \<Rightarrow> int \<Rightarrow> ref list \<Rightarrow> rpc_ledger \<Rightarrow> rpc_ledger outcome" where
  "forget_loop mh i a sid [] l = Ret l"
| "forget_loop mh i a sid (e # es) l =
    (if authKeyID (rc_key (receipts l ! e)) = a \<and> sessionID (rc_key (receipts l ! e)) = sid
     then bind_outcome (removeElement mh i e l) (forget_loop mh i a sid es)
     else forget_loop mh i a sid es l)"

definition forget_shard ::
  "maphash \<Rightarrow> nat \<Rightarrow> auth_key_id \<Rightarrow> int \<Rightarrow> rpc_ledger \<Rightarrow> rpc_ledger outcome" where
  "forget_shard mh i a sid l = forget_loop mh i a sid (order (shards_of l i)) l"

fun forget_shards ::
  "maphash \<Rightarrow> auth_key_id \<Rightarrow> int \<Rightarrow> nat list \<Rightarrow> rpc_ledger \<Rightarrow> rpc_ledger outcome" where
  "forget_shards mh a sid [] l = Ret l"
| "forget_shards mh a sid (i # is) l =
    bind_outcome (forget_shard mh i a sid l) (forget_shards mh a sid is)"

definition forgetSession :: "maphash \<Rightarrow> auth_key_id \<Rightarrow> int \<Rightarrow> rpc_ledger \<Rightarrow> rpc_ledger outcome" where
  "forgetSession mh a sid = forget_shards mh a sid [0..<rpcExecutionLedgerShards]"

definition receiptBudgetBytes :: "rpc_ledger \<Rightarrow> int" where
  "receiptBudgetBytes l = receiptCount l * 384"

definition stableAdmissionSafeFloor :: "rpc_ledger \<Rightarrow> 64 word" where
  "stableAdmissionSafeFloor l = stableSafeFloor (activeAdmissions l) (nextAdmissionSeq l)"

section \<open>Claiming a request\<close>

text \<open>
  \<open>attempt\<close> is one turn of the loop of \<open>acquire\<close>, under the lock of the key's shard. It ends
  the loop with an answer, or reports that no reservation was to be had. The replay store is the
  parameter \<open>replay\<close>: the retained frame of a request, if the outbox still has it.
\<close>

type_synonym replay_store = "rpc_key \<Rightarrow> encoded_message option"

datatype attempt_result =
    Answer "rpc_error + rpc_acquire"
  | NoReservation

definition answer_receipt ::
  "replay_store \<Rightarrow> rpc_key \<Rightarrow> rpc_receipt \<Rightarrow> request_identity \<Rightarrow> rpc_error + rpc_acquire" where
  "answer_receipt replay key entry identity =
    (if \<not> identity_matches (rc_identity entry) identity then Inl (identityMismatch (rc_identity entry))
     else if rc_acknowledged entry
       then Inr (Acknowledged (rc_admissionSeq entry) (executionKnown entry) (rc_executionOK entry))
     else if unavailable entry then Inl ErrRPCResultFlightCapacity
     else case replay key of
       None \<Rightarrow> Inl ErrRPCResultReplayUnavailable
     | Some enc \<Rightarrow>
         Inr (Completed (rc_admissionSeq entry) enc (executionKnown entry) (rc_executionOK entry)))"

definition answer_flight ::
  "rpc_key \<Rightarrow> ref \<Rightarrow> rpc_flight \<Rightarrow> request_identity \<Rightarrow> rpc_error + rpc_acquire" where
  "answer_flight key f flight identity =
    (if \<not> identity_matches (f_identity flight) identity then Inl (identityMismatch (f_identity flight))
     else if f_acknowledged flight
       then Inr (Acknowledged (f_admissionSeq flight) (executionDone flight) (f_executionOK flight))
     else Inr (Pending (f_admissionSeq flight) (key, f)))"

definition new_flight :: "request_identity \<Rightarrow> 64 word \<Rightarrow> ref \<Rightarrow> rpc_flight" where
  "new_flight identity sequence r =
    \<lparr>f_done = False, f_encoded = None, f_ok = False, subscribers = [], executionDone = False,
     f_executionOK = False, executionSubscribers = [], f_acknowledged = False,
     subscriberSlots = 0, f_identity = identity, f_admissionSeq = sequence,
     f_reservation = Some r\<rparr>"

definition install_owner ::
  "maphash \<Rightarrow> rpc_key \<Rightarrow> request_identity \<Rightarrow> 64 word \<Rightarrow> ref \<Rightarrow> rpc_ledger
    \<Rightarrow> rpc_ledger \<times> rpc_acquire" where
  "install_owner mh key identity sequence r l =
    (let f = length (flights l); x = length (leases l) in
     (set_pending mh key (Some f)
        (l\<lparr>flights := flights l @ [new_flight identity sequence r],
           leases := leases l @ [\<lparr>l_key = key, l_flight = f, abortHook = None,
                                  handedOff = False\<rparr>]\<rparr>),
      Owner sequence x))"

definition admit ::
  "maphash \<Rightarrow> rpc_key \<Rightarrow> request_identity \<Rightarrow> ref \<Rightarrow> rpc_ledger
    \<Rightarrow> (rpc_ledger \<times> attempt_result) outcome" where
  "admit mh key identity r l =
    (if valid_identity identity then
       case allocateAndRegister (activeAdmissions l) (nextAdmissionSeq l) of
         None \<Rightarrow>
           bind_outcome (reservation_release mh r l) (\<lambda>l.
           bind_outcome (limit_release (flightLimit l)) (\<lambda>g.
             Ret (l\<lparr>flightLimit := g\<rparr>, Answer (Inl ErrRPCAdmissionSeqExhausted))))
       | Some (t, sequence) \<Rightarrow>
           let (l', a) = install_owner mh key identity sequence r
             (l\<lparr>activeAdmissions := t, nextAdmissionSeq := sequence\<rparr>)
           in Ret (l', Answer (Inr a))
     else let (l', a) = install_owner mh key identity 0 r l in Ret (l', Answer (Inr a)))"

definition attempt ::
  "maphash \<Rightarrow> replay_store \<Rightarrow> int \<Rightarrow> rpc_key \<Rightarrow> request_identity \<Rightarrow> rpc_ledger
    \<Rightarrow> (rpc_ledger \<times> attempt_result) outcome" where
  "attempt mh replay now key identity l =
    bind_outcome (expireLocked mh (shardIndex mh key) now l) (\<lambda>l.
      case receipt_at mh l key of
        Some e \<Rightarrow> Ret (l, Answer (answer_receipt replay key (receipts l ! e) identity))
      | None \<Rightarrow>
      (case pending_at mh l key of
        Some f \<Rightarrow> Ret (l, Answer (answer_flight key f (flights l ! f) identity))
      | None \<Rightarrow>
      (case limit_reserve (flightLimit l) of
        None \<Rightarrow> Ret (l, Answer (Inl ErrRPCResultFlightCapacity))
      | Some g \<Rightarrow>
      (case reserveOwner mh (fairBudget l) key of
        None \<Rightarrow> bind_outcome (limit_release g) (\<lambda>g. Ret (l\<lparr>flightLimit := g\<rparr>, NoReservation))
      | Some (b, rv) \<Rightarrow>
          admit mh key identity (length (reservations l))
            (l\<lparr>flightLimit := g, fairBudget := b, reservations := reservations l @ [rv]\<rparr>)))))"

text \<open>
  The loop: one turn, and if no reservation was to be had, the expired receipts of every shard are
  reaped and a second turn decides. The clock is read at each turn and at each shard.
\<close>

definition acquire ::
  "maphash \<Rightarrow> replay_store \<Rightarrow> int \<Rightarrow> (nat \<Rightarrow> int) \<Rightarrow> int \<Rightarrow> rpc_key \<Rightarrow> request_identity
    \<Rightarrow> rpc_ledger \<Rightarrow> (rpc_ledger \<times> (rpc_error + rpc_acquire)) outcome" where
  "acquire mh replay now1 clock now2 key identity l =
    (if reqMsgID key = 0 then Ret (l, Inl ErrRPCResultFlightInvalid)
     else bind_outcome (attempt mh replay now1 key identity l) (\<lambda>(l, r).
       case r of
         Answer a \<Rightarrow> Ret (l, a)
       | NoReservation \<Rightarrow>
           bind_outcome (expireReceipts mh clock l) (\<lambda>l.
           bind_outcome (attempt mh replay now2 key identity l) (\<lambda>(l, r).
             case r of
               Answer a \<Rightarrow> Ret (l, a)
             | NoReservation \<Rightarrow> Ret (l, Inl ErrRPCResultFlightCapacity)))))"

definition Acquire where
  "Acquire mh replay now1 clock now2 key l =
    acquire mh replay now1 clock now2 key zero_identity l"

definition AcquireIdentified where
  "AcquireIdentified mh replay now1 clock now2 key identity l =
    acquire mh replay now1 clock now2 key
      \<lparr>exact = identity, profile = 0, valid_identity = True\<rparr> l"

definition AcquireLayerIdentified where
  "AcquireLayerIdentified mh replay now1 clock now2 key prof identity l =
    acquire mh replay now1 clock now2 key
      \<lparr>exact = identity, profile = prof, valid_identity = True\<rparr> l"

section \<open>Looking a request up\<close>

text \<open>
  Three operations look at the receipt first and drop it when it has expired.
  \<open>drop_expired\<close> is that common part; it returns the live receipt.
\<close>

definition drop_expired ::
  "maphash \<Rightarrow> int \<Rightarrow> rpc_key \<Rightarrow> rpc_ledger \<Rightarrow> (rpc_ledger \<times> rpc_receipt option) outcome" where
  "drop_expired mh now key l =
    (case receipt_at mh l key of
       None \<Rightarrow> Ret (l, None)
     | Some e \<Rightarrow>
         if expiresAt (receipts l ! e) > now then Ret (l, Some (receipts l ! e))
         else bind_outcome (removeElement mh (shardIndex mh key) e l) (\<lambda>l. Ret (l, None)))"

definition identity_profile :: "request_identity \<Rightarrow> int option" where
  "identity_profile i = (if valid_identity i \<and> profile i \<noteq> 0 then Some (profile i) else None)"

definition ExactAdmissionProfile ::
  "maphash \<Rightarrow> int \<Rightarrow> rpc_key \<Rightarrow> rpc_ledger \<Rightarrow> (rpc_ledger \<times> int option) outcome" where
  "ExactAdmissionProfile mh now key l =
    (if reqMsgID key = 0 then Ret (l, None)
     else bind_outcome (drop_expired mh now key l) (\<lambda>(l, r).
       case r of
         Some entry \<Rightarrow> Ret (l, identity_profile (rc_identity entry))
       | None \<Rightarrow> Ret (l, case pending_at mh l key of
             None \<Rightarrow> None
           | Some f \<Rightarrow> identity_profile (f_identity (flights l ! f)))))"

definition Replay ::
  "maphash \<Rightarrow> replay_store \<Rightarrow> int \<Rightarrow> rpc_key \<Rightarrow> rpc_ledger
    \<Rightarrow> (rpc_ledger \<times> encoded_message option) outcome" where
  "Replay mh replay now key l =
    (if reqMsgID key = 0 then Ret (l, None)
     else bind_outcome (drop_expired mh now key l) (\<lambda>(l, r).
       case r of
         None \<Rightarrow> Ret (l, None)
       | Some receipt \<Rightarrow>
           if unavailable receipt \<or> rc_acknowledged receipt then Ret (l, None)
           else Ret (l, replay key)))"

definition ObserveDependency ::
  "maphash \<Rightarrow> int \<Rightarrow> rpc_key \<Rightarrow> rpc_ledger \<Rightarrow> (rpc_ledger \<times> rpc_dependency option) outcome" where
  "ObserveDependency mh now key l =
    (if reqMsgID key = 0 then Ret (l, None)
     else bind_outcome (drop_expired mh now key l) (\<lambda>(l, r).
       case r of
         Some receipt \<Rightarrow>
           Ret (l, if \<not> executionKnown receipt then None
                   else Some (Executed (rc_executionOK receipt)))
       | None \<Rightarrow> Ret (l, case pending_at mh l key of
             None \<Rightarrow> None
           | Some f \<Rightarrow>
               if executionDone (flights l ! f)
               then Some (Executed (f_executionOK (flights l ! f)))
               else Some (WaitFor (key, f)))))"

definition Acknowledge :: "maphash \<Rightarrow> int \<Rightarrow> rpc_key \<Rightarrow> rpc_ledger \<Rightarrow> (rpc_ledger \<times> bool) outcome" where
  "Acknowledge mh now key l =
    (if reqMsgID key = 0 then Ret (l, False)
     else bind_outcome (expireLocked mh (shardIndex mh key) now l) (\<lambda>l.
       case receipt_at mh l key of
         Some e \<Rightarrow> bind_outcome (removeElement mh (shardIndex mh key) e l) (\<lambda>l. Ret (l, True))
       | None \<Rightarrow>
       (case pending_at mh l key of
         Some f \<Rightarrow> Ret (upd_flight f (\<lambda>fl. fl\<lparr>f_acknowledged := True\<rparr>) l, True)
       | None \<Rightarrow> Ret (l, False))))"

section \<open>Subscribing to a running request\<close>

text \<open>\<open>close(flight.done)\<close> panics on a closed channel.\<close>

definition close_done :: "ref \<Rightarrow> rpc_ledger \<Rightarrow> rpc_ledger outcome" where
  "close_done f l =
    (if f_done (flights l ! f) then Panic ''close of closed channel''
     else Ret (upd_flight f (\<lambda>fl. fl\<lparr>f_done := True\<rparr>) l))"

definition releaseFlightSubscriberSlotsLocked ::
  "maphash \<Rightarrow> rpc_key \<Rightarrow> ref \<Rightarrow> int \<Rightarrow> rpc_ledger \<Rightarrow> rpc_ledger outcome" where
  "releaseFlightSubscriberSlotsLocked mh key f slots l =
    (if slots = 0 then Ret l
     else if slots < 0 \<or> subscriberSlots (flights l ! f) < slots
       then Panic ''mtproto rpc result subscriber slot underflow''
     else
       let l = upd_flight f (\<lambda>fl. fl\<lparr>subscriberSlots := subscriberSlots fl - slots\<rparr>) l in
       bind_outcome (subscriber_release mh (subscriberBudget l) key slots) (\<lambda>b.
         Ret (l\<lparr>subscriberBudget := b\<rparr>)))"

text \<open>The number of callbacks that a subscription leaves with the flight.\<close>

definition slots_needed :: "rpc_flight \<Rightarrow> callback option \<Rightarrow> callback option \<Rightarrow> int" where
  "slots_needed flight resultFn executionFn =
    (if resultFn \<noteq> None then 1 else 0)
    + (if executionFn \<noteq> None \<and> \<not> executionDone flight then 1 else 0)"

definition retain :: "callback option \<Rightarrow> callback option \<Rightarrow> rpc_flight \<Rightarrow> rpc_flight" where
  "retain resultFn executionFn flight =
    flight\<lparr>subscribers := subscribers flight @ (case resultFn of None \<Rightarrow> [] | Some c \<Rightarrow> [c]),
      executionSubscribers := executionSubscribers flight
        @ (case executionFn of None \<Rightarrow> [] | Some c \<Rightarrow> if executionDone flight then [] else [c])\<rparr>"

definition run_execution :: "callback option \<Rightarrow> bool \<Rightarrow> fired list" where
  "run_execution executionFn ok = (case executionFn of None \<Rightarrow> [] | Some c \<Rightarrow> [RanExecution c ok])"

definition subscribe_pending ::
  "maphash \<Rightarrow> rpc_key \<Rightarrow> ref \<Rightarrow> callback option \<Rightarrow> callback option \<Rightarrow> rpc_ledger
    \<Rightarrow> rpc_ledger \<times> rpc_error option \<times> fired list" where
  "subscribe_pending mh key f resultFn executionFn l =
    (let flight = flights l ! f; slots = slots_needed flight resultFn executionFn;
         run = (if executionDone flight then run_execution executionFn (f_executionOK flight) else [])
     in if slots > 0 then
          if subscriberSlots flight > subscriberPerFlight l - slots
          then (l, Some ErrRPCResultSubscriberCapacity, [])
          else case subscriber_reserve mh (subscriberBudget l) key slots of
            None \<Rightarrow> (l, Some ErrRPCResultSubscriberCapacity, [])
          | Some b \<Rightarrow>
              (upd_flight f (\<lambda>fl. retain resultFn executionFn
                  (fl\<lparr>subscriberSlots := subscriberSlots fl + slots\<rparr>)) (l\<lparr>subscriberBudget := b\<rparr>),
               None, run)
        else (upd_flight f (retain resultFn executionFn) l, None, run))"

definition subscribe_late ::
  "rpc_flight \<Rightarrow> callback option \<Rightarrow> callback option \<Rightarrow> rpc_error option \<times> fired list" where
  "subscribe_late flight resultFn executionFn =
    (let resultReady = (resultFn = None \<or> f_done flight);
         executionReady = (executionFn = None \<or> executionDone flight)
     in if \<not> resultReady \<or> \<not> executionReady then (Some ErrRPCResultFlightInvalid, [])
        else (None, run_execution executionFn (f_executionOK flight)
          @ (case resultFn of None \<Rightarrow> [] | Some c \<Rightarrow> [RanResult c (f_encoded flight) (f_ok flight)])))"

definition subscribe ::
  "maphash \<Rightarrow> rpc_waiter \<Rightarrow> callback option \<Rightarrow> callback option \<Rightarrow> rpc_ledger
    \<Rightarrow> rpc_ledger \<times> rpc_error option \<times> fired list" where
  "subscribe mh w resultFn executionFn l =
    (if resultFn = None \<and> executionFn = None then (l, Some ErrRPCResultFlightInvalid, [])
     else if pending_at mh l (fst w) = Some (snd w)
       then subscribe_pending mh (fst w) (snd w) resultFn executionFn l
     else (l, subscribe_late (flights l ! snd w) resultFn executionFn))"

definition Subscribe where
  "Subscribe mh w fn l = subscribe mh w (Some fn) None l"

definition SubscribeExecution where
  "SubscribeExecution mh w fn l = subscribe mh w None (Some fn) l"

definition SubscribeResultAndExecution where
  "SubscribeResultAndExecution mh w resultFn executionFn l =
    subscribe mh w (Some resultFn) (Some executionFn) l"

text \<open>
  \<open>Wait\<close> returns as soon as the flight is done or the context is cancelled, preferring the
  result; \<open>None\<close> is the case in which it keeps blocking.
\<close>

definition Wait ::
  "rpc_waiter \<Rightarrow> bool \<Rightarrow> rpc_ledger \<Rightarrow> (bool + encoded_message option \<times> bool) option" where
  "Wait w cancelled l =
    (if f_done (flights l ! snd w)
     then Some (Inr (f_encoded (flights l ! snd w), f_ok (flights l ! snd w)))
     else if cancelled then Some (Inl True)
     else None)"

section \<open>The owner's lease\<close>

definition owns :: "maphash \<Rightarrow> rpc_ledger \<Rightarrow> ref \<Rightarrow> bool" where
  "owns mh l x \<longleftrightarrow> pending_at mh l (l_key (leases l ! x)) = Some (l_flight (leases l ! x))"

definition upd_lease :: "ref \<Rightarrow> (owner_lease \<Rightarrow> owner_lease) \<Rightarrow> rpc_ledger \<Rightarrow> rpc_ledger" where
  "upd_lease x g l = l\<lparr>leases := (leases l)[x := g (leases l ! x)]\<rparr>"

definition SetAbortHook :: "ref \<Rightarrow> callback option \<Rightarrow> rpc_ledger \<Rightarrow> rpc_ledger" where
  "SetAbortHook x fn l = upd_lease x (\<lambda>ls. ls\<lparr>abortHook := fn\<rparr>) l"

definition InstallAbortHook :: "maphash \<Rightarrow> ref \<Rightarrow> callback \<Rightarrow> rpc_ledger \<Rightarrow> rpc_ledger \<times> bool" where
  "InstallAbortHook mh x fn l =
    (if \<not> owns mh l x then (l, False)
     else (upd_lease x (\<lambda>ls. ls\<lparr>abortHook := Some fn\<rparr>) l, True))"

definition Waiter :: "ref \<Rightarrow> rpc_ledger \<Rightarrow> rpc_waiter" where
  "Waiter x l = (l_key (leases l ! x), l_flight (leases l ! x))"

definition CompleteExecution ::
  "maphash \<Rightarrow> ref \<Rightarrow> bool \<Rightarrow> rpc_ledger \<Rightarrow> (rpc_ledger \<times> bool \<times> fired list) outcome" where
  "CompleteExecution mh x success l =
    (let key = l_key (leases l ! x); f = l_flight (leases l ! x); flight = flights l ! f in
     if \<not> owns mh l x \<or> executionDone flight then Ret (l, False, [])
     else
       let subs = executionSubscribers flight;
           l = upd_flight f (\<lambda>fl. fl\<lparr>executionDone := True, f_executionOK := success,
                 executionSubscribers := []\<rparr>) l
       in bind_outcome (releaseFlightSubscriberSlotsLocked mh key f (int (length subs)) l) (\<lambda>l.
            Ret (l, True, map (\<lambda>c. RanExecution c success) subs)))"

definition HandOff :: "maphash \<Rightarrow> ref \<Rightarrow> rpc_ledger \<Rightarrow> rpc_ledger \<times> bool" where
  "HandOff mh x l =
    (if \<not> owns mh l x then (l, False)
     else (upd_lease x (\<lambda>ls. ls\<lparr>handedOff := True\<rparr>) l, True))"

definition release_flight_reservation :: "maphash \<Rightarrow> ref \<Rightarrow> rpc_ledger \<Rightarrow> rpc_ledger outcome" where
  "release_flight_reservation mh f l =
    (case f_reservation (flights l ! f) of
       None \<Rightarrow> Ret l
     | Some r \<Rightarrow> bind_outcome (reservation_release mh r l) (\<lambda>l.
         Ret (upd_flight f (\<lambda>fl. fl\<lparr>f_reservation := None\<rparr>) l)))"

definition leave_flight_table :: "ref \<Rightarrow> rpc_ledger \<Rightarrow> rpc_ledger outcome" where
  "leave_flight_table f l =
    bind_outcome (limit_release (flightLimit l)) (\<lambda>g.
    bind_outcome (retire (activeAdmissions l) (f_admissionSeq (flights l ! f))) (\<lambda>t.
      Ret (l\<lparr>flightLimit := g, activeAdmissions := t\<rparr>)))"

definition Abort ::
  "maphash \<Rightarrow> ref \<Rightarrow> rpc_ledger \<Rightarrow> (rpc_ledger \<times> bool \<times> fired list) outcome" where
  "Abort mh x l =
    (let key = l_key (leases l ! x); f = l_flight (leases l ! x); flight = flights l ! f in
     if handedOff (leases l ! x) then Ret (l, False, [])
     else if \<not> owns mh l x then Ret (l, False, [])
     else
       bind_outcome (release_flight_reservation mh f (set_pending mh key None l)) (\<lambda>l.
       bind_outcome (leave_flight_table f l) (\<lambda>l.
       let subs = subscribers flight; esubs = executionSubscribers flight;
           l = upd_flight f (\<lambda>fl. fl\<lparr>subscribers := [], executionSubscribers := []\<rparr>) l in
       bind_outcome (releaseFlightSubscriberSlotsLocked mh key f
           (int (length subs + length esubs)) l) (\<lambda>l.
       let l = upd_flight f (\<lambda>fl. if \<not> executionDone fl
                 then fl\<lparr>executionDone := True, f_executionOK := False\<rparr> else fl) l in
       bind_outcome (close_done f l) (\<lambda>l.
       let hook = abortHook (leases l ! x) in
         Ret (upd_lease x (\<lambda>ls. ls\<lparr>abortHook := None\<rparr>) l, True,
              (case hook of None \<Rightarrow> [] | Some c \<Rightarrow> [RanHook c])
              @ map (\<lambda>c. RanResult c None False) subs
              @ map (\<lambda>c. RanExecution c False) esubs))))))"

section \<open>Publishing the result\<close>

definition rpcResultFlightMetadataLocked ::
  "maphash \<Rightarrow> rpc_ledger \<Rightarrow> rpc_key \<Rightarrow> request_identity \<times> 64 word \<times> bool \<times> bool \<times> bool" where
  "rpcResultFlightMetadataLocked mh l key =
    (case pending_at mh l key of
       Some f \<Rightarrow> let fl = flights l ! f in
         (f_identity fl, f_admissionSeq fl, executionDone fl, f_executionOK fl, f_acknowledged fl)
     | None \<Rightarrow> (zero_identity, 0, False, False, False))"

definition transfer_flight_reservation :: "maphash \<Rightarrow> ref \<Rightarrow> rpc_ledger \<Rightarrow> rpc_ledger outcome" where
  "transfer_flight_reservation mh f l =
    (case f_reservation (flights l ! f) of
       None \<Rightarrow> Ret l
     | Some r \<Rightarrow> bind_outcome (reservation_releasePending mh r l) (\<lambda>l.
         Ret (upd_flight f (\<lambda>fl. fl\<lparr>f_reservation := None\<rparr>) l)))"

definition completeRPCResultFlightLocked ::
  "maphash \<Rightarrow> rpc_key \<Rightarrow> encoded_message \<Rightarrow> rpc_ledger
    \<Rightarrow> (rpc_ledger \<times> callback list \<times> callback list \<times> bool) outcome" where
  "completeRPCResultFlightLocked mh key enc l =
    (case pending_at mh l key of
       None \<Rightarrow> Ret (l, [], [], False)
     | Some f \<Rightarrow>
         let flight = flights l ! f in
         bind_outcome (transfer_flight_reservation mh f (set_pending mh key None l)) (\<lambda>l.
         let l = upd_flight f (\<lambda>fl. fl\<lparr>f_encoded := Some enc, f_ok := True\<rparr>) l in
         bind_outcome (leave_flight_table f l) (\<lambda>l.
         let subs = subscribers flight; esubs = executionSubscribers flight;
             l = upd_flight f (\<lambda>fl. fl\<lparr>subscribers := [], executionSubscribers := []\<rparr>) l;
             executionOK = (if \<not> executionDone flight then False else f_executionOK flight);
             l = upd_flight f (\<lambda>fl. if \<not> executionDone fl
                   then fl\<lparr>executionDone := True, f_executionOK := False\<rparr> else fl) l in
         bind_outcome (releaseFlightSubscriberSlotsLocked mh key f
             (int (length subs + length esubs)) l) (\<lambda>l.
         bind_outcome (close_done f l) (\<lambda>l. Ret (l, subs, esubs, executionOK))))))"

text \<open>
  The reservation of the new receipt: the one of the pending flight, else that of the replaced
  receipt, else a fresh one, which the budget may refuse.
\<close>

definition completion_reservation ::
  "maphash \<Rightarrow> rpc_key \<Rightarrow> rpc_ledger \<Rightarrow> (rpc_ledger \<times> ref) option outcome" where
  "completion_reservation mh key l =
    (case pending_at mh l key of
       Some f \<Rightarrow>
         (case f_reservation (flights l ! f) of
            None \<Rightarrow> Panic ''mtprotoedge: pending rpc execution has no fair-budget reservation''
          | Some r \<Rightarrow> Ret (Some (l, r)))
     | None \<Rightarrow>
         (case Option.bind (receipt_at mh l key) (\<lambda>e. rc_reservation (receipts l ! e)) of
            Some r \<Rightarrow> Ret (Some (l, r))
          | None \<Rightarrow>
              (case reserveCompleted mh (fairBudget l) key of
                 None \<Rightarrow> Ret None
               | Some (b, rv) \<Rightarrow>
                   Ret (Some (l\<lparr>fairBudget := b, reservations := reservations l @ [rv]\<rparr>,
                              length (reservations l))))))"

definition unlink_replaced ::
  "maphash \<Rightarrow> rpc_key \<Rightarrow> ref \<Rightarrow> ref option \<Rightarrow> rpc_ledger \<Rightarrow> rpc_ledger outcome" where
  "unlink_replaced mh key r old l =
    (case old of
       None \<Rightarrow> Ret l
     | Some e \<Rightarrow> bind_outcome (unlinkElement (shardIndex mh key) e l) (\<lambda>l.
         if rc_reservation (receipts l ! e) \<noteq> Some r then drop_receipt_reservation mh e l
         else Ret l))"

definition push_receipt :: "maphash \<Rightarrow> rpc_receipt \<Rightarrow> rpc_ledger \<Rightarrow> rpc_ledger" where
  "push_receipt mh receipt l =
    (let e = length (receipts l) in
     upd_shard (shardIndex mh (rc_key receipt))
       (\<lambda>s. s\<lparr>order := order s @ [e], byKey := (byKey s)(rc_key receipt \<mapsto> e)\<rparr>)
       (l\<lparr>receipts := receipts l @ [receipt], receiptCount := receiptCount l + 1\<rparr>))"

definition completeOnce ::
  "maphash \<Rightarrow> int \<Rightarrow> rpc_key \<Rightarrow> encoded_message \<Rightarrow> bool \<Rightarrow> rpc_ledger
    \<Rightarrow> (rpc_ledger \<times> bool \<times> fired list) outcome" where
  "completeOnce mh now key enc replayable l =
    bind_outcome (expireLocked mh (shardIndex mh key) now l) (\<lambda>l.
    let old = receipt_at mh l key in
    if old \<noteq> None \<and> pending_at mh l key = None then Ret (l, True, [])
    else
      let (identity, sequence, known, ok, acked) = rpcResultFlightMetadataLocked mh l key in
      bind_outcome (completion_reservation mh key l) (\<lambda>res.
      case res of
        None \<Rightarrow> Ret (l, False, [])
      | Some (l, r) \<Rightarrow>
          bind_outcome (unlink_replaced mh key r old l) (\<lambda>l.
          let e = length (receipts l);
              l = push_receipt mh
                \<lparr>rc_key = key, expiresAt = now + rpcExecutionReceiptTTL, rc_identity = identity,
                 rc_admissionSeq = sequence, executionKnown = known, rc_executionOK = ok,
                 rc_acknowledged = acked, unavailable = \<not> replayable,
                 rc_reservation = Some r\<rparr> l in
          bind_outcome (completeRPCResultFlightLocked mh key enc l) (\<lambda>(l, subs, esubs, executionOK).
          bind_outcome (if acked then removeElement mh (shardIndex mh key) e l else Ret l) (\<lambda>l.
            Ret (l, True, map (\<lambda>c. RanResult c (Some enc) True) subs
                          @ map (\<lambda>c. RanExecution c executionOK) esubs))))))"

definition Complete ::
  "maphash \<Rightarrow> replay_store \<Rightarrow> int \<Rightarrow> (nat \<Rightarrow> int) \<Rightarrow> int \<Rightarrow> rpc_key \<Rightarrow> encoded_message option
    \<Rightarrow> bool \<Rightarrow> rpc_ledger \<Rightarrow> (rpc_ledger \<times> fired list) outcome" where
  "Complete mh replay now1 clock now2 key encoded replayable l =
    (case encoded of
       None \<Rightarrow> Ret (l, [])
     | Some enc \<Rightarrow>
         if reqMsgID key = 0 then Ret (l, [])
         else
           let replayable = (replayable \<and> replay key \<noteq> None) in
           bind_outcome (completeOnce mh now1 key enc replayable l) (\<lambda>(l, fin, ran).
             if fin then Ret (l, ran)
             else bind_outcome (expireReceipts mh clock l) (\<lambda>l.
               bind_outcome (completeOnce mh now2 key enc replayable l) (\<lambda>(l, fin, ran).
                 Ret (l, ran)))))"

end
