(* ===== verification/Rpc_Ledger_Invariant.thy ===== *)
theory Rpc_Ledger_Invariant
  imports Rpc_Ledger
begin

text \<open>
  The invariant of the RPC execution ledger and one lemma per operation: from a state in which the
  invariant holds no operation panics, the invariant holds again, and the lemma says what has
  changed. Receipts are dropped only for a stated reason (\<open>dropped\<close>), a new owner is installed
  only for a key without flight and receipt (\<open>installed\<close>), a flight ends by leaving the table
  with all its callbacks detached (\<open>ended\<close>).
\<close>

section \<open>The ledger's invariant\<close>

text \<open>
  \<open>owned\<close> are the reservations that pending flights and receipts hold, \<open>charged\<close> the callbacks
  retained by pending flights.
\<close>

definition owned :: "maphash \<Rightarrow> rpc_ledger \<Rightarrow> (rpc_key \<times> bool) multiset" where
  "owned mh l = image_mset (\<lambda>k. (k, True)) (mset_set (dom (pending_at mh l)))
     + image_mset (\<lambda>k. (k, False)) (mset_set (dom (receipt_at mh l)))"

definition slots_at :: "maphash \<Rightarrow> rpc_ledger \<Rightarrow> rpc_key \<Rightarrow> int" where
  "slots_at mh l k = subscriberSlots (flights l ! the (pending_at mh l k))"

definition charged :: "maphash \<Rightarrow> rpc_ledger \<Rightarrow> rpc_key multiset" where
  "charged mh l = (\<Sum>k\<in>dom (pending_at mh l). replicate_mset (nat (slots_at mh l k)) k)"

definition holds :: "rpc_ledger \<Rightarrow> ref option \<Rightarrow> rpc_key \<Rightarrow> bool \<Rightarrow> bool" where
  "holds l ro k p \<longleftrightarrow> (\<exists>r. ro = Some r \<and> r < length (reservations l)
     \<and> reservations l ! r = \<lparr>r_key = k, r_pending = p, r_released = False\<rparr>)"

definition shard_ok :: "maphash \<Rightarrow> nat \<Rightarrow> ledger_shard \<Rightarrow> rpc_receipt list \<Rightarrow> bool" where
  "shard_ok mh i s rcs \<longleftrightarrow> distinct (order s)
     \<and> (\<forall>k e. byKey s k = Some e \<longleftrightarrow> e \<in> set (order s) \<and> rc_key (rcs ! e) = k)
     \<and> (\<forall>e\<in>set (order s). e < length rcs)
     \<and> (\<forall>k. byKey s k \<noteq> None \<or> pendings s k \<noteq> None \<longrightarrow> shardIndex mh k = i)"

definition flight_ok :: "rpc_ledger \<Rightarrow> rpc_key \<Rightarrow> ref \<Rightarrow> bool" where
  "flight_ok l k f \<longleftrightarrow> f < length (flights l) \<and> \<not> f_done (flights l ! f)
     \<and> subscriberSlots (flights l ! f)
       = int (length (subscribers (flights l ! f)) + length (executionSubscribers (flights l ! f)))
     \<and> subscriberSlots (flights l ! f) \<le> subscriberPerFlight l
     \<and> (executionDone (flights l ! f) \<longrightarrow> executionSubscribers (flights l ! f) = [])
     \<and> holds l (f_reservation (flights l ! f)) k True"

definition resolved :: "rpc_flight \<Rightarrow> bool" where
  "resolved fl \<longleftrightarrow> f_done fl \<and> executionDone fl \<and> subscribers fl = [] \<and> executionSubscribers fl = []
     \<and> subscriberSlots fl = 0"

definition admissions_ok :: "maphash \<Rightarrow> rpc_ledger \<Rightarrow> bool" where
  "admissions_ok mh l \<longleftrightarrow> sharded (activeAdmissions l)
     \<and> active (activeAdmissions l)
       = {q. q \<noteq> 0 \<and> (\<exists>k f. pending_at mh l k = Some f \<and> f_admissionSeq (flights l ! f) = q)}
     \<and> (\<forall>k k' f f'. pending_at mh l k = Some f \<and> pending_at mh l k' = Some f'
          \<and> f_admissionSeq (flights l ! f) = f_admissionSeq (flights l ! f')
          \<and> f_admissionSeq (flights l ! f) \<noteq> 0 \<longrightarrow> k = k')
     \<and> (\<forall>q\<in>active (activeAdmissions l). q \<le> nextAdmissionSeq l)"

definition table_ok :: "maphash \<Rightarrow> rpc_ledger \<Rightarrow> bool" where
  "table_ok mh l \<longleftrightarrow> (\<forall>i. shard_ok mh i (shards_of l i) (receipts l))
     \<and> finite (dom (pending_at mh l)) \<and> finite (dom (receipt_at mh l))
     \<and> (\<forall>k f. pending_at mh l k = Some f \<longrightarrow> receipt_at mh l k = None)
     \<and> (\<forall>k f. pending_at mh l k = Some f \<longrightarrow> flight_ok l k f)
     \<and> (\<forall>k e. receipt_at mh l k = Some e \<longrightarrow> holds l (rc_reservation (receipts l ! e)) k False)
     \<and> (\<forall>f<length (flights l). f \<notin> ran (pending_at mh l) \<longrightarrow> resolved (flights l ! f))
     \<and> (\<forall>x<length (leases l). l_flight (leases l ! x) < length (flights l))
     \<and> 0 < subscriberPerFlight l"

definition budgets_ok :: "maphash \<Rightarrow> rpc_ledger \<Rightarrow> bool" where
  "budgets_ok mh l \<longleftrightarrow> fair_accounts mh (fairBudget l) (owned mh l)
     \<and> limit_accounts (flightLimit l) (replicate_mset (card (dom (pending_at mh l))) ())
     \<and> receiptCount l = int (card (dom (receipt_at mh l)))
     \<and> subscriber_accounts mh (subscriberBudget l) (charged mh l)"

definition ledger_inv :: "maphash \<Rightarrow> rpc_ledger \<Rightarrow> bool" where
  "ledger_inv mh l \<longleftrightarrow> table_ok mh l \<and> budgets_ok mh l \<and> admissions_ok mh l"

lemma shards_upd_shard [simp]:
  "shards_of (upd_shard i g l) = (shards_of l)(i := g (shards_of l i))"
  by (simp add: upd_shard_def)

lemma upd_shard_frame [simp]:
  "flights (upd_shard i g l) = flights l" "receipts (upd_shard i g l) = receipts l"
  "reservations (upd_shard i g l) = reservations l" "leases (upd_shard i g l) = leases l"
  "receiptCount (upd_shard i g l) = receiptCount l" "fairBudget (upd_shard i g l) = fairBudget l"
  "flightLimit (upd_shard i g l) = flightLimit l"
  "subscriberBudget (upd_shard i g l) = subscriberBudget l"
  "subscriberPerFlight (upd_shard i g l) = subscriberPerFlight l"
  "nextAdmissionSeq (upd_shard i g l) = nextAdmissionSeq l"
  "activeAdmissions (upd_shard i g l) = activeAdmissions l"
  by (simp_all add: upd_shard_def)

lemma at_cong:
  "shards_of l' = shards_of l \<Longrightarrow> pending_at mh l' = pending_at mh l"
  "shards_of l' = shards_of l \<Longrightarrow> receipt_at mh l' = receipt_at mh l"
  by (simp_all add: pending_at_def receipt_at_def fun_eq_iff)

lemma pending_set_pending [simp]: "pending_at mh (set_pending mh k v l) = (pending_at mh l)(k := v)"
  by (rule ext) (simp add: pending_at_def set_pending_def)

lemma receipt_set_pending [simp]: "receipt_at mh (set_pending mh k v l) = receipt_at mh l"
  by (rule ext) (simp add: receipt_at_def set_pending_def)

lemma set_pending_frame [simp]:
  "flights (set_pending mh k v l) = flights l" "receipts (set_pending mh k v l) = receipts l"
  "reservations (set_pending mh k v l) = reservations l" "leases (set_pending mh k v l) = leases l"
  "receiptCount (set_pending mh k v l) = receiptCount l"
  "fairBudget (set_pending mh k v l) = fairBudget l"
  "flightLimit (set_pending mh k v l) = flightLimit l"
  "subscriberBudget (set_pending mh k v l) = subscriberBudget l"
  "subscriberPerFlight (set_pending mh k v l) = subscriberPerFlight l"
  "nextAdmissionSeq (set_pending mh k v l) = nextAdmissionSeq l"
  "activeAdmissions (set_pending mh k v l) = activeAdmissions l"
  by (simp_all add: set_pending_def)

lemma upd_flight_frame [simp]:
  "flights (upd_flight f g l) = (flights l)[f := g (flights l ! f)]"
  "receipts (upd_flight f g l) = receipts l" "shards_of (upd_flight f g l) = shards_of l"
  "reservations (upd_flight f g l) = reservations l" "leases (upd_flight f g l) = leases l"
  "receiptCount (upd_flight f g l) = receiptCount l" "fairBudget (upd_flight f g l) = fairBudget l"
  "flightLimit (upd_flight f g l) = flightLimit l"
  "subscriberBudget (upd_flight f g l) = subscriberBudget l"
  "subscriberPerFlight (upd_flight f g l) = subscriberPerFlight l"
  "nextAdmissionSeq (upd_flight f g l) = nextAdmissionSeq l"
  "activeAdmissions (upd_flight f g l) = activeAdmissions l"
  by (simp_all add: upd_flight_def)

lemma upd_lease_frame [simp]:
  "flights (upd_lease x g l) = flights l"
  "receipts (upd_lease x g l) = receipts l" "shards_of (upd_lease x g l) = shards_of l"
  "reservations (upd_lease x g l) = reservations l"
  "leases (upd_lease x g l) = (leases l)[x := g (leases l ! x)]"
  "receiptCount (upd_lease x g l) = receiptCount l" "fairBudget (upd_lease x g l) = fairBudget l"
  "flightLimit (upd_lease x g l) = flightLimit l"
  "subscriberBudget (upd_lease x g l) = subscriberBudget l"
  "subscriberPerFlight (upd_lease x g l) = subscriberPerFlight l"
  "nextAdmissionSeq (upd_lease x g l) = nextAdmissionSeq l"
  "activeAdmissions (upd_lease x g l) = activeAdmissions l"
  by (simp_all add: upd_lease_def)

lemma table_okD:
  assumes "table_ok mh l"
  shows "shard_ok mh i (shards_of l i) (receipts l)"
    "finite (dom (pending_at mh l))" "finite (dom (receipt_at mh l))"
    "pending_at mh l k = Some f \<Longrightarrow> receipt_at mh l k = None"
    "pending_at mh l k = Some f \<Longrightarrow> flight_ok l k f"
    "receipt_at mh l k = Some e \<Longrightarrow> holds l (rc_reservation (receipts l ! e)) k False"
    "f < length (flights l) \<Longrightarrow> f \<notin> ran (pending_at mh l) \<Longrightarrow> resolved (flights l ! f)"
    "x < length (leases l) \<Longrightarrow> l_flight (leases l ! x) < length (flights l)"
    "0 < subscriberPerFlight l"
  using assms by (simp_all add: table_ok_def)

lemma holds_inj: "holds l ro k p \<Longrightarrow> holds l ro k' p' \<Longrightarrow> k = k' \<and> p = p'"
  by (auto simp: holds_def)

lemma pending_inj:
  assumes "table_ok mh l" "pending_at mh l k = Some f" "pending_at mh l k' = Some f"
  shows "k = k'"
  using table_okD(5) [OF assms(1,2)] table_okD(5) [OF assms(1,3)] holds_inj
  unfolding flight_ok_def by blast

lemma receipt_order:
  assumes "table_ok mh l"
  shows "receipt_at mh l k = Some e \<longleftrightarrow>
    e \<in> set (order (shards_of l (shardIndex mh k))) \<and> rc_key (receipts l ! e) = k"
  using table_okD(1) [OF assms, of "shardIndex mh k"]
  unfolding shard_ok_def receipt_at_def by blast

lemma order_receipt:
  assumes "table_ok mh l" "e \<in> set (order (shards_of l i))"
  shows "receipt_at mh l (rc_key (receipts l ! e)) = Some e"
    "shardIndex mh (rc_key (receipts l ! e)) = i" "e < length (receipts l)"
proof -
  have s: "shard_ok mh i (shards_of l i) (receipts l)" by (rule table_okD(1) [OF assms(1)])
  then have b: "byKey (shards_of l i) (rc_key (receipts l ! e)) = Some e"
    using assms(2) by (simp add: shard_ok_def)
  then show i: "shardIndex mh (rc_key (receipts l ! e)) = i"
    using s unfolding shard_ok_def by (metis option.distinct(1))
  show "receipt_at mh l (rc_key (receipts l ! e)) = Some e"
    using b i by (simp add: receipt_at_def)
  show "e < length (receipts l)" using s assms(2) by (simp add: shard_ok_def)
qed

lemma receipt_inj:
  assumes "table_ok mh l" "receipt_at mh l k = Some e" "receipt_at mh l k' = Some e"
  shows "k = k'"
  using receipt_order [OF assms(1)] assms(2,3) by auto

lemma mset_dom_del:
  "finite (dom m) \<Longrightarrow> m k = Some v \<Longrightarrow> mset_set (dom m) = add_mset k (mset_set (dom (m(k := None))))"
  using mset_set.remove [of "dom m" k] by (simp add: domI)

lemma mset_dom_put:
  "finite (dom m) \<Longrightarrow> m k = None \<Longrightarrow> mset_set (dom (m(k \<mapsto> v))) = add_mset k (mset_set (dom m))"
  by (simp add: domIff)

lemma card_dom_del: "finite (dom m) \<Longrightarrow> m k = Some v \<Longrightarrow> card (dom m) = Suc (card (dom (m(k := None))))"
  using card.remove [of "dom m" k] by (simp add: domI)

lemma card_dom_put: "finite (dom m) \<Longrightarrow> m k = None \<Longrightarrow> card (dom (m(k \<mapsto> v))) = Suc (card (dom m))"
  by (simp add: domIff)

lemma sum_dom_remove:
  "finite (dom m) \<Longrightarrow> m k = Some v \<Longrightarrow> sum c (dom m) = c k + sum c (dom m - {k})"
  by (rule sum.remove) auto

lemma charged_cong:
  "pending_at mh l' = pending_at mh l \<Longrightarrow>
   (\<And>k f. pending_at mh l k = Some f \<Longrightarrow>
      subscriberSlots (flights l' ! f) = subscriberSlots (flights l ! f)) \<Longrightarrow>
   charged mh l' = charged mh l"
  unfolding charged_def slots_at_def by (rule sum.cong) (auto simp: dom_def)

lemma charged_del:
  assumes "finite (dom (pending_at mh l))" "pending_at mh l k = Some f"
    "pending_at mh l' = (pending_at mh l)(k := None)"
    "\<And>k' f'. k' \<noteq> k \<Longrightarrow> pending_at mh l k' = Some f' \<Longrightarrow>
       subscriberSlots (flights l' ! f') = subscriberSlots (flights l ! f')"
  shows "charged mh l = charged mh l' + replicate_mset (nat (subscriberSlots (flights l ! f))) k"
proof -
  let ?c = "\<lambda>k. replicate_mset (nat (slots_at mh l k)) k"
  have "charged mh l = ?c k + sum ?c (dom (pending_at mh l) - {k})"
    unfolding charged_def by (rule sum_dom_remove [OF assms(1,2)])
  moreover have "sum ?c (dom (pending_at mh l) - {k}) = charged mh l'"
    unfolding charged_def slots_at_def using assms(3,4) by (intro sum.cong) (auto simp: dom_def)
  ultimately show ?thesis using assms(2) by (simp add: slots_at_def)
qed

lemma charged_put:
  assumes "finite (dom (pending_at mh l))" "pending_at mh l k = None"
    "pending_at mh l' = (pending_at mh l)(k \<mapsto> f)" "subscriberSlots (flights l' ! f) = 0"
    "\<And>k' f'. pending_at mh l k' = Some f' \<Longrightarrow>
       subscriberSlots (flights l' ! f') = subscriberSlots (flights l ! f')"
  shows "charged mh l' = charged mh l"
proof -
  let ?c = "\<lambda>k. replicate_mset (nat (slots_at mh l' k)) k"
  have "charged mh l' = ?c k + sum ?c (dom (pending_at mh l))"
    unfolding charged_def using assms(1-3) by (simp add: domIff)
  moreover have "sum ?c (dom (pending_at mh l)) = charged mh l"
    unfolding charged_def slots_at_def using assms(2,3,5) by (intro sum.cong) (auto simp: dom_def)
  ultimately show ?thesis using assms(3,4) by (simp add: slots_at_def)
qed

lemma charged_upd:
  assumes "finite (dom (pending_at mh l))" "pending_at mh l k = Some f"
    "pending_at mh l' = pending_at mh l"
    "\<And>k' f'. k' \<noteq> k \<Longrightarrow> pending_at mh l k' = Some f' \<Longrightarrow>
       subscriberSlots (flights l' ! f') = subscriberSlots (flights l ! f')"
    "0 \<le> subscriberSlots (flights l ! f)" "0 \<le> n"
    "subscriberSlots (flights l' ! f) = subscriberSlots (flights l ! f) + n"
  shows "charged mh l' = charged mh l + replicate_mset (nat n) k"
proof -
  let ?c = "\<lambda>l k. replicate_mset (nat (slots_at mh l k)) k"
  have "charged mh l' = ?c l' k + sum (?c l') (dom (pending_at mh l) - {k})"
    unfolding charged_def assms(3) by (rule sum_dom_remove [OF assms(1,2)])
  moreover have "charged mh l = ?c l k + sum (?c l) (dom (pending_at mh l) - {k})"
    unfolding charged_def by (rule sum_dom_remove [OF assms(1,2)])
  moreover have "sum (?c l') (dom (pending_at mh l) - {k}) = sum (?c l) (dom (pending_at mh l) - {k})"
    unfolding slots_at_def using assms(2-4) by (intro sum.cong) (auto simp: dom_def)
  moreover have "?c l' k = ?c l k + replicate_mset (nat n) k"
    using assms(2,3,5-7) by (simp add: slots_at_def nat_add_distrib multiset_eq_iff)
  ultimately show ?thesis by simp
qed

text \<open>
  What dropping receipts leaves: pending flights, leases and sequence numbers untouched, and a
  receipt that is gone satisfied the reason for dropping it.
\<close>

definition dropped :: "maphash \<Rightarrow> (rpc_receipt \<Rightarrow> bool) \<Rightarrow> rpc_ledger \<Rightarrow> rpc_ledger \<Rightarrow> bool" where
  "dropped mh P l l' \<longleftrightarrow> pending_at mh l' = pending_at mh l \<and> flights l' = flights l
     \<and> leases l' = leases l \<and> nextAdmissionSeq l' = nextAdmissionSeq l
     \<and> activeAdmissions l' = activeAdmissions l \<and> subscriberPerFlight l' = subscriberPerFlight l
     \<and> subscriberBudget l' = subscriberBudget l \<and> flightLimit l' = flightLimit l
     \<and> length (receipts l) = length (receipts l')
     \<and> (\<forall>k. receipt_at mh l k = None \<longrightarrow> receipt_at mh l' k = None)
     \<and> (\<forall>k e. receipt_at mh l k = Some e \<longrightarrow>
          receipt_at mh l' k = Some e \<and> receipts l' ! e = receipts l ! e
          \<or> receipt_at mh l' k = None \<and> P (receipts l ! e))"

lemma dropped_refl [simp]: "dropped mh P l l"
  by (simp add: dropped_def)

lemma dropped_trans:
  assumes "dropped mh P l l1" "dropped mh P l1 l2" shows "dropped mh P l l2"
proof -
  have "receipt_at mh l2 k = Some e \<and> receipts l2 ! e = receipts l ! e
      \<or> receipt_at mh l2 k = None \<and> P (receipts l ! e)" if "receipt_at mh l k = Some e" for k e
  proof -
    have "receipt_at mh l1 k = Some e \<and> receipts l1 ! e = receipts l ! e
        \<or> receipt_at mh l1 k = None \<and> P (receipts l ! e)"
      using assms(1) that by (simp add: dropped_def)
    then show ?thesis
    proof (elim disjE conjE)
      assume "receipt_at mh l1 k = Some e" and [symmetric]: "receipts l1 ! e = receipts l ! e"
      with assms(2) show ?thesis by (simp add: dropped_def)
    next
      assume "receipt_at mh l1 k = None" "P (receipts l ! e)"
      with assms(2) show ?thesis by (simp add: dropped_def)
    qed
  qed
  with assms show ?thesis unfolding dropped_def by auto
qed

lemma dropped_mono: "dropped mh P l l' \<Longrightarrow> (\<And>rc. P rc \<Longrightarrow> Q rc) \<Longrightarrow> dropped mh Q l l'"
  unfolding dropped_def by blast

lemma table_okI:
  assumes "\<And>i. shard_ok mh i (shards_of l i) (receipts l)"
    "finite (dom (pending_at mh l))" "finite (dom (receipt_at mh l))"
    "\<And>k f. pending_at mh l k = Some f \<Longrightarrow> receipt_at mh l k = None"
    "\<And>k f. pending_at mh l k = Some f \<Longrightarrow> flight_ok l k f"
    "\<And>k e. receipt_at mh l k = Some e \<Longrightarrow> holds l (rc_reservation (receipts l ! e)) k False"
    "\<And>f. f < length (flights l) \<Longrightarrow> f \<notin> ran (pending_at mh l) \<Longrightarrow> resolved (flights l ! f)"
    "\<And>x. x < length (leases l) \<Longrightarrow> l_flight (leases l ! x) < length (flights l)"
    "0 < subscriberPerFlight l"
  shows "table_ok mh l"
  unfolding table_ok_def using assms by blast

lemma holds_other:
  "holds l ro k' p' \<Longrightarrow> reservations l ! r = \<lparr>r_key = k, r_pending = p, r_released = False\<rparr> \<Longrightarrow>
   k' \<noteq> k \<Longrightarrow> reservations l' = (reservations l)[r := rv] \<Longrightarrow> holds l' ro k' p'"
  unfolding holds_def
  by (metis length_list_update nth_list_update_neq reservation.select_convs(1))

lemma holds_cong: "reservations l' = reservations l \<Longrightarrow> holds l' ro k p = holds l ro k p"
  by (simp add: holds_def)

lemma flight_ok_cong:
  "flight_ok l k f \<Longrightarrow> flights l' ! f = flights l ! f \<Longrightarrow> length (flights l) \<le> length (flights l') \<Longrightarrow>
   subscriberPerFlight l' = subscriberPerFlight l \<Longrightarrow>
   (\<And>ro. holds l ro k True \<Longrightarrow> holds l' ro k True) \<Longrightarrow> flight_ok l' k f"
  by (simp add: flight_ok_def)

lemma admissions_ok_cong:
  "admissions_ok mh l \<Longrightarrow> pending_at mh l' = pending_at mh l \<Longrightarrow>
   (\<And>k f. pending_at mh l k = Some f \<Longrightarrow>
      f_admissionSeq (flights l' ! f) = f_admissionSeq (flights l ! f)) \<Longrightarrow>
   activeAdmissions l' = activeAdmissions l \<Longrightarrow> nextAdmissionSeq l' = nextAdmissionSeq l \<Longrightarrow>
   admissions_ok mh l'"
  unfolding admissions_ok_def by (simp cong: conj_cong)

lemma shard_ok_unlink:
  assumes s: "shard_ok mh i s rcs" and e: "e \<in> set (order s)" and k: "k = rc_key (rcs ! e)"
    and same: "length rcs' = length rcs" "\<And>e'. rc_key (rcs' ! e') = rc_key (rcs ! e')"
  shows "shard_ok mh i (s\<lparr>byKey := (byKey s)(k := None), order := remove1 e (order s)\<rparr>) rcs'"
proof -
  have d: "distinct (order s)" and b: "\<And>k e. byKey s k = Some e \<longleftrightarrow> e \<in> set (order s) \<and> rc_key (rcs ! e) = k"
    using s by (simp_all add: shard_ok_def)
  have one: "rc_key (rcs ! e') \<noteq> k" if "e' \<in> set (order s)" "e' \<noteq> e" for e'
    using b [of k e] b [of k e'] that e k by auto
  show ?thesis
    using s d b one k by (auto simp: shard_ok_def same)
qed

lemma shard_ok_other:
  "shard_ok mh i s rcs \<Longrightarrow> length rcs' = length rcs \<Longrightarrow>
   (\<And>e. rc_key (rcs' ! e) = rc_key (rcs ! e)) \<Longrightarrow> shard_ok mh i s rcs'"
  by (simp add: shard_ok_def)

lemma unlink_at:
  assumes "table_ok mh l" "e \<in> set (order (shards_of l i))" "k = rc_key (receipts l ! e)"
    "shards_of l' = (shards_of l)(i := (shards_of l i)\<lparr>byKey := (byKey (shards_of l i))(k := None),
       order := remove1 e (order (shards_of l i))\<rparr>)"
  shows "receipt_at mh l' = (receipt_at mh l)(k := None)" "pending_at mh l' = pending_at mh l"
  using order_receipt(2) [OF assms(1,2)] assms(3,4)
  by (auto simp: fun_eq_iff receipt_at_def pending_at_def)

lemma removeElement_ok:
  assumes inv: "ledger_inv mh l" and e: "e \<in> set (order (shards_of l i))"
    and k: "k = rc_key (receipts l ! e)"
  shows "\<exists>l'. removeElement mh i e l = Ret l' \<and> ledger_inv mh l'
    \<and> dropped mh (\<lambda>rc. rc = receipts l ! e) l l'
    \<and> receipt_at mh l' = (receipt_at mh l)(k := None)
    \<and> order (shards_of l' i) = remove1 e (order (shards_of l i))
    \<and> (\<forall>e'. e' \<noteq> e \<longrightarrow> receipts l' ! e' = receipts l ! e')"
proof -
  have t: "table_ok mh l" and b: "budgets_ok mh l" and a: "admissions_ok mh l"
    using inv by (auto simp: ledger_inv_def)
  have at: "receipt_at mh l k = Some e" and el: "e < length (receipts l)"
    using order_receipt [OF t e] k by auto
  obtain r where r: "rc_reservation (receipts l ! e) = Some r" "r < length (reservations l)"
      "reservations l ! r = \<lparr>r_key = k, r_pending = False, r_released = False\<rparr>"
    using table_okD(6) [OF t at] by (auto simp: holds_def)
  have fin: "finite (dom (receipt_at mh l))" by (rule table_okD(3) [OF t])
  define M where "M = image_mset (\<lambda>k. (k, True)) (mset_set (dom (pending_at mh l)))
     + image_mset (\<lambda>k. (k, False)) (mset_set (dom ((receipt_at mh l)(k := None))))"
  have "owned mh l = add_mset (k, False) M"
    unfolding owned_def M_def by (subst mset_dom_del [OF fin at]) simp
  then have "fair_accounts mh (fairBudget l) (add_mset (k, False) M)"
    using b by (simp add: budgets_ok_def)
  from fair_release_accounts [OF this, of "reservations l ! r"] r
  obtain b' where rel: "fair_release mh (fairBudget l) (reservations l ! r) =
      Ret (b', \<lparr>r_key = k, r_pending = False, r_released = True\<rparr>)"
    and acc: "fair_accounts mh b' M" by auto
  have cnt: "receiptCount l = int (card (dom ((receipt_at mh l)(k := None)))) + 1"
    using b card_dom_del [OF fin at] by (simp add: budgets_ok_def)
  let ?s = "\<lambda>s. s\<lparr>byKey := (byKey s)(k := None), order := remove1 e (order s)\<rparr>"
  define l' where "l' = (upd_shard i ?s l)\<lparr>receiptCount := receiptCount l - 1, fairBudget := b',
      reservations := (reservations l)[r := \<lparr>r_key = k, r_pending = False, r_released = True\<rparr>],
      receipts := (receipts l)[e := (receipts l ! e)\<lparr>rc_reservation := None\<rparr>]\<rparr>"
  have run: "removeElement mh i e l = Ret l'"
    using cnt r rel k by (simp add: removeElement_def unlinkElement_def decrementReceiptCount_def
        drop_receipt_reservation_def reservation_release_def l'_def upd_shard_def)
  have sh: "shards_of l' = (shards_of l)(i := ?s (shards_of l i))"
    and fr: "flights l' = flights l" "leases l' = leases l" "flightLimit l' = flightLimit l"
      "nextAdmissionSeq l' = nextAdmissionSeq l" "activeAdmissions l' = activeAdmissions l"
      "subscriberPerFlight l' = subscriberPerFlight l" "subscriberBudget l' = subscriberBudget l"
      "receiptCount l' = receiptCount l - 1" "fairBudget l' = b'"
      "reservations l' = (reservations l)[r := \<lparr>r_key = k, r_pending = False, r_released = True\<rparr>]"
      "receipts l' = (receipts l)[e := (receipts l ! e)\<lparr>rc_reservation := None\<rparr>]"
    by (simp_all add: l'_def)
  have rec: "receipt_at mh l' = (receipt_at mh l)(k := None)" and pen: "pending_at mh l' = pending_at mh l"
    using unlink_at [OF t e k sh] by auto
  have rk: "rc_key (receipts l' ! e') = rc_key (receipts l ! e')" for e'
    using el by (cases "e' = e") (simp_all add: fr)
  have keep: "holds l ro k' p' \<Longrightarrow> k' \<noteq> k \<Longrightarrow> holds l' ro k' p'" for ro k' p'
    by (erule holds_other [OF _ r(3)]) (simp_all add: fr)
  have shards: "shard_ok mh j (shards_of l' j) (receipts l')" for j
    using shard_ok_unlink [OF table_okD(1) [OF t] e k, of "receipts l'"]
      shard_ok_other [OF table_okD(1) [OF t, of j], of "receipts l'"] rk
    by (simp add: sh fr)
  have fl: "flight_ok l' k' f" if "pending_at mh l k' = Some f" for k' f
  proof -
    have "k' \<noteq> k" using table_okD(4) [OF t that] at by auto
    then show ?thesis
      by (intro flight_ok_cong [OF table_okD(5) [OF t that]] keep) (simp_all add: fr)
  qed
  have rc: "holds l' (rc_reservation (receipts l' ! e')) k' False"
    if "receipt_at mh l' k' = Some e'" for k' e'
  proof -
    have "k' \<noteq> k" "receipt_at mh l k' = Some e'" using that rec by (auto split: if_splits)
    moreover from this have "e' \<noteq> e" using receipt_inj [OF t] at by blast
    ultimately show ?thesis using table_okD(6) [OF t] keep by (simp add: fr)
  qed
  have t': "table_ok mh l'"
  proof (rule table_okI [OF shards _ _ _ fl rc])
    show "finite (dom (pending_at mh l'))" "finite (dom (receipt_at mh l'))"
      using table_okD(2) [OF t] fin by (simp_all add: pen rec)
    show "pending_at mh l' k' = Some f \<Longrightarrow> receipt_at mh l' k' = None" for k' f
      using table_okD(4) [OF t] by (simp add: pen rec)
  qed (use table_okD(7-9) [OF t] pen in \<open>simp_all add: fr\<close>)
  have ch: "charged mh l' = charged mh l"
    by (rule charged_cong [OF pen]) (simp add: fr)
  have "owned mh l' = M" by (simp add: owned_def M_def pen rec)
  then have "budgets_ok mh l'"
    using b acc cnt by (simp add: budgets_ok_def ch pen rec fr)
  moreover have "admissions_ok mh l'"
    by (rule admissions_ok_cong [OF a pen]) (simp_all add: fr)
  ultimately have "ledger_inv mh l'" using t' by (simp add: ledger_inv_def)
  moreover have "receipts l' ! e' = receipts l ! e'" if "receipt_at mh l k' = Some e'" "k' \<noteq> k" for k' e'
    using that at receipt_inj [OF t, of k' e k] by (cases "e' = e") (simp_all add: fr)
  then have "dropped mh (\<lambda>rc. rc = receipts l ! e) l l'"
    using at unfolding dropped_def pen rec fr by auto
  ultimately show ?thesis using run rec sh by (intro exI [of _ l']) (auto simp: fr)
qed

lemma ledger_invD:
  assumes "ledger_inv mh l"
  shows "table_ok mh l" "budgets_ok mh l" "admissions_ok mh l"
  using assms by (simp_all add: ledger_inv_def)

lemma order_distinct:
  assumes "ledger_inv mh l" shows "distinct (order (shards_of l i))"
  using table_okD(1) [OF ledger_invD(1) [OF assms], of i] unfolding shard_ok_def by blast

lemma dropped_cases:
  "dropped mh P l l' \<Longrightarrow> receipt_at mh l k = Some e \<Longrightarrow>
    receipt_at mh l' k = Some e \<and> receipts l' ! e = receipts l ! e
    \<or> receipt_at mh l' k = None \<and> P (receipts l ! e)"
  by (simp add: dropped_def)

lemma droppedD:
  assumes "dropped mh P l l'"
  shows "receipt_at mh l' k = Some e \<Longrightarrow> receipt_at mh l k = Some e \<and> receipts l' ! e = receipts l ! e"
    "receipt_at mh l k = Some e \<Longrightarrow> \<not> P (receipts l ! e) \<Longrightarrow>
      receipt_at mh l' k = Some e \<and> receipts l' ! e = receipts l ! e"
    "receipt_at mh l k = None \<Longrightarrow> receipt_at mh l' k = None"
    "pending_at mh l' = pending_at mh l" "flights l' = flights l" "leases l' = leases l"
    "nextAdmissionSeq l' = nextAdmissionSeq l" "activeAdmissions l' = activeAdmissions l"
proof -
  show n: "receipt_at mh l k = None \<Longrightarrow> receipt_at mh l' k = None" using assms by (simp add: dropped_def)
  show "receipt_at mh l' k = Some e \<Longrightarrow> receipt_at mh l k = Some e \<and> receipts l' ! e = receipts l ! e"
    using n dropped_cases [OF assms, of k] by (cases "receipt_at mh l k") auto
  show "receipt_at mh l k = Some e \<Longrightarrow> \<not> P (receipts l ! e) \<Longrightarrow>
      receipt_at mh l' k = Some e \<and> receipts l' ! e = receipts l ! e"
    using dropped_cases [OF assms, of k e] by simp
qed (use assms in \<open>simp_all add: dropped_def\<close>)

text \<open>Both loops remove receipts one by one, each for the reason \<open>P\<close> the loop tests.\<close>

lemma remove_step:
  assumes inv: "ledger_inv mh l" and es: "set (e # es) \<subseteq> set (order (shards_of l i))" "distinct (e # es)"
    and P: "P (receipts l ! e)"
  obtains l' where "removeElement mh i e l = Ret l'" "ledger_inv mh l'" "dropped mh P l l'"
    "set es \<subseteq> set (order (shards_of l' i))"
    "\<And>e'. e' \<in> set es \<Longrightarrow> receipts l' ! e' = receipts l ! e'"
    "receipt_at mh l' (rc_key (receipts l ! e)) = None"
proof -
  have "e \<in> set (order (shards_of l i))" using es by simp
  from removeElement_ok [OF inv this refl] obtain l' where l':
    "removeElement mh i e l = Ret l'" "ledger_inv mh l'"
    "dropped mh (\<lambda>rc. rc = receipts l ! e) l l'"
    "receipt_at mh l' = (receipt_at mh l)(rc_key (receipts l ! e) := None)"
    "order (shards_of l' i) = remove1 e (order (shards_of l i))"
    "\<forall>e'. e' \<noteq> e \<longrightarrow> receipts l' ! e' = receipts l ! e'"
    by blast
  note d = order_distinct [OF inv, of i]
  show thesis
  proof (rule that [OF l'(1,2)])
    show "dropped mh P l l'" using dropped_mono [OF l'(3)] P by blast
    show "set es \<subseteq> set (order (shards_of l' i))" using es d by (auto simp: l'(5))
    show "\<And>e'. e' \<in> set es \<Longrightarrow> receipts l' ! e' = receipts l ! e'" using es l'(6) by auto
    show "receipt_at mh l' (rc_key (receipts l ! e)) = None" by (simp add: l'(4))
  qed
qed

lemma reap_loop_ok:
  assumes "ledger_inv mh l" "set es \<subseteq> set (order (shards_of l i))" "distinct es"
  shows "\<exists>l'. reap_loop mh i now es l = Ret l' \<and> ledger_inv mh l'
    \<and> dropped mh (\<lambda>rc. expiresAt rc \<le> now) l l'"
  using assms
proof (induction es arbitrary: l)
  case (Cons e es)
  show ?case
  proof (cases "expiresAt (receipts l ! e) > now")
    case False
    then have old: "expiresAt (receipts l ! e) \<le> now" by simp
    obtain l' where l': "removeElement mh i e l = Ret l'" "ledger_inv mh l'"
      "dropped mh (\<lambda>rc. expiresAt rc \<le> now) l l'" "set es \<subseteq> set (order (shards_of l' i))"
      by (rule remove_step [OF Cons.prems, where P = "\<lambda>rc. expiresAt rc \<le> now", OF old])
    obtain l'' where "reap_loop mh i now es l' = Ret l''" "ledger_inv mh l''"
      "dropped mh (\<lambda>rc. expiresAt rc \<le> now) l' l''"
      using Cons.IH [OF l'(2,4)] Cons.prems(3) by auto
    with dropped_trans [OF l'(3)] l'(1) False show ?thesis by simp
  qed (use Cons.prems in simp)
qed simp

lemma expireLocked_ok:
  assumes "ledger_inv mh l"
  obtains l' where "expireLocked mh i now l = Ret l'" "ledger_inv mh l'"
    "dropped mh (\<lambda>rc. expiresAt rc \<le> now) l l'"
  using reap_loop_ok [OF assms subset_refl order_distinct [OF assms]] that
  unfolding expireLocked_def by blast

lemma forget_loop_ok:
  assumes "ledger_inv mh l" "set es \<subseteq> set (order (shards_of l i))" "distinct es"
  shows "\<exists>l'. forget_loop mh i a sid es l = Ret l' \<and> ledger_inv mh l'
    \<and> dropped mh (\<lambda>rc. session_of (rc_key rc) = (a, sid)) l l'"
  using assms
proof (induction es arbitrary: l)
  case (Cons e es)
  show ?case
  proof (cases "session_of (rc_key (receipts l ! e)) = (a, sid)")
    case True
    obtain l' where l': "removeElement mh i e l = Ret l'" "ledger_inv mh l'"
      "dropped mh (\<lambda>rc. session_of (rc_key rc) = (a, sid)) l l'"
      "set es \<subseteq> set (order (shards_of l' i))"
      by (rule remove_step [OF Cons.prems, where P = "\<lambda>rc. session_of (rc_key rc) = (a, sid)", OF True])
    obtain l'' where "forget_loop mh i a sid es l' = Ret l''" "ledger_inv mh l''"
      "dropped mh (\<lambda>rc. session_of (rc_key rc) = (a, sid)) l' l''"
      using Cons.IH [OF l'(2,4)] Cons.prems(3) by auto
    with dropped_trans [OF l'(3)] l'(1) True show ?thesis by (simp add: session_of_def)
  next
    case False
    with Cons show ?thesis by (auto simp: session_of_def)
  qed
qed simp

lemma forget_shard_ok:
  assumes "ledger_inv mh l"
  obtains l' where "forget_shard mh i a sid l = Ret l'" "ledger_inv mh l'"
    "dropped mh (\<lambda>rc. session_of (rc_key rc) = (a, sid)) l l'"
  using forget_loop_ok [OF assms subset_refl order_distinct [OF assms]] that
  unfolding forget_shard_def by blast

lemma remove_at:
  assumes "ledger_inv mh l" "receipt_at mh l key = Some e" "P (receipts l ! e)"
  obtains l' where "removeElement mh (shardIndex mh key) e l = Ret l'" "ledger_inv mh l'"
    "dropped mh P l l'" "receipt_at mh l' key = None"
proof -
  have t: "table_ok mh l" using assms(1) by (simp add: ledger_inv_def)
  have e: "e \<in> set (order (shards_of l (shardIndex mh key)))" "rc_key (receipts l ! e) = key"
    using receipt_order [OF t] assms(2) by auto
  have s: "set [e] \<subseteq> set (order (shards_of l (shardIndex mh key)))" "distinct [e]"
    using e by simp_all
  obtain l' where "removeElement mh (shardIndex mh key) e l = Ret l'" "ledger_inv mh l'"
    "dropped mh P l l'" "receipt_at mh l' (rc_key (receipts l ! e)) = None"
    by (rule remove_step [OF assms(1) s, where P = P, OF assms(3)])
  then show thesis unfolding e(2) by (rule that)
qed

lemma drop_expired_ok:
  assumes "ledger_inv mh l"
  obtains l' r where "drop_expired mh now key l = Ret (l', r)" "ledger_inv mh l'"
    "dropped mh (\<lambda>rc. expiresAt rc \<le> now) l l'"
    "r = map_option (\<lambda>e. receipts l' ! e) (receipt_at mh l' key)"
    "\<And>rc. r = Some rc \<Longrightarrow> expiresAt rc > now"
proof (cases "receipt_at mh l key")
  case None
  then show ?thesis by (intro that [of l None]) (simp_all add: drop_expired_def assms)
next
  case (Some e)
  show ?thesis
  proof (cases "expiresAt (receipts l ! e) > now")
    case True
    with Some show ?thesis
      by (intro that [of l "Some (receipts l ! e)"]) (auto simp: drop_expired_def assms)
  next
    case False
    then have "expiresAt (receipts l ! e) \<le> now" by simp
    from remove_at [OF assms Some, of "\<lambda>rc. expiresAt rc \<le> now", OF this] obtain l' where l':
      "removeElement mh (shardIndex mh key) e l = Ret l'" "ledger_inv mh l'"
      "dropped mh (\<lambda>rc. expiresAt rc \<le> now) l l'" "receipt_at mh l' key = None" by blast
    with Some False show ?thesis by (intro that [of l' None]) (simp_all add: drop_expired_def)
  qed
qed

section \<open>Flights enter and leave the table\<close>

lemma admissions_okI:
  assumes "sharded (activeAdmissions l)"
    "\<And>q. q \<in> active (activeAdmissions l) \<longleftrightarrow>
       q \<noteq> 0 \<and> (\<exists>k f. pending_at mh l k = Some f \<and> f_admissionSeq (flights l ! f) = q)"
    "\<And>k k' f f'. pending_at mh l k = Some f \<Longrightarrow> pending_at mh l k' = Some f' \<Longrightarrow>
       f_admissionSeq (flights l ! f) = f_admissionSeq (flights l ! f') \<Longrightarrow>
       f_admissionSeq (flights l ! f) \<noteq> 0 \<Longrightarrow> k = k'"
    "\<And>q. q \<in> active (activeAdmissions l) \<Longrightarrow> q \<le> nextAdmissionSeq l"
  shows "admissions_ok mh l"
  using assms unfolding admissions_ok_def by blast

lemma admissions_okD:
  assumes "admissions_ok mh l"
  shows "sharded (activeAdmissions l)"
    "q \<in> active (activeAdmissions l) \<longleftrightarrow>
       q \<noteq> 0 \<and> (\<exists>k f. pending_at mh l k = Some f \<and> f_admissionSeq (flights l ! f) = q)"
    "pending_at mh l k = Some f \<Longrightarrow> pending_at mh l k' = Some f' \<Longrightarrow>
       f_admissionSeq (flights l ! f) = f_admissionSeq (flights l ! f') \<Longrightarrow>
       f_admissionSeq (flights l ! f) \<noteq> 0 \<Longrightarrow> k = k'"
    "q \<in> active (activeAdmissions l) \<Longrightarrow> q \<le> nextAdmissionSeq l"
  using assms unfolding admissions_ok_def by blast+

lemma flights_other:
  assumes "table_ok mh l" "pending_at mh l k = Some f" "pending_at mh l k' = Some f'" "k' \<noteq> k"
  shows "(flights l)[f := fl] ! f' = flights l ! f'"
  using pending_inj [OF assms(1,2)] assms(3,4) by (metis nth_list_update_neq)

lemma admissions_detach:
  assumes a: "admissions_ok mh l" and t: "table_ok mh l" and k: "pending_at mh l k = Some f"
    and pen: "pending_at mh l' = (pending_at mh l)(k := None)"
    and fl: "flights l' = (flights l)[f := fl']"
    and act: "active (activeAdmissions l') =
      (if f_admissionSeq (flights l ! f) = 0 then active (activeAdmissions l)
       else active (activeAdmissions l) - {f_admissionSeq (flights l ! f)})"
    and sh: "sharded (activeAdmissions l')" and nx: "nextAdmissionSeq l' = nextAdmissionSeq l"
  shows "admissions_ok mh l'"
proof (rule admissions_okI [OF sh])
  let ?q = "f_admissionSeq (flights l ! f)"
  have same: "flights l' ! f' = flights l ! f'" if "pending_at mh l k' = Some f'" "k' \<noteq> k" for k' f'
    unfolding fl by (rule flights_other [OF t k that])
  have rest: "pending_at mh l' k' = Some f' \<longleftrightarrow> k' \<noteq> k \<and> pending_at mh l k' = Some f'" for k' f'
    by (simp add: pen)
  show "k1 = k2" if "pending_at mh l' k1 = Some f1" "pending_at mh l' k2 = Some f2"
    "f_admissionSeq (flights l' ! f1) = f_admissionSeq (flights l' ! f2)"
    "f_admissionSeq (flights l' ! f1) \<noteq> 0" for k1 k2 f1 f2
    using that admissions_okD(3) [OF a, of k1 f1 k2 f2] same unfolding rest by metis
  show "q \<le> nextAdmissionSeq l'" if "q \<in> active (activeAdmissions l')" for q
    using that admissions_okD(4) [OF a] unfolding act nx by (auto split: if_splits)
  show "q \<in> active (activeAdmissions l') \<longleftrightarrow>
      q \<noteq> 0 \<and> (\<exists>k' f'. pending_at mh l' k' = Some f' \<and> f_admissionSeq (flights l' ! f') = q)" for q
  proof -
    have "(\<exists>k' f'. pending_at mh l' k' = Some f' \<and> f_admissionSeq (flights l' ! f') = q) \<longleftrightarrow>
        (\<exists>k' f'. k' \<noteq> k \<and> pending_at mh l k' = Some f' \<and> f_admissionSeq (flights l ! f') = q)"
      unfolding rest using same by metis
    moreover have "(\<exists>k' f'. k' \<noteq> k \<and> pending_at mh l k' = Some f' \<and> f_admissionSeq (flights l ! f') = q)
        \<longleftrightarrow> q \<noteq> ?q \<and> (\<exists>k' f'. pending_at mh l k' = Some f' \<and> f_admissionSeq (flights l ! f') = q)"
      if "q \<noteq> 0"
      using that k admissions_okD(3) [OF a _ k] by (metis option.inject)
    ultimately show ?thesis
      unfolding act using admissions_okD(2) [OF a, of q] by auto
  qed
qed

lemma admissions_put:
  assumes a: "admissions_ok mh l" and t: "table_ok mh l" and k: "pending_at mh l k = None"
    and pen: "pending_at mh l' = (pending_at mh l)(k \<mapsto> length (flights l))"
    and fl: "flights l' = flights l @ [fl']"
    and act: "active (activeAdmissions l') =
      (if f_admissionSeq fl' = 0 then active (activeAdmissions l)
       else insert (f_admissionSeq fl') (active (activeAdmissions l)))"
    and new: "f_admissionSeq fl' \<noteq> 0 \<Longrightarrow> f_admissionSeq fl' > nextAdmissionSeq l"
    and sh: "sharded (activeAdmissions l')"
    and nx: "nextAdmissionSeq l' = (if f_admissionSeq fl' = 0 then nextAdmissionSeq l else f_admissionSeq fl')"
  shows "admissions_ok mh l'"
proof (rule admissions_okI [OF sh])
  let ?q = "f_admissionSeq fl'"
  have same: "flights l' ! f' = flights l ! f'" "f' < length (flights l)"
    if "pending_at mh l k' = Some f'" for k' f'
    using table_okD(5) [OF t that] by (simp_all add: fl flight_ok_def nth_append)
  have rest: "pending_at mh l' k' = Some f' \<longleftrightarrow>
      (if k' = k then f' = length (flights l) else pending_at mh l k' = Some f')" for k' f'
    using k by (auto simp: pen)
  have seq: "f_admissionSeq (flights l' ! f') = (if k' = k then ?q else f_admissionSeq (flights l ! f'))"
    if "pending_at mh l' k' = Some f'" for k' f'
    using that same [of k' f'] unfolding rest by (auto simp: fl split: if_splits)
  have fresh: "?q \<noteq> f_admissionSeq (flights l ! f')" if "pending_at mh l k' = Some f'" "?q \<noteq> 0" for k' f'
    using admissions_okD(2,4) [OF a] new that by (metis not_less)
  show "k1 = k2" if p: "pending_at mh l' k1 = Some f1" "pending_at mh l' k2 = Some f2"
    and e: "f_admissionSeq (flights l' ! f1) = f_admissionSeq (flights l' ! f2)"
    "f_admissionSeq (flights l' ! f1) \<noteq> 0" for k1 k2 f1 f2
  proof -
    have "k1 = k" if "k2 = k"
    proof (rule ccontr)
      assume "k1 \<noteq> k"
      with p(1) have "pending_at mh l k1 = Some f1" by (simp add: pen)
      from fresh [OF this] e that \<open>k1 \<noteq> k\<close> show False unfolding seq [OF p(1)] seq [OF p(2)] by auto
    qed
    moreover have "k2 = k" if "k1 = k"
    proof (rule ccontr)
      assume "k2 \<noteq> k"
      with p(2) have "pending_at mh l k2 = Some f2" by (simp add: pen)
      from fresh [OF this] e that \<open>k2 \<noteq> k\<close> show False unfolding seq [OF p(1)] seq [OF p(2)] by auto
    qed
    moreover have "k1 = k2" if "k1 \<noteq> k" "k2 \<noteq> k"
    proof -
      have o: "pending_at mh l k1 = Some f1" "pending_at mh l k2 = Some f2"
        using that p by (simp_all add: pen)
      from e that show ?thesis
        unfolding seq [OF p(1)] seq [OF p(2)] by (intro admissions_okD(3) [OF a o]) auto
    qed
    ultimately show ?thesis by blast
  qed
  show "q \<le> nextAdmissionSeq l'" if "q \<in> active (activeAdmissions l')" for q
    using that admissions_okD(4) [OF a, of q] new unfolding act nx by (auto split: if_splits)
  show "q \<in> active (activeAdmissions l') \<longleftrightarrow>
      q \<noteq> 0 \<and> (\<exists>k' f'. pending_at mh l' k' = Some f' \<and> f_admissionSeq (flights l' ! f') = q)" for q
  proof -
    have "(\<exists>k' f'. pending_at mh l' k' = Some f' \<and> f_admissionSeq (flights l' ! f') = q) \<longleftrightarrow>
        ?q = q \<or> (\<exists>k' f'. pending_at mh l k' = Some f' \<and> f_admissionSeq (flights l ! f') = q)"
    proof (intro iffI; elim exE conjE disjE)
      fix k' f' assume p: "pending_at mh l' k' = Some f'" "f_admissionSeq (flights l' ! f') = q"
      then show "?q = q \<or> (\<exists>k' f'. pending_at mh l k' = Some f' \<and> f_admissionSeq (flights l ! f') = q)"
        using seq [OF p(1)] p(1) unfolding rest by (cases "k' = k") auto
    next
      assume "?q = q"
      then show "\<exists>k' f'. pending_at mh l' k' = Some f' \<and> f_admissionSeq (flights l' ! f') = q"
        using seq [of k "length (flights l)"] by (auto simp: pen)
    next
      fix k' f' assume o: "pending_at mh l k' = Some f'" "f_admissionSeq (flights l ! f') = q"
      then have "k' \<noteq> k" using k by auto
      then have p: "pending_at mh l' k' = Some f'" using o by (simp add: pen)
      then show "\<exists>k' f'. pending_at mh l' k' = Some f' \<and> f_admissionSeq (flights l' ! f') = q"
        using seq [OF p] o(2) \<open>k' \<noteq> k\<close> by (intro exI [of _ k'] exI [of _ f']) simp
    qed
    then show ?thesis
      using admissions_okD(2) [OF a, of q] unfolding act by (cases "?q = 0"; cases "q = ?q") simp_all
  qed
qed

lemma upd_flight_inv:
  assumes inv: "ledger_inv mh l" and k: "pending_at mh l k = Some f"
    and fl: "flights l' = (flights l)[f := fl']"
    and same: "shards_of l' = shards_of l" "receipts l' = receipts l"
      "reservations l' = reservations l" "leases l' = leases l" "receiptCount l' = receiptCount l"
      "fairBudget l' = fairBudget l" "flightLimit l' = flightLimit l"
      "subscriberPerFlight l' = subscriberPerFlight l" "nextAdmissionSeq l' = nextAdmissionSeq l"
      "activeAdmissions l' = activeAdmissions l"
    and sub: "subscriber_accounts mh (subscriberBudget l') (charged mh l')"
    and ok: "\<not> f_done fl'" "executionDone fl' \<longrightarrow> executionSubscribers fl' = []"
      "subscriberSlots fl' = int (length (subscribers fl') + length (executionSubscribers fl'))"
      "subscriberSlots fl' \<le> subscriberPerFlight l"
    and keep: "f_reservation fl' = f_reservation (flights l ! f)"
      "f_admissionSeq fl' = f_admissionSeq (flights l ! f)"
  shows "ledger_inv mh l'"
proof -
  note t = ledger_invD(1) [OF inv] and b = ledger_invD(2) [OF inv] and a = ledger_invD(3) [OF inv]
  note at = at_cong [OF same(1), of mh]
  have fl_len: "f < length (flights l)" using table_okD(5) [OF t k] by (simp add: flight_ok_def)
  have hold: "holds l' ro k' p = holds l ro k' p" for ro k' p by (rule holds_cong [OF same(3)])
  have fok: "flight_ok l' k' f'" if p: "pending_at mh l' k' = Some f'" for k' f'
  proof (cases "k' = k")
    case True
    then have "f' = f" using that k by (simp add: at)
    then show ?thesis
      using True table_okD(5) [OF t k] ok keep fl_len by (simp add: flight_ok_def fl same hold)
  next
    case False
    with p have p: "pending_at mh l k' = Some f'" by (simp add: at)
    show ?thesis
      by (rule flight_ok_cong [OF table_okD(5) [OF t p]])
        (simp_all add: fl flights_other [OF t k p False] same hold)
  qed
  have "table_ok mh l'"
  proof (rule table_okI [OF _ _ _ _ fok])
    show "resolved (flights l' ! f')" if "f' < length (flights l')" "f' \<notin> ran (pending_at mh l')" for f'
    proof -
      have "f' \<noteq> f" using that k ranI [of "pending_at mh l" k f] by (auto simp: at)
      then show ?thesis using that table_okD(7) [OF t, of f'] by (simp add: fl at)
    qed
  qed (use table_okD [OF t] in \<open>simp_all add: at same fl hold\<close>)
  moreover have "owned mh l' = owned mh l" by (simp add: owned_def at)
  then have "budgets_ok mh l'" using b sub by (simp add: budgets_ok_def at same)
  moreover have "admissions_ok mh l'"
  proof (rule admissions_ok_cong [OF a at(1)])
    show "f_admissionSeq (flights l' ! f') = f_admissionSeq (flights l ! f')"
      if "pending_at mh l k' = Some f'" for k' f'
      using keep(2) fl_len by (cases "f' = f") (simp_all add: fl)
  qed (simp_all add: same)
  ultimately show ?thesis by (simp add: ledger_inv_def)
qed

text \<open>Giving back the slots of callbacks that were taken off a flight.\<close>

lemma release_slots_ok:
  assumes "0 \<le> n" "n \<le> subscriberSlots (flights l ! f)" "f < length (flights l)"
    "subscriber_accounts mh (subscriberBudget l) (C + replicate_mset (nat n) k)"
  obtains b where
    "releaseFlightSubscriberSlotsLocked mh k f n l =
       Ret ((upd_flight f (\<lambda>fl. fl\<lparr>subscriberSlots := subscriberSlots fl - n\<rparr>) l)\<lparr>subscriberBudget := b\<rparr>)"
    "subscriber_accounts mh b C"
proof (cases "n = 0")
  case True
  have "upd_flight f (\<lambda>fl. fl\<lparr>subscriberSlots := subscriberSlots fl - n\<rparr>) l = l"
    using True by (simp add: upd_flight_def)
  then have "releaseFlightSubscriberSlotsLocked mh k f n l =
      Ret ((upd_flight f (\<lambda>fl. fl\<lparr>subscriberSlots := subscriberSlots fl - n\<rparr>) l)
        \<lparr>subscriberBudget := subscriberBudget l\<rparr>)"
    using True by (simp add: releaseFlightSubscriberSlotsLocked_def)
  moreover have "subscriber_accounts mh (subscriberBudget l) C" using assms(4) True by simp
  ultimately show thesis by (rule that)
next
  case False
  then have "0 < n" using assms(1) by simp
  from subscriber_release_accounts [OF assms(4) this] obtain b where
    "subscriber_release mh (subscriberBudget l) k n = Ret b" "subscriber_accounts mh b C" by blast
  then show thesis
    using assms False by (intro that [of b]) (simp_all add: releaseFlightSubscriberSlotsLocked_def)
qed

text \<open>
  A flight leaves the table: its callbacks are detached and its reservation, in the heap cell \<open>r\<close>,
  is either released or becomes the reservation of a receipt.
\<close>

lemma detach_inv:
  assumes inv: "ledger_inv mh l" and k: "pending_at mh l k = Some f"
    and r: "f_reservation (flights l ! f) = Some r"
    and pen: "pending_at mh l' = (pending_at mh l)(k := None)"
    and fl: "flights l' = (flights l)[f := fl']" "resolved fl'"
    and rv: "reservations l' = (reservations l)[r := rv]"
    and shards: "\<And>i. shard_ok mh i (shards_of l' i) (receipts l')"
    and rec: "\<And>k' e. receipt_at mh l' k' = Some e \<Longrightarrow> k' \<noteq> k \<Longrightarrow>
        receipt_at mh l k' = Some e \<and> receipts l' ! e = receipts l ! e"
      "\<And>e. receipt_at mh l' k = Some e \<Longrightarrow> holds l' (rc_reservation (receipts l' ! e)) k False"
      "finite (dom (receipt_at mh l'))"
    and same: "map l_flight (leases l') = map l_flight (leases l)"
      "subscriberPerFlight l' = subscriberPerFlight l" "nextAdmissionSeq l' = nextAdmissionSeq l"
    and budget: "fair_accounts mh (fairBudget l') (owned mh l')"
      "flightLimit l' = (flightLimit l)\<lparr>lim_used := lim_used (flightLimit l) - 1\<rparr>"
      "receiptCount l' = int (card (dom (receipt_at mh l')))"
      "subscriber_accounts mh (subscriberBudget l') (charged mh l')"
    and adm: "sharded (activeAdmissions l')" "active (activeAdmissions l') =
      (if f_admissionSeq (flights l ! f) = 0 then active (activeAdmissions l)
       else active (activeAdmissions l) - {f_admissionSeq (flights l ! f)})"
  shows "ledger_inv mh l'"
proof -
  note t = ledger_invD(1) [OF inv] and b = ledger_invD(2) [OF inv] and a = ledger_invD(3) [OF inv]
  have fok: "flight_ok l k f" by (rule table_okD(5) [OF t k])
  have "reservations l ! r = \<lparr>r_key = k, r_pending = True, r_released = False\<rparr>"
    using fok r by (auto simp: flight_ok_def holds_def)
  then have hold: "holds l ro k' p \<Longrightarrow> k' \<noteq> k \<Longrightarrow> holds l' ro k' p" for ro k' p
    using holds_other [OF _ _ _ rv] by blast
  have lenl: "length (leases l') = length (leases l)" using same(1) by (metis length_map)
  have "table_ok mh l'"
  proof (rule table_okI [OF shards])
    show "finite (dom (pending_at mh l'))" using table_okD(2) [OF t] by (simp add: pen)
    show "finite (dom (receipt_at mh l'))" by (rule rec(3))
    show "receipt_at mh l' k' = None" if p: "pending_at mh l' k' = Some f'" for k' f'
    proof (rule ccontr)
      assume "receipt_at mh l' k' \<noteq> None"
      then obtain e where e: "receipt_at mh l' k' = Some e" by blast
      have q: "k' \<noteq> k" "pending_at mh l k' = Some f'" using p by (auto simp: pen split: if_splits)
      then show False using rec(1) [OF e q(1)] table_okD(4) [OF t q(2)] by simp
    qed
    show "flight_ok l' k' f'" if p: "pending_at mh l' k' = Some f'" for k' f'
    proof -
      have q: "k' \<noteq> k" "pending_at mh l k' = Some f'" using p by (auto simp: pen split: if_splits)
      show ?thesis
        by (rule flight_ok_cong [OF table_okD(5) [OF t q(2)]])
          (simp_all add: fl flights_other [OF t k q(2,1)] same hold q(1))
    qed
    show "holds l' (rc_reservation (receipts l' ! e)) k' False" if e: "receipt_at mh l' k' = Some e" for k' e
    proof (cases "k' = k")
      case False
      with rec(1) [OF e this] table_okD(6) [OF t, of k' e] hold show ?thesis by simp
    qed (use rec(2) e in simp)
    show "resolved (flights l' ! f')" if "f' < length (flights l')" "f' \<notin> ran (pending_at mh l')" for f'
    proof (cases "f' = f")
      case True
      then show ?thesis using fl that by simp
    next
      case False
      have "f' \<notin> ran (pending_at mh l)"
        using that(2) False k unfolding pen ran_def mem_Collect_eq by (metis fun_upd_other option.inject)
      then show ?thesis using table_okD(7) [OF t, of f'] that False by (simp add: fl)
    qed
    show "l_flight (leases l' ! x) < length (flights l')" if "x < length (leases l')" for x
      using that same(1) table_okD(8) [OF t, of x] lenl by (metis fl(1) length_list_update nth_map)
  qed (use table_okD(9) [OF t] in \<open>simp add: same\<close>)
  moreover have "limit_accounts (flightLimit l') (replicate_mset (card (dom (pending_at mh l'))) ())"
    using b card_dom_del [OF table_okD(2) [OF t] k]
    by (simp add: budgets_ok_def limit_accounts_def budget(2) pen)
  then have "budgets_ok mh l'" using budget by (simp add: budgets_ok_def)
  moreover have "admissions_ok mh l'"
    by (rule admissions_detach [OF a t k pen fl(1) adm(2,1) same(3)])
  ultimately show ?thesis by (simp add: ledger_inv_def)
qed

lemma at_frame [simp]:
  "pending_at mh (l\<lparr>flights := fs\<rparr>) = pending_at mh l"
  "pending_at mh (l\<lparr>receipts := rs\<rparr>) = pending_at mh l"
  "pending_at mh (l\<lparr>reservations := vs\<rparr>) = pending_at mh l"
  "pending_at mh (l\<lparr>leases := ls\<rparr>) = pending_at mh l"
  "pending_at mh (l\<lparr>receiptCount := n\<rparr>) = pending_at mh l"
  "pending_at mh (l\<lparr>fairBudget := fb\<rparr>) = pending_at mh l"
  "pending_at mh (l\<lparr>flightLimit := g\<rparr>) = pending_at mh l"
  "pending_at mh (l\<lparr>subscriberBudget := sb\<rparr>) = pending_at mh l"
  "pending_at mh (l\<lparr>nextAdmissionSeq := q\<rparr>) = pending_at mh l"
  "pending_at mh (l\<lparr>activeAdmissions := t\<rparr>) = pending_at mh l"
  "pending_at mh (upd_flight f h l) = pending_at mh l"
  "pending_at mh (upd_lease x h' l) = pending_at mh l"
  "receipt_at mh (l\<lparr>flights := fs\<rparr>) = receipt_at mh l"
  "receipt_at mh (l\<lparr>receipts := rs\<rparr>) = receipt_at mh l"
  "receipt_at mh (l\<lparr>reservations := vs\<rparr>) = receipt_at mh l"
  "receipt_at mh (l\<lparr>leases := ls\<rparr>) = receipt_at mh l"
  "receipt_at mh (l\<lparr>receiptCount := n\<rparr>) = receipt_at mh l"
  "receipt_at mh (l\<lparr>fairBudget := fb\<rparr>) = receipt_at mh l"
  "receipt_at mh (l\<lparr>flightLimit := g\<rparr>) = receipt_at mh l"
  "receipt_at mh (l\<lparr>subscriberBudget := sb\<rparr>) = receipt_at mh l"
  "receipt_at mh (l\<lparr>nextAdmissionSeq := q\<rparr>) = receipt_at mh l"
  "receipt_at mh (l\<lparr>activeAdmissions := t\<rparr>) = receipt_at mh l"
  "receipt_at mh (upd_flight f h l) = receipt_at mh l"
  "receipt_at mh (upd_lease x h' l) = receipt_at mh l"
  by (simp_all add: pending_at_def receipt_at_def fun_eq_iff)

lemma shard_ok_pendings:
  assumes "shard_ok mh i s rcs" "v \<noteq> None \<Longrightarrow> shardIndex mh k = i"
  shows "shard_ok mh i (s\<lparr>pendings := (pendings s)(k := v)\<rparr>) rcs"
proof -
  have c: "byKey s k' \<noteq> None \<or> pendings s k' \<noteq> None \<longrightarrow> shardIndex mh k' = i" for k'
    using assms(1) unfolding shard_ok_def by blast
  have "byKey s k' \<noteq> None \<or> ((pendings s)(k := v)) k' \<noteq> None \<longrightarrow> shardIndex mh k' = i" for k'
    using c [of k'] assms(2) by (cases "k' = k") simp_all
  with assms(1) show ?thesis unfolding shard_ok_def by simp
qed

lemma shards_set_pending:
  "shards_of (set_pending mh k v l) = (shards_of l)(shardIndex mh k :=
     (shards_of l (shardIndex mh k))\<lparr>pendings := (pendings (shards_of l (shardIndex mh k)))(k := v)\<rparr>)"
  by (simp add: set_pending_def)

lemma holds_append: "holds l ro k p \<Longrightarrow> reservations l' = reservations l @ rs \<Longrightarrow> holds l' ro k p"
  by (auto simp: holds_def nth_append)

lemma grow_reservations_inv:
  assumes inv: "ledger_inv mh l"
    and rv: "reservations l' = reservations l @ rs"
    and same: "shards_of l' = shards_of l" "flights l' = flights l" "receipts l' = receipts l"
      "leases l' = leases l" "receiptCount l' = receiptCount l" "flightLimit l' = flightLimit l"
      "subscriberBudget l' = subscriberBudget l"
      "subscriberPerFlight l' = subscriberPerFlight l" "nextAdmissionSeq l' = nextAdmissionSeq l"
      "activeAdmissions l' = activeAdmissions l"
    and fair: "fair_accounts mh (fairBudget l') (owned mh l)"
  shows "ledger_inv mh l'"
proof -
  note t = ledger_invD(1) [OF inv] and b = ledger_invD(2) [OF inv] and a = ledger_invD(3) [OF inv]
  note at = at_cong [OF same(1), of mh]
  note hold = holds_append [OF _ rv]
  have "table_ok mh l'"
  proof (rule table_okI)
    show "flight_ok l' k f" if "pending_at mh l' k = Some f" for k f
      using that table_okD(5) [OF t, of k f] hold by (auto simp: at flight_ok_def same)
    show "holds l' (rc_reservation (receipts l' ! e)) k False" if "receipt_at mh l' k = Some e" for k e
      using that table_okD(6) [OF t, of k e] hold by (simp add: at same)
  qed (use table_okD [OF t] in \<open>simp_all add: at same\<close>)
  moreover have "owned mh l' = owned mh l" by (simp add: owned_def at)
  moreover have "charged mh l' = charged mh l" by (rule charged_cong) (simp_all add: at same)
  ultimately show ?thesis
    using b fair admissions_ok_cong [OF a at(1)]
    by (simp add: ledger_inv_def budgets_ok_def at same)
qed

lemma install_inv:
  assumes inv: "ledger_inv mh l" and k: "pending_at mh l k = None" "receipt_at mh l k = None"
    and shards: "shards_of l' = shards_of (set_pending mh k (Some (length (flights l))) l)"
    and fl: "flights l' = flights l @ [new_flight identity q (length (reservations l))]"
    and rv: "reservations l' = reservations l @ [\<lparr>r_key = k, r_pending = True, r_released = False\<rparr>]"
    and ls: "leases l' = leases l @ [ls]" "l_flight ls = length (flights l)"
    and same: "receipts l' = receipts l" "receiptCount l' = receiptCount l"
      "subscriberBudget l' = subscriberBudget l" "subscriberPerFlight l' = subscriberPerFlight l"
    and budget: "fair_accounts mh (fairBudget l') (add_mset (k, True) (owned mh l))"
      "limit_reserve (flightLimit l) = Some (flightLimit l')"
    and adm: "sharded (activeAdmissions l')" "active (activeAdmissions l') =
      (if q = 0 then active (activeAdmissions l) else insert q (active (activeAdmissions l)))"
      "q \<noteq> 0 \<Longrightarrow> q > nextAdmissionSeq l"
      "nextAdmissionSeq l' = (if q = 0 then nextAdmissionSeq l else q)"
  shows "ledger_inv mh l'"
proof -
  note t = ledger_invD(1) [OF inv] and b = ledger_invD(2) [OF inv] and a = ledger_invD(3) [OF inv]
  have pen: "pending_at mh l' = (pending_at mh l)(k \<mapsto> length (flights l))"
    and rec: "receipt_at mh l' = receipt_at mh l"
    using at_cong [OF shards, of mh] by simp_all
  note hold = holds_append [OF _ rv]
  have old: "flights l' ! f = flights l ! f" if "f < length (flights l)" for f
    using that by (simp add: fl nth_append)
  have pos: "0 < subscriberPerFlight l" by (rule table_okD(9) [OF t])
  have "table_ok mh l'"
  proof (rule table_okI)
    show "shard_ok mh i (shards_of l' i) (receipts l')" for i
      using table_okD(1) [OF t, of i] shard_ok_pendings [OF table_okD(1) [OF t], OF refl]
      by (simp add: shards shards_set_pending same)
    show "finite (dom (pending_at mh l'))" "finite (dom (receipt_at mh l'))"
      using table_okD(2,3) [OF t] by (simp_all add: pen rec)
    show "receipt_at mh l' k' = None" if "pending_at mh l' k' = Some f" for k' f
      using that table_okD(4) [OF t, of k' f] k(2) by (auto simp: pen rec split: if_splits)
    show "flight_ok l' k' f" if p: "pending_at mh l' k' = Some f" for k' f
    proof (cases "k' = k")
      case True
      then have "f = length (flights l)" using p by (simp add: pen)
      then show ?thesis
        using True pos by (simp add: flight_ok_def fl new_flight_def holds_def rv same)
    next
      case False
      then have q: "pending_at mh l k' = Some f" using p by (simp add: pen)
      have "f < length (flights l)" using table_okD(5) [OF t q] by (simp add: flight_ok_def)
      then show ?thesis
        by (intro flight_ok_cong [OF table_okD(5) [OF t q]]) (simp_all add: fl nth_append same hold)
    qed
    show "holds l' (rc_reservation (receipts l' ! e)) k' False" if "receipt_at mh l' k' = Some e" for k' e
      using that table_okD(6) [OF t, of k' e] hold by (simp add: rec same)
    show "resolved (flights l' ! f)" if f: "f < length (flights l')" "f \<notin> ran (pending_at mh l')" for f
    proof -
      have "f \<noteq> length (flights l)" using f(2) k(1) by (auto simp: pen)
      then have "f < length (flights l)" using f(1) by (simp add: fl)
      moreover have "f \<notin> ran (pending_at mh l)" using f(2) k(1) by (simp add: pen)
      ultimately show ?thesis using table_okD(7) [OF t] old by simp
    qed
    show "l_flight (leases l' ! x) < length (flights l')" if "x < length (leases l')" for x
      using that table_okD(8) [OF t, of x] ls by (auto simp: fl nth_append less_Suc_eq)
  qed (use pos in \<open>simp add: same\<close>)
  moreover have "budgets_ok mh l'"
  proof -
    have "owned mh l' = add_mset (k, True) (owned mh l)"
      using mset_dom_put [OF table_okD(2) [OF t] k(1)] by (simp add: owned_def pen rec)
    moreover have "charged mh l' = charged mh l"
    proof (rule charged_put [OF table_okD(2) [OF t] k(1) pen])
      show "subscriberSlots (flights l' ! length (flights l)) = 0" by (simp add: fl new_flight_def)
      show "subscriberSlots (flights l' ! f) = subscriberSlots (flights l ! f)"
        if "pending_at mh l k' = Some f" for k' f
        using table_okD(5) [OF t that] by (simp add: flight_ok_def old)
    qed
    moreover have "limit_accounts (flightLimit l') (replicate_mset (card (dom (pending_at mh l'))) ())"
      using counter.reserve_accounts [of "flightLimit l" _ 1 "flightLimit l'"] b budget(2)
        card_dom_put [OF table_okD(2) [OF t] k(1)]
      by (simp add: budgets_ok_def limit_reserve_def pen)
    ultimately show ?thesis using b budget(1) by (simp add: budgets_ok_def rec same)
  qed
  moreover have "admissions_ok mh l'"
    by (rule admissions_put [OF a t k(1) pen fl]) (use adm in \<open>simp_all add: new_flight_def\<close>)
  ultimately show ?thesis by (simp add: ledger_inv_def)
qed

text \<open>
  The ways a turn of \<open>acquire\<close> can end: without a new flight, or with a new owner whose key had
  neither a flight nor a receipt.
\<close>

definition installed :: "maphash \<Rightarrow> rpc_key \<Rightarrow> request_identity \<Rightarrow> 64 word \<Rightarrow> rpc_ledger \<Rightarrow> rpc_ledger \<Rightarrow> bool" where
  "installed mh k identity q l l' \<longleftrightarrow> pending_at mh l k = None \<and> receipt_at mh l k = None
     \<and> pending_at mh l' = (pending_at mh l)(k \<mapsto> length (flights l))
     \<and> flights l' = flights l @ [new_flight identity q (length (reservations l))]
     \<and> leases l' = leases l @ [\<lparr>l_key = k, l_flight = length (flights l), abortHook = None,
                               handedOff = False\<rparr>]
     \<and> receipt_at mh l' = receipt_at mh l \<and> receipts l' = receipts l
     \<and> nextAdmissionSeq l' = (if q = 0 then nextAdmissionSeq l else q)
     \<and> (q \<noteq> 0 \<longrightarrow> q = nextAdmissionSeq l + 1 \<and> nextAdmissionSeq l \<noteq> -1)"

lemma limit_reserve_release:
  "limit_reserve lim = Some g \<Longrightarrow> limit_release g = Ret lim"
  by (auto simp: limit_reserve_def limit_reserveN_def limit_release_def limit_releaseN_def
      split: if_splits)

lemma word_succ_greater: "(w::64 word) \<noteq> -1 \<Longrightarrow> w < w + 1 \<and> w + 1 \<noteq> 0"
proof -
  assume "w \<noteq> -1"
  then have "1 + w \<noteq> 0" by (metis add.commute add_eq_0_iff2)
  moreover from this have "unat (1 + w) = Suc (unat w)" by (rule unatSuc)
  ultimately show ?thesis by (simp add: word_less_nat_alt add.commute)
qed

lemma admit_ok:
  assumes inv: "ledger_inv mh l" and k: "pending_at mh l k = None" "receipt_at mh l k = None"
    and g: "limit_reserve (flightLimit l) = Some g"
    and b: "reserveOwner mh (fairBudget l) k = Some (b, rv)"
    and l1: "l1 = l\<lparr>flightLimit := g, fairBudget := b, reservations := reservations l @ [rv]\<rparr>"
  shows "(\<exists>l'. admit mh k identity (length (reservations l)) l1
        = Ret (l', Answer (Inl ErrRPCAdmissionSeqExhausted)) \<and> ledger_inv mh l' \<and> dropped mh (\<lambda>_. False) l l')
    \<or> (\<exists>l' q. admit mh k identity (length (reservations l)) l1
        = Ret (l', Answer (Inr (Owner q (length (leases l))))) \<and> ledger_inv mh l' \<and> installed mh k identity q l l')"
proof -
  have acc: "fair_accounts mh (fairBudget l) (owned mh l)"
    using ledger_invD(2) [OF inv] by (simp add: budgets_ok_def)
  have rv: "rv = \<lparr>r_key = k, r_pending = True, r_released = False\<rparr>"
    and acc1: "fair_accounts mh b (add_mset (k, True) (owned mh l))"
    using fair_reserve_accounts [OF acc] b by (auto simp: reserveOwner_def)
  note a = ledger_invD(3) [OF inv]
  note own = install_inv [OF inv k, where ls = "\<lparr>l_key = k, l_flight = length (flights l),
      abortHook = None, handedOff = False\<rparr>"]
  show ?thesis
  proof (cases "valid_identity identity")
    case False
    let ?l = "fst (install_owner mh k identity 0 (length (reservations l)) l1)"
    have "admit mh k identity (length (reservations l)) l1
        = Ret (?l, Answer (Inr (Owner 0 (length (leases l)))))"
      using False by (simp add: admit_def install_owner_def Let_def l1)
    moreover have "ledger_inv mh ?l"
      by (rule own [where q = 0])
        (use acc1 g admissions_okD(1) [OF a] in
          \<open>simp_all add: install_owner_def Let_def l1 rv shards_set_pending\<close>)
    moreover have "installed mh k identity 0 l ?l"
      using k False by (simp add: installed_def install_owner_def Let_def l1)
    ultimately show ?thesis by blast
  next
    case True
    show ?thesis
    proof (cases "allocateAndRegister (activeAdmissions l) (nextAdmissionSeq l)")
      case None
      from fair_release_accounts [OF acc1, of rv] rv obtain b' where
        rel: "fair_release mh b rv = Ret (b', rv\<lparr>r_released := True, r_pending := False\<rparr>)"
        and acc': "fair_accounts mh b' (owned mh l)" by auto
      let ?l = "l1\<lparr>fairBudget := b', flightLimit := flightLimit l,
          reservations := reservations l @ [rv\<lparr>r_released := True, r_pending := False\<rparr>]\<rparr>"
      have "admit mh k identity (length (reservations l)) l1
          = Ret (?l, Answer (Inl ErrRPCAdmissionSeqExhausted))"
        using True None rel limit_reserve_release [OF g]
        by (simp add: admit_def reservation_release_def l1)
      moreover have "ledger_inv mh ?l"
        by (rule grow_reservations_inv [OF inv]) (simp_all add: l1 acc')
      moreover have "dropped mh (\<lambda>_. False) l ?l"
        by (simp add: dropped_def l1)
      ultimately show ?thesis by blast
    next
      case (Some tq)
      obtain t q where tq: "tq = (t, q)" by (cases tq)
      note al = allocate_active [OF Some [unfolded tq]]
      have q: "q \<noteq> 0" "nextAdmissionSeq l < q" using word_succ_greater [OF al(1)] al(2) by simp_all
      let ?l = "fst (install_owner mh k identity q (length (reservations l))
          (l1\<lparr>activeAdmissions := t, nextAdmissionSeq := q\<rparr>))"
      have "admit mh k identity (length (reservations l)) l1
          = Ret (?l, Answer (Inr (Owner q (length (leases l)))))"
        using True Some tq by (simp add: admit_def install_owner_def Let_def l1)
      moreover have "ledger_inv mh ?l"
        by (rule own [where q = q])
          (use acc1 g al(3,4) admissions_okD(1) [OF a] q in
            \<open>simp_all add: install_owner_def Let_def l1 rv shards_set_pending\<close>)
      moreover have "installed mh k identity q l ?l"
        using k True q al(1,2)
        by (simp add: installed_def install_owner_def Let_def l1)
      ultimately show ?thesis by blast
    qed
  qed
qed

definition no_owner :: "attempt_result \<Rightarrow> bool" where
  "no_owner res \<longleftrightarrow> (\<forall>q x. res \<noteq> Answer (Inr (Owner q x)))"

lemma no_owner_answers:
  "no_owner (Answer (answer_receipt replay key rc identity))"
  "no_owner (Answer (answer_flight key f fl identity))"
  "no_owner (Answer (Inl err))" "no_owner NoReservation"
  by (simp_all add: no_owner_def answer_receipt_def answer_flight_def split: option.splits)

lemma attempt_ok:
  assumes inv: "ledger_inv mh l"
  obtains l0 l' res where "attempt mh replay now key identity l = Ret (l', res)"
    "ledger_inv mh l'" "ledger_inv mh l0" "dropped mh (\<lambda>rc. expiresAt rc \<le> now) l l0"
    "dropped mh (\<lambda>_. False) l0 l' \<and> no_owner res
     \<or> (\<exists>q. res = Answer (Inr (Owner q (length (leases l)))) \<and> installed mh key identity q l0 l')"
proof -
  obtain l0 where ex: "expireLocked mh (shardIndex mh key) now l = Ret l0" and inv0: "ledger_inv mh l0"
    and dr: "dropped mh (\<lambda>rc. expiresAt rc \<le> now) l l0"
    by (rule expireLocked_ok [OF inv])
  note fin = that [OF _ _ inv0 dr]
  have same: ?thesis if "attempt mh replay now key identity l = Ret (l0, res)" "no_owner res" for res
    using fin [OF that(1) inv0] that(2) by simp
  show ?thesis
  proof (cases "receipt_at mh l0 key")
    case (Some e)
    then show ?thesis by (intro same [OF _ no_owner_answers(1)]) (simp add: attempt_def ex)
  next
    case r: None
    show ?thesis
    proof (cases "pending_at mh l0 key")
      case (Some f)
      then show ?thesis using r by (intro same [OF _ no_owner_answers(2)]) (simp add: attempt_def ex)
    next
      case p: None
      show ?thesis
      proof (cases "limit_reserve (flightLimit l0)")
        case None
        then show ?thesis using r p by (intro same [OF _ no_owner_answers(3)]) (simp add: attempt_def ex)
      next
        case g: (Some g)
        show ?thesis
        proof (cases "reserveOwner mh (fairBudget l0) key")
          case None
          then show ?thesis
            using r p g limit_reserve_release [OF g]
            by (intro same [OF _ no_owner_answers(4)]) (simp add: attempt_def ex)
        next
          case (Some brv)
          obtain b rv where b: "brv = (b, rv)" by (cases brv)
          let ?l1 = "l0\<lparr>flightLimit := g, fairBudget := b, reservations := reservations l0 @ [rv]\<rparr>"
          have run: "attempt mh replay now key identity l
              = admit mh key identity (length (reservations l0)) ?l1"
            using r p g Some b by (simp add: attempt_def ex)
          from admit_ok [OF inv0 p r g Some [unfolded b] refl, of identity]
          show ?thesis
          proof (elim disjE exE conjE)
            fix l' assume "admit mh key identity (length (reservations l0)) ?l1
                = Ret (l', Answer (Inl ErrRPCAdmissionSeqExhausted))" "ledger_inv mh l'"
              "dropped mh (\<lambda>_. False) l0 l'"
            then show ?thesis using fin [of l'] run no_owner_answers(3) by simp
          next
            fix l' q assume "admit mh key identity (length (reservations l0)) ?l1
                = Ret (l', Answer (Inr (Owner q (length (leases l0)))))" "ledger_inv mh l'"
              "installed mh key identity q l0 l'"
            then show ?thesis using fin [of l'] run droppedD(6) [OF dr] by simp
          qed
        qed
      qed
    qed
  qed
qed

section \<open>Lookups and acknowledgements\<close>

lemma lookups_ok:
  assumes inv: "ledger_inv mh l"
  shows "\<exists>l' r. ExactAdmissionProfile mh now key l = Ret (l', r) \<and> ledger_inv mh l'
      \<and> dropped mh (\<lambda>rc. expiresAt rc \<le> now) l l'"
    "\<exists>l' r. Replay mh replay now key l = Ret (l', r) \<and> ledger_inv mh l'
      \<and> dropped mh (\<lambda>rc. expiresAt rc \<le> now) l l'"
    "\<exists>l' r. ObserveDependency mh now key l = Ret (l', r) \<and> ledger_inv mh l'
      \<and> dropped mh (\<lambda>rc. expiresAt rc \<le> now) l l'"
proof -
  obtain l' r where "drop_expired mh now key l = Ret (l', r)" "ledger_inv mh l'"
    "dropped mh (\<lambda>rc. expiresAt rc \<le> now) l l'" by (rule drop_expired_ok [OF inv])
  then show "\<exists>l' r. ExactAdmissionProfile mh now key l = Ret (l', r) \<and> ledger_inv mh l'
      \<and> dropped mh (\<lambda>rc. expiresAt rc \<le> now) l l'"
    "\<exists>l' r. Replay mh replay now key l = Ret (l', r) \<and> ledger_inv mh l'
      \<and> dropped mh (\<lambda>rc. expiresAt rc \<le> now) l l'"
    "\<exists>l' r. ObserveDependency mh now key l = Ret (l', r) \<and> ledger_inv mh l'
      \<and> dropped mh (\<lambda>rc. expiresAt rc \<le> now) l l'"
    using inv by (cases "reqMsgID key = 0"; cases r;
        simp add: ExactAdmissionProfile_def Replay_def ObserveDependency_def)+
qed

lemma Acknowledge_ok:
  assumes inv: "ledger_inv mh l"
  obtains (removed) l' r where "Acknowledge mh now key l = Ret (l', r)" "ledger_inv mh l'"
      "dropped mh (\<lambda>rc. expiresAt rc \<le> now \<or> rc_key rc = key) l l'"
  | (marked) l0 f where "Acknowledge mh now key l
      = Ret (upd_flight f (\<lambda>fl. fl\<lparr>f_acknowledged := True\<rparr>) l0, True)"
      "ledger_inv mh (upd_flight f (\<lambda>fl. fl\<lparr>f_acknowledged := True\<rparr>) l0)" "ledger_inv mh l0"
      "dropped mh (\<lambda>rc. expiresAt rc \<le> now) l l0" "pending_at mh l0 key = Some f"
proof (cases "reqMsgID key = 0")
  case True
  then have "Acknowledge mh now key l = Ret (l, False)" by (simp add: Acknowledge_def)
  then show ?thesis using inv dropped_refl by (rule removed)
next
  case False
  let ?P = "\<lambda>rc. expiresAt rc \<le> now \<or> rc_key rc = key"
  obtain l0 where ex: "expireLocked mh (shardIndex mh key) now l = Ret l0" and inv0: "ledger_inv mh l0"
    and dr: "dropped mh (\<lambda>rc. expiresAt rc \<le> now) l l0"
    by (rule expireLocked_ok [OF inv])
  have dr': "dropped mh ?P l l0" by (rule dropped_mono [OF dr]) simp
  show ?thesis
  proof (cases "receipt_at mh l0 key")
    case (Some e)
    then have "rc_key (receipts l0 ! e) = key" using receipt_order [OF ledger_invD(1) [OF inv0]] by blast
    then have P: "?P (receipts l0 ! e)" by simp
    obtain l' where l': "removeElement mh (shardIndex mh key) e l0 = Ret l'" "ledger_inv mh l'"
      "dropped mh ?P l0 l'" by (rule remove_at [OF inv0 Some, where P = ?P, OF P])
    show ?thesis
      by (rule removed [OF _ l'(2) dropped_trans [OF dr' l'(3)], of True])
        (use False ex Some l'(1) in \<open>simp add: Acknowledge_def\<close>)
  next
    case r: None
    show ?thesis
    proof (cases "pending_at mh l0 key")
      case None
      with False ex r show ?thesis
        by (intro removed [OF _ inv0 dr', of False]) (simp add: Acknowledge_def)
    next
      case (Some f)
      let ?l = "upd_flight f (\<lambda>fl. fl\<lparr>f_acknowledged := True\<rparr>) l0"
      have fok: "flight_ok l0 key f" using table_okD(5) [OF ledger_invD(1) [OF inv0] Some] .
      have "charged mh ?l = charged mh l0"
        using fok by (intro charged_cong) (auto simp: flight_ok_def nth_list_update)
      then have "ledger_inv mh ?l"
        using fok ledger_invD(2) [OF inv0]
        by (intro upd_flight_inv [OF inv0 Some, where fl' = "(flights l0 ! f)\<lparr>f_acknowledged := True\<rparr>"])
          (auto simp: flight_ok_def budgets_ok_def)
      then show ?thesis
        using False ex r Some by (intro marked [OF _ _ inv0 dr Some]) (simp_all add: Acknowledge_def)
    qed
  qed
qed

section \<open>Callbacks\<close>

lemma CompleteExecution_ok:
  assumes inv: "ledger_inv mh l"
  obtains (refused) "CompleteExecution mh x success l = Ret (l, False, [])"
      "\<not> owns mh l x \<or> executionDone (flights l ! l_flight (leases l ! x))"
  | (published) l' f fl where "f = l_flight (leases l ! x)" "fl = flights l ! f" "owns mh l x"
      "\<not> executionDone fl"
      "CompleteExecution mh x success l
        = Ret (l', True, map (\<lambda>c. RanExecution c success) (executionSubscribers fl))"
      "ledger_inv mh l'"
      "flights l' = (flights l)[f := fl\<lparr>executionDone := True, f_executionOK := success,
         executionSubscribers := [],
         subscriberSlots := subscriberSlots fl - int (length (executionSubscribers fl))\<rparr>]"
      "pending_at mh l' = pending_at mh l" "receipt_at mh l' = receipt_at mh l"
      "receipts l' = receipts l" "leases l' = leases l" "nextAdmissionSeq l' = nextAdmissionSeq l"
      "activeAdmissions l' = activeAdmissions l"
proof (cases "owns mh l x \<and> \<not> executionDone (flights l ! l_flight (leases l ! x))")
  case False
  then show ?thesis by (intro refused) (auto simp: CompleteExecution_def Let_def)
next
  case True
  let ?k = "l_key (leases l ! x)" and ?f = "l_flight (leases l ! x)"
  let ?fl = "flights l ! ?f"
  let ?n = "int (length (executionSubscribers ?fl))"
  have p: "pending_at mh l ?k = Some ?f" using True by (simp add: owns_def)
  note t = ledger_invD(1) [OF inv] and b = ledger_invD(2) [OF inv]
  have fok: "flight_ok l ?k ?f" by (rule table_okD(5) [OF t p])
  let ?fl1 = "?fl\<lparr>executionDone := True, f_executionOK := success, executionSubscribers := []\<rparr>"
  define l1 where "l1 = upd_flight ?f (\<lambda>fl. fl\<lparr>executionDone := True, f_executionOK := success,
      executionSubscribers := []\<rparr>) l"
  let ?fl' = "?fl1\<lparr>subscriberSlots := subscriberSlots ?fl - ?n\<rparr>"
  define l2 where "l2 = upd_flight ?f (\<lambda>fl. fl\<lparr>subscriberSlots := subscriberSlots fl - ?n\<rparr>) l1"
  have fl1: "flights l1 ! ?f = ?fl1" and len: "?f < length (flights l)"
    using fok by (simp_all add: l1_def flight_ok_def)
  have fl2: "flights l2 = (flights l)[?f := ?fl']"
    using fl1 by (simp add: l2_def) (simp add: l1_def)
  have "charged mh l = charged mh l2 + replicate_mset (nat ?n) ?k"
  proof (rule charged_upd [where l = l2 and l' = l and f = ?f])
    show "finite (dom (pending_at mh l2))" "pending_at mh l2 ?k = Some ?f" "pending_at mh l = pending_at mh l2"
      using table_okD(2) [OF t] p by (simp_all add: l2_def l1_def)
    show "0 \<le> subscriberSlots (flights l2 ! ?f)" "0 \<le> ?n"
      "subscriberSlots (flights l ! ?f) = subscriberSlots (flights l2 ! ?f) + ?n"
      using fok len by (simp_all add: fl2 flight_ok_def)
    show "subscriberSlots (flights l ! f') = subscriberSlots (flights l2 ! f')"
      if "k' \<noteq> ?k" "pending_at mh l2 k' = Some f'" for k' f'
      using that flights_other [OF t p, of k' f'] by (simp add: fl2) (simp add: l2_def l1_def)
  qed
  then have acc0: "subscriber_accounts mh (subscriberBudget l1) (charged mh l2 + replicate_mset (nat ?n) ?k)"
    using b by (simp add: budgets_ok_def l1_def)
  have le: "?n \<le> subscriberSlots (flights l1 ! ?f)" and len1: "?f < length (flights l1)"
    using fok by (simp_all add: fl1 flight_ok_def) (simp add: l1_def)
  obtain sb where rel0: "releaseFlightSubscriberSlotsLocked mh ?k ?f ?n l1
      = Ret ((upd_flight ?f (\<lambda>fl. fl\<lparr>subscriberSlots := subscriberSlots fl - ?n\<rparr>) l1)\<lparr>subscriberBudget := sb\<rparr>)"
    and acc: "subscriber_accounts mh sb (charged mh l2)"
    by (rule release_slots_ok [OF of_nat_0_le_iff le len1 acc0])
  note rel = rel0 [folded l2_def]
  let ?l' = "l2\<lparr>subscriberBudget := sb\<rparr>"
  have ch: "charged mh ?l' = charged mh l2" by (rule charged_cong) simp_all
  have "ledger_inv mh ?l'"
    by (rule upd_flight_inv [OF inv p, where fl' = ?fl'])
      (use fok acc in \<open>simp_all add: fl2 ch flight_ok_def\<close>, simp_all add: l2_def l1_def)
  moreover have "CompleteExecution mh x success l
        = Ret (?l', True, map (\<lambda>c. RanExecution c success) (executionSubscribers ?fl))"
    using True rel by (simp add: CompleteExecution_def Let_def l1_def)
  ultimately show ?thesis
    by (intro published [OF refl refl, of ?l'])
      (use True in \<open>simp_all add: fl2\<close>, simp_all add: l2_def l1_def)
qed

text \<open>What a flight retains after an accepted subscription.\<close>

definition new_results :: "callback option \<Rightarrow> callback list" where
  "new_results fn = (case fn of None \<Rightarrow> [] | Some c \<Rightarrow> [c])"

lemma retain_simps:
  "subscribers (retain rf ef fl) = subscribers fl @ new_results rf"
  "executionSubscribers (retain rf ef fl) =
     executionSubscribers fl @ (if executionDone fl then [] else new_results ef)"
  "subscriberSlots (retain rf ef fl) = subscriberSlots fl"
  "executionDone (retain rf ef fl) = executionDone fl" "f_done (retain rf ef fl) = f_done fl"
  "f_reservation (retain rf ef fl) = f_reservation fl"
  "f_admissionSeq (retain rf ef fl) = f_admissionSeq fl"
  "f_identity (retain rf ef fl) = f_identity fl" "f_acknowledged (retain rf ef fl) = f_acknowledged fl"
  by (simp_all add: retain_def new_results_def split: option.splits)

lemma slots_needed_length:
  "slots_needed fl rf ef =
    int (length (new_results rf) + length (if executionDone fl then [] else new_results ef))"
  by (simp add: slots_needed_def new_results_def split: option.splits)

lemma subscribe_ok:
  assumes inv: "ledger_inv mh l" and w: "snd w < length (flights l)"
  obtains (refused) err where "subscribe mh w rf ef l = (l, Some err, [])"
  | (late) fl where "fl = flights l ! snd w" "subscribe mh w rf ef l = (l, None,
        map (\<lambda>c. RanExecution c (f_executionOK fl)) (new_results ef)
        @ map (\<lambda>c. RanResult c (f_encoded fl) (f_ok fl)) (new_results rf))"
      "pending_at mh l (fst w) \<noteq> Some (snd w)" "rf \<noteq> None \<longrightarrow> f_done fl"
  | (joined) l' fl fl' where "pending_at mh l (fst w) = Some (snd w)" "fl = flights l ! snd w"
      "subscribe mh w rf ef l = (l', None, if executionDone fl
         then map (\<lambda>c. RanExecution c (f_executionOK fl)) (new_results ef) else [])"
      "ledger_inv mh l'" "flights l' = (flights l)[snd w := fl']"
      "fl' = retain rf ef (fl\<lparr>subscriberSlots := subscriberSlots fl + slots_needed fl rf ef\<rparr>)"
      "pending_at mh l' = pending_at mh l" "receipt_at mh l' = receipt_at mh l"
      "receipts l' = receipts l" "leases l' = leases l" "nextAdmissionSeq l' = nextAdmissionSeq l"
      "activeAdmissions l' = activeAdmissions l"
proof (cases "rf = None \<and> ef = None")
  case True
  then have "subscribe mh w rf ef l = (l, Some ErrRPCResultFlightInvalid, [])"
    by (simp add: subscribe_def)
  then show ?thesis by (rule refused)
next
  case some: False
  let ?f = "snd w" and ?k = "fst w" and ?fl = "flights l ! snd w"
  show ?thesis
  proof (cases "pending_at mh l ?k = Some ?f")
    case False
    show ?thesis
    proof (cases "subscribe_late ?fl rf ef")
      case (Pair e fr)
      then have run: "subscribe mh w rf ef l = (l, e, fr)"
        using some False by (auto simp: subscribe_def)
      show ?thesis
      proof (cases "(rf = None \<or> f_done ?fl) \<and> (ef = None \<or> executionDone ?fl)")
        case False
        then have "e = Some ErrRPCResultFlightInvalid \<and> fr = []"
          using Pair by (auto simp: subscribe_late_def Let_def)
        then show ?thesis using run by (intro refused) simp
      next
        case True
        then have "e = None \<and> fr = map (\<lambda>c. RanExecution c (f_executionOK ?fl)) (new_results ef)
            @ map (\<lambda>c. RanResult c (f_encoded ?fl) (f_ok ?fl)) (new_results rf)"
          using Pair by (auto simp: subscribe_late_def Let_def run_execution_def new_results_def
              split: option.splits)
        then show ?thesis using run False True by (intro late [OF refl]) auto
      qed
    qed
  next
    case p: True
    note t = ledger_invD(1) [OF inv] and b = ledger_invD(2) [OF inv]
    have fok: "flight_ok l ?k ?f" by (rule table_okD(5) [OF t p])
    let ?n = "slots_needed ?fl rf ef"
    let ?fl' = "retain rf ef (?fl\<lparr>subscriberSlots := subscriberSlots ?fl + ?n\<rparr>)"
    let ?run = "if executionDone ?fl
         then map (\<lambda>c. RanExecution c (f_executionOK ?fl)) (new_results ef) else []"
    have run: "(if executionDone ?fl then run_execution ef (f_executionOK ?fl) else []) = ?run"
      by (simp add: run_execution_def new_results_def split: option.splits)
    have n0: "0 \<le> ?n" by (simp add: slots_needed_def)
    have sub: "subscriber_accounts mh (subscriberBudget l) (charged mh l)"
      using b by (simp add: budgets_ok_def)
    have main: ?thesis
      if s: "subscribe mh w rf ef l = (l', None, ?run)"
        and l': "l' = (upd_flight ?f (\<lambda>_. ?fl') l)\<lparr>subscriberBudget := sb\<rparr>"
        and acc: "subscriber_accounts mh sb (charged mh l + replicate_mset (nat ?n) ?k)"
        and per: "subscriberSlots ?fl + ?n \<le> subscriberPerFlight l" for l' sb
    proof -
      have fl': "flights l' = (flights l)[?f := ?fl']" by (simp add: l')
      have ch: "charged mh l' = charged mh l + replicate_mset (nat ?n) ?k"
        by (rule charged_upd [OF table_okD(2) [OF t] p])
          (use n0 fok flights_other [OF t p] in \<open>simp_all add: fl' retain_simps flight_ok_def\<close>,
            simp add: l')
      have "ledger_inv mh l'"
      proof (rule upd_flight_inv [OF inv p fl'])
        show "subscriber_accounts mh (subscriberBudget l') (charged mh l')"
          unfolding ch using acc by (simp add: l')
      qed (use fok per in \<open>simp_all add: retain_simps flight_ok_def slots_needed_length l'\<close>)
      then show ?thesis
        by (intro joined [OF p refl s _ fl' refl]) (simp_all add: l')
    qed
    show ?thesis
    proof (cases "?n > 0")
      case False
      then have "?n = 0" using n0 by simp
      then have s: "subscribe mh w rf ef l
          = ((upd_flight ?f (\<lambda>_. ?fl') l)\<lparr>subscriberBudget := subscriberBudget l\<rparr>, None, ?run)"
        using some p run by (simp add: subscribe_def subscribe_pending_def Let_def upd_flight_def)
      show ?thesis
        by (rule main [OF s refl]) (use fok sub \<open>?n = 0\<close> in \<open>simp_all add: flight_ok_def\<close>)
    next
      case pos: True
      show ?thesis
      proof (cases "subscriberSlots ?fl > subscriberPerFlight l - ?n
          \<or> subscriber_reserve mh (subscriberBudget l) ?k ?n = None")
        case True
        then have "subscribe mh w rf ef l = (l, Some ErrRPCResultSubscriberCapacity, [])"
          using some p pos by (auto simp: subscribe_def subscribe_pending_def Let_def)
        then show ?thesis by (rule refused)
      next
        case False
        then obtain sb where sb: "subscriber_reserve mh (subscriberBudget l) ?k ?n = Some sb"
          and per: "subscriberSlots ?fl + ?n \<le> subscriberPerFlight l" by auto
        have "subscribe mh w rf ef l
            = ((upd_flight ?f (\<lambda>_. ?fl') l)\<lparr>subscriberBudget := sb\<rparr>, None, ?run)"
          using some p pos sb False run
          by (simp add: subscribe_def subscribe_pending_def Let_def upd_flight_def)
        then show ?thesis
          using subscriber_reserve_accounts [OF sub sb] per by (intro main [OF _ refl])
      qed
    qed
  qed
qed

section \<open>Ending a flight\<close>

text \<open>What the end of a flight leaves behind.\<close>

definition ended :: "maphash \<Rightarrow> rpc_key \<Rightarrow> ref \<Rightarrow> rpc_flight \<Rightarrow> rpc_ledger \<Rightarrow> rpc_ledger \<Rightarrow> bool" where
  "ended mh k f fl' l l' \<longleftrightarrow> pending_at mh l k = Some f
     \<and> pending_at mh l' = (pending_at mh l)(k := None)
     \<and> flights l' = (flights l)[f := fl'] \<and> resolved fl'
     \<and> nextAdmissionSeq l' = nextAdmissionSeq l
     \<and> active (activeAdmissions l') \<subseteq> active (activeAdmissions l)"

lemma leave_flight_table_ok:
  assumes inv: "ledger_inv mh l" and p: "pending_at mh l k = Some f"
    and same: "flightLimit l1 = flightLimit l" "activeAdmissions l1 = activeAdmissions l"
      "f_admissionSeq (flights l1 ! f) = f_admissionSeq (flights l ! f)"
  obtains t where "leave_flight_table f l1 = Ret (l1\<lparr>flightLimit :=
        (flightLimit l)\<lparr>lim_used := lim_used (flightLimit l) - 1\<rparr>, activeAdmissions := t\<rparr>)"
    "sharded t" "active t = (if f_admissionSeq (flights l ! f) = 0 then active (activeAdmissions l)
       else active (activeAdmissions l) - {f_admissionSeq (flights l ! f)})"
proof -
  let ?q = "f_admissionSeq (flights l ! f)"
  note t = ledger_invD(1) [OF inv] and b = ledger_invD(2) [OF inv] and a = ledger_invD(3) [OF inv]
  have "lim_used (flightLimit l) = int (card (dom (pending_at mh l)))"
    using b by (simp add: budgets_ok_def limit_accounts_def)
  then have "1 \<le> lim_used (flightLimit l)" using card_dom_del [OF table_okD(2) [OF t] p] by simp
  then have rel: "limit_release (flightLimit l)
      = Ret ((flightLimit l)\<lparr>lim_used := lim_used (flightLimit l) - 1\<rparr>)"
    by (simp add: limit_release_def limit_releaseN_ok)
  have "?q = 0 \<or> ?q \<in> active (activeAdmissions l)"
    using admissions_okD(2) [OF a, of ?q] p by blast
  from retire_active [OF this] obtain t' where t': "retire (activeAdmissions l) ?q = Ret t'"
    "active t' = (if ?q = 0 then active (activeAdmissions l) else active (activeAdmissions l) - {?q})"
    "sharded t'" using admissions_okD(1) [OF a] by blast
  show thesis
    by (rule that [of t']) (use rel t' in \<open>simp_all add: leave_flight_table_def same\<close>)
qed

text \<open>The reservation of a pending flight.\<close>

lemma flight_reservation:
  assumes inv: "ledger_inv mh l" and p: "pending_at mh l k = Some f"
  obtains r M where "f_reservation (flights l ! f) = Some r" "r < length (reservations l)"
    "reservations l ! r = \<lparr>r_key = k, r_pending = True, r_released = False\<rparr>"
    "owned mh l = add_mset (k, True) M"
    "M = image_mset (\<lambda>k. (k, True)) (mset_set (dom ((pending_at mh l)(k := None))))
       + image_mset (\<lambda>k. (k, False)) (mset_set (dom (receipt_at mh l)))"
    "fair_accounts mh (fairBudget l) (add_mset (k, True) M)"
proof -
  note t = ledger_invD(1) [OF inv] and b = ledger_invD(2) [OF inv]
  obtain r where r: "f_reservation (flights l ! f) = Some r" "r < length (reservations l)"
    "reservations l ! r = \<lparr>r_key = k, r_pending = True, r_released = False\<rparr>"
    using table_okD(5) [OF t p] by (auto simp: flight_ok_def holds_def)
  define M where "M = image_mset (\<lambda>k. (k, True)) (mset_set (dom ((pending_at mh l)(k := None))))
       + image_mset (\<lambda>k. (k, False)) (mset_set (dom (receipt_at mh l)))"
  have own: "owned mh l = add_mset (k, True) M"
    unfolding owned_def M_def by (subst mset_dom_del [OF table_okD(2) [OF t] p]) simp
  have "fair_accounts mh (fairBudget l) (add_mset (k, True) M)"
    using b own by (simp add: budgets_ok_def)
  with r own M_def show thesis by (rule that)
qed

lemma Abort_ok:
  assumes inv: "ledger_inv mh l"
  obtains (refused) "Abort mh x l = Ret (l, False, [])" "handedOff (leases l ! x) \<or> \<not> owns mh l x"
  | (aborted) l' f fl fl' where "f = l_flight (leases l ! x)" "fl = flights l ! f"
      "owns mh l x" "\<not> handedOff (leases l ! x)"
      "Abort mh x l = Ret (l', True, (case abortHook (leases l ! x) of None \<Rightarrow> [] | Some c \<Rightarrow> [RanHook c])
         @ map (\<lambda>c. RanResult c None False) (subscribers fl)
         @ map (\<lambda>c. RanExecution c False) (executionSubscribers fl))"
      "ledger_inv mh l'" "ended mh (l_key (leases l ! x)) f fl' l l'"
      "f_encoded fl' = f_encoded fl \<and> f_ok fl' = f_ok fl \<and> f_identity fl' = f_identity fl
        \<and> (executionDone fl \<longrightarrow> f_executionOK fl' = f_executionOK fl)"
      "receipt_at mh l' = receipt_at mh l" "receipts l' = receipts l"
      "leases l' = (leases l)[x := (leases l ! x)\<lparr>abortHook := None\<rparr>]"
proof (cases "handedOff (leases l ! x) \<or> \<not> owns mh l x")
  case True
  then show ?thesis by (intro refused) (auto simp: Abort_def Let_def)
next
  case False
  let ?k = "l_key (leases l ! x)" and ?f = "l_flight (leases l ! x)"
  let ?fl = "flights l ! ?f"
  let ?n = "int (length (subscribers ?fl) + length (executionSubscribers ?fl))"
  have p: "pending_at mh l ?k = Some ?f" using False by (simp add: owns_def)
  note t = ledger_invD(1) [OF inv] and b = ledger_invD(2) [OF inv]
  have fok: "flight_ok l ?k ?f" by (rule table_okD(5) [OF t p])
  have len: "?f < length (flights l)" using fok by (simp add: flight_ok_def)
  obtain r M where r: "f_reservation ?fl = Some r" "r < length (reservations l)"
      "reservations l ! r = \<lparr>r_key = ?k, r_pending = True, r_released = False\<rparr>"
    and M: "M = image_mset (\<lambda>k. (k, True)) (mset_set (dom ((pending_at mh l)(?k := None))))
       + image_mset (\<lambda>k. (k, False)) (mset_set (dom (receipt_at mh l)))"
    and acc: "fair_accounts mh (fairBudget l) (add_mset (?k, True) M)"
    by (rule flight_reservation [OF inv p])
  let ?rv = "\<lparr>r_key = ?k, r_pending = False, r_released = True\<rparr>"
  from fair_release_accounts [OF acc, of "reservations l ! r"] r obtain b' where
    rel: "fair_release mh (fairBudget l) (reservations l ! r) = Ret (b', ?rv)"
    and acc': "fair_accounts mh b' M" by auto
  define l1 where "l1 = upd_flight ?f (\<lambda>fl. fl\<lparr>f_reservation := None\<rparr>)
      ((set_pending mh ?k None l)\<lparr>fairBudget := b', reservations := (reservations l)[r := ?rv]\<rparr>)"
  have s1: "release_flight_reservation mh ?f (set_pending mh ?k None l) = Ret l1"
    using r rel by (simp add: release_flight_reservation_def reservation_release_def l1_def)
  obtain tr where s2: "leave_flight_table ?f l1 = Ret (l1\<lparr>flightLimit :=
        (flightLimit l)\<lparr>lim_used := lim_used (flightLimit l) - 1\<rparr>, activeAdmissions := tr\<rparr>)"
    and tr: "sharded tr" "active tr = (if f_admissionSeq ?fl = 0 then active (activeAdmissions l)
       else active (activeAdmissions l) - {f_admissionSeq ?fl})"
    by (rule leave_flight_table_ok [OF inv p, of l1]) (use len in \<open>simp_all add: l1_def\<close>)
  define l2 where "l2 = upd_flight ?f (\<lambda>fl. fl\<lparr>subscribers := [], executionSubscribers := []\<rparr>)
      (l1\<lparr>flightLimit := (flightLimit l)\<lparr>lim_used := lim_used (flightLimit l) - 1\<rparr>, activeAdmissions := tr\<rparr>)"
  let ?g = "?fl\<lparr>f_reservation := None, subscribers := [], executionSubscribers := [],
      subscriberSlots := 0\<rparr>"
  define fl' where "fl' = (if executionDone ?fl then ?g
      else ?g\<lparr>executionDone := True, f_executionOK := False\<rparr>)\<lparr>f_done := True\<rparr>"
  have ch: "charged mh l = charged mh (set_pending mh ?k None l) + replicate_mset (nat ?n) ?k"
    using charged_del [OF table_okD(2) [OF t] p, of "set_pending mh ?k None l"] fok
    by (simp add: flight_ok_def)
  have acc0: "subscriber_accounts mh (subscriberBudget l2)
      (charged mh (set_pending mh ?k None l) + replicate_mset (nat ?n) ?k)"
    using b ch by (simp add: budgets_ok_def l2_def l1_def)
  have sl: "?n \<le> subscriberSlots (flights l2 ! ?f)" and len2: "?f < length (flights l2)"
    using fok len by (simp_all add: l2_def l1_def flight_ok_def)
  obtain sb where s3: "releaseFlightSubscriberSlotsLocked mh ?k ?f ?n l2
      = Ret ((upd_flight ?f (\<lambda>fl. fl\<lparr>subscriberSlots := subscriberSlots fl - ?n\<rparr>) l2)\<lparr>subscriberBudget := sb\<rparr>)"
    and sub: "subscriber_accounts mh sb (charged mh (set_pending mh ?k None l))"
    by (rule release_slots_ok [OF of_nat_0_le_iff sl len2 acc0])
  define l3 where "l3 = (upd_flight ?f (\<lambda>fl. fl\<lparr>subscriberSlots := subscriberSlots fl - ?n\<rparr>) l2)\<lparr>subscriberBudget := sb\<rparr>"
  define l4 where "l4 = upd_flight ?f (\<lambda>fl. if \<not> executionDone fl
      then fl\<lparr>executionDone := True, f_executionOK := False\<rparr> else fl) l3"
  have nd: "\<not> f_done (flights l4 ! ?f)"
    using fok by (simp add: l4_def l3_def l2_def l1_def flight_ok_def)
  define l5 where "l5 = upd_flight ?f (\<lambda>fl. fl\<lparr>f_done := True\<rparr>) l4"
  have s4: "close_done ?f l4 = Ret l5" using nd by (simp add: close_done_def l5_def)
  have ls: "leases l5 = leases l" by (simp add: l5_def l4_def l3_def l2_def l1_def)
  define l' where "l' = upd_lease x (\<lambda>ls. ls\<lparr>abortHook := None\<rparr>) l5"
  have c: "handedOff (leases l ! x) = False" "owns mh l x = True" using False by auto
  have run: "Abort mh x l = Ret (l', True, (case abortHook (leases l ! x) of None \<Rightarrow> [] | Some c \<Rightarrow> [RanHook c])
         @ map (\<lambda>c. RanResult c None False) (subscribers ?fl)
         @ map (\<lambda>c. RanExecution c False) (executionSubscribers ?fl))"
    by (simp only: Abort_def Let_def c if_False not_True_eq_False bind_outcome.simps s1 s2
        l2_def [symmetric] s3 [folded l3_def] l4_def [symmetric] s4 ls l'_def [symmetric])
  have fl': "flights l' = (flights l)[?f := fl']"
    using len fok by (simp add: l'_def l5_def l4_def l3_def l2_def l1_def fl'_def flight_ok_def)
  have pen: "pending_at mh l' = (pending_at mh l)(?k := None)" and rec: "receipt_at mh l' = receipt_at mh l"
    by (simp_all add: l'_def l5_def l4_def l3_def l2_def l1_def)
  have fr: "receipts l' = receipts l" "reservations l' = (reservations l)[r := ?rv]"
    "leases l' = (leases l)[x := (leases l ! x)\<lparr>abortHook := None\<rparr>]"
    "receiptCount l' = receiptCount l" "fairBudget l' = b'" "subscriberBudget l' = sb"
    "flightLimit l' = (flightLimit l)\<lparr>lim_used := lim_used (flightLimit l) - 1\<rparr>"
    "subscriberPerFlight l' = subscriberPerFlight l" "nextAdmissionSeq l' = nextAdmissionSeq l"
    "activeAdmissions l' = tr" "shards_of l' = shards_of (set_pending mh ?k None l)"
    by (simp_all add: l'_def l5_def l4_def l3_def l2_def l1_def)
  have res: "resolved fl'" by (simp add: resolved_def fl'_def)
  have "ledger_inv mh l'"
  proof (rule detach_inv [OF inv p r(1) pen fl' res fr(2)])
    show "shard_ok mh i (shards_of l' i) (receipts l')" for i
      using table_okD(1) [OF t, of i] shard_ok_pendings [OF table_okD(1) [OF t], OF refl]
      by (simp add: fr shards_set_pending)
    show "fair_accounts mh (fairBudget l') (owned mh l')" using acc' M by (simp add: fr owned_def pen rec)
    show "subscriber_accounts mh (subscriberBudget l') (charged mh l')"
    proof -
      have "charged mh l' = charged mh (set_pending mh ?k None l)"
        using flights_other [OF t p]
        by (intro charged_cong) (auto simp: pen fl' split: if_splits)
      with sub show ?thesis by (simp add: fr)
    qed
    show "map l_flight (leases l') = map l_flight (leases l)"
      by (simp add: fr map_update_same)
    show "receiptCount l' = int (card (dom (receipt_at mh l')))"
      using b by (simp add: fr rec budgets_ok_def)
    show "finite (dom (receipt_at mh l'))" using table_okD(3) [OF t] by (simp add: rec)
    show "holds l' (rc_reservation (receipts l' ! e)) ?k False" if "receipt_at mh l' ?k = Some e" for e
      using that table_okD(4) [OF t p] by (simp add: rec)
  qed (simp_all add: fr rec tr)
  moreover have "ended mh ?k ?f fl' l l'"
    using p res tr by (auto simp: ended_def pen fl' fr split: if_splits)
  ultimately show ?thesis
    using False rec fr(1,3) by (intro aborted [OF refl refl _ _ run, where fl' = fl']) (simp_all add: fl'_def)
qed

lemma push_receipt_frame [simp]:
  "flights (push_receipt mh rc l) = flights l" "reservations (push_receipt mh rc l) = reservations l"
  "leases (push_receipt mh rc l) = leases l" "fairBudget (push_receipt mh rc l) = fairBudget l"
  "flightLimit (push_receipt mh rc l) = flightLimit l"
  "subscriberBudget (push_receipt mh rc l) = subscriberBudget l"
  "subscriberPerFlight (push_receipt mh rc l) = subscriberPerFlight l"
  "nextAdmissionSeq (push_receipt mh rc l) = nextAdmissionSeq l"
  "activeAdmissions (push_receipt mh rc l) = activeAdmissions l"
  "receipts (push_receipt mh rc l) = receipts l @ [rc]"
  "receiptCount (push_receipt mh rc l) = receiptCount l + 1"
  "pending_at mh (push_receipt mh rc l) = pending_at mh l"
  "receipt_at mh (push_receipt mh rc l) = (receipt_at mh l)(rc_key rc \<mapsto> length (receipts l))"
  by (auto simp: push_receipt_def Let_def pending_at_def receipt_at_def fun_eq_iff)

lemma shard_ok_push:
  assumes t: "table_ok mh l" and k: "receipt_at mh l (rc_key rc) = None"
  shows "shard_ok mh i (shards_of (push_receipt mh rc l) i) (receipts l @ [rc])"
proof -
  have s: "shard_ok mh i (shards_of l i) (receipts l)" by (rule table_okD(1) [OF t])
  let ?n = "length (receipts l)"
  have old: "(receipts l @ [rc]) ! e = receipts l ! e" "e \<noteq> ?n" if "e \<in> set (order (shards_of l i))" for e
    using that s by (auto simp: shard_ok_def nth_append)
  have keys: "byKey (shards_of l i) k = Some e \<longleftrightarrow> e \<in> set (order (shards_of l i)) \<and> rc_key ((receipts l @ [rc]) ! e) = k"
    for k e using s old(1) unfolding shard_ok_def by metis
  show ?thesis
  proof (cases "i = shardIndex mh (rc_key rc)")
    case False
    then have "shards_of (push_receipt mh rc l) i = shards_of l i" by (simp add: push_receipt_def Let_def)
    then show ?thesis using s keys old(2) unfolding shard_ok_def by fastforce
  next
    case True
    have new: "shards_of (push_receipt mh rc l) i = (shards_of l i)\<lparr>order := order (shards_of l i) @ [?n],
        byKey := (byKey (shards_of l i))(rc_key rc \<mapsto> ?n)\<rparr>"
      using True by (simp add: push_receipt_def Let_def)
    have none: "rc_key ((receipts l @ [rc]) ! e) \<noteq> rc_key rc" if "e \<in> set (order (shards_of l i))" for e
      using keys [of "rc_key rc" e] k True that by (auto simp: receipt_at_def)
    have bk: "((byKey (shards_of l i))(rc_key rc \<mapsto> ?n)) k = Some e \<longleftrightarrow>
        e \<in> set (order (shards_of l i) @ [?n]) \<and> rc_key ((receipts l @ [rc]) ! e) = k" for k e
      using keys [of k e] none [of e] old(2) [of e] by (cases "e = ?n") auto
    have ix: "shardIndex mh k = i"
      if "((byKey (shards_of l i))(rc_key rc \<mapsto> ?n)) k \<noteq> None \<or> pendings (shards_of l i) k \<noteq> None" for k
    proof (cases "k = rc_key rc")
      case False
      then have "byKey (shards_of l i) k \<noteq> None \<or> pendings (shards_of l i) k \<noteq> None" using that by simp
      then show ?thesis using s unfolding shard_ok_def by blast
    qed (use True in simp)
    have "distinct (order (shards_of l i) @ [?n])" "\<forall>e\<in>set (order (shards_of l i) @ [?n]). e < length (receipts l @ [rc])"
      using s old(2) unfolding shard_ok_def by force+
    then show ?thesis unfolding shard_ok_def new using bk ix by simp
  qed
qed

lemma complete_flight_ok:
  assumes inv: "ledger_inv mh l" and p: "pending_at mh l k = Some f" and fl: "fl = flights l ! f"
    and rc: "rc_key rc = k" "rc_reservation rc = f_reservation fl"
  obtains l' fl' where
      "completeRPCResultFlightLocked mh k enc (push_receipt mh rc l)
        = Ret (l', subscribers fl, executionSubscribers fl, executionDone fl \<and> f_executionOK fl)"
      "ledger_inv mh l'" "ended mh k f fl' l l'"
      "f_encoded fl' = Some enc \<and> f_ok fl' \<and> f_identity fl' = f_identity fl
        \<and> (executionDone fl \<longrightarrow> f_executionOK fl' = f_executionOK fl)"
      "receipts l' = receipts l @ [rc]"
      "receipt_at mh l' = (receipt_at mh l)(k \<mapsto> length (receipts l))" "leases l' = leases l"
proof -
  let ?n = "int (length (subscribers fl) + length (executionSubscribers fl))"
  note t = ledger_invD(1) [OF inv] and b = ledger_invD(2) [OF inv]
  have fok: "flight_ok l k f" by (rule table_okD(5) [OF t p])
  have len: "f < length (flights l)" using fok by (simp add: flight_ok_def)
  have nr: "receipt_at mh l k = None" by (rule table_okD(4) [OF t p])
  obtain r M where r: "f_reservation fl = Some r" "r < length (reservations l)"
      "reservations l ! r = \<lparr>r_key = k, r_pending = True, r_released = False\<rparr>"
    and M: "M = image_mset (\<lambda>k. (k, True)) (mset_set (dom ((pending_at mh l)(k := None))))
       + image_mset (\<lambda>k. (k, False)) (mset_set (dom (receipt_at mh l)))"
    and acc: "fair_accounts mh (fairBudget l) (add_mset (k, True) M)"
    unfolding fl by (rule flight_reservation [OF inv p])
  let ?rv = "\<lparr>r_key = k, r_pending = False, r_released = False\<rparr>"
  from releasePending_accounts [OF acc, of "reservations l ! r"] r obtain b' where
    rel: "releasePending mh (fairBudget l) (reservations l ! r) = Ret (b', ?rv)"
    and acc': "fair_accounts mh b' (add_mset (k, False) M)" by auto
  define l0 where "l0 = push_receipt mh rc l"
  have fl0: "flights l0 ! f = fl" by (simp add: l0_def fl)
  define l1 where "l1 = upd_flight f (\<lambda>fl. fl\<lparr>f_reservation := None\<rparr>)
      ((set_pending mh k None l0)\<lparr>fairBudget := b', reservations := (reservations l)[r := ?rv]\<rparr>)"
  have s1: "transfer_flight_reservation mh f (set_pending mh k None l0) = Ret l1"
    using r rel fl0
    by (simp add: transfer_flight_reservation_def reservation_releasePending_def l1_def) (simp add: l0_def)
  define l2 where "l2 = upd_flight f (\<lambda>fl. fl\<lparr>f_encoded := Some enc, f_ok := True\<rparr>) l1"
  obtain tr where s2: "leave_flight_table f l2 = Ret (l2\<lparr>flightLimit :=
        (flightLimit l)\<lparr>lim_used := lim_used (flightLimit l) - 1\<rparr>, activeAdmissions := tr\<rparr>)"
    and tr: "sharded tr" "active tr = (if f_admissionSeq (flights l ! f) = 0 then active (activeAdmissions l)
       else active (activeAdmissions l) - {f_admissionSeq (flights l ! f)})"
    by (rule leave_flight_table_ok [OF inv p, of l2]) (use len in \<open>simp_all add: l2_def l1_def l0_def\<close>)
  define l3 where "l3 = upd_flight f (\<lambda>fl. fl\<lparr>subscribers := [], executionSubscribers := []\<rparr>)
      (l2\<lparr>flightLimit := (flightLimit l)\<lparr>lim_used := lim_used (flightLimit l) - 1\<rparr>, activeAdmissions := tr\<rparr>)"
  define l4 where "l4 = upd_flight f (\<lambda>fl. if \<not> executionDone fl
      then fl\<lparr>executionDone := True, f_executionOK := False\<rparr> else fl) l3"
  let ?g = "fl\<lparr>f_reservation := None, f_encoded := Some enc, f_ok := True, subscribers := [],
      executionSubscribers := []\<rparr>"
  define fl' where "fl' = (if executionDone fl then ?g
      else ?g\<lparr>executionDone := True, f_executionOK := False\<rparr>)\<lparr>subscriberSlots := 0, f_done := True\<rparr>"
  have ch: "charged mh l = charged mh (set_pending mh k None l) + replicate_mset (nat ?n) k"
    using charged_del [OF table_okD(2) [OF t] p, of "set_pending mh k None l"] fok fl
    by (simp add: flight_ok_def)
  have acc0: "subscriber_accounts mh (subscriberBudget l4)
      (charged mh (set_pending mh k None l) + replicate_mset (nat ?n) k)"
    using b ch by (simp add: budgets_ok_def l4_def l3_def l2_def l1_def l0_def)
  have sl: "?n \<le> subscriberSlots (flights l4 ! f)" and len4: "f < length (flights l4)"
    using fok len by (simp_all add: l4_def l3_def l2_def l1_def l0_def flight_ok_def fl)
  obtain sb where s3: "releaseFlightSubscriberSlotsLocked mh k f ?n l4
      = Ret ((upd_flight f (\<lambda>fl. fl\<lparr>subscriberSlots := subscriberSlots fl - ?n\<rparr>) l4)\<lparr>subscriberBudget := sb\<rparr>)"
    and sub: "subscriber_accounts mh sb (charged mh (set_pending mh k None l))"
    by (rule release_slots_ok [OF of_nat_0_le_iff sl len4 acc0])
  define l5 where "l5 = (upd_flight f (\<lambda>fl. fl\<lparr>subscriberSlots := subscriberSlots fl - ?n\<rparr>) l4)\<lparr>subscriberBudget := sb\<rparr>"
  define l' where "l' = upd_flight f (\<lambda>fl. fl\<lparr>f_done := True\<rparr>) l5"
  note defs = l'_def l5_def l4_def l3_def l2_def l1_def l0_def
  have "\<not> f_done (flights l5 ! f)" using fok by (simp add: defs flight_ok_def)
  then have s4: "close_done f l5 = Ret l'" by (simp add: close_done_def l'_def)
  have p0: "pending_at mh l0 k = Some f" using p by (simp add: l0_def)
  have ok: "(if \<not> executionDone fl then False else f_executionOK fl) = (executionDone fl \<and> f_executionOK fl)"
    by simp
  have run: "completeRPCResultFlightLocked mh k enc l0
      = Ret (l', subscribers fl, executionSubscribers fl, executionDone fl \<and> f_executionOK fl)"
    by (simp only: completeRPCResultFlightLocked_def Let_def p0 option.case fl0 bind_outcome.simps
        s1 l2_def [symmetric] s2 l3_def [symmetric] l4_def [symmetric] s3 [folded l5_def] s4 ok)
  have fl': "flights l' = (flights l)[f := fl']"
    using len fok by (simp add: defs fl'_def flight_ok_def fl)
  have pen: "pending_at mh l' = (pending_at mh l)(k := None)"
    and rec: "receipt_at mh l' = (receipt_at mh l)(k \<mapsto> length (receipts l))"
    using rc(1) by (simp_all add: defs)
  have fr: "receipts l' = receipts l @ [rc]" "reservations l' = (reservations l)[r := ?rv]"
    "leases l' = leases l" "receiptCount l' = receiptCount l + 1" "fairBudget l' = b'"
    "subscriberBudget l' = sb"
    "flightLimit l' = (flightLimit l)\<lparr>lim_used := lim_used (flightLimit l) - 1\<rparr>"
    "subscriberPerFlight l' = subscriberPerFlight l" "nextAdmissionSeq l' = nextAdmissionSeq l"
    "activeAdmissions l' = tr"
    "shards_of l' = shards_of (set_pending mh k None (push_receipt mh rc l))"
    by (simp_all add: defs)
  have res: "resolved fl'" by (simp add: resolved_def fl'_def)
  have fin: "finite (dom (receipt_at mh l))" by (rule table_okD(3) [OF t])
  have inv': "ledger_inv mh l'"
  proof (rule detach_inv [OF inv p _ pen fl' res fr(2)])
    show "f_reservation (flights l ! f) = Some r" using r(1) fl by simp
    have push: "shard_ok mh i (shards_of (push_receipt mh rc l) i) (receipts l @ [rc])" for i
      using shard_ok_push [OF t, of rc] nr rc(1) by simp
    show "shard_ok mh i (shards_of l' i) (receipts l')" for i
      using push [of i] shard_ok_pendings [OF push, OF refl] by (simp add: fr shards_set_pending)
    show "fair_accounts mh (fairBudget l') (owned mh l')"
      using acc' M mset_dom_put [OF fin nr] by (simp add: fr owned_def pen rec)
    show "subscriber_accounts mh (subscriberBudget l') (charged mh l')"
    proof -
      have "charged mh l' = charged mh (set_pending mh k None l)"
        using flights_other [OF t p]
        by (intro charged_cong) (auto simp: pen fl' split: if_splits)
      with sub show ?thesis by (simp add: fr)
    qed
    show "receiptCount l' = int (card (dom (receipt_at mh l')))"
      using b card_dom_put [OF fin nr] by (simp add: fr rec budgets_ok_def)
    show "finite (dom (receipt_at mh l'))" using fin by (simp add: rec)
    show "holds l' (rc_reservation (receipts l' ! e)) k False" if "receipt_at mh l' k = Some e" for e
    proof -
      have e: "e = length (receipts l)" using that by (simp add: rec)
      show ?thesis unfolding e using r rc(2) by (simp add: fr holds_def)
    qed
    show "receipt_at mh l k' = Some e \<and> receipts l' ! e = receipts l ! e"
      if "receipt_at mh l' k' = Some e" "k' \<noteq> k" for k' e
    proof -
      have "receipt_at mh l k' = Some e" using that by (simp add: rec)
      then have "e < length (receipts l)" using receipt_order [OF t] order_receipt(3) [OF t] by blast
      then show ?thesis using \<open>receipt_at mh l k' = Some e\<close> by (simp add: fr nth_append)
    qed
  qed (simp_all add: fr tr)
  have "ended mh k f fl' l l'"
    using p res tr by (auto simp: ended_def pen fl' fr split: if_splits)
  then show thesis
    using run inv' fr(1,3) rec by (intro that [of l' fl']) (simp_all add: l0_def fl'_def)
qed

lemma push_inv:
  assumes inv: "ledger_inv mh l" and k: "pending_at mh l k = None" "receipt_at mh l k = None"
    and b: "reserveCompleted mh (fairBudget l) k = Some (b, rv)"
    and rc: "rc_key rc = k" "rc_reservation rc = Some (length (reservations l))"
    and l': "l' = push_receipt mh rc (l\<lparr>fairBudget := b, reservations := reservations l @ [rv]\<rparr>)"
  shows "ledger_inv mh l'"
proof -
  note t = ledger_invD(1) [OF inv] and bk = ledger_invD(2) [OF inv] and a = ledger_invD(3) [OF inv]
  have rv: "rv = \<lparr>r_key = k, r_pending = False, r_released = False\<rparr>"
    and acc: "fair_accounts mh b (add_mset (k, False) (owned mh l))"
    using fair_reserve_accounts [of mh "fairBudget l" "owned mh l" k False b rv] b bk
    by (simp_all add: reserveCompleted_def budgets_ok_def)
  have at: "pending_at mh l' = pending_at mh l"
    "receipt_at mh l' = (receipt_at mh l)(k \<mapsto> length (receipts l))"
    by (simp_all add: l' rc)
  have fr: "flights l' = flights l" "leases l' = leases l" "receipts l' = receipts l @ [rc]"
    "reservations l' = reservations l @ [rv]" "fairBudget l' = b" "flightLimit l' = flightLimit l"
    "receiptCount l' = receiptCount l + 1" "subscriberBudget l' = subscriberBudget l"
    "subscriberPerFlight l' = subscriberPerFlight l" "nextAdmissionSeq l' = nextAdmissionSeq l"
    "activeAdmissions l' = activeAdmissions l"
    by (simp_all add: l')
  note hold = holds_append [OF _ fr(4)]
  have fin: "finite (dom (receipt_at mh l))" by (rule table_okD(3) [OF t])
  have "table_ok mh l'"
  proof (rule table_okI)
    have "shards_of l' = shards_of (push_receipt mh rc l)" by (simp add: l' push_receipt_def Let_def)
    then show "shard_ok mh i (shards_of l' i) (receipts l')" for i
      using shard_ok_push [OF t, of rc] k(2) rc(1) by (simp add: fr)
    show "receipt_at mh l' k' = None" if "pending_at mh l' k' = Some f" for k' f
      using that table_okD(4) [OF t, of k' f] k(1) by (auto simp: at)
    show "flight_ok l' k' f" if p: "pending_at mh l' k' = Some f" for k' f
      by (rule flight_ok_cong [OF table_okD(5) [OF t p [unfolded at(1)]]]) (simp_all add: fr hold)
    show "holds l' (rc_reservation (receipts l' ! e)) k' False" if e: "receipt_at mh l' k' = Some e" for k' e
    proof (cases "k' = k")
      case True
      then have e: "e = length (receipts l)" using e by (simp add: at)
      show ?thesis unfolding e using True rc(2) rv by (simp add: fr holds_def)
    next
      case False
      then have o: "receipt_at mh l k' = Some e" using e by (simp add: at)
      then have "e < length (receipts l)" using receipt_order [OF t] order_receipt(3) [OF t] by blast
      then show ?thesis using hold [OF table_okD(6) [OF t o]] by (simp add: fr nth_append)
    qed
  qed (use table_okD(2,3,7-9) [OF t] in \<open>simp_all add: at fr\<close>)
  moreover have "owned mh l' = add_mset (k, False) (owned mh l)"
    using mset_dom_put [OF fin k(2)] by (simp add: owned_def at)
  moreover have "charged mh l' = charged mh l" by (rule charged_cong) (simp_all add: at fr)
  ultimately show ?thesis
    using bk acc card_dom_put [OF fin k(2)] admissions_ok_cong [OF a at(1)]
    by (simp add: ledger_inv_def budgets_ok_def at fr)
qed

text \<open>The ways one publication attempt can end.\<close>

lemma completeOnce_ok:
  assumes inv: "ledger_inv mh l"
  obtains (known) l0 fin where "completeOnce mh now key enc replayable l = Ret (l0, fin, [])"
      "ledger_inv mh l0" "dropped mh (\<lambda>rc. expiresAt rc \<le> now) l l0" "pending_at mh l key = None"
  | (published) l0 l1 l' f fl fl' where "pending_at mh l key = Some f" "fl = flights l ! f"
      "completeOnce mh now key enc replayable l = Ret (l', True,
         map (\<lambda>c. RanResult c (Some enc) True) (subscribers fl)
         @ map (\<lambda>c. RanExecution c (executionDone fl \<and> f_executionOK fl)) (executionSubscribers fl))"
      "ledger_inv mh l0" "dropped mh (\<lambda>rc. expiresAt rc \<le> now) l l0"
      "ledger_inv mh l1" "ended mh key f fl' l0 l1" "leases l1 = leases l0"
      "f_encoded fl' = Some enc \<and> f_ok fl' \<and> f_identity fl' = f_identity fl
        \<and> (executionDone fl \<longrightarrow> f_executionOK fl' = f_executionOK fl)"
      "receipt_at mh l1 = (receipt_at mh l0)(key \<mapsto> length (receipts l0))"
      "receipts l1 = receipts l0 @ [\<lparr>rc_key = key, expiresAt = now + rpcExecutionReceiptTTL,
         rc_identity = f_identity fl, rc_admissionSeq = f_admissionSeq fl,
         executionKnown = executionDone fl, rc_executionOK = f_executionOK fl,
         rc_acknowledged = f_acknowledged fl, unavailable = \<not> replayable,
         rc_reservation = f_reservation fl\<rparr>]"
      "ledger_inv mh l'" "dropped mh (\<lambda>rc. f_acknowledged fl \<and> rc_key rc = key) l1 l'"
  | (defensive) l0 l' rc where "pending_at mh l key = None"
      "completeOnce mh now key enc replayable l = Ret (l', True, [])"
      "ledger_inv mh l0" "dropped mh (\<lambda>rc. expiresAt rc \<le> now) l l0" "receipt_at mh l0 key = None"
      "ledger_inv mh l'" "rc_key rc = key" "receipts l' = receipts l0 @ [rc]"
      "receipt_at mh l' = (receipt_at mh l0)(key \<mapsto> length (receipts l0))"
      "pending_at mh l' = pending_at mh l0" "flights l' = flights l0" "leases l' = leases l0"
      "nextAdmissionSeq l' = nextAdmissionSeq l0" "activeAdmissions l' = activeAdmissions l0"
proof -
  obtain l0 where ex: "expireLocked mh (shardIndex mh key) now l = Ret l0" and inv0: "ledger_inv mh l0"
    and dr: "dropped mh (\<lambda>rc. expiresAt rc \<le> now) l l0"
    by (rule expireLocked_ok [OF inv])
  have pl: "pending_at mh l key = pending_at mh l0 key" and fl: "flights l0 = flights l"
    using droppedD(4,5) [OF dr] by simp_all
  note t = ledger_invD(1) [OF inv0]
  show ?thesis
  proof (cases "pending_at mh l0 key")
    case (Some f)
    let ?fl = "flights l ! f"
    have nr: "receipt_at mh l0 key = None" by (rule table_okD(4) [OF t Some])
    obtain r where r: "f_reservation ?fl = Some r"
      using table_okD(5) [OF t Some] fl by (auto simp: flight_ok_def holds_def)
    let ?rc = "\<lparr>rc_key = key, expiresAt = now + rpcExecutionReceiptTTL,
         rc_identity = f_identity ?fl, rc_admissionSeq = f_admissionSeq ?fl,
         executionKnown = executionDone ?fl, rc_executionOK = f_executionOK ?fl,
         rc_acknowledged = f_acknowledged ?fl, unavailable = \<not> replayable,
         rc_reservation = f_reservation ?fl\<rparr>"
    obtain l1 fl' where l1: "completeRPCResultFlightLocked mh key enc (push_receipt mh ?rc l0)
        = Ret (l1, subscribers ?fl, executionSubscribers ?fl, executionDone ?fl \<and> f_executionOK ?fl)"
      "ledger_inv mh l1" "ended mh key f fl' l0 l1"
      "f_encoded fl' = Some enc \<and> f_ok fl' \<and> f_identity fl' = f_identity ?fl
        \<and> (executionDone ?fl \<longrightarrow> f_executionOK fl' = f_executionOK ?fl)"
      "receipts l1 = receipts l0 @ [?rc]"
      "receipt_at mh l1 = (receipt_at mh l0)(key \<mapsto> length (receipts l0))" "leases l1 = leases l0"
      by (rule complete_flight_ok [OF inv0 Some, of ?fl ?rc enc]) (simp_all add: fl)
    let ?ran = "map (\<lambda>c. RanResult c (Some enc) True) (subscribers ?fl)
         @ map (\<lambda>c. RanExecution c (executionDone ?fl \<and> f_executionOK ?fl)) (executionSubscribers ?fl)"
    have run: "completeOnce mh now key enc replayable l =
        bind_outcome (if f_acknowledged ?fl
            then removeElement mh (shardIndex mh key) (length (receipts l0)) l1 else Ret l1)
          (\<lambda>l. Ret (l, True, ?ran))"
      using Some nr r l1(1)
      by (simp add: completeOnce_def ex Let_def rpcResultFlightMetadataLocked_def
          completion_reservation_def unlink_replaced_def fl)
    show ?thesis
    proof (cases "f_acknowledged ?fl")
      case False
      then have run': "completeOnce mh now key enc replayable l = Ret (l1, True, ?ran)"
        using run by simp
      show ?thesis
        by (rule published [OF _ refl run' inv0 dr l1(2,3,7,4,6,5,2) dropped_refl])
          (simp add: pl Some)
    next
      case True
      let ?P = "\<lambda>rc. f_acknowledged ?fl \<and> rc_key rc = key"
      have at: "receipt_at mh l1 key = Some (length (receipts l0))" by (simp add: l1(6))
      have P: "?P (receipts l1 ! length (receipts l0))" using True by (simp add: l1(5))
      obtain l' where l': "removeElement mh (shardIndex mh key) (length (receipts l0)) l1 = Ret l'"
        "ledger_inv mh l'" "dropped mh ?P l1 l'"
        by (rule remove_at [OF l1(2) at, where P = ?P, OF P])
      have run': "completeOnce mh now key enc replayable l = Ret (l', True, ?ran)"
        using run True l'(1) by simp
      show ?thesis
        by (rule published [OF _ refl run' inv0 dr l1(2,3,7,4,6,5) l'(2,3)])
          (simp add: pl Some)
    qed
  next
    case None
    show ?thesis
    proof (cases "receipt_at mh l0 key")
      case (Some e)
      then have "completeOnce mh now key enc replayable l = Ret (l0, True, [])"
        using None by (simp add: completeOnce_def ex Let_def)
      then show ?thesis using inv0 dr by (rule known) (simp add: pl None)
    next
      case nr: None
      show ?thesis
      proof (cases "reserveCompleted mh (fairBudget l0) key")
        case none: None
        then have "completeOnce mh now key enc replayable l = Ret (l0, False, [])"
          using None nr by (simp add: completeOnce_def ex Let_def rpcResultFlightMetadataLocked_def
              completion_reservation_def)
        then show ?thesis using inv0 dr by (rule known) (simp add: pl None)
      next
        case (Some brv)
        obtain b rv where b: "brv = (b, rv)" by (cases brv)
        let ?rc = "\<lparr>rc_key = key, expiresAt = now + rpcExecutionReceiptTTL, rc_identity = zero_identity,
           rc_admissionSeq = 0, executionKnown = False, rc_executionOK = False,
           rc_acknowledged = False, unavailable = \<not> replayable,
           rc_reservation = Some (length (reservations l0))\<rparr>"
        define l' where "l' = push_receipt mh ?rc (l0\<lparr>fairBudget := b, reservations := reservations l0 @ [rv]\<rparr>)"
        have run: "completeOnce mh now key enc replayable l = Ret (l', True, [])"
          using None nr Some b
          by (simp add: completeOnce_def ex Let_def rpcResultFlightMetadataLocked_def
              completion_reservation_def unlink_replaced_def completeRPCResultFlightLocked_def l'_def)
        have "ledger_inv mh l'"
          by (rule push_inv [OF inv0 None nr Some [unfolded b] _ _ l'_def]) simp_all
        then show ?thesis
          by (intro defensive [OF _ run inv0 dr nr, of ?rc]) (simp_all add: pl None l'_def)
      qed
    qed
  qed
qed

end
