(* ===== verification/Rpc_Executions.thy ===== *)
theory Rpc_Executions
  imports Rpc_Ledger_Invariant
begin

text \<open>
  Runs of the RPC execution ledger. An operation of the list below is what the code does under one
  shard lock; a run interleaves any number of them, by any number of connections. The operations
  that take several locks in turn (\<open>acquire\<close>, \<open>Complete\<close>, \<open>expireReceipts\<close>, \<open>forgetSession\<close>) are
  shown to be such runs. The properties of the ledger are stated over runs from a new ledger.
\<close>

section \<open>Operations and runs\<close>

datatype rpc_op =
    OpAttempt rpc_key request_identity int
  | OpExpire nat int
  | OpForget nat auth_key_id int
  | OpComplete rpc_key encoded_message bool int
  | OpAcknowledge rpc_key int
  | OpObserve rpc_key int
  | OpReplay rpc_key int
  | OpProfile rpc_key int
  | OpSubscribe rpc_waiter "callback option" "callback option"
  | OpCompleteExecution ref bool
  | OpHandOff ref
  | OpAbort ref
  | OpSetHook ref "callback option"
  | OpInstallHook ref callback

datatype op_result =
    RAttempt attempt_result
  | RUnit
  | RBool bool
  | RDependency "rpc_dependency option"
  | RFrame "encoded_message option"
  | RProfile "int option"
  | RSubscribed "rpc_error option"

fun exec ::
  "maphash \<Rightarrow> replay_store \<Rightarrow> rpc_op \<Rightarrow> rpc_ledger
    \<Rightarrow> (rpc_ledger \<times> op_result \<times> fired list) outcome" where
  "exec mh replay (OpAttempt key identity now) l =
    bind_outcome (attempt mh replay now key identity l) (\<lambda>(l, r). Ret (l, RAttempt r, []))"
| "exec mh replay (OpExpire i now) l =
    bind_outcome (expireLocked mh i now l) (\<lambda>l. Ret (l, RUnit, []))"
| "exec mh replay (OpForget i a sid) l =
    bind_outcome (forget_shard mh i a sid l) (\<lambda>l. Ret (l, RUnit, []))"
| "exec mh replay (OpComplete key enc replayable now) l =
    bind_outcome (completeOnce mh now key enc replayable l) (\<lambda>(l, r, cbs). Ret (l, RBool r, cbs))"
| "exec mh replay (OpAcknowledge key now) l =
    bind_outcome (Acknowledge mh now key l) (\<lambda>(l, r). Ret (l, RBool r, []))"
| "exec mh replay (OpObserve key now) l =
    bind_outcome (ObserveDependency mh now key l) (\<lambda>(l, r). Ret (l, RDependency r, []))"
| "exec mh replay (OpReplay key now) l =
    bind_outcome (Replay mh replay now key l) (\<lambda>(l, r). Ret (l, RFrame r, []))"
| "exec mh replay (OpProfile key now) l =
    bind_outcome (ExactAdmissionProfile mh now key l) (\<lambda>(l, r). Ret (l, RProfile r, []))"
| "exec mh replay (OpSubscribe w rf ef) l =
    (let (l', r, cbs) = subscribe mh w rf ef l in Ret (l', RSubscribed r, cbs))"
| "exec mh replay (OpCompleteExecution x success) l =
    bind_outcome (CompleteExecution mh x success l) (\<lambda>(l, r, cbs). Ret (l, RBool r, cbs))"
| "exec mh replay (OpHandOff x) l = (let (l', r) = HandOff mh x l in Ret (l', RBool r, []))"
| "exec mh replay (OpAbort x) l =
    bind_outcome (Abort mh x l) (\<lambda>(l, r, cbs). Ret (l, RBool r, cbs))"
| "exec mh replay (OpSetHook x fn) l = Ret (SetAbortHook x fn l, RUnit, [])"
| "exec mh replay (OpInstallHook x fn) l =
    (let (l', r) = InstallAbortHook mh x fn l in Ret (l', RBool r, []))"

text \<open>Leases and waiters are handles that the ledger has given out.\<close>

fun op_ok :: "rpc_ledger \<Rightarrow> rpc_op \<Rightarrow> bool" where
  "op_ok l (OpSubscribe w rf ef) = (snd w < length (flights l))"
| "op_ok l (OpCompleteExecution x success) = (x < length (leases l))"
| "op_ok l (OpHandOff x) = (x < length (leases l))"
| "op_ok l (OpAbort x) = (x < length (leases l))"
| "op_ok l (OpSetHook x fn) = (x < length (leases l))"
| "op_ok l (OpInstallHook x fn) = (x < length (leases l))"
| "op_ok l _ = True"

type_synonym ledger_event = "rpc_op \<times> op_result \<times> fired list"

inductive ledger_run ::
  "maphash \<Rightarrow> replay_store \<Rightarrow> rpc_ledger \<Rightarrow> ledger_event list \<Rightarrow> rpc_ledger \<Rightarrow> bool"
  for mh replay l where
  run_nil: "ledger_run mh replay l [] l"
| run_snoc: "ledger_run mh replay l tr l1 \<Longrightarrow> op_ok l1 op \<Longrightarrow>
    exec mh replay op l1 = Ret (l2, r, cbs) \<Longrightarrow> ledger_run mh replay l (tr @ [(op, r, cbs)]) l2"

definition ledger_step :: "maphash \<Rightarrow> replay_store \<Rightarrow> rpc_ledger \<Rightarrow> rpc_ledger \<Rightarrow> bool" where
  "ledger_step mh replay l l' \<longleftrightarrow> (\<exists>op r cbs. op_ok l op \<and> exec mh replay op l = Ret (l', r, cbs))"

definition reachable :: "maphash \<Rightarrow> replay_store \<Rightarrow> ledger_capacity \<Rightarrow> rpc_ledger \<Rightarrow> bool" where
  "reachable mh replay c l \<longleftrightarrow> (\<exists>tr. ledger_run mh replay (newRPCExecutionLedger c) tr l)"

section \<open>What one operation does\<close>

fun result_runs :: "fired list \<Rightarrow> callback list" where
  "result_runs [] = []"
| "result_runs (RanResult c e ok # cbs) = c # result_runs cbs"
| "result_runs (_ # cbs) = result_runs cbs"

fun execution_runs :: "fired list \<Rightarrow> callback list" where
  "execution_runs [] = []"
| "execution_runs (RanExecution c ok # cbs) = c # execution_runs cbs"
| "execution_runs (_ # cbs) = execution_runs cbs"

fun accepted_results :: "rpc_op \<Rightarrow> op_result \<Rightarrow> callback list" where
  "accepted_results (OpSubscribe w rf ef) (RSubscribed None) = new_results rf"
| "accepted_results _ _ = []"

fun accepted_executions :: "rpc_op \<Rightarrow> op_result \<Rightarrow> callback list" where
  "accepted_executions (OpSubscribe w rf ef) (RSubscribed None) = new_results ef"
| "accepted_executions _ _ = []"

lemma runs_append [simp]:
  "result_runs (xs @ ys) = result_runs xs @ result_runs ys"
  "execution_runs (xs @ ys) = execution_runs xs @ execution_runs ys"
  by (induction xs rule: result_runs.induct; simp)
    (induction xs rule: execution_runs.induct; simp)

lemma runs_map [simp]:
  "result_runs (map (\<lambda>c. RanResult c e ok) cs) = cs"
  "result_runs (map (\<lambda>c. RanExecution c ok) cs) = []"
  "execution_runs (map (\<lambda>c. RanResult c e ok) cs) = []"
  "execution_runs (map (\<lambda>c. RanExecution c ok) cs) = cs"
  by (induction cs) simp_all

lemma runs_hook [simp]:
  "result_runs (case h of None \<Rightarrow> [] | Some c \<Rightarrow> [RanHook c]) = []"
  "execution_runs (case h of None \<Rightarrow> [] | Some c \<Rightarrow> [RanHook c]) = []"
  by (simp_all split: option.splits)

text \<open>
  How one operation changes the flights: not at all, one of them in place, by a new one, or by the
  end of one. Every operation is one of these.
\<close>

definition same_sequences :: "rpc_ledger \<Rightarrow> rpc_ledger \<Rightarrow> bool" where
  "same_sequences l l' \<longleftrightarrow> nextAdmissionSeq l' = nextAdmissionSeq l
     \<and> activeAdmissions l' = activeAdmissions l
     \<and> map l_flight (leases l') = map l_flight (leases l)
     \<and> map l_key (leases l') = map l_key (leases l)"

inductive effect ::
  "maphash \<Rightarrow> rpc_op \<Rightarrow> op_result \<Rightarrow> fired list \<Rightarrow> rpc_ledger \<Rightarrow> rpc_ledger \<Rightarrow> bool"
  for mh op r cbs l l' where
  same: "\<lbrakk>pending_at mh l' = pending_at mh l; flights l' = flights l; same_sequences l l';
    mset (result_runs cbs) = mset (accepted_results op r);
    mset (execution_runs cbs) = mset (accepted_executions op r);
    \<And>q x. r \<noteq> RAttempt (Answer (Inr (Owner q x)))\<rbrakk> \<Longrightarrow> effect mh op r cbs l l'"
| place: "\<lbrakk>pending_at mh l k = Some f; fl = flights l ! f; pending_at mh l' = pending_at mh l;
    flights l' = (flights l)[f := fl']; same_sequences l l';
    mset (subscribers fl') + mset (result_runs cbs)
      = mset (subscribers fl) + mset (accepted_results op r);
    mset (executionSubscribers fl') + mset (execution_runs cbs)
      = mset (executionSubscribers fl) + mset (accepted_executions op r);
    f_identity fl' = f_identity fl;
    executionDone fl \<longrightarrow> executionDone fl' \<and> f_executionOK fl' = f_executionOK fl;
    f_acknowledged fl' \<longrightarrow> f_acknowledged fl \<or> (\<exists>now. op = OpAcknowledge k now);
    \<And>q x. r \<noteq> RAttempt (Answer (Inr (Owner q x)))\<rbrakk> \<Longrightarrow> effect mh op r cbs l l'"
| install: "\<lbrakk>op = OpAttempt k identity now; r = RAttempt (Answer (Inr (Owner q (length (leases l)))));
    cbs = []; pending_at mh l k = None;
    pending_at mh l' = (pending_at mh l)(k \<mapsto> length (flights l));
    flights l' = flights l @ [new_flight identity q v];
    leases l' = leases l @ [\<lparr>l_key = k, l_flight = length (flights l), abortHook = None, handedOff = False\<rparr>];
    nextAdmissionSeq l' = (if q = 0 then nextAdmissionSeq l else q);
    q = 0 \<or> nextAdmissionSeq l < q\<rbrakk> \<Longrightarrow> effect mh op r cbs l l'"
| finish: "\<lbrakk>ended mh k f fl' l l'; fl = flights l ! f;
    mset (result_runs cbs) = mset (subscribers fl);
    mset (execution_runs cbs) = mset (executionSubscribers fl);
    accepted_results op r = []; accepted_executions op r = [];
    map l_flight (leases l') = map l_flight (leases l); map l_key (leases l') = map l_key (leases l);
    f_identity fl' = f_identity fl; executionDone fl \<longrightarrow> f_executionOK fl' = f_executionOK fl;
    (\<exists>x. op = OpAbort x \<and> l_key (leases l ! x) = k \<and> l_flight (leases l ! x) = f)
      \<or> (\<exists>enc replayable now. op = OpComplete k enc replayable now);
    \<And>q x. r \<noteq> RAttempt (Answer (Inr (Owner q x)))\<rbrakk> \<Longrightarrow> effect mh op r cbs l l'"

lemma dropped_same_sequences: "dropped mh P l l' \<Longrightarrow> same_sequences l l'"
  by (simp add: dropped_def same_sequences_def)

lemma effect_dropped:
  assumes "dropped mh P l l'" "accepted_results op r = []" "accepted_executions op r = []"
    "\<And>q x. r \<noteq> RAttempt (Answer (Inr (Owner q x)))"
  shows "effect mh op r [] l l'"
  by (rule effect.same)
    (use assms droppedD(4,5) [OF assms(1)] dropped_same_sequences [OF assms(1)] in simp_all)

text \<open>For which reason an operation may drop a receipt.\<close>

fun drop_reason :: "rpc_op \<Rightarrow> rpc_receipt \<Rightarrow> bool" where
  "drop_reason (OpAttempt key identity now) rc = (expiresAt rc \<le> now)"
| "drop_reason (OpExpire i now) rc = (expiresAt rc \<le> now)"
| "drop_reason (OpForget i a sid) rc = (session_of (rc_key rc) = (a, sid))"
| "drop_reason (OpComplete key enc replayable now) rc = (expiresAt rc \<le> now)"
| "drop_reason (OpAcknowledge key now) rc = (expiresAt rc \<le> now \<or> rc_key rc = key)"
| "drop_reason (OpObserve key now) rc = (expiresAt rc \<le> now)"
| "drop_reason (OpReplay key now) rc = (expiresAt rc \<le> now)"
| "drop_reason (OpProfile key now) rc = (expiresAt rc \<le> now)"
| "drop_reason _ rc = False"

lemma drop_reason_fun:
  "drop_reason (OpAttempt key identity now) = (\<lambda>rc. expiresAt rc \<le> now)"
  "drop_reason (OpExpire i now) = (\<lambda>rc. expiresAt rc \<le> now)"
  "drop_reason (OpForget i a sid) = (\<lambda>rc. session_of (rc_key rc) = (a, sid))"
  "drop_reason (OpComplete key enc replayable now) = (\<lambda>rc. expiresAt rc \<le> now)"
  "drop_reason (OpAcknowledge key now) = (\<lambda>rc. expiresAt rc \<le> now \<or> rc_key rc = key)"
  "drop_reason (OpObserve key now) = (\<lambda>rc. expiresAt rc \<le> now)"
  "drop_reason (OpReplay key now) = (\<lambda>rc. expiresAt rc \<le> now)"
  "drop_reason (OpProfile key now) = (\<lambda>rc. expiresAt rc \<le> now)"
  by (rule ext, simp)+

definition receipts_kept :: "maphash \<Rightarrow> (rpc_receipt \<Rightarrow> bool) \<Rightarrow> rpc_ledger \<Rightarrow> rpc_ledger \<Rightarrow> bool" where
  "receipts_kept mh P l l' \<longleftrightarrow> (\<forall>k e. receipt_at mh l k = Some e \<and> \<not> P (receipts l ! e) \<longrightarrow>
     receipt_at mh l' k = Some e \<and> receipts l' ! e = receipts l ! e)"

lemma receipts_keptD:
  "receipts_kept mh P l l' \<Longrightarrow> receipt_at mh l k = Some e \<Longrightarrow> \<not> P (receipts l ! e) \<Longrightarrow>
   receipt_at mh l' k = Some e \<and> receipts l' ! e = receipts l ! e"
  by (simp add: receipts_kept_def)

lemma receipts_keptI:
  "(\<And>k e. receipt_at mh l k = Some e \<Longrightarrow> \<not> P (receipts l ! e) \<Longrightarrow>
     receipt_at mh l' k = Some e \<and> receipts l' ! e = receipts l ! e) \<Longrightarrow> receipts_kept mh P l l'"
  unfolding receipts_kept_def by blast

lemma kept_dropped: "dropped mh P l l' \<Longrightarrow> receipts_kept mh P l l'"
  by (rule receipts_keptI) (rule droppedD(2))

lemma kept_same: "receipt_at mh l' = receipt_at mh l \<Longrightarrow> receipts l' = receipts l \<Longrightarrow> receipts_kept mh P l l'"
  by (simp add: receipts_kept_def)

lemma kept_grown:
  assumes d: "dropped mh P l l0" and inv: "ledger_inv mh l0"
    and k: "receipt_at mh l0 k = None" "receipt_at mh l' = (receipt_at mh l0)(k \<mapsto> length (receipts l0))"
    and rc: "receipts l' = receipts l0 @ [rc]"
  shows "receipts_kept mh P l l'"
proof (rule receipts_keptI)
  fix k' e assume "receipt_at mh l k' = Some e" "\<not> P (receipts l ! e)"
  from droppedD(2) [OF d this] have e: "receipt_at mh l0 k' = Some e" "receipts l0 ! e = receipts l ! e"
    by simp_all
  note t = ledger_invD(1) [OF inv]
  have "e < length (receipts l0)" using e(1) receipt_order [OF t] order_receipt(3) [OF t] by blast
  moreover have "k' \<noteq> k" using e(1) k(1) by auto
  ultimately show "receipt_at mh l' k' = Some e \<and> receipts l' ! e = receipts l ! e"
    using e by (simp add: k(2) rc nth_append)
qed

text \<open>One operation from a good state: it returns, the state is good again, and its effect.\<close>

definition good_exec :: "maphash \<Rightarrow> replay_store \<Rightarrow> rpc_op \<Rightarrow> rpc_ledger \<Rightarrow> bool" where
  "good_exec mh replay op l \<longleftrightarrow> (\<exists>l' r cbs. exec mh replay op l = Ret (l', r, cbs) \<and> ledger_inv mh l'
     \<and> effect mh op r cbs l l' \<and> receipts_kept mh (drop_reason op) l l')"

lemma good_execI:
  "exec mh replay op l = Ret (l', r, cbs) \<Longrightarrow> ledger_inv mh l' \<Longrightarrow> effect mh op r cbs l l' \<Longrightarrow>
   receipts_kept mh (drop_reason op) l l' \<Longrightarrow> good_exec mh replay op l"
  by (auto simp: good_exec_def)

lemma good_dropped:
  assumes "exec mh replay op l = Ret (l', r, [])" "ledger_inv mh l'" "dropped mh P l l'"
    "accepted_results op r = []" "accepted_executions op r = []"
    "\<And>q x. r \<noteq> RAttempt (Answer (Inr (Owner q x)))" "P = drop_reason op"
  shows "good_exec mh replay op l"
  by (rule good_execI [OF assms(1,2) effect_dropped [OF assms(3-6)]])
    (use kept_dropped [OF assms(3)] assms(7) in simp)

lemma dropped_ended:
  assumes "dropped mh P l l0" "ended mh k f fl' l0 l1" "dropped mh Q l1 l'"
  shows "ended mh k f fl' l l'"
  using assms(2) droppedD(4,5,7,8) [OF assms(1)] droppedD(4,5,7,8) [OF assms(3)]
  by (simp add: ended_def)

lemma good_attempt:
  assumes inv: "ledger_inv mh l" shows "good_exec mh replay (OpAttempt key identity now) l"
proof -
  obtain l0 l' res where run: "attempt mh replay now key identity l = Ret (l', res)"
    and inv': "ledger_inv mh l'" and inv0: "ledger_inv mh l0"
    and d: "dropped mh (\<lambda>rc. expiresAt rc \<le> now) l l0"
    and c: "dropped mh (\<lambda>_. False) l0 l' \<and> no_owner res
     \<or> (\<exists>q. res = Answer (Inr (Owner q (length (leases l)))) \<and> installed mh key identity q l0 l')"
    by (rule attempt_ok [OF inv])
  have ex: "exec mh replay (OpAttempt key identity now) l = Ret (l', RAttempt res, [])"
    using run by simp
  from c show ?thesis
  proof (elim disjE exE conjE)
    assume d': "dropped mh (\<lambda>_. False) l0 l'" and no: "no_owner res"
    have "dropped mh (\<lambda>rc. expiresAt rc \<le> now) l l'"
      by (rule dropped_trans [OF d dropped_mono [OF d']]) simp
    then show ?thesis
      by (rule good_dropped [OF ex inv']) (use no in \<open>simp_all add: no_owner_def drop_reason_fun\<close>)
  next
    fix q assume res: "res = Answer (Inr (Owner q (length (leases l))))"
      and i: "installed mh key identity q l0 l'"
    note dd = droppedD(4-8) [OF d]
    have q: "q = 0 \<or> nextAdmissionSeq l < q"
      using i word_succ_greater [of "nextAdmissionSeq l"] by (auto simp: installed_def dd)
    have "effect mh (OpAttempt key identity now) (RAttempt res) [] l l'"
      by (rule effect.install [OF refl _ refl]) (use i res q in \<open>simp_all add: installed_def dd\<close>)
    moreover have "receipts_kept mh (\<lambda>rc. expiresAt rc \<le> now) l l'"
    proof (rule receipts_keptI)
      fix k e assume "receipt_at mh l k = Some e" "\<not> expiresAt (receipts l ! e) \<le> now"
      from droppedD(2) [OF d this] i
      show "receipt_at mh l' k = Some e \<and> receipts l' ! e = receipts l ! e"
        by (simp add: installed_def)
    qed
    then have "receipts_kept mh (drop_reason (OpAttempt key identity now)) l l'"
      by (simp add: drop_reason_fun)
    ultimately show ?thesis by (rule good_execI [OF ex inv'])
  qed
qed

lemma good_complete:
  assumes inv: "ledger_inv mh l" shows "good_exec mh replay (OpComplete key enc replayable now) l"
  using inv
proof (cases rule: completeOnce_ok [of mh l now key enc replayable])
  case (known l0 fin)
  show ?thesis
    by (rule good_dropped [OF _ known(2,3), where r = "RBool fin"])
      (simp_all add: known(1) drop_reason_fun)
next
  case (published l0 l1 l' f fl fl')
  let ?op = "OpComplete key enc replayable now"
  have fl0: "flights l0 = flights l" by (rule droppedD(5) [OF published(5)])
  have nr: "receipt_at mh l0 key = None"
    using table_okD(4) [OF ledger_invD(1) [OF published(4)]] published(7) by (simp add: ended_def)
  have "effect mh ?op (RBool True) (map (\<lambda>c. RanResult c (Some enc) True) (subscribers fl)
       @ map (\<lambda>c. RanExecution c (executionDone fl \<and> f_executionOK fl)) (executionSubscribers fl)) l l'"
    by (rule effect.finish [OF dropped_ended [OF published(5,7,13)] published(2)])
      (use published(8,9) droppedD(6) [OF published(5)] droppedD(6) [OF published(13)] in simp_all)
  moreover have "receipts_kept mh (\<lambda>rc. expiresAt rc \<le> now) l l'"
  proof (rule receipts_keptI)
    fix k e assume k: "receipt_at mh l k = Some e" "\<not> expiresAt (receipts l ! e) \<le> now"
    have grown: "receipts_kept mh (\<lambda>rc. expiresAt rc \<le> now) l l1"
      by (rule kept_grown [OF published(5,4) nr published(10,11)])
    from receipts_keptD [OF grown k]
    have k1: "receipt_at mh l1 k = Some e" "receipts l1 ! e = receipts l ! e" by simp_all
    have "k \<noteq> key"
      using droppedD(2) [OF published(5) k] nr by auto
    moreover have "rc_key (receipts l1 ! e) = k"
      using receipt_order [OF ledger_invD(1) [OF published(6)]] k1(1) by blast
    ultimately show "receipt_at mh l' k = Some e \<and> receipts l' ! e = receipts l ! e"
      using droppedD(2) [OF published(13) k1(1)] k1(2) by simp
  qed
  then have "receipts_kept mh (drop_reason ?op) l l'" by (simp add: drop_reason_fun)
  ultimately show ?thesis
    by (intro good_execI [OF _ published(12)]) (simp_all add: published(3))
next
  case (defensive l0 l' rc)
  let ?op = "OpComplete key enc replayable now"
  note dd = droppedD(4-8) [OF defensive(4)]
  have "effect mh ?op (RBool True) [] l l'"
    by (rule effect.same) (use defensive(10-14) in \<open>simp_all add: dd same_sequences_def\<close>)
  moreover have "receipts_kept mh (\<lambda>rc. expiresAt rc \<le> now) l l'"
    by (rule kept_grown [OF defensive(4,3,5,9,8)])
  then have "receipts_kept mh (drop_reason ?op) l l'" by (simp add: drop_reason_fun)
  ultimately show ?thesis
    by (intro good_execI [OF _ defensive(6)]) (simp_all add: defensive(2))
qed

lemma good_acknowledge:
  assumes inv: "ledger_inv mh l" shows "good_exec mh replay (OpAcknowledge key now) l"
  using inv
proof (cases rule: Acknowledge_ok [of mh l now key])
  case (removed l' r)
  show ?thesis
    by (rule good_dropped [OF _ removed(2,3), where r = "RBool r"])
      (simp_all add: removed(1) drop_reason_fun)
next
  case (marked l0 f)
  let ?l = "upd_flight f (\<lambda>fl. fl\<lparr>f_acknowledged := True\<rparr>) l0"
  note dd = droppedD(4-8) [OF marked(4)]
  have "effect mh (OpAcknowledge key now) (RBool True) [] l ?l"
    by (rule effect.place [OF marked(5) [unfolded dd] refl, where fl' = "(flights l ! f)\<lparr>f_acknowledged := True\<rparr>"])
      (simp_all add: dd same_sequences_def)
  moreover have "receipts_kept mh (drop_reason (OpAcknowledge key now)) l ?l"
  proof (rule receipts_keptI)
    fix k e assume k: "receipt_at mh l k = Some e" and "\<not> drop_reason (OpAcknowledge key now) (receipts l ! e)"
    then have "\<not> expiresAt (receipts l ! e) \<le> now" by simp
    from droppedD(2) [OF marked(4) k this]
    show "receipt_at mh ?l k = Some e \<and> receipts ?l ! e = receipts l ! e" by simp
  qed
  ultimately show ?thesis by (intro good_execI [OF _ marked(2)]) (simp_all add: marked(1))
qed

lemma good_lookups:
  assumes inv: "ledger_inv mh l"
  shows "good_exec mh replay (OpObserve key now) l" "good_exec mh replay (OpReplay key now) l"
    "good_exec mh replay (OpProfile key now) l"
proof -
  obtain l1 r1 where o: "ObserveDependency mh now key l = Ret (l1, r1)" "ledger_inv mh l1"
    "dropped mh (\<lambda>rc. expiresAt rc \<le> now) l l1" using lookups_ok(3) [OF inv] by blast
  show "good_exec mh replay (OpObserve key now) l"
    by (rule good_dropped [OF _ o(2,3), where r = "RDependency r1"]) (simp_all add: o(1) drop_reason_fun)
  obtain l2 r2 where p: "Replay mh replay now key l = Ret (l2, r2)" "ledger_inv mh l2"
    "dropped mh (\<lambda>rc. expiresAt rc \<le> now) l l2" using lookups_ok(2) [OF inv] by blast
  show "good_exec mh replay (OpReplay key now) l"
    by (rule good_dropped [OF _ p(2,3), where r = "RFrame r2"]) (simp_all add: p(1) drop_reason_fun)
  obtain l3 r3 where q: "ExactAdmissionProfile mh now key l = Ret (l3, r3)" "ledger_inv mh l3"
    "dropped mh (\<lambda>rc. expiresAt rc \<le> now) l l3" using lookups_ok(1) [OF inv] by blast
  show "good_exec mh replay (OpProfile key now) l"
    by (rule good_dropped [OF _ q(2,3), where r = "RProfile r3"]) (simp_all add: q(1) drop_reason_fun)
qed

lemma good_sweeps:
  assumes inv: "ledger_inv mh l"
  shows "good_exec mh replay (OpExpire i now) l" "good_exec mh replay (OpForget i a sid) l"
proof -
  obtain l1 where e: "expireLocked mh i now l = Ret l1" "ledger_inv mh l1"
    "dropped mh (\<lambda>rc. expiresAt rc \<le> now) l l1" by (rule expireLocked_ok [OF inv])
  show "good_exec mh replay (OpExpire i now) l"
    by (rule good_dropped [OF _ e(2,3), where r = RUnit]) (simp_all add: e(1) drop_reason_fun)
  obtain l2 where f: "forget_shard mh i a sid l = Ret l2" "ledger_inv mh l2"
    "dropped mh (\<lambda>rc. session_of (rc_key rc) = (a, sid)) l l2" by (rule forget_shard_ok [OF inv])
  show "good_exec mh replay (OpForget i a sid) l"
    by (rule good_dropped [OF _ f(2,3), where r = RUnit]) (simp_all add: f(1) drop_reason_fun)
qed

lemma good_subscribe:
  assumes inv: "ledger_inv mh l" and w: "snd w < length (flights l)"
  shows "good_exec mh replay (OpSubscribe w rf ef) l"
  using inv w
proof (cases rule: subscribe_ok [of mh l w rf ef])
  case (refused err)
  show ?thesis
    by (rule good_dropped [OF _ inv dropped_refl, where r = "RSubscribed (Some err)"])
      (simp_all add: refused)
next
  case (late fl)
  let ?cbs = "map (\<lambda>c. RanExecution c (f_executionOK fl)) (new_results ef)
        @ map (\<lambda>c. RanResult c (f_encoded fl) (f_ok fl)) (new_results rf)"
  have "effect mh (OpSubscribe w rf ef) (RSubscribed None) ?cbs l l"
    by (rule effect.same) (simp_all add: same_sequences_def)
  then show ?thesis
    by (intro good_execI [OF _ inv _ kept_same [OF refl refl]]) (simp_all add: late(2))
next
  case (joined l' fl fl')
  let ?cbs = "if executionDone fl
         then map (\<lambda>c. RanExecution c (f_executionOK fl)) (new_results ef) else []"
  have "effect mh (OpSubscribe w rf ef) (RSubscribed None) ?cbs l l'"
    by (rule effect.place [OF joined(1,2,7,5)])
      (simp_all add: same_sequences_def joined(6,10-12) retain_simps, simp add: retain_def)
  then show ?thesis
    by (intro good_execI [OF _ joined(4) _ kept_same [OF joined(8,9)]]) (simp_all add: joined(3))
qed

lemma good_completeExecution:
  assumes inv: "ledger_inv mh l" shows "good_exec mh replay (OpCompleteExecution x success) l"
  using inv
proof (cases rule: CompleteExecution_ok [of mh l x success])
  case refused
  show ?thesis
    by (rule good_dropped [OF _ inv dropped_refl, where r = "RBool False"]) (simp_all add: refused)
next
  case (published l' f fl)
  have p: "pending_at mh l (l_key (leases l ! x)) = Some f"
    using published(1,3) by (simp add: owns_def)
  have "effect mh (OpCompleteExecution x success) (RBool True)
      (map (\<lambda>c. RanExecution c success) (executionSubscribers fl)) l l'"
    by (rule effect.place [OF p published(2,8,7)])
      (simp_all add: same_sequences_def published(4,11-13))
  then show ?thesis
    by (intro good_execI [OF _ published(6) _ kept_same [OF published(9,10)]])
      (simp_all add: published(5))
qed

lemma good_abort:
  assumes inv: "ledger_inv mh l" shows "good_exec mh replay (OpAbort x) l"
  using inv
proof (cases rule: Abort_ok [of mh l x])
  case refused
  show ?thesis
    by (rule good_dropped [OF _ inv dropped_refl, where r = "RBool False"]) (simp_all add: refused)
next
  case (aborted l' f fl fl')
  let ?cbs = "(case abortHook (leases l ! x) of None \<Rightarrow> [] | Some c \<Rightarrow> [RanHook c])
         @ map (\<lambda>c. RanResult c None False) (subscribers fl)
         @ map (\<lambda>c. RanExecution c False) (executionSubscribers fl)"
  have "effect mh (OpAbort x) (RBool True) ?cbs l l'"
    by (rule effect.finish [OF aborted(7,2)]) (use aborted(1,8) in \<open>simp_all add: aborted(11) map_update_same\<close>)
  then show ?thesis
    by (intro good_execI [OF _ aborted(6) _ kept_same [OF aborted(9,10)]]) (simp_all add: aborted(5))
qed

text \<open>Hooks and hand-off touch only the lease.\<close>

lemma upd_lease_inv:
  assumes inv: "ledger_inv mh l" and g: "\<And>ls. l_flight (g ls) = l_flight ls"
  shows "ledger_inv mh (upd_lease x g l)"
proof -
  let ?l = "upd_lease x g l"
  note t = ledger_invD(1) [OF inv] and b = ledger_invD(2) [OF inv] and a = ledger_invD(3) [OF inv]
  have h: "holds ?l ro k p = holds l ro k p" for ro k p by (rule holds_cong) simp
  have "table_ok mh ?l"
  proof (rule table_okI)
    show "flight_ok ?l k f" if "pending_at mh ?l k = Some f" for k f
      using that table_okD(5) [OF t, of k f] by (simp add: flight_ok_def h)
    show "l_flight (leases ?l ! y) < length (flights ?l)" if "y < length (leases ?l)" for y
      using that table_okD(8) [OF t, of y] g by (cases "y = x") simp_all
  qed (use table_okD [OF t] in \<open>simp_all add: h\<close>)
  moreover have "owned mh ?l = owned mh l" by (simp add: owned_def)
  moreover have "charged mh ?l = charged mh l" by (rule charged_cong) simp_all
  ultimately show ?thesis
    using b admissions_ok_cong [OF a, of ?l] by (simp add: ledger_inv_def budgets_ok_def)
qed

lemma good_lease:
  assumes inv: "ledger_inv mh l" and ex: "exec mh replay op l = Ret (upd_lease x g l, r, [])"
    and g: "\<And>ls. l_flight (g ls) = l_flight ls" "\<And>ls. l_key (g ls) = l_key ls"
    and n: "accepted_results op r = []" "accepted_executions op r = []"
      "\<And>q x. r \<noteq> RAttempt (Answer (Inr (Owner q x)))"
  shows "good_exec mh replay op l"
proof (rule good_execI [OF ex upd_lease_inv [OF inv g(1)]])
  have "same_sequences l (upd_lease x g l)" using g by (simp add: same_sequences_def map_update_same)
  then show "effect mh op r [] l (upd_lease x g l)"
    by (intro effect.same) (use n in simp_all)
  show "receipts_kept mh (drop_reason op) l (upd_lease x g l)" by (rule kept_same) simp_all
qed

lemma good_leases:
  assumes inv: "ledger_inv mh l"
  shows "good_exec mh replay (OpSetHook x fn) l" "good_exec mh replay (OpHandOff x) l"
    "good_exec mh replay (OpInstallHook x c) l"
proof -
  show "good_exec mh replay (OpSetHook x fn) l"
    by (rule good_lease [OF inv, where g = "\<lambda>ls. ls\<lparr>abortHook := fn\<rparr>" and r = RUnit])
      (simp_all add: SetAbortHook_def)
  show "good_exec mh replay (OpHandOff x) l"
  proof (cases "owns mh l x")
    case True
    then show ?thesis
      by (intro good_lease [OF inv, where g = "\<lambda>ls. ls\<lparr>handedOff := True\<rparr>" and r = "RBool True"])
        (simp_all add: HandOff_def)
  next
    case False
    then show ?thesis
      by (intro good_dropped [OF _ inv dropped_refl, where r = "RBool False"]) (simp_all add: HandOff_def)
  qed
  show "good_exec mh replay (OpInstallHook x c) l"
  proof (cases "owns mh l x")
    case True
    then show ?thesis
      by (intro good_lease [OF inv, where g = "\<lambda>ls. ls\<lparr>abortHook := Some c\<rparr>" and r = "RBool True"])
        (simp_all add: InstallAbortHook_def)
  next
    case False
    then show ?thesis
      by (intro good_dropped [OF _ inv dropped_refl, where r = "RBool False"])
        (simp_all add: InstallAbortHook_def)
  qed
qed

lemma exec_good: "ledger_inv mh l \<Longrightarrow> op_ok l op \<Longrightarrow> good_exec mh replay op l"
  by (cases op) (simp_all add: good_attempt good_sweeps good_complete good_acknowledge good_lookups
      good_subscribe good_completeExecution good_leases good_abort)

lemma exec_goodD:
  assumes "ledger_inv mh l" "op_ok l op" "exec mh replay op l = Ret (l', r, cbs)"
  shows "ledger_inv mh l'" "effect mh op r cbs l l'" "receipts_kept mh (drop_reason op) l l'"
  using exec_good [OF assms(1,2), of replay] assms(3) by (auto simp: good_exec_def)

section \<open>Runs keep the invariant\<close>

lemma new_ledger_inv: "ledger_inv mh (newRPCExecutionLedger c)"
proof -
  let ?l = "newRPCExecutionLedger c"
  have at: "pending_at mh ?l = Map.empty" "receipt_at mh ?l = Map.empty"
    by (simp_all add: newRPCExecutionLedger_def pending_at_def receipt_at_def Let_def fun_eq_iff)
  have pos: "0 < default_if_not_positive n d" if "0 < d" for n d
    using that by (simp add: default_if_not_positive_def)
  have "table_ok mh ?l"
    by (rule table_okI)
      (simp_all add: at, simp_all add: newRPCExecutionLedger_def Let_def shard_ok_def pos)
  moreover have "fair_accounts mh (fairBudget ?l) (owned mh ?l)"
    by (simp add: owned_def at)
      (simp add: newRPCExecutionLedger_def Let_def fair_accounts_def fair_within_def pos
        newRPCExecutionFairBudget_def usage_entry_def less_imp_le)
  moreover have "subscriber_accounts mh (subscriberBudget ?l) (charged mh ?l)"
    by (simp add: charged_def at)
      (simp add: newRPCExecutionLedger_def Let_def subscriber_accounts_def subscriber_within_def pos
        newRPCResultSubscriberBudget_def count_entry_def less_imp_le)
  moreover have "limit_accounts (flightLimit ?l) (replicate_mset (card (dom (pending_at mh ?l))) ())"
    by (simp add: at) (simp add: newRPCExecutionLedger_def Let_def limit_accounts_def pos less_imp_le)
  moreover have "admissions_ok mh ?l"
    by (rule admissions_okI)
      (simp_all add: at, simp_all add: newRPCExecutionLedger_def Let_def sharded_def active_def)
  ultimately show ?thesis
    by (simp add: ledger_inv_def budgets_ok_def at) (simp add: newRPCExecutionLedger_def Let_def)
qed

text \<open>
  Flights only move forward: their identity never changes, a handler's outcome is fixed once it is
  published, and a finished flight never changes at all.
\<close>

definition flight_le :: "rpc_flight \<Rightarrow> rpc_flight \<Rightarrow> bool" where
  "flight_le fl fl' \<longleftrightarrow> f_identity fl' = f_identity fl
     \<and> (executionDone fl \<longrightarrow> executionDone fl' \<and> f_executionOK fl' = f_executionOK fl)
     \<and> (f_done fl \<longrightarrow> fl' = fl)"

definition flights_le :: "rpc_ledger \<Rightarrow> rpc_ledger \<Rightarrow> bool" where
  "flights_le l l' \<longleftrightarrow> length (flights l) \<le> length (flights l')
     \<and> (\<forall>f<length (flights l). flight_le (flights l ! f) (flights l' ! f))"

lemma flight_le_refl [simp]: "flight_le fl fl"
  by (simp add: flight_le_def)

lemma flight_le_trans: "flight_le a b \<Longrightarrow> flight_le b c \<Longrightarrow> flight_le a c"
  by (auto simp: flight_le_def)

lemma flights_le_trans: "flights_le a b \<Longrightarrow> flights_le b c \<Longrightarrow> flights_le a c"
  unfolding flights_le_def by (meson flight_le_trans order_less_le_trans order_trans)

lemma flights_le_upd:
  "flights l' = (flights l)[f := fl'] \<Longrightarrow> flight_le (flights l ! f) fl' \<Longrightarrow> flights_le l l'"
  unfolding flights_le_def by (metis flight_le_refl length_list_update nth_list_update_eq nth_list_update_neq order_refl)

lemma step_flights_le:
  assumes inv: "ledger_inv mh l" and ok: "op_ok l op" and ex: "exec mh replay op l = Ret (l', r, cbs)"
  shows "flights_le l l'"
  using exec_goodD(2) [OF assms]
proof cases
  case (place k f fl fl')
  have "\<not> f_done fl"
    using table_okD(5) [OF ledger_invD(1) [OF inv] place(1)] place(2) by (simp add: flight_ok_def)
  then show ?thesis
    using place(2,8,9) by (intro flights_le_upd [OF place(4)]) (auto simp: flight_le_def)
next
  case (finish k f fl' fl)
  have p: "pending_at mh l k = Some f" and fl': "flights l' = (flights l)[f := fl']" "resolved fl'"
    using finish(1) by (simp_all add: ended_def)
  have "\<not> f_done fl"
    using table_okD(5) [OF ledger_invD(1) [OF inv] p] finish(2) by (simp add: flight_ok_def)
  then show ?thesis
    using finish(2,9,10) fl'(2) by (intro flights_le_upd [OF fl'(1)]) (auto simp: flight_le_def resolved_def)
next
  case (install k identity now q v)
  then show ?thesis by (simp add: flights_le_def nth_append)
qed (simp add: flights_le_def)

interpretation ledger: monotone_system "ledger_step mh replay" "ledger_inv mh" flights_le
  for mh replay
proof unfold_locales
  fix l l' assume "ledger_inv mh l" "ledger_step mh replay l l'"
  then show "ledger_inv mh l'" "flights_le l l'"
    unfolding ledger_step_def using exec_goodD(1) step_flights_le by blast+
qed (simp add: flights_le_def, rule flights_le_trans)

lemma run_steps: "ledger_run mh replay l tr l' \<Longrightarrow> (ledger_step mh replay)\<^sup>*\<^sup>* l l'"
proof (induction rule: ledger_run.induct)
  case (run_snoc tr l1 op l2 r cbs)
  then have "ledger_step mh replay l1 l2" unfolding ledger_step_def by blast
  with run_snoc.IH show ?case by simp
qed simp

lemma ledger_run_inv: "ledger_run mh replay l tr l' \<Longrightarrow> ledger_inv mh l \<Longrightarrow> ledger_inv mh l'"
  by (rule ledger.run_inv [OF run_steps])

lemma reachable_inv: "reachable mh replay c l \<Longrightarrow> ledger_inv mh l"
  unfolding reachable_def using ledger_run_inv new_ledger_inv by blast

lemma run_append:
  assumes "ledger_run mh replay l tr l1" "ledger_run mh replay l1 tr' l2"
  shows "ledger_run mh replay l (tr @ tr') l2"
  using assms(2,1)
proof (induction rule: ledger_run.induct)
  case (run_snoc tr' l2 op l3 r cbs)
  then have "ledger_run mh replay l ((tr @ tr') @ [(op, r, cbs)]) l3"
    by (intro ledger_run.run_snoc) auto
  then show ?case by simp
qed simp

lemma run_single:
  "op_ok l op \<Longrightarrow> exec mh replay op l = Ret (l', r, cbs) \<Longrightarrow> ledger_run mh replay l [(op, r, cbs)] l'"
  using ledger_run.run_snoc [OF ledger_run.run_nil] by fastforce

section \<open>Callbacks\<close>

definition retained_results :: "rpc_ledger \<Rightarrow> callback multiset" where
  "retained_results l = mset (concat (map subscribers (flights l)))"

definition retained_executions :: "rpc_ledger \<Rightarrow> callback multiset" where
  "retained_executions l = mset (concat (map executionSubscribers (flights l)))"

lemma mset_concat_update:
  "f < length xs \<Longrightarrow>
   mset (concat (map g (xs[f := y]))) + mset (g (xs ! f)) = mset (concat (map g xs)) + mset (g y)"
proof (induction xs arbitrary: f)
  case (Cons x xs)
  then show ?case by (cases f) (auto simp: ac_simps)
qed simp

lemma mset_balance:
  assumes "A' + g = A + g'" "g' + R = g + (C :: 'a multiset)" shows "A' + R = A + C"
proof -
  have "A' + R + g + g' = A' + g + (g' + R)" by (simp add: ac_simps)
  also have "\<dots> = A + C + g + g'" unfolding assms by (simp add: ac_simps)
  finally show ?thesis by simp
qed

lemma mset_chain:
  assumes "B + r = A + a" "B' + r' = B + (a' :: 'a multiset)"
  shows "B' + (r + r') = A + (a + a')"
proof -
  have "B' + (r + r') + B = (B + r) + (B' + r')" by (simp add: ac_simps)
  also have "\<dots> = A + (a + a') + B" unfolding assms by (simp add: ac_simps)
  finally show ?thesis by simp
qed

lemma effect_conserves:
  assumes inv: "ledger_inv mh l" and e: "effect mh op r cbs l l'"
  shows "retained_results l' + mset (result_runs cbs) = retained_results l + mset (accepted_results op r)
    \<and> retained_executions l' + mset (execution_runs cbs)
        = retained_executions l + mset (accepted_executions op r)"
  using e
proof cases
  case same
  then show ?thesis by (simp add: retained_results_def retained_executions_def)
next
  case (place k f fl fl')
  have len: "f < length (flights l)"
    using table_okD(5) [OF ledger_invD(1) [OF inv] place(1)] by (simp add: flight_ok_def)
  note u = mset_concat_update [OF len, where y = fl', folded place(4)]
  show ?thesis
    unfolding retained_results_def retained_executions_def
    using mset_balance [OF u [of subscribers] place(6) [unfolded place(2)]]
      mset_balance [OF u [of executionSubscribers] place(7) [unfolded place(2)]] by (rule conjI)
next
  case install
  then show ?thesis by (simp add: retained_results_def retained_executions_def new_flight_def)
next
  case (finish k f fl' fl)
  have p: "pending_at mh l k = Some f" and fl': "flights l' = (flights l)[f := fl']" "resolved fl'"
    using finish(1) by (simp_all add: ended_def)
  have len: "f < length (flights l)"
    using table_okD(5) [OF ledger_invD(1) [OF inv] p] by (simp add: flight_ok_def)
  note u = mset_concat_update [OF len, where y = fl', folded fl'(1)]
  show ?thesis
    unfolding retained_results_def retained_executions_def
    using u [of subscribers] u [of executionSubscribers] finish(2-6) fl'(2) by (simp add: resolved_def)
qed

fun trace_results :: "ledger_event list \<Rightarrow> callback list" where
  "trace_results [] = []"
| "trace_results ((op, r, cbs) # tr) = result_runs cbs @ trace_results tr"

fun trace_executions :: "ledger_event list \<Rightarrow> callback list" where
  "trace_executions [] = []"
| "trace_executions ((op, r, cbs) # tr) = execution_runs cbs @ trace_executions tr"

fun trace_accepted_results :: "ledger_event list \<Rightarrow> callback list" where
  "trace_accepted_results [] = []"
| "trace_accepted_results ((op, r, cbs) # tr) = accepted_results op r @ trace_accepted_results tr"

fun trace_accepted_executions :: "ledger_event list \<Rightarrow> callback list" where
  "trace_accepted_executions [] = []"
| "trace_accepted_executions ((op, r, cbs) # tr) = accepted_executions op r @ trace_accepted_executions tr"

lemma trace_append [simp]:
  "trace_results (tr @ tr') = trace_results tr @ trace_results tr'"
  "trace_executions (tr @ tr') = trace_executions tr @ trace_executions tr'"
  "trace_accepted_results (tr @ tr') = trace_accepted_results tr @ trace_accepted_results tr'"
  "trace_accepted_executions (tr @ tr') = trace_accepted_executions tr @ trace_accepted_executions tr'"
  by (induction tr) auto

lemma run_conserves:
  assumes "ledger_run mh replay l tr l'" "ledger_inv mh l"
  shows "retained_results l' + mset (trace_results tr) = retained_results l + mset (trace_accepted_results tr)
    \<and> retained_executions l' + mset (trace_executions tr)
        = retained_executions l + mset (trace_accepted_executions tr)"
  using assms
proof (induction rule: ledger_run.induct)
  case (run_snoc tr l1 op l2 r cbs)
  have inv1: "ledger_inv mh l1" by (rule ledger_run_inv [OF run_snoc(1,5)])
  note e = effect_conserves [OF inv1 exec_goodD(2) [OF inv1 run_snoc(2,3)]]
  note ih = run_snoc.IH [OF run_snoc(5)]
  show ?case
    using mset_chain [OF conjunct1 [OF ih] conjunct1 [OF e]] mset_chain [OF conjunct2 [OF ih] conjunct2 [OF e]]
    by simp
qed simp

section \<open>Admission sequences along a run\<close>

lemma effect_sequences:
  assumes inv: "ledger_inv mh l" and inv': "ledger_inv mh l'" and e: "effect mh op r cbs l l'"
  shows "nextAdmissionSeq l \<le> nextAdmissionSeq l'"
    "q \<in> active (activeAdmissions l') \<Longrightarrow> q \<in> active (activeAdmissions l) \<or> nextAdmissionSeq l < q"
proof -
  have "nextAdmissionSeq l \<le> nextAdmissionSeq l' \<and>
      (\<forall>q\<in>active (activeAdmissions l'). q \<in> active (activeAdmissions l) \<or> nextAdmissionSeq l < q)"
    using e
  proof cases
    case (install k identity now s v)
    have "q \<in> active (activeAdmissions l) \<or> nextAdmissionSeq l < q" if "q \<in> active (activeAdmissions l')" for q
    proof -
      from that admissions_okD(2) [OF ledger_invD(3) [OF inv']] obtain k' f' where
        q: "q \<noteq> 0" "pending_at mh l' k' = Some f'" "f_admissionSeq (flights l' ! f') = q" by blast
      show ?thesis
      proof (cases "k' = k")
        case True
        then have "q = s" using q(2,3) install(5,6) by (simp add: new_flight_def nth_append)
        then show ?thesis using q(1) install(9) by simp
      next
        case False
        then have p: "pending_at mh l k' = Some f'" using q(2) install(5) by simp
        then have "f' < length (flights l)"
          using table_okD(5) [OF ledger_invD(1) [OF inv]] by (simp add: flight_ok_def)
        then have "f_admissionSeq (flights l ! f') = q" using q(3) install(6) by (simp add: nth_append)
        then show ?thesis using admissions_okD(2) [OF ledger_invD(3) [OF inv]] q(1) p by blast
      qed
    qed
    then show ?thesis using install(8,9) by auto
  qed (auto simp: same_sequences_def ended_def)
  then show "nextAdmissionSeq l \<le> nextAdmissionSeq l'"
    "q \<in> active (activeAdmissions l') \<Longrightarrow> q \<in> active (activeAdmissions l) \<or> nextAdmissionSeq l < q"
    by auto
qed

lemma run_sequences:
  assumes "ledger_run mh replay l tr l'" "ledger_inv mh l"
  shows "nextAdmissionSeq l \<le> nextAdmissionSeq l' \<and>
    (\<forall>q\<in>active (activeAdmissions l'). q \<in> active (activeAdmissions l) \<or> nextAdmissionSeq l < q)"
  using assms
proof (induction rule: ledger_run.induct)
  case (run_snoc tr l1 op l2 r cbs)
  have inv1: "ledger_inv mh l1" by (rule ledger_run_inv [OF run_snoc(1,5)])
  note g = exec_goodD [OF inv1 run_snoc(2,3)]
  note s = effect_sequences [OF inv1 g(1,2)]
  show ?case using s run_snoc.IH [OF run_snoc(5)] by (meson order_le_less_trans order_trans)
qed simp

lemma floor_bound:
  assumes inv: "ledger_inv mh l" and q: "q \<noteq> 0" "q \<in> active (activeAdmissions l) \<or> nextAdmissionSeq l < q"
  shows "stableAdmissionSafeFloor l \<le> q"
proof -
  note a = ledger_invD(3) [OF inv]
  have z: "0 \<notin> active (activeAdmissions l)" using admissions_okD(2) [OF a, of 0] by simp
  have fin: "finite (active (activeAdmissions l))" by simp
  note fl = stableSafeFloor_spec [OF admissions_okD(1) [OF a] z, of "nextAdmissionSeq l"]
  show ?thesis
  proof (cases "active (activeAdmissions l) = {}")
    case True
    then have "nextAdmissionSeq l < q" using q by simp
    then have n: "nextAdmissionSeq l \<noteq> -1" using word_n1_ge [of q] by auto
    have "nextAdmissionSeq l + 1 \<le> q" using \<open>nextAdmissionSeq l < q\<close> by (simp add: inc_le)
    then show ?thesis using fl True n by (simp add: stableAdmissionSafeFloor_def)
  next
    case False
    have "Min (active (activeAdmissions l)) \<le> q" using q(2)
    proof
      assume "nextAdmissionSeq l < q"
      moreover have "Min (active (activeAdmissions l)) \<le> nextAdmissionSeq l"
        using admissions_okD(4) [OF a] Min_in [OF fin False] by blast
      ultimately show ?thesis by simp
    qed (use fin in simp)
    then show ?thesis using fl False by (simp add: stableAdmissionSafeFloor_def)
  qed
qed

section \<open>One execution per request\<close>

fun op_time :: "rpc_op \<Rightarrow> int option" where
  "op_time (OpAttempt key identity now) = Some now"
| "op_time (OpExpire i now) = Some now"
| "op_time (OpComplete key enc replayable now) = Some now"
| "op_time (OpAcknowledge key now) = Some now"
| "op_time (OpObserve key now) = Some now"
| "op_time (OpReplay key now) = Some now"
| "op_time (OpProfile key now) = Some now"
| "op_time _ = None"

text \<open>
  The operations that end a claim on purpose: the owner aborts its lease, the client acknowledges
  the answer, the session is destroyed.
\<close>

fun gives_up :: "rpc_key \<Rightarrow> ref \<Rightarrow> rpc_op \<Rightarrow> bool" where
  "gives_up key x (OpAbort y) = (y = x)"
| "gives_up key x (OpAcknowledge k now) = (k = key)"
| "gives_up key x (OpForget i a sid) = ((a, sid) = session_of key)"
| "gives_up key x _ = False"

definition within_horizon :: "int \<Rightarrow> rpc_op \<Rightarrow> bool" where
  "within_horizon t0 op \<longleftrightarrow> (\<forall>t. op_time op = Some t \<longrightarrow> t0 \<le> t \<and> t < t0 + rpcExecutionReceiptTTL)"

definition lease_flights :: "rpc_ledger \<Rightarrow> ref list" where
  "lease_flights l = map l_flight (leases l)"

definition claimed :: "maphash \<Rightarrow> int \<Rightarrow> rpc_key \<Rightarrow> ref \<Rightarrow> ref \<Rightarrow> rpc_ledger \<Rightarrow> bool" where
  "claimed mh t0 k x f l \<longleftrightarrow> distinct (lease_flights l) \<and> x < length (leases l) \<and> lease_flights l ! x = f
     \<and> (pending_at mh l k = Some f \<and> \<not> f_acknowledged (flights l ! f)
        \<or> (\<exists>e. receipt_at mh l k = Some e \<and> t0 + rpcExecutionReceiptTTL \<le> expiresAt (receipts l ! e)))"

lemma lease_flights_step:
  assumes inv: "ledger_inv mh l" and e: "effect mh op r cbs l l'" and d: "distinct (lease_flights l)"
  shows "distinct (lease_flights l')"
    "x < length (leases l) \<Longrightarrow> x < length (leases l') \<and> lease_flights l' ! x = lease_flights l ! x"
proof -
  have b: "\<forall>f\<in>set (lease_flights l). f < length (flights l)"
    using table_okD(8) [OF ledger_invD(1) [OF inv]] by (auto simp: lease_flights_def in_set_conv_nth)
  have "lease_flights l' = lease_flights l \<or> lease_flights l' = lease_flights l @ [length (flights l)]"
    using e by cases (simp_all add: lease_flights_def same_sequences_def)
  moreover have "length (leases l') = length (lease_flights l')" "length (leases l) = length (lease_flights l)"
    by (simp_all add: lease_flights_def)
  ultimately show "distinct (lease_flights l')"
    "x < length (leases l) \<Longrightarrow> x < length (leases l') \<and> lease_flights l' ! x = lease_flights l ! x"
    using d b by (auto simp: nth_append)
qed

lemma completed_receipt:
  assumes inv: "ledger_inv mh l" and p: "pending_at mh l k = Some f" and a: "\<not> f_acknowledged (flights l ! f)"
    and ex: "completeOnce mh now k enc replayable l = Ret (l', r, cbs)"
  obtains e where "r" "receipt_at mh l' k = Some e" "receipts l' ! e =
      \<lparr>rc_key = k, expiresAt = now + rpcExecutionReceiptTTL, rc_identity = f_identity (flights l ! f),
       rc_admissionSeq = f_admissionSeq (flights l ! f), executionKnown = executionDone (flights l ! f),
       rc_executionOK = f_executionOK (flights l ! f), rc_acknowledged = False,
       unavailable = \<not> replayable, rc_reservation = f_reservation (flights l ! f)\<rparr>"
  using inv
proof (cases rule: completeOnce_ok [of mh l now k enc replayable])
  case (published l0 l1 l2 g fl fl')
  have g: "g = f" "fl = flights l ! f" using published(1,2) p by auto
  let ?e = "length (receipts l0)"
  have l2: "l2 = l'" "r" using published(3) ex by simp_all
  have e1: "receipt_at mh l1 k = Some ?e" by (simp add: published(10))
  have "\<not> (f_acknowledged fl \<and> rc_key (receipts l1 ! ?e) = k)" using a g by simp
  from droppedD(2) [OF published(13) e1 this]
  have "receipt_at mh l' k = Some ?e" "receipts l' ! ?e = receipts l1 ! ?e" by (simp_all add: l2)
  then show thesis using a g l2(2) by (intro that [of ?e]) (simp_all add: published(11))
qed (use p in simp_all)

lemma claimed_step:
  assumes inv: "ledger_inv mh l" and ok: "op_ok l op" and ex: "exec mh replay op l = Ret (l', r, cbs)"
    and c: "claimed mh t0 k x f l" and g: "\<not> gives_up k x op" and h: "within_horizon t0 op"
  shows "claimed mh t0 k x f l'"
proof -
  note good = exec_goodD [OF inv ok ex]
  note t = ledger_invD(1) [OF inv]
  have d: "distinct (lease_flights l)" and x: "x < length (leases l)" "lease_flights l ! x = f"
    using c by (simp_all add: claimed_def)
  note ls = lease_flights_step [OF inv good(2) d]
  have lease: "distinct (lease_flights l') \<and> x < length (leases l') \<and> lease_flights l' ! x = f"
    using ls(1) ls(2) [OF x(1)] x(2) by simp
  have "pending_at mh l' k = Some f \<and> \<not> f_acknowledged (flights l' ! f)
      \<or> (\<exists>e. receipt_at mh l' k = Some e \<and> t0 + rpcExecutionReceiptTTL \<le> expiresAt (receipts l' ! e))"
  proof (cases "pending_at mh l k")
    case None
    then obtain e where e: "receipt_at mh l k = Some e" "t0 + rpcExecutionReceiptTTL \<le> expiresAt (receipts l ! e)"
      using c by (auto simp: claimed_def)
    have "rc_key (receipts l ! e) = k" using receipt_order [OF t] e(1) by blast
    then have "\<not> drop_reason op (receipts l ! e)"
      using g h e(2) by (cases op) (auto simp: within_horizon_def)
    from receipts_keptD [OF good(3) e(1) this] e(2) show ?thesis by auto
  next
    case (Some f0)
    then have p: "pending_at mh l k = Some f" "\<not> f_acknowledged (flights l ! f)"
      using c table_okD(4) [OF t Some] by (auto simp: claimed_def)
    have len: "f < length (flights l)" using table_okD(5) [OF t p(1)] by (simp add: flight_ok_def)
    from good(2) show ?thesis
    proof cases
      case same
      then show ?thesis using p by simp
    next
      case (place k' f' fl fl')
      show ?thesis
      proof (cases "k' = k")
        case True
        then have "f' = f" using place(1) p(1) by simp
        moreover have "\<not> f_acknowledged fl'" using place(2,10) g p(2) True \<open>f' = f\<close> by (cases op) auto
        ultimately show ?thesis using place(3,4) p(1) len by simp
      next
        case False
        then show ?thesis
          using place(3,4) p flights_other [OF t place(1) p(1), of fl'] by simp
      qed
    next
      case (install k' identity now q v)
      have "k' \<noteq> k" using install(4) p(1) by auto
      then show ?thesis using install(5,6) p len by (simp add: nth_append)
    next
      case (finish k' f' fl' fl)
      have e: "pending_at mh l k' = Some f'" "pending_at mh l' = (pending_at mh l)(k' := None)"
        "flights l' = (flights l)[f' := fl']" using finish(1) by (simp_all add: ended_def)
      show ?thesis
      proof (cases "k' = k")
        case False
        then show ?thesis using e p flights_other [OF t e(1) p(1), of fl'] by simp
      next
        case True
        then have "f' = f" using e(1) p(1) by simp
        from finish(11) show ?thesis
        proof (elim disjE exE conjE)
          fix y assume y: "op = OpAbort y" "l_flight (leases l ! y) = f'"
          then have "y < length (leases l)" using ok by simp
          then have "y = x"
            using d x y(2) \<open>f' = f\<close> unfolding lease_flights_def
            by (metis length_map nth_eq_iff_index_eq nth_map)
          then show ?thesis using g y(1) by simp
        next
          fix enc replayable now assume o: "op = OpComplete k' enc replayable now"
          obtain r' where "completeOnce mh now k enc replayable l = Ret (l', r', cbs)"
            using ex unfolding o True by (auto split: prod.splits)
          then show ?thesis
          proof (rule completed_receipt [OF inv p])
            fix e0 assume "receipt_at mh l' k = Some e0" and rc: "receipts l' ! e0 =
              \<lparr>rc_key = k, expiresAt = now + rpcExecutionReceiptTTL, rc_identity = f_identity (flights l ! f),
               rc_admissionSeq = f_admissionSeq (flights l ! f), executionKnown = executionDone (flights l ! f),
               rc_executionOK = f_executionOK (flights l ! f), rc_acknowledged = False,
               unavailable = \<not> replayable, rc_reservation = f_reservation (flights l ! f)\<rparr>"
            moreover have "t0 \<le> now" using h o by (simp add: within_horizon_def)
            ultimately show ?thesis by (intro disjI2 exI [of _ e0]) simp
          qed
        qed
      qed
    qed
  qed
  with lease show ?thesis by (simp add: claimed_def)
qed

lemma effect_owner:
  assumes "effect mh op (RAttempt (Answer (Inr (Owner q x)))) cbs l l'"
  obtains k identity now v where "op = OpAttempt k identity now" "x = length (leases l)"
    "pending_at mh l k = None" "pending_at mh l' = (pending_at mh l)(k \<mapsto> length (flights l))"
    "flights l' = flights l @ [new_flight identity q v]"
    "leases l' = leases l @ [\<lparr>l_key = k, l_flight = length (flights l), abortHook = None, handedOff = False\<rparr>]"
  using assms
proof cases
  case same
  then show thesis by blast
next
  case place
  then show thesis by blast
next
  case finish
  then show thesis by blast
next
  case (install k identity now q' v)
  then show thesis by (intro that) simp_all
qed

lemma claimed_no_owner:
  assumes inv: "ledger_inv mh l" and ex: "exec mh replay (OpAttempt k identity now) l = Ret (l', r, cbs)"
    and c: "claimed mh t0 k x f l" and now: "now < t0 + rpcExecutionReceiptTTL"
  shows "r \<noteq> RAttempt (Answer (Inr (Owner q y)))"
proof
  assume r: "r = RAttempt (Answer (Inr (Owner q y)))"
  note good = exec_goodD [OF inv _ ex, simplified]
  have i: "pending_at mh l k = None" "pending_at mh l' k \<noteq> None"
    by (rule effect_owner [OF good(2) [unfolded r]], simp)+
  from c i(1) obtain e where e: "receipt_at mh l k = Some e"
    "t0 + rpcExecutionReceiptTTL \<le> expiresAt (receipts l ! e)" by (auto simp: claimed_def)
  then have "\<not> drop_reason (OpAttempt k identity now) (receipts l ! e)" using now by simp
  from receipts_keptD [OF good(3) e(1) this] have "receipt_at mh l' k = Some e" by simp
  then show False using i(2) table_okD(4) [OF ledger_invD(1) [OF good(1)], of k] by auto
qed

lemma claimed_run:
  assumes "ledger_run mh replay l tr l'" "ledger_inv mh l" "claimed mh t0 k x f l"
    "\<forall>(op, r, cbs)\<in>set tr. \<not> gives_up k x op \<and> within_horizon t0 op"
  shows "claimed mh t0 k x f l'"
  using assms
proof (induction rule: ledger_run.induct)
  case (run_snoc tr l1 op l2 r cbs)
  have "claimed mh t0 k x f l1" using run_snoc.IH run_snoc.prems by auto
  moreover have "ledger_inv mh l1" by (rule ledger_run_inv [OF run_snoc(1,5)])
  ultimately show ?case using claimed_step run_snoc.hyps run_snoc.prems by auto
qed simp

lemma lease_flights_run:
  assumes "ledger_run mh replay l tr l'" "ledger_inv mh l" "distinct (lease_flights l)"
  shows "distinct (lease_flights l')"
  using assms
proof (induction rule: ledger_run.induct)
  case (run_snoc tr l1 op l2 r cbs)
  have inv1: "ledger_inv mh l1" by (rule ledger_run_inv [OF run_snoc(1,5)])
  show ?case
    using lease_flights_step(1) [OF inv1 exec_goodD(2) [OF inv1 run_snoc(2,3)]] run_snoc.IH run_snoc.prems
    by simp
qed simp

lemma claimed_start:
  assumes inv: "ledger_inv mh l" and d: "distinct (lease_flights l)"
    and ex: "exec mh replay (OpAttempt k identity t0) l = Ret (l', RAttempt (Answer (Inr (Owner q x))), cbs)"
  shows "\<exists>f. claimed mh t0 k x f l'"
proof -
  note good = exec_goodD [OF inv _ ex, simplified]
  have "pending_at mh l' k = Some (length (flights l))" "x = length (leases l)"
    "lease_flights l' = lease_flights l @ [length (flights l)]"
    "\<not> f_acknowledged (flights l' ! length (flights l))" "length (leases l') = Suc (length (leases l))"
    by (rule effect_owner [OF good(2)], simp add: lease_flights_def new_flight_def)+
  then have "claimed mh t0 k x (length (flights l)) l'"
    using lease_flights_step(1) [OF inv good(2) d]
    by (simp add: claimed_def nth_append) (simp add: lease_flights_def)
  then show ?thesis by blast
qed

section \<open>The limits are constant\<close>

definition fair_limits :: "fair_budget \<Rightarrow> int \<times> int \<times> int \<times> int" where
  "fair_limits b = (lim_max (globalEntries b), authLimit b, sessionLimit b, pendingPerAuth b)"

definition subscriber_limits :: "subscriber_budget \<Rightarrow> int \<times> int \<times> int" where
  "subscriber_limits b = (lim_max (sub_global b), sub_authLimit b, sub_sessionLimit b)"

definition limits where
  "limits l = (fair_limits (fairBudget l), lim_max (flightLimit l),
     subscriber_limits (subscriberBudget l), subscriberPerFlight l)"

lemma limit_max:
  "limit_reserveN lim n = Some lim' \<Longrightarrow> lim_max lim' = lim_max lim"
  "limit_reserve lim = Some lim' \<Longrightarrow> lim_max lim' = lim_max lim"
  "limit_releaseN lim n = Ret lim' \<Longrightarrow> lim_max lim' = lim_max lim"
  "limit_release lim = Ret lim' \<Longrightarrow> lim_max lim' = lim_max lim"
  by (auto simp: limit_reserveN_def limit_reserve_def limit_releaseN_def limit_release_def
      split: if_splits)

lemma fair_limits_kept:
  "fair_reserve mh b k p = Some (b', rv) \<Longrightarrow> fair_limits b' = fair_limits b"
  "fair_release mh b rv = Ret (b', rv') \<Longrightarrow> fair_limits b' = fair_limits b"
  "releasePending mh b rv = Ret (b', rv') \<Longrightarrow> fair_limits b' = fair_limits b"
  by (auto simp: fair_reserve_def fair_release_def releasePending_def fair_limits_def Let_def
      split: if_splits option.splits dest: limit_max)

lemma subscriber_limits_kept:
  "subscriber_reserve mh b k n = Some b' \<Longrightarrow> subscriber_limits b' = subscriber_limits b"
  "subscriber_release mh b k n = Ret b' \<Longrightarrow> subscriber_limits b' = subscriber_limits b"
  by (auto simp: subscriber_reserve_def subscriber_release_def subscriber_limits_def Let_def
      split: if_splits option.splits dest: limit_max)

lemma limits_frame [simp]:
  "limits (upd_shard i g l) = limits l" "limits (set_pending mh k v l) = limits l"
  "limits (upd_flight f h l) = limits l" "limits (upd_lease x h' l) = limits l"
  "limits (push_receipt mh rc l) = limits l" "limits (l\<lparr>receipts := rs\<rparr>) = limits l"
  "limits (l\<lparr>reservations := vs\<rparr>) = limits l" "limits (l\<lparr>receiptCount := n\<rparr>) = limits l"
  "limits (l\<lparr>flights := fs\<rparr>) = limits l" "limits (l\<lparr>leases := ls\<rparr>) = limits l"
  "limits (l\<lparr>nextAdmissionSeq := q\<rparr>) = limits l" "limits (l\<lparr>activeAdmissions := t\<rparr>) = limits l"
  by (simp_all add: limits_def)

lemma limits_upd:
  "fair_limits b = fair_limits (fairBudget l) \<Longrightarrow> limits (l\<lparr>fairBudget := b\<rparr>) = limits l"
  "lim_max g = lim_max (flightLimit l) \<Longrightarrow> limits (l\<lparr>flightLimit := g\<rparr>) = limits l"
  "subscriber_limits sb = subscriber_limits (subscriberBudget l) \<Longrightarrow>
    limits (l\<lparr>subscriberBudget := sb\<rparr>) = limits l"
  by (simp_all add: limits_def)

lemma reservation_limits:
  "reservation_release mh r l = Ret l' \<Longrightarrow> limits l' = limits l"
  "reservation_releasePending mh r l = Ret l' \<Longrightarrow> limits l' = limits l"
  by (auto simp: reservation_release_def reservation_releasePending_def
      intro!: limits_upd dest: fair_limits_kept)

lemma removeElement_limits: "removeElement mh i e l = Ret l' \<Longrightarrow> limits l' = limits l"
  by (auto simp: removeElement_def unlinkElement_def decrementReceiptCount_def
      drop_receipt_reservation_def split: if_splits option.splits dest!: reservation_limits)

lemma reap_loop_limits: "reap_loop mh i now es l = Ret l' \<Longrightarrow> limits l' = limits l"
  by (induction es arbitrary: l) (auto split: if_splits dest: removeElement_limits)

lemma forget_loop_limits: "forget_loop mh i a sid es l = Ret l' \<Longrightarrow> limits l' = limits l"
  by (induction es arbitrary: l) (auto split: if_splits dest: removeElement_limits)

lemma expireLocked_limits: "expireLocked mh i now l = Ret l' \<Longrightarrow> limits l' = limits l"
  unfolding expireLocked_def by (rule reap_loop_limits)

lemma drop_expired_limits: "drop_expired mh now key l = Ret (l', r) \<Longrightarrow> limits l' = limits l"
  by (auto simp: drop_expired_def split: option.splits if_splits dest: removeElement_limits)

lemma slots_limits:
  "releaseFlightSubscriberSlotsLocked mh key f n l = Ret l' \<Longrightarrow> limits l' = limits l"
  by (auto simp: releaseFlightSubscriberSlotsLocked_def Let_def limits_def split: if_splits
      dest: subscriber_limits_kept)

lemma leave_limits: "leave_flight_table f l = Ret l' \<Longrightarrow> limits l' = limits l"
  by (auto simp: leave_flight_table_def limits_def dest: limit_max)

lemma flight_reservation_limits:
  "release_flight_reservation mh f l = Ret l' \<Longrightarrow> limits l' = limits l"
  "transfer_flight_reservation mh f l = Ret l' \<Longrightarrow> limits l' = limits l"
  by (auto simp: release_flight_reservation_def transfer_flight_reservation_def
      split: option.splits dest: reservation_limits)

lemma close_done_limits: "close_done f l = Ret l' \<Longrightarrow> limits l' = limits l"
  by (auto simp: close_done_def split: if_splits)

lemma admit_limits: "admit mh key identity r l = Ret (l', res) \<Longrightarrow> limits l' = limits l"
  by (auto simp: admit_def install_owner_def Let_def limits_upd(2) split: if_splits option.splits
      dest!: reservation_limits dest: limit_max(4))

lemma attempt_limits:
  assumes "attempt mh replay now key identity l = Ret (l', res)" shows "limits l' = limits l"
proof -
  obtain l0 where ex: "expireLocked mh (shardIndex mh key) now l = Ret l0"
    using assms by (auto simp: attempt_def)
  note e = expireLocked_limits [OF ex]
  show ?thesis
  proof (cases "receipt_at mh l0 key = None \<and> pending_at mh l0 key = None")
    case False
    then have "l' = l0" using assms ex by (auto simp: attempt_def split: option.splits)
    then show ?thesis using e by simp
  next
    case True
    show ?thesis
    proof (cases "limit_reserve (flightLimit l0)")
      case None
      then show ?thesis using assms ex True e by (simp add: attempt_def)
    next
      case (Some g)
      note g = limit_max(2) [OF Some]
      show ?thesis
      proof (cases "reserveOwner mh (fairBudget l0) key")
        case None
        then obtain g' where "limit_release g = Ret g'" "l' = l0\<lparr>flightLimit := g'\<rparr>"
          using assms ex True Some by (auto simp: attempt_def)
        then show ?thesis using limits_upd(2) [of g' l0] limit_max(4) [of g g'] g e by simp
      next
        case b: (Some brv)
        obtain b rv where brv: "brv = (b, rv)" by (cases brv)
        let ?l = "l0\<lparr>flightLimit := g, fairBudget := b, reservations := reservations l0 @ [rv]\<rparr>"
        have "admit mh key identity (length (reservations l0)) ?l = Ret (l', res)"
          using assms ex True Some b brv by (simp add: attempt_def)
        from admit_limits [OF this] have "limits l' = limits ?l" .
        also have "\<dots> = limits l0"
          using g fair_limits_kept(1) [of mh "fairBudget l0" key True b rv] b brv
          by (simp add: limits_def reserveOwner_def)
        finally show ?thesis using e by simp
      qed
    qed
  qed
qed

lemma completeFlight_limits:
  assumes "completeRPCResultFlightLocked mh key enc l = Ret (l', r)" shows "limits l' = limits l"
proof (cases "pending_at mh l key")
  case None
  then show ?thesis using assms by (simp add: completeRPCResultFlightLocked_def)
next
  case (Some f)
  then show ?thesis
    using assms unfolding completeRPCResultFlightLocked_def Let_def
    by (auto dest!: flight_reservation_limits leave_limits slots_limits close_done_limits)
qed

lemma completion_reservation_limits:
  "completion_reservation mh key l = Ret (Some (l', r)) \<Longrightarrow> limits l' = limits l"
  using fair_limits_kept(1)
  by (auto simp: completion_reservation_def reserveCompleted_def limits_def split: option.splits)

lemma unlink_replaced_limits: "unlink_replaced mh key r old l = Ret l' \<Longrightarrow> limits l' = limits l"
  by (auto simp: unlink_replaced_def unlinkElement_def decrementReceiptCount_def
      drop_receipt_reservation_def split: option.splits if_splits dest!: reservation_limits)

lemma completeOnce_limits:
  assumes "completeOnce mh now key enc replayable l = Ret (l', r, cbs)" shows "limits l' = limits l"
proof -
  obtain l0 where ex: "expireLocked mh (shardIndex mh key) now l = Ret l0"
    using assms by (auto simp: completeOnce_def)
  note e = expireLocked_limits [OF ex]
  show ?thesis
  proof (cases "receipt_at mh l0 key \<noteq> None \<and> pending_at mh l0 key = None")
    case True
    then show ?thesis using assms ex e by (auto simp: completeOnce_def Let_def)
  next
    case False
    obtain identity sq known ok acked where m:
      "rpcResultFlightMetadataLocked mh l0 key = (identity, sq, known, ok, acked)"
      by (cases "rpcResultFlightMetadataLocked mh l0 key") auto
    note run = assms [unfolded completeOnce_def, simplified ex bind_outcome.simps Let_def m]
    from run False obtain res where res: "completion_reservation mh key l0 = Ret res" by auto
    show ?thesis
    proof (cases res)
      case None
      then show ?thesis using run False res e by auto
    next
      case (Some lr)
      obtain l1 rr where lr: "lr = (l1, rr)" by (cases lr)
      have l1: "limits l1 = limits l0" using completion_reservation_limits res Some lr by auto
      show ?thesis
        using run False res Some lr l1 e
        by (auto split: if_splits dest!: unlink_replaced_limits completeFlight_limits removeElement_limits)
    qed
  qed
qed

lemma Abort_limits: "Abort mh x l = Ret (l', r, cbs) \<Longrightarrow> limits l' = limits l"
  unfolding Abort_def Let_def
  by (auto split: if_splits
      dest!: flight_reservation_limits leave_limits slots_limits close_done_limits)

lemma drop_then_limits:
  assumes "bind_outcome (drop_expired mh now key l) g = Ret (l', v)"
    and g: "\<And>l1 rc l2 v. g (l1, rc) = Ret (l2, v) \<Longrightarrow> l2 = l1"
  shows "limits l' = limits l"
proof -
  obtain l1 rc where d: "drop_expired mh now key l = Ret (l1, rc)" "g (l1, rc) = Ret (l', v)"
    using assms(1) by (auto simp: split_paired_Ex)
  then show ?thesis using drop_expired_limits [OF d(1)] g [OF d(2)] by simp
qed

lemma lookup_limits:
  "ObserveDependency mh now key l = Ret (l', d) \<Longrightarrow> limits l' = limits l"
  "Replay mh replay now key l = Ret (l', e) \<Longrightarrow> limits l' = limits l"
  "ExactAdmissionProfile mh now key l = Ret (l', p) \<Longrightarrow> limits l' = limits l"
  unfolding ObserveDependency_def Replay_def ExactAdmissionProfile_def
  by ((cases "reqMsgID key = 0", simp, simp only: if_False, erule drop_then_limits,
      simp split: option.splits if_splits)+)

lemma exec_limits: "exec mh replay op l = Ret (l', r, cbs) \<Longrightarrow> limits l' = limits l"
proof (cases op)
  case (OpSubscribe w rf ef)
  assume "exec mh replay op l = Ret (l', r, cbs)"
  then have "l' = fst (subscribe mh w rf ef l)" using OpSubscribe by (auto split: prod.splits)
  then show ?thesis
    by (auto simp: subscribe_def subscribe_pending_def Let_def limits_def split: option.splits
        dest: subscriber_limits_kept)
next
  case (OpAcknowledge key now)
  assume "exec mh replay op l = Ret (l', r, cbs)"
  then show ?thesis using OpAcknowledge
    by (auto simp: Acknowledge_def split: if_splits option.splits
        dest!: expireLocked_limits removeElement_limits)
next
  case (OpCompleteExecution x success)
  assume "exec mh replay op l = Ret (l', r, cbs)"
  then show ?thesis using OpCompleteExecution
    by (auto simp: CompleteExecution_def Let_def split: if_splits dest!: slots_limits)
qed (auto simp: forget_shard_def HandOff_def
    SetAbortHook_def InstallAbortHook_def split: if_splits option.splits prod.splits
    dest!: attempt_limits expireLocked_limits forget_loop_limits completeOnce_limits lookup_limits
      Abort_limits)

lemma run_limits: "ledger_run mh replay l tr l' \<Longrightarrow> limits l' = limits l"
  by (induction rule: ledger_run.induct) (simp_all add: exec_limits)

section \<open>Slots by scope as cardinalities\<close>

lemma at_auth_mset_set: "finite A \<Longrightarrow> at_auth a (mset_set A) = card {k \<in> A. authKeyID k = a}"
  by (simp add: at_auth_def filter_mset_mset_set)

lemma at_session_mset_set: "finite A \<Longrightarrow> at_session s (mset_set A) = card {k \<in> A. session_of k = s}"
  by (simp add: at_session_def filter_mset_mset_set)

lemma owned_parts:
  "keys_of (owned mh l) = mset_set (dom (pending_at mh l)) + mset_set (dom (receipt_at mh l))"
  "pending_of (owned mh l) = mset_set (dom (pending_at mh l))"
  by (simp_all add: owned_def keys_of_def pending_of_def image_mset.compositionality o_def
      filter_mset_image_mset)

lemma card_owned:
  assumes t: "table_ok mh l"
  shows "card {k \<in> dom (pending_at mh l). P k} + card {k \<in> dom (receipt_at mh l). P k}
    = card {k \<in> dom (pending_at mh l) \<union> dom (receipt_at mh l). P k}"
proof -
  have "{k \<in> dom (pending_at mh l). P k} \<inter> {k \<in> dom (receipt_at mh l). P k} = {}"
    using table_okD(4) [OF t] by fastforce
  then have "card ({k \<in> dom (pending_at mh l). P k} \<union> {k \<in> dom (receipt_at mh l). P k})
      = card {k \<in> dom (pending_at mh l). P k} + card {k \<in> dom (receipt_at mh l). P k}"
    using table_okD(2,3) [OF t] by (intro card_Un_disjoint) simp_all
  moreover have "{k \<in> dom (pending_at mh l). P k} \<union> {k \<in> dom (receipt_at mh l). P k}
      = {k \<in> dom (pending_at mh l) \<union> dom (receipt_at mh l). P k}" by blast
  ultimately show ?thesis by simp
qed

end
