(* ===== verification/Rpc_Operations.thy ===== *)
theory Rpc_Operations
  imports Rpc_Executions
begin

text \<open>
  The operations of the ledger that take several locks in turn: \<open>expireReceipts\<close> and
  \<open>forgetSession\<close>, which visit every shard, \<open>acquire\<close> and \<open>Complete\<close>, which reap all shards and try
  again when the budget refuses. Each is shown to be a run of the single-lock operations with its
  trace written out, and its effect on the tables is stated.
\<close>

section \<open>Visiting every shard\<close>

definition expire_trace :: "(nat \<Rightarrow> int) \<Rightarrow> nat list \<Rightarrow> ledger_event list" where
  "expire_trace clock is = map (\<lambda>i. (OpExpire i (clock i), RUnit, [])) is"

definition forget_trace :: "auth_key_id \<Rightarrow> int \<Rightarrow> nat list \<Rightarrow> ledger_event list" where
  "forget_trace a sid is = map (\<lambda>i. (OpForget i a sid, RUnit, [])) is"

lemma shardIndex_less: "shardIndex mh key < rpcExecutionLedgerShards"
proof -
  have "unat (take_bit 4 w) < 2 ^ 4" for w :: "64 word"
    by (simp only: unsigned_take_bit_eq take_bit_nat_less_exp)
  then show ?thesis by (simp add: shardIndex_def rpcExecutionLedgerShards_def)
qed

lemma map_list_update_same: "f x = f (xs ! e) \<Longrightarrow> map f (xs[e := x]) = map f xs"
  by (metis list_update_id map_update)

lemma removeElement_shape:
  assumes "removeElement mh i e l = Ret l'"
  shows "j \<noteq> i \<Longrightarrow> shards_of l' j = shards_of l j"
    "order (shards_of l' i) = remove1 e (order (shards_of l i))"
    "map expiresAt (receipts l') = map expiresAt (receipts l)"
  using assms
  by (auto simp: removeElement_def unlinkElement_def decrementReceiptCount_def drop_receipt_reservation_def
      reservation_release_def map_list_update_same split: if_splits option.splits)

text \<open>Reaping removes the longest expired prefix of the shard's list, and touches no other shard.\<close>

definition head_live :: "int \<Rightarrow> nat \<Rightarrow> rpc_ledger \<Rightarrow> bool" where
  "head_live now i l \<longleftrightarrow> (\<forall>e es. order (shards_of l i) = e # es \<longrightarrow> now < expiresAt (receipts l ! e))"

lemma reap_loop_shape:
  assumes "reap_loop mh i now es l = Ret l'" "order (shards_of l i) = es"
  shows "head_live now i l' \<and> (\<forall>j. j \<noteq> i \<longrightarrow> shards_of l' j = shards_of l j)
    \<and> map expiresAt (receipts l') = map expiresAt (receipts l)"
  using assms
proof (induction es arbitrary: l)
  case (Cons e es)
  show ?case
  proof (cases "expiresAt (receipts l ! e) > now")
    case True
    with Cons.prems show ?thesis by (simp add: head_live_def)
  next
    case False
    then obtain l1 where l1: "removeElement mh i e l = Ret l1" "reap_loop mh i now es l1 = Ret l'"
      using Cons.prems(1) by auto
    note sh = removeElement_shape [OF l1(1)]
    have "order (shards_of l1 i) = es" using sh(2) Cons.prems(2) by simp
    from Cons.IH [OF l1(2) this] sh show ?thesis by simp
  qed
qed (simp add: head_live_def)

lemma head_live_cong:
  assumes "shards_of l' i = shards_of l i" "map expiresAt (receipts l') = map expiresAt (receipts l)" "table_ok mh l"
  shows "head_live now i l' = head_live now i l"
proof -
  have len: "length (receipts l') = length (receipts l)" using assms(2) by (metis length_map)
  have "expiresAt (receipts l' ! e) = expiresAt (receipts l ! e)" if "e < length (receipts l)" for e
    using assms(2) that len by (metis nth_map)
  moreover have "e < length (receipts l)" if "order (shards_of l i) = e # es" for e es
    using order_receipt(3) [OF assms(3), of e i] that by simp
  ultimately show ?thesis by (auto simp: head_live_def assms(1))
qed

text \<open>What is dropped from one shard alone is dropped for that shard's reason.\<close>

lemma dropped_shard:
  assumes d: "dropped mh (\<lambda>rc. P i rc) l l'" and o: "\<And>j. j \<noteq> i \<Longrightarrow> shards_of l' j = shards_of l j" and t: "table_ok mh l"
  shows "dropped mh (\<lambda>rc. P (shardIndex mh (rc_key rc)) rc) l l'"
proof -
  have "receipt_at mh l' k = Some e \<and> receipts l' ! e = receipts l ! e
      \<or> receipt_at mh l' k = None \<and> P (shardIndex mh (rc_key (receipts l ! e))) (receipts l ! e)"
    if k: "receipt_at mh l k = Some e" for k e
  proof (cases "shardIndex mh k = i")
    case True
    moreover have "rc_key (receipts l ! e) = k" using receipt_order [OF t] k by blast
    ultimately show ?thesis using dropped_cases [OF d k] by auto
  next
    case False
    then have "receipt_at mh l' k = Some e" using k o by (simp add: receipt_at_def)
    then show ?thesis using dropped_cases [OF d k] by auto
  qed
  with d show ?thesis unfolding dropped_def by blast
qed

lemma expire_shards_run:
  assumes "ledger_inv mh l" "distinct is"
  shows "\<exists>l'. expire_shards mh clock is l = Ret l' \<and> ledger_run mh replay l (expire_trace clock is) l'
    \<and> ledger_inv mh l' \<and> dropped mh (\<lambda>rc. expiresAt rc \<le> clock (shardIndex mh (rc_key rc))) l l'
    \<and> (\<forall>i \<in> set is. head_live (clock i) i l')
    \<and> (\<forall>j. j \<notin> set is \<longrightarrow> shards_of l' j = shards_of l j) \<and> map expiresAt (receipts l') = map expiresAt (receipts l)"
  using assms
proof (induction "is" arbitrary: l)
  case Nil
  then show ?case by (auto simp: expire_trace_def intro: run_nil)
next
  case (Cons i "is")
  obtain l1 where l1: "expireLocked mh i (clock i) l = Ret l1" "ledger_inv mh l1"
    "dropped mh (\<lambda>rc. expiresAt rc \<le> clock i) l l1" by (rule expireLocked_ok [OF Cons.prems(1)])
  note sh = reap_loop_shape [OF l1(1) [unfolded expireLocked_def] refl]
  have d1: "dropped mh (\<lambda>rc. expiresAt rc \<le> clock (shardIndex mh (rc_key rc))) l l1"
    by (rule dropped_shard [where P = "\<lambda>i rc. expiresAt rc \<le> clock i", OF l1(3)])
      (use sh ledger_invD(1) [OF Cons.prems(1)] in simp_all)
  have "ledger_run mh replay l [(OpExpire i (clock i), RUnit, [])] l1"
    by (rule run_single) (simp_all add: l1(1))
  moreover obtain l2 where l2: "expire_shards mh clock is l1 = Ret l2" "ledger_run mh replay l1 (expire_trace clock is) l2"
    "ledger_inv mh l2" "dropped mh (\<lambda>rc. expiresAt rc \<le> clock (shardIndex mh (rc_key rc))) l1 l2"
    "\<forall>i \<in> set is. head_live (clock i) i l2" "\<forall>j. j \<notin> set is \<longrightarrow> shards_of l2 j = shards_of l1 j"
    "map expiresAt (receipts l2) = map expiresAt (receipts l1)"
    using Cons.IH [OF l1(2)] Cons.prems(2) by auto
  ultimately have "ledger_run mh replay l (expire_trace clock (i # is)) l2"
    using run_append by (fastforce simp: expire_trace_def)
  moreover have "head_live (clock i) i l2"
    using sh Cons.prems(2) l2(6,7) head_live_cong [OF _ l2(7) ledger_invD(1) [OF l1(2)], of i] by simp
  ultimately show ?case
    using l1(1) l2 dropped_trans [OF d1 l2(4)] sh by (intro exI [of _ l2]) auto
qed

text \<open>Forgetting a session leaves no receipt of it.\<close>

lemma forget_loop_clears:
  assumes "ledger_inv mh l" "set es \<subseteq> set (order (shards_of l i))" "distinct es" "forget_loop mh i a sid es l = Ret l'"
    and "e \<in> set es" "session_of (rc_key (receipts l ! e)) = (a, sid)"
  shows "receipt_at mh l' (rc_key (receipts l ! e)) = None"
  using assms
proof (induction es arbitrary: l)
  case (Cons e0 es)
  let ?P = "\<lambda>rc. session_of (rc_key rc) = (a, sid)"
  show ?case
  proof (cases "?P (receipts l ! e0)")
    case True
    obtain l1 where l1: "removeElement mh i e0 l = Ret l1" "ledger_inv mh l1" "dropped mh ?P l l1"
      "set es \<subseteq> set (order (shards_of l1 i))" "\<forall>e' \<in> set es. receipts l1 ! e' = receipts l ! e'"
      "receipt_at mh l1 (rc_key (receipts l ! e0)) = None"
      by (rule remove_step [OF Cons.prems(1-3), where P = ?P, OF True]) blast
    have rest: "forget_loop mh i a sid es l1 = Ret l'" using Cons.prems(4) l1(1) True by (simp add: session_of_def)
    have "distinct es" using Cons.prems(3) by simp
    then obtain l2 where "forget_loop mh i a sid es l1 = Ret l2" "dropped mh ?P l1 l2"
      using forget_loop_ok [OF l1(2,4)] by blast
    then have "receipt_at mh l' (rc_key (receipts l ! e0)) = None" using rest droppedD(3) l1(6) by fastforce
    moreover have "receipt_at mh l' (rc_key (receipts l ! e)) = None" if "e \<in> set es"
      using Cons.IH [OF l1(2,4) \<open>distinct es\<close> rest that] l1(5) that Cons.prems(6) by simp
    ultimately show ?thesis using Cons.prems(5) by auto
  next
    case False
    with Cons show ?thesis by (auto simp: session_of_def)
  qed
qed simp

lemma forget_shard_clears:
  assumes "ledger_inv mh l" "forget_shard mh i a sid l = Ret l'" "shardIndex mh k = i" "session_of k = (a, sid)"
  shows "receipt_at mh l' k = None"
proof (cases "receipt_at mh l k")
  case None
  obtain l2 where "forget_shard mh i a sid l = Ret l2" "dropped mh (\<lambda>rc. session_of (rc_key rc) = (a, sid)) l l2"
    by (rule forget_shard_ok [OF assms(1)])
  with None assms(2) show ?thesis using droppedD(3) by fastforce
next
  case (Some e)
  then have "e \<in> set (order (shards_of l i))" "rc_key (receipts l ! e) = k"
    using receipt_order [OF ledger_invD(1) [OF assms(1)]] assms(3) by auto
  then show ?thesis
    using forget_loop_clears [OF assms(1) subset_refl order_distinct [OF assms(1)] assms(2) [unfolded forget_shard_def]] assms(4)
    by auto
qed

lemma forget_shards_run:
  assumes "ledger_inv mh l"
  shows "\<exists>l'. forget_shards mh a sid is l = Ret l' \<and> ledger_run mh replay l (forget_trace a sid is) l'
    \<and> dropped mh (\<lambda>rc. session_of (rc_key rc) = (a, sid)) l l'
    \<and> (\<forall>k. shardIndex mh k \<in> set is \<longrightarrow> session_of k = (a, sid) \<longrightarrow> receipt_at mh l' k = None)"
  using assms
proof (induction "is" arbitrary: l)
  case (Cons i "is")
  obtain l1 where l1: "forget_shard mh i a sid l = Ret l1" "ledger_inv mh l1"
    "dropped mh (\<lambda>rc. session_of (rc_key rc) = (a, sid)) l l1" by (rule forget_shard_ok [OF Cons.prems])
  have "ledger_run mh replay l [(OpForget i a sid, RUnit, [])] l1"
    by (rule run_single) (simp_all add: l1(1))
  moreover obtain l2 where l2: "forget_shards mh a sid is l1 = Ret l2" "ledger_run mh replay l1 (forget_trace a sid is) l2"
    "dropped mh (\<lambda>rc. session_of (rc_key rc) = (a, sid)) l1 l2"
    "\<forall>k. shardIndex mh k \<in> set is \<longrightarrow> session_of k = (a, sid) \<longrightarrow> receipt_at mh l2 k = None"
    using Cons.IH [OF l1(2)] by auto
  ultimately have "ledger_run mh replay l (forget_trace a sid (i # is)) l2"
    using run_append by (fastforce simp: forget_trace_def)
  moreover have "receipt_at mh l2 k = None" if "shardIndex mh k = i" "session_of k = (a, sid)" for k
    using forget_shard_clears [OF Cons.prems l1(1) that] droppedD(3) [OF l2(3)] by blast
  ultimately show ?case using l1(1) l2 dropped_trans [OF l1(3) l2(3)] by (intro exI [of _ l2]) auto
qed (auto simp: forget_trace_def intro: run_nil)

section \<open>Attempts and their repetition\<close>

lemma attempt_run:
  assumes "ledger_inv mh l"
  obtains l' res where "attempt mh replay now key identity l = Ret (l', res)" "ledger_inv mh l'"
    "ledger_run mh replay l [(OpAttempt key identity now, RAttempt res, [])] l'"
proof -
  obtain l' res where r: "attempt mh replay now key identity l = Ret (l', res)" "ledger_inv mh l'"
    by (rule attempt_ok [OF assms])
  moreover have "ledger_run mh replay l [(OpAttempt key identity now, RAttempt res, [])] l'"
    by (rule run_single) (simp_all add: r(1))
  ultimately show thesis by (rule that)
qed

lemma completeOnce_run:
  assumes "ledger_inv mh l"
  obtains l' r cbs where "completeOnce mh now key enc replayable l = Ret (l', r, cbs)" "ledger_inv mh l'"
    "ledger_run mh replay l [(OpComplete key enc replayable now, RBool r, cbs)] l'"
proof -
  obtain l' r cbs where r: "completeOnce mh now key enc replayable l = Ret (l', r, cbs)" "ledger_inv mh l'"
    using assms by (cases rule: completeOnce_ok [of mh l now key enc replayable]) blast+
  moreover have "ledger_run mh replay l [(OpComplete key enc replayable now, RBool r, cbs)] l'"
    by (rule run_single) (simp_all add: r(1))
  ultimately show thesis by (rule that)
qed

text \<open>
  The trace of \<open>acquire\<close>: nothing for a request without message id, else one attempt with its answer, or a
  refused attempt, the reaping of every shard and a second attempt that decides.
\<close>

definition acquire_trace ::
  "int \<Rightarrow> (nat \<Rightarrow> int) \<Rightarrow> int \<Rightarrow> rpc_key \<Rightarrow> request_identity \<Rightarrow> rpc_error + rpc_acquire \<Rightarrow> ledger_event list \<Rightarrow> bool" where
  "acquire_trace now1 clock now2 key identity r tr \<longleftrightarrow>
    (if reqMsgID key = 0 then tr = [] \<and> r = Inl ErrRPCResultFlightInvalid
     else tr = [(OpAttempt key identity now1, RAttempt (Answer r), [])]
       \<or> (\<exists>res. tr = (OpAttempt key identity now1, RAttempt NoReservation, [])
               # expire_trace clock [0..<rpcExecutionLedgerShards] @ [(OpAttempt key identity now2, RAttempt res, [])]
            \<and> r = (case res of Answer a \<Rightarrow> a | NoReservation \<Rightarrow> Inl ErrRPCResultFlightCapacity)))"

lemma acquire_run:
  assumes inv: "ledger_inv mh l"
  shows "\<exists>l' r tr. acquire mh replay now1 clock now2 key identity l = Ret (l', r)
    \<and> ledger_run mh replay l tr l' \<and> acquire_trace now1 clock now2 key identity r tr"
proof (cases "reqMsgID key = 0")
  case True
  then show ?thesis by (auto simp: acquire_def acquire_trace_def intro: run_nil)
next
  case False
  obtain l1 r1 where 1: "attempt mh replay now1 key identity l = Ret (l1, r1)" "ledger_inv mh l1"
    "ledger_run mh replay l [(OpAttempt key identity now1, RAttempt r1, [])] l1"
    by (rule attempt_run [OF inv])
  show ?thesis
  proof (cases r1)
    case (Answer a)
    then show ?thesis using False 1 by (auto simp: acquire_def acquire_trace_def)
  next
    case NoReservation
    let ?reap = "expire_trace clock [0..<rpcExecutionLedgerShards]"
    obtain l2 where 2: "expire_shards mh clock [0..<rpcExecutionLedgerShards] l1 = Ret l2"
      "ledger_run mh replay l1 ?reap l2" "ledger_inv mh l2"
      using expire_shards_run [OF 1(2) distinct_upt] by blast
    obtain l3 r3 where 3: "attempt mh replay now2 key identity l2 = Ret (l3, r3)"
      "ledger_run mh replay l2 [(OpAttempt key identity now2, RAttempt r3, [])] l3"
      by (rule attempt_run [OF 2(3)])
    have "ledger_run mh replay l ([(OpAttempt key identity now1, RAttempt r1, [])] @ ?reap
        @ [(OpAttempt key identity now2, RAttempt r3, [])]) l3"
      by (intro run_append [OF 1(3)] run_append [OF 2(2)] 3(2))
    moreover have "acquire mh replay now1 clock now2 key identity l
        = Ret (l3, case r3 of Answer a \<Rightarrow> a | NoReservation \<Rightarrow> Inl ErrRPCResultFlightCapacity)"
      using False 1(1) 2(1) 3(1) NoReservation by (simp add: acquire_def expireReceipts_def split: attempt_result.split)
    ultimately show ?thesis using False NoReservation by (auto simp: acquire_trace_def)
  qed
qed

text \<open>The trace of \<open>Complete\<close>: one turn that succeeds, or one that the budget refuses, the reaping and a second turn.\<close>

definition complete_trace ::
  "int \<Rightarrow> (nat \<Rightarrow> int) \<Rightarrow> int \<Rightarrow> rpc_key \<Rightarrow> encoded_message \<Rightarrow> bool \<Rightarrow> fired list \<Rightarrow> ledger_event list \<Rightarrow> bool" where
  "complete_trace now1 clock now2 key enc replayable cbs tr \<longleftrightarrow>
     tr = [(OpComplete key enc replayable now1, RBool True, cbs)]
     \<or> (\<exists>fin. tr = (OpComplete key enc replayable now1, RBool False, [])
            # expire_trace clock [0..<rpcExecutionLedgerShards] @ [(OpComplete key enc replayable now2, RBool fin, cbs)])"

definition flight_calls :: "encoded_message \<Rightarrow> rpc_flight \<Rightarrow> fired list" where
  "flight_calls enc fl = map (\<lambda>c. RanResult c (Some enc) True) (subscribers fl)
     @ map (\<lambda>c. RanExecution c (executionDone fl \<and> f_executionOK fl)) (executionSubscribers fl)"

text \<open>The effect of one turn on the request: a pending flight is published, with its receipt.\<close>

definition published :: "maphash \<Rightarrow> int \<Rightarrow> rpc_key \<Rightarrow> encoded_message \<Rightarrow> bool \<Rightarrow> rpc_ledger \<Rightarrow> fired list \<Rightarrow> rpc_ledger \<Rightarrow> bool" where
  "published mh now key enc replayable l cbs l' \<longleftrightarrow> pending_at mh l' = (pending_at mh l)(key := None)
     \<and> (case pending_at mh l key of
          None \<Rightarrow> cbs = [] \<and> flights l' = flights l
        | Some f \<Rightarrow> cbs = flight_calls enc (flights l ! f)
            \<and> f_done (flights l' ! f) \<and> f_ok (flights l' ! f) \<and> f_encoded (flights l' ! f) = Some enc
            \<and> (f_acknowledged (flights l ! f) \<or> (\<exists>e. receipt_at mh l' key = Some e
                 \<and> expiresAt (receipts l' ! e) = now + rpcExecutionReceiptTTL
                 \<and> unavailable (receipts l' ! e) = (\<not> replayable)
                 \<and> rc_identity (receipts l' ! e) = f_identity (flights l ! f))))"

lemma completeOnce_published:
  assumes inv: "ledger_inv mh l"
  obtains l' fin cbs where "completeOnce mh now key enc replayable l = Ret (l', fin, cbs)" "ledger_inv mh l'"
    "published mh now key enc replayable l cbs l'" "\<not> fin \<Longrightarrow> pending_at mh l key = None"
  using inv
proof (cases rule: completeOnce_ok [of mh l now key enc replayable])
  case (known l0 fin)
  then show ?thesis using droppedD(4,5) [OF known(3)] by (intro that [of l0 fin "[]"]) (auto simp: published_def)
next
  case (published l0 l1 l' f fl fl')
  note d0 = droppedD [OF published(5)] and d2 = droppedD [OF published(13)]
  let ?e = "length (receipts l0)"
  have f: "f < length (flights l0)" using table_okD(5) [OF ledger_invD(1) [OF published(4)], of key f] published(1) d0(4)
    by (simp add: flight_ok_def)
  have fl': "flights l' ! f = fl'" using published(7) d2(5) f by (simp add: ended_def)
  have "receipt_at mh l1 key = Some ?e" by (simp add: published(10))
  then have "\<not> f_acknowledged fl \<Longrightarrow> receipt_at mh l' key = Some ?e \<and> receipts l' ! ?e = receipts l1 ! ?e"
    using d2(2) by blast
  moreover have "pending_at mh l' = (pending_at mh l)(key := None)"
    using published(7) d2(4) d0(4) by (simp add: ended_def)
  moreover have "resolved fl'" using published(7) by (simp add: ended_def)
  ultimately have "published mh now key enc replayable l (flight_calls enc fl) l'"
    using published(1,2,9,11) fl' by (auto simp: published_def resolved_def)
  then show ?thesis
    using published(3,12) by (intro that [of l' True]) (simp_all add: flight_calls_def)
next
  case (defensive l0 l' rc)
  then show ?thesis using droppedD(4,5) [OF defensive(4)] by (intro that [of l' True "[]"]) (auto simp: published_def)
qed

lemma Complete_run:
  assumes inv: "ledger_inv mh l" and key: "reqMsgID key \<noteq> 0" and rp: "rp = (replayable \<and> replay key \<noteq> None)"
  shows "\<exists>l' cbs tr. Complete mh replay now1 clock now2 key (Some enc) replayable l = Ret (l', cbs)
    \<and> ledger_run mh replay l tr l' \<and> complete_trace now1 clock now2 key enc rp cbs tr
    \<and> published mh now1 key enc rp l cbs l'"
proof -
  obtain l1 r1 c1 where 1: "completeOnce mh now1 key enc rp l = Ret (l1, r1, c1)" "ledger_inv mh l1"
    "published mh now1 key enc rp l c1 l1" "\<not> r1 \<Longrightarrow> pending_at mh l key = None"
    by (rule completeOnce_published [OF inv]) blast
  have run1: "ledger_run mh replay l [(OpComplete key enc rp now1, RBool r1, c1)] l1"
    by (rule run_single) (simp_all add: 1(1))
  show ?thesis
  proof (cases r1)
    case True
    then show ?thesis using key 1 run1 by (auto simp: Complete_def Let_def rp complete_trace_def)
  next
    case False
    let ?reap = "expire_trace clock [0..<rpcExecutionLedgerShards]"
    have none: "pending_at mh l key = None" "c1 = []" "pending_at mh l1 = pending_at mh l" "flights l1 = flights l"
      using 1(3) 1(4) [OF False] by (auto simp: published_def)
    obtain l2 where 2: "expire_shards mh clock [0..<rpcExecutionLedgerShards] l1 = Ret l2"
      "ledger_run mh replay l1 ?reap l2" "ledger_inv mh l2"
      "dropped mh (\<lambda>rc. expiresAt rc \<le> clock (shardIndex mh (rc_key rc))) l1 l2"
      using expire_shards_run [OF 1(2) distinct_upt] by blast
    obtain l3 r3 c3 where 3: "completeOnce mh now2 key enc rp l2 = Ret (l3, r3, c3)" "ledger_inv mh l3"
      "published mh now2 key enc rp l2 c3 l3" by (rule completeOnce_published [OF 2(3)]) blast
    have run3: "ledger_run mh replay l2 [(OpComplete key enc rp now2, RBool r3, c3)] l3"
      by (rule run_single) (simp_all add: 3(1))
    have "ledger_run mh replay l ([(OpComplete key enc rp now1, RBool r1, c1)] @ ?reap
        @ [(OpComplete key enc rp now2, RBool r3, c3)]) l3"
      by (intro run_append [OF run1] run_append [OF 2(2)] run3)
    moreover have "Complete mh replay now1 clock now2 key (Some enc) replayable l = Ret (l3, c3)"
      using key False 1(1) 2(1) 3(1) by (simp add: Complete_def Let_def expireReceipts_def rp)
    moreover have "published mh now1 key enc rp l c3 l3"
      using 3(3) none droppedD(4,5) [OF 2(4)] by (simp add: published_def)
    ultimately show ?thesis using False none(2) by (auto simp: complete_trace_def)
  qed
qed

end
