(* ===== verification/Rpc_Guarantees.thy ===== *)
theory Rpc_Guarantees
  imports Rpc_Operations
begin

text \<open>
  What the RPC execution ledger guarantees, stated over runs from a new ledger: a request is
  executed once, no operation panics, the exported operations are runs of single-lock steps,
  budgets are exact and bounded, callbacks run exactly once, published results are immutable, the
  admission floor is safe and duplicates are answered from the receipt. Each proof combines the
  invariant of \<open>Rpc_Ledger_Invariant\<close> with the run lemmas of \<open>Rpc_Executions\<close> and \<open>Rpc_Operations\<close>.
\<close>

section \<open>Properties\<close>

text \<open>The ledger of the witnesses: one hash shard, small limits, one request.\<close>

definition demo_hash :: maphash where
  "demo_hash bs = 0"

definition demo_replay :: replay_store where
  "demo_replay key = Some 7"

definition demo_capacity :: ledger_capacity where
  "demo_capacity = \<lparr>maxPending = 2, maxPendingPerAuth = 2, globalMaxEntries = 4, authMaxEntries = 3,
     sessionMaxEntries = 3, subscriberMaxGlobal = 4, subscriberMaxAuth = 4, subscriberMaxSession = 4,
     subscriberMaxPerFlight = 2\<rparr>"

definition demo_key :: rpc_key where
  "demo_key = RpcKey 1 5 100"

definition demo_identity :: request_identity where
  "demo_identity = \<lparr>exact = ''q'', profile = 201, valid_identity = True\<rparr>"

lemmas demo_defs = demo_hash_def demo_replay_def demo_capacity_def demo_key_def demo_identity_def

lemma demo_owner:
  obtains l1 where "exec demo_hash demo_replay (OpAttempt demo_key demo_identity 0)
      (newRPCExecutionLedger demo_capacity) = Ret (l1, RAttempt (Answer (Inr (Owner 1 0))), [])"
    "pending_at demo_hash l1 demo_key = Some 0" "flights l1 = [new_flight demo_identity 1 0]"
proof -
  let ?l = "newRPCExecutionLedger demo_capacity"
  have "\<exists>l1. exec demo_hash demo_replay (OpAttempt demo_key demo_identity 0) ?l
      = Ret (l1, RAttempt (Answer (Inr (Owner 1 0))), [])
      \<and> pending_at demo_hash l1 demo_key = Some 0 \<and> flights l1 = [new_flight demo_identity 1 0]"
    by (simp add: newRPCExecutionLedger_def demo_defs attempt_def expireLocked_def Let_def
        default_if_not_positive_def receipt_at_def pending_at_def limit_reserve_def limit_reserveN_def
        reserveOwner_def fair_reserve_def newRPCExecutionFairBudget_def flat_def read_usage_def
        zero_usage_def withinRPCExecutionBudget_def admit_def allocateAndRegister_def install_owner_def
        set_pending_def)
  then show thesis using that by blast
qed

lemma demo_reachable:
  obtains l1 where "reachable demo_hash demo_replay demo_capacity l1"
    "pending_at demo_hash l1 demo_key = Some 0" "flights l1 = [new_flight demo_identity 1 0]"
proof -
  obtain l1 where l1: "exec demo_hash demo_replay (OpAttempt demo_key demo_identity 0)
      (newRPCExecutionLedger demo_capacity) = Ret (l1, RAttempt (Answer (Inr (Owner 1 0))), [])"
    "pending_at demo_hash l1 demo_key = Some 0" "flights l1 = [new_flight demo_identity 1 0]"
    by (rule demo_owner)
  have "ledger_run demo_hash demo_replay (newRPCExecutionLedger demo_capacity)
      [(OpAttempt demo_key demo_identity 0, RAttempt (Answer (Inr (Owner 1 0))), [])] l1"
    by (rule run_single [OF _ l1(1)]) simp
  then have "reachable demo_hash demo_replay demo_capacity l1" by (auto simp: reachable_def)
  then show thesis using l1(2,3) by (rule that)
qed

lemma reachable_step:
  "reachable mh replay c l \<Longrightarrow> op_ok l op \<Longrightarrow> exec mh replay op l = Ret (l', r, cbs) \<Longrightarrow>
   reachable mh replay c l'"
  unfolding reachable_def by (blast intro: run_snoc)

text \<open>
  C4. A request is executed once. After an attempt has made its caller the owner of a request, no
  later attempt on the same request, whoever makes it and whatever other operations ran in
  between, makes a second owner within the receipt horizon of 331 seconds, unless the owner
  aborted its lease, the client acknowledged the answer or the session was destroyed.
\<close>

theorem rpc_single_execution:
  assumes "reachable mh replay c l"
    and "exec mh replay (OpAttempt key identity t0) l
      = Ret (l1, RAttempt (Answer (Inr (Owner q x))), cbs1)"
    and "ledger_run mh replay l1 tr l2"
    and "\<forall>(op, r, cbs)\<in>set tr. \<not> gives_up key x op \<and> within_horizon t0 op"
    and "t0 \<le> t" "t < t0 + rpcExecutionReceiptTTL"
    and "exec mh replay (OpAttempt key identity' t) l2 = Ret (l3, r, cbs)"
  shows "\<forall>q' x'. r \<noteq> RAttempt (Answer (Inr (Owner q' x')))"
proof -
  have inv: "ledger_inv mh l" by (rule reachable_inv [OF assms(1)])
  obtain tr0 where tr0: "ledger_run mh replay (newRPCExecutionLedger c) tr0 l"
    using assms(1) by (auto simp: reachable_def)
  have "distinct (lease_flights l)"
    by (rule lease_flights_run [OF tr0 new_ledger_inv])
      (simp add: lease_flights_def newRPCExecutionLedger_def Let_def)
  from claimed_start [OF inv this assms(2)] obtain f where c1: "claimed mh t0 key x f l1" by blast
  have inv1: "ledger_inv mh l1" using exec_goodD(1) [OF inv _ assms(2)] by simp
  have inv2: "ledger_inv mh l2" by (rule ledger_run_inv [OF assms(3) inv1])
  have "claimed mh t0 key x f l2" by (rule claimed_run [OF assms(3) inv1 c1 assms(4)])
  then show ?thesis using claimed_no_owner [OF inv2 assms(7) _ assms(6)] by blast
qed

theorem rpc_single_execution_witness:
  "\<exists>l1 l3 r cbs. exec demo_hash demo_replay (OpAttempt demo_key demo_identity 0)
      (newRPCExecutionLedger demo_capacity) = Ret (l1, RAttempt (Answer (Inr (Owner 1 0))), [])
    \<and> exec demo_hash demo_replay (OpAttempt demo_key demo_identity 9) l1 = Ret (l3, r, cbs)
    \<and> (\<forall>q' x'. r \<noteq> RAttempt (Answer (Inr (Owner q' x'))))"
proof -
  obtain l1 where l1: "exec demo_hash demo_replay (OpAttempt demo_key demo_identity 0)
      (newRPCExecutionLedger demo_capacity) = Ret (l1, RAttempt (Answer (Inr (Owner 1 0))), [])"
    by (rule demo_owner)
  have r: "reachable demo_hash demo_replay demo_capacity (newRPCExecutionLedger demo_capacity)"
    unfolding reachable_def by (blast intro: run_nil)
  have inv1: "ledger_inv demo_hash l1" using exec_goodD(1) [OF new_ledger_inv _ l1] by simp
  obtain l3 r3 cbs where l3: "exec demo_hash demo_replay (OpAttempt demo_key demo_identity 9) l1
      = Ret (l3, r3, cbs)"
    using exec_good [OF inv1, of "OpAttempt demo_key demo_identity 9" demo_replay]
    by (auto simp: good_exec_def)
  have "\<forall>q' x'. r3 \<noteq> RAttempt (Answer (Inr (Owner q' x')))"
    by (rule rpc_single_execution [OF r l1 run_nil _ _ _ l3]) (simp_all add: rpcExecutionReceiptTTL_def)
  with l1 l3 show ?thesis by blast
qed

text \<open>
  C5. No operation panics. From every reachable ledger, every operation on handles that the
  ledger has given out returns: none of the guards against a double release, a counter underflow,
  a missing reservation, a retired sequence or a closed channel ever fires, and the ledger is
  reachable again.
\<close>

theorem rpc_no_panic:
  assumes "reachable mh replay c l" "op_ok l op"
  shows "\<exists>l' r cbs. exec mh replay op l = Ret (l', r, cbs) \<and> reachable mh replay c l'"
proof -
  obtain l' r cbs where "exec mh replay op l = Ret (l', r, cbs)"
    using exec_good [OF reachable_inv [OF assms(1)] assms(2), of replay] by (auto simp: good_exec_def)
  with reachable_step [OF assms] show ?thesis by blast
qed

theorem rpc_no_panic_witness:
  "\<exists>l l' r cbs. pending_at demo_hash l demo_key = Some 0
     \<and> exec demo_hash demo_replay (OpComplete demo_key 7 True 3) l = Ret (l', r, cbs)
     \<and> reachable demo_hash demo_replay demo_capacity l'"
proof -
  obtain l1 where "reachable demo_hash demo_replay demo_capacity l1"
    "pending_at demo_hash l1 demo_key = Some 0" by (rule demo_reachable)
  with rpc_no_panic [of demo_hash demo_replay demo_capacity l1 "OpComplete demo_key 7 True 3"]
  show ?thesis by auto
qed

text \<open>
  C6. The exported operations that take several locks in turn are runs of the single-lock
  operations, from every reachable ledger, with exactly these steps. \<open>acquire\<close> makes one attempt,
  whose answer it returns, or an attempt that finds no reservation, the reaping of every shard in
  turn and a second attempt, whose answer or a capacity error it returns. \<open>Complete\<close> makes one turn,
  or a refused turn that runs no callback, the reaping and a second turn, and returns the callbacks
  of the last: afterwards the request is not pending, its flight is done with the encoded result, its
  subscribers are exactly the callbacks run, and unless it was acknowledged there is a receipt
  for the full time to live. \<open>expireReceipts\<close> reaps each shard once: what it drops has expired by
  that shard's clock, and no list of a shard starts with an expired receipt. \<open>forgetSession\<close> visits
  each shard once, drops no receipt of another session and leaves none of its own.
\<close>

theorem rpc_operations_refine_steps:
  assumes "reachable mh replay c l" and rp: "rp = (replayable \<and> replay key \<noteq> None)"
  shows "(\<exists>l' r tr. acquire mh replay now1 clock now2 key identity l = Ret (l', r)
        \<and> ledger_run mh replay l tr l' \<and> acquire_trace now1 clock now2 key identity r tr)
    \<and> (if reqMsgID key = 0 then Complete mh replay now1 clock now2 key (Some enc) replayable l = Ret (l, [])
       else \<exists>l' cbs tr. Complete mh replay now1 clock now2 key (Some enc) replayable l = Ret (l', cbs)
        \<and> ledger_run mh replay l tr l' \<and> complete_trace now1 clock now2 key enc rp cbs tr
        \<and> published mh now1 key enc rp l cbs l')
    \<and> (\<exists>l'. expireReceipts mh clock l = Ret l'
        \<and> ledger_run mh replay l (expire_trace clock [0..<rpcExecutionLedgerShards]) l'
        \<and> dropped mh (\<lambda>rc. expiresAt rc \<le> clock (shardIndex mh (rc_key rc))) l l'
        \<and> (\<forall>i<rpcExecutionLedgerShards. head_live (clock i) i l'))
    \<and> (\<exists>l'. forgetSession mh a sid l = Ret l'
        \<and> ledger_run mh replay l (forget_trace a sid [0..<rpcExecutionLedgerShards]) l'
        \<and> dropped mh (\<lambda>rc. session_of (rc_key rc) = (a, sid)) l l'
        \<and> (\<forall>k. session_of k = (a, sid) \<longrightarrow> receipt_at mh l' k = None))"
proof -
  note inv = reachable_inv [OF assms(1)]
  have "\<exists>l'. expireReceipts mh clock l = Ret l'
        \<and> ledger_run mh replay l (expire_trace clock [0..<rpcExecutionLedgerShards]) l'
        \<and> dropped mh (\<lambda>rc. expiresAt rc \<le> clock (shardIndex mh (rc_key rc))) l l'
        \<and> (\<forall>i<rpcExecutionLedgerShards. head_live (clock i) i l')"
    unfolding expireReceipts_def using expire_shards_run [OF inv distinct_upt, of clock 0 rpcExecutionLedgerShards replay]
    by (fastforce simp: atLeast0LessThan)
  moreover have "\<exists>l'. forgetSession mh a sid l = Ret l'
        \<and> ledger_run mh replay l (forget_trace a sid [0..<rpcExecutionLedgerShards]) l'
        \<and> dropped mh (\<lambda>rc. session_of (rc_key rc) = (a, sid)) l l'
        \<and> (\<forall>k. session_of k = (a, sid) \<longrightarrow> receipt_at mh l' k = None)"
    unfolding forgetSession_def
    using forget_shards_run [OF inv, of a sid "[0..<rpcExecutionLedgerShards]" replay] shardIndex_less [of mh] by auto
  moreover have "if reqMsgID key = 0 then Complete mh replay now1 clock now2 key (Some enc) replayable l = Ret (l, [])
       else \<exists>l' cbs tr. Complete mh replay now1 clock now2 key (Some enc) replayable l = Ret (l', cbs)
        \<and> ledger_run mh replay l tr l' \<and> complete_trace now1 clock now2 key enc rp cbs tr
        \<and> published mh now1 key enc rp l cbs l'"
    using Complete_run [of mh l key rp replayable replay now1 clock now2 enc] inv rp by (simp add: Complete_def)
  ultimately show ?thesis using acquire_run [OF inv] by (intro conjI)
qed

theorem rpc_operations_refine_steps_witness:
  "\<exists>l l' cbs. flights l = [new_flight demo_identity 1 0]
     \<and> Complete demo_hash demo_replay 1 (\<lambda>_. 2) 3 demo_key (Some 7) True l = Ret (l', cbs)
     \<and> pending_at demo_hash l' demo_key = None
     \<and> (\<exists>l'. forgetSession demo_hash 1 5 l = Ret l' \<and> receipt_at demo_hash l' demo_key = None)"
proof -
  obtain l1 where l1: "reachable demo_hash demo_replay demo_capacity l1"
    and fl: "flights l1 = [new_flight demo_identity 1 0]" by (rule demo_reachable)
  note ops = rpc_operations_refine_steps [where mh = demo_hash and replay = demo_replay and key = demo_key and ?now1.0 = 1 and clock = "\<lambda>_. 2"
    and ?now2.0 = 3 and identity = demo_identity and enc = 7 and replayable = True and a = 1 and sid = 5, OF l1 refl]
  have key: "reqMsgID demo_key \<noteq> 0" "session_of demo_key = (1, 5)" by (simp_all add: demo_key_def session_of_def)
  obtain l' cbs where "Complete demo_hash demo_replay 1 (\<lambda>_. 2) 3 demo_key (Some 7) True l1 = Ret (l', cbs)"
    "pending_at demo_hash l' demo_key = None"
    using ops key(1) by (auto simp: published_def)
  moreover have "\<exists>l'. forgetSession demo_hash 1 5 l1 = Ret l' \<and> receipt_at demo_hash l' demo_key = None"
    using ops key(2) by blast
  ultimately show ?thesis using fl by blast
qed

lemma owned_scopes:
  assumes "table_ok mh l"
  shows "size (owned mh l) = card (dom (pending_at mh l) \<union> dom (receipt_at mh l))"
    "at_auth a (keys_of (owned mh l))
      = card {k \<in> dom (pending_at mh l) \<union> dom (receipt_at mh l). authKeyID k = a}"
    "at_session s (keys_of (owned mh l))
      = card {k \<in> dom (pending_at mh l) \<union> dom (receipt_at mh l). session_of k = s}"
    "at_auth a (pending_of (owned mh l)) = card {k \<in> dom (pending_at mh l). authKeyID k = a}"
proof -
  note fin = table_okD(2,3) [OF assms]
  have "card (dom (pending_at mh l)) + card (dom (receipt_at mh l))
      = card (dom (pending_at mh l) \<union> dom (receipt_at mh l))"
    using card_owned [OF assms, of "\<lambda>k. True"] by (simp only: simp_thms Collect_mem_eq)
  then show "size (owned mh l) = card (dom (pending_at mh l) \<union> dom (receipt_at mh l))"
    by (simp add: owned_def)
qed (simp_all only: owned_parts at_auth_simps at_session_simps at_auth_mset_set at_session_mset_set
    table_okD(2,3) [OF assms] card_owned [OF assms])

text \<open>
  C28. The budgets are exact. In every reachable ledger the flight counter is the number of pending
  flights, the global entry counter the number of requests that are pending or have a receipt, the
  receipt counter the number of receipts, and the usages read for an authorization key or a session
  are the numbers of its own pending and remembered requests: nothing leaks and nothing is counted
  twice.
\<close>

theorem rpc_budgets_exact:
  assumes "reachable mh replay c l"
  shows "lim_used (flightLimit l) = int (card (dom (pending_at mh l)))
    \<and> lim_used (globalEntries (fairBudget l))
        = int (card (dom (pending_at mh l) \<union> dom (receipt_at mh l)))
    \<and> receiptCount l = int (card (dom (receipt_at mh l)))
    \<and> authSnapshot mh (fairBudget l) a =
        \<lparr>u_entries = int (card {k \<in> dom (pending_at mh l) \<union> dom (receipt_at mh l). authKeyID k = a}),
         u_pending = int (card {k \<in> dom (pending_at mh l). authKeyID k = a})\<rparr>
    \<and> sessionSnapshot mh (fairBudget l) a sid =
        \<lparr>u_entries = int (card {k \<in> dom (pending_at mh l) \<union> dom (receipt_at mh l). session_of k = (a, sid)}),
         u_pending = 0\<rparr>"
proof -
  note inv = reachable_inv [OF assms]
  note t = ledger_invD(1) [OF inv]
  have b: "budgets_ok mh l" using inv by (simp add: ledger_inv_def)
  have fair: "fair_accounts mh (fairBudget l) (owned mh l)" using b by (simp add: budgets_ok_def)
  have "lim_used (flightLimit l) = int (card (dom (pending_at mh l)))"
    "receiptCount l = int (card (dom (receipt_at mh l)))"
    using b by (simp_all add: budgets_ok_def limit_accounts_def)
  moreover have "lim_used (globalEntries (fairBudget l)) = int (size (owned mh l))"
    using fair by (simp add: fair_accounts_def)
  moreover have "authSnapshot mh (fairBudget l) a = \<lparr>u_entries = int (at_auth a (keys_of (owned mh l))),
      u_pending = int (at_auth a (pending_of (owned mh l)))\<rparr>"
    using fair pending_le_keys [of a "owned mh l"]
    by (simp add: fair_accounts_def authSnapshot_def usage_entry_def read_usage_def zero_usage_def)
  moreover have "sessionSnapshot mh (fairBudget l) a sid
      = \<lparr>u_entries = int (at_session (a, sid) (keys_of (owned mh l))), u_pending = 0\<rparr>"
    using fair by (simp add: fair_accounts_def sessionSnapshot_def usage_entry_def read_usage_def zero_usage_def)
  ultimately show ?thesis unfolding owned_scopes [OF t] by (intro conjI)
qed

theorem rpc_budgets_exact_witness:
  "\<exists>l. flights l = [new_flight demo_identity 1 0] \<and>
     authSnapshot demo_hash (fairBudget l) 1 =
        \<lparr>u_entries = int (card {k \<in> dom (pending_at demo_hash l) \<union> dom (receipt_at demo_hash l). authKeyID k = 1}),
         u_pending = int (card {k \<in> dom (pending_at demo_hash l). authKeyID k = 1})\<rparr>"
proof -
  obtain l1 where l1: "reachable demo_hash demo_replay demo_capacity l1"
    "flights l1 = [new_flight demo_identity 1 0]" by (rule demo_reachable)
  show ?thesis by (rule exI [of _ l1], rule conjI, rule l1(2)) (use rpc_budgets_exact [OF l1(1), of 1] in simp)
qed

definition capacity_positive :: "ledger_capacity \<Rightarrow> bool" where
  "capacity_positive c \<longleftrightarrow> 0 < maxPending c \<and> 0 < maxPendingPerAuth c \<and> 0 < globalMaxEntries c
     \<and> 0 < authMaxEntries c \<and> 0 < sessionMaxEntries c \<and> 0 < subscriberMaxGlobal c
     \<and> 0 < subscriberMaxAuth c \<and> 0 < subscriberMaxSession c \<and> 0 < subscriberMaxPerFlight c"

lemma reachable_limits:
  assumes "reachable mh replay c l" "capacity_positive c"
  shows "limits l = ((globalMaxEntries c, authMaxEntries c, sessionMaxEntries c, maxPendingPerAuth c),
    maxPending c, (subscriberMaxGlobal c, subscriberMaxAuth c, subscriberMaxSession c),
    subscriberMaxPerFlight c)"
proof -
  obtain tr where "ledger_run mh replay (newRPCExecutionLedger c) tr l"
    using assms(1) by (auto simp: reachable_def)
  from run_limits [OF this] assms(2) show ?thesis
    by (simp add: limits_def fair_limits_def subscriber_limits_def newRPCExecutionLedger_def Let_def
        default_if_not_positive_def capacity_positive_def newRPCExecutionFairBudget_def
        newRPCResultSubscriberBudget_def)
qed

text \<open>
  No tenant exceeds its share. With positive limits, the pending requests, the pending requests
  of one authorization key, the remembered requests of one key and of one session, and the
  callbacks retained for one flight stay within the configured capacity in every reachable ledger.
\<close>

theorem rpc_limits_respected:
  assumes "reachable mh replay c l" "capacity_positive c"
  shows "int (card (dom (pending_at mh l))) \<le> maxPending c
    \<and> int (card {k \<in> dom (pending_at mh l). authKeyID k = a}) \<le> maxPendingPerAuth c
    \<and> int (card (dom (pending_at mh l) \<union> dom (receipt_at mh l))) \<le> globalMaxEntries c
    \<and> int (card {k \<in> dom (pending_at mh l) \<union> dom (receipt_at mh l). authKeyID k = a}) \<le> authMaxEntries c
    \<and> int (card {k \<in> dom (pending_at mh l) \<union> dom (receipt_at mh l). session_of k = s})
        \<le> sessionMaxEntries c
    \<and> (\<forall>f<length (flights l). subscriberSlots (flights l ! f) \<le> subscriberMaxPerFlight c)
    \<and> lim_used (sub_global (subscriberBudget l)) \<le> subscriberMaxGlobal c"
proof -
  note inv = reachable_inv [OF assms(1)]
  note t = ledger_invD(1) [OF inv]
  have b: "budgets_ok mh l" using inv by (simp add: ledger_inv_def)
  have fair: "fair_within (fairBudget l) (owned mh l)"
    and sub: "subscriber_accounts mh (subscriberBudget l) (charged mh l)"
    and pend: "limit_accounts (flightLimit l) (replicate_mset (card (dom (pending_at mh l))) ())"
    using b by (simp_all add: budgets_ok_def fair_accounts_def)
  have lim: "lim_max (globalEntries (fairBudget l)) = globalMaxEntries c"
    "authLimit (fairBudget l) = authMaxEntries c" "sessionLimit (fairBudget l) = sessionMaxEntries c"
    "pendingPerAuth (fairBudget l) = maxPendingPerAuth c" "lim_max (flightLimit l) = maxPending c"
    "lim_max (sub_global (subscriberBudget l)) = subscriberMaxGlobal c"
    "subscriberPerFlight l = subscriberMaxPerFlight c"
    using reachable_limits [OF assms] by (simp_all add: limits_def fair_limits_def subscriber_limits_def)
  have "subscriberSlots (flights l ! f) \<le> subscriberMaxPerFlight c" if "f < length (flights l)" for f
  proof (cases "f \<in> ran (pending_at mh l)")
    case True
    then show ?thesis using table_okD(5) [OF t] lim(7) by (auto simp: ran_def flight_ok_def)
  next
    case False
    then show ?thesis using table_okD(7) [OF t that False] assms(2)
      by (simp add: resolved_def capacity_positive_def)
  qed
  moreover note fair [unfolded fair_within_def owned_scopes [OF t] lim]
  moreover have "int (card (dom (pending_at mh l))) \<le> maxPending c"
    "lim_used (sub_global (subscriberBudget l)) \<le> subscriberMaxGlobal c"
    using pend sub lim by (simp_all add: limit_accounts_def subscriber_accounts_def subscriber_within_def)
  ultimately show ?thesis by blast
qed

theorem rpc_limits_respected_witness:
  "capacity_positive demo_capacity
   \<and> (\<exists>l. flights l = [new_flight demo_identity 1 0] \<and> int (card (dom (pending_at demo_hash l))) \<le> 2)"
proof -
  have pos: "capacity_positive demo_capacity" by (simp add: capacity_positive_def demo_capacity_def)
  obtain l1 where l1: "reachable demo_hash demo_replay demo_capacity l1"
    "flights l1 = [new_flight demo_identity 1 0]" by (rule demo_reachable)
  have "int (card (dom (pending_at demo_hash l1))) \<le> 2"
    using rpc_limits_respected [OF l1(1) pos] by (simp add: demo_capacity_def)
  with pos l1(2) show ?thesis by (intro conjI exI [of _ l1])
qed

lemma retained_none:
  assumes "table_ok mh l" "dom (pending_at mh l) = {}"
  shows "retained_results l = {#}" "retained_executions l = {#}"
proof -
  have "ran (pending_at mh l) = {}" using assms(2) by (auto simp: ran_def dom_def)
  then have "\<forall>fl\<in>set (flights l). resolved fl"
    using table_okD(7) [OF assms(1)] by (auto simp: in_set_conv_nth)
  then show "retained_results l = {#}" "retained_executions l = {#}"
    by (auto simp: retained_results_def retained_executions_def resolved_def)
qed

text \<open>
  C29. Callbacks run exactly once. Along every run from a new ledger, the callbacks that have been
  run, together with those that pending flights still retain, are exactly those that were accepted,
  counted with multiplicity; in particular when no request is pending, every accepted result and
  execution callback has run once and once only.
\<close>

theorem rpc_callbacks_exactly_once:
  assumes "ledger_run mh replay (newRPCExecutionLedger c) tr l"
  shows "mset (trace_results tr) + retained_results l = mset (trace_accepted_results tr)
    \<and> mset (trace_executions tr) + retained_executions l = mset (trace_accepted_executions tr)
    \<and> (dom (pending_at mh l) = {} \<longrightarrow> retained_results l = {#} \<and> retained_executions l = {#})"
proof -
  have "retained_results (newRPCExecutionLedger c) = {#}" "retained_executions (newRPCExecutionLedger c) = {#}"
    by (simp_all add: retained_results_def retained_executions_def newRPCExecutionLedger_def Let_def)
  then show ?thesis
    using run_conserves [OF assms new_ledger_inv]
      retained_none [OF ledger_invD(1) [OF ledger_run_inv [OF assms new_ledger_inv]]]
    by (simp add: add.commute)
qed

text \<open>A request with one result callback, subscribed while it is pending and run when it completes.\<close>

lemma demo_subscribed:
  obtains l1 l2 where "exec demo_hash demo_replay (OpAttempt demo_key demo_identity 0)
      (newRPCExecutionLedger demo_capacity) = Ret (l1, RAttempt (Answer (Inr (Owner 1 0))), [])"
    "exec demo_hash demo_replay (OpSubscribe (demo_key, 0) (Some 9) None) l1 = Ret (l2, RSubscribed None, [])"
    "flights l1 = [new_flight demo_identity 1 0]" "pending_at demo_hash l2 = [demo_key \<mapsto> 0]"
proof -
  let ?l = "newRPCExecutionLedger demo_capacity"
  have "\<exists>l1. exec demo_hash demo_replay (OpAttempt demo_key demo_identity 0) ?l
      = Ret (l1, RAttempt (Answer (Inr (Owner 1 0))), [])
      \<and> flights l1 = [new_flight demo_identity 1 0] \<and> pending_at demo_hash l1 = [demo_key \<mapsto> 0]
      \<and> subscriberBudget l1 = subscriberBudget ?l \<and> subscriberPerFlight l1 = subscriberPerFlight ?l"
    by (simp add: newRPCExecutionLedger_def demo_defs attempt_def expireLocked_def Let_def
        default_if_not_positive_def receipt_at_def pending_at_def limit_reserve_def limit_reserveN_def
        reserveOwner_def fair_reserve_def newRPCExecutionFairBudget_def flat_def read_usage_def
        zero_usage_def withinRPCExecutionBudget_def admit_def allocateAndRegister_def install_owner_def
        set_pending_def shardIndex_def fun_eq_iff)
  then obtain l1 where l1: "exec demo_hash demo_replay (OpAttempt demo_key demo_identity 0) ?l
      = Ret (l1, RAttempt (Answer (Inr (Owner 1 0))), [])"
    "flights l1 = [new_flight demo_identity 1 0]" "pending_at demo_hash l1 = [demo_key \<mapsto> 0]"
    "subscriberBudget l1 = subscriberBudget ?l" "subscriberPerFlight l1 = subscriberPerFlight ?l" by blast
  have "\<exists>l2. exec demo_hash demo_replay (OpSubscribe (demo_key, 0) (Some 9) None) l1 = Ret (l2, RSubscribed None, [])
      \<and> pending_at demo_hash l2 = [demo_key \<mapsto> 0]"
    by (simp add: subscribe_def subscribe_pending_def l1(2-5) slots_needed_def new_flight_def Let_def
        subscriber_reserve_def newRPCExecutionLedger_def newRPCResultSubscriberBudget_def demo_capacity_def default_if_not_positive_def
        read_count_def flat_def withinRPCExecutionBudget_def limit_reserveN_def)
  then show thesis using l1 that by blast
qed

theorem rpc_callbacks_exactly_once_witness:
  "\<exists>l cbs. ledger_run demo_hash demo_replay (newRPCExecutionLedger demo_capacity)
      [(OpAttempt demo_key demo_identity 0, RAttempt (Answer (Inr (Owner 1 0))), []),
       (OpSubscribe (demo_key, 0) (Some 9) None, RSubscribed None, []),
       (OpComplete demo_key 7 True 3, RBool True, cbs)] l
    \<and> result_runs cbs = [9]"
proof -
  obtain l1 l2 where l1: "exec demo_hash demo_replay (OpAttempt demo_key demo_identity 0)
      (newRPCExecutionLedger demo_capacity) = Ret (l1, RAttempt (Answer (Inr (Owner 1 0))), [])"
    and l2: "exec demo_hash demo_replay (OpSubscribe (demo_key, 0) (Some 9) None) l1 = Ret (l2, RSubscribed None, [])"
    and fl: "flights l1 = [new_flight demo_identity 1 0]" and pend: "pending_at demo_hash l2 = [demo_key \<mapsto> 0]"
    by (rule demo_subscribed)
  have run2: "ledger_run demo_hash demo_replay (newRPCExecutionLedger demo_capacity)
      ([(OpAttempt demo_key demo_identity 0, RAttempt (Answer (Inr (Owner 1 0))), [])]
       @ [(OpSubscribe (demo_key, 0) (Some 9) None, RSubscribed None, [])]) l2"
    by (intro run_append [OF run_single [OF _ l1]] run_single [OF _ l2]) (simp_all add: fl)
  obtain l3 fin cbs where l3: "completeOnce demo_hash 3 demo_key 7 True l2 = Ret (l3, fin, cbs)"
    "published demo_hash 3 demo_key 7 True l2 cbs l3" "\<not> fin \<Longrightarrow> pending_at demo_hash l2 demo_key = None"
    by (rule completeOnce_published [OF ledger_run_inv [OF run2 new_ledger_inv]]) blast
  then have fin: "fin" and none: "dom (pending_at demo_hash l3) = {}" using pend by (auto simp: published_def)
  have run: "ledger_run demo_hash demo_replay (newRPCExecutionLedger demo_capacity)
      [(OpAttempt demo_key demo_identity 0, RAttempt (Answer (Inr (Owner 1 0))), []),
       (OpSubscribe (demo_key, 0) (Some 9) None, RSubscribed None, []),
       (OpComplete demo_key 7 True 3, RBool True, cbs)] l3"
    using run_snoc [OF run2, of "OpComplete demo_key 7 True 3" l3 "RBool True" cbs] l3(1) fin by simp
  have "result_runs cbs = [9]" using rpc_callbacks_exactly_once [OF run] none by (auto simp: new_results_def)
  with run show ?thesis by blast
qed

text \<open>
  What a flight has published never changes. Along every run from a reachable ledger a finished
  flight stays as it is, answer included; a handler's outcome, once published, keeps its value; and
  the identity of the request a flight stands for never changes.
\<close>

theorem rpc_results_immutable:
  assumes "reachable mh replay c l" "ledger_run mh replay l tr l'" "f < length (flights l)"
  shows "(f_done (flights l ! f) \<longrightarrow> flights l' ! f = flights l ! f)
    \<and> (executionDone (flights l ! f) \<longrightarrow> executionDone (flights l' ! f)
        \<and> f_executionOK (flights l' ! f) = f_executionOK (flights l ! f))
    \<and> f_identity (flights l' ! f) = f_identity (flights l ! f)"
  using ledger.run_le [OF run_steps [OF assms(2)] reachable_inv [OF assms(1)]] assms(3)
  by (simp add: flights_le_def flight_le_def)

theorem rpc_results_immutable_witness:
  "\<exists>l1 l2 r cbs. flights l1 = [new_flight demo_identity 1 0]
     \<and> exec demo_hash demo_replay (OpComplete demo_key 7 True 3) l1 = Ret (l2, r, cbs)
     \<and> f_identity (flights l2 ! 0) = demo_identity"
proof -
  obtain l1 where l1: "reachable demo_hash demo_replay demo_capacity l1"
    and fl: "flights l1 = [new_flight demo_identity 1 0]" by (rule demo_reachable)
  obtain l2 r cbs where e: "exec demo_hash demo_replay (OpComplete demo_key 7 True 3) l1 = Ret (l2, r, cbs)"
    using exec_good [OF reachable_inv [OF l1], of "OpComplete demo_key 7 True 3" demo_replay]
    by (auto simp: good_exec_def)
  have run: "ledger_run demo_hash demo_replay l1 [(OpComplete demo_key 7 True 3, r, cbs)] l2"
    by (rule run_single [OF _ e]) simp
  have "f_identity (flights l2 ! 0) = demo_identity"
    using rpc_results_immutable [OF l1 run, of 0] fl by (simp add: new_flight_def)
  with fl e show ?thesis by (intro exI [of _ l1] exI [of _ l2] exI [of _ r] exI [of _ cbs] conjI)
qed

text \<open>
  The admission floor is safe. Once \<open>stableAdmissionSafeFloor\<close> has been computed, every request
  that is pending at that moment or at any later moment of the run and that has an admission
  sequence has one that is not below the floor.
\<close>

theorem rpc_safe_floor:
  assumes "reachable mh replay c l" "ledger_run mh replay l tr l'"
    "pending_at mh l' k = Some f" "f_admissionSeq (flights l' ! f) \<noteq> 0"
  shows "stableAdmissionSafeFloor l \<le> f_admissionSeq (flights l' ! f)"
proof -
  note inv = reachable_inv [OF assms(1)]
  have "f_admissionSeq (flights l' ! f) \<in> active (activeAdmissions l')"
    using admissions_okD(2) [OF ledger_invD(3) [OF ledger_run_inv [OF assms(2) inv]]] assms(3,4) by blast
  then show ?thesis using floor_bound [OF inv assms(4)] run_sequences [OF assms(2) inv] by blast
qed

theorem rpc_safe_floor_witness:
  "\<exists>l. pending_at demo_hash l demo_key = Some 0 \<and> stableAdmissionSafeFloor l \<le> 1"
proof -
  obtain l1 where l1: "reachable demo_hash demo_replay demo_capacity l1"
    "pending_at demo_hash l1 demo_key = Some 0" "flights l1 = [new_flight demo_identity 1 0]"
    by (rule demo_reachable)
  from rpc_safe_floor [OF l1(1) run_nil l1(2)] l1(2,3) show ?thesis by (auto simp: new_flight_def)
qed

text \<open>
  C30. A duplicate is answered from the receipt. After a request has completed with a replayable
  answer, a retry of the same message id within the receipt's lifetime returns the stored answer
  with the sequence and the outcome of the execution; a retry with another body, or on another
  profile, is refused; a lost answer is reported as unavailable. None of them runs the handler.
\<close>

theorem rpc_duplicate_answer:
  assumes "reachable mh replay c l" "pending_at mh l key = Some f" "\<not> f_acknowledged (flights l ! f)"
    and "completeOnce mh now key enc True l = Ret (l1, r, cbs)"
    and "t < now + rpcExecutionReceiptTTL"
  shows "\<exists>l2. attempt mh replay t key identity l1 = Ret (l2, Answer
    (if \<not> identity_matches (f_identity (flights l ! f)) identity
       then Inl (identityMismatch (f_identity (flights l ! f)))
     else case replay key of
       None \<Rightarrow> Inl ErrRPCResultReplayUnavailable
     | Some answer \<Rightarrow> Inr (Completed (f_admissionSeq (flights l ! f)) answer
         (executionDone (flights l ! f)) (f_executionOK (flights l ! f)))))"
proof -
  note inv = reachable_inv [OF assms(1)]
  have inv1: "ledger_inv mh l1"
    using exec_goodD(1) [OF inv, of "OpComplete key enc True now" replay] assms(4) by simp
  obtain e where e: "receipt_at mh l1 key = Some e" "receipts l1 ! e =
      \<lparr>rc_key = key, expiresAt = now + rpcExecutionReceiptTTL, rc_identity = f_identity (flights l ! f),
       rc_admissionSeq = f_admissionSeq (flights l ! f), executionKnown = executionDone (flights l ! f),
       rc_executionOK = f_executionOK (flights l ! f), rc_acknowledged = False,
       unavailable = (\<not> True), rc_reservation = f_reservation (flights l ! f)\<rparr>"
    by (rule completed_receipt [OF inv assms(2-4)])
  obtain l2 where l2: "expireLocked mh (shardIndex mh key) t l1 = Ret l2"
    "dropped mh (\<lambda>rc. expiresAt rc \<le> t) l1 l2" by (rule expireLocked_ok [OF inv1])
  have "\<not> expiresAt (receipts l1 ! e) \<le> t" using assms(5) by (simp add: e(2))
  from droppedD(2) [OF l2(2) e(1) this]
  have "receipt_at mh l2 key = Some e" "receipts l2 ! e = receipts l1 ! e" by simp_all
  then show ?thesis
    by (simp add: attempt_def l2(1) answer_receipt_def e(2) split: option.splits)
qed

theorem rpc_duplicate_answer_witness:
  "\<exists>l l1 l2 r cbs. completeOnce demo_hash 3 demo_key 7 True l = Ret (l1, r, cbs)
     \<and> attempt demo_hash demo_replay 9 demo_key demo_identity l1
       = Ret (l2, Answer (Inr (Completed 1 7 False False)))"
proof -
  obtain l where l: "reachable demo_hash demo_replay demo_capacity l"
    "pending_at demo_hash l demo_key = Some 0" and fl: "flights l = [new_flight demo_identity 1 0]"
    by (rule demo_reachable)
  obtain l1 r cbs where c: "completeOnce demo_hash 3 demo_key 7 True l = Ret (l1, r, cbs)"
    by (rule completeOnce_run [OF reachable_inv [OF l(1)]])
  obtain l2 where a: "attempt demo_hash demo_replay 9 demo_key demo_identity l1
      = Ret (l2, Answer (Inr (Completed 1 7 False False)))"
    using rpc_duplicate_answer [OF l _ c, of 9 demo_identity] fl
    by (auto simp: new_flight_def rpcExecutionReceiptTTL_def demo_identity_def demo_replay_def
        identity_matches_def)
  show ?thesis by (intro exI [of _ l] exI [of _ l1] exI [of _ l2] exI [of _ r] exI [of _ cbs] conjI c a)
qed

end
