(* ===== verification/Read_Model_Cache.thy ===== *)
theory Read_Model_Cache
  imports Gram_Prelude
begin

text \<open>
  The in-process read-model cache (src/internal/readmodelcache/cache.go) behind the privacy,
  dialog, photo and membership read models: an LRU map with an entry and a weight bound, a TTL, a
  version gate and an epoch that keeps a load from writing back a value older than an
  invalidation.

  A list element of the LRU list is its entry, named by its key: \<open>ll\<close> lists the keys with the most
  recently used first, \<open>items\<close> holds the entries. Values are immutable, so \<open>cloneValue\<close> has no
  counterpart. The calls of the two configured callbacks are recorded in \<open>calls\<close>, in the order in
  which they are made. Methods of a nil cache are the case \<open>None\<close>. \<open>singleflight.Group\<close> is a
  package of another module; see \<open>getOrLoad\<close>.
\<close>

section \<open>The cache\<close>

datatype ('k, 'v) callback_call = OnStore 'k 'v | OnRemove 'k 'v

record 'v lru_entry =
  le_value :: 'v
  le_hash :: int
  le_expireAt :: "int option"
  le_weight :: int

record ('k, 'v) cache =
  ll :: "'k list"
  items :: "'k \<rightharpoonup> 'v lru_entry"
  cap :: int
  maxWeight :: int
  weight :: int
  ttl :: int
  epoch :: "64 word"
  weigh :: "('v \<Rightarrow> int) option"
  calls :: "('k, 'v) callback_call list"

record 'v cache_config =
  MaxEntries :: int
  MaxWeight :: int
  cfg_Weight :: "('v \<Rightarrow> int) option"
  TTL :: int

definition New :: "'v cache_config \<Rightarrow> ('k, 'v) cache option" where
  "New cfg =
    (if MaxEntries cfg \<le> 0 then None
     else Some \<lparr>ll = [], items = Map.empty, cap = MaxEntries cfg, maxWeight = MaxWeight cfg,
       weight = 0, ttl = TTL cfg, epoch = 0, weigh = cfg_Weight cfg, calls = []\<rparr>)"

definition expired :: "int \<Rightarrow> ('k, 'v) cache \<Rightarrow> 'v lru_entry \<Rightarrow> bool" where
  "expired now c ent \<longleftrightarrow>
    ttl c > 0 \<and> (case le_expireAt ent of None \<Rightarrow> False | Some t \<Rightarrow> t \<le> now)"

definition expireAt :: "int \<Rightarrow> ('k, 'v) cache \<Rightarrow> int option" where
  "expireAt now c = (if ttl c \<le> 0 then None else Some (now + ttl c))"

definition valueWeight :: "('k, 'v) cache \<Rightarrow> 'v \<Rightarrow> int" where
  "valueWeight c v =
    (if maxWeight c \<le> 0 then 1
     else case weigh c of
       None \<Rightarrow> 1
     | Some w \<Rightarrow> if w v \<le> 0 then 1 else w v)"

definition cache_removeElement :: "'k \<Rightarrow> ('k, 'v) cache \<Rightarrow> ('k, 'v) cache" where
  "cache_removeElement k c =
    (case items c k of
       None \<Rightarrow> c\<lparr>ll := remove1 k (ll c)\<rparr>
     | Some ent \<Rightarrow> c\<lparr>calls := calls c @ [OnRemove k (le_value ent)],
         weight := weight c - le_weight ent,
         ll := remove1 k (ll c), items := (items c)(k := None)\<rparr>)"

definition evictOldest :: "('k, 'v) cache \<Rightarrow> ('k, 'v) cache" where
  "evictOldest c = (if ll c = [] then c else cache_removeElement (last (ll c)) c)"

definition overflowing :: "('k, 'v) cache \<Rightarrow> bool" where
  "overflowing c \<longleftrightarrow> int (length (ll c)) > cap c \<or> (maxWeight c > 0 \<and> weight c > maxWeight c)"

lemma ll_cache_removeElement [simp]: "ll (cache_removeElement k c) = remove1 k (ll c)"
  by (simp add: cache_removeElement_def split: option.splits)

function evictOverflow :: "('k, 'v) cache \<Rightarrow> ('k, 'v) cache" where
  "evictOverflow c =
    (if \<not> overflowing c then c
     else if ll c = [] then c
     else evictOverflow (evictOldest c))"
  by pat_completeness auto
termination
  by (relation "measure (\<lambda>c. length (ll c))")
    (auto simp: evictOldest_def length_remove1 last_in_set)

declare evictOverflow.simps [simp del]

definition moveToFront :: "'k \<Rightarrow> ('k, 'v) cache \<Rightarrow> ('k, 'v) cache" where
  "moveToFront k c = c\<lparr>ll := k # remove1 k (ll c)\<rparr>"

definition storeLocked :: "int \<Rightarrow> 'k \<Rightarrow> 'v \<Rightarrow> int \<Rightarrow> ('k, 'v) cache \<Rightarrow> ('k, 'v) cache" where
  "storeLocked now key v hash c =
    (let wt = valueWeight c v in
     if maxWeight c > 0 \<and> wt > maxWeight c
     then (if items c key \<noteq> None then cache_removeElement key c else c)
     else case items c key of
       Some ent \<Rightarrow>
         evictOverflow (moveToFront key (c\<lparr>
           calls := calls c @ [OnRemove key (le_value ent), OnStore key v],
           weight := weight c - le_weight ent + wt,
           items := (items c)(key \<mapsto> ent\<lparr>le_value := v, le_hash := hash,
             le_expireAt := expireAt now c, le_weight := wt\<rparr>)\<rparr>))
     | None \<Rightarrow>
         evictOverflow (c\<lparr>
           calls := calls c @ [OnStore key v],
           weight := weight c + wt,
           items := (items c)(key \<mapsto> \<lparr>le_value = v, le_hash = hash,
             le_expireAt = expireAt now c, le_weight = wt\<rparr>),
           ll := key # ll c\<rparr>))"

definition cacheEpoch :: "('k, 'v) cache \<Rightarrow> 64 word" where
  "cacheEpoch c = epoch c"

definition storeIfEpoch ::
  "int \<Rightarrow> 'k \<Rightarrow> 'v \<Rightarrow> int \<Rightarrow> 64 word \<Rightarrow> ('k, 'v) cache \<Rightarrow> ('k, 'v) cache \<times> bool" where
  "storeIfEpoch now key v hash loadEpoch c =
    (if epoch c \<noteq> loadEpoch then (c, False) else (storeLocked now key v hash c, True))"

definition lookup ::
  "int \<Rightarrow> 'k \<Rightarrow> int \<Rightarrow> bool \<Rightarrow> ('k, 'v) cache \<Rightarrow> ('k, 'v) cache \<times> 'v option" where
  "lookup now key currentHash versioned c =
    (case items c key of
       None \<Rightarrow> (c, None)
     | Some ent \<Rightarrow>
         if expired now c ent then (cache_removeElement key c, None)
         else if versioned \<and> currentHash \<noteq> 0 \<and> le_hash ent \<noteq> currentHash then (c, None)
         else (moveToFront key c, Some (le_value ent)))"

definition Peek :: "int \<Rightarrow> 'k \<Rightarrow> ('k, 'v) cache \<Rightarrow> 'v option" where
  "Peek now key c =
    (case items c key of
       None \<Rightarrow> None
     | Some ent \<Rightarrow> if expired now c ent then None else Some (le_value ent))"

definition Store :: "int \<Rightarrow> 'k \<Rightarrow> 'v \<Rightarrow> ('k, 'v) cache \<Rightarrow> ('k, 'v) cache" where
  "Store now key v c = storeLocked now key v 0 c"

definition StoreVersioned :: "int \<Rightarrow> 'k \<Rightarrow> int \<Rightarrow> 'v \<Rightarrow> ('k, 'v) cache \<Rightarrow> ('k, 'v) cache" where
  "StoreVersioned now key hash v c = storeLocked now key v hash c"

definition StoreIfEpoch :: "int \<Rightarrow> 'k \<Rightarrow> 'v \<Rightarrow> 64 word \<Rightarrow> ('k, 'v) cache \<Rightarrow> ('k, 'v) cache" where
  "StoreIfEpoch now key v loadEpoch c = fst (storeIfEpoch now key v 0 loadEpoch c)"

definition LoadEpoch :: "('k, 'v) cache option \<Rightarrow> 64 word" where
  "LoadEpoch co = (case co of None \<Rightarrow> 0 | Some c \<Rightarrow> cacheEpoch c)"

definition drop_present :: "'k list \<Rightarrow> ('k, 'v) cache \<Rightarrow> ('k, 'v) cache" where
  "drop_present ks c = fold (\<lambda>k c. if items c k \<noteq> None then cache_removeElement k c else c) ks c"

definition Invalidate :: "'k list \<Rightarrow> ('k, 'v) cache \<Rightarrow> ('k, 'v) cache" where
  "Invalidate ks c = (if ks = [] then c else drop_present ks (c\<lparr>epoch := epoch c + 1\<rparr>))"

text \<open>
  The loops over the map meet its keys in the order \<open>iter\<close> that the runtime picks. Deleting the
  key at hand does not disturb the loop.
\<close>

definition InvalidateWhere :: "'k list \<Rightarrow> ('k \<Rightarrow> bool) \<Rightarrow> ('k, 'v) cache \<Rightarrow> ('k, 'v) cache" where
  "InvalidateWhere iter pred c = drop_present (filter pred iter) (c\<lparr>epoch := epoch c + 1\<rparr>)"

definition InvalidateWhereValue ::
  "'k list \<Rightarrow> ('k \<Rightarrow> 'v \<Rightarrow> bool) \<Rightarrow> ('k, 'v) cache \<Rightarrow> ('k, 'v) cache" where
  "InvalidateWhereValue iter pred c =
    drop_present (filter (\<lambda>k. case items c k of None \<Rightarrow> False | Some ent \<Rightarrow> pred k (le_value ent)) iter)
      (c\<lparr>epoch := epoch c + 1\<rparr>)"

definition Flush :: "('k, 'v) cache \<Rightarrow> ('k, 'v) cache" where
  "Flush c = c\<lparr>epoch := epoch c + 1,
    calls := calls c @ concat (map (\<lambda>k. case items c k of None \<Rightarrow> []
       | Some ent \<Rightarrow> [OnRemove k (le_value ent)]) (ll c)),
    ll := [], items := Map.empty, weight := 0\<rparr>"

definition Len :: "('k, 'v) cache option \<Rightarrow> nat" where
  "Len co = (case co of None \<Rightarrow> 0 | Some c \<Rightarrow> length (ll c))"

definition Weight :: "('k, 'v) cache option \<Rightarrow> int" where
  "Weight co = (case co of None \<Rightarrow> 0 | Some c \<Rightarrow> weight c)"

section \<open>The cache's invariant\<close>

definition entry_weights :: "('k, 'v) cache \<Rightarrow> int" where
  "entry_weights c = (\<Sum>k\<leftarrow>ll c. le_weight (the (items c k)))"

text \<open>
  The list and the map hold the same entries; the aggregate weight is the sum of the entries';
  weights are positive. \<open>linked\<close> holds in the middle of an operation, \<open>cache_ok\<close> between
  operations.
\<close>

definition linked :: "('k, 'v) cache \<Rightarrow> bool" where
  "linked c \<longleftrightarrow> distinct (ll c) \<and> set (ll c) = dom (items c)
     \<and> weight c = entry_weights c \<and> 0 < cap c
     \<and> (\<forall>k ent. items c k = Some ent \<longrightarrow> 0 < le_weight ent)"

definition cache_ok :: "('k, 'v) cache \<Rightarrow> bool" where
  "cache_ok c \<longleftrightarrow> linked c \<and> \<not> overflowing c"

lemma valueWeight_pos: "0 < valueWeight c v"
  by (simp add: valueWeight_def split: option.splits)

lemma sum_remove1:
  "k \<in> set xs \<Longrightarrow> (\<Sum>x\<leftarrow>remove1 k xs. f x) = (\<Sum>x\<leftarrow>xs. f x) - (f k :: int)"
  by (induction xs) auto

lemma sum_cong_other:
  "k \<notin> set xs \<Longrightarrow> (\<And>x. x \<noteq> k \<Longrightarrow> f x = g x) \<Longrightarrow> (\<Sum>x\<leftarrow>xs. f x) = (\<Sum>x\<leftarrow>xs. (g x :: int))"
  by (induction xs) auto

lemma linkedI:
  "distinct (ll c) \<Longrightarrow> set (ll c) = dom (items c) \<Longrightarrow> weight c = entry_weights c \<Longrightarrow> 0 < cap c \<Longrightarrow>
   (\<And>k ent. items c k = Some ent \<Longrightarrow> 0 < le_weight ent) \<Longrightarrow> linked c"
  by (simp add: linked_def)

lemma cache_removeElement_frame [simp]:
  "cap (cache_removeElement k c) = cap c" "maxWeight (cache_removeElement k c) = maxWeight c"
  "ttl (cache_removeElement k c) = ttl c" "epoch (cache_removeElement k c) = epoch c"
  "weigh (cache_removeElement k c) = weigh c" "items (cache_removeElement k c) = (items c)(k := None)"
  by (auto simp: cache_removeElement_def fun_upd_idem split: option.splits)

lemma cache_removeElement_linked:
  assumes "linked c" "items c k \<noteq> None" shows "linked (cache_removeElement k c)"
proof -
  obtain ent where ent: "items c k = Some ent" using assms(2) by auto
  have l: "distinct (ll c)" "set (ll c) = dom (items c)" "weight c = entry_weights c" "0 < cap c"
    "\<forall>k ent. items c k = Some ent \<longrightarrow> 0 < le_weight ent" using assms(1) by (auto simp: linked_def)
  have k: "k \<in> set (ll c)" using ent l(2) by auto
  show ?thesis
  proof (rule linkedI)
    have "entry_weights (cache_removeElement k c) = (\<Sum>x\<leftarrow>remove1 k (ll c). le_weight (the (items c x)))"
      unfolding entry_weights_def ll_cache_removeElement using l(1)
      by (intro sum_cong_other [of k]) simp_all
    also have "\<dots> = weight c - le_weight ent" using sum_remove1 [OF k] ent l(3) by (simp add: entry_weights_def)
    finally show "weight (cache_removeElement k c) = entry_weights (cache_removeElement k c)"
      using ent by (simp add: cache_removeElement_def)
  qed (use l ent in \<open>auto split: if_splits\<close>)
qed

lemma evictOldest_linked:
  assumes "linked c" shows "linked (evictOldest c)"
proof (cases "ll c = []")
  case False
  then have "items c (last (ll c)) \<noteq> None"
    using assms last_in_set [OF False] by (auto simp: linked_def)
  then show ?thesis using cache_removeElement_linked [OF assms] False by (simp add: evictOldest_def)
qed (use assms in \<open>simp add: evictOldest_def\<close>)

lemma linked_empty: "linked c \<Longrightarrow> ll c = [] \<Longrightarrow> \<not> overflowing c"
  by (auto simp: linked_def overflowing_def entry_weights_def)

lemma evictOverflow_ok: "linked c \<Longrightarrow> cache_ok (evictOverflow c)"
proof (induction c rule: evictOverflow.induct)
  case (1 c)
  show ?case
  proof (cases "overflowing c")
    case False
    then show ?thesis using 1(2) by (simp add: evictOverflow.simps cache_ok_def)
  next
    case True
    then have ne: "ll c \<noteq> []" using linked_empty [OF 1(2)] by auto
    then show ?thesis
      using 1(1) [OF _ ne evictOldest_linked [OF 1(2)]] True by (simp add: evictOverflow.simps [of c])
  qed
qed

lemma cache_removeElement_weight:
  "linked c \<Longrightarrow> weight (cache_removeElement k c) \<le> weight c"
  by (auto simp: cache_removeElement_def linked_def intro: less_imp_le split: option.splits)

lemma cache_removeElement_ok:
  assumes "cache_ok c" "items c k \<noteq> None" shows "cache_ok (cache_removeElement k c)"
proof -
  have "linked c" using assms(1) by (simp add: cache_ok_def)
  then have "linked (cache_removeElement k c)" "weight (cache_removeElement k c) \<le> weight c"
    "length (ll (cache_removeElement k c)) \<le> length (ll c)"
    using cache_removeElement_linked [of c k] assms(2) cache_removeElement_weight [of c k] by (auto simp: length_remove1)
  then show ?thesis using assms(1) by (auto simp: cache_ok_def overflowing_def)
qed

lemma moveToFront_frame [simp]:
  "items (moveToFront k c) = items c" "cap (moveToFront k c) = cap c"
  "maxWeight (moveToFront k c) = maxWeight c" "weight (moveToFront k c) = weight c"
  "ttl (moveToFront k c) = ttl c" "epoch (moveToFront k c) = epoch c"
  "weigh (moveToFront k c) = weigh c" "calls (moveToFront k c) = calls c"
  "ll (moveToFront k c) = k # remove1 k (ll c)"
  by (simp_all add: moveToFront_def)

lemma moveToFront_linked:
  assumes "linked c" "items c k \<noteq> None" shows "linked (moveToFront k c)"
proof -
  have k: "k \<in> set (ll c)" using assms by (auto simp: linked_def)
  have "entry_weights (moveToFront k c) = entry_weights c"
    using sum_remove1 [OF k] by (simp add: entry_weights_def)
  then show ?thesis using assms k by (intro linkedI) (auto simp: linked_def)
qed

lemma moveToFront_ok:
  assumes "cache_ok c" "items c k \<noteq> None" shows "cache_ok (moveToFront k c)"
proof -
  have "k \<in> set (ll c)" using assms by (auto simp: cache_ok_def linked_def)
  then have "length (ll (moveToFront k c)) = length (ll c)"
    using length_pos_if_in_set [of k "ll c"] by (simp add: length_remove1)
  then show ?thesis
    using moveToFront_linked [of c k] assms by (auto simp: cache_ok_def overflowing_def)
qed

text \<open>The cache just before the eviction of a store.\<close>

definition placed :: "int \<Rightarrow> 'k \<Rightarrow> 'v \<Rightarrow> int \<Rightarrow> ('k, 'v) cache \<Rightarrow> ('k, 'v) cache" where
  "placed now key v hash c =
    c\<lparr>calls := calls c @ (case items c key of None \<Rightarrow> [] | Some ent \<Rightarrow> [OnRemove key (le_value ent)])
        @ [OnStore key v],
      weight := weight c - (case items c key of None \<Rightarrow> 0 | Some ent \<Rightarrow> le_weight ent) + valueWeight c v,
      items := (items c)(key \<mapsto> \<lparr>le_value = v, le_hash = hash, le_expireAt = expireAt now c,
        le_weight = valueWeight c v\<rparr>),
      ll := key # remove1 key (ll c)\<rparr>"

lemma storeLocked_placed:
  assumes "linked c" "\<not> (maxWeight c > 0 \<and> valueWeight c v > maxWeight c)"
  shows "storeLocked now key v hash c = evictOverflow (placed now key v hash c)"
proof (cases "items c key")
  case None
  then have "key \<notin> set (ll c)" using assms(1) by (auto simp: linked_def)
  then show ?thesis using None assms(2) by (auto simp: storeLocked_def placed_def Let_def remove1_idem)
next
  case (Some ent)
  then show ?thesis using assms(2)
    by (cases ent) (auto simp: storeLocked_def placed_def Let_def moveToFront_def)
qed

lemma placed_linked:
  assumes "linked c" shows "linked (placed now key v hash c)"
proof -
  have l: "distinct (ll c)" "set (ll c) = dom (items c)" "weight c = entry_weights c" "0 < cap c"
    using assms by (auto simp: linked_def)
  let ?f = "\<lambda>x. le_weight (the (items c x))"
  have w: "(\<Sum>x\<leftarrow>remove1 key (ll c). ?f x) = weight c
      - (case items c key of None \<Rightarrow> 0 | Some ent \<Rightarrow> le_weight ent)"
  proof (cases "items c key")
    case None
    then have "key \<notin> set (ll c)" using l(2) by auto
    then show ?thesis using None l(3) by (simp add: remove1_idem entry_weights_def)
  next
    case (Some ent)
    then have "key \<in> set (ll c)" using l(2) by auto
    from sum_remove1 [OF this] Some l(3) show ?thesis by (simp add: entry_weights_def)
  qed
  have "(\<Sum>x\<leftarrow>remove1 key (ll c). le_weight (the (items (placed now key v hash c) x)))
      = (\<Sum>x\<leftarrow>remove1 key (ll c). ?f x)"
    by (rule sum_cong_other [of key]) (use l(1) in \<open>simp_all add: placed_def\<close>)
  then have "entry_weights (placed now key v hash c) = weight (placed now key v hash c)"
    using w by (simp add: entry_weights_def placed_def)
  then show ?thesis using assms l
    by (intro linkedI) (auto simp: placed_def linked_def valueWeight_pos split: if_splits)
qed

lemma storeLocked_ok:
  assumes "cache_ok c" shows "cache_ok (storeLocked now key v hash c)"
proof (cases "maxWeight c > 0 \<and> valueWeight c v > maxWeight c")
  case True
  then show ?thesis
    using assms cache_removeElement_ok [OF assms, of key] by (auto simp: storeLocked_def Let_def)
next
  case False
  have l: "linked c" using assms by (simp add: cache_ok_def)
  show ?thesis
    unfolding storeLocked_placed [OF l False] by (rule evictOverflow_ok [OF placed_linked [OF l]])
qed

lemma storeIfEpoch_ok: "cache_ok c \<Longrightarrow> cache_ok (fst (storeIfEpoch now key v hash e c))"
  by (simp add: storeIfEpoch_def storeLocked_ok)

lemma lookup_ok: "cache_ok c \<Longrightarrow> cache_ok (fst (lookup now key h ver c))"
  by (auto simp: lookup_def cache_removeElement_ok moveToFront_ok split: option.splits)

lemma drop_present_ok: "cache_ok c \<Longrightarrow> cache_ok (drop_present ks c)"
proof (induction ks arbitrary: c)
  case (Cons k ks)
  then show ?case using cache_removeElement_ok [OF Cons.prems] by (simp add: drop_present_def)
qed (simp add: drop_present_def)

lemma bump_ok: "cache_ok (c\<lparr>epoch := e\<rparr>) = cache_ok c"
  by (simp add: cache_ok_def linked_def overflowing_def entry_weights_def)

lemma invalidate_ok:
  "cache_ok c \<Longrightarrow> cache_ok (Invalidate ks c)"
  "cache_ok c \<Longrightarrow> cache_ok (InvalidateWhere iter p c)"
  "cache_ok c \<Longrightarrow> cache_ok (InvalidateWhereValue iter q c)"
  by (simp_all add: Invalidate_def InvalidateWhere_def InvalidateWhereValue_def drop_present_ok bump_ok)

lemma Flush_ok: "cache_ok c \<Longrightarrow> cache_ok (Flush c)"
  by (auto simp: Flush_def cache_ok_def linked_def overflowing_def entry_weights_def)

lemma New_ok: "New cfg = Some c \<Longrightarrow> cache_ok c"
  by (auto simp: New_def cache_ok_def linked_def overflowing_def entry_weights_def split: if_splits)

section \<open>Eviction keeps the most recently used entries\<close>

definition fits :: "('k, 'v) cache \<Rightarrow> 'k list \<Rightarrow> bool" where
  "fits c xs \<longleftrightarrow> int (length xs) \<le> cap c
     \<and> (maxWeight c > 0 \<longrightarrow> (\<Sum>k\<leftarrow>xs. le_weight (the (items c k))) \<le> maxWeight c)"

lemma fits_all: "linked c \<Longrightarrow> fits c (ll c) \<longleftrightarrow> \<not> overflowing c"
  by (auto simp: fits_def overflowing_def linked_def entry_weights_def)

lemma remove1_last: "distinct xs \<Longrightarrow> xs \<noteq> [] \<Longrightarrow> remove1 (last xs) xs = butlast xs"
  by (induction xs) auto

lemma evictOldest_ll: "linked c \<Longrightarrow> ll c \<noteq> [] \<Longrightarrow> ll (evictOldest c) = butlast (ll c)"
  by (simp add: evictOldest_def remove1_last linked_def)

lemma evictOldest_items: "ll c \<noteq> [] \<Longrightarrow> items (evictOldest c) = (items c)(last (ll c) := None)"
  by (simp add: evictOldest_def)

lemma evictOldest_frame [simp]:
  "cap (evictOldest c) = cap c" "maxWeight (evictOldest c) = maxWeight c" "ttl (evictOldest c) = ttl c"
  "epoch (evictOldest c) = epoch c" "weigh (evictOldest c) = weigh c"
  by (simp_all add: evictOldest_def)

lemma fits_cong:
  "(\<And>k. k \<in> set xs \<Longrightarrow> items c' k = items c k) \<Longrightarrow> cap c' = cap c \<Longrightarrow> maxWeight c' = maxWeight c \<Longrightarrow>
   fits c' xs = fits c xs"
  by (simp add: fits_def cong: map_cong)

lemma last_not_in_take: "distinct xs \<Longrightarrow> m < length xs \<Longrightarrow> last xs \<notin> set (take m xs)"
  by (metis append_take_drop_id disjoint_iff distinct_append drop_eq_Nil last_drop last_in_set leD)

lemma evictOverflow_prefix:
  assumes "linked c"
  obtains n where "n \<le> length (ll c)" "ll (evictOverflow c) = take n (ll c)" "fits c (take n (ll c))"
    "items (evictOverflow c) = items c |` set (take n (ll c))"
    "\<And>m. m \<le> length (ll c) \<Longrightarrow> fits c (take m (ll c)) \<Longrightarrow> m \<le> n"
  using assms
proof (induction c arbitrary: thesis rule: evictOverflow.induct)
  case (1 c)
  have l: "distinct (ll c)" "set (ll c) = dom (items c)" using 1(3) by (simp_all add: linked_def)
  show thesis
  proof (cases "overflowing c")
    case False
    have "items c |` set (ll c) = items c" by (rule ext) (auto simp: restrict_map_def l(2) domIff)
    then show thesis
      using False fits_all [OF 1(3)] by (intro 1(2) [of "length (ll c)"]) (simp_all add: evictOverflow.simps)
  next
    case True
    have ne: "ll c \<noteq> []" using linked_empty [OF 1(3)] True by auto
    let ?d = "evictOldest c"
    have d: "ll ?d = butlast (ll c)" "items ?d = (items c)(last (ll c) := None)"
      using evictOldest_ll [OF 1(3) ne] evictOldest_items [OF ne] by simp_all
    have pre: "take m (ll ?d) = take m (ll c)" "fits ?d (take m (ll c)) = fits c (take m (ll c))"
      if "m < length (ll c)" for m
    proof -
      show "take m (ll ?d) = take m (ll c)" using that by (simp add: d take_butlast)
      show "fits ?d (take m (ll c)) = fits c (take m (ll c))"
        using last_not_in_take [OF l(1) that] by (intro fits_cong) (auto simp: d)
    qed
    obtain n where n: "n \<le> length (ll ?d)" "ll (evictOverflow ?d) = take n (ll ?d)"
      "fits ?d (take n (ll ?d))" "items (evictOverflow ?d) = items ?d |` set (take n (ll ?d))"
      "\<And>m. m \<le> length (ll ?d) \<Longrightarrow> fits ?d (take m (ll ?d)) \<Longrightarrow> m \<le> n"
      using 1(1) [OF _ ne _ evictOldest_linked [OF 1(3)]] True by blast
    have lt: "n < length (ll c)" using n(1) ne by (simp add: d) (metis Suc_pred length_greater_0_conv less_Suc_eq_le)
    have ev: "evictOverflow c = evictOverflow ?d" using True ne by (simp add: evictOverflow.simps [of c])
    show thesis
    proof (rule 1(2) [of n])
      show "items (evictOverflow c) = items c |` set (take n (ll c))"
        using n(4) pre(1) [OF lt] last_not_in_take [OF l(1) lt] by (auto simp: ev d restrict_map_def fun_eq_iff)
    next
      fix m assume m: "m \<le> length (ll c)" "fits c (take m (ll c))"
      have "m \<noteq> length (ll c)" using m(2) fits_all [OF 1(3)] True by auto
      then have "m < length (ll c)" using m(1) by simp
      then show "m \<le> n" using n(5) [of m] pre [of m] m(2) by (simp add: d)
    qed (use lt n(2,3) pre [OF lt] in \<open>simp_all add: ev\<close>)
  qed
qed

section \<open>What the operations leave in the cache\<close>

lemma evictOverflow_frame [simp]:
  "cap (evictOverflow c) = cap c" "maxWeight (evictOverflow c) = maxWeight c"
  "ttl (evictOverflow c) = ttl c" "epoch (evictOverflow c) = epoch c" "weigh (evictOverflow c) = weigh c"
proof -
  have "cap (evictOverflow c) = cap c \<and> maxWeight (evictOverflow c) = maxWeight c
      \<and> ttl (evictOverflow c) = ttl c \<and> epoch (evictOverflow c) = epoch c
      \<and> weigh (evictOverflow c) = weigh c"
  proof (induction c rule: evictOverflow.induct)
    case (1 c)
    then show ?case by (simp add: evictOverflow.simps [of c])
  qed
  then show "cap (evictOverflow c) = cap c" "maxWeight (evictOverflow c) = maxWeight c"
    "ttl (evictOverflow c) = ttl c" "epoch (evictOverflow c) = epoch c" "weigh (evictOverflow c) = weigh c"
    by simp_all
qed

lemma storeLocked_frame [simp]:
  "cap (storeLocked now k v h c) = cap c" "maxWeight (storeLocked now k v h c) = maxWeight c"
  "ttl (storeLocked now k v h c) = ttl c" "epoch (storeLocked now k v h c) = epoch c"
  "weigh (storeLocked now k v h c) = weigh c"
  by (simp_all add: storeLocked_def Let_def split: option.splits)

lemma storeLocked_items:
  assumes l: "linked c" and e: "items (storeLocked now k v h c) x = Some e"
  shows "x = k \<and> le_value e = v \<and> le_hash e = h \<or> x \<noteq> k \<and> items c x = Some e"
proof (cases "maxWeight c > 0 \<and> valueWeight c v > maxWeight c")
  case True
  then show ?thesis using e by (auto simp: storeLocked_def Let_def split: if_splits)
next
  case False
  obtain n where "items (evictOverflow (placed now k v h c))
      = items (placed now k v h c) |` set (take n (ll (placed now k v h c)))"
    using evictOverflow_prefix [OF placed_linked [OF l]] by metis
  then have "items (placed now k v h c) x = Some e"
    using e by (simp add: storeLocked_placed [OF l False] restrict_map_def split: if_splits)
  then show ?thesis by (auto simp: placed_def split: if_splits)
qed

lemma drop_present_items: "items (drop_present ks c) = items c |` (- set ks)"
proof (induction ks arbitrary: c)
  case (Cons k ks)
  show ?case
    using Cons.IH [of "if items c k \<noteq> None then cache_removeElement k c else c"]
    by (auto simp: drop_present_def restrict_map_def fun_eq_iff)
qed (simp add: drop_present_def restrict_map_def)

lemma drop_present_frame [simp]:
  "epoch (drop_present ks c) = epoch c" "cap (drop_present ks c) = cap c"
  "maxWeight (drop_present ks c) = maxWeight c" "ttl (drop_present ks c) = ttl c"
proof -
  have "epoch (drop_present ks c) = epoch c \<and> cap (drop_present ks c) = cap c
      \<and> maxWeight (drop_present ks c) = maxWeight c \<and> ttl (drop_present ks c) = ttl c"
  proof (induction ks arbitrary: c)
    case (Cons k ks)
    show ?case
      using Cons.IH [of "if items c k \<noteq> None then cache_removeElement k c else c"]
      by (simp add: drop_present_def)
  qed (simp add: drop_present_def)
  then show "epoch (drop_present ks c) = epoch c" "cap (drop_present ks c) = cap c"
    "maxWeight (drop_present ks c) = maxWeight c" "ttl (drop_present ks c) = ttl c" by simp_all
qed

lemma invalidate_items:
  "items (Invalidate ks c) = items c |` (- set ks)"
  "items (InvalidateWhere iter p c) = items c |` (- {k \<in> set iter. p k})"
  by (auto simp: Invalidate_def InvalidateWhere_def drop_present_items)

lemma invalidate_epoch:
  "epoch (Invalidate ks c) = (if ks = [] then epoch c else epoch c + 1)"
  "epoch (InvalidateWhere iter p c) = epoch c + 1"
  "epoch (Flush c) = epoch c + 1"
  by (simp_all add: Invalidate_def InvalidateWhere_def Flush_def)

lemma lookup_items:
  "items (fst (lookup now k h ver c)) x = Some e \<Longrightarrow> items c x = Some e"
  by (auto simp: lookup_def split: option.splits if_splits)

lemma lookup_epoch [simp]: "epoch (fst (lookup now k h ver c)) = epoch c"
  by (simp add: lookup_def split: option.splits)

lemma lookup_hit:
  "lookup now k h ver c = (c', Some v) \<Longrightarrow> \<exists>e. items c k = Some e \<and> le_value e = v
     \<and> (ver \<and> h \<noteq> 0 \<longrightarrow> le_hash e = h) \<and> \<not> expired now c e"
  by (auto simp: lookup_def split: option.splits if_splits)

section \<open>Loading through the cache\<close>

text \<open>
  What happens around one call, turn by turn: the clock, what other goroutines do to the cache
  before each of the call's critical sections, what the loader returns, whether
  \<open>singleflight.Group.Do\<close> runs the function itself (\<open>None\<close>) or hands over the result of the
  caller that is already running it (\<open>Some\<close>), and the error of the context.
\<close>

record ('k, 'v, 'e) load_env =
  clock :: "nat \<Rightarrow> nat \<Rightarrow> int"
  meddle :: "nat \<Rightarrow> nat \<Rightarrow> ('k, 'v) cache \<Rightarrow> ('k, 'v) cache"
  loader :: "nat \<Rightarrow> 'e + 'v"
  shared :: "nat \<Rightarrow> ('e + 'v \<times> bool) option"
  ctx_err :: "nat \<Rightarrow> 'e option"

definition load_once ::
  "('k, 'v, 'e) load_env \<Rightarrow> nat \<Rightarrow> 'k \<Rightarrow> int \<Rightarrow> bool \<Rightarrow> ('k, 'v) cache
    \<Rightarrow> ('k, 'v) cache \<times> ('e + 'v \<times> bool)" where
  "load_once env n key currentHash versioned c =
    (case lookup (clock env n 1) key currentHash versioned (meddle env n 1 c) of
       (c, Some v) \<Rightarrow> (c, Inr (v, True))
     | (c, None) \<Rightarrow>
         let c = meddle env n 2 c; loadEpoch = cacheEpoch c in
         (case loader env n of
            Inl err \<Rightarrow> (c, Inl err)
          | Inr v \<Rightarrow>
              let (c, stored) = storeIfEpoch (clock env n 2) key v currentHash loadEpoch (meddle env n 3 c)
              in (c, Inr (v, stored))))"

fun getOrLoad ::
  "nat \<Rightarrow> nat \<Rightarrow> ('k, 'v, 'e) load_env \<Rightarrow> 'k \<Rightarrow> int \<Rightarrow> bool \<Rightarrow> ('k, 'v) cache
    \<Rightarrow> (('k, 'v) cache \<times> ('e + 'v)) option" where
  "getOrLoad 0 n env key currentHash versioned c = None"
| "getOrLoad (Suc fuel) n env key currentHash versioned c =
    (case lookup (clock env n 0) key currentHash versioned (meddle env n 0 c) of
       (c, Some v) \<Rightarrow> Some (c, Inr v)
     | (c, None) \<Rightarrow>
         (case (case shared env n of
                  Some r \<Rightarrow> (meddle env n 1 c, r)
                | None \<Rightarrow> load_once env n key currentHash versioned c) of
            (c, Inl err) \<Rightarrow> Some (c, Inl err)
          | (c, Inr (v, stored)) \<Rightarrow>
              if stored then Some (c, Inr v)
              else (case ctx_err env n of
                      Some err \<Rightarrow> Some (c, Inl err)
                    | None \<Rightarrow> getOrLoad fuel (Suc n) env key currentHash versioned c)))"

definition GetOrLoad ::
  "nat \<Rightarrow> ('k, 'v, 'e) load_env \<Rightarrow> 'k \<Rightarrow> ('k, 'v) cache option
    \<Rightarrow> (('k, 'v) cache option \<times> ('e + 'v)) option" where
  "GetOrLoad fuel env key co =
    (case co of
       None \<Rightarrow> Some (None, loader env 0)
     | Some c \<Rightarrow> map_option (\<lambda>(c, r). (Some c, r)) (getOrLoad fuel 0 env key 0 False c))"

definition GetOrLoadVersioned ::
  "nat \<Rightarrow> ('k, 'v, 'e) load_env \<Rightarrow> 'k \<Rightarrow> int \<Rightarrow> ('k, 'v) cache option
    \<Rightarrow> (('k, 'v) cache option \<times> ('e + 'v)) option" where
  "GetOrLoadVersioned fuel env key currentHash co =
    (case co of
       None \<Rightarrow> Some (None, loader env 0)
     | Some c \<Rightarrow> map_option (\<lambda>(c, r). (Some c, r)) (getOrLoad fuel 0 env key currentHash True c))"

text \<open>An undisturbed turn: the caller leads, and nothing is invalidated while its load runs.\<close>

definition undisturbed :: "('k, 'v, 'e) load_env \<Rightarrow> nat \<Rightarrow> bool" where
  "undisturbed env n \<longleftrightarrow> shared env n = None \<and> (\<forall>c. epoch (meddle env n 3 c) = epoch c)"

lemma load_once_stored:
  "undisturbed env n \<Longrightarrow> load_once env n key h ver c = (c', Inr (v, stored)) \<Longrightarrow> stored"
  by (auto simp: load_once_def undisturbed_def storeIfEpoch_def cacheEpoch_def Let_def
      split: prod.splits option.splits sum.splits if_splits)

lemma getOrLoad_undisturbed:
  assumes "undisturbed env n"
  shows "getOrLoad (Suc fuel) n env key h ver c \<noteq> None"
  using load_once_stored [OF assms] assms
  by (fastforce simp: undisturbed_def split: prod.splits option.splits sum.splits)

lemma getOrLoad_returns:
  "undisturbed env (n + m) \<Longrightarrow> getOrLoad (Suc m) n env key h ver c \<noteq> None"
proof (induction m arbitrary: n c)
  case 0
  then show ?case using getOrLoad_undisturbed [of env n 0] by simp
next
  case (Suc m)
  have "getOrLoad (Suc m) (Suc n) env key h ver c' \<noteq> None" for c' using Suc.IH [of "Suc n"] Suc.prems by simp
  then show ?case
    by (subst getOrLoad.simps) (auto simp del: getOrLoad.simps split: prod.splits option.splits sum.splits)
qed

section \<open>Loading several keys at once\<close>

record 'k batch_miss =
  bm_key :: 'k
  bm_hash :: int
  bm_cacheable :: bool

type_synonym 'k batch_key = "'k \<times> int \<times> bool \<times> 64 word"

record ('v, 'e) batch_flight =
  fl_value :: "'v option"
  fl_err :: "'e option"
  fl_retry :: bool

text \<open>
  The table of running batch loads: the open flights by flight key, and what the finished ones
  returned. A flight is a number; \<open>fl_value\<close> is \<open>None\<close> for \<open>ok = false\<close>.
\<close>

record ('k, 'v, 'e) batch_table =
  bt_open :: "'k batch_key \<rightharpoonup> nat"
  bt_done :: "nat \<rightharpoonup> ('v, 'e) batch_flight"
  bt_next :: nat

type_synonym 'k batch_wait = "'k batch_miss \<times> 'k batch_key \<times> nat"

definition flight_key :: "64 word \<Rightarrow> 'k batch_miss \<Rightarrow> 'k batch_key" where
  "flight_key e m = (bm_key m, bm_hash m, bm_cacheable m, e)"

fun claimBatchFlights ::
  "'k batch_miss list \<Rightarrow> 64 word \<Rightarrow> ('k, 'v, 'e) batch_table
    \<Rightarrow> ('k, 'v, 'e) batch_table \<times> 'k batch_wait list \<times> 'k batch_wait list" where
  "claimBatchFlights [] e t = (t, [], [])"
| "claimBatchFlights (m # ms) e t =
    (let fk = flight_key e m in
     case bt_open t fk of
       Some f \<Rightarrow>
         let (t', waits, owned) = claimBatchFlights ms e t
         in (t', (m, fk, f) # waits, owned)
     | None \<Rightarrow>
         let f = bt_next t;
             (t', waits, owned) = claimBatchFlights ms e
               (t\<lparr>bt_open := (bt_open t)(fk \<mapsto> f), bt_next := Suc f\<rparr>)
         in (t', (m, fk, f) # waits, (m, fk, f) # owned))"

definition completeBatchFlight ::
  "'k batch_key \<Rightarrow> nat \<Rightarrow> 'v option \<Rightarrow> 'e option \<Rightarrow> bool
    \<Rightarrow> ('k, 'v, 'e) batch_table \<Rightarrow> ('k, 'v, 'e) batch_table" where
  "completeBatchFlight fk f value err retry t =
    t\<lparr>bt_done := (bt_done t)(f \<mapsto> \<lparr>fl_value = value, fl_err = err, fl_retry = retry\<rparr>),
      bt_open := (if bt_open t fk = Some f then (bt_open t)(fk := None) else bt_open t)\<rparr>"

definition storeBatchIfEpoch ::
  "int \<Rightarrow> ('k \<times> 'v \<times> int) list \<Rightarrow> 64 word \<Rightarrow> ('k, 'v) cache \<Rightarrow> ('k, 'v) cache \<times> bool" where
  "storeBatchIfEpoch now entries expected c =
    (if epoch c \<noteq> expected then (c, False)
     else (fold (\<lambda>(k, v, h). storeLocked now k v h) entries c, True))"

definition dedupeKeys :: "'k list \<Rightarrow> 'k list" where
  "dedupeKeys keys = rev (foldl (\<lambda>out k. if k \<in> set out then out else k # out) [] keys)"

text \<open>
  The surroundings of a batch call: clocks, what other goroutines do to the cache before the epoch
  is read (point 0) and before each lookup, what they do while the loader runs and while the call
  waits for flights of others, the versions of the keys, the loader, and the context's error when
  the wait takes its side or when a turn has to be repeated.
\<close>

record ('k, 'v, 'e) batch_env =
  b_clock :: "nat \<Rightarrow> nat \<Rightarrow> int"
  b_meddle :: "nat \<Rightarrow> nat \<Rightarrow> ('k, 'v) cache \<Rightarrow> ('k, 'v) cache"
  b_during :: "nat \<Rightarrow> ('k, 'v) cache \<times> ('k, 'v, 'e) batch_table \<Rightarrow> ('k, 'v) cache \<times> ('k, 'v, 'e) batch_table"
  b_waiting :: "nat \<Rightarrow> ('k, 'v) cache \<times> ('k, 'v, 'e) batch_table \<Rightarrow> ('k, 'v) cache \<times> ('k, 'v, 'e) batch_table"
  b_versionOf :: "nat \<Rightarrow> 'k \<Rightarrow> int \<times> bool"
  b_load :: "nat \<Rightarrow> 'k list \<Rightarrow> 'e + ('k \<rightharpoonup> 'v)"
  b_cancelled :: "nat \<Rightarrow> 'e option"
  b_ctx_err :: "nat \<Rightarrow> 'e option"

fun batch_scan ::
  "('k, 'v, 'e) batch_env \<Rightarrow> nat \<Rightarrow> nat \<Rightarrow> 'k list \<Rightarrow> 'k list \<Rightarrow> ('k, 'v) cache \<Rightarrow> ('k \<rightharpoonup> 'v)
    \<Rightarrow> 'k batch_miss list \<Rightarrow> ('k, 'v) cache \<times> ('k \<rightharpoonup> 'v) \<times> 'k batch_miss list" where
  "batch_scan env n i [] seen c out missing = (c, out, missing)"
| "batch_scan env n i (k # ks) seen c out missing =
    (if k \<in> set seen then batch_scan env n (Suc i) ks seen c out missing
     else
       let (hash, cacheable) = b_versionOf env n k; c = b_meddle env n (Suc i) c;
           miss = missing @ [\<lparr>bm_key = k, bm_hash = hash, bm_cacheable = cacheable\<rparr>]
       in if cacheable then
            (case lookup (b_clock env n i) k hash (hash \<noteq> 0) c of
               (c, Some v) \<Rightarrow> batch_scan env n (Suc i) ks (k # seen) c (out(k \<mapsto> v)) missing
             | (c, None) \<Rightarrow> batch_scan env n (Suc i) ks (k # seen) c out miss)
          else batch_scan env n (Suc i) ks (k # seen) c out miss)"

definition store_entries :: "'k batch_wait list \<Rightarrow> ('k \<rightharpoonup> 'v) \<Rightarrow> ('k \<times> 'v \<times> int) list" where
  "store_entries owned loaded =
    concat (map (\<lambda>(m, fk, f). case loaded (bm_key m) of
       Some v \<Rightarrow> if bm_cacheable m then [(bm_key m, v, bm_hash m)] else []
     | None \<Rightarrow> []) owned)"

definition run_owned ::
  "('k, 'v, 'e) batch_env \<Rightarrow> nat \<Rightarrow> 'k batch_wait list \<Rightarrow> 64 word
    \<Rightarrow> ('k, 'v) cache \<times> ('k, 'v, 'e) batch_table \<Rightarrow> ('k, 'v) cache \<times> ('k, 'v, 'e) batch_table" where
  "run_owned env n owned loadEpoch ct =
    (let (c, t) = b_during env n ct in
     case b_load env n (map (\<lambda>(m, fk, f). bm_key m) owned) of
       Inl err \<Rightarrow>
         (c, fold (\<lambda>(m, fk, f). completeBatchFlight fk f None (Some err) False) owned t)
     | Inr loaded \<Rightarrow>
         let (c, stored) = storeBatchIfEpoch (b_clock env n 0) (store_entries owned loaded) loadEpoch c
         in (c, fold (\<lambda>(m, fk, f). completeBatchFlight fk f (loaded (bm_key m)) None (\<not> stored)) owned t))"

text \<open>Collecting the flights: \<open>None\<close> if one of them is not finished, so that the call blocks.\<close>

fun collect_waits ::
  "'k batch_wait list \<Rightarrow> ('k, 'v, 'e) batch_table \<Rightarrow> ('k \<rightharpoonup> 'v) \<Rightarrow> bool
    \<Rightarrow> ('e + ('k \<rightharpoonup> 'v) \<times> bool) option" where
  "collect_waits [] t out retry = Some (Inr (out, retry))"
| "collect_waits ((m, fk, f) # ws) t out retry =
    (case bt_done t f of
       None \<Rightarrow> None
     | Some fl \<Rightarrow>
         (case fl_err fl of
            Some err \<Rightarrow> Some (Inl err)
          | None \<Rightarrow>
              if fl_retry fl then collect_waits ws t out True
              else (case fl_value fl of
                      Some v \<Rightarrow> collect_waits ws t (out(bm_key m \<mapsto> v)) retry
                    | None \<Rightarrow> collect_waits ws t out retry)))"

fun batch_loop ::
  "nat \<Rightarrow> nat \<Rightarrow> ('k, 'v, 'e) batch_env \<Rightarrow> 'k list \<Rightarrow> ('k, 'v) cache \<times> ('k, 'v, 'e) batch_table
    \<Rightarrow> ((('k, 'v) cache \<times> ('k, 'v, 'e) batch_table) \<times> ('e + ('k \<rightharpoonup> 'v))) option" where
  "batch_loop 0 n env keys ct = None"
| "batch_loop (Suc fuel) n env keys (c, t) =
    (let c = b_meddle env n 0 c; loadEpoch = cacheEpoch c;
         (c, out, missing) = batch_scan env n 0 keys [] c Map.empty []
     in if missing = [] then Some ((c, t), Inr out)
        else
          let (t, waits, owned) = claimBatchFlights missing loadEpoch t;
              ct = (if owned = [] then (c, t) else run_owned env n owned loadEpoch (c, t));
              ct = b_waiting env n ct
          in case b_cancelled env n of
               Some err \<Rightarrow> Some (ct, Inl err)
             | None \<Rightarrow>
             (case collect_waits waits (snd ct) out False of
                None \<Rightarrow> None
              | Some (Inl err) \<Rightarrow> Some (ct, Inl err)
              | Some (Inr (out, retry)) \<Rightarrow>
                  if retry then
                    (case b_ctx_err env n of
                       Some err \<Rightarrow> Some (ct, Inl err)
                     | None \<Rightarrow> batch_loop fuel (Suc n) env keys ct)
                  else Some (ct, Inr out)))"

definition GetOrLoadBatch ::
  "nat \<Rightarrow> ('k, 'v, 'e) batch_env \<Rightarrow> 'k list \<Rightarrow> ('k, 'v) cache option \<times> ('k, 'v, 'e) batch_table
    \<Rightarrow> ((('k, 'v) cache option \<times> ('k, 'v, 'e) batch_table) \<times> ('e + ('k \<rightharpoonup> 'v))) option" where
  "GetOrLoadBatch fuel env keys ct =
    (if keys = [] then Some (ct, Inr Map.empty)
     else case fst ct of
       None \<Rightarrow> Some (ct, b_load env 0 (dedupeKeys keys))
     | Some c \<Rightarrow> map_option (\<lambda>((c, t), r). ((Some c, t), r)) (batch_loop fuel 0 env keys (c, snd ct)))"

text \<open>A call that nobody disturbs.\<close>

definition quiet_env ::
  "int \<Rightarrow> ('k \<Rightarrow> int \<times> bool) \<Rightarrow> ('k list \<Rightarrow> 'e + ('k \<rightharpoonup> 'v)) \<Rightarrow> ('k, 'v, 'e) batch_env" where
  "quiet_env now versionOf load =
    \<lparr>b_clock = (\<lambda>_ _. now), b_meddle = (\<lambda>_ _ c. c), b_during = (\<lambda>_ ct. ct), b_waiting = (\<lambda>_ ct. ct),
     b_versionOf = (\<lambda>_. versionOf), b_load = (\<lambda>_. load), b_cancelled = (\<lambda>_. None),
     b_ctx_err = (\<lambda>_. None)\<rparr>"

lemma dedupeKeys_set: "set (dedupeKeys keys) = set keys" and dedupeKeys_distinct: "distinct (dedupeKeys keys)"
proof -
  have "set (foldl (\<lambda>out k. if k \<in> set out then out else k # out) acc keys) = set acc \<union> set keys
      \<and> (distinct acc \<longrightarrow> distinct (foldl (\<lambda>out k. if k \<in> set out then out else k # out) acc keys))" for acc
    by (induction keys arbitrary: acc) auto
  from this [of "[]"] show "set (dedupeKeys keys) = set keys" "distinct (dedupeKeys keys)"
    by (simp_all add: dedupeKeys_def)
qed

text \<open>
  \<open>agrees\<close>: whatever the cache may answer for a key is the value of a function. A batch call over
  such a cache and a loader for the same function returns the function.
\<close>

definition agrees :: "('k \<Rightarrow> 'v) \<Rightarrow> ('k, 'v) cache \<Rightarrow> bool" where
  "agrees g c \<longleftrightarrow> (\<forall>k e. items c k = Some e \<longrightarrow> le_value e = g k)"

lemma agrees_lookup:
  assumes "agrees g c"
  shows "agrees g (fst (lookup now k h ver c))" "snd (lookup now k h ver c) = Some v \<Longrightarrow> v = g k"
proof -
  show "agrees g (fst (lookup now k h ver c))"
    using assms lookup_items unfolding agrees_def by fast
  show "v = g k" if "snd (lookup now k h ver c) = Some v"
    using assms lookup_hit [of now k h ver c "fst (lookup now k h ver c)" v] that
    by (auto simp: agrees_def prod_eq_iff)
qed

lemma batch_scan_agrees:
  assumes "agrees g c" "\<forall>k v. out k = Some v \<longrightarrow> v = g k"
    "set seen = dom out \<union> bm_key ` set missing" "distinct (map bm_key missing)"
    "batch_scan (quiet_env now versionOf load) n i keys seen c out missing = (c', out', missing')"
  shows "agrees g c' \<and> (\<forall>k v. out' k = Some v \<longrightarrow> v = g k) \<and> distinct (map bm_key missing')
    \<and> dom out' \<union> bm_key ` set missing' = set seen \<union> set keys"
  using assms
proof (induction keys arbitrary: i seen c out missing)
  case (Cons k keys)
  show ?case
  proof (cases "k \<in> set seen")
    case True
    then show ?thesis using Cons.IH [OF Cons.prems(1-4), of "Suc i"] Cons.prems(5) by auto
  next
    case False
    obtain hash cacheable where v: "versionOf k = (hash, cacheable)" by (cases "versionOf k")
    let ?miss = "missing @ [\<lparr>bm_key = k, bm_hash = hash, bm_cacheable = cacheable\<rparr>]"
    have fresh: "k \<notin> bm_key ` set missing" "k \<notin> dom out" using False Cons.prems(3) by auto
    have miss: "set (k # seen) = dom out \<union> bm_key ` set ?miss" by (simp add: Cons.prems(3))
    have dist: "distinct (map bm_key ?miss)" using Cons.prems(4) fresh(1) by simp
    show ?thesis
    proof (cases "cacheable \<and> snd (lookup now k hash (hash \<noteq> 0) c) \<noteq> None")
      case True
      then obtain c1 v1 where lk: "lookup now k hash (hash \<noteq> 0) c = (c1, Some v1)"
        by (cases "lookup now k hash (hash \<noteq> 0) c") auto
      have a: "agrees g c1" "v1 = g k" using agrees_lookup [OF Cons.prems(1), of now k hash] lk by (metis fst_conv, metis snd_conv)
      have scan: "batch_scan (quiet_env now versionOf load) n (Suc i) keys (k # seen) c1 (out(k \<mapsto> v1)) missing
          = (c', out', missing')" using Cons.prems(5) False v True lk by (simp add: quiet_env_def)
      have o: "\<forall>k' v. (out(k \<mapsto> v1)) k' = Some v \<longrightarrow> v = g k'" using Cons.prems(2) a(2) by simp
      have sn: "set (k # seen) = dom (out(k \<mapsto> v1)) \<union> bm_key ` set missing" by (simp add: Cons.prems(3))
      from Cons.IH [OF a(1) o sn Cons.prems(4) scan] show ?thesis by simp
    next
      case no: False
      obtain c1 where c1: "agrees g c1"
        "batch_scan (quiet_env now versionOf load) n (Suc i) keys (k # seen) c1 out ?miss = (c', out', missing')"
      proof (cases cacheable)
        case True
        obtain c1 where lk: "lookup now k hash (hash \<noteq> 0) c = (c1, None)"
          using no True by (cases "lookup now k hash (hash \<noteq> 0) c") auto
        then show thesis
          using agrees_lookup(1) [OF Cons.prems(1), of now k hash "hash \<noteq> 0"] Cons.prems(5) False v True
          by (intro that [of c1]) (simp_all add: quiet_env_def)
      next
        case not_cacheable: False
        then show thesis
          using Cons.prems(1,5) False v by (intro that [of c]) (simp_all add: quiet_env_def)
      qed
      from Cons.IH [OF c1(1) Cons.prems(2) miss dist c1(2)] show ?thesis by simp
    qed
  qed
qed auto

lemma quiet_env_sel [simp]:
  "b_clock (quiet_env now versionOf load) n i = now" "b_meddle (quiet_env now versionOf load) n i c = c"
  "b_during (quiet_env now versionOf load) n ct = ct" "b_waiting (quiet_env now versionOf load) n ct = ct"
  "b_versionOf (quiet_env now versionOf load) n = versionOf" "b_load (quiet_env now versionOf load) n = load"
  "b_cancelled (quiet_env now versionOf load) n = None" "b_ctx_err (quiet_env now versionOf load) n = None"
  by (simp_all add: quiet_env_def)

lemma claim_fresh:
  assumes "distinct (map bm_key ms)" "\<forall>m\<in>set ms. bt_open t (flight_key e m) = None"
  obtains t' ws where "claimBatchFlights ms e t = (t', ws, ws)" "map fst ws = ms"
    "distinct (map (snd \<circ> snd) ws)" "\<forall>(m, fk, f)\<in>set ws. fk = flight_key e m \<and> bt_open t' fk = Some f \<and> bt_next t \<le> f"
    "dom (bt_open t') = dom (bt_open t) \<union> flight_key e ` set ms"
    "\<forall>fk. fk \<notin> flight_key e ` set ms \<longrightarrow> bt_open t' fk = bt_open t fk"
  using assms
proof (induction ms arbitrary: t thesis)
  case Nil
  show thesis by (rule Nil(1) [of t "[]"]) simp_all
next
  case (Cons m ms)
  let ?fk = "flight_key e m"
  let ?t = "t\<lparr>bt_open := (bt_open t)(?fk \<mapsto> bt_next t), bt_next := Suc (bt_next t)\<rparr>"
  have other: "flight_key e m' \<noteq> ?fk" if "m' \<in> set ms" for m'
    using Cons.prems(2) imageI [OF that, of bm_key] by (auto simp: flight_key_def)
  have d: "distinct (map bm_key ms)" using Cons.prems(2) by simp
  have "\<forall>m'\<in>set ms. bt_open ?t (flight_key e m') = None" using Cons.prems(3) other by simp
  from Cons.IH [OF _ d this] obtain t' ws where ws: "claimBatchFlights ms e ?t = (t', ws, ws)" "map fst ws = ms"
    "distinct (map (snd \<circ> snd) ws)"
    "\<forall>(m, fk, f)\<in>set ws. fk = flight_key e m \<and> bt_open t' fk = Some f \<and> bt_next ?t \<le> f"
    "dom (bt_open t') = dom (bt_open ?t) \<union> flight_key e ` set ms"
    "\<forall>fk. fk \<notin> flight_key e ` set ms \<longrightarrow> bt_open t' fk = bt_open ?t fk" by blast
  have fk: "?fk \<notin> flight_key e ` set ms" using other by fastforce
  show thesis
  proof (rule Cons.prems(1) [of t' "(m, ?fk, bt_next t) # ws"])
    show "claimBatchFlights (m # ms) e t = (t', (m, ?fk, bt_next t) # ws, (m, ?fk, bt_next t) # ws)"
      using Cons.prems(3) ws(1) by (simp add: Let_def)
    have "\<forall>w\<in>set ws. bt_next t \<noteq> snd (snd w)" using ws(4) by fastforce
    then show "distinct (map (snd \<circ> snd) ((m, ?fk, bt_next t) # ws))" using ws(3) by auto
    have new: "bt_open t' ?fk = Some (bt_next t)" using ws(6) [rule_format, OF fk] by simp
    show "\<forall>(m, fk, f)\<in>set ((m, ?fk, bt_next t) # ws). fk = flight_key e m \<and> bt_open t' fk = Some f
        \<and> bt_next t \<le> f"
      using ws(4) new by (auto simp: Suc_le_eq)
    show "\<forall>fk. fk \<notin> flight_key e ` set (m # ms) \<longrightarrow> bt_open t' fk = bt_open t fk" using ws(6) by simp
  qed (use ws(2,5) in auto)
qed

lemma completeBatchFlight_done [simp]:
  "bt_done (completeBatchFlight fk f v err retry t)
    = (bt_done t)(f \<mapsto> \<lparr>fl_value = v, fl_err = err, fl_retry = retry\<rparr>)"
  by (simp add: completeBatchFlight_def)

lemma complete_fold_done:
  assumes "distinct (map (snd \<circ> snd) ws)"
  shows "bt_done (fold (\<lambda>(m, fk, f). completeBatchFlight fk f (val m) err retry) ws t) f'
    = (case find (\<lambda>w. snd (snd w) = f') ws of
         Some w \<Rightarrow> Some \<lparr>fl_value = val (fst w), fl_err = err, fl_retry = retry\<rparr>
       | None \<Rightarrow> bt_done t f')"
  using assms
proof (induction ws arbitrary: t)
  case (Cons w ws)
  obtain m fk f where w: "w = (m, fk, f)" by (cases w)
  have "find (\<lambda>w. snd (snd w) = f') ws = None" if "f = f'"
    using Cons.prems that by (force simp: w find_None)
  then show ?case
    using Cons.IH [of "completeBatchFlight fk f (val m) err retry t"] Cons.prems
    by (auto simp: w split: option.splits)
qed simp

lemma complete_fold:
  assumes "distinct (map (snd \<circ> snd) ws)"
  shows "\<forall>(m, fk, f)\<in>set ws. bt_done (fold (\<lambda>(m, fk, f). completeBatchFlight fk f (val m) err retry) ws t) f
      = Some \<lparr>fl_value = val m, fl_err = err, fl_retry = retry\<rparr>"
proof -
  have "find (\<lambda>w. snd (snd w) = snd (snd w')) ws = Some w'" if "w' \<in> set ws" for w'
    using assms that by (induction ws) (auto simp: image_iff)
  then have "bt_done (fold (\<lambda>(m, fk, f). completeBatchFlight fk f (val m) err retry) ws t) f
      = Some \<lparr>fl_value = val m, fl_err = err, fl_retry = retry\<rparr>" if "(m, fk, f) \<in> set ws" for m fk f
    using complete_fold_done [OF assms, of val err retry t f] that by fastforce
  then show ?thesis by blast
qed

lemma complete_fold_open:
  assumes "\<forall>(m, fk, f)\<in>set ws. bt_open t fk = Some f" "distinct (map (fst \<circ> snd) ws)"
  shows "bt_open (fold (\<lambda>(m, fk, f). completeBatchFlight fk f (val m) err retry) ws t)
    = bt_open t |` (- (fst \<circ> snd) ` set ws)"
  using assms
proof (induction ws arbitrary: t)
  case (Cons w ws)
  obtain m fk f where w: "w = (m, fk, f)" by (cases w)
  let ?t = "completeBatchFlight fk f (val m) err retry t"
  have o: "bt_open ?t = (bt_open t)(fk := None)" using Cons.prems(1) by (simp add: w completeBatchFlight_def)
  have "bt_open ?t fk' = Some f'" if "(m', fk', f') \<in> set ws" for m' fk' f'
  proof -
    have "fk' \<noteq> fk" using Cons.prems(2) that by (force simp: w)
    then show ?thesis using Cons.prems(1) that unfolding o by auto
  qed
  then have "\<forall>(m', fk', f')\<in>set ws. bt_open ?t fk' = Some f'" by blast
  from Cons.IH [OF this] Cons.prems(2) show ?case
    by (simp add: w o) (auto simp: restrict_map_def fun_eq_iff)
qed (simp add: restrict_map_def)

lemma collect_all:
  assumes "\<forall>(m, fk, f)\<in>set ws. bt_done t f = Some \<lparr>fl_value = Some (g (bm_key m)), fl_err = None, fl_retry = False\<rparr>"
  shows "collect_waits ws t out False
    = Some (Inr (\<lambda>k. if k \<in> bm_key ` fst ` set ws then Some (g k) else out k, False))"
  using assms
proof (induction ws arbitrary: out)
  case (Cons w ws)
  obtain m fk f where w: "w = (m, fk, f)" by (cases w)
  have "collect_waits (w # ws) t out False = collect_waits ws t (out(bm_key m \<mapsto> g (bm_key m))) False"
    using Cons.prems by (simp add: w)
  also have "\<dots> = Some (Inr (\<lambda>k. if k \<in> bm_key ` fst ` set ws then Some (g k)
      else (out(bm_key m \<mapsto> g (bm_key m))) k, False))" by (rule Cons.IH) (use Cons.prems in simp)
  also have "(\<lambda>k. if k \<in> bm_key ` fst ` set ws then Some (g k) else (out(bm_key m \<mapsto> g (bm_key m))) k)
      = (\<lambda>k. if k \<in> bm_key ` fst ` set (w # ws) then Some (g k) else out k)" by (auto simp: w fun_eq_iff)
  finally show ?case .
qed simp

lemma agrees_store:
  "linked c \<Longrightarrow> agrees g c \<Longrightarrow> agrees g (storeLocked now k (g k) h c)"
  using storeLocked_items unfolding agrees_def by fastforce

lemma agrees_fold_store:
  "cache_ok c \<Longrightarrow> agrees g c \<Longrightarrow> \<forall>(k, v, h)\<in>set entries. v = g k \<Longrightarrow>
   agrees g (fold (\<lambda>(k, v, h). storeLocked now k v h) entries c)
   \<and> cache_ok (fold (\<lambda>(k, v, h). storeLocked now k v h) entries c)"
proof (induction entries arbitrary: c)
  case (Cons e entries)
  obtain k v h where e: "e = (k, v, h)" by (cases e)
  have v: "v = g k" using Cons.prems(3) by (simp add: e)
  have "linked c" using Cons.prems(1) by (simp add: cache_ok_def)
  then show ?case
    using Cons.IH [OF storeLocked_ok [OF Cons.prems(1)] agrees_store [OF _ Cons.prems(2)]] Cons.prems(3)
    by (simp add: e v)
qed simp

lemma batch_scan_ok:
  "cache_ok c \<Longrightarrow> batch_scan (quiet_env now versionOf load) n i keys seen c out missing = (c', out', missing') \<Longrightarrow>
   cache_ok c' \<and> epoch c' = epoch c"
proof (induction keys arbitrary: i seen c out missing)
  case (Cons k keys)
  obtain hash cacheable where v: "versionOf k = (hash, cacheable)" by (cases "versionOf k")
  obtain c1 r where lk: "lookup now k hash (hash \<noteq> 0) c = (c1, r)" by (cases "lookup now k hash (hash \<noteq> 0) c")
  have c1: "cache_ok c1" "epoch c1 = epoch c"
    using lookup_ok [OF Cons.prems(1), of now k hash "hash \<noteq> 0"] lookup_epoch [of now k hash "hash \<noteq> 0" c]
    by (simp_all add: lk)
  show ?case
    using Cons.prems(2) Cons.IH [OF Cons.prems(1)] Cons.IH [OF c1(1)] c1(2) v lk
    by (auto simp: Let_def split: if_splits option.splits)
qed simp

lemma batch_loop_agrees:
  assumes ok: "cache_ok c" "agrees g c" and t: "bt_open t = Map.empty"
    and load: "\<And>ks. \<exists>m. load ks = Inr m \<and> (\<forall>k\<in>set ks. m k = Some (g k))"
  obtains c' t' out where
    "batch_loop (Suc fuel) n (quiet_env now versionOf load) keys (c, t) = Some ((c', t'), Inr out)"
    "cache_ok c'" "agrees g c'" "bt_open t' = Map.empty"
    "out = (\<lambda>k. if k \<in> set keys then Some (g k) else None)"
proof -
  let ?env = "quiet_env now versionOf load"
  obtain c1 out missing where scan: "batch_scan ?env n 0 keys [] c Map.empty [] = (c1, out, missing)"
    by (cases "batch_scan ?env n 0 keys [] c Map.empty []") auto
  have a: "agrees g c1" "\<forall>k v. out k = Some v \<longrightarrow> v = g k" "distinct (map bm_key missing)"
    "dom out \<union> bm_key ` set missing = set keys"
    using batch_scan_agrees [OF ok(2) _ _ _ scan] by simp_all
  have c1: "cache_ok c1" "epoch c1 = epoch c" using batch_scan_ok [OF ok(1) scan] by simp_all
  show thesis
  proof (cases "missing = []")
    case True
    have out: "out = (\<lambda>k. if k \<in> set keys then Some (g k) else None)"
    proof
      fix k show "out k = (if k \<in> set keys then Some (g k) else None)"
        using a(2,4) True by (cases "out k") auto
    qed
    have r: "batch_loop (Suc fuel) n ?env keys (c, t) = Some ((c1, t), Inr out)"
      using True by (simp add: scan)
    show thesis by (rule that [OF r c1(1) a(1) t out])
  next
    case False
    obtain t1 ws where ws: "claimBatchFlights missing (epoch c) t = (t1, ws, ws)" "map fst ws = missing"
      "distinct (map (snd \<circ> snd) ws)"
      "\<forall>(m, fk, f)\<in>set ws. fk = flight_key (epoch c) m \<and> bt_open t1 fk = Some f \<and> bt_next t \<le> f"
      "dom (bt_open t1) = dom (bt_open t) \<union> flight_key (epoch c) ` set missing"
      by (rule claim_fresh [OF a(3), of t "epoch c"]) (simp_all add: t)
    have ne: "ws \<noteq> []" using ws(2) False by auto
    obtain m where m: "load (map (\<lambda>(m, fk, f). bm_key m) ws) = Inr m"
      "\<forall>k\<in>set (map (\<lambda>(m, fk, f). bm_key m) ws). m k = Some (g k)" using load by blast
    have val: "m (bm_key mi) = Some (g (bm_key mi))" if "(mi, fk, f) \<in> set ws" for mi fk f
      using m(2) that by force
    have entries: "\<forall>(k, v, h)\<in>set (store_entries ws m). v = g k"
      using val by (fastforce simp: store_entries_def split: option.splits if_splits)
    let ?c2 = "fold (\<lambda>(k, v, h). storeLocked now k v h) (store_entries ws m) c1"
    let ?t2 = "fold (\<lambda>(mi, fk, f). completeBatchFlight fk f (m (bm_key mi)) None False) ws t1"
    have c2: "agrees g ?c2" "cache_ok ?c2" using agrees_fold_store [OF c1(1) a(1) entries] by simp_all
    have run: "run_owned ?env n ws (epoch c) (c1, t1) = (?c2, ?t2)"
      using m(1) c1(2) by (simp add: run_owned_def storeBatchIfEpoch_def)
    have don: "\<forall>(mi, fk, f)\<in>set ws. bt_done ?t2 f
        = Some \<lparr>fl_value = Some (g (bm_key mi)), fl_err = None, fl_retry = False\<rparr>"
      using complete_fold [OF ws(3), where val = "\<lambda>mi. m (bm_key mi)" and err = None and retry = False and t = t1]
        val by fastforce
    have fks: "map (fst \<circ> snd) ws = map (flight_key (epoch c)) missing"
      unfolding ws(2) [symmetric] using ws(4) by auto
    have dfk: "distinct (map (fst \<circ> snd) ws)"
      unfolding fks using a(3) by (auto simp: distinct_map inj_on_def flight_key_def)
    have "(fst \<circ> snd) ` set ws = flight_key (epoch c) ` set missing"
      using arg_cong [OF fks, of set] by simp
    then have dom1: "dom (bt_open t1) = (fst \<circ> snd) ` set ws" using ws(5) t by simp
    have "\<forall>(mi, fk, f)\<in>set ws. bt_open t1 fk = Some f" using ws(4) by auto
    from complete_fold_open [OF this dfk, of "\<lambda>mi. m (bm_key mi)" None False]
    have o2: "bt_open ?t2 = bt_open t1 |` (- (fst \<circ> snd) ` set ws)" .
    have opn: "bt_open ?t2 = Map.empty"
    proof (rule ext)
      fix fk show "bt_open ?t2 fk = None"
        unfolding o2 dom1 [symmetric] restrict_map_def by (cases "bt_open t1 fk") auto
    qed
    let ?out = "\<lambda>k. if k \<in> bm_key ` fst ` set ws then Some (g k) else out k"
    have "fst ` set ws = set missing" using arg_cong [OF ws(2), of set] by simp
    then have wm: "bm_key ` fst ` set ws = bm_key ` set missing" by simp
    have out: "?out = (\<lambda>k. if k \<in> set keys then Some (g k) else None)"
    proof (rule ext)
      fix k show "?out k = (if k \<in> set keys then Some (g k) else None)"
        unfolding wm a(4) [symmetric] using a(2) by (cases "out k") auto
    qed
    have r: "batch_loop (Suc fuel) n ?env keys (c, t) = Some ((?c2, ?t2), Inr ?out)"
      using False ws(1) ne run collect_all [OF don, of out]
      by (simp add: scan cacheEpoch_def Let_def)
    show thesis by (rule that [OF r c2(2,1) opn out])
  qed
qed

section \<open>Sequences of operations\<close>

datatype ('k, 'v) cache_op =
    OpLookup int 'k int bool
  | OpStore int 'k 'v int
  | OpStoreIfEpoch int 'k 'v int "64 word"
  | OpStoreBatch int "('k \<times> 'v \<times> int) list" "64 word"
  | OpInvalidate "'k list"
  | OpInvalidateWhere "'k list" "'k \<Rightarrow> bool"
  | OpInvalidateWhereValue "'k list" "'k \<Rightarrow> 'v \<Rightarrow> bool"
  | OpFlush

fun cache_exec :: "('k, 'v) cache_op \<Rightarrow> ('k, 'v) cache \<Rightarrow> ('k, 'v) cache" where
  "cache_exec (OpLookup now k h ver) c = fst (lookup now k h ver c)"
| "cache_exec (OpStore now k v h) c = StoreVersioned now k h v c"
| "cache_exec (OpStoreIfEpoch now k v h e) c = fst (storeIfEpoch now k v h e c)"
| "cache_exec (OpStoreBatch now es e) c = fst (storeBatchIfEpoch now es e c)"
| "cache_exec (OpInvalidate ks) c = Invalidate ks c"
| "cache_exec (OpInvalidateWhere iter p) c = InvalidateWhere iter p c"
| "cache_exec (OpInvalidateWhereValue iter p) c = InvalidateWhereValue iter p c"
| "cache_exec OpFlush c = Flush c"

lemma fold_store_ok:
  "cache_ok c \<Longrightarrow> cache_ok (fold (\<lambda>(k, v, h). storeLocked now k v h) es c)"
proof (induction es arbitrary: c)
  case (Cons e es)
  obtain k v h where "e = (k, v, h)" by (cases e)
  then show ?case using Cons.IH [OF storeLocked_ok [OF Cons.prems]] by simp
qed simp

lemma fold_store_frame [simp]:
  "epoch (fold (\<lambda>(k, v, h). storeLocked now k v h) es c) = epoch c"
  "cap (fold (\<lambda>(k, v, h). storeLocked now k v h) es c) = cap c"
  "maxWeight (fold (\<lambda>(k, v, h). storeLocked now k v h) es c) = maxWeight c"
  by (induction es arbitrary: c) auto

lemma cache_exec_ok: "cache_ok c \<Longrightarrow> cache_ok (cache_exec op c)"
  by (cases op) (simp_all add: lookup_ok StoreVersioned_def storeLocked_ok storeIfEpoch_ok
      storeBatchIfEpoch_def fold_store_ok invalidate_ok Flush_ok)

lemma cache_lookup_limits:
  "cap (fst (lookup now k h ver c)) = cap c" "maxWeight (fst (lookup now k h ver c)) = maxWeight c"
  by (simp_all add: lookup_def split: option.splits)

lemma cache_exec_limits: "cap (cache_exec op c) = cap c \<and> maxWeight (cache_exec op c) = maxWeight c"
  by (cases op) (simp_all add: cache_lookup_limits StoreVersioned_def storeIfEpoch_def storeBatchIfEpoch_def
      Invalidate_def InvalidateWhere_def InvalidateWhereValue_def Flush_def)

lemma cache_run:
  "cache_ok c \<Longrightarrow> cache_ok (fold cache_exec ops c)
     \<and> cap (fold cache_exec ops c) = cap c \<and> maxWeight (fold cache_exec ops c) = maxWeight c"
proof (induction ops arbitrary: c)
  case (Cons op ops)
  then show ?case using Cons.IH [OF cache_exec_ok [OF Cons.prems]] cache_exec_limits [of op c] by simp
qed simp

section \<open>The callbacks keep a mirror\<close>

text \<open>
  The index that a listener of the two callbacks maintains. It is \<open>None\<close> as soon as a call does not
  fit: storing over a live entry, or removing what is not there.
\<close>

fun index_step :: "('k \<rightharpoonup> 'v) option \<Rightarrow> ('k, 'v) callback_call \<Rightarrow> ('k \<rightharpoonup> 'v) option" where
  "index_step None call = None"
| "index_step (Some m) (OnStore k v) = (if m k = None then Some (m(k \<mapsto> v)) else None)"
| "index_step (Some m) (OnRemove k v) = (if m k = Some v then Some (m(k := None)) else None)"

definition index_of :: "('k, 'v) callback_call list \<Rightarrow> ('k \<rightharpoonup> 'v) option" where
  "index_of cs = foldl index_step (Some Map.empty) cs"

definition contents :: "('k, 'v) cache \<Rightarrow> ('k \<rightharpoonup> 'v)" where
  "contents c = (\<lambda>k. map_option le_value (items c k))"

definition mirrored :: "('k, 'v) cache \<Rightarrow> bool" where
  "mirrored c \<longleftrightarrow> index_of (calls c) = Some (contents c)"

lemma index_of_append: "index_of (cs @ ds) = foldl index_step (index_of cs) ds"
  by (simp add: index_of_def)

lemma cache_removeElement_mirrored: "mirrored c \<Longrightarrow> mirrored (cache_removeElement k c)"
  by (auto simp: mirrored_def cache_removeElement_def contents_def index_of_append fun_eq_iff split: option.splits)

lemma evictOverflow_mirrored: "mirrored c \<Longrightarrow> mirrored (evictOverflow c)"
proof (induction c rule: evictOverflow.induct)
  case (1 c)
  have "mirrored (evictOldest c)" using 1(2) by (simp add: evictOldest_def cache_removeElement_mirrored)
  then show ?case using 1 by (simp add: evictOverflow.simps [of c])
qed

lemma placed_mirrored: "mirrored c \<Longrightarrow> mirrored (placed now k v h c)"
  by (auto simp: mirrored_def placed_def contents_def index_of_append fun_eq_iff split: option.splits)

lemma storeLocked_mirrored:
  assumes "linked c" "mirrored c" shows "mirrored (storeLocked now k v h c)"
proof (cases "maxWeight c > 0 \<and> valueWeight c v > maxWeight c")
  case True
  then show ?thesis using assms(2) cache_removeElement_mirrored [OF assms(2)] by (simp add: storeLocked_def)
next
  case False
  show ?thesis unfolding storeLocked_placed [OF assms(1) False]
    by (rule evictOverflow_mirrored [OF placed_mirrored [OF assms(2)]])
qed

lemma fold_store_mirrored:
  "cache_ok c \<Longrightarrow> mirrored c \<Longrightarrow> mirrored (fold (\<lambda>(k, v, h). storeLocked now k v h) es c)"
proof (induction es arbitrary: c)
  case (Cons e es)
  obtain k v h where e: "e = (k, v, h)" by (cases e)
  have "linked c" using Cons.prems(1) by (simp add: cache_ok_def)
  from Cons.IH [OF storeLocked_ok [OF Cons.prems(1)] storeLocked_mirrored [OF this Cons.prems(2)]]
  show ?case by (simp add: e)
qed simp

lemma drop_present_mirrored: "mirrored c \<Longrightarrow> mirrored (drop_present ks c)"
proof (induction ks arbitrary: c)
  case (Cons k ks)
  show ?case
    using Cons.IH [of "if items c k \<noteq> None then cache_removeElement k c else c"] Cons.prems cache_removeElement_mirrored [OF Cons.prems]
    by (simp add: drop_present_def)
qed (simp add: drop_present_def)

lemma mirrored_frame [simp]:
  "mirrored (c\<lparr>epoch := e\<rparr>) = mirrored c" "mirrored (moveToFront k c) = mirrored c"
  by (simp_all add: mirrored_def contents_def)

lemma flush_index:
  "distinct ks \<Longrightarrow> set ks \<subseteq> dom (items c) \<Longrightarrow>
   foldl index_step (Some (contents c)) (concat (map (\<lambda>k. case items c k of None \<Rightarrow> []
       | Some ent \<Rightarrow> [OnRemove k (le_value ent)]) ks)) = Some (contents c |` (- set ks))"
proof (induction ks rule: rev_induct)
  case (snoc k ks)
  obtain ent where ent: "items c k = Some ent" using snoc.prems(2) by auto
  then show ?case using snoc by (auto simp: contents_def restrict_map_def fun_eq_iff)
qed (simp add: restrict_map_def)

lemma Flush_mirrored:
  assumes "linked c" "mirrored c" shows "mirrored (Flush c)"
proof -
  have l: "distinct (ll c)" "set (ll c) = dom (items c)" using assms(1) by (simp_all add: linked_def)
  have "contents c |` (- dom (items c)) = Map.empty"
    by (auto simp: contents_def restrict_map_def fun_eq_iff)
  then show ?thesis
    using flush_index [of "ll c" c] l assms(2)
    by (simp add: mirrored_def Flush_def index_of_append) (simp add: contents_def)
qed

lemma cache_exec_mirrored:
  assumes "cache_ok c" "mirrored c" shows "mirrored (cache_exec op c)"
proof -
  have l: "linked c" using assms(1) by (simp add: cache_ok_def)
  show ?thesis
    by (cases op) (simp_all add: assms l lookup_def cache_removeElement_mirrored StoreVersioned_def storeLocked_mirrored
      storeIfEpoch_def storeBatchIfEpoch_def fold_store_mirrored Invalidate_def InvalidateWhere_def
      InvalidateWhereValue_def drop_present_mirrored Flush_mirrored split: option.splits)
qed

lemma run_mirrored:
  "cache_ok c \<Longrightarrow> mirrored c \<Longrightarrow> mirrored (fold cache_exec ops c)"
proof (induction ops arbitrary: c)
  case (Cons op ops)
  then show ?case using Cons.IH [OF cache_exec_ok cache_exec_mirrored] by simp
qed simp

section \<open>Loads and invalidations interleaved\<close>

text \<open>
  The cache in front of a database. A writer changes the database and invalidates the keys
  afterwards; in between the keys are \<open>dirty\<close>. A load reads the epoch, later reads the database
  key by key, and later stores what it has read if the epoch is still the same
  (\<open>storeBatchIfEpoch\<close>; a load of one key is a batch of one entry). \<open>generation\<close> counts the
  invalidations, of which \<open>epoch\<close> keeps the low 64 bits.
\<close>

record ('k, 'v) running_load =
  rl_epoch :: "64 word"
  rl_generation :: nat
  rl_read :: "'k \<rightharpoonup> 'v"

record ('k, 'v) cache_world =
  w_cache :: "('k, 'v) cache"
  w_db :: "'k \<Rightarrow> 'v"
  w_dirty :: "'k set"
  w_loads :: "nat \<rightharpoonup> ('k, 'v) running_load"
  w_generation :: nat

inductive world_step :: "('k, 'v) cache_world \<Rightarrow> ('k, 'v) cache_world \<Rightarrow> bool" where
  look: "world_step w (w\<lparr>w_cache := fst (lookup now k h ver (w_cache w))\<rparr>)"
| begin_load: "world_step w (w\<lparr>w_loads := (w_loads w)(i \<mapsto>
    \<lparr>rl_epoch = cacheEpoch (w_cache w), rl_generation = w_generation w, rl_read = Map.empty\<rparr>)\<rparr>)"
| read_db: "w_loads w i = Some ld \<Longrightarrow> world_step w (w\<lparr>w_loads := (w_loads w)(i \<mapsto>
    ld\<lparr>rl_read := (rl_read ld)(k \<mapsto> w_db w k)\<rparr>)\<rparr>)"
| finish: "w_loads w i = Some ld \<Longrightarrow> \<forall>(k, v, h)\<in>set es. rl_read ld k = Some v \<Longrightarrow>
    world_step w (w\<lparr>w_cache := fst (storeBatchIfEpoch now es (rl_epoch ld) (w_cache w)),
      w_loads := (w_loads w)(i := None)\<rparr>)"
| abandon: "world_step w (w\<lparr>w_loads := (w_loads w)(i := None)\<rparr>)"
| db_write: "world_step w (w\<lparr>w_db := (w_db w)(k := v), w_dirty := insert k (w_dirty w)\<rparr>)"
| invalidate: "ks \<noteq> [] \<Longrightarrow> world_step w (w\<lparr>w_cache := Invalidate ks (w_cache w),
    w_dirty := w_dirty w - set ks, w_generation := Suc (w_generation w)\<rparr>)"
| invalidate_where: "set iter = dom (items (w_cache w)) \<Longrightarrow>
    world_step w (w\<lparr>w_cache := InvalidateWhere iter p (w_cache w),
      w_dirty := w_dirty w - {k. p k}, w_generation := Suc (w_generation w)\<rparr>)"
| flush: "world_step w (w\<lparr>w_cache := Flush (w_cache w), w_dirty := {},
    w_generation := Suc (w_generation w)\<rparr>)"

definition start_world :: "('k, 'v) cache \<Rightarrow> ('k \<Rightarrow> 'v) \<Rightarrow> ('k, 'v) cache_world" where
  "start_world c d = \<lparr>w_cache = c, w_db = d, w_dirty = {}, w_loads = Map.empty, w_generation = 0\<rparr>"

definition fresh_load :: "('k, 'v) cache_world \<Rightarrow> ('k, 'v) running_load \<Rightarrow> bool" where
  "fresh_load w ld \<longleftrightarrow> rl_epoch ld = of_nat (rl_generation ld) \<and> rl_generation ld \<le> w_generation w
     \<and> (rl_generation ld = w_generation w \<longrightarrow>
          (\<forall>k v. rl_read ld k = Some v \<and> k \<notin> w_dirty w \<longrightarrow> v = w_db w k))"

definition coherent :: "('k, 'v) cache_world \<Rightarrow> bool" where
  "coherent w \<longleftrightarrow> cache_ok (w_cache w) \<and> epoch (w_cache w) = of_nat (w_generation w)
     \<and> (\<forall>k e. items (w_cache w) k = Some e \<and> k \<notin> w_dirty w \<longrightarrow> le_value e = w_db w k)
     \<and> (\<forall>i ld. w_loads w i = Some ld \<longrightarrow> fresh_load w ld)"

text \<open>Fewer than 2^64 invalidations have happened, so that equal epochs are equal generations.\<close>

definition in_range :: "('k, 'v) cache_world \<Rightarrow> bool" where
  "in_range w \<longleftrightarrow> w_generation w < 2 ^ 64"

lemma coherentD:
  assumes "coherent w"
  shows "cache_ok (w_cache w)" "epoch (w_cache w) = of_nat (w_generation w)"
    "\<And>k e. items (w_cache w) k = Some e \<Longrightarrow> k \<notin> w_dirty w \<Longrightarrow> le_value e = w_db w k"
    "\<And>i ld. w_loads w i = Some ld \<Longrightarrow> fresh_load w ld"
  using assms by (auto simp: coherent_def)

lemma coherentI:
  "cache_ok (w_cache w) \<Longrightarrow> epoch (w_cache w) = of_nat (w_generation w) \<Longrightarrow>
   (\<And>k e. items (w_cache w) k = Some e \<Longrightarrow> k \<notin> w_dirty w \<Longrightarrow> le_value e = w_db w k) \<Longrightarrow>
   (\<And>i ld. w_loads w i = Some ld \<Longrightarrow> fresh_load w ld) \<Longrightarrow> coherent w"
  by (simp add: coherent_def)

lemma fold_store_items:
  assumes "cache_ok c" "items (fold (\<lambda>(k, v, h). storeLocked now k v h) es c) x = Some e"
  shows "(\<exists>h. (x, le_value e, h) \<in> set es) \<or> items c x = Some e"
  using assms
proof (induction es arbitrary: c)
  case (Cons a es)
  obtain k v h where a: "a = (k, v, h)" by (cases a)
  have l: "linked c" using Cons.prems(1) by (simp add: cache_ok_def)
  from Cons.IH [OF storeLocked_ok [OF Cons.prems(1), of now k v h]] Cons.prems(2)
  have "(\<exists>h. (x, le_value e, h) \<in> set es) \<or> items (storeLocked now k v h c) x = Some e" by (simp add: a)
  then show ?case using storeLocked_items [OF l, of now k v h x e] by (auto simp: a)
qed simp

lemma same_epoch:
  "a < 2 ^ 64 \<Longrightarrow> b < 2 ^ 64 \<Longrightarrow> (of_nat a :: 64 word) = of_nat b \<Longrightarrow> a = b"
  by (simp add: word_of_nat_eq_iff take_bit_nat_eq_self)

lemma store_batch_coherent:
  assumes w: "coherent w" "in_range w" and ld: "w_loads w i = Some ld"
    and es: "\<forall>(k, v, h)\<in>set es. rl_read ld k = Some v"
    and e: "items (fst (storeBatchIfEpoch now es (rl_epoch ld) (w_cache w))) k = Some e" "k \<notin> w_dirty w"
  shows "le_value e = w_db w k"
proof (cases "epoch (w_cache w) = rl_epoch ld")
  case False
  then show ?thesis using e coherentD(3) [OF w(1)] by (simp add: storeBatchIfEpoch_def)
next
  case True
  have f: "fresh_load w ld" by (rule coherentD(4) [OF w(1) ld])
  have gen: "rl_generation ld = w_generation w"
  proof (rule same_epoch)
    show "w_generation w < 2 ^ 64" "rl_generation ld < 2 ^ 64"
      using w(2) f by (auto simp: in_range_def fresh_load_def)
    show "(of_nat (rl_generation ld) :: 64 word) = of_nat (w_generation w)"
      using True f coherentD(2) [OF w(1)] by (simp add: fresh_load_def)
  qed
  have "(\<exists>h. (k, le_value e, h) \<in> set es) \<or> items (w_cache w) k = Some e"
    using fold_store_items [OF coherentD(1) [OF w(1)]] e(1) True by (simp add: storeBatchIfEpoch_def)
  then show ?thesis
  proof
    assume "\<exists>h. (k, le_value e, h) \<in> set es"
    then have "rl_read ld k = Some (le_value e)" using es by blast
    then show ?thesis using f gen e(2) by (simp add: fresh_load_def)
  qed (use coherentD(3) [OF w(1)] e(2) in blast)
qed

text \<open>The three kinds of invalidation: entries disappear, the keys concerned become clean.\<close>

lemma coherent_invalidated:
  assumes w: "coherent w" and c: "cache_ok c'" "epoch c' = epoch (w_cache w) + 1"
    and i: "\<And>k e. items c' k = Some e \<Longrightarrow> items (w_cache w) k = Some e \<and> (k \<in> w_dirty w \<longrightarrow> k \<in> dirty')"
  shows "coherent (w\<lparr>w_cache := c', w_dirty := dirty', w_generation := Suc (w_generation w)\<rparr>)"
proof (rule coherentI)
  let ?w = "w\<lparr>w_cache := c', w_dirty := dirty', w_generation := Suc (w_generation w)\<rparr>"
  show "epoch (w_cache ?w) = of_nat (w_generation ?w)" using c(2) coherentD(2) [OF w] by simp
  show "le_value e = w_db ?w k" if "items (w_cache ?w) k = Some e" "k \<notin> w_dirty ?w" for k e
    using coherentD(3) [OF w, of k e] i [of k e] that by auto
  show "fresh_load ?w ld" if "w_loads ?w n = Some ld" for n ld
    using coherentD(4) [OF w, of n ld] that by (auto simp: fresh_load_def)
qed (simp add: c(1))

lemma step_coherent:
  assumes "world_step w w'" "coherent w" "in_range w"
  shows "coherent w'"
  using assms(1)
proof cases
  case (look now k h ver)
  show ?thesis
  proof (rule coherentI)
    show "cache_ok (w_cache w')" using lookup_ok [OF coherentD(1) [OF assms(2)]] by (simp add: look)
    show "epoch (w_cache w') = of_nat (w_generation w')" using coherentD(2) [OF assms(2)] by (simp add: look)
    show "le_value e = w_db w' k'" if "items (w_cache w') k' = Some e" "k' \<notin> w_dirty w'" for k' e
    proof -
      have "items (w_cache w) k' = Some e" by (rule lookup_items) (use that(1) look in simp)
      then show ?thesis using coherentD(3) [OF assms(2)] that(2) by (simp add: look)
    qed
    show "fresh_load w' ld" if "w_loads w' i = Some ld" for i ld
      using coherentD(4) [OF assms(2), of i ld] that by (simp add: look fresh_load_def)
  qed
next
  case (begin_load i)
  then show ?thesis
    using assms(2) by (auto simp: coherent_def fresh_load_def cacheEpoch_def)
next
  case (read_db i ld k)
  then show ?thesis
    using assms(2) coherentD(4) [OF assms(2) read_db(2)] by (auto simp: coherent_def fresh_load_def)
next
  case (finish i ld es now)
  have "cache_ok (fst (storeBatchIfEpoch now es (rl_epoch ld) (w_cache w)))"
    using cache_exec_ok [OF coherentD(1) [OF assms(2)], of "OpStoreBatch now es (rl_epoch ld)"] by simp
  moreover have "epoch (fst (storeBatchIfEpoch now es (rl_epoch ld) (w_cache w))) = epoch (w_cache w)"
    by (simp add: storeBatchIfEpoch_def)
  ultimately show ?thesis
    unfolding coherent_def finish(1)
    using coherentD(2,4) [OF assms(2)] store_batch_coherent [OF assms(2,3) finish(2,3)]
    by (auto simp: fresh_load_def)
next
  case (abandon i)
  then show ?thesis using assms(2) by (auto simp: coherent_def fresh_load_def)
next
  case (db_write k v)
  then show ?thesis using assms(2) by (auto simp: coherent_def fresh_load_def)
next
  case (invalidate ks)
  show ?thesis
    unfolding invalidate(1)
    by (rule coherent_invalidated [OF assms(2) invalidate_ok(1) [OF coherentD(1) [OF assms(2)]]])
      (use invalidate(2) in \<open>auto simp: invalidate_epoch invalidate_items restrict_map_def split: if_splits\<close>)
next
  case (invalidate_where iter p)
  show ?thesis
    unfolding invalidate_where(1)
    by (rule coherent_invalidated [OF assms(2) invalidate_ok(2) [OF coherentD(1) [OF assms(2)]]])
      (use invalidate_where(2) in \<open>auto simp: invalidate_epoch invalidate_items restrict_map_def split: if_splits\<close>)
next
  case flush
  show ?thesis
    unfolding flush(1)
    by (rule coherent_invalidated [OF assms(2) Flush_ok [OF coherentD(1) [OF assms(2)]]])
      (simp_all add: Flush_def)
qed

lemma step_generation: "world_step w w' \<Longrightarrow> w_generation w \<le> w_generation w'"
  by (induction rule: world_step.induct) simp_all

interpretation world: invariant_system world_step "\<lambda>w. in_range w \<longrightarrow> coherent w"
proof
  fix w w' :: "('a, 'b) cache_world"
  assume inv: "in_range w \<longrightarrow> coherent w" and st: "world_step w w'"
  have "in_range w' \<Longrightarrow> in_range w" using step_generation [OF st] by (simp add: in_range_def)
  then show "in_range w' \<longrightarrow> coherent w'" using inv step_coherent [OF st] by blast
qed

lemma start_coherent: "cache_ok c \<Longrightarrow> items c = Map.empty \<Longrightarrow> epoch c = 0 \<Longrightarrow> coherent (start_world c d)"
  by (simp add: coherent_def start_world_def)

lemma New_empty: "New cfg = Some c \<Longrightarrow> items c = Map.empty \<and> epoch c = 0 \<and> calls c = []"
  by (auto simp: New_def split: if_splits)

lemma world_coherent:
  assumes "New cfg = Some c" "world_step\<^sup>*\<^sup>* (start_world c d) w" "in_range w"
  shows "coherent w"
  using world.run_inv [OF assms(2)] start_coherent [OF New_ok] New_empty assms(1,3) by blast

section \<open>Properties of the cache\<close>

definition demo_config :: "int cache_config" where
  "demo_config = \<lparr>MaxEntries = 2, MaxWeight = 0, cfg_Weight = None, TTL = 10\<rparr>"

definition demo_cache :: "(int, int) cache" where
  "demo_cache = \<lparr>ll = [], items = Map.empty, cap = 2, maxWeight = 0, weight = 0, ttl = 10, epoch = 0,
     weigh = None, calls = []\<rparr>"

lemma demo_new: "New demo_config = Some demo_cache"
  by (simp add: New_def demo_config_def demo_cache_def)

text \<open>
  C7. A load that spans an invalidation does not bring an old value back. Whatever loads, writes to
  the database, invalidations, flushes and expiries are interleaved, a key that is not between a
  write and its invalidation is answered with the value the database holds; and a load whose value
  the cache accepts returns that value too. (Fewer than 2^64 invalidations.)
\<close>

theorem cache_coherent:
  assumes "New cfg = Some c" "world_step\<^sup>*\<^sup>* (start_world c d) w" "in_range w" "k \<notin> w_dirty w"
  shows "(\<forall>now h ver c' v. lookup now k h ver (w_cache w) = (c', Some v) \<longrightarrow> v = w_db w k)
    \<and> (\<forall>i ld v now h. w_loads w i = Some ld \<and> rl_read ld k = Some v
         \<and> snd (storeIfEpoch now k v h (rl_epoch ld) (w_cache w)) \<longrightarrow> v = w_db w k)"
proof -
  have w: "coherent w" by (rule world_coherent [OF assms(1-3)])
  have "v = w_db w k" if "lookup now k h ver (w_cache w) = (c', Some v)" for now h ver c' v
    using lookup_hit [OF that] coherentD(3) [OF w] assms(4) by blast
  moreover have "v = w_db w k" if "w_loads w i = Some ld" "rl_read ld k = Some v"
    "snd (storeIfEpoch now k v h (rl_epoch ld) (w_cache w))" for i ld v now h
  proof -
    have e: "rl_epoch ld = of_nat (w_generation w)" "rl_epoch ld = of_nat (rl_generation ld)"
      "rl_generation ld \<le> w_generation w"
      using that(3) coherentD(2) [OF w] coherentD(4) [OF w that(1)]
      by (simp_all add: storeIfEpoch_def fresh_load_def split: if_splits)
    then have "rl_generation ld = w_generation w"
      using same_epoch [of "rl_generation ld" "w_generation w"] assms(3) by (simp add: in_range_def)
    then show ?thesis using coherentD(4) [OF w that(1)] that(2) assms(4) by (simp add: fresh_load_def)
  qed
  ultimately show ?thesis by blast
qed

definition demo_world :: "(int, int) cache_world" where
  "demo_world = (start_world demo_cache (\<lambda>k. 10 * k))\<lparr>w_loads := [0 \<mapsto>
     \<lparr>rl_epoch = 0, rl_generation = 0, rl_read = [1 \<mapsto> 10]\<rparr>]\<rparr>"

definition demo_full :: "(int, int) cache_world" where
  "demo_full = demo_world\<lparr>w_cache := fst (storeBatchIfEpoch 3 [(1, 10, 0)] 0 demo_cache), w_loads := Map.empty\<rparr>"

lemma demo_full_reached: "world_step\<^sup>*\<^sup>* (start_world demo_cache (\<lambda>k. 10 * k)) demo_full"
proof -
  let ?w0 = "start_world demo_cache (\<lambda>k. 10 * k)"
  let ?w1 = "?w0\<lparr>w_loads := [0 \<mapsto> \<lparr>rl_epoch = 0, rl_generation = 0, rl_read = Map.empty\<rparr>]\<rparr>"
  have 1: "world_step ?w0 ?w1"
    using world_step.begin_load [of ?w0 0] by (simp add: start_world_def demo_cache_def cacheEpoch_def)
  have 2: "world_step ?w1 demo_world"
    using world_step.read_db [of ?w1 0 _ 1] by (simp add: demo_world_def start_world_def)
  have 3: "world_step demo_world demo_full"
    using world_step.finish [of demo_world 0 _ "[(1, 10, 0)]" 3]
    by (simp add: demo_world_def demo_full_def start_world_def)
  from 1 2 3 show ?thesis by (meson rtranclp.rtrancl_into_rtrancl rtranclp.rtrancl_refl)
qed

theorem cache_coherent_witness:
  "lookup 5 1 0 False (w_cache demo_full) = (moveToFront 1 (w_cache demo_full), Some 10)
   \<and> in_range demo_full \<and> (10 :: int) = w_db demo_full 1"
proof -
  have r: "in_range demo_full" "1 \<notin> w_dirty demo_full"
    by (simp_all add: in_range_def demo_full_def demo_world_def start_world_def)
  have l: "lookup 5 1 0 False (w_cache demo_full) = (moveToFront 1 (w_cache demo_full), Some 10)"
    by (simp add: demo_full_def demo_world_def start_world_def demo_cache_def storeBatchIfEpoch_def
        storeLocked_def valueWeight_def evictOverflow.simps overflowing_def lookup_def expired_def expireAt_def)
  show ?thesis using cache_coherent [OF demo_new demo_full_reached r] l r(1) by blast
qed

text \<open>
  The cache is bounded and its bookkeeping is exact. After any sequence of operations there are
  at most \<open>MaxEntries\<close> entries, their aggregate weight is the sum of the entries' and within
  \<open>MaxWeight\<close> where that is set, the list and the map hold the same keys, and the calls of
  \<open>OnStore\<close> and \<open>OnRemove\<close> describe exactly the entries held.
\<close>

theorem cache_bounded:
  assumes "New cfg = Some c0"
  shows "int (length (ll (fold cache_exec ops c0))) \<le> MaxEntries cfg
    \<and> (MaxWeight cfg > 0 \<longrightarrow> weight (fold cache_exec ops c0) \<le> MaxWeight cfg)
    \<and> weight (fold cache_exec ops c0) = entry_weights (fold cache_exec ops c0)
    \<and> set (ll (fold cache_exec ops c0)) = dom (items (fold cache_exec ops c0))
    \<and> index_of (calls (fold cache_exec ops c0)) = Some (contents (fold cache_exec ops c0))"
proof -
  let ?c = "fold cache_exec ops c0"
  have ok: "cache_ok ?c" and l: "cap ?c = cap c0" "maxWeight ?c = maxWeight c0"
    using cache_run [OF New_ok [OF assms]] by simp_all
  have c0: "cap c0 = MaxEntries cfg" "maxWeight c0 = MaxWeight cfg"
    using assms by (auto simp: New_def split: if_splits)
  have "mirrored c0" using New_empty [OF assms] by (simp add: mirrored_def contents_def index_of_def)
  then have "mirrored ?c" by (rule run_mirrored [OF New_ok [OF assms]])
  then show ?thesis using ok l c0 by (auto simp: cache_ok_def linked_def overflowing_def mirrored_def)
qed

theorem cache_bounded_witness:
  "New demo_config = Some demo_cache \<and>
   int (length (ll (fold cache_exec [OpStore 0 1 5 0, OpStore 0 2 6 0, OpStore 0 3 7 0] demo_cache))) \<le> 2"
  using cache_bounded [OF demo_new, of "[OpStore 0 1 5 0, OpStore 0 2 6 0, OpStore 0 3 7 0]"] demo_new
  by (simp add: demo_config_def)

text \<open>
  Eviction is least recently used. Without a weight bound, storing a key puts it in front and
  keeps the first \<open>MaxEntries\<close> keys of the recency order: nothing is dropped while there is room,
  and when there is none exactly the least recently used entry goes. The entries that stay are
  unchanged.
\<close>

theorem cache_lru:
  assumes "cache_ok c" "maxWeight c \<le> 0"
  shows "ll (storeLocked now k v h c) = take (nat (cap c)) (k # remove1 k (ll c))
    \<and> items (storeLocked now k v h c)
      = ((items c)(k \<mapsto> \<lparr>le_value = v, le_hash = h, le_expireAt = expireAt now c, le_weight = 1\<rparr>))
          |` set (take (nat (cap c)) (k # remove1 k (ll c)))"
proof -
  let ?p = "placed now k v h c" and ?xs = "k # remove1 k (ll c)"
  have l: "linked c" using assms(1) by (simp add: cache_ok_def)
  have p: "ll ?p = ?xs" "cap ?p = cap c" "maxWeight ?p = maxWeight c"
    "items ?p = (items c)(k \<mapsto> \<lparr>le_value = v, le_hash = h, le_expireAt = expireAt now c, le_weight = 1\<rparr>)"
    using assms(2) by (simp_all add: placed_def valueWeight_def)
  obtain n where n: "n \<le> length ?xs" "ll (evictOverflow ?p) = take n ?xs" "fits ?p (take n ?xs)"
    "items (evictOverflow ?p) = items ?p |` set (take n ?xs)"
    "\<And>m. m \<le> length ?xs \<Longrightarrow> fits ?p (take m ?xs) \<Longrightarrow> m \<le> n"
    by (rule evictOverflow_prefix [OF placed_linked [OF l, of now k v h]]) (simp add: p(1))
  have "0 < cap c" using l by (simp add: linked_def)
  let ?m = "min (nat (cap c)) (length ?xs)"
  have "?m \<le> n" by (rule n(5)) (use p(2,3) assms(2) \<open>0 < cap c\<close> in \<open>auto simp: fits_def\<close>)
  moreover have "n \<le> ?m" using n(1,3) p(2) by (auto simp: fits_def)
  ultimately have "take n ?xs = take (nat (cap c)) ?xs"
    by (metis (no_types) min.cobounded2 nle_le take_all_iff min_def take_all)
  then show ?thesis
    using n(2,4) p(4) storeLocked_placed [OF l, of v now k h] assms(2) by simp
qed

theorem cache_lru_witness:
  "ll (storeLocked 0 3 7 0 (fold cache_exec [OpStore 0 1 5 0, OpStore 0 2 6 0] demo_cache)) = [3, 2]"
proof -
  let ?c = "fold cache_exec [OpStore 0 1 5 0, OpStore 0 2 6 0] demo_cache"
  have c: "ll ?c = [2, 1]" "cap ?c = 2" "maxWeight ?c = 0"
    by (simp_all add: demo_cache_def StoreVersioned_def storeLocked_def valueWeight_def evictOverflow.simps
        overflowing_def)
  have "cache_ok ?c" using cache_run [OF New_ok [OF demo_new]] by blast
  then have "ll (storeLocked 0 3 7 0 ?c) = take (nat (cap ?c)) (3 # remove1 3 (ll ?c))"
    using cache_lru [of ?c 0 3 7 0] c(3) by simp
  then show ?thesis unfolding c by (simp add: numeral_2_eq_2)
qed

text \<open>
  C36. Loading through the cache returns. Whatever other goroutines do, \<open>getOrLoad\<close> returns at the
  latest in the first turn in which it runs the loader itself and nothing is invalidated while the
  loader runs.
\<close>

theorem cache_load_returns:
  assumes "undisturbed env m"
  shows "\<exists>c' r. getOrLoad (Suc m) 0 env key h ver c = Some (c', r)"
  using getOrLoad_returns [of env 0 m key h ver c] assms by auto

definition demo_env :: "(int, int, string) load_env" where
  "demo_env = \<lparr>clock = (\<lambda>_ _. 0), meddle = (\<lambda>n p c. if n = 0 then c\<lparr>epoch := epoch c + 1\<rparr> else c),
     loader = (\<lambda>n. Inr (int n)), shared = (\<lambda>_. None), ctx_err = (\<lambda>_. None)\<rparr>"

theorem cache_load_returns_witness:
  "undisturbed demo_env 1 \<and> \<not> undisturbed demo_env 0
   \<and> (\<exists>c' r. getOrLoad 2 0 demo_env 1 0 False demo_cache = Some (c', r))"
proof -
  have u: "undisturbed demo_env 1" "\<not> undisturbed demo_env 0"
    by (simp_all add: undisturbed_def demo_env_def)
  from cache_load_returns [OF u(1), of 1 0 False demo_cache] u show ?thesis by (simp add: numeral_2_eq_2)
qed

text \<open>
  A batch call over a cache that agrees with the loader returns, for exactly the keys asked
  for, the values the loader stands for, whether they were cached or had to be loaded, and leaves
  an intact cache that agrees with it and no open flight.
\<close>

theorem cache_batch_exact:
  assumes "cache_ok c" "agrees g c" "bt_open t = Map.empty" "keys \<noteq> []"
    and "\<And>ks. \<exists>m. load ks = Inr m \<and> (\<forall>k\<in>set ks. m k = Some (g k))"
  shows "\<exists>c' t'. GetOrLoadBatch (Suc fuel) (quiet_env now versionOf load) keys (Some c, t)
      = Some ((Some c', t'), Inr (\<lambda>k. if k \<in> set keys then Some (g k) else None))
    \<and> cache_ok c' \<and> agrees g c' \<and> bt_open t' = Map.empty"
proof -
  obtain c' t' out where
    "batch_loop (Suc fuel) 0 (quiet_env now versionOf load) keys (c, t) = Some ((c', t'), Inr out)"
    "cache_ok c'" "agrees g c'" "bt_open t' = Map.empty"
    "out = (\<lambda>k. if k \<in> set keys then Some (g k) else None)"
    by (rule batch_loop_agrees [OF assms(1-3) assms(5)])
  then show ?thesis using assms(4) by (simp add: GetOrLoadBatch_def del: batch_loop.simps)
qed

theorem cache_batch_exact_witness:
  "\<exists>c' t'. GetOrLoadBatch (Suc 0) (quiet_env 0 (\<lambda>k. (0, True)) (\<lambda>ks. Inr (\<lambda>k. Some (k * k) :: int option))) [2, 3, 2 :: int]
      (Some demo_cache, \<lparr>bt_open = Map.empty, bt_done = Map.empty :: nat \<rightharpoonup> (int, string) batch_flight, bt_next = 0\<rparr>)
    = Some ((Some c', t'), Inr (\<lambda>k. if k \<in> set [2, 3, 2] then Some (k * k) else None))"
proof -
  have "agrees (\<lambda>k. k * k) demo_cache" by (simp add: agrees_def demo_cache_def)
  from cache_batch_exact [OF New_ok [OF demo_new] this, of
      "\<lparr>bt_open = Map.empty, bt_done = Map.empty :: nat \<rightharpoonup> (int, string) batch_flight, bt_next = 0\<rparr>"
      "[2, 3, 2]" "\<lambda>ks. Inr (\<lambda>k. Some (k * k))" 0 0 "\<lambda>k. (0, True)"]
  show ?thesis by auto
qed

end
