(* ===== verification/Contacts.thy ===== *)
theory Contacts
  imports Gram_Prelude
begin

text \<open>
  The in-memory address book (src/internal/store/memory/contacts.go): who has whom as a contact,
  whether the relation is mutual, and who is a close friend. Of the user snapshot inside a contact
  row the model keeps the id and the two flags that the store itself maintains; the remaining
  columns and the list hash are carried for the client only.
\<close>

section \<open>Contacts and their store\<close>

record contact =
  ct_UserID :: int
  ct_UserMutual :: bool
  ct_UserCloseFriend :: bool
  ct_FirstName :: string
  ct_LastName :: string
  ct_Phone :: string
  ct_Note :: string
  ct_Mutual :: bool
  ct_CloseFriend :: bool

record contact_input =
  ci_ContactUserID :: int
  ci_Phone :: string
  ci_FirstName :: string
  ci_LastName :: string
  ci_Note :: string

type_synonym contact_store = "int \<Rightarrow> contact list"

definition NewContactStore :: contact_store where
  "NewContactStore = (\<lambda>_. [])"

definition Contact_Get :: "contact_store \<Rightarrow> int \<Rightarrow> int \<Rightarrow> contact option" where
  "Contact_Get s u cid = find (\<lambda>c. ct_UserID c = cid) (s u)"

text \<open>Later rows of a list overwrite earlier ones in the result map.\<close>

definition GetMany :: "contact_store \<Rightarrow> int \<Rightarrow> int list \<Rightarrow> (int \<rightharpoonup> contact)" where
  "GetMany s u ids =
    (if u = 0 \<or> ids = [] then Map.empty
     else fold (\<lambda>c out. if ct_UserID c \<in> set ids \<and> ct_UserID c \<noteq> 0 then out(ct_UserID c \<mapsto> c) else out)
       (s u) Map.empty)"

definition GetReverseContacts :: "contact_store \<Rightarrow> int \<Rightarrow> int list \<Rightarrow> (int \<rightharpoonup> contact)" where
  "GetReverseContacts s u owners =
    (if u = 0 \<or> owners = [] then Map.empty
     else (\<lambda>ow. if ow \<in> set owners \<and> ow \<noteq> 0 then find (\<lambda>c. ct_UserID c = u) (s ow) else None))"

definition projected :: "contact \<Rightarrow> contact" where
  "projected c = c\<lparr>ct_UserMutual := False, ct_UserCloseFriend := False,
     ct_Mutual := ct_Mutual c \<or> ct_UserMutual c, ct_CloseFriend := ct_CloseFriend c \<or> ct_UserCloseFriend c\<rparr>"

text \<open>The request maps a viewer to the contacts asked for; a missing entry is an empty list.\<close>

definition ContactProjectionForViewerUserIDs ::
  "contact_store \<Rightarrow> (int \<Rightarrow> int list) \<Rightarrow> int \<Rightarrow> (int \<rightharpoonup> contact)" where
  "ContactProjectionForViewerUserIDs s request viewer =
    (if viewer = 0 \<or> request viewer = [] then Map.empty
     else fold (\<lambda>c out. if ct_UserID c \<in> set (request viewer) \<and> ct_UserID c \<noteq> 0
         then out(ct_UserID c \<mapsto> projected c) else out)
       (s viewer) Map.empty)"

section \<open>Writing\<close>

text \<open>The reverse row, if there is one, becomes mutual (the loop stops at the first).\<close>

fun mark_first :: "int \<Rightarrow> contact list \<Rightarrow> bool \<times> contact list" where
  "mark_first u [] = (False, [])"
| "mark_first u (c # cs) =
    (if ct_UserID c = u then (True, c\<lparr>ct_Mutual := True, ct_UserMutual := True\<rparr> # cs)
     else let (found, cs') = mark_first u cs in (found, c # cs'))"

definition input_contact :: "contact_input \<Rightarrow> bool \<Rightarrow> contact" where
  "input_contact i mutual =
    \<lparr>ct_UserID = ci_ContactUserID i, ct_UserMutual = mutual, ct_UserCloseFriend = False,
     ct_FirstName = ci_FirstName i, ct_LastName = ci_LastName i, ct_Phone = ci_Phone i,
     ct_Note = ci_Note i, ct_Mutual = mutual, ct_CloseFriend = False\<rparr>"

definition keep_existing :: "contact \<Rightarrow> contact \<Rightarrow> contact" where
  "keep_existing e c = c\<lparr>ct_CloseFriend := ct_CloseFriend e,
     ct_UserCloseFriend := ct_CloseFriend e \<or> ct_UserCloseFriend e\<rparr>"

fun put_contact :: "contact \<Rightarrow> contact list \<Rightarrow> contact list \<times> contact" where
  "put_contact c [] = ([c], c)"
| "put_contact c (e # es) =
    (if ct_UserID e \<noteq> ct_UserID c then let (es', r) = put_contact c es in (e # es', r)
     else (keep_existing e c # es, keep_existing e c))"

definition Upsert :: "contact_store \<Rightarrow> int \<Rightarrow> contact_input \<Rightarrow> contact_store \<times> contact" where
  "Upsert s u i =
    (let (found, rev) = mark_first u (s (ci_ContactUserID i));
         s1 = (if found then s(ci_ContactUserID i := rev) else s);
         (cs, r) = put_contact (input_contact i found) (s1 u)
     in (s1(u := cs), r))"

fun UpsertMany :: "contact_store \<Rightarrow> int \<Rightarrow> contact_input list \<Rightarrow> contact_store \<times> contact list" where
  "UpsertMany s u [] = (s, [])"
| "UpsertMany s u (i # is) =
    (let (s1, c) = Upsert s u i; (s2, cs) = UpsertMany s1 u is in (s2, c # cs))"

definition set_close_friend :: "int set \<Rightarrow> contact \<Rightarrow> contact" where
  "set_close_friend want c =
    c\<lparr>ct_CloseFriend := ct_UserID c \<in> want, ct_UserCloseFriend := ct_UserID c \<in> want\<rparr>"

definition SetCloseFriends ::
  "contact_store \<Rightarrow> int \<Rightarrow> int list \<Rightarrow> contact_store \<times> int list \<times> int list" where
  "SetCloseFriends s u ids =
    (let want = {i \<in> set ids. i > 0 \<and> i \<noteq> u};
         was = (\<lambda>c. ct_CloseFriend c \<or> ct_UserCloseFriend c)
     in (s(u := map (set_close_friend want) (s u)),
         sort (map ct_UserID (filter (\<lambda>c. \<not> was c \<and> ct_UserID c \<in> want) (s u))),
         sort (map ct_UserID (filter (\<lambda>c. was c \<and> ct_UserID c \<notin> want) (s u)))))"

definition unmark :: "int \<Rightarrow> contact list \<Rightarrow> contact list" where
  "unmark u = map (\<lambda>c. if ct_UserID c = u then c\<lparr>ct_Mutual := False, ct_UserMutual := False\<rparr> else c)"

definition Contact_Delete :: "contact_store \<Rightarrow> int \<Rightarrow> int list \<Rightarrow> contact_store \<times> nat" where
  "Contact_Delete s u ids =
    (let remove = {i \<in> set ids. i \<noteq> 0} in
     if remove = {} then (s, 0)
     else
       let gone = filter (\<lambda>c. ct_UserID c \<in> remove) (s u);
           s1 = fold (\<lambda>c s. s(ct_UserID c := unmark u (s (ct_UserID c)))) gone s
       in (s1(u := filter (\<lambda>c. ct_UserID c \<notin> remove) (s u)), length gone))"

section \<open>The mutual flag is exact\<close>

definition has_contact :: "contact_store \<Rightarrow> int \<Rightarrow> int \<Rightarrow> bool" where
  "has_contact s u cid \<longleftrightarrow> cid \<in> ct_UserID ` set (s u)"

definition row_ok :: "contact_store \<Rightarrow> int \<Rightarrow> contact \<Rightarrow> bool" where
  "row_ok s u c \<longleftrightarrow> ct_UserCloseFriend c = ct_CloseFriend c \<and> ct_UserMutual c = ct_Mutual c
     \<and> (ct_UserID c \<noteq> u \<longrightarrow> ct_Mutual c = has_contact s (ct_UserID c) u)"

definition contacts_ok :: "contact_store \<Rightarrow> bool" where
  "contacts_ok s \<longleftrightarrow> (\<forall>u. distinct (map ct_UserID (s u)) \<and> (\<forall>c\<in>set (s u). row_ok s u c))"

lemma contacts_okD:
  "contacts_ok s \<Longrightarrow> distinct (map ct_UserID (s u))"
  "contacts_ok s \<Longrightarrow> c \<in> set (s u) \<Longrightarrow> row_ok s u c"
  by (simp_all add: contacts_ok_def)

lemma mark_first_spec:
  "distinct (map ct_UserID cs) \<Longrightarrow> mark_first u cs = (u \<in> ct_UserID ` set cs,
     map (\<lambda>c. if ct_UserID c = u then c\<lparr>ct_Mutual := True, ct_UserMutual := True\<rparr> else c) cs)"
proof (induction cs)
  case (Cons c cs)
  have "map (\<lambda>c. if ct_UserID c = u then c\<lparr>ct_Mutual := True, ct_UserMutual := True\<rparr> else c) cs = cs"
    if "ct_UserID c = u" using Cons.prems that by (intro map_idI) (force simp: image_iff)
  then show ?case using Cons by auto
qed simp

lemma put_contact_ids:
  "map ct_UserID (fst (put_contact c cs))
    = (if ct_UserID c \<in> ct_UserID ` set cs then map ct_UserID cs else map ct_UserID cs @ [ct_UserID c])"
  by (induction cs) (auto simp: keep_existing_def split: prod.splits)

lemma put_contact_rows:
  assumes "x \<in> set (fst (put_contact c cs))" "distinct (map ct_UserID cs)"
  shows "x \<in> set cs \<and> ct_UserID x \<noteq> ct_UserID c \<or> x = c \<and> ct_UserID c \<notin> ct_UserID ` set cs
    \<or> (\<exists>e\<in>set cs. x = keep_existing e c)"
  using assms
proof (induction cs)
  case (Cons e es)
  show ?case
  proof (cases "ct_UserID e = ct_UserID c")
    case True
    then have "ct_UserID c \<notin> ct_UserID ` set es" using Cons.prems(2) by simp
    then have "\<forall>y\<in>set es. ct_UserID y \<noteq> ct_UserID c" by (metis imageI)
    then show ?thesis using True Cons.prems by auto
  next
    case False
    then show ?thesis using Cons by (auto split: prod.splits)
  qed
qed simp

text \<open>What one operation does to the relation \<open>has_contact\<close>.\<close>

lemma has_contact_upd: "has_contact (s(a := cs)) u k = (if u = a then k \<in> ct_UserID ` set cs else has_contact s u k)"
  by (simp add: has_contact_def)

definition marked :: "contact_store \<Rightarrow> int \<Rightarrow> int \<Rightarrow> contact_store" where
  "marked s u cid = s(cid := map (\<lambda>c. if ct_UserID c = u then c\<lparr>ct_Mutual := True, ct_UserMutual := True\<rparr> else c) (s cid))"

lemma marked_ids [simp]: "map ct_UserID (marked s u cid w) = map ct_UserID (s w)"
  by (simp add: marked_def cong: if_cong)

lemma marked_has [simp]: "has_contact (marked s u cid) = has_contact s"
  unfolding has_contact_def by (intro ext) (metis marked_ids set_map)

lemma marked_rows:
  assumes "x \<in> set (marked s u cid w)"
  obtains c where "c \<in> set (s w)" "ct_UserID x = ct_UserID c" "ct_CloseFriend x = ct_CloseFriend c"
    "ct_UserCloseFriend x = ct_UserCloseFriend c"
    "w = cid \<and> ct_UserID c = u \<and> ct_Mutual x \<and> ct_UserMutual x
      \<or> \<not> (w = cid \<and> ct_UserID c = u) \<and> x = c"
proof -
  from assms obtain c where "c \<in> set (s w)"
    "x = (if w = cid \<and> ct_UserID c = u then c\<lparr>ct_Mutual := True, ct_UserMutual := True\<rparr> else c)"
    by (auto simp: marked_def split: if_splits)
  then show thesis by (intro that [of c]) (auto split: if_splits)
qed

lemma marked_set: "ct_UserID ` set (marked s u cid w) = ct_UserID ` set (s w)"
  by (metis marked_ids set_map)

lemma put_contact_set:
  "ct_UserID ` set (fst (put_contact c cs)) = insert (ct_UserID c) (ct_UserID ` set cs)"
  using arg_cong [OF put_contact_ids, of set c cs] by (auto split: if_splits)

lemma Upsert_marked:
  assumes "contacts_ok s"
  shows "Upsert s u i = (let s1 = marked s u (ci_ContactUserID i);
    p = put_contact (input_contact i (has_contact s (ci_ContactUserID i) u)) (s1 u) in (s1(u := fst p), snd p))"
proof -
  let ?cid = "ci_ContactUserID i"
  have mf: "mark_first u (s ?cid) = (has_contact s ?cid u, marked s u ?cid ?cid)"
    using mark_first_spec [OF contacts_okD(1) [OF assms], of u ?cid] by (simp add: has_contact_def marked_def)
  have "marked s u ?cid = s" if "\<not> has_contact s ?cid u"
    using that by (auto simp: marked_def has_contact_def intro!: ext map_idI)
  moreover have "s(?cid := marked s u ?cid ?cid) = marked s u ?cid" by (simp add: marked_def)
  ultimately have "(if has_contact s ?cid u then s(?cid := marked s u ?cid ?cid) else s) = marked s u ?cid" by simp
  then show ?thesis unfolding Upsert_def mf by (simp add: Let_def split: prod.splits)
qed

lemma Upsert_has:
  assumes "contacts_ok s"
  shows "has_contact (fst (Upsert s u i)) a k \<longleftrightarrow> has_contact s a k \<or> a = u \<and> k = ci_ContactUserID i"
  unfolding Upsert_marked [OF assms] Let_def fst_conv has_contact_upd put_contact_set marked_set
  by (auto simp: has_contact_def input_contact_def marked_set)

lemma Upsert_ok:
  assumes ok: "contacts_ok s" shows "contacts_ok (fst (Upsert s u i))"
proof -
  let ?cid = "ci_ContactUserID i"
  let ?m = "marked s u ?cid" and ?c = "input_contact i (has_contact s ?cid u)"
  let ?s = "fst (Upsert s u i)"
  have s: "?s = ?m(u := fst (put_contact ?c (?m u)))" by (simp add: Upsert_marked [OF ok] Let_def)
  have d: "distinct (map ct_UserID (?m w))" for w unfolding marked_ids by (rule contacts_okD(1) [OF ok])
  have has: "has_contact ?s a k \<longleftrightarrow> has_contact s a k \<or> a = u \<and> k = ?cid" for a k by (rule Upsert_has [OF ok])
  have "distinct (map ct_UserID (?s w))" for w
    using d [of w] d [of u] by (auto simp: s put_contact_ids marked_set)
  moreover have "row_ok ?s w x" if x: "x \<in> set (?s w)" for w x
  proof -
    have kept: "row_ok ?s w x" if "x \<in> set (?m w)" "w = u \<Longrightarrow> ct_UserID x \<noteq> ?cid"
    proof -
      from that(1) obtain c where c: "c \<in> set (s w)" "ct_UserID x = ct_UserID c" "ct_CloseFriend x = ct_CloseFriend c"
        "ct_UserCloseFriend x = ct_UserCloseFriend c"
        "w = ?cid \<and> ct_UserID c = u \<and> ct_Mutual x \<and> ct_UserMutual x \<or> \<not> (w = ?cid \<and> ct_UserID c = u) \<and> x = c"
        by (rule marked_rows)
      then show ?thesis
        using contacts_okD(2) [OF ok c(1)] that(2) unfolding row_ok_def has by auto
    qed
    show ?thesis
    proof (cases "w = u")
      case False
      then show ?thesis using kept x by (simp add: s)
    next
      case True
      then have "x \<in> set (fst (put_contact ?c (?m u)))" using x by (simp add: s)
      from put_contact_rows [OF this d] show ?thesis
      proof (elim disjE conjE bexE)
        assume "x \<in> set (?m u)" "ct_UserID x \<noteq> ct_UserID ?c"
        then show ?thesis using kept True by (simp add: input_contact_def)
      next
        assume "x = ?c"
        then show ?thesis unfolding row_ok_def has by (auto simp: True input_contact_def)
      next
        fix e assume e: "e \<in> set (?m u)" "x = keep_existing e ?c"
        then obtain c where "c \<in> set (s u)" "ct_CloseFriend e = ct_CloseFriend c"
          "ct_UserCloseFriend e = ct_UserCloseFriend c" using marked_rows by metis
        then have "ct_UserCloseFriend e = ct_CloseFriend e" using contacts_okD(2) [OF ok] by (simp add: row_ok_def)
        then show ?thesis unfolding row_ok_def has by (auto simp: True e(2) keep_existing_def input_contact_def)
      qed
    qed
  qed
  ultimately show ?thesis by (simp add: contacts_ok_def)
qed

lemma UpsertMany_ok: "contacts_ok s \<Longrightarrow> contacts_ok (fst (UpsertMany s u is))"
proof (induction "is" arbitrary: s)
  case (Cons i "is")
  then show ?case using Cons.IH [OF Upsert_ok [OF Cons.prems, of u i]] by (auto simp: Let_def split: prod.splits)
qed simp

lemma SetCloseFriends_ok:
  assumes "contacts_ok s" shows "contacts_ok (fst (SetCloseFriends s u ids))"
proof -
  let ?want = "{i \<in> set ids. i > 0 \<and> i \<noteq> u}"
  let ?s = "s(u := map (set_close_friend ?want) (s u))"
  have has: "has_contact ?s = has_contact s"
    by (intro ext) (auto simp: has_contact_def set_close_friend_def image_iff)
  have ids: "map ct_UserID (?s w) = map ct_UserID (s w)" for w by (simp add: set_close_friend_def)
  have "row_ok ?s w x" if "x \<in> set (?s w)" for w x
    using contacts_okD(2) [OF assms] that unfolding row_ok_def has
    by (auto simp: set_close_friend_def split: if_splits)
  moreover have "distinct (map ct_UserID (?s w))" for w unfolding ids by (rule contacts_okD(1) [OF assms])
  ultimately show ?thesis by (simp add: contacts_ok_def SetCloseFriends_def Let_def)
qed

lemma unmark_idem [simp]: "unmark u (unmark u cs) = unmark u cs"
  by (simp add: unmark_def)

lemma fold_unmark:
  "fold (\<lambda>c s. s(ct_UserID c := unmark u (s (ct_UserID c)))) gone s w
    = (if w \<in> ct_UserID ` set gone then unmark u (s w) else s w)"
  by (induction gone arbitrary: s) auto

lemma unmark_row:
  assumes "x \<in> set (unmark u cs)"
  obtains c where "c \<in> set cs" "x = (if ct_UserID c = u then c\<lparr>ct_Mutual := False, ct_UserMutual := False\<rparr> else c)"
  using assms by (auto simp: unmark_def)

lemma unmark_ids [simp]: "map ct_UserID (unmark u cs) = map ct_UserID cs"
  by (simp add: unmark_def cong: if_cong)

lemma unmark_set [simp]: "ct_UserID ` set (unmark u cs) = ct_UserID ` set cs"
  by (metis set_map unmark_ids)

lemma Delete_ok:
  assumes ok: "contacts_ok s" shows "contacts_ok (fst (Contact_Delete s u ids))"
proof (cases "{i \<in> set ids. i \<noteq> 0} = {}")
  case True
  then show ?thesis using ok by (simp add: Contact_Delete_def)
next
  case False
  let ?rm = "{i \<in> set ids. i \<noteq> 0}"
  let ?gone = "ct_UserID ` set (filter (\<lambda>c. ct_UserID c \<in> ?rm) (s u))"
  define s' where "s' = fst (Contact_Delete s u ids)"
  have s': "s' w = (if w = u then filter (\<lambda>c. ct_UserID c \<notin> ?rm) (s u)
      else if w \<in> ?gone then unmark u (s w) else s w)" for w
    using False by (auto simp: s'_def Contact_Delete_def Let_def fold_unmark)
  have gone: "w \<in> ?gone \<longleftrightarrow> w \<in> ?rm \<and> has_contact s u w" for w by (auto simp: has_contact_def)
  have has: "has_contact s' a k \<longleftrightarrow> has_contact s a k \<and> \<not> (a = u \<and> k \<in> ?rm)" for a k
    by (auto simp: has_contact_def s' simp del: set_filter) (auto simp: image_iff)
  have "row_ok s' w x" if x: "x \<in> set (s' w)" for w x
  proof (cases "w \<noteq> u \<and> w \<in> ?gone")
    case True
    then obtain c where c: "c \<in> set (s w)"
      "x = (if ct_UserID c = u then c\<lparr>ct_Mutual := False, ct_UserMutual := False\<rparr> else c)"
      using x unmark_row [of x u "s w"] by (auto simp: s')
    then show ?thesis
      using contacts_okD(2) [OF ok c(1)] True unfolding row_ok_def has gone by (auto split: if_splits)
  next
    case False
    then have "x \<in> set (s w)" "w = u \<Longrightarrow> ct_UserID x \<notin> ?rm" using x by (auto simp: s' split: if_splits)
    then show ?thesis
      using contacts_okD(2) [OF ok] False unfolding row_ok_def has gone by auto
  qed
  moreover have "distinct (map ct_UserID (s' w))" for w
    using contacts_okD(1) [OF ok] by (simp add: s' distinct_map_filter)
  ultimately show ?thesis by (simp add: contacts_ok_def flip: s'_def)
qed

section \<open>What the reads return\<close>

lemma find_unique:
  assumes "distinct (map f xs)" "x \<in> set xs" shows "find (\<lambda>y. f y = f x) xs = Some x"
  using assms by (induction xs) (auto simp: image_iff)

lemma Contact_Get_has: "Contact_Get s u k \<noteq> None \<longleftrightarrow> has_contact s u k"
  by (auto simp: Contact_Get_def has_contact_def find_None image_iff)

lemma fold_rows:
  assumes "distinct (map ct_UserID cs)"
  shows "fold (\<lambda>c out. if P (ct_UserID c) then out(ct_UserID c \<mapsto> f c) else out) cs m k
    = (case find (\<lambda>c. ct_UserID c = k) cs of
         Some c \<Rightarrow> if P k then Some (f c) else m k
       | None \<Rightarrow> m k)"
  using assms
proof (induction cs arbitrary: m)
  case (Cons c cs)
  have "find (\<lambda>c. ct_UserID c = k) cs = None" if "ct_UserID c = k"
    using Cons.prems that by (auto simp: find_None image_iff)
  then show ?case using Cons by (auto split: option.splits)
qed simp

lemma GetMany_Get:
  assumes "contacts_ok s" "u \<noteq> 0" "k \<noteq> 0" "k \<in> set ids"
  shows "GetMany s u ids k = Contact_Get s u k"
  using fold_rows [OF contacts_okD(1) [OF assms(1)], of "\<lambda>i. i \<in> set ids \<and> i \<noteq> 0" "\<lambda>c. c" u Map.empty k] assms(2-4)
  by (auto simp: GetMany_def Contact_Get_def split: option.splits)

lemma reverse_Get:
  "v \<noteq> 0 \<Longrightarrow> u \<noteq> 0 \<Longrightarrow> u \<in> set owners \<Longrightarrow> GetReverseContacts s v owners u = Contact_Get s u v"
  by (auto simp: GetReverseContacts_def Contact_Get_def)

lemma projected_close: "row_ok s u c \<Longrightarrow> ct_CloseFriend (projected c) = ct_CloseFriend c"
  by (simp add: row_ok_def projected_def)

lemma projection_Get:
  assumes "contacts_ok s" "u \<noteq> 0" "k \<noteq> 0" "k \<in> set (request u)"
  shows "ContactProjectionForViewerUserIDs s request u k = map_option projected (Contact_Get s u k)"
  using fold_rows [OF contacts_okD(1) [OF assms(1)], of "\<lambda>i. i \<in> set (request u) \<and> i \<noteq> 0" projected u Map.empty k] assms(2-4)
  by (auto simp: ContactProjectionForViewerUserIDs_def Contact_Get_def split: option.splits)

section \<open>Sequences of writes\<close>

datatype contact_op =
    OpUpsert int "contact_input list"
  | OpCloseFriends int "int list"
  | OpDelete int "int list"

fun contact_exec :: "contact_op \<Rightarrow> contact_store \<Rightarrow> contact_store" where
  "contact_exec (OpUpsert u is) s = fst (UpsertMany s u is)"
| "contact_exec (OpCloseFriends u ids) s = fst (SetCloseFriends s u ids)"
| "contact_exec (OpDelete u ids) s = fst (Contact_Delete s u ids)"

lemma contact_exec_ok: "contacts_ok s \<Longrightarrow> contacts_ok (contact_exec op s)"
  by (cases op) (simp_all add: UpsertMany_ok SetCloseFriends_ok Delete_ok)

lemma contact_run_ok: "contacts_ok s \<Longrightarrow> contacts_ok (fold contact_exec ops s)"
  by (induction ops arbitrary: s) (simp_all add: contact_exec_ok)

lemma new_contacts_ok: "contacts_ok NewContactStore"
  by (simp add: contacts_ok_def NewContactStore_def)

text \<open>
  C35. The mutual flag of a contact tells the truth. After any sequence of imports, deletions and
  close-friend edits, a contact row of another user is flagged mutual exactly when that user has a
  row for the owner, no user has two rows for the same contact, and the close-friend flag of the
  row and of its user snapshot agree.
\<close>

theorem contacts_mutual_exact:
  assumes "Contact_Get (fold contact_exec ops NewContactStore) u k = Some c" "k \<noteq> u"
  shows "(ct_Mutual c \<longleftrightarrow> Contact_Get (fold contact_exec ops NewContactStore) k u \<noteq> None)
    \<and> ct_UserMutual c = ct_Mutual c \<and> ct_UserCloseFriend c = ct_CloseFriend c
    \<and> distinct (map ct_UserID (fold contact_exec ops NewContactStore u))"
proof -
  let ?s = "fold contact_exec ops NewContactStore"
  have ok: "contacts_ok ?s" by (rule contact_run_ok [OF new_contacts_ok])
  have c: "c \<in> set (?s u)" "ct_UserID c = k"
    using find_SomeD [OF assms(1) [unfolded Contact_Get_def]] by simp_all
  then show ?thesis
    using contacts_okD(1) [OF ok, of u] contacts_okD(2) [OF ok c(1)] assms(2)
    unfolding Contact_Get_has by (simp add: row_ok_def)
qed

definition demo_input :: "int \<Rightarrow> contact_input" where
  "demo_input k = \<lparr>ci_ContactUserID = k, ci_Phone = ''1'', ci_FirstName = ''a'', ci_LastName = ''b'', ci_Note = ''n''\<rparr>"

theorem contacts_mutual_exact_witness:
  "\<exists>c. Contact_Get (fold contact_exec [OpUpsert 1 [demo_input 2], OpUpsert 2 [demo_input 1]] NewContactStore) 1 2 = Some c
     \<and> ct_Mutual c"
proof -
  let ?s = "fold contact_exec [OpUpsert 1 [demo_input 2], OpUpsert 2 [demo_input 1]] NewContactStore"
  obtain c where c: "Contact_Get ?s 1 2 = Some c"
    by (simp add: Contact_Get_def NewContactStore_def Upsert_def input_contact_def demo_input_def)
  have "Contact_Get ?s 2 1 \<noteq> None"
    by (simp add: Contact_Get_def NewContactStore_def Upsert_def input_contact_def demo_input_def)
  then show ?thesis using contacts_mutual_exact [OF c] c by auto
qed

end
