(* ===== verification/Privacy.thy ===== *)
theory Privacy
  imports Read_Model_Cache Contacts
begin

text \<open>
  Account privacy: the rules of an owner for each kind of information (src/internal/domain/privacy.go,
  privacy_evaluate.go), their store (src/internal/store/memory/privacy.go) and the service that
  answers whether a viewer may see something (src/internal/app/privacy). The service answers single
  questions (\<open>CanSee\<close>) and whole matrices of them (\<open>CanSeeBatch\<close>, \<open>CanSeeMatrix\<close>,
  \<open>CanSeeForViewerUserIDs\<close>), which share loads; the theorems say that they agree.

  The users and channels services behind the facts about a viewer are interfaces of the program
  and arguments here: \<open>ps_baseUsers\<close> and \<open>ps_memberships\<close>. \<open>now\<close> is the Unix time of a call.
\<close>

section \<open>Rules and their evaluation\<close>

datatype privacy_key =
    PrivacyKeyStatusTimestamp | PrivacyKeyChatInvite | PrivacyKeyPhoneCall | PrivacyKeyPhoneP2P
  | PrivacyKeyForwards | PrivacyKeyProfilePhoto | PrivacyKeyPhoneNumber | PrivacyKeyAddedByPhone
  | PrivacyKeyVoiceMessages | PrivacyKeyAbout | PrivacyKeyBirthday | PrivacyKeyStarGiftsAutoSave
  | PrivacyKeyNoPaidMessages | PrivacyKeySavedMusic | OtherPrivacyKey string

datatype privacy_rule_kind =
    PrivacyRuleAllowContacts | PrivacyRuleAllowAll | PrivacyRuleAllowUsers
  | PrivacyRuleDisallowContacts | PrivacyRuleDisallowAll | PrivacyRuleDisallowUsers
  | PrivacyRuleAllowChatParticipants | PrivacyRuleDisallowChatParticipants
  | PrivacyRuleAllowCloseFriends | PrivacyRuleAllowPremium | PrivacyRuleAllowBots
  | PrivacyRuleDisallowBots | OtherRuleKind string

record privacy_rule =
  Kind :: privacy_rule_kind
  UserIDs :: "int list"
  ChatIDs :: "int list"

record privacy_rules =
  pr_OwnerUserID :: int
  pr_Key :: privacy_key
  pr_Rules :: "privacy_rule list"

record privacy_context =
  pc_OwnerUserID :: int
  pc_ViewerUserID :: int
  ViewerIsContact :: bool
  ViewerIsBot :: bool
  ViewerIsPremium :: bool
  ViewerCloseFriend :: bool
  SharedChatIDs :: "int list"

datatype privacy_error =
    ErrPrivacyKeyInvalid
  | ErrPrivacyRuleInvalid
  | ErrActiveChannelMemberPairsLimit
  | ErrSparseUnsupported
  | ProviderError string

definition simple_rule :: "privacy_rule_kind \<Rightarrow> privacy_rule" where
  "simple_rule k = \<lparr>Kind = k, UserIDs = [], ChatIDs = []\<rparr>"

fun DefaultPrivacyRules :: "privacy_key \<Rightarrow> privacy_rule list" where
  "DefaultPrivacyRules PrivacyKeyPhoneNumber = [simple_rule PrivacyRuleDisallowAll]"
| "DefaultPrivacyRules PrivacyKeyNoPaidMessages = [simple_rule PrivacyRuleDisallowAll]"
| "DefaultPrivacyRules PrivacyKeyBirthday = [simple_rule PrivacyRuleAllowContacts]"
| "DefaultPrivacyRules PrivacyKeyChatInvite = [simple_rule PrivacyRuleAllowContacts]"
| "DefaultPrivacyRules PrivacyKeyPhoneP2P = [simple_rule PrivacyRuleAllowContacts]"
| "DefaultPrivacyRules _ = [simple_rule PrivacyRuleAllowAll]"

definition intersects :: "int list \<Rightarrow> int list \<Rightarrow> bool" where
  "intersects a b = (if a = [] \<or> b = [] then False else list_ex (\<lambda>i. i \<in> set a) b)"

definition explicitDisallowMatches :: "privacy_rule \<Rightarrow> privacy_context \<Rightarrow> bool" where
  "explicitDisallowMatches rule ctx =
    (case Kind rule of
       PrivacyRuleDisallowUsers \<Rightarrow> pc_ViewerUserID ctx \<in> set (UserIDs rule)
     | PrivacyRuleDisallowChatParticipants \<Rightarrow> intersects (ChatIDs rule) (SharedChatIDs ctx)
     | PrivacyRuleDisallowBots \<Rightarrow> ViewerIsBot ctx
     | _ \<Rightarrow> False)"

definition explicitAllowMatches :: "privacy_rule \<Rightarrow> privacy_context \<Rightarrow> bool" where
  "explicitAllowMatches rule ctx =
    (case Kind rule of
       PrivacyRuleAllowUsers \<Rightarrow> pc_ViewerUserID ctx \<in> set (UserIDs rule)
     | PrivacyRuleAllowChatParticipants \<Rightarrow> intersects (ChatIDs rule) (SharedChatIDs ctx)
     | PrivacyRuleAllowCloseFriends \<Rightarrow> ViewerCloseFriend ctx
     | PrivacyRuleAllowPremium \<Rightarrow> ViewerIsPremium ctx
     | PrivacyRuleAllowBots \<Rightarrow> ViewerIsBot ctx
     | _ \<Rightarrow> False)"

text \<open>The third and the fourth loop of \<open>EvaluatePrivacy\<close>; \<open>None\<close> if the loop runs to its end.\<close>

fun contact_verdict :: "privacy_context \<Rightarrow> privacy_rule list \<Rightarrow> bool option" where
  "contact_verdict ctx [] = None"
| "contact_verdict ctx (r # rs) =
    (case Kind r of
       PrivacyRuleDisallowContacts \<Rightarrow> if ViewerIsContact ctx then Some False else contact_verdict ctx rs
     | PrivacyRuleAllowContacts \<Rightarrow> if ViewerIsContact ctx then Some True else contact_verdict ctx rs
     | _ \<Rightarrow> contact_verdict ctx rs)"

fun base_verdict :: "privacy_rule list \<Rightarrow> bool option" where
  "base_verdict [] = None"
| "base_verdict (r # rs) =
    (case Kind r of
       PrivacyRuleDisallowAll \<Rightarrow> Some False
     | PrivacyRuleAllowAll \<Rightarrow> Some True
     | _ \<Rightarrow> base_verdict rs)"

definition EvaluatePrivacy :: "privacy_rules \<Rightarrow> privacy_context \<Rightarrow> bool" where
  "EvaluatePrivacy rules ctx =
    (if pc_OwnerUserID ctx \<noteq> 0 \<and> pc_OwnerUserID ctx = pc_ViewerUserID ctx then True
     else
       let rs = (if pr_Rules rules = [] then DefaultPrivacyRules (pr_Key rules) else pr_Rules rules) in
       if list_ex (\<lambda>r. explicitDisallowMatches r ctx) rs then False
       else if list_ex (\<lambda>r. explicitAllowMatches r ctx) rs then True
       else case contact_verdict ctx rs of
         Some b \<Rightarrow> b
       | None \<Rightarrow> (case base_verdict rs of Some b \<Rightarrow> b | None \<Rightarrow> False))"

section \<open>The rule store\<close>

text \<open>The order of the association list is the order in which a loop over the map meets the rows.\<close>

type_synonym privacy_store = "((int \<times> privacy_key) \<times> privacy_rules) list"

definition NewPrivacyStore :: privacy_store where
  "NewPrivacyStore = []"

definition GetPrivacyRules :: "privacy_store \<Rightarrow> int \<Rightarrow> privacy_key \<Rightarrow> privacy_rules option" where
  "GetPrivacyRules s owner key = map_of s (owner, key)"

definition SetPrivacyRules :: "privacy_store \<Rightarrow> privacy_rules \<Rightarrow> privacy_store" where
  "SetPrivacyRules s rules = AList.update (pr_OwnerUserID rules, pr_Key rules) rules s"

definition ListPrivacyRules :: "privacy_store \<Rightarrow> int list \<Rightarrow> privacy_key list \<Rightarrow> privacy_rules list" where
  "ListPrivacyRules s owners keys =
    (if owners = [] \<or> keys = [] then []
     else map snd (filter (\<lambda>((ow, k), r). ow \<in> set owners \<and> k \<in> set keys) s))"

section \<open>The service\<close>

definition maxPrivacyRules :: nat where "maxPrivacyRules = 100"
definition maxPrivacyRuleIDs :: nat where "maxPrivacyRuleIDs = 5000"
definition MaxActiveChannelMemberPairs :: nat where "MaxActiveChannelMemberPairs = 65536"

record base_user =
  bu_ID :: int
  bu_Bot :: bool
  bu_PremiumUntil :: int

record viewer_facts =
  vf_Found :: bool
  vf_Bot :: bool
  vf_PremiumUntil :: int

type_synonym membership_key = "int \<times> int"

record privacy_service =
  ps_rules :: "privacy_store option"
  ps_contacts :: "contact_store option"
  ps_sparse :: bool
  ps_baseUsers :: "(int list \<Rightarrow> string + base_user list) option"
  ps_memberships :: "((int \<times> int list) list \<Rightarrow> string + (int \<times> int list) list) option"

definition ValidKey :: "privacy_key \<Rightarrow> bool" where
  "ValidKey key = (case key of OtherPrivacyKey _ \<Rightarrow> False | _ \<Rightarrow> True)"

definition defaultRules :: "int \<Rightarrow> privacy_key \<Rightarrow> privacy_rules" where
  "defaultRules owner key = \<lparr>pr_OwnerUserID = owner, pr_Key = key, pr_Rules = DefaultPrivacyRules key\<rparr>"

definition valid_kind :: "privacy_rule_kind \<Rightarrow> bool" where
  "valid_kind k = (case k of OtherRuleKind _ \<Rightarrow> False | _ \<Rightarrow> True)"

text \<open>The loop of \<open>validateRules\<close> with its running total.\<close>

fun validate_loop :: "nat \<Rightarrow> privacy_rule list \<Rightarrow> privacy_error option" where
  "validate_loop totalIDs [] = None"
| "validate_loop totalIDs (r # rs) =
    (if \<not> valid_kind (Kind r) then Some ErrPrivacyRuleInvalid
     else
       let totalIDs = totalIDs + length (UserIDs r) + length (ChatIDs r) in
       if totalIDs > maxPrivacyRuleIDs then Some ErrPrivacyRuleInvalid
       else if list_ex (\<lambda>i. i \<le> 0) (UserIDs r) then Some ErrPrivacyRuleInvalid
       else if list_ex (\<lambda>i. i \<le> 0) (ChatIDs r) then Some ErrPrivacyRuleInvalid
       else validate_loop totalIDs rs)"

definition validateRules :: "privacy_rule list \<Rightarrow> privacy_error option" where
  "validateRules rs =
    (if length rs > maxPrivacyRules then Some ErrPrivacyRuleInvalid else validate_loop 0 rs)"

definition GetRules :: "privacy_service \<Rightarrow> int \<Rightarrow> privacy_key \<Rightarrow> privacy_error + privacy_rules" where
  "GetRules svc owner key =
    (if \<not> ValidKey key then Inl ErrPrivacyKeyInvalid
     else case ps_rules svc of
       None \<Rightarrow> Inr (defaultRules owner key)
     | Some s \<Rightarrow>
         (case GetPrivacyRules s owner key of
            None \<Rightarrow> Inr (defaultRules owner key)
          | Some rules \<Rightarrow> Inr \<lparr>pr_OwnerUserID = owner, pr_Key = key,
              pr_Rules = (if pr_Rules rules = [] then DefaultPrivacyRules key else pr_Rules rules)\<rparr>))"

definition normalizedRules ::
  "int \<Rightarrow> privacy_key \<Rightarrow> privacy_rule list \<Rightarrow> privacy_error + privacy_rules" where
  "normalizedRules owner key rules =
    (if \<not> ValidKey key then Inl ErrPrivacyKeyInvalid
     else
       let rules = (if rules = [] then DefaultPrivacyRules key else rules) in
       case validateRules rules of
         Some err \<Rightarrow> Inl err
       | None \<Rightarrow> Inr \<lparr>pr_OwnerUserID = owner, pr_Key = key, pr_Rules = rules\<rparr>)"

definition SetRules ::
  "privacy_service \<Rightarrow> int \<Rightarrow> privacy_key \<Rightarrow> privacy_rule list
    \<Rightarrow> privacy_service \<times> (privacy_error + privacy_rules)" where
  "SetRules svc owner key rules =
    (case normalizedRules owner key rules of
       Inl err \<Rightarrow> (svc, Inl err)
     | Inr out \<Rightarrow>
         (case ps_rules svc of
            None \<Rightarrow> (svc, Inr out)
          | Some s \<Rightarrow> (svc\<lparr>ps_rules := Some (SetPrivacyRules s out)\<rparr>, Inr out)))"

text \<open>The loop of \<open>AddAllowUser\<close>: the first allow-users rule decides. \<open>Inl\<close> means it has the user already.\<close>

fun add_allow_user :: "int \<Rightarrow> privacy_rule list \<Rightarrow> (unit + privacy_rule list) option" where
  "add_allow_user u [] = None"
| "add_allow_user u (r # rs) =
    (if Kind r \<noteq> PrivacyRuleAllowUsers
     then (case add_allow_user u rs of
             None \<Rightarrow> None
           | Some (Inl _) \<Rightarrow> Some (Inl ())
           | Some (Inr rs') \<Rightarrow> Some (Inr (r # rs')))
     else if u \<in> set (UserIDs r) then Some (Inl ())
     else Some (Inr (r\<lparr>UserIDs := UserIDs r @ [u]\<rparr> # rs)))"

definition AddAllowUser ::
  "privacy_service \<Rightarrow> int \<Rightarrow> privacy_key \<Rightarrow> int
    \<Rightarrow> privacy_service \<times> (privacy_error + privacy_rules \<times> bool)" where
  "AddAllowUser svc owner key target =
    (if target = 0 then (svc, Inl ErrPrivacyRuleInvalid)
     else case GetRules svc owner key of
       Inl err \<Rightarrow> (svc, Inl err)
     | Inr rules \<Rightarrow>
         (case add_allow_user target (pr_Rules rules) of
            Some (Inl _) \<Rightarrow> (svc, Inr (rules, False))
          | Some (Inr rs) \<Rightarrow>
              (case SetRules svc owner key rs of
                 (svc', Inl err) \<Rightarrow> (svc', Inl err)
               | (svc', Inr r) \<Rightarrow> (svc', Inr (r, True)))
          | None \<Rightarrow>
              (case SetRules svc owner key
                  (\<lparr>Kind = PrivacyRuleAllowUsers, UserIDs = [target], ChatIDs = []\<rparr> # pr_Rules rules) of
                 (svc', Inl err) \<Rightarrow> (svc', Inl err)
               | (svc', Inr r) \<Rightarrow> (svc', Inr (r, True)))))"

section \<open>The facts about a viewer\<close>

record evaluation_needs =
  viewerBase :: bool
  chatIDs :: "int list"

definition no_needs :: evaluation_needs where
  "no_needs = \<lparr>viewerBase = False, chatIDs = []\<rparr>"

definition add_unseen :: "int list \<Rightarrow> int list \<Rightarrow> int list" where
  "add_unseen ids out = foldl (\<lambda>out i. if i \<in> set out then out else out @ [i]) out ids"

definition dedupNonZero :: "int list \<Rightarrow> int list" where
  "dedupNonZero ids = add_unseen (filter (\<lambda>i. i \<noteq> 0) ids) []"

definition rule_needs :: "privacy_rule \<Rightarrow> evaluation_needs \<Rightarrow> evaluation_needs" where
  "rule_needs r needs =
    (case Kind r of
       PrivacyRuleAllowPremium \<Rightarrow> needs\<lparr>viewerBase := True\<rparr>
     | PrivacyRuleAllowBots \<Rightarrow> needs\<lparr>viewerBase := True\<rparr>
     | PrivacyRuleDisallowBots \<Rightarrow> needs\<lparr>viewerBase := True\<rparr>
     | PrivacyRuleAllowChatParticipants \<Rightarrow>
         needs\<lparr>chatIDs := add_unseen (filter (\<lambda>i. i > 0) (ChatIDs r)) (chatIDs needs)\<rparr>
     | PrivacyRuleDisallowChatParticipants \<Rightarrow>
         needs\<lparr>chatIDs := add_unseen (filter (\<lambda>i. i > 0) (ChatIDs r)) (chatIDs needs)\<rparr>
     | _ \<Rightarrow> needs)"

definition needsForRules :: "privacy_rules \<Rightarrow> evaluation_needs" where
  "needsForRules rules = fold rule_needs (pr_Rules rules) no_needs"

definition mergeNeeds :: "evaluation_needs \<Rightarrow> evaluation_needs \<Rightarrow> evaluation_needs" where
  "mergeNeeds dst src = \<lparr>viewerBase = viewerBase dst \<or> viewerBase src,
     chatIDs = add_unseen (chatIDs src) (chatIDs dst)\<rparr>"

definition zero_facts :: viewer_facts where
  "zero_facts = \<lparr>vf_Found = False, vf_Bot = False, vf_PremiumUntil = 0\<rparr>"

text \<open>The closure \<open>loadMissing\<close> of \<open>loadViewerFacts\<close>.\<close>

definition viewer_loader :: "privacy_service \<Rightarrow> int list \<Rightarrow> privacy_error + (int \<rightharpoonup> viewer_facts)" where
  "viewer_loader svc missing =
    (let out = (\<lambda>i. if i \<in> set missing then Some zero_facts else None) in
     case ps_baseUsers svc of
       None \<Rightarrow> Inr out
     | Some users \<Rightarrow>
         (case users missing of
            Inl err \<Rightarrow> Inl (ProviderError err)
          | Inr us \<Rightarrow> Inr (fold (\<lambda>u out. if bu_ID u = 0 then out
              else out(bu_ID u \<mapsto> \<lparr>vf_Found = True, vf_Bot = bu_Bot u, vf_PremiumUntil = bu_PremiumUntil u\<rparr>))
              us out)))"

text \<open>
  \<open>loadViewerFacts\<close> on its branch without a cache, and through the read-model cache in a call that
  nobody disturbs.
\<close>

definition loadViewerFacts :: "privacy_service \<Rightarrow> int list \<Rightarrow> privacy_error + (int \<rightharpoonup> viewer_facts)" where
  "loadViewerFacts svc viewers =
    (let ids = dedupNonZero viewers in if ids = [] then Inr Map.empty else viewer_loader svc ids)"

definition loadViewerFactsCached where
  "loadViewerFactsCached now svc ct viewers =
    (let ids = dedupNonZero viewers in
     if ids = [] then Some (ct, Inr Map.empty)
     else GetOrLoadBatch 1 (quiet_env now (\<lambda>_. (0, True)) (viewer_loader svc)) ids ct)"

definition group_by_chat :: "membership_key list \<Rightarrow> (int \<times> int list) list" where
  "group_by_chat keys = map (\<lambda>c. (c, map snd (filter (\<lambda>k. fst k = c) keys))) (remdups (map fst keys))"

text \<open>The closure \<open>loadMissing\<close> of \<open>loadMembershipFactsForKeys\<close>.\<close>

definition membership_loader ::
  "privacy_service \<Rightarrow> membership_key list \<Rightarrow> privacy_error + (membership_key \<rightharpoonup> bool)" where
  "membership_loader svc missing =
    (case ps_memberships svc of
       None \<Rightarrow> Inr (\<lambda>k. if k \<in> set missing then Some False else None)
     | Some members \<Rightarrow>
         (case members (group_by_chat missing) of
            Inl err \<Rightarrow> Inl (ProviderError err)
          | Inr active \<Rightarrow> Inr (\<lambda>k. if k \<in> set missing
              then Some (list_ex (\<lambda>(c, us). c = fst k \<and> snd k \<in> set us) active) else None)))"

definition dedup_membership :: "membership_key list \<Rightarrow> membership_key list" where
  "dedup_membership keys = foldl (\<lambda>out k. if fst k = 0 \<or> snd k = 0 \<or> k \<in> set out then out else out @ [k]) [] keys"

definition loadMembershipFactsForKeys ::
  "privacy_service \<Rightarrow> membership_key list \<Rightarrow> privacy_error + (membership_key \<rightharpoonup> bool)" where
  "loadMembershipFactsForKeys svc input =
    (let keys = dedup_membership input in
     if length keys > MaxActiveChannelMemberPairs then Inl ErrActiveChannelMemberPairsLimit
     else if keys = [] then Inr Map.empty
     else membership_loader svc keys)"

definition activeChannelMembershipPairsAllowed :: "nat \<Rightarrow> nat \<Rightarrow> nat \<Rightarrow> bool" where
  "activeChannelMembershipPairsAllowed current channelCount userCount =
    (if current > MaxActiveChannelMemberPairs then False
     else if channelCount = 0 \<or> userCount = 0 then True
     else channelCount \<le> (MaxActiveChannelMemberPairs - current) div userCount)"

definition loadMembershipFacts ::
  "privacy_service \<Rightarrow> int list \<Rightarrow> int list \<Rightarrow> privacy_error + (membership_key \<rightharpoonup> bool)" where
  "loadMembershipFacts svc chats viewers =
    (let chats = dedupNonZero chats; viewers = dedupNonZero viewers in
     if chats = [] \<or> viewers = [] then Inr Map.empty
     else if \<not> activeChannelMembershipPairsAllowed 0 (length chats) (length viewers)
       then Inl ErrActiveChannelMemberPairsLimit
     else loadMembershipFactsForKeys svc (List.product chats viewers))"

definition applyViewerFacts :: "viewer_facts \<Rightarrow> int \<Rightarrow> privacy_context \<Rightarrow> privacy_context" where
  "applyViewerFacts facts now ctx =
    (if \<not> vf_Found facts then ctx
     else ctx\<lparr>ViewerIsBot := vf_Bot facts, ViewerIsPremium := \<not> vf_Bot facts \<and> vf_PremiumUntil facts > now\<rparr>)"

definition applyMembershipFacts ::
  "int list \<Rightarrow> (membership_key \<rightharpoonup> bool) \<Rightarrow> privacy_context \<Rightarrow> privacy_context" where
  "applyMembershipFacts chats facts ctx =
    ctx\<lparr>SharedChatIDs := SharedChatIDs ctx
      @ filter (\<lambda>c. facts (c, pc_ViewerUserID ctx) = Some True) chats\<rparr>"

text \<open>A missing map entry reads as the zero value.\<close>

definition facts_of :: "(int \<rightharpoonup> viewer_facts) \<Rightarrow> int \<Rightarrow> viewer_facts" where
  "facts_of m i = (case m i of None \<Rightarrow> zero_facts | Some f \<Rightarrow> f)"

section \<open>Single questions\<close>

text \<open>The context of a question before the facts are applied; \<open>c\<close> is the owner's row for the viewer.\<close>

definition pair_context :: "int \<Rightarrow> int \<Rightarrow> contact option \<Rightarrow> privacy_context" where
  "pair_context owner viewer c =
    \<lparr>pc_OwnerUserID = owner, pc_ViewerUserID = viewer, ViewerIsContact = (c \<noteq> None), ViewerIsBot = False,
     ViewerIsPremium = False,
     ViewerCloseFriend = (case c of None \<Rightarrow> False | Some c \<Rightarrow> ct_CloseFriend c), SharedChatIDs = []\<rparr>"

definition contact_row :: "privacy_service \<Rightarrow> int \<Rightarrow> int \<Rightarrow> contact option" where
  "contact_row svc owner viewer =
    (case ps_contacts svc of None \<Rightarrow> None | Some s \<Rightarrow> Contact_Get s owner viewer)"

definition CanSee :: "int \<Rightarrow> privacy_service \<Rightarrow> int \<Rightarrow> int \<Rightarrow> privacy_key \<Rightarrow> privacy_error + bool" where
  "CanSee now svc owner viewer key =
    (if owner = 0 \<or> viewer = 0 then Inr False
     else if owner = viewer then Inr True
     else case GetRules svc owner key of
       Inl err \<Rightarrow> Inl err
     | Inr rules \<Rightarrow>
         let needs = needsForRules rules; ctx = pair_context owner viewer (contact_row svc owner viewer) in
         case (if viewerBase needs then loadViewerFacts svc [viewer] else Inr Map.empty) of
           Inl err \<Rightarrow> Inl err
         | Inr base \<Rightarrow>
             let ctx = (if viewerBase needs then applyViewerFacts (facts_of base viewer) now ctx else ctx) in
             (case (if chatIDs needs \<noteq> [] then loadMembershipFacts svc (chatIDs needs) [viewer]
                    else Inr Map.empty) of
                Inl err \<Rightarrow> Inl err
              | Inr members \<Rightarrow> Inr (EvaluatePrivacy rules (applyMembershipFacts (chatIDs needs) members ctx))))"

definition reciprocalContact :: "contact_store \<Rightarrow> int \<Rightarrow> int \<Rightarrow> bool" where
  "reciprocalContact s u cid = (Contact_Get s u cid \<noteq> None)"

definition P2PAllowedBetween :: "int \<Rightarrow> privacy_service \<Rightarrow> int \<Rightarrow> int \<Rightarrow> privacy_error + bool" where
  "P2PAllowedBetween now svc caller callee =
    (if caller = 0 \<or> callee = 0 \<or> caller = callee then Inr False
     else case ps_contacts svc of
       None \<Rightarrow> Inr False
     | Some s \<Rightarrow>
         if \<not> reciprocalContact s caller callee then Inr False
         else if \<not> reciprocalContact s callee caller then Inr False
         else case CanSee now svc callee caller PrivacyKeyPhoneP2P of
           Inl err \<Rightarrow> Inl err
         | Inr calleeAllows \<Rightarrow>
             (case CanSee now svc caller callee PrivacyKeyPhoneP2P of
                Inl err \<Rightarrow> Inl err
              | Inr callerAllows \<Rightarrow> Inr (calleeAllows \<and> callerAllows)))"

definition CanSeeAnonymous :: "privacy_service \<Rightarrow> int \<Rightarrow> privacy_key \<Rightarrow> privacy_error + bool" where
  "CanSeeAnonymous svc owner key =
    (if owner = 0 then Inr False
     else case GetRules svc owner key of
       Inl err \<Rightarrow> Inl err
     | Inr rules \<Rightarrow> Inr (EvaluatePrivacy rules (pair_context owner 0 None)))"

definition Service_ViewerIsPremium :: "int \<Rightarrow> privacy_service \<Rightarrow> int \<Rightarrow> privacy_error + bool" where
  "Service_ViewerIsPremium now svc viewer =
    (if viewer = 0 then Inr False
     else case loadViewerFacts svc [viewer] of
       Inl err \<Rightarrow> Inl err
     | Inr facts \<Rightarrow>
         let fact = facts_of facts viewer in
         Inr (vf_Found fact \<and> \<not> vf_Bot fact \<and> vf_PremiumUntil fact > now))"

section \<open>Batches of questions\<close>

text \<open>
  A result \<open>out\<close> is the nested map of the code read as one function: \<open>out owner viewer key\<close>
  is \<open>None\<close> where the code's map has no entry.
\<close>

type_synonym rule_table = "int \<times> privacy_key \<rightharpoonup> privacy_rules"
type_synonym visibility = "int \<Rightarrow> int \<Rightarrow> privacy_key \<Rightarrow> bool option"

definition rules_by_owner :: "privacy_service \<Rightarrow> int list \<Rightarrow> privacy_key list \<Rightarrow> rule_table" where
  "rules_by_owner svc owners keys =
    (case ps_rules svc of
       None \<Rightarrow> Map.empty
     | Some s \<Rightarrow> fold (\<lambda>r out. if \<not> ValidKey (pr_Key r) then out
         else out((pr_OwnerUserID r, pr_Key r) \<mapsto>
           r\<lparr>pr_Rules := (if pr_Rules r = [] then DefaultPrivacyRules (pr_Key r) else pr_Rules r)\<rparr>))
         (ListPrivacyRules s owners keys) Map.empty)"

definition rule_for :: "rule_table \<Rightarrow> int \<Rightarrow> privacy_key \<Rightarrow> privacy_rules" where
  "rule_for table owner key = (case table (owner, key) of None \<Rightarrow> defaultRules owner key | Some r \<Rightarrow> r)"

definition batch_needs :: "rule_table \<Rightarrow> int list \<Rightarrow> privacy_key list \<Rightarrow> evaluation_needs" where
  "batch_needs table owners keys =
    foldl (\<lambda>n (owner, key). mergeNeeds n (needsForRules (rule_for table owner key))) no_needs
      (List.product owners keys)"

definition evaluate_cell ::
  "int \<Rightarrow> rule_table \<Rightarrow> int list \<Rightarrow> (int \<rightharpoonup> viewer_facts) \<Rightarrow> (membership_key \<rightharpoonup> bool)
    \<Rightarrow> contact option \<Rightarrow> int \<Rightarrow> int \<Rightarrow> privacy_key \<Rightarrow> bool" where
  "evaluate_cell now table chats base members c owner viewer key =
    EvaluatePrivacy (rule_for table owner key)
      (applyMembershipFacts chats members
        (applyViewerFacts (facts_of base viewer) now (pair_context owner viewer c)))"

definition CanSeeBatch ::
  "int \<Rightarrow> privacy_service \<Rightarrow> int list \<Rightarrow> int \<Rightarrow> privacy_key list
    \<Rightarrow> privacy_error + (int \<Rightarrow> privacy_key \<Rightarrow> bool option)" where
  "CanSeeBatch now svc ownerUserIDs viewer keys =
    (if viewer = 0 \<or> ownerUserIDs = [] \<or> keys = [] then Inr (\<lambda>_ _. None)
     else if list_ex (\<lambda>k. \<not> ValidKey k) keys then Inl ErrPrivacyKeyInvalid
     else
       let self = (\<lambda>owner k. if owner = viewer \<and> viewer \<in> set ownerUserIDs \<and> k \<in> set keys
             then Some True else None);
           owners = filter (\<lambda>i. i \<noteq> viewer) (dedupNonZero ownerUserIDs) in
       if owners = [] then Inr self
       else
         let table = rules_by_owner svc owners keys;
             needs = batch_needs table owners keys;
             reverse = (case ps_contacts svc of None \<Rightarrow> Map.empty
                        | Some s \<Rightarrow> GetReverseContacts s viewer owners) in
         case (if viewerBase needs then loadViewerFacts svc [viewer] else Inr Map.empty) of
           Inl err \<Rightarrow> Inl err
         | Inr base \<Rightarrow>
             (case (if chatIDs needs \<noteq> [] then loadMembershipFacts svc (chatIDs needs) [viewer]
                    else Inr Map.empty) of
                Inl err \<Rightarrow> Inl err
              | Inr members \<Rightarrow> Inr (\<lambda>owner k.
                  if owner \<in> set owners \<and> k \<in> set keys
                  then Some (evaluate_cell now table (chatIDs needs) base members (reverse owner) owner viewer k)
                  else self owner k)))"

definition CanContactForFreeBatch ::
  "int \<Rightarrow> privacy_service \<Rightarrow> int list \<Rightarrow> int \<Rightarrow> privacy_error + (int \<rightharpoonup> bool)" where
  "CanContactForFreeBatch now svc ownerUserIDs viewer =
    (let owners = dedupNonZero ownerUserIDs in
     if viewer = 0 \<or> owners = [] then Inr Map.empty
     else case CanSeeBatch now svc owners viewer [PrivacyKeyNoPaidMessages] of
       Inl err \<Rightarrow> Inl err
     | Inr visible \<Rightarrow>
         let contacts = (case ps_contacts svc of None \<Rightarrow> Map.empty
               | Some s \<Rightarrow> GetReverseContacts s viewer owners) in
         Inr (\<lambda>owner. if owner \<in> set owners
           then Some (owner = viewer \<or> contacts owner \<noteq> None
             \<or> visible owner PrivacyKeyNoPaidMessages = Some True) else None))"

definition CanSeeMatrix ::
  "int \<Rightarrow> privacy_service \<Rightarrow> int list \<Rightarrow> int list \<Rightarrow> privacy_key list \<Rightarrow> privacy_error + visibility" where
  "CanSeeMatrix now svc ownerUserIDs viewerUserIDs keys =
    (if ownerUserIDs = [] \<or> viewerUserIDs = [] \<or> keys = [] then Inr (\<lambda>_ _ _. None)
     else if list_ex (\<lambda>k. \<not> ValidKey k) keys then Inl ErrPrivacyKeyInvalid
     else
       let owners = dedupNonZero ownerUserIDs; viewers = dedupNonZero viewerUserIDs in
       if owners = [] \<or> viewers = [] then Inr (\<lambda>_ _ _. None)
       else
         let table = rules_by_owner svc owners keys;
             needs = batch_needs table owners keys in
         case (if viewerBase needs then loadViewerFacts svc viewers else Inr Map.empty) of
           Inl err \<Rightarrow> Inl err
         | Inr base \<Rightarrow>
             (case (if chatIDs needs \<noteq> [] then loadMembershipFacts svc (chatIDs needs) viewers
                    else Inr Map.empty) of
                Inl err \<Rightarrow> Inl err
              | Inr members \<Rightarrow>
                  let ownerContacts = (\<lambda>owner. case ps_contacts svc of
                        None \<Rightarrow> Map.empty
                      | Some s \<Rightarrow>
                          if ps_sparse svc then ContactProjectionForViewerUserIDs s
                            (\<lambda>o'. if o' \<in> set owners then viewers else []) owner
                          else GetMany s owner viewers)
                  in Inr (\<lambda>owner viewer k.
                    if owner \<in> set owners \<and> viewer \<in> set viewers \<and> k \<in> set keys
                    then Some (owner = viewer
                      \<or> evaluate_cell now table (chatIDs needs) base members (ownerContacts owner viewer)
                          owner viewer k)
                    else None)))"

text \<open>
  The sparse batch. The request lists each viewer once with the owners asked for, in the order in
  which a loop over the map meets them; \<open>pairs_of\<close> are the (owner, viewer) pairs that the first
  loop collects.
\<close>

definition pairs_of :: "(int \<times> int list) list \<Rightarrow> (int \<times> int) list" where
  "pairs_of request =
    concat (map (\<lambda>(viewer, owners). if viewer = 0 then [] else map (\<lambda>ow. (ow, viewer)) (dedupNonZero owners))
      request)"

definition viewers_of :: "(int \<times> int) list \<Rightarrow> int \<Rightarrow> int list" where
  "viewers_of pairs owner = map snd (filter (\<lambda>p. fst p = owner) pairs)"

text \<open>The loop that adds up the membership pairs; \<open>None\<close> is its early return.\<close>

fun count_pairs :: "rule_table \<Rightarrow> privacy_key list \<Rightarrow> (int \<times> int) list \<Rightarrow> nat \<Rightarrow> int list \<Rightarrow> nat option" where
  "count_pairs table keys pairs current [] = Some current"
| "count_pairs table keys pairs current (owner # owners) =
    (let chats = length (chatIDs (batch_needs table [owner] keys)); viewers = length (viewers_of pairs owner) in
     if \<not> activeChannelMembershipPairsAllowed current chats viewers then None
     else count_pairs table keys pairs (current + chats * viewers) owners)"

definition sparse_keys :: "rule_table \<Rightarrow> privacy_key list \<Rightarrow> (int \<times> int) list \<Rightarrow> int list \<Rightarrow> membership_key list" where
  "sparse_keys table keys pairs owners =
    concat (map (\<lambda>owner. List.product (chatIDs (batch_needs table [owner] keys)) (viewers_of pairs owner)) owners)"

definition CanSeeForViewerUserIDs ::
  "int \<Rightarrow> privacy_service \<Rightarrow> (int \<times> int list) list \<Rightarrow> privacy_key list
    \<Rightarrow> (int \<Rightarrow> int \<rightharpoonup> contact) option \<Rightarrow> privacy_error + visibility" where
  "CanSeeForViewerUserIDs now svc request keys contactsByOwner =
    (if request = [] \<or> keys = [] then Inr (\<lambda>_ _ _. None)
     else if list_ex (\<lambda>k. \<not> ValidKey k) keys then Inl ErrPrivacyKeyInvalid
     else
       let pairs = pairs_of request in
       if pairs = [] then Inr (\<lambda>_ _ _. None)
       else case (case contactsByOwner of
             Some rows \<Rightarrow> Inr rows
           | None \<Rightarrow>
               (case ps_contacts svc of
                  None \<Rightarrow> Inr (\<lambda>_. Map.empty)
                | Some s \<Rightarrow> if \<not> ps_sparse svc then Inl ErrSparseUnsupported
                    else Inr (ContactProjectionForViewerUserIDs s (viewers_of pairs)))) of
         Inl err \<Rightarrow> Inl err
       | Inr rows \<Rightarrow>
           let owners = remdups (map fst pairs);
               table = rules_by_owner svc owners keys in
           (case count_pairs table keys pairs 0 owners of
              None \<Rightarrow> Inl ErrActiveChannelMemberPairsLimit
            | Some _ \<Rightarrow>
                (case (if list_ex (\<lambda>owner. viewerBase (batch_needs table [owner] keys)) owners
                       then loadViewerFacts svc (remdups (map snd pairs)) else Inr Map.empty) of
                   Inl err \<Rightarrow> Inl err
                 | Inr base \<Rightarrow>
                     (case loadMembershipFactsForKeys svc (sparse_keys table keys pairs owners) of
                        Inl err \<Rightarrow> Inl err
                      | Inr members \<Rightarrow> Inr (\<lambda>owner viewer k.
                          if (owner, viewer) \<in> set pairs \<and> k \<in> set keys
                          then Some (owner = viewer
                            \<or> evaluate_cell now table (chatIDs (batch_needs table [owner] keys)) base members
                                (rows owner viewer) owner viewer k)
                          else None)))))"

end
