(* ===== verification/Privacy_Theorems.thy ===== *)
theory Privacy_Theorems
  imports Privacy
begin

text \<open>
  What holds of account privacy: an evaluation depends only on the facts that its rules ask for, so
  the batched operations, which load facts once for many questions, answer every question as
  \<open>CanSee\<close> does; the order of precedence of the rules; that direct calls need mutual contacts; and
  that the rule store only holds valid rows. The specification is \<open>visible\<close>, the evaluation with all
  facts known.
\<close>

section \<open>What an evaluation depends on\<close>

lemma add_unseen_set [simp]: "set (add_unseen ids out) = set out \<union> set ids"
  unfolding add_unseen_def by (induction ids arbitrary: out) auto

lemma add_unseen_distinct: "distinct out \<Longrightarrow> distinct (add_unseen ids out)"
  unfolding add_unseen_def by (induction ids arbitrary: out) auto

lemma dedupNonZero_set [simp]: "set (dedupNonZero ids) = set ids - {0}"
  by (auto simp: dedupNonZero_def)

lemma dedupNonZero_distinct [simp]: "distinct (dedupNonZero ids)"
  by (simp add: dedupNonZero_def add_unseen_distinct)

lemma dedupNonZero_empty_iff: "dedupNonZero ids = [] \<longleftrightarrow> set ids \<subseteq> {0}"
  by (metis Diff_eq_empty_iff dedupNonZero_set set_empty)

lemma dedupNonZero_single [simp]: "v \<noteq> 0 \<Longrightarrow> dedupNonZero [v] = [v]"
  by (simp add: dedupNonZero_def add_unseen_def)

definition base_kind :: "privacy_rule \<Rightarrow> bool" where
  "base_kind r \<longleftrightarrow> Kind r \<in> {PrivacyRuleAllowPremium, PrivacyRuleAllowBots, PrivacyRuleDisallowBots}"

definition chat_kind :: "privacy_rule \<Rightarrow> bool" where
  "chat_kind r \<longleftrightarrow> Kind r \<in> {PrivacyRuleAllowChatParticipants, PrivacyRuleDisallowChatParticipants}"

lemma rule_needs_spec:
  "viewerBase (rule_needs r n) = (viewerBase n \<or> base_kind r)"
  "set (chatIDs (rule_needs r n)) = set (chatIDs n) \<union> (if chat_kind r then {c \<in> set (ChatIDs r). c > 0} else {})"
  by (auto simp: rule_needs_def base_kind_def chat_kind_def split: privacy_rule_kind.splits)

lemma fold_needs_spec:
  "viewerBase (fold rule_needs rs n) = (viewerBase n \<or> (\<exists>r\<in>set rs. base_kind r))"
  "set (chatIDs (fold rule_needs rs n))
    = set (chatIDs n) \<union> {c. c > 0 \<and> (\<exists>r\<in>set rs. chat_kind r \<and> c \<in> set (ChatIDs r))}"
  by (induction rs arbitrary: n) (auto simp: rule_needs_spec)

lemma needsForRules_spec:
  "viewerBase (needsForRules rules) \<longleftrightarrow> (\<exists>r\<in>set (pr_Rules rules). base_kind r)"
  "c \<in> set (chatIDs (needsForRules rules))
    \<longleftrightarrow> c > 0 \<and> (\<exists>r\<in>set (pr_Rules rules). chat_kind r \<and> c \<in> set (ChatIDs r))"
  by (simp_all add: needsForRules_def no_needs_def fold_needs_spec)

lemma default_rules_plain: "r \<in> set (DefaultPrivacyRules key) \<Longrightarrow> \<not> base_kind r \<and> \<not> chat_kind r"
  by (cases key) (auto simp: simple_rule_def base_kind_def chat_kind_def)

lemma intersects_iff: "intersects a b \<longleftrightarrow> (\<exists>i. i \<in> set a \<and> i \<in> set b)"
  by (auto simp: intersects_def list_ex_iff)

text \<open>Two contexts that differ only in facts no rule of the list asks for.\<close>

definition same_relation :: "privacy_context \<Rightarrow> privacy_context \<Rightarrow> bool" where
  "same_relation a b \<longleftrightarrow> pc_OwnerUserID a = pc_OwnerUserID b \<and> pc_ViewerUserID a = pc_ViewerUserID b
     \<and> ViewerIsContact a = ViewerIsContact b \<and> ViewerCloseFriend a = ViewerCloseFriend b"

definition agree_on :: "privacy_rule list \<Rightarrow> privacy_context \<Rightarrow> privacy_context \<Rightarrow> bool" where
  "agree_on rs a b \<longleftrightarrow> same_relation a b
     \<and> ((\<exists>r\<in>set rs. base_kind r) \<longrightarrow> ViewerIsBot a = ViewerIsBot b \<and> ViewerIsPremium a = ViewerIsPremium b)
     \<and> (\<forall>r\<in>set rs. chat_kind r \<longrightarrow> (\<forall>c\<in>set (ChatIDs r). c \<in> set (SharedChatIDs a) \<longleftrightarrow> c \<in> set (SharedChatIDs b)))"

lemma agree_on_matches:
  assumes "agree_on rs a b" "r \<in> set rs"
  shows "explicitDisallowMatches r a = explicitDisallowMatches r b"
    and "explicitAllowMatches r a = explicitAllowMatches r b"
proof -
  have base: "base_kind r \<Longrightarrow> ViewerIsBot a = ViewerIsBot b \<and> ViewerIsPremium a = ViewerIsPremium b"
    using assms by (auto simp: agree_on_def)
  have chat: "chat_kind r \<Longrightarrow> intersects (ChatIDs r) (SharedChatIDs a) = intersects (ChatIDs r) (SharedChatIDs b)"
    using assms by (fastforce simp: agree_on_def intersects_iff)
  have rel: "pc_ViewerUserID a = pc_ViewerUserID b" "ViewerCloseFriend a = ViewerCloseFriend b"
    using assms by (auto simp: agree_on_def same_relation_def)
  show "explicitDisallowMatches r a = explicitDisallowMatches r b"
    using base chat rel
    by (cases "Kind r") (simp_all add: explicitDisallowMatches_def base_kind_def chat_kind_def)
  show "explicitAllowMatches r a = explicitAllowMatches r b"
    using base chat rel
    by (cases "Kind r") (simp_all add: explicitAllowMatches_def base_kind_def chat_kind_def)
qed

lemma contact_verdict_cong:
  "ViewerIsContact a = ViewerIsContact b \<Longrightarrow> contact_verdict a rs = contact_verdict b rs"
  by (induction rs) (simp_all split: privacy_rule_kind.splits)

lemma list_ex_cong_mem: "(\<And>x. x \<in> set xs \<Longrightarrow> P x = Q x) \<Longrightarrow> list_ex P xs = list_ex Q xs"
  by (auto simp: list_ex_iff)

lemma evaluate_agree:
  assumes "agree_on (pr_Rules rules) a b"
  shows "EvaluatePrivacy rules a = EvaluatePrivacy rules b"
proof -
  define rs where "rs = (if pr_Rules rules = [] then DefaultPrivacyRules (pr_Key rules) else pr_Rules rules)"
  have agree: "agree_on rs a b"
    using assms default_rules_plain by (auto simp: rs_def agree_on_def)
  have "list_ex (\<lambda>r. explicitDisallowMatches r a) rs = list_ex (\<lambda>r. explicitDisallowMatches r b) rs"
    by (intro list_ex_cong_mem agree_on_matches(1)[OF agree])
  moreover have "list_ex (\<lambda>r. explicitAllowMatches r a) rs = list_ex (\<lambda>r. explicitAllowMatches r b) rs"
    by (intro list_ex_cong_mem agree_on_matches(2)[OF agree])
  moreover have "contact_verdict a rs = contact_verdict b rs"
    using assms by (intro contact_verdict_cong) (simp add: agree_on_def same_relation_def)
  moreover have "pc_OwnerUserID a = pc_OwnerUserID b" "pc_ViewerUserID a = pc_ViewerUserID b"
    using assms by (auto simp: agree_on_def same_relation_def)
  ultimately show ?thesis by (simp add: EvaluatePrivacy_def Let_def flip: rs_def)
qed

section \<open>What the providers promise\<close>

text \<open>
  \<open>base\<close> and \<open>member\<close> are what the users and channels services know: \<open>PrivacyBaseUsers\<close>
  returns the users that exist among the ids asked for, \<open>FilterActiveChannelMemberPairs\<close> the
  requested pairs that are active memberships.
\<close>

definition providers_ok :: "privacy_service \<Rightarrow> (int \<rightharpoonup> base_user) \<Rightarrow> (int \<Rightarrow> int \<Rightarrow> bool) \<Rightarrow> bool" where
  "providers_ok svc base member \<longleftrightarrow>
    (\<forall>users. ps_baseUsers svc = Some users \<longrightarrow> (\<forall>ids. \<exists>us. users ids = Inr us
       \<and> (\<forall>u. u \<in> set us \<longleftrightarrow> bu_ID u \<in> set ids \<and> base (bu_ID u) = Some u)))
    \<and> (\<forall>members. ps_memberships svc = Some members \<longrightarrow> (\<forall>request. \<exists>active. members request = Inr active
       \<and> (\<forall>c u. (\<exists>us. (c, us) \<in> set active \<and> u \<in> set us)
            \<longleftrightarrow> (\<exists>us. (c, us) \<in> set request \<and> u \<in> set us) \<and> member c u)))"

definition user_facts :: "base_user \<Rightarrow> viewer_facts" where
  "user_facts u = \<lparr>vf_Found = True, vf_Bot = bu_Bot u, vf_PremiumUntil = bu_PremiumUntil u\<rparr>"

definition true_facts :: "privacy_service \<Rightarrow> (int \<rightharpoonup> base_user) \<Rightarrow> int \<Rightarrow> viewer_facts" where
  "true_facts svc base i = (if ps_baseUsers svc = None then zero_facts
     else case base i of Some u \<Rightarrow> if bu_ID u = i then user_facts u else zero_facts | None \<Rightarrow> zero_facts)"

definition true_member :: "privacy_service \<Rightarrow> (int \<Rightarrow> int \<Rightarrow> bool) \<Rightarrow> membership_key \<Rightarrow> bool" where
  "true_member svc member k \<longleftrightarrow> ps_memberships svc \<noteq> None \<and> member (fst k) (snd k)"

lemma fold_update_unique:
  assumes "\<And>x. x \<in> set xs \<Longrightarrow> P x \<Longrightarrow> f x = k \<Longrightarrow> x = w"
  shows "fold (\<lambda>x m. if \<not> P x then m else m(f x \<mapsto> g x)) xs m k
    = (if \<exists>x\<in>set xs. P x \<and> f x = k then Some (g w) else m k)"
  using assms
proof (induction xs arbitrary: m)
  case (Cons x xs)
  show ?case
  proof (cases "P x \<and> f x = k")
    case True
    then have "x = w" using Cons.prems by simp
    then show ?thesis using Cons True by auto
  next
    case False
    then have "(if \<not> P x then m else m(f x \<mapsto> g x)) k = m k" by auto
    then show ?thesis using Cons False by auto
  qed
qed simp

lemma viewer_loader_facts:
  assumes ok: "providers_ok svc base member"
  obtains m where "viewer_loader svc ids = Inr m"
    "\<And>i. i \<in> set ids \<Longrightarrow> i \<noteq> 0 \<Longrightarrow> m i = Some (true_facts svc base i)"
proof (cases "ps_baseUsers svc")
  case None
  then show thesis
    by (intro that [of "\<lambda>i. if i \<in> set ids then Some zero_facts else None"]) (auto simp: viewer_loader_def true_facts_def)
next
  case (Some users)
  with ok obtain us where us: "users ids = Inr us"
    and mem: "\<And>u. u \<in> set us \<longleftrightarrow> bu_ID u \<in> set ids \<and> base (bu_ID u) = Some u"
    unfolding providers_ok_def by blast
  define m0 where "m0 = (\<lambda>i. if i \<in> set ids then Some zero_facts else None)"
  define m where "m = fold (\<lambda>u out. if \<not> bu_ID u \<noteq> 0 then out else out(bu_ID u \<mapsto> user_facts u)) us m0"
  have "viewer_loader svc ids = Inr m"
    using Some us by (simp add: viewer_loader_def m_def m0_def user_facts_def cong: if_cong)
  moreover have "m i = Some (true_facts svc base i)" if i: "i \<in> set ids" "i \<noteq> 0" for i
  proof -
    have "m i = (if \<exists>u\<in>set us. bu_ID u \<noteq> 0 \<and> bu_ID u = i then Some (user_facts (the (base i))) else m0 i)"
      unfolding m_def by (rule fold_update_unique) (auto simp: mem)
    then show ?thesis using i Some by (auto simp: mem true_facts_def m0_def split: option.splits)
  qed
  ultimately show thesis by (rule that)
qed

lemma group_by_chat_pairs: "(\<exists>us. (c, us) \<in> set (group_by_chat keys) \<and> u \<in> set us) \<longleftrightarrow> (c, u) \<in> set keys"
  by (force simp: group_by_chat_def)

lemma membership_loader_facts:
  assumes ok: "providers_ok svc base member"
  obtains m where "membership_loader svc keys = Inr m"
    "\<And>k. k \<in> set keys \<Longrightarrow> m k = Some (true_member svc member k)"
proof (cases "ps_memberships svc")
  case None
  then show thesis
    by (intro that [of "\<lambda>k. if k \<in> set keys then Some False else None"]) (auto simp: membership_loader_def true_member_def)
next
  case (Some members)
  with ok obtain active where act: "members (group_by_chat keys) = Inr active"
    and mem: "\<And>c u. (\<exists>us. (c, us) \<in> set active \<and> u \<in> set us)
      \<longleftrightarrow> (\<exists>us. (c, us) \<in> set (group_by_chat keys) \<and> u \<in> set us) \<and> member c u"
    unfolding providers_ok_def by blast
  have "list_ex (\<lambda>(c, us). c = fst k \<and> snd k \<in> set us) active \<longleftrightarrow> member (fst k) (snd k)" if "k \<in> set keys" for k
  proof -
    have "list_ex (\<lambda>(c, us). c = fst k \<and> snd k \<in> set us) active
      \<longleftrightarrow> (\<exists>us. (fst k, us) \<in> set active \<and> snd k \<in> set us)" by (auto simp: list_ex_iff)
    then show ?thesis using that by (simp add: mem group_by_chat_pairs)
  qed
  then show thesis using Some act
    by (intro that [of "\<lambda>k. if k \<in> set keys then Some (list_ex (\<lambda>(c, us). c = fst k \<and> snd k \<in> set us) active) else None"])
      (auto simp: membership_loader_def true_member_def)
qed

lemma dedup_membership_set [simp]: "set (dedup_membership keys) = {k \<in> set keys. fst k \<noteq> 0 \<and> snd k \<noteq> 0}"
  and dedup_membership_distinct [simp]: "distinct (dedup_membership keys)"
proof -
  have "set (foldl (\<lambda>out k. if fst k = 0 \<or> snd k = 0 \<or> k \<in> set out then out else out @ [k]) out keys)
      = set out \<union> {k \<in> set keys. fst k \<noteq> 0 \<and> snd k \<noteq> 0}
    \<and> (distinct out \<longrightarrow> distinct (foldl (\<lambda>out k. if fst k = 0 \<or> snd k = 0 \<or> k \<in> set out then out else out @ [k]) out keys))"
    for out :: "membership_key list"
  proof (induction keys arbitrary: out)
    case (Cons k keys)
    then show ?case by (cases "fst k = 0 \<or> snd k = 0 \<or> k \<in> set out") auto
  qed simp
  then show "set (dedup_membership keys) = {k \<in> set keys. fst k \<noteq> 0 \<and> snd k \<noteq> 0}"
    and "distinct (dedup_membership keys)" by (simp_all add: dedup_membership_def)
qed

lemma loadMembershipFactsForKeys_facts:
  assumes "providers_ok svc base member" "card {k \<in> set keys. fst k \<noteq> 0 \<and> snd k \<noteq> 0} \<le> MaxActiveChannelMemberPairs"
  obtains m where "loadMembershipFactsForKeys svc keys = Inr m"
    "\<And>k. k \<in> set keys \<Longrightarrow> fst k \<noteq> 0 \<Longrightarrow> snd k \<noteq> 0 \<Longrightarrow> m k = Some (true_member svc member k)"
proof -
  have len: "length (dedup_membership keys) \<le> MaxActiveChannelMemberPairs"
    using assms(2) distinct_card [OF dedup_membership_distinct [of keys]] by simp
  show thesis
  proof (cases "dedup_membership keys = []")
    case True
    then have "\<not> (k \<in> set keys \<and> fst k \<noteq> 0 \<and> snd k \<noteq> 0)" for k
      using dedup_membership_set [of keys] by auto
    then show thesis using True len by (intro that [of Map.empty]) (auto simp: loadMembershipFactsForKeys_def)
  next
    case False
    obtain m where "membership_loader svc (dedup_membership keys) = Inr m"
      "\<And>k. k \<in> set (dedup_membership keys) \<Longrightarrow> m k = Some (true_member svc member k)"
      using membership_loader_facts [OF assms(1)] by blast
    then show thesis using False len by (intro that [of m]) (auto simp: loadMembershipFactsForKeys_def)
  qed
qed

lemma loadViewerFacts_facts:
  assumes "providers_ok svc base member"
  obtains m where "loadViewerFacts svc ids = Inr m"
    "\<And>i. i \<in> set ids \<Longrightarrow> i \<noteq> 0 \<Longrightarrow> m i = Some (true_facts svc base i)"
proof (cases "dedupNonZero ids = []")
  case True
  then show thesis by (intro that [of Map.empty]) (auto simp: loadViewerFacts_def dedupNonZero_empty_iff)
next
  case False
  obtain m where "viewer_loader svc (dedupNonZero ids) = Inr m"
    "\<And>i. i \<in> set (dedupNonZero ids) \<Longrightarrow> i \<noteq> 0 \<Longrightarrow> m i = Some (true_facts svc base i)"
    using viewer_loader_facts [OF assms] by blast
  then show thesis using False by (intro that [of m]) (auto simp: loadViewerFacts_def)
qed

lemma pairs_allowed_iff:
  "activeChannelMembershipPairsAllowed 0 c u \<longleftrightarrow> c * u \<le> MaxActiveChannelMemberPairs"
  "current \<le> MaxActiveChannelMemberPairs \<Longrightarrow>
    activeChannelMembershipPairsAllowed current c u \<longleftrightarrow> current + c * u \<le> MaxActiveChannelMemberPairs"
  by (auto simp: activeChannelMembershipPairsAllowed_def less_eq_div_iff_mult_less_eq le_diff_conv2 add.commute)

lemma loadMembershipFacts_spec:
  assumes ok: "providers_ok svc base member"
    and size: "card (set chats - {0}) * card (set viewers - {0}) \<le> MaxActiveChannelMemberPairs"
  obtains m where "loadMembershipFacts svc chats viewers = Inr m"
    "\<And>c v. c \<in> set chats \<Longrightarrow> v \<in> set viewers \<Longrightarrow> c \<noteq> 0 \<Longrightarrow> v \<noteq> 0 \<Longrightarrow> m (c, v) = Some (true_member svc member (c, v))"
proof (cases "dedupNonZero chats = [] \<or> dedupNonZero viewers = []")
  case True
  then show thesis by (intro that [of Map.empty]) (auto simp: loadMembershipFacts_def dedupNonZero_empty_iff)
next
  case False
  let ?cs = "dedupNonZero chats" and ?vs = "dedupNonZero viewers"
  have len: "length ?cs = card (set chats - {0})" "length ?vs = card (set viewers - {0})"
    using distinct_card [OF dedupNonZero_distinct] by (metis dedupNonZero_set)+
  have "{k \<in> set (List.product ?cs ?vs). fst k \<noteq> 0 \<and> snd k \<noteq> 0} = (set chats - {0}) \<times> (set viewers - {0})"
    by auto
  then have "card {k \<in> set (List.product ?cs ?vs). fst k \<noteq> 0 \<and> snd k \<noteq> 0} \<le> MaxActiveChannelMemberPairs"
    using size by (simp add: card_cartesian_product)
  then obtain m where "loadMembershipFactsForKeys svc (List.product ?cs ?vs) = Inr m"
    "\<And>k. k \<in> set (List.product ?cs ?vs) \<Longrightarrow> fst k \<noteq> 0 \<Longrightarrow> snd k \<noteq> 0 \<Longrightarrow> m k = Some (true_member svc member k)"
    using loadMembershipFactsForKeys_facts [OF ok] by blast
  then show thesis using False size len
    by (intro that [of m]) (auto simp: loadMembershipFacts_def Let_def pairs_allowed_iff(1))
qed

lemma loadMembershipFacts_limit:
  assumes "\<not> card (set chats - {0}) * card (set viewers - {0}) \<le> MaxActiveChannelMemberPairs"
  shows "loadMembershipFacts svc chats viewers = Inl ErrActiveChannelMemberPairsLimit"
proof -
  have "length (dedupNonZero chats) = card (set chats - {0})" "length (dedupNonZero viewers) = card (set viewers - {0})"
    using distinct_card [OF dedupNonZero_distinct] by (metis dedupNonZero_set)+
  moreover from this have "dedupNonZero chats \<noteq> []" "dedupNonZero viewers \<noteq> []" using assms
    by (metis le0 list.size(3) mult_0, metis le0 list.size(3) mult_0_right)
  ultimately show ?thesis using assms by (simp add: loadMembershipFacts_def Let_def pairs_allowed_iff(1))
qed

section \<open>Batches agree with single questions\<close>

text \<open>The rows of a store that only \<open>SetRules\<close> has written.\<close>

definition rules_ok :: "privacy_store \<Rightarrow> bool" where
  "rules_ok s \<longleftrightarrow> distinct (map fst s)
     \<and> (\<forall>(k, r)\<in>set s. k = (pr_OwnerUserID r, pr_Key r) \<and> ValidKey (pr_Key r)
          \<and> pr_Rules r \<noteq> [] \<and> validateRules (pr_Rules r) = None)"

definition service_ok :: "privacy_service \<Rightarrow> bool" where
  "service_ok svc \<longleftrightarrow> (case ps_rules svc of None \<Rightarrow> True | Some s \<Rightarrow> rules_ok s)
     \<and> (case ps_contacts svc of None \<Rightarrow> True | Some s \<Rightarrow> contacts_ok s)"

lemma service_okD:
  "service_ok svc \<Longrightarrow> ps_rules svc = Some s \<Longrightarrow> rules_ok s"
  "service_ok svc \<Longrightarrow> ps_contacts svc = Some t \<Longrightarrow> contacts_ok t"
  by (simp_all add: service_ok_def)

lemma rules_ok_rowD:
  assumes "rules_ok s" "(k, r) \<in> set s"
  shows "k = (pr_OwnerUserID r, pr_Key r)" "ValidKey (pr_Key r)" "pr_Rules r \<noteq> []" "validateRules (pr_Rules r) = None"
  using assms by (auto simp: rules_ok_def)

lemma GetPrivacyRules_mem:
  assumes "rules_ok s"
  shows "GetPrivacyRules s owner key = Some r \<longleftrightarrow> ((owner, key), r) \<in> set s"
  using assms by (simp add: GetPrivacyRules_def rules_ok_def)

lemma rules_by_owner_lookup:
  assumes ok: "rules_ok s" and svc: "ps_rules svc = Some s" and mem: "owner \<in> set owners" "key \<in> set keys"
  shows "rules_by_owner svc owners keys (owner, key) = GetPrivacyRules s owner key"
proof -
  let ?rows = "ListPrivacyRules s owners keys"
  have rows: "r \<in> set ?rows \<longleftrightarrow> ((pr_OwnerUserID r, pr_Key r), r) \<in> set s
      \<and> pr_OwnerUserID r \<in> set owners \<and> pr_Key r \<in> set keys" for r
  proof -
    have "r \<in> set ?rows \<longleftrightarrow> (\<exists>k. (k, r) \<in> set s \<and> fst k \<in> set owners \<and> snd k \<in> set keys)"
      using mem by (auto simp: ListPrivacyRules_def image_iff)
    also have "\<dots> \<longleftrightarrow> ((pr_OwnerUserID r, pr_Key r), r) \<in> set s \<and> pr_OwnerUserID r \<in> set owners \<and> pr_Key r \<in> set keys"
      using rules_ok_rowD(1) [OF ok] by (metis fst_conv snd_conv)
    finally show ?thesis .
  qed
  have found: "r \<in> set ?rows \<and> ValidKey (pr_Key r) \<and> (pr_OwnerUserID r, pr_Key r) = (owner, key)
      \<longleftrightarrow> GetPrivacyRules s owner key = Some r" for r
    using rows [of r] mem rules_ok_rowD [OF ok, of "(owner, key)" r] by (auto simp: GetPrivacyRules_mem [OF ok])
  have "rules_by_owner svc owners keys (owner, key)
    = (if \<exists>r\<in>set ?rows. ValidKey (pr_Key r) \<and> (pr_OwnerUserID r, pr_Key r) = (owner, key)
       then Some ((\<lambda>r. r\<lparr>pr_Rules := (if pr_Rules r = [] then DefaultPrivacyRules (pr_Key r) else pr_Rules r)\<rparr>)
         (the (GetPrivacyRules s owner key))) else Map.empty (owner, key))"
    unfolding rules_by_owner_def svc option.case by (rule fold_update_unique) (use found in force)
  also have "\<dots> = GetPrivacyRules s owner key"
  proof (cases "GetPrivacyRules s owner key")
    case (Some r)
    then have "pr_Rules r \<noteq> []" using rules_ok_rowD(3) [OF ok] GetPrivacyRules_mem [OF ok] by blast
    then show ?thesis using Some found by auto
  qed (use found in auto)
  finally show ?thesis .
qed

lemma GetRules_rule_for:
  assumes ok: "service_ok svc" and mem: "owner \<in> set owners" "key \<in> set keys" and key: "ValidKey key"
  shows "GetRules svc owner key = Inr (rule_for (rules_by_owner svc owners keys) owner key)"
proof (cases "ps_rules svc")
  case None
  then show ?thesis using key by (simp add: GetRules_def rule_for_def rules_by_owner_def)
next
  case (Some s)
  note st = service_okD(1) [OF ok Some]
  show ?thesis
  proof (cases "GetPrivacyRules s owner key")
    case None
    then show ?thesis using key Some rules_by_owner_lookup [OF st Some mem]
      by (simp add: GetRules_def rule_for_def)
  next
    case (Some r)
    then have "((owner, key), r) \<in> set s" using GetPrivacyRules_mem [OF st] by blast
    note r = rules_ok_rowD [OF st this]
    have "pr_OwnerUserID r = owner" "pr_Key r = key" using r(1) by auto
    then show ?thesis using key Some \<open>ps_rules svc = _\<close> rules_by_owner_lookup [OF st \<open>ps_rules svc = _\<close> mem] r(3)
      by (simp add: GetRules_def rule_for_def)
  qed
qed

lemma mergeNeeds_spec:
  "viewerBase (mergeNeeds a b) = (viewerBase a \<or> viewerBase b)"
  "set (chatIDs (mergeNeeds a b)) = set (chatIDs a) \<union> set (chatIDs b)"
  by (simp_all add: mergeNeeds_def)

lemma batch_needs_spec:
  "viewerBase (batch_needs table owners keys)
    \<longleftrightarrow> (\<exists>ow\<in>set owners. \<exists>k\<in>set keys. viewerBase (needsForRules (rule_for table ow k)))"
  "set (chatIDs (batch_needs table owners keys))
    = (\<Union>ow\<in>set owners. \<Union>k\<in>set keys. set (chatIDs (needsForRules (rule_for table ow k))))"
proof -
  let ?f = "\<lambda>n (owner, key). mergeNeeds n (needsForRules (rule_for table owner key))"
  have "viewerBase (foldl ?f n ps) \<longleftrightarrow> viewerBase n \<or> (\<exists>(ow, k)\<in>set ps. viewerBase (needsForRules (rule_for table ow k)))"
    "set (chatIDs (foldl ?f n ps)) = set (chatIDs n) \<union> (\<Union>(ow, k)\<in>set ps. set (chatIDs (needsForRules (rule_for table ow k))))"
    for n ps by (induction ps arbitrary: n) (auto simp: mergeNeeds_spec)
  then show "viewerBase (batch_needs table owners keys)
      \<longleftrightarrow> (\<exists>ow\<in>set owners. \<exists>k\<in>set keys. viewerBase (needsForRules (rule_for table ow k)))"
    "set (chatIDs (batch_needs table owners keys))
      = (\<Union>ow\<in>set owners. \<Union>k\<in>set keys. set (chatIDs (needsForRules (rule_for table ow k))))"
    by (auto simp: batch_needs_def no_needs_def)
qed

lemma batch_needs_pos: "c \<in> set (chatIDs (batch_needs table owners keys)) \<Longrightarrow> c > 0"
  by (auto simp: batch_needs_spec(2) needsForRules_spec)

text \<open>The answer when every fact is known: the specification that all operations meet.\<close>

definition visible ::
  "int \<Rightarrow> privacy_service \<Rightarrow> (int \<rightharpoonup> base_user) \<Rightarrow> (int \<Rightarrow> int \<Rightarrow> bool)
    \<Rightarrow> privacy_rules \<Rightarrow> int \<Rightarrow> int \<Rightarrow> bool" where
  "visible now svc base member rules owner viewer =
    EvaluatePrivacy rules
      (applyMembershipFacts (chatIDs (needsForRules rules)) (\<lambda>k. Some (true_member svc member k))
        (applyViewerFacts (true_facts svc base viewer) now
          (pair_context owner viewer (contact_row svc owner viewer))))"

lemma apply_simps [simp]:
  "pc_OwnerUserID (applyViewerFacts f now ctx) = pc_OwnerUserID ctx"
  "pc_ViewerUserID (applyViewerFacts f now ctx) = pc_ViewerUserID ctx"
  "ViewerIsContact (applyViewerFacts f now ctx) = ViewerIsContact ctx"
  "ViewerCloseFriend (applyViewerFacts f now ctx) = ViewerCloseFriend ctx"
  "SharedChatIDs (applyViewerFacts f now ctx) = SharedChatIDs ctx"
  "pc_OwnerUserID (applyMembershipFacts cs m ctx) = pc_OwnerUserID ctx"
  "pc_ViewerUserID (applyMembershipFacts cs m ctx) = pc_ViewerUserID ctx"
  "ViewerIsContact (applyMembershipFacts cs m ctx) = ViewerIsContact ctx"
  "ViewerCloseFriend (applyMembershipFacts cs m ctx) = ViewerCloseFriend ctx"
  "ViewerIsBot (applyMembershipFacts cs m ctx) = ViewerIsBot ctx"
  "ViewerIsPremium (applyMembershipFacts cs m ctx) = ViewerIsPremium ctx"
  "SharedChatIDs (applyMembershipFacts cs m ctx)
     = SharedChatIDs ctx @ filter (\<lambda>c. m (c, pc_ViewerUserID ctx) = Some True) cs"
  by (simp_all add: applyViewerFacts_def applyMembershipFacts_def)

lemma pair_context_simps [simp]:
  "pc_OwnerUserID (pair_context o' v c) = o'" "pc_ViewerUserID (pair_context o' v c) = v"
  "ViewerIsContact (pair_context o' v c) = (c \<noteq> None)" "SharedChatIDs (pair_context o' v c) = []"
  "ViewerCloseFriend (pair_context o' v c) = (case c of None \<Rightarrow> False | Some c \<Rightarrow> ct_CloseFriend c)"
  by (simp_all add: pair_context_def)

lemma applyViewerFacts_bits:
  "ViewerIsBot (applyViewerFacts f now (pair_context o' v c)) = (vf_Found f \<and> vf_Bot f)"
  "ViewerIsPremium (applyViewerFacts f now (pair_context o' v c))
    = (vf_Found f \<and> \<not> vf_Bot f \<and> vf_PremiumUntil f > now)"
  by (auto simp: applyViewerFacts_def pair_context_def)

text \<open>An evaluation with at least the facts its rules need gives the specified answer.\<close>

lemma evaluate_visible:
  assumes close: "(c \<noteq> None) = (contact_row svc owner viewer \<noteq> None)"
      "\<And>x y. c = Some x \<Longrightarrow> contact_row svc owner viewer = Some y \<Longrightarrow> ct_CloseFriend x = ct_CloseFriend y"
    and base: "viewerBase (needsForRules rules) \<Longrightarrow> f = true_facts svc base viewer"
    and chats: "set (chatIDs (needsForRules rules)) \<subseteq> set cs" "\<And>c. c \<in> set cs \<Longrightarrow> c > 0"
    and members: "\<And>c. c \<in> set cs \<Longrightarrow> m (c, viewer) = Some (true_member svc member (c, viewer))"
  shows "EvaluatePrivacy rules (applyMembershipFacts cs m (applyViewerFacts f now (pair_context owner viewer c)))
    = visible now svc base member rules owner viewer"
proof -
  have rel: "(case c of None \<Rightarrow> False | Some c \<Rightarrow> ct_CloseFriend c)
      = (case contact_row svc owner viewer of None \<Rightarrow> False | Some c \<Rightarrow> ct_CloseFriend c)"
    using close by (auto split: option.splits)
  have shared: "i \<in> set cs \<and> true_member svc member (i, viewer)
      \<longleftrightarrow> i \<in> set (chatIDs (needsForRules rules)) \<and> true_member svc member (i, viewer)"
    if "r \<in> set (pr_Rules rules)" "chat_kind r" "i \<in> set (ChatIDs r)" for r i
    using that chats needsForRules_spec(2) [of i rules] by blast
  show ?thesis unfolding visible_def
  proof (rule evaluate_agree, unfold agree_on_def, intro conjI ballI impI)
    show "same_relation (applyMembershipFacts cs m (applyViewerFacts f now (pair_context owner viewer c)))
      (applyMembershipFacts (chatIDs (needsForRules rules)) (\<lambda>k. Some (true_member svc member k))
        (applyViewerFacts (true_facts svc base viewer) now (pair_context owner viewer (contact_row svc owner viewer))))"
      using close(1) rel by (simp add: same_relation_def)
  next
    fix r i assume *: "r \<in> set (pr_Rules rules)" "chat_kind r" "i \<in> set (ChatIDs r)"
    show "i \<in> set (SharedChatIDs (applyMembershipFacts cs m (applyViewerFacts f now (pair_context owner viewer c))))
      \<longleftrightarrow> i \<in> set (SharedChatIDs (applyMembershipFacts (chatIDs (needsForRules rules)) (\<lambda>k. Some (true_member svc member k))
        (applyViewerFacts (true_facts svc base viewer) now (pair_context owner viewer (contact_row svc owner viewer)))))"
      using shared [OF *] members [of i] by auto
  qed (use base in \<open>simp_all add: needsForRules_spec(1) applyViewerFacts_bits\<close>)
qed

lemma validate_loop_total: "validate_loop n rs = None \<Longrightarrow> rs \<noteq> [] \<Longrightarrow>
  n + sum_list (map (\<lambda>r. length (UserIDs r) + length (ChatIDs r)) rs) \<le> maxPrivacyRuleIDs"
proof (induction rs arbitrary: n)
  case (Cons r rs)
  let ?n = "n + length (UserIDs r) + length (ChatIDs r)"
  have n: "?n \<le> maxPrivacyRuleIDs" "validate_loop ?n rs = None"
    using Cons.prems(1) by (auto simp: Let_def split: if_splits)
  show ?case
  proof (cases "rs = []")
    case True
    then show ?thesis using n(1) by simp
  next
    case False
    then show ?thesis using Cons.IH [OF n(2)] by simp
  qed
qed simp

lemma needs_card_le:
  "card (set (chatIDs (needsForRules rules)))
    \<le> sum_list (map (\<lambda>r. length (UserIDs r) + length (ChatIDs r)) (pr_Rules rules))"
proof -
  have total: "card (\<Union>r\<in>set rs. set (ChatIDs r)) \<le> sum_list (map (\<lambda>r. length (UserIDs r) + length (ChatIDs r)) rs)" for rs
  proof (induction rs)
    case (Cons r rs)
    have "card (\<Union>r\<in>set (r # rs). set (ChatIDs r)) \<le> card (set (ChatIDs r)) + card (\<Union>r\<in>set rs. set (ChatIDs r))"
      by (simp add: card_Un_le)
    then show ?case using Cons.IH card_length [of "ChatIDs r"] by simp
  qed simp
  have "set (chatIDs (needsForRules rules)) \<subseteq> (\<Union>r\<in>set (pr_Rules rules). set (ChatIDs r))"
    by (auto simp: needsForRules_spec)
  then have mono: "card (set (chatIDs (needsForRules rules))) \<le> card (\<Union>r\<in>set (pr_Rules rules). set (ChatIDs r))"
    by (intro card_mono) auto
  show ?thesis by (rule order_trans [OF mono total])
qed

lemma valid_rules_needs:
  assumes "validateRules (pr_Rules rules) = None" "pr_Rules rules \<noteq> []"
  shows "card (set (chatIDs (needsForRules rules))) \<le> MaxActiveChannelMemberPairs"
proof -
  have "validate_loop 0 (pr_Rules rules) = None" using assms(1) by (simp add: validateRules_def split: if_splits)
  from validate_loop_total [OF this assms(2)] needs_card_le [of rules] show ?thesis
    by (simp add: maxPrivacyRuleIDs_def MaxActiveChannelMemberPairs_def)
qed

lemma GetRules_needs:
  assumes ok: "service_ok svc" and get: "GetRules svc owner key = Inr rules"
  shows "card (set (chatIDs (needsForRules rules))) \<le> MaxActiveChannelMemberPairs"
proof -
  have "c \<notin> set (chatIDs (needsForRules (defaultRules owner key)))" for c
    by (auto simp: needsForRules_spec(2) defaultRules_def dest: default_rules_plain)
  then have default: "set (chatIDs (needsForRules (defaultRules owner key))) = {}"
    by (simp only: set_empty) (metis list.set_intros(1) neq_Nil_conv)
  have key: "ValidKey key" using get by (auto simp: GetRules_def split: if_splits)
  consider "rules = defaultRules owner key"
    | s r where "ps_rules svc = Some s" "GetPrivacyRules s owner key = Some r"
      "pr_Rules rules = (if pr_Rules r = [] then DefaultPrivacyRules key else pr_Rules r)"
    using get key by (auto simp: GetRules_def split: option.splits)
  then show ?thesis
  proof cases
    case 1
    then show ?thesis using default by simp
  next
    case (2 s r)
    note st = service_okD(1) [OF ok 2(1)]
    have "((owner, key), r) \<in> set s" using 2(2) GetPrivacyRules_mem [OF st] by blast
    then show ?thesis using rules_ok_rowD(3,4) [OF st] 2(3) by (intro valid_rules_needs) auto
  qed
qed

lemma GetRules_valid: "ValidKey key \<Longrightarrow> \<exists>rules. GetRules svc owner key = Inr rules"
  by (auto simp: GetRules_def split: option.splits)

lemma needs_nonzero: "set (chatIDs (needsForRules rules)) - {0} = set (chatIDs (needsForRules rules))"
  by (auto simp: needsForRules_spec)

lemma applyViewerFacts_zero: "applyViewerFacts zero_facts now ctx = ctx"
  by (simp add: applyViewerFacts_def zero_facts_def)

lemma needs_positive: "c \<in> set (chatIDs (needsForRules rules)) \<Longrightarrow> c > 0"
  by (simp add: needsForRules_spec(2))

text \<open>A single question with a valid key is always answered, by the specification.\<close>

lemma CanSee_visible:
  assumes ok: "service_ok svc" and prov: "providers_ok svc base member"
    and ids: "owner \<noteq> 0" "viewer \<noteq> 0" "owner \<noteq> viewer" and get: "GetRules svc owner key = Inr rules"
  shows "CanSee now svc owner viewer key = Inr (visible now svc base member rules owner viewer)"
proof -
  let ?needs = "needsForRules rules" and ?row = "contact_row svc owner viewer"
  obtain b where b: "loadViewerFacts svc [viewer] = Inr b" "b viewer = Some (true_facts svc base viewer)"
    using loadViewerFacts_facts [OF prov, of "[viewer]"] ids by auto
  have "card (set (chatIDs ?needs) - {0}) * card (set [viewer] - {0}) \<le> MaxActiveChannelMemberPairs"
    using GetRules_needs [OF ok get] ids by (simp add: needs_nonzero)
  then obtain m where m: "loadMembershipFacts svc (chatIDs ?needs) [viewer] = Inr m"
    "\<And>c. c \<in> set (chatIDs ?needs) \<Longrightarrow> m (c, viewer) = Some (true_member svc member (c, viewer))"
    using loadMembershipFacts_spec [OF prov, of "chatIDs ?needs" "[viewer]"] ids needs_nonzero [of rules]
    by (metis Diff_iff list.set_intros(1) singletonI)
  define base' where "base' = (if viewerBase ?needs then b else Map.empty)"
  define mem' where "mem' = (if chatIDs ?needs \<noteq> [] then m else Map.empty)"
  have "CanSee now svc owner viewer key = Inr (EvaluatePrivacy rules (applyMembershipFacts (chatIDs ?needs) mem'
    (applyViewerFacts (if viewerBase ?needs then facts_of base' viewer else zero_facts) now (pair_context owner viewer ?row))))"
    using ids get b(1) m(1)
    by (simp add: CanSee_def Let_def base'_def mem'_def applyViewerFacts_zero)
  also have "\<dots> = Inr (visible now svc base member rules owner viewer)"
    using b(2) m(2) needs_positive by (intro arg_cong [of _ _ Inr] evaluate_visible)
      (auto simp: base'_def mem'_def facts_of_def)
  finally show ?thesis .
qed

text \<open>One cell of a batch, given facts for at least what the rules of its owner and key need.\<close>

lemma cell_CanSee:
  assumes ok: "service_ok svc" and prov: "providers_ok svc base member"
    and ids: "owner \<noteq> 0" "viewer \<noteq> 0" "owner \<noteq> viewer"
    and mem: "owner \<in> set owners" "key \<in> set keys" "ValidKey key"
    and row: "(c \<noteq> None) = (contact_row svc owner viewer \<noteq> None)"
      "\<And>x y. c = Some x \<Longrightarrow> contact_row svc owner viewer = Some y \<Longrightarrow> ct_CloseFriend x = ct_CloseFriend y"
    and facts: "viewerBase (needsForRules (rule_for (rules_by_owner svc owners keys) owner key))
      \<Longrightarrow> b viewer = Some (true_facts svc base viewer)"
    and chats: "set (chatIDs (needsForRules (rule_for (rules_by_owner svc owners keys) owner key))) \<subseteq> set cs"
      "\<And>c. c \<in> set cs \<Longrightarrow> c > 0"
    and members: "\<And>c. c \<in> set cs \<Longrightarrow> m (c, viewer) = Some (true_member svc member (c, viewer))"
  shows "CanSee now svc owner viewer key
    = Inr (evaluate_cell now (rules_by_owner svc owners keys) cs b m c owner viewer key)"
proof -
  have "evaluate_cell now (rules_by_owner svc owners keys) cs b m c owner viewer key
    = visible now svc base member (rule_for (rules_by_owner svc owners keys) owner key) owner viewer"
    unfolding evaluate_cell_def by (rule evaluate_visible [OF row]) (use facts chats members in \<open>auto simp: facts_of_def\<close>)
  then show ?thesis using CanSee_visible [OF ok prov ids GetRules_rule_for [OF ok mem]] by simp
qed

lemma CanSee_self: "owner \<noteq> 0 \<Longrightarrow> CanSee now svc owner owner key = Inr True"
  by (simp add: CanSee_def)

lemma rows_close:
  assumes "contacts_ok s" "u \<noteq> 0" "k \<noteq> 0" "k \<in> set (request u)"
    and "ContactProjectionForViewerUserIDs s request u k = Some x" "Contact_Get s u k = Some y"
  shows "ct_CloseFriend x = ct_CloseFriend y"
proof -
  have "y \<in> set (s u)" using assms(6) by (auto simp: Contact_Get_def find_Some_iff)
  then have "row_ok s u y" by (rule contacts_okD(2) [OF assms(1)])
  then show ?thesis using projected_close projection_Get [of s u k request] assms by auto
qed

lemma limits_of_batch:
  assumes prov: "providers_ok svc base member"
  obtains (limit) "chatIDs needs \<noteq> []" "card (set (chatIDs needs) - {0}) * card (set viewers - {0}) > MaxActiveChannelMemberPairs"
      "loadMembershipFacts svc (chatIDs needs) viewers = Inl ErrActiveChannelMemberPairsLimit"
  | (loaded) m where
      "(if chatIDs needs \<noteq> [] then loadMembershipFacts svc (chatIDs needs) viewers else Inr Map.empty) = Inr m"
      "\<And>c v. c \<in> set (chatIDs needs) \<Longrightarrow> v \<in> set viewers \<Longrightarrow> c \<noteq> 0 \<Longrightarrow> v \<noteq> 0
        \<Longrightarrow> m (c, v) = Some (true_member svc member (c, v))"
proof (cases "chatIDs needs = []")
  case True
  then show thesis by (intro loaded [of Map.empty]) auto
next
  case False
  show thesis
  proof (cases "card (set (chatIDs needs) - {0}) * card (set viewers - {0}) \<le> MaxActiveChannelMemberPairs")
    case True
    then obtain m where "loadMembershipFacts svc (chatIDs needs) viewers = Inr m"
      "\<And>c v. c \<in> set (chatIDs needs) \<Longrightarrow> v \<in> set viewers \<Longrightarrow> c \<noteq> 0 \<Longrightarrow> v \<noteq> 0
        \<Longrightarrow> m (c, v) = Some (true_member svc member (c, v))"
      using loadMembershipFacts_spec [OF prov] by blast
    then show thesis using False by (intro loaded [of m]) auto
  next
    case False
    then show thesis using \<open>chatIDs needs \<noteq> []\<close> loadMembershipFacts_limit [OF False] by (intro limit) auto
  qed
qed

lemma base_of_batch:
  assumes prov: "providers_ok svc base member"
  obtains b where "(if want then loadViewerFacts svc viewers else Inr Map.empty) = Inr b"
    "\<And>v. want \<Longrightarrow> v \<in> set viewers \<Longrightarrow> v \<noteq> 0 \<Longrightarrow> b v = Some (true_facts svc base v)"
proof (cases want)
  case True
  obtain b where "loadViewerFacts svc viewers = Inr b"
    "\<And>v. v \<in> set viewers \<Longrightarrow> v \<noteq> 0 \<Longrightarrow> b v = Some (true_facts svc base v)"
    using loadViewerFacts_facts [OF prov] by blast
  then show thesis using True by (intro that [of b]) auto
qed (intro that [of Map.empty], auto)

text \<open>The rows that a batch reads for a pair are the row a single question reads.\<close>

lemma matrix_rows:
  fixes viewers owners :: "int list"
  assumes ok: "service_ok svc" and ids: "owner \<noteq> 0" "viewer \<noteq> 0" "owner \<in> set owners" "viewer \<in> set viewers"
  defines "c \<equiv> (case ps_contacts svc of None \<Rightarrow> Map.empty
    | Some s \<Rightarrow> if ps_sparse svc then ContactProjectionForViewerUserIDs s (\<lambda>o'. if o' \<in> set owners then viewers else []) owner
        else GetMany s owner viewers) viewer"
  shows "(c \<noteq> None) = (contact_row svc owner viewer \<noteq> None)"
    and "\<And>x y. c = Some x \<Longrightarrow> contact_row svc owner viewer = Some y \<Longrightarrow> ct_CloseFriend x = ct_CloseFriend y"
proof -
  let ?req = "\<lambda>o'. if o' \<in> set owners then viewers else []"
  show "(c \<noteq> None) = (contact_row svc owner viewer \<noteq> None)"
    using ids service_okD(2) [OF ok] projection_Get [of _ owner viewer ?req] GetMany_Get [of _ owner viewer viewers]
    by (auto simp: c_def contact_row_def split: option.splits)
  show "ct_CloseFriend x = ct_CloseFriend y" if "c = Some x" "contact_row svc owner viewer = Some y" for x y
    using that ids service_okD(2) [OF ok] rows_close [of _ owner viewer ?req x y] GetMany_Get [of _ owner viewer viewers]
    by (auto simp: c_def contact_row_def split: option.splits if_splits)
qed

definition requested_chats :: "privacy_service \<Rightarrow> int list \<Rightarrow> privacy_key list \<Rightarrow> int set" where
  "requested_chats svc owners keys = {c. \<exists>ow\<in>set owners. ow \<noteq> 0 \<and> (\<exists>k\<in>set keys. \<exists>rules.
     GetRules svc ow k = Inr rules \<and> c \<in> set (chatIDs (needsForRules rules)))}"

lemma requested_chats_batch:
  assumes ok: "service_ok svc" and keys: "\<forall>k\<in>set keys. ValidKey k"
  shows "set (chatIDs (batch_needs (rules_by_owner svc (dedupNonZero owners) keys) (dedupNonZero owners) keys)) - {0}
    = requested_chats svc owners keys"
proof -
  let ?os = "dedupNonZero owners"
  let ?t = "rules_by_owner svc ?os keys"
  have get: "GetRules svc ow k = Inr (rule_for ?t ow k)" if "ow \<in> set ?os" "k \<in> set keys" for ow k
    using GetRules_rule_for [OF ok that] keys that(2) by blast
  show ?thesis
  proof (rule set_eqI)
    fix c
    have "c \<in> requested_chats svc owners keys \<longleftrightarrow>
      (\<exists>ow\<in>set ?os. \<exists>k\<in>set keys. c \<in> set (chatIDs (needsForRules (rule_for ?t ow k))))"
      unfolding requested_chats_def using get by fastforce
    then show "c \<in> set (chatIDs (batch_needs ?t ?os keys)) - {0} \<longleftrightarrow> c \<in> requested_chats svc owners keys"
      using batch_needs_pos [of c ?t ?os keys] by (auto simp: batch_needs_spec(2))
  qed
qed

lemma matrix_cell:
  assumes ok: "service_ok svc" and prov: "providers_ok svc base member" and keys: "\<forall>k\<in>set keys. ValidKey k"
    and b: "\<And>v. viewerBase (batch_needs (rules_by_owner svc owners keys) owners keys) \<Longrightarrow> v \<in> set viewers \<Longrightarrow> v \<noteq> 0
      \<Longrightarrow> b v = Some (true_facts svc base v)"
    and m: "\<And>c v. c \<in> set (chatIDs (batch_needs (rules_by_owner svc owners keys) owners keys)) \<Longrightarrow> v \<in> set viewers
      \<Longrightarrow> c \<noteq> 0 \<Longrightarrow> v \<noteq> 0 \<Longrightarrow> m (c, v) = Some (true_member svc member (c, v))"
    and ids: "owner \<in> set owners" "viewer \<in> set viewers" "key \<in> set keys" "owner \<noteq> 0" "viewer \<noteq> 0" "owner \<noteq> viewer"
    and row: "(c \<noteq> None) = (contact_row svc owner viewer \<noteq> None)"
      "\<And>x y. c = Some x \<Longrightarrow> contact_row svc owner viewer = Some y \<Longrightarrow> ct_CloseFriend x = ct_CloseFriend y"
  shows "CanSee now svc owner viewer key = Inr (evaluate_cell now (rules_by_owner svc owners keys)
    (chatIDs (batch_needs (rules_by_owner svc owners keys) owners keys)) b m c owner viewer key)"
proof (rule cell_CanSee [OF ok prov ids(4,5,6,1,3) _ row])
  let ?t = "rules_by_owner svc owners keys"
  show "ValidKey key" using keys ids(3) by blast
  show "b viewer = Some (true_facts svc base viewer)" if "viewerBase (needsForRules (rule_for ?t owner key))"
    using b ids that batch_needs_spec(1) by blast
  show "set (chatIDs (needsForRules (rule_for ?t owner key))) \<subseteq> set (chatIDs (batch_needs ?t owners keys))"
    using ids by (auto simp: batch_needs_spec(2))
  show "c > 0" if "c \<in> set (chatIDs (batch_needs ?t owners keys))" for c by (rule batch_needs_pos [OF that])
  show "m (c, viewer) = Some (true_member svc member (c, viewer))" if "c \<in> set (chatIDs (batch_needs ?t owners keys))" for c
    using m [OF that ids(2)] batch_needs_pos [OF that] ids(5) by simp
qed

text \<open>
  C11. The owners \<times> viewers \<times> keys matrix that \<open>CanSeeMatrix\<close> computes with shared loads has, for every
  requested owner, viewer and key, exactly the answer that \<open>CanSee\<close> gives to that question alone, and no other
  entries; it fails only for an unknown key, or when the chats that the owners' rules mention times
  the viewers exceed the store's pair limit.
\<close>

theorem privacy_matrix_equivalence:
  assumes "service_ok svc" "providers_ok svc base member"
  shows "case CanSeeMatrix now svc owners viewers keys of
      Inr out \<Rightarrow> \<forall>ow v k. map_option Inr (out ow v k)
        = (if ow \<in> set owners \<and> ow \<noteq> 0 \<and> v \<in> set viewers \<and> v \<noteq> 0 \<and> k \<in> set keys
           then Some (CanSee now svc ow v k) else None)
    | Inl err \<Rightarrow> err = ErrPrivacyKeyInvalid \<and> (\<exists>k\<in>set keys. \<not> ValidKey k)
        \<or> err = ErrActiveChannelMemberPairsLimit
          \<and> card (requested_chats svc owners keys) * card (set viewers - {0}) > MaxActiveChannelMemberPairs"
proof -
  let ?os = "dedupNonZero owners" and ?vs = "dedupNonZero viewers"
  let ?t = "rules_by_owner svc ?os keys"
  let ?n = "batch_needs ?t ?os keys"
  have none: ?thesis if "CanSeeMatrix now svc owners viewers keys = Inr (\<lambda>_ _ _. None)"
    "\<And>ow v k. \<not> (ow \<in> set owners \<and> ow \<noteq> 0 \<and> v \<in> set viewers \<and> v \<noteq> 0 \<and> k \<in> set keys)"
    using that by (simp only: sum.case option.map if_False simp_thms)
  consider (empty) "owners = [] \<or> viewers = [] \<or> keys = []"
    | (invalid) "owners \<noteq> []" "viewers \<noteq> []" "keys \<noteq> []" "list_ex (\<lambda>k. \<not> ValidKey k) keys"
    | (zero) "owners \<noteq> []" "viewers \<noteq> []" "keys \<noteq> []" "\<not> list_ex (\<lambda>k. \<not> ValidKey k) keys" "?os = [] \<or> ?vs = []"
    | (full) "owners \<noteq> []" "viewers \<noteq> []" "keys \<noteq> []" "\<not> list_ex (\<lambda>k. \<not> ValidKey k) keys" "\<not> (?os = [] \<or> ?vs = [])"
    by blast
  then show ?thesis
  proof cases
    case empty
    show ?thesis by (rule none) (use empty in \<open>auto simp: CanSeeMatrix_def\<close>)
  next
    case invalid
    then show ?thesis by (auto simp: CanSeeMatrix_def list_ex_iff)
  next
    case zero
    show ?thesis by (rule none) (use zero in \<open>auto simp: CanSeeMatrix_def dedupNonZero_empty_iff Let_def\<close>)
  next
    case full
    have keys: "\<forall>k\<in>set keys. ValidKey k" using full(4) by (simp add: list_ex_iff)
    obtain b where b: "(if viewerBase ?n then loadViewerFacts svc ?vs else Inr Map.empty) = Inr b"
      "\<And>v. viewerBase ?n \<Longrightarrow> v \<in> set ?vs \<Longrightarrow> v \<noteq> 0 \<Longrightarrow> b v = Some (true_facts svc base v)"
      using base_of_batch [OF assms(2)] by blast
    show ?thesis
    proof (rule limits_of_batch [OF assms(2), of ?n ?vs])
      assume limit: "chatIDs ?n \<noteq> []" "card (set (chatIDs ?n) - {0}) * card (set ?vs - {0}) > MaxActiveChannelMemberPairs"
        "loadMembershipFacts svc (chatIDs ?n) ?vs = Inl ErrActiveChannelMemberPairsLimit"
      have "card (requested_chats svc owners keys) * card (set viewers - {0}) > MaxActiveChannelMemberPairs"
        using limit(2) requested_chats_batch [OF assms(1) keys] by simp
      then show ?thesis using full b(1) limit(1,3) by (simp add: CanSeeMatrix_def Let_def)
    next
      fix m assume loaded:
        "(if chatIDs ?n \<noteq> [] then loadMembershipFacts svc (chatIDs ?n) ?vs else Inr Map.empty) = Inr m"
        "\<And>c v. c \<in> set (chatIDs ?n) \<Longrightarrow> v \<in> set ?vs \<Longrightarrow> c \<noteq> 0 \<Longrightarrow> v \<noteq> 0
          \<Longrightarrow> m (c, v) = Some (true_member svc member (c, v))"
      let ?row = "\<lambda>ow. (case ps_contacts svc of None \<Rightarrow> Map.empty
        | Some s \<Rightarrow> if ps_sparse svc then ContactProjectionForViewerUserIDs s (\<lambda>o'. if o' \<in> set ?os then ?vs else []) ow
            else GetMany s ow ?vs)"
      define out where "out = (\<lambda>ow v k. if ow \<in> set ?os \<and> v \<in> set ?vs \<and> k \<in> set keys
        then Some (ow = v \<or> evaluate_cell now ?t (chatIDs ?n) b m (?row ow v) ow v k) else None)"
      have eq: "CanSeeMatrix now svc owners viewers keys = Inr out"
        unfolding CanSeeMatrix_def Let_def out_def using full b(1) loaded(1) by (simp only: if_False sum.case simp_thms)
      have "Inr (ow = v \<or> evaluate_cell now ?t (chatIDs ?n) b m (?row ow v) ow v k) = CanSee now svc ow v k"
        if "ow \<in> set ?os" "v \<in> set ?vs" "k \<in> set keys" for ow v k
      proof (cases "ow = v")
        case False
        have nz: "ow \<noteq> 0" "v \<noteq> 0" using that by auto
        show ?thesis using False matrix_cell [OF assms keys b(2) loaded(2) that nz False matrix_rows [OF assms(1) nz that(1,2)]]
          by simp
      qed (use that CanSee_self [of v now svc k] in auto)
      then show ?thesis unfolding eq sum.case out_def by auto
    qed
  qed
qed

text \<open>The same for the batch of owners for one viewer; the viewer's own entries are true.\<close>

lemma batch_rows:
  assumes "owner \<noteq> 0" "viewer \<noteq> 0" "owner \<in> set owners"
  shows "(case ps_contacts svc of None \<Rightarrow> Map.empty | Some s \<Rightarrow> GetReverseContacts s viewer owners) owner
    = contact_row svc owner viewer"
  using assms reverse_Get [of viewer owner owners] by (auto simp: contact_row_def split: option.splits)

lemma CanSeeBatch_CanSee:
  assumes ok: "service_ok svc" and prov: "providers_ok svc base member"
    and res: "CanSeeBatch now svc owners viewer keys = Inr out"
    and ids: "ow \<in> set owners" "ow \<noteq> 0" "viewer \<noteq> 0" "k \<in> set keys"
  shows "map_option Inr (out ow k) = Some (CanSee now svc ow viewer k)"
proof -
  let ?os = "filter (\<lambda>i. i \<noteq> viewer) (dedupNonZero owners)"
  let ?t = "rules_by_owner svc ?os keys"
  let ?n = "batch_needs ?t ?os keys"
  let ?self = "\<lambda>owner k. if owner = viewer \<and> viewer \<in> set owners \<and> k \<in> set keys then Some True else None"
  have guards: "\<not> (viewer = 0 \<or> owners = [] \<or> keys = [])" using ids by auto
  have valid: "\<not> list_ex (\<lambda>k. \<not> ValidKey k) keys" using res guards by (auto simp: CanSeeBatch_def)
  then have keys: "\<forall>k\<in>set keys. ValidKey k" by (simp add: list_ex_iff)
  show ?thesis
  proof (cases "?os = []")
    case True
    then have "ow = viewer" using ids by (auto simp: filter_empty_conv)
    moreover have "out = ?self" using res guards valid True by (simp add: CanSeeBatch_def Let_def)
    ultimately show ?thesis using ids CanSee_self [of viewer] by simp
  next
    case False
    obtain b where b: "(if viewerBase ?n then loadViewerFacts svc [viewer] else Inr Map.empty) = Inr b"
      "\<And>v. viewerBase ?n \<Longrightarrow> v \<in> set [viewer] \<Longrightarrow> v \<noteq> 0 \<Longrightarrow> b v = Some (true_facts svc base v)"
      using base_of_batch [OF prov] by blast
    show ?thesis
    proof (rule limits_of_batch [OF prov, of ?n "[viewer]"])
      assume "chatIDs ?n \<noteq> []" "loadMembershipFacts svc (chatIDs ?n) [viewer] = Inl ErrActiveChannelMemberPairsLimit"
      then show ?thesis using res guards valid False b(1) by (simp add: CanSeeBatch_def Let_def)
    next
      fix m assume m: "(if chatIDs ?n \<noteq> [] then loadMembershipFacts svc (chatIDs ?n) [viewer] else Inr Map.empty) = Inr m"
        "\<And>c v. c \<in> set (chatIDs ?n) \<Longrightarrow> v \<in> set [viewer] \<Longrightarrow> c \<noteq> 0 \<Longrightarrow> v \<noteq> 0
          \<Longrightarrow> m (c, v) = Some (true_member svc member (c, v))"
      let ?row = "case ps_contacts svc of None \<Rightarrow> Map.empty | Some s \<Rightarrow> GetReverseContacts s viewer ?os"
      have out: "out = (\<lambda>owner k. if owner \<in> set ?os \<and> k \<in> set keys
          then Some (evaluate_cell now ?t (chatIDs ?n) b m (?row owner) owner viewer k) else ?self owner k)"
        using res guards valid False b(1) m(1) unfolding CanSeeBatch_def Let_def
        by (simp only: if_False sum.case simp_thms sum.inject)
      show ?thesis
      proof (cases "ow = viewer")
        case True
        then show ?thesis using out ids CanSee_self [of viewer] by simp
      next
        case False
        then have os: "ow \<in> set ?os" using ids by simp
        have "CanSee now svc ow viewer k = Inr (evaluate_cell now ?t (chatIDs ?n) b m (?row ow) ow viewer k)"
          using batch_rows [OF ids(2,3) os, of svc]
          by (intro matrix_cell [where viewers = "[viewer]", OF ok prov keys b(2) m(2) os _ ids(4,2,3) False]) auto
        then show ?thesis using out ids(4) os by simp
      qed
    qed
  qed
qed

lemma CanSeeBatch_only:
  assumes "CanSeeBatch now svc owners viewer keys = Inr out"
    and "\<not> (ow \<in> set owners \<and> ow \<noteq> 0 \<and> viewer \<noteq> 0 \<and> k \<in> set keys)"
  shows "out ow k = None"
  using assms by (auto simp: CanSeeBatch_def Let_def split: if_splits sum.splits)

text \<open>
  Batching owners for one viewer changes no answer: when \<open>CanSeeBatch\<close> returns, its entry for every requested
  owner and key is the answer of \<open>CanSee\<close>, and it has no other entries.
\<close>

theorem privacy_batch_equivalence:
  assumes "service_ok svc" "providers_ok svc base member" "CanSeeBatch now svc owners viewer keys = Inr out"
  shows "map_option Inr (out ow k)
    = (if ow \<in> set owners \<and> ow \<noteq> 0 \<and> viewer \<noteq> 0 \<and> k \<in> set keys then Some (CanSee now svc ow viewer k) else None)"
  using CanSeeBatch_CanSee [OF assms(1-3), of ow k] CanSeeBatch_only [OF assms(3), of ow k]
  by (cases "ow \<in> set owners \<and> ow \<noteq> 0 \<and> viewer \<noteq> 0 \<and> k \<in> set keys") (simp_all only: if_True if_False option.map simp_thms)

text \<open>A free contact is the owner, one of the owner's contacts, or allowed by the owner's rules.\<close>

lemma CanContactForFree_spec:
  assumes ok: "service_ok svc" and prov: "providers_ok svc base member"
    and res: "CanContactForFreeBatch now svc owners viewer = Inr out"
    and ids: "ow \<in> set owners" "ow \<noteq> 0" "viewer \<noteq> 0"
  shows "out ow = Some (ow = viewer \<or> contact_row svc ow viewer \<noteq> None
    \<or> CanSee now svc ow viewer PrivacyKeyNoPaidMessages = Inr True)"
proof -
  let ?os = "dedupNonZero owners" and ?k = PrivacyKeyNoPaidMessages
  have os: "ow \<in> set ?os" "?os \<noteq> []" using ids by (auto simp: dedupNonZero_empty_iff)
  obtain vis where vis: "CanSeeBatch now svc ?os viewer [?k] = Inr vis"
    using res ids os by (auto simp: CanContactForFreeBatch_def Let_def split: sum.splits)
  have "map_option Inr (vis ow ?k) = Some (CanSee now svc ow viewer ?k)"
    using CanSeeBatch_CanSee [OF ok prov vis] os ids by simp
  then have "vis ow ?k = Some True \<longleftrightarrow> CanSee now svc ow viewer ?k = Inr True" by auto
  then show ?thesis using res vis ids os batch_rows [OF ids(2,3) os(1), of svc]
    by (auto simp: CanContactForFreeBatch_def Let_def)
qed

section \<open>The sparse batch\<close>

lemma pairs_of_mem:
  "(ow, v) \<in> set (pairs_of request) \<longleftrightarrow> ow \<noteq> 0 \<and> v \<noteq> 0 \<and> (\<exists>os. (v, os) \<in> set request \<and> ow \<in> set os)"
proof (induction request)
  case (Cons p request)
  then show ?case by (cases p) (auto simp: pairs_of_def)
qed (simp add: pairs_of_def)

lemma viewers_of_mem: "v \<in> set (viewers_of pairs ow) \<longleftrightarrow> (ow, v) \<in> set pairs"
  by (force simp: viewers_of_def)

lemma count_pairs_bound:
  "count_pairs table keys pairs current owners = Some n \<Longrightarrow> current \<le> MaxActiveChannelMemberPairs \<Longrightarrow>
    n = current + length (sparse_keys table keys pairs owners) \<and> n \<le> MaxActiveChannelMemberPairs"
proof (induction owners arbitrary: current)
  case (Cons ow owners)
  let ?c = "length (chatIDs (batch_needs table [ow] keys))" and ?v = "length (viewers_of pairs ow)"
  have allowed: "activeChannelMembershipPairsAllowed current ?c ?v"
    and rest: "count_pairs table keys pairs (current + ?c * ?v) owners = Some n"
    using Cons.prems(1) by (auto simp: Let_def split: if_splits)
  have "current + ?c * ?v \<le> MaxActiveChannelMemberPairs" using allowed pairs_allowed_iff(2) [OF Cons.prems(2)] by blast
  from Cons.IH [OF rest this] show ?case by (simp add: sparse_keys_def length_product)
qed (simp add: sparse_keys_def)

lemma sparse_keys_mem:
  "c \<in> set (chatIDs (batch_needs table [ow] keys)) \<Longrightarrow> (ow, v) \<in> set pairs \<Longrightarrow> ow \<in> set owners
    \<Longrightarrow> (c, v) \<in> set (sparse_keys table keys pairs owners)"
  by (force simp: sparse_keys_def viewers_of_mem)

text \<open>What the caller promises of contact rows it passes in: the owner's rows for the viewers asked for.\<close>

definition rows_ok :: "privacy_service \<Rightarrow> (int \<times> int list) list \<Rightarrow> (int \<Rightarrow> int \<rightharpoonup> contact) option \<Rightarrow> bool" where
  "rows_ok svc request given \<longleftrightarrow> (\<forall>rows. given = Some rows \<longrightarrow>
     (\<forall>(ow, v)\<in>set (pairs_of request). rows ow v = contact_row svc ow v))"

definition sparse_rows :: "privacy_service \<Rightarrow> (int \<times> int list) list \<Rightarrow> (int \<Rightarrow> int \<rightharpoonup> contact) option
    \<Rightarrow> privacy_error + (int \<Rightarrow> int \<rightharpoonup> contact)" where
  "sparse_rows svc request given = (case given of Some rows \<Rightarrow> Inr rows
     | None \<Rightarrow> (case ps_contacts svc of None \<Rightarrow> Inr (\<lambda>_. Map.empty)
         | Some s \<Rightarrow> if \<not> ps_sparse svc then Inl ErrSparseUnsupported
             else Inr (ContactProjectionForViewerUserIDs s (viewers_of (pairs_of request)))))"

lemma sparse_rows_close:
  assumes ok: "service_ok svc" and given: "rows_ok svc request given" and rows: "sparse_rows svc request given = Inr rows"
    and mem: "(ow, v) \<in> set (pairs_of request)"
  shows "(rows ow v \<noteq> None) = (contact_row svc ow v \<noteq> None)"
    and "\<And>x y. rows ow v = Some x \<Longrightarrow> contact_row svc ow v = Some y \<Longrightarrow> ct_CloseFriend x = ct_CloseFriend y"
proof -
  have nz: "ow \<noteq> 0" "v \<noteq> 0" using mem by (auto simp: pairs_of_mem)
  have req: "v \<in> set (viewers_of (pairs_of request) ow)" using mem by (simp add: viewers_of_mem)
  consider "rows ow v = contact_row svc ow v"
    | s where "ps_contacts svc = Some s" "rows = ContactProjectionForViewerUserIDs s (viewers_of (pairs_of request))"
    using given rows mem by (auto simp: sparse_rows_def rows_ok_def contact_row_def split: option.splits if_splits)
  then have "((rows ow v \<noteq> None) = (contact_row svc ow v \<noteq> None)) \<and>
    (\<forall>x y. rows ow v = Some x \<longrightarrow> contact_row svc ow v = Some y \<longrightarrow> ct_CloseFriend x = ct_CloseFriend y)"
  proof cases
    case (2 s)
    note c = service_okD(2) [OF ok 2(1)]
    have get: "rows ow v = map_option projected (contact_row svc ow v)"
      using projection_Get [where request = "viewers_of (pairs_of request)", OF c nz req] 2 by (simp add: contact_row_def)
    have "ct_CloseFriend x = ct_CloseFriend y" if "rows ow v = Some x" "contact_row svc ow v = Some y" for x y
      using rows_close [where request = "viewers_of (pairs_of request)", OF c nz req, of x y] that 2
      by (simp add: contact_row_def)
    moreover have "(rows ow v \<noteq> None) = (contact_row svc ow v \<noteq> None)" unfolding get by simp
    ultimately show ?thesis by blast
  qed simp
  then show "(rows ow v \<noteq> None) = (contact_row svc ow v \<noteq> None)"
    and "\<And>x y. rows ow v = Some x \<Longrightarrow> contact_row svc ow v = Some y \<Longrightarrow> ct_CloseFriend x = ct_CloseFriend y" by blast+
qed

text \<open>
  The sparse batch of \<open>CanSeeForViewerUserIDs\<close>, which loads exactly the pairs asked for, gives for every
  requested pair and key the answer of \<open>CanSee\<close> and nothing else.
\<close>

theorem privacy_sparse_equivalence:
  assumes ok: "service_ok svc" and prov: "providers_ok svc base member" and given: "rows_ok svc request given"
    and res: "CanSeeForViewerUserIDs now svc request keys given = Inr out"
  shows "map_option Inr (out ow v k)
    = (if (ow, v) \<in> set (pairs_of request) \<and> k \<in> set keys then Some (CanSee now svc ow v k) else None)"
proof (cases "request = [] \<or> keys = [] \<or> pairs_of request = []")
  case True
  then have "out = (\<lambda>_ _ _. None)" using res by (auto simp: CanSeeForViewerUserIDs_def split: if_splits)
  moreover have "\<not> ((ow, v) \<in> set (pairs_of request) \<and> k \<in> set keys)" using True by (auto simp: pairs_of_def [of "[]"])
  ultimately show ?thesis by simp
next
  case False
  let ?ps = "pairs_of request"
  let ?os = "remdups (map fst ?ps)"
  let ?t = "rules_by_owner svc ?os keys"
  let ?n = "\<lambda>ow. batch_needs ?t [ow] keys"
  let ?want = "list_ex (\<lambda>ow. viewerBase (?n ow)) ?os"
  have guards: "\<not> (request = [] \<or> keys = [])" "pairs_of request \<noteq> []" using False by blast+
  have valid: "\<not> list_ex (\<lambda>k. \<not> ValidKey k) keys" using res False by (auto simp: CanSeeForViewerUserIDs_def)
  obtain rows where rows: "sparse_rows svc request given = Inr rows"
    using res False valid by (auto simp: CanSeeForViewerUserIDs_def sparse_rows_def Let_def split: option.splits if_splits)
  obtain b where b: "(if ?want then loadViewerFacts svc (remdups (map snd ?ps)) else Inr Map.empty) = Inr b"
    "\<And>v. ?want \<Longrightarrow> v \<in> set (remdups (map snd ?ps)) \<Longrightarrow> v \<noteq> 0 \<Longrightarrow> b v = Some (true_facts svc base v)"
    using base_of_batch [OF prov] by blast
  obtain n where n: "count_pairs ?t keys ?ps 0 ?os = Some n"
    using res False valid rows
    by (auto simp: CanSeeForViewerUserIDs_def sparse_rows_def Let_def split: option.splits if_splits)
  have small: "card {k \<in> set (sparse_keys ?t keys ?ps ?os). fst k \<noteq> 0 \<and> snd k \<noteq> 0} \<le> MaxActiveChannelMemberPairs"
    using count_pairs_bound [OF n] card_mono [of "set (sparse_keys ?t keys ?ps ?os)" "{k \<in> set (sparse_keys ?t keys ?ps ?os). fst k \<noteq> 0 \<and> snd k \<noteq> 0}"]
      card_length [of "sparse_keys ?t keys ?ps ?os"] by simp
  obtain m where m: "loadMembershipFactsForKeys svc (sparse_keys ?t keys ?ps ?os) = Inr m"
    "\<And>k. k \<in> set (sparse_keys ?t keys ?ps ?os) \<Longrightarrow> fst k \<noteq> 0 \<Longrightarrow> snd k \<noteq> 0 \<Longrightarrow> m k = Some (true_member svc member k)"
    using loadMembershipFactsForKeys_facts [OF prov small] by blast
  have out: "out = (\<lambda>ow v k. if (ow, v) \<in> set ?ps \<and> k \<in> set keys
      then Some (ow = v \<or> evaluate_cell now ?t (chatIDs (?n ow)) b m (rows ow v) ow v k) else None)"
    using res guards valid rows [unfolded sparse_rows_def] b(1) n m(1)
    unfolding CanSeeForViewerUserIDs_def Let_def
    by (simp only: if_False sum.case option.case simp_thms sum.inject)
  show ?thesis
  proof (cases "(ow, v) \<in> set ?ps \<and> k \<in> set keys \<and> ow \<noteq> v")
    case False
    then show ?thesis using CanSee_self [of v now svc k] by (auto simp: out pairs_of_mem)
  next
    case True
    then have mem: "(ow, v) \<in> set ?ps" "k \<in> set keys" "ow \<noteq> v" and nz: "ow \<noteq> 0" "v \<noteq> 0" by (auto simp: pairs_of_mem)
    have os: "ow \<in> set ?os" and vs: "v \<in> set (remdups (map snd ?ps))" using mem(1) by force+
    have "CanSee now svc ow v k = Inr (evaluate_cell now ?t (chatIDs (?n ow)) b m (rows ow v) ow v k)"
    proof (rule cell_CanSee [OF ok prov nz mem(3) os mem(2) _ sparse_rows_close [OF ok given rows mem(1)]])
      show "ValidKey k" using valid mem(2) by (simp add: list_ex_iff)
      show "b v = Some (true_facts svc base v)" if "viewerBase (needsForRules (rule_for ?t ow k))"
        using b(2) [OF _ vs nz(2)] that os mem(2) by (auto simp: list_ex_iff batch_needs_spec(1))
      show "set (chatIDs (needsForRules (rule_for ?t ow k))) \<subseteq> set (chatIDs (?n ow))"
        using mem(2) by (auto simp: batch_needs_spec(2))
      show "c > 0" if "c \<in> set (chatIDs (?n ow))" for c by (rule batch_needs_pos [OF that])
      show "m (c, v) = Some (true_member svc member (c, v))" if "c \<in> set (chatIDs (?n ow))" for c
        using m(2) [OF sparse_keys_mem [OF that mem(1) os]] batch_needs_pos [OF that] nz by simp
    qed
    then show ?thesis using mem by (simp add: out)
  qed
qed

section \<open>Precedence of the rules\<close>

definition effective_rules :: "privacy_rules \<Rightarrow> privacy_rule list" where
  "effective_rules rules = (if pr_Rules rules = [] then DefaultPrivacyRules (pr_Key rules) else pr_Rules rules)"

lemma contact_verdict_none: "\<not> ViewerIsContact ctx \<Longrightarrow> contact_verdict ctx rs = None"
  by (induction rs) (auto split: privacy_rule_kind.splits)

lemma contact_verdict_first:
  "ViewerIsContact ctx \<Longrightarrow> contact_verdict ctx rs = map_option (\<lambda>r. Kind r = PrivacyRuleAllowContacts)
    (find (\<lambda>r. Kind r \<in> {PrivacyRuleAllowContacts, PrivacyRuleDisallowContacts}) rs)"
  by (induction rs) (auto split: privacy_rule_kind.splits)

lemma base_verdict_first:
  "base_verdict rs = map_option (\<lambda>r. Kind r = PrivacyRuleAllowAll)
    (find (\<lambda>r. Kind r \<in> {PrivacyRuleAllowAll, PrivacyRuleDisallowAll}) rs)"
  by (induction rs) (auto split: privacy_rule_kind.splits)

text \<open>
  The order of precedence of privacy rules: the owner always sees the own data; otherwise a rule that
  names the viewer (or a shared chat, or bots) to be excluded wins over every rule that includes;
  then an including rule wins; then, for a contact, the first contacts rule; then the first
  everybody/nobody rule; and without any of these the answer is no.
\<close>

theorem privacy_precedence:
  "EvaluatePrivacy rules ctx =
    (pc_OwnerUserID ctx \<noteq> 0 \<and> pc_OwnerUserID ctx = pc_ViewerUserID ctx
     \<or> (\<forall>r\<in>set (effective_rules rules). \<not> explicitDisallowMatches r ctx)
       \<and> ((\<exists>r\<in>set (effective_rules rules). explicitAllowMatches r ctx)
          \<or> (case (if ViewerIsContact ctx
                then find (\<lambda>r. Kind r \<in> {PrivacyRuleAllowContacts, PrivacyRuleDisallowContacts}) (effective_rules rules)
                else None) of
               Some r \<Rightarrow> Kind r = PrivacyRuleAllowContacts
             | None \<Rightarrow> (case find (\<lambda>r. Kind r \<in> {PrivacyRuleAllowAll, PrivacyRuleDisallowAll}) (effective_rules rules) of
                 Some r \<Rightarrow> Kind r = PrivacyRuleAllowAll
               | None \<Rightarrow> False))))"
proof -
  have contact: "contact_verdict ctx rs = map_option (\<lambda>r. Kind r = PrivacyRuleAllowContacts) (if ViewerIsContact ctx
      then find (\<lambda>r. Kind r \<in> {PrivacyRuleAllowContacts, PrivacyRuleDisallowContacts}) rs else None)" for rs
    by (cases "ViewerIsContact ctx") (simp_all only: contact_verdict_first contact_verdict_none if_True if_False option.map simp_thms)
  show ?thesis unfolding EvaluatePrivacy_def Let_def effective_rules_def [symmetric] contact base_verdict_first list_ex_iff
    by (simp split: option.split)
qed

section \<open>Direct calls\<close>

text \<open>
  Two users may connect directly (and so learn each other's address) only if each has the other as a
  contact and each lets the other in by the \<open>phone_p2p\<close> rules.
\<close>

theorem p2p_needs_mutual_contacts:
  "P2PAllowedBetween now svc caller callee = Inr True \<longleftrightarrow>
    caller \<noteq> 0 \<and> callee \<noteq> 0 \<and> caller \<noteq> callee
    \<and> (\<exists>s. ps_contacts svc = Some s \<and> Contact_Get s caller callee \<noteq> None \<and> Contact_Get s callee caller \<noteq> None)
    \<and> CanSee now svc callee caller PrivacyKeyPhoneP2P = Inr True
    \<and> CanSee now svc caller callee PrivacyKeyPhoneP2P = Inr True"
  by (auto simp: P2PAllowedBetween_def reciprocalContact_def split: option.splits sum.splits if_splits)

section \<open>Writing rules\<close>

lemma default_rules_valid: "ValidKey key \<Longrightarrow> DefaultPrivacyRules key \<noteq> [] \<and> validateRules (DefaultPrivacyRules key) = None"
  by (cases key) (simp_all add: ValidKey_def validateRules_def simple_rule_def valid_kind_def maxPrivacyRules_def maxPrivacyRuleIDs_def)

lemma normalizedRules_ok:
  "normalizedRules owner key rs = Inr out \<Longrightarrow> pr_OwnerUserID out = owner \<and> pr_Key out = key \<and> ValidKey key
    \<and> pr_Rules out \<noteq> [] \<and> validateRules (pr_Rules out) = None"
  using default_rules_valid by (auto simp: normalizedRules_def Let_def split: if_splits option.splits)

lemma SetPrivacyRules_ok:
  assumes "rules_ok s" "ValidKey (pr_Key r)" "pr_Rules r \<noteq> []" "validateRules (pr_Rules r) = None"
  shows "rules_ok (SetPrivacyRules s r)"
proof -
  have "distinct (map fst (SetPrivacyRules s r))"
    using assms(1) by (simp add: SetPrivacyRules_def rules_ok_def distinct_update)
  moreover have "k = (pr_OwnerUserID x, pr_Key x) \<and> ValidKey (pr_Key x) \<and> pr_Rules x \<noteq> [] \<and> validateRules (pr_Rules x) = None"
    if "(k, x) \<in> set (SetPrivacyRules s r)" for k x
  proof -
    have "map_of (SetPrivacyRules s r) k = Some x" using calculation that by simp
    then have "(k = (pr_OwnerUserID r, pr_Key r) \<and> x = r) \<or> (k, x) \<in> set s"
      by (auto simp: SetPrivacyRules_def update_conv' dest: map_of_SomeD split: if_splits)
    then show ?thesis using assms rules_ok_rowD by blast
  qed
  ultimately show ?thesis by (auto simp: rules_ok_def)
qed

lemma SetRules_frame:
  "ps_contacts (fst (SetRules svc owner key rs)) = ps_contacts svc"
  "ps_rules (fst (SetRules svc owner key rs)) = None \<longleftrightarrow> ps_rules svc = None"
  by (auto simp: SetRules_def split: sum.splits option.splits)

lemma SetRules_service_ok:
  assumes "service_ok svc"
  shows "service_ok (fst (SetRules svc owner key rs))"
proof (cases "normalizedRules owner key rs")
  case (Inr out)
  note out = normalizedRules_ok [OF Inr]
  show ?thesis
  proof (cases "ps_rules svc")
    case (Some s)
    have "rules_ok (SetPrivacyRules s out)"
      using out service_okD(1) [OF assms Some] by (intro SetPrivacyRules_ok) auto
    then show ?thesis using Inr Some assms by (simp add: SetRules_def service_ok_def)
  qed (use Inr assms in \<open>simp add: SetRules_def\<close>)
qed (use assms in \<open>simp add: SetRules_def\<close>)

lemma AddAllowUser_service_ok:
  assumes "service_ok svc"
  shows "service_ok (fst (AddAllowUser svc owner key target))"
proof -
  have "fst (AddAllowUser svc owner key target) = svc
    \<or> (\<exists>rs. fst (AddAllowUser svc owner key target) = fst (SetRules svc owner key rs))"
    by (auto simp: AddAllowUser_def split: sum.splits option.splits prod.splits) (metis fst_conv)+
  then show ?thesis using assms SetRules_service_ok by metis
qed

datatype privacy_op = OpSetRules int privacy_key "privacy_rule list" | OpAddAllowUser int privacy_key int

fun privacy_exec :: "privacy_service \<Rightarrow> privacy_op \<Rightarrow> privacy_service" where
  "privacy_exec svc (OpSetRules owner key rs) = fst (SetRules svc owner key rs)"
| "privacy_exec svc (OpAddAllowUser owner key target) = fst (AddAllowUser svc owner key target)"

text \<open>
  C34. Whatever rules and users are written, valid or not, the store only ever holds rows under their own owner
  and a known key, with at least one rule, at most 100 rules of known kinds and at most 5000 positive ids.
\<close>

theorem privacy_store_typed:
  assumes "service_ok svc" "ps_rules (foldl privacy_exec svc ops) = Some s" "((owner, key), r) \<in> set s"
  shows "pr_OwnerUserID r = owner \<and> pr_Key r = key \<and> ValidKey key \<and> pr_Rules r \<noteq> [] \<and> validateRules (pr_Rules r) = None"
proof -
  have "service_ok (foldl privacy_exec svc ops)" using assms(1)
  proof (induction ops arbitrary: svc)
    case (Cons p ops)
    then show ?case by (cases p) (auto simp: SetRules_service_ok AddAllowUser_service_ok)
  qed simp
  then have "rules_ok s" using assms(2) by (rule service_okD(1))
  from rules_ok_rowD [OF this assms(3)] show ?thesis by auto
qed

definition valid_ids :: "privacy_rule \<Rightarrow> bool" where
  "valid_ids r \<longleftrightarrow> (\<forall>i\<in>set (UserIDs r) \<union> set (ChatIDs r). i > 0)"

lemma validate_loop_iff:
  "validate_loop n rs = (if (\<forall>r\<in>set rs. valid_kind (Kind r) \<and> valid_ids r)
      \<and> (rs = [] \<or> n + sum_list (map (\<lambda>r. length (UserIDs r) + length (ChatIDs r)) rs) \<le> maxPrivacyRuleIDs)
    then None else Some ErrPrivacyRuleInvalid)"
proof (induction rs arbitrary: n)
  case (Cons r rs)
  have ids: "\<not> list_ex (\<lambda>i. i \<le> 0) (UserIDs r) \<and> \<not> list_ex (\<lambda>i. i \<le> 0) (ChatIDs r) \<longleftrightarrow> valid_ids r"
    by (force simp: valid_ids_def list_ex_iff not_le)
  show ?case unfolding validate_loop.simps Cons.IH Let_def
    using ids by (cases "rs = []") auto
qed simp

text \<open>
  Writing rules is refused exactly for an unknown key, or for more than 100 rules, a rule of an unknown kind,
  a user or chat id that is not positive, or more than 5000 ids in total; a refused write changes
  nothing, an accepted one returns what it stored (the default rules for an empty list).
\<close>

theorem privacy_write_errors:
  "SetRules svc owner key rs =
    (let rs' = (if rs = [] then DefaultPrivacyRules key else rs);
         out = \<lparr>pr_OwnerUserID = owner, pr_Key = key, pr_Rules = rs'\<rparr> in
     if \<not> ValidKey key then (svc, Inl ErrPrivacyKeyInvalid)
     else if length rs > 100 \<or> (\<exists>r\<in>set rs. \<not> valid_kind (Kind r) \<or> \<not> valid_ids r)
       \<or> sum_list (map (\<lambda>r. length (UserIDs r) + length (ChatIDs r)) rs) > 5000
     then (svc, Inl ErrPrivacyRuleInvalid)
     else (svc\<lparr>ps_rules := map_option (\<lambda>s. SetPrivacyRules s out) (ps_rules svc)\<rparr>, Inr out))"
proof (cases "rs = []")
  case True
  then show ?thesis using default_rules_valid [of key]
    by (auto simp: SetRules_def normalizedRules_def Let_def split: option.splits)
next
  case False
  then show ?thesis
    by (auto simp: SetRules_def normalizedRules_def Let_def validateRules_def validate_loop_iff maxPrivacyRules_def maxPrivacyRuleIDs_def
      split: option.splits)
qed

lemma SetRules_GetRules:
  assumes "SetRules svc owner key rs = (svc', Inr out)" "ps_rules svc \<noteq> None"
  shows "GetRules svc' ow k = (if ow = owner \<and> k = key then Inr out else GetRules svc ow k)"
proof -
  obtain s where s: "ps_rules svc = Some s" using assms(2) by blast
  obtain n: "normalizedRules owner key rs = Inr out" and svc': "svc' = svc\<lparr>ps_rules := Some (SetPrivacyRules s out)\<rparr>"
    using assms(1) s by (auto simp: SetRules_def split: sum.splits)
  note out = normalizedRules_ok [OF n]
  have "GetPrivacyRules (SetPrivacyRules s out) ow k = (if ow = owner \<and> k = key then Some out else GetPrivacyRules s ow k)"
    using out by (auto simp: GetPrivacyRules_def SetPrivacyRules_def update_conv')
  then show ?thesis using out s by (auto simp: GetRules_def svc' split: option.splits)
qed

text \<open>
  Rules that were accepted are the rules that are read back, and the rules of every other owner and key
  are read as before.
\<close>

theorem privacy_write_read:
  assumes "SetRules svc owner key rs = (svc', Inr out)" "ps_rules svc \<noteq> None"
  shows "GetRules svc' ow k = (if ow = owner \<and> k = key then Inr out else GetRules svc ow k)"
  using assms by (rule SetRules_GetRules)

section \<open>Adding a user\<close>

lemma add_allow_user_cases:
  "case add_allow_user u rs of
     None \<Rightarrow> \<forall>r\<in>set rs. Kind r \<noteq> PrivacyRuleAllowUsers
   | Some (Inl _) \<Rightarrow> \<exists>r\<in>set rs. Kind r = PrivacyRuleAllowUsers \<and> u \<in> set (UserIDs r)
   | Some (Inr rs') \<Rightarrow> (\<exists>r\<in>set rs'. Kind r = PrivacyRuleAllowUsers \<and> u \<in> set (UserIDs r)) \<and> rs' \<noteq> []"
proof (induction rs)
  case (Cons r rs)
  then show ?case by (cases "Kind r = PrivacyRuleAllowUsers") (auto split: option.splits sum.splits)
qed simp

lemma SetRules_rules:
  "SetRules svc owner key rs = (svc', Inr out) \<Longrightarrow> rs \<noteq> [] \<Longrightarrow> pr_Rules out = rs"
  by (auto simp: SetRules_def normalizedRules_def Let_def split: if_splits option.splits sum.splits)

lemma AddAllowUser_read:
  assumes res: "AddAllowUser svc owner key target = (svc', Inr (out, changed))" and st: "ps_rules svc \<noteq> None"
  shows "GetRules svc' owner key = Inr out"
    and "\<exists>r\<in>set (pr_Rules out). Kind r = PrivacyRuleAllowUsers \<and> target \<in> set (UserIDs r)"
proof -
  obtain rules where get: "GetRules svc owner key = Inr rules"
    using res by (auto simp: AddAllowUser_def split: if_splits sum.splits)
  have "GetRules svc' owner key = Inr out
    \<and> (\<exists>r\<in>set (pr_Rules out). Kind r = PrivacyRuleAllowUsers \<and> target \<in> set (UserIDs r))"
  proof (cases "add_allow_user target (pr_Rules rules)")
    case None
    then have "SetRules svc owner key (\<lparr>Kind = PrivacyRuleAllowUsers, UserIDs = [target], ChatIDs = []\<rparr> # pr_Rules rules)
      = (svc', Inr out)"
      using res get by (auto simp: AddAllowUser_def split: if_splits sum.splits prod.splits)
    then show ?thesis using SetRules_GetRules SetRules_rules st by fastforce
  next
    case (Some a)
    show ?thesis
    proof (cases a)
      case (Inl u)
      then have "svc' = svc" "out = rules" using res get Some by (auto simp: AddAllowUser_def split: if_splits)
      then show ?thesis using get add_allow_user_cases [where u = target and rs = "pr_Rules rules"] Some Inl by simp
    next
      case (Inr rs)
      then have set: "SetRules svc owner key rs = (svc', Inr out)"
        using res get Some by (auto simp: AddAllowUser_def split: if_splits sum.splits prod.splits)
      then show ?thesis using SetRules_GetRules [OF set st] SetRules_rules [OF set]
        add_allow_user_cases [where u = target and rs = "pr_Rules rules"] Some Inr by auto
    qed
  qed
  then show "GetRules svc' owner key = Inr out"
    and "\<exists>r\<in>set (pr_Rules out). Kind r = PrivacyRuleAllowUsers \<and> target \<in> set (UserIDs r)" by blast+
qed

definition excluding :: "privacy_rule \<Rightarrow> int \<Rightarrow> bool" where
  "excluding r v \<longleftrightarrow> Kind r \<in> {PrivacyRuleDisallowChatParticipants, PrivacyRuleDisallowBots}
     \<or> Kind r = PrivacyRuleDisallowUsers \<and> v \<in> set (UserIDs r)"

lemma allowed_visible:
  assumes "\<exists>r\<in>set (pr_Rules rules). Kind r = PrivacyRuleAllowUsers \<and> pc_ViewerUserID ctx \<in> set (UserIDs r)"
    and "\<forall>r\<in>set (pr_Rules rules). \<not> excluding r (pc_ViewerUserID ctx)"
  shows "EvaluatePrivacy rules ctx"
proof -
  have "\<not> explicitDisallowMatches r ctx" if "r \<in> set (pr_Rules rules)" for r
    using assms(2) that by (cases "Kind r") (auto simp: excluding_def explicitDisallowMatches_def)
  moreover obtain r where "r \<in> set (pr_Rules rules)" "explicitAllowMatches r ctx"
    using assms(1) by (auto simp: explicitAllowMatches_def)
  ultimately show ?thesis by (auto simp: EvaluatePrivacy_def Let_def list_ex_iff)
qed

text \<open>
  A user added with \<open>AddAllowUser\<close> can see the information from then on, unless a rule excludes the
  user by id, by chat or as a bot.
\<close>

theorem privacy_add_user_effective:
  assumes "service_ok svc" "providers_ok svc' base member" "owner \<noteq> 0" "ps_rules svc \<noteq> None"
    and "AddAllowUser svc owner key target = (svc', Inr (out, changed))"
    and "\<forall>r\<in>set (pr_Rules out). \<not> excluding r target"
  shows "CanSee now svc' owner target key = Inr True"
proof -
  have target: "target \<noteq> 0" using assms(5) by (auto simp: AddAllowUser_def split: if_splits)
  have ok: "service_ok svc'" using AddAllowUser_service_ok [OF assms(1), of owner key target] assms(5) by simp
  note r = AddAllowUser_read [OF assms(5,4)]
  show ?thesis
  proof (cases "owner = target")
    case False
    have "visible now svc' base member out owner target"
      unfolding visible_def using r(2) assms(6) by (intro allowed_visible) simp_all
    then show ?thesis using CanSee_visible [OF ok assms(2,3) target False r(1)] by simp
  qed (use CanSee_self target in simp)
qed

lemma viewer_loader_zero: "viewer_loader svc ks = Inr m \<Longrightarrow> 0 \<in> set ks \<Longrightarrow> m 0 = Some zero_facts"
proof (cases "ps_baseUsers svc")
  case (Some users)
  assume load: "viewer_loader svc ks = Inr m" and zero: "0 \<in> set ks"
  have keep: "fold (\<lambda>u out. if bu_ID u = 0 then out else out(bu_ID u \<mapsto> f u)) us out 0 = out 0"
    for us :: "base_user list" and f :: "base_user \<Rightarrow> viewer_facts" and out
    by (induction us arbitrary: out) auto
  show "m 0 = Some zero_facts" using load zero Some keep by (auto simp: viewer_loader_def split: sum.splits)
qed (auto simp: viewer_loader_def)

section \<open>The cache in front of the users service\<close>

text \<open>
  Reading the bot and premium facts of viewers through the read-model cache gives what the users service
  says, whatever the cache already holds of it, and leaves the cache agreeing with the service.
\<close>

theorem privacy_facts_cached:
  assumes prov: "providers_ok svc base member" and cache: "cache_ok c" "agrees g c" "bt_open t = Map.empty"
    and g: "g = (\<lambda>i. if i = 0 then zero_facts else true_facts svc base i)" and ids: "set viewers - {0} \<noteq> {}"
  shows "\<exists>c' t' m. loadViewerFactsCached now svc (Some c, t) viewers = Some ((Some c', t'), Inr m)
    \<and> cache_ok c' \<and> agrees g c' \<and> bt_open t' = Map.empty
    \<and> (\<forall>v\<in>set viewers - {0}. \<exists>m'. loadViewerFacts svc viewers = Inr m' \<and> m v = m' v)"
proof -
  have load: "\<exists>m. viewer_loader svc ks = Inr m \<and> (\<forall>k\<in>set ks. m k = Some (g k))" for ks
  proof -
    obtain m where m: "viewer_loader svc ks = Inr m" "\<And>i. i \<in> set ks \<Longrightarrow> i \<noteq> 0 \<Longrightarrow> m i = Some (true_facts svc base i)"
      using viewer_loader_facts [OF prov] by blast
    have "m 0 = Some zero_facts" if "0 \<in> set ks" using m(1) that by (rule viewer_loader_zero)
    then show ?thesis using m g by auto
  qed
  have ne: "dedupNonZero viewers \<noteq> []" using ids by (auto simp: dedupNonZero_empty_iff)
  obtain c' t' out where loop: "batch_loop 1 0 (quiet_env now (\<lambda>_. (0, True)) (viewer_loader svc)) (dedupNonZero viewers) (c, t)
      = Some ((c', t'), Inr out)" "cache_ok c'" "agrees g c'" "bt_open t' = Map.empty"
    "out = (\<lambda>k. if k \<in> set (dedupNonZero viewers) then Some (g k) else None)"
    unfolding One_nat_def by (rule batch_loop_agrees [OF cache load])
  obtain m' where m': "loadViewerFacts svc viewers = Inr m'"
    "\<And>i. i \<in> set viewers \<Longrightarrow> i \<noteq> 0 \<Longrightarrow> m' i = Some (true_facts svc base i)"
    using loadViewerFacts_facts [OF prov] by blast
  have "loadViewerFactsCached now svc (Some c, t) viewers = Some ((Some c', t'), Inr out)"
    using ne loop(1) by (simp add: loadViewerFactsCached_def GetOrLoadBatch_def Let_def del: batch_loop.simps)
  moreover have "\<forall>v\<in>set viewers - {0}. \<exists>m'. loadViewerFacts svc viewers = Inr m' \<and> out v = m' v"
  proof
    fix v assume v: "v \<in> set viewers - {0}"
    then have "out v = m' v" using m'(2) [of v] by (simp add: loop(5) g)
    then show "\<exists>m'. loadViewerFacts svc viewers = Inr m' \<and> out v = m' v" using m'(1) by blast
  qed
  ultimately show ?thesis using loop(2-4) by blast
qed

section \<open>A small service\<close>

definition demo_users :: "base_user list" where
  "demo_users = [\<lparr>bu_ID = 2, bu_Bot = False, bu_PremiumUntil = 50\<rparr>, \<lparr>bu_ID = 3, bu_Bot = True, bu_PremiumUntil = 0\<rparr>]"

definition demo_member :: "int \<Rightarrow> int \<Rightarrow> bool" where
  "demo_member c u \<longleftrightarrow> c = 100 \<and> u = 3"

definition demo_rules :: "privacy_rule list" where
  "demo_rules = [simple_rule PrivacyRuleAllowPremium,
     \<lparr>Kind = PrivacyRuleAllowChatParticipants, UserIDs = [], ChatIDs = [100]\<rparr>, simple_rule PrivacyRuleDisallowAll]"

definition demo_contacts :: contact_store where
  "demo_contacts = fst (Upsert (fst (Upsert NewContactStore 1
     \<lparr>ci_ContactUserID = 2, ci_Phone = [], ci_FirstName = [], ci_LastName = [], ci_Note = []\<rparr>)) 2
     \<lparr>ci_ContactUserID = 1, ci_Phone = [], ci_FirstName = [], ci_LastName = [], ci_Note = []\<rparr>)"

definition empty_service :: privacy_service where
  "empty_service = \<lparr>ps_rules = Some NewPrivacyStore, ps_contacts = Some demo_contacts, ps_sparse = True,
     ps_baseUsers = Some (\<lambda>ids. Inr (filter (\<lambda>u. bu_ID u \<in> set ids) demo_users)),
     ps_memberships = Some (\<lambda>request. Inr (map (\<lambda>(c, us). (c, filter (demo_member c) us)) request))\<rparr>"

definition demo_service :: privacy_service where
  "demo_service = fst (SetRules empty_service 1 PrivacyKeyPhoneCall demo_rules)"

definition demo_base :: "int \<rightharpoonup> base_user" where
  "demo_base i = find (\<lambda>u. bu_ID u = i) demo_users"

lemma empty_service_ok: "service_ok empty_service"
proof -
  have "contacts_ok demo_contacts"
    unfolding demo_contacts_def by (intro Upsert_ok new_contacts_ok)
  then show ?thesis by (simp add: service_ok_def empty_service_def rules_ok_def NewPrivacyStore_def)
qed

lemma demo_service_ok: "service_ok demo_service"
  unfolding demo_service_def by (rule SetRules_service_ok [OF empty_service_ok])

lemma demo_service_eq:
  "demo_service = empty_service\<lparr>ps_rules := Some [((1, PrivacyKeyPhoneCall),
     \<lparr>pr_OwnerUserID = 1, pr_Key = PrivacyKeyPhoneCall, pr_Rules = demo_rules\<rparr>)]\<rparr>"
  by (simp add: demo_service_def SetRules_def normalizedRules_def validateRules_def demo_rules_def ValidKey_def
    simple_rule_def valid_kind_def maxPrivacyRules_def maxPrivacyRuleIDs_def empty_service_def NewPrivacyStore_def SetPrivacyRules_def)

lemma demo_users_ok:
  "u \<in> set (filter (\<lambda>u. bu_ID u \<in> set ids) demo_users) \<longleftrightarrow> bu_ID u \<in> set ids \<and> demo_base (bu_ID u) = Some u"
  by (auto simp: demo_users_def demo_base_def)

lemma providers_intro:
  assumes "ps_baseUsers svc = ps_baseUsers empty_service" "ps_memberships svc = ps_memberships empty_service"
  shows "providers_ok svc demo_base demo_member"
proof -
  have "(\<exists>us. (c, us) \<in> set (map (\<lambda>(c, us). (c, filter (demo_member c) us)) request) \<and> u \<in> set us)
    \<longleftrightarrow> (\<exists>us. (c, us) \<in> set request \<and> u \<in> set us) \<and> demo_member c u" for c u request
    by force
  then show ?thesis unfolding providers_ok_def assms
    by (simp add: empty_service_def demo_users_ok del: set_map set_filter)
qed

lemma demo_providers: "providers_ok empty_service demo_base demo_member" "providers_ok demo_service demo_base demo_member"
  by (rule providers_intro; simp add: demo_service_eq)+

lemma demo_get:
  "GetRules demo_service 1 PrivacyKeyPhoneCall = Inr \<lparr>pr_OwnerUserID = 1, pr_Key = PrivacyKeyPhoneCall, pr_Rules = demo_rules\<rparr>"
  by (simp add: GetRules_def ValidKey_def demo_service_eq GetPrivacyRules_def demo_rules_def)

lemma demo_visible:
  "visible 0 demo_service demo_base demo_member \<lparr>pr_OwnerUserID = 1, pr_Key = PrivacyKeyPhoneCall, pr_Rules = demo_rules\<rparr> 1 2"
  by (simp add: visible_def EvaluatePrivacy_def demo_rules_def simple_rule_def explicitDisallowMatches_def
    explicitAllowMatches_def applyViewerFacts_bits true_facts_def demo_service_eq empty_service_def demo_base_def
    demo_users_def user_facts_def)

theorem privacy_matrix_equivalence_witness:
  "service_ok demo_service \<and> providers_ok demo_service demo_base demo_member \<and>
   (\<exists>out. CanSeeMatrix 0 demo_service [1, 0] [2, 3, 1, 2] [PrivacyKeyPhoneCall] = Inr out
     \<and> out 1 2 PrivacyKeyPhoneCall = Some True \<and> out 0 2 PrivacyKeyPhoneCall = None)"
proof -
  let ?k = PrivacyKeyPhoneCall
  note t = privacy_matrix_equivalence [OF demo_service_ok demo_providers(2), where now = 0 and owners = "[1, 0]" and viewers = "[2, 3, 1, 2]" and keys = "[?k]"]
  have chats: "requested_chats demo_service [1, 0] [?k] = {100}"
    unfolding requested_chats_def using demo_get
    by (auto simp: needsForRules_spec demo_rules_def chat_kind_def simple_rule_def)
  have see: "CanSee 0 demo_service 1 2 ?k = Inr True"
    by (simp add: CanSee_visible [OF demo_service_ok demo_providers(2) _ _ _ demo_get] demo_visible)
  obtain out where out: "CanSeeMatrix 0 demo_service [1, 0] [2, 3, 1, 2] [?k] = Inr out"
  proof (cases "CanSeeMatrix 0 demo_service [1, 0] [2, 3, 1, 2] [?k]")
    case (Inl err)
    then show thesis using t chats by (simp add: ValidKey_def MaxActiveChannelMemberPairs_def card_insert_if)
  qed (rule that)
  have cells: "map_option Inr (out ow v k) = (if ow \<in> set [1, 0] \<and> ow \<noteq> 0 \<and> v \<in> set [2, 3, 1, 2] \<and> v \<noteq> 0 \<and> k \<in> set [?k]
      then Some (CanSee 0 demo_service ow v k) else None)" for ow v k
    using t unfolding out by simp
  have "out 1 2 ?k = Some True" "out 0 2 ?k = None" using cells [of 1 2 ?k] cells [of 0 2 ?k] see by auto
  then show ?thesis using demo_service_ok demo_providers(2) out by blast
qed

lemma empty_batch:
  "\<exists>out. CanSeeBatch 0 empty_service [1, 2, 3] 2 [PrivacyKeyPhoneCall] = Inr out"
  by (simp add: CanSeeBatch_def ValidKey_def dedupNonZero_def add_unseen_def batch_needs_def rules_by_owner_def
    ListPrivacyRules_def rule_for_def defaultRules_def simple_rule_def needsForRules_def rule_needs_def no_needs_def mergeNeeds_def empty_service_def NewPrivacyStore_def)

theorem privacy_batch_equivalence_witness:
  "\<exists>out. CanSeeBatch 0 empty_service [1, 2, 3] 2 [PrivacyKeyPhoneCall] = Inr out
    \<and> map_option Inr (out 3 PrivacyKeyPhoneCall) = Some (CanSee 0 empty_service 3 2 PrivacyKeyPhoneCall)"
proof -
  obtain out where out: "CanSeeBatch 0 empty_service [1, 2, 3] 2 [PrivacyKeyPhoneCall] = Inr out" using empty_batch by blast
  from privacy_batch_equivalence [OF empty_service_ok demo_providers(1) out, of 3 PrivacyKeyPhoneCall] out
  show ?thesis by auto
qed

lemma empty_sparse:
  "\<exists>out. CanSeeForViewerUserIDs 0 empty_service [(2, [1, 3]), (3, [1])] [PrivacyKeyPhoneCall] None = Inr out"
  by (simp add: CanSeeForViewerUserIDs_def Let_def ValidKey_def pairs_of_def viewers_of_def sparse_keys_def activeChannelMembershipPairsAllowed_def
    loadMembershipFactsForKeys_def dedup_membership_def
    dedupNonZero_def add_unseen_def batch_needs_def rules_by_owner_def
    ListPrivacyRules_def rule_for_def defaultRules_def simple_rule_def needsForRules_def rule_needs_def no_needs_def mergeNeeds_def empty_service_def NewPrivacyStore_def)

theorem privacy_sparse_equivalence_witness:
  "\<exists>out. CanSeeForViewerUserIDs 0 empty_service [(2, [1, 3]), (3, [1])] [PrivacyKeyPhoneCall] None = Inr out
    \<and> map_option Inr (out 1 3 PrivacyKeyPhoneCall) = Some (CanSee 0 empty_service 1 3 PrivacyKeyPhoneCall)
    \<and> out 3 1 PrivacyKeyPhoneCall = None"
proof -
  let ?r = "[(2, [1, 3]), (3, [1])] :: (int \<times> int list) list" and ?k = PrivacyKeyPhoneCall
  obtain out where out: "CanSeeForViewerUserIDs 0 empty_service ?r [?k] None = Inr out" using empty_sparse by blast
  have rows: "rows_ok empty_service ?r None" by (simp add: rows_ok_def)
  note t = privacy_sparse_equivalence [OF empty_service_ok demo_providers(1) rows out]
  have "map_option Inr (out 1 3 ?k) = Some (CanSee 0 empty_service 1 3 ?k)" "out 3 1 ?k = None"
    using t [of 1 3 ?k] t [of 3 1 ?k] by (auto simp: pairs_of_mem)
  then show ?thesis using out by blast
qed

theorem privacy_store_typed_witness:
  "validateRules demo_rules = None \<and> demo_rules \<noteq> []"
proof -
  let ?ops = "[OpSetRules 1 PrivacyKeyPhoneCall demo_rules]"
  have "ps_rules (foldl privacy_exec empty_service ?ops) = Some [((1, PrivacyKeyPhoneCall),
     \<lparr>pr_OwnerUserID = 1, pr_Key = PrivacyKeyPhoneCall, pr_Rules = demo_rules\<rparr>)]"
    using demo_service_eq by (simp add: demo_service_def)
  from privacy_store_typed [OF empty_service_ok this, of 1 PrivacyKeyPhoneCall] show ?thesis by auto
qed

lemma demo_set: "SetRules empty_service 1 PrivacyKeyPhoneCall demo_rules
  = (demo_service, Inr \<lparr>pr_OwnerUserID = 1, pr_Key = PrivacyKeyPhoneCall, pr_Rules = demo_rules\<rparr>)"
  by (simp add: demo_service_def SetRules_def normalizedRules_def validateRules_def demo_rules_def ValidKey_def
    simple_rule_def valid_kind_def maxPrivacyRules_def maxPrivacyRuleIDs_def empty_service_def)

theorem privacy_write_read_witness:
  "GetRules demo_service 1 PrivacyKeyPhoneCall = Inr \<lparr>pr_OwnerUserID = 1, pr_Key = PrivacyKeyPhoneCall, pr_Rules = demo_rules\<rparr>
    \<and> GetRules demo_service 1 PrivacyKeyAbout = GetRules empty_service 1 PrivacyKeyAbout"
  using privacy_write_read [OF demo_set] by (simp add: empty_service_def)

theorem privacy_add_user_effective_witness:
  "\<exists>svc out. AddAllowUser empty_service 1 PrivacyKeyPhoneNumber 4 = (svc, Inr (out, True))
    \<and> CanSee 0 svc 1 4 PrivacyKeyPhoneNumber = Inr True"
proof -
  let ?k = PrivacyKeyPhoneNumber
  let ?rs = "[\<lparr>Kind = PrivacyRuleAllowUsers, UserIDs = [4], ChatIDs = []\<rparr>, simple_rule PrivacyRuleDisallowAll]"
  let ?out = "\<lparr>pr_OwnerUserID = 1, pr_Key = ?k, pr_Rules = ?rs\<rparr>"
  let ?svc = "empty_service\<lparr>ps_rules := Some [((1, ?k), ?out)]\<rparr>"
  have add: "AddAllowUser empty_service 1 ?k 4 = (?svc, Inr (?out, True))"
    by (simp add: AddAllowUser_def GetRules_def ValidKey_def empty_service_def NewPrivacyStore_def GetPrivacyRules_def
      defaultRules_def simple_rule_def SetRules_def normalizedRules_def validateRules_def maxPrivacyRules_def
      maxPrivacyRuleIDs_def valid_kind_def SetPrivacyRules_def)
  have prov: "providers_ok ?svc demo_base demo_member" by (rule providers_intro) simp_all
  have "CanSee 0 ?svc 1 4 ?k = Inr True"
    by (rule privacy_add_user_effective [OF empty_service_ok prov _ _ add])
      (simp_all add: empty_service_def excluding_def simple_rule_def)
  then show ?thesis using add by blast
qed

theorem privacy_facts_cached_witness:
  "\<exists>c' t' m. loadViewerFactsCached 0 demo_service
      (Some \<lparr>ll = [], items = Map.empty, cap = 8192, maxWeight = 0, weight = 0, ttl = 600, epoch = 0, weigh = None, calls = []\<rparr>,
       \<lparr>bt_open = Map.empty, bt_done = Map.empty, bt_next = 0\<rparr>) [2, 0, 3] = Some ((Some c', t'), Inr m)
    \<and> m 3 = Some \<lparr>vf_Found = True, vf_Bot = True, vf_PremiumUntil = 0\<rparr>"
proof -
  let ?c = "\<lparr>ll = [], items = Map.empty, cap = 8192, maxWeight = 0, weight = 0, ttl = 600, epoch = 0, weigh = None, calls = []\<rparr>
    :: (int, viewer_facts) cache"
  let ?t = "\<lparr>bt_open = Map.empty, bt_done = Map.empty, bt_next = 0\<rparr> :: (int, viewer_facts, privacy_error) batch_table"
  let ?g = "\<lambda>i. if i = 0 then zero_facts else true_facts demo_service demo_base i"
  have c: "cache_ok ?c" by (simp add: cache_ok_def linked_def overflowing_def entry_weights_def)
  have a: "agrees ?g ?c" by (simp add: agrees_def)
  obtain c' t' m where r: "loadViewerFactsCached 0 demo_service (Some ?c, ?t) [2, 0, 3] = Some ((Some c', t'), Inr m)"
    and m: "\<forall>v\<in>set [2, 0, 3] - {0}. \<exists>m'. loadViewerFacts demo_service [2, 0, 3] = Inr m' \<and> m v = m' v"
    using privacy_facts_cached [OF demo_providers(2) c a _ refl, of ?t "[2, 0, 3]" 0] by auto
  have "loadViewerFacts demo_service [2, 0, 3] = Inr m' \<Longrightarrow> m' 3 = Some \<lparr>vf_Found = True, vf_Bot = True, vf_PremiumUntil = 0\<rparr>" for m'
    by (auto simp: loadViewerFacts_def dedupNonZero_def add_unseen_def viewer_loader_def demo_service_eq empty_service_def demo_users_def)
  moreover obtain m' where "loadViewerFacts demo_service [2, 0, 3] = Inr m'" "m 3 = m' 3" using bspec [OF m, of 3] by auto
  ultimately show ?thesis using r by metis
qed

theorem privacy_precedence_witness:
  "EvaluatePrivacy \<lparr>pr_OwnerUserID = 1, pr_Key = PrivacyKeyAbout,
      pr_Rules = [simple_rule PrivacyRuleAllowAll, \<lparr>Kind = PrivacyRuleAllowUsers, UserIDs = [2, 4], ChatIDs = []\<rparr>,
        \<lparr>Kind = PrivacyRuleDisallowUsers, UserIDs = [2], ChatIDs = []\<rparr>]\<rparr> (pair_context 1 4 None)
   \<and> \<not> EvaluatePrivacy \<lparr>pr_OwnerUserID = 1, pr_Key = PrivacyKeyAbout,
      pr_Rules = [simple_rule PrivacyRuleAllowAll, \<lparr>Kind = PrivacyRuleAllowUsers, UserIDs = [2, 4], ChatIDs = []\<rparr>,
        \<lparr>Kind = PrivacyRuleDisallowUsers, UserIDs = [2], ChatIDs = []\<rparr>]\<rparr> (pair_context 1 2 None)"
  unfolding privacy_precedence
  by (simp add: effective_rules_def explicitDisallowMatches_def explicitAllowMatches_def simple_rule_def)

theorem privacy_write_errors_witness:
  "SetRules empty_service 1 PrivacyKeyAbout [\<lparr>Kind = PrivacyRuleAllowUsers, UserIDs = [-2], ChatIDs = []\<rparr>]
      = (empty_service, Inl ErrPrivacyRuleInvalid)
   \<and> SetRules empty_service 1 (OtherPrivacyKey ''x'') [] = (empty_service, Inl ErrPrivacyKeyInvalid)
   \<and> snd (SetRules empty_service 1 PrivacyKeyAbout [])
      = Inr \<lparr>pr_OwnerUserID = 1, pr_Key = PrivacyKeyAbout, pr_Rules = [simple_rule PrivacyRuleAllowAll]\<rparr>"
  unfolding privacy_write_errors by (simp add: ValidKey_def valid_ids_def valid_kind_def Let_def)

end
