(* ===== verification/Privacy_Cache.thy ===== *)
theory Privacy_Cache
  imports Privacy_Theorems
begin

text \<open>
  The cached rule store (src/internal/app/privacy/cache.go): all rules of an owner are one entry of a
  read-model cache in front of the store. The interface that the privacy service relies on is the
  locale \<open>rules_source\<close>; the plain store and the cached one both provide it, so a reader cannot
  tell them apart. Calls are taken one at a time here; what overlapping loads and invalidations do to
  a cache is the subject of the theory of the cache.
\<close>

section \<open>The store behind a cache\<close>

definition allPrivacyRuleKeys :: "privacy_key list" where
  "allPrivacyRuleKeys =
    [PrivacyKeyStatusTimestamp, PrivacyKeyChatInvite, PrivacyKeyPhoneCall, PrivacyKeyPhoneP2P, PrivacyKeyForwards,
     PrivacyKeyProfilePhoto, PrivacyKeyPhoneNumber, PrivacyKeyAddedByPhone, PrivacyKeyVoiceMessages, PrivacyKeyAbout,
     PrivacyKeyBirthday, PrivacyKeyStarGiftsAutoSave, PrivacyKeyNoPaidMessages, PrivacyKeySavedMusic]"

text \<open>The rules of one owner, in the order in which a loop over the map meets them.\<close>

type_synonym privacy_rules_map = "(privacy_key \<times> privacy_rules) list"

record cached_store =
  cs_inner :: privacy_store
  cs_cache :: "(int, privacy_rules_map) cache"
  cs_table :: "(int, privacy_rules_map, privacy_error) batch_table"

definition DefaultPrivacyRulesCacheTTL :: int where
  "DefaultPrivacyRulesCacheTTL = 24 * 60 * 60 * 1000000000"

definition privacySnapshotMaxOwners :: int where
  "privacySnapshotMaxOwners = 8192"

definition buildPrivacyRulesByOwner :: "privacy_rules list \<Rightarrow> int list \<Rightarrow> (int \<rightharpoonup> privacy_rules_map)" where
  "buildPrivacyRulesByOwner rows owners =
    fold (\<lambda>item out. if pr_OwnerUserID item = 0 \<or> pr_Key item = OtherPrivacyKey '''' then out
        else out(pr_OwnerUserID item \<mapsto> AList.update (pr_Key item) item
          (case out (pr_OwnerUserID item) of None \<Rightarrow> [] | Some m \<Rightarrow> m)))
      rows (\<lambda>ow. if ow \<in> set owners then Some [] else None)"

definition dedupPrivacyOwnerIDs :: "int list \<Rightarrow> int list" where
  "dedupPrivacyOwnerIDs ids = add_unseen (filter (\<lambda>i. i \<noteq> 0) ids) []"

definition rules_of :: "(int \<rightharpoonup> privacy_rules_map) \<Rightarrow> int \<Rightarrow> privacy_rules_map" where
  "rules_of m owner = (case m owner of None \<Rightarrow> [] | Some rs \<Rightarrow> rs)"

text \<open>The closures \<open>load\<close> and \<open>loadMissing\<close>.\<close>

definition owner_loader :: "privacy_store \<Rightarrow> int \<Rightarrow> privacy_rules_map" where
  "owner_loader inner owner =
    rules_of (buildPrivacyRulesByOwner (ListPrivacyRules inner [owner] allPrivacyRuleKeys) [owner]) owner"

definition owners_loader :: "privacy_store \<Rightarrow> int list \<Rightarrow> privacy_error + (int \<rightharpoonup> privacy_rules_map)" where
  "owners_loader inner missing = Inr (buildPrivacyRulesByOwner (ListPrivacyRules inner missing allPrivacyRuleKeys) missing)"

definition quiet_load :: "int \<Rightarrow> 'v \<Rightarrow> ('k, 'v, 'e) load_env" where
  "quiet_load now v = \<lparr>clock = (\<lambda>_ _. now), meddle = (\<lambda>_ _ c. c), loader = (\<lambda>_. Inr v), shared = (\<lambda>_. None),
     ctx_err = (\<lambda>_. None)\<rparr>"

definition ownerRules :: "int \<Rightarrow> cached_store \<Rightarrow> int \<Rightarrow> (cached_store \<times> privacy_rules_map) option" where
  "ownerRules now cs owner =
    (case GetOrLoad 1 (quiet_load now (owner_loader (cs_inner cs) owner) :: (int, privacy_rules_map, privacy_error) load_env)
        owner (Some (cs_cache cs)) of
       Some (Some c, Inr rs) \<Rightarrow> Some (cs\<lparr>cs_cache := c\<rparr>, rs)
     | _ \<Rightarrow> None)"

definition ownerRulesBatch :: "int \<Rightarrow> cached_store \<Rightarrow> int list \<Rightarrow> (cached_store \<times> (int \<rightharpoonup> privacy_rules_map)) option" where
  "ownerRulesBatch now cs owners =
    (case GetOrLoadBatch 1 (quiet_env now (\<lambda>_. (0, True)) (owners_loader (cs_inner cs))) owners
        (Some (cs_cache cs), cs_table cs) of
       Some ((Some c, t), Inr m) \<Rightarrow> Some (cs\<lparr>cs_cache := c, cs_table := t\<rparr>, m)
     | _ \<Rightarrow> None)"

definition Cached_GetPrivacyRules ::
  "int \<Rightarrow> cached_store \<Rightarrow> int \<Rightarrow> privacy_key \<Rightarrow> (cached_store \<times> privacy_rules option) option" where
  "Cached_GetPrivacyRules now cs owner key =
    (if owner = 0 then Some (cs, None)
     else map_option (\<lambda>(cs, rs). (cs, map_of rs key)) (ownerRules now cs owner))"

definition InvalidateOwners :: "int list \<Rightarrow> cached_store \<Rightarrow> cached_store" where
  "InvalidateOwners ids cs =
    (if ids = [] then cs else cs\<lparr>cs_cache := Invalidate (filter (\<lambda>i. i \<noteq> 0) ids) (cs_cache cs)\<rparr>)"

definition WarmOwners :: "int \<Rightarrow> int list \<Rightarrow> cached_store \<Rightarrow> cached_store" where
  "WarmOwners now ids cs =
    (let owners = dedupPrivacyOwnerIDs ids in
     if owners = [] then cs
     else
       let loadEpoch = LoadEpoch (Some (cs_cache cs));
           snapshots = buildPrivacyRulesByOwner (ListPrivacyRules (cs_inner cs) owners allPrivacyRuleKeys) owners
       in cs\<lparr>cs_cache := fold (\<lambda>owner c. StoreIfEpoch now owner (rules_of snapshots owner) loadEpoch c)
            owners (cs_cache cs)\<rparr>)"

definition Cached_SetPrivacyRules :: "int \<Rightarrow> cached_store \<Rightarrow> privacy_rules \<Rightarrow> cached_store" where
  "Cached_SetPrivacyRules now cs rules =
    WarmOwners now [pr_OwnerUserID rules]
      (InvalidateOwners [pr_OwnerUserID rules] (cs\<lparr>cs_inner := SetPrivacyRules (cs_inner cs) rules\<rparr>))"

definition Cached_ListPrivacyRules ::
  "int \<Rightarrow> cached_store \<Rightarrow> int list \<Rightarrow> privacy_key list \<Rightarrow> (cached_store \<times> privacy_rules list) option" where
  "Cached_ListPrivacyRules now cs ownerIDs keys =
    (let owners = dedupPrivacyOwnerIDs ownerIDs in
     if owners = [] \<or> keys = [] then Some (cs, [])
     else map_option (\<lambda>(cs, byOwner). (cs,
        concat (map (\<lambda>owner. map snd (filter (\<lambda>(key, r). key \<in> set keys) (rules_of byOwner owner))) owners)))
       (ownerRulesBatch now cs owners))"

definition FlushReadModelCache :: "cached_store \<Rightarrow> cached_store" where
  "FlushReadModelCache cs = cs\<lparr>cs_cache := Flush (cs_cache cs)\<rparr>"

definition NewCachedPrivacyStore :: "privacy_store option \<Rightarrow> int \<Rightarrow> cached_store option" where
  "NewCachedPrivacyStore inner ttl0 =
    (case inner of
       None \<Rightarrow> None
     | Some s \<Rightarrow> map_option (\<lambda>c. \<lparr>cs_inner = s, cs_cache = c,
           cs_table = \<lparr>bt_open = Map.empty, bt_done = Map.empty, bt_next = 0\<rparr>\<rparr>)
         (New \<lparr>MaxEntries = privacySnapshotMaxOwners, MaxWeight = 0, cfg_Weight = None,
            TTL = (if ttl0 \<le> 0 then DefaultPrivacyRulesCacheTTL else ttl0)\<rparr>))"

section \<open>What a reader of rules relies on\<close>

type_synonym rules_op = "privacy_rules + (int list \<times> privacy_key list)"

definition write_view :: "rule_table \<Rightarrow> rules_op \<Rightarrow> rule_table" where
  "write_view v op = (case op of Inl r \<Rightarrow> v((pr_OwnerUserID r, pr_Key r) \<mapsto> r) | Inr _ \<Rightarrow> v)"

definition op_ok :: "rules_op \<Rightarrow> bool" where
  "op_ok op = (case op of
     Inl r \<Rightarrow> pr_OwnerUserID r \<noteq> 0 \<and> ValidKey (pr_Key r) \<and> pr_Rules r \<noteq> [] \<and> validateRules (pr_Rules r) = None
   | Inr (owners, keys) \<Rightarrow> 0 \<notin> set owners \<and> (\<forall>k\<in>set keys. ValidKey k))"

text \<open>
  A source of rules answers from a table: a read does not change it, a write replaces one row, and a
  list has exactly the rows of the owners and keys asked for.
\<close>

locale rules_source =
  fixes ok :: "'s \<Rightarrow> bool"
    and view :: "'s \<Rightarrow> int \<times> privacy_key \<rightharpoonup> privacy_rules"
    and get_rules :: "'s \<Rightarrow> int \<Rightarrow> privacy_key \<Rightarrow> 's \<times> privacy_rules option"
    and list_rules :: "'s \<Rightarrow> int list \<Rightarrow> privacy_key list \<Rightarrow> 's \<times> privacy_rules list"
    and set_rules :: "'s \<Rightarrow> privacy_rules \<Rightarrow> 's"
  assumes view_row: "ok s \<Longrightarrow> view s (owner, key) = Some r \<Longrightarrow> pr_OwnerUserID r = owner \<and> pr_Key r = key"
    and get_ok: "ok s \<Longrightarrow> owner \<noteq> 0 \<Longrightarrow> ValidKey key \<Longrightarrow> ok (fst (get_rules s owner key)) \<and>
      view (fst (get_rules s owner key)) = view s \<and> snd (get_rules s owner key) = view s (owner, key)"
    and list_ok: "ok s \<Longrightarrow> 0 \<notin> set owners \<Longrightarrow> \<forall>k\<in>set keys. ValidKey k \<Longrightarrow> ok (fst (list_rules s owners keys)) \<and>
      view (fst (list_rules s owners keys)) = view s \<and>
      set (snd (list_rules s owners keys)) = {r. \<exists>ow\<in>set owners. \<exists>k\<in>set keys. view s (ow, k) = Some r}"
    and set_ok: "ok s \<Longrightarrow> pr_OwnerUserID r \<noteq> 0 \<Longrightarrow> ValidKey (pr_Key r) \<Longrightarrow> pr_Rules r \<noteq> [] \<Longrightarrow>
      validateRules (pr_Rules r) = None \<Longrightarrow> ok (set_rules s r) \<and>
      view (set_rules s r) = (view s)((pr_OwnerUserID r, pr_Key r) \<mapsto> r)"
begin

text \<open>The table that a batch of the service builds from a list has the row that a single read returns.\<close>

lemma table_is_get:
  assumes "ok s" "0 \<notin> set owners" "\<forall>k\<in>set keys. ValidKey k" "owner \<in> set owners" "key \<in> set keys"
  shows "fold (\<lambda>r out. if \<not> ValidKey (pr_Key r) then out else out((pr_OwnerUserID r, pr_Key r) \<mapsto> r))
      (snd (list_rules s owners keys)) Map.empty (owner, key) = snd (get_rules s owner key)"
proof -
  let ?rows = "snd (list_rules s owners keys)"
  have rows: "r \<in> set ?rows \<longleftrightarrow> (\<exists>ow\<in>set owners. \<exists>k\<in>set keys. view s (ow, k) = Some r)" for r
    using list_ok [OF assms(1-3)] by simp
  have hit: "r \<in> set ?rows \<and> ValidKey (pr_Key r) \<and> (pr_OwnerUserID r, pr_Key r) = (owner, key) \<longleftrightarrow> view s (owner, key) = Some r" for r
    using rows [of r] view_row [OF assms(1)] assms(3-5) by (metis prod.inject)
  have "fold (\<lambda>r out. if \<not> ValidKey (pr_Key r) then out else out((pr_OwnerUserID r, pr_Key r) \<mapsto> r)) ?rows Map.empty (owner, key)
    = (if \<exists>r\<in>set ?rows. ValidKey (pr_Key r) \<and> (pr_OwnerUserID r, pr_Key r) = (owner, key)
       then Some (the (view s (owner, key))) else Map.empty (owner, key))"
    by (rule fold_update_unique [where g = "\<lambda>r. r"]) (use hit in force)
  also have "\<dots> = view s (owner, key)"
    using hit by (cases "view s (owner, key)") auto
  also have "\<dots> = snd (get_rules s owner key)"
    using get_ok [OF assms(1), of owner key] assms(2-5) by metis
  finally show ?thesis .
qed

text \<open>One operation, and a run of reads and writes.\<close>

definition source_step :: "rules_op \<Rightarrow> 's \<Rightarrow> 's" where
  "source_step op s = (case op of Inl r \<Rightarrow> set_rules s r | Inr (owners, keys) \<Rightarrow> fst (list_rules s owners keys))"

lemma source_step_view:
  assumes "ok s" "op_ok op"
  shows "ok (source_step op s) \<and> view (source_step op s) = write_view (view s) op"
  using assms set_ok [OF assms(1)] list_ok [OF assms(1)]
  by (cases op) (auto simp: source_step_def write_view_def op_ok_def)

lemma source_run_view:
  assumes "ok s" "\<forall>op\<in>set ops. op_ok op"
  shows "ok (fold source_step ops s) \<and> view (fold source_step ops s) = foldl write_view (view s) ops"
  using assms
proof (induction ops arbitrary: s)
  case (Cons op ops)
  then have "ok (source_step op s)" "view (source_step op s) = write_view (view s) op"
    using source_step_view by simp_all
  then show ?case using Cons.IH [of "source_step op s"] Cons.prems(2) by simp
qed simp

end

section \<open>The plain store\<close>

interpretation memory_rules: rules_source rules_ok "\<lambda>s k. GetPrivacyRules s (fst k) (snd k)"
  "\<lambda>s owner key. (s, GetPrivacyRules s owner key)" "\<lambda>s owners keys. (s, ListPrivacyRules s owners keys)" SetPrivacyRules
proof unfold_locales
  fix s owner key r assume "rules_ok s" "GetPrivacyRules s (fst (owner, key)) (snd (owner, key)) = Some r"
  then show "pr_OwnerUserID r = owner \<and> pr_Key r = key"
    using GetPrivacyRules_mem rules_ok_rowD(1) by fastforce
next
  fix s and owners :: "int list" and keys
  assume ok: "rules_ok s"
  have "r \<in> set (ListPrivacyRules s owners keys) \<longleftrightarrow> (\<exists>ow\<in>set owners. \<exists>k\<in>set keys. GetPrivacyRules s ow k = Some r)" for r
  proof -
    have "r \<in> set (ListPrivacyRules s owners keys) \<longleftrightarrow> (\<exists>ow k. ((ow, k), r) \<in> set s \<and> ow \<in> set owners \<and> k \<in> set keys)"
      by (auto simp: ListPrivacyRules_def image_iff)
    then show ?thesis using GetPrivacyRules_mem [OF ok] by auto
  qed
  then show "rules_ok (fst (s, ListPrivacyRules s owners keys)) \<and>
    (\<lambda>k. GetPrivacyRules (fst (s, ListPrivacyRules s owners keys)) (fst k) (snd k)) = (\<lambda>k. GetPrivacyRules s (fst k) (snd k)) \<and>
    set (snd (s, ListPrivacyRules s owners keys)) = {r. \<exists>ow\<in>set owners. \<exists>k\<in>set keys. GetPrivacyRules s (fst (ow, k)) (snd (ow, k)) = Some r}"
    using ok by auto
next
  fix s and r :: privacy_rules assume "rules_ok s" "ValidKey (pr_Key r)" "pr_Rules r \<noteq> []" "validateRules (pr_Rules r) = None"
  then show "rules_ok (SetPrivacyRules s r) \<and>
    (\<lambda>k. GetPrivacyRules (SetPrivacyRules s r) (fst k) (snd k))
      = (\<lambda>k. GetPrivacyRules s (fst k) (snd k))((pr_OwnerUserID r, pr_Key r) \<mapsto> r)"
    by (intro conjI SetPrivacyRules_ok ext) (auto simp: GetPrivacyRules_def SetPrivacyRules_def update_conv')
qed simp_all

section \<open>The cached store\<close>

lemma allPrivacyRuleKeys_all: "set allPrivacyRuleKeys = {k. ValidKey k}"
proof -
  have "k \<in> set allPrivacyRuleKeys \<longleftrightarrow> ValidKey k" for k by (cases k) (simp_all add: allPrivacyRuleKeys_def ValidKey_def)
  then show ?thesis by blast
qed

text \<open>The rows of one owner, as every load sees them.\<close>

definition owner_rows :: "privacy_store \<Rightarrow> int \<Rightarrow> privacy_rules_map" where
  "owner_rows inner owner = (if owner = 0 then []
     else map (\<lambda>(k, r). (snd k, r)) (filter (\<lambda>(k, r). fst k = owner) inner))"

lemma update_fresh: "k \<notin> fst ` set xs \<Longrightarrow> AList.update k v xs = xs @ [(k, v)]"
  by (induction xs) auto

lemma build_step:
  assumes "rules_ok (pre @ rest)" "\<forall>ow\<in>set owners. m ow = Some (owner_rows pre ow)"
    "\<forall>ow. ow \<notin> set owners \<longrightarrow> m ow = None" "ow \<in> set owners"
  shows "fold (\<lambda>item out. if pr_OwnerUserID item = 0 \<or> pr_Key item = OtherPrivacyKey '''' then out
        else out(pr_OwnerUserID item \<mapsto> AList.update (pr_Key item) item
          (case out (pr_OwnerUserID item) of None \<Rightarrow> [] | Some m \<Rightarrow> m)))
      (map snd (filter (\<lambda>((ow, k), r). ow \<in> set owners \<and> ValidKey k) rest)) m ow = Some (owner_rows (pre @ rest) ow)"
  using assms
proof (induction rest arbitrary: pre m)
  case Nil
  then show ?case by simp
next
  case (Cons p rest)
  obtain o' k r where p: "p = ((o', k), r)" by (metis prod.exhaust)
  have row: "pr_OwnerUserID r = o'" "pr_Key r = k" "ValidKey k"
    using rules_ok_rowD [OF Cons.prems(1), of "(o', k)" r] p by auto
  then have key: "pr_Key r \<noteq> OtherPrivacyKey ''''" by (auto simp: ValidKey_def)
  have ok: "rules_ok ((pre @ [p]) @ rest)" using Cons.prems(1) by simp
  have fresh: "(o', k) \<notin> fst ` set pre" using Cons.prems(1) p by (auto simp: rules_ok_def)
  show ?case
  proof (cases "o' \<in> set owners \<and> o' \<noteq> 0")
    case True
    have "k \<notin> fst ` set (owner_rows pre o')" using fresh by (force simp: owner_rows_def split: if_splits)
    then have upd: "AList.update k r (owner_rows pre o') = owner_rows (pre @ [p]) o'"
      using True p by (simp add: update_fresh owner_rows_def)
    let ?m = "m(o' \<mapsto> owner_rows (pre @ [p]) o')"
    have "\<forall>ow\<in>set owners. ?m ow = Some (owner_rows (pre @ [p]) ow)"
      using Cons.prems(2) p by (auto simp: owner_rows_def)
    moreover have "\<forall>ow. ow \<notin> set owners \<longrightarrow> ?m ow = None" using Cons.prems(3) True by auto
    ultimately have "fold (\<lambda>item out. if pr_OwnerUserID item = 0 \<or> pr_Key item = OtherPrivacyKey '''' then out
        else out(pr_OwnerUserID item \<mapsto> AList.update (pr_Key item) item
          (case out (pr_OwnerUserID item) of None \<Rightarrow> [] | Some m \<Rightarrow> m)))
      (map snd (filter (\<lambda>((ow, k), r). ow \<in> set owners \<and> ValidKey k) rest)) ?m ow = Some (owner_rows ((pre @ [p]) @ rest) ow)"
      by (rule Cons.IH [OF ok _ _ Cons.prems(4)])
    then show ?thesis using True p row key Cons.prems(2) upd by simp
  next
    case False
    have "\<forall>ow\<in>set owners. m ow = Some (owner_rows (pre @ [p]) ow)"
      using Cons.prems(2) False p by (auto simp: owner_rows_def)
    from Cons.IH [OF ok this Cons.prems(3,4)] show ?thesis using False p row key by auto
  qed
qed

lemma build_rows:
  assumes "rules_ok inner" "ow \<in> set owners"
  shows "buildPrivacyRulesByOwner (ListPrivacyRules inner owners allPrivacyRuleKeys) owners ow = Some (owner_rows inner ow)"
proof -
  have "owners \<noteq> []" "allPrivacyRuleKeys \<noteq> []" using assms(2) by (auto simp: allPrivacyRuleKeys_def)
  then have list: "ListPrivacyRules inner owners allPrivacyRuleKeys
      = map snd (filter (\<lambda>((ow, k), r). ow \<in> set owners \<and> ValidKey k) inner)"
    by (simp add: ListPrivacyRules_def allPrivacyRuleKeys_all)
  show ?thesis unfolding buildPrivacyRulesByOwner_def list
    using build_step [of "[]" inner owners "\<lambda>ow. if ow \<in> set owners then Some [] else None" ow] assms
    by (simp add: owner_rows_def)
qed

lemma owner_rows_get:
  assumes "rules_ok inner" "owner \<noteq> 0"
  shows "map_of (owner_rows inner owner) key = GetPrivacyRules inner owner key"
proof -
  have "map_of (map (\<lambda>(k, r). (snd k, r)) (filter (\<lambda>(k, r). fst k = owner) s)) key = map_of s (owner, key)" for s :: privacy_store
    by (induction s) (auto simp: prod_eq_iff)
  then show ?thesis using assms(2) by (simp add: owner_rows_def GetPrivacyRules_def)
qed

lemma owner_rows_set:
  assumes "owner \<noteq> pr_OwnerUserID r"
  shows "owner_rows (SetPrivacyRules inner r) owner = owner_rows inner owner"
proof -
  have "filter (\<lambda>(k, x). fst k = owner) (AList.update (pr_OwnerUserID r, pr_Key r) r inner)
    = filter (\<lambda>(k, x). fst k = owner) inner"
    using assms by (induction inner) auto
  then show ?thesis by (simp add: owner_rows_def SetPrivacyRules_def)
qed

definition cached_ok :: "cached_store \<Rightarrow> bool" where
  "cached_ok cs \<longleftrightarrow> rules_ok (cs_inner cs) \<and> cache_ok (cs_cache cs) \<and> agrees (owner_rows (cs_inner cs)) (cs_cache cs)
     \<and> bt_open (cs_table cs) = Map.empty"

lemma getOrLoad_agrees:
  assumes "cache_ok c" "agrees g c"
  obtains c' where "getOrLoad (Suc fuel) n (quiet_load now (g k)) k 0 False c = Some (c', Inr (g k))" "cache_ok c'" "agrees g c'"
proof -
  obtain c1 r1 where l1: "lookup now k 0 False c = (c1, r1)" by fastforce
  have c1: "cache_ok c1" "agrees g c1" "\<And>v. r1 = Some v \<Longrightarrow> v = g k"
    using lookup_ok [OF assms(1), of now k 0 False] agrees_lookup [OF assms(2), of now k 0 False] l1 by auto
  show thesis
  proof (cases r1)
    case (Some v)
    then show thesis using l1 c1 by (intro that [of c1]) (simp_all add: quiet_load_def)
  next
    case None
    obtain c2 r2 where l2: "lookup now k 0 False c1 = (c2, r2)" by fastforce
    have c2: "cache_ok c2" "agrees g c2" "\<And>v. r2 = Some v \<Longrightarrow> v = g k"
      using lookup_ok [OF c1(1), of now k 0 False] agrees_lookup [OF c1(2), of now k 0 False] l2 by auto
    show thesis
    proof (cases r2)
      case (Some v)
      then show thesis using l1 l2 None c2 by (intro that [of c2]) (simp_all add: quiet_load_def load_once_def)
    next
      case None
      let ?c3 = "storeLocked now k (g k) 0 c2"
      have "cache_ok ?c3" "agrees g ?c3"
        using storeLocked_ok [OF c2(1)] agrees_store [OF _ c2(2)] c2(1) by (auto simp: cache_ok_def)
      then show thesis using l1 l2 \<open>r1 = None\<close> None
        by (intro that [of ?c3]) (simp_all add: quiet_load_def load_once_def storeIfEpoch_def cacheEpoch_def)
    qed
  qed
qed

lemma ownerRules_ok:
  assumes "cached_ok cs"
  obtains c where "ownerRules now cs owner = Some (cs\<lparr>cs_cache := c\<rparr>, owner_rows (cs_inner cs) owner)" "cached_ok (cs\<lparr>cs_cache := c\<rparr>)"
proof -
  let ?g = "owner_rows (cs_inner cs)"
  have ok: "cache_ok (cs_cache cs)" "agrees ?g (cs_cache cs)" and rules: "rules_ok (cs_inner cs)"
    using assms by (simp_all add: cached_ok_def)
  have load: "owner_loader (cs_inner cs) owner = ?g owner"
    using build_rows [OF rules, of owner "[owner]"] by (simp add: owner_loader_def rules_of_def)
  obtain c where c: "getOrLoad (Suc 0) 0 (quiet_load now (?g owner) :: (int, privacy_rules_map, privacy_error) load_env) owner 0 False (cs_cache cs)
      = Some (c, Inr (?g owner))" "cache_ok c" "agrees ?g c"
    using getOrLoad_agrees [OF ok] by blast
  then show thesis using assms load
    by (intro that [of c]) (simp_all add: ownerRules_def GetOrLoad_def cached_ok_def del: getOrLoad.simps)
qed

lemma ownerRulesBatch_ok:
  assumes "cached_ok cs" "owners \<noteq> []"
  obtains c t m where "ownerRulesBatch now cs owners = Some (cs\<lparr>cs_cache := c, cs_table := t\<rparr>, m)"
    "cached_ok (cs\<lparr>cs_cache := c, cs_table := t\<rparr>)" "\<forall>ow\<in>set owners. m ow = Some (owner_rows (cs_inner cs) ow)"
proof -
  let ?g = "owner_rows (cs_inner cs)"
  have ok: "cache_ok (cs_cache cs)" "agrees ?g (cs_cache cs)" "bt_open (cs_table cs) = Map.empty" and rules: "rules_ok (cs_inner cs)"
    using assms by (simp_all add: cached_ok_def)
  have load: "\<exists>m. owners_loader (cs_inner cs) ks = Inr m \<and> (\<forall>k\<in>set ks. m k = Some (?g k))" for ks
    using build_rows [OF rules] by (auto simp: owners_loader_def)
  obtain c t out where "batch_loop (Suc 0) 0 (quiet_env now (\<lambda>_. (0, True)) (owners_loader (cs_inner cs))) owners
      (cs_cache cs, cs_table cs) = Some ((c, t), Inr out)" "cache_ok c" "agrees ?g c" "bt_open t = Map.empty"
      "out = (\<lambda>k. if k \<in> set owners then Some (?g k) else None)"
    by (rule batch_loop_agrees [OF ok load])
  then show thesis using assms
    by (intro that [of t c out]) (simp_all add: ownerRulesBatch_def GetOrLoadBatch_def cached_ok_def del: batch_loop.simps)
qed

lemma cached_get:
  assumes "cached_ok cs" "owner \<noteq> 0"
  obtains cs' where "Cached_GetPrivacyRules now cs owner key = Some (cs', GetPrivacyRules (cs_inner cs) owner key)"
    "cached_ok cs'" "cs_inner cs' = cs_inner cs"
proof -
  obtain c where "ownerRules now cs owner = Some (cs\<lparr>cs_cache := c\<rparr>, owner_rows (cs_inner cs) owner)" "cached_ok (cs\<lparr>cs_cache := c\<rparr>)"
    using ownerRules_ok [OF assms(1)] by blast
  moreover have "map_of (owner_rows (cs_inner cs) owner) key = GetPrivacyRules (cs_inner cs) owner key"
    using assms by (intro owner_rows_get) (simp_all add: cached_ok_def)
  ultimately show thesis using assms(2) by (intro that [of "cs\<lparr>cs_cache := c\<rparr>"]) (simp_all add: Cached_GetPrivacyRules_def)
qed

lemma dedup_owners: "set (dedupPrivacyOwnerIDs ids) = set ids - {0}"
  by (auto simp: dedupPrivacyOwnerIDs_def)

lemma cached_list:
  assumes ok: "cached_ok cs"
  obtains cs' rs where "Cached_ListPrivacyRules now cs ids keys = Some (cs', rs)" "cached_ok cs'" "cs_inner cs' = cs_inner cs"
    "set rs = {r. \<exists>ow\<in>set ids - {0}. \<exists>k\<in>set keys. GetPrivacyRules (cs_inner cs) ow k = Some r}"
proof (cases "dedupPrivacyOwnerIDs ids = [] \<or> keys = []")
  case True
  then have "set ids - {0} = {} \<or> keys = []" using dedup_owners [of ids] by (metis empty_set)
  then have none: "{r. \<exists>ow\<in>set ids - {0}. \<exists>k\<in>set keys. GetPrivacyRules (cs_inner cs) ow k = Some r} = {}" by auto
  show thesis using True by (intro that [of cs "[]"]) (simp_all add: Cached_ListPrivacyRules_def ok none)
next
  case False
  then have ne: "dedupPrivacyOwnerIDs ids \<noteq> []" by blast
  have rules: "rules_ok (cs_inner cs)" using ok by (simp add: cached_ok_def)
  obtain t c m where b: "ownerRulesBatch now cs (dedupPrivacyOwnerIDs ids) = Some (cs\<lparr>cs_cache := c, cs_table := t\<rparr>, m)"
    "cached_ok (cs\<lparr>cs_cache := c, cs_table := t\<rparr>)"
    "\<forall>ow\<in>set (dedupPrivacyOwnerIDs ids). m ow = Some (owner_rows (cs_inner cs) ow)"
    by (rule ownerRulesBatch_ok [OF ok ne, where now = now]) (rule that; assumption)
  let ?rs = "concat (map (\<lambda>owner. map snd (filter (\<lambda>(key, r). key \<in> set keys) (rules_of m owner))) (dedupPrivacyOwnerIDs ids))"
  have table: "(k, r) \<in> set (owner_rows (cs_inner cs) ow) \<longleftrightarrow> GetPrivacyRules (cs_inner cs) ow k = Some r" if "ow \<noteq> 0" for ow k r
    using that GetPrivacyRules_mem [OF rules] by (auto simp: owner_rows_def image_iff)
  have pick: "snd ` set (filter (\<lambda>(key, r). key \<in> set keys) xs) = {r. \<exists>k\<in>set keys. (k, r) \<in> set xs}"
    for xs :: privacy_rules_map by force
  have row: "snd ` set (filter (\<lambda>(key, r). key \<in> set keys) (rules_of m ow))
      = {r. \<exists>k\<in>set keys. GetPrivacyRules (cs_inner cs) ow k = Some r}" if "ow \<in> set ids - {0}" for ow
  proof -
    have "rules_of m ow = owner_rows (cs_inner cs) ow" using bspec [OF b(3), of ow] that by (simp add: rules_of_def dedup_owners)
    then show ?thesis using that unfolding pick by (simp add: table)
  qed
  have "set ?rs = {r. \<exists>ow\<in>set ids - {0}. \<exists>k\<in>set keys. GetPrivacyRules (cs_inner cs) ow k = Some r}"
    using row by (auto simp: dedup_owners simp del: set_filter)
  then show thesis using b(1,2) False
    by (intro that [of "cs\<lparr>cs_cache := c, cs_table := t\<rparr>" ?rs]) (simp_all add: Cached_ListPrivacyRules_def Let_def)
qed

lemma cached_set:
  assumes ok: "cached_ok cs" and r: "pr_OwnerUserID r \<noteq> 0" "rules_ok (SetPrivacyRules (cs_inner cs) r)"
  shows "cached_ok (Cached_SetPrivacyRules now cs r) \<and> cs_inner (Cached_SetPrivacyRules now cs r) = SetPrivacyRules (cs_inner cs) r"
proof -
  let ?ow = "pr_OwnerUserID r" and ?in = "SetPrivacyRules (cs_inner cs) r"
  let ?c1 = "Invalidate [?ow] (cs_cache cs)"
  have c: "cache_ok (cs_cache cs)" "agrees (owner_rows (cs_inner cs)) (cs_cache cs)" using ok by (simp_all add: cached_ok_def)
  have ok1: "cache_ok ?c1" using invalidate_ok c(1) by blast
  have "items ?c1 = items (cs_cache cs) |` (- {?ow})" by (simp add: Invalidate_def drop_present_items)
  then have a1: "agrees (owner_rows ?in) ?c1"
    using c(2) owner_rows_set [of _ r "cs_inner cs"] by (auto simp: agrees_def restrict_map_def)
  have snap: "rules_of (buildPrivacyRulesByOwner (ListPrivacyRules ?in [?ow] allPrivacyRuleKeys) [?ow]) ?ow = owner_rows ?in ?ow"
    using build_rows [OF r(2), of ?ow "[?ow]"] by (simp add: rules_of_def)
  have eq: "Cached_SetPrivacyRules now cs r = cs\<lparr>cs_inner := ?in, cs_cache := storeLocked now ?ow (owner_rows ?in ?ow) 0 ?c1\<rparr>"
    using r(1) snap
    by (simp add: Cached_SetPrivacyRules_def WarmOwners_def InvalidateOwners_def dedupPrivacyOwnerIDs_def add_unseen_def
      StoreIfEpoch_def storeIfEpoch_def LoadEpoch_def cacheEpoch_def Let_def)
  show ?thesis unfolding eq
    using ok r(2) storeLocked_ok [OF ok1] agrees_store [OF _ a1] ok1 by (simp add: cached_ok_def cache_ok_def)
qed

lemma cached_view_row:
  assumes "cached_ok cs" "GetPrivacyRules (cs_inner cs) owner key = Some r"
  shows "pr_OwnerUserID r = owner \<and> pr_Key r = key"
  using memory_rules.view_row [of "cs_inner cs" owner key r] assms by (simp add: cached_ok_def)

interpretation cached_rules: rules_source cached_ok "\<lambda>cs k. GetPrivacyRules (cs_inner cs) (fst k) (snd k)"
  "\<lambda>cs owner key. the (Cached_GetPrivacyRules now cs owner key)"
  "\<lambda>cs owners keys. the (Cached_ListPrivacyRules now cs owners keys)"
  "Cached_SetPrivacyRules now" for now
proof unfold_locales
  fix cs owner key r assume "cached_ok cs" "GetPrivacyRules (cs_inner cs) (fst (owner, key)) (snd (owner, key)) = Some r"
  then show "pr_OwnerUserID r = owner \<and> pr_Key r = key" using cached_view_row by simp
next
  fix cs and owner :: int and key assume "cached_ok cs" "owner \<noteq> 0"
  then obtain cs' where "Cached_GetPrivacyRules now cs owner key = Some (cs', GetPrivacyRules (cs_inner cs) owner key)"
    "cached_ok cs'" "cs_inner cs' = cs_inner cs" using cached_get by blast
  then show "cached_ok (fst (the (Cached_GetPrivacyRules now cs owner key))) \<and>
    (\<lambda>k. GetPrivacyRules (cs_inner (fst (the (Cached_GetPrivacyRules now cs owner key)))) (fst k) (snd k))
      = (\<lambda>k. GetPrivacyRules (cs_inner cs) (fst k) (snd k)) \<and>
    snd (the (Cached_GetPrivacyRules now cs owner key)) = GetPrivacyRules (cs_inner cs) (fst (owner, key)) (snd (owner, key))" by simp
next
  fix cs and owners :: "int list" and keys assume "cached_ok cs" "0 \<notin> set owners"
  moreover obtain cs' rs where "Cached_ListPrivacyRules now cs owners keys = Some (cs', rs)" "cached_ok cs'" "cs_inner cs' = cs_inner cs"
    "set rs = {r. \<exists>ow\<in>set owners - {0}. \<exists>k\<in>set keys. GetPrivacyRules (cs_inner cs) ow k = Some r}"
    using cached_list \<open>cached_ok cs\<close> by blast
  moreover have "set owners - {0} = set owners" using \<open>0 \<notin> set owners\<close> by simp
  ultimately show "cached_ok (fst (the (Cached_ListPrivacyRules now cs owners keys))) \<and>
    (\<lambda>k. GetPrivacyRules (cs_inner (fst (the (Cached_ListPrivacyRules now cs owners keys)))) (fst k) (snd k))
      = (\<lambda>k. GetPrivacyRules (cs_inner cs) (fst k) (snd k)) \<and>
    set (snd (the (Cached_ListPrivacyRules now cs owners keys)))
      = {r. \<exists>ow\<in>set owners. \<exists>k\<in>set keys. GetPrivacyRules (cs_inner cs) (fst (ow, k)) (snd (ow, k)) = Some r}" by simp
next
  fix cs and r :: privacy_rules
  assume cs: "cached_ok cs" and r: "pr_OwnerUserID r \<noteq> 0" "ValidKey (pr_Key r)" "pr_Rules r \<noteq> []" "validateRules (pr_Rules r) = None"
  have "rules_ok (cs_inner cs)" using cs by (simp add: cached_ok_def)
  from memory_rules.set_ok [OF this r] cached_set [OF cs r(1), of now]
  show "cached_ok (Cached_SetPrivacyRules now cs r) \<and> (\<lambda>k. GetPrivacyRules (cs_inner (Cached_SetPrivacyRules now cs r)) (fst k) (snd k))
    = (\<lambda>k. GetPrivacyRules (cs_inner cs) (fst k) (snd k))((pr_OwnerUserID r, pr_Key r) \<mapsto> r)" by simp
qed

text \<open>Runs of reads and writes on both stores, each operation of the cached one at its own time.\<close>

definition cached_exec :: "int \<times> rules_op \<Rightarrow> cached_store \<Rightarrow> cached_store" where
  "cached_exec op cs = (case op of
     (now, Inl r) \<Rightarrow> Cached_SetPrivacyRules now cs r
   | (now, Inr (owners, keys)) \<Rightarrow> fst (the (Cached_ListPrivacyRules now cs owners keys)))"

definition plain_exec :: "rules_op \<Rightarrow> privacy_store \<Rightarrow> privacy_store" where
  "plain_exec op s = (case op of Inl r \<Rightarrow> SetPrivacyRules s r | Inr _ \<Rightarrow> s)"

lemma cached_run:
  assumes "cached_ok cs" "\<forall>op\<in>set ops. op_ok (snd op)"
  shows "cached_ok (fold cached_exec ops cs) \<and>
    (\<lambda>k. GetPrivacyRules (cs_inner (fold cached_exec ops cs)) (fst k) (snd k))
      = foldl write_view (\<lambda>k. GetPrivacyRules (cs_inner cs) (fst k) (snd k)) (map snd ops)"
  using assms
proof (induction ops arbitrary: cs)
  case (Cons op ops)
  have "cached_exec op cs = cached_rules.source_step (fst op) (snd op) cs"
    by (cases op) (auto simp: cached_exec_def cached_rules.source_step_def split: sum.splits)
  then have "cached_ok (cached_exec op cs) \<and> (\<lambda>k. GetPrivacyRules (cs_inner (cached_exec op cs)) (fst k) (snd k))
      = write_view (\<lambda>k. GetPrivacyRules (cs_inner cs) (fst k) (snd k)) (snd op)"
    using cached_rules.source_step_view [OF Cons.prems(1), of "snd op" "fst op"] Cons.prems(2) by simp
  then show ?case using Cons.IH [of "cached_exec op cs"] Cons.prems(2) by simp
qed simp

lemma plain_run:
  assumes "rules_ok s" "\<forall>op\<in>set ops. op_ok op"
  shows "rules_ok (fold plain_exec ops s) \<and> (\<lambda>k. GetPrivacyRules (fold plain_exec ops s) (fst k) (snd k))
    = foldl write_view (\<lambda>k. GetPrivacyRules s (fst k) (snd k)) ops"
proof -
  have "memory_rules.source_step = plain_exec"
    by (intro ext) (auto simp: memory_rules.source_step_def plain_exec_def split: sum.splits)
  then show ?thesis using memory_rules.source_run_view [OF assms] by simp
qed

text \<open>
  C33. The cache in front of the rule store cannot be seen. After any run of writes and batched reads, at
  whatever times and with whatever entries still cached, a read through the cache returns exactly what the plain
  store returns after the same writes, and a batched read of any accounts and keys has exactly its rows.
\<close>

theorem privacy_rules_cache_transparent:
  assumes "rules_ok inner" "NewCachedPrivacyStore (Some inner) ttl0 = Some cs" "\<forall>op\<in>set ops. op_ok (snd op)" "owner \<noteq> 0" "ValidKey key"
  shows "(\<exists>cs1. Cached_GetPrivacyRules now (fold cached_exec ops cs) owner key
      = Some (cs1, GetPrivacyRules (fold plain_exec (map snd ops) inner) owner key))
    \<and> (\<forall>owners keys. 0 \<notin> set owners \<and> (\<forall>k\<in>set keys. ValidKey k) \<longrightarrow>
         (\<exists>cs2 rows. Cached_ListPrivacyRules now (fold cached_exec ops cs) owners keys = Some (cs2, rows)
            \<and> set rows = set (ListPrivacyRules (fold plain_exec (map snd ops) inner) owners keys)))"
proof -
  let ?cs = "fold cached_exec ops cs" and ?s = "fold plain_exec (map snd ops) inner"
  obtain cfg c where c: "New cfg = Some c" "cs = \<lparr>cs_inner = inner, cs_cache = c,
      cs_table = \<lparr>bt_open = Map.empty, bt_done = Map.empty, bt_next = 0\<rparr>\<rparr>"
    using assms(2) by (auto simp: NewCachedPrivacyStore_def)
  have cs: "cached_ok cs" "cs_inner cs = inner"
    using assms(1) New_ok [OF c(1)] New_empty [OF c(1)] by (simp_all add: c(2) cached_ok_def agrees_def)
  have run: "cached_ok ?cs" and inner: "rules_ok ?s"
    and view: "(\<lambda>k. GetPrivacyRules (cs_inner ?cs) (fst k) (snd k)) = (\<lambda>k. GetPrivacyRules ?s (fst k) (snd k))"
    using cached_run [OF cs(1) assms(3)] plain_run [OF assms(1), of "map snd ops"] assms(3) cs(2) by auto
  have same: "GetPrivacyRules (cs_inner ?cs) ow k = GetPrivacyRules ?s ow k" for ow k using fun_cong [OF view, of "(ow, k)"] by simp
  obtain cs1 where "Cached_GetPrivacyRules now ?cs owner key = Some (cs1, GetPrivacyRules (cs_inner ?cs) owner key)"
    using cached_get [OF run assms(4)] by blast
  moreover have "\<exists>cs2 rows. Cached_ListPrivacyRules now ?cs owners keys = Some (cs2, rows)
      \<and> set rows = set (ListPrivacyRules ?s owners keys)" if "0 \<notin> set owners" "\<forall>k\<in>set keys. ValidKey k" for owners keys
  proof -
    obtain cs2 rows where "Cached_ListPrivacyRules now ?cs owners keys = Some (cs2, rows)"
      "set rows = {r. \<exists>ow\<in>set owners - {0}. \<exists>k\<in>set keys. GetPrivacyRules (cs_inner ?cs) ow k = Some r}"
      by (rule cached_list [OF run])
    moreover have "set (ListPrivacyRules ?s owners keys) = {r. \<exists>ow\<in>set owners. \<exists>k\<in>set keys. GetPrivacyRules ?s ow k = Some r}"
      using memory_rules.list_ok [OF inner that] by simp
    ultimately show ?thesis using same that(1) by simp
  qed
  ultimately show ?thesis using same by auto
qed

lemma demo_rules_valid: "demo_rules \<noteq> [] \<and> validateRules demo_rules = None"
  by (simp add: demo_rules_def validateRules_def simple_rule_def valid_kind_def maxPrivacyRules_def maxPrivacyRuleIDs_def)

theorem privacy_rules_cache_transparent_witness:
  "\<exists>cs cs1. NewCachedPrivacyStore (Some []) 0 = Some cs
    \<and> Cached_GetPrivacyRules 5 (fold cached_exec [(0, Inr ([1], [PrivacyKeyPhoneCall])),
        (1, Inl \<lparr>pr_OwnerUserID = 1, pr_Key = PrivacyKeyPhoneCall, pr_Rules = demo_rules\<rparr>)] cs) 1 PrivacyKeyPhoneCall
      = Some (cs1, Some \<lparr>pr_OwnerUserID = 1, pr_Key = PrivacyKeyPhoneCall, pr_Rules = demo_rules\<rparr>)"
proof -
  let ?k = PrivacyKeyPhoneCall
  let ?row = "\<lparr>pr_OwnerUserID = 1, pr_Key = ?k, pr_Rules = demo_rules\<rparr>"
  let ?ops = "[(0, Inr ([1], [?k])), (1, Inl ?row)]"
  obtain cs where cs: "NewCachedPrivacyStore (Some []) 0 = Some cs"
    by (simp add: NewCachedPrivacyStore_def New_def privacySnapshotMaxOwners_def)
  have ok: "rules_ok []" by (simp add: rules_ok_def)
  have ops: "\<forall>op\<in>set ?ops. op_ok (snd op)"
    using demo_rules_valid by (simp add: op_ok_def ValidKey_def)
  obtain cs1 where get: "Cached_GetPrivacyRules 5 (fold cached_exec ?ops cs) 1 ?k
      = Some (cs1, GetPrivacyRules (fold plain_exec (map snd ?ops) []) 1 ?k)"
    using privacy_rules_cache_transparent [OF ok cs ops, of 1 ?k 5] by (auto simp: ValidKey_def simp del: fold_simps)
  have "GetPrivacyRules (fold plain_exec (map snd ?ops) []) 1 ?k = Some ?row"
    by (simp add: plain_exec_def SetPrivacyRules_def GetPrivacyRules_def)
  then show ?thesis using cs get by metis
qed

section \<open>The caches of the service\<close>

text \<open>Durations are in nanoseconds.\<close>

definition newViewerFactsCache :: "(int, viewer_facts) cache option" where
  "newViewerFactsCache = New \<lparr>MaxEntries = 8192, MaxWeight = 0, cfg_Weight = None, TTL = 10 * 60 * 1000000000\<rparr>"

definition newMembershipCache :: "(membership_key, bool) cache option" where
  "newMembershipCache = New \<lparr>MaxEntries = 65536, MaxWeight = 0, cfg_Weight = None, TTL = 24 * 60 * 60 * 1000000000\<rparr>"

definition privacyMembershipBatchAdmissionMaxPairs :: nat where
  "privacyMembershipBatchAdmissionMaxPairs = 65536 div 4"

text \<open>
  A call that nobody disturbs. An oversized batch goes around the cache; its loop ends in the first
  turn, as the epoch is the one it began with.
\<close>

definition loadMembershipFactsForKeysCached where
  "loadMembershipFactsForKeysCached now svc ct input =
    (let keys = dedup_membership input in
     if length keys > MaxActiveChannelMemberPairs then Some (ct, Inl ErrActiveChannelMemberPairsLimit)
     else if keys = [] then Some (ct, Inr Map.empty)
     else if length keys > privacyMembershipBatchAdmissionMaxPairs then Some (ct, membership_loader svc keys)
     else GetOrLoadBatch 1 (quiet_env now (\<lambda>_. (0, True)) (membership_loader svc)) keys ct)"

definition InvalidateViewerFacts :: "int list \<Rightarrow> (int, viewer_facts) cache \<Rightarrow> (int, viewer_facts) cache" where
  "InvalidateViewerFacts ids c = Invalidate (dedupNonZero ids) c"

definition InvalidateMembership :: "int \<Rightarrow> int \<Rightarrow> (membership_key, bool) cache \<Rightarrow> (membership_key, bool) cache" where
  "InvalidateMembership channel user c = (if channel = 0 \<or> user = 0 then c else Invalidate [(channel, user)] c)"

definition InvalidateChannelMemberships ::
  "membership_key list \<Rightarrow> int \<Rightarrow> (membership_key, bool) cache \<Rightarrow> (membership_key, bool) cache" where
  "InvalidateChannelMemberships iter channel c =
    (if channel = 0 then c else InvalidateWhere iter (\<lambda>k. fst k = channel) c)"

definition flushFactCaches ::
  "(int, viewer_facts) cache \<times> (membership_key, bool) cache \<Rightarrow> (int, viewer_facts) cache \<times> (membership_key, bool) cache" where
  "flushFactCaches cs = (Flush (fst cs), Flush (snd cs))"

text \<open>
  The membership facts read through the cache, or around it when the batch is too large for it, are what
  the channels service says, and the pair limit is enforced alike.
\<close>

theorem privacy_membership_cached:
  assumes prov: "providers_ok svc base member"
    and cache: "cache_ok c" "agrees (true_member svc member) c" "bt_open t = Map.empty"
  shows "\<exists>c' t' r. loadMembershipFactsForKeysCached now svc (Some c, t) input = Some ((Some c', t'), r)
    \<and> cache_ok c' \<and> agrees (true_member svc member) c' \<and> bt_open t' = Map.empty
    \<and> (case (r, loadMembershipFactsForKeys svc input) of
         (Inr m, Inr m') \<Rightarrow> \<forall>k\<in>set input. fst k \<noteq> 0 \<and> snd k \<noteq> 0 \<longrightarrow> m k = m' k
       | (Inl e, Inl e') \<Rightarrow> e = e'
       | _ \<Rightarrow> False)"
proof -
  let ?keys = "dedup_membership input"
  have load: "\<exists>m. membership_loader svc ks = Inr m \<and> (\<forall>k\<in>set ks. m k = Some (true_member svc member k))" for ks
  proof -
    obtain m where "membership_loader svc ks = Inr m" "\<And>k. k \<in> set ks \<Longrightarrow> m k = Some (true_member svc member k)"
      using membership_loader_facts [OF prov] by blast
    then show ?thesis by blast
  qed
  obtain m' where m': "membership_loader svc ?keys = Inr m'" "\<forall>k\<in>set ?keys. m' k = Some (true_member svc member k)"
    using load by blast
  consider "length ?keys > MaxActiveChannelMemberPairs" | "?keys = []"
    | "length ?keys \<le> MaxActiveChannelMemberPairs" "?keys \<noteq> []" "length ?keys > privacyMembershipBatchAdmissionMaxPairs"
    | "length ?keys \<le> MaxActiveChannelMemberPairs" "?keys \<noteq> []" "\<not> length ?keys > privacyMembershipBatchAdmissionMaxPairs"
    by linarith
  then show ?thesis
  proof cases
    case 1
    then show ?thesis using cache by (simp add: loadMembershipFactsForKeysCached_def loadMembershipFactsForKeys_def Let_def)
  next
    case 2
    then show ?thesis using cache by (simp add: loadMembershipFactsForKeysCached_def loadMembershipFactsForKeys_def Let_def)
  next
    case 3
    then show ?thesis using cache m' by (simp add: loadMembershipFactsForKeysCached_def loadMembershipFactsForKeys_def Let_def)
  next
    case 4
    obtain c' t' out where loop: "batch_loop (Suc 0) 0 (quiet_env now (\<lambda>_. (0, True)) (membership_loader svc)) ?keys (c, t)
        = Some ((c', t'), Inr out)" "cache_ok c'" "agrees (true_member svc member) c'" "bt_open t' = Map.empty"
      "out = (\<lambda>k. if k \<in> set ?keys then Some (true_member svc member k) else None)"
      by (rule batch_loop_agrees [OF cache load])
    have "loadMembershipFactsForKeysCached now svc (Some c, t) input = Some ((Some c', t'), Inr out)"
      using 4 loop(1) by (simp add: loadMembershipFactsForKeysCached_def GetOrLoadBatch_def Let_def del: batch_loop.simps)
    moreover have "loadMembershipFactsForKeys svc input = Inr m'" using 4 m'(1) by (simp add: loadMembershipFactsForKeys_def Let_def)
    moreover have "\<forall>k\<in>set input. fst k \<noteq> 0 \<and> snd k \<noteq> 0 \<longrightarrow> out k = m' k" using m'(2) by (auto simp: loop(5))
    ultimately show ?thesis using loop(2-4) by (intro exI [of _ c'] exI [of _ t'] exI [of _ "Inr out"]) simp
  qed
qed

theorem privacy_membership_cached_witness:
  "\<exists>c c' t' m. newMembershipCache = Some c
    \<and> loadMembershipFactsForKeysCached 0 demo_service (Some c, \<lparr>bt_open = Map.empty, bt_done = Map.empty, bt_next = 0\<rparr>) [(100, 3), (0, 3), (100, 2)]
      = Some ((Some c', t'), Inr m) \<and> m (100, 3) = Some True"
proof -
  obtain c where c: "newMembershipCache = Some c" by (simp add: newMembershipCache_def New_def)
  let ?t = "\<lparr>bt_open = Map.empty, bt_done = Map.empty, bt_next = 0\<rparr> :: (membership_key, bool, privacy_error) batch_table"
  let ?in = "[(100, 3), (0, 3), (100, 2)] :: membership_key list"
  have ok: "cache_ok c" and empty: "items c = Map.empty" using New_ok New_empty c unfolding newMembershipCache_def by blast+
  then have ag: "agrees (true_member demo_service demo_member) c" by (simp add: agrees_def)
  have plain: "\<exists>m'. loadMembershipFactsForKeys demo_service ?in = Inr m' \<and> m' (100, 3) = Some True"
    by (simp add: loadMembershipFactsForKeys_def dedup_membership_def MaxActiveChannelMemberPairs_def membership_loader_def
      demo_service_eq empty_service_def group_by_chat_def demo_member_def)
  obtain c' t' r where r: "loadMembershipFactsForKeysCached 0 demo_service (Some c, ?t) ?in = Some ((Some c', t'), r)"
    and m: "case (r, loadMembershipFactsForKeys demo_service ?in) of
       (Inr m, Inr m') \<Rightarrow> \<forall>k\<in>set ?in. fst k \<noteq> 0 \<and> snd k \<noteq> 0 \<longrightarrow> m k = m' k
     | (Inl e, Inl e') \<Rightarrow> e = e' | _ \<Rightarrow> False"
    using privacy_membership_cached [OF demo_providers(2) ok ag, of ?t 0 ?in] by auto
  obtain m where "r = Inr m" "m (100, 3) = Some True" using m plain by (cases r) auto
  then show ?thesis using c r by blast
qed

end
