(* ===== verification/Login_Codes.thy ===== *)
theory Login_Codes
  imports Gram_Prelude
begin

text \<open>
  One-time codes (src/internal/store/code.go, src/internal/store/memory/auth.go, login_code.go and
  code_cas.go): the store of verification codes behind sign-in, sign-up and sensitive operations of a
  signed-in account. Every operation runs under the store's mutex, so a run is a sequence of
  operations. \<open>now\<close> is the time of the call; \<open>token\<close> is the random revision that the call draws, or
  \<open>None\<close> if the random source fails.
\<close>

section \<open>Records and the store\<close>

record phone_code =
  co_Version :: int
  co_Revision :: string
  co_IssuedUserID :: int
  co_SignUpVerified :: bool
  co_Phone :: string
  co_Code :: string
  co_DeliveryID :: string
  co_Channel :: string
  co_Purpose :: string
  co_UserID :: int
  co_AuthKeyID :: int
  co_SessionID :: int
  co_Email :: string
  co_PendingEmail :: string
  co_Attempts :: int
  co_MaxAttempts :: int
  co_VerifiedEmail :: bool
  co_RequireSignUp :: bool
  co_LoginEmailHash :: string
  co_RecoveryBinding :: string
  co_AccountDeletionHash :: string

record code_scope =
  sco_Purpose :: string
  sco_UserID :: int
  sco_AuthKeyID :: int
  sco_Phone :: string

definition PhoneCodeVersionCurrent :: int where "PhoneCodeVersionCurrent = 2"

definition LoginCodeChannelVerifiable :: "string \<Rightarrow> bool" where
  "LoginCodeChannelVerifiable channel \<longleftrightarrow> channel \<in> {''phone'', ''sms'', ''email_login''}"

definition LoginCodeChannelTakeable :: "string \<Rightarrow> bool" where
  "LoginCodeChannelTakeable channel \<longleftrightarrow> LoginCodeChannelVerifiable channel \<or> channel = ''email_setup_required''"

definition PhoneCode_Scope :: "phone_code \<Rightarrow> code_scope" where
  "PhoneCode_Scope c = \<lparr>sco_Purpose = co_Purpose c, sco_UserID = co_UserID c, sco_AuthKeyID = co_AuthKeyID c, sco_Phone = co_Phone c\<rparr>"

definition PhoneCodeScope_Valid :: "code_scope \<Rightarrow> bool" where
  "PhoneCodeScope_Valid s \<longleftrightarrow> sco_Purpose s \<noteq> [] \<and> sco_UserID s \<noteq> 0 \<and> sco_AuthKeyID s \<noteq> 0 \<and> sco_Phone s \<noteq> []"

datatype verify_status = LoginCodeVerifyMissing | LoginCodeVerifyInvalid | LoginCodeVerifyAccepted

record code_entry =
  en_code :: phone_code
  en_expires :: int

record code_store =
  cd_m :: "string \<rightharpoonup> code_entry"
  cd_scopes :: "code_scope \<rightharpoonup> string"

definition NewCodeStore :: code_store where
  "NewCodeStore = \<lparr>cd_m = Map.empty, cd_scopes = Map.empty\<rparr>"

text \<open>A missing entry of the scope index reads as the empty string.\<close>

definition scope_hash :: "code_store \<Rightarrow> code_scope \<Rightarrow> string" where
  "scope_hash s scope = (case cd_scopes s scope of None \<Rightarrow> [] | Some h \<Rightarrow> h)"

definition deleteCodeLocked :: "string \<Rightarrow> phone_code \<Rightarrow> code_store \<Rightarrow> code_store" where
  "deleteCodeLocked hash code s =
    (let s1 = s\<lparr>cd_m := (cd_m s)(hash := None)\<rparr>; scope = PhoneCode_Scope code in
     if PhoneCodeScope_Valid scope \<and> scope_hash s1 scope = hash
     then s1\<lparr>cd_scopes := (cd_scopes s1)(scope := None)\<rparr> else s1)"

definition liveCodeLocked :: "int \<Rightarrow> string \<Rightarrow> code_store \<Rightarrow> code_store \<times> code_entry option" where
  "liveCodeLocked now hash s =
    (case cd_m s hash of
       None \<Rightarrow> (s, None)
     | Some e \<Rightarrow> if now > en_expires e then (deleteCodeLocked hash (en_code e) s, None) else (s, Some e))"

section \<open>Operations\<close>

definition Code_Set :: "int \<Rightarrow> string option \<Rightarrow> string \<Rightarrow> phone_code \<Rightarrow> int \<Rightarrow> code_store \<Rightarrow> code_store \<times> bool" where
  "Code_Set now token hash code ttl s =
    (case token of
       None \<Rightarrow> (s, False)
     | Some revision \<Rightarrow>
         let code = code\<lparr>co_Revision := revision\<rparr>; scope = PhoneCode_Scope code;
             s1 = (if PhoneCodeScope_Valid scope
               then (let s0 = (case cd_scopes s scope of
                         None \<Rightarrow> s
                       | Some oldHash \<Rightarrow> if oldHash \<noteq> hash then s\<lparr>cd_m := (cd_m s)(oldHash := None)\<rparr> else s)
                     in s0\<lparr>cd_scopes := (cd_scopes s0)(scope \<mapsto> hash)\<rparr>)
               else s)
         in (s1\<lparr>cd_m := (cd_m s1)(hash \<mapsto> \<lparr>en_code = code, en_expires = now + ttl\<rparr>)\<rparr>, True))"

definition Code_Get :: "int \<Rightarrow> string \<Rightarrow> code_store \<Rightarrow> code_store \<times> phone_code option" where
  "Code_Get now hash s =
    (case cd_m s hash of
       None \<Rightarrow> (s, None)
     | Some e \<Rightarrow> if now > en_expires e then (deleteCodeLocked hash (en_code e) s, None) else (s, Some (en_code e)))"

definition Code_Update :: "int \<Rightarrow> string option \<Rightarrow> string \<Rightarrow> phone_code \<Rightarrow> code_store \<Rightarrow> code_store \<times> bool" where
  "Code_Update now token hash code s =
    (case token of
       None \<Rightarrow> (s, False)
     | Some revision \<Rightarrow>
         (case cd_m s hash of
            None \<Rightarrow> (s, True)
          | Some e \<Rightarrow>
              if now > en_expires e then (deleteCodeLocked hash (en_code e) s, True)
              else (s\<lparr>cd_m := (cd_m s)(hash \<mapsto> e\<lparr>en_code := code\<lparr>co_Revision := revision\<rparr>\<rparr>)\<rparr>, True)))"

definition Code_Del :: "string \<Rightarrow> code_store \<Rightarrow> code_store" where
  "Code_Del hash s =
    (case cd_m s hash of
       Some e \<Rightarrow> deleteCodeLocked hash (en_code e) s
     | None \<Rightarrow> s\<lparr>cd_m := (cd_m s)(hash := None)\<rparr>)"

definition ConsumeScoped :: "int \<Rightarrow> string \<Rightarrow> code_scope \<Rightarrow> code_store \<Rightarrow> code_store \<times> phone_code option" where
  "ConsumeScoped now hash scope s =
    (if \<not> PhoneCodeScope_Valid scope \<or> scope_hash s scope \<noteq> hash then (s, None)
     else case cd_m s hash of
       None \<Rightarrow> (s\<lparr>cd_scopes := (cd_scopes s)(scope := None)\<rparr>, None)
     | Some e \<Rightarrow>
         if now > en_expires e then (deleteCodeLocked hash (en_code e) s, None)
         else if co_Version (en_code e) \<noteq> PhoneCodeVersionCurrent \<or> PhoneCode_Scope (en_code e) \<noteq> scope
         then
           let s1 = s\<lparr>cd_m := (cd_m s)(hash := None), cd_scopes := (cd_scopes s)(scope := None)\<rparr>;
               actual = PhoneCode_Scope (en_code e)
           in (if PhoneCodeScope_Valid actual \<and> scope_hash s1 actual = hash
               then s1\<lparr>cd_scopes := (cd_scopes s1)(actual := None)\<rparr> else s1, None)
         else (deleteCodeLocked hash (en_code e) s, Some (en_code e)))"

text \<open>The bound on attempts of one record, and what a wrong code does to it.\<close>

definition attempt_limit :: "phone_code \<Rightarrow> int \<Rightarrow> int" where
  "attempt_limit record defaultMax =
    (let m = (if co_MaxAttempts record \<le> 0 then defaultMax else co_MaxAttempts record) in
     if m \<le> 0 then 1 else m)"

definition wrong_code ::
  "string option \<Rightarrow> string \<Rightarrow> code_entry \<Rightarrow> int \<Rightarrow> code_store
    \<Rightarrow> code_store \<times> (verify_status \<times> phone_code option) option" where
  "wrong_code token hash e defaultMax s =
    (case token of
       None \<Rightarrow> (s, None)
     | Some revision \<Rightarrow>
         let record = (en_code e)\<lparr>co_Attempts := co_Attempts (en_code e) + 1, co_Revision := revision\<rparr> in
         (if co_Attempts record \<ge> attempt_limit record defaultMax then deleteCodeLocked hash record s
          else s\<lparr>cd_m := (cd_m s)(hash \<mapsto> e\<lparr>en_code := record\<rparr>)\<rparr>,
          Some (LoginCodeVerifyInvalid, Some record)))"

text \<open>
  The result is \<open>None\<close> when the random source fails, else the status and the record that goes with it.
\<close>

definition VerifyLogin ::
  "int \<Rightarrow> string option \<Rightarrow> string \<Rightarrow> string \<Rightarrow> string \<Rightarrow> bool \<Rightarrow> int \<Rightarrow> code_store
    \<Rightarrow> code_store \<times> (verify_status \<times> phone_code option) option" where
  "VerifyLogin now token hash phone code keepForSignUp defaultMax s =
    (case liveCodeLocked now hash s of
       (s, None) \<Rightarrow> (s, Some (LoginCodeVerifyMissing, None))
     | (s, Some e) \<Rightarrow>
         let record = en_code e in
         if co_Version record \<noteq> PhoneCodeVersionCurrent
         then (deleteCodeLocked hash record s, Some (LoginCodeVerifyMissing, None))
         else if co_SignUpVerified record then (s, Some (LoginCodeVerifyMissing, None))
         else if co_Purpose record \<noteq> [] \<or> co_Phone record \<noteq> phone
           \<or> \<not> LoginCodeChannelVerifiable (co_Channel record) \<or> co_Code record = [] \<or> code = []
         then (s, Some (LoginCodeVerifyInvalid, Some record))
         else if co_Code record \<noteq> code then wrong_code token hash e defaultMax s
         else if keepForSignUp
         then
           if co_IssuedUserID record \<noteq> 0 then (s, Some (LoginCodeVerifyInvalid, Some record))
           else (case token of
                   None \<Rightarrow> (s, None)
                 | Some revision \<Rightarrow>
                     let record = record\<lparr>co_SignUpVerified := True, co_Revision := revision\<rparr> in
                     (s\<lparr>cd_m := (cd_m s)(hash \<mapsto> e\<lparr>en_code := record\<rparr>)\<rparr>,
                      Some (LoginCodeVerifyAccepted, Some record)))
         else (deleteCodeLocked hash record s, Some (LoginCodeVerifyAccepted, Some record)))"

definition drop_scope :: "code_scope \<Rightarrow> string \<Rightarrow> code_store \<Rightarrow> code_store" where
  "drop_scope scope hash s =
    (if scope_hash s scope = hash then s\<lparr>cd_scopes := (cd_scopes s)(scope := None)\<rparr> else s)"

definition VerifyScoped ::
  "int \<Rightarrow> string option \<Rightarrow> string \<Rightarrow> code_scope \<Rightarrow> string \<Rightarrow> int \<Rightarrow> code_store
    \<Rightarrow> code_store \<times> (verify_status \<times> phone_code option) option" where
  "VerifyScoped now token hash scope code defaultMax s =
    (if \<not> PhoneCodeScope_Valid scope \<or> scope_hash s scope \<noteq> hash then (s, Some (LoginCodeVerifyMissing, None))
     else case liveCodeLocked now hash s of
       (s, None) \<Rightarrow> (drop_scope scope hash s, Some (LoginCodeVerifyMissing, None))
     | (s, Some e) \<Rightarrow>
         let record = en_code e in
         if co_Version record \<noteq> PhoneCodeVersionCurrent \<or> PhoneCode_Scope record \<noteq> scope
           \<or> co_SignUpVerified record \<or> co_Code record = []
         then (drop_scope scope hash (deleteCodeLocked hash record s), Some (LoginCodeVerifyMissing, None))
         else if code = [] then (s, Some (LoginCodeVerifyInvalid, Some record))
         else if co_Code record \<noteq> code then wrong_code token hash e defaultMax s
         else (deleteCodeLocked hash record s, Some (LoginCodeVerifyAccepted, Some record)))"

text \<open>The shape of the three operations that remove a login record if it fits.\<close>

definition take_record ::
  "int \<Rightarrow> string \<Rightarrow> (phone_code \<Rightarrow> bool) \<Rightarrow> code_store \<Rightarrow> code_store \<times> phone_code option" where
  "take_record now hash fits s =
    (case liveCodeLocked now hash s of
       (s, None) \<Rightarrow> (s, None)
     | (s, Some e) \<Rightarrow>
         if co_Version (en_code e) \<noteq> PhoneCodeVersionCurrent then (deleteCodeLocked hash (en_code e) s, None)
         else if \<not> fits (en_code e) then (s, None)
         else (deleteCodeLocked hash (en_code e) s, Some (en_code e)))"

definition ConsumeSignUpVerified :: "int \<Rightarrow> string \<Rightarrow> string \<Rightarrow> code_store \<Rightarrow> code_store \<times> phone_code option" where
  "ConsumeSignUpVerified now hash phone =
    take_record now hash (\<lambda>r. \<not> (co_Purpose r \<noteq> [] \<or> co_Phone r \<noteq> phone
      \<or> \<not> LoginCodeChannelVerifiable (co_Channel r) \<or> co_IssuedUserID r \<noteq> 0 \<or> \<not> co_SignUpVerified r))"

definition TakeLoginCode :: "int \<Rightarrow> string \<Rightarrow> string \<Rightarrow> code_store \<Rightarrow> code_store \<times> phone_code option" where
  "TakeLoginCode now hash phone =
    take_record now hash (\<lambda>r. \<not> co_SignUpVerified r \<and> \<not> (co_Purpose r \<noteq> [] \<or> co_Phone r \<noteq> phone
      \<or> \<not> LoginCodeChannelTakeable (co_Channel r)))"

definition InvalidateLoginCode :: "int \<Rightarrow> string \<Rightarrow> string \<Rightarrow> code_store \<Rightarrow> code_store \<times> bool" where
  "InvalidateLoginCode now hash phone s =
    map_prod id (\<lambda>r. r \<noteq> None) (take_record now hash (\<lambda>r. \<not> (co_Purpose r \<noteq> [] \<or> co_Phone r \<noteq> phone
      \<or> \<not> LoginCodeChannelTakeable (co_Channel r))) s)"

definition GetSnapshot :: "int \<Rightarrow> string \<Rightarrow> code_store \<Rightarrow> code_store \<times> (phone_code \<times> string) option" where
  "GetSnapshot now hash s =
    (case liveCodeLocked now hash s of
       (s, None) \<Rightarrow> (s, None)
     | (s, Some e) \<Rightarrow>
         if co_Version (en_code e) \<noteq> PhoneCodeVersionCurrent \<or> co_Revision (en_code e) = []
         then (deleteCodeLocked hash (en_code e) s, None)
         else (s, Some (en_code e, co_Revision (en_code e))))"

definition CompareAndUpdate ::
  "int \<Rightarrow> string option \<Rightarrow> string \<Rightarrow> string \<Rightarrow> phone_code \<Rightarrow> code_store \<Rightarrow> code_store \<times> bool" where
  "CompareAndUpdate now token hash expected next_code s =
    (if expected = [] \<or> co_Version next_code \<noteq> PhoneCodeVersionCurrent \<or> co_Purpose next_code \<noteq> [] then (s, False)
     else case token of
       None \<Rightarrow> (s, False)
     | Some revision \<Rightarrow>
         (case liveCodeLocked now hash s of
            (s, None) \<Rightarrow> (s, False)
          | (s, Some e) \<Rightarrow>
              if co_Version (en_code e) \<noteq> PhoneCodeVersionCurrent \<or> co_Revision (en_code e) = []
              then (deleteCodeLocked hash (en_code e) s, False)
              else if co_Purpose (en_code e) \<noteq> [] \<or> co_Revision (en_code e) \<noteq> expected then (s, False)
              else (s\<lparr>cd_m := (cd_m s)(hash \<mapsto> e\<lparr>en_code := next_code\<lparr>co_Revision := revision\<rparr>\<rparr>)\<rparr>, True)))"

definition CompareAndDelete :: "int \<Rightarrow> string \<Rightarrow> string \<Rightarrow> code_store \<Rightarrow> code_store \<times> bool" where
  "CompareAndDelete now hash expected s =
    (if expected = [] then (s, False)
     else case liveCodeLocked now hash s of
       (s, None) \<Rightarrow> (s, False)
     | (s, Some e) \<Rightarrow>
         if co_Version (en_code e) \<noteq> PhoneCodeVersionCurrent \<or> co_Revision (en_code e) = []
         then (deleteCodeLocked hash (en_code e) s, False)
         else if co_Purpose (en_code e) \<noteq> [] \<or> co_Revision (en_code e) \<noteq> expected then (s, False)
         else (deleteCodeLocked hash (en_code e) s, True))"

section \<open>Runs\<close>

datatype code_op =
    OpSet string phone_code int | OpGet string | OpDel string | OpConsumeScoped string code_scope
  | OpVerifyScoped string code_scope string int | OpVerifyLogin string string string bool int
  | OpConsumeSignUp string string | OpTake string string | OpInvalidate string string | OpSnapshot string
  | OpCompareUpdate string string phone_code | OpCompareDelete string string | OpUpdate string phone_code

text \<open>A call has its time and its random token.\<close>

type_synonym code_call = "int \<times> string option \<times> code_op"

fun code_exec :: "code_call \<Rightarrow> code_store \<Rightarrow> code_store" where
  "code_exec (now, token, OpSet h c ttl) s = fst (Code_Set now token h c ttl s)"
| "code_exec (now, token, OpGet h) s = fst (Code_Get now h s)"
| "code_exec (now, token, OpDel h) s = Code_Del h s"
| "code_exec (now, token, OpConsumeScoped h sc) s = fst (ConsumeScoped now h sc s)"
| "code_exec (now, token, OpVerifyScoped h sc c d) s = fst (VerifyScoped now token h sc c d s)"
| "code_exec (now, token, OpVerifyLogin h p c k d) s = fst (VerifyLogin now token h p c k d s)"
| "code_exec (now, token, OpConsumeSignUp h p) s = fst (ConsumeSignUpVerified now h p s)"
| "code_exec (now, token, OpTake h p) s = fst (TakeLoginCode now h p s)"
| "code_exec (now, token, OpInvalidate h p) s = fst (InvalidateLoginCode now h p s)"
| "code_exec (now, token, OpSnapshot h) s = fst (GetSnapshot now h s)"
| "code_exec (now, token, OpCompareUpdate h r c) s = fst (CompareAndUpdate now token h r c s)"
| "code_exec (now, token, OpCompareDelete h r) s = fst (CompareAndDelete now h r s)"
| "code_exec (now, token, OpUpdate h c) s = fst (Code_Update now token h c s)"

text \<open>The calls that put a new record under a hash.\<close>

fun reissues :: "string \<Rightarrow> code_op \<Rightarrow> bool" where
  "reissues h (OpSet h' c ttl) \<longleftrightarrow> h' = h"
| "reissues h (OpCompareUpdate h' r c) \<longleftrightarrow> h' = h"
| "reissues h (OpUpdate h' c) \<longleftrightarrow> h' = h"
| "reissues h _ \<longleftrightarrow> False"

text \<open>A call that compares the record's code with a wrong one.\<close>

definition comparable_login :: "int \<Rightarrow> string \<Rightarrow> code_entry \<Rightarrow> bool" where
  "comparable_login now phone e \<longleftrightarrow> \<not> now > en_expires e \<and> co_Version (en_code e) = PhoneCodeVersionCurrent
     \<and> \<not> co_SignUpVerified (en_code e) \<and> co_Purpose (en_code e) = [] \<and> co_Phone (en_code e) = phone
     \<and> LoginCodeChannelVerifiable (co_Channel (en_code e)) \<and> co_Code (en_code e) \<noteq> []"

definition comparable_scoped :: "int \<Rightarrow> code_scope \<Rightarrow> string \<Rightarrow> code_store \<Rightarrow> code_entry \<Rightarrow> bool" where
  "comparable_scoped now scope hash s e \<longleftrightarrow> PhoneCodeScope_Valid scope \<and> scope_hash s scope = hash \<and> \<not> now > en_expires e
     \<and> co_Version (en_code e) = PhoneCodeVersionCurrent \<and> PhoneCode_Scope (en_code e) = scope
     \<and> \<not> co_SignUpVerified (en_code e) \<and> co_Code (en_code e) \<noteq> []"

fun wrong_guess :: "string \<Rightarrow> code_call \<Rightarrow> code_store \<Rightarrow> bool" where
  "wrong_guess h (now, token, OpVerifyLogin h' p c k d) s \<longleftrightarrow> h' = h \<and> token \<noteq> None \<and> c \<noteq> []
     \<and> (case cd_m s h of None \<Rightarrow> False | Some e \<Rightarrow> comparable_login now p e \<and> co_Code (en_code e) \<noteq> c)"
| "wrong_guess h (now, token, OpVerifyScoped h' sc c d) s \<longleftrightarrow> h' = h \<and> token \<noteq> None \<and> c \<noteq> []
     \<and> (case cd_m s h of None \<Rightarrow> False | Some e \<Rightarrow> comparable_scoped now sc h s e \<and> co_Code (en_code e) \<noteq> c)"
| "wrong_guess h _ s \<longleftrightarrow> False"

text \<open>The calls that accept the code, and those that hand the record out and remove it.\<close>

fun accepts :: "string \<Rightarrow> code_call \<Rightarrow> code_store \<Rightarrow> bool" where
  "accepts h (now, token, OpVerifyLogin h' p c k d) s \<longleftrightarrow>
     h' = h \<and> (\<exists>r. snd (VerifyLogin now token h' p c k d s) = Some (LoginCodeVerifyAccepted, r))"
| "accepts h (now, token, OpVerifyScoped h' sc c d) s \<longleftrightarrow>
     h' = h \<and> (\<exists>r. snd (VerifyScoped now token h' sc c d s) = Some (LoginCodeVerifyAccepted, r))"
| "accepts h _ s \<longleftrightarrow> False"

fun redeems :: "string \<Rightarrow> code_call \<Rightarrow> code_store \<Rightarrow> bool" where
  "redeems h (now, token, OpVerifyLogin h' p c k d) s \<longleftrightarrow> \<not> k \<and> accepts h (now, token, OpVerifyLogin h' p c k d) s"
| "redeems h (now, token, OpVerifyScoped h' sc c d) s \<longleftrightarrow> accepts h (now, token, OpVerifyScoped h' sc c d) s"
| "redeems h (now, token, OpConsumeScoped h' sc) s \<longleftrightarrow> h' = h \<and> snd (ConsumeScoped now h' sc s) \<noteq> None"
| "redeems h (now, token, OpConsumeSignUp h' p) s \<longleftrightarrow> h' = h \<and> snd (ConsumeSignUpVerified now h' p s) \<noteq> None"
| "redeems h (now, token, OpTake h' p) s \<longleftrightarrow> h' = h \<and> snd (TakeLoginCode now h' p s) \<noteq> None"
| "redeems h _ s \<longleftrightarrow> False"

fun count_run :: "(code_call \<Rightarrow> code_store \<Rightarrow> bool) \<Rightarrow> code_call list \<Rightarrow> code_store \<Rightarrow> nat" where
  "count_run P [] s = 0"
| "count_run P (c # cs) s = (if P c s then 1 else 0) + count_run P cs (code_exec c s)"

section \<open>What one call does to a record\<close>

lemma delete_m [simp]: "cd_m (deleteCodeLocked h c s) = (cd_m s)(h := None)"
  by (simp add: deleteCodeLocked_def Let_def)

lemma drop_scope_m [simp]: "cd_m (drop_scope sc h s) = cd_m s"
  by (simp add: drop_scope_def)

lemma live_cases:
  obtains "cd_m s h = None" "liveCodeLocked now h s = (s, None)"
  | e where "cd_m s h = Some e" "now > en_expires e" "liveCodeLocked now h s = (deleteCodeLocked h (en_code e) s, None)"
  | e where "cd_m s h = Some e" "\<not> now > en_expires e" "liveCodeLocked now h s = (s, Some e)"
  by (cases "cd_m s h"; cases "now > en_expires (the (cd_m s h))") (auto simp: liveCodeLocked_def)

lemma live_m: "cd_m (fst (liveCodeLocked now h s)) h' \<in> {cd_m s h', None}"
  by (rule live_cases [of s h now]) auto

text \<open>An entry after a call that does not issue it again: unchanged, gone, one more wrong attempt, or verified for sign-up.\<close>

definition later_entry :: "code_entry \<Rightarrow> code_entry \<Rightarrow> bool" where
  "later_entry e e' \<longleftrightarrow> e' = e
     \<or> (\<exists>token. e' = e\<lparr>en_code := (en_code e)\<lparr>co_Attempts := co_Attempts (en_code e) + 1, co_Revision := token\<rparr>\<rparr>)
     \<or> (\<exists>token. e' = e\<lparr>en_code := (en_code e)\<lparr>co_SignUpVerified := True, co_Revision := token\<rparr>\<rparr>)"

definition entry_after :: "code_entry option \<Rightarrow> code_entry option \<Rightarrow> bool" where
  "entry_after a b \<longleftrightarrow> b = None \<or> (\<exists>e e'. a = Some e \<and> b = Some e' \<and> later_entry e e')"

lemma entry_after_refl [simp]: "entry_after a a"
  by (cases a) (auto simp: entry_after_def later_entry_def)

lemma entry_after_None [simp]: "entry_after a None"
  by (simp add: entry_after_def)

lemma wrong_code_after:
  "cd_m s h = Some e \<Longrightarrow> entry_after (cd_m s h') (cd_m (fst (wrong_code token h e d s)) h')"
  by (auto simp: wrong_code_def Let_def entry_after_def later_entry_def split: option.splits)

lemma entry_after_verified [simp]:
  "entry_after (Some e) (Some (e\<lparr>en_code := (en_code e)\<lparr>co_SignUpVerified := True, co_Revision := token\<rparr>\<rparr>))"
  by (auto simp: entry_after_def later_entry_def)

lemma VerifyLogin_after: "entry_after (cd_m s h') (cd_m (fst (VerifyLogin now token h p c k d s)) h')"
proof (rule live_cases [of s h now])
  fix e assume *: "cd_m s h = Some e" "\<not> now > en_expires e" "liveCodeLocked now h s = (s, Some e)"
  then show ?thesis
    using wrong_code_after [OF *(1), of h' token d] by (cases "h' = h") (simp_all add: VerifyLogin_def Let_def split: option.splits)
qed (simp_all add: VerifyLogin_def)

lemma VerifyScoped_after: "entry_after (cd_m s h') (cd_m (fst (VerifyScoped now token h sc c d s)) h')"
proof (rule live_cases [of s h now])
  fix e assume *: "cd_m s h = Some e" "\<not> now > en_expires e" "liveCodeLocked now h s = (s, Some e)"
  then show ?thesis
    using wrong_code_after [OF *(1), of h' token d] by (cases "h' = h") (simp_all add: VerifyScoped_def Let_def)
qed (simp_all add: VerifyScoped_def)

lemma take_record_after: "entry_after (cd_m s h') (cd_m (fst (take_record now h fits s)) h')"
  by (rule live_cases [of s h now]) (auto simp: take_record_def)

lemma exec_after:
  assumes "\<not> reissues h op"
  shows "entry_after (cd_m s h) (cd_m (code_exec (now, token, op) s) h)"
proof (cases op)
  case (OpSet h' c ttl)
  then show ?thesis using assms by (auto simp: Code_Set_def Let_def split: option.splits)
next
  case (OpSnapshot h')
  then show ?thesis by (auto simp: GetSnapshot_def intro: live_cases [of s h' now])
next
  case (OpCompareUpdate h' r c)
  then show ?thesis using assms by (auto simp: CompareAndUpdate_def split: option.splits intro: live_cases [of s h' now])
next
  case (OpCompareDelete h' r)
  then show ?thesis by (auto simp: CompareAndDelete_def intro: live_cases [of s h' now])
next
  case (OpUpdate h' c)
  then show ?thesis using assms by (auto simp: Code_Update_def split: option.splits)
qed (auto simp: VerifyLogin_after VerifyScoped_after take_record_after Code_Get_def Code_Del_def ConsumeScoped_def Let_def
  ConsumeSignUpVerified_def TakeLoginCode_def InvalidateLoginCode_def split: option.splits)

section \<open>Bounded guessing\<close>

text \<open>The bound on attempts that a call brings along for records without one of their own.\<close>

fun call_default :: "code_op \<Rightarrow> int" where
  "call_default (OpVerifyScoped h sc c d) = d"
| "call_default (OpVerifyLogin h p c k d) = d"
| "call_default _ = 0"

definition guesses_left :: "int \<Rightarrow> code_entry option \<Rightarrow> nat" where
  "guesses_left d r = (case r of None \<Rightarrow> 0
     | Some e \<Rightarrow> nat (max 1 (attempt_limit (en_code e) d - co_Attempts (en_code e))))"

lemma attempt_limit_mono: "d' \<le> d \<Longrightarrow> attempt_limit r d' \<le> attempt_limit r d"
  by (simp add: attempt_limit_def Let_def)

lemma attempt_limit_attempts [simp]:
  "attempt_limit (r\<lparr>co_Attempts := a, co_Revision := v\<rparr>) d = attempt_limit r d"
  "attempt_limit (r\<lparr>co_SignUpVerified := b, co_Revision := v\<rparr>) d = attempt_limit r d"
  by (simp_all add: attempt_limit_def)

lemma entry_after_guesses: "entry_after a b \<Longrightarrow> guesses_left d b \<le> guesses_left d a"
  by (auto simp: entry_after_def later_entry_def guesses_left_def)

lemma wrong_code_guesses:
  assumes "cd_m s h = Some e" "d' \<le> d"
  shows "guesses_left d (cd_m (fst (wrong_code (Some t) h e d' s)) h) + 1 \<le> guesses_left d (Some e)"
  using attempt_limit_mono [OF assms(2), of "en_code e"] by (auto simp: wrong_code_def Let_def guesses_left_def)

lemma wrong_guess_guesses:
  assumes "wrong_guess h (now, token, op) s" "call_default op \<le> d"
  shows "guesses_left d (cd_m (code_exec (now, token, op) s) h) + 1 \<le> guesses_left d (cd_m s h)"
proof (cases op)
  case (OpVerifyLogin h' p c k d')
  then obtain e t where e: "h' = h" "cd_m s h = Some e" "token = Some t" "comparable_login now p e"
    "co_Code (en_code e) \<noteq> c" "c \<noteq> []"
    using assms(1) by (auto split: option.splits)
  then have "code_exec (now, token, op) s = fst (wrong_code (Some t) h e d' s)"
    using OpVerifyLogin by (auto simp: VerifyLogin_def comparable_login_def liveCodeLocked_def)
  then show ?thesis using wrong_code_guesses [OF e(2), of d' d t] e assms(2) OpVerifyLogin by simp
next
  case (OpVerifyScoped h' sc c d')
  then obtain e t where e: "h' = h" "cd_m s h = Some e" "token = Some t" "comparable_scoped now sc h s e"
    "co_Code (en_code e) \<noteq> c" "c \<noteq> []"
    using assms(1) by (auto split: option.splits)
  then have "code_exec (now, token, op) s = fst (wrong_code (Some t) h e d' s)"
    using OpVerifyScoped by (auto simp: VerifyScoped_def comparable_scoped_def liveCodeLocked_def)
  then show ?thesis using wrong_code_guesses [OF e(2), of d' d t] e assms(2) OpVerifyScoped by simp
qed (use assms in auto)

lemma guesses_run:
  assumes "\<forall>(now, token, op) \<in> set cs. \<not> reissues h op \<and> call_default op \<le> d"
  shows "count_run (wrong_guess h) cs s \<le> guesses_left d (cd_m s h)"
  using assms
proof (induction cs arbitrary: s)
  case (Cons c cs)
  obtain now token op where c: "c = (now, token, op)" by (cases c)
  have "count_run (wrong_guess h) cs (code_exec c s) \<le> guesses_left d (cd_m (code_exec c s) h)"
    using Cons by simp
  moreover have "guesses_left d (cd_m (code_exec c s) h) \<le> guesses_left d (cd_m s h)"
    unfolding c by (rule entry_after_guesses [OF exec_after]) (use Cons.prems c in auto)
  moreover have "wrong_guess h c s \<Longrightarrow> guesses_left d (cd_m (code_exec c s) h) + 1 \<le> guesses_left d (cd_m s h)"
    unfolding c by (rule wrong_guess_guesses) (use Cons.prems c in auto)
  ultimately show ?case by (auto simp del: code_exec.simps)
qed simp

section \<open>Single use\<close>

definition open_record :: "code_entry option \<Rightarrow> bool" where
  "open_record r \<longleftrightarrow> (case r of None \<Rightarrow> False | Some e \<Rightarrow> \<not> co_SignUpVerified (en_code e))"

lemma open_record_after: "entry_after a b \<Longrightarrow> open_record b \<Longrightarrow> open_record a"
  by (auto simp: entry_after_def later_entry_def open_record_def)

lemma wrong_code_not_accepted [simp]: "snd (wrong_code token h e d s) \<noteq> Some (LoginCodeVerifyAccepted, r)"
  by (auto simp: wrong_code_def Let_def split: option.splits)

lemma VerifyLogin_accepted:
  assumes "snd (VerifyLogin now token h p c k d s) = Some (LoginCodeVerifyAccepted, r)"
  shows "open_record (cd_m s h)" "\<not> open_record (cd_m (fst (VerifyLogin now token h p c k d s)) h)"
    "\<not> k \<Longrightarrow> cd_m (fst (VerifyLogin now token h p c k d s)) h = None" "\<exists>e. cd_m s h = Some e"
  by (rule live_cases [of s h now];
      use assms in \<open>auto simp: VerifyLogin_def Let_def open_record_def split: if_splits option.splits\<close>)+

lemma VerifyScoped_accepted:
  assumes "snd (VerifyScoped now token h sc c d s) = Some (LoginCodeVerifyAccepted, r)"
  shows "open_record (cd_m s h)" "cd_m (fst (VerifyScoped now token h sc c d s)) h = None" "\<exists>e. cd_m s h = Some e"
  by (rule live_cases [of s h now];
      use assms in \<open>auto simp: VerifyScoped_def Let_def open_record_def split: if_splits option.splits\<close>)+

lemma take_record_taken:
  assumes "snd (take_record now h fits s) = Some r"
  shows "\<exists>e. cd_m s h = Some e" "cd_m (fst (take_record now h fits s)) h = None"
  by (rule live_cases [of s h now]; use assms in \<open>auto simp: take_record_def split: if_splits\<close>)+

lemma ConsumeScoped_taken:
  assumes "snd (ConsumeScoped now h sc s) = Some r"
  shows "\<exists>e. cd_m s h = Some e" "cd_m (fst (ConsumeScoped now h sc s)) h = None"
  using assms by (auto simp: ConsumeScoped_def Let_def split: if_splits option.splits)

lemma accepts_closes:
  assumes "accepts h (now, token, op) s"
  shows "open_record (cd_m s h)" "\<not> open_record (cd_m (code_exec (now, token, op) s) h)"
  using assms by (cases op; auto dest: VerifyLogin_accepted VerifyScoped_accepted simp: open_record_def)+

lemma redeems_removes:
  assumes "redeems h (now, token, op) s"
  shows "cd_m s h \<noteq> None" "cd_m (code_exec (now, token, op) s) h = None"
  using assms unfolding atomize_conj
  by (cases op; auto dest: VerifyLogin_accepted VerifyScoped_accepted take_record_taken ConsumeScoped_taken
      simp: ConsumeSignUpVerified_def TakeLoginCode_def)

lemma count_once:
  assumes stays: "\<And>now token op s. \<not> reissues h op \<Longrightarrow> \<not> Q (cd_m s h) \<Longrightarrow> \<not> Q (cd_m (code_exec (now, token, op) s) h)"
    and step: "\<And>now token op s. P (now, token, op) s \<Longrightarrow> Q (cd_m s h)"
      "\<And>now token op s. P (now, token, op) s \<Longrightarrow> \<not> Q (cd_m (code_exec (now, token, op) s) h)"
    and run: "\<forall>(now, token, op) \<in> set cs. \<not> reissues h op"
  shows "count_run P cs s \<le> (if Q (cd_m s h) then 1 else 0)"
  using run
proof (induction cs arbitrary: s)
  case (Cons c cs)
  obtain now token op where c: "c = (now, token, op)" by (cases c)
  have "count_run P cs (code_exec c s) \<le> (if Q (cd_m (code_exec c s) h) then 1 else 0)"
    using Cons by simp
  moreover have "\<not> Q (cd_m s h) \<Longrightarrow> \<not> Q (cd_m (code_exec c s) h)"
    unfolding c by (rule stays) (use Cons.prems c in auto)
  moreover note step(1) [of now token op s] step(2) [of now token op s]
  ultimately show ?case unfolding c by (auto simp del: code_exec.simps split: if_splits)
qed simp

lemma exec_stays_gone:
  assumes "\<not> reissues h op" "cd_m s h = None"
  shows "cd_m (code_exec (now, token, op) s) h = None"
  using exec_after [OF assms(1), of s now token] assms(2) by (auto simp: entry_after_def simp del: code_exec.simps)

section \<open>The scope index\<close>

text \<open>The index of scopes points to every stored record with a valid scope.\<close>

definition index_ok :: "code_store \<Rightarrow> bool" where
  "index_ok s \<longleftrightarrow> (\<forall>h e scope. cd_m s h = Some e \<longrightarrow> PhoneCode_Scope (en_code e) = scope \<longrightarrow> PhoneCodeScope_Valid scope
     \<longrightarrow> cd_scopes s scope = Some h)"

lemma index_okD:
  "index_ok s \<Longrightarrow> cd_m s h = Some e \<Longrightarrow> PhoneCode_Scope (en_code e) = scope \<Longrightarrow> PhoneCodeScope_Valid scope
    \<Longrightarrow> cd_scopes s scope = Some h"
  unfolding index_ok_def by blast

lemma index_okI:
  "(\<And>h e scope. cd_m s h = Some e \<Longrightarrow> PhoneCode_Scope (en_code e) = scope \<Longrightarrow> PhoneCodeScope_Valid scope
    \<Longrightarrow> cd_scopes s scope = Some h) \<Longrightarrow> index_ok s"
  unfolding index_ok_def by blast

lemma index_unique:
  assumes "index_ok s" "cd_m s h = Some e" "cd_m s h' = Some e'"
    "PhoneCode_Scope (en_code e') = PhoneCode_Scope (en_code e)" "PhoneCodeScope_Valid (PhoneCode_Scope (en_code e))"
  shows "h' = h"
  using index_okD [OF assms(1) assms(2) refl assms(5)] index_okD [OF assms(1) assms(3) assms(4) assms(5)] by simp

lemma index_ok_remove: "index_ok s \<Longrightarrow> index_ok (s\<lparr>cd_m := (cd_m s)(h := None)\<rparr>)"
  by (rule index_okI) (auto dest: index_okD split: if_splits)

lemma index_ok_delete:
  assumes "index_ok s" shows "index_ok (deleteCodeLocked h c s)"
  by (rule index_okI) (auto simp: deleteCodeLocked_def Let_def scope_hash_def dest: index_okD [OF assms] split: if_splits)

lemma index_ok_drop:
  assumes "index_ok s" "cd_m s h = None" shows "index_ok (drop_scope sc h s)"
  using assms by (auto simp: index_ok_def drop_scope_def scope_hash_def)

lemma index_ok_live: "index_ok s \<Longrightarrow> index_ok (fst (liveCodeLocked now h s))"
  by (rule live_cases [of s h now]) (simp_all add: index_ok_delete)

lemma index_ok_replace:
  assumes "index_ok s" "cd_m s h = Some e" "PhoneCode_Scope (en_code e') = PhoneCode_Scope (en_code e)"
  shows "index_ok (s\<lparr>cd_m := (cd_m s)(h \<mapsto> e')\<rparr>)"
  using assms by (auto simp: index_ok_def)

lemma index_ok_unscoped:
  assumes "index_ok s" "\<not> PhoneCodeScope_Valid (PhoneCode_Scope (en_code e'))"
  shows "index_ok (s\<lparr>cd_m := (cd_m s)(h \<mapsto> e')\<rparr>)"
  using assms by (auto simp: index_ok_def)

lemma scope_unchanged [simp]:
  "PhoneCode_Scope (c\<lparr>co_Revision := v\<rparr>) = PhoneCode_Scope c"
  "PhoneCode_Scope (c\<lparr>co_Attempts := a\<rparr>) = PhoneCode_Scope c"
  "PhoneCode_Scope (c\<lparr>co_SignUpVerified := b\<rparr>) = PhoneCode_Scope c"
  by (simp_all add: PhoneCode_Scope_def)

lemma scope_no_purpose [simp]: "co_Purpose c = [] \<Longrightarrow> \<not> PhoneCodeScope_Valid (PhoneCode_Scope c)"
  by (simp add: PhoneCodeScope_Valid_def PhoneCode_Scope_def)

lemma index_ok_wrong_code:
  "index_ok s \<Longrightarrow> cd_m s h = Some e \<Longrightarrow> index_ok (fst (wrong_code token h e d s))"
  by (auto simp: wrong_code_def Let_def index_ok_delete intro!: index_ok_replace split: option.splits)

lemma index_ok_VerifyLogin:
  assumes "index_ok s" shows "index_ok (fst (VerifyLogin now token h p c k d s))"
  by (rule live_cases [of s h now])
    (use assms in \<open>auto simp: VerifyLogin_def Let_def index_ok_delete index_ok_wrong_code intro!: index_ok_replace
      split: option.splits\<close>)

lemma index_ok_VerifyScoped:
  assumes "index_ok s" shows "index_ok (fst (VerifyScoped now token h sc c d s))"
  by (rule live_cases [of s h now])
    (use assms in \<open>auto simp: VerifyScoped_def Let_def index_ok_delete index_ok_wrong_code index_ok_drop\<close>)

lemma index_ok_take: "index_ok s \<Longrightarrow> index_ok (fst (take_record now h fits s))"
  by (rule live_cases [of s h now]) (auto simp: take_record_def index_ok_delete)

lemma index_ok_ConsumeScoped:
  assumes "index_ok s" shows "index_ok (fst (ConsumeScoped now h sc s))"
proof (cases "cd_m s h")
  case None
  then show ?thesis using assms by (auto simp: ConsumeScoped_def index_ok_def scope_hash_def)
next
  case (Some e)
  have "scope_hash s sc = h \<Longrightarrow> index_ok (s\<lparr>cd_m := (cd_m s)(h := None), cd_scopes := (cd_scopes s)(sc := None)\<rparr>)"
    "scope_hash s sc = h \<Longrightarrow> index_ok (s\<lparr>cd_m := (cd_m s)(h := None),
      cd_scopes := (cd_scopes s)(sc := None, PhoneCode_Scope (en_code e) := None)\<rparr>)"
    by (rule index_okI; auto simp: scope_hash_def dest: index_okD [OF assms] index_unique [OF assms Some] split: option.splits if_splits)+
  then show ?thesis using assms Some by (auto simp: ConsumeScoped_def Let_def index_ok_delete)
qed

lemma index_ok_Set:
  assumes "index_ok s" shows "index_ok (fst (Code_Set now token h c ttl s))"
  proof (cases token)
  case (Some v)
  show ?thesis by (rule index_okI) (auto simp: Some Code_Set_def Let_def dest: index_okD [OF assms] split: option.splits if_splits)
qed (simp add: Code_Set_def assms)

text \<open>
  \<open>CodeStore.Update\<close> writes the record it is given without touching the index of scopes, so it keeps
  the index only for a caller that leaves the scope as it was.
\<close>

fun keeps_scope :: "code_call \<Rightarrow> code_store \<Rightarrow> bool" where
  "keeps_scope (now, token, OpUpdate h c) s \<longleftrightarrow>
     (case cd_m s h of None \<Rightarrow> True | Some e \<Rightarrow> PhoneCode_Scope c = PhoneCode_Scope (en_code e))"
| "keeps_scope _ s \<longleftrightarrow> True"

lemma index_ok_Update:
  assumes "index_ok s" "keeps_scope (now, token, OpUpdate h c) s" shows "index_ok (fst (Code_Update now token h c s))"
  using assms by (auto simp: Code_Update_def index_ok_delete split: option.splits intro!: index_ok_replace)

lemma index_ok_exec: "index_ok s \<Longrightarrow> keeps_scope c s \<Longrightarrow> index_ok (code_exec c s)"
proof (cases c)
  fix now token op assume ok: "index_ok s" and c: "c = (now, token, op)" and keeps: "keeps_scope c s"
  show "index_ok (code_exec c s)"
  proof (cases op)
    case (OpCompareUpdate h r n)
    then show ?thesis unfolding c using ok
      by (auto simp: CompareAndUpdate_def liveCodeLocked_def index_ok_delete split: option.splits intro!: index_ok_unscoped)
  next
    case (OpUpdate h n)
    then show ?thesis using index_ok_Update [OF ok, of now token h n] keeps c by (simp del: keeps_scope.simps)
  qed (use ok c in \<open>auto simp: index_ok_Set index_ok_delete index_ok_remove index_ok_take index_ok_VerifyLogin index_ok_VerifyScoped
      index_ok_ConsumeScoped Code_Get_def Code_Del_def ConsumeSignUpVerified_def TakeLoginCode_def
      InvalidateLoginCode_def GetSnapshot_def CompareAndDelete_def liveCodeLocked_def split: option.splits\<close>)
qed

lemma index_ok_New: "index_ok NewCodeStore"
  by (simp add: index_ok_def NewCodeStore_def)

interpretation code_runs: invariant_system "\<lambda>s s'. \<exists>c. keeps_scope c s \<and> s' = code_exec c s" index_ok
  by unfold_locales (auto simp: index_ok_exec simp del: code_exec.simps keeps_scope.simps)

section \<open>Properties\<close>

text \<open>
  C15. Guessing is bounded: whatever calls are made, in whatever order, as long as the hash is not issued
  again the store compares the code of a record with at most as many wrong codes as its bound on
  attempts leaves. \<open>d\<close> bounds the default that the calls bring along for records without a bound.
\<close>
theorem code_guesses_bounded:
  assumes "cd_m s h = Some e"
    and "\<forall>(now, token, op) \<in> set cs. \<not> reissues h op \<and> call_default op \<le> d"
  shows "count_run (wrong_guess h) cs s \<le> nat (max 1 (attempt_limit (en_code e) d - co_Attempts (en_code e)))"
  using guesses_run [OF assms(2), of s] assms(1) by (simp add: guesses_left_def)

text \<open>
  C16. A code is used once: between two issues of a hash at most one call accepts its code, and at most
  one call takes the record out of the store to act on it.
\<close>
theorem code_single_use:
  assumes "\<forall>(now, token, op) \<in> set cs. \<not> reissues h op"
  shows "count_run (accepts h) cs s \<le> 1 \<and> count_run (redeems h) cs s \<le> 1"
proof
  have "count_run (accepts h) cs s \<le> (if open_record (cd_m s h) then 1 else 0)"
    using assms by (intro count_once [where Q = open_record])
      (auto dest: open_record_after [OF exec_after] accepts_closes simp del: code_exec.simps accepts.simps)
  then show "count_run (accepts h) cs s \<le> 1" by (simp split: if_splits)
  have "count_run (redeems h) cs s \<le> (if cd_m s h \<noteq> None then 1 else 0)"
    using assms by (intro count_once [where Q = "\<lambda>r. r \<noteq> None"])
      (auto simp: exec_stays_gone redeems_removes simp del: code_exec.simps redeems.simps)
  then show "count_run (redeems h) cs s \<le> 1" by (simp split: if_splits)
qed

text \<open>
  One live code per purpose, account, key and phone number: in a store reached from the empty one
  by calls of which no \<open>Update\<close> changes a scope,
  two hashes never hold records of the same valid scope.
\<close>
theorem code_scope_unique:
  assumes "(\<lambda>s s'. \<exists>c. keeps_scope c s \<and> s' = code_exec c s)\<^sup>*\<^sup>* NewCodeStore s"
    and "cd_m s h = Some e" "cd_m s h' = Some e'"
    and "PhoneCode_Scope (en_code e') = PhoneCode_Scope (en_code e)" "PhoneCodeScope_Valid (PhoneCode_Scope (en_code e))"
  shows "h' = h \<and> cd_scopes s (PhoneCode_Scope (en_code e)) = Some h"
proof -
  have "index_ok s" by (rule code_runs.run_inv [OF assms(1) index_ok_New])
  then show ?thesis using assms index_unique index_okD by simp
qed

text \<open>
  \<open>VerifyLogin\<close> accepts a code exactly when a current record for that phone number is stored under
  the hash, has not expired, was not verified before, was issued for a login on a channel that takes
  codes, and carries this code; and, to be kept for a sign-up, was not issued to an account.
\<close>
theorem code_accept_exact:
  "(\<exists>r. snd (VerifyLogin now token h phone code keep d s) = Some (LoginCodeVerifyAccepted, r)) \<longleftrightarrow>
   (\<exists>e. cd_m s h = Some e \<and> now \<le> en_expires e \<and> co_Version (en_code e) = PhoneCodeVersionCurrent
      \<and> co_SignUpVerified (en_code e) = False \<and> co_Purpose (en_code e) = [] \<and> co_Phone (en_code e) = phone
      \<and> LoginCodeChannelVerifiable (co_Channel (en_code e)) \<and> code \<noteq> [] \<and> co_Code (en_code e) = code
      \<and> (if keep then co_IssuedUserID (en_code e) = 0 \<and> token \<noteq> None else True))"
  by (rule live_cases [of s h now]) (auto simp: VerifyLogin_def Let_def split: if_splits option.splits)

section \<open>Witnesses\<close>

definition demo_code :: phone_code where
  "demo_code = \<lparr>co_Version = 2, co_Revision = [], co_IssuedUserID = 7, co_SignUpVerified = False, co_Phone = ''100'',
     co_Code = ''123'', co_DeliveryID = [], co_Channel = ''sms'', co_Purpose = [], co_UserID = 0, co_AuthKeyID = 0,
     co_SessionID = 0, co_Email = [], co_PendingEmail = [], co_Attempts = 0, co_MaxAttempts = 2, co_VerifiedEmail = False,
     co_RequireSignUp = False, co_LoginEmailHash = [], co_RecoveryBinding = [], co_AccountDeletionHash = []\<rparr>"

definition scoped_code :: phone_code where
  "scoped_code = demo_code\<lparr>co_Purpose := ''change_phone'', co_UserID := 7, co_AuthKeyID := 9\<rparr>"

abbreviation demo_store :: code_store where
  "demo_store \<equiv> fst (Code_Set 0 (Some ''r'') ''h'' demo_code 300 NewCodeStore)"

definition guess :: "string \<Rightarrow> code_call" where
  "guess c = (1, Some ''t'', OpVerifyLogin ''h'' ''100'' c False 5)"

lemmas code_eval = demo_code_def scoped_code_def guess_def Code_Set_def VerifyLogin_def liveCodeLocked_def wrong_code_def
  attempt_limit_def NewCodeStore_def deleteCodeLocked_def PhoneCodeVersionCurrent_def LoginCodeChannelVerifiable_def
  PhoneCode_Scope_def PhoneCodeScope_Valid_def comparable_login_def Let_def

theorem code_guesses_bounded_witness:
  "count_run (wrong_guess ''h'') [guess ''1'', guess ''2'', guess ''123''] demo_store = 2 \<and>
   count_run (wrong_guess ''h'') [guess ''1'', guess ''2'', guess ''123''] demo_store \<le> nat (max 1 (2 - 0))"
proof
  show "count_run (wrong_guess ''h'') [guess ''1'', guess ''2'', guess ''123''] demo_store = 2"
    by (simp add: code_eval)
  show "count_run (wrong_guess ''h'') [guess ''1'', guess ''2'', guess ''123''] demo_store \<le> nat (max 1 (2 - 0))"
    using code_guesses_bounded [of demo_store "''h''" "\<lparr>en_code = demo_code\<lparr>co_Revision := ''r''\<rparr>, en_expires = 300\<rparr>"
        "[guess ''1'', guess ''2'', guess ''123'']" 5]
    by (simp add: code_eval)
qed

theorem code_single_use_witness:
  "count_run (accepts ''h'') [guess ''1'', guess ''123'', guess ''123''] demo_store = 1 \<and>
   count_run (accepts ''h'') [guess ''1'', guess ''123'', guess ''123''] demo_store \<le> 1"
proof
  show "count_run (accepts ''h'') [guess ''1'', guess ''123'', guess ''123''] demo_store = 1"
    by (simp add: code_eval)
  show "count_run (accepts ''h'') [guess ''1'', guess ''123'', guess ''123''] demo_store \<le> 1"
    by (rule code_single_use [THEN conjunct1]) (simp add: guess_def)
qed

theorem code_scope_unique_witness:
  "\<exists>s :: code_store. cd_m s ''h'' = None \<and> cd_m s ''h2'' \<noteq> None \<and> cd_scopes s (PhoneCode_Scope scoped_code) = Some ''h2''"
proof -
  let ?s1 = "code_exec (0, Some ''r'', OpSet ''h'' scoped_code 300) NewCodeStore"
  let ?s = "code_exec (1, Some ''q'', OpSet ''h2'' scoped_code 300) ?s1"
  have run: "(\<lambda>s s'. \<exists>c. keeps_scope c s \<and> s' = code_exec c s)\<^sup>*\<^sup>* NewCodeStore ?s"
    by (rule rtranclp.rtrancl_into_rtrancl [OF r_into_rtranclp]) (blast intro: keeps_scope.simps(2) [THEN iffD2])+
  have h2: "cd_m ?s ''h2'' = Some \<lparr>en_code = scoped_code\<lparr>co_Revision := ''q''\<rparr>, en_expires = 301\<rparr>"
    by (simp add: code_eval)
  have "cd_scopes ?s (PhoneCode_Scope scoped_code) = Some ''h2''"
    using code_scope_unique [OF run h2 h2] by (simp add: code_eval)
  moreover have "cd_m ?s ''h'' = None" by (simp add: code_eval)
  moreover have "cd_m ?s ''h2'' \<noteq> None" by (simp add: h2 del: code_exec.simps)
  ultimately show ?thesis by blast
qed

end
