(* ===== verification/Auth_Keys.thy ===== *)
theory Auth_Keys
  imports Gram_Prelude
begin

text \<open>
  Authorization keys (src/internal/store/authkey.go, src/internal/store/authkey_session_layer.go,
  src/internal/store/memory/auth.go and authkey_session_layer.go): the protocol keys of devices, the
  binding of temporary keys to permanent ones, the protocol layer each session has shown, and the
  authorizations that sign a key in to an account. The three stores share one key state; every
  operation holds its mutex, so a run is a sequence of operations. Key ids, the arrays \<open>[8]byte\<close> that
  the code reads as little-endian \<open>int64\<close>, are 64-bit words. Times are nanoseconds. An
  \<open>AuthorizationStore\<close> is known by its address; the stores linked to the key state are its mirrors.
  A Go loop over a map that stops early takes the order of its iteration as an argument.
\<close>

section \<open>Records\<close>

type_synonym key_id = "64 word"

record auth_key_data =
  ak_ID :: key_id
  ak_Value :: "8 word list"
  ak_ServerSalt :: int
  ak_CreatedAt :: int
  ak_ExpiresAt :: int
  ak_Layer :: int
  ak_LayerObservationID :: int
  ak_DeviceModel :: string
  ak_Platform :: string
  ak_SystemVersion :: string
  ak_APIID :: int
  ak_AppVersion :: string

record key_client_info =
  ki_Layer :: int
  ki_DeviceModel :: string
  ki_Platform :: string
  ki_SystemVersion :: string
  ki_APIID :: int
  ki_AppVersion :: string

record client_info = key_client_info +
  ci_IP :: string

record temp_binding =
  tb_TempAuthKeyID :: key_id
  tb_PermAuthKeyID :: key_id
  tb_Nonce :: int
  tb_TempSessionID :: int
  tb_ExpiresAt :: int
  tb_EncryptedMessage :: "8 word list"

record session_layer =
  sl_Layer :: int
  sl_MessageID :: int
  sl_ObservationID :: int
  sl_ExpiresAt :: int
  sl_SharedDefault :: bool

record authorization =
  az_AuthKeyID :: key_id
  az_UserID :: int
  az_Hash :: int
  az_Layer :: int
  az_DeviceModel :: string
  az_Platform :: string
  az_SystemVersion :: string
  az_APIID :: int
  az_AppVersion :: string
  az_IP :: string
  az_PasswordPending :: bool
  az_CreatedAt :: int
  az_ActiveAt :: int

datatype auth_error =
    ErrInvalidAuthKeyProtocolExpiry | ErrAuthKeyProtocolMetadataConflict | ErrAuthKeyNotFound
  | ErrAuthKeyNotPermanent | ErrAuthKeyBindingInvalid | ErrAuthKeySessionLayerInvalid
  | ErrAuthKeySessionLayerConflict | ErrTempAuthKeyAlreadyBound | ErrAuthorizationStateChanged

record auth_store =
  as_linked :: bool
  as_m :: "key_id \<rightharpoonup> authorization"

record auth_state =
  keys :: "key_id \<rightharpoonup> auth_key_data"
  bindings :: "key_id \<rightharpoonup> temp_binding"
  sessionLayers :: "key_id \<times> int \<rightharpoonup> session_layer"
  nextLayerObservation :: int
  auths :: "nat \<Rightarrow> auth_store"

definition NewAuthorizationStore :: auth_store where
  "NewAuthorizationStore = \<lparr>as_linked = False, as_m = Map.empty\<rparr>"

definition NewAuthKeyStore :: auth_state where
  "NewAuthKeyStore = \<lparr>keys = Map.empty, bindings = Map.empty, sessionLayers = Map.empty, nextLayerObservation = 0,
     auths = (\<lambda>_. NewAuthorizationStore)\<rparr>"

definition ValidNewAuthKeyProtocolExpiry :: "int \<Rightarrow> bool" where
  "ValidNewAuthKeyProtocolExpiry expiresAt \<longleftrightarrow> expiresAt \<ge> 0 \<and> expiresAt \<le> 2147483647"

section \<open>Merging layer observations\<close>

definition MergeAuthKeyLayerObservations :: "int \<Rightarrow> int \<Rightarrow> int \<Rightarrow> int \<Rightarrow> auth_error + int \<times> int" where
  "MergeAuthKeyLayerObservations tempLayer tempObservationID permLayer permObservationID =
    (if tempLayer < 0 \<or> permLayer < 0 \<or> tempObservationID < 0 \<or> permObservationID < 0
        \<or> (tempObservationID > 0 \<and> tempLayer = 0) \<or> (permObservationID > 0 \<and> permLayer = 0)
     then Inl ErrAuthKeySessionLayerInvalid
     else if tempObservationID > permObservationID then Inr (tempLayer, tempObservationID)
     else if permObservationID > tempObservationID then Inr (permLayer, permObservationID)
     else if tempObservationID > 0 \<and> tempLayer \<noteq> permLayer then Inl ErrAuthKeySessionLayerConflict
     else if tempObservationID > 0 then Inr (tempLayer, tempObservationID)
     else Inr (permLayer, 0))"

section \<open>Mirrors\<close>

definition mirror_layer :: "key_id list \<Rightarrow> int \<Rightarrow> auth_store \<Rightarrow> auth_store" where
  "mirror_layer ids layer a =
    (if as_linked a
     then a\<lparr>as_m := (\<lambda>kid. if kid \<in> set ids then map_option (\<lambda>z. z\<lparr>az_Layer := layer\<rparr>) (as_m a kid) else as_m a kid)\<rparr>
     else a)"

definition mirrorAuthorizationLayersLocked :: "key_id list \<Rightarrow> int \<Rightarrow> auth_state \<Rightarrow> auth_state" where
  "mirrorAuthorizationLayersLocked ids layer s = s\<lparr>auths := (\<lambda>i. mirror_layer ids layer (auths s i))\<rparr>"

text \<open>The ids to delete come as a predicate: the loops that collect them leave their order open.\<close>

definition mirror_delete :: "(key_id \<Rightarrow> bool) \<Rightarrow> auth_store \<Rightarrow> auth_store" where
  "mirror_delete gone a = (if as_linked a then a\<lparr>as_m := (\<lambda>kid. if gone kid then None else as_m a kid)\<rparr> else a)"

definition deleteAuthorizationMirrorsLocked :: "(key_id \<Rightarrow> bool) \<Rightarrow> auth_state \<Rightarrow> auth_state" where
  "deleteAuthorizationMirrorsLocked gone s = s\<lparr>auths := (\<lambda>i. mirror_delete gone (auths s i))\<rparr>"

section \<open>Protocol keys\<close>

definition keep_metadata :: "auth_key_data \<Rightarrow> auth_key_data \<Rightarrow> auth_key_data" where
  "keep_metadata current k = k\<lparr>
     ak_CreatedAt := (if ak_CreatedAt k = 0 then ak_CreatedAt current else ak_CreatedAt k),
     ak_Layer := ak_Layer current, ak_LayerObservationID := ak_LayerObservationID current,
     ak_DeviceModel := ak_DeviceModel current, ak_Platform := ak_Platform current,
     ak_SystemVersion := ak_SystemVersion current, ak_APIID := ak_APIID current,
     ak_AppVersion := ak_AppVersion current\<rparr>"

definition put_key :: "auth_key_data \<Rightarrow> auth_state \<Rightarrow> auth_state" where
  "put_key k s =
    (let s1 = mirrorAuthorizationLayersLocked [ak_ID k] (ak_Layer k) (s\<lparr>keys := (keys s)(ak_ID k \<mapsto> k)\<rparr>)
     in s1\<lparr>nextLayerObservation := max (nextLayerObservation s1) (ak_LayerObservationID k)\<rparr>)"

definition Key_Save :: "auth_key_data \<Rightarrow> auth_state \<Rightarrow> auth_state \<times> (auth_error + unit)" where
  "Key_Save k s =
    (if \<not> ValidNewAuthKeyProtocolExpiry (ak_ExpiresAt k) then (s, Inl ErrInvalidAuthKeyProtocolExpiry)
     else case keys s (ak_ID k) of
       Some current \<Rightarrow>
         if ak_Value current \<noteq> ak_Value k \<or> ak_ExpiresAt current \<noteq> ak_ExpiresAt k
         then (s, Inl ErrAuthKeyProtocolMetadataConflict)
         else (put_key (keep_metadata current k) s, Inr ())
     | None \<Rightarrow> (put_key k s, Inr ()))"

definition Key_Get :: "key_id \<Rightarrow> auth_state \<Rightarrow> auth_key_data option" where
  "Key_Get kid s = keys s kid"

definition LoadBindingKeys :: "key_id \<Rightarrow> key_id \<Rightarrow> auth_state \<Rightarrow> auth_key_data option \<times> auth_key_data option" where
  "LoadBindingKeys tempID permID s = (keys s tempID, keys s permID)"

definition mergeAuthKeyClientInfo :: "auth_key_data \<Rightarrow> key_client_info \<Rightarrow> auth_key_data" where
  "mergeAuthKeyClientInfo k info = k\<lparr>
     ak_Layer := (if ki_Layer info > 0 then ki_Layer info else ak_Layer k),
     ak_DeviceModel := (if ki_DeviceModel info \<noteq> [] then ki_DeviceModel info else ak_DeviceModel k),
     ak_Platform := (if ki_Platform info \<noteq> [] then ki_Platform info else ak_Platform k),
     ak_SystemVersion := (if ki_SystemVersion info \<noteq> [] then ki_SystemVersion info else ak_SystemVersion k),
     ak_APIID := (if ki_APIID info \<noteq> 0 then ki_APIID info else ak_APIID k),
     ak_AppVersion := (if ki_AppVersion info \<noteq> [] then ki_AppVersion info else ak_AppVersion k)\<rparr>"

definition Key_UpdateClientInfo :: "key_id \<Rightarrow> key_client_info \<Rightarrow> auth_state \<Rightarrow> auth_state \<times> (auth_error + unit)" where
  "Key_UpdateClientInfo kid info s =
    (case keys s kid of
       None \<Rightarrow> (s, Inl ErrAuthKeyNotFound)
     | Some k \<Rightarrow>
         if ki_Layer info > 0 \<and> ak_LayerObservationID k > 0 \<and> ki_Layer info \<noteq> ak_Layer k
         then (s, Inl ErrAuthKeySessionLayerConflict)
         else let k = mergeAuthKeyClientInfo k info in
           (mirrorAuthorizationLayersLocked [kid] (ak_Layer k) (s\<lparr>keys := (keys s)(kid \<mapsto> k)\<rparr>), Inr ()))"

definition deleteSessionLayersLocked :: "(key_id \<Rightarrow> bool) \<Rightarrow> auth_state \<Rightarrow> auth_state" where
  "deleteSessionLayersLocked gone s = s\<lparr>sessionLayers := (\<lambda>key. if gone (fst key) then None else sessionLayers s key)\<rparr>"

definition bound_to :: "key_id \<Rightarrow> auth_state \<Rightarrow> key_id \<Rightarrow> bool" where
  "bound_to perm s t = (case bindings s t of None \<Rightarrow> False | Some b \<Rightarrow> tb_PermAuthKeyID b = perm)"

text \<open>The second result says which keys are gone.\<close>

definition deleteProtocolAuthKeyLocked :: "key_id \<Rightarrow> auth_state \<Rightarrow> auth_state \<times> (key_id \<Rightarrow> bool)" where
  "deleteProtocolAuthKeyLocked kid s =
    (case keys s kid of
       None \<Rightarrow> (s, \<lambda>_. False)
     | Some deleting \<Rightarrow>
         let gone = (if ak_ExpiresAt deleting > 0 then (\<lambda>_. False) else bound_to kid s);
             s1 = s\<lparr>bindings := (if ak_ExpiresAt deleting > 0 then (bindings s)(kid := None)
                                  else (\<lambda>t. if gone t then None else bindings s t)),
                    keys := (\<lambda>t. if gone t \<or> t = kid then None else keys s t)\<rparr>
         in (deleteSessionLayersLocked (\<lambda>t. gone t \<or> t = kid) s1, \<lambda>t. gone t \<or> t = kid))"

definition Key_Delete :: "key_id \<Rightarrow> auth_state \<Rightarrow> auth_state" where
  "Key_Delete kid s = (case deleteProtocolAuthKeyLocked kid s of (s, gone) \<Rightarrow> deleteAuthorizationMirrorsLocked gone s)"

section \<open>Bindings of temporary keys\<close>

definition SaveWithState :: "temp_binding \<Rightarrow> auth_state \<Rightarrow> auth_state \<times> (auth_error + int \<times> int)" where
  "SaveWithState b s =
    (let t = tb_TempAuthKeyID b; p = tb_PermAuthKeyID b in
     if (case bindings s t of None \<Rightarrow> False | Some current \<Rightarrow> tb_PermAuthKeyID current \<noteq> p)
     then (s, Inl ErrTempAuthKeyAlreadyBound)
     else case (keys s t, keys s p) of
       (Some temp, Some perm) \<Rightarrow>
         if ak_ExpiresAt temp \<le> 0 \<or> ak_ExpiresAt perm \<noteq> 0 \<or> tb_ExpiresAt b \<noteq> ak_ExpiresAt temp
         then (s, Inl ErrAuthKeyBindingInvalid)
         else (case MergeAuthKeyLayerObservations (ak_Layer temp) (ak_LayerObservationID temp)
                 (ak_Layer perm) (ak_LayerObservationID perm) of
             Inl err \<Rightarrow> (s, Inl err)
           | Inr (layer, observationID) \<Rightarrow>
               (mirrorAuthorizationLayersLocked [t, p] layer (s\<lparr>
                  keys := (keys s)(t \<mapsto> temp\<lparr>ak_Layer := layer, ak_LayerObservationID := observationID\<rparr>,
                                   p \<mapsto> perm\<lparr>ak_Layer := layer, ak_LayerObservationID := observationID\<rparr>),
                  bindings := (bindings s)(t \<mapsto> b)\<rparr>), Inr (layer, observationID)))
     | _ \<Rightarrow> (s, Inl ErrAuthKeyBindingInvalid))"

definition GetByTemp :: "key_id \<Rightarrow> auth_state \<Rightarrow> temp_binding option" where
  "GetByTemp t s = bindings s t"

definition drop_expired_key :: "key_id \<Rightarrow> auth_state \<Rightarrow> auth_state" where
  "drop_expired_key kid s =
     deleteAuthorizationMirrorsLocked (\<lambda>t. t = kid)
       (deleteSessionLayersLocked (\<lambda>t. t = kid)
         (s\<lparr>bindings := (bindings s)(kid := None), keys := (keys s)(kid := None)\<rparr>))"

fun delete_expired :: "key_id list \<Rightarrow> int \<Rightarrow> int \<Rightarrow> int \<Rightarrow> auth_state \<Rightarrow> auth_state \<times> int" where
  "delete_expired [] expiredBefore limit deleted s = (s, deleted)"
| "delete_expired (kid # ids) expiredBefore limit deleted s =
    (if deleted \<ge> limit then (s, deleted)
     else case keys s kid of
       None \<Rightarrow> delete_expired ids expiredBefore limit deleted s
     | Some key \<Rightarrow>
         if ak_ExpiresAt key \<le> 0 \<or> ak_ExpiresAt key \<ge> expiredBefore
         then delete_expired ids expiredBefore limit deleted s
         else delete_expired ids expiredBefore limit (deleted + 1) (drop_expired_key kid s))"

definition Binding_DeleteExpired :: "key_id list \<Rightarrow> int \<Rightarrow> int \<Rightarrow> auth_state \<Rightarrow> auth_state \<times> int" where
  "Binding_DeleteExpired order expiredBefore limit s =
    (if limit \<le> 0 then (s, 0) else delete_expired order expiredBefore limit 0 s)"

section \<open>Session layers\<close>

text \<open>
  A message id carries its time in the upper half and, read as a signed 32-bit number, nanoseconds in
  the lower half.
\<close>

definition low32_signed :: "int \<Rightarrow> int" where
  "low32_signed x = (x + 2147483648) mod 4294967296 - 2147483648"

definition AuthKeySessionLayerExpiry :: "int \<Rightarrow> int option" where
  "AuthKeySessionLayerExpiry msgID =
    (if msgID \<le> 0 \<or> msgID mod 4 \<noteq> 0 \<or> msgID mod 4294967296 = 0 then None
     else Some (msgID div 4294967296 * 1000000000 + low32_signed msgID + 301 * 1000000000))"

definition AuthKeySessionLayerEvidenceFresh :: "int \<Rightarrow> int \<Rightarrow> int option" where
  "AuthKeySessionLayerEvidenceFresh now msgID =
    (case AuthKeySessionLayerExpiry msgID of
       None \<Rightarrow> None
     | Some expiresAt \<Rightarrow>
         if \<not> now < expiresAt then None
         else if expiresAt - 301 * 1000000000 > now + 30 * 1000000000 then None
         else Some expiresAt)"

definition sessionLayerIsSharedDefaultLocked :: "key_id \<Rightarrow> session_layer \<Rightarrow> auth_state \<Rightarrow> bool" where
  "sessionLayerIsSharedDefaultLocked raw value s =
    (let defaultKeyID = (case bindings s raw of None \<Rightarrow> raw | Some b \<Rightarrow> tb_PermAuthKeyID b) in
     case keys s defaultKeyID of
       None \<Rightarrow> False
     | Some key \<Rightarrow> ak_Layer key = sl_Layer value \<and> ak_LayerObservationID key = sl_ObservationID value)"

definition GetSessionLayer :: "int \<Rightarrow> key_id \<Rightarrow> int \<Rightarrow> auth_state \<Rightarrow> auth_state \<times> session_layer option" where
  "GetSessionLayer now raw sessionID s =
    (case sessionLayers s (raw, sessionID) of
       None \<Rightarrow> (s, None)
     | Some value \<Rightarrow>
         if \<not> now < sl_ExpiresAt value
         then (s\<lparr>sessionLayers := (sessionLayers s)((raw, sessionID) := None)\<rparr>, None)
         else (s, Some (value\<lparr>sl_SharedDefault := sessionLayerIsSharedDefaultLocked raw value s\<rparr>)))"

text \<open>The row of a session if it has not expired.\<close>

definition live_row :: "int \<Rightarrow> key_id \<Rightarrow> int \<Rightarrow> auth_state \<Rightarrow> session_layer option" where
  "live_row now raw sessionID s =
    (case sessionLayers s (raw, sessionID) of
       None \<Rightarrow> None
     | Some current \<Rightarrow> if now < sl_ExpiresAt current then Some current else None)"

text \<open>The permanent key behind a raw key: an error, none, or its id and data.\<close>

definition bound_perm :: "key_id \<Rightarrow> auth_state \<Rightarrow> auth_error + (key_id \<times> auth_key_data) option" where
  "bound_perm raw s =
    (case bindings s raw of
       None \<Rightarrow> Inr None
     | Some b \<Rightarrow>
         (case keys s (tb_PermAuthKeyID b) of
            None \<Rightarrow> Inl ErrAuthKeyBindingInvalid
          | Some perm \<Rightarrow> Inr (Some (tb_PermAuthKeyID b, perm))))"

definition new_observation ::
  "key_id \<Rightarrow> int \<Rightarrow> int \<Rightarrow> int \<Rightarrow> int \<Rightarrow> auth_key_data \<Rightarrow> (key_id \<times> auth_key_data) option \<Rightarrow> auth_state
    \<Rightarrow> auth_state \<times> session_layer" where
  "new_observation raw sessionID layer msgID expiresAt rawKey bound s =
    (let obs = nextLayerObservation s + 1;
         current = \<lparr>sl_Layer = layer, sl_MessageID = msgID, sl_ObservationID = obs, sl_ExpiresAt = expiresAt, sl_SharedDefault = False\<rparr>;
         s1 = s\<lparr>nextLayerObservation := obs, sessionLayers := (sessionLayers s)((raw, sessionID) \<mapsto> current),
                keys := (keys s)(raw \<mapsto> rawKey\<lparr>ak_Layer := layer, ak_LayerObservationID := obs\<rparr>)\<rparr>;
         s2 = (case bound of
             Some (permID, perm) \<Rightarrow>
               mirrorAuthorizationLayersLocked [raw, permID] layer
                 (s1\<lparr>keys := (keys s1)(permID \<mapsto> perm\<lparr>ak_Layer := layer, ak_LayerObservationID := obs\<rparr>)\<rparr>)
           | None \<Rightarrow> mirrorAuthorizationLayersLocked [raw] layer s1)
     in (s2, current\<lparr>sl_SharedDefault := True\<rparr>))"

text \<open>The result is an error, or the current row and whether the evidence was applied.\<close>

definition AdvanceSessionLayer ::
  "int \<Rightarrow> key_id \<Rightarrow> int \<Rightarrow> int \<Rightarrow> int \<Rightarrow> auth_state \<Rightarrow> auth_state \<times> (auth_error + session_layer \<times> bool)" where
  "AdvanceSessionLayer now raw sessionID layer msgID s =
    (case AuthKeySessionLayerEvidenceFresh now msgID of
       None \<Rightarrow> (s, Inl ErrAuthKeySessionLayerInvalid)
     | Some expiresAt \<Rightarrow>
         if layer \<le> 0 then (s, Inl ErrAuthKeySessionLayerInvalid)
         else (case keys s raw of
             None \<Rightarrow> (s, Inl ErrAuthKeyNotFound)
           | Some rawKey \<Rightarrow>
               let row = live_row now raw sessionID s;
                   shown = (\<lambda>c s. c\<lparr>sl_SharedDefault := sessionLayerIsSharedDefaultLocked raw c s\<rparr>)
               in (case row of
                     Some current \<Rightarrow>
                       if msgID < sl_MessageID current then (s, Inr (shown current s, False))
                       else if msgID = sl_MessageID current
                       then (if layer \<noteq> sl_Layer current then (s, Inl ErrAuthKeySessionLayerConflict)
                             else (s, Inr (shown current s, False)))
                       else (case bound_perm raw s of
                           Inl err \<Rightarrow> (s, Inl err)
                         | Inr bound \<Rightarrow>
                             if layer = sl_Layer current
                             then let stored = current\<lparr>sl_MessageID := msgID, sl_ExpiresAt := expiresAt, sl_SharedDefault := False\<rparr>;
                                      s1 = s\<lparr>sessionLayers := (sessionLayers s)((raw, sessionID) \<mapsto> stored)\<rparr>
                                  in (s1, Inr (shown stored s1, True))
                             else if nextLayerObservation s = max_int64 then (s, Inl ErrAuthKeySessionLayerInvalid)
                             else map_prod id (\<lambda>c. Inr (c, True)) (new_observation raw sessionID layer msgID expiresAt rawKey bound s))
                   | None \<Rightarrow>
                       (case bound_perm raw s of
                           Inl err \<Rightarrow> (s, Inl err)
                         | Inr bound \<Rightarrow>
                             if nextLayerObservation s = max_int64 then (s, Inl ErrAuthKeySessionLayerInvalid)
                             else map_prod id (\<lambda>c. Inr (c, True)) (new_observation raw sessionID layer msgID expiresAt rawKey bound s)))))"

definition DeleteSessionLayer :: "key_id \<Rightarrow> int \<Rightarrow> auth_state \<Rightarrow> auth_state \<times> bool" where
  "DeleteSessionLayer raw sessionID s =
    (s\<lparr>sessionLayers := (sessionLayers s)((raw, sessionID) := None)\<rparr>, sessionLayers s (raw, sessionID) \<noteq> None)"

fun delete_expired_layers :: "(key_id \<times> int) list \<Rightarrow> int \<Rightarrow> int \<Rightarrow> int \<Rightarrow> auth_state \<Rightarrow> auth_state \<times> int" where
  "delete_expired_layers [] now limit deleted s = (s, deleted)"
| "delete_expired_layers (key # order) now limit deleted s =
    (if deleted \<ge> limit then (s, deleted)
     else case sessionLayers s key of
       None \<Rightarrow> delete_expired_layers order now limit deleted s
     | Some value \<Rightarrow>
         if now < sl_ExpiresAt value then delete_expired_layers order now limit deleted s
         else delete_expired_layers order now limit (deleted + 1) (s\<lparr>sessionLayers := (sessionLayers s)(key := None)\<rparr>))"

definition DeleteExpiredSessionLayers :: "(key_id \<times> int) list \<Rightarrow> int \<Rightarrow> int \<Rightarrow> auth_state \<Rightarrow> auth_state \<times> int" where
  "DeleteExpiredSessionLayers order now limit s =
    (if limit \<le> 0 then (s, 0) else delete_expired_layers order now limit 0 s)"

section \<open>Authorizations\<close>

definition set_auths :: "nat \<Rightarrow> (key_id \<rightharpoonup> authorization) \<Rightarrow> auth_state \<Rightarrow> auth_state" where
  "set_auths i m s = s\<lparr>auths := (auths s)(i := (auths s i)\<lparr>as_m := m\<rparr>)\<rparr>"

text \<open>\<open>LinkAuthKeyAuthority\<close>: a store keeps its first link.\<close>

definition LinkAuthKeyAuthority :: "nat \<Rightarrow> auth_state \<Rightarrow> auth_state" where
  "LinkAuthKeyAuthority i s =
    (if as_linked (auths s i) then s
     else s\<lparr>auths := (auths s)(i := \<lparr>as_linked = True,
            as_m = (\<lambda>kid. map_option (\<lambda>a. case keys s kid of Some key \<Rightarrow> a\<lparr>az_Layer := ak_Layer key\<rparr> | None \<Rightarrow> a) (as_m (auths s i) kid))\<rparr>)\<rparr>)"

definition Bind :: "int \<Rightarrow> nat \<Rightarrow> authorization \<Rightarrow> auth_state \<Rightarrow> auth_state \<times> (auth_error + unit)" where
  "Bind now i a s =
    (let a = a\<lparr>az_Hash := (if az_Hash a = 0 then sint (az_AuthKeyID a) else az_Hash a), az_CreatedAt := now, az_ActiveAt := now\<rparr>;
         kid = az_AuthKeyID a
     in if as_linked (auths s i)
        then (case keys s kid of
            None \<Rightarrow> (s, Inl ErrAuthKeyNotFound)
          | Some key \<Rightarrow>
              if ak_ExpiresAt key \<noteq> 0 then (s, Inl ErrAuthKeyNotPermanent)
              else (set_auths i ((as_m (auths s i))(kid \<mapsto> a\<lparr>az_Layer := ak_Layer key\<rparr>)) s, Inr ()))
        else (set_auths i ((as_m (auths s i))(kid \<mapsto> a)) s, Inr ()))"

definition ByAuthKey :: "nat \<Rightarrow> key_id \<Rightarrow> auth_state \<Rightarrow> authorization option" where
  "ByAuthKey i kid s = as_m (auths s i) kid"

definition mergeAuthorizationClientInfo :: "int \<Rightarrow> authorization \<Rightarrow> client_info \<Rightarrow> authorization" where
  "mergeAuthorizationClientInfo now a info = a\<lparr>
     az_Layer := (if ki_Layer info > 0 then ki_Layer info else az_Layer a),
     az_DeviceModel := (if ki_DeviceModel info \<noteq> [] then ki_DeviceModel info else az_DeviceModel a),
     az_Platform := (if ki_Platform info \<noteq> [] then ki_Platform info else az_Platform a),
     az_SystemVersion := (if ki_SystemVersion info \<noteq> [] then ki_SystemVersion info else az_SystemVersion a),
     az_APIID := (if ki_APIID info \<noteq> 0 then ki_APIID info else az_APIID a),
     az_AppVersion := (if ki_AppVersion info \<noteq> [] then ki_AppVersion info else az_AppVersion a),
     az_IP := (if ci_IP info \<noteq> [] then ci_IP info else az_IP a),
     az_ActiveAt := now\<rparr>"

definition Auth_UpdateClientInfo :: "int \<Rightarrow> nat \<Rightarrow> key_id \<Rightarrow> client_info \<Rightarrow> auth_state \<Rightarrow> auth_state \<times> (auth_error + unit)" where
  "Auth_UpdateClientInfo now i kid info s =
    (let m = as_m (auths s i) in
     if as_linked (auths s i)
     then (case keys s kid of
         None \<Rightarrow> (s, Inl ErrAuthKeyNotFound)
       | Some key \<Rightarrow>
           (case m kid of
              None \<Rightarrow> (s, Inr ())
            | Some a \<Rightarrow> (set_auths i (m(kid \<mapsto> (mergeAuthorizationClientInfo now a info)\<lparr>az_Layer := ak_Layer key\<rparr>)) s, Inr ())))
     else (case m kid of
         None \<Rightarrow> (s, Inr ())
       | Some a \<Rightarrow> (set_auths i (m(kid \<mapsto> mergeAuthorizationClientInfo now a info)) s, Inr ())))"

definition MarkPasswordPassed :: "int \<Rightarrow> nat \<Rightarrow> key_id \<Rightarrow> int \<Rightarrow> auth_state \<Rightarrow> auth_state \<times> (auth_error + unit)" where
  "MarkPasswordPassed now i kid expectedUserID s =
    (case as_m (auths s i) kid of
       None \<Rightarrow> (s, Inl ErrAuthorizationStateChanged)
     | Some a \<Rightarrow>
         if expectedUserID = 0 \<or> az_UserID a \<noteq> expectedUserID \<or> \<not> az_PasswordPending a
         then (s, Inl ErrAuthorizationStateChanged)
         else (set_auths i ((as_m (auths s i))(kid \<mapsto> a\<lparr>az_PasswordPending := False, az_CreatedAt := now, az_ActiveAt := now\<rparr>)) s, Inr ()))"

text \<open>\<open>ListByUser\<close> returns the rows of an account; the order is open.\<close>

definition ListByUser :: "nat \<Rightarrow> int \<Rightarrow> auth_state \<Rightarrow> (key_id \<rightharpoonup> authorization)" where
  "ListByUser i userID s =
    (\<lambda>kid. case as_m (auths s i) kid of None \<Rightarrow> None | Some a \<Rightarrow> if az_UserID a = userID then Some a else None)"

definition Auth_Delete :: "nat \<Rightarrow> key_id \<Rightarrow> auth_state \<Rightarrow> auth_state" where
  "Auth_Delete i kid s = set_auths i ((as_m (auths s i))(kid := None)) s"

definition hash_match :: "nat \<Rightarrow> int \<Rightarrow> int \<Rightarrow> auth_state \<Rightarrow> key_id \<Rightarrow> bool" where
  "hash_match i userID hash s kid =
    (case as_m (auths s i) kid of None \<Rightarrow> False | Some a \<Rightarrow> az_UserID a = userID \<and> az_Hash a = hash)"

text \<open>\<open>RevokeByHash\<close> does the same under one more lock.\<close>

definition RevokeByHash :: "key_id list \<Rightarrow> nat \<Rightarrow> int \<Rightarrow> int \<Rightarrow> auth_state \<Rightarrow> auth_state \<times> authorization option" where
  "RevokeByHash order i userID hash s =
    (case find (hash_match i userID hash s) order of
       None \<Rightarrow> (s, None)
     | Some kid \<Rightarrow> (set_auths i ((as_m (auths s i))(kid := None)) s, as_m (auths s i) kid))"

definition RevokeByUserExcept ::
  "nat \<Rightarrow> int \<Rightarrow> key_id \<Rightarrow> auth_state \<Rightarrow> auth_state \<times> (key_id \<rightharpoonup> authorization)" where
  "RevokeByUserExcept i userID keepAuthKeyID s =
    (let out = (ListByUser i userID s)(keepAuthKeyID := None) in
     (set_auths i (\<lambda>kid. if out kid \<noteq> None then None else as_m (auths s i) kid) s, out))"

end
