(* ===== verification/Auth_Keys_Theorems.thy ===== *)
theory Auth_Keys_Theorems
  imports Auth_Keys
begin

text \<open>
  Correctness of the authorization keys: the consistency of the shared key state, who may sign a key
  in, the order of layer observations, and the properties drawn from them.
\<close>

section \<open>Consistency of the shared state\<close>

definition keys_ok :: "(key_id \<rightharpoonup> auth_key_data) \<Rightarrow> int \<Rightarrow> bool" where
  "keys_ok K n \<longleftrightarrow> (\<forall>kid k. K kid = Some k \<longrightarrow> ak_ID k = kid \<and> 0 \<le> ak_ExpiresAt k \<and> ak_LayerObservationID k \<le> n)"

text \<open>A binding joins a live temporary key with a live permanent one that knows at least as recent a layer.\<close>

definition bindings_ok :: "(key_id \<rightharpoonup> auth_key_data) \<Rightarrow> (key_id \<rightharpoonup> temp_binding) \<Rightarrow> bool" where
  "bindings_ok K B \<longleftrightarrow> (\<forall>t b. B t = Some b \<longrightarrow> tb_TempAuthKeyID b = t
     \<and> (\<exists>temp perm. K t = Some temp \<and> 0 < ak_ExpiresAt temp \<and> tb_ExpiresAt b = ak_ExpiresAt temp
          \<and> K (tb_PermAuthKeyID b) = Some perm \<and> ak_ExpiresAt perm = 0
          \<and> ak_LayerObservationID temp \<le> ak_LayerObservationID perm))"

definition layers_ok :: "(key_id \<rightharpoonup> auth_key_data) \<Rightarrow> (key_id \<times> int \<rightharpoonup> session_layer) \<Rightarrow> int \<Rightarrow> bool" where
  "layers_ok K L n \<longleftrightarrow> (\<forall>raw sid v. L (raw, sid) = Some v \<longrightarrow> K raw \<noteq> None \<and> sl_ObservationID v \<le> n \<and> 0 < sl_Layer v)"

text \<open>An authorization in a linked store belongs to a live permanent key and shows its layer.\<close>

definition mirrors_ok :: "(key_id \<rightharpoonup> auth_key_data) \<Rightarrow> (nat \<Rightarrow> auth_store) \<Rightarrow> bool" where
  "mirrors_ok K A \<longleftrightarrow> (\<forall>i kid a. as_linked (A i) \<longrightarrow> as_m (A i) kid = Some a \<longrightarrow> az_AuthKeyID a = kid
     \<and> (\<exists>k. K kid = Some k \<and> ak_ExpiresAt k = 0 \<and> az_Layer a = ak_Layer k))"

definition auth_ok :: "auth_state \<Rightarrow> bool" where
  "auth_ok s \<longleftrightarrow> keys_ok (keys s) (nextLayerObservation s) \<and> bindings_ok (keys s) (bindings s)
     \<and> layers_ok (keys s) (sessionLayers s) (nextLayerObservation s) \<and> mirrors_ok (keys s) (auths s)"

lemma keys_okD: "keys_ok K n \<Longrightarrow> K kid = Some k \<Longrightarrow> ak_ID k = kid \<and> 0 \<le> ak_ExpiresAt k \<and> ak_LayerObservationID k \<le> n"
  by (auto simp: keys_ok_def)

lemma bindings_okE:
  assumes "bindings_ok K B" "B t = Some b"
  obtains temp perm where "tb_TempAuthKeyID b = t" "K t = Some temp" "0 < ak_ExpiresAt temp" "tb_ExpiresAt b = ak_ExpiresAt temp"
    "K (tb_PermAuthKeyID b) = Some perm" "ak_ExpiresAt perm = 0" "ak_LayerObservationID temp \<le> ak_LayerObservationID perm"
  using assms unfolding bindings_ok_def by meson

lemma mirrors_okE:
  assumes "mirrors_ok K A" "as_linked (A i)" "as_m (A i) kid = Some a"
  obtains k where "az_AuthKeyID a = kid" "K kid = Some k" "ak_ExpiresAt k = 0" "az_Layer a = ak_Layer k"
  using assms unfolding mirrors_ok_def by meson

lemma keys_ok_upd:
  "keys_ok K n \<Longrightarrow> n \<le> n' \<Longrightarrow> ak_ID k = kid \<Longrightarrow> 0 \<le> ak_ExpiresAt k \<Longrightarrow> ak_LayerObservationID k \<le> n'
    \<Longrightarrow> keys_ok (K(kid \<mapsto> k)) n'"
  by (fastforce simp: keys_ok_def)

lemma keys_ok_sub: "keys_ok K n \<Longrightarrow> K' \<subseteq>\<^sub>m K \<Longrightarrow> keys_ok K' n"
  by (auto simp: keys_ok_def map_le_def dom_def)

text \<open>Keys change only their layer, their observation and their metadata.\<close>

definition keys_follow :: "(key_id \<rightharpoonup> auth_key_data) \<Rightarrow> (key_id \<rightharpoonup> auth_key_data) \<Rightarrow> bool" where
  "keys_follow K K' \<longleftrightarrow> (\<forall>kid k. K kid = Some k \<longrightarrow> (\<exists>k'. K' kid = Some k' \<and> ak_ExpiresAt k' = ak_ExpiresAt k
     \<and> ak_LayerObservationID k \<le> ak_LayerObservationID k'))"

lemma keys_followE:
  assumes "keys_follow K K'" "K kid = Some k"
  obtains k' where "K' kid = Some k'" "ak_ExpiresAt k' = ak_ExpiresAt k" "ak_LayerObservationID k \<le> ak_LayerObservationID k'"
  using assms unfolding keys_follow_def by meson

lemma keys_follow_refl [simp]: "keys_follow K K"
  by (auto simp: keys_follow_def)

lemma keys_follow_new: "K kid = None \<Longrightarrow> keys_follow K (K(kid \<mapsto> k))"
  by (auto simp: keys_follow_def)

lemma keys_follow_upd:
  "K kid = Some k \<Longrightarrow> ak_ExpiresAt k' = ak_ExpiresAt k \<Longrightarrow> ak_LayerObservationID k \<le> ak_LayerObservationID k'
    \<Longrightarrow> keys_follow K (K(kid \<mapsto> k'))"
  by (auto simp: keys_follow_def)

lemma keys_follow_trans:
  assumes 1: "keys_follow K K'" and 2: "keys_follow K' K''" shows "keys_follow K K''"
  unfolding keys_follow_def
proof (intro allI impI)
  fix kid k assume k: "K kid = Some k"
  obtain k' where k': "K' kid = Some k'" "ak_ExpiresAt k' = ak_ExpiresAt k" "ak_LayerObservationID k \<le> ak_LayerObservationID k'"
    by (rule keys_followE [OF 1 k])
  obtain k'' where "K'' kid = Some k''" "ak_ExpiresAt k'' = ak_ExpiresAt k'" "ak_LayerObservationID k' \<le> ak_LayerObservationID k''"
    by (rule keys_followE [OF 2 k'(1)])
  then show "\<exists>k'. K'' kid = Some k' \<and> ak_ExpiresAt k' = ak_ExpiresAt k \<and> ak_LayerObservationID k \<le> ak_LayerObservationID k'"
    using k' by auto
qed

lemma layers_ok_follow: "layers_ok K L n \<Longrightarrow> keys_follow K K' \<Longrightarrow> n \<le> n' \<Longrightarrow> layers_ok K' L n'"
  unfolding layers_ok_def keys_follow_def by (metis not_None_eq order_trans)

lemma bindings_ok_follow:
  assumes "bindings_ok K B" "keys_follow K K'"
    and ord: "\<And>t b temp perm. B t = Some b \<Longrightarrow> K' t = Some temp \<Longrightarrow> K' (tb_PermAuthKeyID b) = Some perm
      \<Longrightarrow> ak_LayerObservationID temp \<le> ak_LayerObservationID perm"
  shows "bindings_ok K' B"
  unfolding bindings_ok_def
proof (intro allI impI)
  fix t b assume b: "B t = Some b"
  obtain temp perm where 1: "tb_TempAuthKeyID b = t" "K t = Some temp" "0 < ak_ExpiresAt temp" "tb_ExpiresAt b = ak_ExpiresAt temp"
    "K (tb_PermAuthKeyID b) = Some perm" "ak_ExpiresAt perm = 0"
    by (rule bindings_okE [OF assms(1) b])
  obtain temp' where 2: "K' t = Some temp'" "ak_ExpiresAt temp' = ak_ExpiresAt temp"
    by (rule keys_followE [OF assms(2) 1(2)])
  obtain perm' where 3: "K' (tb_PermAuthKeyID b) = Some perm'" "ak_ExpiresAt perm' = ak_ExpiresAt perm"
    by (rule keys_followE [OF assms(2) 1(5)])
  show "tb_TempAuthKeyID b = t \<and> (\<exists>temp perm. K' t = Some temp \<and> 0 < ak_ExpiresAt temp \<and> tb_ExpiresAt b = ak_ExpiresAt temp
          \<and> K' (tb_PermAuthKeyID b) = Some perm \<and> ak_ExpiresAt perm = 0
          \<and> ak_LayerObservationID temp \<le> ak_LayerObservationID perm)"
    using 1 2 3 ord [OF b 2(1) 3(1)] by auto
qed

text \<open>The permanent key may move ahead alone; the temporary key only together with it.\<close>

lemma bindings_ok_upd:
  assumes "bindings_ok K B" "keys_follow K (K(kid \<mapsto> k'))"
    and "\<And>k. K kid = Some k \<Longrightarrow> 0 < ak_ExpiresAt k \<Longrightarrow> B kid \<noteq> None \<Longrightarrow> ak_LayerObservationID k' \<le> ak_LayerObservationID k"
  shows "bindings_ok (K(kid \<mapsto> k')) B"
proof (rule bindings_ok_follow [OF assms(1,2)])
  fix t b temp perm
  assume b: "B t = Some b" and t: "(K(kid \<mapsto> k')) t = Some temp" and p: "(K(kid \<mapsto> k')) (tb_PermAuthKeyID b) = Some perm"
  obtain temp0 perm0 where 1: "K t = Some temp0" "0 < ak_ExpiresAt temp0" "K (tb_PermAuthKeyID b) = Some perm0"
    "ak_ExpiresAt perm0 = 0" "ak_LayerObservationID temp0 \<le> ak_LayerObservationID perm0"
    by (rule bindings_okE [OF assms(1) b])
  have ne: "t \<noteq> tb_PermAuthKeyID b" using 1 by auto
  have perm: "ak_LayerObservationID perm0 \<le> ak_LayerObservationID perm"
    using keys_followE [OF assms(2) 1(3)] p by (metis option.inject)
  have "ak_LayerObservationID temp \<le> ak_LayerObservationID temp0"
    using assms(3) [of temp0] 1 b t by (cases "t = kid") auto
  then show "ak_LayerObservationID temp \<le> ak_LayerObservationID perm" using 1 perm by linarith
qed

lemma mirrors_ok_mirror:
  assumes "mirrors_ok K A"
    and same: "\<And>kid. kid \<notin> set ids \<Longrightarrow> K' kid = K kid"
    and moved: "\<And>kid k. kid \<in> set ids \<Longrightarrow> K kid = Some k \<Longrightarrow> \<exists>k'. K' kid = Some k' \<and> ak_ExpiresAt k' = ak_ExpiresAt k \<and> ak_Layer k' = layer"
  shows "mirrors_ok K' (\<lambda>i. mirror_layer ids layer (A i))"
  unfolding mirrors_ok_def
proof (intro allI impI)
  fix i kid a
  assume l: "as_linked (mirror_layer ids layer (A i))" and a: "as_m (mirror_layer ids layer (A i)) kid = Some a"
  have li: "as_linked (A i)" using l by (simp add: mirror_layer_def split: if_splits)
  obtain a0 where a0: "as_m (A i) kid = Some a0" "a = (if kid \<in> set ids then a0\<lparr>az_Layer := layer\<rparr> else a0)"
    using a li by (auto simp: mirror_layer_def split: if_splits)
  obtain k where k: "az_AuthKeyID a0 = kid" "K kid = Some k" "ak_ExpiresAt k = 0" "az_Layer a0 = ak_Layer k"
    by (rule mirrors_okE [OF assms(1) li a0(1)])
  show "az_AuthKeyID a = kid \<and> (\<exists>k. K' kid = Some k \<and> ak_ExpiresAt k = 0 \<and> az_Layer a = ak_Layer k)"
    using a0 k same [of kid] moved [of kid k] by auto
qed

lemma mirrors_ok_delete:
  assumes "mirrors_ok K A" and "\<And>kid. \<not> gone kid \<Longrightarrow> K' kid = K kid"
  shows "mirrors_ok K' (\<lambda>i. mirror_delete gone (A i))"
  using assms by (auto simp: mirrors_ok_def mirror_delete_def split: if_splits)

lemma mirrors_ok_set:
  assumes "mirrors_ok K A"
    and "\<And>kid a. as_linked (A i) \<Longrightarrow> m kid = Some a \<Longrightarrow> az_AuthKeyID a = kid \<and> (\<exists>k. K kid = Some k \<and> ak_ExpiresAt k = 0 \<and> az_Layer a = ak_Layer k)"
  shows "mirrors_ok K (A(i := (A i)\<lparr>as_m := m\<rparr>))"
  using assms by (auto simp: mirrors_ok_def)

section \<open>Every operation keeps the state consistent\<close>

lemmas mirror_fields = mirrorAuthorizationLayersLocked_def deleteAuthorizationMirrorsLocked_def deleteSessionLayersLocked_def set_auths_def

lemma auth_okI:
  "keys_ok (keys s) (nextLayerObservation s) \<Longrightarrow> bindings_ok (keys s) (bindings s)
    \<Longrightarrow> layers_ok (keys s) (sessionLayers s) (nextLayerObservation s) \<Longrightarrow> mirrors_ok (keys s) (auths s) \<Longrightarrow> auth_ok s"
  by (simp add: auth_ok_def)

lemma auth_okD:
  assumes "auth_ok s"
  shows "keys_ok (keys s) (nextLayerObservation s)" "bindings_ok (keys s) (bindings s)"
    "layers_ok (keys s) (sessionLayers s) (nextLayerObservation s)" "mirrors_ok (keys s) (auths s)"
  using assms by (simp_all add: auth_ok_def)

lemma put_key_fields:
  "keys (put_key k s) = (keys s)(ak_ID k \<mapsto> k)" "bindings (put_key k s) = bindings s" "sessionLayers (put_key k s) = sessionLayers s"
  "nextLayerObservation (put_key k s) = max (nextLayerObservation s) (ak_LayerObservationID k)"
  "auths (put_key k s) = (\<lambda>i. mirror_layer [ak_ID k] (ak_Layer k) (auths s i))"
  by (simp_all add: put_key_def Let_def mirrorAuthorizationLayersLocked_def)

lemma auth_ok_put_key:
  assumes ok: "auth_ok s" and valid: "0 \<le> ak_ExpiresAt k"
    and old: "\<And>k0. keys s (ak_ID k) = Some k0 \<Longrightarrow> ak_ExpiresAt k = ak_ExpiresAt k0 \<and> ak_LayerObservationID k = ak_LayerObservationID k0"
  shows "auth_ok (put_key k s)"
proof (rule auth_okI; simp only: put_key_fields)
  have follow: "keys_follow (keys s) ((keys s)(ak_ID k \<mapsto> k))"
    using old by (cases "keys s (ak_ID k)") (auto intro: keys_follow_new keys_follow_upd)
  show "keys_ok ((keys s)(ak_ID k \<mapsto> k)) (max (nextLayerObservation s) (ak_LayerObservationID k))"
    using valid by (intro keys_ok_upd [OF auth_okD(1) [OF ok]]) auto
  show "bindings_ok ((keys s)(ak_ID k \<mapsto> k)) (bindings s)"
    using old by (intro bindings_ok_upd [OF auth_okD(2) [OF ok] follow]) auto
  show "layers_ok ((keys s)(ak_ID k \<mapsto> k)) (sessionLayers s) (max (nextLayerObservation s) (ak_LayerObservationID k))"
    by (rule layers_ok_follow [OF auth_okD(3) [OF ok] follow]) simp
  show "mirrors_ok ((keys s)(ak_ID k \<mapsto> k)) (\<lambda>i. mirror_layer [ak_ID k] (ak_Layer k) (auths s i))"
    using old by (intro mirrors_ok_mirror [OF auth_okD(4) [OF ok]]) auto
qed

lemma auth_ok_Save:
  assumes "auth_ok s" shows "auth_ok (fst (Key_Save k s))"
  using assms by (auto simp: Key_Save_def ValidNewAuthKeyProtocolExpiry_def keep_metadata_def intro!: auth_ok_put_key split: option.splits)

text \<open>An operation that replaces one key, with the layer of its mirrors, and raises no observation.\<close>

lemma auth_ok_UpdateClientInfo:
  assumes ok: "auth_ok s" shows "auth_ok (fst (Key_UpdateClientInfo kid info s))"
proof (cases "keys s kid")
  case (Some k)
  let ?k = "mergeAuthKeyClientInfo k info"
  have k: "ak_ID ?k = kid" "ak_ExpiresAt ?k = ak_ExpiresAt k" "ak_LayerObservationID ?k = ak_LayerObservationID k"
    using keys_okD [OF auth_okD(1) [OF ok] Some] by (simp_all add: mergeAuthKeyClientInfo_def)
  have le: "0 \<le> ak_ExpiresAt k" "ak_LayerObservationID k \<le> nextLayerObservation s"
    using keys_okD [OF auth_okD(1) [OF ok] Some] by auto
  have "auth_ok (put_key ?k s)"
    using k le Some by (intro auth_ok_put_key [OF ok]) auto
  moreover have "put_key ?k s = mirrorAuthorizationLayersLocked [kid] (ak_Layer ?k) (s\<lparr>keys := (keys s)(kid \<mapsto> ?k)\<rparr>)"
    using k le by (simp add: put_key_def Let_def mirrorAuthorizationLayersLocked_def max_def)
  ultimately show ?thesis using ok Some by (simp add: Key_UpdateClientInfo_def Let_def)
qed (simp add: Key_UpdateClientInfo_def ok)

lemma bindings_ok_remove:
  assumes "bindings_ok K B"
    and "\<And>t b. B' t = Some b \<Longrightarrow> B t = Some b \<and> K' t = K t \<and> K' (tb_PermAuthKeyID b) = K (tb_PermAuthKeyID b)"
  shows "bindings_ok K' B'"
  unfolding bindings_ok_def
proof (intro allI impI)
  fix t b assume "B' t = Some b"
  then have b: "B t = Some b" "K' t = K t" "K' (tb_PermAuthKeyID b) = K (tb_PermAuthKeyID b)" using assms(2) by auto
  show "tb_TempAuthKeyID b = t \<and> (\<exists>temp perm. K' t = Some temp \<and> 0 < ak_ExpiresAt temp \<and> tb_ExpiresAt b = ak_ExpiresAt temp
          \<and> K' (tb_PermAuthKeyID b) = Some perm \<and> ak_ExpiresAt perm = 0
          \<and> ak_LayerObservationID temp \<le> ak_LayerObservationID perm)"
    unfolding b(2,3) using assms(1) b(1) unfolding bindings_ok_def by blast
qed

lemma layers_ok_remove:
  assumes "layers_ok K L n" "\<And>key v. L' key = Some v \<Longrightarrow> L key = Some v" "\<And>raw sid. L' (raw, sid) \<noteq> None \<Longrightarrow> K' raw = K raw"
  shows "layers_ok K' L' n"
  using assms unfolding layers_ok_def by (metis option.distinct(1))

text \<open>Taking out a set of keys with everything that hangs on them.\<close>

definition without :: "(key_id \<Rightarrow> bool) \<Rightarrow> (key_id \<rightharpoonup> 'a) \<Rightarrow> (key_id \<rightharpoonup> 'a)" where
  "without gone m = (\<lambda>t. if gone t then None else m t)"

definition drop_keys :: "(key_id \<Rightarrow> bool) \<Rightarrow> auth_state \<Rightarrow> auth_state" where
  "drop_keys gone s = deleteAuthorizationMirrorsLocked gone (deleteSessionLayersLocked gone
     (s\<lparr>bindings := without gone (bindings s), keys := without gone (keys s)\<rparr>))"

lemma drop_keys_fields:
  "keys (drop_keys gone s) = without gone (keys s)" "bindings (drop_keys gone s) = without gone (bindings s)"
  "sessionLayers (drop_keys gone s) = (\<lambda>key. if gone (fst key) then None else sessionLayers s key)"
  "nextLayerObservation (drop_keys gone s) = nextLayerObservation s"
  "auths (drop_keys gone s) = (\<lambda>i. mirror_delete gone (auths s i))"
  by (simp_all add: drop_keys_def mirror_fields cong: if_cong)

lemma auth_ok_drop_keys:
  assumes ok: "auth_ok s"
    and closed: "\<And>t b. bindings s t = Some b \<Longrightarrow> gone (tb_PermAuthKeyID b) \<Longrightarrow> gone t"
  shows "auth_ok (drop_keys gone s)"
proof (rule auth_okI; simp only: drop_keys_fields)
  show "keys_ok (without gone (keys s)) (nextLayerObservation s)"
    using auth_okD(1) [OF ok] by (auto simp: keys_ok_def without_def)
  show "bindings_ok (without gone (keys s)) (without gone (bindings s))"
    using closed by (intro bindings_ok_remove [OF auth_okD(2) [OF ok]]) (auto simp: without_def split: if_splits)
  show "layers_ok (without gone (keys s)) (\<lambda>key. if gone (fst key) then None else sessionLayers s key) (nextLayerObservation s)"
    by (intro layers_ok_remove [OF auth_okD(3) [OF ok]]) (auto simp: without_def split: if_splits)
  show "mirrors_ok (without gone (keys s)) (\<lambda>i. mirror_delete gone (auths s i))"
    by (intro mirrors_ok_delete [OF auth_okD(4) [OF ok]]) (auto simp: without_def)
qed

lemma not_bound_to_temp:
  "auth_ok s \<Longrightarrow> keys s kid = Some k \<Longrightarrow> 0 < ak_ExpiresAt k \<Longrightarrow> \<not> bound_to kid s t"
  unfolding bound_to_def by (auto split: option.splits elim!: bindings_okE [OF auth_okD(2)])

lemma not_bound_perm:
  assumes "auth_ok s" "keys s kid = Some k" "ak_ExpiresAt k = 0" shows "bindings s kid = None"
proof (rule ccontr)
  assume "bindings s kid \<noteq> None"
  then obtain b where "bindings s kid = Some b" by blast
  then show False by (rule bindings_okE [OF auth_okD(2) [OF assms(1)]]) (use assms in auto)
qed

lemma Key_Delete_drop:
  assumes ok: "auth_ok s" and "keys s kid \<noteq> None"
  shows "Key_Delete kid s = drop_keys (\<lambda>t. t = kid \<or> bound_to kid s t) s"
proof -
  obtain k where k: "keys s kid = Some k" using assms by blast
  show ?thesis
  proof (cases "0 < ak_ExpiresAt k")
    case True
    then have "bound_to kid s t = False" for t using not_bound_to_temp [OF ok k] by simp
    moreover have "without (\<lambda>t. t = kid) (bindings s) = (bindings s)(kid := None)" by (auto simp: without_def)
    ultimately show ?thesis using True k
      by (simp add: Key_Delete_def deleteProtocolAuthKeyLocked_def drop_keys_def without_def)
  next
    case False
    then have "bindings s kid = None" using not_bound_perm [OF ok k] keys_okD [OF auth_okD(1) [OF ok] k] by simp
    then have "without (\<lambda>t. t = kid \<or> bound_to kid s t) (bindings s) = (\<lambda>t. if bound_to kid s t then None else bindings s t)"
      by (auto simp: without_def)
    then show ?thesis using False k
      by (simp add: Key_Delete_def deleteProtocolAuthKeyLocked_def drop_keys_def without_def disj_commute Let_def)
  qed
qed

lemma auth_ok_Delete:
  assumes ok: "auth_ok s" shows "auth_ok (Key_Delete kid s)"
proof (cases "keys s kid")
  case None
  have "mirror_delete (\<lambda>_. False) a = a" for a by (simp add: mirror_delete_def)
  then show ?thesis using ok None by (simp add: Key_Delete_def deleteProtocolAuthKeyLocked_def deleteAuthorizationMirrorsLocked_def)
next
  case (Some k)
  have "auth_ok (drop_keys (\<lambda>t. t = kid \<or> bound_to kid s t) s)"
  proof (rule auth_ok_drop_keys [OF ok])
    fix t b assume b: "bindings s t = Some b" and g: "tb_PermAuthKeyID b = kid \<or> bound_to kid s (tb_PermAuthKeyID b)"
    obtain perm where "keys s (tb_PermAuthKeyID b) = Some perm" "ak_ExpiresAt perm = 0"
      by (rule bindings_okE [OF auth_okD(2) [OF ok] b])
    then have "bindings s (tb_PermAuthKeyID b) = None" by (rule not_bound_perm [OF ok])
    then show "t = kid \<or> bound_to kid s t" using b g by (simp add: bound_to_def)
  qed
  then show ?thesis using Key_Delete_drop [OF ok] Some by simp
qed

lemma drop_expired_key_drop: "drop_expired_key kid s = drop_keys (\<lambda>t. t = kid) s"
  by (simp add: drop_expired_key_def drop_keys_def without_def fun_upd_def)

lemma auth_ok_drop_expired:
  assumes ok: "auth_ok s" and k: "keys s kid = Some k" "0 < ak_ExpiresAt k"
  shows "auth_ok (drop_expired_key kid s)"
  unfolding drop_expired_key_drop
proof (rule auth_ok_drop_keys [OF ok])
  fix t b assume b: "bindings s t = Some b" "tb_PermAuthKeyID b = kid"
  obtain perm where "keys s (tb_PermAuthKeyID b) = Some perm" "ak_ExpiresAt perm = 0"
    by (rule bindings_okE [OF auth_okD(2) [OF ok] b(1)])
  then show "t = kid" using k b by simp
qed

lemma auth_ok_delete_expired: "auth_ok s \<Longrightarrow> auth_ok (fst (delete_expired ids before limit n s))"
  by (induction ids before limit n s rule: delete_expired.induct) (auto simp: auth_ok_drop_expired not_le split: option.splits)

lemma layers_ok_add:
  assumes "layers_ok K L n"
    and "\<And>raw sid v. L' (raw, sid) = Some v \<Longrightarrow> L (raw, sid) = Some v \<or> raw = t \<and> sl_ObservationID v \<le> n \<and> 0 < sl_Layer v"
    and "K t \<noteq> None"
  shows "layers_ok K L' n"
  unfolding layers_ok_def
proof (intro allI impI)
  fix raw sid v assume "L' (raw, sid) = Some v"
  from assms(2) [OF this] show "K raw \<noteq> None \<and> sl_ObservationID v \<le> n \<and> 0 < sl_Layer v"
    using assms(1,3) unfolding layers_ok_def by metis
qed

lemma bindings_ok_add:
  assumes "bindings_ok K B" "tb_TempAuthKeyID b = t" "K t = Some temp" "0 < ak_ExpiresAt temp" "tb_ExpiresAt b = ak_ExpiresAt temp"
    "K (tb_PermAuthKeyID b) = Some perm" "ak_ExpiresAt perm = 0" "ak_LayerObservationID temp \<le> ak_LayerObservationID perm"
  shows "bindings_ok K (B(t \<mapsto> b))"
  unfolding bindings_ok_def
proof (intro allI impI)
  fix t' b' assume "(B(t \<mapsto> b)) t' = Some b'"
  then consider "t' = t" "b' = b" | "B t' = Some b'" by (metis fun_upd_apply option.inject)
  then show "tb_TempAuthKeyID b' = t' \<and> (\<exists>temp perm. K t' = Some temp \<and> 0 < ak_ExpiresAt temp \<and> tb_ExpiresAt b' = ak_ExpiresAt temp
          \<and> K (tb_PermAuthKeyID b') = Some perm \<and> ak_ExpiresAt perm = 0
          \<and> ak_LayerObservationID temp \<le> ak_LayerObservationID perm)"
  proof cases
    case 1
    then show ?thesis using assms(2-8) by (intro conjI exI [of _ temp] exI [of _ perm]) simp_all
  next
    case 2
    with assms(1) show ?thesis unfolding bindings_ok_def by blast
  qed
qed

lemma Merge_result:
  assumes "MergeAuthKeyLayerObservations lt t lp p = Inr (layer, obs)"
  shows "obs = max t p" "0 \<le> layer" "obs = t \<and> layer = lt \<or> obs = p \<and> layer = lp" "0 < obs \<longrightarrow> 0 < layer"
  using assms by (auto simp: MergeAuthKeyLayerObservations_def split: if_splits)

text \<open>Moving a temporary key and its permanent key to one observation.\<close>

lemma auth_ok_move_pair:
  assumes ok: "auth_ok s" and t: "keys s t = Some temp" "0 < ak_ExpiresAt temp" and p: "keys s p = Some perm" "ak_ExpiresAt perm = 0"
    and obs: "ak_LayerObservationID temp \<le> obs" "ak_LayerObservationID perm \<le> obs" "obs \<le> n" "nextLayerObservation s \<le> n"
    and B: "B = bindings s \<or> (\<exists>b. B = (bindings s)(t \<mapsto> b) \<and> tb_TempAuthKeyID b = t \<and> tb_PermAuthKeyID b = p \<and> tb_ExpiresAt b = ak_ExpiresAt temp)"
    and bound: "\<And>b. bindings s t = Some b \<Longrightarrow> tb_PermAuthKeyID b = p"
    and K: "K = (keys s)(t \<mapsto> temp\<lparr>ak_Layer := layer, ak_LayerObservationID := obs\<rparr>,
                         p \<mapsto> perm\<lparr>ak_Layer := layer, ak_LayerObservationID := obs\<rparr>)"
    and L: "\<And>raw sid v. L (raw, sid) = Some v \<Longrightarrow> sessionLayers s (raw, sid) = Some v \<or> raw = t \<and> sl_ObservationID v \<le> n \<and> 0 < sl_Layer v"
  shows "auth_ok \<lparr>keys = K, bindings = B, sessionLayers = L, nextLayerObservation = n, auths = (\<lambda>i. mirror_layer [t, p] layer (auths s i))\<rparr>"
proof (rule auth_okI; simp only: auth_state.simps)
  have ne: "t \<noteq> p" using t p by auto
  note ids = keys_okD [OF auth_okD(1) [OF ok] t(1)] keys_okD [OF auth_okD(1) [OF ok] p(1)]
  have follow: "keys_follow (keys s) K"
    using t p obs ne by (auto simp: keys_follow_def K)
  show "keys_ok K n" unfolding K
    using ids obs by (intro keys_ok_upd [OF keys_ok_upd [OF auth_okD(1) [OF ok] obs(4)] order_refl]) auto
  show "bindings_ok K B"
  proof -
    have "bindings_ok K (bindings s)"
    proof (rule bindings_ok_follow [OF auth_okD(2) [OF ok] follow])
      fix t' b temp' perm'
      assume b: "bindings s t' = Some b" and t': "K t' = Some temp'" and p': "K (tb_PermAuthKeyID b) = Some perm'"
      obtain temp0 perm0 where 1: "keys s t' = Some temp0" "0 < ak_ExpiresAt temp0" "keys s (tb_PermAuthKeyID b) = Some perm0"
        "ak_ExpiresAt perm0 = 0" "ak_LayerObservationID temp0 \<le> ak_LayerObservationID perm0"
        by (rule bindings_okE [OF auth_okD(2) [OF ok] b])
      have 2: "ak_LayerObservationID perm0 \<le> ak_LayerObservationID perm'"
        using p' 1(3) 1(4) t p obs(2) by (auto simp: K split: if_splits)
      show "ak_LayerObservationID temp' \<le> ak_LayerObservationID perm'"
      proof (cases "t' = t")
        case True
        then have "tb_PermAuthKeyID b = p" using bound b by simp
        then show ?thesis using t' p' True ne by (auto simp: K)
      next
        case False
        then have "temp' = temp0" using t' 1 p by (auto simp: K split: if_splits)
        then show ?thesis using 1(5) 2 by simp
      qed
    qed
    then show ?thesis using B by (elim disjE exE conjE) (simp_all add: bindings_ok_add K ne t p)
  qed
  show "layers_ok K L n"
  proof (rule layers_ok_add [OF layers_ok_follow [OF auth_okD(3) [OF ok] follow obs(4)] L])
    show "K t \<noteq> None" by (simp add: K ne)
  qed
  show "mirrors_ok K (\<lambda>i. mirror_layer [t, p] layer (auths s i))"
    unfolding K using t p ne by (intro mirrors_ok_mirror [OF auth_okD(4) [OF ok]]) auto
qed

definition bind_conflict :: "temp_binding \<Rightarrow> auth_state \<Rightarrow> bool" where
  "bind_conflict b s \<longleftrightarrow> (case bindings s (tb_TempAuthKeyID b) of None \<Rightarrow> False | Some c \<Rightarrow> tb_PermAuthKeyID c \<noteq> tb_PermAuthKeyID b)"

definition bind_pair :: "temp_binding \<Rightarrow> int \<Rightarrow> int \<Rightarrow> auth_key_data \<Rightarrow> auth_key_data \<Rightarrow> auth_state \<Rightarrow> auth_state" where
  "bind_pair b layer obs temp perm s =
     mirrorAuthorizationLayersLocked [tb_TempAuthKeyID b, tb_PermAuthKeyID b] layer (s\<lparr>
       keys := (keys s)(tb_TempAuthKeyID b \<mapsto> temp\<lparr>ak_Layer := layer, ak_LayerObservationID := obs\<rparr>,
                        tb_PermAuthKeyID b \<mapsto> perm\<lparr>ak_Layer := layer, ak_LayerObservationID := obs\<rparr>),
       bindings := (bindings s)(tb_TempAuthKeyID b \<mapsto> b)\<rparr>)"

lemma SaveWithState_cases:
  obtains (conflict) "bind_conflict b s" "SaveWithState b s = (s, Inl ErrTempAuthKeyAlreadyBound)"
  | (invalid) "\<not> bind_conflict b s"
      "\<not> (\<exists>temp perm. keys s (tb_TempAuthKeyID b) = Some temp \<and> keys s (tb_PermAuthKeyID b) = Some perm
          \<and> 0 < ak_ExpiresAt temp \<and> ak_ExpiresAt perm = 0 \<and> tb_ExpiresAt b = ak_ExpiresAt temp)"
      "SaveWithState b s = (s, Inl ErrAuthKeyBindingInvalid)"
  | (merge) temp perm err where "\<not> bind_conflict b s" "keys s (tb_TempAuthKeyID b) = Some temp" "keys s (tb_PermAuthKeyID b) = Some perm"
      "0 < ak_ExpiresAt temp" "ak_ExpiresAt perm = 0" "tb_ExpiresAt b = ak_ExpiresAt temp"
      "MergeAuthKeyLayerObservations (ak_Layer temp) (ak_LayerObservationID temp) (ak_Layer perm) (ak_LayerObservationID perm) = Inl err"
      "SaveWithState b s = (s, Inl err)"
  | (bound) temp perm layer obs where "\<not> bind_conflict b s" "keys s (tb_TempAuthKeyID b) = Some temp" "keys s (tb_PermAuthKeyID b) = Some perm"
      "0 < ak_ExpiresAt temp" "ak_ExpiresAt perm = 0" "tb_ExpiresAt b = ak_ExpiresAt temp"
      "MergeAuthKeyLayerObservations (ak_Layer temp) (ak_LayerObservationID temp) (ak_Layer perm) (ak_LayerObservationID perm) = Inr (layer, obs)"
      "SaveWithState b s = (bind_pair b layer obs temp perm s, Inr (layer, obs))"
proof (cases "bind_conflict b s")
  case True
  then show ?thesis by (intro conflict) (simp_all add: SaveWithState_def bind_conflict_def Let_def)
next
  case nc: False
  let ?ok = "\<lambda>temp perm. keys s (tb_TempAuthKeyID b) = Some temp \<and> keys s (tb_PermAuthKeyID b) = Some perm
          \<and> 0 < ak_ExpiresAt temp \<and> ak_ExpiresAt perm = 0 \<and> tb_ExpiresAt b = ak_ExpiresAt temp"
  note def = SaveWithState_def [of b s, folded bind_conflict_def, unfolded Let_def, folded bind_conflict_def]
  show ?thesis
  proof (cases "\<exists>temp perm. ?ok temp perm")
    case False
    then have "SaveWithState b s = (s, Inl ErrAuthKeyBindingInvalid)"
      using nc by (auto simp: def split: option.split)
    then show ?thesis using nc False by (rule invalid [rotated 2])
  next
    case True
    then obtain temp perm where tp: "keys s (tb_TempAuthKeyID b) = Some temp" "keys s (tb_PermAuthKeyID b) = Some perm"
      "0 < ak_ExpiresAt temp" "ak_ExpiresAt perm = 0" "tb_ExpiresAt b = ak_ExpiresAt temp" by blast
    show ?thesis
    proof (cases "MergeAuthKeyLayerObservations (ak_Layer temp) (ak_LayerObservationID temp) (ak_Layer perm) (ak_LayerObservationID perm)")
      case (Inl err)
      then show ?thesis using nc tp by (intro merge) (simp_all add: def)
    next
      case (Inr r)
      then show ?thesis using nc tp by (cases r) (intro bound; simp add: def bind_pair_def)
    qed
  qed
qed

lemma auth_ok_bind_pair:
  assumes ok: "auth_ok s" and nc: "\<not> bind_conflict b s"
    and t: "keys s (tb_TempAuthKeyID b) = Some temp" "0 < ak_ExpiresAt temp" and p: "keys s (tb_PermAuthKeyID b) = Some perm" "ak_ExpiresAt perm = 0"
    and e: "tb_ExpiresAt b = ak_ExpiresAt temp" and obs: "obs = max (ak_LayerObservationID temp) (ak_LayerObservationID perm)"
  shows "auth_ok (bind_pair b layer obs temp perm s)"
proof -
  have "auth_ok \<lparr>keys = (keys s)(tb_TempAuthKeyID b \<mapsto> temp\<lparr>ak_Layer := layer, ak_LayerObservationID := obs\<rparr>,
      tb_PermAuthKeyID b \<mapsto> perm\<lparr>ak_Layer := layer, ak_LayerObservationID := obs\<rparr>),
      bindings = (bindings s)(tb_TempAuthKeyID b \<mapsto> b), sessionLayers = sessionLayers s, nextLayerObservation = nextLayerObservation s,
      auths = (\<lambda>i. mirror_layer [tb_TempAuthKeyID b, tb_PermAuthKeyID b] layer (auths s i))\<rparr>"
    using nc e obs keys_okD [OF auth_okD(1) [OF ok] t(1)] keys_okD [OF auth_okD(1) [OF ok] p(1)]
    by (intro auth_ok_move_pair [OF ok t p]) (auto simp: bind_conflict_def)
  then show ?thesis by (simp add: bind_pair_def mirrorAuthorizationLayersLocked_def auth_ok_def)
qed

lemma auth_ok_SaveWithState:
  assumes ok: "auth_ok s" shows "auth_ok (fst (SaveWithState b s))"
proof (cases rule: SaveWithState_cases [of b s])
  case (bound temp perm layer obs)
  then show ?thesis using auth_ok_bind_pair [OF ok] Merge_result(1) [OF bound(7)] by simp
qed (simp_all add: ok)

lemma bound_perm_Inr:
  "bound_perm raw s = Inr None \<Longrightarrow> bindings s raw = None"
  "bound_perm raw s = Inr (Some (p, perm)) \<Longrightarrow> \<exists>b. bindings s raw = Some b \<and> tb_PermAuthKeyID b = p \<and> keys s p = Some perm"
  by (auto simp: bound_perm_def split: option.splits)

lemma bound_perm_ok: "auth_ok s \<Longrightarrow> \<exists>r. bound_perm raw s = Inr r"
  by (auto simp: bound_perm_def split: option.splits elim: bindings_okE [OF auth_okD(2)])

lemma auth_ok_new_observation:
  assumes ok: "auth_ok s" and raw: "keys s raw = Some rawKey" and b: "bound_perm raw s = Inr bound" and l: "0 < layer"
  shows "auth_ok (fst (new_observation raw sid layer msg e rawKey bound s))"
proof (cases bound)
  case (Some x)
  obtain p perm where x: "x = (p, perm)" by (cases x)
  obtain bd where bd: "bindings s raw = Some bd" "tb_PermAuthKeyID bd = p" "keys s p = Some perm"
    using bound_perm_Inr(2) [of raw s p perm] b Some x by auto
  obtain temp perm' where t: "keys s raw = Some temp" "0 < ak_ExpiresAt temp" "keys s (tb_PermAuthKeyID bd) = Some perm'" "ak_ExpiresAt perm' = 0"
    by (rule bindings_okE [OF auth_okD(2) [OF ok] bd(1)])
  have perm: "0 < ak_ExpiresAt rawKey" "ak_ExpiresAt perm = 0" using t raw bd by auto
  let ?c = "\<lparr>sl_Layer = layer, sl_MessageID = msg, sl_ObservationID = nextLayerObservation s + 1, sl_ExpiresAt = e, sl_SharedDefault = False\<rparr>"
  have "auth_ok \<lparr>keys = (keys s)(raw \<mapsto> rawKey\<lparr>ak_Layer := layer, ak_LayerObservationID := nextLayerObservation s + 1\<rparr>,
      p \<mapsto> perm\<lparr>ak_Layer := layer, ak_LayerObservationID := nextLayerObservation s + 1\<rparr>),
      bindings = bindings s, sessionLayers = (sessionLayers s)((raw, sid) \<mapsto> ?c), nextLayerObservation = nextLayerObservation s + 1,
      auths = (\<lambda>i. mirror_layer [raw, p] layer (auths s i))\<rparr>"
    using keys_okD [OF auth_okD(1) [OF ok] raw] keys_okD [OF auth_okD(1) [OF ok] bd(3)] bd l
    by (intro auth_ok_move_pair [OF ok raw perm(1) bd(3) perm(2)]) (auto split: if_splits)
  then show ?thesis by (simp add: new_observation_def Some x Let_def mirrorAuthorizationLayersLocked_def auth_ok_def)
next
  case None
  let ?k = "rawKey\<lparr>ak_Layer := layer, ak_LayerObservationID := nextLayerObservation s + 1\<rparr>"
  note id = keys_okD [OF auth_okD(1) [OF ok] raw]
  have nb: "bindings s raw = None" using bound_perm_Inr(1) b None by simp
  have follow: "keys_follow (keys s) ((keys s)(raw \<mapsto> ?k))" using id by (intro keys_follow_upd [of _ _ rawKey]) (simp_all add: raw)
  have "keys_ok ((keys s)(raw \<mapsto> ?k)) (nextLayerObservation s + 1)"
    using id by (intro keys_ok_upd [OF auth_okD(1) [OF ok]]) auto
  moreover have "bindings_ok ((keys s)(raw \<mapsto> ?k)) (bindings s)"
    by (intro bindings_ok_upd [OF auth_okD(2) [OF ok] follow]) (simp add: nb)
  moreover have "layers_ok ((keys s)(raw \<mapsto> ?k)) ((sessionLayers s)((raw, sid) \<mapsto> \<lparr>sl_Layer = layer, sl_MessageID = msg,
      sl_ObservationID = nextLayerObservation s + 1, sl_ExpiresAt = e, sl_SharedDefault = False\<rparr>)) (nextLayerObservation s + 1)"
    using l by (intro layers_ok_add [OF layers_ok_follow [OF auth_okD(3) [OF ok] follow], of _ _ raw]) (auto split: if_splits)
  moreover have "mirrors_ok ((keys s)(raw \<mapsto> ?k)) (\<lambda>i. mirror_layer [raw] layer (auths s i))"
    using raw by (intro mirrors_ok_mirror [OF auth_okD(4) [OF ok]]) auto
  ultimately show ?thesis
    by (simp add: new_observation_def None Let_def mirrorAuthorizationLayersLocked_def auth_ok_def)
qed

lemma shared_default_eq:
  "keys s' = keys s \<Longrightarrow> bindings s' = bindings s \<Longrightarrow> sl_Layer c' = sl_Layer c \<Longrightarrow> sl_ObservationID c' = sl_ObservationID c
    \<Longrightarrow> sessionLayerIsSharedDefaultLocked raw c' s' = sessionLayerIsSharedDefaultLocked raw c s"
  by (simp add: sessionLayerIsSharedDefaultLocked_def cong: option.case_cong)

text \<open>What \<open>AdvanceSessionLayer\<close> does, by cases.\<close>

definition refresh_row :: "key_id \<Rightarrow> int \<Rightarrow> session_layer \<Rightarrow> int \<Rightarrow> int \<Rightarrow> auth_state \<Rightarrow> auth_state" where
  "refresh_row raw sid c msg e s =
     s\<lparr>sessionLayers := (sessionLayers s)((raw, sid) \<mapsto> c\<lparr>sl_MessageID := msg, sl_ExpiresAt := e, sl_SharedDefault := False\<rparr>)\<rparr>"

lemma Advance_cases:
  obtains (unchanged) "fst (AdvanceSessionLayer now raw sid layer msg s) = s" "\<And>c. snd (AdvanceSessionLayer now raw sid layer msg s) \<noteq> Inr (c, True)"
  | (refresh) e c where "AuthKeySessionLayerEvidenceFresh now msg = Some e" "0 < layer" "keys s raw \<noteq> None"
      "live_row now raw sid s = Some c" "sl_MessageID c < msg" "layer = sl_Layer c"
      "AdvanceSessionLayer now raw sid layer msg s =
        (refresh_row raw sid c msg e s, Inr (c\<lparr>sl_MessageID := msg, sl_ExpiresAt := e,
           sl_SharedDefault := sessionLayerIsSharedDefaultLocked raw c s\<rparr>, True))"
  | (observe) e rawKey bound where "AuthKeySessionLayerEvidenceFresh now msg = Some e" "0 < layer" "keys s raw = Some rawKey"
      "bound_perm raw s = Inr bound" "nextLayerObservation s \<noteq> max_int64"
      "\<And>c. live_row now raw sid s = Some c \<Longrightarrow> sl_MessageID c < msg \<and> layer \<noteq> sl_Layer c"
      "AdvanceSessionLayer now raw sid layer msg s =
        map_prod id (\<lambda>c. Inr (c, True)) (new_observation raw sid layer msg e rawKey bound s)"
proof (cases "AuthKeySessionLayerEvidenceFresh now msg")
  case None
  then show ?thesis by (intro unchanged) (simp_all add: AdvanceSessionLayer_def)
next
  case e: (Some e)
  show ?thesis
  proof (cases "layer \<le> 0 \<or> keys s raw = None")
    case True
    then show ?thesis by (intro unchanged) (auto simp: AdvanceSessionLayer_def e)
  next
    case False
    then obtain rawKey where r: "0 < layer" "keys s raw = Some rawKey" by auto
    note def = AdvanceSessionLayer_def [of now raw sid layer msg s, unfolded e r Let_def option.case]
    show ?thesis
    proof (cases "(\<exists>c. live_row now raw sid s = Some c \<and> msg \<le> sl_MessageID c) \<or> (\<exists>err. bound_perm raw s = Inl err)")
      case True
      then show ?thesis using r by (intro unchanged) (auto simp: def split: option.splits)
    next
      case False
      then obtain bound where b: "bound_perm raw s = Inr bound" by (cases "bound_perm raw s") auto
      have newer: "sl_MessageID c < msg" if "live_row now raw sid s = Some c" for c using False that by force
      consider c where "live_row now raw sid s = Some c" "layer = sl_Layer c"
        | "\<And>c. live_row now raw sid s = Some c \<Longrightarrow> layer \<noteq> sl_Layer c" "nextLayerObservation s = max_int64"
        | "\<And>c. live_row now raw sid s = Some c \<Longrightarrow> layer \<noteq> sl_Layer c" "nextLayerObservation s \<noteq> max_int64"
        by blast
      then show ?thesis
      proof cases
        case 1
        have "sessionLayerIsSharedDefaultLocked raw (c\<lparr>sl_MessageID := msg, sl_ExpiresAt := e, sl_SharedDefault := False\<rparr>)
            (s\<lparr>sessionLayers := L\<rparr>) = sessionLayerIsSharedDefaultLocked raw c s" for L
          by (rule shared_default_eq) simp_all
        then show ?thesis using r newer [OF 1(1)] b by (intro refresh [OF e _ _ 1(1)])
          (simp_all add: def refresh_row_def 1(1) 1(2) [symmetric])
      next
        case 2
        then show ?thesis using r b newer by (intro unchanged) (cases "live_row now raw sid s"; force simp: def)+
      next
        case 3
        then show ?thesis using r b newer by (intro observe [OF e r b]) (cases "live_row now raw sid s"; force simp: def)+
      qed
    qed
  qed
qed

lemma auth_ok_refresh:
  assumes ok: "auth_ok s" and c: "live_row now raw sid s = Some c"
  shows "auth_ok (refresh_row raw sid c msg e s)"
proof -
  have row: "sessionLayers s (raw, sid) = Some c" using c by (auto simp: live_row_def split: option.splits if_splits)
  then have v: "keys s raw \<noteq> None \<and> sl_ObservationID c \<le> nextLayerObservation s \<and> 0 < sl_Layer c"
    using auth_okD(3) [OF ok] unfolding layers_ok_def by blast
  have "layers_ok (keys s) ((sessionLayers s)((raw, sid) \<mapsto> c\<lparr>sl_MessageID := msg, sl_ExpiresAt := e, sl_SharedDefault := False\<rparr>))
      (nextLayerObservation s)"
    by (rule layers_ok_add [OF auth_okD(3) [OF ok], of _ raw]) (use v in \<open>auto split: if_splits\<close>)
  then show ?thesis using auth_okD [OF ok] by (simp add: auth_ok_def refresh_row_def)
qed

lemma auth_ok_Advance:
  assumes ok: "auth_ok s" shows "auth_ok (fst (AdvanceSessionLayer now raw sid layer msg s))"
  by (cases rule: Advance_cases [of now raw sid layer msg s])
    (simp_all add: ok auth_ok_refresh auth_ok_new_observation)

lemma auth_ok_layers:
  assumes "auth_ok s" "\<And>key v. L key = Some v \<Longrightarrow> sessionLayers s key = Some v"
  shows "auth_ok (s\<lparr>sessionLayers := L\<rparr>)"
  using assms auth_okD [OF assms(1)] layers_ok_remove [OF auth_okD(3) [OF assms(1)] assms(2) refl]
  by (simp add: auth_ok_def)

lemma auth_ok_expire_layers: "auth_ok s \<Longrightarrow> auth_ok (fst (delete_expired_layers order now limit n s))"
proof (induction order now limit n s rule: delete_expired_layers.induct)
  case (2 key order now limit deleted s)
  have "auth_ok (s\<lparr>sessionLayers := (sessionLayers s)(key := None)\<rparr>)"
    by (rule auth_ok_layers [OF 2(4)]) (simp split: if_splits)
  then show ?case using 2 by (auto split: option.splits)
qed simp

lemma auth_ok_auths:
  assumes "auth_ok s"
    and "\<And>kid a. as_linked (auths s i) \<Longrightarrow> m kid = Some a \<Longrightarrow>
      as_m (auths s i) kid = Some a \<or> az_AuthKeyID a = kid \<and> (\<exists>k. keys s kid = Some k \<and> ak_ExpiresAt k = 0 \<and> az_Layer a = ak_Layer k)"
  shows "auth_ok (set_auths i m s)"
proof -
  have "mirrors_ok (keys s) ((auths s)(i := (auths s i)\<lparr>as_m := m\<rparr>))"
  proof (rule mirrors_ok_set [OF auth_okD(4) [OF assms(1)]])
    fix kid a assume *: "as_linked (auths s i)" "m kid = Some a"
    show "az_AuthKeyID a = kid \<and> (\<exists>k. keys s kid = Some k \<and> ak_ExpiresAt k = 0 \<and> az_Layer a = ak_Layer k)"
      using assms(2) [OF *] mirrors_okE [OF auth_okD(4) [OF assms(1)] *(1), of kid a] by metis
  qed
  then show ?thesis using auth_okD [OF assms(1)] by (simp add: auth_ok_def set_auths_def)
qed

lemma auth_ok_Bind: "auth_ok s \<Longrightarrow> auth_ok (fst (Bind now i a s))"
  by (auto simp: Bind_def Let_def intro!: auth_ok_auths split: option.splits if_splits)

lemma auth_ok_AuthInfo:
  assumes ok: "auth_ok s" shows "auth_ok (fst (Auth_UpdateClientInfo now i kid info s))"
proof -
  have "az_AuthKeyID (mergeAuthorizationClientInfo now a info) = az_AuthKeyID a" for a
    by (simp add: mergeAuthorizationClientInfo_def)
  then show ?thesis using ok
    by (auto simp: Auth_UpdateClientInfo_def Let_def intro!: auth_ok_auths split: option.splits if_splits
        elim!: mirrors_okE [OF auth_okD(4) [OF ok]])
qed

lemma auth_ok_Password:
  assumes ok: "auth_ok s" shows "auth_ok (fst (MarkPasswordPassed now i kid u s))"
  using ok by (auto simp: MarkPasswordPassed_def intro!: auth_ok_auths split: option.splits if_splits
      elim!: mirrors_okE [OF auth_okD(4) [OF ok]])

section \<open>Runs\<close>

datatype auth_op =
    KSave auth_key_data | KInfo key_id key_client_info | KDelete key_id | KBindTemp temp_binding
  | KExpire "key_id list" int int | KGetLayer key_id int | KAdvance key_id int int int | KDeleteLayer key_id int
  | KExpireLayers "(key_id \<times> int) list" int | KBind nat authorization | KAuthInfo nat key_id client_info
  | KPassword nat key_id int | KAuthDelete nat key_id | KRevokeHash "key_id list" nat int int | KRevokeUser nat int key_id

fun auth_exec :: "int \<times> auth_op \<Rightarrow> auth_state \<Rightarrow> auth_state" where
  "auth_exec (now, KSave k) s = fst (Key_Save k s)"
| "auth_exec (now, KInfo kid info) s = fst (Key_UpdateClientInfo kid info s)"
| "auth_exec (now, KDelete kid) s = Key_Delete kid s"
| "auth_exec (now, KBindTemp b) s = fst (SaveWithState b s)"
| "auth_exec (now, KExpire order before limit) s = fst (Binding_DeleteExpired order before limit s)"
| "auth_exec (now, KGetLayer raw sid) s = fst (GetSessionLayer now raw sid s)"
| "auth_exec (now, KAdvance raw sid layer msg) s = fst (AdvanceSessionLayer now raw sid layer msg s)"
| "auth_exec (now, KDeleteLayer raw sid) s = fst (DeleteSessionLayer raw sid s)"
| "auth_exec (now, KExpireLayers order limit) s = fst (DeleteExpiredSessionLayers order now limit s)"
| "auth_exec (now, KBind i a) s = fst (Bind now i a s)"
| "auth_exec (now, KAuthInfo i kid info) s = fst (Auth_UpdateClientInfo now i kid info s)"
| "auth_exec (now, KPassword i kid u) s = fst (MarkPasswordPassed now i kid u s)"
| "auth_exec (now, KAuthDelete i kid) s = Auth_Delete i kid s"
| "auth_exec (now, KRevokeHash order i u h) s = fst (RevokeByHash order i u h s)"
| "auth_exec (now, KRevokeUser i u keep) s = fst (RevokeByUserExcept i u keep s)"

text \<open>The service links its authorization stores, still empty, to the key state.\<close>

definition linked_start :: "nat list \<Rightarrow> auth_state" where
  "linked_start links = fold LinkAuthKeyAuthority links NewAuthKeyStore"

lemma auth_ok_exec:
  assumes ok: "auth_ok s" shows "auth_ok (auth_exec c s)"
proof (cases c)
  case (Pair now op)
  show ?thesis
  proof (cases op)
    case (KGetLayer raw sid)
    have "auth_ok (s\<lparr>sessionLayers := (sessionLayers s)((raw, sid) := None)\<rparr>)" by (rule auth_ok_layers [OF ok]) (simp split: if_splits)
    then show ?thesis using ok by (simp add: Pair KGetLayer GetSessionLayer_def split: option.split)
  next
    case (KDeleteLayer raw sid)
    have "auth_ok (s\<lparr>sessionLayers := (sessionLayers s)((raw, sid) := None)\<rparr>)" by (rule auth_ok_layers [OF ok]) (simp split: if_splits)
    then show ?thesis by (simp add: Pair KDeleteLayer DeleteSessionLayer_def)
  next
    case (KAuthDelete i kid)
    show ?thesis unfolding Pair KAuthDelete auth_exec.simps Auth_Delete_def by (rule auth_ok_auths [OF ok]) (simp split: if_splits)
  next
    case (KRevokeHash order i u h)
    have "auth_ok (set_auths i ((as_m (auths s i))(kid := None)) s)" for kid by (rule auth_ok_auths [OF ok]) (simp split: if_splits)
    then show ?thesis using ok by (simp add: Pair KRevokeHash RevokeByHash_def split: option.split)
  next
    case (KRevokeUser i u keep)
    show ?thesis unfolding Pair KRevokeUser auth_exec.simps RevokeByUserExcept_def Let_def fst_conv
      by (rule auth_ok_auths [OF ok]) (simp split: if_splits)
  qed (simp_all add: Pair ok auth_ok_Save auth_ok_UpdateClientInfo auth_ok_Delete auth_ok_SaveWithState auth_ok_Advance
      Binding_DeleteExpired_def auth_ok_delete_expired DeleteExpiredSessionLayers_def auth_ok_expire_layers
      auth_ok_Bind auth_ok_AuthInfo auth_ok_Password)
qed

lemma linked_start_fields:
  "keys (linked_start links) = Map.empty" "bindings (linked_start links) = Map.empty" "sessionLayers (linked_start links) = Map.empty"
  "as_m (auths (linked_start links) i) = Map.empty" "as_linked (auths (linked_start links) i) \<longleftrightarrow> i \<in> set links"
  "nextLayerObservation (linked_start links) = 0"
proof -
  have "keys (fold LinkAuthKeyAuthority links s) = keys s \<and> bindings (fold LinkAuthKeyAuthority links s) = bindings s
    \<and> sessionLayers (fold LinkAuthKeyAuthority links s) = sessionLayers s \<and> nextLayerObservation (fold LinkAuthKeyAuthority links s) = nextLayerObservation s
    \<and> (as_m (auths s i) = Map.empty \<longrightarrow> as_m (auths (fold LinkAuthKeyAuthority links s) i) = Map.empty)
    \<and> (as_linked (auths (fold LinkAuthKeyAuthority links s) i) \<longleftrightarrow> i \<in> set links \<or> as_linked (auths s i))" for s
  proof (induction links arbitrary: s)
    case (Cons l links)
    show ?case using Cons [of "LinkAuthKeyAuthority l s"] by (auto simp: LinkAuthKeyAuthority_def)
  qed simp
  from this [of NewAuthKeyStore] show "keys (linked_start links) = Map.empty" "bindings (linked_start links) = Map.empty"
    "sessionLayers (linked_start links) = Map.empty"
    "as_m (auths (linked_start links) i) = Map.empty" "as_linked (auths (linked_start links) i) \<longleftrightarrow> i \<in> set links"
    "nextLayerObservation (linked_start links) = 0"
    by (simp_all add: linked_start_def NewAuthKeyStore_def NewAuthorizationStore_def)
qed

lemma auth_ok_start: "auth_ok (linked_start links)"
  by (simp add: auth_ok_def linked_start_fields keys_ok_def bindings_ok_def layers_ok_def mirrors_ok_def)

lemma auth_ok_run: "auth_ok s \<Longrightarrow> auth_ok (fold auth_exec cs s)"
  by (induction cs arbitrary: s) (simp_all add: auth_ok_exec)

lemmas auth_ok_reached = auth_ok_run [OF auth_ok_start]


lemma linked_simps [simp]:
  "as_linked (mirror_layer ids layer a) = as_linked a" "as_linked (mirror_delete gone a) = as_linked a"
  by (simp_all add: mirror_layer_def mirror_delete_def)

lemma linked_state_simps [simp]:
  "as_linked (auths (mirrorAuthorizationLayersLocked ids layer s) i) = as_linked (auths s i)"
  "as_linked (auths (deleteAuthorizationMirrorsLocked gone s) i) = as_linked (auths s i)"
  "as_linked (auths (set_auths j m s) i) = as_linked (auths s i)"
  "as_linked (auths (put_key k s) i) = as_linked (auths s i)"
  "auths (deleteSessionLayersLocked gone s) = auths s"
  by (simp_all add: mirror_fields put_key_fields)

lemma expire_linked: "as_linked (auths (fst (delete_expired ids before limit n s)) i) = as_linked (auths s i)"
  by (induction ids before limit n s rule: delete_expired.induct) (auto simp: drop_expired_key_def split: option.splits)

lemma expire_layers_auths: "auths (fst (delete_expired_layers order now limit n s)) = auths s"
  by (induction order now limit n s rule: delete_expired_layers.induct) (auto split: option.splits)

lemma Advance_linked: "as_linked (auths (fst (AdvanceSessionLayer now raw sid layer msg s)) i) = as_linked (auths s i)"
proof (cases rule: Advance_cases [of now raw sid layer msg s])
  case (observe e rawKey bound)
  then show ?thesis by (cases bound) (auto simp: new_observation_def Let_def split: prod.split)
qed (simp_all add: refresh_row_def)

lemma exec_linked: "as_linked (auths (auth_exec c s) i) = as_linked (auths s i)"
proof (cases c)
  case (Pair now op)
  show ?thesis
  proof (cases op)
    case (KBindTemp b)
    show ?thesis by (cases rule: SaveWithState_cases [of b s]) (simp_all add: Pair KBindTemp bind_pair_def)
  qed (simp_all add: Pair Key_Save_def Key_UpdateClientInfo_def Let_def Key_Delete_def deleteProtocolAuthKeyLocked_def
      Binding_DeleteExpired_def expire_linked GetSessionLayer_def Advance_linked DeleteSessionLayer_def
      DeleteExpiredSessionLayers_def expire_layers_auths Bind_def Auth_UpdateClientInfo_def MarkPasswordPassed_def Auth_Delete_def
      RevokeByHash_def RevokeByUserExcept_def split: option.split prod.split)
qed

lemma run_linked: "as_linked (auths (fold auth_exec cs s) i) = as_linked (auths s i)"
  by (induction cs arbitrary: s) (simp_all add: exec_linked)

section \<open>Who may sign a key in\<close>

definition same_rights :: "authorization \<Rightarrow> authorization \<Rightarrow> bool" where
  "same_rights a b \<longleftrightarrow> az_UserID a = az_UserID b \<and> az_PasswordPending a = az_PasswordPending b"

lemma same_rights_refl [simp]: "same_rights a a" by (simp add: same_rights_def)

lemma same_rights_layer [simp]: "same_rights (a\<lparr>az_Layer := l\<rparr>) a" by (simp add: same_rights_def)

text \<open>The operations that do not grant: rows keep their rights or go.\<close>

definition only_less :: "auth_state \<Rightarrow> auth_state \<Rightarrow> bool" where
  "only_less s s' \<longleftrightarrow> (\<forall>i kid a'. as_m (auths s' i) kid = Some a' \<longrightarrow> (\<exists>a. as_m (auths s i) kid = Some a \<and> same_rights a' a))"

lemma only_less_same: "auths s' = auths s \<Longrightarrow> only_less s s'"
  by (simp add: only_less_def)

lemma only_less_mirror: "only_less s (mirrorAuthorizationLayersLocked ids layer s')" if "auths s' = auths s"
  using that by (auto simp: only_less_def mirrorAuthorizationLayersLocked_def mirror_layer_def)

lemma only_less_trans:
  assumes 1: "only_less s s'" and 2: "only_less s' s''" shows "only_less s s''"
  unfolding only_less_def
proof (intro allI impI)
  fix i kid a'' assume "as_m (auths s'' i) kid = Some a''"
  then obtain a' where a': "as_m (auths s' i) kid = Some a'" "same_rights a'' a'" using 2 unfolding only_less_def by blast
  then obtain a where "as_m (auths s i) kid = Some a" "same_rights a' a" using 1 unfolding only_less_def by blast
  then show "\<exists>a. as_m (auths s i) kid = Some a \<and> same_rights a'' a" using a' by (auto simp: same_rights_def)
qed

lemma only_less_set:
  assumes "\<And>kid a'. m kid = Some a' \<Longrightarrow> \<exists>a. as_m (auths s i) kid = Some a \<and> same_rights a' a"
  shows "only_less s (set_auths i m s)"
  using assms by (auto simp: only_less_def set_auths_def)

lemma only_less_delete: "auths s' = auths s \<Longrightarrow> only_less s (deleteAuthorizationMirrorsLocked gone s')"
  by (auto simp: only_less_def deleteAuthorizationMirrorsLocked_def mirror_delete_def)

lemma only_less_put_key: "only_less s (put_key k s)"
  using only_less_mirror [of "s\<lparr>keys := (keys s)(ak_ID k \<mapsto> k)\<rparr>" s "[ak_ID k]" "ak_Layer k"]
  by (simp add: put_key_def Let_def only_less_def)

lemma only_less_Advance: "only_less s (fst (AdvanceSessionLayer now raw sid layer msg s))"
proof (cases rule: Advance_cases [of now raw sid layer msg s])
  case (observe e rawKey bound)
  then show ?thesis by (cases bound) (auto simp: new_observation_def Let_def split: prod.split intro!: only_less_mirror)
qed (simp_all add: only_less_same refresh_row_def)

lemma only_less_expire: "only_less s (fst (delete_expired ids before limit n s))"
proof (induction ids before limit n s rule: delete_expired.induct)
  case (2 kid ids before limit n s)
  have "only_less s (drop_expired_key kid s)" by (auto simp: drop_expired_key_def deleteSessionLayersLocked_def intro: only_less_delete)
  then show ?case using 2 by (auto split: option.splits intro: only_less_trans simp: only_less_same)
qed (simp add: only_less_same)

lemma Key_Delete_only_less: "only_less s (Key_Delete kid s)"
  unfolding Key_Delete_def
  by (auto simp: deleteProtocolAuthKeyLocked_def Let_def deleteSessionLayersLocked_def split: option.split prod.split intro!: only_less_delete)

fun grants :: "auth_op \<Rightarrow> bool" where
  "grants (KBind i a) \<longleftrightarrow> True"
| "grants (KPassword i kid u) \<longleftrightarrow> True"
| "grants _ \<longleftrightarrow> False"

lemma exec_only_less:
  assumes "\<not> grants op" shows "only_less s (auth_exec (now, op) s)"
proof (cases op)
  case (KBindTemp b)
  show ?thesis
    by (cases rule: SaveWithState_cases [of b s]) (simp_all add: KBindTemp only_less_same bind_pair_def only_less_mirror)
next
  case (KAuthInfo i kid info)
  have "only_less s (set_auths i ((as_m (auths s i))(kid \<mapsto> a')) s)" if "as_m (auths s i) kid = Some a" "same_rights a' a" for a a'
    by (rule only_less_set) (use that in \<open>simp split: if_splits\<close>)
  moreover have "same_rights (mergeAuthorizationClientInfo now a info) a" "same_rights ((mergeAuthorizationClientInfo now a info)\<lparr>az_Layer := l\<rparr>) a" for a l
    by (simp_all add: mergeAuthorizationClientInfo_def same_rights_def)
  ultimately show ?thesis by (simp add: KAuthInfo Auth_UpdateClientInfo_def Let_def only_less_same split: option.split)
next
  case (KRevokeUser i u keep)
  show ?thesis unfolding KRevokeUser auth_exec.simps RevokeByUserExcept_def Let_def fst_conv
    by (rule only_less_set) (simp split: if_splits)
qed (use assms in \<open>auto simp: Key_Save_def only_less_put_key only_less_same Key_UpdateClientInfo_def Let_def only_less_mirror
  Key_Delete_only_less Binding_DeleteExpired_def only_less_expire GetSessionLayer_def only_less_Advance DeleteSessionLayer_def
  DeleteExpiredSessionLayers_def expire_layers_auths Auth_Delete_def RevokeByHash_def intro!: only_less_set
  split: option.splits if_splits\<close>)

text \<open>An authorization of an account after one call: it was there, a login put it there, or its password was passed.\<close>

lemma exec_authorization:
  assumes a': "as_m (auths (auth_exec (now, op) s) i) kid = Some a'"
  obtains (kept) a where "as_m (auths s i) kid = Some a" "same_rights a' a"
  | (login) b where "op = KBind i b" "az_AuthKeyID b = kid" "same_rights a' b"
  | (password) a where "op = KPassword i kid (az_UserID a')" "as_m (auths s i) kid = Some a" "az_UserID a = az_UserID a'"
      "\<not> az_PasswordPending a'"
proof (cases "grants op")
  case False
  then show ?thesis using exec_only_less [OF False, of s now] a' kept unfolding only_less_def by blast
next
  case True
  then consider i' b where "op = KBind i' b" | i' kid' u where "op = KPassword i' kid' u" by (cases op) auto
  then show ?thesis
  proof cases
    case 1
    show ?thesis
    proof (cases "as_m (auths s i) kid = Some a'")
      case False
      then show ?thesis using a' 1
        by (intro login [of b]) (auto simp: Bind_def Let_def set_auths_def same_rights_def split: option.splits if_splits)
    qed (rule kept [of a'], simp_all)
  next
    case 2
    show ?thesis
    proof (cases "as_m (auths s i) kid = Some a'")
      case False
      then obtain a where "as_m (auths s i') kid' = Some a" "\<not> (u = 0 \<or> az_UserID a \<noteq> u \<or> \<not> az_PasswordPending a)"
        using a' 2 by (auto simp: MarkPasswordPassed_def split: option.splits if_splits)
      then show ?thesis using a' 2 False
        by (intro password [of a]) (auto simp: MarkPasswordPassed_def set_auths_def split: if_splits)
    qed (rule kept [of a'], simp_all)
  qed
qed

lemma run_authorization:
  assumes "as_m (auths (fold auth_exec cs s) i) kid = Some a"
    and "\<And>a0. as_m (auths s i) kid = Some a0 \<Longrightarrow> az_UserID a0 \<noteq> az_UserID a"
  shows "\<exists>pre now b post. cs = pre @ (now, KBind i b) # post \<and> az_AuthKeyID b = kid \<and> az_UserID b = az_UserID a
    \<and> (az_PasswordPending a = az_PasswordPending b \<or> (\<exists>now'. (now', KPassword i kid (az_UserID a)) \<in> set post))"
  using assms
proof (induction cs arbitrary: a rule: rev_induct)
  case (snoc c cs)
  obtain now op where c: "c = (now, op)" by (cases c)
  have "as_m (auths (auth_exec (now, op) (fold auth_exec cs s)) i) kid = Some a" using snoc.prems(1) c by simp
  then show ?case
  proof (cases rule: exec_authorization)
    case (kept a1)
    have eq: "az_UserID a1 = az_UserID a" "az_PasswordPending a1 = az_PasswordPending a" using kept(2) by (auto simp: same_rights_def)
    obtain pre n b post where "cs = pre @ (n, KBind i b) # post" "az_AuthKeyID b = kid" "az_UserID b = az_UserID a1"
      "az_PasswordPending a1 = az_PasswordPending b \<or> (\<exists>now'. (now', KPassword i kid (az_UserID a1)) \<in> set post)"
      using snoc.IH [OF kept(1) snoc.prems(2) [folded eq(1)]] by blast
    then show ?thesis using eq by (intro exI [of _ pre] exI [of _ n] exI [of _ b] exI [of _ "post @ [c]"]) auto
  next
    case (login b)
    then show ?thesis unfolding c by (intro exI [of _ cs] exI [of _ now] exI [of _ b] exI [of _ "[]"]) (auto simp: same_rights_def)
  next
    case (password a1)
    obtain pre n b post where "cs = pre @ (n, KBind i b) # post" "az_AuthKeyID b = kid" "az_UserID b = az_UserID a1"
      using snoc.IH [OF password(2) snoc.prems(2) [folded password(3)]] by blast
    then show ?thesis using password unfolding c
      by (intro exI [of _ pre] exI [of _ n] exI [of _ b] exI [of _ "post @ [(now, op)]"]) auto
  qed
qed (use assms in simp)

section \<open>Layer observations\<close>

text \<open>
  When new keys arrive without an observation of their own, as they do from a handshake, one
  observation stands for one layer.
\<close>

definition obs_ok :: "(key_id \<rightharpoonup> auth_key_data) \<Rightarrow> bool" where
  "obs_ok K \<longleftrightarrow> (\<forall>kid k. K kid = Some k \<longrightarrow> 0 \<le> ak_Layer k \<and> 0 \<le> ak_LayerObservationID k \<and> (0 < ak_LayerObservationID k \<longrightarrow> 0 < ak_Layer k))
     \<and> (\<forall>i j k l. K i = Some k \<longrightarrow> K j = Some l \<longrightarrow> ak_LayerObservationID k = ak_LayerObservationID l \<longrightarrow> 0 < ak_LayerObservationID k
          \<longrightarrow> ak_Layer k = ak_Layer l)"

lemma obs_okD:
  assumes "obs_ok K" "K i = Some k"
  shows "0 \<le> ak_Layer k" "0 \<le> ak_LayerObservationID k" "0 < ak_LayerObservationID k \<Longrightarrow> 0 < ak_Layer k"
    "K j = Some l \<Longrightarrow> ak_LayerObservationID k = ak_LayerObservationID l \<Longrightarrow> 0 < ak_LayerObservationID k \<Longrightarrow> ak_Layer k = ak_Layer l"
  using assms unfolding obs_ok_def by blast+

lemma obs_ok_upd:
  assumes ok: "obs_ok K" and k: "0 \<le> ak_Layer k" "0 \<le> ak_LayerObservationID k" "0 < ak_LayerObservationID k \<longrightarrow> 0 < ak_Layer k"
    and other: "\<And>j l. K j = Some l \<Longrightarrow> j \<noteq> kid \<Longrightarrow> ak_LayerObservationID l = ak_LayerObservationID k \<Longrightarrow> 0 < ak_LayerObservationID k
      \<Longrightarrow> ak_Layer l = ak_Layer k"
  shows "obs_ok (K(kid \<mapsto> k))"
proof -
  have 1: "0 \<le> ak_Layer m \<and> 0 \<le> ak_LayerObservationID m \<and> (0 < ak_LayerObservationID m \<longrightarrow> 0 < ak_Layer m)" if "(K(kid \<mapsto> k)) i = Some m" for i m
    using that k obs_okD(1-3) [OF ok, of i m] by (cases "i = kid") simp_all
  have 2: "ak_Layer m = ak_Layer l" if "(K(kid \<mapsto> k)) i = Some m" "(K(kid \<mapsto> k)) j = Some l"
      "ak_LayerObservationID m = ak_LayerObservationID l" "0 < ak_LayerObservationID m" for i j m l
  proof (cases "i = kid"; cases "j = kid")
    assume "i = kid" "j \<noteq> kid"
    then show ?thesis using that other [of j l] by auto
  next
    assume "i \<noteq> kid" "j = kid"
    then show ?thesis using that other [of i m] by auto
  qed (use that obs_okD(4) [OF ok, of i m j l] in auto)
  show ?thesis unfolding obs_ok_def using 1 2 by blast
qed

lemma obs_ok_without: "obs_ok K \<Longrightarrow> obs_ok (without gone K)"
proof -
  have sub: "K kid = Some k" if "without gone K kid = Some k" for kid k using that by (simp add: without_def split: if_splits)
  assume "obs_ok K"
  then show ?thesis unfolding obs_ok_def using sub by meson
qed

fun handshake_save :: "auth_op \<Rightarrow> bool" where
  "handshake_save (KSave k) \<longleftrightarrow> 0 \<le> ak_Layer k \<and> ak_LayerObservationID k = 0"
| "handshake_save _ \<longleftrightarrow> True"

lemma obs_ok_put:
  assumes ok: "auth_ok s" "obs_ok (keys s)" and l: "0 \<le> ak_Layer k" "ak_LayerObservationID k = 0"
  shows "obs_ok (keys (fst (Key_Save k s)))"
proof (cases "keys s (ak_ID k)")
  case (Some c)
  have "obs_ok ((keys s)(ak_ID k \<mapsto> keep_metadata c k))"
    using obs_okD [OF ok(2) Some] by (intro obs_ok_upd [OF ok(2)]) (auto simp: keep_metadata_def)
  then show ?thesis using ok(2) Some by (simp add: Key_Save_def put_key_fields) (simp add: keep_metadata_def)
next
  case None
  have "obs_ok ((keys s)(ak_ID k \<mapsto> k))" using l by (intro obs_ok_upd [OF ok(2)]) auto
  then show ?thesis using ok(2) None by (simp add: Key_Save_def put_key_fields)
qed

lemma obs_ok_info:
  assumes ok: "obs_ok (keys s)" shows "obs_ok (keys (fst (Key_UpdateClientInfo kid info s)))"
proof (cases "keys s kid")
  case (Some k)
  show ?thesis
  proof (cases "ki_Layer info > 0 \<and> ak_LayerObservationID k > 0 \<and> ki_Layer info \<noteq> ak_Layer k")
    case False
    have "obs_ok ((keys s)(kid \<mapsto> mergeAuthKeyClientInfo k info))"
      using obs_okD [OF ok Some] False by (intro obs_ok_upd [OF ok]) (auto simp: mergeAuthKeyClientInfo_def)
    then show ?thesis using Some False by (auto simp: Key_UpdateClientInfo_def Let_def mirrorAuthorizationLayersLocked_def)
  qed (simp add: Key_UpdateClientInfo_def Some ok)
qed (simp add: Key_UpdateClientInfo_def ok)

lemma obs_ok_bind:
  assumes ok: "obs_ok (keys s)" shows "obs_ok (keys (fst (SaveWithState b s)))"
proof (cases rule: SaveWithState_cases [of b s])
  case (bound temp perm layer obs)
  note m = Merge_result [OF bound(7)] and t = obs_okD [OF ok bound(2)] and p = obs_okD [OF ok bound(3)]
  have same: "ak_Layer l = layer" if "keys s j = Some l" "ak_LayerObservationID l = obs" "0 < obs" for j l
    using m(3) t(4) [OF that(1)] p(4) [OF that(1)] that by auto
  have 1: "obs_ok ((keys s)(tb_TempAuthKeyID b \<mapsto> temp\<lparr>ak_Layer := layer, ak_LayerObservationID := obs\<rparr>))"
    using m t(2) p(2) same by (intro obs_ok_upd [OF ok]) auto
  have "obs_ok ((keys s)(tb_TempAuthKeyID b \<mapsto> temp\<lparr>ak_Layer := layer, ak_LayerObservationID := obs\<rparr>,
      tb_PermAuthKeyID b \<mapsto> perm\<lparr>ak_Layer := layer, ak_LayerObservationID := obs\<rparr>))"
    using m t(2) p(2) same by (intro obs_ok_upd [OF 1]) (auto split: if_splits)
  then show ?thesis using bound(8) by (simp add: bind_pair_def mirrorAuthorizationLayersLocked_def)
qed (simp_all add: ok)

lemma obs_ok_advance:
  assumes ok: "auth_ok s" "obs_ok (keys s)" shows "obs_ok (keys (fst (AdvanceSessionLayer now raw sid layer msg s)))"
proof (cases rule: Advance_cases [of now raw sid layer msg s])
  case (observe e rawKey bound)
  let ?n = "nextLayerObservation s + 1"
  have less: "ak_LayerObservationID l < ?n" if "keys s j = Some l" for j l
    using keys_okD [OF auth_okD(1) [OF ok(1)] that] by simp
  have pos: "0 \<le> ?n" using less [OF observe(3)] obs_okD(2) [OF ok(2) observe(3)] by simp
  have 1: "obs_ok ((keys s)(raw \<mapsto> rawKey\<lparr>ak_Layer := layer, ak_LayerObservationID := ?n\<rparr>))"
    using observe(2) pos less by (intro obs_ok_upd [OF ok(2)]) force+
  have "obs_ok ((keys s)(raw \<mapsto> rawKey\<lparr>ak_Layer := layer, ak_LayerObservationID := ?n\<rparr>,
      p \<mapsto> perm\<lparr>ak_Layer := layer, ak_LayerObservationID := ?n\<rparr>))" for p perm
    using observe(2) pos less by (intro obs_ok_upd [OF 1]) (force split: if_splits)+
  then show ?thesis using 1 unfolding observe(7)
    by (cases bound) (auto simp: new_observation_def Let_def mirrorAuthorizationLayersLocked_def)
qed (simp_all add: ok refresh_row_def)

lemma obs_ok_expire: "obs_ok (keys s) \<Longrightarrow> obs_ok (keys (fst (delete_expired ids before limit n s)))"
  by (induction ids before limit n s rule: delete_expired.induct)
    (auto simp: drop_expired_key_drop drop_keys_fields obs_ok_without split: option.splits)

lemma expire_layers_keys: "keys (fst (delete_expired_layers order now limit n s)) = keys s"
  by (induction order now limit n s rule: delete_expired_layers.induct) (auto split: option.splits)

lemma obs_ok_exec:
  assumes ok: "auth_ok s" "obs_ok (keys s)" and op: "handshake_save op"
  shows "obs_ok (keys (auth_exec (now, op) s))"
proof (cases op)
  case (KDelete kid)
  then show ?thesis using ok Key_Delete_drop [OF ok(1), of kid]
    by (cases "keys s kid = None") (simp_all add: drop_keys_fields obs_ok_without Key_Delete_def deleteProtocolAuthKeyLocked_def
        deleteAuthorizationMirrorsLocked_def)
qed (use ok op in \<open>simp_all add: obs_ok_put obs_ok_info obs_ok_bind obs_ok_advance obs_ok_expire Binding_DeleteExpired_def
  DeleteExpiredSessionLayers_def expire_layers_keys GetSessionLayer_def DeleteSessionLayer_def Bind_def Let_def set_auths_def
  Auth_UpdateClientInfo_def MarkPasswordPassed_def Auth_Delete_def RevokeByHash_def RevokeByUserExcept_def split: option.split\<close>)

lemma obs_ok_run:
  "auth_ok s \<Longrightarrow> obs_ok (keys s) \<Longrightarrow> \<forall>(now, op) \<in> set cs. handshake_save op \<Longrightarrow> obs_ok (keys (fold auth_exec cs s))"
proof (induction cs arbitrary: s)
  case (Cons c cs)
  then show ?case by (cases c) (simp add: auth_ok_exec obs_ok_exec del: auth_exec.simps)
qed simp

lemma Merge_total:
  assumes "obs_ok K" "K t = Some temp" "K p = Some perm"
  shows "\<exists>layer obs. MergeAuthKeyLayerObservations (ak_Layer temp) (ak_LayerObservationID temp) (ak_Layer perm) (ak_LayerObservationID perm) = Inr (layer, obs)"
  using obs_okD(1-3) [OF assms(1,2)] obs_okD(1-3) [OF assms(1,3)] obs_okD(4) [OF assms(1,2,3)]
  by (simp add: MergeAuthKeyLayerObservations_def) linarith

section \<open>Properties\<close>

text \<open>
  C13. The key state stays consistent: after any sequence of operations every authorization belongs to a
  live permanent key and shows its layer, every binding joins a live temporary key with a live
  permanent one that has seen at least as recent a layer, and every session layer has its key.
\<close>
theorem auth_state_consistent: "auth_ok (fold auth_exec cs (linked_start links))"
  by (rule auth_ok_reached)

text \<open>
  Destroying a key destroys what hangs on it: the key, its session layers and its authorizations are
  gone, and with a permanent key all temporary keys bound to it; nothing is bound to it any more, and
  every other key and binding is as before.
\<close>
theorem key_delete_cascade:
  assumes s: "s = fold auth_exec cs (linked_start links)" and "keys s kid \<noteq> None"
    and gone: "t = kid \<or> bound_to kid s t" and s': "s' = Key_Delete kid s"
  shows "keys s' t = None \<and> bindings s' t = None \<and> sessionLayers s' (t, sid) = None
    \<and> (i \<in> set links \<longrightarrow> as_m (auths s' i) t = None) \<and> \<not> bound_to kid s' t'
    \<and> (t' \<noteq> kid \<and> \<not> bound_to kid s t' \<longrightarrow> keys s' t' = keys s t' \<and> bindings s' t' = bindings s t')"
proof -
  have ok: "auth_ok s" unfolding s by (rule auth_ok_reached)
  have eq: "s' = drop_keys (\<lambda>t. t = kid \<or> bound_to kid s t) s" unfolding s' by (rule Key_Delete_drop [OF ok assms(2)])
  have "as_linked (auths s i)" if "i \<in> set links"
    unfolding s using that by (simp add: run_linked linked_start_fields)
  then show ?thesis using gone by (auto simp: eq drop_keys_fields without_def bound_to_def mirror_delete_def split: option.splits)
qed

text \<open>
  C14. A revoked device stays out: after all other authorizations of an account are revoked, a key other
  than the one kept is authorized for the account again only if a later login put it there, and one
  that waits for its password is let in only after the password was passed.
\<close>
theorem revoked_stays_out:
  assumes "kid \<noteq> keep" and "as_m (auths (fold auth_exec cs (fst (RevokeByUserExcept i u keep s))) i) kid = Some a" and "az_UserID a = u"
  shows "\<exists>pre now b post. cs = pre @ (now, KBind i b) # post \<and> az_AuthKeyID b = kid \<and> az_UserID b = u
    \<and> (az_PasswordPending a = az_PasswordPending b \<or> (\<exists>now'. (now', KPassword i kid u) \<in> set post))"
proof -
  have "az_UserID a0 \<noteq> az_UserID a" if "as_m (auths (fst (RevokeByUserExcept i u keep s)) i) kid = Some a0" for a0
    using that assms(1,3) by (auto simp: RevokeByUserExcept_def Let_def set_auths_def ListByUser_def split: if_splits option.splits)
  from run_authorization [OF assms(2) this] show ?thesis unfolding assms(3) .
qed

text \<open>
  C32. Layer evidence that is applied is what the session reads back until it expires, it replaces only
  evidence of an earlier message, and the answer's claim to be the default of the key holds.
\<close>
theorem layer_evidence_roundtrip:
  assumes adv: "AdvanceSessionLayer now raw sid layer msg s = (s', Inr (c, True))" and live: "now' < sl_ExpiresAt c"
  shows "sl_Layer c = layer \<and> sl_MessageID c = msg \<and> GetSessionLayer now' raw sid s' = (s', Some c)
    \<and> sl_SharedDefault c = sessionLayerIsSharedDefaultLocked raw c s'
    \<and> (case live_row now raw sid s of None \<Rightarrow> True | Some old \<Rightarrow> sl_MessageID old < msg)"
proof (cases rule: Advance_cases [of now raw sid layer msg s])
  case unchanged
  then show ?thesis using adv unchanged(2) [of c] by simp
next
  case (refresh e old)
  have "sessionLayerIsSharedDefaultLocked raw c s' = sessionLayerIsSharedDefaultLocked raw old s"
    using refresh adv by (intro shared_default_eq) (auto simp: refresh_row_def)
  moreover have "sessionLayerIsSharedDefaultLocked raw (c\<lparr>sl_SharedDefault := False\<rparr>) s' = sessionLayerIsSharedDefaultLocked raw c s'"
    by (rule shared_default_eq) simp_all
  ultimately show ?thesis using refresh adv live by (auto simp: GetSessionLayer_def refresh_row_def)
next
  case (observe e rawKey bound)
  have c: "s' = fst (new_observation raw sid layer msg e rawKey bound s)" "c = snd (new_observation raw sid layer msg e rawKey bound s)"
    using adv observe(7) by (simp_all add: map_prod_def split: prod.splits)
  have cs: "sl_SharedDefault c" "sl_Layer c = layer" "sl_MessageID c = msg" "sessionLayers s' (raw, sid) = Some (c\<lparr>sl_SharedDefault := False\<rparr>)"
    unfolding c by (cases bound; simp add: new_observation_def Let_def mirrorAuthorizationLayersLocked_def split: prod.splits)+
  have shared: "sessionLayerIsSharedDefaultLocked raw c s'"
  proof (cases bound)
    case None
    then have "bindings s raw = None" using observe(4) bound_perm_Inr(1) by simp
    then show ?thesis unfolding c
      by (simp add: None new_observation_def Let_def mirrorAuthorizationLayersLocked_def sessionLayerIsSharedDefaultLocked_def)
  next
    case (Some x)
    obtain p perm b where "x = (p, perm)" "bindings s raw = Some b" "tb_PermAuthKeyID b = p"
      using observe(4) Some bound_perm_Inr(2) by (cases x) blast
    then show ?thesis unfolding c
      by (simp add: Some new_observation_def Let_def mirrorAuthorizationLayersLocked_def sessionLayerIsSharedDefaultLocked_def)
  qed
  have "sessionLayerIsSharedDefaultLocked raw (c\<lparr>sl_SharedDefault := False\<rparr>) s' = sessionLayerIsSharedDefaultLocked raw c s'"
    by (rule shared_default_eq) simp_all
  then show ?thesis using cs shared live observe(6) by (auto simp: GetSessionLayer_def split: option.split)
qed

lemma bind_pair_effect:
  assumes "keys s (tb_TempAuthKeyID b) = Some temp" "keys s (tb_PermAuthKeyID b) = Some perm"
    "tb_TempAuthKeyID b \<noteq> tb_PermAuthKeyID b"
  shows "bindings (bind_pair b layer obs temp perm s) = (bindings s)(tb_TempAuthKeyID b \<mapsto> b)"
    "keys (bind_pair b layer obs temp perm s) = (\<lambda>k. if k = tb_TempAuthKeyID b \<or> k = tb_PermAuthKeyID b
       then map_option (\<lambda>d. d\<lparr>ak_Layer := layer, ak_LayerObservationID := obs\<rparr>) (keys s k) else keys s k)"
    "as_m (auths (bind_pair b layer obs temp perm s) i) k =
       (if as_linked (auths s i) \<and> (k = tb_TempAuthKeyID b \<or> k = tb_PermAuthKeyID b)
        then map_option (\<lambda>a. a\<lparr>az_Layer := layer\<rparr>) (as_m (auths s i) k) else as_m (auths s i) k)"
    "sessionLayers (bind_pair b layer obs temp perm s) = sessionLayers s"
    "nextLayerObservation (bind_pair b layer obs temp perm s) = nextLayerObservation s"
  using assms by (auto simp: bind_pair_def mirrorAuthorizationLayersLocked_def mirror_layer_def fun_eq_iff)

text \<open>
  C31. Binding a temporary key never fails on layer evidence: if all keys come from handshakes, the binding
  is refused exactly when the key is bound to another permanent key or when the two keys do not fit,
  and a refusal changes nothing. Otherwise it takes the more recent of the two layers, the permanent
  key's when neither is: the binding is stored, both keys carry that layer and its observation, every
  authorization of the two keys in a linked store shows it, and nothing else changes.
\<close>
theorem temp_bind_exact:
  assumes s: "s = fold auth_exec cs (linked_start links)" and hs: "\<forall>(now, op) \<in> set cs. handshake_save op"
    and s': "SaveWithState b s = (s', res)" and t: "t = tb_TempAuthKeyID b" and p: "p = tb_PermAuthKeyID b"
  shows "res =
    (if bind_conflict b s then Inl ErrTempAuthKeyAlreadyBound
     else case (keys s t, keys s p) of
       (Some temp, Some perm) \<Rightarrow>
         if 0 < ak_ExpiresAt temp \<and> ak_ExpiresAt perm = 0 \<and> tb_ExpiresAt b = ak_ExpiresAt temp
         then Inr (if ak_LayerObservationID perm < ak_LayerObservationID temp then (ak_Layer temp, ak_LayerObservationID temp)
                   else (ak_Layer perm, ak_LayerObservationID perm))
         else Inl ErrAuthKeyBindingInvalid
     | _ \<Rightarrow> Inl ErrAuthKeyBindingInvalid)
    \<and> (case res of
         Inl _ \<Rightarrow> s' = s
       | Inr (layer, obs) \<Rightarrow> bindings s' = (bindings s)(t \<mapsto> b)
           \<and> keys s' = (\<lambda>k. if k = t \<or> k = p
                then map_option (\<lambda>d. d\<lparr>ak_Layer := layer, ak_LayerObservationID := obs\<rparr>) (keys s k) else keys s k)
           \<and> (\<forall>i k. as_m (auths s' i) k = (if as_linked (auths s i) \<and> (k = t \<or> k = p)
                then map_option (\<lambda>a. a\<lparr>az_Layer := layer\<rparr>) (as_m (auths s i) k) else as_m (auths s i) k))
           \<and> sessionLayers s' = sessionLayers s \<and> nextLayerObservation s' = nextLayerObservation s)"
proof -
  have ok: "obs_ok (keys s)" unfolding s
    by (rule obs_ok_run [OF auth_ok_start _ hs]) (simp add: linked_start_fields obs_ok_def)
  show ?thesis
  proof (cases rule: SaveWithState_cases [of b s])
    case conflict
    then show ?thesis using s' by simp
  next
    case invalid
    then show ?thesis using s' t p by (auto split: option.split)
  next
    case (merge temp perm err)
    then show ?thesis using Merge_total [OF ok merge(2,3)] by simp
  next
    case (bound temp perm layer obs)
    have newest: "(layer, obs) = (if ak_LayerObservationID perm < ak_LayerObservationID temp then (ak_Layer temp, ak_LayerObservationID temp)
        else (ak_Layer perm, ak_LayerObservationID perm))"
      using bound(7) obs_okD(4) [OF ok bound(2,3)] obs_okD(2) [OF ok bound(2)] obs_okD(2) [OF ok bound(3)]
      by (auto simp: MergeAuthKeyLayerObservations_def split: if_splits)
    have res: "res = Inr (layer, obs)" and pair: "s' = bind_pair b layer obs temp perm s" using bound(8) s' by simp_all
    have "t \<noteq> p" using bound(2-5) t p by auto
    note effect = bind_pair_effect [OF bound(2,3) this [unfolded t p], of layer obs, folded pair t p]
    show ?thesis unfolding res sum.case prod.case using bound(1-6) t p effect by (simp add: newest)
  qed
qed


section \<open>Witnesses\<close>

definition demo_auth_key :: "key_id \<Rightarrow> int \<Rightarrow> auth_key_data" where
  "demo_auth_key kid e = \<lparr>ak_ID = kid, ak_Value = [], ak_ServerSalt = 0, ak_CreatedAt = 1, ak_ExpiresAt = e, ak_Layer = 0,
     ak_LayerObservationID = 0, ak_DeviceModel = [], ak_Platform = [], ak_SystemVersion = [], ak_APIID = 0, ak_AppVersion = []\<rparr>"

definition demo_binding :: temp_binding where
  "demo_binding = \<lparr>tb_TempAuthKeyID = 1, tb_PermAuthKeyID = 2, tb_Nonce = 0, tb_TempSessionID = 0, tb_ExpiresAt = 50, tb_EncryptedMessage = []\<rparr>"

definition demo_auth :: "key_id \<Rightarrow> bool \<Rightarrow> authorization" where
  "demo_auth kid pending = \<lparr>az_AuthKeyID = kid, az_UserID = 7, az_Hash = 3, az_Layer = 0, az_DeviceModel = [], az_Platform = [],
     az_SystemVersion = [], az_APIID = 0, az_AppVersion = [], az_IP = [], az_PasswordPending = pending, az_CreatedAt = 0, az_ActiveAt = 0\<rparr>"

definition demo_run :: "(int \<times> auth_op) list" where
  "demo_run = [(0, KSave (demo_auth_key 1 50)), (0, KSave (demo_auth_key 2 0)), (0, KBindTemp demo_binding), (0, KBind 0 (demo_auth 2 True))]"

text \<open>A message of second 1, with one nanosecond unit of four in its lower half.\<close>

definition demo_msg :: int where "demo_msg = 4294967300"

lemmas auth_eval = demo_auth_key_def demo_binding_def demo_auth_def demo_run_def linked_start_def LinkAuthKeyAuthority_def NewAuthKeyStore_def
  NewAuthorizationStore_def Key_Save_def put_key_def ValidNewAuthKeyProtocolExpiry_def mirrorAuthorizationLayersLocked_def
  mirror_layer_def SaveWithState_def MergeAuthKeyLayerObservations_def Bind_def set_auths_def Let_def bound_to_def

theorem key_delete_cascade_witness:
  "bound_to 2 (fold auth_exec demo_run (linked_start [0])) 1 \<and> keys (Key_Delete 2 (fold auth_exec demo_run (linked_start [0]))) 1 = None
    \<and> as_m (auths (Key_Delete 2 (fold auth_exec demo_run (linked_start [0]))) 0) 1 = None"
proof -
  have k: "keys (fold auth_exec demo_run (linked_start [0])) 2 \<noteq> None" by (simp add: auth_eval)
  have b: "bound_to 2 (fold auth_exec demo_run (linked_start [0])) 1" by (simp add: auth_eval)
  show ?thesis using b key_delete_cascade [OF refl k disjI2 [OF b] refl, of 0 0] by simp
qed

theorem revoked_stays_out_witness:
  "\<exists>pre now b post. [(5 :: int, KBind 0 (demo_auth 2 True)), (6, KPassword 0 2 7)] = pre @ (now, KBind 0 b) # post \<and> az_AuthKeyID b = 2 \<and> az_UserID b = 7
    \<and> (False = az_PasswordPending b \<or> (\<exists>now'. (now', KPassword 0 2 7) \<in> set post))"
proof -
  let ?s = "fold auth_exec [(5, KBind 0 (demo_auth 2 True)), (6, KPassword 0 2 7)]
    (fst (RevokeByUserExcept 0 7 9 (fold auth_exec demo_run (linked_start [0]))))"
  have a: "\<exists>a. as_m (auths ?s 0) 2 = Some a \<and> az_UserID a = 7 \<and> \<not> az_PasswordPending a"
    by (simp add: auth_eval RevokeByUserExcept_def ListByUser_def MarkPasswordPassed_def)
  then obtain a where a: "as_m (auths ?s 0) 2 = Some a" "az_UserID a = 7" "az_PasswordPending a = False" by auto
  show ?thesis using revoked_stays_out [OF _ a(1,2)] a(3) by simp
qed

theorem layer_evidence_roundtrip_witness:
  "\<exists>s' c. AdvanceSessionLayer 0 1 4 220 demo_msg (fold auth_exec demo_run (linked_start [0])) = (s', Inr (c, True))
    \<and> GetSessionLayer 5 1 4 s' = (s', Some c) \<and> sl_Layer c = 220"
proof -
  have "\<exists>s' c. AdvanceSessionLayer 0 1 4 220 demo_msg (fold auth_exec demo_run (linked_start [0])) = (s', Inr (c, True)) \<and> 5 < sl_ExpiresAt c"
    by (simp add: auth_eval AdvanceSessionLayer_def AuthKeySessionLayerEvidenceFresh_def AuthKeySessionLayerExpiry_def low32_signed_def
        demo_msg_def live_row_def bound_perm_def new_observation_def max_int64_def)
  then obtain s' c where *: "AdvanceSessionLayer 0 1 4 220 demo_msg (fold auth_exec demo_run (linked_start [0])) = (s', Inr (c, True))" "5 < sl_ExpiresAt c"
    by blast
  show ?thesis using layer_evidence_roundtrip [OF *] *(1) by blast
qed

text \<open>A layer observed on the temporary key before it is bound becomes that of the permanent key.\<close>

definition demo_observed :: "(int \<times> auth_op) list" where
  "demo_observed = [(0, KSave (demo_auth_key 1 50)), (0, KSave (demo_auth_key 2 0)), (0, KAdvance 1 4 220 demo_msg)]"

theorem temp_bind_exact_witness:
  "\<exists>s' d. SaveWithState demo_binding (fold auth_exec demo_observed (linked_start [0])) = (s', Inr (220, 1))
     \<and> bindings s' 1 = Some demo_binding \<and> keys s' 2 = Some d \<and> ak_Layer d = 220"
proof -
  let ?s = "fold auth_exec demo_observed (linked_start [0])"
  have "\<exists>temp perm. keys ?s 1 = Some temp \<and> ak_ExpiresAt temp = 50 \<and> ak_Layer temp = 220 \<and> ak_LayerObservationID temp = 1
      \<and> keys ?s 2 = Some perm \<and> ak_ExpiresAt perm = 0 \<and> ak_LayerObservationID perm = 0 \<and> bindings ?s 1 = None"
    by (simp add: demo_observed_def auth_eval AdvanceSessionLayer_def AuthKeySessionLayerEvidenceFresh_def AuthKeySessionLayerExpiry_def
        low32_signed_def demo_msg_def live_row_def bound_perm_def new_observation_def max_int64_def)
  then obtain temp perm where k: "keys ?s 1 = Some temp" "ak_ExpiresAt temp = 50" "ak_Layer temp = 220" "ak_LayerObservationID temp = 1"
      "keys ?s 2 = Some perm" "ak_ExpiresAt perm = 0" "ak_LayerObservationID perm = 0" "bindings ?s 1 = None" by blast
  have hs: "\<forall>(now, op) \<in> set demo_observed. handshake_save op" by (simp add: demo_observed_def demo_auth_key_def)
  have ids: "1 = tb_TempAuthKeyID demo_binding" "2 = tb_PermAuthKeyID demo_binding" "tb_ExpiresAt demo_binding = 50"
    by (simp_all add: demo_binding_def)
  obtain s' res where save: "SaveWithState demo_binding ?s = (s', res)" by fastforce
  note b = temp_bind_exact [OF refl hs save ids(1,2)]
  have "\<not> bind_conflict demo_binding ?s" using k(8) by (simp add: bind_conflict_def ids(1) [symmetric])
  then have "res = Inr (220, 1)" using b k ids(3) by simp
  with b save k(5) show ?thesis by simp
qed

end
