(* ===== verification/Private_Messages.thy ===== *)
theory Private_Messages
  imports Update_Log
begin

text \<open>
  Private messages (src/internal/store/memory/message_send.go, message_history.go, message_delete.go,
  message_edit.go, message_read.go and message_helpers.go, with the dialogs of dialogs.go that they
  maintain): every account has a box with its own copy of each message and its own numbering; the
  copies of one message share a \<open>UID\<close>. The store runs every operation under its mutex.

  Parts of a message that the store only carries along (entities, markup, pictures) are values of the
  type \<open>'x\<close>. Where the code goes through all accounts, the model gives the new state of each account;
  results that the code lists by account are functions of the account. The dialog store is attached.
  Encoding as JSON and the quotes of external replies are functions in \<open>send_env\<close>; saved-message tags,
  reactions, the staged prefix of a send and the fields of a message that none of these operations sets
  (time to live, reactions, paid Stars) are left out.
\<close>

section \<open>Messages\<close>

record 'x media =
  md_Kind :: string
  md_Voice :: bool
  md_Round :: bool
  md_TTLSeconds :: int
  md_ServiceActionKind :: "string option"
  md_WebPage :: "(string \<times> int) option"
  md_Todo :: bool
  md_rest :: "'x option"

record 'x rich_message =
  ri_Blocks :: "'x list"
  ri_Photos :: "'x list"
  ri_Documents :: "'x list"

record 'x message_reply =
  rp_MessageID :: int
  rp_Peer :: peer
  rp_TopMessageID :: int
  rp_QuoteText :: string
  rp_QuoteOffset :: int
  rp_External :: "'x option"
  rp_StoryID :: int
  rp_rest :: "'x list"

record message_forward =
  fw_From :: peer
  fw_FromName :: string
  fw_Date :: int
  fw_ChannelPost :: int
  fw_SavedFrom :: peer
  fw_SavedFromMsgID :: int

record 'x pm =
  pm_ID :: int
  pm_UID :: int
  pm_RandomID :: int
  pm_OwnerUserID :: int
  pm_Peer :: peer
  pm_From :: peer
  pm_Date :: int
  pm_EditDate :: int
  pm_HideEdited :: bool
  pm_Out :: bool
  pm_Silent :: bool
  pm_NoForwards :: bool
  pm_Body :: string
  pm_Entities :: "'x list"
  pm_ReplyTo :: "'x message_reply option"
  pm_Forward :: "message_forward option"
  pm_Pts :: int
  pm_Media :: "'x media option"
  pm_MediaUnread :: bool
  pm_ReactionUnread :: bool
  pm_ViaBotID :: int
  pm_GroupedID :: int
  pm_Effect :: int
  pm_ReplyMarkup :: "'x option"
  pm_RichMessage :: "'x rich_message option"
  pm_Pinned :: bool
  pm_SavedPeer :: peer

abbreviation user_peer :: "int \<Rightarrow> peer" where
  "user_peer u \<equiv> \<lparr>peer_type = PeerTypeUser, peer_id = u\<rparr>"

definition zero_pm :: "'x pm" where
  "zero_pm = \<lparr>pm_ID = 0, pm_UID = 0, pm_RandomID = 0, pm_OwnerUserID = 0, pm_Peer = zero_peer, pm_From = zero_peer,
     pm_Date = 0, pm_EditDate = 0, pm_HideEdited = False, pm_Out = False, pm_Silent = False, pm_NoForwards = False,
     pm_Body = [], pm_Entities = [], pm_ReplyTo = None, pm_Forward = None, pm_Pts = 0, pm_Media = None,
     pm_MediaUnread = False, pm_ReactionUnread = False, pm_ViaBotID = 0, pm_GroupedID = 0, pm_Effect = 0,
     pm_ReplyMarkup = None, pm_RichMessage = None, pm_Pinned = False, pm_SavedPeer = zero_peer\<rparr>"

definition MaxMessageBoxID :: int where "MaxMessageBoxID = 2147483647"
definition MaxStoryID :: int where "MaxStoryID = 2147483647"
definition MaxDeleteMessageIDs :: int where "MaxDeleteMessageIDs = 1000"
definition MaxDeleteHistoryBatch :: int where "MaxDeleteHistoryBatch = 1000"
definition MaxGetMessageIDs :: int where "MaxGetMessageIDs = 100"
definition MaxMessageReplyQuoteOffset :: int where "MaxMessageReplyQuoteOffset = 2 * 4096"

definition Media_IsZero :: "'x media option \<Rightarrow> bool" where
  "Media_IsZero m = (case m of None \<Rightarrow> True | Some m \<Rightarrow> md_Kind m = [])"

definition HasUnreadPayload :: "'x media option \<Rightarrow> bool" where
  "HasUnreadPayload m = (case m of None \<Rightarrow> False
     | Some d \<Rightarrow> if Media_IsZero m \<or> md_Kind d \<noteq> ''document'' then False else md_Voice d \<or> md_Round d)"

definition RichMessage_IsZero :: "'x rich_message option \<Rightarrow> bool" where
  "RichMessage_IsZero m = (case m of None \<Rightarrow> True | Some m \<Rightarrow> ri_Blocks m = [] \<and> ri_Photos m = [] \<and> ri_Documents m = [])"

definition IsPendingWebPageMedia :: "'x media option \<Rightarrow> int \<Rightarrow> bool" where
  "IsPendingWebPageMedia m wid = (case m of None \<Rightarrow> False
     | Some d \<Rightarrow> md_Kind d = ''web_page'' \<and> md_WebPage d = Some (''pending'', wid))"

definition NewHistoryClearMessage :: "int \<Rightarrow> peer \<Rightarrow> int \<Rightarrow> int \<Rightarrow> int \<Rightarrow> int \<Rightarrow> 'x pm" where
  "NewHistoryClearMessage owner p boxID uid date pts = zero_pm\<lparr>pm_ID := boxID, pm_UID := uid, pm_OwnerUserID := owner,
     pm_Peer := p, pm_From := user_peer owner, pm_Date := date, pm_Out := True, pm_Pts := pts,
     pm_Media := Some \<lparr>md_Kind = ''service'', md_Voice = False, md_Round = False, md_TTLSeconds = 0,
       md_ServiceActionKind = Some ''history_clear'', md_WebPage = None, md_Todo = False, md_rest = None\<rparr>\<rparr>"

definition IsHistoryClearServiceMessage :: "'x pm \<Rightarrow> bool" where
  "IsHistoryClearServiceMessage m = (case pm_Media m of None \<Rightarrow> False
     | Some d \<Rightarrow> md_Kind d = ''service'' \<and> md_ServiceActionKind d = Some ''history_clear'')"

definition SavedPeerForSelfChat :: "int \<Rightarrow> message_forward option \<Rightarrow> peer" where
  "SavedPeerForSelfChat self f =
    (case f of
       None \<Rightarrow> user_peer self
     | Some f \<Rightarrow>
         if peer_id (fw_SavedFrom f) \<noteq> 0 then fw_SavedFrom f
         else if peer_id (fw_From f) = 0 \<and> fw_FromName f \<noteq> [] then user_peer 2666000
         else user_peer self)"

datatype message_error =
    ErrMessageEmpty | ErrReplyMessageIDInvalid | ErrChatForwardsRestricted | ErrQuoteTextInvalid | ErrExternalReply
  | ErrMessageRandomIDDuplicate | ErrSnapshot | ErrReplayAbsent | ErrFingerprint | ErrMessageIDInvalid
  | ErrMessageAuthorRequired | ErrMessageNotModified | ErrTooManyIDs | ErrMissingOwner | ErrMessageNotReadYet | ErrReplayScope

definition ValidateMessageReplyBounds :: "'x message_reply \<Rightarrow> bool" where
  "ValidateMessageReplyBounds r =
    (if rp_MessageID r < 0 \<or> rp_MessageID r > MaxMessageBoxID then False
     else if rp_TopMessageID r < 0 \<or> rp_TopMessageID r > MaxMessageBoxID then False
     else if rp_StoryID r < 0 \<or> rp_StoryID r > MaxStoryID then False
     else if rp_MessageID r = 0 \<and> rp_TopMessageID r = 0 \<and> rp_StoryID r = 0 \<and> rp_External r = None then False
     else if rp_QuoteOffset r < 0 \<or> rp_QuoteOffset r > MaxMessageReplyQuoteOffset then False
     else True)"

section \<open>Dialogs\<close>

record 'x dialog =
  dg_Peer :: peer
  dg_FolderID :: int
  dg_TopMessage :: int
  dg_TopMessageDate :: int
  dg_ReadInboxMaxID :: int
  dg_ReadOutboxMaxID :: int
  dg_UnreadCount :: int
  dg_UnreadMentions :: int
  dg_UnreadReactions :: int
  dg_TTLPeriod :: int
  dg_ThemeEmoticon :: string
  dg_HasScheduled :: bool
  dg_Pinned :: bool
  dg_PinnedOrder :: int
  dg_UnreadMark :: bool
  dg_ViewForumAsMessages :: bool
  dg_PeerSettingsBarHidden :: bool
  dg_Draft :: "'x option"

definition new_dialog :: "peer \<Rightarrow> int \<Rightarrow> int \<Rightarrow> int \<Rightarrow> 'x dialog" where
  "new_dialog p topID date unread = \<lparr>dg_Peer = p, dg_FolderID = 0, dg_TopMessage = topID, dg_TopMessageDate = date,
     dg_ReadInboxMaxID = 0, dg_ReadOutboxMaxID = 0, dg_UnreadCount = unread, dg_UnreadMentions = 0, dg_UnreadReactions = 0,
     dg_TTLPeriod = 0, dg_ThemeEmoticon = [], dg_HasScheduled = False, dg_Pinned = False, dg_PinnedOrder = 0,
     dg_UnreadMark = False, dg_ViewForumAsMessages = False, dg_PeerSettingsBarHidden = False, dg_Draft = None\<rparr>"

text \<open>Fields of the update that have their zero value keep the stored ones.\<close>

definition merge_dialog :: "'x dialog \<Rightarrow> 'x dialog \<Rightarrow> 'x dialog" where
  "merge_dialog old d = d\<lparr>
     dg_ReadInboxMaxID := (if dg_ReadInboxMaxID d = 0 then dg_ReadInboxMaxID old else dg_ReadInboxMaxID d),
     dg_ReadOutboxMaxID := (if dg_ReadOutboxMaxID d = 0 then dg_ReadOutboxMaxID old else dg_ReadOutboxMaxID d),
     dg_FolderID := (if dg_FolderID d = 0 \<and> dg_FolderID old \<noteq> 0 then dg_FolderID old else dg_FolderID d),
     dg_UnreadCount := (if dg_UnreadCount d = 0 then dg_UnreadCount old else dg_UnreadCount d),
     dg_UnreadMentions := (if dg_UnreadMentions d = 0 then dg_UnreadMentions old else dg_UnreadMentions d),
     dg_UnreadReactions := (if dg_UnreadReactions d = 0 then dg_UnreadReactions old else dg_UnreadReactions d),
     dg_UnreadMark := (if \<not> dg_UnreadMark d then dg_UnreadMark old else dg_UnreadMark d),
     dg_Pinned := (if \<not> dg_Pinned d \<and> dg_Pinned old then dg_Pinned old else dg_Pinned d),
     dg_PinnedOrder := (if \<not> dg_Pinned d \<and> dg_Pinned old then dg_PinnedOrder old else dg_PinnedOrder d),
     dg_TTLPeriod := (if dg_TTLPeriod d = 0 then dg_TTLPeriod old else dg_TTLPeriod d),
     dg_ThemeEmoticon := (if dg_ThemeEmoticon d = [] then dg_ThemeEmoticon old else dg_ThemeEmoticon d),
     dg_HasScheduled := (if \<not> dg_HasScheduled d then dg_HasScheduled old else dg_HasScheduled d),
     dg_PeerSettingsBarHidden := (if \<not> dg_PeerSettingsBarHidden d then dg_PeerSettingsBarHidden old else dg_PeerSettingsBarHidden d),
     dg_ViewForumAsMessages := (if \<not> dg_ViewForumAsMessages d then dg_ViewForumAsMessages old else dg_ViewForumAsMessages d),
     dg_Draft := (if dg_Draft d = None then dg_Draft old else dg_Draft d)\<rparr>"

fun upsertMemoryDialog :: "'x dialog list \<Rightarrow> 'x dialog \<Rightarrow> 'x dialog list" where
  "upsertMemoryDialog [] d = [d]"
| "upsertMemoryDialog (e # ds) d = (if dg_Peer e = dg_Peer d then merge_dialog e d # ds else e # upsertMemoryDialog ds d)"

text \<open>Changing the first dialog with a peer, as the loops that end in \<open>break\<close> do.\<close>

fun change_first :: "('x dialog \<Rightarrow> 'x dialog) \<Rightarrow> peer \<Rightarrow> 'x dialog list \<Rightarrow> 'x dialog list" where
  "change_first f p [] = []"
| "change_first f p (d # ds) = (if dg_Peer d = p then f d # ds else d # change_first f p ds)"

section \<open>The store\<close>

record 'x dedup_record =
  dr_recipientUserID :: int
  dr_senderSnapshot :: string
  dr_recipientMessage :: "'x pm"
  dr_fingerprint :: string
  dr_senderDeleteEvent :: "'x pm update_event option"

text \<open>\<open>ms_users\<close> are the accounts that have a box: the keys of the Go map \<open>m\<close>.\<close>

record 'x message_store =
  ms_users :: "int list"
  ms_m :: "int \<Rightarrow> 'x pm list"
  ms_nextUID :: int
  ms_nextBox :: "int \<Rightarrow> int"
  ms_nextPts :: "int \<Rightarrow> int"
  ms_readOutboxDates :: "int \<times> int \<times> int \<Rightarrow> int"
  ms_dedup :: "int \<times> int \<rightharpoonup> 'x dedup_record"
  ms_dialogs :: "int \<Rightarrow> 'x dialog list"
  ms_messages :: "int \<Rightarrow> 'x pm list"
  ms_events :: "'x pm event_store"
  ms_noForwards :: "int \<times> int \<Rightarrow> bool"

definition NewMessageStore :: "'x message_store" where
  "NewMessageStore = \<lparr>ms_users = [], ms_m = (\<lambda>_. []), ms_nextUID = 1, ms_nextBox = (\<lambda>_. 0), ms_nextPts = (\<lambda>_. 0),
     ms_readOutboxDates = (\<lambda>_. 0), ms_dedup = Map.empty, ms_dialogs = (\<lambda>_. []), ms_messages = (\<lambda>_. []),
     ms_events = NewUpdateEventStore, ms_noForwards = (\<lambda>_. False)\<rparr>"

text \<open>Writing a box makes its account a key of the map.\<close>

definition set_box :: "int \<Rightarrow> 'x pm list \<Rightarrow> 'x message_store \<Rightarrow> 'x message_store" where
  "set_box u ms s = s\<lparr>ms_users := List.insert u (ms_users s), ms_m := (ms_m s)(u := ms)\<rparr>"

definition nextPtsLocked :: "int \<Rightarrow> 'x message_store \<Rightarrow> 'x message_store \<times> int" where
  "nextPtsLocked u s = (let n = ms_nextPts s u + 1 in (s\<lparr>ms_nextPts := (ms_nextPts s)(u := n)\<rparr>, n))"

definition pts_step :: "int \<Rightarrow> int" where
  "pts_step n = (if n \<le> 0 then 1 else n)"

definition message_snapshot :: "'x pm \<Rightarrow> 'x pm message" where
  "message_snapshot m = \<lparr>msg_ID = pm_ID m, msg_OwnerUserID = pm_OwnerUserID m, msg_Peer = pm_Peer m, msg_Date = pm_Date m,
     msg_content = Some m\<rparr>"

definition newMessageEvent :: "'x pm \<Rightarrow> 'x pm update_event" where
  "newMessageEvent m = (if pm_ID m = 0 then zero_event
     else zero_event\<lparr>ev_UserID := pm_OwnerUserID m, ev_Type := UpdateEventNewMessage, ev_Pts := pm_Pts m, ev_PtsCount := 1,
       ev_Date := pm_Date m, ev_Message := Some (message_snapshot m)\<rparr>)"

definition editMessageEvent :: "'x pm \<Rightarrow> 'x pm update_event" where
  "editMessageEvent m = (if pm_ID m = 0 then zero_event
     else zero_event\<lparr>ev_UserID := pm_OwnerUserID m, ev_Type := UpdateEventEditMessage, ev_Pts := pm_Pts m, ev_PtsCount := 1,
       ev_Date := pm_EditDate m, ev_Message := Some (message_snapshot m)\<rparr>)"

definition webPageEvent :: "'x pm \<Rightarrow> 'x pm update_event" where
  "webPageEvent m = (if pm_ID m = 0 then zero_event
     else zero_event\<lparr>ev_UserID := pm_OwnerUserID m, ev_Type := UpdateEventWebPage, ev_Pts := pm_Pts m, ev_PtsCount := 1,
       ev_Date := pm_Date m, ev_Message := Some (message_snapshot m)\<rparr>)"

section \<open>Sending\<close>

record 'x send_request =
  sr_SenderUserID :: int
  sr_RecipientUserID :: int
  sr_RandomID :: int
  sr_Message :: string
  sr_Entities :: "'x list"
  sr_Media :: "'x media option"
  sr_Silent :: bool
  sr_NoForwards :: bool
  sr_ReplyTo :: "'x message_reply option"
  sr_Forward :: "message_forward option"
  sr_Date :: int
  sr_OriginAuthKeyID :: auth_key_id
  sr_OriginSessionID :: int
  sr_OriginUserID :: int
  sr_RecipientBlocked :: bool
  sr_IdempotencyFingerprint :: string
  sr_ViaBotID :: int
  sr_GroupedID :: int
  sr_Effect :: int
  sr_ReplyMarkup :: "'x option"
  sr_RichMessage :: "'x rich_message option"

definition HasContent :: "'x send_request \<Rightarrow> bool" where
  "HasContent r \<longleftrightarrow> sr_Message r \<noteq> [] \<or> \<not> Media_IsZero (sr_Media r) \<or> \<not> RichMessage_IsZero (sr_RichMessage r)"

text \<open>
  What is outside the model: the digest of the JSON form of a request, the JSON forms of a message,
  the snapshot of an external reply and the test of its quote.
\<close>

record 'x send_env =
  se_digest :: "'x send_request \<Rightarrow> string option"
  se_marshal :: "'x pm \<Rightarrow> string option"
  se_unmarshal :: "string \<Rightarrow> 'x pm option"
  se_new_external :: "'x pm \<Rightarrow> 'x option"
  se_quote_ok :: "'x message_reply \<Rightarrow> string \<Rightarrow> bool"

definition PrivateSendFingerprint :: "'x send_env \<Rightarrow> 'x send_request \<Rightarrow> string option" where
  "PrivateSendFingerprint env req =
    (if sr_IdempotencyFingerprint req \<noteq> []
     then if length (sr_IdempotencyFingerprint req) \<noteq> 32 then None else Some (sr_IdempotencyFingerprint req)
     else se_digest env req)"

definition SameSendFingerprint :: "string \<Rightarrow> string \<Rightarrow> bool" where
  "SameSendFingerprint stored expected \<longleftrightarrow> length stored = 32 \<and> length expected = 32 \<and> stored = expected"

definition snapshot_valid :: "'x pm \<Rightarrow> bool" where
  "snapshot_valid m \<longleftrightarrow> \<not> (pm_ID m \<le> 0 \<or> pm_UID m \<le> 0 \<or> pm_RandomID m = 0 \<or> pm_OwnerUserID m = 0 \<or> pm_Pts m \<le> 0)"

definition EncodePrivateSendSnapshot :: "'x send_env \<Rightarrow> 'x pm \<Rightarrow> string option" where
  "EncodePrivateSendSnapshot env m = (if \<not> snapshot_valid m then None else se_marshal env m)"

definition DecodePrivateSendSnapshot :: "'x send_env \<Rightarrow> string \<Rightarrow> 'x pm option" where
  "DecodePrivateSendSnapshot env raw =
    (case se_unmarshal env raw of None \<Rightarrow> None | Some m \<Rightarrow> if \<not> snapshot_valid m then None else Some m)"

record 'x send_result =
  sd_SenderMessage :: "'x pm"
  sd_RecipientMessage :: "'x pm"
  sd_SenderEvent :: "'x pm update_event"
  sd_RecipientEvent :: "'x pm update_event"
  sd_Duplicate :: bool
  sd_ReplayDeleteEvent :: "'x pm update_event option"

definition immutablePrivateSendReceipt :: "'x pm \<Rightarrow> 'x pm" where
  "immutablePrivateSendReceipt m = (if pm_ID m = 0 then zero_pm
     else zero_pm\<lparr>pm_ID := pm_ID m, pm_UID := pm_UID m, pm_RandomID := pm_RandomID m, pm_OwnerUserID := pm_OwnerUserID m,
       pm_Peer := pm_Peer m, pm_From := pm_From m, pm_Date := pm_Date m, pm_Out := pm_Out m, pm_Pts := pm_Pts m\<rparr>)"

text \<open>The result: an error, nothing recorded, or the recorded send.\<close>

definition lookupPrivateSendReplayLocked ::
  "'x send_env \<Rightarrow> int \<Rightarrow> int \<Rightarrow> int \<Rightarrow> string \<Rightarrow> 'x message_store \<Rightarrow> message_error + 'x send_result option" where
  "lookupPrivateSendReplayLocked env sender recipient randomID fingerprint s =
    (case ms_dedup s (sender, randomID) of
       None \<Rightarrow> Inr None
     | Some rec \<Rightarrow>
         if dr_recipientUserID rec \<noteq> recipient \<or> \<not> SameSendFingerprint (dr_fingerprint rec) fingerprint
         then Inl ErrMessageRandomIDDuplicate
         else (case DecodePrivateSendSnapshot env (dr_senderSnapshot rec) of
             None \<Rightarrow> Inl ErrSnapshot
           | Some first \<Rightarrow>
               let current = find (\<lambda>m. pm_UID m = pm_UID first \<and> pm_ID m = pm_ID first) (ms_m s sender) in
               if current = None \<and> dr_senderDeleteEvent rec = None then Inl ErrReplayAbsent
               else Inr (Some \<lparr>
                 sd_SenderMessage = (case current of None \<Rightarrow> first | Some m \<Rightarrow> m\<lparr>pm_RandomID := pm_RandomID first\<rparr>),
                 sd_RecipientMessage = dr_recipientMessage rec, sd_SenderEvent = newMessageEvent first,
                 sd_RecipientEvent = newMessageEvent (dr_recipientMessage rec), sd_Duplicate = True,
                 sd_ReplayDeleteEvent = dr_senderDeleteEvent rec\<rparr>)))"

definition LookupPrivateSendReplay ::
  "'x send_env \<Rightarrow> int \<Rightarrow> int \<Rightarrow> int \<Rightarrow> string \<Rightarrow> 'x message_store \<Rightarrow> message_error + 'x send_result option" where
  "LookupPrivateSendReplay env sender recipient randomID fingerprint s =
    (if sender = 0 \<or> recipient = 0 \<or> randomID = 0 then Inl ErrReplayScope
     else if length fingerprint \<noteq> 32 then Inl ErrFingerprint
     else lookupPrivateSendReplayLocked env sender recipient randomID fingerprint s)"

definition noForwardsPair :: "int \<Rightarrow> int \<Rightarrow> (int \<times> int) option" where
  "noForwardsPair a b = (if a \<le> 0 \<or> b \<le> 0 \<or> a = b then None else Some (min a b, max a b))"

definition resolveMemoryReplyLocked ::
  "'x send_env \<Rightarrow> 'x send_request \<Rightarrow> 'x message_store \<Rightarrow> message_error + 'x message_reply option \<times> 'x message_reply option" where
  "resolveMemoryReplyLocked env req s =
    (case sr_ReplyTo req of
       None \<Rightarrow> Inr (None, None)
     | Some r \<Rightarrow>
         if \<not> ValidateMessageReplyBounds r then Inl ErrReplyMessageIDInvalid
         else if rp_StoryID r > 0
         then let reply = \<lparr>rp_MessageID = 0, rp_Peer = user_peer (sr_RecipientUserID req), rp_TopMessageID = 0, rp_QuoteText = [],
                rp_QuoteOffset = 0, rp_External = None, rp_StoryID = rp_StoryID r, rp_rest = []\<rparr> in Inr (Some reply, Some reply)
         else
           let peer = (if peer_id (rp_Peer r) = 0 then user_peer (sr_RecipientUserID req) else rp_Peer r) in
           if peer_type peer \<noteq> PeerTypeUser \<or> rp_External r \<noteq> None then Inl ErrReplyMessageIDInvalid
           else
             (case find (\<lambda>m. pm_Peer m = peer \<and> pm_ID m = rp_MessageID r) (ms_m s (sr_SenderUserID req)) of
                None \<Rightarrow> Inl ErrReplyMessageIDInvalid
              | Some target \<Rightarrow>
                  if pm_ID target = 0 then Inl ErrReplyMessageIDInvalid
                  else
                    let senderReply = r\<lparr>rp_MessageID := pm_ID target, rp_Peer := peer\<rparr> in
                    if peer_id peer \<noteq> sr_RecipientUserID req
                    then
                      if pm_NoForwards target \<or> (case pm_Media target of None \<Rightarrow> False | Some d \<Rightarrow> md_TTLSeconds d > 0)
                         \<or> (case noForwardsPair (sr_SenderUserID req) (peer_id peer) of None \<Rightarrow> False | Some p \<Rightarrow> ms_noForwards s p)
                      then Inl ErrChatForwardsRestricted
                      else if \<not> se_quote_ok env r (pm_Body target) then Inl ErrQuoteTextInvalid
                      else (case se_new_external env target of
                          None \<Rightarrow> Inl ErrExternalReply
                        | Some x \<Rightarrow>
                            let senderReply = senderReply\<lparr>rp_External := Some x\<rparr> in
                            Inr (Some senderReply,
                              Some (if sr_SenderUserID req \<noteq> sr_RecipientUserID req
                                    then senderReply\<lparr>rp_MessageID := 0, rp_TopMessageID := 0\<rparr> else senderReply)))
                    else if sr_SenderUserID req = sr_RecipientUserID req then Inr (Some senderReply, Some senderReply)
                    else (case find (\<lambda>m. pm_UID m = pm_UID target) (ms_m s (sr_RecipientUserID req)) of
                        None \<Rightarrow> Inr (Some senderReply, None)
                      | Some m \<Rightarrow> Inr (Some senderReply,
                          Some (senderReply\<lparr>rp_MessageID := pm_ID m, rp_Peer := user_peer (sr_SenderUserID req)\<rparr>)))))"

definition staged_pts :: "int \<Rightarrow> 'x message_store \<Rightarrow> int" where
  "staged_pts u s = max_pts (ms_nextPts s u) (es_events (ms_events s) u) + 1"

definition sender_message :: "'x send_request \<Rightarrow> 'x message_reply option \<Rightarrow> 'x message_store \<Rightarrow> 'x pm" where
  "sender_message req reply s =
    (let u = sr_SenderUserID req in
     zero_pm\<lparr>pm_ID := ms_nextBox s u + 1, pm_UID := ms_nextUID s, pm_RandomID := sr_RandomID req, pm_OwnerUserID := u,
       pm_Peer := user_peer (sr_RecipientUserID req), pm_From := user_peer u, pm_Date := sr_Date req, pm_Out := True,
       pm_Silent := sr_Silent req, pm_NoForwards := sr_NoForwards req, pm_Body := sr_Message req, pm_Entities := sr_Entities req,
       pm_Media := sr_Media req, pm_ViaBotID := sr_ViaBotID req, pm_GroupedID := sr_GroupedID req, pm_Effect := sr_Effect req,
       pm_ReplyMarkup := sr_ReplyMarkup req, pm_RichMessage := sr_RichMessage req, pm_ReplyTo := reply, pm_Forward := sr_Forward req,
       pm_Pts := staged_pts u s,
       pm_MediaUnread := (HasUnreadPayload (sr_Media req) \<and> u \<noteq> sr_RecipientUserID req),
       pm_SavedPeer := (if u = sr_RecipientUserID req then SavedPeerForSelfChat u (sr_Forward req) else zero_peer)\<rparr>)"

text \<open>The zero message if nobody but the sender gets a copy; in a chat with oneself the sender's copy.\<close>

definition recipient_message :: "'x send_request \<Rightarrow> 'x message_reply option \<Rightarrow> 'x pm \<Rightarrow> 'x message_store \<Rightarrow> 'x pm" where
  "recipient_message req reply sender s =
    (let v = sr_RecipientUserID req in
     if sr_SenderUserID req = v then sender
     else if sr_RecipientBlocked req then zero_pm
     else sender\<lparr>pm_ID := ms_nextBox s v + 1, pm_OwnerUserID := v, pm_Peer := user_peer (sr_SenderUserID req), pm_Out := False,
       pm_ReplyTo := reply, pm_Pts := staged_pts v s, pm_MediaUnread := HasUnreadPayload (sr_Media req)\<rparr>)"

definition incoming_unread :: "peer \<Rightarrow> int \<Rightarrow> 'x pm list \<Rightarrow> int" where
  "incoming_unread p readMax ms = int (length (filter (\<lambda>m. pm_Peer m = p \<and> \<not> pm_Out m \<and> pm_ID m > readMax) ms))"

definition read_max_of :: "peer \<Rightarrow> 'x dialog list \<Rightarrow> int" where
  "read_max_of p ds = (case find (\<lambda>d. dg_Peer d = p) ds of None \<Rightarrow> 0 | Some d \<Rightarrow> dg_ReadInboxMaxID d)"

definition privateUnreadCountLocked :: "int \<Rightarrow> peer \<Rightarrow> 'x message_store \<Rightarrow> int" where
  "privateUnreadCountLocked u p s = incoming_unread p (read_max_of p (ms_dialogs s u)) (ms_m s u)"

definition upsertMemoryDialogsLocked :: "'x pm \<Rightarrow> 'x pm \<Rightarrow> 'x message_store \<Rightarrow> 'x message_store" where
  "upsertMemoryDialogsLocked sender recipient s =
    (let u = pm_OwnerUserID sender; v = pm_OwnerUserID recipient;
         ds = change_first (\<lambda>d. d\<lparr>dg_UnreadMark := False\<rparr>) (pm_Peer sender)
                (upsertMemoryDialog (ms_dialogs s u) (new_dialog (pm_Peer sender) (pm_ID sender) (pm_Date sender) 0));
         s1 = s\<lparr>ms_dialogs := (ms_dialogs s)(u := ds), ms_messages := (ms_messages s)(u := ms_messages s u @ [sender])\<rparr>
     in if v \<noteq> u
        then s1\<lparr>ms_dialogs := (ms_dialogs s1)(v := upsertMemoryDialog (ms_dialogs s1 v)
                  (new_dialog (pm_Peer recipient) (pm_ID recipient) (pm_Date recipient) (privateUnreadCountLocked v (pm_Peer recipient) s1))),
                ms_messages := (ms_messages s1)(v := ms_messages s1 v @ [recipient])\<rparr>
        else s1)"

definition appendMemorySendEventLocked ::
  "int \<Rightarrow> 'x pm update_event \<Rightarrow> auth_key_id \<Rightarrow> int \<Rightarrow> 'x pm event_store \<Rightarrow> 'x pm event_store" where
  "appendMemorySendEventLocked u event excludeKey excludeSession es =
    (case appendLocked es u event False of
       (es, e) \<Rightarrow> es\<lparr>es_dispatches := (es_dispatches es)(u := es_dispatches es u @
         [\<lparr>di_Pts = ev_Pts e, di_ExcludeAuthKeyID = excludeKey, di_ExcludeSessionID = excludeSession\<rparr>])\<rparr>)"

definition origin_of :: "'x send_request \<Rightarrow> int" where
  "origin_of req = (if sr_OriginUserID req = 0 then sr_SenderUserID req else sr_OriginUserID req)"

definition excluded :: "'x send_request \<Rightarrow> int \<Rightarrow> auth_key_id \<times> int" where
  "excluded req u = (if origin_of req = u then (sr_OriginAuthKeyID req, sr_OriginSessionID req) else (0, 0))"

text \<open>The commit: counters, boxes, receipt, dialogs and events.\<close>

definition commit_send ::
  "'x send_request \<Rightarrow> string \<Rightarrow> string \<Rightarrow> 'x pm \<Rightarrow> 'x pm \<Rightarrow> 'x message_store \<Rightarrow> 'x message_store" where
  "commit_send req fingerprint snapshot sender recipient s =
    (let u = sr_SenderUserID req; v = sr_RecipientUserID req; two = (u \<noteq> v \<and> \<not> sr_RecipientBlocked req);
         s1 = set_box u (ms_m s u @ [sender]) (s\<lparr>ms_nextUID := ms_nextUID s + 1, ms_nextBox := (ms_nextBox s)(u := pm_ID sender),
                ms_nextPts := (ms_nextPts s)(u := pm_Pts sender)\<rparr>);
         s2 = (if two then set_box v (ms_m s1 v @ [recipient]) (s1\<lparr>ms_nextBox := (ms_nextBox s1)(v := pm_ID recipient),
                 ms_nextPts := (ms_nextPts s1)(v := pm_Pts recipient)\<rparr>) else s1);
         s3 = (if sr_RandomID req \<noteq> 0 then s2\<lparr>ms_dedup := (ms_dedup s2)((u, sr_RandomID req) \<mapsto>
                 \<lparr>dr_recipientUserID = v, dr_senderSnapshot = snapshot, dr_recipientMessage = immutablePrivateSendReceipt recipient,
                  dr_fingerprint = fingerprint, dr_senderDeleteEvent = None\<rparr>)\<rparr> else s2);
         s4 = upsertMemoryDialogsLocked sender (if pm_ID recipient \<noteq> 0 then recipient else sender) s3;
         es1 = appendMemorySendEventLocked u (newMessageEvent sender) (fst (excluded req u)) (snd (excluded req u)) (ms_events s4);
         es2 = (if pm_ID recipient \<noteq> 0 \<and> pm_OwnerUserID recipient \<noteq> pm_OwnerUserID sender
                then appendMemorySendEventLocked v (newMessageEvent recipient) (fst (excluded req v)) (snd (excluded req v)) es1 else es1)
     in s4\<lparr>ms_events := es2\<rparr>)"

definition sendPrivateTextLocked ::
  "'x send_env \<Rightarrow> int \<Rightarrow> 'x send_request \<Rightarrow> string \<Rightarrow> 'x message_store \<Rightarrow> 'x message_store \<times> (message_error + 'x send_result)" where
  "sendPrivateTextLocked env now req fingerprint s =
    (case lookupPrivateSendReplayLocked env (sr_SenderUserID req) (sr_RecipientUserID req) (sr_RandomID req) fingerprint s of
       Inl err \<Rightarrow> (s, Inl err)
     | Inr (Some replay) \<Rightarrow> (s, Inr replay)
     | Inr None \<Rightarrow>
         let req = (if sr_Date req = 0 then req\<lparr>sr_Date := now\<rparr> else req) in
         (case resolveMemoryReplyLocked env req s of
            Inl err \<Rightarrow> (s, Inl err)
          | Inr (senderReply, recipientReply) \<Rightarrow>
              let sender = sender_message req senderReply s;
                  recipient = recipient_message req recipientReply sender s in
              (case (if sr_RandomID req \<noteq> 0 then EncodePrivateSendSnapshot env sender else Some []) of
                 None \<Rightarrow> (s, Inl ErrSnapshot)
               | Some snapshot \<Rightarrow>
                   (commit_send req fingerprint snapshot sender recipient s,
                    Inr \<lparr>sd_SenderMessage = sender, sd_RecipientMessage = recipient, sd_SenderEvent = newMessageEvent sender,
                         sd_RecipientEvent = newMessageEvent recipient, sd_Duplicate = False, sd_ReplayDeleteEvent = None\<rparr>))))"

definition SendPrivateText ::
  "'x send_env \<Rightarrow> int \<Rightarrow> 'x send_request \<Rightarrow> 'x message_store \<Rightarrow> 'x message_store \<times> (message_error + 'x send_result)" where
  "SendPrivateText env now req s =
    (if \<not> HasContent req then (s, Inl ErrMessageEmpty)
     else case PrivateSendFingerprint env req of
       None \<Rightarrow> (s, Inl ErrFingerprint)
     | Some fingerprint \<Rightarrow> sendPrivateTextLocked env now req fingerprint s)"

section \<open>Reading a conversation\<close>

record 'x read_result =
  rr_MaxID :: int
  rr_StillUnreadCount :: int
  rr_Changed :: bool
  rr_InboxEvent :: "'x pm update_event"
  rr_OutboxChanged :: bool
  rr_OutboxUserID :: int
  rr_OutboxEvent :: "'x pm update_event"

definition latest_incoming :: "peer \<Rightarrow> int \<Rightarrow> int \<Rightarrow> 'x pm list \<Rightarrow> 'x pm" where
  "latest_incoming p oldRead readMax ms =
    fold (\<lambda>m l. if pm_Peer m = p \<and> \<not> pm_Out m \<and> \<not> pm_ID m > readMax \<and> pm_ID m > oldRead \<and> pm_ID m > pm_ID l then m else l) ms zero_pm"

definition sender_box_id :: "int \<Rightarrow> 'x pm list \<Rightarrow> int" where
  "sender_box_id uid ms = (case find (\<lambda>m. pm_UID m = uid \<and> pm_Out m) ms of None \<Rightarrow> 0 | Some m \<Rightarrow> pm_ID m)"

text \<open>The receipt for the sender of the latest message read.\<close>

definition read_receipt ::
  "int \<Rightarrow> int \<Rightarrow> 'x pm \<Rightarrow> 'x read_result \<Rightarrow> 'x message_store \<Rightarrow> 'x message_store \<times> 'x read_result" where
  "read_receipt owner date latest res s =
    (let sender = peer_id (pm_From latest); box = sender_box_id (pm_UID latest) (ms_m s sender) in
     if pm_ID latest = 0 \<or> sender = 0 \<or> sender = owner \<or> \<not> box > 0 then (s, res)
     else case find (\<lambda>d. dg_Peer d = user_peer owner) (ms_dialogs s sender) of
       None \<Rightarrow> (s, res)
     | Some d \<Rightarrow>
         if box \<le> dg_ReadOutboxMaxID d then (s, res)
         else
           let s1 = s\<lparr>ms_dialogs := (ms_dialogs s)(sender :=
                        change_first (\<lambda>d. d\<lparr>dg_ReadOutboxMaxID := box\<rparr>) (user_peer owner) (ms_dialogs s sender)),
                      ms_readOutboxDates := (\<lambda>(u, v, mid). if u = sender \<and> v = owner
                        \<and> list_ex (\<lambda>m. pm_Peer m = user_peer owner \<and> pm_Out m \<and> pm_ID m > dg_ReadOutboxMaxID d \<and> pm_ID m \<le> box \<and> pm_ID m = mid) (ms_m s sender)
                        then date else ms_readOutboxDates s (u, v, mid))\<rparr>
           in (case nextPtsLocked sender s1 of
                 (s2, outPts) \<Rightarrow>
                   (s2, res\<lparr>rr_OutboxChanged := True, rr_OutboxUserID := sender,
                      rr_OutboxEvent := zero_event\<lparr>ev_UserID := sender, ev_Type := UpdateEventReadHistoryOutbox, ev_Pts := outPts,
                        ev_PtsCount := 1, ev_Date := date, ev_Peer := user_peer owner, ev_MaxID := box\<rparr>\<rparr>)))"

definition ReadHistory ::
  "int \<Rightarrow> int \<Rightarrow> peer \<Rightarrow> int \<Rightarrow> int \<Rightarrow> 'x message_store \<Rightarrow> 'x message_store \<times> 'x read_result" where
  "ReadHistory now owner p maxID date s =
    (let res = \<lparr>rr_MaxID = maxID, rr_StillUnreadCount = 0, rr_Changed = False, rr_InboxEvent = zero_event,
                rr_OutboxChanged = False, rr_OutboxUserID = 0, rr_OutboxEvent = zero_event\<rparr>;
         date = (if date = 0 then now else date)
     in if owner = 0 \<or> peer_id p = 0 then (s, res)
        else case find (\<lambda>d. dg_Peer d = p) (ms_dialogs s owner) of
          None \<Rightarrow> (s, res)
        | Some d \<Rightarrow>
            let readMax = (if maxID \<le> 0 then dg_TopMessage d else maxID);
                readMax = (if readMax > dg_TopMessage d then dg_TopMessage d else readMax);
                oldRead = dg_ReadInboxMaxID d;
                res = res\<lparr>rr_MaxID := readMax\<rparr>
            in if \<not> readMax > oldRead
               then
                 if dg_UnreadCount d > 0
                 then let unread = incoming_unread p oldRead (ms_m s owner) in
                   (s\<lparr>ms_dialogs := (ms_dialogs s)(owner := change_first
                        (\<lambda>d. d\<lparr>dg_UnreadCount := unread, dg_UnreadMentions := 0, dg_UnreadMark := False\<rparr>) p (ms_dialogs s owner))\<rparr>,
                    res\<lparr>rr_MaxID := dg_ReadInboxMaxID d, rr_StillUnreadCount := unread\<rparr>)
                 else (s, res)
               else
                 let latest = latest_incoming p oldRead readMax (ms_m s owner);
                     unread = incoming_unread p readMax (ms_m s owner)
                 in (case nextPtsLocked owner s of
                       (s1, pts) \<Rightarrow>
                         read_receipt owner date latest
                           (res\<lparr>rr_Changed := True, rr_StillUnreadCount := unread,
                              rr_InboxEvent := zero_event\<lparr>ev_UserID := owner, ev_Type := UpdateEventReadHistoryInbox, ev_Pts := pts,
                                ev_PtsCount := 1, ev_Date := date, ev_Peer := p, ev_MaxID := readMax, ev_StillUnreadCount := unread\<rparr>\<rparr>)
                           (s1\<lparr>ms_dialogs := (ms_dialogs s1)(owner := change_first
                              (\<lambda>d. d\<lparr>dg_ReadInboxMaxID := readMax, dg_UnreadCount := unread, dg_UnreadMentions := 0, dg_UnreadMark := False\<rparr>)
                              p (ms_dialogs s1 owner))\<rparr>)))"

definition GetOutboxReadDate :: "int \<Rightarrow> peer \<Rightarrow> int \<Rightarrow> 'x message_store \<Rightarrow> message_error + int" where
  "GetOutboxReadDate owner p mid s =
    (if owner = 0 \<or> peer_type p \<noteq> PeerTypeUser \<or> peer_id p = 0 \<or> mid \<le> 0 \<or> mid > MaxMessageBoxID then Inl ErrMessageIDInvalid
     else if \<not> list_ex (\<lambda>m. pm_ID m = mid \<and> pm_Peer m = p \<and> pm_Out m) (ms_m s owner) then Inl ErrMessageIDInvalid
     else let date = ms_readOutboxDates s (owner, peer_id p, mid) in
       if date = 0 then Inl ErrMessageNotReadYet else Inr date)"

section \<open>Deleting\<close>

text \<open>The kept messages, the deleted ones, and whether the limit left some over.\<close>

fun deleteMemoryMessages :: "int \<Rightarrow> ('x pm \<Rightarrow> bool) \<Rightarrow> int \<Rightarrow> 'x pm list \<Rightarrow> 'x pm list \<times> 'x pm list \<times> bool" where
  "deleteMemoryMessages limit match n [] = ([], [], False)"
| "deleteMemoryMessages limit match n (m # ms) =
    (if match m
     then if limit > 0 \<and> n \<ge> limit
       then (case deleteMemoryMessages limit match n ms of (kept, deleted, left_over) \<Rightarrow> (m # kept, deleted, True))
       else (case deleteMemoryMessages limit match (n + 1) ms of (kept, deleted, left_over) \<Rightarrow> (kept, m # deleted, left_over))
     else (case deleteMemoryMessages limit match n ms of (kept, deleted, left_over) \<Rightarrow> (m # kept, deleted, left_over)))"

text \<open>A deleted row is the account and its copy.\<close>

type_synonym 'x deleted_row = "int \<times> 'x pm"

definition deleteMemoryMessagesLocked ::
  "int \<Rightarrow> int \<Rightarrow> ('x pm \<Rightarrow> bool) \<Rightarrow> 'x message_store \<Rightarrow> 'x message_store \<times> 'x deleted_row list \<times> bool" where
  "deleteMemoryMessagesLocked u limit match s =
    (case deleteMemoryMessages limit match 0 (ms_m s u) of
       (kept, deleted, left_over) \<Rightarrow> (set_box u kept s, map (Pair u) deleted, left_over))"

definition revoke_uids :: "'x deleted_row list \<Rightarrow> int list" where
  "revoke_uids rows = filter (\<lambda>uid. uid \<noteq> 0) (map (pm_UID \<circ> snd) rows)"

definition delete_uids :: "int list \<Rightarrow> int \<Rightarrow> 'x message_store \<Rightarrow> 'x message_store \<times> 'x deleted_row list" where
  "delete_uids uids u s =
    (set_box u (filter (\<lambda>m. pm_UID m \<notin> set uids) (ms_m s u)) s, map (Pair u) (filter (\<lambda>m. pm_UID m \<in> set uids) (ms_m s u)))"

definition deleteMemoryMessagesByUIDLocked ::
  "int list \<Rightarrow> int \<Rightarrow> 'x message_store \<Rightarrow> 'x message_store \<times> 'x deleted_row list" where
  "deleteMemoryMessagesByUIDLocked uids exclude s =
    (if uids = [] then (s, [])
     else fold (\<lambda>u (s, rows). if u = exclude then (s, rows)
            else case delete_uids uids u s of (s', rows') \<Rightarrow> (s', rows @ rows')) (ms_users s) (s, []))"

definition normalizeMemoryMessageIDs :: "int list \<Rightarrow> int list" where
  "normalizeMemoryMessageIDs ids = sort (remdups (filter (\<lambda>i. \<not> (i \<le> 0 \<or> i > MaxMessageBoxID)) ids))"

definition top_message :: "peer \<Rightarrow> 'x pm list \<Rightarrow> int \<times> int" where
  "top_message p ms = fold (\<lambda>m (topID, date). if pm_Peer m = p \<and> pm_ID m > topID then (pm_ID m, pm_Date m) else (topID, date)) ms (0, 0)"

fun rebuild_scan :: "peer \<Rightarrow> int \<times> int \<Rightarrow> 'x pm list \<Rightarrow> int \<Rightarrow> 'x dialog list \<Rightarrow> 'x dialog list" where
  "rebuild_scan p tp ms unread [] = []"
| "rebuild_scan p tp ms unread (d # ds) =
    (if dg_Peer d \<noteq> p then d # rebuild_scan p tp ms unread ds
     else if fst tp = 0 then rebuild_scan p tp ms unread ds
     else let unread = unread + incoming_unread p (dg_ReadInboxMaxID d) ms in
       d\<lparr>dg_TopMessage := fst tp, dg_TopMessageDate := snd tp, dg_UnreadCount := unread, dg_UnreadMentions := 0, dg_UnreadReactions := 0\<rparr>
         # rebuild_scan p tp ms unread ds)"

definition rebuildMemoryDialogLocked :: "int \<Rightarrow> peer \<Rightarrow> 'x message_store \<Rightarrow> 'x message_store" where
  "rebuildMemoryDialogLocked u p s =
    s\<lparr>ms_dialogs := (ms_dialogs s)(u := rebuild_scan p (top_message p (ms_m s u)) (ms_m s u) 0 (ms_dialogs s u)),
      ms_messages := (ms_messages s)(u := ms_m s u)\<rparr>"

definition advanceMemoryHistoryClearDialogLocked :: "int \<Rightarrow> peer \<Rightarrow> int \<Rightarrow> 'x message_store \<Rightarrow> 'x message_store" where
  "advanceMemoryHistoryClearDialogLocked u p maxID s =
    s\<lparr>ms_dialogs := (ms_dialogs s)(u := change_first
        (\<lambda>d. d\<lparr>dg_ReadInboxMaxID := (if dg_ReadInboxMaxID d < maxID then maxID else dg_ReadInboxMaxID d), dg_UnreadCount := 0,
               dg_UnreadMark := False, dg_UnreadMentions := 0, dg_UnreadReactions := 0\<rparr>) p (ms_dialogs s u))\<rparr>"

text \<open>The message that stays as the mark of a cleared history, and whether it already is one.\<close>

definition memoryHistoryClearAnchorLocked :: "int \<Rightarrow> peer \<Rightarrow> 'x message_store \<Rightarrow> ('x pm \<times> bool) option" where
  "memoryHistoryClearAnchorLocked u p s =
    (let t = fold (\<lambda>m t. if pm_Peer m = p \<and> pm_ID m > pm_ID t then m else t) (ms_m s u) zero_pm in
     if pm_ID t = 0 then None else Some (t, IsHistoryClearServiceMessage t))"

record 'x deleted_for_user =
  du_UserID :: int
  du_MessageIDs :: "int list"
  du_Pts :: int
  du_PtsCount :: int
  du_Events :: "'x pm update_event list"

fun replace_first :: "('x pm \<Rightarrow> bool) \<Rightarrow> 'x pm \<Rightarrow> 'x pm list \<Rightarrow> 'x pm list" where
  "replace_first P r [] = []"
| "replace_first P r (m # ms) = (if P m then r # ms else m # replace_first P r ms)"

text \<open>One account of a deletion: its rows, the reserved pts, the receipts of its sends and its dialogs.\<close>

definition rows_of :: "int \<Rightarrow> 'x deleted_row list \<Rightarrow> 'x pm list" where
  "rows_of u rows = map snd (filter (\<lambda>r. fst r = u) rows)"

definition mark_deleted_sends :: "int \<Rightarrow> 'x pm list \<Rightarrow> 'x pm update_event \<Rightarrow> 'x message_store \<Rightarrow> 'x message_store" where
  "mark_deleted_sends u gone event s =
    s\<lparr>ms_dedup := (\<lambda>key. if fst key = u \<and> snd key \<noteq> 0
        \<and> list_ex (\<lambda>m. peer_id (pm_From m) = u \<and> pm_RandomID m = snd key \<and> pm_UID m \<noteq> 0) gone
        then map_option (\<lambda>rec. rec\<lparr>dr_senderDeleteEvent := Some event\<rparr>) (ms_dedup s key) else ms_dedup s key)\<rparr>"

text \<open>The anchor that becomes the mark of a cleared history, and the dialogs to rebuild.\<close>

definition new_anchor :: "(int \<rightharpoonup> 'x pm \<times> bool) \<Rightarrow> int \<Rightarrow> 'x pm option" where
  "new_anchor anchors u = (case anchors u of Some (m, materialized) \<Rightarrow> if materialized then None else Some m | None \<Rightarrow> None)"

definition deleted_peers :: "(int \<rightharpoonup> 'x pm \<times> bool) \<Rightarrow> int \<Rightarrow> 'x pm list \<Rightarrow> peer list" where
  "deleted_peers anchors u gone = remdups (map pm_Peer gone @ (case anchors u of None \<Rightarrow> [] | Some (m, _) \<Rightarrow> [pm_Peer m]))"

definition clear_mark :: "int \<Rightarrow> 'x pm \<Rightarrow> int \<Rightarrow> 'x pm" where
  "clear_mark u a editPts = NewHistoryClearMessage u (pm_Peer a) (pm_ID a) (pm_UID a) (pm_Date a) editPts"

definition complete_delete ::
  "int \<Rightarrow> 'x pm list \<Rightarrow> 'x pm update_event option \<Rightarrow> 'x pm option \<Rightarrow> int \<Rightarrow> peer list \<Rightarrow> 'x message_store \<Rightarrow> 'x message_store" where
  "complete_delete u gone event anchor editPts peers s =
    (let s2 = (case event of Some e \<Rightarrow> mark_deleted_sends u gone e s | None \<Rightarrow> s);
         s3 = (case anchor of None \<Rightarrow> s2
               | Some a \<Rightarrow> set_box u (replace_first (\<lambda>m. pm_ID m = pm_ID a \<and> pm_Peer m = pm_Peer a) (clear_mark u a editPts) (ms_m s2 u)) s2);
         s4 = fold (rebuildMemoryDialogLocked u) peers s3
     in case anchor of None \<Rightarrow> s4 | Some a \<Rightarrow> advanceMemoryHistoryClearDialogLocked u (pm_Peer a) (pm_ID a) s4)"

definition clear_events :: "int \<Rightarrow> int \<Rightarrow> int \<Rightarrow> 'x pm option \<Rightarrow> 'x pm update_event list" where
  "clear_events u date cursor anchor = (case anchor of None \<Rightarrow> []
     | Some a \<Rightarrow> [zero_event\<lparr>ev_UserID := u, ev_Type := UpdateEventReadHistoryInbox, ev_Pts := cursor + 1, ev_PtsCount := 1,
           ev_Date := date, ev_Peer := pm_Peer a, ev_MaxID := pm_ID a, ev_StillUnreadCount := 0\<rparr>,
         zero_event\<lparr>ev_UserID := u, ev_Type := UpdateEventEditMessage, ev_Pts := cursor + 2, ev_PtsCount := 1, ev_Date := date,
           ev_Message := Some (message_snapshot (clear_mark u a (cursor + 2)))\<rparr>])"

text \<open>
  The last event always reaches the last reserved pts, so that the panic of the code never happens
  (\<open>finish_owner_reaches\<close>).
\<close>

definition finish_owner ::
  "'x deleted_row list \<Rightarrow> int \<Rightarrow> (int \<rightharpoonup> 'x pm \<times> bool) \<Rightarrow> int \<Rightarrow> 'x message_store \<Rightarrow> 'x message_store \<times> 'x deleted_for_user option" where
  "finish_owner rows date anchors u s =
    (let gone = rows_of u rows;
         ids = normalizeMemoryMessageIDs (map pm_ID gone);
         anchor = new_anchor anchors u;
         total = int (length ids) + (if anchor = None then 0 else 2)
     in if total = 0 then (s, None)
        else
          let pts = ms_nextPts s u + pts_step total;
              cursor = pts - total + int (length ids);
              event = (if ids = [] then None
                       else Some (zero_event\<lparr>ev_UserID := u, ev_Type := UpdateEventDeleteMessages, ev_Pts := cursor,
                              ev_PtsCount := int (length ids), ev_Date := date, ev_MessageIDs := ids\<rparr>))
          in (complete_delete u gone event anchor (cursor + 2) (deleted_peers anchors u gone) (s\<lparr>ms_nextPts := (ms_nextPts s)(u := pts)\<rparr>),
              Some \<lparr>du_UserID = u, du_MessageIDs = ids, du_Pts = pts, du_PtsCount = total,
                    du_Events = (case event of None \<Rightarrow> [] | Some e \<Rightarrow> [e]) @ clear_events u date cursor anchor\<rparr>))"

definition finish_step ::
  "'x deleted_row list \<Rightarrow> int \<Rightarrow> (int \<rightharpoonup> 'x pm \<times> bool) \<Rightarrow> int \<Rightarrow> 'x message_store \<times> 'x deleted_for_user list
   \<Rightarrow> 'x message_store \<times> 'x deleted_for_user list" where
  "finish_step rows date anchors u acc =
    (case finish_owner rows date anchors u (fst acc) of
       (s, None) \<Rightarrow> (s, snd acc) | (s, Some item) \<Rightarrow> (s, snd acc @ [item]))"

definition delete_owners :: "'x deleted_row list \<Rightarrow> (int \<rightharpoonup> 'x pm \<times> bool) \<Rightarrow> int list \<Rightarrow> int list" where
  "delete_owners rows anchors anchored = sort (remdups (map fst rows @ filter (\<lambda>u. new_anchor anchors u \<noteq> None) anchored))"

text \<open>\<open>anchored\<close> lists the keys of the map \<open>anchors\<close>.\<close>

definition finishMemoryDeleteLocked ::
  "'x deleted_row list \<Rightarrow> int \<Rightarrow> (int \<rightharpoonup> 'x pm \<times> bool) \<Rightarrow> int list \<Rightarrow> 'x message_store \<Rightarrow> 'x message_store \<times> 'x deleted_for_user list" where
  "finishMemoryDeleteLocked rows date anchors anchored s =
    fold (finish_step rows date anchors) (delete_owners rows anchors anchored) (s, [])"

definition DeleteMessages ::
  "int \<Rightarrow> int \<Rightarrow> int list \<Rightarrow> bool \<Rightarrow> int \<Rightarrow> 'x message_store \<Rightarrow> 'x message_store \<times> (message_error + 'x deleted_for_user list)" where
  "DeleteMessages now owner ids revoke date s =
    (let ids = normalizeMemoryMessageIDs ids; date = (if date = 0 then now else date) in
     if owner = 0 \<or> ids = [] then (s, Inr [])
     else if int (length ids) > MaxDeleteMessageIDs then (s, Inl ErrTooManyIDs)
     else case deleteMemoryMessagesLocked owner 0 (\<lambda>m. pm_ID m \<in> set ids) s of
       (s1, deleted, _) \<Rightarrow>
         (case (if revoke then deleteMemoryMessagesByUIDLocked (revoke_uids deleted) owner s1 else (s1, [])) of
            (s2, byUID) \<Rightarrow> map_prod id Inr (finishMemoryDeleteLocked (deleted @ byUID) date Map.empty [] s2)))"

record delete_history =
  dh_OwnerUserID :: int
  dh_Peer :: peer
  dh_MaxID :: int
  dh_MinDate :: int
  dh_MaxDate :: int
  dh_JustClear :: bool
  dh_Revoke :: bool
  dh_Date :: int

definition in_date_range :: "delete_history \<Rightarrow> 'x pm \<Rightarrow> bool" where
  "in_date_range r m \<longleftrightarrow> \<not> (dh_MinDate r > 0 \<and> pm_Date m < dh_MinDate r) \<and> \<not> (dh_MaxDate r > 0 \<and> pm_Date m > dh_MaxDate r)"

definition is_anchor :: "(int \<rightharpoonup> 'x pm \<times> bool) \<Rightarrow> int \<Rightarrow> 'x pm \<Rightarrow> bool" where
  "is_anchor anchors u m = (case anchors u of None \<Rightarrow> False | Some (a, _) \<Rightarrow> pm_ID m = pm_ID a)"

definition clear_anchors :: "delete_history \<Rightarrow> 'x message_store \<Rightarrow> (int \<rightharpoonup> 'x pm \<times> bool)" where
  "clear_anchors r s =
    (let owner = dh_OwnerUserID r; other = peer_id (dh_Peer r) in
     if dh_JustClear r \<and> dh_MaxID r \<le> 0 \<and> dh_MinDate r \<le> 0 \<and> dh_MaxDate r \<le> 0
     then (\<lambda>u. if dh_Revoke r \<and> other \<noteq> owner \<and> u = other then memoryHistoryClearAnchorLocked other (user_peer owner) s
               else if u = owner then memoryHistoryClearAnchorLocked owner (dh_Peer r) s else None)
     else Map.empty)"

text \<open>The result says whether a batch limit left messages over (a non-zero offset).\<close>

definition DeleteHistory ::
  "int \<Rightarrow> delete_history \<Rightarrow> 'x message_store \<Rightarrow> 'x message_store \<times> 'x deleted_for_user list \<times> bool" where
  "DeleteHistory now r s =
    (let owner = dh_OwnerUserID r; other = peer_id (dh_Peer r); date = (if dh_Date r = 0 then now else dh_Date r) in
     if owner = 0 \<or> other = 0 then (s, [], False)
     else
       let anchors = clear_anchors r s in
       case deleteMemoryMessagesLocked owner MaxDeleteHistoryBatch
              (\<lambda>m. \<not> is_anchor anchors owner m \<and> pm_Peer m = dh_Peer r \<and> (dh_MaxID r \<le> 0 \<or> pm_ID m \<le> dh_MaxID r) \<and> in_date_range r m) s of
         (s1, deleted, left_over) \<Rightarrow>
           (case (if dh_Revoke r \<and> dh_MaxID r > 0 then deleteMemoryMessagesByUIDLocked (revoke_uids deleted) owner s1 else (s1, [])) of
              (s2, byUID) \<Rightarrow>
                (case (if dh_Revoke r \<and> dh_MaxID r \<le> 0 \<and> other \<noteq> owner
                       then deleteMemoryMessagesLocked other MaxDeleteHistoryBatch
                         (\<lambda>m. \<not> is_anchor anchors other m \<and> pm_Peer m = user_peer owner \<and> in_date_range r m) s2
                       else (s2, [], False)) of
                   (s3, peerDeleted, peerLeft) \<Rightarrow>
                     (case finishMemoryDeleteLocked (deleted @ byUID @ peerDeleted) date anchors [owner, other] s3 of
                        (s4, items) \<Rightarrow> (s4, items, left_over \<or> peerLeft)))))"

section \<open>Editing\<close>

record 'x edit_request =
  er_OwnerUserID :: int
  er_Peer :: peer
  er_ID :: int
  er_Message :: string
  er_Entities :: "'x list"
  er_Media :: "'x media option"
  er_EditDate :: int
  er_HideEdited :: bool
  er_SetReplyMarkup :: bool
  er_ReplyMarkup :: "'x option"
  er_SetRichMessage :: bool
  er_RichMessage :: "'x rich_message option"
  er_ViaBotEditBotID :: int
  er_AllowTodoParticipantMutation :: bool
  er_WebPageResolve :: bool
  er_ExpectedWebPageID :: int

definition is_todo :: "'x media option \<Rightarrow> bool" where
  "is_todo m = (case m of None \<Rightarrow> False | Some d \<Rightarrow> md_Kind d = ''todo'' \<and> md_Todo d)"

definition validMemoryTodoParticipantEdit :: "'x edit_request \<Rightarrow> 'x pm \<Rightarrow> bool" where
  "validMemoryTodoParticipantEdit req target =
    (if \<not> er_AllowTodoParticipantMutation req \<or> er_SetReplyMarkup req \<or> \<not> is_todo (er_Media req) then False
     else if peer_id (pm_From target) = er_OwnerUserID req then False
     else if pm_Body target \<noteq> er_Message req \<or> pm_Entities target \<noteq> er_Entities req then False
     else is_todo (pm_Media target))"

definition richMessagesEqual :: "'x rich_message option \<Rightarrow> 'x rich_message option \<Rightarrow> bool" where
  "richMessagesEqual a b \<longleftrightarrow> RichMessage_IsZero a \<and> RichMessage_IsZero b \<or> a = b"

definition edited_message :: "'x edit_request \<Rightarrow> int \<Rightarrow> 'x pm \<Rightarrow> 'x pm" where
  "edited_message req pts m =
    (if er_WebPageResolve req then m\<lparr>pm_Media := er_Media req, pm_Pts := pts\<rparr>
     else m\<lparr>pm_Body := er_Message req, pm_Entities := er_Entities req,
       pm_Media := (if er_Media req \<noteq> None then er_Media req else pm_Media m),
       pm_ReplyMarkup := (if er_SetReplyMarkup req then er_ReplyMarkup req else pm_ReplyMarkup m),
       pm_RichMessage := (if er_SetRichMessage req then er_RichMessage req else pm_RichMessage m),
       pm_EditDate := er_EditDate req, pm_HideEdited := er_HideEdited req, pm_Pts := pts\<rparr>)"

text \<open>One box: the copies of the message, each with the next pts of the account.\<close>

fun edit_box :: "'x edit_request \<Rightarrow> 'x pm \<Rightarrow> int \<Rightarrow> 'x pm list \<Rightarrow> 'x pm list \<times> int \<times> 'x pm list" where
  "edit_box req target pts [] = ([], pts, [])"
| "edit_box req target pts (m # ms) =
    (if pm_UID m = pm_UID target \<and> peer_id (pm_From m) = peer_id (pm_From target)
     then let m' = edited_message req (pts + 1) m in
       (case edit_box req target (pts + 1) ms of (out, pts', edited) \<Rightarrow> (m' # out, pts', m' # edited))
     else (case edit_box req target pts ms of (out, pts', edited) \<Rightarrow> (m # out, pts', edited)))"

definition edit_user :: "'x edit_request \<Rightarrow> 'x pm \<Rightarrow> int \<Rightarrow> 'x message_store \<Rightarrow> 'x message_store \<times> (int \<times> 'x pm) list" where
  "edit_user req target u s =
    (case edit_box req target (ms_nextPts s u) (ms_m s u) of
       (out, pts, edited) \<Rightarrow> (s\<lparr>ms_m := (ms_m s)(u := out), ms_nextPts := (ms_nextPts s)(u := pts)\<rparr>, map (Pair u) edited))"

definition edit_step ::
  "'x edit_request \<Rightarrow> 'x pm \<Rightarrow> int \<Rightarrow> 'x message_store \<times> (int \<times> 'x pm) list \<Rightarrow> 'x message_store \<times> (int \<times> 'x pm) list" where
  "edit_step req target u acc = (case edit_user req target u (fst acc) of (s, e) \<Rightarrow> (s, snd acc @ e))"

definition edit_everywhere :: "'x edit_request \<Rightarrow> 'x pm \<Rightarrow> 'x message_store \<Rightarrow> 'x message_store \<times> (int \<times> 'x pm) list" where
  "edit_everywhere req target s = fold (edit_step req target) (ms_users s) (s, [])"

text \<open>Why an edit of the target is refused, in the order of the checks.\<close>

definition edit_refused :: "'x edit_request \<Rightarrow> 'x pm \<Rightarrow> message_error option" where
  "edit_refused req target =
    (let authorEdit = (pm_Out target \<and> peer_id (pm_From target) = er_OwnerUserID req);
         viaBotEdit = (er_ViaBotEditBotID req \<noteq> 0 \<and> pm_ViaBotID target = er_ViaBotEditBotID req);
         finalMedia = (if er_Media req \<noteq> None then er_Media req else pm_Media target);
         finalRich = (if er_SetRichMessage req then er_RichMessage req else pm_RichMessage target);
         richChanged = (er_SetRichMessage req \<and> \<not> richMessagesEqual (pm_RichMessage target) (er_RichMessage req))
     in if \<not> authorEdit \<and> \<not> viaBotEdit \<and> \<not> er_WebPageResolve req \<and> \<not> validMemoryTodoParticipantEdit req target
        then Some ErrMessageAuthorRequired
        else if er_WebPageResolve req \<and> (er_Media req = None \<or> \<not> IsPendingWebPageMedia (pm_Media target) (er_ExpectedWebPageID req))
        then Some ErrMessageNotModified
        else if er_Message req = [] \<and> Media_IsZero finalMedia \<and> RichMessage_IsZero finalRich then Some ErrMessageEmpty
        else if er_Media req = None \<and> \<not> er_SetReplyMarkup req \<and> \<not> richChanged \<and> pm_Body target = er_Message req
          \<and> pm_HideEdited target = er_HideEdited req \<and> pm_Entities target = er_Entities req
        then Some ErrMessageNotModified
        else None)"

text \<open>The edited copies come sorted by account.\<close>

definition EditMessage ::
  "int \<Rightarrow> 'x edit_request \<Rightarrow> 'x message_store \<Rightarrow> 'x message_store \<times> (message_error + (int \<times> 'x pm) list)" where
  "EditMessage now req s =
    (if er_OwnerUserID req = 0 \<or> peer_id (er_Peer req) = 0 \<or> er_ID req \<le> 0 \<or> er_ID req > MaxMessageBoxID
     then (s, Inl ErrMessageIDInvalid)
     else
       let req = (if er_EditDate req = 0 then req\<lparr>er_EditDate := now\<rparr> else req) in
       case find (\<lambda>m. pm_ID m = er_ID req \<and> pm_Peer m = er_Peer req) (ms_m s (er_OwnerUserID req)) of
         None \<Rightarrow> (s, Inl ErrMessageIDInvalid)
       | Some target \<Rightarrow>
           (case edit_refused req target of
              Some err \<Rightarrow> (s, Inl err)
            | None \<Rightarrow> (case edit_everywhere req target s of
                  (s1, edited) \<Rightarrow> (s1\<lparr>ms_messages := ms_m s1\<rparr>, Inr (sort_key fst edited)))))"

section \<open>Pages of a history\<close>

record message_filter =
  mf_HasPeer :: bool
  mf_Peer :: peer
  mf_SenderUserID :: int
  mf_RestrictPeerIDs :: bool
  mf_PeerIDs :: "int list"
  mf_MinDate :: int
  mf_MaxDate :: int
  mf_MaxID :: int
  mf_MinID :: int
  mf_PinnedOnly :: bool
  mf_CountOnly :: bool
  mf_SavedPeer :: peer
  mf_OffsetID :: int
  mf_OffsetDate :: int
  mf_AddOffset :: int
  mf_Limit :: int

definition ClampMessageHistoryAddOffset :: "int \<Rightarrow> int" where
  "ClampMessageHistoryAddOffset v = (if v > 100 then 100 else if v < - 100 then - 100 else v)"

definition messageBeforeHistoryOffset :: "message_filter \<Rightarrow> 'x pm \<Rightarrow> bool" where
  "messageBeforeHistoryOffset f m =
    (if mf_OffsetDate f > 0 then pm_Date m < mf_OffsetDate f else if mf_OffsetID f \<le> 0 then True else pm_ID m < mf_OffsetID f)"

definition messageAfterHistoryOffset :: "message_filter \<Rightarrow> 'x pm \<Rightarrow> bool" where
  "messageAfterHistoryOffset f m =
    (if mf_OffsetDate f > 0 then pm_Date m \<ge> mf_OffsetDate f else if mf_OffsetID f \<le> 0 then False else pm_ID m \<ge> mf_OffsetID f)"

text \<open>A loop that appends until \<open>len(out) == limit\<close>, from a positive limit, takes the first \<open>limit\<close>.\<close>

fun backward_scan :: "message_filter \<Rightarrow> int \<Rightarrow> 'x pm list \<Rightarrow> 'x pm list \<Rightarrow> 'x pm list" where
  "backward_scan f limit out [] = out"
| "backward_scan f limit out (m # ms) =
    (if \<not> messageBeforeHistoryOffset f m then backward_scan f limit out ms
     else let out = out @ [m] in if int (length out) = limit then out else backward_scan f limit out ms)"

definition backwardMessageHistory :: "'x pm list \<Rightarrow> message_filter \<Rightarrow> int \<Rightarrow> 'x pm list" where
  "backwardMessageHistory base f limit = (if limit \<le> 0 then [] else backward_scan f limit [] base)"

fun forward_scan :: "message_filter \<Rightarrow> int \<Rightarrow> int \<Rightarrow> 'x pm list \<Rightarrow> 'x pm list \<Rightarrow> 'x pm list" where
  "forward_scan f limit skip out [] = out"
| "forward_scan f limit skip out (m # ms) =
    (if \<not> messageAfterHistoryOffset f m then forward_scan f limit skip out ms
     else if skip > 0 then forward_scan f limit (skip - 1) out ms
     else let out = out @ [m] in if int (length out) = limit then out else forward_scan f limit skip out ms)"

definition newest_first :: "'x pm list \<Rightarrow> 'x pm list" where
  "newest_first ms = sort_key (\<lambda>m. - pm_ID m) ms"

definition forwardMessageHistory :: "'x pm list \<Rightarrow> message_filter \<Rightarrow> int \<Rightarrow> int \<Rightarrow> 'x pm list" where
  "forwardMessageHistory base f limit skip =
    (if limit \<le> 0 then [] else newest_first (forward_scan f limit skip [] (rev base)))"

datatype message_history_load = messageHistoryLoadBackward | messageHistoryLoadForward | messageHistoryLoadAround

definition messageHistoryLoadType :: "int \<Rightarrow> int \<Rightarrow> message_history_load" where
  "messageHistoryLoadType addOffset limit =
    (if addOffset \<ge> 0 then messageHistoryLoadBackward
     else if addOffset + limit > 0 then messageHistoryLoadAround else messageHistoryLoadForward)"

definition pageMessageHistory :: "'x pm list \<Rightarrow> message_filter \<Rightarrow> int \<Rightarrow> 'x pm list" where
  "pageMessageHistory base f limit =
    (if limit \<le> 0 \<or> base = [] then []
     else case messageHistoryLoadType (mf_AddOffset f) limit of
       messageHistoryLoadForward \<Rightarrow> forwardMessageHistory base f limit (- mf_AddOffset f - limit)
     | messageHistoryLoadAround \<Rightarrow>
         let forwardLimit = (if - mf_AddOffset f > limit then limit else - mf_AddOffset f);
             backwardLimit = (if limit + mf_AddOffset f < 0 then 0 else limit + mf_AddOffset f)
         in newest_first (forwardMessageHistory base f forwardLimit 0 @ backwardMessageHistory base f backwardLimit)
     | messageHistoryLoadBackward \<Rightarrow>
         let start = (if mf_AddOffset f < 0 then 0 else mf_AddOffset f);
             candidates = backwardMessageHistory base f (limit + start)
         in if start \<ge> int (length candidates) then [] else drop (nat start) candidates)"

text \<open>
  The list of a conversation: the messages that fit the query, newest first, their number and one
  page. The search for text, music and saved tags is the argument \<open>content_fits\<close>; the users and
  the hash that go with a list are left out.
\<close>

definition history_fits :: "('x pm \<Rightarrow> bool) \<Rightarrow> message_filter \<Rightarrow> 'x pm \<Rightarrow> bool" where
  "history_fits content_fits f m =
    (if mf_HasPeer f \<and> pm_Peer m \<noteq> mf_Peer f then False
     else if mf_SenderUserID f \<noteq> 0 \<and> pm_From m \<noteq> user_peer (mf_SenderUserID f) then False
     else if mf_RestrictPeerIDs f \<and> (peer_type (pm_Peer m) \<noteq> PeerTypeUser \<or> peer_id (pm_Peer m) \<notin> set (mf_PeerIDs f)) then False
     else if mf_MinDate f > 0 \<and> pm_Date m \<le> mf_MinDate f then False
     else if mf_MaxDate f > 0 \<and> pm_Date m \<ge> mf_MaxDate f then False
     else if mf_MaxID f > 0 \<and> pm_ID m \<ge> mf_MaxID f then False
     else if mf_MinID f > 0 \<and> pm_ID m \<le> mf_MinID f then False
     else if mf_PinnedOnly f \<and> \<not> pm_Pinned m then False
     else if peer_id (mf_SavedPeer f) \<noteq> 0 \<and> pm_SavedPeer m \<noteq> mf_SavedPeer f then False
     else content_fits m)"

definition history_limit :: "int \<Rightarrow> int" where
  "history_limit limit = (let l = (if limit \<le> 0 then 100 else limit) in if l > 500 then 500 else l)"

definition filterMessageList :: "('x pm \<Rightarrow> bool) \<Rightarrow> message_filter \<Rightarrow> 'x pm list \<Rightarrow> 'x pm list \<times> int" where
  "filterMessageList content_fits f ms =
    (let f = f\<lparr>mf_AddOffset := ClampMessageHistoryAddOffset (mf_AddOffset f)\<rparr>; base = filter (history_fits content_fits f) (newest_first ms) in
     (if mf_CountOnly f then [] else pageMessageHistory base f (history_limit (mf_Limit f)), int (length base)))"

end
