(* ===== verification/Private_Messages_Invariant.thy ===== *)
theory Private_Messages_Invariant
  imports Private_Messages
begin

text \<open>
  The invariants of the private messages: the ids of a box increase with the shared ids, every dialog
  counts the unread messages of its conversation and shows the newest one, the copies of a message
  lie on the two sides of one conversation, and what is shown as read has been read. \<open>pm_view\<close> states
  them on the parts of messages that an edit leaves alone (\<open>mcore\<close>); the operations are taken apart
  into changes of one account's dialogs, the addition, removal and replacement of messages, and
  \<open>pm_ok P\<close> allows the dialogs of the peers in \<open>P\<close> to be out of date between the steps of a deletion.
\<close>

section \<open>What the store needs of a message\<close>

text \<open>Editing never touches these fields.\<close>

record mcore =
  c_ID :: int
  c_UID :: int
  c_Peer :: peer
  c_Out :: bool
  c_From :: peer
  c_RandomID :: int

definition core :: "'x pm \<Rightarrow> mcore" where
  "core m = \<lparr>c_ID = pm_ID m, c_UID = pm_UID m, c_Peer = pm_Peer m, c_Out = pm_Out m, c_From = pm_From m, c_RandomID = pm_RandomID m\<rparr>"

lemma core_simps [simp]:
  "c_ID (core m) = pm_ID m" "c_UID (core m) = pm_UID m" "c_Peer (core m) = pm_Peer m" "c_Out (core m) = pm_Out m"
  "c_From (core m) = pm_From m" "c_RandomID (core m) = pm_RandomID m"
  by (simp_all add: core_def)

text \<open>A box in order: ids and shared ids increase, within their counters.\<close>

definition box_ok :: "int \<Rightarrow> int \<Rightarrow> mcore list \<Rightarrow> bool" where
  "box_ok nb nu cs \<longleftrightarrow> sorted_wrt (\<lambda>a b. c_ID a < c_ID b \<and> c_UID a < c_UID b) cs
     \<and> (\<forall>c \<in> set cs. 0 < c_ID c \<and> c_ID c \<le> nb \<and> 0 < c_UID c \<and> c_UID c < nu
          \<and> peer_type (c_Peer c) = PeerTypeUser \<and> (\<not> c_Out c \<longrightarrow> c_From c = c_Peer c))"

definition unread_set :: "peer \<Rightarrow> int \<Rightarrow> mcore list \<Rightarrow> mcore set" where
  "unread_set p r cs = {c \<in> set cs. c_Peer c = p \<and> \<not> c_Out c \<and> r < c_ID c}"

definition top_of :: "peer \<Rightarrow> int \<Rightarrow> mcore list \<Rightarrow> bool" where
  "top_of p t cs \<longleftrightarrow> (\<exists>c \<in> set cs. c_Peer c = p \<and> c_ID c = t) \<and> (\<forall>c \<in> set cs. c_Peer c = p \<longrightarrow> c_ID c \<le> t)"

text \<open>The dialogs of an account against its box, but for the counts of the peers in \<open>P\<close>.\<close>

definition dlg_ok :: "peer set \<Rightarrow> int \<Rightarrow> mcore list \<Rightarrow> 'x dialog list \<Rightarrow> bool" where
  "dlg_ok P nb cs ds \<longleftrightarrow> distinct (map dg_Peer ds)
     \<and> (\<forall>d \<in> set ds. 0 \<le> dg_ReadInboxMaxID d \<and> dg_ReadInboxMaxID d \<le> nb \<and> 0 \<le> dg_ReadOutboxMaxID d \<and> dg_ReadOutboxMaxID d \<le> nb)
     \<and> (\<forall>c \<in> set cs. c_Peer c \<in> dg_Peer ` set ds)
     \<and> (\<forall>d \<in> set ds. dg_Peer d \<notin> P \<longrightarrow> top_of (dg_Peer d) (dg_TopMessage d) cs
          \<and> dg_UnreadCount d = int (card (unread_set (dg_Peer d) (dg_ReadInboxMaxID d) cs)))"

lemma box_ok_distinct:
  assumes "box_ok nb nu cs" shows "distinct cs"
proof -
  have "sorted_wrt (\<lambda>a b. a \<noteq> b) cs"
    by (rule sorted_wrt_mono_rel [of _ "\<lambda>a b. c_ID a < c_ID b \<and> c_UID a < c_UID b"]) (use assms in \<open>auto simp: box_ok_def\<close>)
  then show ?thesis by (simp add: distinct_conv_nth sorted_wrt_iff_nth_less) (metis linorder_neqE_nat)
qed

lemma box_order:
  assumes "box_ok nb nu cs" "a \<in> set cs" "b \<in> set cs"
  shows "c_ID a < c_ID b \<longleftrightarrow> c_UID a < c_UID b" "c_ID a = c_ID b \<longleftrightarrow> a = b" "c_UID a = c_UID b \<longleftrightarrow> a = b"
proof -
  obtain i j where ij: "i < length cs" "cs ! i = a" "j < length cs" "cs ! j = b" using assms(2,3) by (auto simp: in_set_conv_nth)
  have "i < j \<Longrightarrow> c_ID a < c_ID b \<and> c_UID a < c_UID b" "j < i \<Longrightarrow> c_ID b < c_ID a \<and> c_UID b < c_UID a"
    using assms(1) ij by (auto simp: box_ok_def sorted_wrt_iff_nth_less)
  then show "c_ID a < c_ID b \<longleftrightarrow> c_UID a < c_UID b" "c_ID a = c_ID b \<longleftrightarrow> a = b" "c_UID a = c_UID b \<longleftrightarrow> a = b"
    using ij by (cases i j rule: linorder_cases; force)+
qed

lemma box_ok_append:
  assumes "box_ok nb nu cs" "c_ID c = nb + 1" "c_UID c = nu" "0 \<le> nb" "0 < nu" "peer_type (c_Peer c) = PeerTypeUser"
    "\<not> c_Out c \<longrightarrow> c_From c = c_Peer c"
  shows "box_ok (nb + 1) (nu + 1) (cs @ [c])"
  using assms by (fastforce simp: box_ok_def sorted_wrt_append)

lemma box_ok_mono: "box_ok nb nu cs \<Longrightarrow> nu \<le> nu' \<Longrightarrow> box_ok nb nu' cs"
  by (fastforce simp: box_ok_def)

lemma box_ok_filter: "box_ok nb nu cs \<Longrightarrow> box_ok nb nu (filter Q cs)"
  by (auto simp: box_ok_def sorted_wrt_filter)

lemma box_ok_replace:
  assumes "box_ok nb nu (xs @ c # ys)" "c_ID c' = c_ID c" "c_UID c' = c_UID c" "c_Peer c' = c_Peer c" "c_Out c'"
  shows "box_ok nb nu (xs @ c' # ys)"
  using assms by (auto simp: box_ok_def sorted_wrt_append)

lemma unread_set_append [simp]:
  "unread_set p r (cs @ [c]) = (if c_Peer c = p \<and> \<not> c_Out c \<and> r < c_ID c then insert c (unread_set p r cs) else unread_set p r cs)"
  by (auto simp: unread_set_def)

lemma incoming_unread_card:
  assumes "distinct (map core ms)"
  shows "incoming_unread p r ms = int (card (unread_set p r (map core ms)))"
proof -
  have "filter (\<lambda>c. c_Peer c = p \<and> \<not> c_Out c \<and> r < c_ID c) (map core ms) = map core (filter (\<lambda>m. pm_Peer m = p \<and> \<not> pm_Out m \<and> r < pm_ID m) ms)"
    by (simp add: filter_map comp_def)
  then have "length (filter (\<lambda>m. pm_Peer m = p \<and> \<not> pm_Out m \<and> r < pm_ID m) ms)
      = length (filter (\<lambda>c. c_Peer c = p \<and> \<not> c_Out c \<and> r < c_ID c) (map core ms))" by simp
  also have "\<dots> = card (unread_set p r (map core ms))"
    using distinct_card [OF distinct_filter [OF assms], of "\<lambda>c. c_Peer c = p \<and> \<not> c_Out c \<and> r < c_ID c"]
    by (simp add: unread_set_def set_filter)
  finally show ?thesis by (simp add: incoming_unread_def)
qed

section \<open>The boxes and dialogs of all accounts\<close>

text \<open>The copies of a message lie in the boxes of the two sides of one conversation.\<close>

definition copies :: "(int \<Rightarrow> mcore list) \<Rightarrow> bool" where
  "copies cb \<longleftrightarrow> (\<forall>u v. u \<noteq> v \<longrightarrow> (\<forall>a \<in> set (cb u). \<forall>b \<in> set (cb v). c_UID a = c_UID b \<longrightarrow> c_Peer a = user_peer v \<and> c_Peer b = user_peer u))"

text \<open>What one side shows as read has been read by the other side.\<close>

definition receipts :: "(int \<Rightarrow> mcore list) \<Rightarrow> (int \<Rightarrow> 'x dialog list) \<Rightarrow> bool" where
  "receipts cb ds \<longleftrightarrow> (\<forall>u v. u \<noteq> v \<longrightarrow> (\<forall>a \<in> set (cb u). \<forall>b \<in> set (cb v). \<forall>d \<in> set (ds u).
     c_UID a = c_UID b \<and> dg_Peer d = user_peer v \<and> c_ID a \<le> dg_ReadOutboxMaxID d
       \<longrightarrow> (\<exists>d' \<in> set (ds v). dg_Peer d' = user_peer u \<and> c_ID b \<le> dg_ReadInboxMaxID d')))"

definition pm_view :: "(int \<Rightarrow> peer set) \<Rightarrow> int \<Rightarrow> (int \<Rightarrow> int) \<Rightarrow> (int \<Rightarrow> mcore list) \<Rightarrow> (int \<Rightarrow> 'x dialog list) \<Rightarrow> bool" where
  "pm_view P nu nb cb ds \<longleftrightarrow> 0 < nu \<and> (\<forall>u. 0 \<le> nb u \<and> box_ok (nb u) nu (cb u) \<and> dlg_ok (P u) (nb u) (cb u) (ds u)) \<and> copies cb \<and> receipts cb ds"

definition cores :: "(int \<Rightarrow> 'x pm list) \<Rightarrow> int \<Rightarrow> mcore list" where
  "cores m u = map core (m u)"

lemma cores_upd [simp]: "cores (m(w := ms)) = (cores m)(w := map core ms)" by (auto simp: cores_def)

definition pm_ok :: "(int \<Rightarrow> peer set) \<Rightarrow> 'x message_store \<Rightarrow> bool" where
  "pm_ok P s \<longleftrightarrow> pm_view P (ms_nextUID s) (ms_nextBox s) (cores (ms_m s)) (ms_dialogs s)"

lemma copiesI:
  assumes "\<And>u v a b. u \<noteq> v \<Longrightarrow> a \<in> set (cb u) \<Longrightarrow> b \<in> set (cb v) \<Longrightarrow> c_UID a = c_UID b \<Longrightarrow> c_Peer a = user_peer v \<and> c_Peer b = user_peer u"
  shows "copies cb" using assms unfolding copies_def by blast

lemma copiesD:
  "copies cb \<Longrightarrow> u \<noteq> v \<Longrightarrow> a \<in> set (cb u) \<Longrightarrow> b \<in> set (cb v) \<Longrightarrow> c_UID a = c_UID b \<Longrightarrow> c_Peer a = user_peer v \<and> c_Peer b = user_peer u"
  unfolding copies_def by blast

lemma receiptsI:
  assumes "\<And>u v a b d. u \<noteq> v \<Longrightarrow> a \<in> set (cb u) \<Longrightarrow> b \<in> set (cb v) \<Longrightarrow> d \<in> set (ds u) \<Longrightarrow> c_UID a = c_UID b
     \<Longrightarrow> dg_Peer d = user_peer v \<Longrightarrow> c_ID a \<le> dg_ReadOutboxMaxID d \<Longrightarrow> \<exists>d' \<in> set (ds v). dg_Peer d' = user_peer u \<and> c_ID b \<le> dg_ReadInboxMaxID d'"
  shows "receipts cb ds" using assms unfolding receipts_def by blast

lemma receiptsE:
  assumes "receipts cb ds" "u \<noteq> v" "a \<in> set (cb u)" "b \<in> set (cb v)" "d \<in> set (ds u)" "c_UID a = c_UID b" "dg_Peer d = user_peer v"
    "c_ID a \<le> dg_ReadOutboxMaxID d"
  obtains d' where "d' \<in> set (ds v)" "dg_Peer d' = user_peer u" "c_ID b \<le> dg_ReadInboxMaxID d'"
  using assms unfolding receipts_def by blast

lemma pm_viewD:
  assumes "pm_view P nu nb cb ds"
  shows "0 < nu" "0 \<le> nb u" "box_ok (nb u) nu (cb u)" "dlg_ok (P u) (nb u) (cb u) (ds u)" "copies cb" "receipts cb ds"
  using assms by (auto simp: pm_view_def)

subsection \<open>Changing the dialogs of one account\<close>

definition dlg_ext :: "mcore list \<Rightarrow> 'x dialog list \<Rightarrow> 'x dialog list \<Rightarrow> bool" where
  "dlg_ext cs ds ds' \<longleftrightarrow>
     (\<forall>d' \<in> set ds'. dg_ReadOutboxMaxID d' \<le> 0 \<or> (\<exists>d \<in> set ds. dg_Peer d = dg_Peer d' \<and> dg_ReadOutboxMaxID d' \<le> dg_ReadOutboxMaxID d))
   \<and> (\<forall>d \<in> set ds. dg_Peer d \<in> c_Peer ` set cs \<longrightarrow> (\<exists>d' \<in> set ds'. dg_Peer d' = dg_Peer d \<and> dg_ReadInboxMaxID d \<le> dg_ReadInboxMaxID d'))"

lemma receipts_dialogs:
  assumes R: "receipts cb ds" and C: "copies cb" and x: "dlg_ext (cb w) (ds w) ds'" and pos: "\<And>c. c \<in> set (cb w) \<Longrightarrow> 0 < c_ID c"
  shows "receipts cb (ds(w := ds'))"
proof (rule receiptsI)
  fix u v a b d
  assume h: "u \<noteq> v" "a \<in> set (cb u)" "b \<in> set (cb v)" "d \<in> set ((ds(w := ds')) u)" "c_UID a = c_UID b"
    "dg_Peer d = user_peer v" "c_ID a \<le> dg_ReadOutboxMaxID d"
  obtain e where e: "e \<in> set (ds u)" "dg_Peer e = user_peer v" "c_ID a \<le> dg_ReadOutboxMaxID e"
  proof (cases "u = w")
    case True
    have "\<not> dg_ReadOutboxMaxID d \<le> 0" using pos [of a] h(2,7) True by auto
    then obtain e where "e \<in> set (ds w)" "dg_Peer e = dg_Peer d" "dg_ReadOutboxMaxID d \<le> dg_ReadOutboxMaxID e"
      using x h(4) True by (auto simp: dlg_ext_def)
    with h(6,7) True show ?thesis by (intro that [of e]) auto
  qed (use h that in auto)
  obtain d' where d': "d' \<in> set (ds v)" "dg_Peer d' = user_peer u" "c_ID b \<le> dg_ReadInboxMaxID d'"
    by (rule receiptsE [OF R h(1,2,3) e(1) h(5) e(2,3)])
  have "c_Peer b = user_peer u" using copiesD [OF C h(1,2,3,5)] by simp
  then have "v = w \<Longrightarrow> \<exists>e' \<in> set ds'. dg_Peer e' = user_peer u \<and> dg_ReadInboxMaxID d' \<le> dg_ReadInboxMaxID e'"
    using x d'(1,2) h(3) by (metis (no_types, lifting) dlg_ext_def image_eqI)
  then show "\<exists>d' \<in> set ((ds(w := ds')) v). dg_Peer d' = user_peer u \<and> c_ID b \<le> dg_ReadInboxMaxID d'"
    using d' by (cases "v = w") (auto intro: order_trans)
qed

lemma pm_view_dialogs:
  assumes v: "pm_view P nu nb cb ds" and "dlg_ok Q (nb w) (cb w) ds'" "dlg_ext (cb w) (ds w) ds'"
  shows "pm_view (P(w := Q)) nu nb cb (ds(w := ds'))"
proof -
  have "\<And>c. c \<in> set (cb w) \<Longrightarrow> 0 < c_ID c" using pm_viewD(3) [OF v, of w] by (auto simp: box_ok_def)
  then have "receipts cb (ds(w := ds'))" by (rule receipts_dialogs [OF pm_viewD(6,5) [OF v] assms(3)])
  with v assms(2) show ?thesis by (auto simp: pm_view_def)
qed

subsection \<open>Removing and replacing messages\<close>

lemma dlg_ok_shrink:
  assumes "dlg_ok P nb cs ds" "set cs' \<subseteq> set cs" "\<And>c. c \<in> set cs \<Longrightarrow> c \<notin> set cs' \<Longrightarrow> c_Peer c \<in> Q"
  shows "dlg_ok (P \<union> Q) nb cs' ds"
proof -
  have same: "c \<in> set cs' \<longleftrightarrow> c \<in> set cs" if "c_Peer c \<notin> P \<union> Q" for c using assms(2,3) that by blast
  have u: "unread_set p r cs' = unread_set p r cs" if "p \<notin> P \<union> Q" for p r using same that by (auto simp: unread_set_def)
  have t: "top_of p t cs' \<longleftrightarrow> top_of p t cs" if "p \<notin> P \<union> Q" for p t using same that unfolding top_of_def by blast
  show ?thesis using assms(1,2) u t by (auto simp: dlg_ok_def)
qed

lemma pm_view_shrink:
  assumes v: "pm_view P nu nb cb ds"
    and "\<And>u. \<exists>Q. cb' u = filter Q (cb u) \<and> (\<forall>c \<in> set (cb u). \<not> Q c \<longrightarrow> c_Peer c \<in> R u)"
  shows "pm_view (\<lambda>u. P u \<union> R u) nu nb cb' ds"
proof -
  have sub: "set (cb' u) \<subseteq> set (cb u)" for u using assms(2) [of u] by auto
  have "box_ok (nb u) nu (cb' u)" for u using assms(2) [of u] pm_viewD(3) [OF v, of u] box_ok_filter by fastforce
  moreover have "dlg_ok (P u \<union> R u) (nb u) (cb' u) (ds u)" for u
    using assms(2) [of u] by (intro dlg_ok_shrink [OF pm_viewD(4) [OF v, of u] sub [of u]]) auto
  moreover have "copies cb'"
    by (rule copiesI) (meson copiesD [OF pm_viewD(5) [OF v]] sub subsetD)
  moreover have "receipts cb' ds"
    by (rule receiptsI) (meson receiptsE [OF pm_viewD(6) [OF v]] sub subsetD)
  ultimately show ?thesis using v by (simp add: pm_view_def)
qed

lemma pm_view_replace:
  assumes v: "pm_view P nu nb cb ds" and w: "cb w = xs @ c # ys"
    and c': "c_ID c' = c_ID c" "c_UID c' = c_UID c" "c_Peer c' = c_Peer c" "c_Out c'"
  shows "pm_view (P(w := insert (c_Peer c) (P w))) nu nb (cb(w := xs @ c' # ys)) ds"
proof -
  let ?cb = "cb(w := xs @ c' # ys)"
  have keep: "\<exists>e' \<in> set (cb u). c_ID e' = c_ID e \<and> c_UID e' = c_UID e \<and> c_Peer e' = c_Peer e" if "e \<in> set (?cb u)" for u e
    using that w c' by (auto split: if_splits)
  have "box_ok (nb w) nu (xs @ c' # ys)" using pm_viewD(3) [OF v, of w] w c' by (auto intro: box_ok_replace)
  moreover have "dlg_ok (insert (c_Peer c) (P w)) (nb w) (xs @ c' # ys) (ds w)"
  proof -
    have same: "e \<in> set (xs @ c' # ys) \<longleftrightarrow> e \<in> set (cb w)" if "c_Peer e \<noteq> c_Peer c" for e using w c' that by auto
    have u: "unread_set p r (xs @ c' # ys) = unread_set p r (cb w)" if "p \<noteq> c_Peer c" for p r using same that by (auto simp: unread_set_def)
    have t: "top_of p t (xs @ c' # ys) \<longleftrightarrow> top_of p t (cb w)" if "p \<noteq> c_Peer c" for p t using same that unfolding top_of_def by blast
    have "c_Peer e \<in> dg_Peer ` set (ds w)" if e: "e \<in> set (xs @ c' # ys)" for e
    proof -
      obtain e' where "e' \<in> set (cb w)" "c_Peer e' = c_Peer e" using keep [of e w] e by auto
      then show ?thesis using pm_viewD(4) [OF v, of w] by (metis dlg_ok_def)
    qed
    then show ?thesis using pm_viewD(4) [OF v, of w] u t by (simp add: dlg_ok_def)
  qed
  moreover have "copies ?cb"
  proof (rule copiesI)
    fix u v a b assume h: "u \<noteq> v" "a \<in> set (?cb u)" "b \<in> set (?cb v)" "c_UID a = c_UID b"
    then show "c_Peer a = user_peer v \<and> c_Peer b = user_peer u"
      using keep [OF h(2)] keep [OF h(3)] copiesD [OF pm_viewD(5) [OF v] h(1)] by metis
  qed
  moreover have "receipts ?cb ds"
  proof (rule receiptsI)
    fix u v a b d assume h: "u \<noteq> v" "a \<in> set (?cb u)" "b \<in> set (?cb v)" "d \<in> set (ds u)" "c_UID a = c_UID b"
      "dg_Peer d = user_peer v" "c_ID a \<le> dg_ReadOutboxMaxID d"
    obtain a' b' where "a' \<in> set (cb u)" "b' \<in> set (cb v)" "c_UID a' = c_UID a" "c_UID b' = c_UID b" "c_ID a' = c_ID a" "c_ID b' = c_ID b"
      using keep [OF h(2)] keep [OF h(3)] by metis
    then show "\<exists>d' \<in> set (ds v). dg_Peer d' = user_peer u \<and> c_ID b \<le> dg_ReadInboxMaxID d'"
      using receiptsE [OF pm_viewD(6) [OF v] h(1), of a' b' d] h(4-7) by metis
  qed
  ultimately show ?thesis using v by (simp add: pm_view_def)
qed

subsection \<open>Adding a message\<close>

lemma pm_view_add:
  assumes v: "pm_view P nu nb cb ds" and b: "box_ok (nb w + 1) nu' (cb w @ [c])" and nu: "nu \<le> nu'" and id: "c_ID c = nb w + 1"
    and d: "dlg_ok (P w) (nb w + 1) (cb w @ [c]) ds'" and x: "dlg_ext (cb w @ [c]) (ds w) ds'"
    and other: "\<And>u a. u \<noteq> w \<Longrightarrow> a \<in> set (cb u) \<Longrightarrow> c_UID a = c_UID c \<Longrightarrow>
        c_Peer a = user_peer w \<and> c_Peer c = user_peer u \<and> (\<forall>d \<in> set (ds u). dg_ReadOutboxMaxID d < c_ID a)"
  shows "pm_view P nu' (nb(w := nb w + 1)) (cb(w := cb w @ [c])) (ds(w := ds'))"
proof -
  let ?cb = "cb(w := cb w @ [c])"
  have lim: "dg_ReadOutboxMaxID e \<le> nb w" if "e \<in> set (ds w)" for e using pm_viewD(4) [OF v, of w] that by (auto simp: dlg_ok_def)
  have C: "copies ?cb"
  proof (rule copiesI)
    fix u v a b assume h: "u \<noteq> v" "a \<in> set (?cb u)" "b \<in> set (?cb v)" "c_UID a = c_UID b"
    consider "a \<in> set (cb u)" "b \<in> set (cb v)" | "u = w" "a = c" "b \<in> set (cb v)" | "v = w" "b = c" "a \<in> set (cb u)"
      using h(1-3) by (auto split: if_splits)
    then show "c_Peer a = user_peer v \<and> c_Peer b = user_peer u"
    proof cases
      case 1 then show ?thesis by (rule copiesD [OF pm_viewD(5) [OF v] h(1) _ _ h(4)])
    next
      case 2 then show ?thesis using other [of v b] h(1,4) by auto
    next
      case 3 then show ?thesis using other [of u a] h(1,4) by auto
    qed
  qed
  have R0: "receipts ?cb ds"
  proof (rule receiptsI)
    fix u v a b d assume h: "u \<noteq> v" "a \<in> set (?cb u)" "b \<in> set (?cb v)" "d \<in> set (ds u)" "c_UID a = c_UID b"
      "dg_Peer d = user_peer v" "c_ID a \<le> dg_ReadOutboxMaxID d"
    consider "a \<in> set (cb u)" "b \<in> set (cb v)" | "u = w" "a = c" | "v = w" "b = c" "a \<in> set (cb u)"
      using h(1-3) by (auto split: if_splits)
    then show "\<exists>d' \<in> set (ds v). dg_Peer d' = user_peer u \<and> c_ID b \<le> dg_ReadInboxMaxID d'"
    proof cases
      case 1 then show ?thesis using receiptsE [OF pm_viewD(6) [OF v] h(1) 1 h(4-7)] by metis
    next
      case 2 then show ?thesis using lim [of d] h(4,7) id by auto
    next
      case 3 then show ?thesis using other [of u a] h(1,4,5,7) by force
    qed
  qed
  have pos: "0 < c_ID e" if "e \<in> set (?cb w)" for e using b that by (auto simp: box_ok_def)
  have "receipts ?cb (ds(w := ds'))" by (rule receipts_dialogs [OF R0 C _ pos]) (use x in auto)
  moreover have "box_ok (nb u) nu' (cb u)" for u using pm_viewD(3) [OF v, of u] nu by (rule box_ok_mono)
  ultimately show ?thesis using v b d C nu by (auto simp: pm_view_def)
qed

section \<open>The operations on dialogs\<close>

lemma dialog_of:
  assumes "distinct (map dg_Peer ds)" "d \<in> set ds"
  shows "find (\<lambda>e. dg_Peer e = dg_Peer d) ds = Some d"
  using assms by (induction ds) (auto simp: image_iff)

lemma find_dialog:
  assumes "find (\<lambda>d. dg_Peer d = p) ds = Some d" shows "d \<in> set ds" "dg_Peer d = p"
  using assms by (auto simp: find_Some_iff)

lemma map_other: "p \<notin> dg_Peer ` set ds \<Longrightarrow> map (\<lambda>d. if dg_Peer d = p then f d else d) ds = ds"
  by (induction ds) auto

lemma change_first_map:
  assumes "distinct (map dg_Peer ds)"
  shows "change_first f p ds = map (\<lambda>d. if dg_Peer d = p then f d else d) ds"
  using assms by (induction ds) (auto simp: map_other)

lemma upsert_map:
  assumes "distinct (map dg_Peer ds)"
  shows "upsertMemoryDialog ds d = (if dg_Peer d \<in> dg_Peer ` set ds
     then map (\<lambda>e. if dg_Peer e = dg_Peer d then merge_dialog e d else e) ds else ds @ [d])"
  using assms by (induction ds) (auto simp: map_other)

lemma rebuild_scan_filter:
  assumes "distinct (map dg_Peer ds)"
  shows "rebuild_scan p tp ms n ds = (if fst tp = 0 then filter (\<lambda>d. dg_Peer d \<noteq> p) ds
     else map (\<lambda>d. if dg_Peer d = p then d\<lparr>dg_TopMessage := fst tp, dg_TopMessageDate := snd tp,
            dg_UnreadCount := n + incoming_unread p (dg_ReadInboxMaxID d) ms, dg_UnreadMentions := 0, dg_UnreadReactions := 0\<rparr> else d) ds)"
  using assms by (induction ds arbitrary: n) (auto simp: map_other Let_def image_iff)

lemma top_message_top:
  fixes ms :: "'x pm list"
  assumes "\<And>m. m \<in> set ms \<Longrightarrow> 0 < pm_ID m"
  shows "if \<exists>m \<in> set ms. pm_Peer m = p then top_of p (fst (top_message p ms)) (map core ms) \<and> 0 < fst (top_message p ms)
         else fst (top_message p ms) = 0"
  using assms
proof (induction ms rule: rev_induct)
  case Nil then show ?case by (simp add: top_message_def)
next
  case (snoc m ms)
  let ?t = "fst (top_message p ms)"
  have step: "fst (top_message p (ms @ [m])) = (if pm_Peer m = p \<and> pm_ID m > ?t then pm_ID m else ?t)"
    by (simp add: top_message_def split: prod.split)
  have "0 < pm_ID m" using snoc.prems by simp
  with snoc.IH snoc.prems show ?case unfolding step
    by (cases "\<exists>m \<in> set ms. pm_Peer m = p") (auto simp: top_of_def split: if_splits; force)+
qed

lemma dlg_okD:
  assumes "dlg_ok P nb cs ds"
  shows "distinct (map dg_Peer ds)"
    and "d \<in> set ds \<Longrightarrow> 0 \<le> dg_ReadInboxMaxID d" "d \<in> set ds \<Longrightarrow> dg_ReadInboxMaxID d \<le> nb"
    and "d \<in> set ds \<Longrightarrow> 0 \<le> dg_ReadOutboxMaxID d" "d \<in> set ds \<Longrightarrow> dg_ReadOutboxMaxID d \<le> nb"
    and "c \<in> set cs \<Longrightarrow> c_Peer c \<in> dg_Peer ` set ds"
    and "d \<in> set ds \<Longrightarrow> dg_Peer d \<notin> P \<Longrightarrow> top_of (dg_Peer d) (dg_TopMessage d) cs"
    and "d \<in> set ds \<Longrightarrow> dg_Peer d \<notin> P \<Longrightarrow> dg_UnreadCount d = int (card (unread_set (dg_Peer d) (dg_ReadInboxMaxID d) cs))"
  using assms by (auto simp: dlg_ok_def)

text \<open>Changing dialogs without changing their peers.\<close>

lemma map_dlg_ok:
  assumes d: "dlg_ok P nb cs ds" and peer: "\<And>d. dg_Peer (f d) = dg_Peer d"
    and lim: "\<And>d. d \<in> set ds \<Longrightarrow> dg_ReadInboxMaxID d \<le> dg_ReadInboxMaxID (f d) \<and> dg_ReadInboxMaxID (f d) \<le> nb'"
      "\<And>d. d \<in> set ds \<Longrightarrow> 0 \<le> dg_ReadOutboxMaxID (f d) \<and> dg_ReadOutboxMaxID (f d) \<le> nb'"
    and cs: "\<And>c. c \<in> set cs' \<Longrightarrow> c_Peer c \<in> dg_Peer ` set ds"
    and exact: "\<And>d. d \<in> set ds \<Longrightarrow> dg_Peer d \<notin> Q \<Longrightarrow> top_of (dg_Peer d) (dg_TopMessage (f d)) cs'
        \<and> dg_UnreadCount (f d) = int (card (unread_set (dg_Peer d) (dg_ReadInboxMaxID (f d)) cs'))"
  shows "dlg_ok Q nb' cs' (map f ds)"
proof -
  have "map dg_Peer (map f ds) = map dg_Peer ds" using peer by simp
  moreover have "dg_Peer ` set (map f ds) = dg_Peer ` set ds" using peer by (simp add: image_image)
  moreover have "0 \<le> dg_ReadInboxMaxID (f d)" if "d \<in> set ds" for d using lim(1) [OF that] dlg_okD(2) [OF d that] by simp
  ultimately show ?thesis using dlg_okD(1) [OF d] lim cs exact unfolding dlg_ok_def by (simp add: peer comp_def)
qed

lemma map_dlg_ext:
  assumes "\<And>d. dg_Peer (f d) = dg_Peer d" "\<And>d. d \<in> set ds \<Longrightarrow> dg_ReadInboxMaxID d \<le> dg_ReadInboxMaxID (f d)"
    "\<And>d. d \<in> set ds \<Longrightarrow> dg_ReadOutboxMaxID (f d) \<le> dg_ReadOutboxMaxID d"
  shows "dlg_ext cs ds (map f ds)"
  using assms unfolding dlg_ext_def by fastforce

lemma box_ids_pos: "box_ok nb nu (map core ms) \<Longrightarrow> m \<in> set ms \<Longrightarrow> 0 < pm_ID m"
  by (auto simp: box_ok_def)

lemma rebuild_dlg_ok:
  fixes ms :: "'x pm list" and p :: peer
  assumes d: "dlg_ok P nb (map core ms) ds" and b: "box_ok nb nu (map core ms)"
  defines "ds' \<equiv> rebuild_scan p (top_message p ms) ms 0 ds"
  shows "dlg_ok (P - {p}) nb (map core ms) ds'" "dlg_ext (map core ms) ds ds'"
proof -
  let ?cs = "map core ms"
  have t: "if \<exists>m \<in> set ms. pm_Peer m = p then top_of p (fst (top_message p ms)) ?cs \<and> 0 < fst (top_message p ms)
         else fst (top_message p ms) = 0" by (rule top_message_top) (rule box_ids_pos [OF b])
  have inc: "incoming_unread p r ms = int (card (unread_set p r ?cs))" for r
    by (rule incoming_unread_card) (rule box_ok_distinct [OF b])
  have "dlg_ok (P - {p}) nb ?cs ds' \<and> dlg_ext ?cs ds ds'"
  proof (cases "\<exists>m \<in> set ms. pm_Peer m = p")
    case True
    then have t: "top_of p (fst (top_message p ms)) ?cs" "fst (top_message p ms) \<noteq> 0" using t by auto
    have "dlg_ok (P - {p}) nb ?cs ds'" unfolding ds'_def rebuild_scan_filter [OF dlg_okD(1) [OF d]] if_not_P [OF t(2)]
      by (rule map_dlg_ok [OF d]) (use t in \<open>auto simp: inc dlg_okD [OF d] dlg_okD(6) [OF d, simplified]\<close>)
    moreover have "dlg_ext ?cs ds ds'" unfolding ds'_def rebuild_scan_filter [OF dlg_okD(1) [OF d]] if_not_P [OF t(2)]
      by (rule map_dlg_ext) auto
    ultimately show ?thesis ..
  next
    case False
    then have "ds' = filter (\<lambda>d. dg_Peer d \<noteq> p) ds" using t unfolding ds'_def rebuild_scan_filter [OF dlg_okD(1) [OF d]] by simp
    moreover have "p \<notin> c_Peer ` set ?cs" using False by force
    moreover have "pm_Peer m \<in> dg_Peer ` {x \<in> set ds. dg_Peer x \<noteq> p}" if "m \<in> set ms" for m
      using dlg_okD(6) [OF d, of "core m"] False that by force
    ultimately show ?thesis using d by (auto simp: dlg_ok_def dlg_ext_def distinct_map_filter)
  qed
  then show "dlg_ok (P - {p}) nb ?cs ds'" "dlg_ext ?cs ds ds'" by auto
qed

lemma advance_dlg_ok:
  assumes d: "dlg_ok P nb cs ds" and lim: "maxID \<le> nb" "\<And>c. c \<in> set cs \<Longrightarrow> c_Peer c = p \<Longrightarrow> c_ID c \<le> maxID"
  defines "ds' \<equiv> change_first (\<lambda>d. d\<lparr>dg_ReadInboxMaxID := (if dg_ReadInboxMaxID d < maxID then maxID else dg_ReadInboxMaxID d),
      dg_UnreadCount := 0, dg_UnreadMark := False, dg_UnreadMentions := 0, dg_UnreadReactions := 0\<rparr>) p ds"
  shows "dlg_ok P nb cs ds'" "dlg_ext cs ds ds'"
proof -
  have "unread_set p r cs = {}" if "maxID \<le> r" for r using lim(2) that by (fastforce simp: unread_set_def)
  then show "dlg_ok P nb cs ds'" unfolding ds'_def change_first_map [OF dlg_okD(1) [OF d]]
    by (intro map_dlg_ok [OF d]) (auto simp: lim(1) dlg_okD [OF d])
  show "dlg_ext cs ds ds'" unfolding ds'_def change_first_map [OF dlg_okD(1) [OF d]] by (rule map_dlg_ext) auto
qed

lemma read_dlg_ok:
  assumes d: "dlg_ok P nb cs ds" and lim: "r \<le> nb" "\<And>e. e \<in> set ds \<Longrightarrow> dg_Peer e = p \<Longrightarrow> dg_ReadInboxMaxID e \<le> r"
    and n: "n = int (card (unread_set p r cs))"
    and f: "\<And>e. e \<in> set ds \<Longrightarrow> dg_Peer e = p \<Longrightarrow>
      f e = e\<lparr>dg_ReadInboxMaxID := r, dg_UnreadCount := n, dg_UnreadMentions := 0, dg_UnreadMark := False\<rparr>"
  shows "dlg_ok P nb cs (change_first f p ds)" "dlg_ext cs ds (change_first f p ds)"
proof -
  let ?g = "\<lambda>e. if dg_Peer e = p then e\<lparr>dg_ReadInboxMaxID := r, dg_UnreadCount := n, dg_UnreadMentions := 0, dg_UnreadMark := False\<rparr> else e"
  have eq: "change_first f p ds = map ?g ds" unfolding change_first_map [OF dlg_okD(1) [OF d]] by (auto simp: f)
  show "dlg_ok P nb cs (change_first f p ds)" unfolding eq
    by (rule map_dlg_ok [OF d]) (auto simp: n lim dlg_okD [OF d])
  show "dlg_ext cs ds (change_first f p ds)" unfolding eq by (rule map_dlg_ext) (auto simp: n lim)
qed

section \<open>Sending\<close>

lemma merge_new [simp]:
  "dg_Peer (merge_dialog e (new_dialog p t date n)) = p"
  "dg_TopMessage (merge_dialog e (new_dialog p t date n)) = t"
  "dg_ReadInboxMaxID (merge_dialog e (new_dialog p t date n)) = dg_ReadInboxMaxID e"
  "dg_ReadOutboxMaxID (merge_dialog e (new_dialog p t date n)) = dg_ReadOutboxMaxID e"
  "dg_UnreadCount (merge_dialog e (new_dialog p t date n)) = (if n = 0 then dg_UnreadCount e else n)"
  by (simp_all add: merge_dialog_def new_dialog_def)

lemma new_dialog_simps [simp]:
  "dg_Peer (new_dialog p t date n) = p" "dg_TopMessage (new_dialog p t date n) = t" "dg_ReadInboxMaxID (new_dialog p t date n) = 0"
  "dg_ReadOutboxMaxID (new_dialog p t date n) = 0" "dg_UnreadCount (new_dialog p t date n) = n"
  by (simp_all add: new_dialog_def)

text \<open>A new message in a conversation whose dialog is brought up to date.\<close>

lemma upsert_dlg_ok:
  fixes date :: int
  assumes d: "dlg_ok {} nb cs ds" and b: "box_ok (nb + 1) nu (cs @ [c])" and id: "c_ID c = nb + 1"
    and n: "n = (if c_Out c then 0 else int (card (unread_set (c_Peer c) (read_max_of (c_Peer c) ds) (cs @ [c]))))"
  defines "ds' \<equiv> upsertMemoryDialog ds (new_dialog (c_Peer c) (c_ID c) date n)"
  shows "dlg_ok {} (nb + 1) (cs @ [c]) ds'" "dlg_ext (cs @ [c]) ds ds'"
proof -
  let ?p = "c_Peer c" and ?f = "\<lambda>e. if dg_Peer e = c_Peer c then merge_dialog e (new_dialog (c_Peer c) (c_ID c) date n) else e"
  have old: "0 < c_ID x \<and> c_ID x \<le> nb" if "x \<in> set cs" for x using b that id by (auto simp: box_ok_def sorted_wrt_append)
  have top: "top_of ?p (c_ID c) (cs @ [c])" using old id by (fastforce simp: top_of_def)
  have other: "unread_set p r (cs @ [c]) = unread_set p r cs" "top_of p t (cs @ [c]) \<longleftrightarrow> top_of p t cs" if "p \<noteq> ?p" for p r t
    using that by (auto simp: unread_set_def top_of_def)
  have own: "unread_set ?p r (cs @ [c]) = unread_set ?p r cs" if "c_Out c" for r using that by (auto simp: unread_set_def)
  have ne: "n \<noteq> 0" if "\<not> c_Out c" "read_max_of ?p ds \<le> nb"
  proof -
    have "c \<in> unread_set ?p (read_max_of ?p ds) (cs @ [c])" using that id by (simp add: unread_set_def)
    moreover have "finite (unread_set ?p (read_max_of ?p ds) (cs @ [c]))" by (simp add: unread_set_def)
    ultimately have "card (unread_set ?p (read_max_of ?p ds) (cs @ [c])) \<noteq> 0" by (metis card_0_eq empty_iff)
    then show ?thesis using n that(1) by simp
  qed
  have "dlg_ok {} (nb + 1) (cs @ [c]) ds' \<and> dlg_ext (cs @ [c]) ds ds'"
  proof (cases "?p \<in> dg_Peer ` set ds")
    case True
    then have ds': "ds' = map ?f ds" unfolding ds'_def upsert_map [OF dlg_okD(1) [OF d]] by simp
    have rm: "read_max_of ?p ds = dg_ReadInboxMaxID e" if "e \<in> set ds" "dg_Peer e = ?p" for e
      using dialog_of [OF dlg_okD(1) [OF d] that(1)] that(2) by (simp add: read_max_of_def)
    have "dlg_ok {} (nb + 1) (cs @ [c]) (map ?f ds)"
    proof (rule map_dlg_ok [OF d])
      fix e assume e: "e \<in> set ds" "dg_Peer e \<notin> {}"
      show "top_of (dg_Peer e) (dg_TopMessage (?f e)) (cs @ [c])
          \<and> dg_UnreadCount (?f e) = int (card (unread_set (dg_Peer e) (dg_ReadInboxMaxID (?f e)) (cs @ [c])))"
      proof (cases "dg_Peer e = ?p")
        case True
        have "dg_ReadInboxMaxID e \<le> nb" by (rule dlg_okD(3) [OF d e(1)])
        then have "dg_UnreadCount (?f e) = int (card (unread_set ?p (dg_ReadInboxMaxID e) (cs @ [c])))"
          using ne n rm [OF e(1) True] own dlg_okD(8) [OF d e(1)] True by (cases "c_Out c") (simp_all del: unread_set_append)
        with True top show ?thesis by (simp del: unread_set_append)
      qed (use other dlg_okD(7,8) [OF d e(1)] in \<open>simp del: unread_set_append\<close>)
    qed (use True in \<open>auto intro: dlg_okD [OF d] le_add_same_cancel1 [THEN iffD2] order_trans [OF dlg_okD(3) [OF d]] order_trans [OF dlg_okD(5) [OF d]]\<close>)
    then show ?thesis unfolding ds' by (auto intro!: map_dlg_ext)
  next
    case False
    then have ds': "ds' = ds @ [new_dialog ?p (c_ID c) date n]" unfolding ds'_def upsert_map [OF dlg_okD(1) [OF d]] by simp
    have none: "unread_set ?p r cs = {}" for r using False by (auto simp: unread_set_def) (metis dlg_okD(6) [OF d])
    have "find (\<lambda>d. dg_Peer d = ?p) ds = None" using False by (force simp: find_None_iff)
    then have "read_max_of ?p ds = 0" by (simp add: read_max_of_def)
    then have n': "n = int (card (unread_set ?p 0 (cs @ [c])))" using n none own by (cases "c_Out c") (simp_all del: unread_set_append)
    have "dg_Peer e \<noteq> ?p" if "e \<in> set ds" for e using False that by force
    moreover have "0 < nb + 1" using b id by (auto simp: box_ok_def)
    ultimately have "dlg_ok {} (nb + 1) (cs @ [c]) ds'" unfolding dlg_ok_def ds'
      using False top n' other dlg_okD [OF d] by (auto simp del: unread_set_append simp: add_increasing2)
    moreover have "dlg_ext (cs @ [c]) ds ds'" unfolding ds' dlg_ext_def by auto
    ultimately show ?thesis ..
  qed
  then show "dlg_ok {} (nb + 1) (cs @ [c]) ds'" "dlg_ext (cs @ [c]) ds ds'" by auto
qed

lemma dlg_ext_trans: "dlg_ext cs ds1 ds2 \<Longrightarrow> dlg_ext cs ds2 ds3 \<Longrightarrow> dlg_ext cs ds1 ds3"
proof -
  assume h: "dlg_ext cs ds1 ds2" "dlg_ext cs ds2 ds3"
  have "dg_ReadOutboxMaxID d \<le> 0 \<or> (\<exists>e \<in> set ds1. dg_Peer e = dg_Peer d \<and> dg_ReadOutboxMaxID d \<le> dg_ReadOutboxMaxID e)" if "d \<in> set ds3" for d
  proof -
    have "dg_ReadOutboxMaxID d \<le> 0 \<or> (\<exists>e \<in> set ds2. dg_Peer e = dg_Peer d \<and> dg_ReadOutboxMaxID d \<le> dg_ReadOutboxMaxID e)"
      using h(2) that by (simp add: dlg_ext_def)
    then show ?thesis using h(1) by (fastforce simp: dlg_ext_def)
  qed
  moreover have "\<exists>e \<in> set ds3. dg_Peer e = dg_Peer d \<and> dg_ReadInboxMaxID d \<le> dg_ReadInboxMaxID e"
    if d: "d \<in> set ds1" "dg_Peer d \<in> c_Peer ` set cs" for d
  proof -
    obtain d' where d': "d' \<in> set ds2" "dg_Peer d' = dg_Peer d" "dg_ReadInboxMaxID d \<le> dg_ReadInboxMaxID d'"
      using h(1) d unfolding dlg_ext_def by blast
    moreover obtain d'' where "d'' \<in> set ds3" "dg_Peer d'' = dg_Peer d'" "dg_ReadInboxMaxID d' \<le> dg_ReadInboxMaxID d''"
      using h(2) d' d(2) unfolding dlg_ext_def by metis
    ultimately show ?thesis by (intro bexI [of _ d'']) auto
  qed
  ultimately show ?thesis by (simp add: dlg_ext_def)
qed

lemma mark_dlg_ok:
  assumes d: "dlg_ok P nb cs ds"
  shows "dlg_ok P nb cs (change_first (\<lambda>d. d\<lparr>dg_UnreadMark := False\<rparr>) p ds)"
    and "dlg_ext cs ds (change_first (\<lambda>d. d\<lparr>dg_UnreadMark := False\<rparr>) p ds)"
  unfolding change_first_map [OF dlg_okD(1) [OF d]]
  by (rule map_dlg_ok [OF d], auto simp: dlg_okD [OF d]) (rule map_dlg_ext, auto)

lemma sender_message_simps [simp]:
  "pm_ID (sender_message req r s) = ms_nextBox s (sr_SenderUserID req) + 1" "pm_UID (sender_message req r s) = ms_nextUID s"
  "pm_Peer (sender_message req r s) = user_peer (sr_RecipientUserID req)" "pm_From (sender_message req r s) = user_peer (sr_SenderUserID req)"
  "pm_Out (sender_message req r s)" "pm_OwnerUserID (sender_message req r s) = sr_SenderUserID req"
  "pm_RandomID (sender_message req r s) = sr_RandomID req" "pm_Date (sender_message req r s) = sr_Date req"
  "pm_Pts (sender_message req r s) = staged_pts (sr_SenderUserID req) s"
  by (simp_all add: sender_message_def Let_def)

definition two_boxes :: "'x send_request \<Rightarrow> bool" where
  "two_boxes req \<longleftrightarrow> sr_SenderUserID req \<noteq> sr_RecipientUserID req \<and> \<not> sr_RecipientBlocked req"

lemma recipient_message_simps:
  assumes "two_boxes req"
  shows "pm_ID (recipient_message req r m s) = ms_nextBox s (sr_RecipientUserID req) + 1" "pm_UID (recipient_message req r m s) = pm_UID m"
    "pm_Peer (recipient_message req r m s) = user_peer (sr_SenderUserID req)" "pm_From (recipient_message req r m s) = pm_From m"
    "\<not> pm_Out (recipient_message req r m s)" "pm_OwnerUserID (recipient_message req r m s) = sr_RecipientUserID req"
    "pm_Date (recipient_message req r m s) = pm_Date m"
  using assms by (simp_all add: recipient_message_def two_boxes_def Let_def)

lemma recipient_message_one:
  assumes "\<not> two_boxes req"
  shows "recipient_message req r m s = (if sr_SenderUserID req = sr_RecipientUserID req then m else zero_pm)"
  using assms by (auto simp: recipient_message_def two_boxes_def Let_def)

lemma zero_pm_ID [simp]: "pm_ID zero_pm = 0" by (simp add: zero_pm_def)

text \<open>What a send does to the boxes and dialogs.\<close>

lemma commit_one:
  fixes req :: "'x send_request" and r r' :: "'x message_reply option" and fp snap :: string and s :: "'x message_store"
  assumes "\<not> two_boxes req" "0 \<le> ms_nextBox s (sr_SenderUserID req)"
  defines "u \<equiv> sr_SenderUserID req" and "a \<equiv> sender_message req r s"
  defines "s' \<equiv> commit_send req fp snap a (recipient_message req r' a s) s"
  shows "ms_nextUID s' = ms_nextUID s + 1" "ms_nextBox s' = (ms_nextBox s)(u := ms_nextBox s u + 1)"
    "ms_m s' = (ms_m s)(u := ms_m s u @ [a])"
    "ms_dialogs s' = (ms_dialogs s)(u := change_first (\<lambda>d. d\<lparr>dg_UnreadMark := False\<rparr>) (pm_Peer a)
       (upsertMemoryDialog (ms_dialogs s u) (new_dialog (pm_Peer a) (pm_ID a) (pm_Date a) 0)))"
  unfolding s'_def using assms(1,2)
  by (auto simp: commit_send_def recipient_message_one u_def a_def two_boxes_def Let_def set_box_def upsertMemoryDialogsLocked_def)

lemma commit_two:
  fixes req :: "'x send_request" and r r' :: "'x message_reply option" and fp snap :: string and s :: "'x message_store"
  assumes t: "two_boxes req" and "0 \<le> ms_nextBox s (sr_SenderUserID req)" "0 \<le> ms_nextBox s (sr_RecipientUserID req)"
  defines "u \<equiv> sr_SenderUserID req" and "v \<equiv> sr_RecipientUserID req" and "a \<equiv> sender_message req r s"
  defines "b \<equiv> recipient_message req r' a s"
  defines "s' \<equiv> commit_send req fp snap a b s"
  shows "ms_nextUID s' = ms_nextUID s + 1" "ms_nextBox s' = (ms_nextBox s)(u := ms_nextBox s u + 1, v := ms_nextBox s v + 1)"
    "ms_m s' = (ms_m s)(u := ms_m s u @ [a], v := ms_m s v @ [b])"
    "ms_dialogs s' = (ms_dialogs s)(u := change_first (\<lambda>d. d\<lparr>dg_UnreadMark := False\<rparr>) (pm_Peer a)
         (upsertMemoryDialog (ms_dialogs s u) (new_dialog (pm_Peer a) (pm_ID a) (pm_Date a) 0)),
       v := upsertMemoryDialog (ms_dialogs s v) (new_dialog (pm_Peer b) (pm_ID b) (pm_Date b)
         (incoming_unread (pm_Peer b) (read_max_of (pm_Peer b) (ms_dialogs s v)) (ms_m s v @ [b]))))"
  unfolding s'_def b_def using assms(1-3)
  by (auto simp: commit_send_def recipient_message_simps u_def v_def a_def two_boxes_def Let_def set_box_def upsertMemoryDialogsLocked_def
      privateUnreadCountLocked_def)

lemma pm_okD:
  assumes "pm_ok P s"
  shows "0 < ms_nextUID s" "0 \<le> ms_nextBox s u" "box_ok (ms_nextBox s u) (ms_nextUID s) (cores (ms_m s) u)"
    "dlg_ok (P u) (ms_nextBox s u) (cores (ms_m s) u) (ms_dialogs s u)"
    "copies (cores (ms_m s))" "receipts (cores (ms_m s)) (ms_dialogs s)"
  using pm_viewD [OF assms [unfolded pm_ok_def]] by auto

lemma read_out_lim:
  assumes "pm_ok P s" "d \<in> set (ms_dialogs s u)" shows "dg_ReadOutboxMaxID d \<le> ms_nextBox s u"
  by (rule dlg_okD(5) [OF pm_okD(4) [OF assms(1)] assms(2)])

lemma send_view_first:
  fixes r :: "'x message_reply option" and s :: "'x message_store" and req :: "'x send_request"
  assumes ok: "pm_ok (\<lambda>_. {}) s"
  defines "u \<equiv> sr_SenderUserID req" and "a \<equiv> sender_message req r s"
  defines "ds \<equiv> change_first (\<lambda>d. d\<lparr>dg_UnreadMark := False\<rparr>) (pm_Peer a)
       (upsertMemoryDialog (ms_dialogs s u) (new_dialog (pm_Peer a) (pm_ID a) (pm_Date a) 0))"
  shows "pm_view (\<lambda>_. {}) (ms_nextUID s + 1) ((ms_nextBox s)(u := ms_nextBox s u + 1))
      ((cores (ms_m s))(u := cores (ms_m s) u @ [core a])) ((ms_dialogs s)(u := ds))"
    and "\<forall>d \<in> set ds. dg_ReadOutboxMaxID d \<le> ms_nextBox s u"
proof -
  let ?cs = "cores (ms_m s) u"
  have b: "box_ok (ms_nextBox s u + 1) (ms_nextUID s + 1) (?cs @ [core a])"
    by (rule box_ok_append [OF pm_okD(3) [OF ok]]) (auto simp: a_def u_def pm_okD [OF ok])
  note up = upsert_dlg_ok [OF pm_okD(4) [OF ok, of u] b, of 0 "pm_Date a", unfolded core_simps]
  have d: "dlg_ok {} (ms_nextBox s u + 1) (?cs @ [core a]) ds" unfolding ds_def
    by (rule mark_dlg_ok(1) [OF up(1)]) (auto simp: a_def u_def)
  have x: "dlg_ext (?cs @ [core a]) (ms_dialogs s u) ds" unfolding ds_def
    by (rule dlg_ext_trans [OF up(2) mark_dlg_ok(2) [OF up(1)]]) (auto simp: a_def u_def)
  show "pm_view (\<lambda>_. {}) (ms_nextUID s + 1) ((ms_nextBox s)(u := ms_nextBox s u + 1))
      ((cores (ms_m s))(u := cores (ms_m s) u @ [core a])) ((ms_dialogs s)(u := ds))"
  proof (rule pm_view_add [OF ok [unfolded pm_ok_def] b _ _ d x])
    fix v e assume "v \<noteq> u" "e \<in> set (cores (ms_m s) v)" "c_UID e = c_UID (core a)"
    then have False using pm_okD(3) [OF ok, of v] by (fastforce simp: box_ok_def a_def)
    then show "c_Peer e = user_peer u \<and> c_Peer (core a) = user_peer v \<and> (\<forall>d \<in> set (ms_dialogs s v). dg_ReadOutboxMaxID d < c_ID e)" ..
  qed (auto simp: a_def u_def)
  show "\<forall>d \<in> set ds. dg_ReadOutboxMaxID d \<le> ms_nextBox s u"
  proof
    fix d assume "d \<in> set ds"
    then have "dg_ReadOutboxMaxID d \<le> 0 \<or> (\<exists>e \<in> set (ms_dialogs s u). dg_ReadOutboxMaxID d \<le> dg_ReadOutboxMaxID e)"
      using x by (auto simp: dlg_ext_def)
    then show "dg_ReadOutboxMaxID d \<le> ms_nextBox s u"
      using read_out_lim [OF ok, of _ u] pm_okD(2) [OF ok, of u] by (meson order_trans)
  qed
qed

lemma send_ok_two:
  fixes s :: "'x message_store" and req :: "'x send_request"
  assumes ok: "pm_ok (\<lambda>_. {}) s" and t: "two_boxes req"
  shows "pm_ok (\<lambda>_. {}) (commit_send req fp snap (sender_message req r s) (recipient_message req r' (sender_message req r s) s) s)"
proof -
  define u v a b where "u = sr_SenderUserID req" "v = sr_RecipientUserID req" "a = sender_message req r s"
    "b = recipient_message req r' a s"
  note defs = this
  have uv: "u \<noteq> v" using t by (simp add: two_boxes_def defs)
  have b': "pm_ID b = ms_nextBox s v + 1" "pm_UID b = ms_nextUID s" "pm_Peer b = user_peer u" "pm_From b = user_peer u" "\<not> pm_Out b"
    using recipient_message_simps [OF t] by (auto simp: defs)
  let ?cs = "cores (ms_m s) v"
  let ?n = "incoming_unread (pm_Peer b) (read_max_of (pm_Peer b) (ms_dialogs s v)) (ms_m s v @ [b])"
  note first = send_view_first [OF ok, of req r, folded defs]
  have bo: "box_ok (ms_nextBox s v + 1) (ms_nextUID s + 1) (?cs @ [core b])"
    by (rule box_ok_append [OF pm_okD(3) [OF ok]]) (auto simp: b' pm_okD [OF ok])
  have n: "?n = (if c_Out (core b) then 0 else int (card (unread_set (c_Peer (core b)) (read_max_of (c_Peer (core b)) (ms_dialogs s v)) (?cs @ [core b]))))"
    using incoming_unread_card [of "ms_m s v @ [b]"] box_ok_distinct [OF bo] b' by (simp add: cores_def)
  note up = upsert_dlg_ok [OF pm_okD(4) [OF ok, of v] bo _ n, of "pm_Date b", unfolded core_simps]
  have "pm_view (\<lambda>_. {}) (ms_nextUID s + 1) (((ms_nextBox s)(u := ms_nextBox s u + 1))(v := ms_nextBox s v + 1))
      (((cores (ms_m s))(u := cores (ms_m s) u @ [core a]))(v := ?cs @ [core b]))
      (((ms_dialogs s)(u := change_first (\<lambda>d. d\<lparr>dg_UnreadMark := False\<rparr>) (pm_Peer a)
         (upsertMemoryDialog (ms_dialogs s u) (new_dialog (pm_Peer a) (pm_ID a) (pm_Date a) 0))))(v :=
       upsertMemoryDialog (ms_dialogs s v) (new_dialog (pm_Peer b) (pm_ID b) (pm_Date b) ?n)))"
    (is "pm_view _ _ _ _ ((?D)(v := ?d))")
  proof -
    have other: "c_Peer e = user_peer v \<and> c_Peer (core b) = user_peer w \<and> (\<forall>d \<in> set (?D w). dg_ReadOutboxMaxID d < c_ID e)"
      if "w \<noteq> v" "e \<in> set (((cores (ms_m s))(u := cores (ms_m s) u @ [core a])) w)" "c_UID e = c_UID (core b)" for w e
    proof -
      have old: "c_UID x < ms_nextUID s" if "x \<in> set (cores (ms_m s) w)" for x w using pm_okD(3) [OF ok, of w] that by (auto simp: box_ok_def)
      have "e \<notin> set (cores (ms_m s) w)" using old [of e w] that(3) b'(2) by auto
      then have e: "w = u" "e = core a" using that(2) by (auto split: if_splits)
      moreover have "c_Peer (core a) = user_peer v" "c_ID (core a) = ms_nextBox s u + 1" by (simp_all add: defs)
      ultimately show ?thesis using first(2) b'(3) by (simp add: zless_add1_eq order_le_less [symmetric] del: set_map)
    qed
    have at: "((ms_nextBox s)(u := ms_nextBox s u + 1)) v = ms_nextBox s v" "((cores (ms_m s))(u := cores (ms_m s) u @ [core a])) v = ?cs"
      "?D v = ms_dialogs s v" using uv by auto
    show ?thesis
      by (rule pm_view_add [OF first(1), of v, unfolded at, OF bo _ _ _ _ other, unfolded at])
        (use up b' in auto)
  qed
  then show ?thesis unfolding pm_ok_def using commit_two [OF t, of s fp snap r r'] pm_okD(2) [OF ok] uv
    by (simp add: defs fun_upd_twist cores_def)
qed

lemma send_ok:
  fixes s :: "'x message_store" and req :: "'x send_request"
  assumes ok: "pm_ok (\<lambda>_. {}) s"
  shows "pm_ok (\<lambda>_. {}) (commit_send req fp snap (sender_message req r s) (recipient_message req r' (sender_message req r s) s) s)"
proof (cases "two_boxes req")
  case False
  show ?thesis unfolding pm_ok_def using commit_one [OF False pm_okD(2) [OF ok], of fp snap r r'] send_view_first(1) [OF ok, of req r]
    by (simp add: cores_def)
qed (rule send_ok_two [OF ok])

lemma sendPrivateTextLocked_cases:
  obtains "fst (sendPrivateTextLocked env now req fp s) = s"
  | r r' snap req' where "ms_dedup s (sr_SenderUserID req, sr_RandomID req) = None"
      "req' = (if sr_Date req = 0 then req\<lparr>sr_Date := now\<rparr> else req)"
      "sr_RandomID req \<noteq> 0 \<Longrightarrow> EncodePrivateSendSnapshot env (sender_message req' r s) = Some snap"
      "fst (sendPrivateTextLocked env now req fp s) =
         commit_send req' fp snap (sender_message req' r s) (recipient_message req' r' (sender_message req' r s) s) s"
      "snd (sendPrivateTextLocked env now req fp s) = Inr \<lparr>sd_SenderMessage = sender_message req' r s,
         sd_RecipientMessage = recipient_message req' r' (sender_message req' r s) s,
         sd_SenderEvent = newMessageEvent (sender_message req' r s),
         sd_RecipientEvent = newMessageEvent (recipient_message req' r' (sender_message req' r s) s), sd_Duplicate = False, sd_ReplayDeleteEvent = None\<rparr>"
  unfolding sendPrivateTextLocked_def lookupPrivateSendReplayLocked_def Let_def
  by (cases "ms_dedup s (sr_SenderUserID req, sr_RandomID req)"; cases "sr_RandomID req = 0"; cases "sr_Date req = 0")
    (fastforce split: option.splits sum.splits prod.splits if_splits)+

lemma SendPrivateText_ok: "pm_ok (\<lambda>_. {}) s \<Longrightarrow> pm_ok (\<lambda>_. {}) (fst (SendPrivateText env now req s))"
  by (auto simp: SendPrivateText_def split: option.split) (metis sendPrivateTextLocked_cases send_ok)

section \<open>Reading\<close>

lemma pm_view_outbox:
  assumes v: "pm_view P nu nb cb ds" and uv: "u \<noteq> w" and a0: "a0 \<in> set (cb u)" and b0: "b0 \<in> set (cb w)" "c_UID a0 = c_UID b0"
    and d0: "d0 \<in> set (ds w)" "dg_Peer d0 = user_peer u" "c_ID b0 \<le> dg_ReadInboxMaxID d0"
  shows "pm_view P nu nb cb (ds(u := change_first (\<lambda>d. d\<lparr>dg_ReadOutboxMaxID := c_ID a0\<rparr>) (user_peer w) (ds u)))"
proof -
  note d = pm_viewD(4) [OF v, of u]
  let ?f = "\<lambda>d. if dg_Peer d = user_peer w then d\<lparr>dg_ReadOutboxMaxID := c_ID a0\<rparr> else d"
  let ?D = "ds(u := map ?f (ds u))"
  have id: "0 < c_ID a0" "c_ID a0 \<le> nb u" using pm_viewD(3) [OF v, of u] a0 by (auto simp: box_ok_def)
  have f: "dg_Peer (?f d) = dg_Peer d" "dg_ReadInboxMaxID (?f d) = dg_ReadInboxMaxID d" "dg_TopMessage (?f d) = dg_TopMessage d"
    "dg_UnreadCount (?f d) = dg_UnreadCount d" for d by auto
  have "dlg_ok (P u) (nb u) (cb u) (map ?f (ds u))"
    by (rule map_dlg_ok [OF d]) (use id in \<open>auto simp: dlg_okD [OF d] dest: dlg_okD(7,8) [OF d]\<close>)
  moreover have "receipts cb ?D"
  proof (rule receiptsI)
    fix x y a b d assume h: "x \<noteq> y" "a \<in> set (cb x)" "b \<in> set (cb y)" "d \<in> set (?D x)" "c_UID a = c_UID b"
      "dg_Peer d = user_peer y" "c_ID a \<le> dg_ReadOutboxMaxID d"
    have "\<exists>d' \<in> set (ds y). dg_Peer d' = user_peer x \<and> c_ID b \<le> dg_ReadInboxMaxID d'"
    proof (cases "x = u \<and> y = w")
      case True
      then obtain e where "e \<in> set (ds u)" "d = ?f e" using h(4) by auto
      then have "c_ID a \<le> c_ID a0" using h(6,7) True by (auto split: if_splits)
      then have "c_UID a \<le> c_UID a0" using box_order [OF pm_viewD(3) [OF v, of u] a0, of a] h(2) True by force
      then have "c_ID b \<le> c_ID b0" using box_order [OF pm_viewD(3) [OF v, of w] b0(1), of b] h(3,5) b0(2) True by force
      then show ?thesis using d0 True by fastforce
    next
      case False
      then have "d \<in> set (ds x)" using h(4,6) by (auto split: if_splits)
      then show ?thesis using receiptsE [OF pm_viewD(6) [OF v] h(1,2,3) _ h(5,6,7)] by metis
    qed
    then obtain e where "e \<in> set (ds y)" "dg_Peer e = user_peer x" "c_ID b \<le> dg_ReadInboxMaxID e" by blast
    then show "\<exists>d' \<in> set (?D y). dg_Peer d' = user_peer x \<and> c_ID b \<le> dg_ReadInboxMaxID d'"
      by (intro bexI [of _ "if y = u then ?f e else e"]) auto
  qed
  ultimately show ?thesis unfolding change_first_map [OF dlg_okD(1) [OF d]] using v by (simp add: pm_view_def)
qed

lemma latest_incoming_in:
  assumes "pm_ID (latest_incoming p oldRead readMax ms) \<noteq> 0"
  shows "latest_incoming p oldRead readMax ms \<in> set ms" "pm_Peer (latest_incoming p oldRead readMax ms) = p"
    "\<not> pm_Out (latest_incoming p oldRead readMax ms)" "pm_ID (latest_incoming p oldRead readMax ms) \<le> readMax"
proof -
  let ?P = "\<lambda>ms m. m = zero_pm \<or> (m \<in> set ms \<and> pm_Peer m = p \<and> \<not> pm_Out m \<and> pm_ID m \<le> readMax)"
  have "?P ms (latest_incoming p oldRead readMax ms)"
  proof (induction ms rule: rev_induct)
    case Nil then show ?case by (simp add: latest_incoming_def)
  next
    case (snoc x ms)
    then show ?case unfolding latest_incoming_def fold_append fold.simps comp_apply id_apply by auto
  qed
  with assms show "latest_incoming p oldRead readMax ms \<in> set ms" "pm_Peer (latest_incoming p oldRead readMax ms) = p"
    "\<not> pm_Out (latest_incoming p oldRead readMax ms)" "pm_ID (latest_incoming p oldRead readMax ms) \<le> readMax" by auto
qed

text \<open>The receipt keeps the boxes; it moves the sender's mark to the copy of the latest message read.\<close>

lemma read_receipt_ok:
  fixes s :: "'x message_store"
  assumes ok: "pm_ok P s" and m: "pm_ID m \<noteq> 0 \<Longrightarrow> m \<in> set (ms_m s owner) \<and> \<not> pm_Out m"
    and d0: "pm_ID m \<noteq> 0 \<Longrightarrow> \<exists>d \<in> set (ms_dialogs s owner). dg_Peer d = pm_Peer m \<and> pm_ID m \<le> dg_ReadInboxMaxID d"
  shows "pm_ok P (fst (read_receipt owner date m res s))" "ms_m (fst (read_receipt owner date m res s)) = ms_m s"
    "ms_nextBox (fst (read_receipt owner date m res s)) = ms_nextBox s" "ms_dedup (fst (read_receipt owner date m res s)) = ms_dedup s"
    "ms_users (fst (read_receipt owner date m res s)) = ms_users s"
proof -
  let ?u = "peer_id (pm_From m)" and ?box = "sender_box_id (pm_UID m) (ms_m s (peer_id (pm_From m)))"
  show "pm_ok P (fst (read_receipt owner date m res s))"
  proof (cases "pm_ID m = 0 \<or> ?u = 0 \<or> ?u = owner \<or> \<not> ?box > 0")
    case False
    then have mm: "m \<in> set (ms_m s owner)" "\<not> pm_Out m" using m by auto
    have "pm_From m = pm_Peer m" "peer_type (pm_Peer m) = PeerTypeUser"
      using pm_okD(3) [OF ok, of owner] mm by (auto simp: box_ok_def cores_def)
    then have p: "pm_Peer m = user_peer ?u" by (simp add: peer.equality)
    obtain a where a: "find (\<lambda>x. pm_UID x = pm_UID m \<and> pm_Out x) (ms_m s ?u) = Some a" "?box = pm_ID a"
      using False by (auto simp: sender_box_id_def split: option.splits)
    then have a': "a \<in> set (ms_m s ?u)" "pm_UID a = pm_UID m" by (auto simp: find_Some_iff)
    obtain d where d: "d \<in> set (ms_dialogs s owner)" "dg_Peer d = user_peer ?u" "pm_ID m \<le> dg_ReadInboxMaxID d" using d0 False p by auto
    have "pm_view P (ms_nextUID s) (ms_nextBox s) (cores (ms_m s))
        ((ms_dialogs s)(?u := change_first (\<lambda>d. d\<lparr>dg_ReadOutboxMaxID := c_ID (core a)\<rparr>) (user_peer owner) (ms_dialogs s ?u)))"
      by (rule pm_view_outbox [OF ok [unfolded pm_ok_def], where ?b0.0 = "core m" and ?d0.0 = d])
        (use False a' mm d in \<open>auto simp: cores_def\<close>)
    then show ?thesis using ok False a(2)
      by (simp add: read_receipt_def Let_def nextPtsLocked_def pm_ok_def split: option.split)
  qed (use ok in \<open>auto simp: read_receipt_def Let_def\<close>)
  show "ms_m (fst (read_receipt owner date m res s)) = ms_m s" "ms_nextBox (fst (read_receipt owner date m res s)) = ms_nextBox s"
    "ms_dedup (fst (read_receipt owner date m res s)) = ms_dedup s" "ms_users (fst (read_receipt owner date m res s)) = ms_users s"
    by (auto simp: read_receipt_def Let_def nextPtsLocked_def split: option.split)
qed

lemma pm_ok_dialogs:
  assumes ok: "pm_ok P s" and "dlg_ok (P w) (ms_nextBox s w) (cores (ms_m s) w) ds'" "dlg_ext (cores (ms_m s) w) (ms_dialogs s w) ds'"
    and s': "ms_m s' = ms_m s" "ms_nextUID s' = ms_nextUID s" "ms_nextBox s' = ms_nextBox s" "ms_dialogs s' = (ms_dialogs s)(w := ds')"
  shows "pm_ok P s'"
  using pm_view_dialogs [OF ok [unfolded pm_ok_def] assms(2,3)] s' by (simp add: pm_ok_def)

lemma ReadHistory_ok:
  fixes s :: "'x message_store"
  assumes ok: "pm_ok (\<lambda>_. {}) s"
  shows "pm_ok (\<lambda>_. {}) (fst (ReadHistory now owner p maxID date s))"
proof (cases "owner = 0 \<or> peer_id p = 0 \<or> find (\<lambda>d. dg_Peer d = p) (ms_dialogs s owner) = None")
  case False
  then obtain d where d: "find (\<lambda>d. dg_Peer d = p) (ms_dialogs s owner) = Some d" by auto
  note dd = find_dialog [OF d]
  note dok = pm_okD(4) [OF ok, of owner]
  have inc: "incoming_unread p r (ms_m s owner) = int (card (unread_set p r (cores (ms_m s) owner)))" for r
    unfolding cores_def by (rule incoming_unread_card) (use box_ok_distinct [OF pm_okD(3) [OF ok, of owner]] in \<open>simp add: cores_def\<close>)
  have uniq: "e = d" if "e \<in> set (ms_dialogs s owner)" "dg_Peer e = p" for e
    using dialog_of [OF dlg_okD(1) [OF dok] that(1)] that(2) d by simp
  have "top_of p (dg_TopMessage d) (cores (ms_m s) owner)" using dlg_okD(7) [OF dok dd(1)] dd(2) by simp
  then have top: "dg_TopMessage d \<le> ms_nextBox s owner" using pm_okD(3) [OF ok, of owner] by (auto simp: top_of_def box_ok_def)
  define rm where "rm = (let r = (if maxID \<le> 0 then dg_TopMessage d else maxID) in if r > dg_TopMessage d then dg_TopMessage d else r)"
  show ?thesis
  proof (cases "rm > dg_ReadInboxMaxID d")
    case True
    let ?n = "incoming_unread p rm (ms_m s owner)"
    let ?f = "\<lambda>d. d\<lparr>dg_ReadInboxMaxID := rm, dg_UnreadCount := ?n, dg_UnreadMentions := 0, dg_UnreadMark := False\<rparr>"
    let ?ds = "change_first ?f p (ms_dialogs s owner)"
    let ?s1 = "s\<lparr>ms_nextPts := (ms_nextPts s)(owner := ms_nextPts s owner + 1), ms_dialogs := (ms_dialogs s)(owner := ?ds)\<rparr>"
    have lim: "rm \<le> ms_nextBox s owner" using top by (auto simp: rm_def Let_def)
    have "pm_ok (\<lambda>_. {}) ?s1"
      by (rule pm_ok_dialogs [OF ok, of owner ?ds]; (rule read_dlg_ok [OF dok lim _ inc])?) (use uniq True in auto)
    moreover have "\<exists>e \<in> set ?ds. dg_Peer e = p \<and> dg_ReadInboxMaxID e = rm"
      unfolding change_first_map [OF dlg_okD(1) [OF dok]] using dd by (intro bexI [of _ "?f d"]) (auto intro!: image_eqI [of _ _ d])
    ultimately have "pm_ok (\<lambda>_. {}) (fst (read_receipt owner date' (latest_incoming p (dg_ReadInboxMaxID d) rm (ms_m s owner)) res ?s1))" for date' res
      using latest_incoming_in [of p "dg_ReadInboxMaxID d" rm "ms_m s owner"] by (intro read_receipt_ok(1)) auto
    then show ?thesis using False d True by (simp add: ReadHistory_def Let_def rm_def nextPtsLocked_def)
  next
    case False2: False
    let ?n = "incoming_unread p (dg_ReadInboxMaxID d) (ms_m s owner)"
    have "pm_ok (\<lambda>_. {}) (s\<lparr>ms_dialogs := (ms_dialogs s)(owner := change_first
        (\<lambda>d. d\<lparr>dg_UnreadCount := ?n, dg_UnreadMentions := 0, dg_UnreadMark := False\<rparr>) p (ms_dialogs s owner))\<rparr>)"
      by (rule pm_ok_dialogs [OF ok, of owner]; (rule read_dlg_ok [OF dok dlg_okD(3) [OF dok dd(1)] _ inc])?) (use uniq in auto)
    then show ?thesis using ok False d False2 by (simp add: ReadHistory_def Let_def rm_def)
  qed
qed (use ok in \<open>auto simp: ReadHistory_def Let_def\<close>)

section \<open>Editing\<close>

lemma edit_box_core: "map core (fst (edit_box req target pts ms)) = map core ms"
  by (induction ms arbitrary: pts) (simp_all add: Let_def edited_message_def core_def case_prod_beta)

lemma edit_user_frame:
  "cores (ms_m (fst (edit_user req target u s))) = cores (ms_m s)" "ms_nextUID (fst (edit_user req target u s)) = ms_nextUID s"
  "ms_nextBox (fst (edit_user req target u s)) = ms_nextBox s" "ms_dialogs (fst (edit_user req target u s)) = ms_dialogs s"
  "ms_users (fst (edit_user req target u s)) = ms_users s" "ms_dedup (fst (edit_user req target u s)) = ms_dedup s"
  using edit_box_core [of req target "ms_nextPts s u" "ms_m s u"]
  by (auto simp: edit_user_def cores_def fun_eq_iff split: prod.split)

lemma edit_step_eq: "edit_user req target u s = (s1, e) \<Longrightarrow> edit_step req target u (s, out) = (s1, out @ e)"
  by (simp add: edit_step_def)

lemma edit_steps_frame:
  assumes "fold (edit_step req target) us (s, out) = (s', out')"
  shows "cores (ms_m s') = cores (ms_m s) \<and> ms_nextUID s' = ms_nextUID s \<and> ms_nextBox s' = ms_nextBox s \<and> ms_dialogs s' = ms_dialogs s
    \<and> ms_users s' = ms_users s \<and> ms_dedup s' = ms_dedup s"
  using assms
proof (induction us arbitrary: s out)
  case (Cons u us)
  obtain s1 e where s1: "edit_user req target u s = (s1, e)" by fastforce
  with Cons.prems have "fold (edit_step req target) us (s1, out @ e) = (s', out')" by (simp add: edit_step_eq)
  from Cons.IH [OF this] show ?case using edit_user_frame [of req target u s] s1 by simp
qed simp

lemma EditMessage_cases:
  obtains (same) "fst (EditMessage now req s) = s"
  | (edited) target req' s1 edited where "req' = (if er_EditDate req = 0 then req\<lparr>er_EditDate := now\<rparr> else req)"
      "find (\<lambda>m. pm_ID m = er_ID req \<and> pm_Peer m = er_Peer req) (ms_m s (er_OwnerUserID req)) = Some target"
      "edit_everywhere req' target s = (s1, edited)" "fst (EditMessage now req s) = s1\<lparr>ms_messages := ms_m s1\<rparr>"
      "snd (EditMessage now req s) = Inr (sort_key fst edited)"
proof -
  define req' where "req' = (if er_EditDate req = 0 then req\<lparr>er_EditDate := now\<rparr> else req)"
  have id: "er_ID req' = er_ID req" "er_Peer req' = er_Peer req" "er_OwnerUserID req' = er_OwnerUserID req" by (simp_all add: req'_def)
  show ?thesis
  proof (cases "fst (EditMessage now req s) = s")
    case False
    show ?thesis
    proof (cases "find (\<lambda>m. pm_ID m = er_ID req \<and> pm_Peer m = er_Peer req) (ms_m s (er_OwnerUserID req))")
      case (Some target)
      obtain s1 es where ee: "edit_everywhere req' target s = (s1, es)" by fastforce
      have "EditMessage now req s = (s1\<lparr>ms_messages := ms_m s1\<rparr>, Inr (sort_key fst es))"
        using False Some ee unfolding EditMessage_def Let_def req'_def [symmetric] id by (simp split: if_splits option.splits)
      then show ?thesis by (intro edited [OF req'_def Some ee]) simp_all
    qed (use False in \<open>simp add: EditMessage_def Let_def req'_def [symmetric] id\<close>)
  qed (rule same)
qed

lemma EditMessage_ok:
  assumes "pm_ok P s" shows "pm_ok P (fst (EditMessage now req s))"
proof (cases rule: EditMessage_cases [of now req s])
  case (edited target req' s1 es)
  with edit_steps_frame [of req' target "ms_users s" s "[]" s1 es] assms show ?thesis
    by (simp add: pm_ok_def edit_everywhere_def)
qed (use assms in simp)

section \<open>Deleting\<close>

lemma deleteMemoryMessages_parts:
  assumes "distinct (map core ms)" "deleteMemoryMessages limit match n ms = (kept, gone, left_over)"
  shows "map core kept = filter (\<lambda>c. c \<in> core ` set kept) (map core ms) \<and> set ms = set kept \<union> set gone \<and> (\<forall>m \<in> set gone. match m)"
  using assms
proof (induction ms arbitrary: n kept gone left_over)
  case (Cons m ms)
  have notin: "\<And>x. x \<in> set ms \<Longrightarrow> core x \<noteq> core m" "distinct (map core ms)" using Cons.prems(1) by (auto simp: image_iff)
  have keep: ?case if "deleteMemoryMessages limit match n' ms = (k, gone, l)" "kept = m # k" for n' k l
  proof -
    from Cons.IH [OF notin(2) that(1)] have ih: "map core k = filter (\<lambda>c. c \<in> core ` set k) (map core ms)" "set ms = set k \<union> set gone"
      "\<forall>m \<in> set gone. match m" by auto
    have "filter (\<lambda>c. c \<in> core ` set kept) (map core ms) = filter (\<lambda>c. c \<in> core ` set k) (map core ms)"
      by (rule filter_cong [OF refl]) (use notin(1) that(2) in auto)
    with ih that(2) show ?thesis by auto
  qed
  have drop: ?case if "deleteMemoryMessages limit match n' ms = (kept, g, l)" "gone = m # g" "match m" for n' g l
  proof -
    from Cons.IH [OF notin(2) that(1)] have ih: "map core kept = filter (\<lambda>c. c \<in> core ` set kept) (map core ms)" "set ms = set kept \<union> set g"
      "\<forall>m \<in> set g. match m" by auto
    then have "core m \<notin> core ` set kept" using notin(1) by (metis UnI1 imageE)
    with ih that(2,3) show ?thesis by auto
  qed
  consider n' k l where "deleteMemoryMessages limit match n' ms = (k, gone, l)" "kept = m # k"
    | n' g l where "deleteMemoryMessages limit match n' ms = (kept, g, l)" "gone = m # g" "match m"
    using Cons.prems(2) by (auto split: if_splits prod.splits)
  then show ?case by cases (fact keep, fact drop)
qed simp

text \<open>Between the removal from the boxes and its completion.\<close>

definition removed :: "'x deleted_row list \<Rightarrow> 'x message_store \<Rightarrow> 'x message_store \<Rightarrow> bool" where
  "removed rows s s' \<longleftrightarrow> ms_nextUID s' = ms_nextUID s \<and> ms_nextBox s' = ms_nextBox s \<and> ms_dialogs s' = ms_dialogs s
     \<and> ms_dedup s' = ms_dedup s \<and> ms_nextPts s' = ms_nextPts s \<and> ms_events s' = ms_events s
     \<and> (\<forall>u. set (rows_of u rows) \<subseteq> set (ms_m s u) \<and> set (ms_m s' u) \<subseteq> set (ms_m s u)
          \<and> (\<exists>Q. cores (ms_m s') u = filter Q (cores (ms_m s) u)
               \<and> (\<forall>c \<in> set (cores (ms_m s) u). \<not> Q c \<longrightarrow> c \<in> core ` set (rows_of u rows))))"

lemma rows_of_append [simp]: "rows_of u (xs @ ys) = rows_of u xs @ rows_of u ys" by (simp add: rows_of_def)
lemma rows_of_Pair [simp]: "rows_of u (map (Pair w) ms) = (if w = u then ms else [])"
  by (induction ms) (auto simp: rows_of_def)
lemma rows_of_Nil [simp]: "rows_of u [] = []" by (simp add: rows_of_def)

lemma removed_refl [simp]: "removed [] s s" unfolding removed_def by (auto intro!: exI [of _ "\<lambda>_. True"])

lemma removed_trans:
  assumes "removed r1 s s1" "removed r2 s1 s2" shows "removed (r1 @ r2) s s2"
proof -
  have "\<exists>Q. cores (ms_m s2) u = filter Q (cores (ms_m s) u)
      \<and> (\<forall>c \<in> set (cores (ms_m s) u). \<not> Q c \<longrightarrow> c \<in> core ` set (rows_of u (r1 @ r2)))" for u
  proof -
    obtain Q1 where Q1: "cores (ms_m s1) u = filter Q1 (cores (ms_m s) u)"
      "\<forall>c \<in> set (cores (ms_m s) u). \<not> Q1 c \<longrightarrow> c \<in> core ` set (rows_of u r1)" using assms(1) unfolding removed_def by blast
    obtain Q2 where Q2: "cores (ms_m s2) u = filter Q2 (cores (ms_m s1) u)"
      "\<forall>c \<in> set (cores (ms_m s1) u). \<not> Q2 c \<longrightarrow> c \<in> core ` set (rows_of u r2)" using assms(2) unfolding removed_def by blast
    show ?thesis using Q1 Q2 by (intro exI [of _ "\<lambda>c. Q1 c \<and> Q2 c"]) (auto simp: filter_filter)
  qed
  moreover have "set (rows_of u (r1 @ r2)) \<subseteq> set (ms_m s u) \<and> set (ms_m s2 u) \<subseteq> set (ms_m s u)" for u
  proof -
    have "set (rows_of u r1) \<subseteq> set (ms_m s u)" "set (ms_m s1 u) \<subseteq> set (ms_m s u)" "set (rows_of u r2) \<subseteq> set (ms_m s1 u)"
      "set (ms_m s2 u) \<subseteq> set (ms_m s1 u)" using assms unfolding removed_def by blast+
    then show ?thesis by auto
  qed
  ultimately show ?thesis using assms by (simp add: removed_def)
qed

lemma removed_box:
  assumes "map core kept = filter Q (map core (ms_m s u))" "\<forall>c \<in> set (map core (ms_m s u)). \<not> Q c \<longrightarrow> c \<in> core ` set gone"
    "set gone \<subseteq> set (ms_m s u)" "set kept \<subseteq> set (ms_m s u)"
  shows "removed (map (Pair u) gone) s (set_box u kept s)"
proof -
  have "\<exists>Q. cores (ms_m (set_box u kept s)) w = filter Q (cores (ms_m s) w)
      \<and> (\<forall>c \<in> set (cores (ms_m s) w). \<not> Q c \<longrightarrow> c \<in> core ` set (rows_of w (map (Pair u) gone)))" for w
    using assms by (cases "w = u") (auto simp: set_box_def cores_def intro: exI [of _ Q] exI [of _ "\<lambda>_. True"])
  with assms show ?thesis by (auto simp: removed_def set_box_def)
qed

lemma removed_locked:
  assumes "pm_ok P s" "deleteMemoryMessagesLocked u limit match s = (s', rows, left_over)" shows "removed rows s s'"
proof -
  obtain kept gone l where k: "deleteMemoryMessages limit match 0 (ms_m s u) = (kept, gone, l)" by (rule prod_cases3)
  then have e: "s' = set_box u kept s" "rows = map (Pair u) gone" using assms(2) by (auto simp: deleteMemoryMessagesLocked_def)
  have "distinct (map core (ms_m s u))" using box_ok_distinct [OF pm_okD(3) [OF assms(1), of u]] by (simp add: cores_def)
  from deleteMemoryMessages_parts [OF this k] show ?thesis unfolding e by (intro removed_box) auto
qed

lemma removed_delete_uids: "removed (snd (delete_uids uids u s)) s (fst (delete_uids uids u s))"
  unfolding delete_uids_def fst_conv snd_conv
  by (rule removed_box [where Q = "\<lambda>c. c_UID c \<notin> set uids"]) (auto simp: filter_map comp_def)

lemma removed_uids_fold:
  assumes "fold (\<lambda>u (s, rows). if u = exclude then (s, rows) else case delete_uids uids u s of (s', rows') \<Rightarrow> (s', rows @ rows')) us (s, rows) = (s', rows')"
    "removed rows s0 s"
  shows "removed rows' s0 s'"
  using assms
proof (induction us arbitrary: s rows)
  case (Cons u us)
  obtain s1 r1 where d: "delete_uids uids u s = (s1, r1)" by fastforce
  have "removed (rows @ r1) s0 s1" using removed_trans [OF Cons.prems(2) removed_delete_uids [of uids u s]] d by simp
  with Cons d show ?case by (auto split: if_splits)
qed simp

lemma removed_by_uid:
  assumes "deleteMemoryMessagesByUIDLocked uids exclude s = (s', rows)" shows "removed rows s s'"
  using assms removed_uids_fold [of exclude uids "ms_users s" s "[]" s' rows s] by (auto simp: deleteMemoryMessagesByUIDLocked_def split: if_splits)

lemma removed_ok:
  assumes "pm_ok P s" "removed rows s s'"
  shows "pm_ok (\<lambda>u. P u \<union> pm_Peer ` set (rows_of u rows)) s'"
proof -
  have "\<exists>Q. cores (ms_m s') u = filter Q (cores (ms_m s) u) \<and> (\<forall>c \<in> set (cores (ms_m s) u). \<not> Q c \<longrightarrow> c_Peer c \<in> pm_Peer ` set (rows_of u rows))" for u
  proof -
    obtain Q where "cores (ms_m s') u = filter Q (cores (ms_m s) u)" "\<forall>c \<in> set (cores (ms_m s) u). \<not> Q c \<longrightarrow> c \<in> core ` set (rows_of u rows)"
      using assms(2) unfolding removed_def by blast
    then show ?thesis by (intro exI [of _ Q]) force
  qed
  from pm_view_shrink [OF assms(1) [unfolded pm_ok_def] this] assms(2) show ?thesis by (simp add: pm_ok_def removed_def)
qed

lemma dlg_ok_mono: "dlg_ok P nb cs ds \<Longrightarrow> P \<subseteq> Q \<Longrightarrow> dlg_ok Q nb cs ds"
  unfolding dlg_ok_def by blast

lemma pm_ok_mono: "pm_ok P s \<Longrightarrow> (\<And>u. P u \<subseteq> Q u) \<Longrightarrow> pm_ok Q s"
  unfolding pm_ok_def pm_view_def by (metis dlg_ok_mono)

lemma rebuild_ok:
  assumes "pm_ok P s" shows "pm_ok (P(u := P u - {p})) (rebuildMemoryDialogLocked u p s)"
  using pm_view_dialogs [OF assms [unfolded pm_ok_def], of "P u - {p}" u "rebuild_scan p (top_message p (ms_m s u)) (ms_m s u) 0 (ms_dialogs s u)"]
    rebuild_dlg_ok [OF pm_okD(4) [OF assms, of u, unfolded cores_def] pm_okD(3) [OF assms, of u, unfolded cores_def], of p]
  by (simp add: pm_ok_def rebuildMemoryDialogLocked_def cores_def)

lemma rebuild_frame [simp]:
  "ms_m (rebuildMemoryDialogLocked u p s) = ms_m s" "ms_nextBox (rebuildMemoryDialogLocked u p s) = ms_nextBox s"
  "ms_dedup (rebuildMemoryDialogLocked u p s) = ms_dedup s" "ms_nextPts (rebuildMemoryDialogLocked u p s) = ms_nextPts s"
  by (simp_all add: rebuildMemoryDialogLocked_def)

lemma rebuild_fold_frame:
  "ms_m (fold (rebuildMemoryDialogLocked u) ps s) = ms_m s" "ms_nextBox (fold (rebuildMemoryDialogLocked u) ps s) = ms_nextBox s"
  "ms_dedup (fold (rebuildMemoryDialogLocked u) ps s) = ms_dedup s" "ms_nextPts (fold (rebuildMemoryDialogLocked u) ps s) = ms_nextPts s"
  by (induction ps arbitrary: s) simp_all

lemma rebuild_fold_ok:
  assumes "pm_ok P s" shows "pm_ok (P(u := P u - set ps)) (fold (rebuildMemoryDialogLocked u) ps s)"
  using assms
proof (induction ps arbitrary: P s)
  case (Cons p ps)
  have "P u - {p} - set ps = P u - set (p # ps)" by auto
  then have "(P(u := P u - {p}))(u := (P(u := P u - {p})) u - set ps) = P(u := P u - set (p # ps))" by auto
  with Cons.IH [OF rebuild_ok [OF Cons.prems, of u p]] show ?case by (simp only: fold.simps comp_apply)
qed simp

lemma advance_ok:
  assumes "pm_ok P s" "maxID \<le> ms_nextBox s u" "\<And>m. m \<in> set (ms_m s u) \<Longrightarrow> pm_Peer m = p \<Longrightarrow> pm_ID m \<le> maxID"
  shows "pm_ok P (advanceMemoryHistoryClearDialogLocked u p maxID s)"
proof -
  note d = pm_okD(4) [OF assms(1), of u]
  show ?thesis unfolding advanceMemoryHistoryClearDialogLocked_def
    by (rule pm_ok_dialogs [OF assms(1) advance_dlg_ok [OF d assms(2), of p]]) (auto simp: cores_def assms(3))
qed

lemma replace_first_split:
  "(\<exists>xs m ys. ms = xs @ m # ys \<and> P m \<and> replace_first P r ms = xs @ r # ys) \<or> replace_first P r ms = ms"
proof (induction ms)
  case (Cons m ms)
  show ?case
  proof (cases "P m")
    case True then show ?thesis by (auto intro: exI [of _ "[]"])
  next
    case False
    from Cons consider xs x ys where "ms = xs @ x # ys" "P x" "replace_first P r ms = xs @ r # ys" | "replace_first P r ms = ms" by blast
    then show ?thesis
    proof cases
      case 1 then show ?thesis using False by (intro disjI1 exI [of _ "m # xs"]) auto
    qed (use False in simp)
  qed
qed simp

lemma clear_simps [simp]:
  "pm_ID (NewHistoryClearMessage u p i uid date pts) = i" "pm_UID (NewHistoryClearMessage u p i uid date pts) = uid"
  "pm_Peer (NewHistoryClearMessage u p i uid date pts) = p" "pm_Out (NewHistoryClearMessage u p i uid date pts)"
  "pm_From (NewHistoryClearMessage u p i uid date pts) = user_peer u" "pm_RandomID (NewHistoryClearMessage u p i uid date pts) = 0"
  by (simp_all add: NewHistoryClearMessage_def zero_pm_def)

text \<open>The mark of a cleared history takes the place of the message it was made from.\<close>

lemma anchor_ok:
  assumes ok: "pm_ok P s" and a: "a \<in> set (ms_m s u)"
  shows "pm_ok (P(u := insert (pm_Peer a) (P u))) (set_box u (replace_first (\<lambda>m. pm_ID m = pm_ID a \<and> pm_Peer m = pm_Peer a)
     (NewHistoryClearMessage u (pm_Peer a) (pm_ID a) (pm_UID a) date pts) (ms_m s u)) s)"
    (is "pm_ok _ (set_box u (replace_first ?P ?r (ms_m s u)) s)")
proof -
  consider xs m ys where "ms_m s u = xs @ m # ys" "?P m" "replace_first ?P ?r (ms_m s u) = xs @ ?r # ys"
    | "replace_first ?P ?r (ms_m s u) = ms_m s u" using replace_first_split [of "ms_m s u" ?P ?r] by blast
  then show ?thesis
  proof cases
    case 1
    have "core m \<in> set (cores (ms_m s) u)" "core a \<in> set (cores (ms_m s) u)" using 1 a by (auto simp: cores_def)
    then have "core m = core a" using box_order(2) [OF pm_okD(3) [OF ok, of u]] 1(2) by fastforce
    then have uid: "pm_UID a = pm_UID m" by (metis core_simps(2))
    have "pm_view (P(u := insert (c_Peer (core m)) (P u))) (ms_nextUID s) (ms_nextBox s) ((cores (ms_m s))(u := map core xs @ core ?r # map core ys)) (ms_dialogs s)"
      by (rule pm_view_replace [OF ok [unfolded pm_ok_def]]) (use 1 uid in \<open>auto simp: cores_def\<close>)
    then show ?thesis using 1 by (simp add: pm_ok_def set_box_def)
  next
    case 2
    have "pm_ok (P(u := insert (pm_Peer a) (P u))) s" by (rule pm_ok_mono [OF ok]) auto
    with 2 show ?thesis by (simp add: pm_ok_def set_box_def)
  qed
qed

lemma replace_first_ids:
  assumes "m \<in> set (replace_first (\<lambda>m. pm_ID m = i \<and> pm_Peer m = p) r ms)" "pm_ID r = i" "pm_Peer r = p"
  shows "\<exists>m' \<in> set ms. pm_ID m' = pm_ID m \<and> pm_Peer m' = pm_Peer m"
  using assms by (induction ms) (auto split: if_splits)

definition anchor_good :: "(int \<rightharpoonup> 'x pm \<times> bool) \<Rightarrow> int \<Rightarrow> 'x pm list \<Rightarrow> bool" where
  "anchor_good anchors u ms \<longleftrightarrow> (\<forall>a b. anchors u = Some (a, b) \<longrightarrow> a \<in> set ms \<and> (\<forall>m \<in> set ms. pm_Peer m = pm_Peer a \<longrightarrow> pm_ID m \<le> pm_ID a))"

definition ids_good :: "'x pm list \<Rightarrow> bool" where
  "ids_good ms \<longleftrightarrow> (\<forall>m \<in> set ms. 0 < pm_ID m \<and> pm_ID m \<le> MaxMessageBoxID)"

lemma normalize_set: "set (normalizeMemoryMessageIDs xs) = {i \<in> set xs. 0 < i \<and> i \<le> MaxMessageBoxID}"
  by (auto simp: normalizeMemoryMessageIDs_def)

lemma normalize_empty: "ids_good ms \<Longrightarrow> normalizeMemoryMessageIDs (map pm_ID ms) = [] \<longleftrightarrow> ms = []"
proof -
  assume "ids_good ms"
  then have "set (normalizeMemoryMessageIDs (map pm_ID ms)) = pm_ID ` set ms" unfolding normalize_set by (auto simp: ids_good_def)
  then show ?thesis by (metis image_is_empty set_empty)
qed

lemma pm_ok_frame:
  assumes "pm_ok P s" "ms_m s' = ms_m s" "ms_nextUID s' = ms_nextUID s" "ms_nextBox s' = ms_nextBox s" "ms_dialogs s' = ms_dialogs s"
  shows "pm_ok P s'" using assms by (simp add: pm_ok_def)

lemma mark_deleted_frame [simp]:
  "ms_m (mark_deleted_sends u gone e s) = ms_m s" "ms_nextUID (mark_deleted_sends u gone e s) = ms_nextUID s"
  "ms_nextBox (mark_deleted_sends u gone e s) = ms_nextBox s" "ms_dialogs (mark_deleted_sends u gone e s) = ms_dialogs s"
  "ms_nextPts (mark_deleted_sends u gone e s) = ms_nextPts s"
  by (simp_all add: mark_deleted_sends_def)

lemma new_anchor_good:
  assumes "anchor_good anchors u ms" "new_anchor anchors u = Some a"
  shows "a \<in> set ms" "\<And>m. m \<in> set ms \<Longrightarrow> pm_Peer m = pm_Peer a \<Longrightarrow> pm_ID m \<le> pm_ID a" "\<exists>b. anchors u = Some (a, b)"
  using assms by (auto simp: anchor_good_def new_anchor_def split: option.splits if_splits)

lemma finish_owner_cases:
  obtains (skip) "normalizeMemoryMessageIDs (map pm_ID (rows_of u rows)) = []" "new_anchor anchors u = None" "finish_owner rows date anchors u s = (s, None)"
  | (finish) event pts editPts where "event = None \<longleftrightarrow> normalizeMemoryMessageIDs (map pm_ID (rows_of u rows)) = []"
      "fst (finish_owner rows date anchors u s) = complete_delete u (rows_of u rows) event (new_anchor anchors u) editPts
         (deleted_peers anchors u (rows_of u rows)) (s\<lparr>ms_nextPts := (ms_nextPts s)(u := pts)\<rparr>)"
proof (cases "normalizeMemoryMessageIDs (map pm_ID (rows_of u rows)) = [] \<and> new_anchor anchors u = None")
  case True
  then show ?thesis by (intro skip) (auto simp: finish_owner_def Let_def)
next
  case False
  let ?ids = "normalizeMemoryMessageIDs (map pm_ID (rows_of u rows))"
  have t: "int (length ?ids) + (if new_anchor anchors u = None then 0 else 2) \<noteq> 0" using False by (auto split: if_splits)
  show ?thesis
    by (rule finish) (auto simp: finish_owner_def Let_def t simp del: length_0_conv)
qed

text \<open>Finishing one account repairs its dialogs and touches no other account.\<close>

lemma finish_owner_ok:
  fixes s :: "'x message_store"
  assumes ok: "pm_ok P s" and P: "P u \<subseteq> pm_Peer ` set (rows_of u rows)" and good: "ids_good (rows_of u rows)" "anchor_good anchors u (ms_m s u)"
  shows "pm_ok (P(u := {})) (fst (finish_owner rows date anchors u s))"
proof (cases rule: finish_owner_cases [of u rows anchors date s])
  case skip
  then have "P u = {}" using P normalize_empty [OF good(1)] by auto
  then show ?thesis using skip(3) ok by (simp add: fun_upd_idem)
next
  case (finish event pts editPts)
  let ?gone = "rows_of u rows" and ?peers = "deleted_peers anchors u (rows_of u rows)"
  define s2 where "s2 = (case event of Some e \<Rightarrow> mark_deleted_sends u ?gone e (s\<lparr>ms_nextPts := (ms_nextPts s)(u := pts)\<rparr>)
     | None \<Rightarrow> s\<lparr>ms_nextPts := (ms_nextPts s)(u := pts)\<rparr>)"
  have s2: "pm_ok P s2" "ms_m s2 = ms_m s" "ms_nextBox s2 = ms_nextBox s"
    using pm_ok_frame [OF ok, of s2] by (auto simp: s2_def split: option.split)
  show ?thesis
  proof (cases "new_anchor anchors u")
    case None
    have "P u - set ?peers = {}" using P by (auto simp: deleted_peers_def)
    with rebuild_fold_ok [OF s2(1), of u ?peers] show ?thesis unfolding finish(2) complete_delete_def Let_def s2_def [symmetric] None by simp
  next
    case (Some a)
    note a = new_anchor_good [OF good(2) Some]
    let ?s3 = "set_box u (replace_first (\<lambda>m. pm_ID m = pm_ID a \<and> pm_Peer m = pm_Peer a) (clear_mark u a editPts) (ms_m s2 u)) s2"
    have "pm_ok (P(u := insert (pm_Peer a) (P u))) ?s3" unfolding clear_mark_def by (rule anchor_ok [OF s2(1)]) (simp add: s2 a)
    moreover have "insert (pm_Peer a) (P u) - set ?peers = {}" using P a(3) by (auto simp: deleted_peers_def)
    ultimately have r: "pm_ok (P(u := {})) (fold (rebuildMemoryDialogLocked u) ?peers ?s3)"
      using rebuild_fold_ok [of "P(u := insert (pm_Peer a) (P u))" ?s3 u ?peers] by (metis (no_types, lifting) fun_upd_same fun_upd_upd)
    have "pm_ID a \<le> ms_nextBox s u" using pm_okD(3) [OF ok, of u] a(1) by (auto simp: box_ok_def cores_def)
    moreover have "pm_ID m \<le> pm_ID a" if m: "m \<in> set (ms_m ?s3 u)" "pm_Peer m = pm_Peer a" for m
    proof -
      obtain m' where "m' \<in> set (ms_m s u)" "pm_ID m' = pm_ID m" "pm_Peer m' = pm_Peer m"
        using replace_first_ids [of m "pm_ID a" "pm_Peer a" "clear_mark u a editPts" "ms_m s u"] m(1) by (auto simp: set_box_def s2 clear_mark_def)
      then show ?thesis using a(2) [of m'] m(2) by simp
    qed
    ultimately have "pm_ok (P(u := {})) (advanceMemoryHistoryClearDialogLocked u (pm_Peer a) (pm_ID a) (fold (rebuildMemoryDialogLocked u) ?peers ?s3))"
      by (intro advance_ok [OF r]) (auto simp: rebuild_fold_frame set_box_def s2)
    then show ?thesis unfolding finish(2) complete_delete_def Let_def s2_def [symmetric] Some by simp
  qed
qed

lemma finish_owner_frame:
  "w \<noteq> u \<Longrightarrow> ms_m (fst (finish_owner rows date anchors u s)) w = ms_m s w"
  "ms_nextBox (fst (finish_owner rows date anchors u s)) = ms_nextBox s"
  "w \<noteq> u \<Longrightarrow> ms_nextPts (fst (finish_owner rows date anchors u s)) w = ms_nextPts s w"
  by (cases rule: finish_owner_cases [of u rows anchors date s];
      auto simp: complete_delete_def Let_def rebuild_fold_frame set_box_def advanceMemoryHistoryClearDialogLocked_def split: option.split)+

lemma finish_step_fst: "fst (finish_step rows date anchors u acc) = fst (finish_owner rows date anchors u (fst acc))"
  by (auto simp: finish_step_def split: prod.split option.split)

lemma finish_fold_ok:
  fixes acc :: "'x message_store \<times> 'x deleted_for_user list"
  assumes "pm_ok P (fst acc)" "distinct us" "\<And>u. P u \<subseteq> pm_Peer ` set (rows_of u rows)" "\<And>u. ids_good (rows_of u rows)"
    "\<And>u. u \<in> set us \<Longrightarrow> anchor_good anchors u (ms_m (fst acc) u)"
  shows "pm_ok (\<lambda>u. if u \<in> set us then {} else P u) (fst (fold (finish_step rows date anchors) us acc))
    \<and> ms_nextBox (fst (fold (finish_step rows date anchors) us acc)) = ms_nextBox (fst acc)"
  using assms
proof (induction us arbitrary: acc P)
  case (Cons u us)
  let ?acc = "finish_step rows date anchors u acc"
  have "pm_ok (P(u := {})) (fst ?acc)" unfolding finish_step_fst
    by (rule finish_owner_ok) (use Cons.prems in auto)
  moreover have "anchor_good anchors w (ms_m (fst ?acc) w)" if "w \<in> set us" for w
  proof -
    have "w \<noteq> u" using Cons.prems(2) that by auto
    then show ?thesis using Cons.prems(5) [of w] that by (simp add: finish_step_fst finish_owner_frame)
  qed
  moreover have "(P(u := {})) w \<subseteq> pm_Peer ` set (rows_of w rows)" for w using Cons.prems(3) [of w] by auto
  ultimately have "pm_ok (\<lambda>w. if w \<in> set us then {} else (P(u := {})) w) (fst (fold (finish_step rows date anchors) us ?acc))
      \<and> ms_nextBox (fst (fold (finish_step rows date anchors) us ?acc)) = ms_nextBox (fst ?acc)"
    using Cons.IH [of "P(u := {})" ?acc] Cons.prems(2,4) by (auto simp del: fun_upd_apply)
  moreover have "(\<lambda>w. if w \<in> set us then {} else (P(u := {})) w) = (\<lambda>w. if w \<in> set (u # us) then {} else P w)" by (rule ext) auto
  ultimately show ?case by (simp add: finish_step_fst finish_owner_frame)
qed simp

lemma finish_ok:
  fixes s :: "'x message_store"
  assumes ok: "pm_ok (\<lambda>_. {}) s" and r: "removed rows s s'" and lim: "\<And>u. ms_nextBox s u \<le> MaxMessageBoxID"
    and a: "\<And>u. anchor_good anchors u (ms_m s' u)"
  shows "pm_ok (\<lambda>_. {}) (fst (finishMemoryDeleteLocked rows date anchors anchored s'))"
    "ms_nextBox (fst (finishMemoryDeleteLocked rows date anchors anchored s')) = ms_nextBox s"
proof -
  let ?us = "delete_owners rows anchors anchored"
  have ids: "ids_good (rows_of u rows)" for u
  proof -
    have "set (rows_of u rows) \<subseteq> set (ms_m s u)" using r by (simp add: removed_def)
    then show ?thesis using pm_okD(3) [OF ok, of u] lim [of u] by (fastforce simp: ids_good_def box_ok_def cores_def)
  qed
  have f: "pm_ok (\<lambda>u. if u \<in> set ?us then {} else pm_Peer ` set (rows_of u rows)) (fst (fold (finish_step rows date anchors) ?us (s', [])))
      \<and> ms_nextBox (fst (fold (finish_step rows date anchors) ?us (s', []))) = ms_nextBox (fst (s', [] :: 'x deleted_for_user list))"
    by (rule finish_fold_ok) (use removed_ok [OF ok r] a ids in \<open>auto simp: delete_owners_def\<close>)
  have "(\<lambda>u. if u \<in> set ?us then {} else pm_Peer ` set (rows_of u rows)) = (\<lambda>_. {})"
    by (rule ext) (force simp: delete_owners_def rows_of_def)
  with f show "pm_ok (\<lambda>_. {}) (fst (finishMemoryDeleteLocked rows date anchors anchored s'))"
    "ms_nextBox (fst (finishMemoryDeleteLocked rows date anchors anchored s')) = ms_nextBox s"
    using r by (auto simp: finishMemoryDeleteLocked_def removed_def)
qed

text \<open>The removal stage of the two operations.\<close>

lemma locked_nextBox: "deleteMemoryMessagesLocked u limit match s = (s', rows, l) \<Longrightarrow> ms_nextBox s' = ms_nextBox s"
  by (auto simp: deleteMemoryMessagesLocked_def set_box_def split: prod.splits)

lemma DeleteMessages_cases:
  obtains (same) "fst (DeleteMessages now owner ids revoke date s) = s"
  | (deleted) rows s1 date' where "pm_ok P s \<Longrightarrow> removed rows s s1" "ms_nextBox s1 = ms_nextBox s"
      "fst (DeleteMessages now owner ids revoke date s) = fst (finishMemoryDeleteLocked rows date' Map.empty [] s1)"
proof (cases "owner = 0 \<or> normalizeMemoryMessageIDs ids = [] \<or> int (length (normalizeMemoryMessageIDs ids)) > MaxDeleteMessageIDs")
  case True
  then show ?thesis by (intro same) (auto simp: DeleteMessages_def Let_def)
next
  case False
  let ?ids = "normalizeMemoryMessageIDs ids"
  obtain s1 gone l where d: "deleteMemoryMessagesLocked owner 0 (\<lambda>m. pm_ID m \<in> set ?ids) s = (s1, gone, l)" by (rule prod_cases3)
  obtain s2 by_uid where b: "(if revoke then deleteMemoryMessagesByUIDLocked (revoke_uids gone) owner s1 else (s1, [])) = (s2, by_uid)" by fastforce
  have by_uid: "removed by_uid s1 s2" using b by (auto split: if_splits intro: removed_by_uid)
  have nb: "ms_nextBox s2 = ms_nextBox s" using by_uid locked_nextBox [OF d] by (simp add: removed_def)
  from by_uid have "removed (gone @ by_uid) s s2" if "pm_ok P s" by (rule removed_trans [OF removed_locked [OF that d]])
  then show ?thesis
    by (rule deleted [where date' = "if date = 0 then now else date"]) (use False d b nb in \<open>simp_all add: DeleteMessages_def Let_def\<close>)
qed

lemma DeleteMessages_ok:
  assumes "pm_ok (\<lambda>_. {}) s" "\<And>u. ms_nextBox s u \<le> MaxMessageBoxID"
  shows "pm_ok (\<lambda>_. {}) (fst (DeleteMessages now owner ids revoke date s))"
    "ms_nextBox (fst (DeleteMessages now owner ids revoke date s)) = ms_nextBox s"
proof -
  have "pm_ok (\<lambda>_. {}) (fst (DeleteMessages now owner ids revoke date s)) \<and> ms_nextBox (fst (DeleteMessages now owner ids revoke date s)) = ms_nextBox s"
  proof (cases rule: DeleteMessages_cases [where P = "\<lambda>_. {}" and now = now and owner = owner and ids = ids and revoke = revoke and date = date and s = s])
    case (deleted rows s1 date')
    with finish_ok [OF assms(1) deleted(1) [OF assms(1)] assms(2), of Map.empty] show ?thesis by (simp add: anchor_good_def)
  qed (use assms in simp)
  then show "pm_ok (\<lambda>_. {}) (fst (DeleteMessages now owner ids revoke date s))"
    "ms_nextBox (fst (DeleteMessages now owner ids revoke date s)) = ms_nextBox s" by auto
qed

lemma anchor_fold:
  fixes ms :: "'x pm list" and p :: peer
  defines "t \<equiv> fold (\<lambda>m t. if pm_Peer m = p \<and> pm_ID m > pm_ID t then m else t) ms zero_pm"
  shows "(t = zero_pm \<or> t \<in> set ms \<and> pm_Peer t = p) \<and> (\<forall>m \<in> set ms. pm_Peer m = p \<longrightarrow> pm_ID m \<le> pm_ID t)"
  unfolding t_def by (induction ms rule: rev_induct) (auto simp: not_less)

lemma anchor_found:
  assumes "memoryHistoryClearAnchorLocked u p s = Some (a, b)"
  shows "a \<in> set (ms_m s u)" "pm_Peer a = p" "\<And>m. m \<in> set (ms_m s u) \<Longrightarrow> pm_Peer m = p \<Longrightarrow> pm_ID m \<le> pm_ID a"
proof -
  define t where "t = fold (\<lambda>m t. if pm_Peer m = p \<and> pm_ID m > pm_ID t then m else t) (ms_m s u) zero_pm"
  have "a = t" "pm_ID t \<noteq> 0" using assms by (auto simp: memoryHistoryClearAnchorLocked_def Let_def t_def [symmetric] split: if_splits)
  moreover have "(t = zero_pm \<or> t \<in> set (ms_m s u) \<and> pm_Peer t = p) \<and> (\<forall>m \<in> set (ms_m s u). pm_Peer m = p \<longrightarrow> pm_ID m \<le> pm_ID t)"
    unfolding t_def by (rule anchor_fold)
  ultimately show "a \<in> set (ms_m s u)" "pm_Peer a = p" "\<And>m. m \<in> set (ms_m s u) \<Longrightarrow> pm_Peer m = p \<Longrightarrow> pm_ID m \<le> pm_ID a" by auto
qed


lemma deleteMemoryMessages_keeps:
  "m \<in> set ms \<Longrightarrow> \<not> match m \<Longrightarrow> m \<in> set (fst (deleteMemoryMessages limit match n ms))"
  by (induction ms arbitrary: n) (auto simp: case_prod_beta)

lemma locked_keeps:
  assumes "deleteMemoryMessagesLocked u limit match s = (s', rows, l)" "m \<in> set (ms_m s w)" "w = u \<Longrightarrow> \<not> match m"
  shows "m \<in> set (ms_m s' w)"
proof -
  obtain kept gone l' where k: "deleteMemoryMessages limit match 0 (ms_m s u) = (kept, gone, l')" by (rule prod_cases3)
  then show ?thesis using assms deleteMemoryMessages_keeps [of m "ms_m s u" match limit 0] by (auto simp: deleteMemoryMessagesLocked_def set_box_def)
qed

lemma clear_anchors_found:
  assumes "clear_anchors r s u = Some (a, b)"
  shows "\<exists>p. memoryHistoryClearAnchorLocked u p s = Some (a, b)" "dh_MaxID r \<le> 0" "u = dh_OwnerUserID r \<or> u = peer_id (dh_Peer r)"
  using assms by (auto simp: clear_anchors_def Let_def split: if_splits)

lemma deleteMemoryMessages_match:
  "x \<in> set (fst (snd (deleteMemoryMessages limit match n ms))) \<Longrightarrow> match x"
  by (induction ms arbitrary: n) (auto simp: case_prod_beta split: if_splits)

lemma locked_rows:
  assumes "deleteMemoryMessagesLocked u limit match s = (s', rows, l)" "x \<in> set (rows_of w rows)"
  shows "w = u \<and> match x"
  using assms deleteMemoryMessages_match [of x limit match 0 "ms_m s u"]
  by (auto simp: deleteMemoryMessagesLocked_def split: prod.splits if_splits)

lemma DeleteHistory_cases:
  obtains (same) "fst (DeleteHistory now r s) = s" "dh_OwnerUserID r = 0 \<or> peer_id (dh_Peer r) = 0"
  | (deleted) rows s1 date' where "pm_ok P s \<Longrightarrow> removed rows s s1" "\<And>u. pm_ok P s \<Longrightarrow> anchor_good (clear_anchors r s) u (ms_m s1 u)"
      "ms_nextBox s1 = ms_nextBox s"
      "fst (DeleteHistory now r s) = fst (finishMemoryDeleteLocked rows date' (clear_anchors r s) [dh_OwnerUserID r, peer_id (dh_Peer r)] s1)"
      "\<And>u x. x \<in> set (rows_of u rows) \<Longrightarrow> \<not> is_anchor (clear_anchors r s) u x"
proof (cases "dh_OwnerUserID r = 0 \<or> peer_id (dh_Peer r) = 0")
  case True
  then show ?thesis by (intro same) (auto simp: DeleteHistory_def Let_def)
next
  case False
  let ?owner = "dh_OwnerUserID r" and ?other = "peer_id (dh_Peer r)" and ?anchors = "clear_anchors r s"
  let ?m1 = "\<lambda>m. \<not> is_anchor ?anchors ?owner m \<and> pm_Peer m = dh_Peer r \<and> (dh_MaxID r \<le> 0 \<or> pm_ID m \<le> dh_MaxID r) \<and> in_date_range r m"
  let ?m2 = "\<lambda>m. \<not> is_anchor ?anchors ?other m \<and> pm_Peer m = user_peer ?owner \<and> in_date_range r m"
  obtain s1 gone l where d: "deleteMemoryMessagesLocked ?owner MaxDeleteHistoryBatch ?m1 s = (s1, gone, l)" by (rule prod_cases3)
  obtain s2 by_uid where b: "(if dh_Revoke r \<and> dh_MaxID r > 0 then deleteMemoryMessagesByUIDLocked (revoke_uids gone) ?owner s1 else (s1, [])) = (s2, by_uid)" by fastforce
  obtain s3 peer_gone l' where e: "(if dh_Revoke r \<and> dh_MaxID r \<le> 0 \<and> ?other \<noteq> ?owner
      then deleteMemoryMessagesLocked ?other MaxDeleteHistoryBatch ?m2 s2 else (s2, [], False)) = (s3, peer_gone, l')" by (rule prod_cases3)
  have by_uid: "removed by_uid s1 s2" using b by (auto split: if_splits intro: removed_by_uid)
  have nb: "ms_nextBox s3 = ms_nextBox s" using by_uid locked_nextBox [OF d] e by (auto simp: removed_def dest!: locked_nextBox split: if_splits)
  have r1: "removed (gone @ by_uid) s s2" if "pm_ok P s" by (rule removed_trans [OF removed_locked [OF that d] by_uid])
  have r2: "removed ((gone @ by_uid) @ peer_gone) s s3" if ok: "pm_ok P s"
  proof -
    have "removed peer_gone s2 s3"
      using e removed_locked [OF removed_ok [OF ok r1 [OF ok]]] by (auto split: if_splits)
    then show ?thesis by (rule removed_trans [OF r1 [OF ok]])
  qed
  have good: "anchor_good ?anchors u (ms_m s3 u)" if ok: "pm_ok P s" for u
    unfolding anchor_good_def
  proof (intro allI impI)
    fix a x assume au: "?anchors u = Some (a, x)"
    obtain p where p: "memoryHistoryClearAnchorLocked u p s = Some (a, x)" using clear_anchors_found(1) [OF au] by blast
    have anchor: "is_anchor ?anchors u a" using au by (simp add: is_anchor_def)
    have "a \<in> set (ms_m s1 u)" by (rule locked_keeps [OF d anchor_found(1) [OF p]]) (use anchor in auto)
    moreover have "s2 = s1" using b clear_anchors_found(2) [OF au] by auto
    ultimately have "a \<in> set (ms_m s3 u)" using e anchor by (auto split: if_splits intro: locked_keeps)
    moreover have "set (ms_m s3 u) \<subseteq> set (ms_m s u)" using r2 [OF ok] by (simp add: removed_def)
    ultimately show "a \<in> set (ms_m s3 u) \<and> (\<forall>m \<in> set (ms_m s3 u). pm_Peer m = pm_Peer a \<longrightarrow> pm_ID m \<le> pm_ID a)"
      using anchor_found(2,3) [OF p] by auto
  qed
  have rows: "\<not> is_anchor ?anchors u x" if x: "x \<in> set (rows_of u ((gone @ by_uid) @ peer_gone))" for u x
  proof (cases "dh_MaxID r \<le> 0")
    case True
    then have "by_uid = []" using b by auto
    with x consider "x \<in> set (rows_of u gone)" | "x \<in> set (rows_of u peer_gone)" by auto
    then show ?thesis
    proof cases
      case 1
      then show ?thesis using locked_rows [OF d 1] by blast
    next
      case 2
      then have "deleteMemoryMessagesLocked ?other MaxDeleteHistoryBatch ?m2 s2 = (s3, peer_gone, l')" using e by (auto split: if_splits)
      then show ?thesis using locked_rows [OF _ 2] by blast
    qed
  next
    case False
    then have "?anchors u = None" by (simp add: clear_anchors_def Let_def)
    then show ?thesis by (simp add: is_anchor_def)
  qed
  show ?thesis
    by (rule deleted [OF r2 good, where date' = "if dh_Date r = 0 then now else dh_Date r"])
      (use False d b e nb rows in \<open>simp_all add: DeleteHistory_def Let_def split: prod.split\<close>)
qed

lemma DeleteHistory_ok:
  assumes "pm_ok (\<lambda>_. {}) s" "\<And>u. ms_nextBox s u \<le> MaxMessageBoxID"
  shows "pm_ok (\<lambda>_. {}) (fst (DeleteHistory now r s))" "ms_nextBox (fst (DeleteHistory now r s)) = ms_nextBox s"
proof -
  have "pm_ok (\<lambda>_. {}) (fst (DeleteHistory now r s)) \<and> ms_nextBox (fst (DeleteHistory now r s)) = ms_nextBox s"
  proof (cases rule: DeleteHistory_cases [where P = "\<lambda>_. {}" and now = now and r = r and s = s])
    case (deleted rows s1 date')
    with finish_ok [OF assms(1) deleted(1) [OF assms(1)] assms(2) deleted(2) [OF assms(1)]] show ?thesis by simp
  qed (use assms in simp)
  then show "pm_ok (\<lambda>_. {}) (fst (DeleteHistory now r s))" "ms_nextBox (fst (DeleteHistory now r s)) = ms_nextBox s" by auto
qed

section \<open>What the operations leave alone\<close>

lemma commit_nextBox: "ms_nextBox s u \<le> ms_nextBox (commit_send req fp snap (sender_message req r s) (recipient_message req r' (sender_message req r s) s) s) u"
  by (auto simp: commit_send_def Let_def set_box_def upsertMemoryDialogsLocked_def recipient_message_def)

lemma ReadHistory_frame:
  "ms_m (fst (ReadHistory now owner p maxID date s)) = ms_m s" "ms_nextBox (fst (ReadHistory now owner p maxID date s)) = ms_nextBox s"
  "ms_dedup (fst (ReadHistory now owner p maxID date s)) = ms_dedup s" "ms_users (fst (ReadHistory now owner p maxID date s)) = ms_users s"
  by (auto simp: ReadHistory_def Let_def nextPtsLocked_def read_receipt_def split: option.split)

lemma EditMessage_frame:
  "cores (ms_m (fst (EditMessage now req s))) = cores (ms_m s)" "ms_nextBox (fst (EditMessage now req s)) = ms_nextBox s"
  "ms_dedup (fst (EditMessage now req s)) = ms_dedup s" "ms_users (fst (EditMessage now req s)) = ms_users s"
  by (cases rule: EditMessage_cases [of now req s]; use edit_steps_frame in \<open>force simp: edit_everywhere_def\<close>)+

lemma finish_owner_nextBox_fold: "ms_nextBox (fst (fold (finish_step rows date anchors) us acc)) = ms_nextBox (fst acc)"
  by (induction us arbitrary: acc) (simp_all add: finish_step_fst finish_owner_frame)

lemma finish_nextBox: "ms_nextBox (fst (finishMemoryDeleteLocked rows date anchors anchored s)) = ms_nextBox s"
  by (simp add: finishMemoryDeleteLocked_def finish_owner_nextBox_fold)

section \<open>Deleting for everyone\<close>

definition users_ok :: "'x message_store \<Rightarrow> bool" where
  "users_ok s \<longleftrightarrow> (\<forall>u. ms_m s u \<noteq> [] \<longrightarrow> u \<in> set (ms_users s))"

lemma users_ok_set_box: "users_ok s \<Longrightarrow> users_ok (set_box u ms s)" by (auto simp: users_ok_def set_box_def)

lemma users_ok_frame: "users_ok s \<Longrightarrow> ms_m s' = ms_m s \<Longrightarrow> ms_users s' = ms_users s \<Longrightarrow> users_ok s'" by (simp add: users_ok_def)

lemma upsert_frame:
  "ms_m (upsertMemoryDialogsLocked a b s) = ms_m s" "ms_users (upsertMemoryDialogsLocked a b s) = ms_users s"
  by (simp_all add: upsertMemoryDialogsLocked_def Let_def)

lemma users_ok_commit: "users_ok s \<Longrightarrow> users_ok (commit_send req fp snap a b s)"
  by (auto simp: commit_send_def Let_def users_ok_def set_box_def upsert_frame)

lemma SendPrivateText_users: "users_ok s \<Longrightarrow> users_ok (fst (SendPrivateText env now req s))"
  by (auto simp: SendPrivateText_def split: option.split) (metis sendPrivateTextLocked_cases users_ok_commit)

lemma EditMessage_users:
  assumes "users_ok s" shows "users_ok (fst (EditMessage now req s))"
proof -
  have "map core (ms_m (fst (EditMessage now req s)) u) = map core (ms_m s u)" for u
    using fun_cong [OF EditMessage_frame(1) [of now req s], of u] by (simp add: cores_def)
  then have "ms_m (fst (EditMessage now req s)) u = [] \<longleftrightarrow> ms_m s u = []" for u by (metis map_is_Nil_conv)
  then show ?thesis using assms by (simp add: users_ok_def EditMessage_frame(4))
qed

lemma finish_owner_users: "users_ok s \<Longrightarrow> users_ok (fst (finish_owner rows date anchors u s))"
proof (cases rule: finish_owner_cases [of u rows anchors date s])
  assume ok: "users_ok s"
  {
    case (finish event pts editPts)
    have r: "ms_users (fold (rebuildMemoryDialogLocked u) ps t) = ms_users t" for ps and t :: "'a message_store"
      by (induction ps arbitrary: t) (simp_all add: rebuildMemoryDialogLocked_def)
    show ?thesis unfolding finish(2)
      by (rule users_ok_frame [of "case new_anchor anchors u of None \<Rightarrow> s | Some a \<Rightarrow> set_box u (replace_first (\<lambda>m. pm_ID m = pm_ID a \<and> pm_Peer m = pm_Peer a) (clear_mark u a editPts) (ms_m s u)) s"])
        (auto simp: complete_delete_def Let_def rebuild_fold_frame r set_box_def advanceMemoryHistoryClearDialogLocked_def mark_deleted_sends_def ok users_ok_set_box [OF ok, unfolded set_box_def]
          split: option.split)
  }
qed simp

lemma finish_users: "users_ok s \<Longrightarrow> users_ok (fst (finishMemoryDeleteLocked rows date anchors anchored s))"
proof -
  have "users_ok (fst acc) \<Longrightarrow> users_ok (fst (fold (finish_step rows date anchors) us acc))" for us acc
    by (induction us arbitrary: acc) (simp_all add: finish_step_fst finish_owner_users)
  from this [of "(s, [])"] show "users_ok s \<Longrightarrow> users_ok (fst (finishMemoryDeleteLocked rows date anchors anchored s))"
    by (simp add: finishMemoryDeleteLocked_def)
qed

lemma locked_users: "deleteMemoryMessagesLocked u limit match s = (s', rows, l) \<Longrightarrow> users_ok s \<Longrightarrow> users_ok s'"
  by (auto simp: deleteMemoryMessagesLocked_def users_ok_set_box split: prod.splits)

lemma uids_fold_users:
  assumes "users_ok s"
  shows "users_ok (fst (fold (\<lambda>u (s, rows). if u = exclude then (s, rows) else case delete_uids uids u s of (s', rows') \<Rightarrow> (s', rows @ rows')) us (s, rows)))"
  using assms by (induction us arbitrary: s rows) (auto simp: delete_uids_def users_ok_set_box)

lemma by_uid_users: "deleteMemoryMessagesByUIDLocked uids exclude s = (s', rows) \<Longrightarrow> users_ok s \<Longrightarrow> users_ok s'"
  using uids_fold_users [of s exclude uids "ms_users s" "[]"] by (auto simp: deleteMemoryMessagesByUIDLocked_def split: if_splits)

lemma DeleteMessages_users:
  assumes "users_ok s" shows "users_ok (fst (DeleteMessages now owner ids revoke date s))"
proof -
  let ?ids = "normalizeMemoryMessageIDs ids"
  obtain s1 gone l where d: "deleteMemoryMessagesLocked owner 0 (\<lambda>m. pm_ID m \<in> set ?ids) s = (s1, gone, l)" by (rule prod_cases3)
  obtain s2 by_uid where b: "(if revoke then deleteMemoryMessagesByUIDLocked (revoke_uids gone) owner s1 else (s1, [])) = (s2, by_uid)" by fastforce
  have "users_ok s2" using b locked_users [OF d assms] by (auto split: if_splits intro: by_uid_users)
  then show ?thesis using assms d b by (simp add: DeleteMessages_def Let_def finish_users)
qed

lemma DeleteHistory_users:
  assumes "users_ok s" shows "users_ok (fst (DeleteHistory now r s))"
proof -
  let ?owner = "dh_OwnerUserID r" and ?other = "peer_id (dh_Peer r)" and ?anchors = "clear_anchors r s"
  obtain s1 gone l where d: "deleteMemoryMessagesLocked ?owner MaxDeleteHistoryBatch
      (\<lambda>m. \<not> is_anchor ?anchors ?owner m \<and> pm_Peer m = dh_Peer r \<and> (dh_MaxID r \<le> 0 \<or> pm_ID m \<le> dh_MaxID r) \<and> in_date_range r m) s = (s1, gone, l)" by (rule prod_cases3)
  obtain s2 by_uid where b: "(if dh_Revoke r \<and> dh_MaxID r > 0 then deleteMemoryMessagesByUIDLocked (revoke_uids gone) ?owner s1 else (s1, [])) = (s2, by_uid)" by fastforce
  obtain s3 peer_gone l' where e: "(if dh_Revoke r \<and> dh_MaxID r \<le> 0 \<and> ?other \<noteq> ?owner
      then deleteMemoryMessagesLocked ?other MaxDeleteHistoryBatch (\<lambda>m. \<not> is_anchor ?anchors ?other m \<and> pm_Peer m = user_peer ?owner \<and> in_date_range r m) s2
      else (s2, [], False)) = (s3, peer_gone, l')" by (rule prod_cases3)
  have "users_ok s2" using b locked_users [OF d assms] by (auto split: if_splits intro: by_uid_users)
  then have "users_ok s3" using e by (auto split: if_splits intro: locked_users)
  moreover obtain s4 items where f: "finishMemoryDeleteLocked (gone @ by_uid @ peer_gone) (if dh_Date r = 0 then now else dh_Date r) ?anchors [?owner, ?other] s3 = (s4, items)" by fastforce
  ultimately have "users_ok s4" using finish_users [of s3 "gone @ by_uid @ peer_gone"] by (metis fst_conv)
  moreover have "fst (DeleteHistory now r s) = (if ?owner = 0 \<or> ?other = 0 then s else s4)"
  proof (cases "?owner = 0 \<or> ?other = 0")
    case False then show ?thesis using d b e f by (simp add: DeleteHistory_def Let_def split del: if_split)
  qed (simp add: DeleteHistory_def Let_def)
  ultimately show ?thesis using assms by simp
qed

end
