(* ===== verification/Private_Messages_Theorems.thy ===== *)
theory Private_Messages_Theorems
  imports Private_Messages_Invariant
begin

text \<open>
  Runs of the private messages (an operation per constructor of \<open>pm_op\<close>) and what they guarantee:
  exact counters, truthful receipts, sends that take effect once, exact deletion, contiguous events
  and complete paging, each with an example conversation.
\<close>

section \<open>Runs\<close>

datatype 'x pm_op =
    OpSend int "'x send_request"
  | OpRead int int peer int int
  | OpDelete int int "int list" bool int
  | OpDeleteHistory int delete_history
  | OpEdit int "'x edit_request"

fun pm_step :: "'x send_env \<Rightarrow> 'x pm_op \<Rightarrow> 'x message_store \<Rightarrow> 'x message_store" where
  "pm_step env (OpSend now req) s = fst (SendPrivateText env now req s)"
| "pm_step env (OpRead now owner p maxID date) s = fst (ReadHistory now owner p maxID date s)"
| "pm_step env (OpDelete now owner ids revoke date) s = fst (DeleteMessages now owner ids revoke date s)"
| "pm_step env (OpDeleteHistory now r) s = fst (DeleteHistory now r s)"
| "pm_step env (OpEdit now req) s = fst (EditMessage now req s)"

definition pm_run :: "'x send_env \<Rightarrow> 'x pm_op list \<Rightarrow> 'x message_store \<Rightarrow> 'x message_store" where
  "pm_run env ops s = fold (pm_step env) ops s"

lemma pm_run_snoc [simp]: "pm_run env (ops @ [op]) s = pm_step env op (pm_run env ops s)" "pm_run env [] s = s"
  by (simp_all add: pm_run_def)

lemma pm_step_nextBox:
  shows "ms_nextBox s u \<le> ms_nextBox (pm_step env op s) u"
proof (cases op)
  case (OpSend now req)
  show ?thesis unfolding OpSend pm_step.simps SendPrivateText_def
    by (auto split: option.split) (metis sendPrivateTextLocked_cases commit_nextBox order_refl)
next
  case (OpDelete now owner ids revoke date)
  show ?thesis unfolding OpDelete pm_step.simps
  proof (cases rule: DeleteMessages_cases [where P = "\<lambda>_. {}" and now = now and owner = owner and ids = ids and revoke = revoke and date = date and s = s])
    case (deleted rows s1 date') then show "ms_nextBox s u \<le> ms_nextBox (fst (DeleteMessages now owner ids revoke date s)) u" by (simp add: finish_nextBox)
  qed simp
next
  case (OpDeleteHistory now r)
  show ?thesis unfolding OpDeleteHistory pm_step.simps
  proof (cases rule: DeleteHistory_cases [where P = "\<lambda>_. {}" and now = now and r = r and s = s])
    case (deleted rows s1 date') then show "ms_nextBox s u \<le> ms_nextBox (fst (DeleteHistory now r s)) u" by (simp add: finish_nextBox)
  qed simp
qed (auto simp: ReadHistory_frame EditMessage_frame)

lemma pm_step_ok:
  assumes "pm_ok (\<lambda>_. {}) s" "\<And>u. ms_nextBox s u \<le> MaxMessageBoxID"
  shows "pm_ok (\<lambda>_. {}) (pm_step env op s)"
  using assms by (cases op) (auto simp: SendPrivateText_ok ReadHistory_ok DeleteMessages_ok DeleteHistory_ok EditMessage_ok)

lemma new_store_ok: "pm_ok (\<lambda>_. {}) NewMessageStore"
  by (auto simp: pm_ok_def pm_view_def NewMessageStore_def cores_def box_ok_def dlg_ok_def copies_def receipts_def)

lemma pm_step_users: "users_ok s \<Longrightarrow> users_ok (pm_step env op s)"
  by (cases op) (auto simp: SendPrivateText_users DeleteMessages_users DeleteHistory_users EditMessage_users intro: users_ok_frame simp: ReadHistory_frame)

text \<open>Every step keeps the invariants while message ids are in range, and box counters never go back.\<close>

definition pm_inv :: "'x message_store \<Rightarrow> bool" where
  "pm_inv s \<longleftrightarrow> users_ok s \<and> ((\<forall>u. ms_nextBox s u \<le> MaxMessageBoxID) \<longrightarrow> pm_ok (\<lambda>_. {}) s)"

interpretation messages: monotone_system "\<lambda>s s'. \<exists>op. s' = pm_step env op s" pm_inv "\<lambda>s s'. \<forall>u. ms_nextBox s u \<le> ms_nextBox s' u" for env
proof
  fix s s' assume inv: "pm_inv s" and "\<exists>op. s' = pm_step env op s"
  then obtain op where s': "s' = pm_step env op s" by blast
  show le: "\<forall>u. ms_nextBox s u \<le> ms_nextBox s' u" unfolding s' by (blast intro: pm_step_nextBox)
  have "pm_ok (\<lambda>_. {}) s'" if lim: "\<forall>u. ms_nextBox s' u \<le> MaxMessageBoxID"
  proof -
    have "ms_nextBox s u \<le> MaxMessageBoxID" for u using le lim by (meson order_trans)
    then show ?thesis unfolding s' using inv pm_step_ok [of s env op] by (simp add: pm_inv_def)
  qed
  then show "pm_inv s'" using inv pm_step_users [of s env op] by (simp add: pm_inv_def s')
qed (auto intro: order_trans)

lemma pm_run_steps: "(\<lambda>s s'. \<exists>op. s' = pm_step env op s)\<^sup>*\<^sup>* s (pm_run env ops s)"
  by (induction ops rule: rev_induct) (auto intro: rtranclp.rtrancl_into_rtrancl)

lemma new_store_inv: "pm_inv (NewMessageStore :: 'x message_store)"
proof -
  have "users_ok (NewMessageStore :: 'x message_store)" by (simp add: users_ok_def NewMessageStore_def)
  then show ?thesis by (simp add: pm_inv_def new_store_ok)
qed

lemmas pm_run_inv = messages.run_inv [OF pm_run_steps new_store_inv]

lemma pm_run_ok:
  "\<forall>u. ms_nextBox (pm_run env ops NewMessageStore) u \<le> MaxMessageBoxID \<Longrightarrow> pm_ok (\<lambda>_. {}) (pm_run env ops NewMessageStore)"
  using pm_run_inv by (auto simp: pm_inv_def)

lemma pm_run_users: "users_ok (pm_run env ops NewMessageStore)"
  using pm_run_inv by (auto simp: pm_inv_def)

text \<open>
  C8. After any run of sends, reads, deletions and edits whose boxes stay within the range of message ids,
  every dialog shows the newest message of its conversation and counts exactly the incoming messages
  above its read mark, every message has a dialog, no conversation has two, and the messages of a box
  have increasing ids.
\<close>
theorem dialog_counters_exact:
  assumes "\<forall>u. ms_nextBox (pm_run env ops NewMessageStore) u \<le> MaxMessageBoxID"
  defines "s \<equiv> pm_run env ops NewMessageStore"
  shows "sorted_wrt (<) (map pm_ID (ms_m s u)) \<and> distinct (map dg_Peer (ms_dialogs s u))
    \<and> pm_Peer ` set (ms_m s u) = dg_Peer ` set (ms_dialogs s u)
    \<and> (\<forall>d \<in> set (ms_dialogs s u).
         dg_TopMessage d = Max (pm_ID ` {m \<in> set (ms_m s u). pm_Peer m = dg_Peer d})
       \<and> dg_UnreadCount d = int (length (filter (\<lambda>m. pm_Peer m = dg_Peer d \<and> \<not> pm_Out m \<and> pm_ID m > dg_ReadInboxMaxID d) (ms_m s u))))"
proof -
  have ok: "pm_ok (\<lambda>_. {}) s" unfolding s_def by (rule pm_run_ok [OF assms(1)])
  note b = pm_okD(3) [OF ok, of u, unfolded cores_def] and d = pm_okD(4) [OF ok, of u, unfolded cores_def]
  have "sorted_wrt (<) (map pm_ID (ms_m s u))" using b by (auto simp: box_ok_def sorted_wrt_map elim: sorted_wrt_mono_rel [rotated])
  moreover have "pm_Peer ` set (ms_m s u) = dg_Peer ` set (ms_dialogs s u)"
  proof
    show "pm_Peer ` set (ms_m s u) \<subseteq> dg_Peer ` set (ms_dialogs s u)" using dlg_okD(6) [OF d] by force
    have "dg_Peer e \<in> pm_Peer ` set (ms_m s u)" if "e \<in> set (ms_dialogs s u)" for e using dlg_okD(7) [OF d that] by (force simp: top_of_def)
    then show "dg_Peer ` set (ms_dialogs s u) \<subseteq> pm_Peer ` set (ms_m s u)" by blast
  qed
  moreover have "dg_TopMessage e = Max (pm_ID ` {m \<in> set (ms_m s u). pm_Peer m = dg_Peer e})" if "e \<in> set (ms_dialogs s u)" for e
    using dlg_okD(7) [OF d that] by (intro Max_eqI [symmetric]) (auto simp: top_of_def intro: rev_image_eqI)
  moreover have "dg_UnreadCount e = incoming_unread (dg_Peer e) (dg_ReadInboxMaxID e) (ms_m s u)" if "e \<in> set (ms_dialogs s u)" for e
    using dlg_okD(8) [OF d that] incoming_unread_card [OF box_ok_distinct [OF b]] by simp
  ultimately show ?thesis using dlg_okD(1) [OF d] by (simp add: incoming_unread_def)
qed

text \<open>
  C10. Read receipts tell the truth: if an account's dialog shows its copy of a message as read by the other
  side, the dialog of the other side has read past its own copy of the same message.
\<close>
theorem read_receipts_truthful:
  assumes "\<forall>u. ms_nextBox (pm_run env ops NewMessageStore) u \<le> MaxMessageBoxID"
  defines "s \<equiv> pm_run env ops NewMessageStore"
  assumes "u \<noteq> v" "a \<in> set (ms_m s u)" "b \<in> set (ms_m s v)" "pm_UID a = pm_UID b"
    "d \<in> set (ms_dialogs s u)" "dg_Peer d = pm_Peer a" "pm_ID a \<le> dg_ReadOutboxMaxID d"
  shows "pm_Peer a = user_peer v \<and> pm_Peer b = user_peer u
    \<and> (\<exists>e \<in> set (ms_dialogs s v). dg_Peer e = user_peer u \<and> pm_ID b \<le> dg_ReadInboxMaxID e)"
proof -
  have ok: "pm_ok (\<lambda>_. {}) s" unfolding s_def by (rule pm_run_ok [OF assms(1)])
  have c: "core a \<in> set (cores (ms_m s) u)" "core b \<in> set (cores (ms_m s) v)" "c_UID (core a) = c_UID (core b)" using assms(4-6) by (auto simp: cores_def)
  have p: "c_Peer (core a) = user_peer v \<and> c_Peer (core b) = user_peer u" by (rule copiesD [OF pm_okD(5) [OF ok] assms(3) c])
  obtain e where "e \<in> set (ms_dialogs s v)" "dg_Peer e = user_peer u" "c_ID (core b) \<le> dg_ReadInboxMaxID e"
    by (rule receiptsE [OF pm_okD(6) [OF ok] assms(3) c(1,2) assms(7) c(3)]) (use assms(8,9) p in auto)
  with p show ?thesis by auto
qed

section \<open>The receipts of sends\<close>

definition same_receipt :: "'x dedup_record \<Rightarrow> 'x dedup_record \<Rightarrow> bool" where
  "same_receipt a b \<longleftrightarrow> a\<lparr>dr_senderDeleteEvent := None\<rparr> = b\<lparr>dr_senderDeleteEvent := None\<rparr>"

text \<open>A receipt, and the message it stands for unless its deletion is recorded.\<close>

definition receipt_kept :: "int \<times> int \<Rightarrow> 'x dedup_record \<Rightarrow> mcore \<Rightarrow> mcore set \<Rightarrow> 'x message_store \<Rightarrow> bool" where
  "receipt_kept key r0 c pending s \<longleftrightarrow> (\<exists>r. ms_dedup s key = Some r \<and> same_receipt r r0
     \<and> (c \<in> set (cores (ms_m s) (fst key)) \<or> c \<in> pending \<or> dr_senderDeleteEvent r \<noteq> None))"

lemma same_receiptD:
  assumes "same_receipt a b"
  shows "dr_recipientUserID a = dr_recipientUserID b" "dr_senderSnapshot a = dr_senderSnapshot b" "dr_fingerprint a = dr_fingerprint b"
    "dr_recipientMessage a = dr_recipientMessage b"
  using assms by (cases a; cases b; simp add: same_receipt_def)+

lemma same_receipt_refl [simp]: "same_receipt a a" by (simp add: same_receipt_def)

lemma receipt_keptE:
  assumes "receipt_kept key r0 c pending s"
  obtains r where "ms_dedup s key = Some r" "same_receipt r r0" "c \<in> set (cores (ms_m s) (fst key)) \<or> c \<in> pending \<or> dr_senderDeleteEvent r \<noteq> None"
  using assms by (auto simp: receipt_kept_def)

lemma receipt_kept_frame:
  assumes "receipt_kept key r0 c pending s" "ms_dedup s' key = ms_dedup s key" "set (cores (ms_m s) (fst key)) \<subseteq> set (cores (ms_m s') (fst key))"
  shows "receipt_kept key r0 c pending s'"
  using assms unfolding receipt_kept_def by auto

lemma commit_dedup:
  "ms_dedup (commit_send req fp snap a b s) = (if sr_RandomID req \<noteq> 0 then (ms_dedup s)((sr_SenderUserID req, sr_RandomID req) \<mapsto>
     \<lparr>dr_recipientUserID = sr_RecipientUserID req, dr_senderSnapshot = snap, dr_recipientMessage = immutablePrivateSendReceipt b,
      dr_fingerprint = fp, dr_senderDeleteEvent = None\<rparr>) else ms_dedup s)"
  by (auto simp: commit_send_def Let_def set_box_def upsertMemoryDialogsLocked_def)

lemma commit_boxes: "set (ms_m s u) \<subseteq> set (ms_m (commit_send req fp snap a b s) u)"
  by (auto simp: commit_send_def Let_def set_box_def upsertMemoryDialogsLocked_def)

lemma SendPrivateText_keeps:
  assumes k: "receipt_kept key r0 c {} s" shows "receipt_kept key r0 c {} (fst (SendPrivateText env now req s))"
proof (cases "\<not> HasContent req \<or> PrivateSendFingerprint env req = None")
  case False
  then obtain fp where fp: "PrivateSendFingerprint env req = Some fp" by auto
  have "receipt_kept key r0 c {} (fst (sendPrivateTextLocked env now req fp s))"
  proof (cases rule: sendPrivateTextLocked_cases [of env now req fp s])
    case (2 r r' snap req')
    obtain rec where "ms_dedup s key = Some rec" by (rule receipt_keptE [OF k])
    then have "key \<noteq> (sr_SenderUserID req, sr_RandomID req)" using 2(1) by auto
    then have d: "ms_dedup (fst (sendPrivateTextLocked env now req fp s)) key = ms_dedup s key" unfolding 2(4) commit_dedup using 2(2) by auto
    have "set (cores (ms_m s) (fst key)) \<subseteq> set (cores (ms_m (fst (sendPrivateTextLocked env now req fp s))) (fst key))"
      unfolding 2(4) cores_def set_map by (rule image_mono) (rule commit_boxes)
    then show ?thesis by (rule receipt_kept_frame [OF k d])
  qed (use k in simp)
  then show ?thesis using False fp by (simp add: SendPrivateText_def)
qed (use k in \<open>auto simp: SendPrivateText_def\<close>)

lemma removed_keeps:
  assumes "receipt_kept key r0 c {} s" "removed rows s s'" shows "receipt_kept key r0 c (core ` set (rows_of (fst key) rows)) s'"
proof -
  obtain Q where "cores (ms_m s') (fst key) = filter Q (cores (ms_m s) (fst key))"
    "\<forall>c \<in> set (cores (ms_m s) (fst key)). \<not> Q c \<longrightarrow> c \<in> core ` set (rows_of (fst key) rows)" using assms(2) unfolding removed_def by blast
  moreover have "ms_dedup s' = ms_dedup s" using assms(2) by (simp add: removed_def)
  ultimately show ?thesis using assms(1) unfolding receipt_kept_def by auto
qed

lemma finish_owner_dedup:
  "fst key \<noteq> u \<Longrightarrow> ms_dedup (fst (finish_owner rows date anchors u s)) key = ms_dedup s key"
  by (cases rule: finish_owner_cases [of u rows anchors date s])
    (auto simp: complete_delete_def Let_def rebuild_fold_frame set_box_def advanceMemoryHistoryClearDialogLocked_def mark_deleted_sends_def split: option.split)

lemma finish_owner_marks:
  assumes "new_anchor anchors u = None" "ids_good (rows_of u rows)"
  shows "ms_m (fst (finish_owner rows date anchors u s)) = ms_m s"
    "\<exists>e. ms_dedup (fst (finish_owner rows date anchors u s)) =
       (if rows_of u rows = [] then ms_dedup s else ms_dedup (mark_deleted_sends u (rows_of u rows) e s))"
proof (atomize (full), cases rule: finish_owner_cases [of u rows anchors date s])
  case skip then show "ms_m (fst (finish_owner rows date anchors u s)) = ms_m s \<and> (\<exists>e. ms_dedup (fst (finish_owner rows date anchors u s)) =
       (if rows_of u rows = [] then ms_dedup s else ms_dedup (mark_deleted_sends u (rows_of u rows) e s)))"
    using normalize_empty [OF assms(2)] by simp
next
  case (finish event pts editPts)
  have ev: "event = None \<longleftrightarrow> rows_of u rows = []" using finish(1) normalize_empty [OF assms(2)] by simp
  show "ms_m (fst (finish_owner rows date anchors u s)) = ms_m s \<and> (\<exists>e. ms_dedup (fst (finish_owner rows date anchors u s)) =
       (if rows_of u rows = [] then ms_dedup s else ms_dedup (mark_deleted_sends u (rows_of u rows) e s)))"
    using ev by (cases event) (auto simp: finish(2) assms(1) complete_delete_def Let_def rebuild_fold_frame mark_deleted_sends_def intro!: exI)
qed

lemma finish_owner_keeps:
  assumes k: "receipt_kept (u, i) r0 c (core ` set (rows_of u rows)) s" and a: "new_anchor anchors u = None" "ids_good (rows_of u rows)"
    and c: "peer_id (c_From c) = u" "c_RandomID c = i" "c_UID c \<noteq> 0" "i \<noteq> 0"
  shows "receipt_kept (u, i) r0 c {} (fst (finish_owner rows date anchors u s))"
proof -
  let ?s = "fst (finish_owner rows date anchors u s)"
  obtain r where r: "ms_dedup s (u, i) = Some r" "same_receipt r r0" "c \<in> set (cores (ms_m s) u) \<or> c \<in> core ` set (rows_of u rows) \<or> dr_senderDeleteEvent r \<noteq> None"
    using receipt_keptE [OF k] by auto
  obtain e where e: "ms_dedup ?s = (if rows_of u rows = [] then ms_dedup s else ms_dedup (mark_deleted_sends u (rows_of u rows) e s))"
    using finish_owner_marks(2) [OF a] by blast
  have m: "ms_m ?s = ms_m s" by (rule finish_owner_marks(1) [OF a])
  show ?thesis
  proof (cases "c \<in> core ` set (rows_of u rows)")
    case True
    then obtain x where x: "x \<in> set (rows_of u rows)" "c = core x" by auto
    then have "ms_dedup ?s (u, i) = Some (r\<lparr>dr_senderDeleteEvent := Some e\<rparr>)"
      using e r(1) c by (auto simp: mark_deleted_sends_def list_ex_iff)
    then show ?thesis using r(2) by (simp add: receipt_kept_def same_receipt_def)
  next
    case False
    have "\<exists>r'. ms_dedup ?s (u, i) = Some r' \<and> same_receipt r' r0 \<and> (dr_senderDeleteEvent r \<noteq> None \<longrightarrow> dr_senderDeleteEvent r' \<noteq> None)"
      using e r(1,2) by (auto simp: mark_deleted_sends_def same_receipt_def)
    then show ?thesis using r(3) False m by (auto simp: receipt_kept_def)
  qed
qed


lemma finish_step_keeps:
  assumes k: "receipt_kept (u, i) r0 c pending (fst acc)" and a: "new_anchor anchors u = None" "ids_good (rows_of u rows)"
    and c: "peer_id (c_From c) = u" "c_RandomID c = i" "c_UID c \<noteq> 0" "i \<noteq> 0" and p: "pending \<subseteq> core ` set (rows_of u rows)"
  shows "receipt_kept (u, i) r0 c (if w = u then {} else pending) (fst (finish_step rows date anchors w acc))"
proof (cases "w = u")
  case True
  have "receipt_kept (u, i) r0 c (core ` set (rows_of u rows)) (fst acc)" using k p unfolding receipt_kept_def by blast
  from finish_owner_keeps [OF this a c] show ?thesis using True by (simp add: finish_step_fst)
next
  case False
  then show ?thesis using k by (auto simp: finish_step_fst intro!: receipt_kept_frame [OF k] finish_owner_dedup simp: finish_owner_frame cores_def)
qed

lemma finish_fold_keeps:
  assumes "receipt_kept (u, i) r0 c pending (fst acc)" "new_anchor anchors u = None" "ids_good (rows_of u rows)"
    "peer_id (c_From c) = u" "c_RandomID c = i" "c_UID c \<noteq> 0" "i \<noteq> 0" "pending \<subseteq> core ` set (rows_of u rows)"
  shows "receipt_kept (u, i) r0 c (if u \<in> set us then {} else pending) (fst (fold (finish_step rows date anchors) us acc))"
  using assms
proof (induction us arbitrary: acc pending)
  case (Cons w us)
  have "receipt_kept (u, i) r0 c (if w = u then {} else pending) (fst (finish_step rows date anchors w acc))"
    by (rule finish_step_keeps [OF Cons.prems])
  from Cons.IH [OF this Cons.prems(2-7)] Cons.prems(8) show ?case by (cases "w = u") (simp_all split: if_splits)
qed simp

lemma finish_keeps:
  assumes k: "receipt_kept (u, i) r0 c {} s" and r: "removed rows s s'" and a: "new_anchor anchors u = None" "ids_good (rows_of u rows)"
    and c: "peer_id (c_From c) = u" "c_RandomID c = i" "c_UID c \<noteq> 0" "i \<noteq> 0"
  shows "receipt_kept (u, i) r0 c {} (fst (finishMemoryDeleteLocked rows date anchors anchored s'))"
proof -
  let ?us = "delete_owners rows anchors anchored"
  have "receipt_kept (u, i) r0 c (core ` set (rows_of u rows)) s'" using removed_keeps [OF k r] by simp
  then have "receipt_kept (u, i) r0 c (if u \<in> set ?us then {} else core ` set (rows_of u rows)) (fst (finishMemoryDeleteLocked rows date anchors anchored s'))"
    unfolding finishMemoryDeleteLocked_def by (intro finish_fold_keeps [OF _ a c]) auto
  moreover have "u \<notin> set ?us \<Longrightarrow> rows_of u rows = []" by (force simp: delete_owners_def rows_of_def filter_empty_conv)
  ultimately show ?thesis by (cases "u \<in> set ?us") auto
qed

lemma removed_ids_good:
  assumes "pm_ok P s" "removed rows s s'" "ms_nextBox s u \<le> MaxMessageBoxID" shows "ids_good (rows_of u rows)"
proof -
  have "set (rows_of u rows) \<subseteq> set (ms_m s u)" using assms(2) by (simp add: removed_def)
  then show ?thesis using pm_okD(3) [OF assms(1), of u] assms(3) by (fastforce simp: ids_good_def box_ok_def cores_def)
qed

fun just_clear :: "'x pm_op \<Rightarrow> bool" where
  "just_clear (OpDeleteHistory now r) = dh_JustClear r"
| "just_clear _ = False"

lemma pm_step_keeps:
  assumes k: "receipt_kept (u, i) r0 c {} s" and ok: "pm_ok (\<lambda>_. {}) s" and lim: "ms_nextBox s u \<le> MaxMessageBoxID" and j: "\<not> just_clear op"
    and c: "peer_id (c_From c) = u" "c_RandomID c = i" "c_UID c \<noteq> 0" "i \<noteq> 0"
  shows "receipt_kept (u, i) r0 c {} (pm_step env op s)"
proof (cases op)
  case (OpSend now req) then show ?thesis using SendPrivateText_keeps [OF k] by simp
next
  case (OpRead now owner p maxID date) then show ?thesis by (auto intro!: receipt_kept_frame [OF k] simp: ReadHistory_frame)
next
  case (OpEdit now req) then show ?thesis by (auto intro!: receipt_kept_frame [OF k] simp: EditMessage_frame)
next
  case (OpDelete now owner ids revoke date)
  show ?thesis unfolding OpDelete pm_step.simps
  proof (cases rule: DeleteMessages_cases [where P = "\<lambda>_. {}" and now = now and owner = owner and ids = ids and revoke = revoke and date = date and s = s])
    case (deleted rows s1 date')
    note r = deleted(1) [OF ok]
    show "receipt_kept (u, i) r0 c {} (fst (DeleteMessages now owner ids revoke date s))" unfolding deleted(3)
      by (rule finish_keeps [OF k r _ removed_ids_good [OF ok r lim] c]) (simp add: new_anchor_def)
  qed (use k in simp)
next
  case (OpDeleteHistory now r)
  have none: "clear_anchors r s = Map.empty" using j OpDeleteHistory by (simp add: clear_anchors_def)
  show ?thesis unfolding OpDeleteHistory pm_step.simps
  proof (cases rule: DeleteHistory_cases [where P = "\<lambda>_. {}" and now = now and r = r and s = s])
    case (deleted rows s1 date')
    note rem = deleted(1) [OF ok]
    show "receipt_kept (u, i) r0 c {} (fst (DeleteHistory now r s))" unfolding deleted(4)
      by (rule finish_keeps [OF k rem _ removed_ids_good [OF ok rem lim] c]) (simp add: new_anchor_def none)
  qed (use k in simp)
qed

lemma pm_run_Cons: "pm_run env (ops @ ops') s = pm_run env ops' (pm_run env ops s)" by (simp add: pm_run_def)

lemma pm_run_nextBox: "ms_nextBox s u \<le> ms_nextBox (pm_run env ops s) u"
proof (induction ops rule: rev_induct)
  case (snoc op ops)
  then show ?case using pm_step_nextBox [of "pm_run env ops s" u env op] by simp
qed simp

lemma pm_run_keeps:
  assumes "receipt_kept (u, i) r0 c {} s" "pm_ok (\<lambda>_. {}) s" "\<forall>v. ms_nextBox (pm_run env ops s) v \<le> MaxMessageBoxID" "\<forall>op \<in> set ops. \<not> just_clear op"
    "peer_id (c_From c) = u" "c_RandomID c = i" "c_UID c \<noteq> 0" "i \<noteq> 0"
  shows "receipt_kept (u, i) r0 c {} (pm_run env ops s) \<and> pm_ok (\<lambda>_. {}) (pm_run env ops s)"
  using assms
proof (induction ops rule: rev_induct)
  case (snoc op ops)
  let ?s = "pm_run env ops s"
  have lim: "ms_nextBox ?s v \<le> MaxMessageBoxID" for v
    using snoc.prems(3) pm_step_nextBox [of ?s v env op] by (auto intro: order_trans)
  have ih: "receipt_kept (u, i) r0 c {} ?s" "pm_ok (\<lambda>_. {}) ?s" using snoc lim by auto
  have "receipt_kept (u, i) r0 c {} (pm_step env op ?s)" by (rule pm_step_keeps [OF ih lim]) (use snoc.prems in auto)
  moreover have "pm_ok (\<lambda>_. {}) (pm_step env op ?s)" by (rule pm_step_ok [OF ih(2) lim])
  ultimately show ?case by simp
qed simp

text \<open>The properties of the JSON codec and of the digest that the store relies on.\<close>

definition env_ok :: "'x send_env \<Rightarrow> bool" where
  "env_ok env \<longleftrightarrow> (\<forall>m raw. se_marshal env m = Some raw \<longrightarrow> se_unmarshal env raw = Some m)
     \<and> (\<forall>req d. se_digest env req = Some d \<longrightarrow> length d = 32)"

lemma fingerprint_length: "env_ok env \<Longrightarrow> PrivateSendFingerprint env req = Some fp \<Longrightarrow> length fp = 32"
  by (auto simp: PrivateSendFingerprint_def env_ok_def split: if_splits)

lemma snapshot_roundtrip:
  assumes "env_ok env" "EncodePrivateSendSnapshot env m = Some snap"
  shows "DecodePrivateSendSnapshot env snap = Some m"
  using assms by (auto simp: EncodePrivateSendSnapshot_def DecodePrivateSendSnapshot_def env_ok_def split: if_splits)

lemma newMessageEvent_receipt:
  "ev_Pts (newMessageEvent (immutablePrivateSendReceipt m)) = ev_Pts (newMessageEvent m)"
  "pm_ID (immutablePrivateSendReceipt m) = pm_ID m"
  by (simp_all add: newMessageEvent_def immutablePrivateSendReceipt_def)

text \<open>A first send leaves its receipt, with its message in the sender's box.\<close>

lemma first_send_receipt:
  assumes e: "env_ok env" and ok: "pm_ok (\<lambda>_. {}) s0" and r: "sr_RandomID req \<noteq> 0"
    and send: "SendPrivateText env now req s0 = (s1, Inr res)" "\<not> sd_Duplicate res"
  obtains rec fp where "HasContent req" "PrivateSendFingerprint env req = Some fp" "dr_fingerprint rec = fp" "length fp = 32"
    "dr_recipientUserID rec = sr_RecipientUserID req" "DecodePrivateSendSnapshot env (dr_senderSnapshot rec) = Some (sd_SenderMessage res)"
    "dr_recipientMessage rec = immutablePrivateSendReceipt (sd_RecipientMessage res)"
    "sd_SenderEvent res = newMessageEvent (sd_SenderMessage res)" "sd_RecipientEvent res = newMessageEvent (sd_RecipientMessage res)"
    "receipt_kept (sr_SenderUserID req, sr_RandomID req) rec (core (sd_SenderMessage res)) {} s1" "pm_ok (\<lambda>_. {}) s1"
    "pm_From (sd_SenderMessage res) = user_peer (sr_SenderUserID req)" "pm_RandomID (sd_SenderMessage res) = sr_RandomID req"
    "pm_UID (sd_SenderMessage res) \<noteq> 0"
proof -
  obtain fp where fp: "HasContent req" "PrivateSendFingerprint env req = Some fp" "sendPrivateTextLocked env now req fp s0 = (s1, Inr res)"
    using send(1) by (auto simp: SendPrivateText_def split: if_splits option.splits)
  have s1: "pm_ok (\<lambda>_. {}) s1" using SendPrivateText_ok [OF ok, of env now req] send(1) by simp
  show thesis
  proof (cases rule: sendPrivateTextLocked_cases [of env now req fp s0])
    case 1
    have "lookupPrivateSendReplayLocked env (sr_SenderUserID req) (sr_RecipientUserID req) (sr_RandomID req) fp s0 \<noteq> Inr (Some res)"
      using send(2) by (auto simp: lookupPrivateSendReplayLocked_def Let_def split: option.splits if_splits)
    moreover have "ms_nextUID (commit_send q fp' sn (sender_message q x s0) (recipient_message q y (sender_message q x s0) s0) s0) \<noteq> ms_nextUID s0" for q fp' sn x y
      using commit_one(1) [of q s0 fp' sn x y] commit_two(1) [of q s0 fp' sn x y] pm_okD(2) [OF ok] by (cases "two_boxes q") auto
    ultimately have False using 1 fp(3) by (auto simp: sendPrivateTextLocked_def Let_def split: sum.splits option.splits prod.splits if_splits) metis+
    then show thesis ..
  next
    case (2 x y snap q)
    have q: "sr_SenderUserID q = sr_SenderUserID req" "sr_RecipientUserID q = sr_RecipientUserID req" "sr_RandomID q = sr_RandomID req"
      using 2(2) by auto
    let ?a = "sender_message q x s0" and ?b = "recipient_message q y (sender_message q x s0) s0"
    let ?rec = "\<lparr>dr_recipientUserID = sr_RecipientUserID q, dr_senderSnapshot = snap, dr_recipientMessage = immutablePrivateSendReceipt ?b,
      dr_fingerprint = fp, dr_senderDeleteEvent = None\<rparr>"
    have res: "res = \<lparr>sd_SenderMessage = ?a, sd_RecipientMessage = ?b, sd_SenderEvent = newMessageEvent ?a,
         sd_RecipientEvent = newMessageEvent ?b, sd_Duplicate = False, sd_ReplayDeleteEvent = None\<rparr>" using 2(5) fp(3) by simp
    have s1': "s1 = commit_send q fp snap ?a ?b s0" using 2(4) fp(3) by simp
    have "ms_dedup s1 (sr_SenderUserID req, sr_RandomID req) = Some ?rec" unfolding s1' commit_dedup using r q by simp
    moreover have "?a \<in> set (ms_m s1 (sr_SenderUserID req))"
      unfolding s1' using q commit_one(3) [of q s0 fp snap x y] commit_two(3) [of q s0 fp snap x y] pm_okD(2) [OF ok]
      by (cases "two_boxes q") (auto simp: two_boxes_def)
    ultimately have k: "receipt_kept (sr_SenderUserID req, sr_RandomID req) ?rec (core ?a) {} s1" by (simp add: receipt_kept_def cores_def)
    have snap: "DecodePrivateSendSnapshot env snap = Some ?a" by (rule snapshot_roundtrip [OF e 2(3) [OF r]])
    show thesis
      by (rule that [of fp ?rec]) (use fp res k snap q fingerprint_length [OF e fp(2)] s1 pm_okD(1) [OF ok] in \<open>auto\<close>)
  qed
qed

text \<open>
  C9. A send takes effect once: after a first send with a random id, and any operations but those that
  clear a history in place, sending the same request again changes nothing and returns the event of
  the first send, the same message and the same recipient copy, and says so. The JSON codec and the
  digest are as \<open>env_ok\<close> says.
\<close>
theorem send_exactly_once:
  assumes e: "env_ok env"
    and first: "SendPrivateText env now req (pm_run env ops0 NewMessageStore) = (s1, Inr res)" "sr_RandomID req \<noteq> 0" "\<not> sd_Duplicate res"
    and lim: "\<forall>u. ms_nextBox (pm_run env ops s1) u \<le> MaxMessageBoxID" and keep: "\<forall>op \<in> set ops. \<not> just_clear op"
  defines "s2 \<equiv> pm_run env ops s1"
  shows "\<exists>again. SendPrivateText env now' req s2 = (s2, Inr again) \<and> sd_Duplicate again
    \<and> sd_SenderEvent again = sd_SenderEvent res
    \<and> pm_ID (sd_SenderMessage again) = pm_ID (sd_SenderMessage res) \<and> pm_UID (sd_SenderMessage again) = pm_UID (sd_SenderMessage res)
    \<and> pm_ID (sd_RecipientMessage again) = pm_ID (sd_RecipientMessage res) \<and> ev_Pts (sd_RecipientEvent again) = ev_Pts (sd_RecipientEvent res)
    \<and> (sd_SenderMessage again \<in> set (ms_m s2 (sr_SenderUserID req)) \<or> sd_ReplayDeleteEvent again \<noteq> None)"
proof -
  let ?s0 = "pm_run env ops0 NewMessageStore" and ?u = "sr_SenderUserID req" and ?i = "sr_RandomID req"
  have "ms_nextBox ?s0 u \<le> MaxMessageBoxID" for u
  proof -
    have "ms_nextBox ?s0 u \<le> ms_nextBox s1 u" using pm_step_nextBox [of ?s0 u env "OpSend now req"] first(1) by simp
    also have "\<dots> \<le> ms_nextBox (pm_run env ops s1) u" by (rule pm_run_nextBox)
    finally show ?thesis using lim by (auto intro: order_trans)
  qed
  then have ok0: "pm_ok (\<lambda>_. {}) ?s0" by (intro pm_run_ok) auto
  obtain rec fp where f: "HasContent req" "PrivateSendFingerprint env req = Some fp" "dr_fingerprint rec = fp" "length fp = 32"
    "dr_recipientUserID rec = sr_RecipientUserID req" "DecodePrivateSendSnapshot env (dr_senderSnapshot rec) = Some (sd_SenderMessage res)"
    "dr_recipientMessage rec = immutablePrivateSendReceipt (sd_RecipientMessage res)"
    "sd_SenderEvent res = newMessageEvent (sd_SenderMessage res)" "sd_RecipientEvent res = newMessageEvent (sd_RecipientMessage res)"
    "receipt_kept (?u, ?i) rec (core (sd_SenderMessage res)) {} s1" "pm_ok (\<lambda>_. {}) s1"
    "pm_From (sd_SenderMessage res) = user_peer ?u" "pm_RandomID (sd_SenderMessage res) = ?i" "pm_UID (sd_SenderMessage res) \<noteq> 0"
    by (rule first_send_receipt [OF e ok0 first(2) first(1,3)])
  have "receipt_kept (?u, ?i) rec (core (sd_SenderMessage res)) {} s2 \<and> pm_ok (\<lambda>_. {}) s2" unfolding s2_def
    by (rule pm_run_keeps [OF f(10,11) lim keep]) (use f(12-14) first(2) in auto)
  then have kept: "receipt_kept (?u, ?i) rec (core (sd_SenderMessage res)) {} s2" and ok2: "pm_ok (\<lambda>_. {}) s2" by auto
  from kept obtain r where r: "ms_dedup s2 (?u, ?i) = Some r" "same_receipt r rec"
    "core (sd_SenderMessage res) \<in> set (cores (ms_m s2) ?u) \<or> dr_senderDeleteEvent r \<noteq> None" by (auto elim: receipt_keptE)
  let ?m = "sd_SenderMessage res"
  define cur where "cur = find (\<lambda>m. pm_UID m = pm_UID ?m \<and> pm_ID m = pm_ID ?m) (ms_m s2 ?u)"
  have present: "\<not> (cur = None \<and> dr_senderDeleteEvent r = None)"
    using r(3) unfolding cur_def cores_def by (auto simp: find_None_iff) (metis core_simps(1,2))
  define again where "again = \<lparr>sd_SenderMessage = (case cur of None \<Rightarrow> ?m | Some m \<Rightarrow> m\<lparr>pm_RandomID := pm_RandomID ?m\<rparr>),
    sd_RecipientMessage = dr_recipientMessage r, sd_SenderEvent = newMessageEvent ?m,
    sd_RecipientEvent = newMessageEvent (dr_recipientMessage r), sd_Duplicate = True, sd_ReplayDeleteEvent = dr_senderDeleteEvent r\<rparr>"
  have "lookupPrivateSendReplayLocked env ?u (sr_RecipientUserID req) ?i fp s2 = Inr (Some again)"
    using r(1) same_receiptD [OF r(2)] f(3-6) present
    by (simp add: lookupPrivateSendReplayLocked_def SameSendFingerprint_def Let_def cur_def [symmetric] again_def)
  then have "SendPrivateText env now' req s2 = (s2, Inr again)" using f(1,2) by (simp add: SendPrivateText_def sendPrivateTextLocked_def)
  moreover have "pm_ID (sd_SenderMessage again) = pm_ID ?m \<and> pm_UID (sd_SenderMessage again) = pm_UID ?m"
    using find_Some_iff [of _ "ms_m s2 ?u"] unfolding again_def cur_def by (auto split: option.splits)
  moreover have "sd_SenderMessage again \<in> set (ms_m s2 ?u) \<or> sd_ReplayDeleteEvent again \<noteq> None"
  proof (cases "dr_senderDeleteEvent r")
    case None
    then have c: "core ?m \<in> set (cores (ms_m s2) ?u)" using r(3) by simp
    obtain m where m: "cur = Some m" using present None by auto
    then have "m \<in> set (ms_m s2 ?u)" "pm_ID m = pm_ID ?m" by (auto simp: cur_def find_Some_iff)
    moreover from this have "core m = core ?m" using box_order(2) [OF pm_okD(3) [OF ok2, of ?u] _ c, of "core m"] by (auto simp: cores_def)
    then have "pm_RandomID m = pm_RandomID ?m" by (metis core_simps(6))
    then have "m\<lparr>pm_RandomID := pm_RandomID ?m\<rparr> = m" by simp
    ultimately show ?thesis using m by (simp add: again_def)
  qed (simp add: again_def)
  ultimately show ?thesis using f(7,8,9) same_receiptD(4) [OF r(2)] by (intro exI [of _ again]) (simp add: again_def newMessageEvent_receipt)
qed

lemma deleteMemoryMessages_all:
  "deleteMemoryMessages 0 match n ms = (filter (\<lambda>m. \<not> match m) ms, filter match ms, False)"
  by (induction ms arbitrary: n) auto

lemma by_uid_boxes:
  assumes "users_ok s" "ms_m s = m"
  shows "ms_m (fst (deleteMemoryMessagesByUIDLocked uids exclude s)) = (\<lambda>u. if u = exclude then m u else filter (\<lambda>x. pm_UID x \<notin> set uids) (m u))"
proof -
  have f: "ms_m (fst (fold (\<lambda>u (s, rows). if u = exclude then (s, rows) else case delete_uids uids u s of (s', rows') \<Rightarrow> (s', rows @ rows')) us (t, rows)))
    = (\<lambda>u. if u \<in> set us \<and> u \<noteq> exclude then filter (\<lambda>m. pm_UID m \<notin> set uids) (ms_m t u) else ms_m t u)" for us t rows
    by (induction us arbitrary: t rows) (auto simp: delete_uids_def set_box_def fun_eq_iff filter_filter)
  have "m u = []" if "u \<notin> set (ms_users s)" for u using assms that by (auto simp: users_ok_def)
  then show ?thesis using assms by (auto simp: deleteMemoryMessagesByUIDLocked_def f fun_eq_iff)
qed

lemma finish_boxes:
  assumes "\<And>u. new_anchor anchors u = None" "\<And>u. ids_good (rows_of u rows)"
  shows "ms_m (fst (finishMemoryDeleteLocked rows date anchors anchored s)) = ms_m s"
proof -
  have "ms_m (fst (fold (finish_step rows date anchors) us acc)) = ms_m (fst acc)" for us acc
    by (induction us arbitrary: acc) (simp_all add: finish_step_fst finish_owner_marks(1) [OF assms])
  then show ?thesis by (simp add: finishMemoryDeleteLocked_def)
qed

lemma DeleteMessages_boxes:
  assumes ok: "pm_ok (\<lambda>_. {}) s" and users: "users_ok s" and lim: "\<And>v. ms_nextBox s v \<le> MaxMessageBoxID" and owner: "owner \<noteq> 0"
    and ids: "int (length (normalizeMemoryMessageIDs ids)) \<le> MaxDeleteMessageIDs"
  shows "ms_m (fst (DeleteMessages now owner ids revoke date s)) u =
    (if u = owner \<or> revoke then filter (\<lambda>x. pm_UID x \<notin> pm_UID ` {m \<in> set (ms_m s owner). pm_ID m \<in> set ids}) (ms_m s u) else ms_m s u)"
proof -
  let ?ids = "normalizeMemoryMessageIDs ids" and ?D = "pm_UID ` {m \<in> set (ms_m s owner). pm_ID m \<in> set ids}"
  have box: "0 < pm_ID m \<and> pm_ID m \<le> MaxMessageBoxID \<and> 0 < pm_UID m" if "m \<in> set (ms_m s v)" for m v
    using pm_okD(3) [OF ok, of v] lim [of v] that by (fastforce simp: box_ok_def cores_def)
  have in_ids: "pm_ID m \<in> set ?ids \<longleftrightarrow> pm_ID m \<in> set ids" if "m \<in> set (ms_m s v)" for m v using box [OF that] by (auto simp: normalize_set)
  have own: "pm_UID m \<in> ?D \<longleftrightarrow> pm_ID m \<in> set ids" if m: "m \<in> set (ms_m s owner)" for m
  proof
    assume "pm_UID m \<in> ?D"
    then obtain x where x: "x \<in> set (ms_m s owner)" "pm_ID x \<in> set ids" "pm_UID x = pm_UID m" by auto
    have "core x = core m" using box_order(3) [OF pm_okD(3) [OF ok, of owner], of "core x" "core m"] x m by (auto simp: cores_def)
    then show "pm_ID m \<in> set ids" using x(2) by (metis core_simps(1))
  qed (use m in blast)
  show ?thesis
  proof (cases "?ids = []")
    case True
    then have none: "?D = {}" using in_ids [of _ owner] by auto
    show ?thesis using True unfolding none by (simp add: DeleteMessages_def Let_def)
  next
    case False
    let ?gone = "map (Pair owner) (filter (\<lambda>m. pm_ID m \<in> set ?ids) (ms_m s owner))"
    let ?s1 = "set_box owner (filter (\<lambda>m. pm_ID m \<notin> set ?ids) (ms_m s owner)) s"
    have d: "deleteMemoryMessagesLocked owner 0 (\<lambda>m. pm_ID m \<in> set ?ids) s = (?s1, ?gone, False)"
      by (simp add: deleteMemoryMessagesLocked_def deleteMemoryMessages_all)
    obtain s2 by_uid where b: "(if revoke then deleteMemoryMessagesByUIDLocked (revoke_uids ?gone) owner ?s1 else (?s1, [])) = (s2, by_uid)" by fastforce
    have "removed by_uid ?s1 s2" using b by (auto split: if_splits intro: removed_by_uid)
    then have r: "removed (?gone @ by_uid) s s2" by (rule removed_trans [OF removed_locked [OF ok d]])
    have uids: "set (revoke_uids ?gone) = ?D" using box [of _ owner] in_ids [of _ owner] by (fastforce simp: revoke_uids_def)
    have s1: "users_ok ?s1" using users by (simp add: users_ok_set_box)
    have own': "filter (\<lambda>m. pm_ID m \<notin> set ?ids) (ms_m s owner) = filter (\<lambda>x. pm_UID x \<notin> ?D) (ms_m s owner)"
      by (rule filter_cong) (use own in_ids [of _ owner] in auto)
    have s2: "ms_m s2 u = (if u = owner \<or> revoke then filter (\<lambda>x. pm_UID x \<notin> ?D) (ms_m s u) else ms_m s u)"
    proof (cases revoke)
      case True
      then have "ms_m s2 = (\<lambda>v. if v = owner then ms_m ?s1 v else filter (\<lambda>x. pm_UID x \<notin> set (revoke_uids ?gone)) (ms_m ?s1 v))"
        using b by_uid_boxes [OF s1 refl, of "revoke_uids ?gone" owner] by simp
      then show ?thesis unfolding uids using True own' by (simp add: set_box_def)
    qed (use b own' in \<open>auto simp: set_box_def\<close>)
    have "ms_m (fst (finishMemoryDeleteLocked (?gone @ by_uid) dt Map.empty [] s2)) = ms_m s2" for dt
      by (rule finish_boxes [OF _ removed_ids_good [OF ok r lim]]) (simp add: new_anchor_def)
    then show ?thesis using False owner ids d b s2 by (simp add: DeleteMessages_def Let_def)
  qed
qed

text \<open>
  C18. Deleting messages is exact. The account loses the messages with the ids given and, if they are
  revoked, every other account loses the copies of these messages; nothing else leaves any box.
\<close>
theorem delete_exact:
  assumes "\<forall>u. ms_nextBox (pm_run env ops NewMessageStore) u \<le> MaxMessageBoxID" "owner \<noteq> 0"
    and ids: "int (length (normalizeMemoryMessageIDs ids)) \<le> MaxDeleteMessageIDs"
  defines "s \<equiv> pm_run env ops NewMessageStore"
  shows "ms_m (fst (DeleteMessages now owner ids revoke date s)) u =
    (if u = owner \<or> revoke then filter (\<lambda>x. pm_UID x \<notin> pm_UID ` {m \<in> set (ms_m s owner). pm_ID m \<in> set ids}) (ms_m s u) else ms_m s u)"
proof -
  have "ms_nextBox s v \<le> MaxMessageBoxID" for v using assms(1) by (simp add: s_def)
  then show ?thesis
    using DeleteMessages_boxes [OF pm_run_ok [OF assms(1)] pm_run_users _ assms(2) ids] by (simp add: s_def)
qed

section \<open>The events of a deletion\<close>

text \<open>Events that continue one another from one pts to another.\<close>

fun events_tile :: "int \<Rightarrow> 'x pm update_event list \<Rightarrow> int \<Rightarrow> bool" where
  "events_tile p [] q \<longleftrightarrow> p = q"
| "events_tile p (e # es) q \<longleftrightarrow> 0 < ev_PtsCount e \<and> ev_Pts e = p + ev_PtsCount e \<and> events_tile (ev_Pts e) es q"

lemma complete_delete_pts [simp]: "ms_nextPts (complete_delete u gone event anchor editPts peers s) = ms_nextPts s"
  by (auto simp: complete_delete_def Let_def rebuild_fold_frame set_box_def advanceMemoryHistoryClearDialogLocked_def split: option.split)

text \<open>The cursor of the code reaches the last reserved pts.\<close>

lemma finish_owner_reaches:
  "case finish_owner rows date anchors u s of
     (s', None) \<Rightarrow> s' = s
   | (s', Some item) \<Rightarrow> du_UserID item = u \<and> events_tile (ms_nextPts s u) (du_Events item) (du_Pts item)
       \<and> du_PtsCount item = du_Pts item - ms_nextPts s u \<and> ms_nextPts s' = (ms_nextPts s)(u := du_Pts item)"
proof -
  let ?ids = "normalizeMemoryMessageIDs (map pm_ID (rows_of u rows))"
  show ?thesis
    by (cases "?ids = []"; cases "new_anchor anchors u")
      (auto simp: finish_owner_def Let_def pts_step_def clear_events_def zero_event_def)
qed

definition items_ok :: "'x message_store \<Rightarrow> 'x message_store \<Rightarrow> 'x deleted_for_user list \<Rightarrow> bool" where
  "items_ok s s' items \<longleftrightarrow> distinct (map du_UserID items)
     \<and> (\<forall>item \<in> set items. events_tile (ms_nextPts s (du_UserID item)) (du_Events item) (du_Pts item)
          \<and> du_PtsCount item = du_Pts item - ms_nextPts s (du_UserID item) \<and> ms_nextPts s' (du_UserID item) = du_Pts item)
     \<and> (\<forall>u. u \<notin> du_UserID ` set items \<longrightarrow> ms_nextPts s' u = ms_nextPts s u)"

lemma items_ok_step:
  fixes rows :: "'x deleted_row list" and date :: int and anchors :: "int \<rightharpoonup> 'x pm \<times> bool"
  assumes k: "items_ok s (fst acc) (snd acc)" and new: "u \<notin> du_UserID ` set (snd acc)"
  defines "acc' \<equiv> finish_step rows date anchors u acc"
  shows "items_ok s (fst acc') (snd acc')" "du_UserID ` set (snd acc') \<subseteq> insert u (du_UserID ` set (snd acc))"
proof -
  obtain s1 it where f: "finish_owner rows date anchors u (fst acc) = (s1, it)" by fastforce
  have old: "ms_nextPts (fst acc) u = ms_nextPts s u" using k new by (simp add: items_ok_def)
  have "items_ok s (fst acc') (snd acc') \<and> du_UserID ` set (snd acc') \<subseteq> insert u (du_UserID ` set (snd acc))"
  proof (cases it)
    case None
    then show ?thesis using finish_owner_reaches [where rows = rows and date = date and anchors = anchors and u = u and s = "fst acc"] f k by (auto simp: acc'_def finish_step_def)
  next
    case (Some item)
    then have r: "du_UserID item = u" "events_tile (ms_nextPts s u) (du_Events item) (du_Pts item)"
      "du_PtsCount item = du_Pts item - ms_nextPts s u" "ms_nextPts s1 = (ms_nextPts (fst acc))(u := du_Pts item)"
      using finish_owner_reaches [where rows = rows and date = date and anchors = anchors and u = u and s = "fst acc"] f old by auto
    have "acc' = (s1, snd acc @ [item])" using f Some by (simp add: acc'_def finish_step_def)
    moreover have "x \<in> set (snd acc) \<Longrightarrow> du_UserID x \<noteq> u" for x using new by auto
    ultimately show ?thesis using k r new by (auto simp: items_ok_def)
  qed
  then show "items_ok s (fst acc') (snd acc')" "du_UserID ` set (snd acc') \<subseteq> insert u (du_UserID ` set (snd acc))" by auto
qed

lemma items_ok_fold:
  assumes "items_ok s (fst acc) (snd acc)" "distinct us" "set us \<inter> du_UserID ` set (snd acc) = {}"
  shows "items_ok s (fst (fold (finish_step rows date anchors) us acc)) (snd (fold (finish_step rows date anchors) us acc))"
  using assms
proof (induction us arbitrary: acc)
  case (Cons u us)
  have u: "u \<notin> du_UserID ` set (snd acc)" using Cons.prems(3) by auto
  note st = items_ok_step [OF Cons.prems(1) u, of rows date anchors]
  have "set us \<inter> du_UserID ` set (snd (finish_step rows date anchors u acc)) = {}" using st(2) Cons.prems(2,3) by auto
  from Cons.IH [OF st(1) _ this] Cons.prems(2) show ?case by simp
qed simp

lemma finish_items_ok:
  assumes "ms_nextPts s1 = ms_nextPts s" "finishMemoryDeleteLocked rows date anchors anchored s1 = (s', items)"
  shows "items_ok s s' items"
  using items_ok_fold [of s "(s1, [])" "delete_owners rows anchors anchored" rows date anchors] assms
  by (simp add: finishMemoryDeleteLocked_def items_ok_def delete_owners_def)

lemma locked_nextPts: "deleteMemoryMessagesLocked u limit match s = (s', rows, l) \<Longrightarrow> ms_nextPts s' = ms_nextPts s"
  by (auto simp: deleteMemoryMessagesLocked_def set_box_def split: prod.splits)

text \<open>
  C38. Clearing a history gives every account it touches events that take up exactly the pts reserved for
  it, one after another from the account's last pts without a gap, and leaves the pts of all other
  accounts alone. So the check of the code that panics when the events miss the reserved pts never fires.
\<close>
theorem delete_pts_contiguous:
  assumes "DeleteHistory now r s = (s', items, left_over)"
  shows "distinct (map du_UserID items)
    \<and> (\<forall>item \<in> set items. events_tile (ms_nextPts s (du_UserID item)) (du_Events item) (du_Pts item)
         \<and> du_PtsCount item = du_Pts item - ms_nextPts s (du_UserID item) \<and> ms_nextPts s' (du_UserID item) = du_Pts item)
    \<and> (\<forall>u. u \<notin> du_UserID ` set items \<longrightarrow> ms_nextPts s' u = ms_nextPts s u)"
proof (cases "dh_OwnerUserID r = 0 \<or> peer_id (dh_Peer r) = 0")
  case True
  then show ?thesis using assms by (auto simp: DeleteHistory_def Let_def)
next
  case False
  let ?owner = "dh_OwnerUserID r" and ?other = "peer_id (dh_Peer r)" and ?anchors = "clear_anchors r s"
  obtain s1 gone l where d: "deleteMemoryMessagesLocked ?owner MaxDeleteHistoryBatch
      (\<lambda>m. \<not> is_anchor ?anchors ?owner m \<and> pm_Peer m = dh_Peer r \<and> (dh_MaxID r \<le> 0 \<or> pm_ID m \<le> dh_MaxID r) \<and> in_date_range r m) s = (s1, gone, l)" by (rule prod_cases3)
  obtain s2 by_uid where b: "(if dh_Revoke r \<and> dh_MaxID r > 0 then deleteMemoryMessagesByUIDLocked (revoke_uids gone) ?owner s1 else (s1, [])) = (s2, by_uid)" by fastforce
  obtain s3 peer_gone l' where e: "(if dh_Revoke r \<and> dh_MaxID r \<le> 0 \<and> ?other \<noteq> ?owner
      then deleteMemoryMessagesLocked ?other MaxDeleteHistoryBatch (\<lambda>m. \<not> is_anchor ?anchors ?other m \<and> pm_Peer m = user_peer ?owner \<and> in_date_range r m) s2
      else (s2, [], False)) = (s3, peer_gone, l')" by (rule prod_cases3)
  obtain s4 items' where f: "finishMemoryDeleteLocked (gone @ by_uid @ peer_gone) (if dh_Date r = 0 then now else dh_Date r) ?anchors [?owner, ?other] s3 = (s4, items')" by fastforce
  have "removed by_uid s1 s2" using b by (auto split: if_splits intro: removed_by_uid)
  then have "ms_nextPts s3 = ms_nextPts s" using locked_nextPts [OF d] e by (auto simp: removed_def dest!: locked_nextPts split: if_splits)
  from finish_items_ok [OF this f] have "items_ok s s4 items'" .
  moreover have "s' = s4" "items = items'" using assms False d b e f by (simp_all add: DeleteHistory_def Let_def split del: if_split)
  ultimately show ?thesis by (simp add: items_ok_def)
qed

section \<open>Paging\<close>

lemma backward_scan_take:
  assumes "int (length out) < limit"
  shows "backward_scan f limit out ms = out @ take (nat limit - length out) (filter (messageBeforeHistoryOffset f) ms)"
  using assms
proof (induction ms arbitrary: out)
  case (Cons m ms)
  show ?case
  proof (cases "messageBeforeHistoryOffset f m")
    case True
    let ?out = "out @ [m]"
    have n: "nat limit - length out = Suc (nat limit - length ?out)" using Cons.prems by simp
    show ?thesis
    proof (cases "int (length ?out) = limit")
      case False
      then have "int (length ?out) < limit" using Cons.prems by simp
      from Cons.IH [OF this] show ?thesis using True False n by (simp add: Let_def)
    qed (use True n in \<open>simp add: Let_def\<close>)
  qed (use Cons in simp)
qed simp

lemma backward_page:
  "0 < limit \<Longrightarrow> backwardMessageHistory base f limit = take (nat limit) (filter (messageBeforeHistoryOffset f) base)"
  using backward_scan_take [of "[]" limit f base] by (simp add: backwardMessageHistory_def)

text \<open>The messages of a query in the order of its pages.\<close>

definition history_base :: "('x pm \<Rightarrow> bool) \<Rightarrow> message_filter \<Rightarrow> 'x pm list \<Rightarrow> 'x pm list" where
  "history_base content_fits f ms = filter (history_fits content_fits f) (newest_first ms)"

lemma history_fits_paging: "history_fits cf (f\<lparr>mf_AddOffset := a\<rparr>) = history_fits cf f" "history_fits cf (f\<lparr>mf_OffsetID := a\<rparr>) = history_fits cf f"
  by (auto simp: fun_eq_iff history_fits_def cong: if_cong)

text \<open>Fetching page after page, each from the last id of the one before.\<close>

fun history_walk :: "nat \<Rightarrow> ('x pm \<Rightarrow> bool) \<Rightarrow> message_filter \<Rightarrow> 'x pm list \<Rightarrow> 'x pm list" where
  "history_walk 0 cf f ms = []"
| "history_walk (Suc n) cf f ms =
    (let page = fst (filterMessageList cf f ms) in
     if page = [] then [] else page @ history_walk n cf (f\<lparr>mf_OffsetID := pm_ID (last page)\<rparr>) ms)"

lemma filter_key_short: "distinct (map g ms) \<Longrightarrow> length (filter (\<lambda>x. c = g x) ms) \<le> 1"
proof (induction ms)
  case (Cons m ms)
  have "filter (\<lambda>x. g m = g x) ms = []" using Cons.prems by (auto simp: filter_empty_conv)
  with Cons show ?case by auto
qed simp

lemma newest_first_sorted:
  assumes "sorted_wrt (<) (map pm_ID ms)" shows "newest_first ms = rev ms"
proof -
  have d: "distinct (map pm_ID ms)" using assms by (metis strict_sorted_iff)
  have "sorted (map (\<lambda>m. - pm_ID m) (rev ms))"
    using assms by (auto simp: sorted_wrt_map sorted_wrt_rev elim!: sorted_wrt_mono_rel [rotated])
  moreover have "filter (\<lambda>x. - pm_ID k = - pm_ID x) (rev ms) = filter (\<lambda>x. - pm_ID k = - pm_ID x) ms" for k
  proof -
    have "length (filter (\<lambda>x. pm_ID k = pm_ID x) ms) \<le> 1" by (rule filter_key_short [OF d])
    then have "rev (filter (\<lambda>x. pm_ID k = pm_ID x) ms) = filter (\<lambda>x. pm_ID k = pm_ID x) ms"
      by (cases "filter (\<lambda>x. pm_ID k = pm_ID x) ms") auto
    then show ?thesis by (simp add: rev_filter)
  qed
  ultimately show ?thesis unfolding newest_first_def by (intro properties_for_sort_key) auto
qed

lemma page_take:
  assumes "mf_AddOffset f = 0" "\<not> mf_CountOnly f"
  shows "fst (filterMessageList cf f ms) = take (nat (history_limit (mf_Limit f))) (filter (messageBeforeHistoryOffset f) (history_base cf f ms))"
proof -
  have "0 < history_limit (mf_Limit f)" by (simp add: history_limit_def Let_def)
  moreover have clamp: "f\<lparr>mf_AddOffset := ClampMessageHistoryAddOffset (mf_AddOffset f)\<rparr> = f"
    using assms by (simp add: ClampMessageHistoryAddOffset_def)
  ultimately show ?thesis using assms unfolding filterMessageList_def Let_def clamp fst_conv history_base_def [symmetric]
    by (auto simp: Let_def pageMessageHistory_def messageHistoryLoadType_def backward_page min_def split: if_splits)
qed

lemma rest_after_page:
  assumes "sorted_wrt (\<lambda>a b. pm_ID b < pm_ID a) xs" "take n xs \<noteq> []"
  shows "filter (\<lambda>m. pm_ID m < pm_ID (last (take n xs))) xs = drop n xs"
proof -
  let ?p = "take n xs" and ?r = "drop n xs"
  have s: "sorted_wrt (\<lambda>a b. pm_ID b < pm_ID a) (?p @ ?r)" using assms(1) by simp
  have "m \<in> set ?r \<Longrightarrow> pm_ID m < pm_ID (last ?p)" for m using s assms(2) unfolding sorted_wrt_append by (meson last_in_set)
  then have r: "filter (\<lambda>m. pm_ID m < pm_ID (last ?p)) ?r = ?r" by (simp add: filter_id_conv)
  have "\<not> pm_ID m < pm_ID (last ?p)" if "m \<in> set ?p" for m
  proof -
    have "sorted_wrt (\<lambda>a b. pm_ID b < pm_ID a) (butlast ?p @ [last ?p])" using s assms(2) by (simp add: sorted_wrt_append)
    moreover have "m \<in> set (butlast ?p) \<or> m = last ?p" using that assms(2) by (metis append_butlast_last_id in_set_conv_decomp rotate1.simps(2) set_ConsD set_append set_rotate1 Un_iff list.set(2) insert_iff empty_iff list.set(1))
    ultimately show ?thesis by (auto simp: sorted_wrt_append)
  qed
  then have p: "filter (\<lambda>m. pm_ID m < pm_ID (last ?p)) ?p = []" by (simp add: filter_empty_conv)
  have "filter (\<lambda>m. pm_ID m < pm_ID (last ?p)) (?p @ ?r) = ?r" unfolding filter_append p r by simp
  then show ?thesis by simp
qed

lemma history_walk_from:
  assumes s: "sorted_wrt (<) (map pm_ID ms)" "\<And>m. m \<in> set ms \<Longrightarrow> 0 < pm_ID m" and f: "mf_AddOffset f = 0" "mf_OffsetDate f \<le> 0" "\<not> mf_CountOnly f"
    and n: "length (filter (messageBeforeHistoryOffset f) (history_base cf f ms)) < n"
  shows "history_walk n cf f ms = filter (messageBeforeHistoryOffset f) (history_base cf f ms)"
  using f n
proof (induction n arbitrary: f)
  case (Suc n)
  let ?L = "nat (history_limit (mf_Limit f))" and ?xs = "filter (messageBeforeHistoryOffset f) (history_base cf f ms)"
  let ?page = "take ?L ?xs"
  have L: "0 < ?L" by (simp add: history_limit_def Let_def)
  have sub: "set ?xs \<subseteq> set ms" by (auto simp: history_base_def newest_first_def)
  have sort: "sorted_wrt (\<lambda>a b. pm_ID b < pm_ID a) ?xs"
    unfolding history_base_def newest_first_sorted [OF s(1)] using s(1) by (intro sorted_wrt_filter) (simp add: sorted_wrt_rev sorted_wrt_map)
  show ?case
  proof (cases "?page = []")
    case True
    then show ?thesis using Suc.prems(1,3) L by (simp add: page_take)
  next
    case False
    let ?f = "f\<lparr>mf_OffsetID := pm_ID (last ?page)\<rparr>"
    have "last ?page \<in> set ?xs" using False by (metis in_set_takeD last_in_set)
    then have pos: "0 < pm_ID (last ?page)" "messageBeforeHistoryOffset f (last ?page)" using sub s(2) by auto
    have base: "history_base cf ?f ms = history_base cf f ms" by (simp add: history_base_def history_fits_paging)
    have "filter (messageBeforeHistoryOffset ?f) (history_base cf ?f ms) = filter (\<lambda>m. pm_ID m < pm_ID (last ?page)) ?xs"
      unfolding base filter_filter
      by (rule filter_cong) (use pos Suc.prems(2) in \<open>auto simp: messageBeforeHistoryOffset_def split: if_splits\<close>)
    also have "\<dots> = drop ?L ?xs" by (rule rest_after_page [OF sort False])
    finally have rest: "filter (messageBeforeHistoryOffset ?f) (history_base cf ?f ms) = drop ?L ?xs" .
    have "0 < length ?xs" using False by auto
    then have "length (drop ?L ?xs) < n" unfolding length_drop using Suc.prems(4) L by linarith
    then have "history_walk n cf ?f ms = drop ?L ?xs" using Suc.IH [of ?f] Suc.prems(1-3) rest by simp
    then show ?thesis using False Suc.prems(1,3) by (simp add: page_take Let_def)
  qed
qed simp

text \<open>
  C39. Paging loses nothing: fetching the history of a query page by page, each page from the id of the
  last message before, gives all messages that fit the query, newest first, once each, whatever the
  size of a page, and ends.
\<close>
theorem history_pages_complete:
  fixes u :: int
  assumes "\<forall>u. ms_nextBox (pm_run env ops NewMessageStore) u \<le> MaxMessageBoxID"
    and "mf_AddOffset f = 0" "mf_OffsetDate f \<le> 0" "mf_OffsetID f \<le> 0" "\<not> mf_CountOnly f"
  defines "box \<equiv> ms_m (pm_run env ops NewMessageStore) u"
  assumes "length box < n"
  shows "history_walk n cf f box = filter (history_fits cf f) (rev box)"
proof -
  have ok: "pm_ok (\<lambda>_. {}) (pm_run env ops NewMessageStore)" by (rule pm_run_ok [OF assms(1)])
  note b = pm_okD(3) [OF ok, of u, unfolded cores_def, folded box_def]
  have s: "sorted_wrt (<) (map pm_ID box)" using b by (auto simp: box_ok_def sorted_wrt_map elim: sorted_wrt_mono_rel [rotated])
  have all: "filter (messageBeforeHistoryOffset f) xs = xs" for xs :: "'a pm list"
    using assms(3,4) by (simp add: messageBeforeHistoryOffset_def [abs_def])
  have "history_base cf f box = filter (history_fits cf f) (rev box)" by (simp add: history_base_def newest_first_sorted [OF s])
  moreover have "length (filter (history_fits cf f) (rev box)) < n" using length_filter_le [of "history_fits cf f" "rev box"] assms(7) by simp
  ultimately show ?thesis using history_walk_from [OF s box_ids_pos [OF b] assms(2,3,5), of cf n, unfolded all] by simp
qed

section \<open>A conversation\<close>

definition chat_send :: "unit send_request" where
  "chat_send = \<lparr>sr_SenderUserID = 1, sr_RecipientUserID = 2, sr_RandomID = 7, sr_Message = ''hi'', sr_Entities = [], sr_Media = None,
     sr_Silent = False, sr_NoForwards = False, sr_ReplyTo = None, sr_Forward = None, sr_Date = 5, sr_OriginAuthKeyID = 0,
     sr_OriginSessionID = 0, sr_OriginUserID = 0, sr_RecipientBlocked = False, sr_IdempotencyFingerprint = [], sr_ViaBotID = 0,
     sr_GroupedID = 0, sr_Effect = 0, sr_ReplyMarkup = None, sr_RichMessage = None\<rparr>"

definition chat_first :: "unit pm" where "chat_first = sender_message chat_send None NewMessageStore"

definition chat_env :: "unit send_env" where
  "chat_env = \<lparr>se_digest = (\<lambda>_. Some (replicate 32 CHR ''d'')), se_marshal = (\<lambda>m. if m = chat_first then Some ''m'' else None),
     se_unmarshal = (\<lambda>_. Some chat_first), se_new_external = (\<lambda>_. None), se_quote_ok = (\<lambda>_ _. True)\<rparr>"

lemma chat_env_ok: "env_ok chat_env" by (auto simp: env_ok_def chat_env_def split: if_splits)

definition chat_clear :: "delete_history" where
  "chat_clear = \<lparr>dh_OwnerUserID = 1, dh_Peer = user_peer 2, dh_MaxID = 0, dh_MinDate = 0, dh_MaxDate = 0, dh_JustClear = True,
     dh_Revoke = False, dh_Date = 6\<rparr>"

definition chat_state :: "unit message_store" where
  "chat_state = pm_run chat_env [OpSend 0 chat_send] NewMessageStore"

lemma chat_boxes: "ms_nextBox chat_state = (\<lambda>_. 0)(1 := 1, 2 := 1)"
  by (simp add: chat_state_def pm_run_def SendPrivateText_def chat_send_def HasContent_def PrivateSendFingerprint_def chat_env_def
      sendPrivateTextLocked_def lookupPrivateSendReplayLocked_def NewMessageStore_def resolveMemoryReplyLocked_def
      EncodePrivateSendSnapshot_def snapshot_valid_def chat_first_def sender_message_def Let_def staged_pts_def
      commit_send_def upsertMemoryDialogsLocked_def set_box_def recipient_message_def zero_pm_def NewUpdateEventStore_def)

lemma chat_limit: "\<forall>u. ms_nextBox (pm_run chat_env [OpSend 0 chat_send] NewMessageStore) u \<le> MaxMessageBoxID"
  using chat_boxes by (simp add: chat_state_def MaxMessageBoxID_def)

theorem dialog_counters_exact_witness:
  "\<exists>d \<in> set (ms_dialogs chat_state 2). dg_UnreadCount d = 1 \<and> sorted_wrt (<) (map pm_ID (ms_m chat_state 2)) \<and>
     dg_UnreadCount d = int (length (filter (\<lambda>m. pm_Peer m = dg_Peer d \<and> \<not> pm_Out m \<and> pm_ID m > dg_ReadInboxMaxID d) (ms_m chat_state 2)))"
proof -
  have "list_ex (\<lambda>d. dg_UnreadCount d = 1) (ms_dialogs chat_state 2)" by code_simp
  then obtain d where "d \<in> set (ms_dialogs chat_state 2)" "dg_UnreadCount d = 1" by (auto simp: list_ex_iff)
  then show ?thesis using dialog_counters_exact [OF chat_limit, of 2, folded chat_state_def] by (intro bexI [of _ d]) simp_all
qed

definition chat_read :: "unit message_store" where
  "chat_read = pm_run chat_env [OpSend 0 chat_send, OpRead 0 2 (user_peer 1) 1 9] NewMessageStore"

lemma chat_read_limit: "\<forall>u. ms_nextBox (pm_run chat_env [OpSend 0 chat_send, OpRead 0 2 (user_peer 1) 1 9] NewMessageStore) u \<le> MaxMessageBoxID"
proof -
  have "pm_run chat_env [OpSend 0 chat_send, OpRead 0 2 (user_peer 1) 1 9] NewMessageStore = fst (ReadHistory 0 2 (user_peer 1) 1 9 chat_state)"
    by (simp add: chat_state_def pm_run_def)
  then show ?thesis by (simp add: ReadHistory_frame chat_boxes MaxMessageBoxID_def)
qed

theorem read_receipts_truthful_witness:
  "\<exists>e \<in> set (ms_dialogs chat_read 2). dg_Peer e = user_peer 1 \<and> pm_ID (hd (ms_m chat_read 2)) \<le> dg_ReadInboxMaxID e"
proof -
  have "hd (ms_m chat_read 1) \<in> set (ms_m chat_read 1)" "hd (ms_m chat_read 2) \<in> set (ms_m chat_read 2)"
    "pm_UID (hd (ms_m chat_read 1)) = pm_UID (hd (ms_m chat_read 2))" "hd (ms_dialogs chat_read 1) \<in> set (ms_dialogs chat_read 1)"
    "dg_Peer (hd (ms_dialogs chat_read 1)) = pm_Peer (hd (ms_m chat_read 1))"
    "pm_ID (hd (ms_m chat_read 1)) \<le> dg_ReadOutboxMaxID (hd (ms_dialogs chat_read 1))" by code_simp+
  then show ?thesis
    using read_receipts_truthful [OF chat_read_limit, folded chat_read_def, of 1 2 "hd (ms_m chat_read 1)" "hd (ms_m chat_read 2)" "hd (ms_dialogs chat_read 1)"]
    by simp
qed

theorem send_exactly_once_witness:
  "\<exists>again. SendPrivateText chat_env 3 chat_send chat_read = (chat_read, Inr again) \<and> sd_Duplicate again \<and> pm_ID (sd_SenderMessage again) = 1"
proof -
  obtain res where res: "snd (SendPrivateText chat_env 0 chat_send NewMessageStore) = Inr res" "\<not> sd_Duplicate res" "pm_ID (sd_SenderMessage res) = 1"
  proof -
    have "\<not> sd_Duplicate (projr (snd (SendPrivateText chat_env 0 chat_send NewMessageStore)))" "isl (snd (SendPrivateText chat_env 0 chat_send NewMessageStore)) = False"
      "pm_ID (sd_SenderMessage (projr (snd (SendPrivateText chat_env 0 chat_send NewMessageStore)))) = 1" by code_simp+
    then show thesis using that by (metis sum.collapse(2))
  qed
  have first: "SendPrivateText chat_env 0 chat_send (pm_run chat_env [] NewMessageStore) = (chat_state, Inr res)"
    using res(1) by (simp add: chat_state_def pm_run_def prod_eq_iff)
  have read: "pm_run chat_env [OpRead 0 2 (user_peer 1) 1 9] chat_state = chat_read" by (simp add: chat_read_def chat_state_def pm_run_def)
  have r: "sr_RandomID chat_send \<noteq> 0" by (simp add: chat_send_def)
  show ?thesis using send_exactly_once [OF chat_env_ok first r res(2), of "[OpRead 0 2 (user_peer 1) 1 9]" 3, unfolded read]
      chat_read_limit [folded chat_read_def] res(3) by auto
qed

theorem delete_exact_witness:
  "ms_m (fst (DeleteMessages 0 1 [1] True 6 chat_state)) 2 = [] \<and> ms_m chat_state 2 \<noteq> []"
proof -
  have n: "int (length (normalizeMemoryMessageIDs [1])) \<le> MaxDeleteMessageIDs" by code_simp
  have "filter (\<lambda>x. pm_UID x \<notin> pm_UID ` {m \<in> set (ms_m chat_state 1). pm_ID m \<in> set [1]}) (ms_m chat_state 2) = []" "ms_m chat_state 2 \<noteq> []" by code_simp+
  then show ?thesis using delete_exact [OF chat_limit _ n, of 1 0 True 6 2, folded chat_state_def] by simp
qed

theorem delete_pts_contiguous_witness:
  "\<exists>s' items more'. DeleteHistory 0 chat_clear chat_state = (s', items, more') \<and>
     (\<exists>item \<in> set items. events_tile (ms_nextPts chat_state (du_UserID item)) (du_Events item) (du_Pts item))"
proof -
  obtain s' items more' where e: "DeleteHistory 0 chat_clear chat_state = (s', items, more')" by (rule prod_cases3)
  have "fst (snd (DeleteHistory 0 chat_clear chat_state)) \<noteq> []" by code_simp
  then have "hd items \<in> set items" using e by simp
  then show ?thesis using delete_pts_contiguous [OF e] e by blast
qed

definition chat_filter :: message_filter where
  "chat_filter = \<lparr>mf_HasPeer = True, mf_Peer = user_peer 1, mf_SenderUserID = 0, mf_RestrictPeerIDs = False, mf_PeerIDs = [], mf_MinDate = 0,
     mf_MaxDate = 0, mf_MaxID = 0, mf_MinID = 0, mf_PinnedOnly = False, mf_CountOnly = False, mf_SavedPeer = zero_peer, mf_OffsetID = 0, mf_OffsetDate = 0,
     mf_AddOffset = 0, mf_Limit = 1\<rparr>"

theorem history_pages_complete_witness:
  "length (history_walk 2 (\<lambda>_. True) chat_filter (ms_m chat_state 2)) = 1"
proof -
  have "length (ms_m chat_state 2) < 2" "length (filter (history_fits (\<lambda>_. True) chat_filter) (rev (ms_m chat_state 2))) = 1" by code_simp+
  then show ?thesis
    using history_pages_complete [OF chat_limit, of chat_filter 2 2 "\<lambda>_. True", folded chat_state_def] by (simp add: chat_filter_def)
qed

end
