(* ===== verification/Private_Messages_Retry.thy ===== *)
theory Private_Messages_Retry
  imports Private_Messages_Theorems
begin

text \<open>
  A send that is retried after its message became the mark of a cleared history. An invariant of runs
  (every message an account has sent is the only one with its random id, and has a receipt) shows that
  the receipt is not touched by the clear; the mark has no random id, so that its deletion does not
  reach the receipt either, and the retry finds neither the message nor a recorded deletion.
\<close>

section \<open>Random ids of sent messages\<close>

definition sent_by :: "int \<Rightarrow> int \<Rightarrow> mcore \<Rightarrow> bool" where
  "sent_by u i c \<longleftrightarrow> peer_id (c_From c) = u \<and> c_RandomID c = i \<and> i \<noteq> 0"

definition sends_unique :: "'x message_store \<Rightarrow> bool" where
  "sends_unique s \<longleftrightarrow> (\<forall>u i. \<forall>a \<in> set (cores (ms_m s) u). sent_by u i a \<longrightarrow>
     ms_dedup s (u, i) \<noteq> None \<and> (\<forall>b \<in> set (cores (ms_m s) u). sent_by u i b \<longrightarrow> b = a))"

text \<open>An operation that adds no message but marks, and drops no receipt.\<close>

definition no_new_sends :: "'x message_store \<Rightarrow> 'x message_store \<Rightarrow> bool" where
  "no_new_sends s s' \<longleftrightarrow> (\<forall>u. \<forall>c \<in> set (cores (ms_m s') u). c \<in> set (cores (ms_m s) u) \<or> c_RandomID c = 0)
     \<and> (\<forall>key. ms_dedup s key \<noteq> None \<longrightarrow> ms_dedup s' key \<noteq> None)"

lemma no_new_sends_refl [simp]: "no_new_sends s s" by (simp add: no_new_sends_def)

lemma no_new_sends_trans: "no_new_sends s s1 \<Longrightarrow> no_new_sends s1 s2 \<Longrightarrow> no_new_sends s s2"
  unfolding no_new_sends_def by blast

lemma sends_unique_kept:
  assumes "sends_unique s" "no_new_sends s s'" shows "sends_unique s'"
proof -
  have old: "c \<in> set (cores (ms_m s) u)" if "c \<in> set (cores (ms_m s') u)" "sent_by u i c" for c u i
    using assms(2) that by (auto simp: no_new_sends_def sent_by_def)
  show ?thesis unfolding sends_unique_def
  proof (intro allI ballI impI)
    fix u i a assume a: "a \<in> set (cores (ms_m s') u)" "sent_by u i a"
    then have "ms_dedup s (u, i) \<noteq> None" "\<forall>b \<in> set (cores (ms_m s) u). sent_by u i b \<longrightarrow> b = a"
      using assms(1) old [OF a] by (auto simp: sends_unique_def)
    then show "ms_dedup s' (u, i) \<noteq> None \<and> (\<forall>b \<in> set (cores (ms_m s') u). sent_by u i b \<longrightarrow> b = a)"
      using assms(2) old by (auto simp: no_new_sends_def)
  qed
qed

lemma removed_no_new: "removed rows s s' \<Longrightarrow> no_new_sends s s'"
  unfolding removed_def no_new_sends_def cores_def by auto

lemma replace_first_set: "set (replace_first P r ms) \<subseteq> insert r (set ms)"
  by (induction ms) auto

lemma clear_mark_random [simp]: "pm_RandomID (clear_mark u a p) = 0" "pm_ID (clear_mark u a p) = pm_ID a" "pm_UID (clear_mark u a p) = pm_UID a"
  by (simp_all add: clear_mark_def NewHistoryClearMessage_def zero_pm_def)

lemma complete_delete_boxes:
  "ms_m (complete_delete u gone event anchor editPts peers s) = (case anchor of None \<Rightarrow> ms_m s
     | Some a \<Rightarrow> (ms_m s)(u := replace_first (\<lambda>m. pm_ID m = pm_ID a \<and> pm_Peer m = pm_Peer a) (clear_mark u a editPts) (ms_m s u)))"
  "ms_dedup (complete_delete u gone event anchor editPts peers s) = (case event of None \<Rightarrow> ms_dedup s
     | Some e \<Rightarrow> ms_dedup (mark_deleted_sends u gone e s))"
  by (auto simp: complete_delete_def Let_def rebuild_fold_frame set_box_def advanceMemoryHistoryClearDialogLocked_def
      mark_deleted_sends_def split: option.split)

lemma finish_owner_no_new: "no_new_sends s (fst (finish_owner rows date anchors u s))"
proof (cases rule: finish_owner_cases [of u rows anchors date s])
  case (finish event pts editPts)
  have "c \<in> set (cores (ms_m s) w) \<or> c_RandomID c = 0" if "c \<in> set (cores (ms_m (fst (finish_owner rows date anchors u s))) w)" for c w
    using that replace_first_set unfolding finish(2) complete_delete_boxes(1) cores_def
    by (fastforce split: option.splits if_splits)
  moreover have "ms_dedup (fst (finish_owner rows date anchors u s)) key \<noteq> None" if "ms_dedup s key \<noteq> None" for key
    using that by (auto simp: finish(2) complete_delete_boxes(2) mark_deleted_sends_def split: option.split)
  ultimately show ?thesis by (simp add: no_new_sends_def)
qed simp

lemma finish_no_new: "no_new_sends s (fst (finishMemoryDeleteLocked rows date anchors anchored s))"
proof -
  have "no_new_sends (fst acc) (fst (fold (finish_step rows date anchors) us acc))" for us acc
  proof (induction us arbitrary: acc)
    case (Cons u us)
    have "no_new_sends (fst acc) (fst (finish_step rows date anchors u acc))"
      unfolding finish_step_fst by (rule finish_owner_no_new)
    from no_new_sends_trans [OF this Cons.IH] show ?case by simp
  qed simp
  from this [of "(s, [])"] show ?thesis by (simp add: finishMemoryDeleteLocked_def)
qed

lemma send_unique:
  assumes u: "sends_unique s" and ok: "pm_ok (\<lambda>_. {}) s"
  shows "sends_unique (fst (SendPrivateText env now req s))"
proof (cases "\<not> HasContent req \<or> PrivateSendFingerprint env req = None")
  case False
  then obtain fp where fp: "PrivateSendFingerprint env req = Some fp" by auto
  have "sends_unique (fst (sendPrivateTextLocked env now req fp s))"
  proof (cases rule: sendPrivateTextLocked_cases [of env now req fp s])
    case (2 r r' snap q)
    let ?u = "sr_SenderUserID req" and ?i = "sr_RandomID req"
    let ?a = "sender_message q r s" and ?b = "recipient_message q r' (sender_message q r s) s"
    let ?s = "commit_send q fp snap ?a ?b s"
    have q: "sr_SenderUserID q = ?u" "sr_RandomID q = ?i" using 2(2) by auto
    have a: "peer_id (pm_From ?a) = ?u" "pm_RandomID ?a = ?i" using q by (simp_all add: sender_message_def Let_def)
    have boxes: "c \<in> set (cores (ms_m s) w) \<or> w = ?u \<and> c = core ?a \<or> w \<noteq> ?u \<and> peer_id (c_From c) = ?u"
      if "c \<in> set (cores (ms_m ?s) w)" for c w
    proof (cases "two_boxes q")
      case True
      have "peer_id (pm_From ?b) = ?u" using a(1) True by (simp add: recipient_message_def two_boxes_def Let_def)
      then show ?thesis
        using that commit_two(3) [OF True pm_okD(2) [OF ok] pm_okD(2) [OF ok], of fp snap r r'] q True
        by (auto simp: cores_def two_boxes_def split: if_splits)
    next
      case one: False
      then show ?thesis
        using that commit_one(3) [OF one pm_okD(2) [OF ok], of fp snap r r'] q by (auto simp: cores_def split: if_splits)
    qed
    have fresh: "\<not> sent_by ?u ?i c" if "c \<in> set (cores (ms_m s) ?u)" for c
      using u [unfolded sends_unique_def, rule_format, OF that] 2(1) by blast
    have "sends_unique ?s" unfolding sends_unique_def
    proof (intro allI ballI impI)
      fix w i c assume c: "c \<in> set (cores (ms_m ?s) w)" "sent_by w i c"
      have new: "c \<in> set (cores (ms_m s) w) \<or> w = ?u \<and> i = ?i \<and> c = core ?a" if "c \<in> set (cores (ms_m ?s) w)" "sent_by w i c" for c
        using boxes [OF that(1)] that(2) a by (auto simp: sent_by_def)
      have d: "ms_dedup ?s (w, i) \<noteq> None" if "ms_dedup s (w, i) \<noteq> None \<or> w = ?u \<and> i = ?i"
        using that c(2) q by (auto simp: commit_dedup sent_by_def)
      show "ms_dedup ?s (w, i) \<noteq> None \<and> (\<forall>b \<in> set (cores (ms_m ?s) w). sent_by w i b \<longrightarrow> b = c)"
      proof (cases "w = ?u \<and> i = ?i")
        case True
        then have "b = core ?a" if "b \<in> set (cores (ms_m ?s) w)" "sent_by w i b" for b using new [OF that] fresh that(2) by auto
        then show ?thesis using d True c by auto
      next
        case False
        then have "ms_dedup s (w, i) \<noteq> None" "\<forall>b \<in> set (cores (ms_m s) w). sent_by w i b \<longrightarrow> b = c"
          using u new [OF c] c(2) by (auto simp: sends_unique_def)
        then show ?thesis using d new False by auto
      qed
    qed
    then show ?thesis using 2(4) by simp
  qed (use u in simp)
  then show ?thesis using False fp by (simp add: SendPrivateText_def)
qed (use u in \<open>auto simp: SendPrivateText_def\<close>)

lemma pm_step_unique:
  assumes u: "sends_unique s" and ok: "pm_ok (\<lambda>_. {}) s"
  shows "sends_unique (pm_step env op s)"
proof (cases op)
  case (OpSend now req)
  then show ?thesis using send_unique [OF u ok] by simp
next
  case (OpRead now owner p maxID date)
  then show ?thesis by (auto intro!: sends_unique_kept [OF u] simp: no_new_sends_def ReadHistory_frame)
next
  case (OpEdit now req)
  then show ?thesis by (auto intro!: sends_unique_kept [OF u] simp: no_new_sends_def EditMessage_frame)
next
  case (OpDelete now owner ids revoke date)
  show ?thesis unfolding OpDelete pm_step.simps
  proof (cases rule: DeleteMessages_cases [where P = "\<lambda>_. {}" and now = now and owner = owner and ids = ids and revoke = revoke and date = date and s = s])
    case (deleted rows s1 date')
    show "sends_unique (fst (DeleteMessages now owner ids revoke date s))" unfolding deleted(3)
      by (rule sends_unique_kept [OF u no_new_sends_trans [OF removed_no_new [OF deleted(1) [OF ok]] finish_no_new]])
  qed (use u in simp)
next
  case (OpDeleteHistory now r)
  show ?thesis unfolding OpDeleteHistory pm_step.simps
  proof (cases rule: DeleteHistory_cases [where P = "\<lambda>_. {}" and now = now and r = r and s = s])
    case (deleted rows s1 date')
    show "sends_unique (fst (DeleteHistory now r s))" unfolding deleted(4)
      by (rule sends_unique_kept [OF u no_new_sends_trans [OF removed_no_new [OF deleted(1) [OF ok]] finish_no_new]])
  qed (use u in simp)
qed

lemma pm_run_unique:
  "\<forall>u. ms_nextBox (pm_run env ops NewMessageStore) u \<le> MaxMessageBoxID \<Longrightarrow> sends_unique (pm_run env ops NewMessageStore)"
proof (induction ops rule: rev_induct)
  case Nil
  then show ?case by (simp add: sends_unique_def NewMessageStore_def cores_def)
next
  case (snoc op ops)
  have "\<forall>u. ms_nextBox (pm_run env ops NewMessageStore) u \<le> MaxMessageBoxID"
    using snoc.prems pm_step_nextBox [of "pm_run env ops NewMessageStore" _ env op] by (auto intro: order_trans)
  with snoc.IH have "sends_unique (pm_run env ops NewMessageStore)" "pm_ok (\<lambda>_. {}) (pm_run env ops NewMessageStore)"
    using pm_run_ok by blast+
  then show ?case using pm_step_unique by simp
qed

section \<open>What a clear leaves of a sent message\<close>

text \<open>The mark of a cleared history in the place of the message \<open>a\<close>.\<close>

definition clear_marked :: "int \<Rightarrow> 'x pm \<Rightarrow> 'x message_store \<Rightarrow> bool" where
  "clear_marked u a s \<longleftrightarrow> (\<exists>x \<in> set (ms_m s u). pm_ID x = pm_ID a \<and> pm_UID x = pm_UID a \<and> pm_RandomID x = 0)"

lemma replace_first_mem: "a \<in> set ms \<Longrightarrow> P a \<Longrightarrow> r \<in> set (replace_first P r ms)"
  by (induction ms) auto

lemma finish_owner_clear:
  assumes "new_anchor anchors u = Some a" "a \<in> set (ms_m s u)" "\<forall>x \<in> set (rows_of u rows). \<not> sent_by u i (core x)" "i \<noteq> 0"
  shows "clear_marked u a (fst (finish_owner rows date anchors u s))"
    "ms_dedup (fst (finish_owner rows date anchors u s)) (u, i) = ms_dedup s (u, i)"
proof (atomize (full), cases rule: finish_owner_cases [of u rows anchors date s])
  case (finish event pts editPts)
  have "clear_mark u a editPts \<in> set (ms_m (fst (finish_owner rows date anchors u s)) u)"
    using replace_first_mem [OF assms(2)] by (simp add: finish(2) complete_delete_boxes(1) assms(1))
  then have "clear_marked u a (fst (finish_owner rows date anchors u s))" unfolding clear_marked_def by (intro bexI [of _ "clear_mark u a editPts"]) simp_all
  moreover have "ms_dedup (fst (finish_owner rows date anchors u s)) (u, i) = ms_dedup s (u, i)"
    using assms(3,4) by (auto simp: finish(2) complete_delete_boxes(2) mark_deleted_sends_def list_ex_iff sent_by_def split: option.split)
  ultimately show "clear_marked u a (fst (finish_owner rows date anchors u s)) \<and>
    ms_dedup (fst (finish_owner rows date anchors u s)) (u, i) = ms_dedup s (u, i)" ..
qed (use assms in simp)

lemma finish_fold_others:
  assumes "u \<notin> set us"
  shows "ms_m (fst (fold (finish_step rows date anchors) us acc)) u = ms_m (fst acc) u
    \<and> ms_dedup (fst (fold (finish_step rows date anchors) us acc)) (u, i) = ms_dedup (fst acc) (u, i)"
  using assms
proof (induction us arbitrary: acc)
  case (Cons w us)
  then have "w \<noteq> u" "u \<notin> set us" by auto
  then show ?case using Cons.IH [of "finish_step rows date anchors w acc"]
    by (simp add: finish_step_fst finish_owner_frame finish_owner_dedup)
qed simp

lemma finish_clear:
  fixes date :: int
  assumes a: "new_anchor anchors u = Some a" "a \<in> set (ms_m s u)" "\<forall>x \<in> set (rows_of u rows). \<not> sent_by u i (core x)" "i \<noteq> 0"
    and "u \<in> set anchored"
  defines "s' \<equiv> fst (finishMemoryDeleteLocked rows date anchors anchored s)"
  shows "clear_marked u a s' \<and> ms_dedup s' (u, i) = ms_dedup s (u, i)"
proof -
  let ?us = "delete_owners rows anchors anchored"
  have "u \<in> set ?us" "distinct ?us" using assms(1,5) by (auto simp: delete_owners_def)
  then obtain xs ys where us: "?us = xs @ u # ys" "u \<notin> set xs" "u \<notin> set ys" by (auto simp: in_set_conv_decomp)
  define acc where "acc = fold (finish_step rows date anchors) xs (s, [])"
  have acc: "ms_m (fst acc) u = ms_m s u" "ms_dedup (fst acc) (u, i) = ms_dedup s (u, i)"
    using finish_fold_others [OF us(2), of rows date anchors "(s, [])" i] by (simp_all add: acc_def)
  have "a \<in> set (ms_m (fst acc) u)" using a(2) acc(1) by simp
  note c = finish_owner_clear [OF a(1) this a(3,4), of date, folded finish_step_fst]
  have "s' = fst (fold (finish_step rows date anchors) ys (finish_step rows date anchors u acc))"
    by (simp add: s'_def finishMemoryDeleteLocked_def us(1) acc_def)
  then show ?thesis
    using finish_fold_others [OF us(3), of rows date anchors "finish_step rows date anchors u acc" i] c acc(2)
    by (simp add: clear_marked_def)
qed

text \<open>Deleting a mark leaves every receipt as it is.\<close>

lemma finish_plain_dedup:
  assumes "\<forall>x \<in> set (rows_of u rows). \<not> sent_by u i (core x)" "i \<noteq> 0"
  shows "ms_dedup (fst (finishMemoryDeleteLocked rows date Map.empty [] s)) (u, i) = ms_dedup s (u, i)"
proof -
  have one: "ms_dedup (fst (finish_owner rows date Map.empty w s)) (u, i) = ms_dedup s (u, i)" for w s
  proof (cases "w = u")
    case True
    show ?thesis unfolding True
    proof (cases rule: finish_owner_cases [of u rows Map.empty date s])
      case (finish event pts editPts)
      then show "ms_dedup (fst (finish_owner rows date Map.empty u s)) (u, i) = ms_dedup s (u, i)"
        using assms by (auto simp: complete_delete_boxes(2) mark_deleted_sends_def list_ex_iff sent_by_def split: option.split)
    qed simp
  qed (simp add: finish_owner_dedup)
  have "ms_dedup (fst (fold (finish_step rows date Map.empty) us acc)) (u, i) = ms_dedup (fst acc) (u, i)" for us acc
    by (induction us arbitrary: acc) (simp_all add: finish_step_fst one)
  then show ?thesis by (simp add: finishMemoryDeleteLocked_def)
qed

lemma DeleteHistory_clear:
  assumes ok: "pm_ok (\<lambda>_. {}) s" and uniq: "sends_unique s" and i: "sent_by u i (core m)"
    and r: "dh_OwnerUserID r = u" "u \<noteq> 0" "peer_id (dh_Peer r) \<noteq> 0" "dh_JustClear r" "dh_MaxID r \<le> 0" "dh_MinDate r \<le> 0" "dh_MaxDate r \<le> 0"
    and newest: "memoryHistoryClearAnchorLocked u (dh_Peer r) s = Some (m, False)"
  shows "clear_marked u m (fst (DeleteHistory now r s)) \<and> ms_dedup (fst (DeleteHistory now r s)) (u, i) = ms_dedup s (u, i)"
proof (cases rule: DeleteHistory_cases [where P = "\<lambda>_. {}" and now = now and r = r and s = s])
  case (deleted rows s1 date')
  have anchor: "clear_anchors r s u = Some (m, False)" using r newest by (auto simp: clear_anchors_def Let_def)
  note rem = deleted(1) [OF ok]
  have m: "m \<in> set (ms_m s u)" by (rule anchor_found(1) [OF newest])
  have "\<not> sent_by u i (core x)" if x: "x \<in> set (rows_of u rows)" for x
  proof
    assume "sent_by u i (core x)"
    moreover have "x \<in> set (ms_m s u)" using rem x by (auto simp: removed_def)
    ultimately have "core x = core m" using uniq i m by (auto simp: sends_unique_def cores_def)
    then have "pm_ID x = pm_ID m" by (metis core_simps(1))
    then show False using deleted(5) [OF x] anchor by (simp add: is_anchor_def)
  qed
  moreover have "m \<in> set (ms_m s1 u)" using deleted(2) [OF ok, of u] anchor unfolding anchor_good_def by blast
  moreover have "new_anchor (clear_anchors r s) u = Some m" using anchor by (simp add: new_anchor_def)
  moreover have "i \<noteq> 0" using i by (simp add: sent_by_def)
  ultimately show ?thesis
    using finish_clear [of "clear_anchors r s" u m s1 rows i "[dh_OwnerUserID r, peer_id (dh_Peer r)]" date'] rem r(1)
    unfolding deleted(4) by (auto simp: removed_def)
qed (use r in simp)

lemma by_uid_rows:
  assumes "deleteMemoryMessagesByUIDLocked uids exclude s = (s', rows)" shows "rows_of exclude rows = []"
proof -
  have "rows_of exclude (snd (fold (\<lambda>u (s, rows). if u = exclude then (s, rows)
      else case delete_uids uids u s of (s', rows') \<Rightarrow> (s', rows @ rows')) us (t, acc))) = rows_of exclude acc" for us t acc
    by (induction us arbitrary: t acc) (auto simp: delete_uids_def)
  from this [of "ms_users s" s "[]"] show ?thesis using assms by (auto simp: deleteMemoryMessagesByUIDLocked_def split: if_splits)
qed

lemma DeleteMessages_mark:
  fixes now date :: int and revoke :: bool
  assumes ok: "pm_ok (\<lambda>_. {}) s" and users: "users_ok s" and lim: "\<And>v. ms_nextBox s v \<le> MaxMessageBoxID"
    and u: "u \<noteq> 0" and mark: "clear_marked u m s" and i: "i \<noteq> 0"
  defines "s' \<equiv> fst (DeleteMessages now u [pm_ID m] revoke date s)"
  shows "ms_dedup s' (u, i) = ms_dedup s (u, i)" "\<forall>x \<in> set (ms_m s' u). pm_UID x \<noteq> pm_UID m"
proof -
  obtain x where x: "x \<in> set (ms_m s u)" "pm_ID x = pm_ID m" "pm_UID x = pm_UID m" "pm_RandomID x = 0"
    using mark by (auto simp: clear_marked_def)
  have ids: "int (length (normalizeMemoryMessageIDs [pm_ID m])) \<le> MaxDeleteMessageIDs"
    by (simp add: normalizeMemoryMessageIDs_def MaxDeleteMessageIDs_def)
  have only: "pm_RandomID y = 0" if "y \<in> set (ms_m s u)" "pm_ID y = pm_ID m" for y
  proof -
    have "core y = core x" using box_order(2) [OF pm_okD(3) [OF ok, of u], of "core y" "core x"] that x by (auto simp: cores_def)
    then show ?thesis using x(4) by (metis core_simps(6))
  qed
  show "\<forall>x \<in> set (ms_m s' u). pm_UID x \<noteq> pm_UID m"
    unfolding s'_def DeleteMessages_boxes [OF ok users lim u ids] using x by (auto intro: rev_image_eqI)
  let ?ids = "normalizeMemoryMessageIDs [pm_ID m]"
  obtain s1 gone l where d: "deleteMemoryMessagesLocked u 0 (\<lambda>m. pm_ID m \<in> set ?ids) s = (s1, gone, l)" by (rule prod_cases3)
  obtain s2 by_uid where b: "(if revoke then deleteMemoryMessagesByUIDLocked (revoke_uids gone) u s1 else (s1, [])) = (s2, by_uid)" by fastforce
  have r1: "removed gone s s1" by (rule removed_locked [OF ok d])
  have r2: "removed by_uid s1 s2" using b by (auto split: if_splits intro: removed_by_uid)
  have "pm_RandomID y = 0" if "y \<in> set (rows_of u (gone @ by_uid))" for y
  proof -
    have "rows_of u by_uid = []" using b by (auto split: if_splits dest: by_uid_rows)
    then have y: "y \<in> set (rows_of u gone)" using that by simp
    then have "y \<in> set (ms_m s u)" "pm_ID y = pm_ID m" using r1 locked_rows [OF d y] by (auto simp: removed_def normalize_set)
    then show ?thesis by (rule only)
  qed
  then have "\<forall>y \<in> set (rows_of u (gone @ by_uid)). \<not> sent_by u i (core y)" using i by (auto simp: sent_by_def)
  from finish_plain_dedup [OF this i] have "ms_dedup (fst (finishMemoryDeleteLocked (gone @ by_uid) dt Map.empty [] s2)) (u, i) = ms_dedup s (u, i)" for dt
    using r1 r2 by (simp add: removed_def)
  then show "ms_dedup s' (u, i) = ms_dedup s (u, i)"
    using d b ids by (auto simp: s'_def DeleteMessages_def Let_def)
qed

section \<open>The retry\<close>

text \<open>
  C40. A retry that fails. In every store that operations from an empty one can produce, take a send with a
  receipt that records no deletion, whose message \<open>m\<close> is still the newest of its conversation in the
  sender's box. Clearing the history in place, with or without revoking, replaces \<open>m\<close> by a mark without
  its random id; deleting the mark afterwards does not reach the receipt. Sending the same request
  again is then answered with an internal error instead of the recorded outcome, and changes nothing.
\<close>
theorem cleared_send_retry_fails:
  fixes now1 now2 date :: int and revoke :: bool
  assumes lim: "\<forall>w. ms_nextBox (pm_run env ops NewMessageStore) w \<le> MaxMessageBoxID"
  defines "s \<equiv> pm_run env ops NewMessageStore"
  assumes rec: "ms_dedup s (u, sr_RandomID req) = Some rec" "dr_senderDeleteEvent rec = None"
      "DecodePrivateSendSnapshot env (dr_senderSnapshot rec) = Some first"
    and m: "memoryHistoryClearAnchorLocked u p s = Some (m, False)" "pm_UID m = pm_UID first"
      "peer_id (pm_From m) = u" "pm_RandomID m = sr_RandomID req" "sr_RandomID req \<noteq> 0"
    and r: "dh_OwnerUserID r = u" "dh_Peer r = p" "u \<noteq> 0" "peer_id p \<noteq> 0"
      "dh_JustClear r" "dh_MaxID r \<le> 0" "dh_MinDate r \<le> 0" "dh_MaxDate r \<le> 0"
    and req: "HasContent req" "sr_SenderUserID req = u" "sr_RecipientUserID req = dr_recipientUserID rec"
      "PrivateSendFingerprint env req = Some (dr_fingerprint rec)" "length (dr_fingerprint rec) = 32"
  defines "s' \<equiv> fst (DeleteMessages now2 u [pm_ID m] revoke date (fst (DeleteHistory now1 r s)))"
  shows "SendPrivateText env now req s' = (s', Inl ErrReplayAbsent)"
proof -
  let ?s1 = "fst (DeleteHistory now1 r s)" and ?i = "sr_RandomID req"
  have ok: "pm_ok (\<lambda>_. {}) s" unfolding s_def by (rule pm_run_ok [OF lim])
  have nb: "ms_nextBox s w \<le> MaxMessageBoxID" for w using lim by (simp add: s_def)
  have "sent_by u ?i (core m)" using m(3-5) by (simp add: sent_by_def)
  moreover have "sends_unique s" unfolding s_def by (rule pm_run_unique [OF lim])
  ultimately have clear: "clear_marked u m ?s1" "ms_dedup ?s1 (u, ?i) = Some rec"
    using DeleteHistory_clear [OF ok, of u ?i m r now1] r m(1) rec(1) by auto
  have "users_ok s" using pm_run_users by (simp add: s_def)
  note gone = DeleteMessages_mark [OF DeleteHistory_ok(1) [OF ok nb] DeleteHistory_users [OF this] _ r(3) clear(1) m(5), of now2 revoke date]
  have box: "\<forall>x \<in> set (ms_m s' u). pm_UID x \<noteq> pm_UID first" and kept: "ms_dedup s' (u, ?i) = Some rec"
    unfolding s'_def using gone DeleteHistory_ok(2) [OF ok nb, of now1 r] nb clear(2) m(2) by simp_all
  have "find (\<lambda>m. pm_UID m = pm_UID first \<and> pm_ID m = pm_ID first) (ms_m s' u) = None"
    using box by (auto simp: find_None_iff)
  then have "lookupPrivateSendReplayLocked env u (dr_recipientUserID rec) ?i (dr_fingerprint rec) s' = Inl ErrReplayAbsent"
    using kept rec(2,3) req(5) by (simp add: lookupPrivateSendReplayLocked_def SameSendFingerprint_def Let_def)
  then show ?thesis using req by (simp add: SendPrivateText_def sendPrivateTextLocked_def)
qed

theorem cleared_send_retry_fails_witness:
  "snd (SendPrivateText chat_env 0 chat_send (fst (DeleteMessages 0 1 [1] False 6 (fst (DeleteHistory 0 chat_clear chat_state)))))
     = Inl ErrReplayAbsent"
proof -
  let ?rec = "the (ms_dedup chat_state (1, sr_RandomID chat_send))"
  let ?m = "fst (the (memoryHistoryClearAnchorLocked 1 (user_peer 2) chat_state))"
  have some: "\<not> Option.is_none (ms_dedup chat_state (1, sr_RandomID chat_send))"
    "\<not> Option.is_none (memoryHistoryClearAnchorLocked 1 (user_peer 2) chat_state)"
    by (code_simp, code_simp)
  have rec: "ms_dedup chat_state (1, sr_RandomID chat_send) = Some ?rec" using some(1) by (simp add: Option.is_none_def)
  have parts: "Option.is_none (dr_senderDeleteEvent ?rec)" "DecodePrivateSendSnapshot chat_env (dr_senderSnapshot ?rec) = Some chat_first"
    "dr_recipientUserID ?rec = 2" "dr_fingerprint ?rec = replicate 32 CHR ''d''"
    by (code_simp, code_simp, code_simp, code_simp)
  have "\<not> snd (the (memoryHistoryClearAnchorLocked 1 (user_peer 2) chat_state))" by code_simp
  then have m: "memoryHistoryClearAnchorLocked 1 (user_peer 2) chat_state = Some (?m, False)"
    using some(2) by (cases "memoryHistoryClearAnchorLocked 1 (user_peer 2) chat_state") auto
  have msg: "pm_UID ?m = pm_UID chat_first" "peer_id (pm_From ?m) = 1" "pm_RandomID ?m = sr_RandomID chat_send" "pm_ID ?m = 1"
    by (code_simp, code_simp, code_simp, code_simp)
  have fp: "PrivateSendFingerprint chat_env chat_send = Some (replicate 32 CHR ''d'')" by code_simp
  show ?thesis
    using cleared_send_retry_fails [OF chat_limit, folded chat_state_def, OF rec _ parts(2) m msg(1-3), where r = chat_clear and now = 0
        and ?now1.0 = 0 and ?now2.0 = 0 and revoke = False and date = 6] parts msg(4) fp
    by (simp add: chat_clear_def chat_send_def HasContent_def Option.is_none_def)
qed

end
