(* ===== verification/Transport_Framing.thy ===== *)
theory Transport_Framing
  imports Gram_Prelude
begin

text \<open>
  How a physical connection turns bytes into frames and how much memory it may use for that
  (src/internal/mtprotoedge/transport_compat.go and frame_budget.go): the process-wide budget of
  inbound bytes, a connection's share of it, the reader that inspects a frame's length prefix
  before the codec sees it, the three quick-ack codecs with their writers, and \<open>RecvDeadline\<close>,
  which ties them together.

  An \<open>io.Reader\<close> is used by codecs of this repository and by codecs it only links
  (\<open>codec.Abridged\<close>, \<open>codec.Intermediate\<close>, \<open>codec.PaddedIntermediate\<close>, \<open>codec.Full\<close> and whatever
  \<open>Options.Codec\<close> brings). A codec's \<open>Read\<close> is therefore a program: a tree of the effects it may
  have on its reader, its reservation callback and its buffer. The codecs in this repository are
  such programs by definition; a foreign codec is an arbitrary one, so what is proved of every
  program holds whatever the linked code does through these interfaces.
\<close>

unbundle bit_operations_syntax

section \<open>Bytes off the network\<close>

type_synonym wire = "8 word list"

datatype frame_error =
    EOF
  | UnexpectedEOF
  | ErrNoProgress
  | ErrNetClosed
  | ErrNetOther
  | ErrInboundFrameBudgetExceeded
  | ErrInboundFrameCodecUnsupported
  | ErrInboundFrameNotReserved
  | ErrReservedMoreThanOnce
  | ErrInvalidLength int
  | ErrNotAligned int
  | ProtocolErr "32 word"
  | ErrShortWrite
  | ErrForeign

text \<open>
  A connection delivers its bytes in segments of the network's choosing and then stops with an
  error (the peer's close, a deadline, a reset). \<open>conn_read n\<close> is \<open>net.Conn.Read\<close> into a buffer of
  \<open>n\<close> bytes: at least one byte of the current segment, or the error.
\<close>

record net_stream =
  segs :: "wire list"
  stop :: frame_error

fun conn_read_segs :: "nat \<Rightarrow> wire list \<Rightarrow> (wire \<times> wire list) option" where
  "conn_read_segs n [] = None"
| "conn_read_segs n ([] # ss) = conn_read_segs n ss"
| "conn_read_segs n (s # ss) =
    Some (take n s, if length s \<le> n then ss else drop n s # ss)"

definition conn_read :: "nat \<Rightarrow> net_stream \<Rightarrow> (frame_error + wire) \<times> net_stream" where
  "conn_read n net = (case conn_read_segs n (segs net) of
     None \<Rightarrow> (Inl (stop net), net\<lparr>segs := []\<rparr>)
   | Some (bs, ss) \<Rightarrow> (Inr bs, net\<lparr>segs := ss\<rparr>))"

definition pending :: "net_stream \<Rightarrow> wire" where
  "pending net = concat (segs net)"

section \<open>Codecs as programs\<close>

text \<open>
  \<open>DoRead n\<close> is \<open>Read\<close> into \<open>n\<close> bytes, \<open>DoReserve\<close> the callback of a budgeted codec, \<open>DoAlloc n\<close>
  the moment the payload buffer is given \<open>n\<close> bytes.
\<close>

datatype 'a prog =
    DoRead nat "frame_error + wire \<Rightarrow> 'a prog"
  | DoReserve int int "frame_error option \<Rightarrow> 'a prog"
  | DoAlloc nat "'a prog"
  | Done 'a

primrec run_prog ::
  "(nat \<Rightarrow> 's \<Rightarrow> (frame_error + wire) \<times> 's) \<Rightarrow>
   (int \<Rightarrow> int \<Rightarrow> 's \<Rightarrow> frame_error option \<times> 's) \<Rightarrow>
   (nat \<Rightarrow> 's \<Rightarrow> 's) \<Rightarrow> 'a prog \<Rightarrow> 's \<Rightarrow> 'a \<times> 's" where
  "run_prog rd rv al (DoRead n k) s = (let rs = rd n s in run_prog rd rv al (k (fst rs)) (snd rs))"
| "run_prog rd rv al (DoReserve w p k) s =
    (let rs = rv w p s in run_prog rd rv al (k (fst rs)) (snd rs))"
| "run_prog rd rv al (DoAlloc n k) s = run_prog rd rv al k (al n s)"
| "run_prog rd rv al (Done x) s = (x, s)"

text \<open>
  \<open>io.ReadFull\<close> into \<open>n\<close> bytes of which \<open>acc\<close> are already there. Every successful read brings a
  byte, so \<open>n\<close> reads are enough; a reader that keeps returning nothing without an error would
  loop in Go and ends in \<open>ErrNoProgress\<close> here.
\<close>

primrec read_full_loop :: "nat \<Rightarrow> nat \<Rightarrow> wire \<Rightarrow> (frame_error + wire \<Rightarrow> 'a prog) \<Rightarrow> 'a prog" where
  "read_full_loop 0 n acc k = k (if n \<le> length acc then Inr acc else Inl ErrNoProgress)"
| "read_full_loop (Suc fuel) n acc k =
    (if n \<le> length acc then k (Inr acc)
     else DoRead (n - length acc) (\<lambda>r. case r of
         Inl e \<Rightarrow> k (Inl (if acc \<noteq> [] \<and> e = EOF then UnexpectedEOF else e))
       | Inr bs \<Rightarrow> read_full_loop fuel n (acc @ bs) k))"

definition io_ReadFull :: "nat \<Rightarrow> (frame_error + wire \<Rightarrow> 'a prog) \<Rightarrow> 'a prog" where
  "io_ReadFull n k = read_full_loop n n [] k"

text \<open>\<open>io.ReadFull\<close> on the connection itself.\<close>

definition net_ReadFull :: "nat \<Rightarrow> net_stream \<Rightarrow> (frame_error + wire) \<times> net_stream" where
  "net_ReadFull n = run_prog conn_read (\<lambda>_ _ net. (None, net)) (\<lambda>_ net. net) (io_ReadFull n Done)"

section \<open>The budget of inbound bytes\<close>

definition maxTransportMessageSize :: int where
  "maxTransportMessageSize = 16777216"

definition defaultInboundFrameGlobalMaxBytes :: int where
  "defaultInboundFrameGlobalMaxBytes = 536870912"

record frame_budget =
  fb_max :: int
  fb_used :: int

definition newInboundFrameBudget :: "int \<Rightarrow> frame_budget" where
  "newInboundFrameBudget mx =
    \<lparr>fb_max = (if mx \<le> 0 then defaultInboundFrameGlobalMaxBytes else mx), fb_used = 0\<rparr>"

text \<open>The compare-and-swap loop ends with one atomic step on the counter it last loaded.\<close>

definition growReservation ::
  "frame_budget \<Rightarrow> int \<Rightarrow> int \<Rightarrow> int \<Rightarrow> frame_error + (int \<times> frame_budget)" where
  "growReservation b current wireBytes plaintextBytes =
    (if current < 0 \<or> wireBytes \<le> 0 \<or> plaintextBytes < 0 \<or> wireBytes > fb_max b
        \<or> plaintextBytes > fb_max b - wireBytes
     then Inl ErrInboundFrameBudgetExceeded
     else let target = wireBytes + plaintextBytes in
       if target \<le> current then Inr (current, b)
       else let n = target - current in
         if n > fb_max b - fb_used b then Inl ErrInboundFrameBudgetExceeded
         else Inr (target, b\<lparr>fb_used := fb_used b + n\<rparr>))"

definition budget_reserve :: "frame_budget \<Rightarrow> int \<Rightarrow> int \<Rightarrow> frame_error + (int \<times> frame_budget)" where
  "budget_reserve b wireBytes plaintextBytes = growReservation b 0 wireBytes plaintextBytes"

definition budget_release :: "frame_budget \<Rightarrow> int \<Rightarrow> frame_budget outcome" where
  "budget_release b n =
    (if n = 0 then Ret b
     else if fb_used b - n < 0
       then Panic ''mtprotoedge: inbound frame budget released more than reserved''
     else Ret (b\<lparr>fb_used := fb_used b - n\<rparr>))"

section \<open>A connection's share\<close>

text \<open>
  The fields of \<open>compatTransportConn\<close> under \<open>frameMu\<close>, and the flag its quick-ack codec keeps
  between frames.
\<close>

record frame_conn =
  heldFrameBytes :: int
  frameDelivered :: bool
  connClosed :: bool
  quickAckRequested :: bool

definition fresh_conn :: frame_conn where
  "fresh_conn = \<lparr>heldFrameBytes = 0, frameDelivered = False, connClosed = False,
     quickAckRequested = False\<rparr>"

type_synonym frame_state = "frame_budget \<times> frame_conn"

definition reserveInboundFrame ::
  "int \<Rightarrow> int \<Rightarrow> frame_state \<Rightarrow> frame_error option \<times> frame_state" where
  "reserveInboundFrame wireBytes plaintextBytes bc =
    (if connClosed (snd bc) then (Some ErrNetClosed, bc)
     else case growReservation (fst bc) (heldFrameBytes (snd bc)) wireBytes plaintextBytes of
         Inl e \<Rightarrow> (Some e, bc)
       | Inr (n, b) \<Rightarrow> (None, (b, (snd bc)\<lparr>heldFrameBytes := n\<rparr>)))"

definition beginInboundFrameRead :: "frame_conn \<Rightarrow> frame_conn" where
  "beginInboundFrameRead c = c\<lparr>frameDelivered := False\<rparr>"

definition retainInboundFrameBytes :: "int \<Rightarrow> frame_state \<Rightarrow> (bool \<times> frame_state) outcome" where
  "retainInboundFrameBytes n bc =
    (if n < 0 then Ret (False, bc)
     else let old = heldFrameBytes (snd bc) in
       if n > old then
         (case growReservation (fst bc) old n 0 of
            Inl e \<Rightarrow> Ret (False, bc)
          | Inr (grown, b) \<Rightarrow> Ret (True, (b, (snd bc)\<lparr>heldFrameBytes := grown\<rparr>)))
       else bind_outcome (budget_release (fst bc) (old - n))
              (\<lambda>b. Ret (True, (b, (snd bc)\<lparr>heldFrameBytes := n\<rparr>))))"

definition releaseInboundFrame :: "frame_state \<Rightarrow> frame_state outcome" where
  "releaseInboundFrame bc =
    bind_outcome (budget_release (fst bc) (heldFrameBytes (snd bc)))
      (\<lambda>b. Ret (b, (snd bc)\<lparr>heldFrameBytes := 0, frameDelivered := False\<rparr>))"

definition markInboundFrameDelivered :: "frame_conn \<Rightarrow> frame_error option \<times> frame_conn" where
  "markInboundFrameDelivered c =
    (if connClosed c then (Some ErrNetClosed, c)
     else if heldFrameBytes c = 0 then (Some ErrInboundFrameNotReserved, c)
     else (None, c\<lparr>frameDelivered := True\<rparr>))"

definition compat_Close :: "frame_conn \<Rightarrow> frame_conn" where
  "compat_Close c = c\<lparr>connClosed := True\<rparr>"

text \<open>
  After a dispatch the reusable buffers stay charged with their capacities, or are dropped when
  that charge is refused; the result says whether they were kept. A nil buffer is \<open>None\<close>.
\<close>

definition retainInboundFrameBackings ::
  "int option list \<Rightarrow> frame_state \<Rightarrow> (bool \<times> frame_state) outcome" where
  "retainInboundFrameBackings caps bc =
    bind_outcome (retainInboundFrameBytes (sum_list (map (case_option 0 (\<lambda>c. c)) caps)) bc)
      (\<lambda>(ok, bc'). if ok then Ret (True, bc')
        else bind_outcome (retainInboundFrameBytes 0 bc')
          (\<lambda>(ok0, bc0). if ok0 then Ret (False, bc0)
            else Panic ''mtprotoedge: failed to release inbound frame backing reservation''))"

section \<open>The preflight reader\<close>

datatype codec_kind = CodecUnknown | CodecQuickAckAbridged | CodecAbridged | CodecIntermediate
  | CodecPaddedIntermediate | CodecFull | CodecCustom

text \<open>
  Everything one \<open>readInboundFrame\<close> works on: the connection's bytes, the flags of the
  \<open>inboundFramePreflightReader\<close>, the variables its reservation closure captures, and the
  accounting. \<open>fr_allocs\<close> is a ghost: the sizes given to the payload buffer, each with the
  connection's reservation at that moment.
\<close>

record frame_run =
  fr_net :: net_stream
  fr_first :: bool
  fr_done :: bool
  fr_calls :: nat
  fr_reserved :: bool
  fr_reserveErr :: "frame_error option"
  fr_acct :: frame_state
  fr_allocs :: "(nat \<times> int) list"

definition start_run :: "net_stream \<Rightarrow> frame_state \<Rightarrow> frame_run" where
  "start_run net bc = \<lparr>fr_net = net, fr_first = False, fr_done = False, fr_calls = 0,
     fr_reserved = False, fr_reserveErr = None, fr_acct = bc, fr_allocs = []\<rparr>"

definition frame_reserve :: "int \<Rightarrow> int \<Rightarrow> frame_run \<Rightarrow> frame_error option \<times> frame_run" where
  "frame_reserve wireBytes plaintextBytes fr =
    (let calls = fr_calls fr + 1 in
     if calls \<noteq> 1 then
       (Some ErrReservedMoreThanOnce,
        fr\<lparr>fr_calls := calls, fr_reserveErr := Some ErrReservedMoreThanOnce\<rparr>)
     else case reserveInboundFrame wireBytes plaintextBytes (fr_acct fr) of
       (err, bc) \<Rightarrow> (err, fr\<lparr>fr_calls := calls, fr_reserveErr := err, fr_reserved := (err = None),
                             fr_acct := bc\<rparr>))"

definition reserveCompatFrame :: "int \<Rightarrow> int \<Rightarrow> frame_run \<Rightarrow> frame_error option \<times> frame_run" where
  "reserveCompatFrame wireBytes plaintextBytes fr =
    (if wireBytes \<le> 0 \<or> wireBytes > maxTransportMessageSize
     then (Some (ErrInvalidLength wireBytes), fr)
     else frame_reserve wireBytes plaintextBytes fr)"

definition raw_full :: "nat \<Rightarrow> frame_run \<Rightarrow> (frame_error + wire) \<times> frame_run" where
  "raw_full n fr = (case net_ReadFull n (fr_net fr) of (r, net) \<Rightarrow> (r, fr\<lparr>fr_net := net\<rparr>))"

text \<open>
  Little-endian words of the wire, as the source assembles them byte by byte.
\<close>

definition le24 :: "wire \<Rightarrow> 32 word" where
  "le24 bs = ucast (bs ! 0) OR push_bit 8 (ucast (bs ! 1)) OR push_bit 16 (ucast (bs ! 2))"

definition le32 :: "wire \<Rightarrow> 32 word" where
  "le32 bs = ucast (bs ! 0) OR push_bit 8 (ucast (bs ! 1)) OR push_bit 16 (ucast (bs ! 2))
     OR push_bit 24 (ucast (bs ! 3))"

definition put_le32 :: "32 word \<Rightarrow> wire" where
  "put_le32 w = [ucast w, ucast (drop_bit 8 w), ucast (drop_bit 16 w), ucast (drop_bit 24 w)]"

definition put_be32 :: "32 word \<Rightarrow> wire" where
  "put_be32 w = [ucast (drop_bit 24 w), ucast (drop_bit 16 w), ucast (drop_bit 8 w), ucast w]"

definition readAbridgedPrefix ::
  "nat \<Rightarrow> bool \<Rightarrow> frame_run \<Rightarrow> (frame_error + wire) \<times> frame_run" where
  "readAbridgedPrefix n quickAck fr =
    (if \<not> fr_first fr then
       (case raw_full 1 fr of
          (Inl e, fr) \<Rightarrow> (Inl e, fr)
        | (Inr first, fr) \<Rightarrow>
           let lengthByte = (if quickAck then (first ! 0) AND 0x7f else first ! 0);
               extended = (if quickAck then lengthByte = 0x7f else lengthByte \<ge> 0x7f) in
           if \<not> extended then
             (case reserveCompatFrame (uint lengthByte * 4) (uint lengthByte * 4) fr of
                (Some e, fr) \<Rightarrow> (Inl e, fr)
              | (None, fr) \<Rightarrow> (Inr [first ! 0], fr\<lparr>fr_done := True, fr_first := True\<rparr>))
           else (Inr [first ! 0], fr\<lparr>fr_first := True\<rparr>))
     else
       (case raw_full 3 fr of
          (Inl e, fr) \<Rightarrow> (Inl e, fr)
        | (Inr tail, fr) \<Rightarrow>
           (case reserveCompatFrame (uint (le24 tail) * 4) (uint (le24 tail) * 4) fr of
              (Some e, fr) \<Rightarrow> (Inl e, fr)
            | (None, fr) \<Rightarrow> (Inr (take n tail), fr\<lparr>fr_done := True\<rparr>))))"

definition readWordPrefix ::
  "nat \<Rightarrow> bool \<Rightarrow> frame_run \<Rightarrow> (frame_error + wire) \<times> frame_run" where
  "readWordPrefix n full fr =
    (case raw_full 4 fr of
       (Inl e, fr) \<Rightarrow> (Inl e, fr)
     | (Inr header, fr) \<Rightarrow>
        let raw = uint (le32 header) in
        if full \<and> (raw < 12 \<or> raw > maxTransportMessageSize) then (Inl (ErrInvalidLength raw), fr)
        else
          let wireBytes = (if full then raw else uint (le32 header AND NOT (push_bit 31 1)));
              plaintextBytes = (if full then raw - 12 else wireBytes) in
          (case reserveCompatFrame wireBytes plaintextBytes fr of
             (Some e, fr) \<Rightarrow> (Inl e, fr)
           | (None, fr) \<Rightarrow> (Inr (take n header), fr\<lparr>fr_done := True\<rparr>)))"

definition preflight_Read ::
  "codec_kind \<Rightarrow> nat \<Rightarrow> frame_run \<Rightarrow> (frame_error + wire) \<times> frame_run" where
  "preflight_Read kind n fr =
    (if n = 0 then (Inr [], fr)
     else if fr_done fr then
       (case conn_read n (fr_net fr) of (r, net) \<Rightarrow> (r, fr\<lparr>fr_net := net\<rparr>))
     else case kind of
         CodecQuickAckAbridged \<Rightarrow> readAbridgedPrefix n True fr
       | CodecAbridged \<Rightarrow> readAbridgedPrefix n False fr
       | CodecIntermediate \<Rightarrow> readWordPrefix n False fr
       | CodecPaddedIntermediate \<Rightarrow> readWordPrefix n False fr
       | CodecFull \<Rightarrow> readWordPrefix n True fr
       | _ \<Rightarrow> (Inl ErrInboundFrameCodecUnsupported, fr))"

section \<open>The quick-ack codecs\<close>

text \<open>
  A codec's \<open>Read\<close> returns its error, the buffer, and what it stored in its quick-ack flag
  (\<open>None\<close> when it left the flag alone).
\<close>

type_synonym codec_ret = "frame_error option \<times> wire \<times> bool option"

definition validateCompatTransportLength :: "int \<Rightarrow> frame_error option" where
  "validateCompatTransportLength n =
    (if n \<le> 0 \<or> n > maxTransportMessageSize then Some (ErrInvalidLength n) else None)"

text \<open>
  A payload of one word is an error code: \<open>checkCompatProtocolError\<close> answers the negated code.
\<close>

definition checkCompatProtocolError :: "wire \<Rightarrow> frame_error option" where
  "checkCompatProtocolError b =
    (if length b \<noteq> 4 then None else Some (ProtocolErr (- le32 b)))"

definition codec_finish :: "bool \<Rightarrow> wire \<Rightarrow> codec_ret prog" where
  "codec_finish requested b = Done (checkCompatProtocolError b, b, Some requested)"

definition codec_fail :: "frame_error \<Rightarrow> codec_ret prog" where
  "codec_fail e = Done (Some e, [], None)"

text \<open>\<open>resetCompatBufferN\<close> and the payload read, shared by the codecs.\<close>

definition read_payload :: "int \<Rightarrow> (wire \<Rightarrow> codec_ret prog) \<Rightarrow> codec_ret prog" where
  "read_payload n k = (case validateCompatTransportLength n of
     Some e \<Rightarrow> codec_fail e
   | None \<Rightarrow> DoAlloc (nat n) (io_ReadFull (nat n) (\<lambda>r. case r of
       Inl e \<Rightarrow> codec_fail e
     | Inr b \<Rightarrow> k b)))"

definition readQuickAckAbridged :: "codec_ret prog" where
  "readQuickAckAbridged = io_ReadFull 1 (\<lambda>r. case r of
     Inl e \<Rightarrow> codec_fail e
   | Inr first \<Rightarrow>
      let requested = ((first ! 0) AND 0x80 \<noteq> 0); lengthByte = (first ! 0) AND 0x7f in
      if lengthByte = 0x7f then
        io_ReadFull 3 (\<lambda>r. case r of
          Inl e \<Rightarrow> codec_fail e
        | Inr tail \<Rightarrow> read_payload (uint (push_bit 2 (le24 tail))) (codec_finish requested))
      else read_payload (uint lengthByte * 4) (codec_finish requested))"

definition readQuickAckIntermediate :: "bool \<Rightarrow> codec_ret prog" where
  "readQuickAckIntermediate padding = io_ReadFull 4 (\<lambda>r. case r of
     Inl e \<Rightarrow> codec_fail e
   | Inr lengthBuf \<Rightarrow>
      let rawLength = le32 lengthBuf;
          requested = (rawLength AND push_bit 31 1 \<noteq> 0);
          n = uint (rawLength AND NOT (push_bit 31 1)) in
      read_payload n (\<lambda>b. codec_finish requested
        (if padding then take (nat (n - n mod 4)) b else b)))"

definition quickAckResponse_abridged :: "32 word \<Rightarrow> wire" where
  "quickAckResponse_abridged token = put_be32 ((token AND NOT (push_bit 31 1)) OR push_bit 31 1)"

definition quickAckResponse_intermediate :: "32 word \<Rightarrow> wire" where
  "quickAckResponse_intermediate token =
    put_le32 ((token AND NOT (push_bit 31 1)) OR push_bit 31 1)"

subsection \<open>Writing\<close>

definition validateOutgoingCompatMessage :: "wire \<Rightarrow> frame_error option" where
  "validateOutgoingCompatMessage b = (case validateCompatTransportLength (int (length b)) of
     Some e \<Rightarrow> Some e
   | None \<Rightarrow> if length b mod 4 \<noteq> 0 then Some (ErrNotAligned (int (length b))) else None)"

definition abridged_Write :: "wire \<Rightarrow> frame_error + wire" where
  "abridged_Write b = (case validateOutgoingCompatMessage b of
     Some e \<Rightarrow> Inl e
   | None \<Rightarrow>
      let words = length b div 4;
          header = (if words < 0x7f then [word_of_nat words]
                    else [0x7f, word_of_nat words, word_of_nat (words div 256),
                          word_of_nat (words div 65536)]) in
      Inr (header @ b))"

definition intermediate_Write :: "wire \<Rightarrow> frame_error + wire" where
  "intermediate_Write b = (case validateOutgoingCompatMessage b of
     Some e \<Rightarrow> Inl e
   | None \<Rightarrow> Inr (put_le32 (word_of_nat (length b)) @ b))"

text \<open>The four random bytes of the padding are a parameter; their first byte picks its length.\<close>

definition padded_Write :: "wire \<Rightarrow> wire \<Rightarrow> frame_error + wire" where
  "padded_Write padding b = (case validateOutgoingCompatMessage b of
     Some e \<Rightarrow> Inl e
   | None \<Rightarrow>
      let n = unat (padding ! 0) mod 4 in
      Inr (put_le32 (word_of_nat (length b + n)) @ b @ take n padding))"

section \<open>Codec values\<close>

text \<open>
  The dynamic types a \<open>transport.Codec\<close> may have. The linked codecs carry the program of their
  \<open>Read\<close>; \<open>NoHeader\<close> embeds a codec, whose \<open>Read\<close> it inherits.
\<close>

datatype codec_value =
    QuickAckAbridged
  | AbridgedCodec "codec_ret prog"
  | QuickAckIntermediate
  | IntermediateCodec "codec_ret prog"
  | QuickAckPaddedIntermediate
  | PaddedIntermediateCodec "codec_ret prog"
  | FullCodec "codec_ret prog"
  | NoHeader codec_value
  | NoHeaderPtr "codec_value option"
  | BudgetedCodec "codec_ret prog"
  | OtherCodec "codec_ret prog"

fun classifyInboundFrameCodec :: "codec_value \<Rightarrow> codec_kind" where
  "classifyInboundFrameCodec QuickAckAbridged = CodecQuickAckAbridged"
| "classifyInboundFrameCodec (AbridgedCodec _) = CodecAbridged"
| "classifyInboundFrameCodec QuickAckIntermediate = CodecIntermediate"
| "classifyInboundFrameCodec (IntermediateCodec _) = CodecIntermediate"
| "classifyInboundFrameCodec QuickAckPaddedIntermediate = CodecPaddedIntermediate"
| "classifyInboundFrameCodec (PaddedIntermediateCodec _) = CodecPaddedIntermediate"
| "classifyInboundFrameCodec (FullCodec _) = CodecFull"
| "classifyInboundFrameCodec (NoHeader v) = classifyInboundFrameCodec v"
| "classifyInboundFrameCodec (NoHeaderPtr None) = CodecUnknown"
| "classifyInboundFrameCodec (NoHeaderPtr (Some v)) = classifyInboundFrameCodec v"
| "classifyInboundFrameCodec (BudgetedCodec _) = CodecCustom"
| "classifyInboundFrameCodec (OtherCodec _) = CodecUnknown"

fun unwrapInboundFrameBudgetedCodec :: "codec_value \<Rightarrow> codec_ret prog option" where
  "unwrapInboundFrameBudgetedCodec (BudgetedCodec p) = Some p"
| "unwrapInboundFrameBudgetedCodec (NoHeader v) = unwrapInboundFrameBudgetedCodec v"
| "unwrapInboundFrameBudgetedCodec (NoHeaderPtr (Some v)) = unwrapInboundFrameBudgetedCodec v"
| "unwrapInboundFrameBudgetedCodec _ = None"

fun codec_Read :: "codec_value \<Rightarrow> codec_ret prog" where
  "codec_Read QuickAckAbridged = readQuickAckAbridged"
| "codec_Read (AbridgedCodec p) = p"
| "codec_Read QuickAckIntermediate = readQuickAckIntermediate False"
| "codec_Read (IntermediateCodec p) = p"
| "codec_Read QuickAckPaddedIntermediate = readQuickAckIntermediate True"
| "codec_Read (PaddedIntermediateCodec p) = p"
| "codec_Read (FullCodec p) = p"
| "codec_Read (NoHeader v) = codec_Read v"
| "codec_Read (NoHeaderPtr None) = codec_fail ErrForeign"
| "codec_Read (NoHeaderPtr (Some v)) = codec_Read v"
| "codec_Read (BudgetedCodec p) = p"
| "codec_Read (OtherCodec p) = p"

text \<open>
  Writing, for the codecs of this repository; \<open>padding\<close> are the random bytes of one padded write.
\<close>

fun codec_Write :: "codec_value \<Rightarrow> wire \<Rightarrow> wire \<Rightarrow> frame_error + wire" where
  "codec_Write QuickAckAbridged padding b = abridged_Write b"
| "codec_Write QuickAckIntermediate padding b = intermediate_Write b"
| "codec_Write QuickAckPaddedIntermediate padding b = padded_Write padding b"
| "codec_Write _ padding b = Inl ErrForeign"

text \<open>
  \<open>newCompatTransportConnWithCodec\<close> freezes the kind and the budgeted codec of a connection.
\<close>

record conn_codec =
  cc_kind :: codec_kind
  cc_budgeted :: "codec_ret prog option"
  cc_read :: "codec_ret prog"

definition newCompatTransportConnWithCodec :: "codec_value \<Rightarrow> frame_error + conn_codec" where
  "newCompatTransportConnWithCodec v =
    (let kind = classifyInboundFrameCodec v;
         budgeted = (if kind = CodecCustom then unwrapInboundFrameBudgetedCodec v else None) in
     if kind = CodecUnknown then Inl ErrInboundFrameCodecUnsupported
     else if kind = CodecCustom \<and> budgeted = None then Inl ErrInboundFrameCodecUnsupported
     else Inr \<lparr>cc_kind = kind, cc_budgeted = budgeted, cc_read = codec_Read v\<rparr>)"

section \<open>Receiving a frame\<close>

definition frame_alloc :: "nat \<Rightarrow> frame_run \<Rightarrow> frame_run" where
  "frame_alloc n fr =
    fr\<lparr>fr_allocs := fr_allocs fr @ [(n, heldFrameBytes (snd (fr_acct fr)))]\<rparr>"

definition raw_read :: "nat \<Rightarrow> frame_run \<Rightarrow> (frame_error + wire) \<times> frame_run" where
  "raw_read n fr = (case conn_read n (fr_net fr) of (r, net) \<Rightarrow> (r, fr\<lparr>fr_net := net\<rparr>))"

text \<open>
  A codec read through the preflight reader has no reservation callback to call; a custom codec
  reads the connection itself.
\<close>

definition preflight_run :: "codec_kind \<Rightarrow> 'a prog \<Rightarrow> frame_run \<Rightarrow> 'a \<times> frame_run" where
  "preflight_run kind =
    run_prog (preflight_Read kind) (\<lambda>_ _ fr. (Some ErrForeign, fr)) frame_alloc"

definition custom_run :: "'a prog \<Rightarrow> frame_run \<Rightarrow> 'a \<times> frame_run" where
  "custom_run = run_prog raw_read frame_reserve frame_alloc"

definition codec_run :: "conn_codec \<Rightarrow> frame_run \<Rightarrow> codec_ret \<times> frame_run" where
  "codec_run cc fr =
    (if cc_kind cc = CodecCustom then
       (case cc_budgeted cc of
          None \<Rightarrow> ((Some ErrInboundFrameCodecUnsupported, [], None), fr)
        | Some p \<Rightarrow> custom_run p fr)
     else preflight_run (cc_kind cc) (cc_read cc) fr)"

text \<open>The flag of the codec is written as soon as the codec has read a frame.\<close>

definition set_quick_ack :: "bool option \<Rightarrow> frame_conn \<Rightarrow> frame_conn" where
  "set_quick_ack q c = (case q of None \<Rightarrow> c | Some r \<Rightarrow> c\<lparr>quickAckRequested := r\<rparr>)"

definition readInboundFrame ::
  "conn_codec \<Rightarrow> frame_run \<Rightarrow> (frame_error + wire) \<times> frame_run" where
  "readInboundFrame cc fr =
    (if cc_kind cc = CodecUnknown then (Inl ErrInboundFrameCodecUnsupported, fr)
     else case codec_run cc fr of ((err, b, q), fr) \<Rightarrow>
       let fr = fr\<lparr>fr_acct := apsnd (set_quick_ack q) (fr_acct fr)\<rparr> in
       (case err of
          Some e \<Rightarrow> (Inl e, fr)
        | None \<Rightarrow> (case fr_reserveErr fr of
            Some e \<Rightarrow> (Inl e, fr)
          | None \<Rightarrow>
             if fr_calls fr \<noteq> 1 \<or> \<not> fr_reserved fr then (Inl ErrInboundFrameNotReserved, fr)
             else (case markInboundFrameDelivered (snd (fr_acct fr)) of
                 (Some e, c) \<Rightarrow> (Inl e, fr\<lparr>fr_acct := (fst (fr_acct fr), c)\<rparr>)
               | (None, c) \<Rightarrow> (Inr b, fr\<lparr>fr_acct := (fst (fr_acct fr), c)\<rparr>)))))"

text \<open>
  \<open>RecvDeadline\<close>; \<open>deadlineErr\<close> is what \<open>SetReadDeadline\<close> answers. Any error gives the whole
  reservation back.
\<close>

definition RecvDeadline ::
  "conn_codec \<Rightarrow> frame_error option \<Rightarrow> net_stream \<Rightarrow> frame_state \<Rightarrow>
   ((frame_error + wire) \<times> frame_run) outcome" where
  "RecvDeadline cc deadlineErr net bc =
    (let fr = start_run net (apsnd beginInboundFrameRead bc);
         give_back = (\<lambda>e fr. bind_outcome (releaseInboundFrame (fr_acct fr))
                               (\<lambda>bc. Ret (Inl e, fr\<lparr>fr_acct := bc\<rparr>))) in
     case deadlineErr of
       Some e \<Rightarrow> give_back e fr
     | None \<Rightarrow> (case readInboundFrame cc fr of
         (Inl e, fr) \<Rightarrow> give_back e fr
       | (Inr b, fr) \<Rightarrow> Ret (Inr b, fr)))"

definition ConsumeQuickAckRequested :: "frame_conn \<Rightarrow> bool \<times> frame_conn" where
  "ConsumeQuickAckRequested c = (quickAckRequested c, c\<lparr>quickAckRequested := False\<rparr>)"

section \<open>Detecting the transport\<close>

text \<open>
  The constants of the linked codec package (the start bytes a client sends) are parameters, as
  is the program of its full codec.
\<close>

record client_starts =
  abridged_start :: "8 word"
  intermediate_start :: wire
  padded_start :: wire

definition detectCompatCodec ::
  "client_starts \<Rightarrow> codec_ret prog \<Rightarrow> net_stream \<Rightarrow> frame_error + (codec_value \<times> net_stream)" where
  "detectCompatCodec cs full net = (case net_ReadFull 1 net of
     (Inl e, net) \<Rightarrow> Inl e
   | (Inr b0, net) \<Rightarrow>
      if b0 ! 0 = abridged_start cs then Inr (QuickAckAbridged, net)
      else (case net_ReadFull 3 net of
         (Inl e, net) \<Rightarrow> Inl e
       | (Inr b13, net) \<Rightarrow>
          let buf = b0 @ b13 in
          if buf = intermediate_start cs then Inr (QuickAckIntermediate, net)
          else if buf = padded_start cs then Inr (QuickAckPaddedIntermediate, net)
          else Inr (FullCodec full, net\<lparr>segs := buf # segs net\<rparr>)))"

end
