(* ===== verification/Transport_Framing_Theorems.thy ===== *)
theory Transport_Framing_Theorems
  imports Transport_Framing
begin

text \<open>
  What the framing layer promises: the result of a read does not depend on how the network cuts
  the bytes, what a codec writes the matching codec reads, no payload buffer is grown before its
  bytes are reserved, and the budget of inbound bytes is exact and never overdrawn whatever a
  linked codec does.
\<close>

section \<open>Reading from a stream\<close>

fun skip_segs :: "nat \<Rightarrow> wire list \<Rightarrow> wire list" where
  "skip_segs n ss = (case ss of
     [] \<Rightarrow> []
   | s # ss' \<Rightarrow> if n = 0 then ss else if length s \<le> n then skip_segs (n - length s) ss'
               else drop n s # ss')"

declare skip_segs.simps [simp del]

definition skip :: "nat \<Rightarrow> net_stream \<Rightarrow> net_stream" where
  "skip n net = net\<lparr>segs := skip_segs n (segs net)\<rparr>"

definition short_error :: "wire \<Rightarrow> frame_error \<Rightarrow> frame_error" where
  "short_error got e = (if got \<noteq> [] \<and> e = EOF then UnexpectedEOF else e)"

lemma skip_segs_simps [simp]:
  "skip_segs n [] = []"
  "skip_segs 0 ss = ss"
  "n \<noteq> 0 \<Longrightarrow> skip_segs n (s # ss) =
     (if length s \<le> n then skip_segs (n - length s) ss else drop n s # ss)"
  by (subst skip_segs.simps; simp split: list.split)+

lemma concat_skip_segs: "concat (skip_segs n ss) = drop n (concat ss)"
proof (induction ss arbitrary: n)
  case (Cons s ss)
  then show ?case by (cases "n = 0") auto
qed simp

lemma skip_simps [simp]:
  "pending (skip n net) = drop n (pending net)"
  "stop (skip n net) = stop net"
  "skip 0 net = net"
  by (simp_all add: pending_def skip_def concat_skip_segs)

lemma conn_read_segs_None: "conn_read_segs n ss = None \<longleftrightarrow> concat ss = []"
  by (induction n ss rule: conn_read_segs.induct) auto

lemma conn_read_segs_Some:
  assumes "conn_read_segs n ss = Some (bs, ss')" "0 < n"
  shows "bs \<noteq> [] \<and> length bs \<le> n \<and> bs = take (length bs) (concat ss)
    \<and> ss' = skip_segs (length bs) ss"
  using assms by (induction n ss rule: conn_read_segs.induct)
    (auto simp: take_Cons split: if_splits nat.splits)

lemma skip_segs_skip_segs:
  "skip_segs a (skip_segs b ss) = skip_segs (a + b) ss"
proof (induction ss arbitrary: a b)
  case (Cons s ss)
  then show ?case
    by (cases "a = 0"; cases "b = 0"; cases "length s \<le> b") (auto simp: ac_simps)
qed simp

lemma skip_skip [simp]:
  "skip a (skip b net) = skip (a + b) net"
  "(skip b net)\<lparr>segs := ss\<rparr> = net\<lparr>segs := ss\<rparr>"
  by (simp_all add: skip_def skip_segs_skip_segs)

text \<open>
  Three readers hand out the connection's bytes as they come: the connection, the custom codec's
  view of it and the preflight reader once its prefix is delivered. Each keeps the stream inside
  a larger state and touches nothing else of it.
\<close>

locale stream_reader =
  fixes rd :: "nat \<Rightarrow> 's \<Rightarrow> (frame_error + wire) \<times> 's"
    and get :: "'s \<Rightarrow> net_stream"
    and put :: "'s \<Rightarrow> net_stream \<Rightarrow> 's"
    and ok :: "'s \<Rightarrow> bool"
  assumes rd: "ok s \<Longrightarrow> 0 < n \<Longrightarrow>
      rd n s = (fst (conn_read n (get s)), put s (snd (conn_read n (get s))))"
    and get_put: "get (put s net) = net"
    and put_put: "put (put s net) net' = put s net'"
    and put_get: "put s (get s) = s"
    and ok_put: "ok (put s net) \<longleftrightarrow> ok s"
begin

lemma rd_empty:
  assumes "ok s" "0 < n" "pending (get s) = []"
  shows "rd n s = (Inl (stop (get s)), put s ((get s)\<lparr>segs := []\<rparr>))"
  using assms
  by (simp add: rd conn_read_def pending_def conn_read_segs_None [THEN iffD2])

lemma rd_some:
  assumes "ok s" "0 < n" "pending (get s) \<noteq> []"
  obtains m where "0 < m" "m \<le> n" "m \<le> length (pending (get s))"
    "rd n s = (Inr (take m (pending (get s))), put s (skip m (get s)))"
proof -
  obtain bs ss' where eq: "conn_read_segs n (segs (get s)) = Some (bs, ss')"
    using assms(3) by (cases "conn_read_segs n (segs (get s))")
      (auto simp: pending_def conn_read_segs_None simp del: concat_eq_Nil_conv)
  note props = conn_read_segs_Some [OF eq assms(2)]
  have "length bs \<le> length (pending (get s))"
    using props by (metis length_take min.absorb_iff2 nat_le_linear pending_def take_all_iff)
  moreover have "rd n s = (Inr (take (length bs) (pending (get s))), put s (skip (length bs) (get s)))"
    using props by (simp add: rd assms conn_read_def eq skip_def pending_def)
  ultimately show ?thesis using props that [of "length bs"] by auto
qed

lemma run_read_full_loop:
  assumes "ok s" "length acc \<le> n" "n - length acc \<le> fuel"
  shows "run_prog rd rv al (read_full_loop fuel n acc k) s =
    (let need = n - length acc; got = acc @ pending (get s) in
     if need \<le> length (pending (get s))
     then run_prog rd rv al (k (Inr (acc @ take need (pending (get s))))) (put s (skip need (get s)))
     else run_prog rd rv al (k (Inl (short_error got (stop (get s)))))
            (put s ((get s)\<lparr>segs := []\<rparr>)))"
  using assms
proof (induction fuel arbitrary: acc s)
  case 0
  then show ?case by (simp add: put_get Let_def)
next
  case (Suc fuel)
  show ?case
  proof (cases "n \<le> length acc")
    case True
    with Suc.prems show ?thesis by (simp add: put_get Let_def)
  next
    case less: False
    show ?thesis
    proof (cases "pending (get s) = []")
      case True
      with less Suc.prems show ?thesis
        by (simp add: rd_empty short_error_def Let_def)
    next
      case False
      obtain m where m: "0 < m" "m \<le> n - length acc" "m \<le> length (pending (get s))"
        "rd (n - length acc) s = (Inr (take m (pending (get s))), put s (skip m (get s)))"
        using rd_some [of s "n - length acc"] less Suc.prems False by auto
      let ?s = "put s (skip m (get s))" and ?acc = "acc @ take m (pending (get s))"
      have pend: "pending (get s) = take m (pending (get s)) @ pending (get ?s)"
        by (simp add: get_put)
      have tk: "take m p @ take (n - length acc - m) (drop m p) = take (n - length acc) p"
        for p :: wire
        using m(2) by (metis le_add_diff_inverse take_add)
      have "run_prog rd rv al (read_full_loop (Suc fuel) n acc k) s
          = run_prog rd rv al (read_full_loop fuel n ?acc k) ?s"
        using less m by simp
      also have "\<dots> = (let need = n - length ?acc; got = ?acc @ pending (get ?s) in
          if need \<le> length (pending (get ?s))
          then run_prog rd rv al (k (Inr (?acc @ take need (pending (get ?s)))))
                 (put ?s (skip need (get ?s)))
          else run_prog rd rv al (k (Inl (short_error got (stop (get ?s)))))
                 (put ?s ((get ?s)\<lparr>segs := []\<rparr>)))"
        using m Suc.prems less by (intro Suc.IH) (auto simp: ok_put)
      also have "\<dots> = (let need = n - length acc; got = acc @ pending (get s) in
          if need \<le> length (pending (get s))
          then run_prog rd rv al (k (Inr (acc @ take need (pending (get s)))))
                 (put s (skip need (get s)))
          else run_prog rd rv al (k (Inl (short_error got (stop (get s)))))
                 (put s ((get s)\<lparr>segs := []\<rparr>)))"
        using m less tk by (auto simp: get_put put_put Let_def min_absorb2 add.commute)
      finally show ?thesis .
    qed
  qed
qed

end

interpretation raw: stream_reader conn_read "\<lambda>net. net" "\<lambda>_ net. net" "\<lambda>_. True"
  by unfold_locales simp_all

interpretation custom: stream_reader raw_read fr_net "\<lambda>fr net. fr\<lparr>fr_net := net\<rparr>" "\<lambda>_. True"
  by unfold_locales (simp_all add: raw_read_def split: prod.splits)

interpretation payload: stream_reader "preflight_Read kind" fr_net "\<lambda>fr net. fr\<lparr>fr_net := net\<rparr>" fr_done
  by unfold_locales (simp_all add: preflight_Read_def split: prod.splits)

lemma net_ReadFull_eq:
  "net_ReadFull n net = (if n \<le> length (pending net) then (Inr (take n (pending net)), skip n net)
     else (Inl (short_error (pending net) (stop net)), net\<lparr>segs := []\<rparr>))"
  by (simp add: net_ReadFull_def io_ReadFull_def raw.run_read_full_loop Let_def)

lemma preflight_payload:
  assumes "fr_done fr"
  shows "preflight_run kind (io_ReadFull n k) fr =
    (case net_ReadFull n (fr_net fr) of (r, net) \<Rightarrow>
       preflight_run kind (k r) (fr\<lparr>fr_net := net\<rparr>))"
  using assms
  by (simp add: preflight_run_def io_ReadFull_def payload.run_read_full_loop net_ReadFull_eq Let_def)

text \<open>The first read of a codec asks for exactly the prefix the preflight reader holds back.\<close>

lemma read_full_loop_enough: "n \<le> length acc \<Longrightarrow> read_full_loop fuel n acc k = k (Inr acc)"
  by (cases fuel) auto

lemma preflight_prefix:
  assumes "0 < n" "preflight_Read kind n fr = (r, fr')"
    and "\<And>bs. r = Inr bs \<Longrightarrow> n \<le> length bs"
  shows "preflight_run kind (io_ReadFull n k) fr = preflight_run kind (k r) fr'"
proof -
  obtain m where "n = Suc m" using assms(1) by (cases n) auto
  with assms show ?thesis
    by (cases r) (auto simp: preflight_run_def io_ReadFull_def read_full_loop_enough)
qed

section \<open>Accounting\<close>

text \<open>
  The budget is at least what this connection holds, and never beyond its limit. \<open>same_share\<close>
  relates two states that differ only in what this connection holds: everybody else's part of the
  budget is the same.
\<close>

definition acct_ok :: "frame_state \<Rightarrow> bool" where
  "acct_ok bc \<longleftrightarrow> 0 \<le> heldFrameBytes (snd bc) \<and> heldFrameBytes (snd bc) \<le> fb_used (fst bc)
     \<and> fb_used (fst bc) \<le> fb_max (fst bc)"

definition others :: "frame_state \<Rightarrow> int" where
  "others bc = fb_used (fst bc) - heldFrameBytes (snd bc)"

definition same_share :: "frame_state \<Rightarrow> frame_state \<Rightarrow> bool" where
  "same_share bc bc' \<longleftrightarrow> acct_ok bc' \<and> fb_max (fst bc') = fb_max (fst bc)
     \<and> others bc' = others bc \<and> connClosed (snd bc') = connClosed (snd bc)"

lemmas acct_defs = acct_ok_def others_def same_share_def

lemma growReservation_Inr:
  assumes "growReservation b cur w p = Inr (n, b')"
  shows "0 \<le> cur \<and> 0 < w \<and> 0 \<le> p \<and> n = max cur (w + p) \<and> fb_max b' = fb_max b
    \<and> fb_used b' = fb_used b + (n - cur) \<and> (fb_used b \<le> fb_max b \<longrightarrow> fb_used b' \<le> fb_max b)"
  using assms by (auto simp: growReservation_def Let_def split: if_splits)

lemma budget_release_Ret:
  "n \<le> fb_used b \<Longrightarrow> budget_release b n = Ret (b\<lparr>fb_used := fb_used b - n\<rparr>)"
  by (simp add: budget_release_def)

lemma reserveInboundFrame_share:
  assumes "same_share bc0 bc"
  shows "same_share bc0 (snd (reserveInboundFrame w p bc))"
  using assms
  by (auto simp: reserveInboundFrame_def acct_defs dest!: growReservation_Inr split: sum.splits)

lemma reserveInboundFrame_None:
  assumes "reserveInboundFrame w p bc = (None, bc')"
  shows "w + p \<le> heldFrameBytes (snd bc') \<and> \<not> connClosed (snd bc')"
  using assms by (auto simp: reserveInboundFrame_def dest!: growReservation_Inr split: if_splits sum.splits)

lemma releaseInboundFrame_Ret:
  assumes "acct_ok bc"
  shows "\<exists>bc'. releaseInboundFrame bc = Ret bc' \<and> same_share bc bc'
    \<and> heldFrameBytes (snd bc') = 0 \<and> \<not> frameDelivered (snd bc')
    \<and> quickAckRequested (snd bc') = quickAckRequested (snd bc)"
  using assms by (auto simp: releaseInboundFrame_def budget_release_Ret acct_defs)

lemma retainInboundFrameBytes_Ret:
  assumes "acct_ok bc"
  shows "\<exists>r bc'. retainInboundFrameBytes n bc = Ret (r, bc') \<and> same_share bc bc'
    \<and> (if r then heldFrameBytes (snd bc') = n else bc' = bc) \<and> (n = 0 \<longrightarrow> r)"
proof (cases "n > heldFrameBytes (snd bc)")
  case True
  show ?thesis
  proof (cases "growReservation (fst bc) (heldFrameBytes (snd bc)) n 0")
    case (Inl e)
    with True assms show ?thesis
      by (auto simp: retainInboundFrameBytes_def Let_def same_share_def acct_ok_def)
  next
    case (Inr nb)
    then obtain m b where "growReservation (fst bc) (heldFrameBytes (snd bc)) n 0 = Inr (m, b)"
      by (cases nb) auto
    with True assms growReservation_Inr [OF this] show ?thesis
      by (auto simp: retainInboundFrameBytes_def Let_def acct_defs)
  qed
next
  case False
  with assms show ?thesis
    by (cases "n < 0")
      (auto simp add: retainInboundFrameBytes_def Let_def acct_defs budget_release_Ret)
qed

lemma retainInboundFrameBackings_Ret:
  assumes "acct_ok bc"
  shows "\<exists>r bc'. retainInboundFrameBackings caps bc = Ret (r, bc') \<and> same_share bc bc'
    \<and> heldFrameBytes (snd bc') = (if r then sum_list (map (case_option 0 (\<lambda>c. c)) caps) else 0)"
proof -
  let ?n = "sum_list (map (case_option 0 (\<lambda>c. c)) caps) :: int"
  obtain r bc1 where 1: "retainInboundFrameBytes ?n bc = Ret (r, bc1)" "same_share bc bc1"
    "if r then heldFrameBytes (snd bc1) = ?n else bc1 = bc"
    using retainInboundFrameBytes_Ret [OF assms, of ?n] by blast
  obtain r2 bc2 where 2: "retainInboundFrameBytes 0 bc = Ret (r2, bc2)" "same_share bc bc2"
    "if r2 then heldFrameBytes (snd bc2) = 0 else bc2 = bc" "r2"
    using retainInboundFrameBytes_Ret [OF assms, of 0] by blast
  show ?thesis
    using 1 2 by (cases r) (auto simp: retainInboundFrameBackings_def)
qed

subsection \<open>Whatever a codec does\<close>

lemma run_prog_inv:
  assumes "\<And>n s. P s \<Longrightarrow> P (snd (rd n s))" "\<And>w p s. P s \<Longrightarrow> P (snd (rv w p s))"
    and "\<And>n s. P s \<Longrightarrow> P (al n s)"
  shows "P s \<Longrightarrow> P (snd (run_prog rd rv al prg s))"
  by (induction prg arbitrary: s) (auto simp: assms Let_def)

abbreviation share_from :: "frame_state \<Rightarrow> frame_run \<Rightarrow> bool" where
  "share_from bc0 fr \<equiv> same_share bc0 (fr_acct fr)"

lemma frame_reserve_share:
  "frame_reserve w p fr = (r, fr') \<Longrightarrow> share_from bc0 fr \<Longrightarrow> share_from bc0 fr'"
  using reserveInboundFrame_share [of bc0 "fr_acct fr" w p]
  by (auto simp: frame_reserve_def Let_def split: prod.splits if_splits)

lemma reserveCompatFrame_share:
  "reserveCompatFrame w p fr = (r, fr') \<Longrightarrow> share_from bc0 fr \<Longrightarrow> share_from bc0 fr'"
  by (auto simp: reserveCompatFrame_def split: if_splits dest: frame_reserve_share)

lemma raw_full_share: "raw_full n fr = (r, fr') \<Longrightarrow> share_from bc0 fr \<Longrightarrow> share_from bc0 fr'"
  by (auto simp: raw_full_def split: prod.splits)

lemmas prefix_share = reserveCompatFrame_share raw_full_share

lemma readAbridgedPrefix_share:
  "share_from bc0 fr \<Longrightarrow> share_from bc0 (snd (readAbridgedPrefix n q fr))"
  by (cases "fr_first fr")
    (auto simp: readAbridgedPrefix_def Let_def dest!: prefix_share
       split: prod.split sum.split option.split)

lemma readWordPrefix_share:
  "share_from bc0 fr \<Longrightarrow> share_from bc0 (snd (readWordPrefix n full fr))"
  by (auto simp: readWordPrefix_def Let_def dest!: prefix_share
       split: prod.split sum.split option.split)

lemma preflight_Read_share:
  "share_from bc0 fr \<Longrightarrow> share_from bc0 (snd (preflight_Read kind n fr))"
  by (auto simp: preflight_Read_def readAbridgedPrefix_share readWordPrefix_share
       split: prod.splits codec_kind.splits)

lemma codec_run_share:
  assumes "share_from bc0 fr"
  shows "share_from bc0 (snd (codec_run cc fr))"
proof -
  have "share_from bc0 (snd (preflight_run kind prg fr))" for kind and prg :: "'b prog"
    unfolding preflight_run_def using assms
    by (rule run_prog_inv [where P = "share_from bc0", rotated -1])
      (simp_all add: preflight_Read_share frame_alloc_def)
  moreover have "share_from bc0 (snd (custom_run prg fr))" for prg :: "'b prog"
    unfolding custom_run_def using assms
    by (rule run_prog_inv [where P = "share_from bc0", rotated -1])
      (auto simp: raw_read_def frame_alloc_def split: prod.split intro: frame_reserve_share [OF surjective_pairing])
  ultimately show ?thesis
    using assms by (auto simp: codec_run_def split: option.split)
qed

lemma readInboundFrame_share:
  assumes "share_from bc0 fr" "readInboundFrame cc fr = (r, fr')"
  shows "share_from bc0 fr' \<and> (\<forall>b. r = Inr b \<longrightarrow>
    frameDelivered (snd (fr_acct fr')) \<and> 0 < heldFrameBytes (snd (fr_acct fr'))
    \<and> \<not> connClosed (snd (fr_acct fr')))"
  using assms(2) codec_run_share [OF assms(1), of cc] assms(1)
  by (auto simp: readInboundFrame_def markInboundFrameDelivered_def Let_def set_quick_ack_def
        acct_defs apsnd_def map_prod_def split: if_splits option.splits prod.splits)

lemma RecvDeadline_share:
  assumes "acct_ok bc"
  shows "\<exists>r fr. RecvDeadline cc deadlineErr net bc = Ret (r, fr) \<and> same_share bc (fr_acct fr)
    \<and> (case r of
         Inl e \<Rightarrow> heldFrameBytes (snd (fr_acct fr)) = 0 \<and> \<not> frameDelivered (snd (fr_acct fr))
       | Inr b \<Rightarrow> 0 < heldFrameBytes (snd (fr_acct fr)) \<and> frameDelivered (snd (fr_acct fr))
           \<and> \<not> connClosed (snd (fr_acct fr)))"
proof -
  let ?fr = "start_run net (apsnd beginInboundFrameRead bc)"
  have start: "share_from bc ?fr"
    using assms by (cases bc) (simp add: start_run_def beginInboundFrameRead_def acct_defs)
  have freed: "\<exists>bc'. releaseInboundFrame (fr_acct fr) = Ret bc' \<and> same_share bc bc'
      \<and> heldFrameBytes (snd bc') = 0 \<and> \<not> frameDelivered (snd bc')" if "share_from bc fr" for fr
    using releaseInboundFrame_Ret [of "fr_acct fr"] that by (auto simp: same_share_def)
  obtain r fr where run: "readInboundFrame cc ?fr = (r, fr)" by fastforce
  note res = readInboundFrame_share [OF start run]
  show ?thesis
    using freed [OF start] freed [of fr] res run
    by (cases deadlineErr; cases r) (auto simp: RecvDeadline_def Let_def)
qed

text \<open>
  C25. Memory of inbound frames is accounted for exactly, whatever the codec. A receive on a
  connection never panics; it leaves everybody else's part of the budget alone and stays within
  the limit; when it fails the connection holds nothing; when it delivers a frame the connection
  is open and holds a reservation. The codec is arbitrary: any sequence of reads, reservations
  and allocations.
\<close>

theorem recv_accounting:
  assumes "acct_ok bc"
  shows "\<exists>r fr. RecvDeadline cc deadlineErr net bc = Ret (r, fr) \<and> same_share bc (fr_acct fr)
    \<and> (case r of
         Inl e \<Rightarrow> heldFrameBytes (snd (fr_acct fr)) = 0 \<and> \<not> frameDelivered (snd (fr_acct fr))
       | Inr b \<Rightarrow> 0 < heldFrameBytes (snd (fr_acct fr)) \<and> frameDelivered (snd (fr_acct fr))
           \<and> \<not> connClosed (snd (fr_acct fr)))"
  using assms by (rule RecvDeadline_share)

section \<open>No allocation before its reservation\<close>

definition alloc_safe :: "frame_run \<Rightarrow> bool" where
  "alloc_safe fr = list_all (\<lambda>(n, held). 2 * int n \<le> held) (fr_allocs fr)"

abbreviation held :: "frame_run \<Rightarrow> int" where
  "held fr \<equiv> heldFrameBytes (snd (fr_acct fr))"

lemma preflight_run_simps [simp]:
  "preflight_run kind (Done x) fr = (x, fr)"
  "preflight_run kind (DoAlloc n p) fr = preflight_run kind p (frame_alloc n fr)"
  by (simp_all add: preflight_run_def)

lemma frame_alloc_simps [simp]:
  "fr_net (frame_alloc n fr) = fr_net fr" "fr_done (frame_alloc n fr) = fr_done fr"
  "fr_acct (frame_alloc n fr) = fr_acct fr" "fr_calls (frame_alloc n fr) = fr_calls fr"
  "fr_reserved (frame_alloc n fr) = fr_reserved fr"
  "fr_reserveErr (frame_alloc n fr) = fr_reserveErr fr"
  by (simp_all add: frame_alloc_def)

lemma raw_full_eq:
  "raw_full n fr = (if n \<le> length (pending (fr_net fr))
     then (Inr (take n (pending (fr_net fr))), fr\<lparr>fr_net := skip n (fr_net fr)\<rparr>)
     else (Inl (short_error (pending (fr_net fr)) (stop (fr_net fr))),
           fr\<lparr>fr_net := (fr_net fr)\<lparr>segs := []\<rparr>\<rparr>))"
  by (simp add: raw_full_def net_ReadFull_eq)

lemma reserveCompatFrame_facts:
  assumes "reserveCompatFrame w p fr = (r, fr')"
  shows "fr_allocs fr' = fr_allocs fr \<and> fr_first fr' = fr_first fr \<and> fr_done fr' = fr_done fr
    \<and> (r = None \<longrightarrow> w + p \<le> held fr' \<and> 0 < w \<and> w \<le> maxTransportMessageSize)"
  using assms
  by (auto simp: reserveCompatFrame_def frame_reserve_def Let_def
        dest!: reserveInboundFrame_None split: if_splits prod.splits)

lemma abridged_first:
  assumes "readAbridgedPrefix n True fr = (r, fr')" "\<not> fr_first fr" "\<not> fr_done fr"
  shows "fr_allocs fr' = fr_allocs fr \<and> (\<forall>bs. r = Inr bs \<longrightarrow> (\<exists>b. bs = [b]
    \<and> (if b AND 0x7f = 0x7f then fr_first fr' \<and> \<not> fr_done fr'
       else fr_done fr' \<and> 8 * uint (b AND 0x7f) \<le> held fr')))"
proof (cases "pending (fr_net fr)")
  case Nil
  with assms show ?thesis by (auto simp: readAbridgedPrefix_def raw_full_eq)
next
  case (Cons b bs)
  let ?fr = "fr\<lparr>fr_net := skip 1 (fr_net fr)\<rparr>" and ?n = "uint (b AND 0x7f) * 4"
  obtain e fr1 where res: "reserveCompatFrame ?n ?n ?fr = (e, fr1)" by fastforce
  have "readAbridgedPrefix n True fr =
      (if b AND 0x7f = 0x7f then (Inr [b], ?fr\<lparr>fr_first := True\<rparr>)
       else case e of Some x \<Rightarrow> (Inl x, fr1)
         | None \<Rightarrow> (Inr [b], fr1\<lparr>fr_done := True, fr_first := True\<rparr>))"
    using Cons assms(2) res
    by (simp add: readAbridgedPrefix_def raw_full_eq Let_def split: option.split)
  then have "(r, fr') = (if b AND 0x7f = 0x7f then (Inr [b], ?fr\<lparr>fr_first := True\<rparr>)
       else case e of Some x \<Rightarrow> (Inl x, fr1)
         | None \<Rightarrow> (Inr [b], fr1\<lparr>fr_done := True, fr_first := True\<rparr>))"
    using assms(1) by simp
  with assms(3) reserveCompatFrame_facts [OF res] show ?thesis
    by (cases "b AND 0x7f = 0x7f"; cases e) simp_all
qed

lemma abridged_tail:
  assumes "readAbridgedPrefix 3 q fr = (r, fr')" "fr_first fr"
  shows "fr_allocs fr' = fr_allocs fr \<and> (\<forall>bs. r = Inr bs \<longrightarrow>
    length bs = 3 \<and> fr_done fr' \<and> 8 * uint (le24 bs) \<le> held fr')"
  using assms
  by (auto simp: readAbridgedPrefix_def raw_full_eq Let_def
        dest!: reserveCompatFrame_facts
        split: if_splits prod.splits option.splits)

lemma word_prefix:
  assumes "readWordPrefix 4 False fr = (r, fr')"
  shows "fr_allocs fr' = fr_allocs fr \<and> (\<forall>bs. r = Inr bs \<longrightarrow>
    length bs = 4 \<and> fr_done fr' \<and> 2 * uint (le32 bs AND NOT (push_bit 31 1)) \<le> held fr')"
  using assms
  by (auto simp: readWordPrefix_def raw_full_eq Let_def
        dest!: reserveCompatFrame_facts
        split: if_splits prod.splits option.splits)

lemma payload_alloc:
  assumes "fr_done fr" "2 * n \<le> held fr" "alloc_safe fr" "\<And>b. \<exists>x. k b = Done x"
  shows "alloc_safe (snd (preflight_run kind (read_payload n k) fr))"
proof -
  have "alloc_safe (frame_alloc (nat n) fr)" if "0 < n"
    using assms that by (simp add: alloc_safe_def frame_alloc_def)
  moreover have "alloc_safe (snd (preflight_run kind (k b) fr')) = alloc_safe fr'" for b fr'
    using assms(4) [of b] by auto
  ultimately show ?thesis
    using assms
    by (auto simp: read_payload_def validateCompatTransportLength_def codec_fail_def
          preflight_payload net_ReadFull_eq alloc_safe_def)
qed

lemma le24_bound: "uint (le24 bs) < 16777216"
proof -
  have "le24 bs = take_bit 24 (le24 bs)"
    by (rule bit_word_eqI) (auto simp: le24_def bit_simps dest: bit_imp_le_length)
  then have "uint (le24 bs) = take_bit 24 (uint (le24 bs))"
    by (metis unsigned_take_bit_eq)
  then show ?thesis using take_bit_int_less_exp [of 24 "uint (le24 bs)"] by simp
qed

lemma uint_shift_le24: "uint (push_bit 2 (le24 bs)) = 4 * uint (le24 bs)"
  using le24_bound [of bs] by (simp add: push_bit_eq_mult uint_word_ariths)

lemma abridged_alloc:
  assumes "\<not> fr_first fr" "\<not> fr_done fr" "alloc_safe fr"
  shows "alloc_safe (snd (preflight_run CodecQuickAckAbridged readQuickAckAbridged fr))"
proof -
  obtain r fr1 where rd: "readAbridgedPrefix 1 True fr = (r, fr1)" by fastforce
  note first = abridged_first [OF rd assms(1,2)]
  have safe1: "alloc_safe fr1" using first assms(3) by (simp add: alloc_safe_def)
  have pre: "preflight_Read CodecQuickAckAbridged 1 fr = (r, fr1)"
    using rd assms by (simp add: preflight_Read_def)
  have run: "preflight_run CodecQuickAckAbridged (io_ReadFull 1 k) fr
      = preflight_run CodecQuickAckAbridged (k r) fr1" for k :: "_ \<Rightarrow> codec_ret prog"
    using first by (intro preflight_prefix [OF _ pre]) auto
  show ?thesis
  proof (cases r)
    case (Inl e)
    with safe1 show ?thesis by (simp add: readQuickAckAbridged_def run codec_fail_def del: One_nat_def)
  next
    case (Inr bs)
    with first obtain b where b: "bs = [b]"
      "if b AND 0x7f = 0x7f then fr_first fr1 \<and> \<not> fr_done fr1
       else fr_done fr1 \<and> 8 * uint (b AND 0x7f) \<le> held fr1" by auto
    show ?thesis
    proof (cases "b AND 0x7f = 0x7f")
      case False
      with b safe1 show ?thesis
        by (simp add: readQuickAckAbridged_def run Inr payload_alloc codec_finish_def
              del: One_nat_def)
    next
      case True
      obtain r2 fr2 where rd2: "readAbridgedPrefix 3 True fr1 = (r2, fr2)" by fastforce
      have tail: "fr_allocs fr2 = fr_allocs fr1 \<and> (\<forall>bs. r2 = Inr bs \<longrightarrow>
          length bs = 3 \<and> fr_done fr2 \<and> 8 * uint (le24 bs) \<le> held fr2)"
        using True b by (intro abridged_tail [OF rd2]) auto
      have safe2: "alloc_safe fr2" using tail safe1 by (simp add: alloc_safe_def)
      have pre2: "preflight_Read CodecQuickAckAbridged 3 fr1 = (r2, fr2)"
        using rd2 True b by (simp add: preflight_Read_def)
      have run2: "preflight_run CodecQuickAckAbridged (io_ReadFull 3 k) fr1
          = preflight_run CodecQuickAckAbridged (k r2) fr2" for k :: "_ \<Rightarrow> codec_ret prog"
        using tail by (intro preflight_prefix [OF _ pre2]) auto
      from True b tail safe2 show ?thesis
        by (cases r2) (simp_all add: readQuickAckAbridged_def run Inr run2 codec_fail_def
              payload_alloc codec_finish_def uint_shift_le24 del: One_nat_def)
    qed
  qed
qed

lemma intermediate_alloc:
  assumes "\<not> fr_done fr" "alloc_safe fr" "kind = CodecIntermediate \<or> kind = CodecPaddedIntermediate"
  shows "alloc_safe (snd (preflight_run kind (readQuickAckIntermediate padding) fr))"
proof -
  obtain r fr1 where rd: "readWordPrefix 4 False fr = (r, fr1)" by fastforce
  note word = word_prefix [OF rd]
  have safe1: "alloc_safe fr1" using word assms(2) by (simp add: alloc_safe_def)
  have pre: "preflight_Read kind 4 fr = (r, fr1)"
    using rd assms by (auto simp: preflight_Read_def)
  have run: "preflight_run kind (io_ReadFull 4 k) fr = preflight_run kind (k r) fr1"
    for k :: "_ \<Rightarrow> codec_ret prog"
    using word by (intro preflight_prefix [OF _ pre]) auto
  show ?thesis
  proof (cases r)
    case (Inl e)
    with safe1 show ?thesis by (simp add: readQuickAckIntermediate_def run codec_fail_def)
  next
    case (Inr bs)
    with word safe1 show ?thesis
      unfolding readQuickAckIntermediate_def run Inr Let_def sum.case
      by (intro payload_alloc) (simp_all add: codec_finish_def)
  qed
qed

text \<open>
  C20. No attacker-chosen allocation. Whatever bytes arrive, in whatever pieces and whatever the
  state of the budget, a codec of this repository grows its payload buffer only after the
  connection holds a reservation for those bytes twice over, as wire bytes and as plaintext.
\<close>

theorem payload_within_reservation:
  assumes "v \<in> {QuickAckAbridged, QuickAckIntermediate, QuickAckPaddedIntermediate}"
    and "newCompatTransportConnWithCodec v = Inr cc"
    and "RecvDeadline cc deadlineErr net bc = Ret (r, fr)"
  shows "\<forall>(n, held) \<in> set (fr_allocs fr). 2 * int n \<le> held"
proof -
  let ?fr = "start_run net (apsnd beginInboundFrameRead bc)"
  have start: "\<not> fr_first ?fr" "\<not> fr_done ?fr" "alloc_safe ?fr"
    by (simp_all add: start_run_def alloc_safe_def)
  have "alloc_safe (snd (codec_run cc ?fr))"
    using assms(1,2) start
    by (auto simp: newCompatTransportConnWithCodec_def codec_run_def abridged_alloc intermediate_alloc)
  then have "alloc_safe (snd (readInboundFrame cc ?fr))"
    using start
    by (auto simp: readInboundFrame_def alloc_safe_def Let_def split: prod.splits option.splits)
  then have "alloc_safe fr"
    using assms(3) start
    by (auto simp: RecvDeadline_def alloc_safe_def Let_def split: option.splits prod.splits sum.splits)
  then show ?thesis by (simp add: alloc_safe_def list_all_iff)
qed

section \<open>What is written is read\<close>

subsection \<open>Length prefixes\<close>

lemma take_bit_of_nat_word: "take_bit k (word_of_nat n :: 'a::len word) = word_of_nat (take_bit k n)"
  by (rule bit_word_eqI) (auto simp: bit_simps)

lemma short_byte:
  assumes "w < 127"
  shows "uint ((word_of_nat w :: 8 word) AND 0x7f) = int w"
    "(word_of_nat w :: 8 word) AND 0x7f \<noteq> 0x7f"
    "(word_of_nat w :: 8 word) AND 0x80 = 0"
proof -
  have mask: "(word_of_nat w :: 8 word) AND 0x7f = take_bit 7 (word_of_nat w)"
    by (simp add: take_bit_eq_mask mask_eq_exp_minus_1)
  have tb: "take_bit 7 (word_of_nat w :: 8 word) = word_of_nat w"
    using assms by (simp add: take_bit_of_nat_word take_bit_nat_eq_self)
  show u: "uint ((word_of_nat w :: 8 word) AND 0x7f) = int w"
    unfolding mask tb using assms by (simp add: uint_nat unat_of_nat)
  show "(word_of_nat w :: 8 word) AND 0x7f \<noteq> 0x7f"
    using u assms by auto
  have "(word_of_nat w :: 8 word) AND 0x80 = (word_of_nat w AND 0x7f) AND 0x80"
    unfolding mask tb by simp
  also have "\<dots> = 0" by (simp add: and.assoc)
  finally show "(word_of_nat w :: 8 word) AND 0x80 = 0" .
qed

lemma le32_put: "le32 (put_le32 w) = w"
  by (rule bit_word_eqI)
    (auto simp: le32_def put_le32_def bit_simps not_less le_less_Suc_eq intro: ccontr)

lemma le24_bytes:
  assumes "w < 16777216"
  shows "le24 [word_of_nat w, word_of_nat (w div 256), word_of_nat (w div 65536)] = word_of_nat w"
proof -
  have w: "take_bit 24 w = w" using assms by (simp add: take_bit_nat_eq_self)
  have "w div 256 = drop_bit 8 w" "w div 65536 = drop_bit 16 w"
    by (simp_all add: drop_bit_eq_div)
  moreover have "le24 [word_of_nat w, word_of_nat (drop_bit 8 w), word_of_nat (drop_bit 16 w)]
      = word_of_nat (take_bit 24 w)"
    by (rule bit_word_eqI, rename_tac n, case_tac "n < 16") (auto simp: le24_def bit_simps)
  ultimately show ?thesis by (simp add: w)
qed

lemma len_word:
  assumes "n < 2147483648"
  shows "uint ((word_of_nat n :: 32 word) AND NOT (push_bit 31 1)) = int n"
    "(word_of_nat n :: 32 word) AND push_bit 31 1 = 0"
proof -
  have tb: "take_bit 31 (word_of_nat n :: 32 word) = word_of_nat n"
    using assms by (simp add: take_bit_of_nat_word take_bit_nat_eq_self)
  have m: "(word_of_nat n :: 32 word) AND NOT (push_bit 31 1) = take_bit 31 (word_of_nat n)"
    by (rule bit_word_eqI, unfold bit_simps) auto
  show "uint ((word_of_nat n :: 32 word) AND NOT (push_bit 31 1)) = int n"
    unfolding m tb using assms by (simp add: uint_nat unat_of_nat)
  show "(word_of_nat n :: 32 word) AND push_bit 31 1 = 0"
    by (subst tb [symmetric], rule bit_word_eqI, unfold bit_simps) auto
qed
subsection \<open>A frame on an open connection\<close>

definition grant :: "int \<Rightarrow> frame_state \<Rightarrow> frame_state" where
  "grant n bc = (let h = max (heldFrameBytes (snd bc)) (2 * n) in
     ((fst bc)\<lparr>fb_used := fb_used (fst bc) + (h - heldFrameBytes (snd bc))\<rparr>,
      (snd bc)\<lparr>heldFrameBytes := h\<rparr>))"

definition granted :: "int \<Rightarrow> frame_run \<Rightarrow> frame_run" where
  "granted n fr = fr\<lparr>fr_calls := 1, fr_reserveErr := None, fr_reserved := True,
     fr_acct := grant n (fr_acct fr)\<rparr>"

lemma granted_simps [simp]:
  "fr_net (granted n fr) = fr_net fr" "fr_first (granted n fr) = fr_first fr"
  "fr_done (granted n fr) = fr_done fr" "fr_acct (granted n fr) = grant n (fr_acct fr)"
  "fr_calls (granted n fr) = 1" "fr_reserved (granted n fr)" "fr_reserveErr (granted n fr) = None"
  by (simp_all add: granted_def)

text \<open>There is room for a frame of \<open>n\<close> bytes on this connection.\<close>

definition room :: "int \<Rightarrow> frame_state \<Rightarrow> bool" where
  "room n bc \<longleftrightarrow> acct_ok bc \<and> \<not> connClosed (snd bc) \<and> others bc + 2 * n \<le> fb_max (fst bc)"

lemma reserve_granted:
  assumes "room n (fr_acct fr)" "fr_calls fr = 0" "0 < n" "n \<le> maxTransportMessageSize"
  shows "reserveCompatFrame n n fr = (None, granted n fr)"
proof -
  obtain b c where [simp]: "fr_acct fr = (b, c)" by (cases "fr_acct fr")
  have "growReservation b (heldFrameBytes c) n n =
      Inr (max (heldFrameBytes c) (2 * n), fst (grant n (b, c)))"
    using assms by (auto simp: growReservation_def Let_def room_def acct_defs grant_def max_def)
  then show ?thesis
    using assms by (simp add: reserveCompatFrame_def frame_reserve_def reserveInboundFrame_def
      granted_def room_def grant_def Let_def)
qed

lemma payload_read:
  assumes "fr_done fr" "0 < n" "n \<le> maxTransportMessageSize"
    and "pending (fr_net fr) = b @ rest" "length b = nat n"
  shows "preflight_run kind (read_payload n k) fr =
    preflight_run kind (k b) ((frame_alloc (nat n) fr)\<lparr>fr_net := skip (nat n) (fr_net fr)\<rparr>)"
  using assms
  by (simp add: read_payload_def validateCompatTransportLength_def preflight_payload net_ReadFull_eq)

text \<open>What a successful codec read leaves to do.\<close>

lemma recv_delivers:
  assumes "codec_run cc (start_run net (apsnd beginInboundFrameRead bc)) = ((None, b, Some q), fr)"
    and "fr_calls fr = 1" "fr_reserved fr" "fr_reserveErr fr = None" "cc_kind cc \<noteq> CodecUnknown"
    and "fr_acct fr = grant n (apsnd beginInboundFrameRead bc)" "0 < n" "room n bc"
  shows "\<exists>fr'. RecvDeadline cc None net bc = Ret (Inr b, fr') \<and> fr_net fr' = fr_net fr
    \<and> quickAckRequested (snd (fr_acct fr')) = q
    \<and> heldFrameBytes (snd (fr_acct fr')) = max (heldFrameBytes (snd bc)) (2 * n)"
  using assms
  by (cases bc)
    (simp add: RecvDeadline_def readInboundFrame_def markInboundFrameDelivered_def grant_def
       set_quick_ack_def beginInboundFrameRead_def room_def acct_defs Let_def)

definition read_as :: "codec_kind \<Rightarrow> codec_ret prog \<Rightarrow> frame_run \<Rightarrow> int \<Rightarrow> codec_ret \<Rightarrow> wire \<Rightarrow> bool" where
  "read_as kind prg fr n ret rest \<longleftrightarrow> (\<exists>fr'. preflight_run kind prg fr = (ret, fr')
     \<and> pending (fr_net fr') = rest \<and> stop (fr_net fr') = stop (fr_net fr)
     \<and> fr_calls fr' = 1 \<and> fr_reserved fr' \<and> fr_reserveErr fr' = None
     \<and> fr_acct fr' = grant n (fr_acct fr))"

lemma payload_read_as:
  assumes "fr_done fr'" "fr' = (granted n fr)\<lparr>fr_net := net, fr_first := f, fr_done := d\<rparr>"
    and "0 < n" "n \<le> maxTransportMessageSize"
    and "pending net = b @ rest" "length b = nat n" "stop net = stop (fr_net fr)"
    and "preflight_run kind prg fr = preflight_run kind (read_payload n k) fr'" "k b = Done ret"
  shows "read_as kind prg fr n ret rest"
  using assms by (simp add: read_as_def payload_read)

lemma validateOutgoing_None:
  "validateOutgoingCompatMessage b = None \<longleftrightarrow>
    0 < length b \<and> int (length b) \<le> maxTransportMessageSize \<and> length b mod 4 = 0"
  by (simp add: validateOutgoingCompatMessage_def validateCompatTransportLength_def)

lemma abridged_read_as:
  assumes room: "room (int (length msg)) (fr_acct fr)" and fresh: "\<not> fr_first fr" "\<not> fr_done fr" "fr_calls fr = 0"
    and wr: "abridged_Write msg = Inr e" and pend: "pending (fr_net fr) = e @ rest"
  shows "read_as CodecQuickAckAbridged readQuickAckAbridged fr (int (length msg))
    (checkCompatProtocolError msg, msg, Some False) rest"
proof -
  define w where "w = length msg div 4"
  have len: "length msg = 4 * w" "0 < w" "4 * int w \<le> maxTransportMessageSize"
    using wr by (auto simp: abridged_Write_def validateOutgoing_None w_def div_greater_zero_iff
        intro!: dvd_imp_le split: option.splits)
  have room': "room (int w * 4) (fr_acct fr)" using room by (simp add: len mult.commute)
  show ?thesis
  proof (cases "w < 127")
    case True
    then have p: "pending (fr_net fr) = word_of_nat w # msg @ rest"
      using wr pend by (simp add: abridged_Write_def Let_def w_def split: option.splits)
    let ?fr = "fr\<lparr>fr_net := skip 1 (fr_net fr)\<rparr>"
    let ?fr' = "(granted (int w * 4) ?fr)\<lparr>fr_done := True, fr_first := True\<rparr>"
    have "readAbridgedPrefix 1 True fr = (Inr [word_of_nat w], ?fr')"
      using fresh p len room' reserve_granted [of "int w * 4" ?fr]
      by (simp add: readAbridgedPrefix_def raw_full_eq Let_def short_byte [OF True])
    then have "preflight_Read CodecQuickAckAbridged 1 fr = (Inr [word_of_nat w], ?fr')"
      using fresh by (simp add: preflight_Read_def)
    then have "preflight_run CodecQuickAckAbridged readQuickAckAbridged fr =
        preflight_run CodecQuickAckAbridged (read_payload (int w * 4) (codec_finish False)) ?fr'"
      unfolding readQuickAckAbridged_def
      by (subst preflight_prefix) (auto simp: short_byte [OF True])
    then show ?thesis
      using p len
      by (intro payload_read_as [where fr' = ?fr' and net = "skip 1 (fr_net fr)" and b = msg
            and k = "codec_finish False" and f = True and d = True])
        (auto simp: codec_finish_def granted_def mult.commute)
  next
    case False
    let ?tail = "[word_of_nat w, word_of_nat (w div 256), word_of_nat (w div 65536)] :: wire"
    have p: "pending (fr_net fr) = 0x7f # ?tail @ msg @ rest"
      using False wr pend by (simp add: abridged_Write_def Let_def w_def split: option.splits)
    have w: "le24 ?tail = word_of_nat w" "uint (word_of_nat w :: 32 word) = int w"
      using len by (simp_all add: le24_bytes maxTransportMessageSize_def uint_nat unat_of_nat)
    let ?fr1 = "fr\<lparr>fr_net := skip 1 (fr_net fr), fr_first := True\<rparr>"
    let ?fr2 = "?fr1\<lparr>fr_net := skip 4 (fr_net fr)\<rparr>"
    let ?fr' = "(granted (int w * 4) ?fr2)\<lparr>fr_done := True\<rparr>"
    have pre1: "preflight_Read CodecQuickAckAbridged 1 fr = (Inr [0x7f], ?fr1)"
      using fresh p by (simp add: preflight_Read_def readAbridgedPrefix_def raw_full_eq Let_def)
    have pre2: "preflight_Read CodecQuickAckAbridged 3 ?fr1 = (Inr ?tail, ?fr')"
      using fresh p len room' w reserve_granted [of "int w * 4" ?fr2]
      by (simp add: preflight_Read_def readAbridgedPrefix_def raw_full_eq)
    have run1: "preflight_run CodecQuickAckAbridged (io_ReadFull 1 k) fr
        = preflight_run CodecQuickAckAbridged (k (Inr [0x7f])) ?fr1" for k :: "_ \<Rightarrow> codec_ret prog"
      by (rule preflight_prefix [OF _ pre1]) auto
    have run2: "preflight_run CodecQuickAckAbridged (io_ReadFull 3 k) ?fr1
        = preflight_run CodecQuickAckAbridged (k (Inr ?tail)) ?fr'" for k :: "_ \<Rightarrow> codec_ret prog"
      by (rule preflight_prefix [OF _ pre2]) auto
    have "preflight_run CodecQuickAckAbridged readQuickAckAbridged fr =
        preflight_run CodecQuickAckAbridged (read_payload (int w * 4) (codec_finish False)) ?fr'"
      unfolding readQuickAckAbridged_def run1
      by (simp add: run2 w uint_shift_le24 [of ?tail, unfolded w] mult.commute del: One_nat_def)
    then show ?thesis
      using p len
      by (intro payload_read_as [where fr' = ?fr' and net = "skip 4 (fr_net fr)" and b = msg
            and k = "codec_finish False" and f = True and d = True])
        (auto simp: codec_finish_def granted_def mult.commute)
  qed
qed

lemma intermediate_read_as:
  assumes room: "room (int (length b)) (fr_acct fr)" and fresh: "\<not> fr_done fr" "fr_calls fr = 0"
    and len: "0 < length b" "int (length b) \<le> maxTransportMessageSize"
    and pend: "pending (fr_net fr) = put_le32 (word_of_nat (length b)) @ b @ rest"
    and kind: "kind = CodecIntermediate \<or> kind = CodecPaddedIntermediate"
    and m: "m = (if padding then take (length b - length b mod 4) b else b)"
  shows "read_as kind (readQuickAckIntermediate padding) fr (int (length b))
    (checkCompatProtocolError m, m, Some False) rest"
proof -
  let ?h = "put_le32 (word_of_nat (length b))" and ?n = "int (length b)"
  have h: "length ?h = 4" "le32 ?h = word_of_nat (length b)"
    by (simp_all add: le32_put) (simp add: put_le32_def)
  have n: "length b < 2147483648" using len by (simp add: maxTransportMessageSize_def)
  let ?fr = "fr\<lparr>fr_net := skip 4 (fr_net fr)\<rparr>"
  let ?fr' = "(granted ?n ?fr)\<lparr>fr_done := True\<rparr>"
  have pre: "preflight_Read kind 4 fr = (Inr ?h, ?fr')"
    using fresh pend len room kind reserve_granted [of ?n ?fr] h len_word [OF n]
    by (auto simp: preflight_Read_def readWordPrefix_def raw_full_eq Let_def)
  have "preflight_run kind (io_ReadFull 4 k) fr = preflight_run kind (k (Inr ?h)) ?fr'"
    for k :: "_ \<Rightarrow> codec_ret prog"
    by (rule preflight_prefix [OF _ pre]) (auto simp: h)
  moreover have "nat (?n - ?n mod 4) = length b - length b mod 4"
    by (simp add: nat_diff_distrib' nat_mod_distrib flip: of_nat_diff zmod_int)
  ultimately have "preflight_run kind (readQuickAckIntermediate padding) fr =
      preflight_run kind (read_payload ?n (\<lambda>b'. codec_finish False
        (if padding then take (length b - length b mod 4) b' else b'))) ?fr'"
    unfolding readQuickAckIntermediate_def by (simp only: sum.case Let_def h len_word [OF n]) simp
  then show ?thesis
    using pend len m h
    by (intro payload_read_as [where fr' = ?fr' and net = "skip 4 (fr_net fr)" and b = b
          and k = "\<lambda>b'. codec_finish False (if padding then take (length b - length b mod 4) b' else b')"
          and f = "fr_first fr" and d = True])
      (auto simp: codec_finish_def granted_def)
qed

text \<open>A message and the padding bytes drawn for it that every codec carries.\<close>

definition sendable :: "wire \<times> wire \<Rightarrow> bool" where
  "sendable pm \<longleftrightarrow> 8 \<le> length (snd pm) \<and> length (snd pm) mod 4 = 0
     \<and> int (length (snd pm)) + 3 \<le> maxTransportMessageSize \<and> length (fst pm) = 4"

abbreviation own_codecs :: "codec_value set" where
  "own_codecs \<equiv> {QuickAckAbridged, QuickAckIntermediate, QuickAckPaddedIntermediate}"

lemma room_less: "room n bc \<Longrightarrow> m \<le> n \<Longrightarrow> room m bc"
  by (simp add: room_def)

lemma codec_Write_sendable:
  assumes "v \<in> own_codecs" "sendable (padding, msg)"
  shows "\<exists>e. codec_Write v padding msg = Inr e"
proof -
  have "validateOutgoingCompatMessage msg = None"
    using assms(2) by (auto simp: validateOutgoing_None sendable_def)
  with assms(1) show ?thesis
    by (auto simp: abridged_Write_def intermediate_Write_def padded_Write_def Let_def)
qed

lemma own_read_as:
  assumes v: "v \<in> own_codecs" and msg: "sendable (padding, msg)"
    and wr: "codec_Write v padding msg = Inr e" and pend: "pending net = e @ rest"
    and room: "room (int (length msg) + 3) bc"
  shows "\<exists>n\<ge>int (length msg). n \<le> int (length msg) + 3 \<and>
    read_as (classifyInboundFrameCodec v) (codec_Read v) (start_run net bc) n (None, msg, Some False) rest"
proof -
  let ?fr = "start_run net bc" and ?L = "length msg"
  have fr: "fr_acct ?fr = bc" "fr_net ?fr = net" "\<not> fr_first ?fr" "\<not> fr_done ?fr" "fr_calls ?fr = 0"
    by (simp_all add: start_run_def)
  have msg_ok: "checkCompatProtocolError msg = None" "0 < ?L" "4 dvd ?L"
    "int ?L + 3 \<le> maxTransportMessageSize" "length padding = 4"
    using msg by (auto simp: checkCompatProtocolError_def sendable_def)
  have room': "room (int k) bc" if "k \<le> ?L + 3" for k
    using room by (rule room_less) (use that in simp)
  consider "v = QuickAckAbridged" | "v = QuickAckIntermediate" | "v = QuickAckPaddedIntermediate"
    using v by blast
  then show ?thesis
  proof cases
    case 1
    with abridged_read_as [of msg ?fr e rest] fr wr pend room' [of ?L] msg_ok show ?thesis
      by (intro exI [of _ "int ?L"]) simp
  next
    case 2
    then have "e = put_le32 (word_of_nat ?L) @ msg"
      using wr by (auto simp: intermediate_Write_def split: option.splits)
    with 2 intermediate_read_as [of msg ?fr rest CodecIntermediate msg False] fr pend room' [of ?L] msg_ok
    show ?thesis by (intro exI [of _ "int ?L"]) simp
  next
    case 3
    define n where "n = unat (padding ! 0) mod 4"
    let ?b = "msg @ take n padding"
    have n: "n < 4" by (simp add: n_def)
    then have b: "length ?b = ?L + n" using msg_ok by simp
    moreover have "length ?b - length ?b mod 4 = ?L"
      using msg_ok n b by (auto elim!: dvdE)
    moreover have "e = put_le32 (word_of_nat (length ?b)) @ ?b"
      using wr 3 b by (auto simp: padded_Write_def Let_def n_def split: option.splits)
    ultimately show ?thesis
      using 3 intermediate_read_as [of ?b ?fr rest CodecPaddedIntermediate msg True]
        fr pend room' [of "?L + n"] msg_ok n
      by (intro exI [of _ "int (?L + n)"]) simp
  qed
qed

primrec recv_frames :: "conn_codec \<Rightarrow> nat \<Rightarrow> net_stream \<Rightarrow> frame_state \<Rightarrow>
    wire list \<times> net_stream \<times> frame_state" where
  "recv_frames cc 0 net bc = ([], net, bc)"
| "recv_frames cc (Suc n) net bc = (case RecvDeadline cc None net bc of
     Ret (Inr b, fr) \<Rightarrow> apfst (Cons b) (recv_frames cc n (fr_net fr) (fr_acct fr))
   | _ \<Rightarrow> ([], net, bc))"

lemma recv_one:
  assumes v: "v \<in> own_codecs" "newCompatTransportConnWithCodec v = Inr cc"
    and msg: "sendable (padding, msg)" "codec_Write v padding msg = Inr e" "pending net = e @ rest"
    and room: "room (int (length msg) + 3) bc"
  shows "\<exists>fr. RecvDeadline cc None net bc = Ret (Inr msg, fr) \<and> pending (fr_net fr) = rest
    \<and> same_share bc (fr_acct fr) \<and> \<not> quickAckRequested (snd (fr_acct fr))"
proof -
  let ?bc = "apsnd beginInboundFrameRead bc"
  have "room (int (length msg) + 3) ?bc"
    using room by (cases bc) (simp add: room_def acct_defs beginInboundFrameRead_def)
  from own_read_as [OF v(1) msg this] obtain n where n: "int (length msg) \<le> n" "n \<le> int (length msg) + 3"
    "read_as (classifyInboundFrameCodec v) (codec_Read v) (start_run net ?bc) n (None, msg, Some False) rest"
    by blast
  have cc: "cc = \<lparr>cc_kind = classifyInboundFrameCodec v, cc_budgeted = None, cc_read = codec_Read v\<rparr>"
    "classifyInboundFrameCodec v \<noteq> CodecCustom" "classifyInboundFrameCodec v \<noteq> CodecUnknown"
    using v by (auto simp: newCompatTransportConnWithCodec_def)
  obtain fr where fr: "codec_run cc (start_run net ?bc) = ((None, msg, Some False), fr)"
    "pending (fr_net fr) = rest" "fr_calls fr = 1" "fr_reserved fr" "fr_reserveErr fr = None"
    "fr_acct fr = grant n ?bc"
    using n(3) cc by (auto simp: read_as_def codec_run_def start_run_def)
  have "0 < n" using n(1) msg(1) by (simp add: sendable_def)
  moreover have "room n bc" using room_less [OF room n(2)] .
  ultimately obtain fr' where fr': "RecvDeadline cc None net bc = Ret (Inr msg, fr')"
    "fr_net fr' = fr_net fr" "\<not> quickAckRequested (snd (fr_acct fr'))"
    using recv_delivers [OF fr(1,3-5) _ fr(6)] cc by auto
  moreover have "same_share bc (fr_acct fr')"
    using RecvDeadline_share [of bc cc None net] fr'(1) room by (auto simp: room_def)
  ultimately show ?thesis using fr(2) by auto
qed

text \<open>
  C23. Transport round trip. Whatever sequence of messages a codec of this repository writes, the
  receiver that detected the same codec gets exactly those messages in that order, however the
  network cuts the bytes into segments, whatever padding was drawn, and with nothing of the
  following bytes consumed: messages of whole words, longer than the one-word error frames and
  at least three bytes below the transport limit, when the budget has room for the largest.
\<close>

theorem frames_roundtrip:
  assumes "v \<in> own_codecs" "newCompatTransportConnWithCodec v = Inr cc" "acct_ok bc"
    and "\<forall>pm \<in> set ms. sendable pm \<and> room (int (length (snd pm)) + 3) bc"
    and "pending net = concat (map (\<lambda>(padding, m). projr (codec_Write v padding m)) ms) @ rest"
  shows "\<exists>net' bc'. recv_frames cc (length ms) net bc = (map snd ms, net', bc')
    \<and> pending net' = rest \<and> same_share bc bc'"
  using assms(3-)
proof (induction ms arbitrary: net bc)
  case Nil
  then show ?case by (simp add: same_share_def)
next
  case (Cons pm ms)
  obtain padding m where pm: "pm = (padding, m)" by (cases pm)
  have msg: "sendable (padding, m)" "room (int (length m) + 3) bc"
    using Cons.prems(2) by (auto simp: pm)
  obtain e where e: "codec_Write v padding m = Inr e"
    using codec_Write_sendable [OF assms(1) msg(1)] by blast
  let ?rest = "concat (map (\<lambda>(padding, m). projr (codec_Write v padding m)) ms) @ rest"
  obtain fr where fr: "RecvDeadline cc None net bc = Ret (Inr m, fr)" "pending (fr_net fr) = ?rest"
    "same_share bc (fr_acct fr)"
    using recv_one [OF assms(1,2) msg(1) e _ msg(2)] Cons.prems(3) by (auto simp: pm e)
  have "\<forall>pm \<in> set ms. sendable pm \<and> room (int (length (snd pm)) + 3) (fr_acct fr)"
    using Cons.prems(2) fr(3) by (auto simp: room_def same_share_def)
  then obtain net' bc' where "recv_frames cc (length ms) (fr_net fr) (fr_acct fr) = (map snd ms, net', bc')"
    "pending net' = rest" "same_share (fr_acct fr) bc'"
    using Cons.IH [of "fr_acct fr" "fr_net fr"] fr(2,3) by (auto simp: same_share_def)
  with fr show ?case by (auto simp: pm same_share_def)
qed

section \<open>Detection\<close>

text \<open>
  Detection consumes a client's start bytes and nothing else: the chosen codec sees the stream
  from the first frame, and a client that sent no start bytes is read by the full codec from its
  very first byte.
\<close>

lemma detectCompatCodec_exact:
  assumes "length (intermediate_start cs) = 4" "length (padded_start cs) = 4"
    and "4 \<le> length (pending net)"
  shows "\<exists>net'. detectCompatCodec cs full net = Inr
      (if hd (pending net) = abridged_start cs then QuickAckAbridged
       else if take 4 (pending net) = intermediate_start cs then QuickAckIntermediate
       else if take 4 (pending net) = padded_start cs then QuickAckPaddedIntermediate
       else FullCodec full, net')
    \<and> pending net' =
      (if hd (pending net) = abridged_start cs then drop 1 (pending net)
       else if take 4 (pending net) \<in> {intermediate_start cs, padded_start cs} then drop 4 (pending net)
       else pending net)"
proof -
  obtain a b c d rest where p: "pending net = a # b # c # d # rest"
    using assms(3) by (auto simp: numeral_eq_Suc Suc_le_length_iff)
  have "pending ((skip 4 net)\<lparr>segs := [a, b, c, d] # segs (skip 4 net)\<rparr>) = pending net"
    using p by (simp add: pending_def skip_def concat_skip_segs)
  with p show ?thesis
    by (auto simp: detectCompatCodec_def net_ReadFull_eq Let_def)
qed

section \<open>A worked example\<close>

text \<open>Two messages to the intermediate codec, the stream cut inside a prefix and a payload.\<close>

definition wire_demo_msg :: wire where
  "wire_demo_msg = [1, 2, 3, 4, 5, 6, 7, 8]"

definition wire_demo_net :: net_stream where
  "wire_demo_net = \<lparr>segs = [[8, 0], [0, 0, 1, 2, 3], [4, 5, 6, 7, 8, 8, 0, 0, 0, 1, 2, 3, 4, 5, 6, 7, 8]],
     stop = EOF\<rparr>"

definition wire_demo_codec :: conn_codec where
  "wire_demo_codec = \<lparr>cc_kind = CodecIntermediate, cc_budgeted = None,
     cc_read = readQuickAckIntermediate False\<rparr>"

definition wire_demo_acct :: frame_state where
  "wire_demo_acct = (newInboundFrameBudget 100, fresh_conn)"

lemmas wire_demo_defs = wire_demo_msg_def wire_demo_net_def wire_demo_codec_def wire_demo_acct_def

lemma wire_demo_codec_new: "newCompatTransportConnWithCodec QuickAckIntermediate = Inr wire_demo_codec"
  by (simp add: newCompatTransportConnWithCodec_def wire_demo_codec_def)

lemma wire_demo_acct_ok: "acct_ok wire_demo_acct"
  by (simp add: acct_ok_def wire_demo_acct_def newInboundFrameBudget_def fresh_conn_def)

theorem recv_accounting_witness:
  "\<exists>r fr. RecvDeadline wire_demo_codec None wire_demo_net wire_demo_acct = Ret (r, fr)
     \<and> same_share wire_demo_acct (fr_acct fr)"
  using recv_accounting [OF wire_demo_acct_ok, of wire_demo_codec None wire_demo_net] by blast

theorem frames_roundtrip_witness:
  "fst (recv_frames wire_demo_codec 2 wire_demo_net wire_demo_acct) = [wire_demo_msg, wire_demo_msg]"
proof -
  have "pending wire_demo_net = concat (map (\<lambda>(padding, m). projr (codec_Write QuickAckIntermediate padding m))
      [([0, 0, 0, 0], wire_demo_msg), ([0, 0, 0, 0], wire_demo_msg)]) @ []"
    by code_simp
  moreover have "sendable ([0, 0, 0, 0], wire_demo_msg)" "room (int (length wire_demo_msg) + 3) wire_demo_acct"
    using wire_demo_acct_ok
    by (simp_all add: sendable_def wire_demo_defs room_def others_def newInboundFrameBudget_def
        fresh_conn_def maxTransportMessageSize_def)
  ultimately show ?thesis
    using frames_roundtrip [OF _ wire_demo_codec_new wire_demo_acct_ok,
        of "[([0, 0, 0, 0], wire_demo_msg), ([0, 0, 0, 0], wire_demo_msg)]" wire_demo_net "[]"]
    by (auto simp: numeral_2_eq_2)
qed

lemma wire_demo_recv:
  "case RecvDeadline wire_demo_codec None wire_demo_net wire_demo_acct of
     Ret (Inr b, fr) \<Rightarrow> b = wire_demo_msg \<and> fr_allocs fr = [(8, 16)] | _ \<Rightarrow> False"
  by code_simp

theorem payload_within_reservation_witness:
  "\<exists>fr. RecvDeadline wire_demo_codec None wire_demo_net wire_demo_acct = Ret (Inr wire_demo_msg, fr)
     \<and> fr_allocs fr = [(8, 16)] \<and> 2 * int (fst (hd (fr_allocs fr))) \<le> snd (hd (fr_allocs fr))"
proof -
  obtain fr where fr: "RecvDeadline wire_demo_codec None wire_demo_net wire_demo_acct = Ret (Inr wire_demo_msg, fr)"
    "fr_allocs fr = [(8, 16)]"
    using wire_demo_recv RecvDeadline_share [OF wire_demo_acct_ok, of wire_demo_codec None wire_demo_net]
    by (auto split: sum.splits)
  with payload_within_reservation [OF _ wire_demo_codec_new fr(1)] show ?thesis by auto
qed

end
