(* ===== verification/Frame_Budget_Runs.thy ===== *)
theory Frame_Budget_Runs
  imports Transport_Framing_Theorems
begin

text \<open>
  The inbound-byte budget under concurrency: any number of connections and of short-lived
  reservations (the expansion buffer of a packed request, the descriptors of a container) share
  one counter. A step is one critical section: the releases of \<open>retainInboundFrameBytes\<close> and
  \<open>releaseInboundFrame\<close> happen after \<open>frameMu\<close> is unlocked, so between the two halves the bytes are
  owed by the goroutine that runs them.
\<close>

section \<open>Short-lived reservations\<close>

text \<open>
  \<open>decodeGZIPWithGlobalBudgetLimit\<close> reserves its limit, keeps what the data needs and gives the
  rest back; \<open>maxSingleGZIPExpandedBytes\<close> is 10 MB. A lease is the number of bytes still charged_bytes.
\<close>

definition maxSingleGZIPExpandedBytes :: int where
  "maxSingleGZIPExpandedBytes = 10485760"

definition gzip_reserve :: "frame_budget \<Rightarrow> int \<Rightarrow> frame_error + (int \<times> frame_budget)" where
  "gzip_reserve b limit =
    (if limit \<le> 0 \<or> limit > maxSingleGZIPExpandedBytes then Inl (ErrInvalidLength limit)
     else budget_reserve b limit 0)"

definition gzip_settle :: "frame_budget \<Rightarrow> int \<Rightarrow> int \<Rightarrow> (int \<times> frame_budget) outcome" where
  "gzip_settle b reserved len =
    (if reserved > len
     then bind_outcome (budget_release b (reserved - len)) (\<lambda>b. Ret (len, b))
     else Ret (reserved, b))"

definition lease_release :: "frame_budget \<Rightarrow> int \<Rightarrow> (int \<times> frame_budget) outcome" where
  "lease_release b reserved =
    (if reserved > 0 then bind_outcome (budget_release b reserved) (\<lambda>b. Ret (0, b))
     else Ret (reserved, b))"

section \<open>The shared state and its steps\<close>

record frame_world =
  fw_budget :: frame_budget
  fw_conns :: "frame_conn list"
  fw_leases :: "int list"
  fw_owed :: "int list"

definition charged_bytes :: "frame_world \<Rightarrow> int" where
  "charged_bytes w = sum_list (map heldFrameBytes (fw_conns w)) + sum_list (fw_leases w)
     + sum_list (fw_owed w)"

definition world_ok :: "frame_world \<Rightarrow> bool" where
  "world_ok w \<longleftrightarrow> fb_used (fw_budget w) = charged_bytes w \<and> charged_bytes w \<le> fb_max (fw_budget w)
     \<and> list_all (\<lambda>c. 0 \<le> heldFrameBytes c) (fw_conns w)
     \<and> list_all (\<lambda>n. 0 \<le> n) (fw_leases w) \<and> list_all (\<lambda>n. 0 \<le> n) (fw_owed w)"

definition init_world :: "int \<Rightarrow> frame_world" where
  "init_world mx = \<lparr>fw_budget = newInboundFrameBudget mx, fw_conns = [], fw_leases = [], fw_owed = []\<rparr>"

inductive frame_step :: "frame_world \<Rightarrow> frame_world \<Rightarrow> bool" where
  accept: "frame_step w (w\<lparr>fw_conns := fw_conns w @ [fresh_conn]\<rparr>)"
| begin_read: "i < length (fw_conns w) \<Longrightarrow>
    frame_step w (w\<lparr>fw_conns := (fw_conns w)[i := beginInboundFrameRead (fw_conns w ! i)]\<rparr>)"
| reserve: "i < length (fw_conns w) \<Longrightarrow>
    reserveInboundFrame wb pb (fw_budget w, fw_conns w ! i) = (r, b, c) \<Longrightarrow>
    frame_step w (w\<lparr>fw_budget := b, fw_conns := (fw_conns w)[i := c]\<rparr>)"
| quick_ack: "i < length (fw_conns w) \<Longrightarrow>
    frame_step w (w\<lparr>fw_conns := (fw_conns w)[i := set_quick_ack q (fw_conns w ! i)]\<rparr>)"
| deliver: "i < length (fw_conns w) \<Longrightarrow> markInboundFrameDelivered (fw_conns w ! i) = (r, c) \<Longrightarrow>
    frame_step w (w\<lparr>fw_conns := (fw_conns w)[i := c]\<rparr>)"
| close: "i < length (fw_conns w) \<Longrightarrow>
    frame_step w (w\<lparr>fw_conns := (fw_conns w)[i := compat_Close (fw_conns w ! i)]\<rparr>)"
| retain_grow: "i < length (fw_conns w) \<Longrightarrow> heldFrameBytes (fw_conns w ! i) < n \<Longrightarrow>
    retainInboundFrameBytes n (fw_budget w, fw_conns w ! i) = Ret (r, b, c) \<Longrightarrow>
    frame_step w (w\<lparr>fw_budget := b, fw_conns := (fw_conns w)[i := c]\<rparr>)"
| retain_shrink: "i < length (fw_conns w) \<Longrightarrow> 0 \<le> n \<Longrightarrow> n \<le> heldFrameBytes (fw_conns w ! i) \<Longrightarrow>
    frame_step w (w\<lparr>fw_conns := (fw_conns w)[i := (fw_conns w ! i)\<lparr>heldFrameBytes := n\<rparr>],
      fw_owed := (heldFrameBytes (fw_conns w ! i) - n) # fw_owed w\<rparr>)"
| release_frame: "i < length (fw_conns w) \<Longrightarrow>
    frame_step w (w\<lparr>fw_conns := (fw_conns w)[i := (fw_conns w ! i)\<lparr>heldFrameBytes := 0,
        frameDelivered := False\<rparr>],
      fw_owed := heldFrameBytes (fw_conns w ! i) # fw_owed w\<rparr>)"
| pay: "fw_owed w = xs @ n # ys \<Longrightarrow> budget_release (fw_budget w) n = Ret b \<Longrightarrow>
    frame_step w (w\<lparr>fw_budget := b, fw_owed := xs @ ys\<rparr>)"
| gzip: "gzip_reserve (fw_budget w) limit = Inr (n, b) \<Longrightarrow>
    frame_step w (w\<lparr>fw_budget := b, fw_leases := fw_leases w @ [n]\<rparr>)"
| container: "budget_reserve (fw_budget w) wb 0 = Inr (n, b) \<Longrightarrow>
    frame_step w (w\<lparr>fw_budget := b, fw_leases := fw_leases w @ [n]\<rparr>)"
| settle: "i < length (fw_leases w) \<Longrightarrow> 0 \<le> len \<Longrightarrow>
    gzip_settle (fw_budget w) (fw_leases w ! i) len = Ret (n, b) \<Longrightarrow>
    frame_step w (w\<lparr>fw_budget := b, fw_leases := (fw_leases w)[i := n]\<rparr>)"
| lease_end: "i < length (fw_leases w) \<Longrightarrow>
    lease_release (fw_budget w) (fw_leases w ! i) = Ret (n, b) \<Longrightarrow>
    frame_step w (w\<lparr>fw_budget := b, fw_leases := (fw_leases w)[i := n]\<rparr>)"

section \<open>The counter is the sum of what is held\<close>

lemma sum_list_replace:
  fixes f :: "'a \<Rightarrow> int"
  assumes "i < length xs"
  shows "sum_list (map f (xs[i := v])) = sum_list (map f xs) - f (xs ! i) + f v"
  using assms by (induction xs arbitrary: i) (auto split: nat.splits)

lemma list_all_replace: "list_all P xs \<Longrightarrow> P v \<Longrightarrow> list_all P (xs[i := v])"
  by (induction xs arbitrary: i) (auto split: nat.split)

lemma sum_list_split: "xs = as @ n # bs \<Longrightarrow> sum_list xs = n + sum_list (as @ bs)" for n :: int
  by simp

lemma sum_nonneg: "list_all (\<lambda>n. 0 \<le> n) xs \<Longrightarrow> 0 \<le> sum_list xs" for xs :: "int list"
  by (induction xs) auto

lemma member_le_sum: "list_all (\<lambda>n. 0 \<le> n) xs \<Longrightarrow> n \<in> set xs \<Longrightarrow> n \<le> sum_list xs"
  for xs :: "int list"
  using sum_nonneg by (induction xs) fastforce+

lemma world_conn:
  assumes "world_ok w" "i < length (fw_conns w)"
  shows "acct_ok (fw_budget w, fw_conns w ! i)"
proof -
  have "heldFrameBytes (fw_conns w ! i) \<le> sum_list (map heldFrameBytes (fw_conns w))"
    using assms by (intro member_le_sum) (auto simp: world_ok_def list_all_iff)
  moreover have "0 \<le> sum_list (fw_leases w)" "0 \<le> sum_list (fw_owed w)"
    using assms by (auto simp: world_ok_def intro: sum_nonneg)
  ultimately show ?thesis
    using assms by (auto simp: world_ok_def charged_bytes_def acct_ok_def list_all_iff)
qed

text \<open>Replacing a connection by one with the same share of a grown or equal budget.\<close>

lemma world_replace:
  assumes "world_ok w" "i < length (fw_conns w)" "same_share (fw_budget w, fw_conns w ! i) (b, c)"
  shows "world_ok (w\<lparr>fw_budget := b, fw_conns := (fw_conns w)[i := c]\<rparr>)"
  using assms
  by (auto simp: world_ok_def charged_bytes_def sum_list_replace acct_defs intro: list_all_replace)

lemma world_same:
  assumes "world_ok w" "i < length (fw_conns w)" "heldFrameBytes c = heldFrameBytes (fw_conns w ! i)"
  shows "world_ok (w\<lparr>fw_conns := (fw_conns w)[i := c]\<rparr>)"
  using assms
  by (auto simp: world_ok_def charged_bytes_def sum_list_replace intro!: list_all_replace)
    (simp add: list_all_length)

lemma world_owe:
  assumes "world_ok w" "i < length (fw_conns w)" "0 \<le> heldFrameBytes c"
    "heldFrameBytes c \<le> heldFrameBytes (fw_conns w ! i)"
  shows "world_ok (w\<lparr>fw_conns := (fw_conns w)[i := c],
      fw_owed := (heldFrameBytes (fw_conns w ! i) - heldFrameBytes c) # fw_owed w\<rparr>)"
  using assms
  by (auto simp: world_ok_def charged_bytes_def sum_list_replace intro!: list_all_replace)

lemma world_lease:
  assumes "world_ok w" "growReservation (fw_budget w) 0 wb pb = Inr (n, b)"
  shows "world_ok (w\<lparr>fw_budget := b, fw_leases := fw_leases w @ [n]\<rparr>)"
  using assms growReservation_Inr [OF assms(2)] by (auto simp: world_ok_def charged_bytes_def)

lemma world_lease_replace:
  assumes "world_ok w" "i < length (fw_leases w)" "0 \<le> n" "n \<le> fw_leases w ! i"
  shows "world_ok (w\<lparr>fw_budget := (fw_budget w)\<lparr>fb_used := fb_used (fw_budget w) - (fw_leases w ! i - n)\<rparr>,
    fw_leases := (fw_leases w)[i := n]\<rparr>)"
  using assms sum_list_replace [of i "fw_leases w" "\<lambda>x. x" n]
  by (auto simp: world_ok_def charged_bytes_def intro!: list_all_replace)

lemma world_pay:
  assumes "world_ok w" "fw_owed w = xs @ n # ys"
  shows "budget_release (fw_budget w) n = Ret ((fw_budget w)\<lparr>fb_used := fb_used (fw_budget w) - n\<rparr>)"
    "world_ok (w\<lparr>fw_budget := (fw_budget w)\<lparr>fb_used := fb_used (fw_budget w) - n\<rparr>, fw_owed := xs @ ys\<rparr>)"
proof -
  have "n \<le> sum_list (fw_owed w)" using assms by (intro member_le_sum) (auto simp: world_ok_def)
  moreover have "0 \<le> sum_list (map heldFrameBytes (fw_conns w))" "0 \<le> sum_list (fw_leases w)"
    using assms(1) by (auto simp: world_ok_def list_all_iff intro!: sum_nonneg)
  ultimately show "budget_release (fw_budget w) n =
      Ret ((fw_budget w)\<lparr>fb_used := fb_used (fw_budget w) - n\<rparr>)"
    using assms(1) by (intro budget_release_Ret) (simp add: world_ok_def charged_bytes_def)
  show "world_ok (w\<lparr>fw_budget := (fw_budget w)\<lparr>fb_used := fb_used (fw_budget w) - n\<rparr>,
      fw_owed := xs @ ys\<rparr>)"
    using assms by (auto simp: world_ok_def charged_bytes_def)
qed

lemma lease_le_used:
  assumes "world_ok w" "i < length (fw_leases w)"
  shows "0 \<le> fw_leases w ! i \<and> fw_leases w ! i \<le> fb_used (fw_budget w)"
proof -
  have "fw_leases w ! i \<le> sum_list (fw_leases w)"
    using assms by (intro member_le_sum) (auto simp: world_ok_def)
  moreover have "0 \<le> sum_list (map heldFrameBytes (fw_conns w))" "0 \<le> sum_list (fw_owed w)"
    using assms(1) by (auto simp: world_ok_def list_all_iff intro!: sum_nonneg)
  ultimately show ?thesis
    using assms by (auto simp: world_ok_def charged_bytes_def list_all_length)
qed

lemma world_settle:
  assumes "world_ok w" "i < length (fw_leases w)" "0 \<le> len"
  obtains n b where "gzip_settle (fw_budget w) (fw_leases w ! i) len = Ret (n, b)"
    "n = min (fw_leases w ! i) len" "world_ok (w\<lparr>fw_budget := b, fw_leases := (fw_leases w)[i := n]\<rparr>)"
proof -
  note le = lease_le_used [OF assms(1,2)]
  show ?thesis
    using that [of "min (fw_leases w ! i) len"
        "(fw_budget w)\<lparr>fb_used := fb_used (fw_budget w) - (fw_leases w ! i - min (fw_leases w ! i) len)\<rparr>"]
      world_lease_replace [OF assms(1,2), of "min (fw_leases w ! i) len"] le assms(3)
    by (cases "fw_leases w ! i > len") (simp_all add: gzip_settle_def budget_release_Ret min_def)
qed

lemma world_lease_end:
  assumes "world_ok w" "i < length (fw_leases w)"
  obtains b where "lease_release (fw_budget w) (fw_leases w ! i) = Ret (0, b)"
    "world_ok (w\<lparr>fw_budget := b, fw_leases := (fw_leases w)[i := 0]\<rparr>)"
proof -
  note le = lease_le_used [OF assms]
  show ?thesis
    using that [of "(fw_budget w)\<lparr>fb_used := fb_used (fw_budget w) - fw_leases w ! i\<rparr>"]
      world_lease_replace [OF assms, of 0] le
    by (cases "fw_leases w ! i > 0") (simp_all add: lease_release_def budget_release_Ret)
qed

lemma frame_step_ok:
  assumes "world_ok w" "frame_step w w'"
  shows "world_ok w'"
  using assms(2)
proof cases
  case (reserve i wb pb r b c)
  then show ?thesis
    using world_replace [OF assms(1)] reserveInboundFrame_share [of _ "(fw_budget w, fw_conns w ! i)" wb pb]
      world_conn [OF assms(1)] by (fastforce simp: same_share_def)
next
  case (retain_grow i n r b c)
  then show ?thesis
    using world_replace [OF assms(1)] retainInboundFrameBytes_Ret [OF world_conn [OF assms(1)], of i n]
    by fastforce
next
  case (retain_shrink i n)
  then show ?thesis using world_owe [OF assms(1), of i "(fw_conns w ! i)\<lparr>heldFrameBytes := n\<rparr>"] by simp
next
  case (release_frame i)
  then show ?thesis
    using world_owe [OF assms(1), of i "(fw_conns w ! i)\<lparr>heldFrameBytes := 0, frameDelivered := False\<rparr>"]
      world_conn [OF assms(1), of i] by (simp add: acct_ok_def)
next
  case (deliver i r c)
  then show ?thesis
    by (auto simp: markInboundFrameDelivered_def intro!: world_same [OF assms(1)] split: if_splits)
next
  case (gzip limit n b)
  then show ?thesis
    by (auto simp: gzip_reserve_def budget_reserve_def intro: world_lease [OF assms(1)] split: if_splits)
next
  case (container wb n b)
  then show ?thesis by (auto simp: budget_reserve_def intro: world_lease [OF assms(1)])
next
  case (pay xs n ys b)
  then show ?thesis using world_pay [OF assms(1), of xs n ys] by simp
next
  case (settle i len n b)
  then show ?thesis by (auto elim: world_settle [OF assms(1)])
next
  case (lease_end i n b)
  then show ?thesis by (auto elim: world_lease_end [OF assms(1)])
next
  case accept
  then show ?thesis using assms(1) by (simp add: world_ok_def charged_bytes_def fresh_conn_def)
qed (auto simp: beginInboundFrameRead_def set_quick_ack_def compat_Close_def assms(1)
      intro!: world_same [OF assms(1)] split: option.splits)

lemma frame_step_max:
  assumes "world_ok w" "frame_step w w'"
  shows "fb_max (fw_budget w') = fb_max (fw_budget w)"
  using assms(2)
proof cases
  case (reserve i wb pb r b c)
  then show ?thesis
    using reserveInboundFrame_share [of _ "(fw_budget w, fw_conns w ! i)" wb pb]
      world_conn [OF assms(1)] by (fastforce simp: same_share_def)
next
  case (retain_grow i n r b c)
  then show ?thesis
    using retainInboundFrameBytes_Ret [OF world_conn [OF assms(1)], of i n]
    by (fastforce simp: same_share_def)
qed (auto simp: gzip_reserve_def budget_reserve_def gzip_settle_def lease_release_def
      budget_release_def dest: growReservation_Inr split: if_splits)

interpretation frames: monotone_system frame_step world_ok
    "\<lambda>w w'. fb_max (fw_budget w') = fb_max (fw_budget w)"
  by unfold_locales (simp_all add: frame_step_ok frame_step_max)

lemma init_world_ok: "world_ok (init_world mx)"
  by (simp add: world_ok_def init_world_def charged_bytes_def newInboundFrameBudget_def
      defaultInboundFrameGlobalMaxBytes_def)

text \<open>The calls of a connection that split their work are runs of these steps.\<close>

lemma frame_two_steps:
  assumes "frame_step w w1" "frame_step w1 w2" shows "frame_step\<^sup>*\<^sup>* w w2"
  using assms by (meson r_into_rtranclp rtranclp.rtrancl_into_rtrancl)

lemma pay_last:
  assumes "budget_release (fw_budget w) n = Ret b"
  shows "frame_step (w\<lparr>fw_conns := cs, fw_owed := n # fw_owed w\<rparr>) (w\<lparr>fw_budget := b, fw_conns := cs\<rparr>)"
  using frame_step.pay [of "w\<lparr>fw_conns := cs, fw_owed := n # fw_owed w\<rparr>" "[]" n "fw_owed w" b] assms
  by (cases w) simp

lemma release_frame_run:
  assumes "i < length (fw_conns w)" "releaseInboundFrame (fw_budget w, fw_conns w ! i) = Ret (b, c)"
  shows "frame_step\<^sup>*\<^sup>* w (w\<lparr>fw_budget := b, fw_conns := (fw_conns w)[i := c]\<rparr>)"
proof -
  let ?c = "fw_conns w ! i"
  have rel: "budget_release (fw_budget w) (heldFrameBytes ?c) = Ret b" "c = ?c\<lparr>heldFrameBytes := 0, frameDelivered := False\<rparr>"
    using assms(2) by (auto simp: releaseInboundFrame_def)
  show ?thesis
    unfolding rel(2) by (rule frame_two_steps [OF frame_step.release_frame [OF assms(1)] pay_last [OF rel(1)]])
qed

lemma retain_run:
  assumes i: "i < length (fw_conns w)" and ret: "retainInboundFrameBytes n (fw_budget w, fw_conns w ! i) = Ret (r, b, c)"
  shows "frame_step\<^sup>*\<^sup>* w (w\<lparr>fw_budget := b, fw_conns := (fw_conns w)[i := c]\<rparr>)"
proof -
  let ?c = "fw_conns w ! i"
  consider "n < 0" | "0 \<le> n" "n \<le> heldFrameBytes ?c" | "heldFrameBytes ?c < n" by linarith
  then show ?thesis
  proof cases
    case 1
    then have "b = fw_budget w" "c = ?c" using ret by (auto simp: retainInboundFrameBytes_def)
    then show ?thesis by simp
  next
    case 2
    then have rel: "budget_release (fw_budget w) (heldFrameBytes ?c - n) = Ret b" "c = ?c\<lparr>heldFrameBytes := n\<rparr>"
      using ret by (auto simp: retainInboundFrameBytes_def Let_def)
    show ?thesis
      unfolding rel(2) by (rule frame_two_steps [OF frame_step.retain_shrink [OF i 2] pay_last [OF rel(1)]])
  next
    case 3
    then show ?thesis using frame_step.retain_grow [OF i 3 ret] by blast
  qed
qed

text \<open>
  C19. The inbound-byte budget is exact and safe under every interleaving. However many
  connections read, close, retain and release frames and requests expand, the counter is the sum
  of what the connections hold, what expansions hold and what is about to be returned; it never
  exceeds the configured limit; and no release ever takes it below zero, so the ownership panic
  is unreachable. The two calls of a connection that return bytes after unlocking are runs of the
  interleaved steps, so that all this also holds of them and in between.
\<close>

theorem frame_budget_exact:
  assumes "frame_step\<^sup>*\<^sup>* (init_world mx) w"
  shows "fb_used (fw_budget w) = charged_bytes w \<and> 0 \<le> charged_bytes w
    \<and> charged_bytes w \<le> fb_max (newInboundFrameBudget mx)
    \<and> (\<forall>n\<in>set (fw_owed w). \<exists>b. budget_release (fw_budget w) n = Ret b)
    \<and> (\<forall>c\<in>set (fw_conns w). \<exists>bc. releaseInboundFrame (fw_budget w, c) = Ret bc)
    \<and> (\<forall>n\<in>set (fw_leases w). \<exists>r. lease_release (fw_budget w) n = Ret r)
    \<and> (\<forall>i<length (fw_conns w). \<forall>n r b c. releaseInboundFrame (fw_budget w, fw_conns w ! i) = Ret (b, c)
           \<or> retainInboundFrameBytes n (fw_budget w, fw_conns w ! i) = Ret (r, b, c) \<longrightarrow>
         frame_step\<^sup>*\<^sup>* w (w\<lparr>fw_budget := b, fw_conns := (fw_conns w)[i := c]\<rparr>))"
proof -
  have ok: "world_ok w" and mx: "fb_max (fw_budget w) = fb_max (fw_budget (init_world mx))"
    using frames.run [OF assms init_world_ok] by simp_all
  have "\<exists>b. budget_release (fw_budget w) n = Ret b" if "n \<in> set (fw_owed w)" for n
    using world_pay(1) [OF ok] split_list [OF that] by blast
  moreover have "\<exists>bc. releaseInboundFrame (fw_budget w, c) = Ret bc" if "c \<in> set (fw_conns w)" for c
    using that releaseInboundFrame_Ret [OF world_conn [OF ok]] by (metis in_set_conv_nth)
  moreover have "\<exists>r. lease_release (fw_budget w) n = Ret r" if "n \<in> set (fw_leases w)" for n
    using that world_lease_end [OF ok] by (metis in_set_conv_nth)
  moreover have "0 \<le> charged_bytes w"
    using ok by (auto simp: world_ok_def charged_bytes_def list_all_iff intro!: add_nonneg_nonneg sum_nonneg)
  moreover have "\<forall>i<length (fw_conns w). \<forall>n r b c. releaseInboundFrame (fw_budget w, fw_conns w ! i) = Ret (b, c)
           \<or> retainInboundFrameBytes n (fw_budget w, fw_conns w ! i) = Ret (r, b, c) \<longrightarrow>
         frame_step\<^sup>*\<^sup>* w (w\<lparr>fw_budget := b, fw_conns := (fw_conns w)[i := c]\<rparr>)"
    using release_frame_run retain_run by blast
  moreover have "fb_used (fw_budget w) = charged_bytes w \<and> charged_bytes w \<le> fb_max (newInboundFrameBudget mx)"
    using ok mx by (simp add: world_ok_def init_world_def)
  ultimately show ?thesis by blast
qed

text \<open>A connection that announced a frame of eight bytes under a limit of a hundred.\<close>

definition example_world :: frame_world where
  "example_world = \<lparr>fw_budget = \<lparr>fb_max = 100, fb_used = 16\<rparr>,
     fw_conns = [fresh_conn\<lparr>heldFrameBytes := 16\<rparr>], fw_leases = [], fw_owed = []\<rparr>"

lemma example_world_reached: "frame_step\<^sup>*\<^sup>* (init_world 100) example_world"
proof -
  let ?w = "(init_world 100)\<lparr>fw_conns := [fresh_conn]\<rparr>"
  have "frame_step (init_world 100) ?w"
    using frame_step.accept [of "init_world 100"] by (simp add: init_world_def)
  moreover have "frame_step ?w example_world"
    using frame_step.reserve [of 0 ?w 8 8 None "\<lparr>fb_max = 100, fb_used = 16\<rparr>" "fresh_conn\<lparr>heldFrameBytes := 16\<rparr>"]
    by (simp add: init_world_def example_world_def reserveInboundFrame_def growReservation_def
        newInboundFrameBudget_def fresh_conn_def)
  ultimately show ?thesis by (meson rtranclp.rtrancl_into_rtrancl rtranclp.rtrancl_refl)
qed

theorem frame_budget_exact_witness:
  "fb_used (fw_budget example_world) = charged_bytes example_world \<and> charged_bytes example_world = 16
   \<and> charged_bytes example_world \<le> 100"
  using frame_budget_exact [OF example_world_reached]
  by (simp add: newInboundFrameBudget_def example_world_def charged_bytes_def)

end
