(* ===== verification/Bulk_Flow.thy ===== *)
theory Bulk_Flow
  imports Gram_Prelude
begin

text \<open>
  The two queues a file download passes before it may run (src/internal/mtprotoedge): the
  acknowledgement window of its logical session (\<open>outboundState\<close>'s bulk credits in outbound.go) and
  the process-wide bulk scheduler (bulk_rpc_scheduler.go). Both are the same object: a pool with a
  maximum, leases that are granted at once or wait in order, a notification a lease gets at most
  once, and a close that fails the waiters. The pool is modelled once and used twice.
\<close>

section \<open>Leases\<close>

text \<open>
  A lease is addressed by its position in the pool's heap. The callback given to \<open>subscribe\<close> is a
  value of type \<open>'cb\<close>; an operation returns the callbacks it is going to call after it unlocked,
  each with the lease it belongs to and the answer it gets.
\<close>

record 'cb lease =
  le_granted :: bool
  le_released :: bool
  le_notified :: bool
  le_notify :: "'cb option"

record 'cb lease_pool =
  pl_max :: int
  pl_inUse :: int
  pl_waiters :: "nat list"
  pl_closed :: bool
  pl_heap :: "'cb lease list"

type_synonym 'cb call = "nat \<times> 'cb \<times> bool"

definition new_lease :: "'cb lease" where
  "new_lease = \<lparr>le_granted = False, le_released = False, le_notified = False, le_notify = None\<rparr>"

definition newBulkRPCScheduler :: "int \<Rightarrow> 'cb lease_pool" where
  "newBulkRPCScheduler mx = \<lparr>pl_max = (if mx \<le> 0 then 1 else mx), pl_inUse = 0, pl_waiters = [],
     pl_closed = False, pl_heap = []\<rparr>"

definition pool_reserve :: "'cb lease_pool \<Rightarrow> nat \<times> 'cb lease_pool" where
  "pool_reserve s =
    (let i = length (pl_heap s) in
     (i, if pl_closed s then s\<lparr>pl_heap := pl_heap s @ [new_lease\<lparr>le_released := True\<rparr>]\<rparr>
         else if pl_inUse s < pl_max s
           then s\<lparr>pl_inUse := pl_inUse s + 1, pl_heap := pl_heap s @ [new_lease\<lparr>le_granted := True\<rparr>]\<rparr>
         else s\<lparr>pl_waiters := pl_waiters s @ [i], pl_heap := pl_heap s @ [new_lease]\<rparr>))"

definition pool_subscribe :: "nat \<Rightarrow> 'cb \<Rightarrow> 'cb lease_pool \<Rightarrow> 'cb call list \<times> 'cb lease_pool" where
  "pool_subscribe i notify s =
    (let l = (pl_heap s ! i)\<lparr>le_notify := Some notify\<rparr>;
         should = (le_granted l \<or> le_released l) \<and> \<not> le_notified l in
     (if should then [(i, notify, le_granted l)] else [],
      s\<lparr>pl_heap := (pl_heap s)[i := if should then l\<lparr>le_notified := True\<rparr> else l]\<rparr>))"

text \<open>One waiter of the loop in \<open>release\<close>: granted, and told so if it has subscribed.\<close>

definition grant_waiter :: "nat \<Rightarrow> 'cb lease_pool \<Rightarrow> 'cb call list \<times> 'cb lease_pool" where
  "grant_waiter i s =
    (let l = (pl_heap s ! i)\<lparr>le_granted := True\<rparr>; s = s\<lparr>pl_inUse := pl_inUse s + 1\<rparr> in
     case le_notify l of
       Some cb \<Rightarrow> if \<not> le_notified l
                  then ([(i, cb, True)], s\<lparr>pl_heap := (pl_heap s)[i := l\<lparr>le_notified := True\<rparr>]\<rparr>)
                  else ([], s\<lparr>pl_heap := (pl_heap s)[i := l]\<rparr>)
     | None \<Rightarrow> ([], s\<lparr>pl_heap := (pl_heap s)[i := l]\<rparr>))"

fun grant_waiters :: "nat list \<Rightarrow> 'cb lease_pool \<Rightarrow> 'cb call list \<times> 'cb lease_pool" where
  "grant_waiters [] s = ([], s\<lparr>pl_waiters := []\<rparr>)"
| "grant_waiters (i # ws) s =
    (if pl_closed s \<or> \<not> pl_inUse s < pl_max s then ([], s\<lparr>pl_waiters := i # ws\<rparr>)
     else if le_released (pl_heap s ! i) then grant_waiters ws s
     else let (calls, s) = grant_waiter i s in apfst ((@) calls) (grant_waiters ws s))"

definition pool_release :: "nat \<Rightarrow> 'cb lease_pool \<Rightarrow> 'cb call list \<times> 'cb lease_pool" where
  "pool_release i s =
    (let l = pl_heap s ! i in
     if le_released l then ([], s)
     else let s = s\<lparr>pl_heap := (pl_heap s)[i := l\<lparr>le_released := True, le_granted := False\<rparr>],
                    pl_inUse := (if le_granted l then pl_inUse s - 1 else pl_inUse s)\<rparr> in
       grant_waiters (pl_waiters s) s)"

fun fail_waiters :: "nat list \<Rightarrow> 'cb lease_pool \<Rightarrow> 'cb call list \<times> 'cb lease_pool" where
  "fail_waiters [] s = ([], s\<lparr>pl_waiters := []\<rparr>)"
| "fail_waiters (i # ws) s =
    (let l = pl_heap s ! i in
     if le_released l then fail_waiters ws s
     else case le_notify l of
         Some cb \<Rightarrow> if \<not> le_notified l
           then apfst (Cons (i, cb, False)) (fail_waiters ws
             (s\<lparr>pl_heap := (pl_heap s)[i := l\<lparr>le_released := True, le_notified := True\<rparr>]\<rparr>))
           else fail_waiters ws (s\<lparr>pl_heap := (pl_heap s)[i := l\<lparr>le_released := True\<rparr>]\<rparr>)
       | None \<Rightarrow> fail_waiters ws (s\<lparr>pl_heap := (pl_heap s)[i := l\<lparr>le_released := True\<rparr>]\<rparr>))"

definition pool_close :: "'cb lease_pool \<Rightarrow> 'cb call list \<times> 'cb lease_pool" where
  "pool_close s = fail_waiters (pl_waiters s) (s\<lparr>pl_closed := True\<rparr>)"

section \<open>The credit window\<close>

text \<open>
  The session's window is a pool of \<open>defaultBulkACKWindow\<close> credits; a zero maximum is set to it on
  the first reservation.
\<close>

definition defaultBulkACKWindow :: int where
  "defaultBulkACKWindow = 32"

definition new_window :: "'cb lease_pool" where
  "new_window = \<lparr>pl_max = defaultBulkACKWindow, pl_inUse = 0, pl_waiters = [], pl_closed = False,
     pl_heap = []\<rparr>"

definition reserveBulkCredit :: "'cb lease_pool \<Rightarrow> nat \<times> 'cb lease_pool" where
  "reserveBulkCredit s =
    pool_reserve (if pl_max s \<le> 0 then s\<lparr>pl_max := defaultBulkACKWindow\<rparr> else s)"

definition credit_subscribe :: "nat \<Rightarrow> 'cb \<Rightarrow> 'cb lease_pool \<Rightarrow> 'cb call list \<times> 'cb lease_pool" where
  "credit_subscribe = pool_subscribe"

definition credit_release :: "nat \<Rightarrow> 'cb lease_pool \<Rightarrow> 'cb call list \<times> 'cb lease_pool" where
  "credit_release = pool_release"

definition closeBulkWindow :: "'cb lease_pool \<Rightarrow> 'cb call list \<times> 'cb lease_pool" where
  "closeBulkWindow = pool_close"

section \<open>The gate of a task\<close>

record rpc_gate =
  g_remaining :: int
  g_failed :: bool
  g_ready :: bool

definition newInboundRPCGate :: "int \<Rightarrow> rpc_gate" where
  "newInboundRPCGate prerequisites =
    \<lparr>g_remaining = (if prerequisites < 0 then 0 else prerequisites) + 1, g_failed = False,
     g_ready = False\<rparr>"

text \<open>The boolean says that the connection is woken.\<close>

definition gate_resolve :: "bool \<Rightarrow> rpc_gate \<Rightarrow> (rpc_gate \<times> bool) outcome" where
  "gate_resolve success g =
    (let g = (if \<not> success then g\<lparr>g_failed := True\<rparr> else g);
         remaining = g_remaining g - 1;
         g = g\<lparr>g_remaining := remaining\<rparr> in
     if remaining < 0 then Panic ''mtproto inbound RPC gate counter underflow''
     else if remaining = 0 \<and> \<not> g_ready g then Ret (g\<lparr>g_ready := True\<rparr>, True)
     else Ret (g, False))"

definition gate_runnable :: "rpc_gate \<Rightarrow> bool" where
  "gate_runnable g = g_ready g"

definition gate_success :: "rpc_gate \<Rightarrow> bool" where
  "gate_success g \<longleftrightarrow> g_ready g \<and> \<not> g_failed g"

end
