(* ===== verification/Bulk_Flow_Theorems.thy ===== *)
theory Bulk_Flow_Theorems
  imports Bulk_Flow "HOL-Library.Sublist"
begin

text \<open>
  The lease pool implements a first-come-first-served semaphore: the specification, the invariant
  under which the pool refines it, and what a run of the pool tells its subscribers.
\<close>

section \<open>The specification\<close>

record semaphore =
  sem_max :: int
  sem_holders :: "nat set"
  sem_queue :: "nat list"
  sem_closed :: bool
  sem_next :: nat

definition sem_reserve :: "semaphore \<Rightarrow> semaphore" where
  "sem_reserve m = (let m' = m\<lparr>sem_next := sem_next m + 1\<rparr> in
     if sem_closed m then m'
     else if int (card (sem_holders m)) < sem_max m
       then m'\<lparr>sem_holders := insert (sem_next m) (sem_holders m)\<rparr>
     else m'\<lparr>sem_queue := sem_queue m @ [sem_next m]\<rparr>)"

definition sem_release :: "nat \<Rightarrow> semaphore \<Rightarrow> semaphore" where
  "sem_release i m =
    (if i \<in> sem_holders m then
       (case sem_queue m of
          [] \<Rightarrow> m\<lparr>sem_holders := sem_holders m - {i}\<rparr>
        | q # qs \<Rightarrow> m\<lparr>sem_holders := insert q (sem_holders m - {i}), sem_queue := qs\<rparr>)
     else m\<lparr>sem_queue := remove1 i (sem_queue m)\<rparr>)"

definition sem_close :: "semaphore \<Rightarrow> semaphore" where
  "sem_close m = m\<lparr>sem_closed := True, sem_queue := []\<rparr>"

section \<open>The invariant\<close>

abbreviation lease_at :: "'cb lease_pool \<Rightarrow> nat \<Rightarrow> 'cb lease" where
  "lease_at s i \<equiv> pl_heap s ! i"

definition waiting :: "'cb lease \<Rightarrow> bool" where
  "waiting l \<longleftrightarrow> \<not> le_granted l \<and> \<not> le_released l"

definition holders_of :: "'cb lease list \<Rightarrow> nat set" where
  "holders_of h = {i. i < length h \<and> le_granted (h ! i)}"

definition queue_of :: "'cb lease list \<Rightarrow> nat list \<Rightarrow> nat list" where
  "queue_of h ws = filter (\<lambda>i. \<not> le_released (h ! i)) ws"

abbreviation holders :: "'cb lease_pool \<Rightarrow> nat set" where
  "holders s \<equiv> holders_of (pl_heap s)"

abbreviation queue :: "'cb lease_pool \<Rightarrow> nat list" where
  "queue s \<equiv> queue_of (pl_heap s) (pl_waiters s)"

definition abs_pool :: "'cb lease_pool \<Rightarrow> semaphore" where
  "abs_pool s = \<lparr>sem_max = pl_max s, sem_holders = holders s, sem_queue = queue s,
     sem_closed = pl_closed s, sem_next = length (pl_heap s)\<rparr>"

definition pool_inv :: "'cb lease_pool \<Rightarrow> bool" where
  "pool_inv s \<longleftrightarrow> 0 < pl_max s \<and> pl_inUse s = int (card (holders s)) \<and> pl_inUse s \<le> pl_max s
     \<and> (\<forall>i\<in>holders s. \<not> le_released (lease_at s i))
     \<and> sorted_wrt (<) (pl_waiters s)
     \<and> set (queue s) = {i. i < length (pl_heap s) \<and> waiting (lease_at s i)}
     \<and> (\<forall>i\<in>set (pl_waiters s). i < length (pl_heap s))
     \<and> (queue s \<noteq> [] \<longrightarrow> int (card (holders s)) = pl_max s)
     \<and> (pl_closed s \<longrightarrow> pl_waiters s = [])
     \<and> (\<forall>i\<in>set (queue s). \<forall>j\<in>holders s. j < i)
     \<and> (\<forall>i\<in>holders s. le_notify (lease_at s i) \<noteq> None \<longrightarrow> le_notified (lease_at s i))
     \<and> (\<forall>i<length (pl_heap s). waiting (lease_at s i) \<longrightarrow> \<not> le_notified (lease_at s i))"

text \<open>What a change of the heap does to the holders and the queue.\<close>

lemma finite_holders [simp]: "finite (holders_of h)"
  by (rule finite_subset [of _ "{..<length h}"]) (auto simp: holders_of_def)

lemma holders_lt: "i \<in> holders_of h \<Longrightarrow> i < length h"
  by (simp add: holders_of_def)

lemma holders_append [simp]:
  "holders_of (h @ [l]) = (if le_granted l then insert (length h) (holders_of h) else holders_of h)"
  by (auto simp: holders_of_def nth_append less_Suc_eq)

lemma holders_update [simp]:
  "i < length h \<Longrightarrow> holders_of (h[i := l]) =
    (if le_granted l then insert i (holders_of h) else holders_of h - {i})"
  by (auto simp: holders_of_def nth_list_update)

lemma queue_append [simp]:
  "\<forall>i\<in>set ws. i < length h \<Longrightarrow> queue_of (h @ [l]) ws = queue_of h ws"
  by (auto simp: queue_of_def nth_append intro: filter_cong)

lemma queue_snoc: "queue_of h (ws @ [i]) = queue_of h ws @ (if le_released (h ! i) then [] else [i])"
  by (simp add: queue_of_def)

lemma queue_update_same:
  "i < length h \<Longrightarrow> le_released l = le_released (h ! i) \<Longrightarrow> queue_of (h[i := l]) ws = queue_of h ws"
  by (auto simp: queue_of_def nth_list_update intro!: filter_cong)

lemma queue_update_released:
  "i < length h \<Longrightarrow> le_released l \<Longrightarrow> distinct ws \<Longrightarrow> queue_of (h[i := l]) ws = remove1 i (queue_of h ws)"
  by (auto simp: queue_of_def distinct_remove1_removeAll removeAll_filter_not_eq
      intro!: filter_cong simp: nth_list_update)

lemma set_queue: "set (queue_of h ws) = {i \<in> set ws. \<not> le_released (h ! i)}"
  by (auto simp: queue_of_def)

section \<open>Reserving and subscribing\<close>

lemma pool_invD:
  assumes "pool_inv s"
  shows "distinct (pl_waiters s)" "i \<in> set (pl_waiters s) \<Longrightarrow> i < length (pl_heap s)"
    "i \<in> set (queue s) \<longleftrightarrow> i < length (pl_heap s) \<and> waiting (lease_at s i)"
  using assms by (auto simp: pool_inv_def sorted_wrt_less_distinct)

lemma pool_inv_facts:
  assumes "pool_inv s"
  shows "0 < pl_max s" "pl_inUse s = int (card (holders s))" "int (card (holders s)) \<le> pl_max s"
    "i \<in> holders s \<Longrightarrow> \<not> le_released (lease_at s i)" "sorted_wrt (<) (pl_waiters s)"
    "set (queue s) = {i. i < length (pl_heap s) \<and> waiting (lease_at s i)}"
    "queue s \<noteq> [] \<Longrightarrow> int (card (holders s)) = pl_max s" "pl_closed s \<Longrightarrow> pl_waiters s = []"
    "i \<in> set (queue s) \<Longrightarrow> j \<in> holders s \<Longrightarrow> j < i"
    "i \<in> holders s \<Longrightarrow> le_notify (lease_at s i) \<noteq> None \<Longrightarrow> le_notified (lease_at s i)"
    "i < length (pl_heap s) \<Longrightarrow> waiting (lease_at s i) \<Longrightarrow> \<not> le_notified (lease_at s i)"
  using assms by (simp_all add: pool_inv_def)

lemma pool_invI:
  assumes "0 < pl_max s" "pl_inUse s = int (card (holders s))" "int (card (holders s)) \<le> pl_max s"
    "\<And>i. i \<in> holders s \<Longrightarrow> \<not> le_released (lease_at s i)" "sorted_wrt (<) (pl_waiters s)"
    "set (queue s) = {i. i < length (pl_heap s) \<and> waiting (lease_at s i)}"
    "\<And>i. i \<in> set (pl_waiters s) \<Longrightarrow> i < length (pl_heap s)"
    "queue s \<noteq> [] \<Longrightarrow> int (card (holders s)) = pl_max s" "pl_closed s \<Longrightarrow> pl_waiters s = []"
    "\<And>i j. i \<in> set (queue s) \<Longrightarrow> j \<in> holders s \<Longrightarrow> j < i"
    "\<And>i. i \<in> holders s \<Longrightarrow> le_notify (lease_at s i) \<noteq> None \<Longrightarrow> le_notified (lease_at s i)"
    "\<And>i. i < length (pl_heap s) \<Longrightarrow> waiting (lease_at s i) \<Longrightarrow> \<not> le_notified (lease_at s i)"
  shows "pool_inv s"
  using assms by (simp add: pool_inv_def)

lemma pool_reserve_refines:
  assumes "pool_inv s"
  shows "pool_inv (snd (pool_reserve s)) \<and> abs_pool (snd (pool_reserve s)) = sem_reserve (abs_pool s)
    \<and> fst (pool_reserve s) = length (pl_heap s)"
proof -
  have inUse: "pl_inUse s = int (card (holders s))" and fresh: "length (pl_heap s) \<notin> holders s"
    and ws: "\<forall>i\<in>set (pl_waiters s). i < length (pl_heap s)"
    using assms by (auto simp: pool_inv_def dest: holders_lt)
  consider "pl_closed s" | "\<not> pl_closed s" "pl_inUse s < pl_max s" | "\<not> pl_closed s" "\<not> pl_inUse s < pl_max s"
    by blast
  then show ?thesis
  proof cases
    case 1
    with assms ws show ?thesis
      by (auto simp: pool_reserve_def sem_reserve_def abs_pool_def pool_inv_def new_lease_def Let_def
          waiting_def nth_append less_Suc_eq dest: holders_lt)
  next
    case 2
    with assms ws have q: "queue s = []" by (auto simp: pool_inv_def)
    with 2 assms ws fresh inUse show ?thesis
      by (auto simp: pool_reserve_def sem_reserve_def abs_pool_def pool_inv_def new_lease_def Let_def
          waiting_def nth_append less_Suc_eq dest: holders_lt)
  next
    case 3
    with assms ws fresh inUse show ?thesis
      by (auto simp: pool_reserve_def sem_reserve_def abs_pool_def pool_inv_def new_lease_def Let_def
          waiting_def nth_append less_Suc_eq queue_snoc sorted_wrt_append dest: holders_lt)
  qed
qed

lemma pool_subscribe_refines:
  assumes "pool_inv s" "i < length (pl_heap s)"
  shows "pool_inv (snd (pool_subscribe i cb s)) \<and> abs_pool (snd (pool_subscribe i cb s)) = abs_pool s"
proof -
  define l where "l = (let l = (lease_at s i)\<lparr>le_notify := Some cb\<rparr> in
    if (le_granted l \<or> le_released l) \<and> \<not> le_notified l then l\<lparr>le_notified := True\<rparr> else l)"
  have eq: "snd (pool_subscribe i cb s) = s\<lparr>pl_heap := (pl_heap s)[i := l]\<rparr>"
    by (simp add: pool_subscribe_def l_def Let_def)
  have l: "le_released l = le_released (lease_at s i)" "le_granted l = le_granted (lease_at s i)"
    "le_granted l \<Longrightarrow> le_notified l" "waiting l \<Longrightarrow> le_notified l = le_notified (lease_at s i)"
    by (auto simp: l_def Let_def waiting_def)
  have h: "holders_of ((pl_heap s)[i := l]) = holders s"
    using assms(2) l by (auto simp: holders_of_def nth_list_update)
  have w: "waiting ((pl_heap s)[i := l] ! j) = waiting (lease_at s j)" for j
    using assms(2) l by (cases "j = i") (auto simp: waiting_def)
  have rel: "le_released ((pl_heap s)[i := l] ! j) = le_released (lease_at s j)" for j
    using assms(2) l by (cases "j = i") auto
  have q: "queue_of ((pl_heap s)[i := l]) (pl_waiters s) = queue s"
    using assms(2) l by (simp add: queue_update_same)
  have "\<forall>j\<in>holders s. le_notify ((pl_heap s)[i := l] ! j) \<noteq> None \<longrightarrow> le_notified ((pl_heap s)[i := l] ! j)"
    using assms l by (auto simp: pool_inv_def holders_of_def nth_list_update)
  moreover have nn: "\<not> le_notified (lease_at s j)" if "j < length (pl_heap s)" "waiting (lease_at s j)" for j
    using assms(1) that by (simp add: pool_inv_def)
  have "\<not> le_notified ((pl_heap s)[i := l] ! j)" if "j < length (pl_heap s)" "waiting (lease_at s j)" for j
    using that nn [OF that] l(4) w [of i] assms(2) by (cases "j = i") simp_all
  ultimately show ?thesis
    using assms h w q rel by (simp add: eq pool_inv_def abs_pool_def)
qed

section \<open>Releasing\<close>

lemma grant_waiters_full:
  "pl_closed s \<or> \<not> pl_inUse s < pl_max s \<Longrightarrow> grant_waiters ws s = ([], s\<lparr>pl_waiters := ws\<rparr>)"
  by (cases ws) auto

lemma grant_waiters_none:
  "queue_of (pl_heap s) ws = [] \<Longrightarrow> \<not> pl_closed s \<Longrightarrow> pl_inUse s < pl_max s \<Longrightarrow>
    grant_waiters ws s = ([], s\<lparr>pl_waiters := []\<rparr>)"
  by (induction ws) (auto simp: queue_of_def split: if_splits)

definition awarded :: "nat \<Rightarrow> 'cb lease_pool \<Rightarrow> 'cb lease_pool" where
  "awarded i s = s\<lparr>pl_inUse := pl_inUse s + 1, pl_heap := (pl_heap s)[i := (lease_at s i)
     \<lparr>le_granted := True, le_notified := (le_notify (lease_at s i) \<noteq> None)\<rparr>]\<rparr>"

definition award_call :: "nat \<Rightarrow> 'cb lease_pool \<Rightarrow> 'cb call list" where
  "award_call i s = (case le_notify (lease_at s i) of None \<Rightarrow> [] | Some cb \<Rightarrow> [(i, cb, True)])"

lemma grant_waiter_eq:
  "\<not> le_notified (lease_at s i) \<Longrightarrow> grant_waiter i s = (award_call i s, awarded i s)"
  by (cases "lease_at s i") (auto simp: grant_waiter_def award_call_def awarded_def Let_def split: option.split)

lemma grant_waiters_one:
  assumes "\<not> pl_closed s" "pl_inUse s = pl_max s - 1" "queue_of (pl_heap s) ws = q # qs"
    and "\<not> le_notified (lease_at s q)" "distinct ws"
  shows "\<exists>ws'. grant_waiters ws s = (award_call q s, (awarded q s)\<lparr>pl_waiters := ws'\<rparr>)
    \<and> queue_of (pl_heap s) ws' = qs \<and> suffix ws' ws \<and> q \<in> set ws \<and> q \<notin> set ws'"
  using assms
proof (induction ws)
  case (Cons i ws)
  show ?case
  proof (cases "le_released (lease_at s i)")
    case True
    with Cons show ?thesis by (auto simp: queue_of_def suffix_Cons)
  next
    case False
    with Cons.prems have "i = q" "queue_of (pl_heap s) ws = qs" by (auto simp: queue_of_def)
    moreover have "grant_waiters ws (awarded q s) = ([], (awarded q s)\<lparr>pl_waiters := ws\<rparr>)"
      using Cons.prems by (intro grant_waiters_full) (simp add: awarded_def)
    ultimately show ?thesis
      using Cons.prems False by (intro exI [of _ ws]) (auto simp: grant_waiter_eq suffix_def)
  qed
qed (simp add: queue_of_def)

lemma sem_release_not_holder:
  "i \<notin> sem_holders m \<Longrightarrow> i \<notin> set (sem_queue m) \<Longrightarrow> sem_release i m = m"
  by (simp add: sem_release_def remove1_idem)

text \<open>The state after the lease gave up its place, before the loop.\<close>

definition given_up :: "nat \<Rightarrow> 'cb lease_pool \<Rightarrow> 'cb lease_pool" where
  "given_up i s = s\<lparr>pl_heap := (pl_heap s)[i := (lease_at s i)\<lparr>le_released := True, le_granted := False\<rparr>],
     pl_inUse := (if le_granted (lease_at s i) then pl_inUse s - 1 else pl_inUse s)\<rparr>"

lemma pool_release_eq:
  "pool_release i s = (if le_released (lease_at s i) then ([], s)
     else grant_waiters (pl_waiters s) (given_up i s))"
  by (simp add: pool_release_def given_up_def Let_def)

lemma given_up_facts:
  assumes "pool_inv s" "i < length (pl_heap s)" "\<not> le_released (lease_at s i)"
  shows "holders (given_up i s) = holders s - {i}"
    "queue (given_up i s) = remove1 i (queue s)"
    "pl_inUse (given_up i s) = int (card (holders s - {i}))"
    "waiting (lease_at (given_up i s) j) \<longleftrightarrow> j \<noteq> i \<and> waiting (lease_at s j)"
    "j \<noteq> i \<Longrightarrow> lease_at (given_up i s) j = lease_at s j"
    "pl_waiters (given_up i s) = pl_waiters s" "pl_closed (given_up i s) = pl_closed s"
    "pl_max (given_up i s) = pl_max s" "length (pl_heap (given_up i s)) = length (pl_heap s)"
proof -
  have d: "distinct (pl_waiters s)" using assms(1) by (rule pool_invD)
  show "holders (given_up i s) = holders s - {i}" using assms(2) by (simp add: given_up_def)
  show "queue (given_up i s) = remove1 i (queue s)"
    using assms(2) d by (simp add: given_up_def queue_update_released)
  have "le_granted (lease_at s i) \<longleftrightarrow> i \<in> holders s" using assms(2) by (simp add: holders_of_def)
  moreover have "0 < card (holders s)" if "i \<in> holders s" using that by (auto simp: card_gt_0_iff)
  ultimately show "pl_inUse (given_up i s) = int (card (holders s - {i}))"
    using assms(1) by (auto simp: given_up_def pool_inv_def card_Diff_singleton of_nat_diff)
  show "waiting (lease_at (given_up i s) j) \<longleftrightarrow> j \<noteq> i \<and> waiting (lease_at s j)"
    using assms(2) by (cases "j = i") (simp_all add: given_up_def waiting_def)
qed (simp_all add: given_up_def)

lemma given_up_inv:
  assumes "pool_inv s" "i < length (pl_heap s)" "\<not> le_released (lease_at s i)"
    and "queue s = [] \<or> i \<notin> holders s"
  shows "pool_inv (given_up i s)"
proof -
  note f = given_up_facts [OF assms(1-3)] and p = pool_inv_facts [OF assms(1)]
  have d: "distinct (queue s)" using pool_invD(1) [OF assms(1)] by (simp add: queue_of_def)
  have c: "card (holders s - {i}) \<le> card (holders s)" by (rule card_mono) auto
  have h: "lease_at (given_up i s) j = lease_at s j" if "j \<in> holders s - {i}" for j
    using that f(5) by auto
  have q: "holders s - {i} = holders s \<and> queue s \<noteq> []" if "remove1 i (queue s) \<noteq> []"
    using assms(4) that by auto
  show ?thesis
  proof (rule pool_invI, unfold f(1-3), unfold f(6-9))
    show "set (remove1 i (queue s)) = {j. j < length (pl_heap s) \<and> waiting (lease_at (given_up i s) j)}"
      using d f(4) p(6) by auto
    show "remove1 i (queue s) \<noteq> [] \<Longrightarrow> int (card (holders s - {i})) = pl_max s"
      using q p(7) by auto
    show "\<And>k j. k \<in> set (remove1 i (queue s)) \<Longrightarrow> j \<in> holders s - {i} \<Longrightarrow> j < k"
      using p(9) d by auto
    show "\<And>j. j < length (pl_heap s) \<Longrightarrow> waiting (lease_at (given_up i s) j) \<Longrightarrow>
        \<not> le_notified (lease_at (given_up i s) j)"
      using f(4,5) p(11) by simp
  qed (use p c h pool_invD(2) [OF assms(1)] in auto)
qed

lemma award_refines:
  assumes inv: "pool_inv s" "i \<in> holders s" "\<not> le_released (lease_at s i)" "queue s = q # qs"
    and ws: "suffix ws' (pl_waiters s)" "queue_of (pl_heap (given_up i s)) ws' = qs"
  defines "s' \<equiv> (awarded q (given_up i s))\<lparr>pl_waiters := ws'\<rparr>"
  shows "pool_inv s'" "holders s' = insert q (holders s - {i})" "queue s' = qs"
proof -
  have i: "i < length (pl_heap s)" using inv(2) by (rule holders_lt)
  note f = given_up_facts [OF inv(1) i inv(3)] and p = pool_inv_facts [OF inv(1)]
  have q: "q < length (pl_heap s)" "waiting (lease_at s q)" using p(6) inv(4) by auto
  have qi: "q \<noteq> i" using q(2) inv(2) by (auto simp: waiting_def holders_of_def)
  have q_free: "q \<notin> holders s" using q(2) by (auto simp: waiting_def holders_of_def)
  have sq: "sorted_wrt (<) (queue s)" using p(5) by (simp add: queue_of_def sorted_wrt_filter)
  have gq: "lease_at (given_up i s) q = lease_at s q" using f(5) qi by simp
  have heap: "pl_heap s' = (pl_heap (given_up i s))[q := (lease_at s q)
      \<lparr>le_granted := True, le_notified := (le_notify (lease_at s q) \<noteq> None)\<rparr>]"
    by (simp add: s'_def awarded_def gq)
  have wt: "waiting (lease_at s' j) \<longleftrightarrow> j \<noteq> q \<and> j \<noteq> i \<and> waiting (lease_at s j)" for j
    using f(4) [of j] q(1) f(9) by (cases "j = q") (simp_all add: heap waiting_def)
  have at: "lease_at s' j = lease_at s j" if "j \<noteq> q" "j \<noteq> i" for j
    using that f(5) by (simp add: heap)
  have at_q: "\<not> le_released (lease_at s' q)" "le_notify (lease_at s' q) \<noteq> None \<Longrightarrow> le_notified (lease_at s' q)"
    using q f(9) by (simp_all add: heap waiting_def)
  have i_w: "\<not> waiting (lease_at s i)" using inv(2) by (simp add: holders_of_def waiting_def)
  show h: "holders s' = insert q (holders s - {i})"
    using q(1) f(1,9) by (simp add: heap)
  show qu: "queue s' = qs"
    using ws(2) q f(9) gq
    by (simp add: s'_def awarded_def queue_update_same waiting_def)
  have c: "card (insert q (holders s - {i})) = card (holders s)"
    using q_free inv(2) by (simp add: card_Diff_singleton card_gt_0_iff Suc_diff_Suc)
      (metis Suc_pred card_gt_0_iff empty_iff finite_holders)
  have sub: "set ws' \<subseteq> set (pl_waiters s)" "sorted_wrt (<) ws'"
    using ws(1) p(5) by (auto simp: suffix_def sorted_wrt_append)
  show "pool_inv s'"
  proof (rule pool_invI, unfold h qu c)
    show "set qs = {j. j < length (pl_heap s') \<and> waiting (lease_at s' j)}"
      using p(6) inv(4) sq wt f(9) i_w by (auto simp: heap)
    show "\<And>k j. k \<in> set qs \<Longrightarrow> j \<in> insert q (holders s - {i}) \<Longrightarrow> j < k"
      using p(9) inv(4) sq by auto
    show "\<And>j. j \<in> insert q (holders s - {i}) \<Longrightarrow> \<not> le_released (lease_at s' j)"
      using at_q(1) at p(4) by (metis Diff_iff insert_iff singletonI)
    show "\<And>j. j \<in> insert q (holders s - {i}) \<Longrightarrow> le_notify (lease_at s' j) \<noteq> None \<Longrightarrow>
        le_notified (lease_at s' j)"
      using at_q(2) at p(10) by (metis Diff_iff insert_iff singletonI)
    show "\<And>j. j < length (pl_heap s') \<Longrightarrow> waiting (lease_at s' j) \<Longrightarrow> \<not> le_notified (lease_at s' j)"
      using wt at p(11) f(9) by (simp add: heap)
    show "pl_inUse s' = int (card (holders s))"
      using f(3) q_free c by (simp add: s'_def awarded_def)
    show "int (card (holders s)) = pl_max s'" using p(7) inv(4) f(8) by (simp add: s'_def awarded_def)
    show "pl_closed s' \<Longrightarrow> pl_waiters s' = []"
      using p(8) inv(4) f(7) by (auto simp: s'_def awarded_def queue_of_def)
  qed (use p sub f pool_invD(2) [OF inv(1)] in \<open>auto simp: s'_def awarded_def\<close>)
qed

text \<open>
  What a release of a live lease does: a waiting lease leaves the queue; a holder's slot goes to
  the head of the queue, or becomes free when nobody waits.
\<close>

lemma pool_release_forms:
  assumes "pool_inv s" "i < length (pl_heap s)" "\<not> le_released (lease_at s i)"
  obtains (waits) "i \<notin> holders s" "i \<in> set (queue s)" "pool_release i s = ([], given_up i s)"
  | (freed) "i \<in> holders s" "queue s = []" "pool_release i s = ([], (given_up i s)\<lparr>pl_waiters := []\<rparr>)"
  | (hand_on) q qs ws where "i \<in> holders s" "queue s = q # qs" "suffix ws (pl_waiters s)"
      "queue_of (pl_heap (given_up i s)) ws = qs"
      "pool_release i s = (award_call q (given_up i s), (awarded q (given_up i s))\<lparr>pl_waiters := ws\<rparr>)"
proof -
  note f = given_up_facts [OF assms] and p = pool_inv_facts [OF assms(1)]
  have eq: "pool_release i s = grant_waiters (pl_waiters s) (given_up i s)"
    using assms(3) by (simp add: pool_release_eq)
  consider "i \<notin> holders s" | "i \<in> holders s" "queue s = []"
    | q qs where "i \<in> holders s" "queue s = q # qs" by (cases "queue s") auto
  then show ?thesis
  proof cases
    case 1
    then have "i \<in> set (queue s)" using assms p(6) by (simp add: waiting_def holders_of_def)
    moreover from this have "queue s \<noteq> []" by auto
    then have "\<not> pl_inUse (given_up i s) < pl_max (given_up i s)"
      using p(7) f(3,8) 1 by simp
    then have "pool_release i s = ([], given_up i s)"
      using grant_waiters_full [of "given_up i s" "pl_waiters s"] f(6) by (simp add: eq)
    ultimately show ?thesis using waits 1 by blast
  next
    case 2
    have "card (holders s - {i}) < card (holders s)"
      using 2 by (intro psubset_card_mono) auto
    then have "pool_release i s = ([], (given_up i s)\<lparr>pl_waiters := []\<rparr>)"
      using f(2,3,6-8) 2 p(3,8)
      by (cases "pl_closed s") (simp_all add: eq grant_waiters_full grant_waiters_none)
    with 2 freed show ?thesis by blast
  next
    case (3 q qs)
    have w: "waiting (lease_at s q)" "q < length (pl_heap s)" "q \<noteq> i" "i \<notin> set (queue s)"
      using p(6) 3 by (auto simp: waiting_def holders_of_def)
    have "card (holders s - {i}) = card (holders s) - 1" "0 < card (holders s)"
      using 3(1) by (auto simp: card_Diff_singleton card_gt_0_iff)
    then have "pl_inUse (given_up i s) = pl_max (given_up i s) - 1"
      using p(7) 3 f(3,8) by simp
    moreover have "queue_of (pl_heap (given_up i s)) (pl_waiters s) = q # qs"
      using f(2,6) w(4) 3(2) by (simp add: remove1_idem)
    moreover have "\<not> le_notified (lease_at (given_up i s) q)" "\<not> pl_closed (given_up i s)"
      using f(5,7) w p(8,11) 3 by (auto simp: queue_of_def)
    ultimately show ?thesis
      using grant_waiters_one [of "given_up i s" "pl_waiters s" q qs] hand_on [OF 3]
        pool_invD(1) [OF assms(1)] eq by auto
  qed
qed

lemma pool_release_refines:
  assumes "pool_inv s" "i < length (pl_heap s)"
  shows "pool_inv (snd (pool_release i s)) \<and> abs_pool (snd (pool_release i s)) = sem_release i (abs_pool s)"
proof (cases "le_released (lease_at s i)")
  case True
  then have "i \<notin> holders s" "i \<notin> set (queue s)"
    using pool_inv_facts(4) [OF assms(1)] by (auto simp: set_queue)
  with True assms(1) show ?thesis
    by (simp add: pool_release_eq sem_release_not_holder abs_pool_def)
next
  case False
  note f = given_up_facts [OF assms False]
  from assms False show ?thesis
  proof (cases rule: pool_release_forms)
    case waits
    then show ?thesis
      using given_up_inv [OF assms False] f by (simp add: abs_pool_def sem_release_def)
  next
    case freed
    have g: "pool_inv (given_up i s)" using given_up_inv [OF assms False] freed by simp
    have "\<not> waiting (lease_at (given_up i s) j)" if "j < length (pl_heap (given_up i s))" for j
      using pool_inv_facts(6) [OF g] f(2) freed that by auto
    then have "pool_inv ((given_up i s)\<lparr>pl_waiters := []\<rparr>)"
      using g by (auto simp: pool_inv_def queue_of_def)
    then show ?thesis
      using f freed by (simp add: abs_pool_def sem_release_def queue_of_def)
  next
    case (hand_on q qs ws)
    then show ?thesis
      using award_refines [OF assms(1) hand_on(1) False hand_on(2-4)] f
      by (simp add: abs_pool_def sem_release_def awarded_def)
  qed
qed

section \<open>Closing\<close>

definition failed_lease :: "'cb lease \<Rightarrow> 'cb lease" where
  "failed_lease l = l\<lparr>le_released := True, le_notified := (le_notified l \<or> le_notify l \<noteq> None)\<rparr>"

lemma fail_waiters_heap:
  assumes "distinct ws" "\<forall>i\<in>set ws. i < length (pl_heap s)"
  shows "snd (fail_waiters ws s) = s\<lparr>pl_waiters := [], pl_heap := map (\<lambda>j.
      if j \<in> set ws \<and> \<not> le_released (lease_at s j) then failed_lease (lease_at s j) else lease_at s j)
      [0..<length (pl_heap s)]\<rparr>"
  using assms
proof (induction ws arbitrary: s)
  case Nil
  then show ?case by (simp add: map_nth)
next
  case (Cons i ws)
  show ?case
  proof (cases "le_released (lease_at s i)")
    case True
    with Cons show ?thesis by (auto intro!: map_cong)
  next
    case False
    let ?s = "s\<lparr>pl_heap := (pl_heap s)[i := failed_lease (lease_at s i)]\<rparr>"
    have "snd (fail_waiters (i # ws) s) = snd (fail_waiters ws ?s)"
      using False by (cases "lease_at s i") (auto simp: Let_def failed_lease_def split: option.split)
    also have "\<dots> = ?s\<lparr>pl_waiters := [], pl_heap := map (\<lambda>j.
        if j \<in> set ws \<and> \<not> le_released (lease_at ?s j) then failed_lease (lease_at ?s j) else lease_at ?s j)
        [0..<length (pl_heap ?s)]\<rparr>"
      using Cons.prems by (intro Cons.IH) auto
    also have "map (\<lambda>j. if j \<in> set ws \<and> \<not> le_released (lease_at ?s j) then failed_lease (lease_at ?s j)
          else lease_at ?s j) [0..<length (pl_heap ?s)] =
        map (\<lambda>j. if j \<in> set (i # ws) \<and> \<not> le_released (lease_at s j) then failed_lease (lease_at s j)
          else lease_at s j) [0..<length (pl_heap s)]"
      using Cons.prems False by (intro map_cong) (auto simp: nth_list_update)
    finally show ?thesis by (simp del: fail_waiters.simps)
  qed
qed

lemma pool_close_refines:
  assumes "pool_inv s"
  shows "pool_inv (snd (pool_close s)) \<and> abs_pool (snd (pool_close s)) = sem_close (abs_pool s)"
proof -
  note p = pool_inv_facts [OF assms]
  define h where "h = map (\<lambda>j. if j \<in> set (pl_waiters s) \<and> \<not> le_released (lease_at s j)
    then failed_lease (lease_at s j) else lease_at s j) [0..<length (pl_heap s)]"
  have eq: "snd (pool_close s) = s\<lparr>pl_closed := True, pl_waiters := [], pl_heap := h\<rparr>"
    unfolding pool_close_def h_def
    using pool_invD [OF assms] by (subst fail_waiters_heap) auto
  have len: "length h = length (pl_heap s)" by (simp add: h_def)
  have live: "j \<in> set (pl_waiters s) \<and> \<not> le_released (lease_at s j) \<longleftrightarrow> waiting (lease_at s j)"
    if "j < length (pl_heap s)" for j
    using p(6) that by (auto simp: set_queue)
  have at: "h ! j = (if waiting (lease_at s j) then failed_lease (lease_at s j) else lease_at s j)"
    if "j < length (pl_heap s)" for j
    using live [OF that] that by (simp add: h_def)
  have hold: "holders_of h = holders s"
    using at len by (auto simp: holders_of_def failed_lease_def waiting_def split: if_splits)
  have nw: "\<not> waiting (h ! j)" if "j < length (pl_heap s)" for j
    using at [OF that] by (auto simp: waiting_def failed_lease_def)
  have same: "h ! j = lease_at s j" if "j \<in> holders s" for j
    using at [of j] that by (auto simp: holders_of_def waiting_def)
  show ?thesis
    unfolding eq pool_inv_def abs_pool_def sem_close_def
    using p hold nw same len by (simp add: queue_of_def)
qed

section \<open>Runs\<close>

text \<open>
  A pool with the log of the calls its operations decided to make, in order. Steps are the
  critical sections; any lease may be subscribed and released any number of times, by any
  goroutine.
\<close>

type_synonym 'cb pool_run = "'cb lease_pool \<times> 'cb call list"

inductive pool_step :: "'cb pool_run \<Rightarrow> 'cb pool_run \<Rightarrow> bool" where
  reserve: "pool_step (s, log) (snd (pool_reserve s), log)"
| subscribe: "i < length (pl_heap s) \<Longrightarrow> pool_subscribe i cb s = (calls, s') \<Longrightarrow>
    pool_step (s, log) (s', log @ calls)"
| release: "i < length (pl_heap s) \<Longrightarrow> pool_release i s = (calls, s') \<Longrightarrow>
    pool_step (s, log) (s', log @ calls)"
| close: "pool_close s = (calls, s') \<Longrightarrow> pool_step (s, log) (s', log @ calls)"

text \<open>What an operation may announce: each call goes to a lease that had none, and is true.\<close>

definition calls_ok :: "'cb lease_pool \<Rightarrow> 'cb call list \<Rightarrow> 'cb lease_pool \<Rightarrow> bool" where
  "calls_ok s calls s' \<longleftrightarrow> distinct (map fst calls) \<and> length (pl_heap s) \<le> length (pl_heap s')
     \<and> (\<forall>(i, cb, b) \<in> set calls. i < length (pl_heap s) \<and> \<not> le_notified (lease_at s i)
          \<and> le_notified (lease_at s' i)
          \<and> le_notify (lease_at s' i) = Some cb
          \<and> (if b then le_granted (lease_at s' i) else le_released (lease_at s' i)))
     \<and> (\<forall>i<length (pl_heap s). (le_notified (lease_at s i) \<longrightarrow> le_notified (lease_at s' i))
          \<and> (le_released (lease_at s i) \<longrightarrow> le_released (lease_at s' i))
          \<and> (le_granted (lease_at s i) \<longrightarrow> le_granted (lease_at s' i) \<or> le_released (lease_at s' i)))"

lemma reserve_calls: "calls_ok s [] (snd (pool_reserve s))"
  by (auto simp: calls_ok_def pool_reserve_def Let_def nth_append)

lemma subscribe_calls:
  "i < length (pl_heap s) \<Longrightarrow> pool_subscribe i cb s = (calls, s') \<Longrightarrow> calls_ok s calls s'"
  by (auto simp: calls_ok_def pool_subscribe_def Let_def nth_list_update split: if_splits)

lemma release_calls:
  assumes "pool_inv s" "i < length (pl_heap s)" "pool_release i s = (calls, s')"
  shows "calls_ok s calls s'"
proof (cases "le_released (lease_at s i)")
  case True
  with assms show ?thesis by (simp add: pool_release_eq calls_ok_def)
next
  case False
  note p = pool_inv_facts [OF assms(1)]
  have g: "calls_ok s [] ((given_up i s)\<lparr>pl_waiters := ws\<rparr>)" for ws
    using assms(2) by (auto simp: calls_ok_def given_up_def nth_list_update)
  from assms(1,2) False show ?thesis
  proof (cases rule: pool_release_forms)
    case waits
    with g [of "pl_waiters (given_up i s)"] assms(3) show ?thesis by simp
  next
    case freed
    with g [of "[]"] assms(3) show ?thesis by simp
  next
    case (hand_on q qs ws)
    have q: "q < length (pl_heap s)" "waiting (lease_at s q)" "q \<noteq> i"
      using p(6) hand_on(1,2) by (auto simp: waiting_def holders_of_def)
    have nq: "\<not> le_notified (lease_at s q)" using p(11) q by blast
    have "calls = award_call q (given_up i s)" "s' = (awarded q (given_up i s))\<lparr>pl_waiters := ws\<rparr>"
      using hand_on(5) assms(3) by simp_all
    with q nq assms(2) show ?thesis
      by (auto simp: calls_ok_def award_call_def awarded_def given_up_def nth_list_update waiting_def
          split: option.splits)
  qed
qed

lemma fail_waiters_calls:
  assumes "distinct ws" "\<forall>i\<in>set ws. i < length (pl_heap s)"
  shows "distinct (map fst (fst (fail_waiters ws s))) \<and> (\<forall>(i, cb, b) \<in> set (fst (fail_waiters ws s)).
    b = False \<and> i \<in> set ws \<and> \<not> le_released (lease_at s i) \<and> \<not> le_notified (lease_at s i)
    \<and> le_notify (lease_at s i) = Some cb)"
  using assms
proof (induction ws arbitrary: s)
  case (Cons i ws)
  show ?case
  proof (cases "le_released (lease_at s i)")
    case True
    with Cons show ?thesis by fastforce
  next
    case False
    let ?s = "s\<lparr>pl_heap := (pl_heap s)[i := failed_lease (lease_at s i)]\<rparr>"
    let ?new = "case le_notify (lease_at s i) of Some cb \<Rightarrow>
      if le_notified (lease_at s i) then [] else [(i, cb, False)] | None \<Rightarrow> []"
    have eq: "fst (fail_waiters (i # ws) s) = ?new @ fst (fail_waiters ws ?s)"
      using False by (cases "lease_at s i") (auto simp: Let_def failed_lease_def split: option.split)
    have IH: "distinct (map fst (fst (fail_waiters ws ?s))) \<and> (\<forall>(j, cb, b) \<in> set (fst (fail_waiters ws ?s)).
        b = False \<and> j \<in> set ws \<and> \<not> le_released (lease_at ?s j) \<and> \<not> le_notified (lease_at ?s j)
        \<and> le_notify (lease_at ?s j) = Some cb)"
      using Cons.prems by (intro Cons.IH) auto
    have at: "lease_at ?s j = lease_at s j" if "j \<in> set ws" for j
      using Cons.prems that by (cases "j = i") auto
    have rest: "\<forall>(j, cb, b) \<in> set (fst (fail_waiters ws ?s)). b = False \<and> j \<in> set ws
        \<and> \<not> le_released (lease_at s j) \<and> \<not> le_notified (lease_at s j) \<and> le_notify (lease_at s j) = Some cb"
      using IH at by fastforce
    have "i \<notin> fst ` set (fst (fail_waiters ws ?s))" using rest Cons.prems by fastforce
    with IH rest False show ?thesis
      unfolding eq by (auto split: option.splits)
  qed
qed simp

lemma close_calls:
  assumes "pool_inv s" "pool_close s = (calls, s')"
  shows "calls_ok s calls s'"
proof -
  note d = pool_invD [OF assms(1)]
  have calls: "distinct (map fst calls)" "\<forall>(i, cb, b) \<in> set calls. b = False \<and> i \<in> set (pl_waiters s)
      \<and> \<not> le_released (lease_at s i) \<and> \<not> le_notified (lease_at s i) \<and> le_notify (lease_at s i) = Some cb"
    using fail_waiters_calls [of "pl_waiters s" "s\<lparr>pl_closed := True\<rparr>"] d assms(2)
    by (auto simp: pool_close_def)
  have "s' = s\<lparr>pl_closed := True, pl_waiters := [], pl_heap := map (\<lambda>j. if j \<in> set (pl_waiters s)
      \<and> \<not> le_released (lease_at s j) then failed_lease (lease_at s j) else lease_at s j)
      [0..<length (pl_heap s)]\<rparr>"
    using fail_waiters_heap [of "pl_waiters s" "s\<lparr>pl_closed := True\<rparr>"] d assms(2)
    by (simp add: pool_close_def)
  with calls d(2) show ?thesis
    by (fastforce simp: calls_ok_def failed_lease_def)
qed

lemma fail_waiters_complete:
  assumes "distinct ws" "\<forall>i\<in>set ws. i < length (pl_heap s)" "i \<in> set ws"
    and "\<not> le_released (lease_at s i)" "\<not> le_notified (lease_at s i)" "le_notify (lease_at s i) = Some cb"
  shows "(i, cb, False) \<in> set (fst (fail_waiters ws s))"
  using assms
proof (induction ws arbitrary: s)
  case (Cons j ws)
  show ?case
  proof (cases "le_released (lease_at s j) \<or> j = i")
    case True
    with Cons show ?thesis by (auto simp: Let_def)
  next
    case False
    let ?s = "s\<lparr>pl_heap := (pl_heap s)[j := failed_lease (lease_at s j)]\<rparr>"
    have "set (fst (fail_waiters ws ?s)) \<subseteq> set (fst (fail_waiters (j # ws) s))"
      using False by (cases "lease_at s j") (auto simp: Let_def failed_lease_def split: option.split)
    moreover have "(i, cb, False) \<in> set (fst (fail_waiters ws ?s))"
      using Cons.prems False by (intro Cons.IH) auto
    ultimately show ?thesis by blast
  qed
qed simp

lemma close_tells_waiters:
  assumes "pool_inv s" "i < length (pl_heap s)" "waiting (lease_at s i)" "le_notify (lease_at s i) = Some cb"
  shows "(i, cb, False) \<in> set (fst (pool_close s))"
proof -
  note d = pool_invD [OF assms(1)] and p = pool_inv_facts [OF assms(1)]
  have "i \<in> set (pl_waiters s)" "\<not> le_released (lease_at s i)" "\<not> le_notified (lease_at s i)"
    using p(6) p(11) [OF assms(2)] assms(2,3) by (auto simp: set_queue)
  with fail_waiters_complete [of "pl_waiters s" "s\<lparr>pl_closed := True\<rparr>" i cb] d assms(4)
  show ?thesis by (auto simp: pool_close_def split: prod.split)
qed

definition pool_run_inv :: "'cb pool_run \<Rightarrow> bool" where
  "pool_run_inv r \<longleftrightarrow> (case r of (s, log) \<Rightarrow> pool_inv s \<and> distinct (map fst log)
     \<and> (\<forall>(i, cb, b) \<in> set log. i < length (pl_heap s) \<and> le_notified (lease_at s i)
          \<and> (if b then le_granted (lease_at s i) \<or> le_released (lease_at s i) else le_released (lease_at s i))))"

lemma run_inv_calls:
  assumes "pool_run_inv (s, log)" "pool_inv s'" "calls_ok s calls s'"
  shows "pool_run_inv (s', log @ calls)"
proof -
  have old: "i < length (pl_heap s) \<and> le_notified (lease_at s i)
      \<and> (if b then le_granted (lease_at s i) \<or> le_released (lease_at s i) else le_released (lease_at s i))"
    if "(i, cb, b) \<in> set log" for i cb b
    using assms(1) that by (fastforce simp: pool_run_inv_def)
  have new: "i < length (pl_heap s) \<and> \<not> le_notified (lease_at s i) \<and> le_notified (lease_at s' i)
      \<and> (if b then le_granted (lease_at s' i) else le_released (lease_at s' i))"
    if "(i, cb, b) \<in> set calls" for i cb b
    using assms(3) that by (fastforce simp: calls_ok_def)
  have "set (map fst log) \<inter> set (map fst calls) = {}" using old new by fastforce
  then have "distinct (map fst (log @ calls))"
    using assms by (simp add: pool_run_inv_def calls_ok_def)
  moreover have all: "i < length (pl_heap s') \<and> le_notified (lease_at s' i)
      \<and> (if b then le_granted (lease_at s' i) \<or> le_released (lease_at s' i) else le_released (lease_at s' i))"
    if "(i, cb, b) \<in> set log \<union> set calls" for i cb b
    using that old [of i cb b] new [of i cb b] assms(3) by (auto simp: calls_ok_def split: if_splits)
  have "\<forall>(i, cb, b) \<in> set (log @ calls). i < length (pl_heap s') \<and> le_notified (lease_at s' i)
      \<and> (if b then le_granted (lease_at s' i) \<or> le_released (lease_at s' i) else le_released (lease_at s' i))"
    using all by (clarsimp simp del: if_split simp: split_def)
  ultimately show ?thesis
    using assms(2) unfolding pool_run_inv_def prod.case by blast
qed

lemma pool_step_inv:
  assumes "pool_run_inv r" "pool_step r r'"
  shows "pool_run_inv r'"
  using assms(2)
proof cases
  case (reserve s log)
  with assms(1) show ?thesis
    using run_inv_calls [of s log _ "[]"] reserve_calls [of s] pool_reserve_refines [of s]
    by (auto simp: pool_run_inv_def)
next
  case (subscribe i s cb calls s' log)
  moreover have "pool_inv s" using assms(1) subscribe by (simp add: pool_run_inv_def)
  ultimately show ?thesis
    using assms(1) subscribe_calls [of i s cb calls s'] pool_subscribe_refines [of s i cb]
    by (auto intro: run_inv_calls)
next
  case (release i s calls s' log)
  moreover have "pool_inv s" using assms(1) release by (simp add: pool_run_inv_def)
  ultimately show ?thesis
    using assms(1) release_calls [of s i calls s'] pool_release_refines [of s i]
    by (auto intro: run_inv_calls)
next
  case (close s calls s' log)
  moreover have "pool_inv s" using assms(1) close by (simp add: pool_run_inv_def)
  ultimately show ?thesis
    using assms(1) close_calls [of s calls s'] pool_close_refines [of s]
    by (auto intro: run_inv_calls)
qed

text \<open>The calls of one step, judged in the state in which its critical section ends.\<close>

definition calls_true :: "'cb lease_pool \<Rightarrow> 'cb call list \<Rightarrow> bool" where
  "calls_true s calls \<longleftrightarrow> (\<forall>(i, cb, b) \<in> set calls. le_notify (lease_at s i) = Some cb
     \<and> (b \<longleftrightarrow> i \<in> holders s) \<and> (\<not> b \<longleftrightarrow> le_released (lease_at s i)))"

lemma calls_ok_true:
  assumes "pool_inv s'" "calls_ok s calls s'"
  shows "calls_true s' calls"
  unfolding calls_true_def
proof (clarify)
  fix i cb b assume "(i, cb, b) \<in> set calls"
  with assms(2) have c: "i < length (pl_heap s')" "le_notify (lease_at s' i) = Some cb"
    "if b then le_granted (lease_at s' i) else le_released (lease_at s' i)" by (fastforce simp: calls_ok_def)+
  moreover have "le_released (lease_at s' i) \<longrightarrow> i \<notin> holders s'" using pool_inv_facts(4) [OF assms(1)] by blast
  ultimately show "le_notify (lease_at s' i) = Some cb \<and> (b \<longleftrightarrow> i \<in> holders s') \<and> (\<not> b \<longleftrightarrow> le_released (lease_at s' i))"
    by (auto simp: holders_of_def split: if_splits)
qed

lemma pool_step_calls:
  assumes "pool_inv s" "pool_step (s, log) (s', log')"
  shows "\<exists>calls. log' = log @ calls \<and> calls_true s' calls"
  using assms(2)
proof cases
  case reserve
  then show ?thesis by (simp add: calls_true_def)
next
  case (subscribe i cb calls)
  then show ?thesis
    using calls_ok_true [OF _ subscribe_calls] pool_subscribe_refines [OF assms(1), of i cb] by (metis snd_conv)
next
  case (release i calls)
  then show ?thesis
    using calls_ok_true [OF _ release_calls [OF assms(1)]] pool_release_refines [OF assms(1)] by (metis snd_conv)
next
  case (close calls)
  then show ?thesis
    using calls_ok_true [OF _ close_calls [OF assms(1)]] pool_close_refines [OF assms(1)] by (metis snd_conv)
qed

interpretation pool_runs: invariant_system pool_step pool_run_inv
  by unfold_locales (rule pool_step_inv)

lemma new_pool_inv:
  "pool_run_inv (newBulkRPCScheduler mx, [])" "pool_run_inv (new_window, [])"
  by (simp_all add: pool_run_inv_def newBulkRPCScheduler_def new_window_def defaultBulkACKWindow_def
      pool_inv_def holders_of_def queue_of_def)

section \<open>What the pool promises\<close>

text \<open>
  C21. The lease pool is a first-come-first-served semaphore. In every reachable state each
  operation acts on the pool exactly as the specification says: a reservation takes a free slot or
  the last place of the queue, a release hands the slot to the head of the queue, a waiter that
  gives up leaves its place, closing empties the queue, and subscribing changes none of this.
\<close>

theorem bulk_pool_refines_semaphore:
  assumes "pool_step\<^sup>*\<^sup>* (newBulkRPCScheduler mx, []) (s, log)"
  shows "abs_pool (snd (pool_reserve s)) = sem_reserve (abs_pool s)
    \<and> (\<forall>i<length (pl_heap s). abs_pool (snd (pool_release i s)) = sem_release i (abs_pool s))
    \<and> (\<forall>i<length (pl_heap s). abs_pool (snd (pool_subscribe i cb s)) = abs_pool s)
    \<and> abs_pool (snd (pool_close s)) = sem_close (abs_pool s)"
proof -
  have p: "pool_inv s" using pool_runs.run_inv [OF assms new_pool_inv(1)] by (simp add: pool_run_inv_def)
  show ?thesis
    by (simp add: p pool_reserve_refines pool_release_refines pool_subscribe_refines pool_close_refines)
qed

text \<open>
  C24. Slots and notifications of the bulk scheduler. In every reachable state the counter is the
  number of granted leases and within the maximum; while a lease waits, every slot is taken, and
  by leases that came earlier, so nobody overtakes; a subscribed lease that was granted has been
  told; no lease is ever told twice. What a step tells a callback is true when its critical section
  ends: \<open>true\<close> exactly if the lease holds a slot and \<open>false\<close> exactly if it has been released; and
  closing tells \<open>false\<close> to every waiting lease that has a callback.
\<close>

theorem bulk_scheduler_fair:
  assumes "pool_step\<^sup>*\<^sup>* (newBulkRPCScheduler mx, []) (s, log)"
  shows "pl_inUse s = int (card (holders s)) \<and> pl_inUse s \<le> pl_max s
    \<and> (\<forall>i<length (pl_heap s). waiting (lease_at s i) \<longrightarrow>
         pl_inUse s = pl_max s \<and> (\<forall>j\<in>holders s. j < i))
    \<and> (\<forall>i\<in>holders s. le_notify (lease_at s i) \<noteq> None \<longrightarrow> le_notified (lease_at s i))
    \<and> distinct (map fst log)
    \<and> (\<forall>(i, cb, b)\<in>set log. if b then le_granted (lease_at s i) \<or> le_released (lease_at s i)
         else le_released (lease_at s i))
    \<and> (\<forall>s' log'. pool_step (s, log) (s', log') \<longrightarrow> (\<exists>calls. log' = log @ calls
         \<and> (\<forall>(i, cb, b)\<in>set calls. le_notify (lease_at s' i) = Some cb
              \<and> (b \<longleftrightarrow> i \<in> holders s') \<and> (\<not> b \<longleftrightarrow> le_released (lease_at s' i)))))
    \<and> (\<forall>i<length (pl_heap s). \<forall>cb. waiting (lease_at s i) \<and> le_notify (lease_at s i) = Some cb \<longrightarrow>
         (i, cb, False) \<in> set (fst (pool_close s)))"
proof -
  have inv: "pool_run_inv (s, log)" by (rule pool_runs.run_inv [OF assms new_pool_inv(1)])
  then have p: "pool_inv s" by (simp add: pool_run_inv_def)
  note f = pool_inv_facts [OF p]
  have "pl_inUse s = pl_max s \<and> (\<forall>j\<in>holders s. j < i)"
    if "i < length (pl_heap s)" "waiting (lease_at s i)" for i
  proof -
    have q: "i \<in> set (queue s)" using f(6) that by blast
    then have "queue s \<noteq> []" by auto
    with q show ?thesis using f(2,7,9) by simp
  qed
  moreover have "distinct (map fst log)" and "\<forall>(i, cb, b)\<in>set log.
      if b then le_granted (lease_at s i) \<or> le_released (lease_at s i) else le_released (lease_at s i)"
    using inv by (auto simp: pool_run_inv_def)
  ultimately show ?thesis
    using f(2,3,10) pool_step_calls [OF p, unfolded calls_true_def] close_tells_waiters [OF p] by simp
qed

text \<open>Two requests for the only slot; the second subscribes and gets it when the first is done.\<close>

definition demo_pool :: "nat lease_pool" where
  "demo_pool = snd (pool_subscribe 1 7 (snd (pool_reserve (snd (pool_reserve (newBulkRPCScheduler 1))))))"

definition demo_pool_done :: "nat lease_pool" where
  "demo_pool_done = snd (pool_release 0 demo_pool)"

lemma demo_pool_runs:
  "pool_step\<^sup>*\<^sup>* (newBulkRPCScheduler 1, []) (demo_pool, [])"
  "pool_step\<^sup>*\<^sup>* (newBulkRPCScheduler 1, []) (demo_pool_done, [(1, 7, True)])"
proof -
  let ?s1 = "snd (pool_reserve (newBulkRPCScheduler 1)) :: nat lease_pool" and ?r = "\<lambda>s. (s, [] :: nat call list)"
  let ?s2 = "snd (pool_reserve ?s1)"
  have "pool_step (?r (newBulkRPCScheduler 1)) (?r ?s1)" "pool_step (?r ?s1) (?r ?s2)"
    by (rule pool_step.reserve)+
  moreover have "pool_subscribe 1 7 ?s2 = ([], demo_pool)" "1 < length (pl_heap ?s2)"
    by (code_simp, code_simp)
  then have "pool_step (?r ?s2) (?r demo_pool)"
    using pool_step.subscribe [of 1 ?s2 7 "[]" demo_pool "[]"] by simp
  ultimately show run: "pool_step\<^sup>*\<^sup>* (newBulkRPCScheduler 1, []) (demo_pool, [])"
    by (meson rtranclp.rtrancl_into_rtrancl rtranclp.rtrancl_refl)
  have "pool_release 0 demo_pool = ([(1, 7, True)], demo_pool_done)" "0 < length (pl_heap demo_pool)"
    by (code_simp, code_simp)
  then have "pool_step (demo_pool, []) (demo_pool_done, [(1, 7, True)])"
    using pool_step.release [of 0 demo_pool "[(1, 7, True)]" demo_pool_done "[]"] by simp
  with run show "pool_step\<^sup>*\<^sup>* (newBulkRPCScheduler 1, []) (demo_pool_done, [(1, 7, True)])"
    by (rule rtranclp.rtrancl_into_rtrancl)
qed

theorem bulk_pool_refines_semaphore_witness:
  "abs_pool demo_pool_done = sem_release 0 (abs_pool demo_pool)
   \<and> sem_queue (abs_pool demo_pool) = [1] \<and> sem_queue (abs_pool demo_pool_done) = []"
proof -
  have "0 < length (pl_heap demo_pool)" by code_simp
  then have "abs_pool demo_pool_done = sem_release 0 (abs_pool demo_pool)"
    using bulk_pool_refines_semaphore [OF demo_pool_runs(1)] by (simp add: demo_pool_done_def)
  moreover have "queue demo_pool = [1]" "queue demo_pool_done = []" by (code_simp, code_simp)
  then have "sem_queue (abs_pool demo_pool) = [1]" "sem_queue (abs_pool demo_pool_done) = []"
    by (simp_all add: abs_pool_def)
  ultimately show ?thesis by blast
qed

theorem bulk_scheduler_fair_witness:
  "pl_inUse demo_pool_done = int (card (holders demo_pool_done)) \<and> pl_inUse demo_pool_done = 1
   \<and> 1 \<in> holders demo_pool_done \<and> (1, 7, False) \<in> set (fst (pool_close demo_pool))"
proof -
  have "pl_inUse demo_pool_done = 1" by code_simp
  moreover have "pool_release 0 demo_pool = ([(1, 7, True)], demo_pool_done)" "0 < length (pl_heap demo_pool)"
    by (code_simp, code_simp)
  then have "pool_step (demo_pool, []) (demo_pool_done, [(1, 7, True)])"
    using pool_step.release [of 0 demo_pool "[(1, 7, True)]" demo_pool_done "[]"] by simp
  then have "1 \<in> holders demo_pool_done" using bulk_scheduler_fair [OF demo_pool_runs(1)] by fastforce
  moreover have "1 < length (pl_heap demo_pool) \<and> waiting (lease_at demo_pool 1) \<and> le_notify (lease_at demo_pool 1) = Some 7"
    by code_simp
  then have "(1, 7, False) \<in> set (fst (pool_close demo_pool))" using bulk_scheduler_fair [OF demo_pool_runs(1)] by blast
  ultimately show ?thesis using bulk_scheduler_fair [OF demo_pool_runs(2)] by blast
qed

end
