(* ===== verification/Bulk_Admission.thy ===== *)
theory Bulk_Admission
  imports Bulk_Flow_Theorems
begin

text \<open>
  One file download on its way to a worker (\<open>bulkRPCAdmission\<close> in bulk_rpc_scheduler.go,
  \<open>newLayerRPCExecutionGate\<close> and the bulk part of \<open>newInboundLayerRPCTask\<close> in
  layer_rpc_execution.go): it waits for a credit of its session's window, then for a slot of the
  process-wide scheduler, and each answer resolves its gate. The callbacks run outside every lock,
  so between any two of its own critical sections other requests use both pools, the task may be
  cancelled, and either pool may be closed.

  The other requests are an environment that performs any pool operations on leases that are not
  ours: a lease is a pointer which only the request that reserved it keeps.
\<close>

section \<open>The request\<close>

datatype bulk_cb = Mine | Theirs nat

text \<open>
  The code still to run for this request: the \<open>subscribe\<close> of the credit, the closure
  \<open>subscribeAfter\<close> passes to it, the two sections after the scheduler answered, the release of a
  slot, and the calls of the gate.
\<close>

datatype adm_action =
    SubscribeCredit
  | CreditCall bool
  | AssignLease nat
  | SubscribeLease nat
  | ReleaseLease nat
  | Resolve bool

record admission =
  ad_window :: "bulk_cb lease_pool"
  ad_sched :: "bulk_cb lease_pool"
  ad_credit :: nat
  ad_lease :: "nat option"
  ad_released :: bool
  ad_own :: "nat option"
  ad_gate :: rpc_gate
  ad_wakes :: nat
  ad_deps :: nat
  ad_pending :: "adm_action list"

text \<open>
  \<open>ad_own\<close> and \<open>ad_wakes\<close> are ghosts: the slot the scheduler created for this request, and how often
  the gate called \<open>wakeInboundRPC\<close> of its connection. The gate starts with one
  prerequisite per dependency and one for the bulk admission; its sentinel is the \<open>Resolve True\<close>
  that runs last in \<open>newLayerRPCExecutionGate\<close>.
\<close>

definition new_admission ::
  "bulk_cb lease_pool \<Rightarrow> bulk_cb lease_pool \<Rightarrow> nat \<Rightarrow> bool \<Rightarrow> admission" where
  "new_admission window sched deps depFailed =
    (let (c, window) = reserveBulkCredit window;
         g = newInboundRPCGate (int deps + 1) in
     \<lparr>ad_window = window, ad_sched = sched, ad_credit = c, ad_lease = None, ad_released = False,
      ad_own = None, ad_gate = (if depFailed then g\<lparr>g_failed := True\<rparr> else g), ad_wakes = 0, ad_deps = deps,
      ad_pending = [SubscribeCredit, Resolve True]\<rparr>)"

text \<open>The answers among an operation's calls that are for this request.\<close>

definition mine_calls :: "bulk_cb call list \<Rightarrow> bool list" where
  "mine_calls calls = map (snd \<circ> snd) (filter (\<lambda>c. fst (snd c) = Mine) calls)"

definition run_resolve :: "bool \<Rightarrow> admission \<Rightarrow> admission outcome" where
  "run_resolve b a = bind_outcome (gate_resolve b (ad_gate a)) (\<lambda>(g, wake).
     Ret (a\<lparr>ad_gate := g, ad_wakes := ad_wakes a + (if wake then 1 else 0)\<rparr>))"

fun run_action :: "adm_action \<Rightarrow> admission \<Rightarrow> admission outcome" where
  "run_action SubscribeCredit a =
    (case credit_subscribe (ad_credit a) Mine (ad_window a) of (calls, w) \<Rightarrow>
       Ret (a\<lparr>ad_window := w, ad_pending := ad_pending a @ map CreditCall (mine_calls calls)\<rparr>))"
| "run_action (CreditCall b) a =
    (if \<not> b then Ret (a\<lparr>ad_pending := ad_pending a @ [Resolve False]\<rparr>)
     else case pool_reserve (ad_sched a) of (l, s) \<Rightarrow>
       Ret (a\<lparr>ad_sched := s, ad_own := Some l, ad_pending := ad_pending a @ [AssignLease l]\<rparr>))"
| "run_action (AssignLease l) a =
    (if ad_released a
     then Ret (a\<lparr>ad_pending := ad_pending a @ [ReleaseLease l, Resolve False]\<rparr>)
     else Ret (a\<lparr>ad_lease := Some l, ad_pending := ad_pending a @ [SubscribeLease l]\<rparr>))"
| "run_action (SubscribeLease l) a =
    (case pool_subscribe l Mine (ad_sched a) of (calls, s) \<Rightarrow>
       Ret (a\<lparr>ad_sched := s, ad_pending := ad_pending a @ map Resolve (mine_calls calls)\<rparr>))"
| "run_action (ReleaseLease l) a =
    (case pool_release l (ad_sched a) of (calls, s) \<Rightarrow>
       Ret (a\<lparr>ad_sched := s, ad_pending := ad_pending a @ map Resolve (mine_calls calls)\<rparr>))"
| "run_action (Resolve b) a = run_resolve b a"

text \<open>\<open>bulkRPCAdmission.release\<close>, the first half of a task's release.\<close>

definition admission_release :: "admission \<Rightarrow> admission" where
  "admission_release a =
    (if ad_released a then a
     else a\<lparr>ad_released := True, ad_lease := None, ad_pending := ad_pending a @
       (case ad_lease a of None \<Rightarrow> [] | Some l \<Rightarrow> [ReleaseLease l])\<rparr>)"

section \<open>Steps\<close>

inductive foreign_step ::
  "nat set \<Rightarrow> bulk_cb lease_pool \<Rightarrow> bulk_cb call list \<Rightarrow> bulk_cb lease_pool \<Rightarrow> bool"
  for ours :: "nat set" where
  f_reserve: "foreign_step ours s [] (snd (pool_reserve s))"
| f_subscribe: "i < length (pl_heap s) \<Longrightarrow> i \<notin> ours \<Longrightarrow>
    pool_subscribe i (Theirs n) s = (calls, s') \<Longrightarrow> foreign_step ours s calls s'"
| f_release: "i < length (pl_heap s) \<Longrightarrow> i \<notin> ours \<Longrightarrow> pool_release i s = (calls, s') \<Longrightarrow>
    foreign_step ours s calls s'"
| f_close: "pool_close s = (calls, s') \<Longrightarrow> foreign_step ours s calls s'"

inductive adm_step :: "admission \<Rightarrow> admission \<Rightarrow> bool" where
  act: "ad_pending a = xs @ x # ys \<Longrightarrow> run_action x (a\<lparr>ad_pending := xs @ ys\<rparr>) = Ret a' \<Longrightarrow>
    adm_step a a'"
| dep: "0 < ad_deps a \<Longrightarrow> run_resolve b a = Ret a' \<Longrightarrow>
    adm_step a (a'\<lparr>ad_deps := ad_deps a - 1\<rparr>)"
| finish: "adm_step a (admission_release a)"
| credit_done: "credit_release (ad_credit a) (ad_window a) = (calls, w) \<Longrightarrow>
    adm_step a (a\<lparr>ad_window := w, ad_pending := ad_pending a @ map CreditCall (mine_calls calls)\<rparr>)"
| env_window: "foreign_step {ad_credit a} (ad_window a) calls w \<Longrightarrow>
    adm_step a (a\<lparr>ad_window := w, ad_pending := ad_pending a @ map CreditCall (mine_calls calls)\<rparr>)"
| env_sched: "foreign_step (set_option (ad_own a)) (ad_sched a) calls s \<Longrightarrow>
    adm_step a (a\<lparr>ad_sched := s, ad_pending := ad_pending a @ map Resolve (mine_calls calls)\<rparr>)"

section \<open>What a pool operation does to one lease\<close>

text \<open>Our callback is registered with at most one lease of a pool.\<close>

definition only_mine :: "nat option \<Rightarrow> bulk_cb lease_pool \<Rightarrow> bool" where
  "only_mine ours s \<longleftrightarrow> (\<forall>j<length (pl_heap s). le_notify (lease_at s j) = Some Mine \<longrightarrow> ours = Some j)"

definition heard :: "bulk_cb lease \<Rightarrow> bool \<Rightarrow> bool list" where
  "heard l b = (if le_notify l = None then [] else [b])"

definition awarded_lease :: "'cb lease \<Rightarrow> 'cb lease" where
  "awarded_lease l = l\<lparr>le_granted := True, le_notified := (le_notify l \<noteq> None)\<rparr>"

text \<open>What others can do to our lease: nothing, hand it the slot it waits for, or fail it.\<close>

definition lease_effect :: "bulk_cb lease \<Rightarrow> bool list \<Rightarrow> bulk_cb lease \<Rightarrow> bool" where
  "lease_effect l calls l' \<longleftrightarrow> l' = l \<and> calls = []
     \<or> waiting l \<and> l' = awarded_lease l \<and> calls = heard l True
     \<or> waiting l \<and> l' = failed_lease l \<and> calls = heard l False"

lemma mine_calls_simps [simp]:
  "mine_calls [] = []" "mine_calls ((i, cb, b) # cs) = (if cb = Mine then b # mine_calls cs else mine_calls cs)"
  by (simp_all add: mine_calls_def)

lemma mine_calls_none: "\<forall>(j, cb, b)\<in>set calls. cb \<noteq> Mine \<Longrightarrow> mine_calls calls = []"
  by (induction calls) auto

lemma mine_calls_one:
  assumes "distinct (map fst calls)" "(i, Mine, b) \<in> set calls"
    and "\<forall>(j, cb, c)\<in>set calls. cb = Mine \<longrightarrow> i = j"
  shows "mine_calls calls = [b]"
  using assms
proof (induction calls)
  case (Cons c calls)
  obtain j cb d where c: "c = (j, cb, d)" by (cases c)
  show ?case
  proof (cases "cb = Mine")
    case True
    with Cons.prems c have "j = i" by auto
    with Cons.prems c have "\<forall>(j, cb, b)\<in>set calls. cb \<noteq> Mine" "d = b" by force+
    with True c show ?thesis by (simp add: mine_calls_none)
  qed (use Cons c in auto)
qed simp

lemma pool_close_lease:
  assumes "pool_inv s" "only_mine ours s" "pool_close s = (calls, s')"
  shows "length (pl_heap s') = length (pl_heap s) \<and> only_mine ours s'
    \<and> (ours = None \<longrightarrow> mine_calls calls = [])
    \<and> (\<forall>i<length (pl_heap s). ours = Some i \<longrightarrow> le_notify (lease_at s i) \<in> {None, Some Mine} \<longrightarrow>
         lease_effect (lease_at s i) (mine_calls calls) (lease_at s' i))"
proof -
  note d = pool_invD [OF assms(1)] and p = pool_inv_facts [OF assms(1)]
  have calls: "distinct (map fst calls)" "\<forall>(i, cb, b) \<in> set calls. b = False \<and> i \<in> set (pl_waiters s)
      \<and> \<not> le_released (lease_at s i) \<and> \<not> le_notified (lease_at s i) \<and> le_notify (lease_at s i) = Some cb"
    using fail_waiters_calls [of "pl_waiters s" "s\<lparr>pl_closed := True\<rparr>"] d assms(3)
    by (auto simp: pool_close_def)
  have s': "s' = s\<lparr>pl_closed := True, pl_waiters := [], pl_heap := map (\<lambda>j. if j \<in> set (pl_waiters s)
      \<and> \<not> le_released (lease_at s j) then failed_lease (lease_at s j) else lease_at s j)
      [0..<length (pl_heap s)]\<rparr>"
    using fail_waiters_heap [of "pl_waiters s" "s\<lparr>pl_closed := True\<rparr>"] d assms(3)
    by (simp add: pool_close_def)
  have live: "j \<in> set (pl_waiters s) \<and> \<not> le_released (lease_at s j) \<longleftrightarrow> waiting (lease_at s j)"
    if "j < length (pl_heap s)" for j
    using p(6) that by (auto simp: set_queue)
  have at: "lease_at s' j = (if waiting (lease_at s j) then failed_lease (lease_at s j) else lease_at s j)"
    if "j < length (pl_heap s)" for j
    using live [OF that] that by (simp add: s')
  have mine: "\<forall>(j, cb, b) \<in> set calls. cb = Mine \<longrightarrow> ours = Some j"
    using calls(2) d(2) assms(2) by (fastforce simp: only_mine_def)
  have "only_mine ours s'"
    using assms(2) at by (auto simp: only_mine_def s' failed_lease_def)
  moreover have "mine_calls calls = []" if "ours = None"
    using mine that by (auto intro!: mine_calls_none)
  moreover have "lease_effect (lease_at s i) (mine_calls calls) (lease_at s' i)"
    if i: "i < length (pl_heap s)" "ours = Some i" "le_notify (lease_at s i) \<in> {None, Some Mine}" for i
  proof (cases "waiting (lease_at s i) \<and> le_notify (lease_at s i) = Some Mine")
    case True
    have "(i, Mine, False) \<in> set calls"
      using fail_waiters_complete [of "pl_waiters s" "s\<lparr>pl_closed := True\<rparr>" i Mine] True d live [OF i(1)]
        p(11) [OF i(1)] assms(3) by (auto simp: pool_close_def)
    then have "mine_calls calls = [False]"
      using mine_calls_one [OF calls(1), of i False] mine i(2) by auto
    with True show ?thesis by (simp add: lease_effect_def at [OF i(1)] heard_def)
  next
    case False
    have "\<forall>(j, cb, b)\<in>set calls. cb \<noteq> Mine"
      using mine calls(2) False live [OF i(1)] i(2) by fastforce
    with False i(3) show ?thesis
      by (auto simp: lease_effect_def at [OF i(1)] heard_def mine_calls_none)
  qed
  ultimately show ?thesis by (simp add: s')
qed

lemma only_mine_update:
  assumes "only_mine own s" "pl_heap s' = (pl_heap s)[k := l]" "k < length (pl_heap s)"
    and "le_notify l = Some Mine \<Longrightarrow> own = Some k"
  shows "only_mine own s'"
  unfolding only_mine_def
proof (intro allI impI)
  fix j assume j: "j < length (pl_heap s')" "le_notify (lease_at s' j) = Some Mine"
  show "own = Some j"
    using assms j by (cases "j = k") (simp_all add: only_mine_def)
qed

text \<open>What releasing lease \<open>k\<close> does to a lease of ours: everything of \<open>lease_effect\<close>, or it ends.\<close>

definition release_effect ::
  "nat option \<Rightarrow> nat \<Rightarrow> bulk_cb lease_pool \<Rightarrow> bulk_cb call list \<Rightarrow> bulk_cb lease_pool \<Rightarrow> bool" where
  "release_effect ours k s calls s' \<longleftrightarrow> length (pl_heap s') = length (pl_heap s) \<and> only_mine ours s'
    \<and> (ours = None \<longrightarrow> mine_calls calls = [])
    \<and> (\<forall>i<length (pl_heap s). ours = Some i \<longrightarrow> le_notify (lease_at s i) \<in> {None, Some Mine} \<longrightarrow>
         (if i = k then mine_calls calls = [] \<and> le_released (lease_at s' i) \<and> \<not> le_granted (lease_at s' i)
            \<and> le_notify (lease_at s' i) = le_notify (lease_at s i)
            \<and> le_notified (lease_at s' i) = le_notified (lease_at s i)
          else lease_effect (lease_at s i) (mine_calls calls) (lease_at s' i)))"

lemma hand_on_lease:
  assumes "pool_inv s" "only_mine ours s" "k < length (pl_heap s)" "k \<in> holders s" "queue s = q # qs"
    and step: "calls = award_call q (given_up k s)" "s' = (awarded q (given_up k s))\<lparr>pl_waiters := ws\<rparr>"
  shows "release_effect ours k s calls s'"
proof -
  note p = pool_inv_facts [OF assms(1)]
  have q: "q < length (pl_heap s)" "waiting (lease_at s q)" "q \<noteq> k"
    using p(6) assms(4,5) by (auto simp: waiting_def holders_of_def)
  have nq: "\<not> le_notified (lease_at s q)" using p(11) q by blast
  have calls: "calls = (case le_notify (lease_at s q) of None \<Rightarrow> [] | Some cb \<Rightarrow> [(q, cb, True)])"
    using step q by (simp add: award_call_def given_up_def)
  have heap: "pl_heap s' = (pl_heap (given_up k s))[q := awarded_lease (lease_at s q)]"
    using step q by (auto simp: awarded_def given_up_def awarded_lease_def)
  have at: "lease_at s' j = (if j = q then awarded_lease (lease_at s q) else if j = k then
      (lease_at s k)\<lparr>le_released := True, le_granted := False\<rparr> else lease_at s j)"
    if "j < length (pl_heap s)" for j
    using q assms(3) that by (simp add: heap given_up_def nth_list_update)
  have mine: "le_notify (lease_at s q) = Some Mine \<longleftrightarrow> mine_calls calls = [True]"
    "le_notify (lease_at s q) \<noteq> Some Mine \<longleftrightarrow> mine_calls calls = []"
    by (auto simp: calls split: option.splits)
  have len: "length (pl_heap s') = length (pl_heap s)" by (simp add: heap given_up_def)
  moreover have "le_notify (lease_at s' j) = le_notify (lease_at s j)" if "j < length (pl_heap s)" for j
    using at [OF that] by (simp add: awarded_lease_def)
  ultimately have "only_mine ours s'" using assms(2) by (simp add: only_mine_def)
  moreover have "ours = None \<longrightarrow> mine_calls calls = []"
    using mine(2) assms(2) q(1) by (auto simp: only_mine_def)
  moreover have "if i = k then mine_calls calls = [] \<and> le_released (lease_at s' i) \<and> \<not> le_granted (lease_at s' i)
          \<and> le_notify (lease_at s' i) = le_notify (lease_at s i)
          \<and> le_notified (lease_at s' i) = le_notified (lease_at s i)
        else lease_effect (lease_at s i) (mine_calls calls) (lease_at s' i)"
    if i: "i < length (pl_heap s)" "ours = Some i" "le_notify (lease_at s i) \<in> {None, Some Mine}" for i
  proof (cases "i = q")
    case True
    with q i mine at [OF i(1)] show ?thesis by (auto simp: lease_effect_def heard_def)
  next
    case other: False
    with i(2) q(1) assms(2) have "le_notify (lease_at s q) \<noteq> Some Mine" by (auto simp: only_mine_def)
    then have "mine_calls calls = []" using mine(2) by blast
    with other q at [OF i(1)] show ?thesis by (cases "i = k") (auto simp: lease_effect_def)
  qed
  ultimately show ?thesis using len unfolding release_effect_def by blast
qed

lemma pool_release_lease:
  assumes "pool_inv s" "only_mine ours s" "k < length (pl_heap s)" "pool_release k s = (calls, s')"
  shows "release_effect ours k s calls s'"
proof (cases "le_released (lease_at s k)")
  case True
  then have "s' = s" "calls = []" "\<not> le_granted (lease_at s k)"
    using assms pool_inv_facts(4) [OF assms(1)] by (auto simp: pool_release_eq holders_of_def)
  with assms True show ?thesis by (auto simp: release_effect_def lease_effect_def)
next
  case False
  let ?l = "(lease_at s k)\<lparr>le_released := True, le_granted := False\<rparr>"
  have simple: ?thesis if "pl_heap s' = pl_heap (given_up k s)" "calls = []"
  proof -
    have heap: "pl_heap s' = (pl_heap s)[k := ?l]" using that by (simp add: given_up_def)
    have "only_mine ours s'"
      using assms(2,3) by (intro only_mine_update [OF assms(2) heap]) (auto simp: only_mine_def)
    then show ?thesis using heap assms(3) that(2) by (simp add: release_effect_def lease_effect_def)
  qed
  from assms(1,3) False show ?thesis
  proof (cases rule: pool_release_forms)
    case waits
    with assms(4) show ?thesis by (intro simple) auto
  next
    case freed
    with assms(4) show ?thesis by (intro simple) auto
  next
    case (hand_on q qs ws)
    with assms show ?thesis by (intro hand_on_lease [of s ours k q qs _ _ ws]) simp_all
  qed
qed

lemma pool_reserve_lease:
  assumes "pool_inv s" "only_mine ours s" "pool_reserve s = (l, s')"
  shows "l = length (pl_heap s) \<and> length (pl_heap s') = Suc l \<and> only_mine ours s'
    \<and> le_notify (lease_at s' l) = None \<and> \<not> le_notified (lease_at s' l)
    \<and> (\<forall>i<length (pl_heap s). lease_at s' i = lease_at s i)"
  using assms
  by (auto simp: pool_reserve_def Let_def only_mine_def nth_append new_lease_def less_Suc_eq split: if_splits)

text \<open>Subscribing our callback to a lease that has none.\<close>

lemma pool_subscribe_lease:
  assumes "only_mine (Some i) s" "i < length (pl_heap s)" "le_notify (lease_at s i) = None"
    and "\<not> le_notified (lease_at s i)" "pool_subscribe i Mine s = (calls, s')"
  shows "length (pl_heap s') = length (pl_heap s) \<and> only_mine (Some i) s'
    \<and> le_notify (lease_at s' i) = Some Mine
    \<and> le_granted (lease_at s' i) = le_granted (lease_at s i)
    \<and> le_released (lease_at s' i) = le_released (lease_at s i)
    \<and> le_notified (lease_at s' i) = (\<not> waiting (lease_at s i))
    \<and> mine_calls calls = (if waiting (lease_at s i) then [] else [le_granted (lease_at s i)])"
proof -
  let ?w = "waiting (lease_at s i)"
  let ?l = "(lease_at s i)\<lparr>le_notify := Some Mine, le_notified := (\<not> ?w)\<rparr>"
  have eq: "calls = (if ?w then [] else [(i, Mine, le_granted (lease_at s i))])"
    "pl_heap s' = (pl_heap s)[i := ?l]"
    using assms(3-5) by (cases "lease_at s i"; auto simp: pool_subscribe_def Let_def waiting_def split: if_splits)+
  have "only_mine (Some i) s'"
    using assms(2) by (intro only_mine_update [OF assms(1) eq(2)]) auto
  with eq assms(2) show ?thesis by simp
qed

lemma foreign_step_lease:
  assumes "foreign_step ours s calls s'" "pool_inv s" "only_mine own s" "set_option own \<subseteq> ours"
  shows "pool_inv s' \<and> length (pl_heap s) \<le> length (pl_heap s') \<and> only_mine own s'
    \<and> (own = None \<longrightarrow> mine_calls calls = [])
    \<and> (\<forall>i<length (pl_heap s). own = Some i \<longrightarrow> le_notify (lease_at s i) \<in> {None, Some Mine} \<longrightarrow>
         lease_effect (lease_at s i) (mine_calls calls) (lease_at s' i))"
  using assms(1)
proof cases
  case f_reserve
  obtain l s1 where "pool_reserve s = (l, s1)" by fastforce
  with f_reserve pool_reserve_lease [OF assms(2,3)] pool_reserve_refines [OF assms(2)] show ?thesis
    by (auto simp: lease_effect_def)
next
  case (f_subscribe i n)
  moreover have "own \<noteq> Some i" using f_subscribe assms(4) by auto
  moreover obtain l where heap: "pl_heap s' = (pl_heap s)[i := l]" "le_notify l = Some (Theirs n)"
    and "mine_calls calls = []"
    using f_subscribe(3) by (auto simp: pool_subscribe_def Let_def split: if_splits)
  moreover have "only_mine own s'"
    using heap by (intro only_mine_update [OF assms(3) heap(1) f_subscribe(1)]) simp
  ultimately show ?thesis
    using pool_subscribe_refines [OF assms(2) f_subscribe(1), of "Theirs n"]
    by (auto simp: lease_effect_def)
next
  case (f_release i)
  moreover have "own \<noteq> Some i" using f_release assms(4) by auto
  ultimately show ?thesis
    using pool_release_lease [unfolded release_effect_def, OF assms(2,3) f_release(1,3)] pool_release_refines [OF assms(2) f_release(1)]
    by (auto split: if_splits)
next
  case f_close
  then show ?thesis
    using pool_close_lease [OF assms(2,3)] pool_close_refines [OF assms(2)] by auto
qed

section \<open>Where the request is\<close>

datatype stage =
    StSubscribe
  | StCredit
  | StCalled bool
  | StAssign nat
  | StLease nat
  | StWait nat
  | StDone

fun stage_token :: "stage \<Rightarrow> adm_action list" where
  "stage_token StSubscribe = [SubscribeCredit]"
| "stage_token StCredit = []"
| "stage_token (StCalled b) = [CreditCall b]"
| "stage_token (StAssign l) = [AssignLease l]"
| "stage_token (StLease l) = [SubscribeLease l]"
| "stage_token (StWait l) = []"
| "stage_token StDone = []"

definition is_token :: "adm_action \<Rightarrow> bool" where
  "is_token x = (case x of Resolve _ \<Rightarrow> False | ReleaseLease _ \<Rightarrow> False | _ \<Rightarrow> True)"

definition is_resolve :: "adm_action \<Rightarrow> bool" where
  "is_resolve x = (case x of Resolve _ \<Rightarrow> True | _ \<Rightarrow> False)"

lemma action_kinds [simp]:
  "is_token SubscribeCredit" "is_token (CreditCall b)" "is_token (AssignLease l)"
  "is_token (SubscribeLease l)" "\<not> is_token (ReleaseLease l)" "\<not> is_token (Resolve b)"
  "\<not> is_resolve SubscribeCredit" "\<not> is_resolve (CreditCall b)" "\<not> is_resolve (AssignLease l)"
  "\<not> is_resolve (SubscribeLease l)" "\<not> is_resolve (ReleaseLease l)" "is_resolve (Resolve b)"
  by (simp_all add: is_token_def is_resolve_def)

abbreviation credit_lease :: "admission \<Rightarrow> bulk_cb lease" where
  "credit_lease a \<equiv> lease_at (ad_window a) (ad_credit a)"

abbreviation slot :: "admission \<Rightarrow> nat \<Rightarrow> bulk_cb lease" where
  "slot a l \<equiv> lease_at (ad_sched a) l"

definition pools_ok :: "admission \<Rightarrow> bool" where
  "pools_ok a \<longleftrightarrow> pool_inv (ad_window a) \<and> pool_inv (ad_sched a)
     \<and> ad_credit a < length (pl_heap (ad_window a)) \<and> only_mine (Some (ad_credit a)) (ad_window a)
     \<and> only_mine (ad_own a) (ad_sched a) \<and> (\<forall>l. ad_own a = Some l \<longrightarrow> l < length (pl_heap (ad_sched a)))"

text \<open>Callbacks registered and heard: the credit's and the slot's.\<close>

definition credit_ok :: "stage \<Rightarrow> bulk_cb lease \<Rightarrow> bool" where
  "credit_ok st c \<longleftrightarrow> (if st = StSubscribe then le_notify c = None \<and> \<not> le_notified c
     else le_notify c = Some Mine \<and> le_notified c = (st \<noteq> StCredit))"

fun slot_ok :: "stage \<Rightarrow> admission \<Rightarrow> bool" where
  "slot_ok (StAssign l) a \<longleftrightarrow> ad_own a = Some l \<and> ad_lease a = None
     \<and> le_notify (slot a l) = None \<and> \<not> le_notified (slot a l)"
| "slot_ok (StLease l) a \<longleftrightarrow> ad_own a = Some l \<and> (ad_released a \<or> ad_lease a = Some l)
     \<and> le_notify (slot a l) = None \<and> \<not> le_notified (slot a l)"
| "slot_ok (StWait l) a \<longleftrightarrow> ad_own a = Some l \<and> (ad_released a \<or> ad_lease a = Some l)
     \<and> le_notify (slot a l) = Some Mine \<and> \<not> le_notified (slot a l)"
| "slot_ok StDone a \<longleftrightarrow> (\<forall>l. ad_own a = Some l \<longrightarrow>
     le_notify (slot a l) = Some Mine \<and> le_notified (slot a l)
     \<or> le_notify (slot a l) = None \<and> ad_released a)"
| "slot_ok _ a \<longleftrightarrow> ad_own a = None"

definition gate_ok :: "stage \<Rightarrow> admission \<Rightarrow> bool" where
  "gate_ok st a \<longleftrightarrow> g_remaining (ad_gate a) = int (ad_deps a)
       + int (length (filter is_resolve (ad_pending a))) + (if st = StDone then 0 else 1)
     \<and> (g_ready (ad_gate a) \<longleftrightarrow> g_remaining (ad_gate a) = 0)
     \<and> ad_wakes a = (if g_ready (ad_gate a) then 1 else 0)"

fun assigning :: "stage \<Rightarrow> bool" where
  "assigning (StAssign l) = True"
| "assigning _ = False"

definition release_ok :: "stage \<Rightarrow> admission \<Rightarrow> bool" where
  "release_ok st a \<longleftrightarrow>
     ad_lease a = (if ad_released a \<or> assigning st then None else ad_own a)
     \<and> (\<forall>l. ReleaseLease l \<in> set (ad_pending a) \<longrightarrow> ad_own a = Some l \<and> ad_released a \<and> \<not> assigning st)
     \<and> (\<forall>l. ad_own a = Some l \<longrightarrow> ad_released a \<longrightarrow> \<not> assigning st \<longrightarrow>
          ReleaseLease l \<in> set (ad_pending a) \<or> le_released (slot a l))"

definition success_ok :: "stage \<Rightarrow> admission \<Rightarrow> bool" where
  "success_ok st a \<longleftrightarrow> st = StDone \<longrightarrow> g_failed (ad_gate a) \<or> Resolve False \<in> set (ad_pending a)
     \<or> ad_released a \<or> (\<exists>l. ad_lease a = Some l \<and> le_granted (slot a l))"

definition adm_inv :: "stage \<Rightarrow> admission \<Rightarrow> bool" where
  "adm_inv st a \<longleftrightarrow> pools_ok a \<and> filter is_token (ad_pending a) = stage_token st
     \<and> credit_ok st (credit_lease a) \<and> slot_ok st a \<and> gate_ok st a \<and> release_ok st a \<and> success_ok st a"

lemmas adm_defs = adm_inv_def pools_ok_def credit_ok_def gate_ok_def release_ok_def success_ok_def

lemma token_split:
  assumes "filter is_token (xs @ x # ys) = stage_token st" "is_token x"
  shows "stage_token st = [x] \<and> filter is_token (xs @ ys) = []"
  using assms by (cases st) (auto simp: append_eq_Cons_conv filter_empty_conv)

lemma gate_resolve_Ret:
  assumes "0 < g_remaining g" "g_ready g \<longleftrightarrow> g_remaining g = 0"
  shows "\<exists>g'. gate_resolve b g = Ret (g', g_ready g') \<and> g_remaining g' = g_remaining g - 1
    \<and> (g_ready g' \<longleftrightarrow> g_remaining g' = 0) \<and> (g_failed g' \<longleftrightarrow> g_failed g \<or> \<not> b)"
  using assms by (cases g) (auto simp: gate_resolve_def Let_def)

subsection \<open>Others at work\<close>

text \<open>A lease we watch keeps its state, or gets its one answer.\<close>

lemma lease_effect_cases:
  assumes "lease_effect l bs l'" "waiting l \<longrightarrow> \<not> le_notified l"
  obtains (quiet) "bs = []" "le_notify l' = le_notify l" "le_notified l' = le_notified l"
      "le_granted l \<longrightarrow> le_granted l'" "le_released l \<longrightarrow> le_released l'"
  | (answer) b cb where "bs = [b]" "le_notify l = Some cb" "le_notify l' = Some cb" "\<not> le_notified l"
      "le_notified l'" "b \<longrightarrow> le_granted l'" "\<not> le_granted l" "\<not> le_released l"
proof (cases "l' = l")
  case True
  have "awarded_lease l \<noteq> l \<and> failed_lease l \<noteq> l" if "waiting l"
    using that by (cases l) (simp add: awarded_lease_def failed_lease_def waiting_def)
  with True assms(1) quiet show ?thesis by (auto simp: lease_effect_def)
next
  case False
  with assms have w: "waiting l" "\<not> le_notified l" by (auto simp: lease_effect_def)
  show ?thesis
  proof (cases "le_notify l")
    case None
    with assms(1) w show ?thesis
      by (intro quiet) (auto simp: lease_effect_def awarded_lease_def failed_lease_def waiting_def heard_def)
  next
    case (Some cb)
    with assms(1) w False show ?thesis
      by (intro answer [of "bs = [True]" cb])
        (auto simp: lease_effect_def awarded_lease_def failed_lease_def waiting_def heard_def)
  qed
qed

lemma window_effect:
  assumes inv: "adm_inv st a" and w: "pool_inv w" "length (pl_heap (ad_window a)) \<le> length (pl_heap w)"
    "only_mine (Some (ad_credit a)) w" and eff: "lease_effect (credit_lease a) bs (lease_at w (ad_credit a))"
  shows "\<exists>st'. adm_inv st' (a\<lparr>ad_window := w, ad_pending := ad_pending a @ map CreditCall bs\<rparr>)"
proof -
  have c: "waiting (credit_lease a) \<longrightarrow> \<not> le_notified (credit_lease a)"
    using inv pool_inv_facts(11) by (auto simp: adm_inv_def pools_ok_def)
  from eff c show ?thesis
  proof (cases rule: lease_effect_cases)
    case quiet
    have "slot_ok st (a\<lparr>ad_window := w\<rparr>) = slot_ok st a" by (cases st) auto
    with inv w quiet(1-3) show ?thesis by (intro exI [of _ st]) (auto simp: adm_defs)
  next
    case (answer b cb)
    then have st: "st = StCredit" using inv by (auto simp: adm_inv_def credit_ok_def split: if_splits)
    show ?thesis
      using inv w answer unfolding st by (intro exI [of _ "StCalled b"]) (auto simp: adm_defs)
  qed
qed

lemma sched_effect:
  assumes inv: "adm_inv st a" and s: "pool_inv s" "length (pl_heap (ad_sched a)) \<le> length (pl_heap s)"
    "only_mine (ad_own a) s" and none: "ad_own a = None \<Longrightarrow> bs = []"
    and eff: "\<And>l. ad_own a = Some l \<Longrightarrow> lease_effect (slot a l) bs (lease_at s l)"
  shows "\<exists>st'. adm_inv st' (a\<lparr>ad_sched := s, ad_pending := ad_pending a @ map Resolve bs\<rparr>)"
proof (cases "ad_own a")
  case None
  have "slot_ok st (a\<lparr>ad_sched := s\<rparr>) = slot_ok st a" using None by (cases st) auto
  moreover have "ad_lease a = None" using inv None by (auto simp: adm_defs)
  ultimately show ?thesis
    using inv s none None by (intro exI [of _ st]) (auto simp: adm_defs)
next
  case (Some l)
  have c: "waiting (slot a l) \<longrightarrow> \<not> le_notified (slot a l)"
    using inv Some pool_inv_facts(11) by (auto simp: adm_inv_def pools_ok_def)
  have lease: "ad_lease a = Some k \<Longrightarrow> k = l" for k
    using inv Some by (auto simp: adm_inv_def release_ok_def split: if_splits)
  from eff [OF Some] c show ?thesis
  proof (cases rule: lease_effect_cases)
    case quiet
    let ?a = "a\<lparr>ad_sched := s\<rparr>"
    have "slot_ok st ?a" using inv Some quiet(2,3) by (cases st) (auto simp: adm_inv_def)
    moreover have "pools_ok ?a" using inv s Some by (auto simp: adm_inv_def pools_ok_def)
    moreover have "gate_ok st ?a" using inv by (simp add: adm_inv_def gate_ok_def)
    moreover have "release_ok st ?a" using inv quiet(5) Some by (auto simp: adm_inv_def release_ok_def)
    moreover have "success_ok st ?a"
      using inv quiet(4) lease unfolding adm_inv_def success_ok_def by auto
    ultimately have "adm_inv st ?a" using inv by (simp add: adm_inv_def)
    then show ?thesis using quiet(1) by (intro exI [of _ st]) simp
  next
    case (answer b cb)
    then have st: "st = StWait l" using inv Some by (cases st) (auto simp: adm_defs)
    show ?thesis
      using inv s answer Some unfolding st by (intro exI [of _ StDone]) (auto simp: adm_defs)
  qed
qed

subsection \<open>The request's own sections\<close>

lemma act_subscribe_credit:
  assumes inv: "adm_inv StSubscribe a" and pend: "ad_pending a = xs @ SubscribeCredit # ys"
    and t: "filter is_token xs = []" "filter is_token ys = []"
  shows "\<exists>a'. run_action SubscribeCredit (a\<lparr>ad_pending := xs @ ys\<rparr>) = Ret a' \<and> (\<exists>st'. adm_inv st' a')"
proof -
  obtain calls w where sub: "pool_subscribe (ad_credit a) Mine (ad_window a) = (calls, w)" by fastforce
  have w: "pool_inv w" using inv sub pool_subscribe_refines [of "ad_window a" "ad_credit a" Mine]
    by (auto simp: adm_defs)
  have eff: "length (pl_heap w) = length (pl_heap (ad_window a)) \<and> only_mine (Some (ad_credit a)) w
    \<and> le_notify (lease_at w (ad_credit a)) = Some Mine
    \<and> le_notified (lease_at w (ad_credit a)) = (\<not> waiting (credit_lease a))
    \<and> mine_calls calls = (if waiting (credit_lease a) then [] else [le_granted (credit_lease a)])"
    using inv sub pool_subscribe_lease [of "ad_credit a" "ad_window a" calls w] by (auto simp: adm_defs)
  show ?thesis
  proof (cases "waiting (credit_lease a)")
    case True
    with inv pend t sub w eff show ?thesis
      by (intro exI conjI [OF _ exI [of _ StCredit]]) (auto simp: adm_defs credit_subscribe_def)
  next
    case False
    with inv pend t sub w eff show ?thesis
      by (intro exI conjI [OF _ exI [of _ "StCalled (le_granted (credit_lease a))"]])
        (auto simp: adm_defs credit_subscribe_def)
  qed
qed

lemma act_credit_call:
  assumes inv: "adm_inv (StCalled b) a" and pend: "ad_pending a = xs @ CreditCall b # ys"
    and t: "filter is_token xs = []" "filter is_token ys = []"
  shows "\<exists>a'. run_action (CreditCall b) (a\<lparr>ad_pending := xs @ ys\<rparr>) = Ret a' \<and> (\<exists>st'. adm_inv st' a')"
proof -
  show ?thesis
  proof (cases b)
    case False
    with inv pend t show ?thesis
      by (intro exI conjI [OF _ exI [of _ StDone]]) (auto simp: adm_defs)
  next
    case True
    obtain l s where res: "pool_reserve (ad_sched a) = (l, s)" by fastforce
    have own: "ad_own a = None" using inv by (simp add: adm_inv_def)
    have s: "pool_inv s" using inv res pool_reserve_refines [of "ad_sched a"] by (auto simp: adm_defs)
    have eff: "l < length (pl_heap s) \<and> only_mine None s \<and> le_notify (lease_at s l) = None
        \<and> \<not> le_notified (lease_at s l)"
      using inv own res pool_reserve_lease [of "ad_sched a" None l s] by (auto simp: adm_defs)
    then have "only_mine (Some l) s" by (auto simp: only_mine_def)
    with inv True pend t res s eff own show ?thesis
      by (intro exI conjI [OF _ exI [of _ "StAssign l"]]) (auto simp: adm_defs)
  qed
qed

lemma act_assign:
  assumes inv: "adm_inv (StAssign l) a" and pend: "ad_pending a = xs @ AssignLease l # ys"
    and t: "filter is_token xs = []" "filter is_token ys = []"
  shows "\<exists>a'. run_action (AssignLease l) (a\<lparr>ad_pending := xs @ ys\<rparr>) = Ret a' \<and> (\<exists>st'. adm_inv st' a')"
proof -
  show ?thesis
  proof (cases "ad_released a")
    case True
    with inv pend t show ?thesis
      by (intro exI conjI [OF _ exI [of _ StDone]]) (auto simp: adm_defs)
  next
    case False
    with inv pend t show ?thesis
      by (intro exI conjI [OF _ exI [of _ "StLease l"]]) (auto simp: adm_defs)
  qed
qed

lemma act_subscribe_lease:
  assumes inv: "adm_inv (StLease l) a" and pend: "ad_pending a = xs @ SubscribeLease l # ys"
    and t: "filter is_token xs = []" "filter is_token ys = []"
  shows "\<exists>a'. run_action (SubscribeLease l) (a\<lparr>ad_pending := xs @ ys\<rparr>) = Ret a' \<and> (\<exists>st'. adm_inv st' a')"
proof -
  obtain calls s where sub: "pool_subscribe l Mine (ad_sched a) = (calls, s)" by fastforce
  have own: "ad_own a = Some l" "l < length (pl_heap (ad_sched a))" using inv by (auto simp: adm_defs)
  have s: "pool_inv s" using inv own sub pool_subscribe_refines [of "ad_sched a" l Mine]
    by (auto simp: adm_defs)
  have eff: "length (pl_heap s) = length (pl_heap (ad_sched a)) \<and> only_mine (Some l) s
    \<and> le_notify (lease_at s l) = Some Mine \<and> le_granted (lease_at s l) = le_granted (slot a l)
    \<and> le_released (lease_at s l) = le_released (slot a l)
    \<and> le_notified (lease_at s l) = (\<not> waiting (slot a l))
    \<and> mine_calls calls = (if waiting (slot a l) then [] else [le_granted (slot a l)])"
    using inv own sub pool_subscribe_lease [of l "ad_sched a" calls s] by (auto simp: adm_defs)
  show ?thesis
  proof (cases "waiting (slot a l)")
    case True
    let ?a = "a\<lparr>ad_sched := s, ad_pending := xs @ ys\<rparr>"
    have at: "le_granted (lease_at s l) = le_granted (slot a l)"
      "le_released (lease_at s l) = le_released (slot a l)" "\<not> le_notified (lease_at s l)"
      "le_notify (lease_at s l) = Some Mine"
      using eff True by auto
    have "run_action (SubscribeLease l) (a\<lparr>ad_pending := xs @ ys\<rparr>) = Ret ?a"
      using sub eff True by simp
    moreover have "pools_ok ?a" using inv s eff own by (simp add: adm_defs)
    moreover have "credit_ok (StWait l) (credit_lease ?a)"
      using inv by (simp add: adm_inv_def credit_ok_def)
    moreover have "slot_ok (StWait l) ?a" using inv at by (simp add: adm_inv_def)
    moreover have "gate_ok (StWait l) ?a" using inv pend by (simp add: adm_inv_def gate_ok_def)
    moreover have "release_ok (StWait l) ?a"
      using inv pend own at by (auto simp: adm_inv_def release_ok_def)
    ultimately show ?thesis
      using t by (auto simp: adm_inv_def success_ok_def intro!: exI [of _ "StWait l"])
  next
    case False
    let ?g = "le_granted (slot a l)"
    let ?a = "a\<lparr>ad_sched := s, ad_pending := (xs @ ys) @ [Resolve ?g]\<rparr>"
    have at: "le_granted (lease_at s l) = ?g" "le_released (lease_at s l) = le_released (slot a l)"
      "le_notified (lease_at s l)" "le_notify (lease_at s l) = Some Mine" "\<not> ?g \<or> \<not> le_released (slot a l)"
      using eff False inv own pool_inv_facts(4) [of "ad_sched a" l] by (auto simp: adm_defs holders_of_def)
    have "run_action (SubscribeLease l) (a\<lparr>ad_pending := xs @ ys\<rparr>) = Ret ?a"
      using sub eff False by simp
    moreover have "pools_ok ?a" using inv s eff own by (simp add: adm_defs)
    moreover have "filter is_token (ad_pending ?a) = []" using t by simp
    moreover have "credit_ok StDone (credit_lease ?a)" using inv by (simp add: adm_inv_def credit_ok_def)
    moreover have "slot_ok StDone ?a" using own at by simp
    moreover have "gate_ok StDone ?a" using inv pend by (simp add: adm_inv_def gate_ok_def)
    moreover have "release_ok StDone ?a" using inv pend own at by (auto simp: adm_inv_def release_ok_def)
    moreover have "success_ok StDone ?a" using inv own at by (auto simp: adm_inv_def success_ok_def)
    ultimately show ?thesis by (auto simp: adm_inv_def intro!: exI [of _ StDone])
  qed
qed

lemmas act_token_cases = act_subscribe_credit act_credit_call act_assign act_subscribe_lease

lemma act_token:
  assumes inv: "adm_inv st a" and pend: "ad_pending a = xs @ x # ys" and tok: "is_token x"
  shows "\<exists>a'. run_action x (a\<lparr>ad_pending := xs @ ys\<rparr>) = Ret a' \<and> (\<exists>st'. adm_inv st' a')"
proof -
  have t: "stage_token st = [x]" "filter is_token xs = []" "filter is_token ys = []"
    using token_split [of xs x ys st] inv pend tok by (auto simp: adm_inv_def)
  then consider "st = StSubscribe" "x = SubscribeCredit" | b where "st = StCalled b" "x = CreditCall b"
    | l where "st = StAssign l" "x = AssignLease l" | l where "st = StLease l" "x = SubscribeLease l"
    by (cases st) auto
  then show ?thesis using act_token_cases [OF _ _ t(2,3)] inv pend by cases blast+
qed

lemma act_release:
  assumes inv: "adm_inv st a" and pend: "ad_pending a = xs @ ReleaseLease l # ys"
  shows "\<exists>a'. run_action (ReleaseLease l) (a\<lparr>ad_pending := xs @ ys\<rparr>) = Ret a' \<and> adm_inv st a'"
proof -
  have own: "ad_own a = Some l" "ad_released a" "\<not> assigning st" "l < length (pl_heap (ad_sched a))"
    "ad_lease a = None"
    using inv pend by (auto simp: adm_defs)
  have nt: "le_notify (slot a l) \<in> {None, Some Mine}"
    using inv own by (cases st) (auto simp: adm_inv_def)
  obtain calls s where rel: "pool_release l (ad_sched a) = (calls, s)" by fastforce
  have s: "pool_inv s"
    using inv own rel pool_release_refines [of "ad_sched a" l] by (auto simp: adm_defs)
  have eff: "length (pl_heap s) = length (pl_heap (ad_sched a))" "only_mine (Some l) s" "mine_calls calls = []"
    "le_released (lease_at s l)" "le_notify (lease_at s l) = le_notify (slot a l)"
    "le_notified (lease_at s l) = le_notified (slot a l)"
  proof -
    have "pool_inv (ad_sched a)" "only_mine (Some l) (ad_sched a)" using inv own(1) by (auto simp: adm_defs)
    from pool_release_lease [unfolded release_effect_def, OF this own(4) rel] own(4) nt
    show "length (pl_heap s) = length (pl_heap (ad_sched a))" "only_mine (Some l) s" "mine_calls calls = []"
      "le_released (lease_at s l)" "le_notify (lease_at s l) = le_notify (slot a l)"
      "le_notified (lease_at s l) = le_notified (slot a l)"
      by auto
  qed
  let ?a = "a\<lparr>ad_sched := s, ad_pending := xs @ ys\<rparr>"
  have "run_action (ReleaseLease l) (a\<lparr>ad_pending := xs @ ys\<rparr>) = Ret ?a"
    using rel eff(3) by simp
  moreover have "pools_ok ?a" using inv s eff own by (simp add: adm_defs)
  moreover have "slot_ok st ?a" using inv own eff by (cases st) (auto simp: adm_inv_def)
  moreover have "gate_ok st ?a" using inv pend by (simp add: adm_inv_def gate_ok_def)
  moreover have "release_ok st ?a" using inv pend own eff by (auto simp: adm_inv_def release_ok_def)
  moreover have "success_ok st ?a" using own by (simp add: success_ok_def)
  ultimately show ?thesis using inv pend by (auto simp: adm_inv_def)
qed

lemma resolve_inv:
  assumes "0 < g_remaining (ad_gate a)" "g_ready (ad_gate a) \<longleftrightarrow> g_remaining (ad_gate a) = 0"
  shows "\<exists>g. run_resolve b a = Ret (a\<lparr>ad_gate := g, ad_wakes := ad_wakes a + (if g_ready g then 1 else 0)\<rparr>) \<and> g_remaining g = g_remaining (ad_gate a) - 1
    \<and> (g_ready g \<longleftrightarrow> g_remaining g = 0) \<and> (g_failed g \<longleftrightarrow> g_failed (ad_gate a) \<or> \<not> b)"
proof -
  obtain g where "gate_resolve b (ad_gate a) = Ret (g, g_ready g)" "g_remaining g = g_remaining (ad_gate a) - 1"
    "g_ready g \<longleftrightarrow> g_remaining g = 0" "g_failed g \<longleftrightarrow> g_failed (ad_gate a) \<or> \<not> b"
    using gate_resolve_Ret [OF assms, of b] by blast
  then show ?thesis by (intro exI [of _ g]) (simp add: run_resolve_def)
qed

lemma act_resolve:
  assumes inv: "adm_inv st a" and pend: "ad_pending a = xs @ Resolve b # ys"
  shows "\<exists>a'. run_action (Resolve b) (a\<lparr>ad_pending := xs @ ys\<rparr>) = Ret a' \<and> adm_inv st a'"
proof -
  let ?a = "a\<lparr>ad_pending := xs @ ys\<rparr>"
  have "0 < g_remaining (ad_gate a)" "g_ready (ad_gate a) \<longleftrightarrow> g_remaining (ad_gate a) = 0"
    using inv pend by (auto simp: adm_inv_def gate_ok_def)
  then obtain g where g: "run_resolve b ?a = Ret (?a\<lparr>ad_gate := g, ad_wakes := ad_wakes a + (if g_ready g then 1 else 0)\<rparr>)"
    "g_remaining g = g_remaining (ad_gate a) - 1" "g_ready g \<longleftrightarrow> g_remaining g = 0"
    "g_failed g \<longleftrightarrow> g_failed (ad_gate a) \<or> \<not> b"
    using resolve_inv [of ?a b] by auto
  let ?b = "?a\<lparr>ad_gate := g, ad_wakes := ad_wakes a + (if g_ready g then 1 else 0)\<rparr>"
  have "slot_ok st ?b = slot_ok st a" by (cases st) auto
  moreover have "gate_ok st ?b" using inv g pend by (simp add: adm_inv_def gate_ok_def)
  moreover have "success_ok st ?b"
    using inv g pend by (auto simp: adm_inv_def success_ok_def)
  ultimately show ?thesis
    using inv g(1) pend by (auto simp: adm_inv_def pools_ok_def release_ok_def)
qed

lemma act_inv:
  assumes "adm_inv st a" "ad_pending a = xs @ x # ys"
  shows "\<exists>a'. run_action x (a\<lparr>ad_pending := xs @ ys\<rparr>) = Ret a' \<and> (\<exists>st'. adm_inv st' a')"
proof (cases x)
  case (ReleaseLease l)
  with act_release [of st a xs l ys] assms show ?thesis by blast
next
  case (Resolve b)
  with act_resolve [of st a xs b ys] assms show ?thesis by blast
qed (use act_token [OF assms] in simp_all)

subsection \<open>Every step\<close>

lemma finish_inv:
  assumes inv: "adm_inv st a"
  shows "adm_inv st (admission_release a)"
proof (cases "ad_released a")
  case True
  with inv show ?thesis by (simp add: admission_release_def)
next
  case False
  let ?a = "admission_release a"
  have rel: "\<forall>l. ReleaseLease l \<notin> set (ad_pending a)" using inv False by (auto simp: adm_inv_def release_ok_def)
  have same: "ad_window ?a = ad_window a" "ad_sched ?a = ad_sched a" "ad_credit ?a = ad_credit a"
    "ad_own ?a = ad_own a" "ad_gate ?a = ad_gate a" "ad_wakes ?a = ad_wakes a" "ad_deps ?a = ad_deps a" "ad_released ?a" "ad_lease ?a = None"
    "ad_pending ?a = ad_pending a @ (case ad_lease a of None \<Rightarrow> [] | Some l \<Rightarrow> [ReleaseLease l])"
    using False by (simp_all add: admission_release_def)
  have "slot_ok st ?a" using inv False by (cases st) (auto simp: adm_inv_def same)
  moreover have "pools_ok ?a" using inv by (simp add: adm_inv_def pools_ok_def same)
  moreover have "gate_ok st ?a"
    using inv by (auto simp: adm_inv_def gate_ok_def same split: option.splits)
  moreover have "release_ok st ?a"
    using inv False rel by (auto simp: adm_inv_def release_ok_def same split: option.splits)
  moreover have "filter is_token (ad_pending ?a) = stage_token st"
    using inv by (auto simp: adm_inv_def same split: option.splits)
  ultimately show ?thesis
    using inv by (simp add: adm_inv_def success_ok_def same)
qed

lemma credit_done_inv:
  assumes inv: "adm_inv st a" and rel: "credit_release (ad_credit a) (ad_window a) = (calls, w)"
  shows "adm_inv st (a\<lparr>ad_window := w, ad_pending := ad_pending a @ map CreditCall (mine_calls calls)\<rparr>)"
proof -
  have c: "ad_credit a < length (pl_heap (ad_window a))" "pool_inv (ad_window a)"
    "only_mine (Some (ad_credit a)) (ad_window a)" "le_notify (credit_lease a) \<in> {None, Some Mine}"
    using inv by (auto simp: adm_inv_def pools_ok_def credit_ok_def split: if_splits)
  have w: "pool_inv w" using pool_release_refines [OF c(2,1)] rel by (simp add: credit_release_def)
  have eff: "length (pl_heap w) = length (pl_heap (ad_window a))" "only_mine (Some (ad_credit a)) w"
    "mine_calls calls = []" "le_notify (lease_at w (ad_credit a)) = le_notify (credit_lease a)"
    "le_notified (lease_at w (ad_credit a)) = le_notified (credit_lease a)"
    using pool_release_lease [unfolded release_effect_def, OF c(2,3,1) rel [unfolded credit_release_def]] c(1,4) by auto
  let ?a = "a\<lparr>ad_window := w\<rparr>"
  have "slot_ok st ?a = slot_ok st a" by (cases st) auto
  moreover have "pools_ok ?a" using inv w eff by (simp add: adm_inv_def pools_ok_def)
  moreover have "credit_ok st (credit_lease ?a) = credit_ok st (credit_lease a)"
    using eff by (simp add: credit_ok_def)
  moreover have "gate_ok st ?a = gate_ok st a" "release_ok st ?a = release_ok st a"
    "success_ok st ?a = success_ok st a"
    by (simp_all add: gate_ok_def release_ok_def success_ok_def)
  ultimately have "adm_inv st ?a" using inv by (simp add: adm_inv_def)
  moreover have "a\<lparr>ad_window := w, ad_pending := ad_pending a\<rparr> = ?a" by simp
  ultimately show ?thesis using eff(3) by simp
qed

lemma dep_inv:
  assumes inv: "adm_inv st a" and "0 < ad_deps a"
  shows "\<exists>a'. run_resolve b a = Ret a' \<and> adm_inv st (a'\<lparr>ad_deps := ad_deps a - 1\<rparr>)"
proof -
  have "0 < g_remaining (ad_gate a)" "g_ready (ad_gate a) \<longleftrightarrow> g_remaining (ad_gate a) = 0"
    using assms by (auto simp: adm_inv_def gate_ok_def)
  then obtain g where g: "run_resolve b a = Ret (a\<lparr>ad_gate := g, ad_wakes := ad_wakes a + (if g_ready g then 1 else 0)\<rparr>)"
    "g_remaining g = g_remaining (ad_gate a) - 1" "g_ready g \<longleftrightarrow> g_remaining g = 0"
    "g_failed g \<longleftrightarrow> g_failed (ad_gate a) \<or> \<not> b"
    using resolve_inv [of a b] by auto
  let ?a = "a\<lparr>ad_gate := g, ad_wakes := ad_wakes a + (if g_ready g then 1 else 0), ad_deps := ad_deps a - 1\<rparr>"
  have "slot_ok st ?a = slot_ok st a" by (cases st) auto
  moreover have "gate_ok st ?a" using inv g assms(2) by (simp add: adm_inv_def gate_ok_def of_nat_diff)
  moreover have "success_ok st ?a" using inv g by (auto simp: adm_inv_def success_ok_def)
  ultimately have "adm_inv st ?a"
    using inv by (auto simp: adm_inv_def pools_ok_def release_ok_def)
  with g(1) show ?thesis by simp
qed

lemma adm_step_inv:
  assumes "\<exists>st. adm_inv st a" "adm_step a a'"
  shows "\<exists>st. adm_inv st a'"
proof -
  obtain st where inv: "adm_inv st a" using assms(1) by blast
  have p: "pool_inv (ad_window a)" "pool_inv (ad_sched a)" "only_mine (Some (ad_credit a)) (ad_window a)"
    "only_mine (ad_own a) (ad_sched a)" "ad_credit a < length (pl_heap (ad_window a))"
    "\<And>l. ad_own a = Some l \<Longrightarrow> l < length (pl_heap (ad_sched a))"
    using inv by (auto simp: adm_inv_def pools_ok_def)
  have n: "le_notify (credit_lease a) \<in> {None, Some Mine}"
    "\<And>l. ad_own a = Some l \<Longrightarrow> le_notify (slot a l) \<in> {None, Some Mine}"
    using inv by (auto simp: adm_inv_def credit_ok_def split: if_splits, cases st) auto
  from assms(2) show ?thesis
  proof cases
    case (act xs x ys)
    with act_inv [OF inv act(1)] show ?thesis by auto
  next
    case (dep b a1)
    with dep_inv [OF inv dep(2), of b] show ?thesis by auto
  next
    case finish
    with finish_inv [OF inv] show ?thesis by blast
  next
    case (credit_done calls w)
    with credit_done_inv [OF inv] show ?thesis by blast
  next
    case (env_window calls w)
    have "set_option (Some (ad_credit a)) \<subseteq> {ad_credit a}" by simp
    note f = foreign_step_lease [OF env_window(2) p(1,3) this]
    have "lease_effect (credit_lease a) (mine_calls calls) (lease_at w (ad_credit a))"
      using f p(5) n(1) by auto
    with f window_effect [OF inv] show ?thesis unfolding env_window(1) by simp
  next
    case (env_sched calls s)
    note f = foreign_step_lease [OF env_sched(2) p(2,4) order_refl]
    have "lease_effect (slot a l) (mine_calls calls) (lease_at s l)" if "ad_own a = Some l" for l
      using f p(6) [OF that] n(2) [OF that] that by auto
    with f sched_effect [OF inv] show ?thesis unfolding env_sched(1) by simp
  qed
qed

interpretation admissions: invariant_system adm_step "\<lambda>a. \<exists>st. adm_inv st a"
  by unfold_locales (rule adm_step_inv)

section \<open>What the admission promises\<close>

lemma new_admission_inv:
  assumes "pool_inv window" "pool_inv sched" "only_mine None window" "only_mine None sched"
  shows "adm_inv StSubscribe (new_admission window sched deps depFailed)"
proof -
  have "reserveBulkCredit window = pool_reserve window"
    using pool_inv_facts(1) [OF assms(1)] by (simp add: reserveBulkCredit_def)
  moreover obtain c w where res: "pool_reserve window = (c, w)" by fastforce
  moreover have "pool_inv w" using pool_reserve_refines [OF assms(1)] res by simp
  moreover note f = pool_reserve_lease [OF assms(1,3) res]
  moreover have "only_mine (Some c) w" using f by (auto simp: only_mine_def)
  ultimately show ?thesis
    using assms by (auto simp: new_admission_def adm_defs newInboundRPCGate_def Let_def)
qed

lemma adm_inv_pools:
  assumes "adm_inv st a"
  shows "pool_inv (ad_window a)" "pool_inv (ad_sched a)"
    "\<And>l. ad_own a = Some l \<Longrightarrow> l < length (pl_heap (ad_sched a))"
  using assms by (auto simp: adm_inv_def pools_ok_def)

lemma adm_inv_gate:
  assumes "adm_inv st a"
  shows "g_remaining (ad_gate a) = int (ad_deps a) + int (length (filter is_resolve (ad_pending a)))
      + (if st = StDone then 0 else 1)" "g_ready (ad_gate a) \<longleftrightarrow> g_remaining (ad_gate a) = 0"
    "ad_wakes a = (if gate_runnable (ad_gate a) then 1 else 0)"
  using assms by (auto simp: adm_inv_def gate_ok_def gate_runnable_def)

lemma success_holds_slot:
  assumes inv: "adm_inv st a" and ok: "gate_success (ad_gate a)" "\<not> ad_released a"
  shows "\<exists>l\<in>holders (ad_sched a). ad_lease a = Some l"
proof -
  have "g_remaining (ad_gate a) = 0" "\<not> g_failed (ad_gate a)"
    using ok(1) adm_inv_gate(2) [OF inv] by (auto simp: gate_success_def)
  then have "st = StDone" and none: "int (length (filter is_resolve (ad_pending a))) = 0"
    using adm_inv_gate(1) [OF inv] by (auto split: if_splits simp flip: length_0_conv)
  from none have "Resolve False \<notin> set (ad_pending a)" by (auto simp: filter_empty_conv)
  then obtain l where l: "ad_lease a = Some l" "le_granted (slot a l)"
    using inv ok(2) \<open>st = StDone\<close> \<open>\<not> g_failed (ad_gate a)\<close> by (auto simp: adm_inv_def success_ok_def)
  then have "ad_own a = Some l" using inv by (auto simp: adm_inv_def release_ok_def split: if_splits)
  with l adm_inv_pools(3) [OF inv] show ?thesis by (auto simp: holders_of_def)
qed

lemma cancelled_returns_slot:
  assumes inv: "adm_inv st a" and fin: "ad_released a" "ad_pending a = []" "ad_own a = Some l"
  shows "l \<notin> holders (ad_sched a) \<and> l \<notin> set (queue (ad_sched a))"
proof -
  have "\<not> assigning st" using inv fin(2) by (cases st) (auto simp: adm_inv_def)
  then have "le_released (slot a l)" using inv fin by (auto simp: adm_inv_def release_ok_def)
  then show ?thesis using pool_inv_facts(4) [OF adm_inv_pools(2) [OF inv]] by (auto simp: set_queue)
qed

lemma granted_opens_gate:
  assumes inv: "adm_inv st a" and "ad_pending a = []" "ad_deps a = 0" "ad_credit a \<in> holders (ad_window a)"
    and "\<forall>l. ad_own a = Some l \<longrightarrow> l \<in> holders (ad_sched a)"
  shows "gate_runnable (ad_gate a)"
proof -
  note pools = adm_inv_pools [OF inv]
  have "st \<noteq> StCredit"
    using inv pool_inv_facts(10) [OF pools(1) assms(4)] by (auto simp: adm_inv_def credit_ok_def)
  moreover have "st \<noteq> StWait l" for l
    using inv assms(5) pool_inv_facts(10) [OF pools(2), of l] by (auto simp: adm_inv_def)
  ultimately have "st = StDone" using inv assms(2) by (cases st) (auto simp: adm_inv_def)
  then show ?thesis using adm_inv_gate [OF inv] assms(2,3) by (simp add: gate_runnable_def)
qed

text \<open>
  C22. A bulk request on its way to a worker. Whatever other requests do with the credit window and
  the scheduler, whenever the task is cancelled or a pool closed, and in whatever order the pending
  callbacks run: (1) neither a pending section nor a dependency's callback finds the gate
  exhausted: the underflow panic is unreachable and every section completes; (2) when the gate lets the task run and the
  task was not cancelled, it owns a granted slot of the scheduler; (3) once the task is cancelled
  and its callbacks have run, its slot is returned and it waits for none; (4) once the credit and
  the slot are granted, the dependencies resolved and the callbacks run, the gate is open; (5) the
  gate has woken its connection exactly once if it is open and not at all before: no wake-up is
  lost and none is repeated.
\<close>

theorem bulk_admission_sound:
  assumes "pool_inv window" "pool_inv sched" "only_mine None window" "only_mine None sched"
    and "adm_step\<^sup>*\<^sup>* (new_admission window sched deps depFailed) a"
  shows "(\<forall>xs x ys. ad_pending a = xs @ x # ys \<longrightarrow> (\<exists>a'. run_action x (a\<lparr>ad_pending := xs @ ys\<rparr>) = Ret a'))
    \<and> (0 < ad_deps a \<longrightarrow> (\<exists>a'. run_resolve b a = Ret a'))
    \<and> (gate_success (ad_gate a) \<and> \<not> ad_released a \<longrightarrow>
         (\<exists>l\<in>holders (ad_sched a). ad_lease a = Some l))
    \<and> (ad_released a \<and> ad_pending a = [] \<longrightarrow>
         (\<forall>l. ad_own a = Some l \<longrightarrow> l \<notin> holders (ad_sched a) \<and> l \<notin> set (queue (ad_sched a))))
    \<and> (ad_pending a = [] \<and> ad_deps a = 0 \<and> ad_credit a \<in> holders (ad_window a)
         \<and> (\<forall>l. ad_own a = Some l \<longrightarrow> l \<in> holders (ad_sched a)) \<longrightarrow> gate_runnable (ad_gate a))
    \<and> ad_wakes a = (if gate_runnable (ad_gate a) then 1 else 0)"
proof -
  obtain st where inv: "adm_inv st a"
    using admissions.run_inv [OF assms(5)] new_admission_inv [OF assms(1-4)] by blast
  show ?thesis
    using act_inv [OF inv] dep_inv [OF inv] success_holds_slot [OF inv] cancelled_returns_slot [OF inv]
      granted_opens_gate [OF inv] adm_inv_gate(3) [OF inv]
    by blast
qed

text \<open>A request alone on idle pools, its callbacks run in the order they were queued.\<close>

fun drain :: "nat \<Rightarrow> admission \<Rightarrow> admission" where
  "drain 0 a = a"
| "drain (Suc n) a = (case ad_pending a of
     [] \<Rightarrow> a
   | x # ys \<Rightarrow> (case run_action x (a\<lparr>ad_pending := ys\<rparr>) of Ret a' \<Rightarrow> drain n a' | Panic _ \<Rightarrow> a))"

lemma drain_steps: "adm_step\<^sup>*\<^sup>* a (drain n a)"
proof (induction n arbitrary: a)
  case (Suc n)
  show ?case
  proof (cases "ad_pending a")
    case (Cons x ys)
    have "adm_step a a'" if "run_action x (a\<lparr>ad_pending := ys\<rparr>) = Ret a'" for a'
      using adm_step.act [of a "[]" x ys a'] that Cons by simp
    with Cons Suc show ?thesis by (auto split: outcome.split intro: converse_rtranclp_into_rtranclp)
  qed simp
qed simp

definition demo_admission :: admission where
  "demo_admission = new_admission new_window (newBulkRPCScheduler 2) 0 False"

theorem bulk_admission_sound_witness:
  "gate_success (ad_gate (drain 6 demo_admission))
   \<and> (\<exists>l\<in>holders (ad_sched (drain 6 demo_admission)). ad_lease (drain 6 demo_admission) = Some l)
   \<and> ad_wakes (drain 6 demo_admission) = 1"
proof -
  have idle: "pool_inv new_window" "pool_inv (newBulkRPCScheduler 2)"
    "only_mine None new_window" "only_mine None (newBulkRPCScheduler 2)"
    by (simp_all add: new_window_def newBulkRPCScheduler_def defaultBulkACKWindow_def pool_inv_def
        only_mine_def holders_of_def queue_of_def)
  have run: "gate_success (ad_gate (drain 6 demo_admission)) \<and> \<not> ad_released (drain 6 demo_admission)"
    by code_simp
  have steps: "adm_step\<^sup>*\<^sup>* (new_admission new_window (newBulkRPCScheduler 2) 0 False) (drain 6 demo_admission)"
    unfolding demo_admission_def by (rule drain_steps)
  have "gate_runnable (ad_gate (drain 6 demo_admission))" by code_simp
  then show ?thesis using run bulk_admission_sound [OF idle steps] by simp
qed

end
