(* ===== verification/Spec2Isabelle.thy ===== *)
theory Spec2Isabelle
  imports Stars_Ledger Update_Service Secret_Chat Phone_Calls Rpc_Guarantees Privacy_Cache Login_Codes Auth_Keys_Theorems Private_Messages_Retry
    Frame_Budget_Runs Bulk_Admission
begin

text \<open>
  A verification development for \<open>gramsrv\<close>, a Telegram-compatible MTProto server written in Go.

  \<^bold>\<open>The program.\<close> An edge (\<open>internal/mtprotoedge\<close>) terminates client connections, admits and
  deduplicates requests; the RPC layer (\<open>internal/rpc\<close>) decodes them and calls the application
  services (\<open>internal/app\<close>), which hold the rules of the system and keep their state in stores
  behind narrow interfaces (\<open>internal/store\<close>), each with an in-memory and a PostgreSQL
  implementation. Data types and pure rules are in \<open>internal/domain\<close>. A change that concerns an
  account becomes an event of its update log; devices that were away fetch the events they missed.

  \<^bold>\<open>What is modelled, and what is shown of it.\<close> Definitions keep the names of the Go functions they
  translate; a prefix tells apart methods of the same name (\<open>StarsStore_Debit\<close>,
  \<open>StarsService_Debit\<close>), and a part of a function that is a definition of its own has a name in
  small letters.

  \<^item> Gram_Prelude: Go's \<open>int64\<close> with its wrap-around, panics, peers, sharded maps, lemmas on lists
    and association lists, and the two contracts for runs, \<open>invariant_system\<close> and
    \<open>monotone_system\<close>, in which the stores below are interpreted.
  \<^item> Cursor_Codec and Stars_Ledger: the Stars currency (\<open>domain/stars.go\<close>,
    \<open>store/memory/stars.go\<close>, \<open>app/stars/service.go\<close>). The service is proved over the contract
    \<open>stars_backend\<close>, which the memory store meets. Balances are the sums of their transactions, no
    debit overdraws while the inflow fits an \<open>int64\<close>, the grant is given once, the pages of the
    history cover it, and cursors decode to what was encoded.
  \<^item> Update_Log and Update_Service: the per-account update log, the per-device cursors and the
    service through which all subsystems write events and devices catch up
    (\<open>domain/update_event.go\<close>, \<open>store/memory/updates.go\<close>, \<open>app/updates/service.go\<close>). Logs have no
    gaps, a client that follows differences loses nothing and repeats nothing, and catching up ends.
  \<^item> DH_Params and Secret_Chat: end-to-end encrypted chats (\<open>domain/secretchat.go\<close>,
    \<open>store/memory/secretchat.go\<close>, \<open>app/secretchat\<close>). Calls of the service take several critical
    sections, and the theorems hold for every interleaving of them: one accept wins, a discard is
    final, queues are dense and deliver to the bound device only.
  \<^item> Sha256 and Phone_Calls: private calls (\<open>domain/phone.go\<close>, \<open>app/phone\<close>): the registry and its
    caps, the state machine of a call, the commitment to \<open>g_a\<close> and the negotiation of protocols.
    SHA-256 is defined in full.
  \<^item> Rpc_Budget, Rpc_Ledger, Rpc_Ledger_Invariant, Rpc_Executions, Rpc_Operations,
    Rpc_Guarantees: the execution ledger of the edge (\<open>rpc_execution_budget.go\<close>, \<open>rpc_result_subscriber_budget.go\<close>,
    \<open>rpc_admission_tracker.go\<close>, \<open>rpc_execution_ledger.go\<close>, \<open>rpc_flight.go\<close>): a request is executed
    once within the life of its receipt, its callbacks run exactly once, counters equal what they
    count, no guard of the code panics, and the operations that take several locks in turn are runs of
    the single-lock steps with exactly the traces and effects written out in Rpc_Operations.
  \<^item> Read_Model_Cache: the cache shared by the services (\<open>readmodelcache/cache.go\<close>): coherence in
    every interleaving of loads, writes and invalidations, bounds, LRU order and termination of loads.
  \<^item> Contacts: the address book (\<open>store/memory/contacts.go\<close>) and its mutual flags.
  \<^item> Privacy, Privacy_Theorems, Privacy_Cache: rules and their evaluation (\<open>domain/privacy.go\<close>,
    \<open>domain/privacy_evaluate.go\<close>, \<open>store/memory/privacy.go\<close>, \<open>app/privacy\<close>): the three batched forms
    answer like single questions, rejected writes change nothing, and the caches are transparent
    (over the contract \<open>rules_source\<close>).
  \<^item> Login_Codes: one-time codes (\<open>store/code.go\<close>, \<open>store/memory/auth.go\<close>, \<open>login_code.go\<close>,
    \<open>code_cas.go\<close>): guesses are bounded, a code is accepted and taken once.
  \<^item> Auth_Keys and Auth_Keys_Theorems: protocol keys, bindings of temporary keys, session layers and
    authorizations (\<open>store/authkey.go\<close>, \<open>store/memory/auth.go\<close>, \<open>authkey_session_layer.go\<close>): the
    tables stay consistent, destruction cascades, and who is revoked stays out.
  \<^item> Private_Messages, Private_Messages_Invariant, Private_Messages_Theorems,
    Private_Messages_Retry: boxes and dialogs of one-to-one messages (\<open>store/memory/message_*.go\<close>, \<open>dialogs.go\<close>, \<open>private_send_idempotency.go\<close>,
    \<open>domain/message.go\<close>): exact counters, truthful receipts, sends that take effect once, exact
    deletion, contiguous events and complete paging; and that a send whose message was cleared in place
    and deleted afterwards can no longer be retried.
  \<^item> Transport_Framing, Transport_Framing_Theorems, Frame_Budget_Runs: the frames of the abridged and
    intermediate transports and the budget of inbound bytes (\<open>transport_compat.go\<close>,
    \<open>frame_budget.go\<close>, the reservations of \<open>encrypted.go\<close>). Written frames are read back however the
    network cuts them, no payload buffer grows before its bytes are reserved, an error leaves nothing
    reserved, and the counter of the budget is exact under every interleaving of connections. The
    theorems on a receive hold for any codec that reads through \<open>stream_reader\<close>.
  \<^item> Bulk_Flow, Bulk_Flow_Theorems, Bulk_Admission: what holds file downloads back
    (\<open>bulk_rpc_scheduler.go\<close>, the credits of \<open>outbound.go\<close>, the gate of \<open>inbound_rpc.go\<close> and
    \<open>newLayerRPCExecutionGate\<close>). The scheduler and the credit window refine a first-come-first-served
    semaphore; a download passes both in turn, and whatever others do meanwhile its gate does not
    underflow, it runs only with a slot, returns it when cancelled, and its connection is woken exactly once.

  \<^bold>\<open>Concurrency.\<close> A store operation runs under its mutex and is one step. Operations of the ledger
  and of the secret-chat service that take several locks in turn are several steps, between which
  others run; so are the sections of the frame budget and of a bulk admission. Loads of the cache are
  modelled as turns with arbitrary interference. Loops over Go maps that stop early take the order
  of iteration as an argument.

  \<^bold>\<open>Bounds and fuel.\<close> Recursion is structural or has a measure. Where a client repeats requests
  (\<open>catch_up\<close>, \<open>history_walk\<close>, the pages of Stars) the number of rounds is an argument, and the
  theorems give a number that is enough. Reading a full frame takes the number of its bytes as fuel,
  since every read brings at least one. Ids and sequence numbers are \<open>int\<close>; where an overflow can
  be reached (Stars, cache epochs) the wrap-around is written out, and where the code relies on a
  range (message ids within 31 bits) the theorem says so.

  \<^bold>\<open>Parameters.\<close> Clocks, random values, the JSON codec, the retention checkpoint and the purchase
  store of PostgreSQL, the users and channels services behind the privacy rules and the replay store
  of the ledger, the linked transport codecs (any program over the reader) and the start bytes of the
  transports are arguments. Theorems name what they need of them.

  \<^bold>\<open>Not modelled.\<close> The RPC layer translates wire types; the PostgreSQL and Redis stores are SQL and
  scripts of those systems behind the interfaces whose in-memory versions are modelled; encryption
  of connections, sockets, deadlines and delivery are input and output. Channels, stories, bots,
  stickers and files, group calls, moderation, gifts and wallets, administration and the command-line
  programs are further subsystems of the same pattern that this development does not cover.
\<close>

end
